(* ===== verification/Prelude.thy ===== *)
theory Prelude imports Main begin

text \<open>
  Shared vocabulary of the development: the fixed-width integer casts of Rust written out on
  \<open>int\<close> and \<open>nat\<close>, the \<open>Result\<close> type, and the collections of simplification rules
  the component theories fill.

  Values of type \<open>i32\<close>, \<open>i64\<close> and \<open>i128\<close> are \<open>int\<close>; \<open>usize\<close>, \<open>u32\<close> and \<open>u64\<close>
  indices and counters are \<open>nat\<close>. Every \<open>as\<close> cast of the source is one of the casts below,
  so a value that leaves its width is wrapped exactly where the code wraps it.
\<close>

named_theorems trail_simps \<open>rewrite rules for the operations of the trail\<close>
named_theorems width_simps \<open>casts that are the identity inside the range of their type\<close>

section \<open>Identifiers\<close>

text \<open>The \<open>u32\<close> newtypes of \<open>src/src/ids.rs\<close>; every one is an index into a vector of its owner.\<close>

type_synonym var_id = nat
type_synonym list_id = nat
type_synonym interval_id = nat
type_synonym prop_id = nat

section \<open>Machine integers\<close>

definition i32_min :: int where "i32_min = - 2147483648"

definition i32_max :: int where "i32_max = 2147483647"

definition i64_min :: int where "i64_min = - 9223372036854775808"

definition i64_max :: int where "i64_max = 9223372036854775807"

definition in_i32 :: "int \<Rightarrow> bool" where
  "in_i32 x \<longleftrightarrow> i32_min \<le> x \<and> x \<le> i32_max"

definition in_i64 :: "int \<Rightarrow> bool" where
  "in_i64 x \<longleftrightarrow> i64_min \<le> x \<and> x \<le> i64_max"

definition in_i128 :: "int \<Rightarrow> bool" where
  "in_i128 x \<longleftrightarrow> - (2 ^ 127) \<le> x \<and> x < 2 ^ 127"

text \<open>The casts \<open>x as i32\<close>, \<open>x as i64\<close> (two's complement truncation) and \<open>x as usize\<close>.\<close>

definition as_i32 :: "int \<Rightarrow> int" where
  "as_i32 x = signed_take_bit 31 x"

definition as_i64 :: "int \<Rightarrow> int" where
  "as_i64 x = signed_take_bit 63 x"

definition as_usize :: "int \<Rightarrow> nat" where
  "as_usize x = nat (x mod 18446744073709551616)"

lemma as_i32_id [width_simps]: "in_i32 x \<Longrightarrow> as_i32 x = x"
  by (simp add: as_i32_def in_i32_def i32_min_def i32_max_def signed_take_bit_int_eq_self_iff)

lemma as_i64_id [width_simps]: "in_i64 x \<Longrightarrow> as_i64 x = x"
  by (simp add: as_i64_def in_i64_def i64_min_def i64_max_def signed_take_bit_int_eq_self_iff)

lemma in_i32_as_i32 [simp]: "in_i32 (as_i32 x)"
proof -
  have "signed_take_bit 31 x < 2 ^ 31" by (rule signed_take_bit_int_less_exp)
  moreover have "- (2 ^ 31) \<le> signed_take_bit 31 x" by (rule signed_take_bit_int_greater_eq_minus_exp)
  ultimately show ?thesis
    by (simp add: as_i32_def in_i32_def i32_min_def i32_max_def)
qed

lemma in_i64_as_i64 [simp]: "in_i64 (as_i64 x)"
proof -
  have "signed_take_bit 63 x < 2 ^ 63" by (rule signed_take_bit_int_less_exp)
  moreover have "- (2 ^ 63) \<le> signed_take_bit 63 x" by (rule signed_take_bit_int_greater_eq_minus_exp)
  ultimately show ?thesis
    by (simp add: as_i64_def in_i64_def i64_min_def i64_max_def)
qed

lemma as_usize_id [width_simps]: "0 \<le> x \<Longrightarrow> x < 18446744073709551616 \<Longrightarrow> as_usize x = nat x"
  by (simp add: as_usize_def)

lemma as_usize_of_nat [width_simps]: "n < 18446744073709551616 \<Longrightarrow> as_usize (int n) = n"
  by (simp add: as_usize_def)

lemma as_i32_small_nat [width_simps]: "n \<le> 2147483647 \<Longrightarrow> as_i32 (int n) = int n"
  by (simp add: as_i32_id in_i32_def i32_min_def i32_max_def)

lemma in_i32_in_i64: "in_i32 x \<Longrightarrow> in_i64 x"
  by (simp add: in_i32_def in_i64_def i32_min_def i32_max_def i64_min_def i64_max_def)

text \<open>Rust's saturating and checked \<open>i32\<close> operations the store uses.\<close>

definition sat_i32 :: "int \<Rightarrow> int" where
  "sat_i32 x = max i32_min (min i32_max x)"

definition checked_i32 :: "int \<Rightarrow> int option" where
  "checked_i32 x = (if in_i32 x then Some x else None)"

definition checked_i64 :: "int \<Rightarrow> int option" where
  "checked_i64 x = (if in_i64 x then Some x else None)"

definition checked_i128 :: "int \<Rightarrow> int option" where
  "checked_i128 x = (if in_i128 x then Some x else None)"

lemma in_i32_sat [simp]: "in_i32 (sat_i32 x)"
  by (auto simp: sat_i32_def in_i32_def i32_min_def i32_max_def)

lemma sat_i32_id [width_simps]: "in_i32 x \<Longrightarrow> sat_i32 x = x"
  by (auto simp: sat_i32_def in_i32_def)

lemma checked_i32_Some [simp]: "checked_i32 x = Some y \<longleftrightarrow> in_i32 x \<and> y = x"
  by (auto simp: checked_i32_def)

lemma checked_i64_Some [simp]: "checked_i64 x = Some y \<longleftrightarrow> in_i64 x \<and> y = x"
  by (auto simp: checked_i64_def)

lemma checked_i128_Some [simp]: "checked_i128 x = Some y \<longleftrightarrow> in_i128 x \<and> y = x"
  by (auto simp: checked_i128_def)

text \<open>
  Rust's \<open>/\<close> and \<open>%\<close> on signed integers truncate toward zero: the quotient has the sign of
  \<open>a * b\<close>, the remainder that of the dividend.
\<close>

definition rust_div :: "int \<Rightarrow> int \<Rightarrow> int" where
  "rust_div a b = sgn a * sgn b * (\<bar>a\<bar> div \<bar>b\<bar>)"

definition rust_rem :: "int \<Rightarrow> int \<Rightarrow> int" where
  "rust_rem a b = a - b * rust_div a b"

lemma rust_div_rem: "rust_div a b * b + rust_rem a b = a"
  by (simp add: rust_rem_def)

lemma rust_div_abs: "\<bar>rust_div a b\<bar> = (if b = 0 then 0 else \<bar>a\<bar> div \<bar>b\<bar>)"
proof -
  have "0 \<le> \<bar>a\<bar> div \<bar>b\<bar>" if "b \<noteq> 0" using that by (simp add: pos_imp_zdiv_nonneg_iff)
  then show ?thesis by (auto simp: rust_div_def abs_mult abs_sgn_eq)
qed

lemma rust_rem_eq: "rust_rem a b = sgn a * (\<bar>a\<bar> mod \<bar>b\<bar>)"
proof -
  have "b * rust_div a b = sgn a * (\<bar>b\<bar> * (\<bar>a\<bar> div \<bar>b\<bar>))"
    by (simp add: rust_div_def sgn_if)
  also have "\<dots> = sgn a * (\<bar>a\<bar> - \<bar>a\<bar> mod \<bar>b\<bar>)"
    by (metis minus_mod_eq_mult_div)
  finally show ?thesis
    by (simp add: rust_rem_def right_diff_distrib sgn_mult_abs)
qed

lemma rust_rem_abs_less: "b \<noteq> 0 \<Longrightarrow> \<bar>rust_rem a b\<bar> < \<bar>b\<bar>"
  by (auto simp: rust_rem_eq abs_mult sgn_if)

section \<open>Results\<close>

text \<open>\<open>Result<T, E>\<close> of the source.\<close>

datatype ('a, 'e) result = Ok 'a | Err 'e

fun is_ok :: "('a, 'e) result \<Rightarrow> bool" where
  "is_ok (Ok _) = True"
| "is_ok (Err _) = False"

section \<open>Lists\<close>

lemma nth_map_upt [simp]: "i < n \<Longrightarrow> map f [0..<n] ! i = f i"
  by simp

lemma set_take_nth: "n \<le> length xs \<Longrightarrow> set (take n xs) = (\<lambda>i. xs ! i) ` {..<n}"
  by (simp add: nth_image [symmetric] atLeast0LessThan)

lemma in_set_take_iff: "n \<le> length xs \<Longrightarrow> x \<in> set (take n xs) \<longleftrightarrow> (\<exists>i<n. xs ! i = x)"
  by (auto simp: set_take_nth)

lemma in_set_filter_conv: "x \<in> set (filter P xs) \<longleftrightarrow> x \<in> set xs \<and> P x"
  by auto

text \<open>
  \<open>slice::binary_search\<close> of the standard library: the halving loop keeps a window
  \<open>[base, base + len)\<close> that holds the needle if the slice does. \<open>None\<close> is \<open>Err\<close>.
\<close>

fun bsearch_loop :: "'a::linorder list \<Rightarrow> 'a \<Rightarrow> nat \<Rightarrow> nat \<Rightarrow> nat option" where
  "bsearch_loop xs v base len =
     (if len > 1 then
        let half = len div 2; mid = base + half
        in bsearch_loop xs v (if xs ! mid > v then base else mid) (len - half)
      else if len = 1 \<and> xs ! base = v then Some base else None)"

declare bsearch_loop.simps [simp del]

definition binary_search :: "'a::linorder list \<Rightarrow> 'a \<Rightarrow> nat option" where
  "binary_search xs v = bsearch_loop xs v 0 (length xs)"

lemma bsearch_loop_sound:
  "bsearch_loop xs v base len = Some i \<Longrightarrow> xs ! i = v \<and> base \<le> i \<and> i < base + len"
proof (induction xs v base len rule: bsearch_loop.induct)
  case (1 xs v base len)
  show ?case
  proof (cases "len > 1")
    case True
    let ?b = "if xs ! (base + len div 2) > v then base else base + len div 2"
    have "bsearch_loop xs v ?b (len - len div 2) = Some i"
      using "1.prems" True by (subst (asm) bsearch_loop.simps) (simp add: Let_def)
    from "1.IH"[OF True refl refl this] show ?thesis
      by (auto split: if_splits)
  next
    case False
    then show ?thesis
      using "1.prems" by (subst (asm) bsearch_loop.simps) (auto split: if_splits)
  qed
qed

lemma bsearch_loop_complete:
  "\<lbrakk>sorted xs; base + len \<le> length xs; base \<le> k; k < base + len; xs ! k = v\<rbrakk> \<Longrightarrow>
     bsearch_loop xs v base len \<noteq> None"
proof (induction xs v base len arbitrary: k rule: bsearch_loop.induct)
  case (1 xs v base len)
  show ?case
  proof (cases "len > 1")
    case True
    let ?mid = "base + len div 2"
    let ?b = "if xs ! ?mid > v then base else ?mid"
    have mid: "?mid < base + len" using True by simp
    have "\<exists>k'. ?b \<le> k' \<and> k' < ?b + (len - len div 2) \<and> xs ! k' = v"
    proof (cases "xs ! ?mid > v")
      case True
      have "k < ?mid"
        using True "1.prems" mid by (metis leI leD order_less_le_trans sorted_nth_mono)
      moreover have "len div 2 \<le> len - len div 2" by simp
      ultimately show ?thesis using True "1.prems" by (auto intro!: exI [of _ k])
    next
      case False
      show ?thesis
      proof (cases "k < ?mid")
        case True
        then have "xs ! ?mid = v"
          using False "1.prems" mid sorted_nth_mono [of xs k ?mid] by (simp add: not_less)
        then show ?thesis using False \<open>len > 1\<close> by (auto intro!: exI [of _ ?mid])
      next
        case False
        then show ?thesis using \<open>\<not> v < xs ! ?mid\<close> "1.prems" by (auto intro!: exI [of _ k])
      qed
    qed
    then obtain k' where k': "?b \<le> k'" "k' < ?b + (len - len div 2)" "xs ! k' = v" by blast
    have "?b + (len - len div 2) \<le> length xs" using "1.prems" by auto
    from "1.IH"[OF True refl refl "1.prems"(1) this k'] True show ?thesis
      by (subst bsearch_loop.simps) (simp add: Let_def)
  next
    case False
    with "1.prems" have "len = 1" "k = base" by auto
    with "1.prems" show ?thesis by (subst bsearch_loop.simps) auto
  qed
qed

lemma binary_search_Some:
  "binary_search xs v = Some i \<Longrightarrow> i < length xs \<and> xs ! i = v"
  by (auto simp: binary_search_def dest: bsearch_loop_sound)

lemma binary_search_found: "sorted xs \<Longrightarrow> binary_search xs v \<noteq> None \<longleftrightarrow> v \<in> set xs"
proof
  assume "binary_search xs v \<noteq> None"
  then show "v \<in> set xs" using binary_search_Some [of xs v] by (auto intro: nth_mem)
next
  assume "sorted xs" "v \<in> set xs"
  then show "binary_search xs v \<noteq> None"
    using bsearch_loop_complete [of xs 0 "length xs" _ v] by (force simp: binary_search_def in_set_conv_nth)
qed

lemma binary_search_distinct:
  "sorted xs \<Longrightarrow> distinct xs \<Longrightarrow> binary_search xs v = Some i \<longleftrightarrow> i < length xs \<and> xs ! i = v"
  by (metis binary_search_Some binary_search_found not_None_eq nth_eq_iff_index_eq nth_mem)

text \<open>\<open>sort_unstable\<close> followed by \<open>dedup\<close>.\<close>

definition sort_dedup :: "'a::linorder list \<Rightarrow> 'a list" where
  "sort_dedup xs = remdups_adj (sort xs)"

lemma set_sort_dedup [simp]: "set (sort_dedup xs) = set xs"
  by (simp add: sort_dedup_def)

lemma sorted_sort_dedup [simp]: "sorted (sort_dedup xs)"
  by (simp add: sort_dedup_def sorted_remdups_adj)

lemma distinct_sort_dedup [simp]: "distinct (sort_dedup xs)"
proof -
  have "distinct (remdups_adj ys)" if "sorted ys" for ys :: "'a list"
    using that
  proof (induction ys rule: remdups_adj.induct)
    case (3 x y xs)
    then show ?case by (cases "x = y") auto
  qed auto
  then show ?thesis by (simp add: sort_dedup_def)
qed

lemma sort_dedup_Nil [simp]: "sort_dedup xs = [] \<longleftrightarrow> xs = []"
  by (metis set_empty set_sort_dedup)

text \<open>Swapping two cells of a vector.\<close>

lemma set_take_swap:
  assumes "a < k" "b < k" "k \<le> length xs"
  shows "set (take k (xs[a := xs ! b, b := xs ! a])) = set (take k xs)"
proof -
  have "take k (xs[a := xs ! b, b := xs ! a]) =
      (take k xs)[a := take k xs ! b, b := take k xs ! a]"
    using assms by (simp add: take_update_swap)
  also have "set \<dots> = set (take k xs)"
    using assms by (intro set_swap) auto
  finally show ?thesis .
qed

lemma list_update_same_idx: "i < length xs \<Longrightarrow> (xs[i := a])[i := xs ! i] = xs"
  by simp

end
