(* ===== verification/Backtrack.thy ===== *)
theory Backtrack imports Prelude begin

text \<open>
  The contract every reversible component of the solver keeps: a state has a view and a
  stack of views, one per open level; an operation changes the view only, \<open>push\<close> saves it
  and \<open>pop\<close> restores the saved one. The trail, the integer domain over a trail and the
  store are instances. The client lemmas are proved once, from the contract.
\<close>

section \<open>Command sequences\<close>

datatype 'o cmd = Op 'o | Push | Pop

text \<open>
  A run of commands on a concrete state. \<open>None\<close> is an operation outside its contract
  (\<open>can\<close>) or a \<open>Pop\<close> that panics.
\<close>

fun run_cmds :: "('o \<Rightarrow> 's \<Rightarrow> bool) \<Rightarrow> ('o \<Rightarrow> 's \<Rightarrow> 's) \<Rightarrow> ('s \<Rightarrow> 's) \<Rightarrow> ('s \<Rightarrow> 's option) \<Rightarrow>
    'o cmd list \<Rightarrow> 's \<Rightarrow> 's option" where
  "run_cmds can op push pop [] s = Some s"
| "run_cmds can op push pop (Op o' # cs) s =
     (if can o' s then run_cmds can op push pop cs (op o' s) else None)"
| "run_cmds can op push pop (Push # cs) s = run_cmds can op push pop cs (push s)"
| "run_cmds can op push pop (Pop # cs) s =
     (case pop s of None \<Rightarrow> None | Some s' \<Rightarrow> run_cmds can op push pop cs s')"

text \<open>The specification: a current value and a stack of saved ones.\<close>

fun spec_cmds :: "('o \<Rightarrow> 'a \<Rightarrow> 'a) \<Rightarrow> 'o cmd list \<Rightarrow> 'a \<times> 'a list \<Rightarrow> ('a \<times> 'a list) option" where
  "spec_cmds sem [] v = Some v"
| "spec_cmds sem (Op o' # cs) (x, xs) = spec_cmds sem cs (sem o' x, xs)"
| "spec_cmds sem (Push # cs) (x, xs) = spec_cmds sem cs (x, x # xs)"
| "spec_cmds sem (Pop # cs) (x, xs) = (case xs of [] \<Rightarrow> None | y # ys \<Rightarrow> spec_cmds sem cs (y, ys))"

text \<open>Commands that open and close levels in pairs.\<close>

fun depth_ok :: "nat \<Rightarrow> 'o cmd list \<Rightarrow> bool" where
  "depth_ok n [] = (n = 0)"
| "depth_ok n (Op _ # cs) = depth_ok n cs"
| "depth_ok n (Push # cs) = depth_ok (Suc n) cs"
| "depth_ok n (Pop # cs) = (0 < n \<and> depth_ok (n - 1) cs)"

lemma spec_cmds_append:
  "spec_cmds sem (cs @ ds) v =
     (case spec_cmds sem cs v of None \<Rightarrow> None | Some w \<Rightarrow> spec_cmds sem ds w)"
  by (induction sem cs v rule: spec_cmds.induct) (auto split: list.splits)

lemma spec_cmds_depth:
  "depth_ok (length ys) cs \<Longrightarrow> \<exists>y. spec_cmds sem cs (x, ys @ xs) = Some (y, xs)"
proof (induction "length ys" cs arbitrary: ys x rule: depth_ok.induct)
  case (3 cs)
  from "3.hyps"(1)[of "x # ys"] "3.prems" show ?case by simp
next
  case (4 cs)
  then obtain z zs where ys: "ys = z # zs" by (cases ys) auto
  with "4.hyps"(1)[of zs] "4.prems" show ?case by simp
qed simp_all

section \<open>The contract\<close>

locale backtrackable =
  fixes inv :: "'s \<Rightarrow> bool"
    and view :: "'s \<Rightarrow> 'a"
    and saved :: "'s \<Rightarrow> 'a list"
    and can :: "'o \<Rightarrow> 's \<Rightarrow> bool"
    and op :: "'o \<Rightarrow> 's \<Rightarrow> 's"
    and sem :: "'o \<Rightarrow> 'a \<Rightarrow> 'a"
    and push :: "'s \<Rightarrow> 's"
    and pop :: "'s \<Rightarrow> 's option"
  assumes op_law: "\<lbrakk>inv s; can o' s\<rbrakk> \<Longrightarrow>
      inv (op o' s) \<and> view (op o' s) = sem o' (view s) \<and> saved (op o' s) = saved s"
    and push_law: "inv s \<Longrightarrow> inv (push s) \<and> view (push s) = view s \<and> saved (push s) = view s # saved s"
    and pop_law: "inv s \<Longrightarrow> case pop s of
      None \<Rightarrow> saved s = [] | Some s' \<Rightarrow> inv s' \<and> saved s = view s' # saved s'"
begin

lemma run_refines:
  "\<lbrakk>inv s; run_cmds can op push pop cs s = Some s'\<rbrakk> \<Longrightarrow>
     inv s' \<and> spec_cmds sem cs (view s, saved s) = Some (view s', saved s')"
proof (induction cs arbitrary: s)
  case (Cons c cs)
  show ?case
  proof (cases c)
    case (Op o')
    with Cons.prems op_law [of s o'] Cons.IH [of "op o' s"] show ?thesis by (simp split: if_splits)
  next
    case Push
    with Cons.prems push_law [of s] Cons.IH [of "push s"] show ?thesis by simp
  next
    case Pop
    with Cons.prems pop_law [of s] obtain s1
      where s1: "pop s = Some s1" "inv s1" "saved s = view s1 # saved s1"
      by (auto split: option.splits)
    with Pop Cons.prems Cons.IH [of s1] show ?thesis by simp
  qed
qed simp

lemma run_inv: "\<lbrakk>inv s; run_cmds can op push pop cs s = Some s'\<rbrakk> \<Longrightarrow> inv s'"
  using run_refines by blast

text \<open>Whatever happens between a \<open>push\<close> and its \<open>pop\<close> leaves no trace.\<close>

lemma push_pop_restores:
  assumes inv: "inv s" and cs: "depth_ok 0 cs"
    and run: "run_cmds can op push pop (Push # cs @ [Pop]) s = Some s'"
  shows "view s' = view s \<and> saved s' = saved s"
proof -
  obtain y where "spec_cmds sem cs (view s, view s # saved s) = Some (y, view s # saved s)"
    using spec_cmds_depth [of "[]" cs sem "view s" "view s # saved s"] cs by auto
  then have "spec_cmds sem (Push # cs @ [Pop]) (view s, saved s) = Some (view s, saved s)"
    by (simp add: spec_cmds_append)
  with run_refines [OF inv run] show ?thesis by simp
qed

end

end
