(* ===== verification/Trail.thy ===== *)
theory Trail imports Backtrack begin

text \<open>
  The trail of \<open>src/src/trail.rs\<close>: reversible integers with an undo log, level marks and
  epoch stamps that suppress duplicate log entries.

  The vectors \<open>log\<close> and \<open>levels\<close> of the code are used as stacks only (\<open>push\<close>, \<open>pop\<close>,
  \<open>last\<close>, \<open>len\<close>); here they are lists whose head is the most recent entry. A
  \<open>ReversibleInt\<close> is its index. Its field is private to the module and \<open>values\<close> never
  shrinks, so a handle obtained from \<open>new_int\<close> is always in range; the lemmas carry that
  as \<open>r < trail_len t\<close>.

  The abstract view of a trail is the vector of current values together with the stack of
  vectors that were current when each open level was pushed (\<open>snapshots\<close>). The lemmas
  below show that every operation of the code is the obvious operation on that view, in
  spite of the epochs that leave most writes unlogged.
\<close>

section \<open>State and operations\<close>

record trail =
  t_values :: "int list"
  t_epochs :: "nat list"
  t_log :: "(nat \<times> int) list"
  t_levels :: "(nat \<times> nat) list"
  t_cur_epoch :: nat
  t_next_epoch :: nat

definition trail_new :: trail where
  "trail_new = \<lparr>t_values = [], t_epochs = [], t_log = [], t_levels = [],
     t_cur_epoch = 0, t_next_epoch = 0\<rparr>"

definition trail_new_int :: "trail \<Rightarrow> int \<Rightarrow> trail \<times> nat" where
  "trail_new_int t v =
     (t\<lparr>t_values := t_values t @ [v], t_epochs := t_epochs t @ [0]\<rparr>, length (t_values t))"

definition trail_get :: "trail \<Rightarrow> nat \<Rightarrow> int" where
  "trail_get t r = t_values t ! r"

definition trail_set :: "trail \<Rightarrow> nat \<Rightarrow> int \<Rightarrow> trail" where
  "trail_set t r v =
     (if t_values t ! r \<noteq> v then
        let t1 = (if t_epochs t ! r \<noteq> t_cur_epoch t
                  then t\<lparr>t_log := (r, t_values t ! r) # t_log t,
                         t_epochs := (t_epochs t)[r := t_cur_epoch t]\<rparr>
                  else t)
        in t1\<lparr>t_values := (t_values t1)[r := v]\<rparr>
      else t)"

definition trail_push_level :: "trail \<Rightarrow> trail" where
  "trail_push_level t =
     (let e = t_next_epoch t + 1
      in t\<lparr>t_next_epoch := e, t_cur_epoch := e, t_levels := (length (t_log t), e) # t_levels t\<rparr>)"

text \<open>The loop of \<open>pop_level\<close>: replay entries while the log is longer than the mark.\<close>

fun undo_to :: "nat \<Rightarrow> (nat \<times> int) list \<Rightarrow> int list \<Rightarrow> (nat \<times> int) list \<times> int list" where
  "undo_to mark [] vs = ([], vs)"
| "undo_to mark ((i, old) # log) vs =
     (if length log + 1 > mark then undo_to mark log (vs[i := old]) else ((i, old) # log, vs))"

text \<open>\<open>None\<close> is the panic of popping a level that was never pushed.\<close>

definition trail_pop_level :: "trail \<Rightarrow> trail option" where
  "trail_pop_level t =
     (case t_levels t of
        [] \<Rightarrow> None
      | (mark, _) # rest \<Rightarrow>
          let (log, vs) = undo_to mark (t_log t) (t_values t)
          in Some (t\<lparr>t_levels := rest, t_log := log, t_values := vs,
                     t_cur_epoch := (case rest of [] \<Rightarrow> 0 | (_, e) # _ \<Rightarrow> e)\<rparr>))"

definition trail_level :: "trail \<Rightarrow> nat" where
  "trail_level t = length (t_levels t)"

definition trail_len :: "trail \<Rightarrow> nat" where
  "trail_len t = length (t_values t)"

definition trail_log_len :: "trail \<Rightarrow> nat" where
  "trail_log_len t = length (t_log t)"

definition trail_is_empty :: "trail \<Rightarrow> bool" where
  "trail_is_empty t \<longleftrightarrow> t_values t = []"

section \<open>The abstract view\<close>

definition snapshot_at :: "trail \<Rightarrow> nat \<Rightarrow> int list" where
  "snapshot_at t mark = snd (undo_to mark (t_log t) (t_values t))"

definition snapshots :: "trail \<Rightarrow> int list list" where
  "snapshots t = map (\<lambda>(mark, e). snapshot_at t mark) (t_levels t)"

text \<open>
  The invariant. Reading the levels from the innermost outwards: every mark lies inside
  the log, epochs strictly decrease and are positive, and a cell stamped with a level's
  epoch has an entry in that level's segment of the log.
\<close>

fun levels_ok :: "nat list \<Rightarrow> (nat \<times> nat) list \<Rightarrow> (nat \<times> int) list \<Rightarrow> bool" where
  "levels_ok eps [] log = True"
| "levels_ok eps ((m, e) # ls) log =
     (m \<le> length log \<and> 0 < e \<and> (\<forall>p \<in> set ls. snd p < e) \<and>
      (\<forall>i < length eps. eps ! i = e \<longrightarrow> i \<in> fst ` set (take (length log - m) log)) \<and>
      levels_ok eps ls (drop (length log - m) log))"

definition cur_of :: "(nat \<times> nat) list \<Rightarrow> nat" where
  "cur_of ls = (case ls of [] \<Rightarrow> 0 | (_, e) # _ \<Rightarrow> e)"

definition trail_ok :: "trail \<Rightarrow> bool" where
  "trail_ok t \<longleftrightarrow>
     length (t_epochs t) = length (t_values t) \<and>
     (\<forall>p \<in> set (t_log t). fst p < length (t_values t)) \<and>
     t_cur_epoch t = cur_of (t_levels t) \<and>
     (\<forall>p \<in> set (t_levels t). snd p \<le> t_next_epoch t) \<and>
     (\<forall>e \<in> set (t_epochs t). e \<le> t_next_epoch t) \<and>
     levels_ok (t_epochs t) (t_levels t) (t_log t)"

section \<open>The undo loop\<close>

lemma undo_to_drop: "fst (undo_to m log vs) = drop (length log - m) log"
proof (induction m log vs rule: undo_to.induct)
  case (1 mark vs)
  then show ?case by simp
next
  case (2 mark i old log vs)
  then show ?case by (auto simp: Suc_diff_le not_le)
qed

lemma length_undo_to [simp]: "length (snd (undo_to m log vs)) = length vs"
  by (induction m log vs rule: undo_to.induct) auto

lemma undo_to_full [simp]: "length log \<le> m \<Longrightarrow> undo_to m log vs = (log, vs)"
  by (cases log) (auto split: prod.splits)

lemma undo_to_overwritten:
  "i \<in> fst ` set (take (length log - m) log) \<Longrightarrow>
     snd (undo_to m log (vs[i := v])) = snd (undo_to m log vs)"
proof (induction m log vs rule: undo_to.induct)
  case (1 mark vs)
  then show ?case by simp
next
  case (2 mark j old log vs)
  show ?case
  proof (cases "length log + 1 > mark")
    case False
    with "2.prems" show ?thesis by simp
  next
    case deep: True
    then have tk: "take (length ((j, old) # log) - mark) ((j, old) # log) =
        (j, old) # take (length log - mark) log"
      by (simp add: Suc_diff_le)
    show ?thesis
    proof (cases "i = j")
      case True
      with deep show ?thesis by simp
    next
      case False
      with "2.prems" tk have "i \<in> fst ` set (take (length log - mark) log)" by auto
      with "2.IH"[OF deep] have
        "snd (undo_to mark log ((vs[j := old])[i := v])) = snd (undo_to mark log (vs[j := old]))"
        by blast
      with deep False show ?thesis by (simp add: list_update_swap)
    qed
  qed
qed

lemma undo_to_append:
  "(\<forall>p \<in> set log. fst p < length vs) \<Longrightarrow>
     snd (undo_to m log (vs @ [v])) = snd (undo_to m log vs) @ [v]"
  by (induction m log vs rule: undo_to.induct) (auto simp: list_update_append)

lemma undo_to_compose:
  "m \<le> m' \<Longrightarrow>
     undo_to m (drop (length log - m') log) (snd (undo_to m' log vs)) = undo_to m log vs"
proof (induction m' log vs rule: undo_to.induct)
  case (1 mark vs)
  then show ?case by simp
next
  case (2 mark i old log vs)
  show ?case
  proof (cases "length log + 1 > mark")
    case False
    then show ?thesis by simp
  next
    case True
    then have "drop (length ((i, old) # log) - mark) ((i, old) # log) = drop (length log - mark) log"
      by (simp add: Suc_diff_le)
    with True "2.IH"[OF True "2.prems"] "2.prems" show ?thesis by simp
  qed
qed

section \<open>The invariant is kept\<close>

lemma trail_ok_new: "trail_ok trail_new"
  by (simp add: trail_ok_def trail_new_def cur_of_def)

lemma levels_ok_marks: "levels_ok eps ls log \<Longrightarrow> (m, e) \<in> set ls \<Longrightarrow> m \<le> length log"
  by (induction eps ls log rule: levels_ok.induct) force+

lemma levels_ok_epoch_pos: "levels_ok eps ls log \<Longrightarrow> p \<in> set ls \<Longrightarrow> 0 < snd p"
  by (induction eps ls log rule: levels_ok.induct) auto

lemma nth_update_other:
  "xs[i := e] ! k = x \<Longrightarrow> x \<noteq> e \<Longrightarrow> k < length xs \<Longrightarrow> xs ! k = x"
  by (metis nth_list_update_eq nth_list_update_neq)

lemma levels_ok_stamp_other:
  "\<lbrakk>levels_ok eps ls log; \<forall>p \<in> set ls. snd p \<noteq> e\<rbrakk> \<Longrightarrow> levels_ok (eps[i := e]) ls log"
proof (induction eps ls log rule: levels_ok.induct)
  case (1 eps log)
  then show ?case by simp
next
  case (2 eps m e' ls log)
  from "2.prems" have "e' \<noteq> e" by auto
  then have "\<forall>k < length (eps[i := e]). eps[i := e] ! k = e' \<longrightarrow>
      k \<in> fst ` set (take (length log - m) log)"
    using "2.prems" nth_update_other [of eps i e _ e'] by simp
  with 2 show ?case by simp
qed

lemma levels_ok_new_int: "levels_ok eps ls log \<Longrightarrow> levels_ok (eps @ [0]) ls log"
  by (induction eps ls log rule: levels_ok.induct) (auto simp: nth_append split: if_splits)

text \<open>A logged write in the innermost level.\<close>

lemma levels_ok_logged:
  assumes "levels_ok eps ((m, e) # ls) log" and "i < length eps"
  shows "levels_ok (eps[i := e]) ((m, e) # ls) ((i, old) # log)"
proof -
  from assms have m: "m \<le> length log" by simp
  then have tk: "take (Suc (length log) - m) ((i, old) # log) = (i, old) # take (length log - m) log"
    and dr: "drop (Suc (length log) - m) ((i, old) # log) = drop (length log - m) log"
    by (simp_all add: Suc_diff_le)
  have rest: "levels_ok (eps[i := e]) ls (drop (length log - m) log)"
    using assms by (intro levels_ok_stamp_other) auto
  show ?thesis
    using assms rest by (auto simp: tk dr nth_list_update)
qed

lemma trail_ok_new_int: "trail_ok t \<Longrightarrow> trail_ok (fst (trail_new_int t v))"
  by (auto simp: trail_ok_def trail_new_int_def levels_ok_new_int nth_append less_Suc_eq)

lemma trail_ok_set:
  assumes ok: "trail_ok t" and r: "r < length (t_values t)"
  shows "trail_ok (trail_set t r v)"
proof (cases "t_values t ! r \<noteq> v \<and> t_epochs t ! r \<noteq> t_cur_epoch t")
  case False
  with ok show ?thesis by (auto simp: trail_ok_def trail_set_def Let_def)
next
  case True
  let ?eps = "(t_epochs t)[r := t_cur_epoch t]"
  let ?log = "(r, t_values t ! r) # t_log t"
  have lv: "levels_ok ?eps (t_levels t) ?log"
  proof (cases "t_levels t")
    case Nil
    then show ?thesis by simp
  next
    case (Cons p ls)
    obtain m e where p: "p = (m, e)" by (cases p)
    with ok Cons have "t_cur_epoch t = e" by (simp add: trail_ok_def cur_of_def)
    with ok r Cons p show ?thesis
      by (metis levels_ok_logged trail_ok_def)
  qed
  have "t_cur_epoch t \<le> t_next_epoch t"
    using ok by (auto simp: trail_ok_def cur_of_def split: list.splits)
  then have "\<forall>e \<in> set ?eps. e \<le> t_next_epoch t"
    using ok by (auto simp: trail_ok_def dest: set_update_subset_insert [THEN subsetD])
  with True ok r lv show ?thesis
    by (auto simp: trail_ok_def trail_set_def Let_def)
qed

lemma trail_ok_push:
  assumes ok: "trail_ok t"
  shows "trail_ok (trail_push_level t)"
proof -
  let ?e = "t_next_epoch t + 1"
  have lt: "t_epochs t ! i \<noteq> ?e" if "i < length (t_epochs t)" for i
    using ok nth_mem [OF that] by (auto simp: trail_ok_def)
  have "levels_ok (t_epochs t) ((length (t_log t), ?e) # t_levels t) (t_log t)"
    using ok lt by (auto simp: trail_ok_def less_Suc_eq_le)
  then show ?thesis
    using ok by (auto simp: trail_ok_def trail_push_level_def Let_def cur_of_def
        simp del: levels_ok.simps intro: le_SucI)
qed

lemma trail_pop_fields:
  assumes "trail_pop_level t = Some t'"
  obtains m e ls where "t_levels t = (m, e) # ls" "t_levels t' = ls"
    "t_log t' = drop (length (t_log t) - m) (t_log t)" "t_values t' = snapshot_at t m"
    "t_epochs t' = t_epochs t" "t_cur_epoch t' = cur_of ls" "t_next_epoch t' = t_next_epoch t"
proof -
  obtain m e ls where ls: "t_levels t = (m, e) # ls"
    using assms by (auto simp: trail_pop_level_def split: list.splits)
  with assms have "t' = t\<lparr>t_levels := ls, t_log := fst (undo_to m (t_log t) (t_values t)),
      t_values := snd (undo_to m (t_log t) (t_values t)), t_cur_epoch := cur_of ls\<rparr>"
    by (simp add: trail_pop_level_def cur_of_def split: prod.splits)
  with ls that show thesis by (simp add: snapshot_at_def undo_to_drop)
qed

lemma trail_ok_pop:
  assumes ok: "trail_ok t" and pop: "trail_pop_level t = Some t'"
  shows "trail_ok t'"
  using pop
proof (rule trail_pop_fields)
  fix m e ls
  assume f: "t_levels t = (m, e) # ls" "t_levels t' = ls"
    "t_log t' = drop (length (t_log t) - m) (t_log t)" "t_values t' = snapshot_at t m"
    "t_epochs t' = t_epochs t" "t_cur_epoch t' = cur_of ls" "t_next_epoch t' = t_next_epoch t"
  have "length (t_values t') = length (t_values t)" by (simp add: f snapshot_at_def)
  with ok f show ?thesis
    by (auto simp: trail_ok_def dest: in_set_dropD)
qed

section \<open>Functional behaviour on the view\<close>

lemma trail_get_set [trail_simps]:
  "r < length (t_values t) \<Longrightarrow> trail_get (trail_set t r v) s = (if s = r then v else trail_get t s)"
  by (auto simp: trail_get_def trail_set_def Let_def)

lemma values_set [trail_simps]: "t_values (trail_set t r v) = (t_values t)[r := v]"
  by (auto simp: trail_set_def Let_def)

lemma levels_set [trail_simps]: "t_levels (trail_set t r v) = t_levels t"
  by (auto simp: trail_set_def Let_def)

lemma trail_len_set [trail_simps]: "trail_len (trail_set t r v) = trail_len t"
  by (simp add: trail_len_def trail_simps)

lemma values_new_int [trail_simps]: "t_values (fst (trail_new_int t v)) = t_values t @ [v]"
  by (simp add: trail_new_int_def)

lemma values_push [trail_simps]: "t_values (trail_push_level t) = t_values t"
  by (simp add: trail_push_level_def Let_def)

lemma snapshots_new_int [trail_simps]:
  "trail_ok t \<Longrightarrow> snapshots (fst (trail_new_int t v)) = map (\<lambda>s. s @ [v]) (snapshots t)"
  by (auto simp: snapshots_def snapshot_at_def trail_new_int_def undo_to_append trail_ok_def)

lemma snapshot_at_set:
  assumes ok: "trail_ok t" and m: "(m, e) \<in> set (t_levels t)"
  shows "snapshot_at (trail_set t r v) m = snapshot_at t m"
proof (cases "t_values t ! r \<noteq> v")
  case False
  then show ?thesis by (simp add: trail_set_def)
next
  case True
  have mle: "m \<le> length (t_log t)"
    using ok m levels_ok_marks unfolding trail_ok_def by blast
  obtain m0 e0 ls where ls: "t_levels t = (m0, e0) # ls"
    using m by (cases "t_levels t") auto
  have cur: "t_cur_epoch t = e0"
    using ok ls by (simp add: trail_ok_def cur_of_def)
  show ?thesis
  proof (cases "t_epochs t ! r = t_cur_epoch t \<and> r < length (t_values t)")
    case True
    have "m \<le> m0"
    proof (cases "(m, e) = (m0, e0)")
      case False
      with m ls have "(m, e) \<in> set ls" by auto
      moreover have "levels_ok (t_epochs t) ls (drop (length (t_log t) - m0) (t_log t))"
        using ok ls by (simp add: trail_ok_def)
      moreover have "m0 \<le> length (t_log t)" using ok ls by (simp add: trail_ok_def)
      ultimately show ?thesis using levels_ok_marks by fastforce
    qed simp
    then have sub: "set (take (length (t_log t) - m0) (t_log t)) \<subseteq>
        set (take (length (t_log t) - m) (t_log t))"
      by (intro set_take_subset_set_take) simp
    have "r \<in> fst ` set (take (length (t_log t) - m0) (t_log t))"
      using ok True ls cur by (simp add: trail_ok_def)
    with sub have "r \<in> fst ` set (take (length (t_log t) - m) (t_log t))" by blast
    then show ?thesis
      using True by (simp add: snapshot_at_def trail_set_def Let_def undo_to_overwritten)
  next
    case False
    then show ?thesis
      using mle \<open>t_values t ! r \<noteq> v\<close>
      by (auto simp: snapshot_at_def trail_set_def Let_def list_update_beyond not_less)
  qed
qed

lemma snapshots_set [trail_simps]: "trail_ok t \<Longrightarrow> snapshots (trail_set t r v) = snapshots t"
  by (auto simp: snapshots_def trail_simps intro: snapshot_at_set)

lemma snapshots_push [trail_simps]:
  "snapshots (trail_push_level t) = t_values t # snapshots t"
  by (auto simp: snapshots_def snapshot_at_def trail_push_level_def Let_def)

lemma trail_pop_view:
  assumes ok: "trail_ok t" and pop: "trail_pop_level t = Some t'"
  shows "t_values t' # snapshots t' = snapshots t"
  using pop
proof (rule trail_pop_fields)
  fix m e ls
  assume f: "t_levels t = (m, e) # ls" "t_levels t' = ls"
    "t_log t' = drop (length (t_log t) - m) (t_log t)" "t_values t' = snapshot_at t m"
  have "snapshot_at t' k = snapshot_at t k" if "(k, e') \<in> set ls" for k e'
  proof -
    have "m \<le> length (t_log t)" "levels_ok (t_epochs t) ls (drop (length (t_log t) - m) (t_log t))"
      using ok f by (simp_all add: trail_ok_def)
    with that have "k \<le> m" using levels_ok_marks by fastforce
    then show ?thesis
      unfolding snapshot_at_def [of t'] f snapshot_at_def [of t m]
      by (simp add: undo_to_compose snapshot_at_def)
  qed
  then show ?thesis
    by (auto simp: snapshots_def f)
qed

lemma trail_pop_Some: "trail_pop_level t = None \<longleftrightarrow> snapshots t = []"
  by (auto simp: trail_pop_level_def snapshots_def split: list.splits prod.splits)

section \<open>The trail keeps the backtracking contract\<close>

text \<open>
  One operation of the contract is a write \<open>set(r, v)\<close> to a handle in range; the view is
  the vector of values.
\<close>

definition trail_write :: "nat \<times> int \<Rightarrow> trail \<Rightarrow> trail" where
  "trail_write w t = trail_set t (fst w) (snd w)"

definition trail_can :: "nat \<times> int \<Rightarrow> trail \<Rightarrow> bool" where
  "trail_can w t \<longleftrightarrow> fst w < trail_len t"

definition vec_write :: "nat \<times> int \<Rightarrow> int list \<Rightarrow> int list" where
  "vec_write w vs = vs[fst w := snd w]"

interpretation tr: backtrackable trail_ok t_values snapshots trail_can trail_write vec_write
  trail_push_level trail_pop_level
proof
  show "trail_ok (trail_write w t) \<and> t_values (trail_write w t) = vec_write w (t_values t) \<and>
      snapshots (trail_write w t) = snapshots t" if "trail_ok t" "trail_can w t" for t w
    using that by (simp add: trail_write_def trail_can_def trail_len_def vec_write_def
        trail_simps trail_ok_set)
  show "trail_ok (trail_push_level t) \<and> t_values (trail_push_level t) = t_values t \<and>
      snapshots (trail_push_level t) = t_values t # snapshots t" if "trail_ok t" for t
    using that by (simp add: trail_simps trail_ok_push)
  show "case trail_pop_level t of None \<Rightarrow> snapshots t = []
      | Some t' \<Rightarrow> trail_ok t' \<and> snapshots t = t_values t' # snapshots t'" if "trail_ok t" for t
    using that trail_pop_Some trail_pop_view trail_ok_pop by (simp split: option.splits)
qed

end
