(* ===== verification/IntDomain.thy ===== *)
theory IntDomain imports Trail begin

text \<open>
  The trailed finite-integer domain of \<open>src/src/domains/int.rs\<close>: sparse sets over a dense
  range or an explicit support, and a bounds-only form with a list of removed interior
  values. This theory holds the data and the operations; \<open>IntDomainProps\<close> shows that each
  operation is the set operation it claims to be, at the current level and, after
  backtracking, at every open level.

  A domain keeps its vectors untrailed and only five counters in the trail, addressed by
  handles. Every operation therefore takes the domain and the trail and returns both.
\<close>

section \<open>Data\<close>

definition max_dense_range_values :: nat where "max_dense_range_values = 4096"
definition max_dense_set_span :: nat where "max_dense_set_span = 10000000"
definition dense_set_factor :: nat where "dense_set_factor = 4"

datatype value_map =
    Dense (dense_offset: int) (root_values: "int list option")
  | Sparse (sparse_support: "int list")
  | Bounds (holes: "int list") (holes_len: nat) (empty_flag: nat) (active_holes: nat)

record domain =
  d_map :: value_map
  d_dense :: "nat list"
  d_sparse :: "nat list"
  d_size :: nat
  d_min :: nat
  d_max :: nat

datatype inconsistency = Inconsistency

text \<open>
  \<open>span_len\<close> panics when \<open>hi - lo + 1\<close> is negative; every caller has \<open>lo \<le> hi\<close>.
\<close>

definition span_len :: "int \<Rightarrow> int \<Rightarrow> nat" where
  "span_len lo hi = nat (hi - lo + 1)"

section \<open>Construction\<close>

definition dom_from_dense_range :: "int \<Rightarrow> int \<Rightarrow> nat \<Rightarrow> trail \<Rightarrow> domain \<times> trail" where
  "dom_from_dense_range lo hi n t =
     (let dense = [0..<n]; sparse = dense;
          (t1, s) = trail_new_int t (as_i32 (int n));
          (t2, mn) = trail_new_int t1 lo;
          (t3, mx) = trail_new_int t2 hi
      in (\<lparr>d_map = Dense lo None, d_dense = dense, d_sparse = sparse,
           d_size = s, d_min = mn, d_max = mx\<rparr>, t3))"

text \<open>
  The partition loop of \<open>from_dense_set\<close>: indices of present values fill \<open>dense\<close> from
  the front, the others from position \<open>size\<close> on.
\<close>

fun partition_loop :: "(nat \<times> bool) list \<Rightarrow> nat list \<Rightarrow> nat \<Rightarrow> nat \<Rightarrow> nat list" where
  "partition_loop [] dense front back = dense"
| "partition_loop ((idx, present) # rest) dense front back =
     (if present then partition_loop rest (dense[front := idx]) (front + 1) back
      else partition_loop rest (dense[back := idx]) front (back + 1))"

definition invert_dense :: "nat list \<Rightarrow> nat \<Rightarrow> nat list" where
  "invert_dense dense span =
     fold (\<lambda>(pos, idx) sp. sp[idx := pos]) (enumerate 0 dense) (replicate span 0)"

definition dom_from_dense_set :: "int list \<Rightarrow> int \<Rightarrow> int \<Rightarrow> nat \<Rightarrow> trail \<Rightarrow> domain \<times> trail" where
  "dom_from_dense_set vals lo hi span t =
     (let n = length vals;
          present = fold (\<lambda>v p. p[as_usize (v - lo) := True]) vals (replicate span False);
          dense = partition_loop (enumerate 0 present) (replicate span 0) 0 n;
          sparse = invert_dense dense span;
          (t1, s) = trail_new_int t (as_i32 (int n));
          (t2, mn) = trail_new_int t1 lo;
          (t3, mx) = trail_new_int t2 hi
      in (\<lparr>d_map = Dense lo (Some vals), d_dense = dense, d_sparse = sparse,
           d_size = s, d_min = mn, d_max = mx\<rparr>, t3))"

text \<open>\<open>None\<close> is the assertion that the support fits \<open>i32\<close>, or an empty support.\<close>

definition dom_from_sparse_set :: "int list \<Rightarrow> trail \<Rightarrow> (domain \<times> trail) option" where
  "dom_from_sparse_set vals t =
     (if vals = [] \<or> int (length vals) > i32_max then None else
      let lo = hd vals; hi = last vals; n = length vals;
          dense = [0..<n]; sparse = dense;
          (t1, s) = trail_new_int t (as_i32 (int n));
          (t2, mn) = trail_new_int t1 lo;
          (t3, mx) = trail_new_int t2 hi
      in Some (\<lparr>d_map = Sparse vals, d_dense = dense, d_sparse = sparse,
                d_size = s, d_min = mn, d_max = mx\<rparr>, t3))"

definition dom_from_bounds_range :: "int \<Rightarrow> int \<Rightarrow> trail \<Rightarrow> domain \<times> trail" where
  "dom_from_bounds_range lo hi t =
     (let (t1, hl) = trail_new_int t 0;
          (t2, em) = trail_new_int t1 0;
          (t3, ah) = trail_new_int t2 0;
          (t4, s) = trail_new_int t3 0;
          (t5, mn) = trail_new_int t4 lo;
          (t6, mx) = trail_new_int t5 hi
      in (\<lparr>d_map = Bounds [] hl em ah, d_dense = [], d_sparse = [],
           d_size = s, d_min = mn, d_max = mx\<rparr>, t6))"

text \<open>\<open>None\<close> is the panic of the assertion on an empty range or an empty set.\<close>

definition dom_new_range :: "int \<Rightarrow> int \<Rightarrow> trail \<Rightarrow> (domain \<times> trail) option" where
  "dom_new_range lo hi t =
     (if \<not> lo \<le> hi then None else
      let n = span_len lo hi
      in Some (if n \<le> max_dense_range_values then dom_from_dense_range lo hi n t
               else dom_from_bounds_range lo hi t))"

definition dom_new_set :: "int list \<Rightarrow> trail \<Rightarrow> (domain \<times> trail) option" where
  "dom_new_set values t =
     (if values = [] then None else
      let vals = sort_dedup values; lo = hd vals; hi = last vals; span = span_len lo hi
      in if span = length vals then
           Some (if span \<le> max_dense_range_values then dom_from_dense_range lo hi span t
                 else dom_from_bounds_range lo hi t)
         else if span \<le> max_dense_set_span \<and> span \<le> length vals * dense_set_factor then
           Some (dom_from_dense_set vals lo hi span t)
         else dom_from_sparse_set vals t)"

section \<open>Reads\<close>

definition dom_min :: "domain \<Rightarrow> trail \<Rightarrow> int" where
  "dom_min d t = trail_get t (d_min d)"

definition dom_max :: "domain \<Rightarrow> trail \<Rightarrow> int" where
  "dom_max d t = trail_get t (d_max d)"

definition dom_size :: "domain \<Rightarrow> trail \<Rightarrow> nat" where
  "dom_size d t =
     (case d_map d of
        Bounds hs hl em ah \<Rightarrow>
          if trail_get t em \<noteq> 0 then 0
          else span_len (dom_min d t) (dom_max d t) - as_usize (trail_get t ah)
      | _ \<Rightarrow> as_usize (trail_get t (d_size d)))"

definition dom_is_fixed :: "domain \<Rightarrow> trail \<Rightarrow> bool" where
  "dom_is_fixed d t \<longleftrightarrow> dom_size d t = 1"

definition dom_is_sparse :: "domain \<Rightarrow> bool" where
  "dom_is_sparse d = (case d_map d of Sparse _ \<Rightarrow> True | _ \<Rightarrow> False)"

definition dom_is_bounds :: "domain \<Rightarrow> bool" where
  "dom_is_bounds d = (case d_map d of Bounds _ _ _ _ \<Rightarrow> True | _ \<Rightarrow> False)"

definition dom_sparse_values :: "domain \<Rightarrow> int list option" where
  "dom_sparse_values d =
     (case d_map d of Dense _ rv \<Rightarrow> rv | Sparse vs \<Rightarrow> Some vs | Bounds _ _ _ _ \<Rightarrow> None)"

definition dom_index_of :: "domain \<Rightarrow> int \<Rightarrow> nat option" where
  "dom_index_of d val =
     (case d_map d of
        Dense offset _ \<Rightarrow>
          let shifted = val - offset
          in if shifted \<ge> 0 \<and> shifted < int (length (d_dense d)) then Some (as_usize shifted) else None
      | Sparse vs \<Rightarrow> binary_search vs val
      | Bounds _ _ _ _ \<Rightarrow> None)"

text \<open>Bounds domains have no indexed values (\<open>unreachable!\<close>): no operation asks for one.\<close>

definition dom_value_of :: "domain \<Rightarrow> nat \<Rightarrow> int" where
  "dom_value_of d i =
     (case d_map d of
        Dense offset _ \<Rightarrow> as_i32 (offset + int i)
      | Sparse vs \<Rightarrow> vs ! i
      | Bounds _ _ _ _ \<Rightarrow> 0)"

definition dom_active_prefix :: "domain \<Rightarrow> trail \<Rightarrow> int list" where
  "dom_active_prefix d t =
     (case d_map d of Bounds hs hl em ah \<Rightarrow> take (as_usize (trail_get t hl)) hs | _ \<Rightarrow> [])"

definition dom_contains :: "domain \<Rightarrow> int \<Rightarrow> trail \<Rightarrow> bool" where
  "dom_contains d val t =
     (case d_map d of
        Bounds hs hl em ah \<Rightarrow>
          trail_get t em = 0 \<and> dom_min d t \<le> val \<and> val \<le> dom_max d t \<and>
          val \<notin> set (dom_active_prefix d t)
      | _ \<Rightarrow> (case dom_index_of d val of None \<Rightarrow> False | Some i \<Rightarrow> d_sparse d ! i < dom_size d t))"

text \<open>The values in the order the iterator \<open>Values\<close> yields them.\<close>

definition dom_values :: "domain \<Rightarrow> trail \<Rightarrow> int list" where
  "dom_values d t =
     (case d_map d of
        Bounds hs hl em ah \<Rightarrow>
          if trail_get t em = 0
          then filter (\<lambda>v. dom_contains d v t) [dom_min d t..dom_max d t] else []
      | _ \<Rightarrow> map (dom_value_of d) (take (dom_size d t) (d_dense d)))"

text \<open>The upward scan of \<open>ceiling\<close> on a bounds domain; \<open>checked_add\<close> stops it at \<open>i32::MAX\<close>.\<close>

function ceiling_loop :: "domain \<Rightarrow> trail \<Rightarrow> int \<Rightarrow> int option" where
  "ceiling_loop d t v =
     (if dom_contains d v t then Some v
      else case checked_i32 (v + 1) of
             None \<Rightarrow> None
           | Some v' \<Rightarrow> if v' > dom_max d t then None else ceiling_loop d t v')"
  by pat_completeness auto
termination
  by (relation "measure (\<lambda>(d, t, v). nat (dom_max d t - v))") auto

declare ceiling_loop.simps [simp del]

definition dom_ceiling :: "domain \<Rightarrow> int \<Rightarrow> trail \<Rightarrow> int option" where
  "dom_ceiling d target t =
     (if dom_size d t = 0 then None else
      let target' = max target (dom_min d t)
      in if target' > dom_max d t then None
         else case d_map d of
                Bounds _ _ _ _ \<Rightarrow> ceiling_loop d t target'
              | _ \<Rightarrow> (case filter (\<lambda>v. v \<ge> target') (map (dom_value_of d) (take (dom_size d t) (d_dense d))) of
                        [] \<Rightarrow> None | v # vs \<Rightarrow> Some (Min (set (v # vs)))))"

definition dom_append_removed_values :: "domain \<Rightarrow> trail \<Rightarrow> int list \<Rightarrow> int list" where
  "dom_append_removed_values d t out =
     (let mn = dom_min d t; mx = dom_max d t
      in out @ (case d_map d of
           Bounds hs hl em ah \<Rightarrow> filter (\<lambda>v. mn < v \<and> v < mx) (dom_active_prefix d t)
         | Dense _ (Some vs) \<Rightarrow> filter (\<lambda>v. mn < v \<and> v < mx \<and> \<not> dom_contains d v t) vs
         | Sparse vs \<Rightarrow> filter (\<lambda>v. mn < v \<and> v < mx \<and> \<not> dom_contains d v t) vs
         | Dense _ None \<Rightarrow>
             filter (\<lambda>v. mn < v \<and> v < mx \<and> \<not> dom_contains d v t)
               (map (dom_value_of d) [0..<length (d_dense d)])))"

text \<open>
  The interruptible variant polls \<open>should_stop\<close> before every value and once at each end.
  The closure may answer differently on every call: its answers are a list, consumed in
  order, and an exhausted list means no stop. The result is the output vector and the
  Boolean the code returns.
\<close>

fun poll :: "bool list \<Rightarrow> bool \<times> bool list" where
  "poll [] = (False, [])"
| "poll (b # bs) = (b, bs)"

fun append_loop :: "(int \<Rightarrow> bool) \<Rightarrow> int list \<Rightarrow> bool list \<Rightarrow> int list \<Rightarrow> int list option \<times> bool list" where
  "append_loop keep [] stops out = (Some out, stops)"
| "append_loop keep (v # vs) stops out =
     (let (b, stops') = poll stops
      in if b then (None, stops')
         else append_loop keep vs stops' (if keep v then out @ [v] else out))"

definition dom_append_removed_values_until ::
    "domain \<Rightarrow> trail \<Rightarrow> int list \<Rightarrow> bool list \<Rightarrow> int list \<times> bool \<times> bool list" where
  "dom_append_removed_values_until d t out stops =
     (let (b, stops1) = poll stops in if b then (out, False, stops1) else
      let mn = dom_min d t; mx = dom_max d t;
          (res, stops2) = (case d_map d of
             Bounds hs hl em ah \<Rightarrow>
               append_loop (\<lambda>v. mn < v \<and> v < mx) (dom_active_prefix d t) stops1 out
           | Dense _ (Some vs) \<Rightarrow>
               append_loop (\<lambda>v. mn < v \<and> v < mx \<and> \<not> dom_contains d v t) vs stops1 out
           | Sparse vs \<Rightarrow>
               append_loop (\<lambda>v. mn < v \<and> v < mx \<and> \<not> dom_contains d v t) vs stops1 out
           | Dense _ None \<Rightarrow>
               append_loop (\<lambda>v. mn < v \<and> v < mx \<and> \<not> dom_contains d v t)
                 (map (dom_value_of d) [0..<length (d_dense d)]) stops1 out)
      in case res of
           None \<Rightarrow> (out, False, stops2)
         | Some out' \<Rightarrow>
             let (b', stops3) = poll stops2
             in if b' then (out, False, stops3) else (out', True, stops3))"

section \<open>Mutations\<close>

definition dom_swap :: "domain \<Rightarrow> nat \<Rightarrow> nat \<Rightarrow> domain" where
  "dom_swap d a b =
     (let ia = d_dense d ! a; ib = d_dense d ! b
      in d\<lparr>d_dense := (d_dense d)[a := ib, b := ia],
           d_sparse := (d_sparse d)[ia := b, ib := a]\<rparr>)"

text \<open>
  \<open>recompute_min\<close> on dense storage scans upwards from \<open>min + 1\<close>; its debug assertion
  \<open>v < hi\<close> bounds the scan. The domain is not empty when it is called, so the scan meets a
  value no later than at \<open>hi\<close>.
\<close>

function scan_up :: "domain \<Rightarrow> trail \<Rightarrow> int \<Rightarrow> int \<Rightarrow> int" where
  "scan_up d t v hi =
     (if dom_contains d (as_i32 v) t \<or> \<not> v < hi then v else scan_up d t (v + 1) hi)"
  by pat_completeness auto
termination
  by (relation "measure (\<lambda>(d, t, v, hi). nat (hi - v))") auto

function scan_down :: "domain \<Rightarrow> trail \<Rightarrow> int \<Rightarrow> int \<Rightarrow> int" where
  "scan_down d t v lo =
     (if dom_contains d (as_i32 v) t \<or> \<not> v > lo then v else scan_down d t (v - 1) lo)"
  by pat_completeness auto
termination
  by (relation "measure (\<lambda>(d, t, v, lo). nat (v - lo))") auto

declare scan_up.simps [simp del] scan_down.simps [simp del]

definition dom_recompute_min :: "domain \<Rightarrow> trail \<Rightarrow> trail" where
  "dom_recompute_min d t =
     (case d_map d of
        Dense _ _ \<Rightarrow> trail_set t (d_min d) (as_i32 (scan_up d t (dom_min d t + 1) (dom_max d t)))
      | Sparse _ \<Rightarrow> trail_set t (d_min d) (Min (set (dom_values d t)))
      | Bounds _ _ _ _ \<Rightarrow> t)"

definition dom_recompute_max :: "domain \<Rightarrow> trail \<Rightarrow> trail" where
  "dom_recompute_max d t =
     (case d_map d of
        Dense _ _ \<Rightarrow> trail_set t (d_max d) (as_i32 (scan_down d t (dom_max d t - 1) (dom_min d t)))
      | Sparse _ \<Rightarrow> trail_set t (d_max d) (Max (set (dom_values d t)))
      | Bounds _ _ _ _ \<Rightarrow> t)"

definition dom_recompute_bounds :: "domain \<Rightarrow> trail \<Rightarrow> trail" where
  "dom_recompute_bounds d t =
     (let (mn, mx) = fold (\<lambda>v (lo, hi). (min lo v, max hi v)) (dom_values d t) (i32_max, i32_min)
      in trail_set (trail_set t (d_min d) mn) (d_max d) mx)"

text \<open>The bounds-only operations.\<close>

definition dom_is_hole :: "domain \<Rightarrow> int \<Rightarrow> trail \<Rightarrow> bool" where
  "dom_is_hole d val t \<longleftrightarrow> val \<in> set (dom_active_prefix d t)"

definition dom_count_holes_in :: "domain \<Rightarrow> int \<Rightarrow> int \<Rightarrow> trail \<Rightarrow> nat" where
  "dom_count_holes_in d lo hi t = length (filter (\<lambda>v. lo \<le> v \<and> v \<le> hi) (dom_active_prefix d t))"

definition dom_set_bounds_empty :: "domain \<Rightarrow> trail \<Rightarrow> trail" where
  "dom_set_bounds_empty d t = trail_set t (empty_flag (d_map d)) 1"

function skip_holes_up :: "domain \<Rightarrow> trail \<Rightarrow> int \<Rightarrow> int \<Rightarrow> int" where
  "skip_holes_up d t v mx =
     (if v \<le> mx \<and> dom_is_hole d (as_i32 v) t then skip_holes_up d t (v + 1) mx else v)"
  by pat_completeness auto
termination
  by (relation "measure (\<lambda>(d, t, v, mx). nat (mx + 1 - v))") auto

function skip_holes_down :: "domain \<Rightarrow> trail \<Rightarrow> int \<Rightarrow> int \<Rightarrow> int" where
  "skip_holes_down d t v mn =
     (if v \<ge> mn \<and> dom_is_hole d (as_i32 v) t then skip_holes_down d t (v - 1) mn else v)"
  by pat_completeness auto
termination
  by (relation "measure (\<lambda>(d, t, v, mn). nat (v + 1 - mn))") auto

declare skip_holes_up.simps [simp del] skip_holes_down.simps [simp del]

definition dom_set_bounds_min :: "domain \<Rightarrow> int \<Rightarrow> trail \<Rightarrow> trail" where
  "dom_set_bounds_min d val t =
     (let mx = dom_max d t; old_min = dom_min d t; v = skip_holes_up d t val mx
      in if v > mx then dom_set_bounds_empty d t
         else let crossed = as_i32 (int (dom_count_holes_in d old_min (as_i32 (v - 1)) t));
                  ah = active_holes (d_map d);
                  t1 = trail_set t ah (trail_get t ah - crossed)
              in trail_set t1 (d_min d) (as_i32 v))"

definition dom_set_bounds_max :: "domain \<Rightarrow> int \<Rightarrow> trail \<Rightarrow> trail" where
  "dom_set_bounds_max d val t =
     (let mn = dom_min d t; old_max = dom_max d t; v = skip_holes_down d t val mn
      in if v < mn then dom_set_bounds_empty d t
         else let crossed = as_i32 (int (dom_count_holes_in d (as_i32 (v + 1)) old_max t));
                  ah = active_holes (d_map d);
                  t1 = trail_set t ah (trail_get t ah - crossed)
              in trail_set t1 (d_max d) (as_i32 v))"

definition dom_remove_bounds :: "domain \<Rightarrow> int \<Rightarrow> trail \<Rightarrow> domain \<times> trail \<times> bool" where
  "dom_remove_bounds d val t =
     (if \<not> dom_contains d val t then (d, t, False)
      else if dom_size d t = 1 then (d, dom_set_bounds_empty d t, True)
      else if val = dom_min d t then (d, dom_set_bounds_min d (val + 1) t, True)
      else if val = dom_max d t then (d, dom_set_bounds_max d (val - 1) t, True)
      else case d_map d of
             Bounds hs hl em ah \<Rightarrow>
               let len = as_usize (trail_get t hl);
                   hs' = (if len = length hs then hs @ [val] else hs[len := val]);
                   t1 = trail_set t hl (as_i32 (int (len + 1)));
                   t2 = trail_set t1 ah (trail_get t1 ah + 1)
               in (d\<lparr>d_map := Bounds hs' hl em ah\<rparr>, t2, True)
           | _ \<Rightarrow> (d, t, True))"

definition dom_remove_bounds_below :: "domain \<Rightarrow> int \<Rightarrow> trail \<Rightarrow> domain \<times> trail \<times> bool" where
  "dom_remove_bounds_below d bound t =
     (d, (if bound > dom_max d t then dom_set_bounds_empty d t else dom_set_bounds_min d bound t), True)"

definition dom_remove_bounds_above :: "domain \<Rightarrow> int \<Rightarrow> trail \<Rightarrow> domain \<times> trail \<times> bool" where
  "dom_remove_bounds_above d bound t =
     (d, (if bound < dom_min d t then dom_set_bounds_empty d t else dom_set_bounds_max d bound t), True)"

definition dom_remove :: "domain \<Rightarrow> int \<Rightarrow> trail \<Rightarrow> domain \<times> trail \<times> bool" where
  "dom_remove d val t =
     (if dom_is_bounds d then dom_remove_bounds d val t
      else case dom_index_of d val of
             None \<Rightarrow> (d, t, False)
           | Some i \<Rightarrow>
               let pos = d_sparse d ! i; sz = dom_size d t
               in if pos \<ge> sz then (d, t, False)
                  else let lst = sz - 1; d1 = dom_swap d pos lst;
                           t1 = trail_set t (d_size d) (as_i32 (int lst));
                           t2 = (if lst > 0 then
                                   (if val = dom_min d1 t1 then dom_recompute_min d1 t1
                                    else if val = dom_max d1 t1 then dom_recompute_max d1 t1
                                    else t1)
                                 else t1)
                       in (d1, t2, True))"

definition dom_fix :: "domain \<Rightarrow> int \<Rightarrow> trail \<Rightarrow> domain \<times> trail \<times> (bool, inconsistency) result" where
  "dom_fix d val t =
     (if dom_is_bounds d then
        (if \<not> dom_contains d val t then (d, t, Err Inconsistency)
         else let changed = dom_size d t > 1;
                  t1 = trail_set t (d_min d) val;
                  t2 = trail_set t1 (d_max d) val;
                  t3 = trail_set t2 (active_holes (d_map d)) 0
              in (d, t3, Ok changed))
      else case dom_index_of d val of
             None \<Rightarrow> (d, t, Err Inconsistency)
           | Some i \<Rightarrow>
               let pos = d_sparse d ! i
               in if pos \<ge> dom_size d t then (d, t, Err Inconsistency)
                  else let changed = dom_size d t > 1;
                           d1 = dom_swap d pos 0;
                           t1 = trail_set t (d_size d) 1;
                           t2 = trail_set t1 (d_min d) val;
                           t3 = trail_set t2 (d_max d) val
                       in (d1, t3, Ok changed))"

text \<open>The value-by-value loops of \<open>remove_below\<close> and \<open>remove_above\<close> on dense storage.\<close>

function dense_below_loop :: "domain \<Rightarrow> trail \<Rightarrow> int \<Rightarrow> int \<Rightarrow> bool \<Rightarrow> domain \<times> trail \<times> bool" where
  "dense_below_loop d t v bound changed =
     (if v < bound then
        (case dom_remove d (as_i32 v) t of (d1, t1, c) \<Rightarrow>
           if dom_size d1 t1 = 0 then (d1, t1, changed \<or> c)
           else dense_below_loop d1 t1 (v + 1) bound (changed \<or> c))
      else (d, t, changed))"
  by pat_completeness auto
termination
  by (relation "measure (\<lambda>(d, t, v, bound, c). nat (bound - v))") auto

function dense_above_loop :: "domain \<Rightarrow> trail \<Rightarrow> int \<Rightarrow> int \<Rightarrow> bool \<Rightarrow> domain \<times> trail \<times> bool" where
  "dense_above_loop d t v bound changed =
     (if v > bound then
        (case dom_remove d (as_i32 v) t of (d1, t1, c) \<Rightarrow>
           if dom_size d1 t1 = 0 then (d1, t1, changed \<or> c)
           else dense_above_loop d1 t1 (v - 1) bound (changed \<or> c))
      else (d, t, changed))"
  by pat_completeness auto
termination
  by (relation "measure (\<lambda>(d, t, v, bound, c). nat (v - bound))") auto

text \<open>The partition loop of \<open>remove_if\<close>: \<open>(d, pos, size)\<close>.\<close>

function remove_if_loop :: "(int \<Rightarrow> bool) \<Rightarrow> domain \<Rightarrow> nat \<Rightarrow> nat \<Rightarrow> domain \<times> nat" where
  "remove_if_loop p d pos sz =
     (if pos < sz then
        (if p (dom_value_of d (d_dense d ! pos)) then remove_if_loop p (dom_swap d pos (sz - 1)) pos (sz - 1)
         else remove_if_loop p d (pos + 1) sz)
      else (d, sz))"
  by pat_completeness auto
termination
  by (relation "measure (\<lambda>(p, d, pos, sz). sz - pos)") auto

declare dense_below_loop.simps [simp del] dense_above_loop.simps [simp del]
  remove_if_loop.simps [simp del]

definition dom_remove_if :: "domain \<Rightarrow> trail \<Rightarrow> (int \<Rightarrow> bool) \<Rightarrow> domain \<times> trail \<times> bool" where
  "dom_remove_if d t p =
     (let old_size = dom_size d t; (d1, sz) = remove_if_loop p d 0 old_size
      in if sz = old_size then (d1, t, False)
         else let t1 = trail_set t (d_size d) (as_i32 (int sz))
              in (d1, (if sz > 0 then dom_recompute_bounds d1 t1 else t1), True))"

definition dom_remove_below :: "domain \<Rightarrow> int \<Rightarrow> trail \<Rightarrow> domain \<times> trail \<times> bool" where
  "dom_remove_below d bound t =
     (if dom_size d t = 0 \<or> bound \<le> dom_min d t then (d, t, False)
      else case d_map d of
             Dense _ _ \<Rightarrow> dense_below_loop d t (dom_min d t) bound False
           | Sparse _ \<Rightarrow> dom_remove_if d t (\<lambda>v. v < bound)
           | Bounds _ _ _ _ \<Rightarrow> dom_remove_bounds_below d bound t)"

definition dom_remove_above :: "domain \<Rightarrow> int \<Rightarrow> trail \<Rightarrow> domain \<times> trail \<times> bool" where
  "dom_remove_above d bound t =
     (if dom_size d t = 0 \<or> bound \<ge> dom_max d t then (d, t, False)
      else case d_map d of
             Dense _ _ \<Rightarrow> dense_above_loop d t (dom_max d t) bound False
           | Sparse _ \<Rightarrow> dom_remove_if d t (\<lambda>v. v > bound)
           | Bounds _ _ _ _ \<Rightarrow> dom_remove_bounds_above d bound t)"

end
