(* ===== verification/Store.thy ===== *)
theory Store imports IntDomain "HOL-Library.Word" begin

text \<open>
  The state of the solver, \<open>src/src/store.rs\<close>: integer domains over one trail, the
  subscriptions of the propagators, the banded propagation queue, and the record of domain
  changes with their reasons. The weights are \<open>u64\<close> and wrap as the release build does.
  Indices into the vectors of the store are in range wherever the theorems speak of them; an
  id of another store panics in the code.
\<close>

section \<open>Events, premises and causes\<close>

datatype event = FixEvent | BoundChange | DomainChange

datatype priority = Cheap | Linear | Expensive

fun priority_index :: "priority \<Rightarrow> nat" where
  "priority_index Cheap = 0"
| "priority_index Linear = 1"
| "priority_index Expensive = 2"

definition nbands :: nat where "nbands = 3"

datatype dom_event = GeTrue var_id int | LeTrue var_id int | NeTrue var_id int | EqTrue var_id int

datatype premise = PGe var_id int | PLe var_id int | PEq var_id int | PNe var_id int

fun premise_var :: "premise \<Rightarrow> var_id" where
  "premise_var (PGe v _) = v"
| "premise_var (PLe v _) = v"
| "premise_var (PEq v _) = v"
| "premise_var (PNe v _) = v"

definition distinct_premise_vars :: "premise list \<Rightarrow> nat" where
  "distinct_premise_vars why = length (sort_dedup (map premise_var why))"

record scope_var =
  sv_var :: var_id
  sv_min :: int
  sv_max :: int
  sv_holes :: "int list"

datatype cause = ScopeCause | Premises "premise list"

record engine_event =
  ee_primary :: dom_event
  ee_cause :: cause

section \<open>List and interval domains\<close>

datatype list_event = PossibleChange | RequiredChange | LengthChange | ArcChange | PositionChange

record list_domain =
  ld_universe :: "int list"
  ld_members :: "var_id list"
  ld_length :: var_id

fun position :: "'a \<Rightarrow> 'a list \<Rightarrow> nat option" where
  "position x [] = None"
| "position x (y # ys) = (if y = x then Some 0 else map_option Suc (position x ys))"

definition list_index_of :: "list_domain \<Rightarrow> int \<Rightarrow> nat option" where
  "list_index_of ld item = position item (ld_universe ld)"

datatype interval_event = StartBoundChange | EndBoundChange | PresenceChange | ModeChange

datatype presence = Optional | Absent | Present

record interval_domain =
  iv_start :: var_id
  iv_duration :: int
  iv_presence :: "var_id option"

section \<open>The store\<close>

record store =
  domains :: "domain list"
  list_domains :: "list_domain list"
  interval_domains :: "interval_domain list"
  s_trail :: trail
  subs :: "(event \<times> prop_id) list list"
  var_weight_cache :: "64 word list"
  relevant :: "bool list"
  queues :: "prop_id list list"
  prio :: "priority list"
  single_band :: bool
  enqueued :: "bool list"
  current :: "prop_id option"
  scopes :: "var_id list list"
  events :: "engine_event list"
  pending_premises :: "premise list option"
  pending_conflict :: "premise list option"
  force_scope_reasons :: bool
  injected_premises :: "premise list"
  finesse :: "(nat \<times> nat \<times> nat) list option"
  explain :: bool
  disjunctive_pairs :: "(interval_id \<times> interval_id) list"
  disjunctive_order_vars :: "var_id list"

definition store_new :: store where
  "store_new = \<lparr>domains = [], list_domains = [], interval_domains = [], s_trail = trail_new,
     subs = [], var_weight_cache = [], relevant = [], queues = replicate nbands [], prio = [],
     single_band = False, enqueued = [], current = None, scopes = [], events = [],
     pending_premises = None, pending_conflict = None, force_scope_reasons = False,
     injected_premises = [], finesse = None, explain = False,
     disjunctive_pairs = [], disjunctive_order_vars = []\<rparr>"

section \<open>Reads\<close>

definition st_min :: "store \<Rightarrow> var_id \<Rightarrow> int" where
  "st_min st v = dom_min (domains st ! v) (s_trail st)"

definition st_max :: "store \<Rightarrow> var_id \<Rightarrow> int" where
  "st_max st v = dom_max (domains st ! v) (s_trail st)"

definition st_size :: "store \<Rightarrow> var_id \<Rightarrow> nat" where
  "st_size st v = dom_size (domains st ! v) (s_trail st)"

definition st_is_fixed :: "store \<Rightarrow> var_id \<Rightarrow> bool" where
  "st_is_fixed st v = dom_is_fixed (domains st ! v) (s_trail st)"

definition st_contains :: "store \<Rightarrow> var_id \<Rightarrow> int \<Rightarrow> bool" where
  "st_contains st v x = dom_contains (domains st ! v) x (s_trail st)"

text \<open>\<open>value\<close> panics (\<open>None\<close>) on a variable that is not fixed.\<close>

definition st_value :: "store \<Rightarrow> var_id \<Rightarrow> int option" where
  "st_value st v = (if st_is_fixed st v then Some (st_min st v) else None)"

definition st_values :: "store \<Rightarrow> var_id \<Rightarrow> int list" where
  "st_values st v = dom_values (domains st ! v) (s_trail st)"

definition ceiling_value :: "store \<Rightarrow> var_id \<Rightarrow> int \<Rightarrow> int option" where
  "ceiling_value st v target = dom_ceiling (domains st ! v) target (s_trail st)"

definition sparse_values :: "store \<Rightarrow> var_id \<Rightarrow> int list option" where
  "sparse_values st v = dom_sparse_values (domains st ! v)"

definition num_vars :: "store \<Rightarrow> nat" where
  "num_vars st = length (domains st)"

definition num_sparse_domains :: "store \<Rightarrow> nat" where
  "num_sparse_domains st = length (filter dom_is_sparse (domains st))"

definition num_bounds_domains :: "store \<Rightarrow> nat" where
  "num_bounds_domains st = length (filter dom_is_bounds (domains st))"

section \<open>Scheduling\<close>

text \<open>Replace the element at an index by a function of it.\<close>

definition list_modify :: "nat \<Rightarrow> ('a \<Rightarrow> 'a) \<Rightarrow> 'a list \<Rightarrow> 'a list" where
  "list_modify i f xs = xs[i := f (xs ! i)]"

definition band_of :: "store \<Rightarrow> prop_id \<Rightarrow> nat" where
  "band_of st p = (if single_band st then 0 else priority_index (prio st ! p))"

definition enqueue :: "prop_id \<Rightarrow> store \<Rightarrow> store" where
  "enqueue p st =
     (if enqueued st ! p then st
      else st\<lparr>enqueued := (enqueued st)[p := True],
              queues := list_modify (band_of st p) (\<lambda>q. q @ [p]) (queues st)\<rparr>)"

fun pop_first :: "'a list list \<Rightarrow> ('a \<times> 'a list list) option" where
  "pop_first [] = None"
| "pop_first ([] # qs) = map_option (\<lambda>(p, qs'). (p, [] # qs')) (pop_first qs)"
| "pop_first ((p # q) # qs) = Some (p, q # qs)"

definition dequeue :: "store \<Rightarrow> prop_id option \<times> store" where
  "dequeue st = (case pop_first (queues st) of
     None \<Rightarrow> (None, st)
   | Some (p, qs) \<Rightarrow> (Some p, st\<lparr>queues := qs, enqueued := (enqueued st)[p := False]\<rparr>))"

definition peek_queue :: "store \<Rightarrow> prop_id option" where
  "peek_queue st = (case filter (\<lambda>q. q \<noteq> []) (queues st) of [] \<Rightarrow> None | q # _ \<Rightarrow> Some (hd q))"

definition queue_is_empty :: "store \<Rightarrow> bool" where
  "queue_is_empty st \<longleftrightarrow> list_all (\<lambda>q. q = []) (queues st)"

definition clear_queue :: "store \<Rightarrow> store" where
  "clear_queue st = st\<lparr>queues := map (\<lambda>_. []) (queues st),
     enqueued := fold (\<lambda>p e. e[p := False]) (concat (queues st)) (enqueued st)\<rparr>"

definition wake :: "prop_id \<Rightarrow> store \<Rightarrow> store" where
  "wake p st = (if current st = Some p then st else enqueue p st)"

definition wakes :: "bool \<Rightarrow> bool \<Rightarrow> event \<Rightarrow> bool" where
  "wakes bounds_moved fixed e \<longleftrightarrow>
     e = DomainChange \<or> (bounds_moved \<and> e = BoundChange) \<or> (fixed \<and> e = FixEvent)"

definition notify :: "var_id \<Rightarrow> bool \<Rightarrow> bool \<Rightarrow> store \<Rightarrow> store" where
  "notify v bounds_moved fixed st =
     fold (\<lambda>(e, p) st. if wakes bounds_moved fixed e then wake p st else st) (subs st ! v) st"

definition alloc_prop :: "store \<Rightarrow> prop_id \<times> store" where
  "alloc_prop st = (length (enqueued st),
     st\<lparr>enqueued := enqueued st @ [False], prio := prio st @ [Linear], scopes := scopes st @ [[]]\<rparr>)"

definition set_priority :: "prop_id \<Rightarrow> priority \<Rightarrow> store \<Rightarrow> store" where
  "set_priority p pr st = st\<lparr>prio := (prio st)[p := pr]\<rparr>"

text \<open>Keep the first occurrence of every element.\<close>

fun first_seen :: "'a list \<Rightarrow> 'a list \<Rightarrow> 'a list" where
  "first_seen seen [] = []"
| "first_seen seen (x # xs) = (if x \<in> set seen then first_seen seen xs else x # first_seen (x # seen) xs)"

definition finalize_scope :: "prop_id \<Rightarrow> store \<Rightarrow> store" where
  "finalize_scope p st = st\<lparr>scopes := list_modify p (first_seen []) (scopes st)\<rparr>"

definition set_single_band :: "bool \<Rightarrow> store \<Rightarrow> store" where
  "set_single_band on st = st\<lparr>single_band := on\<rparr>"

definition mark_relevant :: "var_id \<Rightarrow> store \<Rightarrow> store" where
  "mark_relevant v st = st\<lparr>relevant := (relevant st)[v := True]\<rparr>"

definition is_relevant :: "store \<Rightarrow> var_id \<Rightarrow> bool" where
  "is_relevant st v = relevant st ! v"

definition subscribe :: "var_id \<Rightarrow> prop_id \<Rightarrow> event \<Rightarrow> store \<Rightarrow> store" where
  "subscribe v p e st =
     (let st1 = mark_relevant v st;
          st2 = (if (e, p) \<in> set (subs st1 ! v) then st1
                 else st1\<lparr>subs := list_modify v (\<lambda>s. s @ [(e, p)]) (subs st1),
                          var_weight_cache := list_modify v (\<lambda>w. w + 1) (var_weight_cache st1)\<rparr>)
      in st2\<lparr>scopes := list_modify p (\<lambda>s. s @ [v]) (scopes st2)\<rparr>)"

definition subscribe_list :: "list_id \<Rightarrow> prop_id \<Rightarrow> list_event \<Rightarrow> store \<Rightarrow> store" where
  "subscribe_list l p e st = (case e of
     PossibleChange \<Rightarrow> fold (\<lambda>m. subscribe m p FixEvent) (ld_members (list_domains st ! l)) st
   | RequiredChange \<Rightarrow> fold (\<lambda>m. subscribe m p FixEvent) (ld_members (list_domains st ! l)) st
   | LengthChange \<Rightarrow> subscribe (ld_length (list_domains st ! l)) p BoundChange st
   | ArcChange \<Rightarrow> st
   | PositionChange \<Rightarrow> st)"

definition subscribe_interval :: "interval_id \<Rightarrow> prop_id \<Rightarrow> interval_event \<Rightarrow> store \<Rightarrow> store" where
  "subscribe_interval i p e st = (case e of
     StartBoundChange \<Rightarrow> subscribe (iv_start (interval_domains st ! i)) p BoundChange st
   | EndBoundChange \<Rightarrow> subscribe (iv_start (interval_domains st ! i)) p BoundChange st
   | PresenceChange \<Rightarrow> (case iv_presence (interval_domains st ! i) of
        None \<Rightarrow> st | Some v \<Rightarrow> subscribe v p FixEvent st)
   | ModeChange \<Rightarrow> st)"

section \<open>Weighted degrees\<close>

definition var_weight :: "store \<Rightarrow> var_id \<Rightarrow> 64 word list \<Rightarrow> 64 word" where
  "var_weight st v weights = max (fold (\<lambda>(e, p) w. w + weights ! p) (subs st ! v) 0) 1"

definition var_weight_cached :: "store \<Rightarrow> var_id \<Rightarrow> 64 word" where
  "var_weight_cached st v = max (var_weight_cache st ! v) 1"

definition bump_var_weight :: "prop_id \<Rightarrow> store \<Rightarrow> store" where
  "bump_var_weight p st = st\<lparr>var_weight_cache :=
     fold (\<lambda>v c. list_modify v (\<lambda>w. w + of_nat (length (filter (\<lambda>(e, q). q = p) (subs st ! v)))) c)
       (scopes st ! p) (var_weight_cache st)\<rparr>"

section \<open>Reasons\<close>

definition set_force_scope_reasons :: "bool \<Rightarrow> store \<Rightarrow> store" where
  "set_force_scope_reasons on st = st\<lparr>force_scope_reasons := on\<rparr>"

definition set_injected_premise :: "premise \<Rightarrow> store \<Rightarrow> store" where
  "set_injected_premise p st = st\<lparr>injected_premises := injected_premises st @ [p]\<rparr>"

definition clear_injected_premise :: "store \<Rightarrow> store" where
  "clear_injected_premise st = st\<lparr>injected_premises := butlast (injected_premises st)\<rparr>"

definition push_conflict_premise :: "premise \<Rightarrow> store \<Rightarrow> store" where
  "push_conflict_premise p st = st\<lparr>pending_conflict := map_option (\<lambda>c. c @ [p]) (pending_conflict st)\<rparr>"

definition set_explain :: "bool \<Rightarrow> store \<Rightarrow> store" where
  "set_explain on st = st\<lparr>explain := on\<rparr>"

definition record_finesse :: "premise list \<Rightarrow> bool \<Rightarrow> store \<Rightarrow> store" where
  "record_finesse why failure st = (case finesse st of
     None \<Rightarrow> st
   | Some fs \<Rightarrow> (case current st of
       None \<Rightarrow> st
     | Some p \<Rightarrow> st\<lparr>finesse := Some (fs @
         [(distinct_premise_vars why, length (scopes st ! p), of_bool failure)])\<rparr>))"

definition enable_finesse :: "store \<Rightarrow> store" where
  "enable_finesse st = st\<lparr>finesse := Some []\<rparr>"

definition take_finesse :: "store \<Rightarrow> (nat \<times> nat \<times> nat) list \<times> store" where
  "take_finesse st = (case finesse st of None \<Rightarrow> [] | Some fs \<Rightarrow> fs, st\<lparr>finesse := None\<rparr>)"

definition take_pending_conflict :: "store \<Rightarrow> premise list option \<times> store" where
  "take_pending_conflict st =
     (if force_scope_reasons st then None else pending_conflict st, st\<lparr>pending_conflict := None\<rparr>)"

definition clear_pending :: "store \<Rightarrow> store" where
  "clear_pending st = st\<lparr>pending_premises := None, pending_conflict := None, injected_premises := []\<rparr>"

definition cause_for :: "bool \<Rightarrow> store \<Rightarrow> cause \<times> store" where
  "cause_for will_change st =
     (let st1 = st\<lparr>pending_premises := None\<rparr>
      in case pending_premises st of
           None \<Rightarrow> (ScopeCause, st1)
         | Some p \<Rightarrow>
             if force_scope_reasons st then (ScopeCause, st1)
             else if will_change
               then (Premises (p @ injected_premises st1), record_finesse p False st1)
               else (Premises [], st1))"

definition fail_because :: "premise list \<Rightarrow> store \<Rightarrow> inconsistency \<times> store" where
  "fail_because why st = (Inconsistency, (record_finesse why True st)\<lparr>pending_conflict := Some why\<rparr>)"

definition emit :: "dom_event \<Rightarrow> cause \<Rightarrow> store \<Rightarrow> store" where
  "emit e c st = (if explain st then st\<lparr>events := events st @ [\<lparr>ee_primary = e, ee_cause = c\<rparr>]\<rparr> else st)"

section \<open>Domain mutations\<close>

text \<open>Run a domain operation on one variable.\<close>

definition set_domain :: "var_id \<Rightarrow> domain \<Rightarrow> trail \<Rightarrow> store \<Rightarrow> store" where
  "set_domain v d t st = st\<lparr>domains := (domains st)[v := d], s_trail := t\<rparr>"

type_synonym 'a outcome = "store \<times> ('a, inconsistency) result"

definition after_change :: "var_id \<Rightarrow> int \<Rightarrow> int \<Rightarrow> store \<Rightarrow> unit outcome" where
  "after_change v old_min old_max st =
     (let size = st_size st v
      in if size = 0 then (st, Err Inconsistency)
         else (notify v (st_min st v \<noteq> old_min \<or> st_max st v \<noteq> old_max) (size = 1) st, Ok ()))"

text \<open>The tail every mutator shares: wake the subscribers, then log the change.\<close>

definition changed_by :: "var_id \<Rightarrow> int \<Rightarrow> int \<Rightarrow> dom_event \<Rightarrow> cause \<Rightarrow> store \<Rightarrow> unit outcome" where
  "changed_by v old_min old_max e c st = (case after_change v old_min old_max st of
     (st', Err x) \<Rightarrow> (st', Err x)
   | (st', Ok _) \<Rightarrow> (emit e c st', Ok ()))"

definition st_remove :: "var_id \<Rightarrow> int \<Rightarrow> store \<Rightarrow> unit outcome" where
  "st_remove v x st =
     (let (cause, st1) = cause_for (st_contains st v x) st;
          (d, t, changed) = dom_remove (domains st1 ! v) x (s_trail st1);
          st2 = set_domain v d t st1
      in if changed then changed_by v (st_min st1 v) (st_max st1 v) (NeTrue v x) cause st2 else (st2, Ok ()))"

definition st_fix :: "var_id \<Rightarrow> int \<Rightarrow> store \<Rightarrow> unit outcome" where
  "st_fix v x st =
     (let (cause, st1) = cause_for (st_contains st v x \<and> \<not> st_is_fixed st v) st;
          (d, t, r) = dom_fix (domains st1 ! v) x (s_trail st1);
          st2 = set_domain v d t st1
      in case r of Err e \<Rightarrow> (st2, Err e)
         | Ok changed \<Rightarrow>
             if changed then changed_by v (st_min st1 v) (st_max st1 v) (EqTrue v x) cause st2 else (st2, Ok ()))"

definition st_remove_below :: "var_id \<Rightarrow> int \<Rightarrow> store \<Rightarrow> unit outcome" where
  "st_remove_below v b st =
     (let (cause, st1) = cause_for (b > st_min st v) st;
          (d, t, changed) = dom_remove_below (domains st1 ! v) b (s_trail st1);
          st2 = set_domain v d t st1
      in if changed then changed_by v (st_min st1 v) (st_max st1 v) (GeTrue v b) cause st2 else (st2, Ok ()))"

definition st_remove_above :: "var_id \<Rightarrow> int \<Rightarrow> store \<Rightarrow> unit outcome" where
  "st_remove_above v b st =
     (let (cause, st1) = cause_for (b < st_max st v) st;
          (d, t, changed) = dom_remove_above (domains st1 ! v) b (s_trail st1);
          st2 = set_domain v d t st1
      in if changed then changed_by v (st_min st1 v) (st_max st1 v) (LeTrue v b) cause st2 else (st2, Ok ()))"

definition stage :: "premise list \<Rightarrow> store \<Rightarrow> store" where
  "stage why st = st\<lparr>pending_premises := Some why\<rparr>"

definition remove_because :: "var_id \<Rightarrow> int \<Rightarrow> premise list \<Rightarrow> store \<Rightarrow> unit outcome" where
  "remove_because v x why st = st_remove v x (stage why st)"

definition fix_because :: "var_id \<Rightarrow> int \<Rightarrow> premise list \<Rightarrow> store \<Rightarrow> unit outcome" where
  "fix_because v x why st = st_fix v x (stage why st)"

definition remove_below_because :: "var_id \<Rightarrow> int \<Rightarrow> premise list \<Rightarrow> store \<Rightarrow> unit outcome" where
  "remove_below_because v b why st = st_remove_below v b (stage why st)"

definition remove_above_because :: "var_id \<Rightarrow> int \<Rightarrow> premise list \<Rightarrow> store \<Rightarrow> unit outcome" where
  "remove_above_because v b why st = st_remove_above v b (stage why st)"

section \<open>Creation\<close>

text \<open>\<open>None\<close> is the panic of a reversed range.\<close>

definition push_var :: "domain \<Rightarrow> trail \<Rightarrow> store \<Rightarrow> store \<times> var_id" where
  "push_var d t st = (st\<lparr>domains := domains st @ [d], s_trail := t, subs := subs st @ [[]],
     var_weight_cache := var_weight_cache st @ [0], relevant := relevant st @ [False]\<rparr>, length (domains st))"

definition new_var_range :: "int \<Rightarrow> int \<Rightarrow> store \<Rightarrow> (store \<times> var_id) option" where
  "new_var_range lo hi st = (case dom_new_range lo hi (s_trail st) of
     None \<Rightarrow> None | Some (d, t) \<Rightarrow> Some (push_var d t st))"

definition new_var_set :: "int list \<Rightarrow> store \<Rightarrow> (store \<times> var_id) option" where
  "new_var_set values st = (case dom_new_set values (s_trail st) of
     None \<Rightarrow> None | Some (d, t) \<Rightarrow> Some (push_var d t st))"

section \<open>Reversible integers and levels\<close>

definition new_rev_int :: "int \<Rightarrow> store \<Rightarrow> store \<times> nat" where
  "new_rev_int v st = (case trail_new_int (s_trail st) v of (t, r) \<Rightarrow> (st\<lparr>s_trail := t\<rparr>, r))"

definition rev_get :: "store \<Rightarrow> nat \<Rightarrow> int" where
  "rev_get st r = trail_get (s_trail st) r"

definition rev_set :: "nat \<Rightarrow> int \<Rightarrow> store \<Rightarrow> store" where
  "rev_set r v st = st\<lparr>s_trail := trail_set (s_trail st) r v\<rparr>"

definition push_level :: "store \<Rightarrow> store" where
  "push_level st = st\<lparr>s_trail := trail_push_level (s_trail st)\<rparr>"

text \<open>\<open>None\<close> is the panic of a pop without an open level.\<close>

definition pop_level :: "store \<Rightarrow> store option" where
  "pop_level st = map_option (\<lambda>t. st\<lparr>s_trail := t\<rparr>) (trail_pop_level (s_trail st))"

definition st_level :: "store \<Rightarrow> nat" where
  "st_level st = trail_level (s_trail st)"

section \<open>Snapshots\<close>

definition take_scope_var :: "store \<Rightarrow> var_id \<Rightarrow> scope_var" where
  "take_scope_var st v =
     (let d = domains st ! v; mn = st_min st v; mx = st_max st v
      in \<lparr>sv_var = v, sv_min = mn, sv_max = mx,
          sv_holes = (if int (st_size st v) \<noteq> mx - mn + 1 then dom_append_removed_values d (s_trail st) [] else [])\<rparr>)"

definition domain_premises :: "store \<Rightarrow> var_id \<Rightarrow> premise list \<Rightarrow> premise list" where
  "domain_premises st v out =
     (let sv = take_scope_var st v
      in out @ [PGe v (sv_min sv), PLe v (sv_max sv)] @ map (PNe v) (sv_holes sv))"

definition snapshot_scope_into :: "store \<Rightarrow> prop_id \<Rightarrow> scope_var list \<Rightarrow> scope_var list" where
  "snapshot_scope_into st p buf = map (take_scope_var st) (scopes st ! p)"

fun push_holes :: "var_id \<Rightarrow> int list \<Rightarrow> bool list \<Rightarrow> premise list \<Rightarrow> premise list option \<times> bool list" where
  "push_holes v [] stops out = (Some out, stops)"
| "push_holes v (h # hs) stops out =
     (let (b, stops') = poll stops
      in if b then (None, stops') else push_holes v hs stops' (out @ [PNe v h]))"

definition domain_premises_until ::
    "store \<Rightarrow> var_id \<Rightarrow> premise list \<Rightarrow> bool list \<Rightarrow> premise list \<times> bool \<times> bool list" where
  "domain_premises_until st v out stops =
     (let (b, stops1) = poll stops in if b then (out, False, stops1) else
      let d = domains st ! v; mn = st_min st v; mx = st_max st v;
          (holes, fin, stops2) =
            (if int (st_size st v) \<noteq> mx - mn + 1 then dom_append_removed_values_until d (s_trail st) [] stops1
             else ([], True, stops1))
      in if \<not> fin then (out, False, stops2) else
      let (b, stops3) = poll stops2 in if b then (out, False, stops3) else
      let (b, stops4) = poll stops3 in if b then (out, False, stops4) else
      let (r, stops5) = push_holes v holes stops4 (out @ [PGe v mn, PLe v mx])
      in case r of None \<Rightarrow> (out, False, stops5)
         | Some out' \<Rightarrow> (let (b, stops6) = poll stops5 in if b then (out, False, stops6) else (out', True, stops6)))"

end
