(* ===== verification/StoreStructs.thy ===== *)
theory StoreStructs imports Store begin

text \<open>
  Lists, intervals and disjunctive pairs of \<open>src/src/store.rs\<close>: handles on integer variables
  of the store. An outer \<open>None\<close> is a panic (an assertion of the code); the methods that
  mutate return the store and the \<open>Result\<close>.
\<close>

section \<open>Lists\<close>

text \<open>A fresh Boolean variable; the range 0 to 1 is never reversed, so nothing panics here.\<close>

definition new_bool :: "store \<Rightarrow> store \<times> var_id" where
  "new_bool st = (case dom_new_range 0 1 (s_trail st) of None \<Rightarrow> (st, 0) | Some (d, t) \<Rightarrow> push_var d t st)"

fun new_members :: "nat \<Rightarrow> store \<Rightarrow> store \<times> var_id list" where
  "new_members 0 st = (st, [])"
| "new_members (Suc n) st =
     (let (st1, m) = new_bool st; (st2, ms) = new_members n st1 in (st2, m # ms))"

definition push_list :: "int list \<Rightarrow> var_id list \<Rightarrow> var_id \<Rightarrow> store \<Rightarrow> store \<times> list_id" where
  "push_list universe members len st =
     (st\<lparr>list_domains := list_domains st @ [\<lparr>ld_universe = universe, ld_members = members, ld_length = len\<rparr>]\<rparr>,
      length (list_domains st))"

definition new_list :: "int list \<Rightarrow> store \<Rightarrow> (store \<times> list_id) option" where
  "new_list universe st =
     (if int (length universe) > i32_max \<or> \<not> distinct universe then None
      else let (st1, members) = new_members (length universe) st
           in map_option (\<lambda>(st2, len). push_list universe members len st2)
                (new_var_range 0 (int (length universe)) st1))"

text \<open>
  The interruptible constructor polls \<open>should_stop\<close> before every item of its two loops;
  the Boolean tells that a poll answered stop.
\<close>

fun check_items :: "int list \<Rightarrow> int list \<Rightarrow> bool list \<Rightarrow> (bool \<times> bool list) option" where
  "check_items [] seen stops = Some (False, stops)"
| "check_items (x # xs) seen stops =
     (let (b, stops') = poll stops
      in if b then Some (True, stops') else if x \<in> set seen then None else check_items xs (x # seen) stops')"

fun new_members_until :: "nat \<Rightarrow> bool list \<Rightarrow> store \<Rightarrow> store \<times> var_id list option \<times> bool list" where
  "new_members_until 0 stops st = (st, Some [], stops)"
| "new_members_until (Suc n) stops st =
     (let (b, stops1) = poll stops
      in if b then (st, None, stops1)
         else let (st1, m) = new_bool st; (st2, ms, stops2) = new_members_until n stops1 st1
              in (st2, map_option ((#) m) ms, stops2))"

definition new_list_interruptible ::
    "int list \<Rightarrow> bool list \<Rightarrow> store \<Rightarrow> (store \<times> list_id option \<times> bool list) option" where
  "new_list_interruptible universe stops st =
     (if int (length universe) > i32_max then None else
      let (b, stops1) = poll stops in if b then Some (st, None, stops1) else
      case check_items universe [] stops1 of None \<Rightarrow> None
      | Some (b, stops2) \<Rightarrow> if b then Some (st, None, stops2) else
      let (b, stops3) = poll stops2 in if b then Some (st, None, stops3) else
      let (st1, ms, stops4) = new_members_until (length universe) stops3 st
      in case ms of None \<Rightarrow> Some (st1, None, stops4)
         | Some members \<Rightarrow>
             let (b, stops5) = poll stops4 in if b then Some (st1, None, stops5) else
             (case new_var_range 0 (int (length universe)) st1 of None \<Rightarrow> None
              | Some (st2, len) \<Rightarrow>
                  let (st3, id) = push_list universe members len st2 in Some (st3, Some id, stops5)))"

definition list_universe :: "store \<Rightarrow> list_id \<Rightarrow> int list" where
  "list_universe st l = ld_universe (list_domains st ! l)"

definition list_length_var :: "store \<Rightarrow> list_id \<Rightarrow> var_id" where
  "list_length_var st l = ld_length (list_domains st ! l)"

definition list_len_min :: "store \<Rightarrow> list_id \<Rightarrow> nat" where
  "list_len_min st l = as_usize (max (st_min st (list_length_var st l)) 0)"

definition list_len_max :: "store \<Rightarrow> list_id \<Rightarrow> nat" where
  "list_len_max st l = as_usize (max (st_max st (list_length_var st l)) 0)"

definition list_member_var :: "store \<Rightarrow> list_id \<Rightarrow> int \<Rightarrow> var_id option" where
  "list_member_var st l item =
     map_option ((!) (ld_members (list_domains st ! l))) (list_index_of (list_domains st ! l) item)"

definition fixed_to :: "store \<Rightarrow> var_id \<Rightarrow> int \<Rightarrow> bool" where
  "fixed_to st v x \<longleftrightarrow> st_is_fixed st v \<and> st_value st v = Some x"

definition list_possible :: "store \<Rightarrow> list_id \<Rightarrow> int \<Rightarrow> bool" where
  "list_possible st l item = (case list_member_var st l item of None \<Rightarrow> False | Some m \<Rightarrow> st_contains st m 1)"

definition list_required :: "store \<Rightarrow> list_id \<Rightarrow> int \<Rightarrow> bool" where
  "list_required st l item = (case list_member_var st l item of None \<Rightarrow> False | Some m \<Rightarrow> fixed_to st m 1)"

definition list_possible_count :: "store \<Rightarrow> list_id \<Rightarrow> nat" where
  "list_possible_count st l = length (filter (\<lambda>m. st_contains st m 1) (ld_members (list_domains st ! l)))"

definition list_required_count :: "store \<Rightarrow> list_id \<Rightarrow> nat" where
  "list_required_count st l = length (filter (\<lambda>m. fixed_to st m 1) (ld_members (list_domains st ! l)))"

text \<open>Follow a mutator with a value of its result.\<close>

definition then_ok :: "unit outcome \<Rightarrow> (store \<Rightarrow> 'a) \<Rightarrow> 'a outcome" where
  "then_ok r f = (case r of (st, Err e) \<Rightarrow> (st, Err e) | (st, Ok _) \<Rightarrow> (st, Ok (f st)))"

text \<open>
  Decide a Boolean variable: nothing to do if it already has the value, inconsistent if it
  has the other one. The explained variant cites the current value in the conflict.
\<close>

definition decide :: "var_id \<Rightarrow> int \<Rightarrow> store \<Rightarrow> bool outcome" where
  "decide v x st =
     (if st_is_fixed st v then (if st_value st v = Some x then (st, Ok False) else (st, Err Inconsistency))
      else then_ok (st_fix v x st) (\<lambda>_. True))"

definition failing :: "premise list \<Rightarrow> store \<Rightarrow> 'a outcome" where
  "failing why st = (case fail_because why st of (e, st') \<Rightarrow> (st', Err e))"

definition decide_because :: "var_id \<Rightarrow> int \<Rightarrow> premise list \<Rightarrow> store \<Rightarrow> bool outcome" where
  "decide_because v x why st =
     (if st_is_fixed st v
      then (if st_value st v = Some x then (st, Ok False) else failing (why @ [PEq v (st_min st v)]) st)
      else then_ok (fix_because v x why st) (\<lambda>_. True))"

definition require_list_item :: "list_id \<Rightarrow> int \<Rightarrow> store \<Rightarrow> bool outcome" where
  "require_list_item l item st = (case list_member_var st l item of
     None \<Rightarrow> (st, Err Inconsistency) | Some m \<Rightarrow> decide m 1 st)"

definition forbid_list_item :: "list_id \<Rightarrow> int \<Rightarrow> store \<Rightarrow> bool outcome" where
  "forbid_list_item l item st = (case list_member_var st l item of
     None \<Rightarrow> (st, Ok False) | Some m \<Rightarrow> decide m 0 st)"

text \<open>The explained variants cite the literal opposite value, 0 and 1.\<close>

definition require_list_item_because :: "list_id \<Rightarrow> int \<Rightarrow> premise list \<Rightarrow> store \<Rightarrow> bool outcome" where
  "require_list_item_because l item why st = (case list_member_var st l item of
     None \<Rightarrow> failing why st
   | Some m \<Rightarrow>
       if st_is_fixed st m
       then (if st_value st m = Some 1 then (st, Ok False) else failing (why @ [PEq m 0]) st)
       else then_ok (fix_because m 1 why st) (\<lambda>_. True))"

definition forbid_list_item_because :: "list_id \<Rightarrow> int \<Rightarrow> premise list \<Rightarrow> store \<Rightarrow> bool outcome" where
  "forbid_list_item_because l item why st = (case list_member_var st l item of
     None \<Rightarrow> (st, Ok False)
   | Some m \<Rightarrow>
       if st_is_fixed st m
       then (if st_value st m = Some 0 then (st, Ok False) else failing (why @ [PEq m 1]) st)
       else then_ok (fix_because m 0 why st) (\<lambda>_. True))"

definition set_list_len_min :: "list_id \<Rightarrow> nat \<Rightarrow> store \<Rightarrow> bool outcome" where
  "set_list_len_min l mn st =
     (let v = list_length_var st l; before = st_min st v
      in then_ok (st_remove_below v (as_i32 (int mn)) st) (\<lambda>st'. st_min st' v \<noteq> before))"

definition set_list_len_max :: "list_id \<Rightarrow> nat \<Rightarrow> store \<Rightarrow> bool outcome" where
  "set_list_len_max l mx st =
     (let v = list_length_var st l; before = st_max st v
      in then_ok (st_remove_above v (as_i32 (int mx)) st) (\<lambda>st'. st_max st' v \<noteq> before))"

section \<open>Intervals\<close>

definition push_interval :: "var_id \<Rightarrow> int \<Rightarrow> var_id option \<Rightarrow> store \<Rightarrow> store \<times> interval_id" where
  "push_interval start duration presence st =
     (st\<lparr>interval_domains := interval_domains st @ [\<lparr>iv_start = start, iv_duration = duration, iv_presence = presence\<rparr>]\<rparr>,
      length (interval_domains st))"

definition new_interval_with_presence :: "int \<Rightarrow> int \<Rightarrow> int \<Rightarrow> presence \<Rightarrow> store \<Rightarrow> (store \<times> interval_id) option" where
  "new_interval_with_presence start_min start_max duration pr st =
     (if start_min > start_max \<or> duration < 0 then None else
      case new_var_range start_min start_max st of None \<Rightarrow> None
      | Some (st1, start) \<Rightarrow> (case pr of
          Present \<Rightarrow> Some (push_interval start duration None st1)
        | Optional \<Rightarrow> (case new_var_range 0 1 st1 of None \<Rightarrow> None
            | Some (st2, v) \<Rightarrow> Some (push_interval start duration (Some v) st2))
        | Absent \<Rightarrow> (case new_var_range 0 0 st1 of None \<Rightarrow> None
            | Some (st2, v) \<Rightarrow> Some (push_interval start duration (Some v) st2))))"

definition new_interval :: "int \<Rightarrow> int \<Rightarrow> int \<Rightarrow> store \<Rightarrow> (store \<times> interval_id) option" where
  "new_interval start_min start_max duration = new_interval_with_presence start_min start_max duration Present"

definition new_optional_interval :: "int \<Rightarrow> int \<Rightarrow> int \<Rightarrow> store \<Rightarrow> (store \<times> interval_id) option" where
  "new_optional_interval start_min start_max duration = new_interval_with_presence start_min start_max duration Optional"

definition register_interval :: "var_id \<Rightarrow> int \<Rightarrow> var_id option \<Rightarrow> store \<Rightarrow> (store \<times> interval_id) option" where
  "register_interval start duration presence st =
     (if start < length (domains st) \<and> (case presence of None \<Rightarrow> True | Some v \<Rightarrow> v < length (domains st)) \<and> duration \<ge> 0
      then Some (push_interval start duration presence st) else None)"

definition interval_start_var :: "store \<Rightarrow> interval_id \<Rightarrow> var_id" where
  "interval_start_var st i = iv_start (interval_domains st ! i)"

definition interval_presence_var :: "store \<Rightarrow> interval_id \<Rightarrow> var_id option" where
  "interval_presence_var st i = iv_presence (interval_domains st ! i)"

definition interval_duration :: "store \<Rightarrow> interval_id \<Rightarrow> int" where
  "interval_duration st i = iv_duration (interval_domains st ! i)"

definition interval_start_min :: "store \<Rightarrow> interval_id \<Rightarrow> int" where
  "interval_start_min st i = st_min st (interval_start_var st i)"

definition interval_start_max :: "store \<Rightarrow> interval_id \<Rightarrow> int" where
  "interval_start_max st i = st_max st (interval_start_var st i)"

definition interval_end_min :: "store \<Rightarrow> interval_id \<Rightarrow> int" where
  "interval_end_min st i = sat_i32 (interval_start_min st i + interval_duration st i)"

definition interval_end_max :: "store \<Rightarrow> interval_id \<Rightarrow> int" where
  "interval_end_max st i = sat_i32 (interval_start_max st i + interval_duration st i)"

definition interval_presence :: "store \<Rightarrow> interval_id \<Rightarrow> presence" where
  "interval_presence st i = (case interval_presence_var st i of
     None \<Rightarrow> Present
   | Some v \<Rightarrow> if \<not> st_is_fixed st v then Optional else if st_value st v = Some 1 then Present else Absent)"

definition set_interval_start_min :: "interval_id \<Rightarrow> int \<Rightarrow> store \<Rightarrow> bool outcome" where
  "set_interval_start_min i mn st =
     (let v = interval_start_var st i; before = st_min st v
      in then_ok (st_remove_below v mn st) (\<lambda>st'. st_min st' v \<noteq> before))"

definition set_interval_start_max :: "interval_id \<Rightarrow> int \<Rightarrow> store \<Rightarrow> bool outcome" where
  "set_interval_start_max i mx st =
     (let v = interval_start_var st i; before = st_max st v
      in then_ok (st_remove_above v mx st) (\<lambda>st'. st_max st' v \<noteq> before))"

definition set_interval_start_min_because :: "interval_id \<Rightarrow> int \<Rightarrow> premise list \<Rightarrow> store \<Rightarrow> bool outcome" where
  "set_interval_start_min_because i mn why st =
     (let v = interval_start_var st i; before = st_min st v
      in then_ok (remove_below_because v mn why st) (\<lambda>st'. st_min st' v \<noteq> before))"

definition set_interval_start_max_because :: "interval_id \<Rightarrow> int \<Rightarrow> premise list \<Rightarrow> store \<Rightarrow> bool outcome" where
  "set_interval_start_max_because i mx why st =
     (let v = interval_start_var st i; before = st_max st v
      in then_ok (remove_above_because v mx why st) (\<lambda>st'. st_max st' v \<noteq> before))"

definition fix_interval_presence :: "interval_id \<Rightarrow> int \<Rightarrow> store \<Rightarrow> bool outcome" where
  "fix_interval_presence i x st = (case interval_presence_var st i of
     None \<Rightarrow> (st, if x = 1 then Ok False else Err Inconsistency)
   | Some v \<Rightarrow> decide v x st)"

definition require_interval_presence :: "interval_id \<Rightarrow> store \<Rightarrow> bool outcome" where
  "require_interval_presence i = fix_interval_presence i 1"

definition forbid_interval_presence :: "interval_id \<Rightarrow> store \<Rightarrow> bool outcome" where
  "forbid_interval_presence i = fix_interval_presence i 0"

definition fix_interval_presence_because :: "interval_id \<Rightarrow> int \<Rightarrow> premise list \<Rightarrow> store \<Rightarrow> bool outcome" where
  "fix_interval_presence_because i x why st = (case interval_presence_var st i of
     None \<Rightarrow> if x = 1 then (st, Ok False) else failing why st
   | Some v \<Rightarrow> decide_because v x why st)"

definition require_interval_presence_because :: "interval_id \<Rightarrow> premise list \<Rightarrow> store \<Rightarrow> bool outcome" where
  "require_interval_presence_because i = fix_interval_presence_because i 1"

definition forbid_interval_presence_because :: "interval_id \<Rightarrow> premise list \<Rightarrow> store \<Rightarrow> bool outcome" where
  "forbid_interval_presence_because i = fix_interval_presence_because i 0"

section \<open>Disjunctive pairs\<close>

definition register_disjunctive_pair :: "interval_id \<Rightarrow> interval_id \<Rightarrow> prop_id \<Rightarrow> store \<Rightarrow> (store \<times> nat) option" where
  "register_disjunctive_pair a b p st = (case new_var_range 0 1 st of None \<Rightarrow> None
   | Some (st1, order) \<Rightarrow>
       let st2 = subscribe order p FixEvent st1
       in Some (st2\<lparr>disjunctive_pairs := disjunctive_pairs st2 @ [(a, b)],
                    disjunctive_order_vars := disjunctive_order_vars st2 @ [order]\<rparr>,
                length (disjunctive_pairs st2)))"

definition disjunctive_pair_count :: "store \<Rightarrow> nat" where
  "disjunctive_pair_count st = length (disjunctive_pairs st)"

definition disjunctive_pair :: "store \<Rightarrow> nat \<Rightarrow> interval_id \<times> interval_id" where
  "disjunctive_pair st k = disjunctive_pairs st ! k"

definition disjunctive_order_var :: "store \<Rightarrow> nat \<Rightarrow> var_id" where
  "disjunctive_order_var st k = disjunctive_order_vars st ! k"

definition disjunctive_order :: "store \<Rightarrow> nat \<Rightarrow> int" where
  "disjunctive_order st k =
     (let v = disjunctive_order_var st k
      in if \<not> st_is_fixed st v then 0 else if st_value st v = Some 1 then 1 else 2)"

definition order_target :: "int \<Rightarrow> int" where
  "order_target order = (if order = 1 then 1 else 0)"

definition set_disjunctive_order :: "nat \<Rightarrow> int \<Rightarrow> store \<Rightarrow> bool outcome" where
  "set_disjunctive_order k order st = decide (disjunctive_order_var st k) (order_target order) st"

definition set_disjunctive_order_because :: "nat \<Rightarrow> int \<Rightarrow> premise list \<Rightarrow> store \<Rightarrow> bool outcome" where
  "set_disjunctive_order_because k order why st =
     decide_because (disjunctive_order_var st k) (order_target order) why st"

end
