(* ===== verification/Solver.thy ===== *)
theory Solver imports StoreStructs begin

text \<open>
  \<open>Solver\<close> of \<open>src/src/store.rs\<close> and the \<open>Propagator\<close> trait of \<open>src/src/propagator.rs\<close>: posting
  propagators, the guard \<open>Selected\<close>, and the propagation fixpoint. A trait object is a value
  \<open>'p\<close> with a table of its methods; the constraints of the repository supply instances.
  A \<open>propagate\<close> that panics or never returns is \<open>None\<close>.
\<close>

section \<open>The trait\<close>

record 'p vtable =
  v_register :: "'p \<Rightarrow> prop_id \<Rightarrow> store \<Rightarrow> 'p \<times> store"
  v_register_until :: "'p \<Rightarrow> prop_id \<Rightarrow> bool list \<Rightarrow> store \<Rightarrow> 'p \<times> store \<times> bool \<times> bool list"
  v_propagate :: "'p \<Rightarrow> store \<Rightarrow> ('p \<times> unit outcome) option"
  v_propagate_until :: "'p \<Rightarrow> bool list \<Rightarrow> store \<Rightarrow> ('p \<times> unit outcome \<times> bool list) option"
  v_priority :: "'p \<Rightarrow> priority"

text \<open>The default methods, which a type without its own interruptible variants inherits.\<close>

definition default_register_until ::
    "('p \<Rightarrow> prop_id \<Rightarrow> store \<Rightarrow> 'p \<times> store) \<Rightarrow> 'p \<Rightarrow> prop_id \<Rightarrow> bool list \<Rightarrow> store \<Rightarrow> 'p \<times> store \<times> bool \<times> bool list" where
  "default_register_until reg p me stops st =
     (let (b, stops1) = poll stops in if b then (p, st, False, stops1) else
      let (p', st') = reg p me st; (b, stops2) = poll stops1 in (p', st', \<not> b, stops2))"

definition default_propagate_until ::
    "('p \<Rightarrow> store \<Rightarrow> ('p \<times> unit outcome) option) \<Rightarrow> 'p \<Rightarrow> bool list \<Rightarrow> store \<Rightarrow> ('p \<times> unit outcome \<times> bool list) option" where
  "default_propagate_until prop p stops st =
     (let (b, stops1) = poll stops in if b then Some (p, (st, Ok ()), stops1)
      else map_option (\<lambda>(p', out). (p', out, stops1)) (prop p st))"

section \<open>The guard\<close>

text \<open>A boxed propagator: one of a constraint, or another box behind a selector variable.\<close>

datatype 'p boxed = Boxed 'p | Selected var_id "'p boxed"

fun box_register :: "'p vtable \<Rightarrow> 'p boxed \<Rightarrow> prop_id \<Rightarrow> store \<Rightarrow> 'p boxed \<times> store" where
  "box_register vt (Boxed p) me st = (case v_register vt p me st of (p', st') \<Rightarrow> (Boxed p', st'))"
| "box_register vt (Selected sel b) me st =
     (case box_register vt b me (subscribe sel me FixEvent st) of (b', st') \<Rightarrow> (Selected sel b', st'))"

fun box_register_until ::
    "'p vtable \<Rightarrow> 'p boxed \<Rightarrow> prop_id \<Rightarrow> bool list \<Rightarrow> store \<Rightarrow> 'p boxed \<times> store \<times> bool \<times> bool list" where
  "box_register_until vt (Boxed p) me stops st =
     (case v_register_until vt p me stops st of (p', rest) \<Rightarrow> (Boxed p', rest))"
| "box_register_until vt (Selected sel b) me stops st =
     (let (stop, stops1) = poll stops in if stop then (Selected sel b, st, False, stops1) else
      case box_register_until vt b me stops1 (subscribe sel me FixEvent st) of (b', st', fin, stops2) \<Rightarrow>
        if \<not> fin then (Selected sel b', st', False, stops2)
        else let (stop, stops3) = poll stops2 in (Selected sel b', st', \<not> stop, stops3))"

text \<open>Attribute the reasons of the inner propagator to the selector.\<close>

definition close_guard :: "premise \<Rightarrow> unit outcome \<Rightarrow> unit outcome" where
  "close_guard premise out = (case out of (st, r) \<Rightarrow>
     (clear_injected_premise (if is_ok r then st else push_conflict_premise premise st), r))"

fun box_propagate :: "'p vtable \<Rightarrow> 'p boxed \<Rightarrow> store \<Rightarrow> ('p boxed \<times> unit outcome) option" where
  "box_propagate vt (Boxed p) st = map_option (\<lambda>(p', out). (Boxed p', out)) (v_propagate vt p st)"
| "box_propagate vt (Selected sel b) st =
     (if \<not> st_is_fixed st sel \<or> st_value st sel \<noteq> Some 1 then Some (Selected sel b, (st, Ok ()))
      else map_option (\<lambda>(b', out). (Selected sel b', close_guard (PEq sel 1) out))
             (box_propagate vt b (set_injected_premise (PEq sel 1) st)))"

fun box_propagate_until :: "'p vtable \<Rightarrow> 'p boxed \<Rightarrow> bool list \<Rightarrow> store \<Rightarrow> ('p boxed \<times> unit outcome \<times> bool list) option" where
  "box_propagate_until vt (Boxed p) stops st =
     map_option (\<lambda>(p', rest). (Boxed p', rest)) (v_propagate_until vt p stops st)"
| "box_propagate_until vt (Selected sel b) stops st =
     (let (stop, stops1) = poll stops
      in if stop \<or> \<not> st_is_fixed st sel \<or> st_value st sel \<noteq> Some 1 then Some (Selected sel b, (st, Ok ()), stops1)
         else map_option (\<lambda>(b', out, stops2). (Selected sel b', close_guard (PEq sel 1) out, stops2))
                (box_propagate_until vt b stops1 (set_injected_premise (PEq sel 1) st)))"

fun box_priority :: "'p vtable \<Rightarrow> 'p boxed \<Rightarrow> priority" where
  "box_priority vt (Boxed p) = v_priority vt p"
| "box_priority vt (Selected sel b) = box_priority vt b"

section \<open>The solver\<close>

record relaxation_row =
  rr_coefficients :: "int list"
  rr_variables :: "var_id list"
  rr_lower :: "int option"
  rr_upper :: "int option"

text \<open>The two thread-local counters of the module are the last two fields.\<close>

record 'p solver =
  so_store :: store
  propagators :: "'p boxed option list"
  weights :: "64 word list"
  current_selector :: "var_id option"
  native_intensions :: nat
  fallback_intensions :: nat
  propagation_calls :: nat
  linear_relaxation :: "relaxation_row list"
  prop_calls :: "64 word"
  expensive_calls :: "64 word"

definition solver_new :: "'p solver" where
  "solver_new = \<lparr>so_store = store_new, propagators = [], weights = [], current_selector = None,
     native_intensions = 0, fallback_intensions = 0, propagation_calls = 0, linear_relaxation = [],
     prop_calls = 0, expensive_calls = 0\<rparr>"

definition u64_succ :: "nat \<Rightarrow> nat" where
  "u64_succ n = (if n < 18446744073709551615 then n + 1 else n)"

definition reset_prop_calls :: "'p solver \<Rightarrow> 'p solver" where
  "reset_prop_calls so = so\<lparr>prop_calls := 0, expensive_calls := 0\<rparr>"

definition set_selector :: "var_id option \<Rightarrow> 'p solver \<Rightarrow> 'p solver" where
  "set_selector sel so = so\<lparr>current_selector := sel\<rparr>"

definition mark_native_intension :: "'p solver \<Rightarrow> 'p solver" where
  "mark_native_intension so = so\<lparr>native_intensions := u64_succ (native_intensions so)\<rparr>"

definition mark_fallback_intension :: "'p solver \<Rightarrow> 'p solver" where
  "mark_fallback_intension so = so\<lparr>fallback_intensions := u64_succ (fallback_intensions so)\<rparr>"

definition intension_lowering_counts :: "'p solver \<Rightarrow> nat \<times> nat" where
  "intension_lowering_counts so = (native_intensions so, fallback_intensions so)"

definition guard_with :: "var_id option \<Rightarrow> 'p boxed \<Rightarrow> 'p boxed" where
  "guard_with sel b = (case sel of None \<Rightarrow> b | Some s \<Rightarrow> Selected s b)"

definition post_until :: "'p vtable \<Rightarrow> 'p boxed \<Rightarrow> bool list \<Rightarrow> 'p solver \<Rightarrow> 'p solver \<times> prop_id option \<times> bool list" where
  "post_until vt b stops so =
     (let (stop, stops1) = poll stops in if stop then (so, None, stops1) else
      let (me, st1) = alloc_prop (so_store so);
          (b', st2, fin, stops2) = box_register_until vt (guard_with (current_selector so) b) me stops1 st1
      in if \<not> fin then (so\<lparr>so_store := st2\<rparr>, None, stops2)
         else let st3 = enqueue me (finalize_scope me (set_priority me (box_priority vt b') st2))
              in (so\<lparr>so_store := st3, propagators := propagators so @ [Some b'], weights := weights so @ [1]\<rparr>,
                  Some me, stops2))"

text \<open>\<open>post\<close> never stops; \<open>None\<close> is its panic if registration reports otherwise.\<close>

definition post :: "'p vtable \<Rightarrow> 'p boxed \<Rightarrow> 'p solver \<Rightarrow> ('p solver \<times> prop_id) option" where
  "post vt b so = (case post_until vt b [] so of (so', r, _) \<Rightarrow> map_option (Pair so') r)"

definition enqueue_all :: "'p solver \<Rightarrow> 'p solver" where
  "enqueue_all so = so\<lparr>so_store := fold enqueue [0..<length (propagators so)] (so_store so)\<rparr>"

text \<open>
  Running one propagator: it is taken out of its slot, runs with the staged reasons cleared
  and itself as the current one, and goes back; a failure bumps its weight and clears the
  queue. \<open>None\<close> is the panic of an empty slot.
\<close>

definition begin_run :: "prop_id \<Rightarrow> 'p solver \<Rightarrow> ('p boxed \<times> store \<times> 'p solver) option" where
  "begin_run me so =
     (let so1 = so\<lparr>prop_calls := prop_calls so + 1, propagation_calls := u64_succ (propagation_calls so),
                   expensive_calls := (if prio (so_store so) ! me = Expensive then expensive_calls so + 1 else expensive_calls so)\<rparr>
      in case propagators so1 ! me of
           None \<Rightarrow> None
         | Some b \<Rightarrow> Some (b, (clear_pending (so_store so1))\<lparr>current := Some me\<rparr>,
                           so1\<lparr>propagators := (propagators so1)[me := None]\<rparr>))"

definition end_run :: "prop_id \<Rightarrow> 'p boxed \<Rightarrow> unit outcome \<Rightarrow> 'p solver \<Rightarrow> 'p solver \<times> (unit, inconsistency) result" where
  "end_run me b out so =
     (let (st, r) = out;
          so1 = so\<lparr>so_store := st\<lparr>current := None\<rparr>, propagators := (propagators so)[me := Some b]\<rparr>
      in if is_ok r then (so1, r)
         else (so1\<lparr>weights := list_modify me (\<lambda>w. w + 1) (weights so1),
                   so_store := clear_queue (bump_var_weight me (so_store so1))\<rparr>, r))"

definition run_prop :: "'p vtable \<Rightarrow> prop_id \<Rightarrow> 'p solver \<Rightarrow> ('p solver \<times> (unit, inconsistency) result) option" where
  "run_prop vt me so = (case begin_run me so of None \<Rightarrow> None
     | Some (b, st, so1) \<Rightarrow> map_option (\<lambda>(b', out). end_run me b' out so1) (box_propagate vt b st))"

definition run_prop_until ::
    "'p vtable \<Rightarrow> prop_id \<Rightarrow> bool list \<Rightarrow> 'p solver \<Rightarrow> ('p solver \<times> (unit, inconsistency) result \<times> bool list) option" where
  "run_prop_until vt me stops so = (case begin_run me so of None \<Rightarrow> None
     | Some (b, st, so1) \<Rightarrow> map_option (\<lambda>(b', out, stops'). case end_run me b' out so1 of (so2, r) \<Rightarrow> (so2, r, stops'))
          (box_propagate_until vt b stops st))"

text \<open>The fixpoint loop. \<open>None\<close> is a panic or a run that never ends.\<close>

partial_function (option) propagate ::
    "'p vtable \<Rightarrow> 'p solver \<Rightarrow> ('p solver \<times> (unit, inconsistency) result) option" where
  "propagate vt so = (case dequeue (so_store so) of
     (None, st) \<Rightarrow> Some (so\<lparr>so_store := st\<rparr>, Ok ())
   | (Some me, st) \<Rightarrow> Option.bind (run_prop vt me (so\<lparr>so_store := st\<rparr>))
        (\<lambda>(so', r). if is_ok r then propagate vt so' else Some (so', r)))"

partial_function (option) propagate_until ::
    "'p vtable \<Rightarrow> bool list \<Rightarrow> 'p solver \<Rightarrow> ('p solver \<times> (unit, inconsistency) result \<times> bool list) option" where
  "propagate_until vt stops so = (case dequeue (so_store so) of
     (None, st) \<Rightarrow> Some (so\<lparr>so_store := st\<rparr>, Ok (), stops)
   | (Some me, st) \<Rightarrow>
       let (stop, stops1) = poll stops
       in if stop then Some (so\<lparr>so_store := clear_queue st\<rparr>, Ok (), stops1)
          else Option.bind (run_prop_until vt me stops1 (so\<lparr>so_store := st\<rparr>))
             (\<lambda>(so', r, stops2).
                if is_ok r
                then let (stop, stops3) = poll stops2
                     in if stop then Some (so'\<lparr>so_store := clear_queue (so_store so')\<rparr>, Ok (), stops3)
                        else propagate_until vt stops3 so'
                else Some (so', r, stops2)))"

declare propagate.simps [code] propagate_until.simps [code]

datatype step_outcome = EmptyStep | Ran prop_id | Failed prop_id

definition propagate_step :: "'p vtable \<Rightarrow> 'p solver \<Rightarrow> ('p solver \<times> step_outcome) option" where
  "propagate_step vt so = (case dequeue (so_store so) of
     (None, st) \<Rightarrow> Some (so\<lparr>so_store := st\<rparr>, EmptyStep)
   | (Some me, st) \<Rightarrow> map_option (\<lambda>(so', r). (so', if is_ok r then Ran me else Failed me))
        (run_prop vt me (so\<lparr>so_store := st\<rparr>)))"

definition peek_prop :: "'p solver \<Rightarrow> prop_id option" where
  "peek_prop so = peek_queue (so_store so)"

definition fd_at_fixpoint :: "'p solver \<Rightarrow> bool" where
  "fd_at_fixpoint so = queue_is_empty (so_store so)"

section \<open>The recorded linear relaxation\<close>

text \<open>Activity bounds of a weighted sum under the current bounds, in checked \<open>i128\<close>.\<close>

fun activity_loop :: "store \<Rightarrow> (int \<times> var_id) list \<Rightarrow> int \<times> int \<Rightarrow> (int \<times> int) option" where
  "activity_loop st [] acc = Some acc"
| "activity_loop st ((a, v) # ts) acc =
     (let lower = st_min st v; upper = st_max st v in
      case (if a \<ge> 0 then (checked_i128 (a * lower), checked_i128 (a * upper))
            else (checked_i128 (a * upper), checked_i128 (a * lower))) of
        (Some mn, Some mx) \<Rightarrow>
          (case (checked_i128 (fst acc + mn), checked_i128 (snd acc + mx)) of
             (Some mn', Some mx') \<Rightarrow> activity_loop st ts (mn', mx')
           | _ \<Rightarrow> None)
      | _ \<Rightarrow> None)"

definition linear_activity_bounds :: "store \<Rightarrow> int list \<Rightarrow> var_id list \<Rightarrow> (int \<times> int) option" where
  "linear_activity_bounds st coefficients variables =
     (if length coefficients \<noteq> length variables then None
      else activity_loop st (zip coefficients variables) (0, 0))"

definition push_linear_relaxation :: "int list \<Rightarrow> var_id list \<Rightarrow> int option \<Rightarrow> int option \<Rightarrow> 'p solver \<Rightarrow> 'p solver" where
  "push_linear_relaxation coefficients variables lower upper so =
     so\<lparr>linear_relaxation := linear_relaxation so @ [\<lparr>rr_coefficients = coefficients, rr_variables = variables,
        rr_lower = lower, rr_upper = upper\<rparr>]\<rparr>"

definition relax_lower :: "int list \<Rightarrow> var_id list \<Rightarrow> var_id \<Rightarrow> int \<Rightarrow> int option \<Rightarrow> 'p solver \<Rightarrow> 'p solver" where
  "relax_lower cs vs sel minimum lower so = (case lower of None \<Rightarrow> so
     | Some l \<Rightarrow>
        (let gap = l - minimum
         in if gap \<le> 0 then push_linear_relaxation cs vs (Some l) None so
            else case (checked_i64 (- gap), checked_i64 minimum) of
                   (Some a, Some b) \<Rightarrow> push_linear_relaxation (cs @ [a]) (vs @ [sel]) (Some b) None so
                 | _ \<Rightarrow> so))"

definition relax_upper :: "int list \<Rightarrow> var_id list \<Rightarrow> var_id \<Rightarrow> int \<Rightarrow> int option \<Rightarrow> 'p solver \<Rightarrow> 'p solver" where
  "relax_upper cs vs sel maximum upper so = (case upper of None \<Rightarrow> so
     | Some u \<Rightarrow>
        (let gap = maximum - u
         in if gap \<le> 0 then push_linear_relaxation cs vs None (Some u) so
            else case (checked_i64 gap, checked_i64 maximum) of
                   (Some a, Some b) \<Rightarrow> push_linear_relaxation (cs @ [a]) (vs @ [sel]) None (Some b) so
                 | _ \<Rightarrow> so))"

definition record_linear_relaxation :: "int list \<Rightarrow> var_id list \<Rightarrow> int option \<Rightarrow> int option \<Rightarrow> 'p solver \<Rightarrow> 'p solver" where
  "record_linear_relaxation cs vs lower upper so = (case current_selector so of
     None \<Rightarrow> push_linear_relaxation cs vs lower upper so
   | Some sel \<Rightarrow> (case linear_activity_bounds (so_store so) cs vs of None \<Rightarrow> so
       | Some (minimum, maximum) \<Rightarrow>
           relax_upper cs vs sel maximum upper (relax_lower cs vs sel minimum lower so)))"

end
