(* ===== verification/IntDomainProps.thy ===== *)
theory IntDomainProps imports IntDomain begin

text \<open>
  Correctness of the finite-integer domain. A domain represents a set of integers with
  respect to a vector of trail values (\<open>vset\<close>), so the same untrailed arrays represent one
  set for the current values and one for every open level's snapshot. The invariant
  \<open>dom_ok\<close> says that all of these are well formed and nested. Each mutation is shown to
  change the current set as specified, to leave the set of every open level alone, and to
  write nothing outside the domain's own handles.
\<close>

section \<open>The represented set and the invariant\<close>

definition vset :: "domain \<Rightarrow> int list \<Rightarrow> int set" where
  "vset d s =
     (case d_map d of
        Bounds hs hl em ah \<Rightarrow>
          if s ! em = 0
          then {v. s ! d_min d \<le> v \<and> v \<le> s ! d_max d \<and> v \<notin> set (take (nat (s ! hl)) hs)} else {}
      | _ \<Rightarrow> dom_value_of d ` set (take (nat (s ! d_size d)) (d_dense d)))"

definition handle_list :: "domain \<Rightarrow> nat list" where
  "handle_list d =
     (case d_map d of
        Bounds hs hl em ah \<Rightarrow> [d_size d, d_min d, d_max d, hl, em, ah]
      | _ \<Rightarrow> [d_size d, d_min d, d_max d])"

definition perm_ok :: "nat list \<Rightarrow> nat list \<Rightarrow> bool" where
  "perm_ok dense sparse \<longleftrightarrow>
     length sparse = length dense \<and>
     (\<forall>p < length dense. dense ! p < length dense \<and> sparse ! (dense ! p) = p) \<and>
     (\<forall>i < length dense. sparse ! i < length dense \<and> dense ! (sparse ! i) = i)"

definition dom_static :: "domain \<Rightarrow> nat \<Rightarrow> bool" where
  "dom_static d n \<longleftrightarrow>
     distinct (handle_list d) \<and> (\<forall>r \<in> set (handle_list d). r < n) \<and>
     (case d_map d of
        Dense off rv \<Rightarrow>
          perm_ok (d_dense d) (d_sparse d) \<and> int (length (d_dense d)) \<le> i32_max \<and>
          (\<forall>i < length (d_dense d). in_i32 (off + int i))
      | Sparse vs \<Rightarrow>
          perm_ok (d_dense d) (d_sparse d) \<and> int (length (d_dense d)) \<le> i32_max \<and>
          length vs = length (d_dense d) \<and> sorted vs \<and> distinct vs \<and> (\<forall>v \<in> set vs. in_i32 v)
      | Bounds hs hl em ah \<Rightarrow> True)"

definition dom_at :: "domain \<Rightarrow> int list \<Rightarrow> bool" where
  "dom_at d s \<longleftrightarrow>
     in_i32 (s ! d_min d) \<and> in_i32 (s ! d_max d) \<and>
     (case d_map d of
        Bounds hs hl em ah \<Rightarrow>
          0 \<le> s ! hl \<and> s ! hl \<le> int (length hs) \<and> s ! hl \<le> i32_max \<and>
          distinct (take (nat (s ! hl)) hs) \<and>
          (s ! em = 0 \<longrightarrow>
             s ! d_min d \<in> vset d s \<and> s ! d_max d \<in> vset d s \<and>
             s ! ah = int (length (filter (\<lambda>h. s ! d_min d \<le> h \<and> h \<le> s ! d_max d) (take (nat (s ! hl)) hs))))
      | _ \<Rightarrow>
          0 \<le> s ! d_size d \<and> s ! d_size d \<le> int (length (d_dense d)) \<and>
          (s ! d_size d > 0 \<longrightarrow>
             s ! d_min d \<in> vset d s \<and> s ! d_max d \<in> vset d s \<and>
             (\<forall>v \<in> vset d s. s ! d_min d \<le> v \<and> v \<le> s ! d_max d)))"

text \<open>
  \<open>dom_le d new old\<close>: the newer values prune more than the older ones. The rank is the
  counter that says how much of the untrailed arrays a vector of values still reads: it only
  falls as a level proceeds.
\<close>

definition rank :: "domain \<Rightarrow> int list \<Rightarrow> int" where
  "rank d s = (case d_map d of Bounds hs hl em ah \<Rightarrow> - (s ! hl) | _ \<Rightarrow> s ! d_size d)"

definition dom_le :: "domain \<Rightarrow> int list \<Rightarrow> int list \<Rightarrow> bool" where
  "dom_le d s' s \<longleftrightarrow> vset d s' \<subseteq> vset d s \<and> rank d s' \<le> rank d s"

definition history :: "trail \<Rightarrow> int list list" where
  "history t = t_values t # snapshots t"

definition dom_ok :: "domain \<Rightarrow> trail \<Rightarrow> bool" where
  "dom_ok d t \<longleftrightarrow>
     trail_ok t \<and> dom_static d (length (t_values t)) \<and>
     (\<forall>s \<in> set (history t). dom_at d s) \<and>
     sorted_wrt (dom_le d) (history t)"

definition dom_set :: "domain \<Rightarrow> trail \<Rightarrow> int set" where
  "dom_set d t = vset d (t_values t)"

text \<open>What a write set \<open>H\<close> of handles may change in a trail.\<close>

definition trail_writes :: "nat set \<Rightarrow> trail \<Rightarrow> trail \<Rightarrow> bool" where
  "trail_writes H t t' \<longleftrightarrow>
     trail_ok t' \<and> snapshots t' = snapshots t \<and> t_levels t' = t_levels t \<and>
     length (t_values t') = length (t_values t) \<and>
     (\<forall>r. r \<notin> H \<longrightarrow> t_values t' ! r = t_values t ! r)"

text \<open>What every mutation of a domain promises: the new current set is \<open>S\<close>, the rest stays.\<close>

definition dom_step :: "domain \<Rightarrow> trail \<Rightarrow> domain \<Rightarrow> trail \<Rightarrow> int set \<Rightarrow> bool" where
  "dom_step d t d' t' S \<longleftrightarrow>
     dom_ok d' t' \<and> dom_set d' t' = S \<and> handle_list d' = handle_list d \<and>
     trail_writes (set (handle_list d)) t t' \<and>
     (\<forall>s \<in> set (snapshots t). vset d' s = vset d s)"

section \<open>Trail writes\<close>

lemma trail_writes_refl: "trail_ok t \<Longrightarrow> trail_writes H t t"
  by (simp add: trail_writes_def)

lemma trail_writes_trans:
  "trail_writes H t t1 \<Longrightarrow> trail_writes H t1 t2 \<Longrightarrow> trail_writes H t t2"
  by (simp add: trail_writes_def)

lemma trail_writes_set:
  "\<lbrakk>trail_writes H t t1; r \<in> H; r < length (t_values t)\<rbrakk> \<Longrightarrow> trail_writes H t (trail_set t1 r v)"
  by (auto simp: trail_writes_def trail_simps trail_ok_set) (metis nth_list_update_neq)

lemma trail_writes_ok: "trail_writes H t t' \<Longrightarrow> trail_ok t'"
  by (simp add: trail_writes_def)

lemma trail_writes_values: "trail_writes H t t' \<Longrightarrow> r \<notin> H \<Longrightarrow> t_values t' ! r = t_values t ! r"
  by (simp add: trail_writes_def)

section \<open>Sparse-set arrays\<close>

lemma perm_ok_distinct: "perm_ok dense sparse \<Longrightarrow> distinct dense"
  unfolding perm_ok_def by (metis distinct_conv_nth)

lemma perm_ok_prefix:
  assumes "perm_ok dense sparse" "i < length dense" "k \<le> length dense"
  shows "sparse ! i < k \<longleftrightarrow> i \<in> set (take k dense)"
  using assms unfolding perm_ok_def by (auto simp: in_set_take_iff)

lemma perm_ok_set: "perm_ok dense sparse \<Longrightarrow> set dense = {..<length dense}"
  unfolding perm_ok_def by (force simp: set_conv_nth)

lemma perm_ok_swap:
  assumes p: "perm_ok dense sparse" and ab: "a < length dense" "b < length dense"
  shows "perm_ok (dense[a := dense ! b, b := dense ! a]) (sparse[dense ! a := b, dense ! b := a])"
    (is "perm_ok ?D ?S")
proof -
  have len: "length sparse = length dense" using p by (simp add: perm_ok_def)
  have D: "?D ! q = dense ! (if q = a then b else if q = b then a else q)" if "q < length dense" for q
    using ab that by (auto simp: nth_list_update)
  have S: "?S ! i = (if i = dense ! b then a else if i = dense ! a then b else sparse ! i)"
    if "i < length dense" for i
    using that len p ab by (auto simp: nth_list_update perm_ok_def)
  have inj: "dense ! x = dense ! y \<longleftrightarrow> x = y" if "x < length dense" "y < length dense" for x y
    using p that unfolding perm_ok_def by metis
  have rng: "dense ! x < length dense" "sparse ! x < length dense" "sparse ! (dense ! x) = x"
    "dense ! (sparse ! x) = x" if "x < length dense" for x
    using p that by (auto simp: perm_ok_def)
  show ?thesis
    unfolding perm_ok_def
  proof (intro conjI allI impI)
    fix q assume "q < length ?D"
    then have q: "q < length dense" by simp
    show "?D ! q < length ?D" using D [OF q] q ab by (auto simp: rng)
    show "?S ! (?D ! q) = q"
      using D [OF q] q ab by (auto simp: S rng inj)
  next
    fix i assume "i < length ?D"
    then have i: "i < length dense" by simp
    show "?S ! i < length ?D" using i ab by (auto simp: S rng)
    have "sparse ! i \<noteq> a" if "i \<noteq> dense ! a" using that rng(4)[OF i] by auto
    moreover have "sparse ! i \<noteq> b" if "i \<noteq> dense ! b" using that rng(4)[OF i] by auto
    ultimately show "?D ! (?S ! i) = i"
      using i ab by (auto simp: S D rng)
  qed (simp add: len)
qed

section \<open>Indexed storage\<close>

text \<open>The values of the first \<open>k\<close> positions.\<close>

definition prefix_set :: "domain \<Rightarrow> nat \<Rightarrow> int set" where
  "prefix_set d k = dom_value_of d ` set (take k (d_dense d))"

lemma vset_indexed: "\<not> dom_is_bounds d \<Longrightarrow> vset d s = prefix_set d (nat (s ! d_size d))"
  by (auto simp: vset_def dom_is_bounds_def prefix_set_def split: value_map.splits)

lemma static_perm: "dom_static d n \<Longrightarrow> \<not> dom_is_bounds d \<Longrightarrow>
    perm_ok (d_dense d) (d_sparse d) \<and> int (length (d_dense d)) \<le> i32_max"
  by (auto simp: dom_static_def dom_is_bounds_def split: value_map.splits)

lemma index_of_Some:
  assumes st: "dom_static d n" and nb: "\<not> dom_is_bounds d"
  shows "dom_index_of d v = Some i \<longleftrightarrow> i < length (d_dense d) \<and> dom_value_of d i = v"
proof (cases "d_map d")
  case (Dense off rv)
  have *: "as_i32 (off + int i) = off + int i" if "i < length (d_dense d)" for i
    using st Dense that by (simp add: dom_static_def as_i32_id)
  have **: "as_usize (v - off) = nat (v - off)"
    if "0 \<le> v - off" "v - off < int (length (d_dense d))"
    using that static_perm [OF st nb] by (simp add: as_usize_id i32_max_def)
  have "i < length (d_dense d) \<and> off + int i = v \<longleftrightarrow>
      0 \<le> v - off \<and> v - off < int (length (d_dense d)) \<and> nat (v - off) = i"
    by auto
  then show ?thesis
    using * ** Dense by (auto simp: dom_index_of_def dom_value_of_def Let_def)
next
  case (Sparse vs)
  then show ?thesis
    using st by (auto simp: dom_index_of_def dom_value_of_def dom_static_def binary_search_distinct)
next
  case (Bounds hs hl em ah)
  with nb show ?thesis by (simp add: dom_is_bounds_def)
qed

lemma value_of_inj:
  assumes "dom_static d n" "\<not> dom_is_bounds d" "i < length (d_dense d)" "j < length (d_dense d)"
    "dom_value_of d i = dom_value_of d j"
  shows "i = j"
  using assms index_of_Some by (metis option.inject)

lemma value_of_i32:
  assumes st: "dom_static d n" "\<not> dom_is_bounds d" "i < length (d_dense d)"
  shows "in_i32 (dom_value_of d i)"
  using assms by (auto simp: dom_static_def dom_value_of_def dom_is_bounds_def split: value_map.splits)

lemma dense_lt:
  assumes "dom_static d n" "\<not> dom_is_bounds d" "p < length (d_dense d)"
  shows "d_dense d ! p < length (d_dense d)"
  using static_perm [OF assms(1,2)] assms(3) by (simp add: perm_ok_def)

lemma in_take_dense_lt:
  assumes "dom_static d n" "\<not> dom_is_bounds d" "i \<in> set (take k (d_dense d))"
  shows "i < length (d_dense d)"
  using static_perm [OF assms(1,2)] assms(3) perm_ok_set in_set_takeD by fastforce

lemma prefix_set_i32:
  "dom_static d n \<Longrightarrow> \<not> dom_is_bounds d \<Longrightarrow> v \<in> prefix_set d k \<Longrightarrow> in_i32 v"
  by (auto simp: prefix_set_def intro: value_of_i32 in_take_dense_lt)

lemma prefix_set_index:
  assumes st: "dom_static d n" and nb: "\<not> dom_is_bounds d" and k: "k \<le> length (d_dense d)"
  shows "v \<in> prefix_set d k \<longleftrightarrow> (\<exists>i. dom_index_of d v = Some i \<and> d_sparse d ! i < k)"
proof -
  note perm = static_perm [OF st nb, THEN conjunct1]
  show ?thesis
    unfolding prefix_set_def using index_of_Some [OF st nb] perm_ok_prefix [OF perm _ k]
      in_take_dense_lt [OF st nb]
    by (auto simp: image_iff) (metis+)
qed

lemma card_prefix_set:
  assumes "dom_static d n" "\<not> dom_is_bounds d" "k \<le> length (d_dense d)"
  shows "card (prefix_set d k) = k"
proof -
  have "distinct (d_dense d)" using static_perm [OF assms(1,2)] perm_ok_distinct by blast
  then have "card (set (take k (d_dense d))) = k"
    using assms(3) by (simp add: distinct_card)
  moreover have "inj_on (dom_value_of d) (set (take k (d_dense d)))"
    by (meson assms(1,2) in_take_dense_lt inj_onI value_of_inj)
  ultimately show ?thesis by (simp add: prefix_set_def card_image)
qed

lemma finite_prefix_set [simp]: "finite (prefix_set d k)"
  by (simp add: prefix_set_def)

text \<open>The size counter, read back.\<close>

lemma size_indexed:
  assumes "\<not> dom_is_bounds d" "0 \<le> t_values t ! d_size d"
    "t_values t ! d_size d \<le> int (length (d_dense d))" "int (length (d_dense d)) \<le> i32_max"
  shows "dom_size d t = nat (t_values t ! d_size d)"
proof -
  have "dom_size d t = as_usize (t_values t ! d_size d)"
    using assms(1) by (auto simp: dom_size_def dom_is_bounds_def trail_get_def split: value_map.splits)
  with assms show ?thesis by (simp add: as_usize_id i32_max_def)
qed

lemma contains_indexed:
  assumes st: "dom_static d n" and nb: "\<not> dom_is_bounds d"
    and sz: "0 \<le> t_values t ! d_size d" "t_values t ! d_size d \<le> int (length (d_dense d))"
  shows "dom_contains d v t \<longleftrightarrow> v \<in> vset d (t_values t)"
proof -
  have k: "nat (t_values t ! d_size d) \<le> length (d_dense d)" using sz by simp
  have "dom_size d t = nat (t_values t ! d_size d)"
    using size_indexed [OF nb sz] static_perm [OF st nb] by blast
  moreover have "dom_contains d v t \<longleftrightarrow>
      (\<exists>i. dom_index_of d v = Some i \<and> d_sparse d ! i < dom_size d t)"
    using nb by (auto simp: dom_contains_def dom_is_bounds_def split: value_map.splits option.splits)
  ultimately show ?thesis
    using prefix_set_index [OF st nb k] by (simp add: vset_indexed [OF nb])
qed

section \<open>The step rule\<close>

lemma dom_ok_current: "dom_ok d t \<Longrightarrow> dom_at d (t_values t)"
  by (simp add: dom_ok_def history_def)

lemma dom_ok_static: "dom_ok d t \<Longrightarrow> dom_static d (length (t_values t))"
  by (simp add: dom_ok_def)

lemma dom_ok_trail: "dom_ok d t \<Longrightarrow> trail_ok t"
  by (simp add: dom_ok_def)

lemma dom_ok_old:
  "dom_ok d t \<Longrightarrow> s \<in> set (snapshots t) \<Longrightarrow> dom_at d s \<and> dom_le d (t_values t) s"
  by (simp add: dom_ok_def history_def)

lemma dom_stepI:
  assumes ok: "dom_ok d t" and st: "dom_static d' (length (t_values t))"
    and hd: "handle_list d' = handle_list d" and rk: "\<And>s. rank d' s = rank d s"
    and old: "\<And>s. dom_at d s \<Longrightarrow> rank d (t_values t) \<le> rank d s \<Longrightarrow> dom_at d' s \<and> vset d' s = vset d s"
    and tw: "trail_writes (set (handle_list d)) t t'" and new: "dom_at d' (t_values t')"
    and sub: "vset d' (t_values t') \<subseteq> vset d (t_values t)"
    and le: "rank d (t_values t') \<le> rank d (t_values t)" and S: "S = vset d' (t_values t')"
  shows "dom_step d t d' t' S"
proof -
  have snaps: "dom_at d' s \<and> vset d' s = vset d s \<and> dom_le d (t_values t) s"
    if "s \<in> set (snapshots t)" for s
    using old dom_ok_old [OF ok that] by (simp add: dom_le_def)
  have "sorted_wrt (dom_le d) (snapshots t)"
    using ok by (simp add: dom_ok_def history_def)
  then have "sorted_wrt (dom_le d') (snapshots t)"
    by (rule sorted_wrt_mono_rel [rotated]) (simp add: dom_le_def rk snaps)
  moreover have "dom_le d' (t_values t') s" if "s \<in> set (snapshots t)" for s
    using snaps [OF that] sub le by (auto simp: dom_le_def rk)
  ultimately have "dom_ok d' t'"
    using tw st new snaps by (simp add: dom_ok_def history_def trail_writes_def)
  with hd tw snaps S show ?thesis by (simp add: dom_step_def dom_set_def)
qed

lemma dom_step_refl: "dom_ok d t \<Longrightarrow> dom_set d t = S \<Longrightarrow> dom_step d t d t S"
  by (simp add: dom_step_def trail_writes_refl dom_ok_def)

lemma dom_step_trans:
  "dom_step d t d1 t1 S1 \<Longrightarrow> dom_step d1 t1 d2 t2 S2 \<Longrightarrow> dom_step d t d2 t2 S2"
  by (auto simp: dom_step_def trail_writes_def)

lemma dom_step_ok: "dom_step d t d' t' S \<Longrightarrow> dom_ok d' t'"
  by (simp add: dom_step_def)

lemma dom_step_set: "dom_step d t d' t' S \<Longrightarrow> dom_set d' t' = S"
  by (simp add: dom_step_def)

section \<open>Reads\<close>

lemma indexed_at:
  assumes "dom_at d s" "\<not> dom_is_bounds d"
  shows "0 \<le> s ! d_size d" "s ! d_size d \<le> int (length (d_dense d))"
    "s ! d_size d > 0 \<Longrightarrow> s ! d_min d \<in> vset d s \<and> s ! d_max d \<in> vset d s \<and>
       (\<forall>v \<in> vset d s. s ! d_min d \<le> v \<and> v \<le> s ! d_max d)"
    "in_i32 (s ! d_min d)" "in_i32 (s ! d_max d)"
  using assms by (auto simp: dom_at_def dom_is_bounds_def split: value_map.splits)

lemma indexed_atI:
  assumes "\<not> dom_is_bounds d" "in_i32 (s ! d_min d)" "in_i32 (s ! d_max d)"
    "0 \<le> s ! d_size d" "s ! d_size d \<le> int (length (d_dense d))"
    "s ! d_size d > 0 \<Longrightarrow> s ! d_min d \<in> vset d s \<and> s ! d_max d \<in> vset d s \<and>
       (\<forall>v \<in> vset d s. s ! d_min d \<le> v \<and> v \<le> s ! d_max d)"
  shows "dom_at d s"
  using assms by (auto simp: dom_at_def dom_is_bounds_def split: value_map.splits)

lemma bounds_cases:
  assumes "dom_is_bounds d"
  obtains hs hl em ah where "d_map d = Bounds hs hl em ah"
  using assms by (auto simp: dom_is_bounds_def split: value_map.splits)

lemma bounds_at:
  assumes "dom_at d s" "d_map d = Bounds hs hl em ah"
  shows "0 \<le> s ! hl" "s ! hl \<le> int (length hs)" "s ! hl \<le> i32_max"
    "in_i32 (s ! d_min d)" "in_i32 (s ! d_max d)" "distinct (take (nat (s ! hl)) hs)"
    "s ! em = 0 \<Longrightarrow> s ! d_min d \<in> vset d s \<and> s ! d_max d \<in> vset d s \<and>
       s ! ah = int (length (filter (\<lambda>h. s ! d_min d \<le> h \<and> h \<le> s ! d_max d) (take (nat (s ! hl)) hs)))"
  using assms by (auto simp: dom_at_def)

lemma vset_bounds:
  "d_map d = Bounds hs hl em ah \<Longrightarrow> vset d s =
     (if s ! em = 0 then {s ! d_min d..s ! d_max d} - set (take (nat (s ! hl)) hs) else {})"
  by (auto simp: vset_def)

lemma active_prefix_bounds:
  assumes "dom_at d (t_values t)" "d_map d = Bounds hs hl em ah"
  shows "dom_active_prefix d t = take (nat (t_values t ! hl)) hs"
  using bounds_at [OF assms] assms(2)
  by (simp add: dom_active_prefix_def trail_get_def as_usize_id i32_max_def)

lemma contains_ok:
  assumes ok: "dom_ok d t"
  shows "dom_contains d v t \<longleftrightarrow> v \<in> dom_set d t"
proof (cases "dom_is_bounds d")
  case True
  then obtain hs hl em ah where m: "d_map d = Bounds hs hl em ah" by (rule bounds_cases)
  show ?thesis
    using active_prefix_bounds [OF dom_ok_current [OF ok] m]
    by (auto simp: dom_contains_def m dom_set_def vset_bounds [OF m] dom_min_def dom_max_def trail_get_def)
next
  case False
  show ?thesis
    unfolding dom_set_def
    using contains_indexed [OF dom_ok_static [OF ok] False] indexed_at [OF dom_ok_current [OF ok] False]
    by blast
qed

lemma finite_vset [simp]: "finite (vset d s)"
  by (auto simp: vset_def intro: finite_subset [of _ "{s ! d_min d..s ! d_max d}"] split: value_map.splits)

text \<open>The number of integers of a range that a distinct list of holes leaves.\<close>

lemma card_range_minus:
  assumes "distinct hs"
  shows "card ({a..b} - set hs) = nat (b - a + 1) - length (filter (\<lambda>h. a \<le> h \<and> h \<le> b) (hs :: int list))"
proof -
  let ?F = "set (filter (\<lambda>h. a \<le> h \<and> h \<le> b) hs)"
  have "{a..b} - set hs = {a..b} - ?F" by auto
  moreover have "?F \<subseteq> {a..b}" by auto
  ultimately have "card ({a..b} - set hs) = card {a..b} - card ?F"
    by (simp add: card_Diff_subset)
  moreover have "card ?F = length (filter (\<lambda>h. a \<le> h \<and> h \<le> b) hs)"
    using assms by (intro distinct_card) simp
  ultimately show ?thesis by simp
qed

lemma size_ok:
  assumes ok: "dom_ok d t"
  shows "dom_size d t = card (dom_set d t)"
proof (cases "dom_is_bounds d")
  case False
  note nb = False and at = indexed_at [OF dom_ok_current [OF ok] False]
  have "dom_size d t = nat (t_values t ! d_size d)"
    using size_indexed [OF nb at(1,2)] static_perm [OF dom_ok_static [OF ok] nb] by blast
  with at show ?thesis
    by (simp add: dom_set_def vset_indexed [OF nb] card_prefix_set [OF dom_ok_static [OF ok] nb])
next
  case True
  then obtain hs hl em ah where m: "d_map d = Bounds hs hl em ah" by (rule bounds_cases)
  note at = bounds_at [OF dom_ok_current [OF ok] m]
  show ?thesis
  proof (cases "t_values t ! em = 0")
    case False
    then show ?thesis by (simp add: dom_size_def m dom_set_def vset_bounds [OF m] trail_get_def)
  next
    case True
    let ?f = "filter (\<lambda>h. t_values t ! d_min d \<le> h \<and> h \<le> t_values t ! d_max d) (take (nat (t_values t ! hl)) hs)"
    have "length ?f \<le> nat (t_values t ! hl)"
      by (rule order_trans [OF length_filter_le]) simp
    then have "int (length ?f) \<le> i32_max" using at(1,3) by linarith
    then have "as_usize (t_values t ! ah) = length ?f"
      using at(7)[OF True] by (simp add: as_usize_of_nat i32_max_def)
    then show ?thesis
      using True at(6) by (simp add: dom_size_def m dom_set_def vset_bounds [OF m] trail_get_def
          dom_min_def dom_max_def span_len_def card_range_minus)
  qed
qed

lemma size_zero: "dom_ok d t \<Longrightarrow> dom_size d t = 0 \<longleftrightarrow> dom_set d t = {}"
  by (simp add: size_ok dom_set_def)

lemma min_max_ok:
  assumes ok: "dom_ok d t" and ne: "dom_set d t \<noteq> {}"
  shows "dom_min d t = Min (dom_set d t)" "dom_max d t = Max (dom_set d t)"
proof -
  have "dom_min d t \<in> dom_set d t \<and> dom_max d t \<in> dom_set d t \<and>
      (\<forall>v \<in> dom_set d t. dom_min d t \<le> v \<and> v \<le> dom_max d t)"
  proof (cases "dom_is_bounds d")
    case True
    then obtain hs hl em ah where m: "d_map d = Bounds hs hl em ah" by (rule bounds_cases)
    have "t_values t ! em = 0"
      using ne by (auto simp: dom_set_def vset_bounds [OF m] split: if_splits)
    with bounds_at(7)[OF dom_ok_current [OF ok] m] show ?thesis
      by (auto simp: dom_set_def vset_bounds [OF m] dom_min_def dom_max_def trail_get_def)
  next
    case False
    note at = indexed_at [OF dom_ok_current [OF ok] False]
    have "t_values t ! d_size d > 0"
      using ne at(1) by (cases "t_values t ! d_size d = 0")
        (auto simp: dom_set_def vset_indexed [OF False] prefix_set_def)
    with at(3) show ?thesis by (simp add: dom_set_def dom_min_def dom_max_def trail_get_def)
  qed
  then show "dom_min d t = Min (dom_set d t)" "dom_max d t = Max (dom_set d t)"
    by (auto intro!: Min_eqI [symmetric] Max_eqI [symmetric] simp: dom_set_def)
qed

lemma values_ok:
  assumes ok: "dom_ok d t"
  shows "set (dom_values d t) = dom_set d t" "distinct (dom_values d t)"
proof -
  have "set (dom_values d t) = dom_set d t \<and> distinct (dom_values d t)"
  proof (cases "dom_is_bounds d")
    case True
    then obtain hs hl em ah where m: "d_map d = Bounds hs hl em ah" by (rule bounds_cases)
    have "set (dom_values d t) = dom_set d t"
      using contains_ok [OF ok] by (auto simp: dom_values_def m dom_set_def vset_bounds [OF m]
          trail_get_def dom_min_def dom_max_def)
    then show ?thesis by (simp add: dom_values_def m)
  next
    case False
    note at = indexed_at [OF dom_ok_current [OF ok] False] and st = dom_ok_static [OF ok]
    have sz: "dom_size d t = nat (t_values t ! d_size d)"
      using size_indexed [OF False at(1,2)] static_perm [OF st False] by blast
    have v: "dom_values d t = map (dom_value_of d) (take (dom_size d t) (d_dense d))"
      using False by (auto simp: dom_values_def dom_is_bounds_def split: value_map.splits)
    have "distinct (d_dense d)" using static_perm [OF st False] perm_ok_distinct by blast
    moreover have "inj_on (dom_value_of d) (set (take (dom_size d t) (d_dense d)))"
      by (meson False st in_take_dense_lt inj_onI value_of_inj)
    ultimately have "distinct (dom_values d t)"
      by (simp add: v distinct_map)
    then show ?thesis
      by (simp add: v dom_set_def vset_indexed [OF False] prefix_set_def sz)
  qed
  then show "set (dom_values d t) = dom_set d t" "distinct (dom_values d t)" by auto
qed

section \<open>Mutations of indexed storage\<close>

lemma handles_indexed: "\<not> dom_is_bounds d \<Longrightarrow> handle_list d = [d_size d, d_min d, d_max d]"
  by (auto simp: handle_list_def dom_is_bounds_def split: value_map.splits)

lemma static_handles:
  assumes "dom_static d n" "\<not> dom_is_bounds d"
  shows "d_size d < n" "d_min d < n" "d_max d < n"
    "d_size d \<noteq> d_min d" "d_size d \<noteq> d_max d" "d_min d \<noteq> d_max d"
  using assms by (auto simp: dom_static_def handles_indexed)

lemma swap_fields [simp]:
  "d_map (dom_swap d a b) = d_map d" "d_size (dom_swap d a b) = d_size d"
  "d_min (dom_swap d a b) = d_min d" "d_max (dom_swap d a b) = d_max d"
  "length (d_dense (dom_swap d a b)) = length (d_dense d)"
  "handle_list (dom_swap d a b) = handle_list d"
  "dom_is_bounds (dom_swap d a b) = dom_is_bounds d"
  "dom_value_of (dom_swap d a b) = dom_value_of d"
  "rank (dom_swap d a b) = rank d"
  by (cases "d_map d"; simp add: dom_swap_def Let_def handle_list_def dom_is_bounds_def
      dom_value_of_def rank_def fun_eq_iff)+

lemma swap_dense:
  "d_dense (dom_swap d a b) = (d_dense d)[a := d_dense d ! b, b := d_dense d ! a]"
  by (simp add: dom_swap_def Let_def)

lemma static_swap:
  assumes "dom_static d n" "\<not> dom_is_bounds d" "a < length (d_dense d)" "b < length (d_dense d)"
  shows "dom_static (dom_swap d a b) n"
proof -
  have "perm_ok (d_dense (dom_swap d a b)) (d_sparse (dom_swap d a b))"
    using perm_ok_swap [of "d_dense d" "d_sparse d" a b] static_perm [OF assms(1,2)] assms(3,4)
    by (simp add: dom_swap_def Let_def)
  then show ?thesis
    using assms(1,2) by (auto simp: dom_static_def dom_is_bounds_def split: value_map.splits)
qed

lemma prefix_set_swap:
  "a < k \<Longrightarrow> b < k \<Longrightarrow> k \<le> length (d_dense d) \<Longrightarrow> prefix_set (dom_swap d a b) k = prefix_set d k"
  by (simp add: prefix_set_def swap_dense set_take_swap)

lemma vset_swap:
  assumes "\<not> dom_is_bounds d" "a < nat (s ! d_size d)" "b < nat (s ! d_size d)"
    "s ! d_size d \<le> int (length (d_dense d))"
  shows "vset (dom_swap d a b) s = vset d s"
  using assms by (simp add: vset_indexed prefix_set_swap)

lemma rank_indexed: "\<not> dom_is_bounds d \<Longrightarrow> rank d s = s ! d_size d"
  by (auto simp: rank_def dom_is_bounds_def split: value_map.splits)

lemma swap_old:
  assumes nb: "\<not> dom_is_bounds d" and ab: "a < nat (s0 ! d_size d)" "b < nat (s0 ! d_size d)"
    and at: "dom_at d s" and rk: "rank d s0 \<le> rank d s"
  shows "dom_at (dom_swap d a b) s \<and> vset (dom_swap d a b) s = vset d s"
proof -
  note r = indexed_at [OF at nb]
  have le: "nat (s0 ! d_size d) \<le> nat (s ! d_size d)"
    using rk by (simp add: rank_indexed [OF nb] nat_mono)
  have v: "vset (dom_swap d a b) s = vset d s"
    using nb ab r(2) le by (intro vset_swap) linarith+
  moreover have "dom_at (dom_swap d a b) s"
    using nb r by (intro indexed_atI) (simp_all add: v)
  ultimately show ?thesis by simp
qed

lemma prefix_set_Suc:
  assumes "dom_static d n" "\<not> dom_is_bounds d" "k < length (d_dense d)"
  shows "prefix_set d k = prefix_set d (Suc k) - {dom_value_of d (d_dense d ! k)}"
proof -
  have dist: "distinct (d_dense d)" using static_perm [OF assms(1,2)] perm_ok_distinct by blast
  have nin: "d_dense d ! k \<notin> set (take k (d_dense d))"
    using dist assms(3) by (auto simp: in_set_take_iff nth_eq_iff_index_eq)
  have "dom_value_of d (d_dense d ! k) \<notin> prefix_set d k"
  proof
    assume "dom_value_of d (d_dense d ! k) \<in> prefix_set d k"
    then obtain i where "i \<in> set (take k (d_dense d))" "dom_value_of d i = dom_value_of d (d_dense d ! k)"
      by (auto simp: prefix_set_def)
    with nin show False
      using value_of_inj [OF assms(1,2)] in_take_dense_lt [OF assms(1,2)] dense_lt [OF assms] by metis
  qed
  moreover have "prefix_set d (Suc k) = insert (dom_value_of d (d_dense d ! k)) (prefix_set d k)"
    using assms(3) by (simp add: prefix_set_def take_Suc_conv_app_nth)
  ultimately show ?thesis by auto
qed

lemma values_indexed:
  assumes st: "dom_static d n" and nb: "\<not> dom_is_bounds d"
    and sz: "0 \<le> t_values t ! d_size d" "t_values t ! d_size d \<le> int (length (d_dense d))"
  shows "set (dom_values d t) = vset d (t_values t)"
proof -
  have "dom_size d t = nat (t_values t ! d_size d)"
    using size_indexed [OF nb sz] static_perm [OF st nb] by blast
  moreover have "dom_values d t = map (dom_value_of d) (take (dom_size d t) (d_dense d))"
    using nb by (auto simp: dom_values_def dom_is_bounds_def split: value_map.splits)
  ultimately show ?thesis by (simp add: vset_indexed [OF nb] prefix_set_def)
qed

subsection \<open>Restoring the bounds\<close>

lemma scan_up_least:
  assumes c: "\<And>x. dom_contains d x t \<longleftrightarrow> x \<in> S" and hi: "in_i32 hi"
  shows "\<lbrakk>m \<in> S; v \<le> m; m \<le> hi; in_i32 v\<rbrakk> \<Longrightarrow>
     scan_up d t v hi \<in> S \<and> v \<le> scan_up d t v hi \<and> (\<forall>x \<in> S. v \<le> x \<longrightarrow> scan_up d t v hi \<le> x)"
proof (induction d\<equiv>d t\<equiv>t v hi\<equiv>hi rule: scan_up.induct)
  case (1 v)
  have id: "as_i32 v = v" using "1.prems" by (simp add: as_i32_id)
  show ?case
  proof (cases "v \<in> S")
    case True
    then show ?thesis by (subst (1 2 3) scan_up.simps) (simp add: id c)
  next
    case False
    with "1.prems" have lt: "v + 1 \<le> m" by (cases "v = m") auto
    with "1.prems" hi have "in_i32 (v + 1)" "v < hi" by (auto simp: in_i32_def)
    moreover have "\<not> (dom_contains d (as_i32 v) t \<or> \<not> v < hi)"
      using False \<open>v < hi\<close> by (simp add: id c)
    moreover have "scan_up d t v hi = scan_up d t (v + 1) hi"
      using False \<open>v < hi\<close> by (subst scan_up.simps) (simp add: id c)
    ultimately have ih: "scan_up d t (v + 1) hi \<in> S \<and> v + 1 \<le> scan_up d t (v + 1) hi \<and>
        (\<forall>x \<in> S. v + 1 \<le> x \<longrightarrow> scan_up d t (v + 1) hi \<le> x)"
      and eq: "scan_up d t v hi = scan_up d t (v + 1) hi"
      using "1.hyps" "1.prems" lt by blast+
    have "v + 1 \<le> x" if "x \<in> S" "v \<le> x" for x using that False by (cases "x = v") auto
    then show ?thesis unfolding eq using ih by fastforce
  qed
qed

lemma scan_down_greatest:
  assumes c: "\<And>x. dom_contains d x t \<longleftrightarrow> x \<in> S" and lo: "in_i32 lo"
  shows "\<lbrakk>m \<in> S; m \<le> v; lo \<le> m; in_i32 v\<rbrakk> \<Longrightarrow>
     scan_down d t v lo \<in> S \<and> scan_down d t v lo \<le> v \<and> (\<forall>x \<in> S. x \<le> v \<longrightarrow> x \<le> scan_down d t v lo)"
proof (induction d\<equiv>d t\<equiv>t v lo\<equiv>lo rule: scan_down.induct)
  case (1 v)
  have id: "as_i32 v = v" using "1.prems" by (simp add: as_i32_id)
  show ?case
  proof (cases "v \<in> S")
    case True
    then show ?thesis by (subst (1 2 3) scan_down.simps) (simp add: id c)
  next
    case False
    with "1.prems" have lt: "m \<le> v - 1" by (cases "v = m") auto
    with "1.prems" lo have "in_i32 (v - 1)" "v > lo" by (auto simp: in_i32_def)
    moreover have "\<not> (dom_contains d (as_i32 v) t \<or> \<not> v > lo)"
      using False \<open>v > lo\<close> by (simp add: id c)
    moreover have eq: "scan_down d t v lo = scan_down d t (v - 1) lo"
      using False \<open>v > lo\<close> by (subst scan_down.simps) (simp add: id c)
    ultimately have "scan_down d t (v - 1) lo \<in> S \<and> scan_down d t (v - 1) lo \<le> v - 1 \<and>
        (\<forall>x \<in> S. x \<le> v - 1 \<longrightarrow> x \<le> scan_down d t (v - 1) lo)"
      using "1.hyps" "1.prems" lt by blast
    moreover have "x \<le> v - 1" if "x \<in> S" "x \<le> v" for x using that False by (cases "x = v") auto
    ultimately show ?thesis unfolding eq by fastforce
  qed
qed

lemma recompute_min_eq:
  assumes st: "dom_static d n" and nb: "\<not> dom_is_bounds d"
    and sz: "0 \<le> t_values t ! d_size d" "t_values t ! d_size d \<le> int (length (d_dense d))"
    and S: "S = vset d (t_values t)" "S \<noteq> {}"
    and bnd: "\<And>x. x \<in> S \<Longrightarrow> t_values t ! d_min d < x \<and> x \<le> t_values t ! d_max d"
    and i32: "in_i32 (t_values t ! d_min d)" "in_i32 (t_values t ! d_max d)"
  shows "dom_recompute_min d t = trail_set t (d_min d) (Min S)"
proof (cases "d_map d")
  case (Dense off rv)
  have c: "dom_contains d x t \<longleftrightarrow> x \<in> S" for x
    using contains_indexed [OF st nb sz] S by simp
  obtain m where m: "m \<in> S" using S by blast
  let ?v = "t_values t ! d_min d + 1"
  have v: "in_i32 ?v" using bnd [OF m] i32 by (auto simp: in_i32_def)
  have "scan_up d t ?v (t_values t ! d_max d) \<in> S \<and>
      (\<forall>x \<in> S. ?v \<le> x \<longrightarrow> scan_up d t ?v (t_values t ! d_max d) \<le> x)"
    using scan_up_least [OF c i32(2) m _ _ v] bnd [OF m] by auto
  moreover have "?v \<le> x" if "x \<in> S" for x using bnd [OF that] by simp
  ultimately have r: "scan_up d t ?v (t_values t ! d_max d) \<in> S"
    "\<And>x. x \<in> S \<Longrightarrow> scan_up d t ?v (t_values t ! d_max d) \<le> x" by blast+
  then have "scan_up d t ?v (t_values t ! d_max d) = Min S"
    using S(1) by (intro Min_eqI [symmetric]) simp_all
  moreover have "in_i32 (scan_up d t ?v (t_values t ! d_max d))"
    using r(1) prefix_set_i32 [OF st nb] S(1) by (simp add: vset_indexed [OF nb])
  ultimately show ?thesis
    by (simp add: dom_recompute_min_def Dense dom_min_def dom_max_def trail_get_def as_i32_id)
next
  case (Sparse vs)
  with values_indexed [OF st nb sz] S show ?thesis by (simp add: dom_recompute_min_def)
next
  case (Bounds hs hl em ah)
  with nb show ?thesis by (simp add: dom_is_bounds_def)
qed

lemma recompute_max_eq:
  assumes st: "dom_static d n" and nb: "\<not> dom_is_bounds d"
    and sz: "0 \<le> t_values t ! d_size d" "t_values t ! d_size d \<le> int (length (d_dense d))"
    and S: "S = vset d (t_values t)" "S \<noteq> {}"
    and bnd: "\<And>x. x \<in> S \<Longrightarrow> t_values t ! d_min d \<le> x \<and> x < t_values t ! d_max d"
    and i32: "in_i32 (t_values t ! d_min d)" "in_i32 (t_values t ! d_max d)"
  shows "dom_recompute_max d t = trail_set t (d_max d) (Max S)"
proof (cases "d_map d")
  case (Dense off rv)
  have c: "dom_contains d x t \<longleftrightarrow> x \<in> S" for x
    using contains_indexed [OF st nb sz] S by simp
  obtain m where m: "m \<in> S" using S by blast
  let ?v = "t_values t ! d_max d - 1"
  have v: "in_i32 ?v" using bnd [OF m] i32 by (auto simp: in_i32_def)
  have "scan_down d t ?v (t_values t ! d_min d) \<in> S \<and>
      (\<forall>x \<in> S. x \<le> ?v \<longrightarrow> x \<le> scan_down d t ?v (t_values t ! d_min d))"
    using scan_down_greatest [OF c i32(1) m _ _ v] bnd [OF m] by auto
  moreover have "x \<le> ?v" if "x \<in> S" for x using bnd [OF that] by simp
  ultimately have r: "scan_down d t ?v (t_values t ! d_min d) \<in> S"
    "\<And>x. x \<in> S \<Longrightarrow> x \<le> scan_down d t ?v (t_values t ! d_min d)" by blast+
  then have "scan_down d t ?v (t_values t ! d_min d) = Max S"
    using S(1) by (intro Max_eqI [symmetric]) simp_all
  moreover have "in_i32 (scan_down d t ?v (t_values t ! d_min d))"
    using r(1) prefix_set_i32 [OF st nb] S(1) by (simp add: vset_indexed [OF nb])
  ultimately show ?thesis
    by (simp add: dom_recompute_max_def Dense dom_min_def dom_max_def trail_get_def as_i32_id)
next
  case (Sparse vs)
  with values_indexed [OF st nb sz] S show ?thesis by (simp add: dom_recompute_max_def)
next
  case (Bounds hs hl em ah)
  with nb show ?thesis by (simp add: dom_is_bounds_def)
qed

subsection \<open>Shrinking steps\<close>

text \<open>
  The common shape: permuted arrays \<open>d1\<close> that older levels cannot tell from \<open>d\<close>, and
  new counters.
\<close>

definition arrays_le :: "domain \<Rightarrow> nat \<Rightarrow> domain \<Rightarrow> nat \<Rightarrow> bool" where
  "arrays_le d k d1 n \<longleftrightarrow>
     dom_static d1 n \<and> handle_list d1 = handle_list d \<and> d_map d1 = d_map d \<and>
     d_size d1 = d_size d \<and> d_min d1 = d_min d \<and> d_max d1 = d_max d \<and>
     length (d_dense d1) = length (d_dense d) \<and>
     (\<forall>j. k \<le> j \<longrightarrow> j \<le> length (d_dense d) \<longrightarrow> prefix_set d1 j = prefix_set d j)"

lemma arrays_le_refl: "dom_static d n \<Longrightarrow> arrays_le d k d n"
  by (simp add: arrays_le_def)

lemma arrays_le_swap:
  assumes "arrays_le d k d1 n" "\<not> dom_is_bounds d" "a < k" "b < k" "k \<le> length (d_dense d)"
  shows "arrays_le d k (dom_swap d1 a b) n"
proof -
  have "\<not> dom_is_bounds d1" using assms(1,2) by (simp add: arrays_le_def dom_is_bounds_def)
  with assms show ?thesis
    by (auto simp: arrays_le_def static_swap prefix_set_swap)
qed

lemma arrays_le_nb: "arrays_le d k d1 n \<Longrightarrow> dom_is_bounds d1 = dom_is_bounds d"
  by (simp add: arrays_le_def dom_is_bounds_def)

lemma arrays_le_old:
  assumes al: "arrays_le d (nat (s0 ! d_size d)) d1 n" and nb: "\<not> dom_is_bounds d"
    and at: "dom_at d s" and rk: "rank d s0 \<le> rank d s"
  shows "dom_at d1 s \<and> vset d1 s = vset d s"
proof -
  note r = indexed_at [OF at nb]
  have nb1: "\<not> dom_is_bounds d1" using arrays_le_nb [OF al] nb by simp
  have f: "d_size d1 = d_size d" "d_min d1 = d_min d" "d_max d1 = d_max d"
      "length (d_dense d1) = length (d_dense d)"
    using al by (simp_all add: arrays_le_def)
  have "nat (s0 ! d_size d) \<le> nat (s ! d_size d)"
    using rk by (simp add: rank_indexed [OF nb] nat_mono)
  then have v: "vset d1 s = vset d s"
    using al r(2) by (simp add: vset_indexed [OF nb] vset_indexed [OF nb1] arrays_le_def)
  moreover have "dom_at d1 s"
    using nb1 r by (intro indexed_atI) (simp_all add: v f)
  ultimately show ?thesis by simp
qed

lemma indexed_shrink:
  assumes ok: "dom_ok d t" and nb: "\<not> dom_is_bounds d"
    and al: "arrays_le d (nat (t_values t ! d_size d)) d1 (length (t_values t))"
    and tw: "trail_writes (set (handle_list d)) t t'"
    and k: "t_values t' ! d_size d = k" "0 \<le> k" "k \<le> t_values t ! d_size d"
    and S: "S = prefix_set d1 (nat k)" "S \<subseteq> dom_set d t"
    and mm: "in_i32 (t_values t' ! d_min d)" "in_i32 (t_values t' ! d_max d)"
      "k > 0 \<Longrightarrow> t_values t' ! d_min d \<in> S \<and> t_values t' ! d_max d \<in> S \<and>
         (\<forall>v \<in> S. t_values t' ! d_min d \<le> v \<and> v \<le> t_values t' ! d_max d)"
  shows "dom_step d t d1 t' S"
proof -
  have f: "dom_static d1 (length (t_values t))" "d_size d1 = d_size d" "d_min d1 = d_min d"
      "d_max d1 = d_max d" "length (d_dense d1) = length (d_dense d)" "handle_list d1 = handle_list d"
      "d_map d1 = d_map d"
    using al by (simp_all add: arrays_le_def)
  have nb1: "\<not> dom_is_bounds d1" using arrays_le_nb [OF al] nb by simp
  have v: "vset d1 (t_values t') = S" by (simp add: vset_indexed [OF nb1] f k S)
  have "k \<le> int (length (d_dense d))"
    using k(3) indexed_at(2)[OF dom_ok_current [OF ok] nb] by simp
  then have at: "dom_at d1 (t_values t')"
    using nb1 mm k by (intro indexed_atI) (simp_all add: f v)
  show ?thesis
  proof (rule dom_stepI [OF ok])
    show "rank d1 s = rank d s" for s using nb nb1 f by (simp add: rank_indexed)
    show "rank d (t_values t') \<le> rank d (t_values t)" using k nb by (simp add: rank_indexed)
    show "dom_at d1 s \<and> vset d1 s = vset d s" if "dom_at d s" "rank d (t_values t) \<le> rank d s" for s
      using arrays_le_old [OF al nb that] .
  qed (use f tw at v S in \<open>simp_all add: dom_set_def\<close>)
qed

text \<open>What is known of the current counters.\<close>

lemma indexed_now:
  assumes ok: "dom_ok d t" and nb: "\<not> dom_is_bounds d"
  shows "dom_set d t = prefix_set d (dom_size d t)" "dom_size d t \<le> length (d_dense d)"
    "t_values t ! d_size d = int (dom_size d t)" "int (dom_size d t) \<le> i32_max"
    "in_i32 (t_values t ! d_min d)" "in_i32 (t_values t ! d_max d)"
    "dom_set d t \<noteq> {} \<Longrightarrow> t_values t ! d_min d \<in> dom_set d t \<and> t_values t ! d_max d \<in> dom_set d t"
    "v \<in> dom_set d t \<Longrightarrow> t_values t ! d_min d \<le> v \<and> v \<le> t_values t ! d_max d"
proof -
  note at = indexed_at [OF dom_ok_current [OF ok] nb] and p = static_perm [OF dom_ok_static [OF ok] nb]
  have sz: "dom_size d t = nat (t_values t ! d_size d)"
    using size_indexed [OF nb at(1,2)] p by blast
  show "dom_set d t = prefix_set d (dom_size d t)" by (simp add: dom_set_def vset_indexed [OF nb] sz)
  show "dom_size d t \<le> length (d_dense d)" "t_values t ! d_size d = int (dom_size d t)"
    using at sz by simp_all
  then show "int (dom_size d t) \<le> i32_max" using p by simp
  show "in_i32 (t_values t ! d_min d)" "in_i32 (t_values t ! d_max d)" using at by simp_all
  have pos: "dom_set d t \<noteq> {} \<Longrightarrow> t_values t ! d_size d > 0"
    using at(1) sz by (cases "t_values t ! d_size d = 0")
      (auto simp: dom_set_def vset_indexed [OF nb] prefix_set_def)
  show "dom_set d t \<noteq> {} \<Longrightarrow> t_values t ! d_min d \<in> dom_set d t \<and> t_values t ! d_max d \<in> dom_set d t"
    using pos at(3) by (simp add: dom_set_def)
  show "v \<in> dom_set d t \<Longrightarrow> t_values t ! d_min d \<le> v \<and> v \<le> t_values t ! d_max d"
    using pos at(3) by (auto simp: dom_set_def)
qed

text \<open>Finding a present value's position.\<close>

lemma index_present:
  assumes ok: "dom_ok d t" and nb: "\<not> dom_is_bounds d"
  shows "dom_index_of d v = None \<Longrightarrow> v \<notin> dom_set d t"
    "dom_index_of d v = Some i \<Longrightarrow> v \<in> dom_set d t \<longleftrightarrow> d_sparse d ! i < dom_size d t"
    "dom_index_of d v = Some i \<Longrightarrow> dom_value_of d (d_dense d ! (d_sparse d ! i)) = v"
proof -
  note n = indexed_now [OF ok nb] and st = dom_ok_static [OF ok]
  note pi = prefix_set_index [OF st nb n(2)]
  show "dom_index_of d v = None \<Longrightarrow> v \<notin> dom_set d t" using pi n(1) by simp
  show "dom_index_of d v = Some i \<Longrightarrow> v \<in> dom_set d t \<longleftrightarrow> d_sparse d ! i < dom_size d t"
    using pi n(1) by simp
  show "dom_index_of d v = Some i \<Longrightarrow> dom_value_of d (d_dense d ! (d_sparse d ! i)) = v"
    using index_of_Some [OF st nb] static_perm [OF st nb] by (simp add: perm_ok_def)
qed

lemma remove_swap_set:
  assumes st: "dom_static d n" and nb: "\<not> dom_is_bounds d"
    and pos: "pos < sz" "sz \<le> length (d_dense d)"
  shows "prefix_set (dom_swap d pos (sz - 1)) (sz - 1) =
    prefix_set d sz - {dom_value_of d (d_dense d ! pos)}"
proof -
  let ?d1 = "dom_swap d pos (sz - 1)"
  have k: "sz - 1 < length (d_dense ?d1)" "Suc (sz - 1) = sz" using pos by auto
  have "d_dense ?d1 ! (sz - 1) = d_dense d ! pos"
    using pos by (simp add: swap_dense)
  moreover have "dom_static ?d1 n" using st nb pos by (intro static_swap) auto
  moreover have "prefix_set ?d1 sz = prefix_set d sz" using pos by (intro prefix_set_swap) auto
  ultimately show ?thesis
    using prefix_set_Suc [of ?d1 n "sz - 1"] nb k by simp
qed

subsection \<open>\<open>remove\<close>\<close>

lemma trail_writes_self_set:
  "dom_ok d t \<Longrightarrow> r \<in> set (handle_list d) \<Longrightarrow>
     trail_writes (set (handle_list d)) t (trail_set t r v)"
  by (intro trail_writes_set trail_writes_refl) (auto simp: dom_ok_def dom_static_def)

text \<open>The arrays and counters of \<open>remove\<close> before the bounds are restored.\<close>

definition removed_arrays :: "domain \<Rightarrow> trail \<Rightarrow> nat \<Rightarrow> domain" where
  "removed_arrays d t i = dom_swap d (d_sparse d ! i) (dom_size d t - 1)"

definition removed_size :: "domain \<Rightarrow> trail \<Rightarrow> trail" where
  "removed_size d t = trail_set t (d_size d) (as_i32 (int (dom_size d t - 1)))"

lemma removed_facts:
  assumes ok: "dom_ok d t" and nb: "\<not> dom_is_bounds d"
    and i: "dom_index_of d val = Some i" and v: "val \<in> dom_set d t"
  shows "arrays_le d (dom_size d t) (removed_arrays d t i) (length (t_values t))"
    "prefix_set (removed_arrays d t i) (dom_size d t - 1) = dom_set d t - {val}"
    "card (dom_set d t - {val}) = dom_size d t - 1"
    "trail_writes (set (handle_list d)) t (removed_size d t)"
    "t_values (removed_size d t) = (t_values t)[d_size d := int (dom_size d t - 1)]"
proof -
  note n = indexed_now [OF ok nb] and st = dom_ok_static [OF ok]
  have pos: "d_sparse d ! i < dom_size d t" using v index_present(2)[OF ok nb i] by simp
  show "arrays_le d (dom_size d t) (removed_arrays d t i) (length (t_values t))"
    unfolding removed_arrays_def
    using pos n(2) nb st by (intro arrays_le_swap arrays_le_refl) auto
  show "prefix_set (removed_arrays d t i) (dom_size d t - 1) = dom_set d t - {val}"
    unfolding removed_arrays_def
    using remove_swap_set [OF st nb pos n(2)] n(1) index_present(3)[OF ok nb i] by simp
  show "card (dom_set d t - {val}) = dom_size d t - 1"
    using v by (simp add: size_ok [OF ok])
  show "trail_writes (set (handle_list d)) t (removed_size d t)"
    unfolding removed_size_def
    by (rule trail_writes_self_set [OF ok]) (simp add: handles_indexed [OF nb])
  have "as_i32 (int (dom_size d t - 1)) = int (dom_size d t - 1)"
    using n(4) by (intro as_i32_small_nat) (simp add: i32_max_def)
  then show "t_values (removed_size d t) = (t_values t)[d_size d := int (dom_size d t - 1)]"
    by (simp add: removed_size_def trail_simps)
qed

text \<open>Any trail that ends with the bounds of the remaining set completes the step.\<close>

lemma removed_step:
  assumes ok: "dom_ok d t" and nb: "\<not> dom_is_bounds d"
    and i: "dom_index_of d val = Some i" and v: "val \<in> dom_set d t"
    and tw: "trail_writes (set (handle_list d)) t t2"
    and sz: "t_values t2 ! d_size d = int (dom_size d t - 1)"
    and mm: "in_i32 (t_values t2 ! d_min d)" "in_i32 (t_values t2 ! d_max d)"
      "dom_set d t - {val} \<noteq> {} \<Longrightarrow> t_values t2 ! d_min d = Min (dom_set d t - {val}) \<and>
         t_values t2 ! d_max d = Max (dom_set d t - {val})"
  shows "dom_step d t (removed_arrays d t i) t2 (dom_set d t - {val})"
proof (rule indexed_shrink [OF ok nb _ tw sz])
  note f = removed_facts [OF ok nb i v] and n = indexed_now [OF ok nb]
  show "arrays_le d (nat (t_values t ! d_size d)) (removed_arrays d t i) (length (t_values t))"
    using f(1) n(3) by simp
  show "t_values t2 ! d_min d \<in> dom_set d t - {val} \<and> t_values t2 ! d_max d \<in> dom_set d t - {val} \<and>
      (\<forall>v \<in> dom_set d t - {val}. t_values t2 ! d_min d \<le> v \<and> v \<le> t_values t2 ! d_max d)"
    if "int (dom_size d t - 1) > 0"
  proof -
    have fin: "finite (dom_set d t - {val})" by (simp add: dom_set_def)
    have ne: "dom_set d t - {val} \<noteq> {}" using f(3) that by fastforce
    then show ?thesis using mm(3)[OF ne] Min_in [OF fin ne] Max_in [OF fin ne] fin by simp
  qed
qed (use removed_facts [OF ok nb i v] indexed_now [OF ok nb] mm in auto)

lemma removed_recompute:
  assumes ok: "dom_ok d t" and nb: "\<not> dom_is_bounds d"
    and i: "dom_index_of d val = Some i" and v: "val \<in> dom_set d t"
    and ne: "dom_set d t - {val} \<noteq> {}"
  shows "val = t_values t ! d_min d \<Longrightarrow> dom_recompute_min (removed_arrays d t i) (removed_size d t) =
      trail_set (removed_size d t) (d_min d) (Min (dom_set d t - {val}))"
    and "val = t_values t ! d_max d \<Longrightarrow> dom_recompute_max (removed_arrays d t i) (removed_size d t) =
      trail_set (removed_size d t) (d_max d) (Max (dom_set d t - {val}))"
proof -
  let ?d1 = "removed_arrays d t i" and ?t1 = "removed_size d t"
  note f = removed_facts [OF ok nb i v] and n = indexed_now [OF ok nb]
    and h = static_handles [OF dom_ok_static [OF ok] nb]
  have st1: "dom_static ?d1 (length (t_values ?t1))" and nb1: "\<not> dom_is_bounds ?d1"
    and h1: "d_size ?d1 = d_size d" "d_min ?d1 = d_min d" "d_max ?d1 = d_max d"
      "length (d_dense ?d1) = length (d_dense d)"
    using f(1,5) nb by (simp_all add: arrays_le_def removed_arrays_def)
  have v1: "t_values ?t1 ! d_size d = int (dom_size d t - 1)"
      "t_values ?t1 ! d_min d = t_values t ! d_min d" "t_values ?t1 ! d_max d = t_values t ! d_max d"
    using h by (simp_all add: f(5))
  have sz1: "0 \<le> t_values ?t1 ! d_size ?d1" "t_values ?t1 ! d_size ?d1 \<le> int (length (d_dense ?d1))"
    using v1 n(2) by (simp_all add: h1)
  have S: "dom_set d t - {val} = vset ?d1 (t_values ?t1)"
    using f(2) v1 by (simp add: vset_indexed [OF nb1] h1)
  have b: "t_values t ! d_min d \<le> x \<and> x \<le> t_values t ! d_max d \<and> x \<noteq> val"
    if "x \<in> dom_set d t - {val}" for x
    using n(8) that by auto
  have i32: "in_i32 (t_values ?t1 ! d_min ?d1)" "in_i32 (t_values ?t1 ! d_max ?d1)"
    using n(5,6) v1 by (simp_all add: h1)
  show "dom_recompute_min ?d1 ?t1 = trail_set ?t1 (d_min d) (Min (dom_set d t - {val}))"
    if "val = t_values t ! d_min d"
    using recompute_min_eq [OF st1 nb1 sz1 S ne _ i32] b that
    by (fastforce simp: h1 v1 order_le_less)
  show "dom_recompute_max ?d1 ?t1 = trail_set ?t1 (d_max d) (Max (dom_set d t - {val}))"
    if "val = t_values t ! d_max d"
    using recompute_max_eq [OF st1 nb1 sz1 S ne _ i32] b that
    by (fastforce simp: h1 v1 order_le_less)
qed

lemma Min_remove: "\<lbrakk>finite A; m \<in> A; \<forall>x \<in> A. m \<le> x; v \<noteq> m\<rbrakk> \<Longrightarrow> Min (A - {v}) = (m :: int)"
  by (intro Min_eqI) auto

lemma Max_remove: "\<lbrakk>finite A; m \<in> A; \<forall>x \<in> A. x \<le> m; v \<noteq> m\<rbrakk> \<Longrightarrow> Max (A - {v}) = (m :: int)"
  by (intro Max_eqI) auto

text \<open>The trail \<open>remove\<close> ends with.\<close>

lemma remove_unfold:
  assumes ok: "dom_ok d t" and nb: "\<not> dom_is_bounds d"
    and i: "dom_index_of d val = Some i" and v: "val \<in> dom_set d t"
  shows "dom_remove d val t = (removed_arrays d t i,
     (if dom_set d t - {val} = {} then removed_size d t
      else if val = t_values t ! d_min d
        then trail_set (removed_size d t) (d_min d) (Min (dom_set d t - {val}))
      else if val = t_values t ! d_max d
        then trail_set (removed_size d t) (d_max d) (Max (dom_set d t - {val}))
      else removed_size d t), True)"
proof -
  note f = removed_facts [OF ok nb i v] and h = static_handles [OF dom_ok_static [OF ok] nb]
  have "dom_set d t - {val} = {} \<longleftrightarrow> \<not> dom_size d t - 1 > 0"
    using f(3) card_eq_0_iff [of "dom_set d t - {val}"] finite_vset [of d "t_values t"]
    by (metis dom_set_def finite_Diff not_gr_zero)
  moreover have "d_sparse d ! i < dom_size d t" using v index_present(2)[OF ok nb i] by simp
  moreover have "dom_min (removed_arrays d t i) (removed_size d t) = t_values t ! d_min d"
    "dom_max (removed_arrays d t i) (removed_size d t) = t_values t ! d_max d"
    using h by (simp_all add: dom_min_def dom_max_def trail_get_def f(5) removed_arrays_def)
  moreover have "dom_remove d val t = (removed_arrays d t i,
     (if dom_size d t - 1 > 0 then
        (if val = dom_min (removed_arrays d t i) (removed_size d t)
         then dom_recompute_min (removed_arrays d t i) (removed_size d t)
         else if val = dom_max (removed_arrays d t i) (removed_size d t)
         then dom_recompute_max (removed_arrays d t i) (removed_size d t)
         else removed_size d t)
      else removed_size d t), True)" if "d_sparse d ! i < dom_size d t"
    unfolding dom_remove_def Let_def removed_arrays_def removed_size_def
    using nb i that by simp
  ultimately show ?thesis
    using removed_recompute [OF ok nb i v] by presburger
qed

lemma dom_remove_indexed:
  assumes ok: "dom_ok d t" and nb: "\<not> dom_is_bounds d"
    and rem: "dom_remove d val t = (d', t', ch)"
  shows "dom_step d t d' t' (dom_set d t - {val}) \<and> (ch \<longleftrightarrow> val \<in> dom_set d t)"
proof (cases "val \<in> dom_set d t")
  case False
  then have "(d', t', ch) = (d, t, False)"
    using rem nb index_present [OF ok nb, of val]
    by (auto simp: dom_remove_def Let_def split: option.splits if_splits)
  then show ?thesis using False ok by (auto intro: dom_step_refl)
next
  case True
  obtain i where i: "dom_index_of d val = Some i"
    using True index_present(1)[OF ok nb] by fastforce
  note f = removed_facts [OF ok nb i True] and n = indexed_now [OF ok nb]
    and h = static_handles [OF dom_ok_static [OF ok] nb]
  define S where "S = dom_set d t - {val}"
  have fin: "finite S" by (simp add: dom_set_def S_def)
  have S32: "in_i32 x" if "x \<in> S" for x
    using that [unfolded S_def] n(1) prefix_set_i32 [OF dom_ok_static [OF ok] nb] by auto
  have keep: "val \<noteq> t_values t ! d_min d \<Longrightarrow> Min S = t_values t ! d_min d"
    "val \<noteq> t_values t ! d_max d \<Longrightarrow> Max S = t_values t ! d_max d"
    using n(7,8) True by (auto intro!: Min_remove Max_remove simp: dom_set_def S_def)
  have both: "val = t_values t ! d_min d \<Longrightarrow> S \<noteq> {} \<Longrightarrow> val \<noteq> t_values t ! d_max d"
    using n(8) unfolding S_def by (metis antisym Diff_iff ex_in_conv insertI1)
  let ?t1 = "removed_size d t"
  let ?t2 = "if S = {} then ?t1
      else if val = t_values t ! d_min d then trail_set ?t1 (d_min d) (Min S)
      else if val = t_values t ! d_max d then trail_set ?t1 (d_max d) (Max S) else ?t1"
  have "dom_step d t (removed_arrays d t i) ?t2 S"
  proof (rule removed_step [OF ok nb i True, folded S_def])
    show "trail_writes (set (handle_list d)) t ?t2"
      using f(4) h by (simp add: trail_writes_set handles_indexed [OF nb])
    show "t_values ?t2 ! d_size d = int (dom_size d t - 1)"
      using h by (simp add: trail_simps f(5))
    have "in_i32 (Min S)" "in_i32 (Max S)" if "S \<noteq> {}"
      using S32 Min_in [OF fin that] Max_in [OF fin that] by blast+
    then show "in_i32 (t_values ?t2 ! d_min d)" "in_i32 (t_values ?t2 ! d_max d)"
      using h n(5,6) by (simp_all add: trail_simps f(5))
    show "t_values ?t2 ! d_min d = Min S \<and> t_values ?t2 ! d_max d = Max S" if "S \<noteq> {}"
      using h that keep both [OF _ that] by (simp add: trail_simps f(5))
  qed
  with rem remove_unfold [OF ok nb i True, folded S_def] True show ?thesis by (simp add: S_def [symmetric])
qed

end
