(* ===== verification/IntDomainOps.thy ===== *)
theory IntDomainOps imports IntDomainProps begin

text \<open>
  The remaining mutations of \<open>src/src/domains/int.rs\<close>: \<open>fix\<close>, \<open>remove_if\<close>, the bound
  updates, and the operations of the bounds-only form. Every lemma has the shape
  \<open>dom_step d t d' t' S\<close>, where \<open>S\<close> is the set the operation is specified to leave.
\<close>

lemma step_bounds_form: "dom_step d t d' t' S \<Longrightarrow> dom_is_bounds d' = dom_is_bounds d"
proof -
  have len: "length (handle_list e) = (if dom_is_bounds e then 6 else 3)" for e
    by (auto simp: handle_list_def dom_is_bounds_def split: value_map.splits)
  show "dom_step d t d' t' S \<Longrightarrow> dom_is_bounds d' = dom_is_bounds d"
    using len [of d] len [of d'] by (auto simp: dom_step_def split: if_splits)
qed

lemma dom_set_i32:
  assumes ok: "dom_ok d t" and v: "v \<in> dom_set d t"
  shows "in_i32 v"
proof (cases "dom_is_bounds d")
  case False
  then show ?thesis
    using v prefix_set_i32 [OF dom_ok_static [OF ok]] indexed_now(1)[OF ok] by auto
next
  case True
  then obtain hs hl em ah where m: "d_map d = Bounds hs hl em ah" by (rule bounds_cases)
  show ?thesis
    using v bounds_at(4,5)[OF dom_ok_current [OF ok] m]
    by (auto simp: dom_set_def vset_bounds [OF m] in_i32_def split: if_splits)
qed

section \<open>\<open>fix\<close> on indexed storage\<close>

lemma dom_fix_indexed:
  assumes ok: "dom_ok d t" and nb: "\<not> dom_is_bounds d"
    and fx: "dom_fix d val t = (d', t', r)"
  shows "if val \<in> dom_set d t
    then dom_step d t d' t' {val} \<and> r = Ok (dom_size d t > 1)
    else d' = d \<and> t' = t \<and> r = Err Inconsistency"
proof (cases "val \<in> dom_set d t")
  case False
  then show ?thesis
    using fx nb index_present [OF ok nb, of val]
    by (auto simp: dom_fix_def Let_def split: option.splits if_splits)
next
  case True
  obtain i where i: "dom_index_of d val = Some i"
    using True index_present(1)[OF ok nb] by fastforce
  note n = indexed_now [OF ok nb] and st = dom_ok_static [OF ok]
    and h = static_handles [OF dom_ok_static [OF ok] nb]
  let ?p = "d_sparse d ! i"
  let ?d1 = "dom_swap d ?p 0"
  let ?t1 = "trail_set (trail_set (trail_set t (d_size d) 1) (d_min d) val) (d_max d) val"
  have p: "?p < dom_size d t" using True index_present(2)[OF ok nb i] by simp
  have v32: "in_i32 val" using dom_set_i32 [OF ok True] .
  have "d_dense ?d1 ! 0 = d_dense d ! ?p"
    using p n(2) nth_list_update_eq [of 0] by (metis gr_zeroI less_le_trans not_less0 swap_dense length_list_update)
  moreover have "take 1 (d_dense ?d1) = [d_dense ?d1 ! 0]"
    using p n(2) by (cases "d_dense ?d1") (auto simp: swap_dense dest: arg_cong [of _ _ length])
  ultimately have S: "prefix_set ?d1 1 = {val}"
    using index_present(3)[OF ok nb i] by (simp add: prefix_set_def dom_value_of_def)
  have vals: "t_values ?t1 = (t_values t)[d_size d := 1, d_min d := val, d_max d := val]"
    by (simp add: trail_simps)
  have "dom_step d t ?d1 ?t1 {val}"
  proof (rule indexed_shrink [OF ok nb, where k = 1])
    show "arrays_le d (nat (t_values t ! d_size d)) ?d1 (length (t_values t))"
      using p n(2,3) nb st by (intro arrays_le_swap arrays_le_refl) auto
    show "trail_writes (set (handle_list d)) t ?t1"
      using ok h by (intro trail_writes_set trail_writes_refl)
        (auto simp: handles_indexed [OF nb] dom_ok_trail trail_simps)
  qed (use True S h v32 vals p n in auto)
  moreover have "d' = ?d1 \<and> t' = ?t1 \<and> r = Ok (dom_size d t > 1)"
    using fx nb i p by (simp add: dom_fix_def Let_def)
  ultimately show ?thesis using True by simp
qed

section \<open>\<open>remove_if\<close>\<close>

lemma remove_if_loop_ok:
  assumes nb: "\<not> dom_is_bounds d0" and k: "k \<le> length (d_dense d0)"
  shows "\<lbrakk>arrays_le d0 k d n; pos \<le> sz; sz \<le> k;
      \<forall>j < pos. \<not> p (dom_value_of d (d_dense d ! j)); remove_if_loop p d pos sz = (d', sz')\<rbrakk> \<Longrightarrow>
    arrays_le d0 k d' n \<and> sz' \<le> sz \<and> prefix_set d' sz' = {v \<in> prefix_set d sz. \<not> p v}"
proof (induction p d pos sz rule: remove_if_loop.induct)
  case (1 p d pos sz)
  have len: "length (d_dense d) = length (d_dense d0)"
    and nb1: "\<not> dom_is_bounds d" and st: "dom_static d n"
    using "1.prems"(1) nb by (auto simp: arrays_le_def dom_is_bounds_def)
  show ?case
  proof (cases "pos < sz")
    case False
    have "remove_if_loop p d pos sz = (d, sz)"
      using False by (subst remove_if_loop.simps) simp
    with False "1.prems" have "d' = d" "sz' = sz" "pos = sz" by simp_all
    moreover have "\<not> p v" if "v \<in> prefix_set d sz" for v
      using that "1.prems" \<open>pos = sz\<close> k len by (auto simp: prefix_set_def in_set_take_iff)
    ultimately show ?thesis using "1.prems"(1) by auto
  next
    case True
    show ?thesis
    proof (cases "p (dom_value_of d (d_dense d ! pos))")
      case pv: True
      let ?d1 = "dom_swap d pos (sz - 1)"
      have keep: "dom_value_of ?d1 (d_dense ?d1 ! j) = dom_value_of d (d_dense d ! j)" if "j < pos" for j
        using that True "1.prems" k len by (simp add: swap_dense dom_value_of_def)
      then have a: "\<forall>j < pos. \<not> p (dom_value_of ?d1 (d_dense ?d1 ! j))"
        using "1.prems"(4) by simp
      have b: "remove_if_loop p ?d1 pos (sz - 1) = (d', sz')"
        using "1.prems"(5) True pv by (subst (asm) remove_if_loop.simps) simp
      have c: "arrays_le d0 k ?d1 n"
        using "1.prems" True nb k by (intro arrays_le_swap) auto
      have e: "pos \<le> sz - 1" "sz - 1 \<le> k" using True "1.prems"(3) by auto
      have r: "arrays_le d0 k d' n \<and> sz' \<le> sz - 1 \<and>
          prefix_set d' sz' = {v \<in> prefix_set ?d1 (sz - 1). \<not> p v}"
        using "1.IH"(1)[OF True pv c e a b] .
      have q: "prefix_set ?d1 (sz - 1) = prefix_set d sz - {dom_value_of d (d_dense d ! pos)}"
        using "1.prems"(3) True k len by (intro remove_swap_set [OF st nb1]) auto
      have "prefix_set d' sz' = {v \<in> prefix_set d sz. \<not> p v}"
        using r pv unfolding q by blast
      with r show ?thesis by linarith
    next
      case pv: False
      then have all: "\<forall>j < pos + 1. \<not> p (dom_value_of d (d_dense d ! j))"
        using "1.prems"(4) by (auto simp: less_Suc_eq)
      have "remove_if_loop p d (pos + 1) sz = (d', sz')"
        using "1.prems"(5) True pv by (subst (asm) remove_if_loop.simps) simp
      moreover have "pos + 1 \<le> sz" using True by simp
      ultimately show ?thesis
        using "1.IH"(2)[OF True pv "1.prems"(1) _ "1.prems"(3) all] by blast
    qed
  qed
qed

lemma fold_bounds_eq:
  "fold (\<lambda>v (lo, hi). (min lo v, max hi v)) vs (a, b) = (Min (insert a (set vs)), Max (insert b (set vs :: int set)))"
proof (induction vs arbitrary: a b)
  case (Cons v vs)
  have "Min (insert (min a v) (set vs)) = Min (insert a (insert v (set vs)))"
    "Max (insert (max b v) (set vs)) = Max (insert b (insert v (set vs)))"
    by (cases "set vs = {}"; simp add: min.assoc max.assoc)+
  with Cons show ?case by simp
qed simp

lemma recompute_bounds_eq:
  assumes S: "set (dom_values d t) = S" "S \<noteq> {}" and i32: "\<And>v. v \<in> S \<Longrightarrow> in_i32 v"
  shows "dom_recompute_bounds d t = trail_set (trail_set t (d_min d) (Min S)) (d_max d) (Max S)"
proof -
  have fin: "finite S" using S(1) by auto
  have "Min S \<le> i32_max" "i32_min \<le> Max S"
    using i32 [OF Min_in [OF fin S(2)]] i32 [OF Max_in [OF fin S(2)]] by (simp_all add: in_i32_def)
  then have "Min (insert i32_max S) = Min S" "Max (insert i32_min S) = Max S"
    using fin S(2) by (simp_all add: min_absorb2 max_absorb2)
  then show ?thesis by (simp add: dom_recompute_bounds_def fold_bounds_eq S(1))
qed

lemma dom_remove_if_ok:
  assumes ok: "dom_ok d t" and nb: "\<not> dom_is_bounds d"
    and rem: "dom_remove_if d t p = (d', t', ch)"
  shows "dom_step d t d' t' {v \<in> dom_set d t. \<not> p v} \<and> (ch \<longleftrightarrow> (\<exists>v \<in> dom_set d t. p v))"
proof -
  note n = indexed_now [OF ok nb] and st = dom_ok_static [OF ok]
    and h = static_handles [OF dom_ok_static [OF ok] nb]
  let ?k = "dom_size d t"
  define S where "S = {v \<in> dom_set d t. \<not> p v}"
  obtain d1 sz where lp: "remove_if_loop p d 0 ?k = (d1, sz)" by fastforce
  have al: "arrays_le d ?k d1 (length (t_values t))" and sz: "sz \<le> ?k"
    and set1: "prefix_set d1 sz = S"
    using remove_if_loop_ok [OF nb n(2) arrays_le_refl [OF st] _ _ _ lp] n(1) by (auto simp: S_def)
  have d1: "d_size d1 = d_size d" "d_min d1 = d_min d" "d_max d1 = d_max d" "dom_static d1 (length (t_values t))"
    "\<not> dom_is_bounds d1" "length (d_dense d1) = length (d_dense d)"
    using al nb by (auto simp: arrays_le_def dom_is_bounds_def)
  have card: "card S = sz" using card_prefix_set [OF d1(4,5)] sz n(2) d1(6) set1 by auto
  have finS: "finite S" using set1 by auto
  have S32: "in_i32 v" if "v \<in> S" for v using that dom_set_i32 [OF ok] by (auto simp: S_def)
  let ?t1 = "trail_set t (d_size d) (as_i32 (int sz))"
  have t1: "t_values ?t1 = (t_values t)[d_size d := int sz]"
    using sz n(4) by (simp add: trail_simps as_i32_small_nat i32_max_def)
  have al': "arrays_le d (nat (t_values t ! d_size d)) d1 (length (t_values t))"
    using al n(3) by simp
  have tw1: "trail_writes (set (handle_list d)) t ?t1"
    by (rule trail_writes_self_set [OF ok]) (simp add: handles_indexed [OF nb])
  have whole: "sz = ?k \<longleftrightarrow> S = dom_set d t"
    using card n(1) card_prefix_set [OF st nb n(2)] finite_prefix_set [of d ?k]
    by (metis (no_types, lifting) S_def card_subset_eq mem_Collect_eq subsetI)
  show ?thesis
  proof (cases "sz = 0 \<or> sz = ?k")
    case True
    have res: "(d', t', ch) = (d1, if sz = ?k then t else ?t1, sz \<noteq> ?k)"
      using rem lp True by (auto simp: dom_remove_if_def Let_def)
    have tw: "trail_writes (set (handle_list d)) t (if sz = ?k then t else ?t1)"
      using tw1 trail_writes_refl [OF dom_ok_trail [OF ok]] by simp
    have vals: "t_values (if sz = ?k then t else ?t1) ! d_size d = int sz"
      "t_values (if sz = ?k then t else ?t1) ! d_min d = t_values t ! d_min d"
      "t_values (if sz = ?k then t else ?t1) ! d_max d = t_values t ! d_max d"
      using t1 h n(3) by simp_all
    have ne: "0 < int sz \<Longrightarrow> S = dom_set d t \<and> S \<noteq> {}" using True whole card by auto
    have "dom_step d t d1 (if sz = ?k then t else ?t1) S"
      by (rule indexed_shrink [OF ok nb al' tw vals(1)])
        (use set1 sz n(3,5,6,7,8) vals ne S_def in auto)
    then show ?thesis using res whole by (auto simp: S_def)
  next
    case False
    then have ne: "S \<noteq> {}" using card by auto
    have "t_values ?t1 ! d_size d1 = int sz" using t1 h d1 by simp
    then have "set (dom_values d1 ?t1) = S"
      using values_indexed [OF d1(4,5), of ?t1] sz n(2) d1 set1 by (simp add: vset_indexed)
    then have rb: "dom_recompute_bounds d1 ?t1 = trail_set (trail_set ?t1 (d_min d) (Min S)) (d_max d) (Max S)"
      using recompute_bounds_eq [OF _ ne S32] d1 by simp
    let ?t2 = "trail_set (trail_set ?t1 (d_min d) (Min S)) (d_max d) (Max S)"
    have vals: "t_values ?t2 ! d_size d = int sz" "t_values ?t2 ! d_min d = Min S" "t_values ?t2 ! d_max d = Max S"
      using t1 h by (simp_all add: trail_simps)
    have tw: "trail_writes (set (handle_list d)) t ?t2"
      using tw1 h by (simp add: trail_writes_set handles_indexed [OF nb])
    have "dom_step d t d1 ?t2 S"
      by (rule indexed_shrink [OF ok nb al' tw vals(1)])
        (use set1 sz n(3) vals Min_in [OF finS ne] Max_in [OF finS ne] S32 finS S_def in auto)
    moreover have "(d', t', ch) = (d1, ?t2, True)"
      using rem lp False rb by (simp add: dom_remove_if_def Let_def)
    moreover have "\<exists>v \<in> dom_set d t. p v" using False whole by (auto simp: S_def)
    ultimately show ?thesis by (simp add: S_def)
  qed
qed

section \<open>The loops of \<open>remove_below\<close> and \<open>remove_above\<close> on dense storage\<close>

lemma dense_below_loop_ok:
  "\<lbrakk>dom_ok d t; \<not> dom_is_bounds d; in_i32 v; in_i32 bound;
     dense_below_loop d t v bound c = (d', t', c')\<rbrakk> \<Longrightarrow>
   dom_step d t d' t' {x \<in> dom_set d t. \<not> (v \<le> x \<and> x < bound)} \<and>
   (c' \<longleftrightarrow> c \<or> (\<exists>x \<in> dom_set d t. v \<le> x \<and> x < bound))"
proof (induction d t v bound c rule: dense_below_loop.induct)
  case (1 d t v bound c)
  show ?case
  proof (cases "v < bound")
    case False
    have "dense_below_loop d t v bound c = (d, t, c)"
      using False by (subst dense_below_loop.simps) simp
    with "1.prems" False show ?thesis by (auto intro!: dom_step_refl)
  next
    case True
    obtain d1 t1 c1 where rem: "dom_remove d (as_i32 v) t = (d1, t1, c1)" by (metis prod_cases3)
    have v: "as_i32 v = v" using "1.prems"(3) by (simp add: as_i32_id)
    note st1 = dom_remove_indexed [OF "1.prems"(1,2) rem, unfolded v]
    have nb1: "\<not> dom_is_bounds d1" using st1 step_bounds_form "1.prems"(2) by blast
    have ok1: "dom_ok d1 t1" and set1: "dom_set d1 t1 = dom_set d t - {v}"
      using st1 by (auto simp: dom_step_def)
    have un: "dense_below_loop d t v bound c =
        (if dom_size d1 t1 = 0 then (d1, t1, c \<or> c1) else dense_below_loop d1 t1 (v + 1) bound (c \<or> c1))"
      using True rem by (subst dense_below_loop.simps) simp
    show ?thesis
    proof (cases "dom_size d1 t1 = 0")
      case empty: True
      then have "dom_set d t \<subseteq> {v}" using size_zero [OF ok1] set1 by auto
      moreover have "(d', t', c') = (d1, t1, c \<or> c1)" using un empty "1.prems"(5) by simp
      moreover from calculation have "{x \<in> dom_set d t. \<not> (v \<le> x \<and> x < bound)} = dom_set d t - {v}"
        using True by auto
      ultimately show ?thesis using st1 True by auto
    next
      case False
      have "in_i32 (v + 1)" using True "1.prems"(3,4) by (auto simp: in_i32_def)
      then have A: "dom_step d1 t1 d' t' {x \<in> dom_set d1 t1. \<not> (v + 1 \<le> x \<and> x < bound)} \<and>
          (c' \<longleftrightarrow> (c \<or> c1) \<or> (\<exists>x \<in> dom_set d1 t1. v + 1 \<le> x \<and> x < bound))"
        using "1.IH"[OF True rem [symmetric] refl False ok1 nb1 _ "1.prems"(4)] "1.prems"(5)
        unfolding un if_not_P [OF False] by blast
      have B: "{x \<in> dom_set d1 t1. \<not> (v + 1 \<le> x \<and> x < bound)} =
          {x \<in> dom_set d t. \<not> (v \<le> x \<and> x < bound)}"
        unfolding set1 using True by auto
      have c1: "c1 \<longleftrightarrow> v \<in> dom_set d t" using st1 by blast
      have C: "c1 \<or> (\<exists>x \<in> dom_set d1 t1. v + 1 \<le> x \<and> x < bound) \<longleftrightarrow>
          (\<exists>x \<in> dom_set d t. v \<le> x \<and> x < bound)"
      proof -
        have "v \<le> x \<longleftrightarrow> x = v \<or> v + 1 \<le> x" for x by auto
        then show ?thesis unfolding set1 c1 using True by auto
      qed
      show ?thesis
        using dom_step_trans [OF conjunct1 [OF st1] conjunct1 [OF A]] conjunct2 [OF A] C
        unfolding B by blast
    qed
  qed
qed

lemma dense_above_loop_ok:
  "\<lbrakk>dom_ok d t; \<not> dom_is_bounds d; in_i32 v; in_i32 bound;
     dense_above_loop d t v bound c = (d', t', c')\<rbrakk> \<Longrightarrow>
   dom_step d t d' t' {x \<in> dom_set d t. \<not> (bound < x \<and> x \<le> v)} \<and>
   (c' \<longleftrightarrow> c \<or> (\<exists>x \<in> dom_set d t. bound < x \<and> x \<le> v))"
proof (induction d t v bound c rule: dense_above_loop.induct)
  case (1 d t v bound c)
  show ?case
  proof (cases "bound < v")
    case False
    have "dense_above_loop d t v bound c = (d, t, c)"
      using False by (subst dense_above_loop.simps) simp
    with "1.prems" False show ?thesis by (auto intro!: dom_step_refl)
  next
    case True
    obtain d1 t1 c1 where rem: "dom_remove d (as_i32 v) t = (d1, t1, c1)" by (metis prod_cases3)
    have v: "as_i32 v = v" using "1.prems"(3) by (simp add: as_i32_id)
    note st1 = dom_remove_indexed [OF "1.prems"(1,2) rem, unfolded v]
    have nb1: "\<not> dom_is_bounds d1" using st1 step_bounds_form "1.prems"(2) by blast
    have ok1: "dom_ok d1 t1" and set1: "dom_set d1 t1 = dom_set d t - {v}"
      using st1 by (auto simp: dom_step_def)
    have un: "dense_above_loop d t v bound c =
        (if dom_size d1 t1 = 0 then (d1, t1, c \<or> c1) else dense_above_loop d1 t1 (v - 1) bound (c \<or> c1))"
      using True rem by (subst dense_above_loop.simps) simp
    show ?thesis
    proof (cases "dom_size d1 t1 = 0")
      case empty: True
      then have "dom_set d t \<subseteq> {v}" using size_zero [OF ok1] set1 by auto
      moreover have "(d', t', c') = (d1, t1, c \<or> c1)" using un empty "1.prems"(5) by simp
      moreover from calculation have "{x \<in> dom_set d t. \<not> (bound < x \<and> x \<le> v)} = dom_set d t - {v}"
        using True by auto
      ultimately show ?thesis using st1 True by auto
    next
      case False
      have "in_i32 (v - 1)" using True "1.prems"(3,4) by (auto simp: in_i32_def)
      then have A: "dom_step d1 t1 d' t' {x \<in> dom_set d1 t1. \<not> (bound < x \<and> x \<le> v - 1)} \<and>
          (c' \<longleftrightarrow> (c \<or> c1) \<or> (\<exists>x \<in> dom_set d1 t1. bound < x \<and> x \<le> v - 1))"
        using "1.IH"[OF True rem [symmetric] refl False ok1 nb1 _ "1.prems"(4)] "1.prems"(5)
        unfolding un if_not_P [OF False] by blast
      have B: "{x \<in> dom_set d1 t1. \<not> (bound < x \<and> x \<le> v - 1)} =
          {x \<in> dom_set d t. \<not> (bound < x \<and> x \<le> v)}"
        unfolding set1 using True by auto
      have c1: "c1 \<longleftrightarrow> v \<in> dom_set d t" using st1 by blast
      have C: "c1 \<or> (\<exists>x \<in> dom_set d1 t1. bound < x \<and> x \<le> v - 1) \<longleftrightarrow>
          (\<exists>x \<in> dom_set d t. bound < x \<and> x \<le> v)"
      proof -
        have "x \<le> v \<longleftrightarrow> x = v \<or> x \<le> v - 1" for x by auto
        then show ?thesis unfolding set1 c1 using True by auto
      qed
      show ?thesis
        using dom_step_trans [OF conjunct1 [OF st1] conjunct1 [OF A]] conjunct2 [OF A] C
        unfolding B by blast
    qed
  qed
qed

end
