(* ===== verification/IntDomainHoles.thy ===== *)
theory IntDomainHoles imports IntDomainProps begin

text \<open>
  The mutations of the bounds-only form of \<open>src/src/domains/int.rs\<close>: a pair of bounds, an
  empty flag, a list of removed interior values of which the active prefix counts, and the
  number of active holes inside the bounds.
\<close>

lemma dom_set_holes_i32:
  assumes ok: "dom_ok d t" and m: "d_map d = Bounds hs hl em ah" and v: "v \<in> dom_set d t"
  shows "in_i32 v"
  using v bounds_at(4,5)[OF dom_ok_current [OF ok] m]
  by (auto simp: dom_set_def vset_bounds [OF m] in_i32_def split: if_splits)

lemma bounds_handles:
  assumes "dom_ok d t" "d_map d = Bounds hs hl em ah"
  shows "set (handle_list d) = {d_size d, d_min d, d_max d, hl, em, ah}"
    "d_min d \<noteq> d_max d" "d_min d \<noteq> hl" "d_min d \<noteq> em" "d_min d \<noteq> ah"
    "d_max d \<noteq> hl" "d_max d \<noteq> em" "d_max d \<noteq> ah" "hl \<noteq> em" "hl \<noteq> ah" "em \<noteq> ah"
    "d_min d < length (t_values t)" "d_max d < length (t_values t)" "hl < length (t_values t)"
    "em < length (t_values t)" "ah < length (t_values t)"
  using dom_ok_static [OF assms(1)] assms(2) by (auto simp: dom_static_def handle_list_def)

text \<open>A write to the counters that keeps the hole list.\<close>

lemma bounds_step:
  assumes ok: "dom_ok d t" and m: "d_map d = Bounds hs hl em ah"
    and tw: "trail_writes (set (handle_list d)) t t'" and at: "dom_at d (t_values t')"
    and hl: "t_values t' ! hl = t_values t ! hl"
    and S: "S = vset d (t_values t')" "S \<subseteq> dom_set d t"
  shows "dom_step d t d t' S"
proof (rule dom_stepI [OF ok dom_ok_static [OF ok]])
  show "rank d (t_values t') \<le> rank d (t_values t)" using hl m by (simp add: rank_def)
qed (use tw at S in \<open>simp_all add: dom_set_def\<close>)

lemma bounds_not_empty:
  assumes "dom_ok d t" "d_map d = Bounds hs hl em ah" "dom_set d t \<noteq> {}"
  shows "t_values t ! em = 0"
  using assms by (auto simp: dom_set_def vset_bounds split: if_splits)

lemma set_bounds_empty_ok:
  assumes ok: "dom_ok d t" and b: "dom_is_bounds d"
  shows "dom_step d t d (dom_set_bounds_empty d t) {}"
proof -
  obtain hs hl em ah where m: "d_map d = Bounds hs hl em ah" using b by (rule bounds_cases)
  note h = bounds_handles [OF ok m] and at = bounds_at [OF dom_ok_current [OF ok] m]
  have v: "t_values (dom_set_bounds_empty d t) = (t_values t)[em := 1]"
    by (simp add: dom_set_bounds_empty_def m trail_simps)
  show ?thesis
  proof (rule bounds_step [OF ok m])
    show "trail_writes (set (handle_list d)) t (dom_set_bounds_empty d t)"
      unfolding dom_set_bounds_empty_def m
      by (rule trail_writes_self_set [OF ok]) (simp add: h(1))
    show "dom_at d (t_values (dom_set_bounds_empty d t))"
      using at(1-6) h by (simp add: dom_at_def v m)
  qed (use h in \<open>simp_all add: v vset_bounds [OF m]\<close>)
qed

section \<open>Skipping holes\<close>

lemma hole_ok:
  assumes "dom_ok d t" "d_map d = Bounds hs hl em ah"
  shows "dom_is_hole d v t \<longleftrightarrow> v \<in> set (take (nat (t_values t ! hl)) hs)"
  using active_prefix_bounds [OF dom_ok_current [OF assms(1)] assms(2)] by (simp add: dom_is_hole_def)

lemma skip_up_ok:
  assumes mx: "in_i32 mx"
  shows "i32_min \<le> v \<Longrightarrow>
     v \<le> skip_holes_up d t v mx \<and>
     (\<forall>x. v \<le> x \<and> x < skip_holes_up d t v mx \<longrightarrow> x \<le> mx \<and> dom_is_hole d x t) \<and>
     (skip_holes_up d t v mx \<le> mx \<longrightarrow> \<not> dom_is_hole d (skip_holes_up d t v mx) t)"
proof (induction d t v mx\<equiv>mx rule: skip_holes_up.induct)
  case (1 d t v)
  show ?case
  proof (cases "v \<le> mx \<and> dom_is_hole d (as_i32 v) t")
    case False
    have "as_i32 v = v" if "v \<le> mx"
      using that mx "1.prems" by (simp add: as_i32_id in_i32_def)
    then show ?thesis using False by (auto simp: skip_holes_up.simps [of d t v mx])
  next
    case True
    have id: "as_i32 v = v" using True mx "1.prems" by (simp add: as_i32_id in_i32_def)
    let ?r = "skip_holes_up d t (v + 1) mx"
    have eq: "skip_holes_up d t v mx = ?r" using True by (subst skip_holes_up.simps) simp
    have "v + 1 \<le> ?r \<and> (\<forall>x. v + 1 \<le> x \<and> x < ?r \<longrightarrow> x \<le> mx \<and> dom_is_hole d x t) \<and>
        (?r \<le> mx \<longrightarrow> \<not> dom_is_hole d ?r t)"
      using "1.hyps" [OF True] "1.prems" by simp
    moreover have "v \<le> x \<longleftrightarrow> x = v \<or> v + 1 \<le> x" for x by auto
    ultimately show ?thesis using True unfolding eq id by auto
  qed
qed

lemma skip_down_ok:
  assumes mn: "in_i32 mn"
  shows "v \<le> i32_max \<Longrightarrow>
     skip_holes_down d t v mn \<le> v \<and>
     (\<forall>x. skip_holes_down d t v mn < x \<and> x \<le> v \<longrightarrow> mn \<le> x \<and> dom_is_hole d x t) \<and>
     (mn \<le> skip_holes_down d t v mn \<longrightarrow> \<not> dom_is_hole d (skip_holes_down d t v mn) t)"
proof (induction d t v mn\<equiv>mn rule: skip_holes_down.induct)
  case (1 d t v)
  show ?case
  proof (cases "v \<ge> mn \<and> dom_is_hole d (as_i32 v) t")
    case False
    have "as_i32 v = v" if "v \<ge> mn"
      using that mn "1.prems" by (simp add: as_i32_id in_i32_def)
    then show ?thesis using False by (auto simp: skip_holes_down.simps [of d t v mn])
  next
    case True
    have id: "as_i32 v = v" using True mn "1.prems" by (simp add: as_i32_id in_i32_def)
    let ?r = "skip_holes_down d t (v - 1) mn"
    have eq: "skip_holes_down d t v mn = ?r" using True by (subst skip_holes_down.simps) simp
    have "?r \<le> v - 1 \<and> (\<forall>x. ?r < x \<and> x \<le> v - 1 \<longrightarrow> mn \<le> x \<and> dom_is_hole d x t) \<and>
        (mn \<le> ?r \<longrightarrow> \<not> dom_is_hole d ?r t)"
      using "1.hyps" [OF True] "1.prems" by simp
    moreover have "x \<le> v \<longleftrightarrow> x = v \<or> x \<le> v - 1" for x by auto
    ultimately show ?thesis using True unfolding eq id by auto
  qed
qed

section \<open>Moving a bound\<close>

text \<open>The holes of a range split at a point.\<close>

lemma filter_split_length:
  "a \<le> m \<Longrightarrow> m - 1 \<le> b \<Longrightarrow>
   length (filter (\<lambda>h. a \<le> h \<and> h \<le> b) hs) =
     length (filter (\<lambda>h. a \<le> h \<and> h \<le> m - 1) hs) + length (filter (\<lambda>h. m \<le> h \<and> h \<le> (b :: int)) hs)"
  by (induction hs) auto

text \<open>New bounds over the same holes, with the hole count adjusted.\<close>

lemma rebound_ok:
  assumes ok: "dom_ok d t" and m: "d_map d = Bounds hs hl em ah" and ne: "dom_set d t \<noteq> {}"
    and ab: "a \<in> dom_set d t" "b \<in> dom_set d t"
    and tw: "trail_writes (set (handle_list d)) t t'"
    and v: "t_values t' ! d_min d = a" "t_values t' ! d_max d = b" "t_values t' ! em = 0"
      "t_values t' ! hl = t_values t ! hl" "a \<le> b"
      "t_values t' ! ah = int (length (filter (\<lambda>h. a \<le> h \<and> h \<le> b) (take (nat (t_values t ! hl)) hs)))"
  shows "dom_step d t d t' {x \<in> dom_set d t. a \<le> x \<and> x \<le> b}"
proof (rule bounds_step [OF ok m tw])
  note at = bounds_at [OF dom_ok_current [OF ok] m]
  have em: "t_values t ! em = 0" using bounds_not_empty [OF ok m ne] .
  have S: "dom_set d t = {t_values t ! d_min d..t_values t ! d_max d} - set (take (nat (t_values t ! hl)) hs)"
    using em by (simp add: dom_set_def vset_bounds [OF m])
  show V: "{x \<in> dom_set d t. a \<le> x \<and> x \<le> b} = vset d (t_values t')"
    using ab v unfolding S by (auto simp: vset_bounds [OF m])
  have "a \<in> vset d (t_values t')" "b \<in> vset d (t_values t')"
    using ab v(5) V by blast+
  then show "dom_at d (t_values t')"
    using at v dom_set_holes_i32 [OF ok m] ab by (simp add: dom_at_def m)
qed (use v in auto)

lemma count_bound:
  assumes "dom_ok d t" "d_map d = Bounds hs hl em ah"
  shows "int (length (filter P (take (nat (t_values t ! hl)) hs))) \<le> i32_max"
proof -
  have "length (filter P (take (nat (t_values t ! hl)) hs)) \<le> nat (t_values t ! hl)"
    by (rule order_trans [OF length_filter_le]) simp
  then show ?thesis using bounds_at(1,3)[OF dom_ok_current [OF assms(1)] assms(2)] by linarith
qed

lemma bounds_now:
  assumes ok: "dom_ok d t" and m: "d_map d = Bounds hs hl em ah" and ne: "dom_set d t \<noteq> {}"
  shows "dom_min d t \<in> dom_set d t" "dom_max d t \<in> dom_set d t"
    "x \<in> dom_set d t \<longleftrightarrow> dom_min d t \<le> x \<and> x \<le> dom_max d t \<and> \<not> dom_is_hole d x t"
    "t_values t ! ah = int (length (filter (\<lambda>h. dom_min d t \<le> h \<and> h \<le> dom_max d t)
       (take (nat (t_values t ! hl)) hs)))"
    "in_i32 (dom_min d t)" "in_i32 (dom_max d t)" "t_values t ! em = 0"
  using bounds_at [OF dom_ok_current [OF ok] m] bounds_not_empty [OF ok m ne] hole_ok [OF ok m]
  by (auto simp: dom_min_def dom_max_def trail_get_def dom_set_def vset_bounds [OF m])

lemma set_bounds_min_ok:
  assumes ok: "dom_ok d t" and b: "dom_is_bounds d" and ne: "dom_set d t \<noteq> {}"
    and val: "dom_min d t < val"
  shows "dom_step d t d (dom_set_bounds_min d val t) {x \<in> dom_set d t. val \<le> x}"
proof -
  obtain hs hl em ah where m: "d_map d = Bounds hs hl em ah" using b by (rule bounds_cases)
  note h = bounds_handles [OF ok m] and n = bounds_now [OF ok m ne]
  let ?v = "skip_holes_up d t val (dom_max d t)"
  have "i32_min \<le> val" using val n(5) by (simp add: in_i32_def)
  note sk = skip_up_ok [OF n(6) this, of d t]
  have set: "{x \<in> dom_set d t. val \<le> x} = {x \<in> dom_set d t. ?v \<le> x \<and> x \<le> dom_max d t}"
    using sk n(3) by (metis (lifting) linorder_not_le order_trans)
  show ?thesis
  proof (cases "?v > dom_max d t")
    case True
    then have "{x \<in> dom_set d t. val \<le> x} = {}" unfolding set by auto
    moreover have "dom_set_bounds_min d val t = dom_set_bounds_empty d t"
      using True by (simp add: dom_set_bounds_min_def)
    ultimately show ?thesis using set_bounds_empty_ok [OF ok b] by presburger
  next
    case False
    have vin: "?v \<in> dom_set d t" using n(3)[of ?v] sk False val by linarith
    have v32: "in_i32 ?v" using dom_set_holes_i32 [OF ok m vin] .
    have v1: "as_i32 (?v - 1) = ?v - 1"
      using v32 sk val n(5) by (auto simp: as_i32_id in_i32_def)
    let ?P = "take (nat (t_values t ! hl)) hs"
    let ?c = "length (filter (\<lambda>h. dom_min d t \<le> h \<and> h \<le> ?v - 1) ?P)"
    let ?t' = "trail_set (trail_set t ah (t_values t ! ah - int ?c)) (d_min d) ?v"
    have "as_i32 (int ?c) = int ?c"
      using count_bound [OF ok m] by (simp add: as_i32_small_nat i32_max_def)
    then have eq: "dom_set_bounds_min d val t = ?t'"
      using False v32 v1 by (simp add: dom_set_bounds_min_def Let_def m dom_count_holes_in_def
          trail_get_def as_i32_id active_prefix_bounds [OF dom_ok_current [OF ok] m])
    have cnt: "t_values t ! ah - int ?c =
        int (length (filter (\<lambda>h. ?v \<le> h \<and> h \<le> dom_max d t) ?P))"
      using filter_split_length [of "dom_min d t" ?v "dom_max d t" ?P] n(4) sk val False by simp
    have vals: "t_values ?t' = (t_values t)[ah := t_values t ! ah - int ?c, d_min d := ?v]"
      by (simp add: trail_simps)
    show ?thesis
      unfolding eq set
    proof (rule rebound_ok [OF ok m ne vin n(2)])
      show "trail_writes (set (handle_list d)) t ?t'"
        using h by (intro trail_writes_set trail_writes_refl dom_ok_trail [OF ok]) auto
    qed (use h n(7) cnt vals False in \<open>auto simp: dom_max_def trail_get_def\<close>)
  qed
qed

lemma set_bounds_max_ok:
  assumes ok: "dom_ok d t" and b: "dom_is_bounds d" and ne: "dom_set d t \<noteq> {}"
    and val: "val < dom_max d t"
  shows "dom_step d t d (dom_set_bounds_max d val t) {x \<in> dom_set d t. x \<le> val}"
proof -
  obtain hs hl em ah where m: "d_map d = Bounds hs hl em ah" using b by (rule bounds_cases)
  note h = bounds_handles [OF ok m] and n = bounds_now [OF ok m ne]
  let ?v = "skip_holes_down d t val (dom_min d t)"
  have "val \<le> i32_max" using val n(6) by (simp add: in_i32_def)
  note sk = skip_down_ok [OF n(5) this, of d t]
  have set: "{x \<in> dom_set d t. x \<le> val} = {x \<in> dom_set d t. dom_min d t \<le> x \<and> x \<le> ?v}"
    using sk n(3) by (metis (lifting) linorder_not_le order_trans)
  show ?thesis
  proof (cases "?v < dom_min d t")
    case True
    then have "{x \<in> dom_set d t. x \<le> val} = {}" unfolding set by auto
    moreover have "dom_set_bounds_max d val t = dom_set_bounds_empty d t"
      using True by (simp add: dom_set_bounds_max_def)
    ultimately show ?thesis using set_bounds_empty_ok [OF ok b] by presburger
  next
    case False
    have vin: "?v \<in> dom_set d t" using n(3)[of ?v] sk False val by linarith
    have v32: "in_i32 ?v" using dom_set_holes_i32 [OF ok m vin] .
    have v1: "as_i32 (?v + 1) = ?v + 1"
      using v32 sk val n(6) by (auto simp: as_i32_id in_i32_def)
    let ?P = "take (nat (t_values t ! hl)) hs"
    let ?c = "length (filter (\<lambda>h. ?v + 1 \<le> h \<and> h \<le> dom_max d t) ?P)"
    let ?t' = "trail_set (trail_set t ah (t_values t ! ah - int ?c)) (d_max d) ?v"
    have "as_i32 (int ?c) = int ?c"
      using count_bound [OF ok m] by (simp add: as_i32_small_nat i32_max_def)
    then have eq: "dom_set_bounds_max d val t = ?t'"
      using False v32 v1 by (simp add: dom_set_bounds_max_def Let_def m dom_count_holes_in_def
          trail_get_def as_i32_id active_prefix_bounds [OF dom_ok_current [OF ok] m])
    have cnt: "t_values t ! ah - int ?c =
        int (length (filter (\<lambda>h. dom_min d t \<le> h \<and> h \<le> ?v) ?P))"
      using filter_split_length [of "dom_min d t" "?v + 1" "dom_max d t" ?P] n(4) sk val False by simp
    have vals: "t_values ?t' = (t_values t)[ah := t_values t ! ah - int ?c, d_max d := ?v]"
      by (simp add: trail_simps)
    show ?thesis
      unfolding eq set
    proof (rule rebound_ok [OF ok m ne n(1) vin])
      show "trail_writes (set (handle_list d)) t ?t'"
        using h by (intro trail_writes_set trail_writes_refl dom_ok_trail [OF ok]) auto
    qed (use h n(7) cnt vals False in \<open>auto simp: dom_min_def trail_get_def\<close>)
  qed
qed

section \<open>Removing and fixing\<close>

text \<open>
  An interior removal pushes a hole; the length counter of the holes is an \<open>i32\<close>, so the
  push needs room below \<open>i32::MAX\<close>.
\<close>

definition hole_room :: "domain \<Rightarrow> trail \<Rightarrow> bool" where
  "hole_room d t = (case d_map d of Bounds hs hl em ah \<Rightarrow> trail_get t hl < i32_max | _ \<Rightarrow> True)"

lemma push_hole_static:
  assumes ok: "dom_ok d t" and m: "d_map d = Bounds hs hl em ah"
  shows "dom_static (d\<lparr>d_map := Bounds hs' hl em ah\<rparr>) (length (t_values t))"
  using dom_ok_static [OF ok] m by (simp add: dom_static_def handle_list_def)

lemma push_hole_ok:
  assumes ok: "dom_ok d t" and m: "d_map d = Bounds hs hl em ah" and room: "hole_room d t"
    and val: "val \<in> dom_set d t" "val \<noteq> dom_min d t" "val \<noteq> dom_max d t"
    and hs': "hs' = (if nat (t_values t ! hl) = length hs then hs @ [val] else hs[nat (t_values t ! hl) := val])"
    and t': "t' = trail_set (trail_set t hl (t_values t ! hl + 1)) ah (t_values t ! ah + 1)"
  shows "dom_step d t (d\<lparr>d_map := Bounds hs' hl em ah\<rparr>) t' (dom_set d t - {val})"
    (is "dom_step d t ?d' t' _")
proof -
  have ne: "dom_set d t \<noteq> {}" using val by auto
  note h = bounds_handles [OF ok m] and n = bounds_now [OF ok m ne]
    and at = bounds_at [OF dom_ok_current [OF ok] m]
  let ?k = "nat (t_values t ! hl)"
  have k: "?k \<le> length hs" "int ?k = t_values t ! hl" using at(1,2) by simp_all
  have m': "d_map ?d' = Bounds hs' hl em ah" by simp
  have vals: "t_values t' = (t_values t)[hl := t_values t ! hl + 1, ah := t_values t ! ah + 1]"
    by (simp add: t' trail_simps)
  have tk: "take j hs' = take j hs" if "j \<le> ?k" for j using that k by (auto simp: hs')
  have tk1: "take (Suc ?k) hs' = take ?k hs @ [val]"
    using k by (auto simp: hs' take_Suc_conv_app_nth)
  have vnot: "val \<notin> set (take ?k hs)" using n(3) val(1) hole_ok [OF ok m] by blast
  have rd: "t_values t' ! hl = int (Suc ?k)" "t_values t' ! d_min d = dom_min d t"
    "t_values t' ! d_max d = dom_max d t" "t_values t' ! em = 0"
    "t_values t' ! ah = t_values t ! ah + 1"
    using h n(7) k by (simp_all add: vals dom_min_def dom_max_def trail_get_def)
  have S: "dom_set d t - {val} = vset ?d' (t_values t')"
  proof -
    have nk: "nat (t_values t' ! hl) = Suc ?k" using rd(1) by (metis nat_int)
    have "vset ?d' (t_values t') = {dom_min d t..dom_max d t} - set (take (Suc ?k) hs')"
      by (simp add: vset_bounds [OF m'] nk rd(2-4))
    then show ?thesis unfolding tk1 using n(3) hole_ok [OF ok m] by auto
  qed
  show ?thesis
  proof (rule dom_stepI [OF ok push_hole_static [OF ok m]])
    show "handle_list ?d' = handle_list d" "rank ?d' s = rank d s" for s
      using m by (simp_all add: handle_list_def rank_def)
    show "dom_at ?d' s \<and> vset ?d' s = vset d s" if s: "dom_at d s" and rk: "rank d (t_values t) \<le> rank d s" for s
    proof -
      have "take (nat (s ! hl)) hs' = take (nat (s ! hl)) hs"
        using rk m by (intro tk nat_mono) (simp add: rank_def)
      moreover have "length hs \<le> length hs'" by (simp add: hs')
      ultimately show ?thesis
        using s m by (auto simp: dom_at_def vset_bounds [OF m] vset_bounds [OF m'])
    qed
    show "trail_writes (set (handle_list d)) t t'"
      unfolding t' using h by (intro trail_writes_set trail_writes_refl dom_ok_trail [OF ok]) auto
    show "dom_at ?d' (t_values t')"
    proof -
      have "dom_min d t \<in> vset ?d' (t_values t')" "dom_max d t \<in> vset ?d' (t_values t')"
        using n(1,2) val S by blast+
      moreover have "int (Suc ?k) \<le> i32_max" using room k by (simp add: hole_room_def m trail_get_def)
      moreover have "distinct (take (Suc ?k) hs')" using tk1 at(6) vnot by simp
      moreover have "Suc ?k \<le> length hs'" using k by (simp add: hs')
      moreover have "t_values t ! ah + 1 = int (length (filter (\<lambda>h. dom_min d t \<le> h \<and> h \<le> dom_max d t) (take (Suc ?k) hs')))"
        unfolding tk1 using n(3,4) val(1) by simp
      ultimately show ?thesis using n(5,6) by (simp add: dom_at_def m' rd del: of_nat_Suc)
    qed
    show "rank d (t_values t') \<le> rank d (t_values t)" using k by (simp add: rank_def m rd)
  qed (use S in \<open>auto simp: dom_set_def\<close>)
qed

lemma card_one_eq: "finite A \<Longrightarrow> v \<in> A \<Longrightarrow> card A = 1 \<Longrightarrow> A = {v}"
  by (metis card_1_singletonE singletonD)

lemma finite_dom_set [simp]: "finite (dom_set d t)"
  by (simp add: dom_set_def)

lemma dom_remove_bounds_ok:
  assumes ok: "dom_ok d t" and b: "dom_is_bounds d" and room: "hole_room d t"
    and rem: "dom_remove_bounds d val t = (d', t', ch)"
  shows "dom_step d t d' t' (dom_set d t - {val}) \<and> (ch \<longleftrightarrow> val \<in> dom_set d t)"
proof -
  obtain hs hl em ah where m: "d_map d = Bounds hs hl em ah" using b by (rule bounds_cases)
  have mm: "dom_min d t \<le> x \<and> x \<le> dom_max d t" if "x \<in> dom_set d t" for x
    using bounds_now(3)[OF ok m] that by blast
  consider (absent) "val \<notin> dom_set d t" | (last) "val \<in> dom_set d t" "dom_size d t = 1"
    | (low) "val \<in> dom_set d t" "dom_size d t \<noteq> 1" "val = dom_min d t"
    | (high) "val \<in> dom_set d t" "dom_size d t \<noteq> 1" "val \<noteq> dom_min d t" "val = dom_max d t"
    | (mid) "val \<in> dom_set d t" "dom_size d t \<noteq> 1" "val \<noteq> dom_min d t" "val \<noteq> dom_max d t"
    by blast
  then show ?thesis
  proof cases
    case absent
    then show ?thesis
      using rem dom_step_refl [OF ok] by (simp add: dom_remove_bounds_def contains_ok [OF ok])
  next
    case last
    then have "dom_set d t = {val}" using size_ok [OF ok] by (simp add: card_one_eq)
    then show ?thesis
      using rem last set_bounds_empty_ok [OF ok b] by (auto simp: dom_remove_bounds_def contains_ok [OF ok])
  next
    case low
    then have "{x \<in> dom_set d t. val + 1 \<le> x} = dom_set d t - {val}" using mm by force
    then show ?thesis
      using rem low set_bounds_min_ok [OF ok b, of "val + 1"]
      by (auto simp: dom_remove_bounds_def contains_ok [OF ok])
  next
    case high
    then have "{x \<in> dom_set d t. x \<le> val - 1} = dom_set d t - {val}" using mm by force
    then show ?thesis
      using rem high set_bounds_max_ok [OF ok b, of "val - 1"]
      by (auto simp: dom_remove_bounds_def contains_ok [OF ok])
  next
    case mid
    note at = bounds_at [OF dom_ok_current [OF ok] m] and h = bounds_handles [OF ok m]
    have "t_values t ! hl < i32_max" using room by (simp add: hole_room_def m trail_get_def)
    then have w: "as_usize (trail_get t hl) = nat (t_values t ! hl)"
      "as_i32 (int (nat (t_values t ! hl) + 1)) = t_values t ! hl + 1"
      using at(1) by (simp_all add: trail_get_def as_usize_id i32_max_def as_i32_id in_i32_def i32_min_def)
    have "trail_get (trail_set t hl (t_values t ! hl + 1)) ah = t_values t ! ah"
      using h by (simp add: trail_simps trail_get_def)
    then show ?thesis
      using rem mid push_hole_ok [OF ok m room mid(1,3,4) refl refl] w
      by (auto simp: dom_remove_bounds_def contains_ok [OF ok] m Let_def)
  qed
qed

lemma dom_remove_bounds_below_ok:
  assumes ok: "dom_ok d t" and b: "dom_is_bounds d" and ne: "dom_set d t \<noteq> {}"
    and bd: "dom_min d t < bound" and rem: "dom_remove_bounds_below d bound t = (d', t', ch)"
  shows "dom_step d t d' t' {x \<in> dom_set d t. bound \<le> x} \<and> ch"
proof (cases "bound > dom_max d t")
  case True
  obtain hs hl em ah where m: "d_map d = Bounds hs hl em ah" using b by (rule bounds_cases)
  have e: "{x \<in> dom_set d t. bound \<le> x} = {}" using True bounds_now(3)[OF ok m ne] by auto
  show ?thesis
    unfolding e using True rem set_bounds_empty_ok [OF ok b] by (auto simp: dom_remove_bounds_below_def)
next
  case False
  then show ?thesis using rem set_bounds_min_ok [OF ok b ne bd] by (auto simp: dom_remove_bounds_below_def)
qed

lemma dom_remove_bounds_above_ok:
  assumes ok: "dom_ok d t" and b: "dom_is_bounds d" and ne: "dom_set d t \<noteq> {}"
    and bd: "bound < dom_max d t" and rem: "dom_remove_bounds_above d bound t = (d', t', ch)"
  shows "dom_step d t d' t' {x \<in> dom_set d t. x \<le> bound} \<and> ch"
proof (cases "bound < dom_min d t")
  case True
  obtain hs hl em ah where m: "d_map d = Bounds hs hl em ah" using b by (rule bounds_cases)
  have e: "{x \<in> dom_set d t. x \<le> bound} = {}" using True bounds_now(3)[OF ok m ne] by auto
  show ?thesis
    unfolding e using True rem set_bounds_empty_ok [OF ok b] by (auto simp: dom_remove_bounds_above_def)
next
  case False
  then show ?thesis using rem set_bounds_max_ok [OF ok b ne bd] by (auto simp: dom_remove_bounds_above_def)
qed

lemma dom_fix_bounds:
  assumes ok: "dom_ok d t" and b: "dom_is_bounds d" and fx: "dom_fix d val t = (d', t', r)"
  shows "if val \<in> dom_set d t
    then dom_step d t d' t' {val} \<and> r = Ok (dom_size d t > 1)
    else d' = d \<and> t' = t \<and> r = Err Inconsistency"
proof (cases "val \<in> dom_set d t")
  case False
  then show ?thesis using fx b by (simp add: dom_fix_def contains_ok [OF ok])
next
  case True
  obtain hs hl em ah where m: "d_map d = Bounds hs hl em ah" using b by (rule bounds_cases)
  have ne: "dom_set d t \<noteq> {}" using True by auto
  note h = bounds_handles [OF ok m] and n = bounds_now [OF ok m ne]
  let ?t' = "trail_set (trail_set (trail_set t (d_min d) val) (d_max d) val) ah 0"
  have vals: "t_values ?t' = (t_values t)[d_min d := val, d_max d := val, ah := 0]" by (simp add: trail_simps)
  have nh: "filter (\<lambda>h. val \<le> h \<and> h \<le> val) (take (nat (t_values t ! hl)) hs) = []"
    using True n(3) hole_ok [OF ok m] by (auto simp: filter_empty_conv)
  have "dom_step d t d ?t' {x \<in> dom_set d t. val \<le> x \<and> x \<le> val}"
  proof (rule rebound_ok [OF ok m ne True True])
    show "trail_writes (set (handle_list d)) t ?t'"
      using h by (intro trail_writes_set trail_writes_refl dom_ok_trail [OF ok]) auto
  qed (use h n(7) nh vals in auto)
  moreover have "{x \<in> dom_set d t. val \<le> x \<and> x \<le> val} = {val}" using True by auto
  ultimately show ?thesis
    using fx b True by (auto simp: dom_fix_def contains_ok [OF ok] m Let_def)
qed

end
