(* ===== verification/IntDomainContract.thy ===== *)
theory IntDomainContract imports IntDomainOps IntDomainHoles begin

text \<open>
  The contract of \<open>IntDomain\<close> as its clients see it, whatever the storage form: the
  constructors establish the invariant, every operation is the set operation it is named
  after, levels can be pushed and popped around any sequence of operations, and writes to
  other handles of the same trail do not disturb the domain.
\<close>

section \<open>Operations, for every storage form\<close>

lemma dom_remove_step:
  assumes ok: "dom_ok d t" and room: "hole_room d t" and rem: "dom_remove d val t = (d', t', ch)"
  shows "dom_step d t d' t' (dom_set d t - {val}) \<and> (ch \<longleftrightarrow> val \<in> dom_set d t)"
proof (cases "dom_is_bounds d")
  case True
  with rem have "dom_remove_bounds d val t = (d', t', ch)" by (simp add: dom_remove_def)
  from dom_remove_bounds_ok [OF ok True room this] show ?thesis .
next
  case False
  from dom_remove_indexed [OF ok False rem] show ?thesis .
qed

lemma dom_fix_step:
  assumes "dom_ok d t" "dom_fix d val t = (d', t', r)"
  shows "if val \<in> dom_set d t
    then dom_step d t d' t' {val} \<and> r = Ok (dom_size d t > 1)
    else d' = d \<and> t' = t \<and> r = Err Inconsistency"
  using assms dom_fix_indexed dom_fix_bounds by (cases "dom_is_bounds d") blast+

lemma below_min: "dom_ok d t \<Longrightarrow> x \<in> dom_set d t \<Longrightarrow> dom_min d t \<le> x \<and> x \<le> dom_max d t"
  using min_max_ok [of d t] by (metis Max_ge Min_le empty_iff finite_dom_set)

lemma dom_remove_below_step:
  assumes ok: "dom_ok d t" and i32: "in_i32 bound" and rem: "dom_remove_below d bound t = (d', t', ch)"
  shows "dom_step d t d' t' {x \<in> dom_set d t. bound \<le> x} \<and> (ch \<longleftrightarrow> (\<exists>x \<in> dom_set d t. x < bound))"
proof (cases "dom_size d t = 0 \<or> bound \<le> dom_min d t")
  case True
  have "bound \<le> x" if "x \<in> dom_set d t" for x
    using True that below_min [OF ok that] size_zero [OF ok] by auto
  then have "dom_set d t = {x \<in> dom_set d t. bound \<le> x}" "\<not> (\<exists>x \<in> dom_set d t. x < bound)"
    by force+
  with True rem dom_step_refl [OF ok] show ?thesis by (simp add: dom_remove_below_def)
next
  case False
  then have ne: "dom_set d t \<noteq> {}" and bd: "dom_min d t < bound" using size_zero [OF ok] by auto
  have mn: "dom_min d t \<in> dom_set d t" using min_max_ok(1)[OF ok ne] ne by simp
  show ?thesis
  proof (cases "d_map d")
    case (Dense off rv)
    then have nb: "\<not> dom_is_bounds d" by (simp add: dom_is_bounds_def)
    have lp: "dense_below_loop d t (dom_min d t) bound False = (d', t', ch)"
      using rem False Dense by (simp add: dom_remove_below_def)
    have "{x \<in> dom_set d t. \<not> (dom_min d t \<le> x \<and> x < bound)} = {x \<in> dom_set d t. bound \<le> x}"
      using below_min [OF ok] by force
    then show ?thesis
      using dense_below_loop_ok [OF ok nb dom_set_i32 [OF ok mn] i32 lp] below_min [OF ok] by auto
  next
    case (Sparse vs)
    then have nb: "\<not> dom_is_bounds d" by (simp add: dom_is_bounds_def)
    show ?thesis
      using dom_remove_if_ok [OF ok nb, of "\<lambda>v. v < bound" d' t' ch] rem False Sparse
      by (simp add: dom_remove_below_def not_less)
  next
    case (Bounds hs hl em ah)
    then have b: "dom_is_bounds d" by (simp add: dom_is_bounds_def)
    show ?thesis
      using dom_remove_bounds_below_ok [OF ok b ne bd, of d' t' ch] rem False Bounds mn bd
      by (auto simp: dom_remove_below_def)
  qed
qed

lemma dom_remove_above_step:
  assumes ok: "dom_ok d t" and i32: "in_i32 bound" and rem: "dom_remove_above d bound t = (d', t', ch)"
  shows "dom_step d t d' t' {x \<in> dom_set d t. x \<le> bound} \<and> (ch \<longleftrightarrow> (\<exists>x \<in> dom_set d t. bound < x))"
proof (cases "dom_size d t = 0 \<or> bound \<ge> dom_max d t")
  case True
  have "x \<le> bound" if "x \<in> dom_set d t" for x
    using True that below_min [OF ok that] size_zero [OF ok] by auto
  then have "dom_set d t = {x \<in> dom_set d t. x \<le> bound}" "\<not> (\<exists>x \<in> dom_set d t. bound < x)"
    by force+
  with True rem dom_step_refl [OF ok] show ?thesis by (simp add: dom_remove_above_def)
next
  case False
  then have ne: "dom_set d t \<noteq> {}" and bd: "bound < dom_max d t" using size_zero [OF ok] by auto
  have mx: "dom_max d t \<in> dom_set d t" using min_max_ok(2)[OF ok ne] ne by simp
  show ?thesis
  proof (cases "d_map d")
    case (Dense off rv)
    then have nb: "\<not> dom_is_bounds d" by (simp add: dom_is_bounds_def)
    have lp: "dense_above_loop d t (dom_max d t) bound False = (d', t', ch)"
      using rem False Dense by (simp add: dom_remove_above_def)
    have "{x \<in> dom_set d t. \<not> (bound < x \<and> x \<le> dom_max d t)} = {x \<in> dom_set d t. x \<le> bound}"
      using below_min [OF ok] by force
    then show ?thesis
      using dense_above_loop_ok [OF ok nb dom_set_i32 [OF ok mx] i32 lp] below_min [OF ok] by auto
  next
    case (Sparse vs)
    then have nb: "\<not> dom_is_bounds d" by (simp add: dom_is_bounds_def)
    show ?thesis
      using dom_remove_if_ok [OF ok nb, of "\<lambda>v. v > bound" d' t' ch] rem False Sparse
      by (simp add: dom_remove_above_def not_less)
  next
    case (Bounds hs hl em ah)
    then have b: "dom_is_bounds d" by (simp add: dom_is_bounds_def)
    show ?thesis
      using dom_remove_bounds_above_ok [OF ok b ne bd, of d' t' ch] rem False Bounds mx bd
      by (auto simp: dom_remove_above_def)
  qed
qed

section \<open>Levels\<close>

lemma history_push: "history (trail_push_level t) = t_values t # history t"
  by (simp add: history_def trail_simps)

lemma vset_same: "vset d (t_values t) = dom_set d t"
  by (simp add: dom_set_def)

lemma dom_ok_push:
  assumes ok: "dom_ok d t"
  shows "dom_ok d (trail_push_level t)" "dom_set d (trail_push_level t) = dom_set d t"
proof -
  have "sorted_wrt (dom_le d) (t_values t # history t)"
    using ok by (auto simp: dom_ok_def history_def dom_le_def)
  then show "dom_ok d (trail_push_level t)"
    using ok trail_ok_push [of t] dom_ok_current [OF ok] by (simp add: dom_ok_def history_push trail_simps)
  show "dom_set d (trail_push_level t) = dom_set d t" by (simp add: dom_set_def trail_simps)
qed

lemma pop_history: "\<lbrakk>trail_ok t; trail_pop_level t = Some t'\<rbrakk> \<Longrightarrow> history t' = snapshots t"
  by (simp add: history_def trail_pop_view)

lemma pop_length:
  assumes "trail_pop_level t = Some t'"
  shows "length (t_values t') = length (t_values t)"
  using assms by (rule trail_pop_fields) (simp add: snapshot_at_def)

lemma dom_ok_pop:
  assumes ok: "dom_ok d t" and pop: "trail_pop_level t = Some t'"
  shows "dom_ok d t'" "map (vset d) (snapshots t) = dom_set d t' # map (vset d) (snapshots t')"
proof -
  have h: "history t' = snapshots t" using pop_history [OF dom_ok_trail [OF ok] pop] .
  then show "dom_ok d t'"
    using ok trail_ok_pop [OF dom_ok_trail [OF ok] pop] pop_length [OF pop]
    by (simp add: dom_ok_def history_def [of t])
  show "map (vset d) (snapshots t) = dom_set d t' # map (vset d) (snapshots t')"
    unfolding h [symmetric] by (simp add: history_def dom_set_def)
qed

section \<open>The domain keeps the backtracking contract\<close>

datatype dom_op = Remove int | Fix int | Below int | Above int

fun dom_apply :: "dom_op \<Rightarrow> domain \<times> trail \<Rightarrow> domain \<times> trail" where
  "dom_apply (Remove v) (d, t) = (case dom_remove d v t of (d', t', _) \<Rightarrow> (d', t'))"
| "dom_apply (Fix v) (d, t) = (case dom_fix d v t of (d', t', _) \<Rightarrow> (d', t'))"
| "dom_apply (Below b) (d, t) = (case dom_remove_below d b t of (d', t', _) \<Rightarrow> (d', t'))"
| "dom_apply (Above b) (d, t) = (case dom_remove_above d b t of (d', t', _) \<Rightarrow> (d', t'))"

fun set_apply :: "dom_op \<Rightarrow> int set \<Rightarrow> int set" where
  "set_apply (Remove v) S = S - {v}"
| "set_apply (Fix v) S = (if v \<in> S then {v} else S)"
| "set_apply (Below b) S = {x \<in> S. b \<le> x}"
| "set_apply (Above b) S = {x \<in> S. x \<le> b}"

text \<open>The arguments are \<open>i32\<close> values, and an interior removal has room for its hole.\<close>

fun dom_can :: "dom_op \<Rightarrow> domain \<times> trail \<Rightarrow> bool" where
  "dom_can (Remove v) (d, t) = (in_i32 v \<and> hole_room d t)"
| "dom_can (Fix v) (d, t) = in_i32 v"
| "dom_can (Below b) (d, t) = in_i32 b"
| "dom_can (Above b) (d, t) = in_i32 b"

definition dom_push :: "domain \<times> trail \<Rightarrow> domain \<times> trail" where
  "dom_push s = (fst s, trail_push_level (snd s))"

definition dom_pop :: "domain \<times> trail \<Rightarrow> (domain \<times> trail) option" where
  "dom_pop s = (case trail_pop_level (snd s) of None \<Rightarrow> None | Some t' \<Rightarrow> Some (fst s, t'))"

definition dom_inv :: "domain \<times> trail \<Rightarrow> bool" where
  "dom_inv s \<longleftrightarrow> dom_ok (fst s) (snd s)"

definition dom_view :: "domain \<times> trail \<Rightarrow> int set" where
  "dom_view s = dom_set (fst s) (snd s)"

definition dom_saved :: "domain \<times> trail \<Rightarrow> int set list" where
  "dom_saved s = map (vset (fst s)) (snapshots (snd s))"

lemma dom_step_saved:
  "dom_step d t d' t' S \<Longrightarrow>
     dom_inv (d', t') \<and> dom_view (d', t') = S \<and> dom_saved (d', t') = dom_saved (d, t)"
  by (auto simp: dom_step_def dom_inv_def dom_view_def dom_saved_def trail_writes_def)

lemma dom_apply_step:
  assumes ok: "dom_ok d t" and can: "dom_can c (d, t)"
  shows "\<exists>d' t'. dom_apply c (d, t) = (d', t') \<and> dom_step d t d' t' (set_apply c (dom_set d t))"
proof (cases c)
  case (Remove v)
  obtain d' t' ch where r: "dom_remove d v t = (d', t', ch)" by (metis prod_cases3)
  then show ?thesis using dom_remove_step [OF ok _ r] can Remove by simp
next
  case (Fix v)
  obtain d' t' ch where r: "dom_fix d v t = (d', t', ch)" by (metis prod_cases3)
  then show ?thesis using dom_fix_step [OF ok r] Fix dom_step_refl [OF ok refl] by (auto split: if_splits)
next
  case (Below b)
  obtain d' t' ch where r: "dom_remove_below d b t = (d', t', ch)" by (metis prod_cases3)
  then show ?thesis using dom_remove_below_step [OF ok _ r] can Below by simp
next
  case (Above b)
  obtain d' t' ch where r: "dom_remove_above d b t = (d', t', ch)" by (metis prod_cases3)
  then show ?thesis using dom_remove_above_step [OF ok _ r] can Above by simp
qed

interpretation idom: backtrackable dom_inv dom_view dom_saved dom_can dom_apply set_apply dom_push dom_pop
proof
  show "dom_inv (dom_apply c s) \<and> dom_view (dom_apply c s) = set_apply c (dom_view s) \<and>
      dom_saved (dom_apply c s) = dom_saved s" if inv: "dom_inv s" and can: "dom_can c s" for s c
  proof -
    obtain d t where s: "s = (d, t)" by (cases s)
    with inv can dom_apply_step [of d t c] dom_step_saved show ?thesis
      by (fastforce simp: dom_inv_def dom_view_def)
  qed
  show "dom_inv (dom_push s) \<and> dom_view (dom_push s) = dom_view s \<and>
      dom_saved (dom_push s) = dom_view s # dom_saved s" if "dom_inv s" for s
    using that dom_ok_push [of "fst s" "snd s"]
    by (simp add: dom_inv_def dom_push_def dom_view_def dom_saved_def trail_simps vset_same)
  show "case dom_pop s of None \<Rightarrow> dom_saved s = []
      | Some s' \<Rightarrow> dom_inv s' \<and> dom_saved s = dom_view s' # dom_saved s'" if "dom_inv s" for s
    using that trail_pop_Some [of "snd s"] dom_ok_pop [of "fst s" "snd s"]
    by (auto simp: dom_inv_def dom_pop_def dom_view_def dom_saved_def split: option.splits)
qed

section \<open>Other handles of the same trail\<close>

lemma vset_cong:
  "(\<And>r. r \<in> set (handle_list d) \<Longrightarrow> s' ! r = s ! r) \<Longrightarrow> vset d s' = vset d s"
  by (auto simp: vset_def handle_list_def split: value_map.splits)

lemma dom_at_cong:
  assumes "\<And>r. r \<in> set (handle_list d) \<Longrightarrow> s' ! r = s ! r"
  shows "dom_at d s' = dom_at d s"
proof -
  have v: "vset d s' = vset d s" using vset_cong [OF assms] by blast
  show ?thesis
    using assms by (cases "d_map d") (simp_all add: dom_at_def handle_list_def v)
qed

lemma rank_cong:
  "(\<And>r. r \<in> set (handle_list d) \<Longrightarrow> s' ! r = s ! r) \<Longrightarrow> rank d s' = rank d s"
  by (auto simp: rank_def handle_list_def split: value_map.splits)

lemma dom_frame:
  assumes ok: "dom_ok d t" and tw: "trail_writes H t t'" and disj: "H \<inter> set (handle_list d) = {}"
  shows "dom_ok d t'" "dom_set d t' = dom_set d t"
proof -
  have same: "t_values t' ! r = t_values t ! r" if "r \<in> set (handle_list d)" for r
    using tw disj that by (auto simp: trail_writes_def)
  note c = vset_cong [of d "t_values t'" "t_values t", OF same]
    dom_at_cong [of d "t_values t'" "t_values t", OF same] rank_cong [of d "t_values t'" "t_values t", OF same]
  show "dom_set d t' = dom_set d t" by (simp add: dom_set_def c)
  have "snapshots t' = snapshots t" "trail_ok t'" "length (t_values t') = length (t_values t)"
    using tw by (simp_all add: trail_writes_def)
  then show "dom_ok d t'"
    using ok by (simp add: dom_ok_def history_def c dom_le_def)
qed

text \<open>Registering another reversible integer.\<close>

lemma history_new_int:
  "trail_ok t \<Longrightarrow> history (fst (trail_new_int t v)) = map (\<lambda>s. s @ [v]) (history t)"
  by (simp add: history_def trail_simps)

lemma history_lengths: "s \<in> set (history t) \<Longrightarrow> length s = length (t_values t)"
  by (auto simp: history_def snapshots_def snapshot_at_def)

lemma dom_ok_new_int:
  assumes ok: "dom_ok d t"
  shows "dom_ok d (fst (trail_new_int t v))" "dom_set d (fst (trail_new_int t v)) = dom_set d t"
proof -
  have nth: "(s @ [v]) ! r = s ! r" if "s \<in> set (history t)" "r \<in> set (handle_list d)" for s r
    using that history_lengths dom_ok_static [OF ok] by (auto simp: dom_static_def nth_append)
  have c: "vset d (s @ [v]) = vset d s" "dom_at d (s @ [v]) = dom_at d s" "rank d (s @ [v]) = rank d s"
    if "s \<in> set (history t)" for s
    using nth [OF that] vset_cong [of d "s @ [v]" s] dom_at_cong [of d "s @ [v]" s]
      rank_cong [of d "s @ [v]" s] by blast+
  have cur: "t_values t \<in> set (history t)" by (simp add: history_def)
  show "dom_set d (fst (trail_new_int t v)) = dom_set d t"
    using c(1)[OF cur] by (simp add: dom_set_def trail_simps)
  have "sorted_wrt (\<lambda>x y. dom_le d (x @ [v]) (y @ [v])) (history t)"
  proof (rule sorted_wrt_mono_rel)
    show "sorted_wrt (dom_le d) (history t)" using ok by (simp add: dom_ok_def)
    show "dom_le d (x @ [v]) (y @ [v])"
      if "x \<in> set (history t)" "y \<in> set (history t)" "dom_le d x y" for x y
      using that(3) unfolding dom_le_def c [OF that(1)] c [OF that(2)] .
  qed
  moreover have "dom_static d (Suc (length (t_values t)))"
    using dom_ok_static [OF ok] by (auto simp: dom_static_def)
  moreover have "\<forall>s \<in> set (history t). dom_at d (s @ [v])"
    using ok c(2) unfolding dom_ok_def by blast
  ultimately show "dom_ok d (fst (trail_new_int t v))"
    using dom_ok_trail [OF ok] trail_ok_new_int [of t v]
    by (simp add: dom_ok_def history_new_int trail_simps sorted_wrt_map)
qed

section \<open>Construction\<close>

text \<open>A domain whose handles are fresh has one state for the whole history.\<close>

lemma fresh_domain_ok:
  assumes tr: "trail_ok t'" and st: "dom_static d (length (t_values t'))"
    and same: "\<And>s r. s \<in> set (history t') \<Longrightarrow> r \<in> set (handle_list d) \<Longrightarrow> s ! r = t_values t' ! r"
    and at: "dom_at d (t_values t')"
  shows "dom_ok d t'"
proof -
  have c: "vset d s = vset d (t_values t')" "dom_at d s = dom_at d (t_values t')"
    "rank d s = rank d (t_values t')" if "s \<in> set (history t')" for s
    using same [OF that] vset_cong [of d s] dom_at_cong [of d s] rank_cong [of d s] by blast+
  have "sorted_wrt (dom_le d) (history t')"
    by (rule sorted_wrt_mono_rel [of _ "\<lambda>_ _. True"]) (auto simp: dom_le_def c)
  then show ?thesis using tr st at c(2) by (simp add: dom_ok_def)
qed

fun new_ints :: "trail \<Rightarrow> int list \<Rightarrow> trail" where
  "new_ints t [] = t"
| "new_ints t (v # vs) = new_ints (fst (trail_new_int t v)) vs"

lemma new_ints_ok:
  "trail_ok t \<Longrightarrow> trail_ok (new_ints t vs) \<and> t_values (new_ints t vs) = t_values t @ vs \<and>
     history (new_ints t vs) = map (\<lambda>s. s @ vs) (history t)"
  by (induction t vs rule: new_ints.induct) (simp_all add: trail_ok_new_int trail_simps history_new_int)

lemma new_int_pair: "trail_new_int t v = (fst (trail_new_int t v), length (t_values t))"
  by (simp add: trail_new_int_def)

text \<open>The three counters of an indexed domain, on fresh handles.\<close>

lemma fresh_indexed_ok:
  assumes tr: "trail_ok t" and n: "n = length (t_values t)"
    and d: "d_size d = n" "d_min d = n + 1" "d_max d = n + 2" "\<not> dom_is_bounds d"
    and st: "dom_static d (n + 3)" and sz: "k \<le> length (d_dense d)"
    and S: "prefix_set d k = S" "S \<noteq> {}" "Min S = lo" "Max S = hi" "in_i32 lo" "in_i32 hi"
  shows "dom_ok d (new_ints t [int k, lo, hi]) \<and> dom_set d (new_ints t [int k, lo, hi]) = S"
proof -
  let ?t = "new_ints t [int k, lo, hi]"
  note ni = new_ints_ok [OF tr, of "[int k, lo, hi]"]
  have nth: "(s @ [int k, lo, hi]) ! n = int k" "(s @ [int k, lo, hi]) ! (n + 1) = lo"
    "(s @ [int k, lo, hi]) ! (n + 2) = hi" if "length s = n" for s
    using that by (simp_all add: nth_append)
  have cur: "t_values ?t ! n = int k" "t_values ?t ! (n + 1) = lo" "t_values ?t ! (n + 2) = hi"
    using ni nth n by auto
  have v: "vset d (t_values ?t) = S" using cur S(1) by (simp add: vset_indexed [OF d(4)] d)
  have fin: "finite S" using S(1) by auto
  have "lo \<in> S" "hi \<in> S" "x \<in> S \<Longrightarrow> lo \<le> x \<and> x \<le> hi" for x
    using S Min_in [OF fin] Max_in [OF fin] fin by auto
  then have "dom_at d (t_values ?t)"
    using cur d(4) sz S(5,6) by (intro indexed_atI) (simp_all add: v d(1-3) del: new_ints.simps)
  moreover have "s ! r = t_values ?t ! r" if s: "s \<in> set (history ?t)" and r: "r \<in> set (handle_list d)" for s r
  proof -
    obtain s0 where "s = s0 @ [int k, lo, hi]" "length s0 = n" using s ni history_lengths n by auto
    then show ?thesis using r nth cur by (auto simp: handles_indexed [OF d(4)] d)
  qed
  moreover have "dom_static d (length (t_values ?t))" using st n ni by (simp add: eval_nat_numeral)
  ultimately have "dom_ok d ?t" using fresh_domain_ok ni by blast
  with v show ?thesis by (simp add: dom_set_def)
qed

end
