(* ===== verification/IntDomainNew.thy ===== *)
theory IntDomainNew imports IntDomainContract begin

text \<open>
  The constructors of \<open>src/src/domains/int.rs\<close>: every storage form represents the set it
  was asked for and satisfies the invariant. The partition and inversion loops of the
  dense-set form are shown to build a permutation and its inverse.
\<close>

section \<open>The partition and inversion loops\<close>

lemma partition_loop_eq:
  "\<lbrakk>dense = A @ J @ B @ K; length A = front; length J = length (filter snd ps);
     bk = length (A @ J @ B); length K = length (filter (Not \<circ> snd) ps)\<rbrakk> \<Longrightarrow>
   partition_loop ps dense front bk =
     A @ map fst (filter snd ps) @ B @ map fst (filter (Not \<circ> snd) ps)"
proof (induction ps dense front bk arbitrary: A J B K
    rule: partition_loop.induct)
  case (2 idx present rest dense front bk)
  show ?case
  proof (cases present)
    case True
    with "2.prems" obtain j J' where J: "J = j # J'" by (cases J) auto
    have "dense[front := idx] = (A @ [idx]) @ J' @ B @ K"
      using "2.prems"(1,2) J by (simp add: list_update_append)
    from "2.IH"(1)[OF True this] True J "2.prems" show ?thesis by simp
  next
    case False
    with "2.prems" obtain k K' where K: "K = k # K'" by (cases K) auto
    have "dense[bk := idx] = A @ J @ (B @ [idx]) @ K'"
      using "2.prems"(1,4) K by (simp add: list_update_append)
    from "2.IH"(2)[OF False this] False K "2.prems" show ?thesis by simp
  qed
qed simp

lemma length_fold_update [simp]:
  "length (fold (\<lambda>(p, i) sp. sp[i := p]) xs sp) = length sp"
  by (induction xs arbitrary: sp) auto

lemma fold_update_other:
  "i \<notin> snd ` set xs \<Longrightarrow> fold (\<lambda>(p, i) sp. sp[i := p]) xs sp ! i = sp ! i"
  by (induction xs arbitrary: sp) auto

lemma fold_update_nth:
  "\<lbrakk>distinct (map snd xs); (p, i) \<in> set xs; i < length sp\<rbrakk> \<Longrightarrow>
     fold (\<lambda>(p, i) sp. sp[i := p]) xs sp ! i = p"
proof (induction xs arbitrary: sp)
  case (Cons x xs)
  then show ?case by (cases x) (auto simp: fold_update_other rev_image_eqI)
qed simp

lemma invert_dense_perm:
  assumes dist: "distinct dense" and set: "set dense = {..<length dense}"
  shows "perm_ok dense (invert_dense dense (length dense))"
proof -
  let ?s = "invert_dense dense (length dense)"
  have inv: "?s ! (dense ! p) = p" if "p < length dense" for p
    unfolding invert_dense_def
  proof (rule fold_update_nth)
    show "distinct (map snd (enumerate 0 dense))" using dist by simp
    show "(p, dense ! p) \<in> set (enumerate 0 dense)" using that by (simp add: in_set_enumerate_eq)
    show "dense ! p < length (replicate (length dense) 0)" using that set nth_mem by fastforce
  qed
  have "\<exists>p < length dense. dense ! p = i" if "i < length dense" for i
    using that set by (metis in_set_conv_nth lessThan_iff)
  then have "?s ! i < length dense \<and> dense ! (?s ! i) = i" if "i < length dense" for i
    using that inv by metis
  moreover have "dense ! p < length dense" if "p < length dense" for p
    using that set nth_mem by fastforce
  ultimately show ?thesis using inv by (simp add: perm_ok_def invert_dense_def)
qed

lemma present_fold:
  "\<lbrakk>\<forall>v \<in> set vs. lo \<le> v \<and> v - lo < 18446744073709551616; i < length ps; length ps < 18446744073709551616\<rbrakk> \<Longrightarrow>
   fold (\<lambda>v p. p[as_usize (v - lo) := True]) vs ps ! i \<longleftrightarrow> ps ! i \<or> lo + int i \<in> set vs"
proof (induction vs arbitrary: ps)
  case (Cons v vs)
  have "as_usize (v - lo) = nat (v - lo)" using Cons.prems(1) by (simp add: as_usize_id)
  moreover have "i = nat (v - lo) \<longleftrightarrow> lo + int i = v" using Cons.prems(1) by auto
  ultimately show ?case using Cons by (auto simp: nth_list_update)
qed simp

lemma length_present_fold [simp]:
  "length (fold (\<lambda>v p. p[f v := True]) vs ps) = length ps"
  by (induction vs arbitrary: ps) auto

section \<open>The constructors\<close>

lemma identity_perm: "perm_ok [0..<n] [0..<n]"
  by (simp add: perm_ok_def)

lemma dense_values:
  assumes "d_map d = Dense lo rv" "\<forall>i \<in> set (take k (d_dense d)). in_i32 (lo + int i)"
  shows "prefix_set d k = (\<lambda>i. lo + int i) ` set (take k (d_dense d))"
  using assms by (auto simp: prefix_set_def dom_value_of_def as_i32_id)

lemma Min_Max_range: "lo \<le> hi \<Longrightarrow> Min {lo..hi} = lo \<and> Max {lo..hi} = (hi :: int)"
  by (auto intro!: Min_eqI Max_eqI)

lemma range_image: "lo \<le> hi \<Longrightarrow> (\<lambda>i. lo + int i) ` {0..<nat (hi - lo + 1)} = {lo..hi}"
proof (rule set_eqI, rule iffI)
  fix x assume "lo \<le> hi" "x \<in> {lo..hi}"
  then have "x = lo + int (nat (x - lo))" "nat (x - lo) \<in> {0..<nat (hi - lo + 1)}" by auto
  then show "x \<in> (\<lambda>i. lo + int i) ` {0..<nat (hi - lo + 1)}" by blast
qed auto

lemma trail3: "trail_new_int t a = (t1, r1) \<Longrightarrow> trail_new_int t1 b = (t2, r2) \<Longrightarrow>
    trail_new_int t2 c = (t3, r3) \<Longrightarrow>
  t3 = new_ints t [a, b, c] \<and> r1 = length (t_values t) \<and> r2 = length (t_values t) + 1 \<and>
  r3 = length (t_values t) + 2"
  by (auto simp: trail_new_int_def)

lemma from_dense_range_ok:
  assumes tr: "trail_ok t" and lh: "lo \<le> hi" "in_i32 lo" "in_i32 hi"
    and n: "n = span_len lo hi" "n \<le> max_dense_range_values"
    and res: "dom_from_dense_range lo hi n t = (d, t')"
  shows "dom_ok d t' \<and> dom_set d t' = {lo..hi}"
proof -
  let ?m = "length (t_values t)"
  have n32: "as_i32 (int n) = int n" using n(2) by (simp add: as_i32_small_nat max_dense_range_values_def)
  obtain t1 s t2 mn t3 mx where tr3: "trail_new_int t (int n) = (t1, s)" "trail_new_int t1 lo = (t2, mn)"
    "trail_new_int t2 hi = (t3, mx)" by fastforce
  note e = trail3 [OF tr3]
  have d: "d = \<lparr>d_map = Dense lo None, d_dense = [0..<n], d_sparse = [0..<n], d_size = ?m,
      d_min = ?m + 1, d_max = ?m + 2\<rparr>" and t': "t' = new_ints t [int n, lo, hi]"
    using res tr3 e n32 by (simp_all add: dom_from_dense_range_def Let_def del: new_ints.simps)
  have in32: "in_i32 (lo + int i)" if "i < n" for i
    using that lh n(1) by (auto simp: in_i32_def span_len_def)
  have "dom_static d (?m + 3)"
    using in32 n(2) identity_perm [of n]
    by (auto simp: d dom_static_def handle_list_def max_dense_range_values_def i32_max_def)
  moreover have "prefix_set d n = {lo..hi}"
    using dense_values [of d lo None n] in32 range_image [OF lh(1)] n(1) by (simp add: d span_len_def)
  ultimately show ?thesis
    unfolding t' using lh tr Min_Max_range [OF lh(1)]
    by (intro fresh_indexed_ok [where n = ?m]) (simp_all add: d dom_is_bounds_def)
qed

lemma sorted_hd_last:
  assumes "sorted vs" "vs \<noteq> ([] :: int list)"
  shows "Min (set vs) = hd vs" "Max (set vs) = last vs"
proof -
  show "Min (set vs) = hd vs"
    using assms by (cases vs) (auto intro!: Min_eqI)
  have "x \<le> last vs" if "x \<in> set vs" for x
    using assms(1) that by (induction vs) auto
  then show "Max (set vs) = last vs" using assms(2) by (intro Max_eqI) auto
qed

lemma from_sparse_set_ok:
  assumes tr: "trail_ok t" and vs: "vs \<noteq> []" "sorted vs" "distinct vs" "\<forall>v \<in> set vs. in_i32 v"
    and res: "dom_from_sparse_set vs t = Some (d, t')"
  shows "dom_ok d t' \<and> dom_set d t' = set vs"
proof -
  let ?m = "length (t_values t)" and ?n = "length vs"
  have n: "int ?n \<le> i32_max" using res by (simp add: dom_from_sparse_set_def split: if_splits)
  then have n32: "as_i32 (int ?n) = int ?n" by (simp add: as_i32_small_nat i32_max_def)
  obtain t1 s t2 mn t3 mx where tr3: "trail_new_int t (int ?n) = (t1, s)"
    "trail_new_int t1 (hd vs) = (t2, mn)" "trail_new_int t2 (last vs) = (t3, mx)" by fastforce
  note e = trail3 [OF tr3]
  have d: "d = \<lparr>d_map = Sparse vs, d_dense = [0..<?n], d_sparse = [0..<?n], d_size = ?m,
      d_min = ?m + 1, d_max = ?m + 2\<rparr>" and t': "t' = new_ints t [int ?n, hd vs, last vs]"
    using res tr3 e n32 by (auto simp: dom_from_sparse_set_def Let_def split: if_splits simp del: new_ints.simps)
  have "dom_static d (?m + 3)"
    using n vs identity_perm [of ?n] by (auto simp: d dom_static_def handle_list_def)
  moreover have "prefix_set d ?n = set vs"
    using nth_image [of ?n vs] by (simp add: d prefix_set_def dom_value_of_def)
  ultimately show ?thesis
    unfolding t' using vs tr sorted_hd_last [OF vs(2,1)]
    by (intro fresh_indexed_ok [where n = ?m]) (simp_all add: d dom_is_bounds_def)
qed

text \<open>The arrays of the dense-set form.\<close>

definition set_present :: "int list \<Rightarrow> int \<Rightarrow> nat \<Rightarrow> bool list" where
  "set_present vs lo span = fold (\<lambda>v p. p[as_usize (v - lo) := True]) vs (replicate span False)"

lemma enumerate_filter:
  "map fst (filter (P \<circ> snd) (enumerate 0 xs)) = filter (\<lambda>i. P (xs ! i)) [0..<length xs]"
proof -
  have "enumerate 0 xs = map (\<lambda>i. (i, xs ! i)) [0..<length xs]"
    by (intro nth_equalityI) (auto simp: nth_enumerate_eq)
  then show ?thesis by (simp add: filter_map comp_def)
qed

lemma partition_present:
  fixes ps :: "bool list"
  assumes n: "n = length (filter (\<lambda>i. ps ! i) [0..<length ps])"
  shows "partition_loop (enumerate 0 ps) (replicate (length ps) 0) 0 n =
    filter (\<lambda>i. ps ! i) [0..<length ps] @ filter (\<lambda>i. \<not> ps ! i) [0..<length ps]"
proof -
  let ?L = "length ps"
  have t: "map fst (filter snd (enumerate 0 ps)) = filter (\<lambda>i. ps ! i) [0..<?L]"
    using enumerate_filter [of "\<lambda>b. b" ps] by (simp add: comp_def)
  have f: "map fst (filter (Not \<circ> snd) (enumerate 0 ps)) = filter (\<lambda>i. \<not> ps ! i) [0..<?L]"
    by (rule enumerate_filter)
  have len: "length (filter snd (enumerate 0 ps)) = n"
    "length (filter (Not \<circ> snd) (enumerate 0 ps)) = ?L - n"
    using arg_cong [OF t, of length] arg_cong [OF f, of length]
      sum_length_filter_compl [of "\<lambda>i. ps ! i" "[0..<?L]"] n by simp_all
  have nL: "n \<le> ?L" using n length_filter_le [of _ "[0..<?L]"] by (metis diff_zero length_upt)
  have "partition_loop (enumerate 0 ps) (replicate ?L 0) 0 n =
      [] @ map fst (filter snd (enumerate 0 ps)) @ [] @ map fst (filter (Not \<circ> snd) (enumerate 0 ps))"
    by (rule partition_loop_eq [where J = "replicate n 0" and K = "replicate (?L - n) 0"])
      (simp_all add: len nL replicate_add [symmetric])
  then show ?thesis by (simp only: t f append_Nil)
qed

lemma from_dense_set_ok:
  assumes tr: "trail_ok t" and vs: "vs \<noteq> []" "sorted vs" "distinct vs" "\<forall>v \<in> set vs. in_i32 v"
    and lh: "lo = hd vs" "hi = last vs" and span: "span = span_len lo hi" "span \<le> max_dense_set_span"
    and res: "dom_from_dense_set vs lo hi span t = (d, t')"
  shows "dom_ok d t' \<and> dom_set d t' = set vs"
proof -
  let ?m = "length (t_values t)" and ?n = "length vs" and ?ps = "set_present vs lo span"
  let ?in = "filter (\<lambda>i. ?ps ! i) [0..<span]" and ?out = "filter (\<lambda>i. \<not> ?ps ! i) [0..<span]"
  have mm: "lo \<le> v \<and> v \<le> hi" if "v \<in> set vs" for v
    using sorted_hd_last [OF vs(2,1)] that lh by (metis List.finite_set Max_ge Min_le)
  have lohi: "lo \<le> hi" "in_i32 lo" "in_i32 hi" using mm vs(1,4) lh by (auto simp: in_i32_def)
  have lps: "length ?ps = span" by (simp add: set_present_def)
  have ps: "?ps ! i \<longleftrightarrow> lo + int i \<in> set vs" if "i < span" for i
    unfolding set_present_def
    by (subst present_fold) (use that mm lohi span(2) in \<open>auto simp: max_dense_set_span_def in_i32_def i32_min_def i32_max_def\<close>, force)
  have img: "(\<lambda>i. lo + int i) ` set ?in = set vs"
  proof -
    have "v \<in> (\<lambda>i. lo + int i) ` {0..<span}" if "v \<in> set vs" for v
      unfolding span span_len_def range_image [OF lohi(1)] using mm [OF that] by simp
    then show ?thesis using ps by (fastforce simp: image_iff)
  qed
  have n: "?n = length ?in"
  proof -
    have "inj_on (\<lambda>i. lo + int i) (set ?in)" by (simp add: inj_on_def)
    from card_image [OF this] have "card (set vs) = card (set ?in)" by (simp only: img)
    then show ?thesis using distinct_card [OF vs(3)] distinct_card [of ?in] by simp
  qed
  have nL: "?n \<le> span" using length_filter_le [of _ "[0..<span]"] n by (metis diff_zero length_upt)
  then have n32: "as_i32 (int ?n) = int ?n"
    using span(2) by (simp add: as_i32_small_nat max_dense_set_span_def)
  let ?D = "?in @ ?out"
  have dense: "partition_loop (enumerate 0 ?ps) (replicate span 0) 0 ?n = ?D"
    using partition_present [of ?n ?ps] n by (simp add: lps)
  have len: "length ?D = span"
    using sum_length_filter_compl [of "\<lambda>i. ?ps ! i" "[0..<span]"] by simp
  have perm: "perm_ok ?D (invert_dense ?D (length ?D))"
    by (rule invert_dense_perm) (unfold len, auto)
  obtain t1 s t2 mn t3 mx where tr3: "trail_new_int t (int ?n) = (t1, s)" "trail_new_int t1 lo = (t2, mn)"
    "trail_new_int t2 hi = (t3, mx)" by fastforce
  note e = trail3 [OF tr3]
  have d: "d = \<lparr>d_map = Dense lo (Some vs), d_dense = ?D, d_sparse = invert_dense ?D span,
      d_size = ?m, d_min = ?m + 1, d_max = ?m + 2\<rparr>" and t': "t' = new_ints t [int ?n, lo, hi]"
    using res tr3 e n32 dense
    by (simp_all add: dom_from_dense_set_def Let_def set_present_def [symmetric] del: new_ints.simps)
  have in32: "in_i32 (lo + int i)" if "i < span" for i
    using that lohi span(1) by (auto simp: in_i32_def span_len_def)
  have "dom_static d (?m + 3)"
    using in32 perm span(2)
    by (simp add: d dom_static_def handle_list_def max_dense_set_span_def i32_max_def len [unfolded length_append])
  moreover have tk: "take ?n (d_dense d) = ?in" by (simp add: d n)
  then have "prefix_set d ?n = set vs"
    using dense_values [of d lo "Some vs" ?n] in32 img by (simp add: d)
  moreover have "?n \<le> length (d_dense d)" using nL len by (simp add: d)
  ultimately show ?thesis
    unfolding t' using vs tr lohi lh sorted_hd_last [OF vs(2,1)]
    by (intro fresh_indexed_ok [where n = ?m]) (simp_all add: d dom_is_bounds_def)
qed

lemma from_bounds_range_ok:
  assumes tr: "trail_ok t" and lh: "lo \<le> hi" "in_i32 lo" "in_i32 hi"
    and res: "dom_from_bounds_range lo hi t = (d, t')"
  shows "dom_ok d t' \<and> dom_set d t' = {lo..hi}"
proof -
  let ?m = "length (t_values t)" and ?vs = "[0, 0, 0, 0, lo, hi]"
  have d: "d = \<lparr>d_map = Bounds [] ?m (?m + 1) (?m + 2), d_dense = [], d_sparse = [],
      d_size = ?m + 3, d_min = ?m + 4, d_max = ?m + 5\<rparr>" and t': "t' = new_ints t ?vs"
    using res by (auto simp: dom_from_bounds_range_def trail_new_int_def Let_def eval_nat_numeral
        split: prod.splits)
  note ni = new_ints_ok [OF tr, of ?vs]
  have nth: "(s @ ?vs) ! (?m + k) = ?vs ! k" if "length s = ?m" for s k
    using that by (simp add: nth_append)
  have idx: "?m = ?m + 0" by simp
  have cur: "t_values t' ! (?m + k) = ?vs ! k" for k using ni nth unfolding t' by auto
  have v: "vset d (t_values t') = {lo..hi}"
    using cur [of 0] cur [of 1] cur [of 4] cur [of 5] by (auto simp: vset_def d)
  have at: "dom_at d (t_values t')"
    using lh cur [of 0] cur [of 1] cur [of 2] cur [of 4] cur [of 5] v
    by (simp add: dom_at_def d i32_max_def)
  have "length (t_values t') = ?m + 6" using ni t' by simp
  then have "dom_static d (length (t_values t'))" by (simp add: dom_static_def d handle_list_def)
  moreover have "s ! r = t_values t' ! r" if s: "s \<in> set (history t')" and r: "r \<in> set (handle_list d)" for s r
  proof -
    obtain s0 where s0: "s = s0 @ ?vs" "length s0 = ?m" using s ni history_lengths unfolding t' by auto
    obtain k where "r = ?m + k" using r by (auto simp: d handle_list_def)
    then show ?thesis using nth [OF s0(2)] cur s0(1) by simp
  qed
  ultimately have "dom_ok d t'"
    using ni at t' fresh_domain_ok by blast
  with v show ?thesis by (simp add: dom_set_def)
qed

lemma dom_new_range_ok:
  assumes tr: "trail_ok t" and i32: "in_i32 lo" "in_i32 hi" and res: "dom_new_range lo hi t = Some (d, t')"
  shows "dom_ok d t' \<and> dom_set d t' = {lo..hi}"
  using res from_dense_range_ok [OF tr _ i32 refl] from_bounds_range_ok [OF tr _ i32]
  by (auto simp: dom_new_range_def Let_def split: if_splits)

lemma dom_new_set_ok:
  assumes tr: "trail_ok t" and i32: "\<forall>v \<in> set values. in_i32 v"
    and res: "dom_new_set values t = Some (d, t')"
  shows "dom_ok d t' \<and> dom_set d t' = set values"
proof -
  let ?vs = "sort_dedup values" and ?lo = "hd (sort_dedup values)" and ?hi = "last (sort_dedup values)"
  have ne: "values \<noteq> []" using res by (auto simp: dom_new_set_def)
  then have vs: "?vs \<noteq> []" "sorted ?vs" "distinct ?vs" "\<forall>v \<in> set ?vs. in_i32 v" using i32 by auto
  have lh: "?lo \<in> set ?vs" "?hi \<in> set ?vs" using hd_in_set [OF vs(1)] last_in_set [OF vs(1)] .
  have mm: "?lo \<le> v \<and> v \<le> ?hi" if "v \<in> set ?vs" for v
    using sorted_hd_last [OF vs(2,1)] that by (metis List.finite_set Max_ge Min_le)
  have whole: "{?lo..?hi} = set values" if "span_len ?lo ?hi = length ?vs"
  proof -
    have "card {?lo..?hi} = card (set ?vs)"
      using that distinct_card [OF vs(3)] by (simp add: span_len_def)
    moreover have "set ?vs \<subseteq> {?lo..?hi}" using mm by auto
    ultimately show ?thesis by (metis card_subset_eq finite_atLeastAtMost_int set_sort_dedup)
  qed
  have "in_i32 ?lo" "in_i32 ?hi" "?lo \<le> ?hi" using vs(4) lh mm by auto
  then show ?thesis
    using res ne whole from_dense_range_ok [OF tr, of ?lo ?hi _ d t']
      from_bounds_range_ok [OF tr, of ?lo ?hi d t'] from_sparse_set_ok [OF tr vs, of d t']
      from_dense_set_ok [OF tr vs refl refl refl, of d t']
    by (auto simp: dom_new_set_def Let_def split: if_splits)
qed

end
