(* ===== verification/IntDomainReads.thy ===== *)
theory IntDomainReads imports IntDomainContract begin

text \<open>
  The remaining queries of \<open>src/src/domains/int.rs\<close>: the smallest value at or above a
  target, and the interior values a propagator must explain as removed, with its
  interruptible variant.
\<close>

section \<open>\<open>ceiling\<close>\<close>

lemma ceiling_loop_ok:
  assumes ok: "dom_ok d t"
  shows "\<lbrakk>in_i32 v; v \<le> dom_max d t; in_i32 (dom_max d t); dom_max d t \<in> dom_set d t\<rbrakk> \<Longrightarrow>
    \<exists>r. ceiling_loop d t v = Some r \<and> r \<in> dom_set d t \<and> v \<le> r \<and> (\<forall>x \<in> dom_set d t. v \<le> x \<longrightarrow> r \<le> x)"
proof (induction d\<equiv>d t\<equiv>t v rule: ceiling_loop.induct)
  case (1 v)
  show ?case
  proof (cases "v \<in> dom_set d t")
    case True
    then show ?thesis by (subst ceiling_loop.simps) (simp add: contains_ok [OF ok])
  next
    case False
    then have lt: "v < dom_max d t" using "1.prems" by (cases "v = dom_max d t") auto
    then have in32: "in_i32 (v + 1)" using "1.prems" by (simp add: in_i32_def)
    then have c: "checked_i32 (v + 1) = Some (v + 1)" by simp
    have nc: "\<not> dom_contains d v t" using False by (simp add: contains_ok [OF ok])
    have "\<exists>r. ceiling_loop d t (v + 1) = Some r \<and> r \<in> dom_set d t \<and> v + 1 \<le> r \<and>
        (\<forall>x \<in> dom_set d t. v + 1 \<le> x \<longrightarrow> r \<le> x)"
      using "1.hyps" [OF nc c] lt "1.prems" by (simp add: in_i32_def)
    then obtain r where r: "ceiling_loop d t (v + 1) = Some r" "r \<in> dom_set d t" "v + 1 \<le> r"
      "\<forall>x \<in> dom_set d t. v + 1 \<le> x \<longrightarrow> r \<le> x" by blast
    have "ceiling_loop d t v = Some r"
      using nc in32 lt r(1) by (subst ceiling_loop.simps) (simp add: checked_i32_def)
    moreover have "r \<le> x" if "x \<in> dom_set d t" "v \<le> x" for x
      using that r(4) False by (cases "x = v") auto
    ultimately show ?thesis using r by auto
  qed
qed

lemma ceiling_ok:
  assumes ok: "dom_ok d t" and i32: "in_i32 target"
  shows "dom_ceiling d target t =
    (if {v \<in> dom_set d t. target \<le> v} = {} then None else Some (Min {v \<in> dom_set d t. target \<le> v}))"
proof (cases "dom_set d t = {}")
  case True
  then show ?thesis using size_zero [OF ok] by (simp add: dom_ceiling_def)
next
  case ne: False
  then have sz: "dom_size d t \<noteq> 0" using size_zero [OF ok] by simp
  let ?T = "max target (dom_min d t)" and ?A = "{v \<in> dom_set d t. target \<le> v}"
  note mm = below_min [OF ok]
  have mx: "dom_max d t \<in> dom_set d t" using min_max_ok(2)[OF ok ne] ne by simp
  have A: "?A = {v \<in> dom_set d t. ?T \<le> v}" using mm by auto
  show ?thesis
  proof (cases "?T > dom_max d t")
    case True
    then have "?A = {}" unfolding A using mm by force
    with True sz show ?thesis by (simp add: dom_ceiling_def Let_def)
  next
    case False
    then have "target \<le> dom_max d t" by simp
    then have neA: "?A \<noteq> {}" using mx by blast
    have finA: "finite ?A" by simp
    have "(case d_map d of Bounds _ _ _ _ \<Rightarrow> ceiling_loop d t ?T
        | _ \<Rightarrow> (case filter (\<lambda>v. v \<ge> ?T) (map (dom_value_of d) (take (dom_size d t) (d_dense d))) of
                  [] \<Rightarrow> None | v # vs \<Rightarrow> Some (Min (set (v # vs))))) = Some (Min ?A)"
    proof (cases "dom_is_bounds d")
      case True
      then obtain hs hl em ah where m: "d_map d = Bounds hs hl em ah" by (rule bounds_cases)
      have "in_i32 ?T" "in_i32 (dom_max d t)"
        using i32 bounds_now(5,6)[OF ok m ne] by (auto simp: max_def)
      then obtain r where r: "ceiling_loop d t ?T = Some r" "r \<in> dom_set d t" "?T \<le> r"
        "\<forall>x \<in> dom_set d t. ?T \<le> x \<longrightarrow> r \<le> x"
        using ceiling_loop_ok [OF ok, of ?T] False mx by force
      have "Min ?A = r" unfolding A using r by (intro Min_eqI) auto
      with r(1) show ?thesis by (simp add: m)
    next
      case nb: False
      let ?vs = "filter (\<lambda>v. v \<ge> ?T) (map (dom_value_of d) (take (dom_size d t) (d_dense d)))"
      have "set ?vs = ?A"
        unfolding A using indexed_now(1)[OF ok nb] by (auto simp: prefix_set_def)
      moreover from this neA have "?vs \<noteq> []" by (metis set_empty)
      then obtain v ws where vs: "?vs = v # ws" by (meson neq_Nil_conv)
      ultimately have S: "set (v # ws) = ?A" by (simp only:)
      show ?thesis
        using nb unfolding vs list.case S [symmetric]
        by (simp add: dom_is_bounds_def split: value_map.splits)
    qed
    then show ?thesis using False sz neA by (simp add: dom_ceiling_def Let_def)
  qed
qed

section \<open>Removed interior values\<close>

text \<open>The values a domain can ever hold, as far as its storage remembers them.\<close>

definition dom_root :: "domain \<Rightarrow> int set" where
  "dom_root d = (case d_map d of
      Dense _ (Some vs) \<Rightarrow> set vs
    | Dense _ None \<Rightarrow> dom_value_of d ` {..<length (d_dense d)}
    | Sparse vs \<Rightarrow> set vs
    | Bounds _ _ _ _ \<Rightarrow> UNIV)"

text \<open>The scanned vector and the test, shared by the two variants.\<close>

definition removed_keep :: "domain \<Rightarrow> trail \<Rightarrow> int \<Rightarrow> bool" where
  "removed_keep d t v \<longleftrightarrow>
     dom_min d t < v \<and> v < dom_max d t \<and> (dom_is_bounds d \<or> \<not> dom_contains d v t)"

definition removed_source :: "domain \<Rightarrow> trail \<Rightarrow> int list" where
  "removed_source d t = (case d_map d of
      Bounds _ _ _ _ \<Rightarrow> dom_active_prefix d t
    | Dense _ (Some vs) \<Rightarrow> vs
    | Sparse vs \<Rightarrow> vs
    | Dense _ None \<Rightarrow> map (dom_value_of d) [0..<length (d_dense d)])"

lemma append_removed_eq:
  "dom_append_removed_values d t out = out @ filter (removed_keep d t) (removed_source d t)"
  by (auto simp: dom_append_removed_values_def removed_source_def removed_keep_def [abs_def]
      dom_is_bounds_def Let_def split: value_map.splits option.splits)

lemma append_until_eq:
  "dom_append_removed_values_until d t out stops =
     (let (b, stops1) = poll stops in if b then (out, False, stops1) else
      case append_loop (removed_keep d t) (removed_source d t) stops1 out of
        (None, stops2) \<Rightarrow> (out, False, stops2)
      | (Some out', stops2) \<Rightarrow> (let (b', stops3) = poll stops2
          in if b' then (out, False, stops3) else (out', True, stops3)))"
proof -
  have k: "removed_keep d t = (\<lambda>v. dom_min d t < v \<and> v < dom_max d t \<and>
      (dom_is_bounds d \<or> \<not> dom_contains d v t))"
    by (simp add: removed_keep_def [abs_def])
  show ?thesis
    unfolding dom_append_removed_values_until_def removed_source_def k dom_is_bounds_def Let_def
    by (simp add: case_prod_unfold split: value_map.split option.split)
qed

lemma set_removed:
  assumes ok: "dom_ok d t" and ne: "dom_set d t \<noteq> {}"
  shows "set (filter (removed_keep d t) (removed_source d t)) =
    {v \<in> dom_root d. dom_min d t < v \<and> v < dom_max d t \<and> v \<notin> dom_set d t}"
proof (cases "dom_is_bounds d")
  case True
  then obtain hs hl em ah where m: "d_map d = Bounds hs hl em ah" by (rule bounds_cases)
  have "dom_min d t < v \<and> v < dom_max d t \<and> v \<notin> dom_set d t \<longleftrightarrow>
      dom_min d t < v \<and> v < dom_max d t \<and> v \<in> set (dom_active_prefix d t)" for v
    using bounds_now(3)[OF ok m ne, of v] by (auto simp: dom_is_hole_def)
  then show ?thesis
    by (simp add: removed_keep_def removed_source_def dom_root_def True m) blast
next
  case False
  have "set (removed_source d t) = dom_root d"
    using False by (auto simp: removed_source_def dom_root_def dom_is_bounds_def
        split: value_map.splits option.splits)
  then show ?thesis using False by (auto simp: removed_keep_def contains_ok [OF ok])
qed

lemma append_loop_result:
  "append_loop keep vs stops out = (r, stops') \<Longrightarrow> r = None \<or> r = Some (out @ filter keep vs)"
proof (induction vs arbitrary: stops out)
  case (Cons v vs)
  obtain b s1 where p: "poll stops = (b, s1)" by fastforce
  show ?case
    using Cons.prems Cons.IH [of s1 "if keep v then out @ [v] else out"] p by (auto split: if_splits)
qed simp

text \<open>
  A run that is not stopped returns what the plain variant returns; a stopped run leaves
  the output as it was.
\<close>

lemma append_until_ok:
  assumes "dom_append_removed_values_until d t out stops = (out', fin, stops')"
  shows "out' = (if fin then dom_append_removed_values d t out else out)"
proof -
  obtain b s1 where p1: "poll stops = (b, s1)" by fastforce
  obtain r s2 where lp: "append_loop (removed_keep d t) (removed_source d t) s1 out = (r, s2)" by fastforce
  obtain b' s3 where p2: "poll s2 = (b', s3)" by fastforce
  show ?thesis
    using assms append_loop_result [OF lp]
    by (auto simp: append_until_eq append_removed_eq p1 lp p2 split: if_splits)
qed

lemma append_loop_no_stop:
  "\<exists>stops'. append_loop keep vs [] out = (Some (out @ filter keep vs), [])"
proof (induction vs arbitrary: out)
  case (Cons v vs)
  then show ?case using Cons [of "if keep v then out @ [v] else out"] by simp
qed simp

lemma append_until_no_stop:
  "dom_append_removed_values_until d t out [] = (dom_append_removed_values d t out, True, [])"
  using append_loop_no_stop [of "removed_keep d t" "removed_source d t" out]
  by (simp add: append_until_eq append_removed_eq)

end
