(* ===== verification/StoreProps.thy ===== *)
theory StoreProps imports Store IntDomainNew IntDomainReads begin

text \<open>
  The store as its clients see it: a vector of value sets with one saved vector per open
  level. Every mutator is a set operation on one variable that frames all others, whatever
  the scheduling and the recording of reasons do on the side.
\<close>

section \<open>The invariant and the view\<close>

definition handles :: "store \<Rightarrow> var_id \<Rightarrow> nat set" where
  "handles st v = set (handle_list (domains st ! v))"

definition doms_ok :: "store \<Rightarrow> bool" where
  "doms_ok st \<longleftrightarrow> trail_ok (s_trail st) \<and>
     (\<forall>v < length (domains st). dom_ok (domains st ! v) (s_trail st)) \<and>
     (\<forall>v < length (domains st). \<forall>w < length (domains st). v \<noteq> w \<longrightarrow> handles st v \<inter> handles st w = {})"

definition vals :: "store \<Rightarrow> var_id \<Rightarrow> int set" where
  "vals st v = dom_set (domains st ! v) (s_trail st)"

definition st_view :: "store \<Rightarrow> int set list" where
  "st_view st = map (\<lambda>d. dom_set d (s_trail st)) (domains st)"

definition st_saved :: "store \<Rightarrow> int set list list" where
  "st_saved st = map (\<lambda>s. map (\<lambda>d. vset d s) (domains st)) (snapshots (s_trail st))"

lemma length_view [simp]: "length (st_view st) = length (domains st)"
  by (simp add: st_view_def)

lemma view_nth [simp]: "v < length (domains st) \<Longrightarrow> st_view st ! v = vals st v"
  by (simp add: st_view_def vals_def)

lemma doms_ok_dom: "doms_ok st \<Longrightarrow> v < length (domains st) \<Longrightarrow> dom_ok (domains st ! v) (s_trail st)"
  by (simp add: doms_ok_def)

text \<open>The invariant and the views depend on the domains and the trail only.\<close>

lemma doms_ok_cong:
  "\<lbrakk>domains st' = domains st; s_trail st' = s_trail st\<rbrakk> \<Longrightarrow>
     doms_ok st' = doms_ok st \<and> st_view st' = st_view st \<and> st_saved st' = st_saved st \<and> vals st' = vals st"
  by (simp add: doms_ok_def handles_def st_view_def st_saved_def vals_def fun_eq_iff)

lemma set_domain_fields [simp]:
  "domains (set_domain v d t st) = (domains st)[v := d]" "s_trail (set_domain v d t st) = t"
  by (simp_all add: set_domain_def)

lemma set_domain_ok:
  assumes ok: "doms_ok st" and v: "v < length (domains st)"
    and step: "dom_step (domains st ! v) (s_trail st) d t S"
  shows "doms_ok (set_domain v d t st)" "st_view (set_domain v d t st) = (st_view st)[v := S]"
    "st_saved (set_domain v d t st) = st_saved st"
proof -
  have st: "dom_ok d t" "dom_set d t = S" "handle_list d = handle_list (domains st ! v)"
    "trail_writes (handles st v) (s_trail st) t" "\<forall>s \<in> set (snapshots (s_trail st)). vset d s = vset (domains st ! v) s"
    using step by (simp_all add: dom_step_def handles_def)
  have other: "dom_ok (domains st ! w) t \<and> dom_set (domains st ! w) t = dom_set (domains st ! w) (s_trail st)"
    if w: "w < length (domains st)" "w \<noteq> v" for w
  proof -
    have "handles st v \<inter> set (handle_list (domains st ! w)) = {}"
      using ok v w by (simp add: doms_ok_def handles_def)
    from dom_frame [OF doms_ok_dom [OF ok w(1)] st(4) this] show ?thesis by simp
  qed
  have h: "handles (set_domain v d t st) w = handles st w" if "w < length (domains st)" for w
    using that st(3) by (cases "w = v") (simp_all add: handles_def)
  have "dom_ok ((domains st)[v := d] ! w) t" if "w < length (domains st)" for w
    using other [OF that] st(1) that by (cases "w = v") simp_all
  moreover have "trail_ok t" using st(4) by (simp add: trail_writes_def)
  ultimately show "doms_ok (set_domain v d t st)"
    using ok by (simp add: doms_ok_def h)
  show "st_view (set_domain v d t st) = (st_view st)[v := S]"
    using other st(2) v by (intro nth_equalityI) (simp_all add: st_view_def nth_list_update)
  have "snapshots t = snapshots (s_trail st)" using st(4) by (simp add: trail_writes_def)
  moreover have "map (\<lambda>d. vset d s) ((domains st)[v := d]) = map (\<lambda>d. vset d s) (domains st)"
    if "s \<in> set (snapshots (s_trail st))" for s
    using st(5) that v by (intro nth_equalityI) (simp_all add: nth_list_update)
  ultimately show "st_saved (set_domain v d t st) = st_saved st"
    by (simp add: st_saved_def)
qed

section \<open>Reads\<close>

lemma st_reads:
  assumes ok: "doms_ok st" and v: "v < length (domains st)"
  shows "finite (vals st v)" "st_size st v = card (vals st v)" "st_contains st v x \<longleftrightarrow> x \<in> vals st v"
    "st_is_fixed st v \<longleftrightarrow> card (vals st v) = 1"
    "vals st v \<noteq> {} \<Longrightarrow> st_min st v = Min (vals st v) \<and> st_max st v = Max (vals st v)"
  using doms_ok_dom [OF ok v] 
  by (simp_all add: vals_def st_size_def st_contains_def st_is_fixed_def dom_is_fixed_def st_min_def st_max_def
      finite_dom_set size_ok contains_ok min_max_ok)

lemma card_gt_1:
  assumes "finite S" "x \<in> S"
  shows "1 < card S \<longleftrightarrow> S \<noteq> {x}"
proof -
  have "card S = Suc (card (S - {x}))" using card.remove [OF assms] .
  moreover have "card (S - {x}) = 0 \<longleftrightarrow> S - {x} = {}" using assms(1) by simp
  moreover have "S - {x} = {} \<longleftrightarrow> S = {x}" using assms(2) by blast
  ultimately show ?thesis by linarith
qed

section \<open>What the bookkeeping leaves alone\<close>

definition rescheduled :: "store \<Rightarrow> store \<Rightarrow> bool" where
  "rescheduled st st' \<longleftrightarrow> (\<exists>q e. st' = st\<lparr>queues := q, enqueued := e\<rparr>)"

lemma rescheduled_refl [simp]: "rescheduled st st"
proof -
  have "st = st\<lparr>queues := queues st, enqueued := enqueued st\<rparr>" by simp
  then show ?thesis unfolding rescheduled_def by blast
qed

lemma rescheduled_trans: "rescheduled st st1 \<Longrightarrow> rescheduled st1 st2 \<Longrightarrow> rescheduled st st2"
  unfolding rescheduled_def by (elim exE, hypsubst, intro exI) simp

lemma rescheduled_upd [simp]: "rescheduled st (st\<lparr>enqueued := e, queues := q\<rparr>)"
  unfolding rescheduled_def by (rule exI [of _ q], rule exI [of _ e]) simp

lemma rescheduled_wake: "rescheduled st (wake p st)"
  by (simp add: wake_def enqueue_def)

lemma rescheduled_notify: "rescheduled st (notify v b f st)"
proof -
  have "rescheduled st (fold (\<lambda>(ev, p) st. if wakes b f ev then wake p st else st) es st)" for es
    by (induction es arbitrary: st) (auto intro: rescheduled_trans rescheduled_wake split: prod.splits)
  then show ?thesis by (simp add: notify_def)
qed

definition unstaged :: "store \<Rightarrow> store \<Rightarrow> bool" where
  "unstaged st st' \<longleftrightarrow> (\<exists>f. st' = st\<lparr>pending_premises := None, finesse := f\<rparr>)"

lemma unstaged_none [simp]: "unstaged st (st\<lparr>pending_premises := None\<rparr>)"
proof -
  have "st\<lparr>pending_premises := None\<rparr> = st\<lparr>pending_premises := None, finesse := finesse st\<rparr>" by simp
  then show ?thesis unfolding unstaged_def by blast
qed

lemma unstaged_record [simp]: "unstaged st (record_finesse p b (st\<lparr>pending_premises := None\<rparr>))"
proof (cases "finesse st = None \<or> current st = None")
  case True
  then show ?thesis by (auto simp: record_finesse_def split: option.splits)
next
  case False
  then show ?thesis by (auto simp: record_finesse_def unstaged_def)
qed

lemma unstaged_cause: "cause_for b st = (c, st') \<Longrightarrow> unstaged st st'"
  by (auto simp: cause_for_def Let_def split: option.splits if_splits)

section \<open>One shape for the four mutators\<close>

fun dom_run :: "dom_op \<Rightarrow> domain \<Rightarrow> trail \<Rightarrow> domain \<times> trail \<times> (bool, inconsistency) result" where
  "dom_run (Remove x) d t = (case dom_remove d x t of (d', t', ch) \<Rightarrow> (d', t', Ok ch))"
| "dom_run (Fix x) d t = dom_fix d x t"
| "dom_run (Below b) d t = (case dom_remove_below d b t of (d', t', ch) \<Rightarrow> (d', t', Ok ch))"
| "dom_run (Above b) d t = (case dom_remove_above d b t of (d', t', ch) \<Rightarrow> (d', t', Ok ch))"

fun op_event :: "var_id \<Rightarrow> dom_op \<Rightarrow> dom_event" where
  "op_event v (Remove x) = NeTrue v x"
| "op_event v (Fix x) = EqTrue v x"
| "op_event v (Below b) = GeTrue v b"
| "op_event v (Above b) = LeTrue v b"

fun will_change :: "dom_op \<Rightarrow> store \<Rightarrow> var_id \<Rightarrow> bool" where
  "will_change (Remove x) st v = st_contains st v x"
| "will_change (Fix x) st v = (st_contains st v x \<and> \<not> st_is_fixed st v)"
| "will_change (Below b) st v = (b > st_min st v)"
| "will_change (Above b) st v = (b < st_max st v)"

fun st_apply :: "var_id \<Rightarrow> dom_op \<Rightarrow> store \<Rightarrow> unit outcome" where
  "st_apply v (Remove x) = st_remove v x"
| "st_apply v (Fix x) = st_fix v x"
| "st_apply v (Below b) = st_remove_below v b"
| "st_apply v (Above b) = st_remove_above v b"

fun fails :: "dom_op \<Rightarrow> int set \<Rightarrow> bool" where
  "fails (Fix x) S = (x \<notin> S)"
| "fails c S = (set_apply c S = {})"

lemma st_apply_mutate:
  "st_apply v c st =
     (let (cause, st1) = cause_for (will_change c st v) st;
          (d, t, r) = dom_run c (domains st1 ! v) (s_trail st1);
          st2 = set_domain v d t st1
      in case r of Err e \<Rightarrow> (st2, Err e)
         | Ok changed \<Rightarrow>
             if changed then changed_by v (st_min st1 v) (st_max st1 v) (op_event v c) cause st2 else (st2, Ok ()))"
  by (cases c) (simp_all add: st_remove_def st_fix_def st_remove_below_def st_remove_above_def Let_def split: prod.splits result.splits)

lemma dom_run_ok:
  assumes ok: "dom_ok d t" and can: "dom_can c (d, t)" and ne: "dom_set d t \<noteq> {}"
    and run: "dom_run c d t = (d', t', r)"
  shows "dom_step d t d' t' (set_apply c (dom_set d t))"
    "r = (if fails c (dom_set d t) \<and> (\<exists>x. c = Fix x) then Err Inconsistency
          else Ok (set_apply c (dom_set d t) \<noteq> dom_set d t))"
proof -
  let ?S = "dom_set d t"
  have "dom_step d t d' t' (set_apply c ?S) \<and>
    r = (if fails c ?S \<and> (\<exists>x. c = Fix x) then Err Inconsistency else Ok (set_apply c ?S \<noteq> ?S))"
  proof (cases c)
    case (Remove x)
    then obtain ch where a: "dom_remove d x t = (d', t', ch)" "r = Ok ch" using run by (auto split: prod.splits)
    then show ?thesis using dom_remove_step [OF ok _ a(1)] can Remove by auto
  next
    case (Fix x)
    then have a: "dom_fix d x t = (d', t', r)" using run by simp
    have "dom_size d t > 1 \<longleftrightarrow> {x} \<noteq> ?S" if "x \<in> ?S"
      using that size_ok [OF ok] card_gt_1 [OF finite_dom_set that] by auto
    then show ?thesis using dom_fix_step [OF ok a] Fix dom_step_refl [OF ok refl] by (auto split: if_splits)
  next
    case (Below b)
    then obtain ch where a: "dom_remove_below d b t = (d', t', ch)" "r = Ok ch" using run by (auto split: prod.splits)
    have "{x \<in> ?S. b \<le> x} = ?S \<longleftrightarrow> \<not> (\<exists>x \<in> ?S. x < b)" by force
    then show ?thesis using dom_remove_below_step [OF ok _ a(1)] can Below a by simp
  next
    case (Above b)
    then obtain ch where a: "dom_remove_above d b t = (d', t', ch)" "r = Ok ch" using run by (auto split: prod.splits)
    have "{x \<in> ?S. x \<le> b} = ?S \<longleftrightarrow> \<not> (\<exists>x \<in> ?S. b < x)" by force
    then show ?thesis using dom_remove_above_step [OF ok _ a(1)] can Above a by simp
  qed
  then show "dom_step d t d' t' (set_apply c ?S)"
    "r = (if fails c ?S \<and> (\<exists>x. c = Fix x) then Err Inconsistency else Ok (set_apply c ?S \<noteq> ?S))" by auto
qed

lemma rescheduled_doms:
  assumes "rescheduled st st'"
  shows "domains st' = domains st" "s_trail st' = s_trail st" "events st' = events st" "explain st' = explain st"
    "subs st' = subs st" "scopes st' = scopes st" "prio st' = prio st" "current st' = current st"
  using assms by (auto simp: rescheduled_def)

lemma unstaged_doms:
  assumes "unstaged st st'"
  shows "domains st' = domains st" "s_trail st' = s_trail st" "events st' = events st" "explain st' = explain st"
    "subs st' = subs st" "scopes st' = scopes st" "prio st' = prio st" "current st' = current st"
    "queues st' = queues st" "enqueued st' = enqueued st"
  using assms by (auto simp: unstaged_def)

text \<open>The outcome of a mutator, spelled out.\<close>

lemma st_apply_cases:
  assumes ok: "doms_ok st" and v: "v < length (domains st)" and ne: "vals st v \<noteq> {}"
    and can: "dom_can c (domains st ! v, s_trail st)" and run: "st_apply v c st = (st', r)"
  obtains cause st1 st2 where "cause_for (will_change c st v) st = (cause, st1)" "unstaged st st1"
    "doms_ok st2" "st_view st2 = (st_view st)[v := set_apply c (vals st v)]" "st_saved st2 = st_saved st"
    "\<exists>d t. st2 = set_domain v d t st1"
    "\<exists>d t r0. dom_run c (domains st ! v) (s_trail st) = (d, t, r0) \<and> st2 = set_domain v d t st1"
    "if fails c (vals st v) then st' = st2 \<and> r = Err Inconsistency
     else if set_apply c (vals st v) = vals st v then st' = st2 \<and> r = Ok ()
     else st' = emit (op_event v c) cause (notify v (st_min st2 v \<noteq> st_min st v \<or> st_max st2 v \<noteq> st_max st v)
            (card (set_apply c (vals st v)) = 1) st2) \<and> r = Ok ()"
proof -
  let ?S = "vals st v" and ?S' = "set_apply c (vals st v)"
  obtain cause st1 where c: "cause_for (will_change c st v) st = (cause, st1)" by fastforce
  note u = unstaged_cause [OF c]
  note ud = unstaged_doms [OF u]
  obtain d t r0 where d: "dom_run c (domains st ! v) (s_trail st) = (d, t, r0)" by (metis prod_cases3)
  have S: "dom_set (domains st ! v) (s_trail st) = ?S" by (simp add: vals_def)
  note R = dom_run_ok [OF doms_ok_dom [OF ok v] can ne [folded S] d, unfolded S]
  have R': "dom_step (domains st1 ! v) (s_trail st1) d t ?S'" using R(1) ud by simp
  have ok1: "doms_ok st1" "st_view st1 = st_view st" "st_saved st1 = st_saved st" "v < length (domains st1)"
    using doms_ok_cong [of st1 st] ud ok v by simp_all
  let ?st2 = "set_domain v d t st1"
  have ok2: "doms_ok ?st2" "st_view ?st2 = (st_view st)[v := ?S']" "st_saved ?st2 = st_saved st"
    using set_domain_ok [OF ok1(1) ok1(4) R'] ok1 by simp_all
  have v2: "vals ?st2 v = ?S'" using ok2(2) v ud by (metis length_list_update length_view nth_list_update_eq view_nth)
  have v2l: "v < length (domains ?st2)" using v ud by simp
  note rd = st_reads [OF ok2(1) v2l, unfolded v2]
  have mm: "st_min st1 v = st_min st v" "st_max st1 v = st_max st v" using ud by (simp_all add: st_min_def st_max_def)
  have "if fails c ?S then st' = ?st2 \<and> r = Err Inconsistency
     else if ?S' = ?S then st' = ?st2 \<and> r = Ok ()
     else st' = emit (op_event v c) cause (notify v (st_min ?st2 v \<noteq> st_min st v \<or> st_max ?st2 v \<noteq> st_max st v)
            (card ?S' = 1) ?st2) \<and> r = Ok ()"
  proof (cases "fails c ?S \<and> (\<exists>x. c = Fix x)")
    case True
    then show ?thesis using run d R(2) by (auto simp: st_apply_mutate c ud)
  next
    case False
    have f: "fails c ?S \<longleftrightarrow> ?S' = {}" using False by (cases c) auto
    have r0: "r0 = Ok (?S' \<noteq> ?S)" using R(2) False by auto
    have z: "card ?S' = 0 \<longleftrightarrow> ?S' = {}" using rd(1) by simp
    show ?thesis
      using run d ne by (simp add: st_apply_mutate c ud r0 f changed_by_def after_change_def rd(2) z mm Let_def split: if_splits)
  qed
  then show thesis using that [OF c u ok2] d by blast
qed

text \<open>What every mutator promises about the domains.\<close>

lemma st_apply_ok:
  assumes ok: "doms_ok st" and v: "v < length (domains st)" and ne: "vals st v \<noteq> {}"
    and can: "dom_can c (domains st ! v, s_trail st)" and run: "st_apply v c st = (st', r)"
  shows "doms_ok st'" "st_view st' = (st_view st)[v := set_apply c (vals st v)]" "st_saved st' = st_saved st"
    "r = (if fails c (vals st v) then Err Inconsistency else Ok ())"
proof -
  obtain cause st1 st2 where st2: "doms_ok st2" "st_view st2 = (st_view st)[v := set_apply c (vals st v)]" "st_saved st2 = st_saved st"
    and out: "if fails c (vals st v) then st' = st2 \<and> r = Err Inconsistency
     else if set_apply c (vals st v) = vals st v then st' = st2 \<and> r = Ok ()
     else st' = emit (op_event v c) cause (notify v (st_min st2 v \<noteq> st_min st v \<or> st_max st2 v \<noteq> st_max st v)
            (card (set_apply c (vals st v)) = 1) st2) \<and> r = Ok ()"
    using st_apply_cases [OF assms] by metis
  have "domains st' = domains st2 \<and> s_trail st' = s_trail st2"
    using out rescheduled_doms [OF rescheduled_notify] by (auto simp: emit_def split: if_splits)
  then show "doms_ok st'" "st_view st' = (st_view st)[v := set_apply c (vals st v)]" "st_saved st' = st_saved st"
    using doms_ok_cong [of st' st2] st2 by simp_all
  show "r = (if fails c (vals st v) then Err Inconsistency else Ok ())" using out by (auto split: if_splits)
qed

end
