(* ===== verification/StoreSched.thy ===== *)
theory StoreSched imports StoreProps "HOL-Library.Multiset" begin

text \<open>
  The queue, the subscriptions and the weighted degrees of the store: the flags say exactly
  what is queued, cheap bands run first, a change wakes precisely the subscribers of its
  events, every change is logged with its reason, and the cached degree of a variable is the
  degree recomputed from its subscriptions.
\<close>

section \<open>The queue\<close>

definition queued :: "store \<Rightarrow> prop_id \<Rightarrow> bool" where
  "queued st p \<longleftrightarrow> p \<in> set (concat (queues st))"

definition sched_ok :: "store \<Rightarrow> bool" where
  "sched_ok st \<longleftrightarrow> length (queues st) = nbands \<and> length (prio st) = length (enqueued st) \<and>
     length (scopes st) = length (enqueued st) \<and> distinct (concat (queues st)) \<and>
     (\<forall>p. queued st p \<longleftrightarrow> p < length (enqueued st) \<and> enqueued st ! p)"

lemma sched_flag: "sched_ok st \<Longrightarrow> queued st p \<longleftrightarrow> p < length (enqueued st) \<and> enqueued st ! p"
  by (simp add: sched_ok_def)

lemma band_bound: "band_of st p < nbands"
  by (cases "prio st ! p") (simp_all add: band_of_def nbands_def)

lemma mset_append_at:
  "b < length qs \<Longrightarrow> mset (concat (list_modify b (\<lambda>q. q @ [p]) qs)) = add_mset p (mset (concat qs))"
proof (induction qs arbitrary: b)
  case (Cons q qs)
  then show ?case by (cases b) (simp_all add: list_modify_def)
qed simp

lemma append_at:
  assumes "b < length qs"
  shows "set (concat (list_modify b (\<lambda>q. q @ [p]) qs)) = insert p (set (concat qs))"
    "distinct (concat (list_modify b (\<lambda>q. q @ [p]) qs)) \<longleftrightarrow> p \<notin> set (concat qs) \<and> distinct (concat qs)"
proof -
  have m: "mset (concat (list_modify b (\<lambda>q. q @ [p]) qs)) = mset (p # concat qs)"
    using mset_append_at [OF assms] by simp
  show "set (concat (list_modify b (\<lambda>q. q @ [p]) qs)) = insert p (set (concat qs))"
    using mset_eq_setD [OF m] by simp
  show "distinct (concat (list_modify b (\<lambda>q. q @ [p]) qs)) \<longleftrightarrow> p \<notin> set (concat qs) \<and> distinct (concat qs)"
    using mset_eq_imp_distinct_iff [OF m] by simp
qed

lemma length_modify [simp]: "length (list_modify i f xs) = length xs"
  by (simp add: list_modify_def)

lemma nth_modify: "j < length xs \<Longrightarrow> list_modify i f xs ! j = (if i = j then f (xs ! j) else xs ! j)"
  by (simp add: list_modify_def nth_list_update)

lemma enqueue_ok:
  assumes ok: "sched_ok st" and p: "p < length (enqueued st)"
  shows "sched_ok (enqueue p st)" "queued (enqueue p st) q \<longleftrightarrow> q = p \<or> queued st q"
    "length (enqueued (enqueue p st)) = length (enqueued st)"
proof -
  have b: "band_of st p < length (queues st)" using ok band_bound by (simp add: sched_ok_def)
  show q: "queued (enqueue p st) q \<longleftrightarrow> q = p \<or> queued st q" for q
    using ok append_at(1) [OF b, of p] p by (auto simp: enqueue_def queued_def sched_ok_def)
  show "length (enqueued (enqueue p st)) = length (enqueued st)" by (simp add: enqueue_def)
  show "sched_ok (enqueue p st)"
  proof (cases "enqueued st ! p")
    case False
    then have np: "p \<notin> set (concat (queues st))" using ok by (simp add: sched_ok_def queued_def)
    have "distinct (concat (queues (enqueue p st)))"
      using ok np False append_at(2) [OF b, of p] by (simp add: enqueue_def sched_ok_def)
    moreover have "queued (enqueue p st) x \<longleftrightarrow> x < length (enqueued (enqueue p st)) \<and> enqueued (enqueue p st) ! x" for x
      using q [of x] ok p False by (auto simp: sched_ok_def enqueue_def nth_list_update)
    ultimately show ?thesis using ok False by (simp add: sched_ok_def enqueue_def)
  qed (use ok in \<open>simp add: enqueue_def\<close>)
qed

lemma pop_first_concat: "pop_first qs = Some (p, qs') \<Longrightarrow> concat qs = p # concat qs' \<and> length qs' = length qs"
  by (induction qs arbitrary: qs' rule: pop_first.induct) auto

lemma pop_first_none: "pop_first qs = None \<longleftrightarrow> concat qs = []"
  by (induction qs rule: pop_first.induct) auto

lemma pop_first_band:
  "pop_first qs = Some (p, qs') \<Longrightarrow>
     \<exists>k < length qs. (\<forall>j < k. qs ! j = []) \<and> qs ! k = p # qs' ! k \<and> qs' = qs[k := tl (qs ! k)]"
proof (induction qs arbitrary: qs' rule: pop_first.induct)
  case (2 qs)
  then obtain rs where rs: "pop_first qs = Some (p, rs)" "qs' = [] # rs" by auto
  from "2.IH" [OF rs(1)] obtain k where k: "k < length qs" "\<forall>j < k. qs ! j = []" "qs ! k = p # rs ! k" "rs = qs[k := tl (qs ! k)]"
    by blast
  have "\<forall>j < Suc k. ([] # qs) ! j = []" using k(2) by (auto simp: nth_Cons split: nat.splits)
  then show ?case using k rs(2) by (intro exI [of _ "Suc k"]) simp
qed auto

lemma dequeue_ok:
  assumes ok: "sched_ok st" and d: "dequeue st = (Some p, st')"
  shows "sched_ok st'" "queued st p" "queued st' q \<longleftrightarrow> queued st q \<and> q \<noteq> p"
    "\<exists>k < nbands. (\<forall>j < k. queues st ! j = []) \<and> queues st ! k = p # queues st' ! k \<and> queues st' = (queues st)[k := tl (queues st ! k)]"
    "length (enqueued st') = length (enqueued st)" "rescheduled st st'"
proof -
  obtain qs where qs: "pop_first (queues st) = Some (p, qs)" "st' = st\<lparr>queues := qs, enqueued := (enqueued st)[p := False]\<rparr>"
    using d by (auto simp: dequeue_def split: option.splits)
  note c = pop_first_concat [OF qs(1)]
  show "queued st p" using c by (simp add: queued_def)
  show q: "queued st' q \<longleftrightarrow> queued st q \<and> q \<noteq> p" for q
    using c ok qs(2) by (simp add: queued_def sched_ok_def) blast
  have "distinct (concat qs)" using c ok by (simp add: sched_ok_def)
  moreover have "queued st' x \<longleftrightarrow> x < length (enqueued st') \<and> enqueued st' ! x" for x
    using q [of x] sched_flag [OF ok, of x] qs(2) by (cases "x = p") (auto simp: nth_list_update)
  ultimately show "sched_ok st'" using ok c qs(2) by (simp add: sched_ok_def)
  show "\<exists>k < nbands. (\<forall>j < k. queues st ! j = []) \<and> queues st ! k = p # queues st' ! k \<and> queues st' = (queues st)[k := tl (queues st ! k)]"
    using pop_first_band [OF qs(1)] ok qs(2) by (simp add: sched_ok_def)
  show "length (enqueued st') = length (enqueued st)" by (simp add: qs(2))
  show "rescheduled st st'" by (auto simp: qs(2) rescheduled_def)
qed

lemma none_queued: "(\<forall>p. \<not> queued st p) \<longleftrightarrow> concat (queues st) = []"
  unfolding queued_def by (metis all_not_in_conv set_empty)

lemma dequeue_none: "fst (dequeue st) = None \<longleftrightarrow> (\<forall>p. \<not> queued st p)"
  unfolding none_queued pop_first_none [symmetric] by (simp add: dequeue_def split: option.splits)

lemma dequeue_none_same: "dequeue st = (None, st') \<Longrightarrow> st' = st"
  by (auto simp: dequeue_def split: option.splits)

lemma peek_is_next: "peek_queue st = fst (dequeue st)"
proof -
  have "(case filter (\<lambda>q. q \<noteq> []) qs of [] \<Rightarrow> None | q # _ \<Rightarrow> Some (hd q)) = map_option fst (pop_first qs)" for qs :: "prop_id list list"
    by (induction qs rule: pop_first.induct) (simp_all add: option.map_comp comp_def case_prod_beta)
  then show ?thesis by (simp add: peek_queue_def dequeue_def split: option.splits)
qed

lemma queue_is_empty_iff: "queue_is_empty st \<longleftrightarrow> (\<forall>p. \<not> queued st p)"
  unfolding none_queued by (simp add: queue_is_empty_def list_all_iff)

lemma length_fold_clear [simp]: "length (fold (\<lambda>p e. e[p := False]) ps e) = length e"
  by (induction ps arbitrary: e) auto

lemma fold_clear: "x < length e \<Longrightarrow> fold (\<lambda>p e. e[p := False]) ps e ! x \<longleftrightarrow> x \<notin> set ps \<and> e ! x"
proof (induction ps arbitrary: e)
  case (Cons p ps)
  then show ?case by (cases "x = p") simp_all
qed simp

lemma clear_queue_ok:
  assumes ok: "sched_ok st"
  shows "sched_ok (clear_queue st)" "\<not> queued (clear_queue st) p" "rescheduled st (clear_queue st)"
    "length (enqueued (clear_queue st)) = length (enqueued st)"
proof -
  have c: "concat (map (\<lambda>_. []) qs) = []" for qs :: "'a list" by (induction qs) auto
  show nq: "\<not> queued (clear_queue st) p" for p by (simp add: queued_def clear_queue_def c)
  have "\<not> (p < length (enqueued (clear_queue st)) \<and> enqueued (clear_queue st) ! p)" for p
    using ok by (auto simp: clear_queue_def fold_clear sched_ok_def queued_def split: if_splits)
  then show "sched_ok (clear_queue st)"
    using ok nq by (simp add: sched_ok_def clear_queue_def c)
  show "rescheduled st (clear_queue st)" by (auto simp: clear_queue_def rescheduled_def)
  show "length (enqueued (clear_queue st)) = length (enqueued st)" by (simp add: clear_queue_def)
qed

section \<open>Links between variables and propagators\<close>

definition links_ok :: "store \<Rightarrow> bool" where
  "links_ok st \<longleftrightarrow> length (subs st) = length (domains st) \<and> length (var_weight_cache st) = length (domains st) \<and>
     length (relevant st) = length (domains st) \<and>
     (\<forall>v < length (subs st). \<forall>(e, p) \<in> set (subs st ! v). p < length (enqueued st) \<and> v \<in> set (scopes st ! p)) \<and>
     (\<forall>p < length (scopes st). \<forall>v \<in> set (scopes st ! p). v < length (domains st))"

section \<open>Waking\<close>

lemma wake_ok:
  assumes ok: "sched_ok st" and p: "p < length (enqueued st)"
  shows "sched_ok (wake p st)" "queued (wake p st) q \<longleftrightarrow> queued st q \<or> (q = p \<and> current st \<noteq> Some p)"
    "length (enqueued (wake p st)) = length (enqueued st)" "current (wake p st) = current st"
  using ok enqueue_ok [OF ok p] by (auto simp: wake_def enqueue_def)

lemma fold_wake_ok:
  assumes "sched_ok st" "\<And>e p. (e, p) \<in> set es \<Longrightarrow> p < length (enqueued st)"
  shows "sched_ok (fold (\<lambda>(e, p) st. if w e then wake p st else st) es st) \<and>
    (\<forall>q. queued (fold (\<lambda>(e, p) st. if w e then wake p st else st) es st) q \<longleftrightarrow>
       queued st q \<or> (current st \<noteq> Some q \<and> (\<exists>e. (e, q) \<in> set es \<and> w e))) \<and>
    length (enqueued (fold (\<lambda>(e, p) st. if w e then wake p st else st) es st)) = length (enqueued st)"
  using assms
proof (induction es arbitrary: st)
  case (Cons x es)
  obtain e p where x: "x = (e, p)" by (cases x)
  have p: "p < length (enqueued st)" using Cons.prems(2) [of e p] x by simp
  note W = wake_ok [OF Cons.prems(1) p]
  show ?case
  proof (cases "w e")
    case True
    have "sched_ok (wake p st)" "\<And>e' p'. (e', p') \<in> set es \<Longrightarrow> p' < length (enqueued (wake p st))"
      using W Cons.prems(2) by auto
    from Cons.IH [OF this] show ?thesis using True W by (auto simp: x)
  next
    case False
    have "\<And>e' p'. (e', p') \<in> set es \<Longrightarrow> p' < length (enqueued st)" using Cons.prems(2) by auto
    from Cons.IH [OF Cons.prems(1) this] show ?thesis using False by (auto simp: x)
  qed
qed simp

lemma notify_ok:
  assumes ok: "sched_ok st" and l: "links_ok st" and v: "v < length (domains st)"
  shows "sched_ok (notify v b f st)" "length (enqueued (notify v b f st)) = length (enqueued st)"
    "queued (notify v b f st) q \<longleftrightarrow> queued st q \<or> (current st \<noteq> Some q \<and> (\<exists>e. (e, q) \<in> set (subs st ! v) \<and> wakes b f e))"
proof -
  have r: "p < length (enqueued st)" if "(e, p) \<in> set (subs st ! v)" for e p
    using l v that by (fastforce simp: links_ok_def)
  note F = fold_wake_ok [of st "subs st ! v" "wakes b f", OF ok r]
  show "sched_ok (notify v b f st)" "length (enqueued (notify v b f st)) = length (enqueued st)"
    "queued (notify v b f st) q \<longleftrightarrow> queued st q \<or> (current st \<noteq> Some q \<and> (\<exists>e. (e, q) \<in> set (subs st ! v) \<and> wakes b f e))"
    using F by (simp_all add: notify_def)
qed

text \<open>The event a change of a value set is.\<close>

fun occurs :: "event \<Rightarrow> int set \<Rightarrow> int set \<Rightarrow> bool" where
  "occurs DomainChange S S' = (S' \<noteq> S)"
| "occurs BoundChange S S' = (S' \<noteq> S \<and> (Min S' \<noteq> Min S \<or> Max S' \<noteq> Max S))"
| "occurs FixEvent S S' = (S' \<noteq> S \<and> card S' = 1)"

text \<open>What a mutator does to the queue and to the log.\<close>

lemma st_apply_sched:
  assumes ok: "doms_ok st" and s: "sched_ok st" and l: "links_ok st"
    and v: "v < length (domains st)" and ne: "vals st v \<noteq> {}"
    and can: "dom_can c (domains st ! v, s_trail st)" and run: "st_apply v c st = (st', r)"
  shows "sched_ok st'" "links_ok st'" "current st' = current st" "subs st' = subs st" "scopes st' = scopes st"
    "queued st' q \<longleftrightarrow> queued st q \<or> (r = Ok () \<and> current st \<noteq> Some q \<and>
       (\<exists>e. (e, q) \<in> set (subs st ! v) \<and> occurs e (vals st v) (set_apply c (vals st v))))"
    "length (enqueued st') = length (enqueued st)" "prio st' = prio st"
    "var_weight_cache st' = var_weight_cache st" "explain st' = explain st"
    "\<exists>cause. events st' = events st @ (if explain st \<and> r = Ok () \<and> set_apply c (vals st v) \<noteq> vals st v
       then [\<lparr>ee_primary = op_event v c, ee_cause = cause\<rparr>] else [])"
proof -
  let ?S = "vals st v" and ?S' = "set_apply c (vals st v)"
  obtain cause st1 st2 where c: "cause_for (will_change c st v) st = (cause, st1)" and u: "unstaged st st1"
    and ok2: "doms_ok st2" "st_view st2 = (st_view st)[v := ?S']"
    and e2: "\<exists>d t. st2 = set_domain v d t st1"
    and out: "if fails c ?S then st' = st2 \<and> r = Err Inconsistency
     else if ?S' = ?S then st' = st2 \<and> r = Ok ()
     else st' = emit (op_event v c) cause (notify v (st_min st2 v \<noteq> st_min st v \<or> st_max st2 v \<noteq> st_max st v)
            (card ?S' = 1) st2) \<and> r = Ok ()"
    using st_apply_cases [OF ok v ne can run] by metis
  have f2: "queues st2 = queues st" "enqueued st2 = enqueued st" "prio st2 = prio st" "scopes st2 = scopes st" "subs st2 = subs st"
    "current st2 = current st" "events st2 = events st" "explain st2 = explain st" "length (domains st2) = length (domains st)"
    "var_weight_cache st2 = var_weight_cache st" "relevant st2 = relevant st"
    using u e2 by (auto simp: unstaged_def set_domain_def)
  have s2: "sched_ok st2" using s by (simp add: sched_ok_def queued_def f2)
  have l2: "links_ok st2" using l by (simp add: links_ok_def f2)
  have v2: "v < length (domains st2)" using v f2 by simp
  have vals2: "vals st2 v = ?S'" using ok2(2) v v2 by (metis length_view nth_list_update_eq view_nth)
  let ?b = "st_min st2 v \<noteq> st_min st v \<or> st_max st2 v \<noteq> st_max st v" and ?f = "card ?S' = 1"
  define n where "n = notify v ?b ?f st2"
  note N = notify_ok [OF s2 l2 v2, of ?b ?f, folded n_def]
  have rn: "rescheduled st2 n" unfolding n_def by (rule rescheduled_notify)
  note fr = rescheduled_doms [OF rn]
  have n3: "domains n = domains st2" "relevant n = relevant st2" "var_weight_cache n = var_weight_cache st2" 
    using rn by (auto simp: rescheduled_def)
  have occ: "wakes ?b ?f e \<longleftrightarrow> occurs e ?S ?S'" if nf: "\<not> fails c ?S" and ch: "?S' \<noteq> ?S" for e
  proof -
    have ne': "?S' \<noteq> {}" using nf ne by (cases c) auto
    show ?thesis
      using ch st_reads(5) [OF ok2(1) v2] st_reads(5) [OF ok v ne] ne' by (cases e) (auto simp: wakes_def vals2)
  qed
  consider "fails c ?S" "st' = st2" "r = Err Inconsistency"
    | "\<not> fails c ?S" "?S' = ?S" "st' = st2" "r = Ok ()"
    | "\<not> fails c ?S" "?S' \<noteq> ?S" "st' = emit (op_event v c) cause n" "r = Ok ()"
    using out unfolding n_def by argo
  then have "sched_ok st' \<and> links_ok st' \<and> current st' = current st \<and> subs st' = subs st \<and> scopes st' = scopes st \<and>
    (queued st' q \<longleftrightarrow> queued st q \<or> (r = Ok () \<and> current st \<noteq> Some q \<and> (\<exists>e. (e, q) \<in> set (subs st ! v) \<and> occurs e ?S ?S'))) \<and>
    length (enqueued st') = length (enqueued st) \<and> prio st' = prio st \<and> var_weight_cache st' = var_weight_cache st \<and> explain st' = explain st \<and>
    (\<exists>cause. events st' = events st @ (if explain st \<and> r = Ok () \<and> ?S' \<noteq> ?S then [\<lparr>ee_primary = op_event v c, ee_cause = cause\<rparr>] else []))"
  proof cases
    case 1
    then show ?thesis using s2 l2 f2 by (simp add: queued_def)
  next
    case 2
    have "\<not> occurs e ?S ?S'" for e using 2(2) by (cases e) simp_all
    then show ?thesis using 2 s2 l2 f2 by (simp add: queued_def)
  next
    case 3
    let ?st = "emit (op_event v c) cause n"
    have em: "queues ?st = queues n" "enqueued ?st = enqueued n" "prio ?st = prio n" "scopes ?st = scopes n" "subs ?st = subs n"
      "current ?st = current n" "explain ?st = explain n" "domains ?st = domains n" "relevant ?st = relevant n"
      "var_weight_cache ?st = var_weight_cache n"
      by (simp_all add: emit_def)
    have "sched_ok ?st" using N(1) by (simp add: sched_ok_def queued_def em)
    moreover have "links_ok ?st" using l2 by (simp add: links_ok_def em fr n3 N(2))
    moreover have "queued ?st q \<longleftrightarrow> queued st q \<or> (current st \<noteq> Some q \<and> (\<exists>e. (e, q) \<in> set (subs st ! v) \<and> occurs e ?S ?S'))"
      using N(3) occ [OF 3(1,2)] by (simp add: queued_def em f2)
    moreover have "events ?st = events st @ (if explain st then [\<lparr>ee_primary = op_event v c, ee_cause = cause\<rparr>] else [])"
      by (simp add: emit_def fr f2)
    ultimately show ?thesis using 3 by (simp add: em fr f2 n3 N(2))
  qed
  then show "sched_ok st'" "links_ok st'" "current st' = current st" "subs st' = subs st" "scopes st' = scopes st"
    "queued st' q \<longleftrightarrow> queued st q \<or> (r = Ok () \<and> current st \<noteq> Some q \<and> (\<exists>e. (e, q) \<in> set (subs st ! v) \<and> occurs e ?S ?S'))"
    "length (enqueued st') = length (enqueued st)" "prio st' = prio st"
    "var_weight_cache st' = var_weight_cache st" "explain st' = explain st"
    "\<exists>cause. events st' = events st @ (if explain st \<and> r = Ok () \<and> ?S' \<noteq> ?S then [\<lparr>ee_primary = op_event v c, ee_cause = cause\<rparr>] else [])"
    by blast+
qed

end
