(* ===== verification/StoreReasons.thy ===== *)
theory StoreReasons imports StoreSched begin

text \<open>
  What the store records for learning: a staged reason reaches exactly the change it was
  staged for, the premises of a domain pin that domain down, and the log replays the domains.
  The last section is the weighted degree: the cache agrees with the sum it stands for.
\<close>

section \<open>Staged reasons\<close>

lemma will_change_iff:
  assumes ok: "doms_ok st" and v: "v < length (domains st)" and ne: "vals st v \<noteq> {}" and nf: "\<not> fails c (vals st v)"
  shows "will_change c st v \<longleftrightarrow> set_apply c (vals st v) \<noteq> vals st v"
proof -
  note rd = st_reads [OF ok v]
  have mn: "st_min st v \<in> vals st v" "st_max st v \<in> vals st v"
    "\<And>x. x \<in> vals st v \<Longrightarrow> st_min st v \<le> x \<and> x \<le> st_max st v"
    using rd(1) rd(5) [OF ne] ne by simp_all
  show ?thesis
  proof (cases c)
    case (Fix x)
    then have x: "x \<in> vals st v" using nf by simp
    have "card (vals st v) \<noteq> 1 \<longleftrightarrow> vals st v \<noteq> {x}"
      using card_gt_1 [OF rd(1) x] rd(1) x by (metis card_1_singletonE card.empty card_insert_disjoint empty_iff finite.emptyI insert_absorb insert_iff is_singletonI is_singleton_altdef singletonD)
    then show ?thesis using Fix x rd by auto
  next
    case (Below b)
    have "{x \<in> vals st v. b \<le> x} = vals st v \<longleftrightarrow> b \<le> st_min st v" using mn by force
    then show ?thesis using Below by auto
  next
    case (Above b)
    have "{x \<in> vals st v. x \<le> b} = vals st v \<longleftrightarrow> st_max st v \<le> b" using mn by force
    then show ?thesis using Above by auto
  qed (use rd in auto)
qed

text \<open>The explained mutators.\<close>

fun apply_because :: "var_id \<Rightarrow> dom_op \<Rightarrow> premise list \<Rightarrow> store \<Rightarrow> unit outcome" where
  "apply_because v (Remove x) why = remove_because v x why"
| "apply_because v (Fix x) why = fix_because v x why"
| "apply_because v (Below b) why = remove_below_because v b why"
| "apply_because v (Above b) why = remove_above_because v b why"

lemma apply_because_staged: "apply_because v c why st = st_apply v c (stage why st)"
  by (cases c) (simp_all add: remove_because_def fix_because_def remove_below_because_def remove_above_because_def)

lemma stage_fields [simp]:
  "domains (stage why st) = domains st" "s_trail (stage why st) = s_trail st" "subs (stage why st) = subs st"
  "current (stage why st) = current st" "explain (stage why st) = explain st" "events (stage why st) = events st"
  "injected_premises (stage why st) = injected_premises st" "force_scope_reasons (stage why st) = force_scope_reasons st"
  "queues (stage why st) = queues st" "enqueued (stage why st) = enqueued st" "prio (stage why st) = prio st"
  "scopes (stage why st) = scopes st" "relevant (stage why st) = relevant st"
  "var_weight_cache (stage why st) = var_weight_cache st" "pending_premises (stage why st) = Some why"
  by (simp_all add: stage_def)

lemma stage_ok [simp]:
  "doms_ok (stage why st) = doms_ok st" "st_view (stage why st) = st_view st" "st_saved (stage why st) = st_saved st"
  "vals (stage why st) = vals st" "sched_ok (stage why st) = sched_ok st" "links_ok (stage why st) = links_ok st"
  "queued (stage why st) p = queued st p" "will_change c (stage why st) v = will_change c st v"
  using doms_ok_cong [of "stage why st" st]
  by (simp_all add: sched_ok_def links_ok_def queued_def)
    (cases c; simp add: st_contains_def st_is_fixed_def st_min_def st_max_def)

definition logged :: "store \<Rightarrow> cause \<Rightarrow> var_id \<Rightarrow> dom_op \<Rightarrow> engine_event list" where
  "logged st cause v c =
     (if explain st \<and> \<not> fails c (vals st v) \<and> set_apply c (vals st v) \<noteq> vals st v
      then [\<lparr>ee_primary = op_event v c, ee_cause = cause\<rparr>] else [])"

lemma st_apply_logs:
  assumes ok: "doms_ok st" and v: "v < length (domains st)" and ne: "vals st v \<noteq> {}"
    and can: "dom_can c (domains st ! v, s_trail st)" and run: "st_apply v c st = (st', r)"
  shows "events st' = events st @ logged st
      (case pending_premises st of
         Some why \<Rightarrow> if force_scope_reasons st then ScopeCause else Premises (why @ injected_premises st)
       | None \<Rightarrow> ScopeCause) v c"
    "pending_premises st' = None" "injected_premises st' = injected_premises st"
proof -
  let ?S = "vals st v" and ?S' = "set_apply c (vals st v)"
  obtain cause st1 st2 where c: "cause_for (will_change c st v) st = (cause, st1)" and u: "unstaged st st1"
    and e2: "\<exists>d t. st2 = set_domain v d t st1"
    and out: "if fails c ?S then st' = st2 \<and> r = Err Inconsistency
     else if ?S' = ?S then st' = st2 \<and> r = Ok ()
     else st' = emit (op_event v c) cause (notify v (st_min st2 v \<noteq> st_min st v \<or> st_max st2 v \<noteq> st_max st v)
            (card ?S' = 1) st2) \<and> r = Ok ()"
    using st_apply_cases [OF ok v ne can run] by metis
  have f2: "events st2 = events st" "explain st2 = explain st" "pending_premises st2 = None"
    "injected_premises st2 = injected_premises st"
    using u e2 by (auto simp: unstaged_def set_domain_def)
  define n where "n = notify v (st_min st2 v \<noteq> st_min st v \<or> st_max st2 v \<noteq> st_max st v) (card ?S' = 1) st2"
  have rn: "rescheduled st2 n" unfolding n_def by (rule rescheduled_notify)
  have n3: "events n = events st" "explain n = explain st" "pending_premises n = None" "injected_premises n = injected_premises st"
    using rn f2 by (auto simp: rescheduled_def)
  have cs: "cause = (case pending_premises st of
         Some why \<Rightarrow> if force_scope_reasons st then ScopeCause else Premises (why @ injected_premises st)
       | None \<Rightarrow> ScopeCause)" if "\<not> fails c ?S" "?S' \<noteq> ?S"
    using c will_change_iff [OF ok v ne that(1)] that(2)
    by (auto simp: cause_for_def Let_def split: option.splits if_splits)
  consider "fails c ?S" "st' = st2" | "\<not> fails c ?S" "?S' = ?S" "st' = st2"
    | "\<not> fails c ?S" "?S' \<noteq> ?S" "st' = emit (op_event v c) cause n"
    using out unfolding n_def by argo
  then have "events st' = events st @ logged st cause v c \<and> pending_premises st' = None \<and> injected_premises st' = injected_premises st"
    by cases (simp_all add: logged_def f2 n3 emit_def)
  moreover have "logged st cause v c = logged st (case pending_premises st of
         Some why \<Rightarrow> if force_scope_reasons st then ScopeCause else Premises (why @ injected_premises st)
       | None \<Rightarrow> ScopeCause) v c"
    using cs by (simp add: logged_def)
  ultimately show "events st' = events st @ logged st
      (case pending_premises st of
         Some why \<Rightarrow> if force_scope_reasons st then ScopeCause else Premises (why @ injected_premises st)
       | None \<Rightarrow> ScopeCause) v c"
    "pending_premises st' = None" "injected_premises st' = injected_premises st" by simp_all
qed

section \<open>Replaying the log\<close>

fun event_sem :: "dom_event \<Rightarrow> int set list \<Rightarrow> int set list" where
  "event_sem (NeTrue v x) D = D[v := D ! v - {x}]"
| "event_sem (EqTrue v x) D = D[v := D ! v \<inter> {x}]"
| "event_sem (GeTrue v b) D = D[v := {x \<in> D ! v. b \<le> x}]"
| "event_sem (LeTrue v b) D = D[v := {x \<in> D ! v. x \<le> b}]"

definition replay :: "engine_event list \<Rightarrow> int set list \<Rightarrow> int set list" where
  "replay es D = fold (\<lambda>e. event_sem (ee_primary e)) es D"

lemma event_sem_op: "\<not> fails c (D ! v) \<Longrightarrow> event_sem (op_event v c) D = D[v := set_apply c (D ! v)]"
  by (cases c) auto

lemma replay_logged:
  assumes "explain st" "v < length (domains st)" "\<not> fails c (vals st v)"
  shows "replay (logged st cause v c) (st_view st) = (st_view st)[v := set_apply c (vals st v)]"
  using assms event_sem_op [of c "st_view st" v]
  by (simp add: logged_def replay_def) (metis list_update_id view_nth)

section \<open>Premises of a domain\<close>

fun allows :: "premise \<Rightarrow> int \<Rightarrow> bool" where
  "allows (PGe v b) x = (b \<le> x)"
| "allows (PLe v b) x = (x \<le> b)"
| "allows (PEq v b) x = (x = b)"
| "allows (PNe v b) x = (x \<noteq> b)"

definition premise_holds :: "store \<Rightarrow> premise \<Rightarrow> bool" where
  "premise_holds st p \<longleftrightarrow> (\<forall>x \<in> vals st (premise_var p). allows p x)"

lemma holes_exact:
  assumes ok: "doms_ok st" and v: "v < length (domains st)" and ne: "vals st v \<noteq> {}"
  shows "set (sv_holes (take_scope_var st v)) =
    {x \<in> dom_root (domains st ! v). st_min st v < x \<and> x < st_max st v \<and> x \<notin> vals st v}"
proof -
  note rd = st_reads [OF ok v]
  have sub: "vals st v \<subseteq> {st_min st v..st_max st v}" using rd(1) rd(5) [OF ne] by auto
  have mx: "st_min st v \<le> st_max st v" using sub ne by auto
  show ?thesis
  proof (cases "int (st_size st v) = st_max st v - st_min st v + 1")
    case True
    have "card (vals st v) = card {st_min st v..st_max st v}" using True mx by (simp add: rd(2))
    then have "vals st v = {st_min st v..st_max st v}" using card_subset_eq [OF _ sub] by simp
    then show ?thesis using True by (auto simp: take_scope_var_def Let_def)
  next
    case False
    then show ?thesis
      using set_removed [OF doms_ok_dom [OF ok v]] ne
      by (simp add: take_scope_var_def Let_def append_removed_eq vals_def st_min_def st_max_def)
  qed
qed

lemma domain_premises_pin:
  assumes ok: "doms_ok st" and v: "v < length (domains st)" and ne: "vals st v \<noteq> {}"
  shows "\<exists>ps. domain_premises st v out = out @ ps \<and>
    (\<forall>p \<in> set ps. premise_var p = v \<and> premise_holds st p) \<and>
    (\<forall>x \<in> dom_root (domains st ! v). (\<forall>p \<in> set ps. allows p x) \<longleftrightarrow> x \<in> vals st v)"
proof -
  let ?sv = "take_scope_var st v"
  let ?ps = "[PGe v (sv_min ?sv), PLe v (sv_max ?sv)] @ map (PNe v) (sv_holes ?sv)"
  note rd = st_reads [OF ok v]
  have mm: "sv_min ?sv = st_min st v" "sv_max ?sv = st_max st v" by (simp_all add: take_scope_var_def Let_def)
  have mn: "st_min st v \<in> vals st v" "st_max st v \<in> vals st v"
    "\<And>x. x \<in> vals st v \<Longrightarrow> st_min st v \<le> x \<and> x \<le> st_max st v"
    using rd(1) rd(5) [OF ne] ne by simp_all
  note h = holes_exact [OF ok v ne]
  have "domain_premises st v out = out @ ?ps" by (simp add: domain_premises_def Let_def)
  moreover have "\<forall>p \<in> set ?ps. premise_var p = v \<and> premise_holds st p"
    using mn h by (auto simp: premise_holds_def mm)
  moreover have "(\<forall>p \<in> set ?ps. allows p x) \<longleftrightarrow> x \<in> vals st v" if x: "x \<in> dom_root (domains st ! v)" for x
  proof -
    have "(\<forall>p \<in> set ?ps. allows p x) \<longleftrightarrow> st_min st v \<le> x \<and> x \<le> st_max st v \<and> x \<notin> set (sv_holes ?sv)"
      by (auto simp: mm)
    also have "\<dots> \<longleftrightarrow> x \<in> vals st v" using mn x unfolding h by (auto simp: order.order_iff_strict)
    finally show ?thesis .
  qed
  ultimately show ?thesis by blast
qed

lemma push_holes_result:
  "push_holes v hs stops out = (r, stops') \<Longrightarrow> r = None \<or> r = Some (out @ map (PNe v) hs)"
proof (induction hs arbitrary: stops out)
  case (Cons h hs)
  obtain b s1 where "poll stops = (b, s1)" by fastforce
  then show ?case using Cons.prems Cons.IH [of s1 "out @ [PNe v h]"] by (auto split: if_splits)
qed simp

lemma push_holes_no_stop: "push_holes v hs [] out = (Some (out @ map (PNe v) hs), [])"
  by (induction hs arbitrary: out) simp_all

lemma premises_until_ok:
  assumes "domain_premises_until st v out stops = (out', fin, stops')"
  shows "out' = (if fin then domain_premises st v out else out)"
proof -
  let ?d = "domains st ! v"
  obtain b1 s1 where p1: "poll stops = (b1, s1)" by fastforce
  obtain hs f s2 where p2: "(if int (st_size st v) \<noteq> st_max st v - st_min st v + 1
      then dom_append_removed_values_until ?d (s_trail st) [] s1 else ([], True, s1)) = (hs, f, s2)"
    by (metis prod_cases3)
  obtain b3 s3 where p3: "poll s2 = (b3, s3)" by fastforce
  obtain b4 s4 where p4: "poll s3 = (b4, s4)" by fastforce
  obtain r s5 where p5: "push_holes v hs s4 (out @ [PGe v (st_min st v), PLe v (st_max st v)]) = (r, s5)" by fastforce
  obtain b6 s6 where p6: "poll s5 = (b6, s6)" by fastforce
  have h: "hs = sv_holes (take_scope_var st v)" if "f"
  proof (cases "int (st_size st v) = st_max st v - st_min st v + 1")
    case True
    then show ?thesis using p2 by (simp add: take_scope_var_def Let_def)
  next
    case False
    then show ?thesis using p2 that append_until_ok [of ?d "s_trail st" "[]" s1 hs f s2]
      by (simp add: take_scope_var_def Let_def)
  qed
  have mm: "sv_min (take_scope_var st v) = st_min st v" "sv_max (take_scope_var st v) = st_max st v"
    by (simp_all add: take_scope_var_def Let_def)
  note r5 = push_holes_result [OF p5]
  show ?thesis
    using assms r5
    unfolding domain_premises_until_def p1 Let_def prod.case p2 p3 p4 p5 p6 domain_premises_def
    by (cases f) (auto simp: h mm p6 split: if_splits option.splits)
qed

lemma premises_until_no_stop: "domain_premises_until st v out [] = (domain_premises st v out, True, [])"
  unfolding domain_premises_until_def domain_premises_def
  by (simp add: Let_def take_scope_var_def append_until_no_stop push_holes_no_stop)

end
