(* ===== verification/StoreLinks.thy ===== *)
theory StoreLinks imports StoreReasons StoreStructs begin

text \<open>
  Building a store: new variables, new propagator slots and subscriptions keep its invariants,
  and the cached weighted degrees stay equal to the sums they cache, through registration and
  through every bump of a failing propagator.
\<close>

section \<open>Weighted degrees\<close>

definition degree :: "store \<Rightarrow> var_id \<Rightarrow> 64 word list \<Rightarrow> 64 word" where
  "degree st v weights = sum_list (map (\<lambda>(e, p). weights ! p) (subs st ! v))"

definition cache_ok :: "store \<Rightarrow> 64 word list \<Rightarrow> bool" where
  "cache_ok st weights \<longleftrightarrow> (\<forall>v < length (domains st). var_weight_cache st ! v = degree st v weights)"

lemma var_weight_degree: "var_weight st v weights = max (degree st v weights) 1"
proof -
  have "fold (\<lambda>(e, p) w. w + weights ! p) es a = a + sum_list (map (\<lambda>(e, p). weights ! p) es)"
    for es :: "(event \<times> prop_id) list" and a
    by (induction es arbitrary: a) (auto simp: add.assoc)
  then show ?thesis by (simp add: var_weight_def degree_def)
qed

lemma fold_modify:
  "distinct vs \<Longrightarrow> v < length c \<Longrightarrow>
     fold (\<lambda>v c. list_modify v (f v) c) vs c ! v = (if v \<in> set vs then f v (c ! v) else c ! v)"
proof (induction vs arbitrary: c)
  case (Cons a vs)
  then show ?case by (cases "a = v") (simp_all add: list_modify_def)
qed simp

lemma length_fold_modify [simp]: "length (fold (\<lambda>v c. list_modify v (f v) c) vs c) = length c"
  by (induction vs arbitrary: c) simp_all

lemma degree_bumped:
  assumes "p < length weights"
  shows "sum_list (map (\<lambda>(e, q). weights[p := weights ! p + 1] ! q) es) =
    sum_list (map (\<lambda>(e, q). weights ! q) es) + (of_nat (length (filter (\<lambda>(e, q). q = p) es)) :: 64 word)"
  using assms by (induction es) (auto simp: nth_list_update algebra_simps)

lemma bump_fields [simp]:
  "domains (bump_var_weight p st) = domains st" "s_trail (bump_var_weight p st) = s_trail st" "subs (bump_var_weight p st) = subs st"
  "scopes (bump_var_weight p st) = scopes st" "queues (bump_var_weight p st) = queues st" "enqueued (bump_var_weight p st) = enqueued st"
  "prio (bump_var_weight p st) = prio st" "relevant (bump_var_weight p st) = relevant st" "current (bump_var_weight p st) = current st"
  "length (var_weight_cache (bump_var_weight p st)) = length (var_weight_cache st)"
  by (simp_all add: bump_var_weight_def)

lemma bump_cache_ok:
  assumes c: "cache_ok st weights" and l: "links_ok st" and p: "p < length (scopes st)" "p < length weights"
    and d: "distinct (scopes st ! p)"
  shows "cache_ok (bump_var_weight p st) (weights[p := weights ! p + 1])"
  unfolding cache_ok_def
proof (intro allI impI)
  fix v assume "v < length (domains (bump_var_weight p st))"
  then have v: "v < length (domains st)" "v < length (var_weight_cache st)" "v < length (subs st)"
    using l by (simp_all add: links_ok_def)
  let ?k = "length (filter (\<lambda>(e, q). q = p) (subs st ! v))"
  have "?k = 0" if "v \<notin> set (scopes st ! p)"
  proof -
    have "q \<noteq> p" if "(e, q) \<in> set (subs st ! v)" for e q
      using l v(3) that \<open>v \<notin> _\<close> by (fastforce simp: links_ok_def)
    then show ?thesis by (auto simp: filter_empty_conv)
  qed
  then have "var_weight_cache (bump_var_weight p st) ! v = var_weight_cache st ! v + of_nat ?k"
    using fold_modify [OF d v(2), of "\<lambda>v w. w + of_nat (length (filter (\<lambda>(e, q). q = p) (subs st ! v)))"]
    by (simp add: bump_var_weight_def)
  also have "\<dots> = degree st v (weights[p := weights ! p + 1])"
    using c v(1) degree_bumped [OF p(2), of "subs st ! v"] by (simp add: cache_ok_def degree_def)
  finally show "var_weight_cache (bump_var_weight p st) ! v = degree (bump_var_weight p st) v (weights[p := weights ! p + 1])"
    by (simp add: degree_def)
qed

section \<open>Slots and subscriptions\<close>

lemma first_seen_set: "set (first_seen seen xs) = set xs - set seen"
  by (induction seen xs rule: first_seen.induct) auto

lemma first_seen_distinct: "distinct (first_seen seen xs)"
  by (induction seen xs rule: first_seen.induct) (auto simp: first_seen_set)

lemma doms_same: "\<lbrakk>doms_ok st; domains st' = domains st; s_trail st' = s_trail st\<rbrakk> \<Longrightarrow> doms_ok st' \<and> st_view st' = st_view st"
  using doms_ok_cong [of st' st] by simp

lemma alloc_ok:
  assumes "sched_ok st" "links_ok st" and a: "alloc_prop st = (p, st')"
  shows "sched_ok st'" "links_ok st'" "p = length (enqueued st)" "length (enqueued st') = Suc p"
    "domains st' = domains st" "s_trail st' = s_trail st" "scopes st' ! p = []" "\<not> queued st' p"
    "subs st' = subs st" "var_weight_cache st' = var_weight_cache st" "queued st' q = queued st q" "current st' = current st"
proof -
  have st': "p = length (enqueued st)"
    "st' = st\<lparr>enqueued := enqueued st @ [False], prio := prio st @ [Linear], scopes := scopes st @ [[]]\<rparr>"
    using a by (simp_all add: alloc_prop_def)
  have l: "length (scopes st) = length (enqueued st)" using assms(1) by (simp add: sched_ok_def)
  have q: "queued st' x = queued st x" for x by (simp add: queued_def st'(2))
  have en: "enqueued st' = enqueued st @ [False]" by (simp add: st'(2))
  show "queued st' q = queued st q" by (rule q)
  show "\<not> queued st' p" using sched_flag [OF assms(1), of p] by (simp add: q st'(1))
  have "queued st' x \<longleftrightarrow> x < length (enqueued st') \<and> enqueued st' ! x" for x
    using sched_flag [OF assms(1), of x] unfolding q en by (auto simp: nth_append)
  then show "sched_ok st'" using assms(1) by (simp add: sched_ok_def st'(2))
  have "p < length (enqueued st') \<and> v \<in> set (scopes st' ! p)" if "v < length (subs st)" "(e, p) \<in> set (subs st ! v)" for v e p
    using assms(2) that l by (fastforce simp: links_ok_def st'(2) nth_append)
  moreover have "v < length (domains st)" if "x < length (scopes st')" "v \<in> set (scopes st' ! x)" for x v
    using assms(2) that by (auto simp: links_ok_def st'(2) nth_append split: if_splits)
  ultimately show "links_ok st'" using assms(2) by (fastforce simp: links_ok_def st'(2))
  show "p = length (enqueued st)" "length (enqueued st') = Suc p" "domains st' = domains st" "s_trail st' = s_trail st"
    "subs st' = subs st" "var_weight_cache st' = var_weight_cache st" "current st' = current st" by (simp_all add: st')
  show "scopes st' ! p = []" using l by (simp add: st' nth_append)
qed

lemma subscribe_fields [simp]:
  "domains (subscribe v p e st) = domains st" "s_trail (subscribe v p e st) = s_trail st"
  "queues (subscribe v p e st) = queues st" "enqueued (subscribe v p e st) = enqueued st"
  "prio (subscribe v p e st) = prio st" "current (subscribe v p e st) = current st"
  "scopes (subscribe v p e st) = list_modify p (\<lambda>s. s @ [v]) (scopes st)"
  "length (subs (subscribe v p e st)) = length (subs st)"
  "length (var_weight_cache (subscribe v p e st)) = length (var_weight_cache st)"
  "length (relevant (subscribe v p e st)) = length (relevant st)"
  by (simp_all add: subscribe_def mark_relevant_def Let_def)

lemma subscribe_subs:
  "v < length (subs st) \<Longrightarrow> w < length (subs st) \<Longrightarrow>
     set (subs (subscribe v p e st) ! w) = set (subs st ! w) \<union> (if w = v then {(e, p)} else {})"
  by (auto simp: subscribe_def mark_relevant_def Let_def nth_modify)

lemma subscribe_ok:
  assumes l: "links_ok st" and v: "v < length (domains st)" and p: "p < length (enqueued st)" "p < length (scopes st)"
  shows "links_ok (subscribe v p e st)"
proof -
  let ?st = "subscribe v p e st"
  have len: "length (subs st) = length (domains st)" using l by (simp add: links_ok_def)
  have sc: "set (scopes ?st ! q) = set (scopes st ! q) \<union> (if q = p then {v} else {})" if "q < length (scopes st)" for q
    using that by (simp add: nth_modify)
  have sup: "x \<in> set (scopes ?st ! q)" if "x \<in> set (scopes st ! q)" for x q
    using that by (cases "q = p") (simp_all add: list_modify_def p(2))
  have "q < length (enqueued st) \<and> w \<in> set (scopes ?st ! q)" if w: "w < length (subs st)" and q: "(ev, q) \<in> set (subs ?st ! w)" for w ev q
  proof (cases "(ev, q) \<in> set (subs st ! w)")
    case True
    then have "q < length (enqueued st) \<and> w \<in> set (scopes st ! q)" using l w by (fastforce simp: links_ok_def)
    then show ?thesis using sup by blast
  next
    case False
    then have "w = v" "q = p" using subscribe_subs [of v st w p e] q v w len by (auto split: if_splits)
    then show ?thesis using p by (simp add: nth_modify)
  qed
  moreover have "w < length (domains st)" if "q < length (scopes st)" "w \<in> set (scopes ?st ! q)" for q w
    using sc [OF that(1)] that l v by (auto simp: links_ok_def split: if_splits)
  ultimately show ?thesis using l by (fastforce simp: links_ok_def)
qed

lemma subscribe_cache:
  assumes c: "cache_ok st weights" and l: "links_ok st" and v: "v < length (domains st)" and w: "weights ! p = 1"
  shows "cache_ok (subscribe v p e st) weights"
proof -
  have len: "length (subs st) = length (domains st)" "length (var_weight_cache st) = length (domains st)"
    using l by (simp_all add: links_ok_def)
  have "var_weight_cache (subscribe v p e st) ! u = degree (subscribe v p e st) u weights" if "u < length (domains st)" for u
    using c that v len w by (auto simp: cache_ok_def degree_def subscribe_def mark_relevant_def Let_def nth_modify)
  then show ?thesis by (simp add: cache_ok_def)
qed

lemma subscribe_queued [simp]: "queued (subscribe v p e st) q = queued st q"
  by (simp add: queued_def)

lemma subscribe_sched [simp]: "sched_ok (subscribe v p e st) = sched_ok st"
  by (simp add: sched_ok_def)

lemma finalize_ok:
  assumes "sched_ok st" "links_ok st" "p < length (scopes st)"
  shows "sched_ok (finalize_scope p st)" "links_ok (finalize_scope p st)" "distinct (scopes (finalize_scope p st) ! p)"
    "cache_ok (finalize_scope p st) weights = cache_ok st weights"
proof -
  have s: "set (scopes (finalize_scope p st) ! q) = set (scopes st ! q)" for q
  proof (cases "q = p")
    case True
    then show ?thesis using assms(3) by (simp add: finalize_scope_def nth_modify first_seen_set)
  next
    case False
    then show ?thesis by (simp add: finalize_scope_def list_modify_def)
  qed
  show "distinct (scopes (finalize_scope p st) ! p)"
    using assms(3) by (simp add: finalize_scope_def nth_modify first_seen_distinct)
  show "sched_ok (finalize_scope p st)" using assms(1) by (simp add: finalize_scope_def sched_ok_def queued_def)
  show "cache_ok (finalize_scope p st) weights = cache_ok st weights"
    by (simp add: finalize_scope_def cache_ok_def degree_def)
  have f: "subs (finalize_scope p st) = subs st" "domains (finalize_scope p st) = domains st"
    "var_weight_cache (finalize_scope p st) = var_weight_cache st" "relevant (finalize_scope p st) = relevant st"
    "enqueued (finalize_scope p st) = enqueued st" "length (scopes (finalize_scope p st)) = length (scopes st)"
    by (simp_all add: finalize_scope_def)
  show "links_ok (finalize_scope p st)" using assms(2) unfolding links_ok_def s f .
qed

section \<open>New variables\<close>

lemma new_ints_frame:
  "dom_ok d t \<Longrightarrow> dom_ok d (new_ints t vs) \<and> dom_set d (new_ints t vs) = dom_set d t"
  by (induction t vs rule: new_ints.induct) (simp_all add: dom_ok_new_int)

lemma dom_new_range_fresh:
  assumes "dom_new_range lo hi t = Some (d, t')"
  shows "(\<exists>vs. t' = new_ints t vs) \<and> (\<forall>r \<in> set (handle_list d). length (t_values t) \<le> r)"
proof (cases "span_len lo hi \<le> max_dense_range_values")
  case True
  then have "dom_from_dense_range lo hi (span_len lo hi) t = (d, t')"
    using assms by (simp add: dom_new_range_def split: if_splits)
  then have "t' = new_ints t [as_i32 (int (span_len lo hi)), lo, hi] \<and> (\<forall>r \<in> set (handle_list d). length (t_values t) \<le> r)"
    by (auto simp: dom_from_dense_range_def trail_new_int_def handle_list_def Let_def)
  then show ?thesis by blast
next
  case False
  then have "dom_from_bounds_range lo hi t = (d, t')"
    using assms by (simp add: dom_new_range_def split: if_splits)
  then have "t' = new_ints t [0, 0, 0, 0, lo, hi] \<and> (\<forall>r \<in> set (handle_list d). length (t_values t) \<le> r)"
    by (auto simp: dom_from_bounds_range_def trail_new_int_def handle_list_def Let_def)
  then show ?thesis by blast
qed

lemma handles_bound: "doms_ok st \<Longrightarrow> v < length (domains st) \<Longrightarrow> handles st v \<subseteq> {..<length (t_values (s_trail st))}"
  using dom_ok_static [OF doms_ok_dom] by (fastforce simp: dom_static_def handles_def)

lemma push_var_ok:
  assumes ok: "doms_ok st" and new: "dom_ok d t" "dom_set d t = S" "t = new_ints (s_trail st) vs"
    and fresh: "\<forall>r \<in> set (handle_list d). length (t_values (s_trail st)) \<le> r"
    and res: "push_var d t st = (st', v)"
  shows "doms_ok st'" "st_view st' = st_view st @ [S]" "v = length (domains st)"
proof -
  have st': "domains st' = domains st @ [d]" "s_trail st' = t" "v = length (domains st)"
    using res by (auto simp: push_var_def)
  have old: "dom_ok (domains st ! w) t \<and> dom_set (domains st ! w) t = dom_set (domains st ! w) (s_trail st)"
    if "w < length (domains st)" for w
    unfolding new(3) using new_ints_frame [OF doms_ok_dom [OF ok that]] .
  have h: "handles st' w = (if w = length (domains st) then set (handle_list d) else handles st w)" if "w < Suc (length (domains st))" for w
    using that by (auto simp: handles_def st' nth_append)
  have dj: "handles st w \<inter> set (handle_list d) = {}" if "w < length (domains st)" for w
    using handles_bound [OF ok that] fresh by fastforce
  have "dom_ok (domains st' ! w) t" if "w < Suc (length (domains st))" for w
    using old new(1) that by (auto simp: st' nth_append less_Suc_eq)
  moreover have "handles st' a \<inter> handles st' b = {}"
    if "a < Suc (length (domains st))" "b < Suc (length (domains st))" "a \<noteq> b" for a b
  proof -
    have "handles st a \<inter> handles st b = {}" if "a < length (domains st)" "b < length (domains st)"
      using ok that \<open>a \<noteq> b\<close> by (simp add: doms_ok_def)
    then show ?thesis
      using that dj [of a] dj [of b] unfolding h [OF that(1)] h [OF that(2)]
      by (cases "a = length (domains st)"; cases "b = length (domains st)") (simp_all add: Int_commute)
  qed
  moreover have "trail_ok t" using new(1) dom_ok_trail by blast
  ultimately show "doms_ok st'" by (simp add: doms_ok_def st')
  show "st_view st' = st_view st @ [S]"
    using old new(2) by (intro nth_equalityI) (auto simp: st_view_def st' nth_append less_Suc_eq)
  show "v = length (domains st)" by (rule st'(3))
qed

lemma new_var_range_ok:
  assumes ok: "doms_ok st" and i32: "in_i32 lo" "in_i32 hi" and res: "new_var_range lo hi st = Some (st', v)"
  shows "doms_ok st'" "st_view st' = st_view st @ [{lo..hi}]" "v = length (domains st)"
proof -
  obtain d t where d: "dom_new_range lo hi (s_trail st) = Some (d, t)" "push_var d t st = (st', v)"
    using res by (auto simp: new_var_range_def split: option.splits)
  have tr: "trail_ok (s_trail st)" using ok by (simp add: doms_ok_def)
  obtain vs where vs: "t = new_ints (s_trail st) vs" "\<forall>r \<in> set (handle_list d). length (t_values (s_trail st)) \<le> r"
    using dom_new_range_fresh [OF d(1)] by blast
  note N = dom_new_range_ok [OF tr i32 d(1)]
  show "doms_ok st'" "st_view st' = st_view st @ [{lo..hi}]" "v = length (domains st)"
    using push_var_ok [OF ok _ _ vs d(2)] N by auto
qed

lemma push_var_links:
  assumes l: "links_ok st" and res: "push_var d t st = (st', v)"
  shows "links_ok st'" "sched_ok st' = sched_ok st" "queued st' q = queued st q" "cache_ok st weights \<Longrightarrow> cache_ok st' weights"
    "enqueued st' = enqueued st" "scopes st' = scopes st"
proof -
  have st': "st' = st\<lparr>domains := domains st @ [d], s_trail := t, subs := subs st @ [[]],
     var_weight_cache := var_weight_cache st @ [0], relevant := relevant st @ [False]\<rparr>"
    using res by (simp add: push_var_def)
  show "links_ok st'" using l by (auto simp: links_ok_def st' nth_append less_Suc_eq)
  show "sched_ok st' = sched_ok st" "queued st' q = queued st q" "enqueued st' = enqueued st" "scopes st' = scopes st"
    by (simp_all add: sched_ok_def queued_def st')
  show "cache_ok st' weights" if "cache_ok st weights"
    using that l by (auto simp: cache_ok_def degree_def st' links_ok_def nth_append less_Suc_eq)
qed

lemma new_bool_ok:
  assumes ok: "doms_ok st" and res: "new_bool st = (st', v)"
  shows "doms_ok st'" "st_view st' = st_view st @ [{0, 1}]" "v = length (domains st)"
proof -
  have "dom_new_range 0 1 (s_trail st) \<noteq> None" by (simp add: dom_new_range_def Let_def)
  then obtain d t where d: "dom_new_range 0 1 (s_trail st) = Some (d, t)" by fast
  have i: "in_i32 0" "in_i32 1" by (simp_all add: in_i32_def i32_min_def i32_max_def)
  have "new_var_range 0 1 st = Some (st', v)" using res d by (simp add: new_var_range_def new_bool_def)
  moreover have "{0..1} = {0, 1 :: int}" by auto
  ultimately show "doms_ok st'" "st_view st' = st_view st @ [{0, 1}]" "v = length (domains st)"
    using new_var_range_ok [OF ok i] by simp_all
qed

end
