(* ===== verification/StoreContract.thy ===== *)
theory StoreContract imports StoreLinks Backtrack begin

text \<open>
  The store keeps the backtracking contract as a whole, and the structured domains built on
  it keep theirs: a list is a pair of item sets, required within possible, and every list
  operation is the set operation it is named after.
\<close>

section \<open>Levels\<close>

definition store_op :: "var_id \<times> dom_op \<Rightarrow> store \<Rightarrow> store" where
  "store_op o' st = fst (st_apply (fst o') (snd o') st)"

definition store_can :: "var_id \<times> dom_op \<Rightarrow> store \<Rightarrow> bool" where
  "store_can o' st \<longleftrightarrow> fst o' < length (domains st) \<and> dom_can (snd o') (domains st ! fst o', s_trail st) \<and>
     st_size st (fst o') \<noteq> 0"

definition sets_op :: "var_id \<times> dom_op \<Rightarrow> int set list \<Rightarrow> int set list" where
  "sets_op o' D = D[fst o' := set_apply (snd o') (D ! fst o')]"

lemma vals_alive: "doms_ok st \<Longrightarrow> v < length (domains st) \<Longrightarrow> st_size st v \<noteq> 0 \<longleftrightarrow> vals st v \<noteq> {}"
  using st_reads(1,2) [of st v] by simp

lemma pop_level_cases:
  assumes ok: "doms_ok st"
  shows "case pop_level st of None \<Rightarrow> st_saved st = []
    | Some st' \<Rightarrow> doms_ok st' \<and> st_saved st = st_view st' # st_saved st'"
proof (cases "trail_pop_level (s_trail st)")
  case None
  then have "snapshots (s_trail st) = []" using trail_pop_Some [of "s_trail st"] ok by (auto simp: doms_ok_def)
  with None show ?thesis by (simp add: pop_level_def st_saved_def)
next
  case (Some t)
  let ?st = "st\<lparr>s_trail := t\<rparr>"
  have tr: "trail_ok (s_trail st)" using ok by (simp add: doms_ok_def)
  have d: "dom_ok (domains st ! v) t" if "v < length (domains st)" for v
    using dom_ok_pop(1) [OF doms_ok_dom [OF ok that] Some] .
  have h: "t_values t # snapshots t = snapshots (s_trail st)"
    using pop_history [OF tr Some] by (simp add: history_def)
  have "doms_ok ?st" using ok d trail_ok_pop [OF tr Some] by (simp add: doms_ok_def handles_def)
  moreover have "st_saved st = st_view ?st # st_saved ?st"
    unfolding st_saved_def st_view_def h [symmetric] by (simp add: dom_set_def)
  ultimately show ?thesis by (simp add: pop_level_def Some)
qed

lemma push_level_ok:
  assumes ok: "doms_ok st"
  shows "doms_ok (push_level st)" "st_view (push_level st) = st_view st" "st_saved (push_level st) = st_view st # st_saved st"
  using ok dom_ok_push [OF doms_ok_dom [OF ok]] trail_ok_push [of "s_trail st"]
  by (simp_all add: doms_ok_def push_level_def handles_def st_view_def st_saved_def trail_simps dom_set_def)

interpretation store: backtrackable doms_ok st_view st_saved store_can store_op sets_op push_level pop_level
proof
  show "doms_ok (store_op c st) \<and> st_view (store_op c st) = sets_op c (st_view st) \<and> st_saved (store_op c st) = st_saved st"
    if ok: "doms_ok st" and can: "store_can c st" for st c
  proof -
    obtain v o' where c: "c = (v, o')" by (cases c)
    obtain st' r where run: "st_apply v o' st = (st', r)" by fastforce
    have v: "v < length (domains st)" "vals st v \<noteq> {}" "dom_can o' (domains st ! v, s_trail st)"
      using can vals_alive [OF ok, of v] by (auto simp: store_can_def c)
    from st_apply_ok [OF ok v run] show ?thesis by (simp add: store_op_def sets_op_def c run v)
  qed
  show "doms_ok (push_level st) \<and> st_view (push_level st) = st_view st \<and> st_saved (push_level st) = st_view st # st_saved st"
    if "doms_ok st" for st
    using push_level_ok [OF that] by simp
  show "case pop_level st of None \<Rightarrow> st_saved st = [] | Some st' \<Rightarrow> doms_ok st' \<and> st_saved st = st_view st' # st_saved st'"
    if "doms_ok st" for st
    using pop_level_cases [OF that] .
qed

section \<open>Boolean variables\<close>

definition bool_var :: "store \<Rightarrow> var_id \<Rightarrow> bool" where
  "bool_var st v \<longleftrightarrow> v < length (domains st) \<and> vals st v \<noteq> {} \<and> vals st v \<subseteq> {0, 1}"

lemma bool_var_cases:
  assumes "bool_var st v"
  obtains "vals st v = {0}" | "vals st v = {1}" | "vals st v = {0, 1}"
proof -
  have "vals st v = {0} \<or> vals st v = {1} \<or> vals st v = {0, 1}"
    using assms unfolding bool_var_def by (elim conjE) blast
  then show thesis using that by blast
qed

lemma fixed_value:
  assumes ok: "doms_ok st" and b: "v < length (domains st)" "vals st v \<noteq> {}"
  shows "st_value st v = (if card (vals st v) = 1 then Some (the_elem (vals st v)) else None)"
proof (cases "card (vals st v) = 1")
  case True
  then obtain x where "vals st v = {x}" by (auto simp: card_1_singleton_iff)
  then show ?thesis using st_reads(4,5) [OF ok b(1)] by (simp add: st_value_def)
next
  case False
  then show ?thesis using st_reads(4) [OF ok b(1)] by (simp add: st_value_def)
qed

lemma small_i32: "in_i32 0" "in_i32 1"
  by (simp_all add: in_i32_def i32_min_def i32_max_def)

lemma st_fix_ok:
  assumes ok: "doms_ok st" and v: "v < length (domains st)" "vals st v \<noteq> {}" and x: "in_i32 x" "x \<in> vals st v"
    and run: "st_fix v x st = (st', r)"
  shows "doms_ok st' \<and> st_view st' = (st_view st)[v := {x}] \<and> st_saved st' = st_saved st \<and> r = Ok ()"
proof -
  have "st_apply v (Fix x) st = (st', r)" using run by simp
  from st_apply_ok [OF ok v _ this] x show ?thesis by simp
qed

lemma decide_ok:
  assumes ok: "doms_ok st" and b: "bool_var st v" and x: "x = 0 \<or> x = 1" and run: "decide v x st = (st', r)"
  shows "if x \<notin> vals st v then st' = st \<and> r = Err Inconsistency
    else if vals st v = {x} then st' = st \<and> r = Ok False
    else doms_ok st' \<and> st_view st' = (st_view st)[v := {x}] \<and> st_saved st' = st_saved st \<and> r = Ok True"
proof -
  have v: "v < length (domains st)" "vals st v \<noteq> {}" using b by (simp_all add: bool_var_def)
  note rd = st_reads [OF ok v(1)] and val = fixed_value [OF ok v]
  have i: "in_i32 x" using x small_i32 by blast
  obtain st1 r1 where f: "st_fix v x st = (st1, r1)" by fastforce
  from b show ?thesis
  proof (cases rule: bool_var_cases)
    case 1
    then have "st_is_fixed st v" "st_value st v = Some 0" using rd(4) val by simp_all
    then show ?thesis using run x 1 by (simp add: decide_def split: if_splits)
  next
    case 2
    then have "st_is_fixed st v" "st_value st v = Some 1" using rd(4) val by simp_all
    then show ?thesis using run x 2 by (simp add: decide_def split: if_splits)
  next
    case 3
    then have "x \<in> vals st v" "\<not> st_is_fixed st v" "vals st v \<noteq> {x}" using x rd(4) by auto
    then show ?thesis using run st_fix_ok [OF ok v i _ f] by (simp add: decide_def then_ok_def f)
  qed
qed

section \<open>Lists\<close>

definition list_ok :: "store \<Rightarrow> list_id \<Rightarrow> bool" where
  "list_ok st l \<longleftrightarrow> (let ld = list_domains st ! l in
     distinct (ld_universe ld) \<and> distinct (ld_members ld) \<and> length (ld_members ld) = length (ld_universe ld) \<and>
     (\<forall>m \<in> set (ld_members ld). bool_var st m))"

definition required :: "store \<Rightarrow> list_id \<Rightarrow> int set" where
  "required st l = {x. \<exists>m. list_member_var st l x = Some m \<and> vals st m = {1}}"

definition possible :: "store \<Rightarrow> list_id \<Rightarrow> int set" where
  "possible st l = {x. \<exists>m. list_member_var st l x = Some m \<and> 1 \<in> vals st m}"

lemma position_Some: "position x xs = Some i \<Longrightarrow> i < length xs \<and> xs ! i = x"
  by (induction xs arbitrary: i) (auto split: if_splits)

lemma position_None: "position x xs = None \<longleftrightarrow> x \<notin> set xs"
  by (induction xs) auto

lemma member_var:
  assumes "list_ok st l" "list_member_var st l x = Some m"
  shows "bool_var st m"
  using assms position_Some by (fastforce simp: list_ok_def Let_def list_member_var_def list_index_of_def)

lemma member_var_inj:
  assumes "list_ok st l" "list_member_var st l x = Some m" "list_member_var st l y = Some m"
  shows "x = y"
proof -
  obtain i j where "position x (ld_universe (list_domains st ! l)) = Some i" "position y (ld_universe (list_domains st ! l)) = Some j"
    "ld_members (list_domains st ! l) ! i = m" "ld_members (list_domains st ! l) ! j = m"
    using assms(2,3) by (auto simp: list_member_var_def list_index_of_def)
  note ij = this
  note p = position_Some [OF ij(1)] position_Some [OF ij(2)]
  have d: "distinct (ld_members (list_domains st ! l))" "length (ld_members (list_domains st ! l)) = length (ld_universe (list_domains st ! l))"
    using assms(1) by (simp_all add: list_ok_def Let_def)
  have "i = j" using nth_eq_iff_index_eq [OF d(1), of i j] p ij(3,4) d(2) by simp
  then show ?thesis using p by simp
qed

lemma required_possible: "list_ok st l \<Longrightarrow> required st l \<subseteq> possible st l"
  by (auto simp: required_def possible_def)

lemma list_reads:
  assumes ok: "doms_ok st" and l: "list_ok st l"
  shows "list_possible st l x \<longleftrightarrow> x \<in> possible st l" "list_required st l x \<longleftrightarrow> x \<in> required st l"
proof -
  show "list_possible st l x \<longleftrightarrow> x \<in> possible st l"
    using st_reads(3) [OF ok] member_var [OF l] by (auto simp: list_possible_def possible_def bool_var_def split: option.splits)
  have "fixed_to st m 1 \<longleftrightarrow> vals st m = {1}" if m: "bool_var st m" for m
  proof -
    have v: "m < length (domains st)" "vals st m \<noteq> {}" using m by (simp_all add: bool_var_def)
    show ?thesis
      by (cases rule: bool_var_cases [OF m]) (simp_all add: fixed_to_def st_reads(4) [OF ok v(1)] fixed_value [OF ok v])
  qed
  then show "list_required st l x \<longleftrightarrow> x \<in> required st l"
    using member_var [OF l] by (auto simp: list_required_def required_def split: option.splits)
qed

lemma st_fix_lists:
  assumes ok: "doms_ok st" and v: "v < length (domains st)" "vals st v \<noteq> {}" and x: "in_i32 x" "x \<in> vals st v"
    and run: "st_fix v x st = (st', r)"
  shows "list_domains st' = list_domains st \<and> interval_domains st' = interval_domains st \<and> length (domains st') = length (domains st)"
proof -
  have a: "st_apply v (Fix x) st = (st', r)" using run by simp
  obtain cause st1 st2 where c: "unstaged st st1" "\<exists>d t. st2 = set_domain v d t st1"
    and out: "if fails (Fix x) (vals st v) then st' = st2 \<and> r = Err Inconsistency
     else if set_apply (Fix x) (vals st v) = vals st v then st' = st2 \<and> r = Ok ()
     else st' = emit (op_event v (Fix x)) cause (notify v (st_min st2 v \<noteq> st_min st v \<or> st_max st2 v \<noteq> st_max st v)
            (card (set_apply (Fix x) (vals st v)) = 1) st2) \<and> r = Ok ()"
    using st_apply_cases [OF ok v _ a] x(1) unfolding dom_can.simps by metis
  have f2: "list_domains st2 = list_domains st \<and> interval_domains st2 = interval_domains st \<and> length (domains st2) = length (domains st)"
    using c by (auto simp: unstaged_def set_domain_def)
  have n: "list_domains (notify v b f st2) = list_domains st2 \<and> interval_domains (notify v b f st2) = interval_domains st2
      \<and> domains (notify v b f st2) = domains st2" for b f
    using rescheduled_notify [of st2 v b f] by (auto simp: rescheduled_def)
  show ?thesis using out f2 n by (auto simp: emit_def split: if_splits)
qed

lemma view_vals:
  assumes "st_view st' = (st_view st)[v := S]" "w < length (domains st)"
  shows "vals st' w = (if w = v then S else vals st w)"
  using assms by (metis length_list_update length_view nth_list_update_eq nth_list_update_neq view_nth)

text \<open>Deciding the membership of one item decides no other item.\<close>

lemma decide_member:
  assumes ok: "doms_ok st" and l: "list_ok st l" and m: "list_member_var st l item = Some m"
    and x: "x = 0 \<or> x = 1" and run: "decide m x st = (st', r)" and und: "vals st m = {0, 1}"
  shows "doms_ok st' \<and> list_ok st' l \<and> r = Ok True \<and>
    required st' l = (if x = 1 then insert item (required st l) else required st l) \<and>
    possible st' l = (if x = 1 then possible st l else possible st l - {item})"
proof -
  have b: "bool_var st m" using member_var [OF l m] .
  then have v: "m < length (domains st)" "vals st m \<noteq> {}" by (simp_all add: bool_var_def)
  have D: "doms_ok st'" "st_view st' = (st_view st)[m := {x}]" "r = Ok True"
    using decide_ok [OF ok b x run] und x by (auto split: if_splits)
  obtain st1 r1 where f: "st_fix m x st = (st1, r1)" by fastforce
  have "st' = st1" "r1 = Ok ()"
    using run st_reads(4) [OF ok v(1)] und D(3) by (auto simp: decide_def then_ok_def f split: result.splits)
  then have s: "list_domains st' = list_domains st" "length (domains st') = length (domains st)"
    using st_fix_lists [OF ok v _ _ f] x und small_i32 by auto
  have V: "vals st' w = (if w = m then {x} else vals st w)" if "w < length (domains st)" for w
    using view_vals [OF D(2) that] .
  have mv: "list_member_var st' l y = list_member_var st l y" for y by (simp add: list_member_var_def s)
  have B: "bool_var st' w" if "bool_var st w" for w
    using that V [of w] x by (auto simp: bool_var_def s)
  then have "list_ok st' l" using l by (simp add: list_ok_def Let_def s)
  moreover have "required st' l = (if x = 1 then insert item (required st l) else required st l)"
  proof (rule set_eqI)
    fix y
    show "y \<in> required st' l \<longleftrightarrow> y \<in> (if x = 1 then insert item (required st l) else required st l)"
    proof (cases "list_member_var st l y")
      case (Some w)
      have "bool_var st w" using member_var [OF l Some] .
      then have w: "w < length (domains st)" by (simp add: bool_var_def)
      have "w = m \<longleftrightarrow> y = item" using member_var_inj [OF l Some, of item] m Some by (metis option.inject)
      then show ?thesis using V [OF w] und x by (auto simp: required_def mv Some)
    qed (use m in \<open>auto simp: required_def mv\<close>)
  qed
  moreover have "possible st' l = (if x = 1 then possible st l else possible st l - {item})"
  proof (rule set_eqI)
    fix y
    show "y \<in> possible st' l \<longleftrightarrow> y \<in> (if x = 1 then possible st l else possible st l - {item})"
    proof (cases "list_member_var st l y")
      case (Some w)
      have "bool_var st w" using member_var [OF l Some] .
      then have w: "w < length (domains st)" by (simp add: bool_var_def)
      have "w = m \<longleftrightarrow> y = item" using member_var_inj [OF l Some, of item] m Some by (metis option.inject)
      then show ?thesis using V [OF w] und x by (auto simp: possible_def mv Some)
    qed (use m in \<open>auto simp: possible_def mv\<close>)
  qed
  ultimately show ?thesis using D by blast
qed

lemma require_item_ok:
  assumes ok: "doms_ok st" and l: "list_ok st l" and run: "require_list_item l item st = (st', r)"
  shows "if item \<notin> possible st l then st' = st \<and> r = Err Inconsistency
    else if item \<in> required st l then st' = st \<and> r = Ok False
    else doms_ok st' \<and> list_ok st' l \<and> r = Ok True \<and>
      required st' l = insert item (required st l) \<and> possible st' l = possible st l"
proof (cases "list_member_var st l item")
  case None
  then show ?thesis using run by (auto simp: require_list_item_def possible_def)
next
  case (Some m)
  then have d: "decide m 1 st = (st', r)" using run by (simp add: require_list_item_def)
  have b: "bool_var st m" using member_var [OF l Some] .
  then show ?thesis
    using decide_ok [OF ok b _ d] decide_member [OF ok l Some _ d]
    by (cases rule: bool_var_cases [OF b]) (auto simp: possible_def required_def Some)
qed

lemma forbid_item_ok:
  assumes ok: "doms_ok st" and l: "list_ok st l" and run: "forbid_list_item l item st = (st', r)"
  shows "if item \<in> required st l then st' = st \<and> r = Err Inconsistency
    else if item \<notin> possible st l then st' = st \<and> r = Ok False
    else doms_ok st' \<and> list_ok st' l \<and> r = Ok True \<and>
      required st' l = required st l \<and> possible st' l = possible st l - {item}"
proof (cases "list_member_var st l item")
  case None
  then show ?thesis using run by (auto simp: forbid_list_item_def possible_def required_def)
next
  case (Some m)
  then have d: "decide m 0 st = (st', r)" using run by (simp add: forbid_list_item_def)
  have b: "bool_var st m" using member_var [OF l Some] .
  then show ?thesis
    using decide_ok [OF ok b _ d] decide_member [OF ok l Some _ d]
    by (cases rule: bool_var_cases [OF b]) (auto simp: possible_def required_def Some)
qed

end
