(* ===== verification/Evolve.thy ===== *)
theory Evolve imports StoreContract begin

text \<open>
  What code that works through the mutators of the store can do to it: value sets shrink, the
  propagators watching a change are queued, nothing else of the schedule moves. A wide domain
  records each interior removal in an \<open>i32\<close> counter; \<open>roomy\<close> says that the counter cannot
  overflow however many values are still removed, and every mutator keeps it.
\<close>

section \<open>Room for holes\<close>

definition hole_count :: "domain \<Rightarrow> trail \<Rightarrow> int" where
  "hole_count d t = (case d_map d of Bounds hs hl em ah \<Rightarrow> trail_get t hl | _ \<Rightarrow> 0)"

definition holes_at :: "domain \<Rightarrow> int list \<Rightarrow> int" where
  "holes_at d s = (case d_map d of Bounds hs hl em ah \<Rightarrow> s ! hl | _ \<Rightarrow> 0)"

definition room_at :: "domain \<Rightarrow> int list \<Rightarrow> bool" where
  "room_at d s \<longleftrightarrow> holes_at d s + int (card (vset d s)) \<le> i32_max"

text \<open>Room now, and at every level that can be returned to.\<close>

definition roomy :: "domain \<Rightarrow> trail \<Rightarrow> bool" where
  "roomy d t \<longleftrightarrow> (\<forall>s \<in> set (history t). room_at d s)"

lemma roomy_iff:
  "roomy d t \<longleftrightarrow> hole_count d t + int (card (dom_set d t)) \<le> i32_max \<and> (\<forall>s \<in> set (snapshots t). room_at d s)"
  by (simp add: roomy_def room_at_def holes_at_def hole_count_def history_def dom_set_def trail_get_def split: value_map.splits)

lemma room_at_cong:
  assumes "\<And>r. r \<in> set (handle_list d) \<Longrightarrow> s' ! r = s ! r"
  shows "room_at d s' = room_at d s"
proof -
  have "holes_at d s' = holes_at d s" using assms by (auto simp: holes_at_def handle_list_def split: value_map.splits)
  then show ?thesis using vset_cong [of d s' s, OF assms] by (simp add: room_at_def)
qed

lemma room_at_static: "handle_list d' = handle_list d \<Longrightarrow> vset d' s = vset d s \<Longrightarrow> room_at d' s = room_at d s"
  by (auto simp: room_at_def holes_at_def handle_list_def split: value_map.splits)

lemma roomy_pop: "trail_ok t \<Longrightarrow> trail_pop_level t = Some t' \<Longrightarrow> roomy d t \<Longrightarrow> roomy d t'"
  using pop_history [of t t'] by (simp add: roomy_def history_def)

lemma roomy_push: "roomy d (trail_push_level t) = roomy d t"
  by (auto simp: roomy_def history_push) (simp add: history_def)

lemma roomy_room: "roomy d t \<Longrightarrow> dom_set d t \<noteq> {} \<Longrightarrow> hole_room d t"
  using card_gt_0_iff [of "dom_set d t"] by (auto simp: roomy_iff hole_count_def hole_room_def split: value_map.splits)

lemma same_map_run:
  assumes "dom_ok d t" "d_map d = Bounds hs hl em ah"
  shows "trail_get (dom_set_bounds_empty d t) hl = trail_get t hl" "trail_get (dom_set_bounds_min d v t) hl = trail_get t hl"
    "trail_get (dom_set_bounds_max d v t) hl = trail_get t hl"
  using dom_ok_static [OF assms(1)] assms(2)
  by (auto simp: dom_static_def handle_list_def dom_set_bounds_empty_def dom_set_bounds_min_def dom_set_bounds_max_def
      Let_def trail_get_def trail_simps)

lemma indexed_map:
  assumes nb: "\<not> dom_is_bounds d" and ok: "dom_ok d t" and run: "dom_run c d t = (d', t', r)"
    and can: "dom_can c (d, t)" and ne: "dom_set d t \<noteq> {}"
  shows "\<not> dom_is_bounds d'"
proof -
  have "handle_list d' = handle_list d" using dom_run_ok(1) [OF ok can ne run] by (simp add: dom_step_def)
  then show ?thesis using nb by (auto simp: handle_list_def dom_is_bounds_def split: value_map.splits)
qed

lemma hole_count_indexed: "\<not> dom_is_bounds d \<Longrightarrow> hole_count d t = 0"
  by (auto simp: hole_count_def dom_is_bounds_def split: value_map.splits)

lemma hole_count_step:
  assumes ok: "dom_ok d t" and b: "dom_is_bounds d" and ne: "dom_set d t \<noteq> {}"
    and can: "dom_can c (d, t)" and run: "dom_run c d t = (d', t', r)"
  shows "hole_count d' t' \<le> hole_count d t + (if \<exists>x. c = Remove x \<and> x \<in> dom_set d t then 1 else 0)"
proof -
  obtain hs hl em ah where m: "d_map d = Bounds hs hl em ah" using b by (rule bounds_cases)
  have dist: "distinct [d_size d, d_min d, d_max d, hl, em, ah]" and bd: "hl < length (t_values t)" "ah < length (t_values t)"
    using dom_ok_static [OF ok] m by (auto simp: dom_static_def handle_list_def)
  note same = same_map_run [OF ok m]
  show ?thesis
  proof (cases c)
    case (Remove x)
    then have r: "dom_remove_bounds d x t = (d', t', r = Ok True)" "r = Ok True \<or> r = Ok False"
      using run b by (auto simp: dom_remove_def split: prod.splits)
    have room: "trail_get t hl < i32_max" using can Remove by (simp add: hole_room_def m)
    have at: "0 \<le> trail_get t hl" using dom_ok_current [OF ok] m by (simp add: dom_at_def trail_get_def)
    then have up: "as_i32 (int (Suc (as_usize (trail_get t hl)))) = trail_get t hl + 1"
      using room by (simp add: as_usize_id as_i32_id in_i32_def i32_min_def i32_max_def)
    show ?thesis
      using r(1) Remove same up dist bd m
      by (auto simp: dom_remove_bounds_def contains_ok [OF ok] hole_count_def Let_def trail_simps split: if_splits)
  next
    case (Fix x)
    then show ?thesis using run b dist m
      by (auto simp: dom_fix_def hole_count_def Let_def trail_get_def trail_simps split: if_splits)
  next
    case (Below bd)
    then show ?thesis using run b same m
      by (auto simp: dom_remove_below_def dom_remove_bounds_below_def hole_count_def split: if_splits)
  next
    case (Above bd)
    then show ?thesis using run b same m
      by (auto simp: dom_remove_above_def dom_remove_bounds_above_def hole_count_def split: if_splits)
  qed
qed

lemma roomy_run:
  assumes ok: "dom_ok d t" and ne: "dom_set d t \<noteq> {}" and can: "dom_can c (d, t)"
    and run: "dom_run c d t = (d', t', r)" and room: "roomy d t"
  shows "roomy d' t'"
proof -
  have S: "dom_set d' t' = set_apply c (dom_set d t)" using dom_run_ok(1) [OF ok can ne run] by (simp add: dom_step_def)
  have "room_at d' s" if "s \<in> set (snapshots t')" for s
    using dom_run_ok(1) [OF ok can ne run] room that room_at_static [of d' d s] by (auto simp: dom_step_def trail_writes_def roomy_iff)
  then have old: "\<forall>s \<in> set (snapshots t'). room_at d' s" by blast
  have sub: "set_apply c (dom_set d t) \<subseteq> dom_set d t" by (cases c) auto
  have le: "card (dom_set d' t') \<le> card (dom_set d t)" unfolding S by (rule card_mono [OF finite_dom_set sub])
  show ?thesis
  proof (cases "dom_is_bounds d")
    case False
    have "hole_count d' t' = 0" "hole_count d t = 0"
      using hole_count_indexed indexed_map [OF False ok run can ne] False by blast+
    then show ?thesis using room le old by (simp add: roomy_iff)
  next
    case True
    note h = hole_count_step [OF ok True ne can run]
    show ?thesis
    proof (cases "\<exists>x. c = Remove x \<and> x \<in> dom_set d t")
      case x: True
      then obtain x where "c = Remove x" "x \<in> dom_set d t" by blast
      then have "card (dom_set d t) = Suc (card (dom_set d' t'))" using card.remove [OF finite_dom_set, of x d t] by (simp add: S)
      then show ?thesis using h x room old by (simp add: roomy_iff)
    next
      case False
      then have "hole_count d' t' \<le> hole_count d t" using h by (simp only: if_False add_0_right)
      then show ?thesis using room le old by (simp add: roomy_iff)
    qed
  qed
qed

section \<open>Stores a propagator can run on\<close>

definition all_roomy :: "store \<Rightarrow> bool" where
  "all_roomy st \<longleftrightarrow> (\<forall>v < length (domains st). roomy (domains st ! v) (s_trail st))"

definition good :: "store \<Rightarrow> bool" where
  "good st \<longleftrightarrow> doms_ok st \<and> sched_ok st \<and> links_ok st \<and> all_roomy st"

definition alive :: "store \<Rightarrow> bool" where
  "alive st \<longleftrightarrow> (\<forall>v < length (domains st). vals st v \<noteq> {})"

lemma roomy_other:
  assumes ok: "doms_ok st" and vw: "v < length (domains st)" "w < length (domains st)" "w \<noteq> v"
    and tw: "trail_writes (handles st v) (s_trail st) t"
    and ro: "roomy (domains st ! w) (s_trail st)"
  shows "roomy (domains st ! w) t"
proof -
  have dj: "handles st v \<inter> set (handle_list (domains st ! w)) = {}" using ok vw by (simp add: doms_ok_def handles_def)
  have "dom_set (domains st ! w) t = dom_set (domains st ! w) (s_trail st)"
    using dom_frame(2) [OF doms_ok_dom [OF ok vw(2)] tw dj] .
  moreover have "hole_count (domains st ! w) t = hole_count (domains st ! w) (s_trail st)"
    using tw dj by (auto simp: hole_count_def trail_writes_def trail_get_def handle_list_def split: value_map.splits)
  moreover have "snapshots t = snapshots (s_trail st)" using tw by (simp add: trail_writes_def)
  ultimately show ?thesis using ro by (simp add: roomy_iff)
qed

text \<open>The arguments a mutator accepts on a good store are the \<open>i32\<close> values.\<close>

fun op_arg :: "dom_op \<Rightarrow> int" where
  "op_arg (Remove x) = x"
| "op_arg (Fix x) = x"
| "op_arg (Below b) = b"
| "op_arg (Above b) = b"

lemma good_can:
  assumes "good st" "v < length (domains st)" "vals st v \<noteq> {}" "in_i32 (op_arg c)"
  shows "dom_can c (domains st ! v, s_trail st)"
  using assms roomy_room [of "domains st ! v" "s_trail st"]
  by (cases c) (auto simp: good_def all_roomy_def vals_def)

section \<open>Evolution\<close>

text \<open>The lists, intervals and disjunctive pairs registered with the store: handles, never mutated.\<close>

definition structs :: "store \<Rightarrow> list_domain list \<times> interval_domain list \<times> (interval_id \<times> interval_id) list \<times> var_id list" where
  "structs st = (list_domains st, interval_domains st, disjunctive_pairs st, disjunctive_order_vars st)"

lemma structs_rescheduled: "rescheduled st st' \<Longrightarrow> structs st' = structs st"
  by (auto simp: rescheduled_def structs_def)

lemma st_apply_structs:
  assumes "doms_ok st" "v < length (domains st)" "vals st v \<noteq> {}" "dom_can c (domains st ! v, s_trail st)" "st_apply v c st = (st', r)"
  shows "structs st' = structs st"
proof -
  obtain cause st1 st2 where u: "unstaged st st1" and e2: "\<exists>d t r0. dom_run c (domains st ! v) (s_trail st) = (d, t, r0) \<and> st2 = set_domain v d t st1"
    and out: "if fails c (vals st v) then st' = st2 \<and> r = Err Inconsistency
     else if set_apply c (vals st v) = vals st v then st' = st2 \<and> r = Ok ()
     else st' = emit (op_event v c) cause (notify v (st_min st2 v \<noteq> st_min st v \<or> st_max st2 v \<noteq> st_max st v)
            (card (set_apply c (vals st v)) = 1) st2) \<and> r = Ok ()"
    using st_apply_cases [OF assms] by metis
  have "structs st2 = structs st" using u e2 by (auto simp: unstaged_def set_domain_def structs_def)
  then show ?thesis using out structs_rescheduled [OF rescheduled_notify] by (auto simp: emit_def structs_def split: if_splits)
qed

definition woken :: "store \<Rightarrow> store \<Rightarrow> bool" where
  "woken st st' \<longleftrightarrow> (\<forall>v < length (domains st). \<forall>(e, q) \<in> set (subs st ! v).
     occurs e (vals st v) (vals st' v) \<and> current st \<noteq> Some q \<longrightarrow> queued st' q)"

definition evolves :: "store \<Rightarrow> store \<Rightarrow> bool" where
  "evolves st st' \<longleftrightarrow> good st' \<and> st_saved st' = st_saved st \<and> structs st' = structs st \<and>
     length (domains st') = length (domains st) \<and> subs st' = subs st \<and> scopes st' = scopes st \<and> prio st' = prio st \<and>
     current st' = current st \<and> var_weight_cache st' = var_weight_cache st \<and>
     length (enqueued st') = length (enqueued st) \<and>
     (\<forall>v < length (domains st). vals st' v \<subseteq> vals st v) \<and>
     (\<forall>q. queued st q \<longrightarrow> queued st' q) \<and>
     (\<forall>q. queued st' q \<and> \<not> queued st q \<longrightarrow> st_view st' \<noteq> st_view st \<and> current st \<noteq> Some q) \<and>
     (alive st' \<longrightarrow> woken st st')"

lemma evolves_refl: "good st \<Longrightarrow> evolves st st"
proof -
  have "\<not> occurs e S S" for e S by (cases e) auto
  then show "good st \<Longrightarrow> evolves st st" by (auto simp: evolves_def woken_def)
qed

lemma view_eq_vals: "length (domains st') = length (domains st) \<Longrightarrow>
    st_view st' = st_view st \<longleftrightarrow> (\<forall>v < length (domains st). vals st' v = vals st v)"
  by (auto simp: list_eq_iff_nth_eq)

lemma evolves_alive: "evolves st st' \<Longrightarrow> alive st' \<Longrightarrow> alive st"
  by (fastforce simp: evolves_def alive_def)

lemma occurs_split:
  assumes "occurs e S U" "U \<subseteq> T" "T \<subseteq> S" shows "occurs e S T \<or> occurs e T U"
  using assms by (cases e) auto

lemma evolves_trans:
  assumes a: "evolves st st1" and b: "evolves st1 st2"
  shows "evolves st st2"
proof -
  have len: "length (domains st1) = length (domains st)" "length (domains st2) = length (domains st)"
    using a b by (simp_all add: evolves_def)
  have sub: "vals st1 v \<subseteq> vals st v" "vals st2 v \<subseteq> vals st1 v" if "v < length (domains st)" for v
    using a b that by (auto simp: evolves_def)
  have sq: "st_view st2 = st_view st \<Longrightarrow> st_view st1 = st_view st"
    using sub unfolding view_eq_vals [OF len(1)] view_eq_vals [OF len(2)] by blast
  have q: "st_view st2 \<noteq> st_view st \<and> current st \<noteq> Some q" if "queued st2 q" "\<not> queued st q" for q
  proof (cases "queued st1 q")
    case True
    then have "st_view st1 \<noteq> st_view st" "current st \<noteq> Some q" using a that by (auto simp: evolves_def)
    then show ?thesis using sq by auto
  next
    case False
    then have "st_view st2 \<noteq> st_view st1" "current st \<noteq> Some q" using a b that by (auto simp: evolves_def)
    then show ?thesis using sq by auto
  qed
  have "woken st st2" if al: "alive st2"
    unfolding woken_def
  proof (intro allI impI ballI, clarify)
    fix v e q assume v: "v < length (domains st)" and s: "(e, q) \<in> set (subs st ! v)"
      and o: "occurs e (vals st v) (vals st2 v)" and c: "current st \<noteq> Some q"
    have al1: "alive st1" using evolves_alive [OF b al] .
    have w: "woken st st1" "woken st1 st2" using a b al al1 by (simp_all add: evolves_def)
    have same: "subs st1 = subs st" "current st1 = current st" "\<forall>q. queued st1 q \<longrightarrow> queued st2 q" using a b by (simp_all add: evolves_def)
    from occurs_split [OF o] sub [OF v] have "occurs e (vals st v) (vals st1 v) \<or> occurs e (vals st1 v) (vals st2 v)" by blast
    then show "queued st2 q" using w v s c same len unfolding woken_def by fastforce
  qed
  then show ?thesis using a b q sub by (fastforce simp: evolves_def)
qed

text \<open>Every mutator evolves the store.\<close>

lemma st_apply_evolves:
  assumes g: "good st" and v: "v < length (domains st)" and ne: "vals st v \<noteq> {}" and i: "in_i32 (op_arg c)"
    and run: "st_apply v c st = (st', r)"
  shows "evolves st st'" "st_view st' = (st_view st)[v := set_apply c (vals st v)]"
    "r = (if fails c (vals st v) then Err Inconsistency else Ok ())"
proof -
  have ok: "doms_ok st" and s: "sched_ok st" and l: "links_ok st" and rm: "all_roomy st" using g by (simp_all add: good_def)
  have can: "dom_can c (domains st ! v, s_trail st)" using good_can [OF g v ne i] .
  note A = st_apply_ok [OF ok v ne can run] and B = st_apply_sched [OF ok s l v ne can run]
  show V: "st_view st' = (st_view st)[v := set_apply c (vals st v)]" "r = (if fails c (vals st v) then Err Inconsistency else Ok ())"
    using A by simp_all
  have len: "length (domains st') = length (domains st)" using V(1) by (metis length_list_update length_view)
  have vw: "vals st' w = (if w = v then set_apply c (vals st v) else vals st w)" if "w < length (domains st)" for w
    using view_vals [OF V(1) that] .
  have sub: "set_apply c (vals st v) \<subseteq> vals st v" by (cases c) auto
  have q: "queued st' q \<longleftrightarrow> queued st q \<or> (r = Ok () \<and> current st \<noteq> Some q \<and>
       (\<exists>e. (e, q) \<in> set (subs st ! v) \<and> occurs e (vals st v) (set_apply c (vals st v))))" for q
    using B(6) .
  have ch: "st_view st' \<noteq> st_view st" if "occurs e (vals st v) (set_apply c (vals st v))" for e
    using that v vw [OF v] unfolding view_eq_vals [OF len] by (cases e) auto
  have no: "\<not> occurs e S S" for e S by (cases e) auto
  have same: "set_apply c S = S" if "fails c S" "S \<noteq> {}" "set_apply c S \<noteq> {}" for S
    using that by (cases c) auto
  have w: "woken st st'" if al: "alive st'"
  proof (cases "fails c (vals st v)")
    case True
    have "set_apply c (vals st v) \<noteq> {}" using al v vw [OF v] len by (auto simp: alive_def)
    then have "vals st' w = vals st w" if "w < length (domains st)" for w
      using same [OF True ne] vw [OF that] by simp
    then show ?thesis using no by (auto simp: woken_def)
  next
    case False
    show ?thesis
      unfolding woken_def
    proof (intro allI impI ballI, clarify)
      fix w e p assume w: "w < length (domains st)" "(e, p) \<in> set (subs st ! w)" "occurs e (vals st w) (vals st' w)" "current st \<noteq> Some p"
      show "queued st' p"
      proof (cases "w = v")
        case True
        then show ?thesis using q [of p] w vw [OF v] V(2) False by auto
      next
        case False
        then show ?thesis using w(3) vw [OF w(1)] no by simp
      qed
    qed
  qed
  have "roomy (domains st' ! w) (s_trail st')" if w: "w < length (domains st)" for w
  proof -
    obtain cause st1 st2 where u: "unstaged st st1" and e2: "\<exists>d t r0. dom_run c (domains st ! v) (s_trail st) = (d, t, r0) \<and> st2 = set_domain v d t st1"
      and out: "if fails c (vals st v) then st' = st2 \<and> r = Err Inconsistency
       else if set_apply c (vals st v) = vals st v then st' = st2 \<and> r = Ok ()
       else st' = emit (op_event v c) cause (notify v (st_min st2 v \<noteq> st_min st v \<or> st_max st2 v \<noteq> st_max st v)
              (card (set_apply c (vals st v)) = 1) st2) \<and> r = Ok ()"
      using st_apply_cases [OF ok v ne can run] by metis
    obtain d t r0 where d: "dom_run c (domains st ! v) (s_trail st) = (d, t, r0)" "st2 = set_domain v d t st1" using e2 by blast
    have f: "domains st' = (domains st)[v := d]" "s_trail st' = t"
      using out unstaged_doms [OF u] rescheduled_doms [OF rescheduled_notify] by (auto simp: emit_def d(2) split: if_splits)
    have S: "dom_set (domains st ! v) (s_trail st) \<noteq> {}" using ne by (simp add: vals_def)
    have ro: "roomy (domains st ! u) (s_trail st)" if "u < length (domains st)" for u using rm that by (simp add: all_roomy_def)
    show ?thesis
    proof (cases "w = v")
      case True
      then show ?thesis using roomy_run [OF doms_ok_dom [OF ok v] S can d(1) ro [OF v]] v by (simp add: f)
    next
      case False
      have "trail_writes (handles st v) (s_trail st) t"
        using dom_run_ok(1) [OF doms_ok_dom [OF ok v] can S d(1)] by (simp add: dom_step_def handles_def)
      then show ?thesis using roomy_other [OF ok v w False _ ro [OF w]] False by (simp add: f)
    qed
  qed
  then have "all_roomy st'" by (simp add: all_roomy_def len)
  then have "good st'" using A B by (simp add: good_def)
  moreover have "st_view st' \<noteq> st_view st \<and> current st \<noteq> Some p" if "queued st' p \<and> \<not> queued st p" for p
    using that q [of p] ch by blast
  moreover have "vals st' w \<subseteq> vals st w" if "w < length (domains st)" for w using vw [OF that] sub by simp
  moreover have "queued st' p" if "queued st p" for p using q [of p] that by blast
  ultimately show "evolves st st'"
    unfolding evolves_def using A(3) B(3-5,7-9) len w st_apply_structs [OF ok v ne can run] by simp
qed

end
