(* ===== verification/Actions.thy ===== *)
theory Actions imports Evolve begin

text \<open>
  The monad in which propagators are written (\<open>&mut Store\<close> and \<open>Result\<close> with \<open>?\<close>) and its
  logic. A triple speaks about the value sets: whatever the action does to the schedule and
  to the reasons, it loses no solution of its constraint and fails only without one.
\<close>

section \<open>Actions\<close>

type_synonym 'a action = "store \<Rightarrow> 'a outcome"

definition a_ret :: "'a \<Rightarrow> 'a action" where
  "a_ret x = (\<lambda>st. (st, Ok x))"

definition a_bind :: "'a action \<Rightarrow> ('a \<Rightarrow> 'b action) \<Rightarrow> 'b action" where
  "a_bind m f = (\<lambda>st. case m st of (st', Err e) \<Rightarrow> (st', Err e) | (st', Ok x) \<Rightarrow> f x st')"

definition a_then :: "unit action \<Rightarrow> 'b action \<Rightarrow> 'b action" where
  "a_then m f = a_bind m (\<lambda>_. f)"

text \<open>An action that first reads the store.\<close>

definition a_read :: "(store \<Rightarrow> 'a action) \<Rightarrow> 'a action" where
  "a_read f = (\<lambda>st. f st st)"

fun a_for :: "('x \<Rightarrow> 's \<Rightarrow> 's action) \<Rightarrow> 'x list \<Rightarrow> 's \<Rightarrow> 's action" where
  "a_for f [] s = a_ret s"
| "a_for f (x # xs) s = a_bind (f x s) (a_for f xs)"

definition a_each :: "('x \<Rightarrow> unit action) \<Rightarrow> 'x list \<Rightarrow> unit action" where
  "a_each f xs = a_for (\<lambda>x _. f x) xs ()"

definition a_when :: "bool \<Rightarrow> unit action \<Rightarrow> unit action" where
  "a_when b m = (if b then m else a_ret ())"

section \<open>Assignments\<close>

definition dv :: "store \<Rightarrow> var_id \<Rightarrow> int set" where
  "dv st v = (if v < length (domains st) then vals st v else {})"

definition within :: "(var_id \<Rightarrow> int) \<Rightarrow> store \<Rightarrow> bool" where
  "within a st \<longleftrightarrow> (\<forall>v < length (domains st). a v \<in> vals st v)"

definition sound :: "((var_id \<Rightarrow> int) \<Rightarrow> bool) \<Rightarrow> store \<Rightarrow> 'a outcome \<Rightarrow> bool" where
  "sound sol st out \<longleftrightarrow> evolves st (fst out) \<and> (case snd out of
     Ok _ \<Rightarrow> alive (fst out) \<and> (\<forall>a. within a st \<and> sol a \<longrightarrow> within a (fst out))
   | Err _ \<Rightarrow> \<forall>a. within a st \<longrightarrow> \<not> sol a)"

definition ready :: "nat \<Rightarrow> store \<Rightarrow> bool" where
  "ready n st \<longleftrightarrow> good st \<and> alive st \<and> length (domains st) = n"

definition triple :: "nat \<Rightarrow> ((var_id \<Rightarrow> int) \<Rightarrow> bool) \<Rightarrow> ((var_id \<Rightarrow> int set) \<Rightarrow> bool) \<Rightarrow> 'a action \<Rightarrow>
    ('a \<Rightarrow> (var_id \<Rightarrow> int set) \<Rightarrow> bool) \<Rightarrow> bool" where
  "triple n sol P m Q \<longleftrightarrow> (\<forall>st. ready n st \<and> P (dv st) \<longrightarrow>
     sound sol st (m st) \<and> (\<forall>x. snd (m st) = Ok x \<longrightarrow> Q x (dv (fst (m st)))))"

named_theorems triple_rules \<open>rules of the propagator logic, one per action\<close>

lemma sound_ready: "ready n st \<Longrightarrow> sound sol st out \<Longrightarrow> snd out = Ok x \<Longrightarrow> ready n (fst out)"
  by (auto simp: sound_def ready_def evolves_def)

lemma tripleI:
  assumes "\<And>st. ready n st \<Longrightarrow> P (dv st) \<Longrightarrow> sound sol st (m st) \<and> (\<forall>x. snd (m st) = Ok x \<longrightarrow> Q x (dv (fst (m st))))"
  shows "triple n sol P m Q"
  using assms by (simp add: triple_def)

lemma triple_ret: "(\<And>D. P D \<Longrightarrow> Q x D) \<Longrightarrow> triple n sol P (a_ret x) Q"
  by (rule tripleI) (auto simp: a_ret_def sound_def ready_def evolves_refl)

lemma triple_weaken: "triple n sol P m R \<Longrightarrow> (\<And>D. P' D \<Longrightarrow> P D) \<Longrightarrow> (\<And>x D. R x D \<Longrightarrow> Q x D) \<Longrightarrow> triple n sol P' m Q"
  by (simp add: triple_def)

lemma triple_bind:
  assumes m: "triple n sol P m R" and f: "\<And>x. triple n sol (R x) (f x) Q"
  shows "triple n sol P (a_bind m f) Q"
proof (rule tripleI)
  fix st assume st: "ready n st" "P (dv st)"
  obtain st1 r where run: "m st = (st1, r)" by fastforce
  have 1: "sound sol st (st1, r)" "\<And>x. r = Ok x \<Longrightarrow> R x (dv st1)" using m st run by (auto simp: triple_def)
  show "sound sol st (a_bind m f st) \<and> (\<forall>x. snd (a_bind m f st) = Ok x \<longrightarrow> Q x (dv (fst (a_bind m f st))))"
  proof (cases r)
    case (Err e)
    then show ?thesis using 1(1) run by (simp add: a_bind_def sound_def)
  next
    case (Ok x)
    have "ready n st1" using sound_ready [OF st(1) 1(1)] Ok by simp
    then have 2: "sound sol st1 (f x st1)" "\<forall>y. snd (f x st1) = Ok y \<longrightarrow> Q y (dv (fst (f x st1)))"
      using f [of x] 1(2) [OF Ok] by (auto simp: triple_def)
    have "evolves st st1" "\<forall>a. within a st \<and> sol a \<longrightarrow> within a st1" using 1(1) Ok by (simp_all add: sound_def)
    then have "sound sol st (f x st1)"
      using 2(1) evolves_trans by (fastforce simp: sound_def split: result.splits)
    then show ?thesis using 2(2) run Ok by (simp add: a_bind_def)
  qed
qed

lemma triple_then: "triple n sol P m (\<lambda>_. R) \<Longrightarrow> triple n sol R f Q \<Longrightarrow> triple n sol P (a_then m f) Q"
  unfolding a_then_def by (rule triple_bind)

lemma triple_read:
  assumes "\<And>st. ready n st \<Longrightarrow> P (dv st) \<Longrightarrow> triple n sol (\<lambda>D. D = dv st) (f st) Q"
  shows "triple n sol P (a_read f) Q"
  using assms by (auto simp: triple_def a_read_def)

lemma triple_case: "(b \<Longrightarrow> triple n sol P m Q) \<Longrightarrow> (\<not> b \<Longrightarrow> triple n sol P m' Q) \<Longrightarrow> triple n sol P (if b then m else m') Q"
  by simp

lemma triple_when: "(b \<Longrightarrow> triple n sol P m Q) \<Longrightarrow> (\<not> b \<Longrightarrow> \<forall>D. P D \<longrightarrow> Q () D) \<Longrightarrow> triple n sol P (a_when b m) Q"
  by (auto simp: a_when_def intro: triple_ret)

lemma triple_for:
  assumes "\<And>pre x s. triple n sol (I pre s) (f x s) (I (pre @ [x]))"
  shows "triple n sol (I pre s) (a_for f xs s) (I (pre @ xs))"
proof (induction xs arbitrary: pre s)
  case Nil
  show ?case by (auto intro: triple_ret)
next
  case (Cons x xs)
  have "triple n sol (I (pre @ [x]) s') (a_for f xs s') (I (pre @ x # xs))" for s'
    using Cons.IH [of "pre @ [x]" s'] by simp
  then show ?case by (auto intro: triple_bind [OF assms])
qed

lemma triple_for_set:
  assumes "\<And>pre x post s. xs = pre @ x # post \<Longrightarrow> triple n sol (I pre s) (f x s) (I (pre @ [x]))"
  shows "triple n sol (I [] s) (a_for f xs s) (I xs)"
proof -
  have "triple n sol (I pre s) (a_for f post s) (I xs)" if "xs = pre @ post" for pre post s
    using that
  proof (induction post arbitrary: pre s)
    case Nil
    then show ?case by (auto intro: triple_ret)
  next
    case (Cons x post)
    show ?case
      using Cons.IH [of "pre @ [x]"] Cons.prems by (auto intro: triple_bind [OF assms [OF Cons.prems]])
  qed
  from this [of "[]" xs s] show ?thesis by simp
qed

lemma triple_each:
  assumes "\<And>pre x post. xs = pre @ x # post \<Longrightarrow> triple n sol (I pre) (f x) (\<lambda>_. I (pre @ [x]))"
  shows "triple n sol (I []) (a_each f xs) (\<lambda>_. I xs)"
  unfolding a_each_def by (rule triple_for_set [where I = "\<lambda>pre _. I pre"]) (rule assms)

section \<open>Mutators\<close>

lemma dv_apply:
  assumes "v < length (domains st)" "st_view st' = (st_view st)[v := S]"
  shows "dv st' = (dv st)(v := S)"
proof
  fix w
  have "length (domains st') = length (domains st)" using assms(2) by (metis length_list_update length_view)
  then show "dv st' w = ((dv st)(v := S)) w" using view_vals [OF assms(2)] assms(1) by (auto simp: dv_def)
qed

lemma within_dv: "within a st \<longleftrightarrow> (\<forall>v < length (domains st). a v \<in> dv st v)"
  by (simp add: within_def dv_def)

text \<open>The values an operation lets through.\<close>

fun keeps :: "dom_op \<Rightarrow> int \<Rightarrow> bool" where
  "keeps (Remove x) y = (y \<noteq> x)"
| "keeps (Fix x) y = (y = x)"
| "keeps (Below b) y = (b \<le> y)"
| "keeps (Above b) y = (y \<le> b)"

definition allowed :: "nat \<Rightarrow> ((var_id \<Rightarrow> int) \<Rightarrow> bool) \<Rightarrow> (var_id \<Rightarrow> int set) \<Rightarrow> var_id \<Rightarrow> int \<Rightarrow> bool" where
  "allowed n sol D v y \<longleftrightarrow> (\<exists>a. (\<forall>w < n. a w \<in> D w) \<and> sol a \<and> a v = y)"

lemma apply_sound:
  assumes st: "ready n st" and v: "v < n" and i: "in_i32 (op_arg c)" and run: "st_apply v c st = (st', r)"
    and keep: "\<And>y. allowed n sol (dv st) v y \<Longrightarrow> keeps c y"
  shows "sound sol st (st', r)" "r = Ok () \<Longrightarrow> dv st' = (dv st)(v := set_apply c (dv st v)) \<and> \<not> fails c (dv st v)"
proof -
  have g: "good st" "v < length (domains st)" "vals st v \<noteq> {}" using st v by (auto simp: ready_def alive_def)
  note E = st_apply_evolves [OF g i run]
  have vv: "vals st v = dv st v" using g(2) by (simp add: dv_def)
  have len: "length (domains st) = n" using st by (simp add: ready_def)
  have d: "dv st' = (dv st)(v := set_apply c (dv st v))" using dv_apply [OF g(2) E(2)] vv by simp
  have k: "keeps c (a v)" if "within a st" "sol a" for a
    using keep [of "a v"] that len by (auto simp: allowed_def within_dv)
  have nf: "a v \<in> set_apply c (dv st v) \<and> \<not> fails c (dv st v)" if "within a st" "sol a" for a
    using k [OF that] that(1) g(2) by (cases c) (auto simp: within_dv)
  have w: "within a st'" if a: "within a st" "sol a" for a
    using nf [OF a] a(1) E(1) unfolding within_dv d by (simp add: evolves_def)
  have al: "alive st'" if "\<not> fails c (vals st v)"
  proof -
    have "set_apply c (dv st v) \<noteq> {}" using that g(3) vv by (cases c) auto
    then have "\<forall>u < length (domains st'). dv st' u \<noteq> {}"
      using st E(1) unfolding d by (auto simp: ready_def alive_def evolves_def dv_def)
    then show ?thesis by (simp add: alive_def dv_def)
  qed
  show "sound sol st (st', r)"
    using E(1,3) w nf al vv by (auto simp: sound_def)
  show "dv st' = (dv st)(v := set_apply c (dv st v)) \<and> \<not> fails c (dv st v)" if "r = Ok ()"
    using that E(3) d vv by (auto split: if_splits)
qed

lemma triple_apply:
  assumes v: "v < n" and i: "in_i32 (op_arg c)"
    and keep: "\<And>D y. P D \<Longrightarrow> allowed n sol D v y \<Longrightarrow> keeps c y"
    and post: "\<And>D. P D \<Longrightarrow> \<not> fails c (D v) \<Longrightarrow> Q () (D(v := set_apply c (D v)))"
  shows "triple n sol P (st_apply v c) Q"
proof (rule tripleI)
  fix st assume st: "ready n st" "P (dv st)"
  obtain st' r where run: "st_apply v c st = (st', r)" by fastforce
  note S = apply_sound [OF st(1) v i run keep [OF st(2)]]
  show "sound sol st (st_apply v c st) \<and> (\<forall>x. snd (st_apply v c st) = Ok x \<longrightarrow> Q x (dv (fst (st_apply v c st))))"
    using S post [OF st(2)] run by simp
qed

text \<open>Notes: reasons staged, conflicts recorded, premises injected. They evolve nothing.\<close>

definition noted :: "store \<Rightarrow> store \<Rightarrow> bool" where
  "noted st st' \<longleftrightarrow> (\<exists>p c f i. st' = st\<lparr>pending_premises := p, pending_conflict := c, finesse := f, injected_premises := i\<rparr>)"

lemma noted_fields:
  assumes "noted st st'"
  shows "domains st' = domains st" "s_trail st' = s_trail st" "subs st' = subs st" "scopes st' = scopes st" "prio st' = prio st"
    "current st' = current st" "var_weight_cache st' = var_weight_cache st" "enqueued st' = enqueued st" "queues st' = queues st"
    "relevant st' = relevant st" "structs st' = structs st"
  using assms by (auto simp: noted_def structs_def)

lemma noted_same:
  assumes "noted st st'"
  shows "good st' = good st" "alive st' = alive st" "st_view st' = st_view st" "st_saved st' = st_saved st" "vals st' = vals st"
    "queued st' = queued st" "dv st' = dv st" "within a st' = within a st" "ready n st' = ready n st"
proof -
  note f = noted_fields [OF assms]
  note c = doms_ok_cong [OF f(1,2)]
  show v: "vals st' = vals st" and "st_view st' = st_view st" "st_saved st' = st_saved st" using c by simp_all
  show q: "queued st' = queued st" by (simp add: queued_def fun_eq_iff f)
  show g: "good st' = good st" using c by (simp add: good_def sched_ok_def links_ok_def all_roomy_def q f)
  show al: "alive st' = alive st" by (simp add: alive_def v f)
  show "dv st' = dv st" by (simp add: dv_def fun_eq_iff v f)
  show "within a st' = within a st" by (simp add: within_def v f)
  show "ready n st' = ready n st" by (simp add: ready_def g al f)
qed

lemma noted_evolves: "noted st st1 \<Longrightarrow> evolves st1 st2 = evolves st st2"
  using noted_same [of st st1] noted_fields [of st st1] by (simp add: evolves_def woken_def)

lemma noted_evolves_right: "noted st1 st2 \<Longrightarrow> evolves st st2 = evolves st st1"
  using noted_same [of st1 st2] noted_fields [of st1 st2] by (simp add: evolves_def woken_def)

lemma noted_sound: "noted st st1 \<Longrightarrow> sound sol st1 out = sound sol st out"
  using noted_evolves [of st st1] noted_same [of st st1] by (simp add: sound_def split: result.splits)

lemma noted_sound_right:
  assumes "noted st1 st2" shows "sound sol st (st2, r) = sound sol st (st1, r)"
  using noted_evolves_right [OF assms] noted_same [OF assms] by (simp add: sound_def split: result.splits)

lemma noted_self: "noted st (st\<lparr>pending_premises := p\<rparr>)" "noted st (st\<lparr>pending_conflict := c\<rparr>)" "noted st (st\<lparr>injected_premises := i\<rparr>)"
  "noted st st"
proof -
  have "st\<lparr>pending_premises := p\<rparr> = st\<lparr>pending_premises := p, pending_conflict := pending_conflict st, finesse := finesse st, injected_premises := injected_premises st\<rparr>"
    "st\<lparr>pending_conflict := c\<rparr> = st\<lparr>pending_premises := pending_premises st, pending_conflict := c, finesse := finesse st, injected_premises := injected_premises st\<rparr>"
    "st\<lparr>injected_premises := i\<rparr> = st\<lparr>pending_premises := pending_premises st, pending_conflict := pending_conflict st, finesse := finesse st, injected_premises := i\<rparr>"
    "st = st\<lparr>pending_premises := pending_premises st, pending_conflict := pending_conflict st, finesse := finesse st, injected_premises := injected_premises st\<rparr>"
    by simp_all
  then show "noted st (st\<lparr>pending_premises := p\<rparr>)" "noted st (st\<lparr>pending_conflict := c\<rparr>)" "noted st (st\<lparr>injected_premises := i\<rparr>)" "noted st st"
    unfolding noted_def by blast+
qed

lemma noted_fail: "fail_because why st = (e, st') \<Longrightarrow> noted st st'"
proof -
  assume "fail_because why st = (e, st')"
  then have st': "st' = (record_finesse why True st)\<lparr>pending_conflict := Some why\<rparr>" by (simp add: fail_because_def)
  have "\<exists>f. record_finesse why True st = st\<lparr>finesse := f\<rparr>"
  proof (cases "finesse st = None \<or> current st = None")
    case True
    then have "record_finesse why True st = st"
      by (cases "finesse st"; cases "current st") (simp_all add: record_finesse_def)
    then show ?thesis by (intro exI [of _ "finesse st"]) simp
  next
    case False
    then obtain fs p where "finesse st = Some fs" "current st = Some p" by auto
    then have "record_finesse why True st =
        st\<lparr>finesse := Some (fs @ [(distinct_premise_vars why, length (scopes st ! p), of_bool True)])\<rparr>"
      by (simp add: record_finesse_def)
    then show ?thesis by blast
  qed
  then obtain f where f: "record_finesse why True st = st\<lparr>finesse := f\<rparr>" by blast
  have "st' = st\<lparr>pending_premises := pending_premises st, pending_conflict := Some why, finesse := f, injected_premises := injected_premises st\<rparr>"
    unfolding st' f by simp
  then show "noted st st'" unfolding noted_def by blast
qed

lemma noted_stage: "noted st (stage why st)"
  unfolding stage_def by (rule noted_self)

lemma triple_because:
  assumes "v < n" "in_i32 (op_arg c)" "\<And>D y. P D \<Longrightarrow> allowed n sol D v y \<Longrightarrow> keeps c y"
    and "\<And>D. P D \<Longrightarrow> \<not> fails c (D v) \<Longrightarrow> Q () (D(v := set_apply c (D v)))"
  shows "triple n sol P (apply_because v c why) Q"
proof (rule tripleI)
  fix st assume st: "ready n st" "P (dv st)"
  note s = noted_same [OF noted_stage [of st why]]
  have "sound sol (stage why st) (st_apply v c (stage why st)) \<and>
      (\<forall>x. snd (st_apply v c (stage why st)) = Ok x \<longrightarrow> Q x (dv (fst (st_apply v c (stage why st)))))"
  proof -
    have "triple n sol P (st_apply v c) Q" by (rule triple_apply) (use assms in auto)
    then show ?thesis using st s unfolding triple_def by simp
  qed
  then show "sound sol st (apply_because v c why st) \<and> (\<forall>x. snd (apply_because v c why st) = Ok x \<longrightarrow> Q x (dv (fst (apply_because v c why st))))"
    unfolding apply_because_staged using noted_sound [OF noted_stage [of st why], of sol] by blast
qed

lemma triple_failing:
  assumes "\<And>D a. P D \<Longrightarrow> (\<forall>v < n. a v \<in> D v) \<Longrightarrow> \<not> sol a"
  shows "triple n sol P (failing why) Q"
proof (rule tripleI)
  fix st assume st: "ready n st" "P (dv st)"
  obtain e st' where f: "fail_because why st = (e, st')" by fastforce
  have "evolves st st'" using noted_evolves_right [OF noted_fail [OF f], of st] evolves_refl st by (simp add: ready_def)
  then show "sound sol st (failing why st) \<and> (\<forall>x. snd (failing why st) = Ok x \<longrightarrow> Q x (dv (fst (failing why st))))"
    using assms [OF st(2)] st(1) by (auto simp: failing_def f sound_def within_dv ready_def)
qed

definition a_fail :: "'a action" where
  "a_fail = (\<lambda>st. (st, Err Inconsistency))"

lemma triple_fail:
  assumes "\<And>D a. P D \<Longrightarrow> (\<forall>v < n. a v \<in> D v) \<Longrightarrow> \<not> sol a"
  shows "triple n sol P a_fail Q"
  by (rule tripleI) (use assms in \<open>auto simp: a_fail_def sound_def within_dv ready_def evolves_refl\<close>)

section \<open>Reads\<close>

lemma ready_reads:
  assumes "ready n st" "v < n"
  shows "finite (dv st v)" "dv st v \<noteq> {}" "st_min st v = Min (dv st v)" "st_max st v = Max (dv st v)"
    "st_contains st v x \<longleftrightarrow> x \<in> dv st v" "st_is_fixed st v \<longleftrightarrow> card (dv st v) = 1" "set (st_values st v) = dv st v"
    "\<And>x. x \<in> dv st v \<Longrightarrow> in_i32 x"
proof -
  have g: "doms_ok st" "v < length (domains st)" "vals st v \<noteq> {}" using assms by (auto simp: ready_def good_def alive_def)
  note rd = st_reads [OF g(1,2)]
  have d: "dv st v = vals st v" using g(2) by (simp add: dv_def)
  show "finite (dv st v)" "dv st v \<noteq> {}" "st_min st v = Min (dv st v)" "st_max st v = Max (dv st v)"
    "st_contains st v x \<longleftrightarrow> x \<in> dv st v" "st_is_fixed st v \<longleftrightarrow> card (dv st v) = 1"
    using rd g(3) by (simp_all add: d)
  show "set (st_values st v) = dv st v"
    using values_ok(1) [OF doms_ok_dom [OF g(1,2)]] by (simp add: d vals_def st_values_def)
  show "\<And>x. x \<in> dv st v \<Longrightarrow> in_i32 x"
    using dom_set_i32 [OF doms_ok_dom [OF g(1,2)]] by (simp add: d vals_def)
qed

lemma ready_value:
  assumes "ready n st" "v < n"
  shows "st_value st v = Some x \<longleftrightarrow> dv st v = {x}"
proof -
  note r = ready_reads [OF assms]
  show ?thesis using r(1,2,3,6) by (auto simp: st_value_def card_1_singleton_iff)
qed

end
