(* ===== verification/Fixpoint.thy ===== *)
theory Fixpoint imports Solver Actions begin

text \<open>
  The contract of the \<open>Propagator\<close> trait as a locale, and what the propagation loop of
  \<open>Solver\<close> makes of it: for propagators that are sound, idempotent and woken by what they
  watch, propagation ends, at a common fixpoint, without losing a solution; it fails only if
  there is none.
\<close>

section \<open>Registration\<close>

definition registered :: "(event \<times> var_id) set \<Rightarrow> prop_id \<Rightarrow> store \<Rightarrow> store \<Rightarrow> bool" where
  "registered W me st st' \<longleftrightarrow> links_ok st' \<and> domains st' = domains st \<and> s_trail st' = s_trail st \<and>
     queues st' = queues st \<and> enqueued st' = enqueued st \<and> prio st' = prio st \<and> current st' = current st \<and>
     length (scopes st') = length (scopes st) \<and> (\<forall>q. q \<noteq> me \<longrightarrow> scopes st' ! q = scopes st ! q) \<and>
     (\<forall>v < length (domains st). set (subs st' ! v) = set (subs st ! v) \<union> {(e, me) |e. (e, v) \<in> W}) \<and>
     (\<forall>weights. weights ! me = 1 \<and> cache_ok st weights \<longrightarrow> cache_ok st' weights)"

definition slot_free :: "prop_id \<Rightarrow> store \<Rightarrow> bool" where
  "slot_free me st \<longleftrightarrow> links_ok st \<and> me < length (enqueued st) \<and> me < length (scopes st)"

lemma registered_none: "links_ok st \<Longrightarrow> registered {} me st st"
  by (simp add: registered_def)

lemma registered_trans:
  "registered W me st st1 \<Longrightarrow> registered W' me st1 st2 \<Longrightarrow> registered (W \<union> W') me st st2"
  unfolding registered_def by fastforce

lemma registered_slot: "registered W me st st' \<Longrightarrow> slot_free me st \<Longrightarrow> slot_free me st'"
  by (simp add: registered_def slot_free_def)

lemma registered_subscribe:
  assumes s: "slot_free me st" and v: "v < length (domains st)"
  shows "registered {(e, v)} me st (subscribe v me e st)"
proof -
  have l: "links_ok st" and me: "me < length (enqueued st)" "me < length (scopes st)" using s by (simp_all add: slot_free_def)
  have len: "length (subs st) = length (domains st)" using l by (simp add: links_ok_def)
  have "set (subs (subscribe v me e st) ! w) = set (subs st ! w) \<union> {(e', me) |e'. (e', w) \<in> {(e, v)}}" if "w < length (domains st)" for w
    using subscribe_subs [of v st w me e] v that len by auto
  moreover have "scopes (subscribe v me e st) ! q = scopes st ! q" if "q \<noteq> me" for q
    using that by (simp add: list_modify_def)
  ultimately show ?thesis
    using subscribe_ok [OF l v me] subscribe_cache [OF _ l v] by (simp add: registered_def)
qed

lemma registered_mark:
  assumes "links_ok st" shows "registered {} me st (mark_relevant v st)"
proof -
  have "links_ok (mark_relevant v st)" using assms by (simp add: links_ok_def mark_relevant_def)
  then show ?thesis by (simp add: registered_def mark_relevant_def cache_ok_def degree_def)
qed

lemma registered_fold:
  assumes "slot_free me st" "\<And>v. v \<in> set vs \<Longrightarrow> v < length (domains st)"
  shows "registered ((\<lambda>v. (e, v)) ` set vs) me st (fold (\<lambda>v. subscribe v me e) vs st)"
  using assms
proof (induction vs arbitrary: st)
  case (Cons v vs)
  have v: "v < length (domains st)" using Cons.prems(2) by simp
  note r = registered_subscribe [OF Cons.prems(1) v, of e]
  have "registered ((\<lambda>v. (e, v)) ` set vs) me (subscribe v me e st) (fold (\<lambda>v. subscribe v me e) vs (subscribe v me e st))"
    using Cons.IH [OF registered_slot [OF r Cons.prems(1)]] Cons.prems(2) by simp
  from registered_trans [OF r this] show ?case by simp
qed (simp add: registered_none slot_free_def)

section \<open>What a guarded box enforces\<close>

text \<open>
  Lifted from the constraints to their boxes: the assignments a box allows, the domains at
  which it has nothing left to do, the events it must be woken by, and when it is well formed.
\<close>

fun sol_of :: "('p \<Rightarrow> (var_id \<Rightarrow> int) \<Rightarrow> bool) \<Rightarrow> 'p boxed \<Rightarrow> (var_id \<Rightarrow> int) \<Rightarrow> bool" where
  "sol_of sol (Boxed p) a = sol p a"
| "sol_of sol (Selected s b) a = (a s = 1 \<longrightarrow> sol_of sol b a)"

fun fix_of :: "('p \<Rightarrow> (var_id \<Rightarrow> int set) \<Rightarrow> bool) \<Rightarrow> 'p boxed \<Rightarrow> (var_id \<Rightarrow> int set) \<Rightarrow> bool" where
  "fix_of fixp (Boxed p) D = fixp p D"
| "fix_of fixp (Selected s b) D = (D s = {1} \<longrightarrow> fix_of fixp b D)"

fun watch_of :: "('p \<Rightarrow> (event \<times> var_id) set) \<Rightarrow> 'p boxed \<Rightarrow> (event \<times> var_id) set" where
  "watch_of watch (Boxed p) = watch p"
| "watch_of watch (Selected s b) = insert (FixEvent, s) (watch_of watch b)"

fun wf_of :: "(nat \<Rightarrow> 'p \<Rightarrow> bool) \<Rightarrow> nat \<Rightarrow> 'p boxed \<Rightarrow> bool" where
  "wf_of shape n (Boxed p) = shape n p"
| "wf_of shape n (Selected s b) = (s < n \<and> wf_of shape n b)"

section \<open>The invariant of the solver\<close>

definition slot :: "'p solver \<Rightarrow> prop_id \<Rightarrow> 'p boxed" where
  "slot so i = the (propagators so ! i)"

text \<open>Slot \<open>i\<close> holds a well-formed box that is subscribed to all it must be woken by.\<close>

definition held_in :: "('p \<Rightarrow> (event \<times> var_id) set) \<Rightarrow> (nat \<Rightarrow> 'p \<Rightarrow> bool) \<Rightarrow> nat \<Rightarrow> 'p solver \<Rightarrow> prop_id \<Rightarrow> 'p boxed \<Rightarrow> bool" where
  "held_in watch shape n so i b \<longleftrightarrow> propagators so ! i = Some b \<and> wf_of shape n b \<and>
     (\<forall>(e, v) \<in> watch_of watch b. (e, i) \<in> set (subs (so_store so) ! v))"

definition solver_ok :: "('p \<Rightarrow> (event \<times> var_id) set) \<Rightarrow> (nat \<Rightarrow> 'p \<Rightarrow> bool) \<Rightarrow> nat \<Rightarrow> 'p solver \<Rightarrow> bool" where
  "solver_ok watch shape n so \<longleftrightarrow> good (so_store so) \<and> length (domains (so_store so)) = n \<and> current (so_store so) = None \<and>
     length (propagators so) = length (enqueued (so_store so)) \<and> length (weights so) = length (enqueued (so_store so)) \<and>
     cache_ok (so_store so) (weights so) \<and>
     (\<forall>i < length (propagators so). distinct (scopes (so_store so) ! i) \<and> (\<exists>b. held_in watch shape n so i b))"

text \<open>All constraints posted.\<close>

definition all_posted :: "('p \<Rightarrow> (var_id \<Rightarrow> int) \<Rightarrow> bool) \<Rightarrow> 'p solver \<Rightarrow> (var_id \<Rightarrow> int) \<Rightarrow> bool" where
  "all_posted sol so a \<longleftrightarrow> (\<forall>i < length (propagators so). sol_of sol (slot so i) a)"

text \<open>Whoever is not queued has nothing to do.\<close>

definition settled_for :: "('p \<Rightarrow> (var_id \<Rightarrow> int set) \<Rightarrow> bool) \<Rightarrow> (prop_id \<Rightarrow> bool) \<Rightarrow> 'p solver \<Rightarrow> bool" where
  "settled_for fixp except so \<longleftrightarrow> (\<forall>i < length (propagators so).
     \<not> queued (so_store so) i \<and> \<not> except i \<longrightarrow> fix_of fixp (slot so i) (dv (so_store so)))"

section \<open>The contract\<close>

locale propagator_contract =
  fixes vt :: "'p vtable"
    and sol :: "'p \<Rightarrow> (var_id \<Rightarrow> int) \<Rightarrow> bool"
    and fixp :: "'p \<Rightarrow> (var_id \<Rightarrow> int set) \<Rightarrow> bool"
    and watch :: "'p \<Rightarrow> (event \<times> var_id) set"
    and wf :: "nat \<Rightarrow> 'p \<Rightarrow> bool"
  assumes run_law: "\<lbrakk>wf n p; ready n st\<rbrakk> \<Longrightarrow> \<exists>p' out. v_propagate vt p st = Some (p', out) \<and>
      sound (sol p) st out \<and> wf n p' \<and> sol p' = sol p \<and> watch p' = watch p \<and>
      (snd out = Ok () \<longrightarrow> fixp p' (dv (fst out)))"
    and wake_law: "\<lbrakk>wf n p; fixp p D; \<forall>v < n. D' v \<noteq> {} \<and> D' v \<subseteq> D v \<and> finite (D v);
      \<forall>(e, v) \<in> watch p. \<not> occurs e (D v) (D' v)\<rbrakk> \<Longrightarrow> fixp p D'"
    and register_law: "\<lbrakk>wf n p; length (domains st) = n; slot_free me st; v_register_until vt p me [] st = (p', st', fin, stops)\<rbrakk> \<Longrightarrow>
      fin \<and> stops = [] \<and> registered (watch p) me st st' \<and> wf n p' \<and> sol p' = sol p \<and> watch p' = watch p"
    and watch_law: "\<lbrakk>wf n p; (e, v) \<in> watch p\<rbrakk> \<Longrightarrow> v < n"
    and grow_law: "\<lbrakk>wf n p; n \<le> m\<rbrakk> \<Longrightarrow> wf m p"
begin

abbreviation bsol :: "'p boxed \<Rightarrow> (var_id \<Rightarrow> int) \<Rightarrow> bool" where "bsol \<equiv> sol_of sol"
abbreviation bfix :: "'p boxed \<Rightarrow> (var_id \<Rightarrow> int set) \<Rightarrow> bool" where "bfix \<equiv> fix_of fixp"
abbreviation bwatch :: "'p boxed \<Rightarrow> (event \<times> var_id) set" where "bwatch \<equiv> watch_of watch"
abbreviation bwf :: "nat \<Rightarrow> 'p boxed \<Rightarrow> bool" where "bwf \<equiv> wf_of wf"
abbreviation held :: "nat \<Rightarrow> 'p solver \<Rightarrow> prop_id \<Rightarrow> 'p boxed \<Rightarrow> bool" where "held \<equiv> held_in watch wf"
abbreviation solver_inv :: "nat \<Rightarrow> 'p solver \<Rightarrow> bool" where "solver_inv \<equiv> solver_ok watch wf"
abbreviation all_sol :: "'p solver \<Rightarrow> (var_id \<Rightarrow> int) \<Rightarrow> bool" where "all_sol \<equiv> all_posted sol"
abbreviation settled :: "(prop_id \<Rightarrow> bool) \<Rightarrow> 'p solver \<Rightarrow> bool" where "settled \<equiv> settled_for fixp"

lemma sound_mono:
  assumes "sound S st out" "\<And>a. within a st \<Longrightarrow> T a \<Longrightarrow> S a"
  shows "sound T st out"
  using assms by (auto simp: sound_def split: result.splits)

lemma close_guard_sound: "sound S st (close_guard pr out) = sound S st out"
  "snd (close_guard pr out) = snd out" "dv (fst (close_guard pr out)) = dv (fst out)"
proof -
  obtain st1 r where out: "out = (st1, r)" by (cases out)
  let ?st2 = "if is_ok r then st1 else push_conflict_premise pr st1"
  have a: "noted st1 ?st2" using noted_self by (simp add: push_conflict_premise_def)
  have b: "noted ?st2 (clear_injected_premise ?st2)" unfolding clear_injected_premise_def by (rule noted_self)
  have c: "close_guard pr (st1, r) = (clear_injected_premise ?st2, r)" by (simp add: close_guard_def out)
  show "sound S st (close_guard pr out) = sound S st out" unfolding out c noted_sound_right [OF b] noted_sound_right [OF a] ..
  show "snd (close_guard pr out) = snd out" by (simp add: c out)
  show "dv (fst (close_guard pr out)) = dv (fst out)" unfolding out c fst_conv noted_same(7) [OF b] noted_same(7) [OF a] ..
qed

lemma box_run:
  assumes "bwf n b" "ready n st"
  shows "\<exists>b' out. box_propagate vt b st = Some (b', out) \<and> sound (bsol b) st out \<and> bwf n b' \<and> bsol b' = bsol b \<and>
    bwatch b' = bwatch b \<and> (snd out = Ok () \<longrightarrow> bfix b' (dv (fst out)))"
  using assms
proof (induction b arbitrary: st)
  case (Boxed p)
  then obtain p' out where "v_propagate vt p st = Some (p', out)" "sound (sol p) st out" "wf n p'" "sol p' = sol p"
    "watch p' = watch p" "snd out = Ok () \<longrightarrow> fixp p' (dv (fst out))"
    using run_law [of n p st] by auto
  moreover have "bsol (Boxed p) = sol p" by (rule ext) simp
  moreover have "bsol (Boxed p') = sol p" by (rule ext) (simp add: calculation)
  ultimately show ?case by (intro exI [of _ "Boxed p'"] exI [of _ out]) simp
next
  case (Selected s b)
  have s: "s < n" "bwf n b" using Selected.prems(1) by simp_all
  note val = ready_value [OF Selected.prems(2) s(1), of 1] and rd = ready_reads [OF Selected.prems(2) s(1)]
  show ?case
  proof (cases "dv st s = {1}")
    case False
    then have "box_propagate vt (Selected s b) st = Some (Selected s b, (st, Ok ()))" using val by simp
    then show ?thesis
      using Selected.prems False by (intro exI [of _ "Selected s b"] exI [of _ "(st, Ok ())"]) (auto simp: sound_def evolves_refl ready_def)
  next
    case True
    let ?st1 = "set_injected_premise (PEq s 1) st"
    have nt: "noted st ?st1" unfolding set_injected_premise_def by (rule noted_self)
    have "ready n ?st1" using noted_same(9) [OF nt] Selected.prems(2) by simp
    from Selected.IH [OF s(2) this]
    obtain c out1 where r: "box_propagate vt b ?st1 = Some (c, out1)" and IH: "sound (bsol b) st out1" "bwf n c" "bsol c = bsol b"
      "bwatch c = bwatch b" "snd out1 = Ok () \<longrightarrow> bfix c (dv (fst out1))"
      unfolding noted_sound [OF nt, of "bsol b"] by blast
    define b' where "b' = Selected s c"
    define out where "out = close_guard (PEq s 1) out1"
    have run: "box_propagate vt (Selected s b) st = Some (b', out)"
      using val rd(6) True r by (simp add: card_1_singleton_iff b'_def out_def)
    note b' = b'_def out_def
    have "a s = 1" if "within a st" for a
      using that True s(1) Selected.prems(2) by (auto simp: within_dv ready_def)
    then have "bsol b a" if "within a st" "bsol (Selected s b) a" for a using that by simp
    then have "sound (bsol (Selected s b)) st out1" by (rule sound_mono [OF IH(1)])
    moreover have "bsol b' = bsol (Selected s b)" by (rule ext) (simp add: b' IH(3))
    moreover have "snd out1 = Ok () \<longrightarrow> bfix b' (dv (fst out1))" using IH(5) by (simp add: b'(1))
    moreover have "bwf n b'" "bwatch b' = bwatch (Selected s b)" using IH(2,4) s by (simp_all add: b')
    ultimately show ?thesis
      using run by (intro exI [of _ b'] exI [of _ out]) (simp only: b'(2) close_guard_sound simp_thms)
  qed
qed

lemma box_wake:
  assumes "bwf n b" "bfix b D" "\<forall>v < n. D' v \<noteq> {} \<and> D' v \<subseteq> D v \<and> finite (D v)"
    and "\<forall>(e, v) \<in> bwatch b. \<not> occurs e (D v) (D' v)"
  shows "bfix b D'"
  using assms
proof (induction b)
  case (Boxed p)
  then show ?case using wake_law [of n p D D'] by auto
next
  case (Selected s b)
  show ?case
  proof (cases "D' s = {1}")
    case True
    have "\<not> occurs FixEvent (D s) (D' s)" using Selected.prems(4) by simp
    then have "D s = {1}" using True by simp
    then show ?thesis using Selected by auto
  qed simp
qed

lemma box_register:
  assumes "bwf n b" "length (domains st) = n" "slot_free me st" "box_register_until vt b me [] st = (b', st', fin, stops)"
  shows "fin \<and> stops = [] \<and> registered (bwatch b) me st st' \<and> bwf n b' \<and> bsol b' = bsol b \<and> bwatch b' = bwatch b"
  using assms
proof (induction b arbitrary: st b' st' fin stops)
  case (Boxed p)
  then obtain p' where r: "v_register_until vt p me [] st = (p', st', fin, stops)" "b' = Boxed p'" by (auto split: prod.splits)
  show ?case using register_law [OF _ Boxed.prems(2,3) r(1)] Boxed.prems(1) r(2) by (auto simp: fun_eq_iff)
next
  case (Selected s b)
  let ?st1 = "subscribe s me FixEvent st"
  have s: "s < length (domains st)" "bwf n b" using Selected.prems(1,2) by simp_all
  note r1 = registered_subscribe [OF Selected.prems(3) s(1), of FixEvent]
  obtain c st2 f2 stops2 where r: "box_register_until vt b me [] ?st1 = (c, st2, f2, stops2)" by (metis prod_cases4)
  have "length (domains ?st1) = n" using Selected.prems(2) by simp
  from Selected.IH [OF s(2) this registered_slot [OF r1 Selected.prems(3)] r]
  have IH: "f2" "stops2 = []" "registered (bwatch b) me ?st1 st2" "bwf n c" "bsol c = bsol b" "bwatch c = bwatch b" by simp_all
  have "b' = Selected s c" "st' = st2" "fin" "stops = []" using Selected.prems(4) r IH(1,2) by simp_all
  then show ?case using registered_trans [OF r1 IH(3)] IH Selected.prems(1) by (auto simp: fun_eq_iff)
qed

lemma bwatch_var: "bwf n b \<Longrightarrow> (e, v) \<in> bwatch b \<Longrightarrow> v < n"
  by (induction b) (auto dest: watch_law)

section \<open>The solver\<close>

lemma held_slot: "held n so i b \<Longrightarrow> slot so i = b"
  by (simp add: held_in_def slot_def)

lemma inv_held: "solver_inv n so \<Longrightarrow> i < length (propagators so) \<Longrightarrow> held n so i (slot so i)"
  using held_slot by (fastforce simp: solver_ok_def)

text \<open>What the invariant rests on.\<close>

lemma inv_cong:
  assumes so': "propagators so' = propagators so" "weights so' = weights so"
    and st: "good (so_store so')" "length (domains (so_store so')) = length (domains (so_store so))"
      "current (so_store so') = None" "length (enqueued (so_store so')) = length (enqueued (so_store so))"
      "subs (so_store so') = subs (so_store so)" "scopes (so_store so') = scopes (so_store so)"
      "var_weight_cache (so_store so') = var_weight_cache (so_store so)"
    and inv: "solver_inv n so"
  shows "solver_inv n so'" "held n so' i b = held n so i b" "slot so' i = slot so i" "all_sol so' = all_sol so"
proof -
  show h: "held n so' i b = held n so i b" for i b by (simp add: held_in_def so' st)
  have "cache_ok (so_store so') (weights so')" using inv by (simp add: solver_ok_def cache_ok_def degree_def so' st)
  then show "solver_inv n so'" using inv st by (simp add: solver_ok_def h so')
  show "slot so' i = slot so i" "all_sol so' = all_sol so" by (simp_all add: slot_def all_posted_def so' fun_eq_iff)
qed

section \<open>One run\<close>

lemma good_bump: "good (bump_var_weight p st) = good st" "st_saved (bump_var_weight p st) = st_saved st"
  using doms_ok_cong [of "bump_var_weight p st" st]
  by (simp_all add: good_def sched_ok_def links_ok_def all_roomy_def queued_def)

lemma structs_bump: "structs (bump_var_weight p st) = structs st"
  by (simp add: structs_def bump_var_weight_def)

lemma good_clear:
  assumes "good st"
  shows "good (clear_queue st)" "st_saved (clear_queue st) = st_saved st" "structs (clear_queue st) = structs st"
proof -
  note c = clear_queue_ok [of st]
  have s: "sched_ok st" using assms by (simp add: good_def)
  show "structs (clear_queue st) = structs st" by (rule structs_rescheduled [OF c(3) [OF s]])
  note f = rescheduled_doms [OF c(3) [OF s]]
  have "links_ok (clear_queue st)" using assms by (simp add: good_def links_ok_def f clear_queue_def)
  then show "good (clear_queue st)" "st_saved (clear_queue st) = st_saved st"
    using assms c(1) [OF s] doms_ok_cong [of "clear_queue st" st] f by (simp_all add: good_def all_roomy_def)
qed

lemma current_same:
  "good (st\<lparr>current := c\<rparr>) = good st" "alive (st\<lparr>current := c\<rparr>) = alive st" "dv (st\<lparr>current := c\<rparr>) = dv st"
  "within a (st\<lparr>current := c\<rparr>) = within a st" "queued (st\<lparr>current := c\<rparr>) = queued st" "vals (st\<lparr>current := c\<rparr>) = vals st"
  "st_view (st\<lparr>current := c\<rparr>) = st_view st" "st_saved (st\<lparr>current := c\<rparr>) = st_saved st" "structs (st\<lparr>current := c\<rparr>) = structs st"
proof -
  note c = doms_ok_cong [of "st\<lparr>current := c\<rparr>" st, simplified]
  show "structs (st\<lparr>current := c\<rparr>) = structs st" by (simp add: structs_def)
  show q: "queued (st\<lparr>current := c\<rparr>) = queued st" by (simp add: queued_def fun_eq_iff)
  show v: "vals (st\<lparr>current := c\<rparr>) = vals st" "st_view (st\<lparr>current := c\<rparr>) = st_view st" "st_saved (st\<lparr>current := c\<rparr>) = st_saved st"
    using c by simp_all
  show "good (st\<lparr>current := c\<rparr>) = good st" using c by (simp add: good_def sched_ok_def links_ok_def all_roomy_def q)
  show "alive (st\<lparr>current := c\<rparr>) = alive st" "dv (st\<lparr>current := c\<rparr>) = dv st" "within a (st\<lparr>current := c\<rparr>) = within a st"
    by (simp_all add: alive_def dv_def within_def fun_eq_iff v)
qed

lemma clear_pending_noted: "noted st (clear_pending st)"
proof -
  have "clear_pending st = st\<lparr>pending_premises := None, pending_conflict := None, finesse := finesse st, injected_premises := []\<rparr>"
    by (simp add: clear_pending_def)
  then show ?thesis unfolding noted_def by blast
qed

text \<open>The store a propagator starts from, and the store it leaves.\<close>

lemma begin_run_held:
  assumes "held n so me b"
  obtains so1 where "begin_run me so = Some (b, (clear_pending (so_store so))\<lparr>current := Some me\<rparr>, so1)"
    "propagators so1 = (propagators so)[me := None]" "weights so1 = weights so"
  using assms by (auto simp: begin_run_def held_in_def Let_def)

lemma run_step:
  assumes inv: "solver_inv n so" and al: "alive (so_store so)" and me: "me < length (propagators so)"
    and nq: "\<not> queued (so_store so) me"
  obtains so' r where "run_prop vt me so = Some (so', r)" "solver_inv n so'" "length (propagators so') = length (propagators so)"
    "all_sol so' = all_sol so" "length (enqueued (so_store so')) = length (enqueued (so_store so))"
    "st_saved (so_store so') = st_saved (so_store so)" "structs (so_store so') = structs (so_store so)"
    "if is_ok r then alive (so_store so') \<and> (\<forall>a. within a (so_store so) \<and> all_sol so a \<longrightarrow> within a (so_store so')) \<and>
        evolves ((so_store so)\<lparr>current := Some me\<rparr>) ((so_store so')\<lparr>current := Some me\<rparr>) \<and>
        (settled (\<lambda>i. i = me) so \<longrightarrow> settled (\<lambda>_. False) so')
     else (\<forall>a. within a (so_store so) \<longrightarrow> \<not> all_sol so a) \<and> (\<forall>p. \<not> queued (so_store so') p)"
proof -
  let ?st = "so_store so" and ?b = "slot so me"
  let ?st1 = "(clear_pending ?st)\<lparr>current := Some me\<rparr>"
  have h: "held n so me ?b" using inv_held [OF inv me] .
  obtain so1 where so1: "begin_run me so = Some (?b, ?st1, so1)" "propagators so1 = (propagators so)[me := None]" "weights so1 = weights so"
    using begin_run_held [OF h] .
  have wf: "bwf n ?b" using h by (simp add: held_in_def)
  have g: "good ?st" "length (domains ?st) = n" "cache_ok ?st (weights so)" using inv by (simp_all add: solver_ok_def)
  note nt = noted_same [OF clear_pending_noted [of ?st]] and nf = noted_fields [OF clear_pending_noted [of ?st]]
  have rdy: "ready n ?st1" using g al by (simp add: ready_def current_same nt nf)
  obtain b' st2 r where run: "box_propagate vt ?b ?st1 = Some (b', (st2, r))" and R: "sound (bsol ?b) ?st1 (st2, r) \<and> bwf n b' \<and>
      bsol b' = bsol ?b \<and> bwatch b' = bwatch ?b \<and> (snd (st2, r) = Ok () \<longrightarrow> bfix b' (dv (fst (st2, r))))"
    using box_run [OF wf rdy] by (metis prod.exhaust)
  let ?st3 = "st2\<lparr>current := None\<rparr>"
  have ev: "evolves ?st1 st2" using R by (simp add: sound_def)
  have comm: "?st1 = clear_pending (?st\<lparr>current := Some me\<rparr>)"
    by (cases "so_store so") (simp add: clear_pending_def)
  have ev': "evolves (?st\<lparr>current := Some me\<rparr>) st2"
    using noted_evolves [OF clear_pending_noted [of "?st\<lparr>current := Some me\<rparr>"], of st2] ev unfolding comm by simp
  have f: "subs st2 = subs ?st" "scopes st2 = scopes ?st" "var_weight_cache st2 = var_weight_cache ?st"
    "length (domains st2) = length (domains ?st)" "length (enqueued st2) = length (enqueued ?st)" "current st2 = Some me"
    "good st2" "st_saved st2 = st_saved ?st" "structs st2 = structs ?st"
    using ev' by (simp_all add: evolves_def current_same)
  let ?so2 = "so1\<lparr>so_store := ?st3, propagators := (propagators so1)[me := Some b']\<rparr>"
  have pr: "propagators ?so2 = (propagators so)[me := Some b']" by (simp add: so1)
  have held2: "held n ?so2 i (if i = me then b' else slot so i)" if "i < length (propagators so)" for i
    using inv_held [OF inv that] h R me that by (auto simp: held_in_def so1 f)
  have inv2: "solver_inv n ?so2"
    unfolding solver_ok_def
  proof (intro conjI allI impI)
    show "cache_ok (so_store ?so2) (weights ?so2)" using g(3) by (simp add: cache_ok_def degree_def f so1(3))
    fix i assume "i < length (propagators ?so2)"
    then have i: "i < length (propagators so)" by (simp add: so1)
    show "distinct (scopes (so_store ?so2) ! i)" using inv i by (simp add: solver_ok_def f)
    show "\<exists>b. held n ?so2 i b" using held2 [OF i] by blast
  qed (use inv in \<open>simp_all add: solver_ok_def f current_same so1\<close>)
  have sl: "slot ?so2 i = (if i = me then b' else slot so i)" if "i < length (propagators so)" for i
    using held_slot [OF held2 [OF that]] .
  have sols: "all_sol ?so2 = all_sol so"
    using sl R by (auto simp: all_posted_def fun_eq_iff so1)
  show thesis
  proof (cases r)
    case (Ok u)
    have r: "run_prop vt me so = Some (?so2, r)"
      using so1(1) run Ok by (simp add: run_prop_def end_run_def Let_def)
    have so2: "alive st2" "\<forall>a. within a ?st \<and> bsol ?b a \<longrightarrow> within a st2" "bfix b' (dv st2)"
      using R Ok by (simp_all add: sound_def current_same nt)
    have "settled (\<lambda>_. False) ?so2" if st: "settled (\<lambda>i. i = me) so"
      unfolding settled_for_def
    proof (intro allI impI)
      fix i assume i: "i < length (propagators ?so2)" and "\<not> queued (so_store ?so2) i \<and> \<not> False"
      then have i': "i < length (propagators so)" and nq2: "\<not> queued st2 i" by (simp_all add: so1 current_same)
      show "bfix (slot ?so2 i) (dv (so_store ?so2))"
      proof (cases "i = me")
        case True
        then show ?thesis using so2(3) sl [OF i'] by (simp add: current_same)
      next
        case False
        have "\<not> queued ?st i" using ev' nq2 by (auto simp: evolves_def current_same)
        then have fx: "bfix (slot so i) (dv ?st)" using st i' False by (simp add: settled_for_def)
        have hi: "bwf n (slot so i)" "\<forall>(e, v) \<in> bwatch (slot so i). (e, i) \<in> set (subs ?st ! v)"
          using inv_held [OF inv i'] by (simp_all add: held_in_def)
        have wk: "woken (?st\<lparr>current := Some me\<rparr>) st2" using ev' so2(1) by (simp add: evolves_def)
        have "\<not> occurs e (dv ?st v) (dv st2 v)" if w: "(e, v) \<in> bwatch (slot so i)" for e v
        proof -
          have "v < length (domains ?st)" using bwatch_var [OF hi(1) w] g(2) by simp
          moreover have "(e, i) \<in> set (subs ?st ! v)" using hi(2) w by blast
          ultimately show ?thesis using wk nq2 False f(4) unfolding woken_def by (fastforce simp: current_same dv_def)
        qed
        moreover have "dv st2 v \<noteq> {} \<and> dv st2 v \<subseteq> dv ?st v \<and> finite (dv ?st v)" if "v < n" for v
          using that ev' so2(1) g ready_reads(1) [of n ?st v] al
          by (auto simp: evolves_def alive_def dv_def f current_same ready_def)
        ultimately have "bfix (slot so i) (dv st2)" using box_wake [OF hi(1) fx, of "dv st2"] by auto
        then show ?thesis using sl [OF i'] False by (simp add: current_same)
      qed
    qed
    moreover have "within a st2" if "within a ?st" "all_sol so a" for a
      using so2(2) that me by (auto simp: all_posted_def)
    moreover have "evolves (?st\<lparr>current := Some me\<rparr>) (st2\<lparr>current := Some me\<rparr>)"
    proof -
      have "st2\<lparr>current := Some me\<rparr> = st2" using f(6) by (cases st2) simp
      then show ?thesis using ev' by (simp only:)
    qed
    ultimately show thesis
      using that [OF r inv2 _ sols] Ok so2(1) f by (simp add: so1 current_same)
  next
    case (Err e)
    let ?so3 = "?so2\<lparr>weights := list_modify me (\<lambda>w. w + 1) (weights so1), so_store := clear_queue (bump_var_weight me ?st3)\<rparr>"
    have r: "run_prop vt me so = Some (?so3, r)"
      using so1(1) run Err by (simp add: run_prop_def end_run_def Let_def)
    have st: "so_store ?so3 = clear_queue (bump_var_weight me ?st3)" by simp
    have s3: "sched_ok (bump_var_weight me ?st3)" proof -
      have "good (bump_var_weight me ?st3)" by (simp only: good_bump(1) current_same(1) f(7))
      then show ?thesis by (simp add: good_def)
    qed
    note cf = rescheduled_doms [OF clear_queue_ok(3) [OF s3]]
    have gd: "good (so_store ?so3)" "st_saved (so_store ?so3) = st_saved ?st" "structs (so_store ?so3) = structs ?st"
      unfolding st using good_clear good_bump structs_bump f by (simp_all add: current_same)
    have sc: "me < length (scopes ?st3)" "me < length (weights so)" "distinct (scopes ?st3 ! me)" "links_ok ?st3"
      using inv me f inv2 by (simp_all add: solver_ok_def good_def sched_ok_def)
    have "cache_ok (bump_var_weight me ?st3) ((weights so)[me := weights so ! me + 1])"
      using bump_cache_ok [OF _ sc(4,1,2,3)] inv2 by (simp add: solver_ok_def so1)
    then have ch: "cache_ok (so_store ?so3) (weights ?so3)"
      by (simp add: cache_ok_def degree_def cf so1 list_modify_def clear_queue_def)
    have h3: "held n ?so3 i b = held n ?so2 i b" for i b by (simp add: held_in_def cf)
    have lens: "length (domains (so_store ?so3)) = n" "current (so_store ?so3) = None"
      "length (enqueued (so_store ?so3)) = length (enqueued ?st)" "scopes (so_store ?so3) = scopes ?st"
      using cf clear_queue_ok(4) [OF s3] g(2) f by simp_all
    have "solver_inv n ?so3"
      unfolding solver_ok_def
    proof (intro conjI allI impI)
      fix i assume "i < length (propagators ?so3)"
      then have i: "i < length (propagators so)" by (simp add: so1)
      show "distinct (scopes (so_store ?so3) ! i)" unfolding lens(4) using inv i by (simp add: solver_ok_def)
      show "\<exists>b. held n ?so3 i b" using held2 [OF i] h3 by blast
    qed (use inv gd ch lens in \<open>simp_all add: solver_ok_def so1 list_modify_def\<close>)
    moreover have "all_sol ?so3 = all_sol so" using sols by (simp add: all_posted_def slot_def fun_eq_iff)
    moreover have "\<not> all_sol so a" if "within a ?st" for a
      using R Err that me by (auto simp: sound_def current_same nt all_posted_def)
    ultimately show thesis
      using that [OF r] Err gd(2,3) lens clear_queue_ok(2) [OF s3] by (simp add: so1)
  qed
qed

section \<open>The loop\<close>

text \<open>A run that changes no domain leaves fewer propagators queued; the others shrink domains.\<close>

definition work :: "'p solver \<Rightarrow> nat" where
  "work so = (\<Sum>v < length (domains (so_store so)). card (vals (so_store so) v)) * Suc (length (enqueued (so_store so))) +
     card {p. queued (so_store so) p}"

lemma queued_bounded: "good st \<Longrightarrow> {p. queued st p} \<subseteq> {..<length (enqueued st)}"
  using sched_flag by (auto simp: good_def)

lemma card_queued: "good st \<Longrightarrow> card {p. queued st p} \<le> length (enqueued st)"
  using card_mono [OF _ queued_bounded] by fastforce

lemma work_decreases:
  assumes d: "dequeue st = (Some me, st1)" and ok: "good st" and ev: "evolves (st1\<lparr>current := Some me\<rparr>) (st2\<lparr>current := Some me\<rparr>)"
    and so: "so_store so = st" "so_store so' = st2"
  shows "work so' < work so"
proof -
  have s: "sched_ok st" using ok by (simp add: good_def)
  note D = dequeue_ok [OF s d]
  note f = rescheduled_doms [OF D(6)]
  have c1: "vals st1 = vals st" "length (domains st1) = length (domains st)" "st_view st1 = st_view st"
    using doms_ok_cong [of st1 st] f by simp_all
  have E: "length (domains st2) = length (domains st)" "length (enqueued st2) = length (enqueued st)"
    "\<And>v. v < length (domains st) \<Longrightarrow> vals st2 v \<subseteq> vals st v"
    "\<And>q. queued st2 q \<Longrightarrow> \<not> queued st1 q \<Longrightarrow> st_view st2 \<noteq> st_view st" "good st2"
    using ev D(5) by (simp_all add: evolves_def current_same c1)
  have fin: "finite (vals st v)" if "v < length (domains st)" for v
    using st_reads(1) [of st v] ok that by (simp add: good_def)
  have le: "card (vals st2 v) \<le> card (vals st v)" if "v < length (domains st)" for v
    using card_mono [OF fin [OF that] E(3) [OF that]] .
  let ?n = "length (domains st)" and ?L = "length (enqueued st)"
  have q2: "card {p. queued st2 p} \<le> ?L" using card_queued [OF E(5)] E(2) by simp
  have fq: "finite {p. queued st p}" using queued_bounded [OF ok] finite_subset by blast
  show ?thesis
  proof (cases "st_view st2 = st_view st")
    case True
    then have "vals st2 v = vals st v" if "v < ?n" for v using that unfolding view_eq_vals [OF E(1)] by simp
    then have sum: "(\<Sum>v < ?n. card (vals st2 v)) = (\<Sum>v < ?n. card (vals st v))" by simp
    have "{p. queued st2 p} \<subseteq> {p. queued st p} - {me}" using E(4) True D(3) by auto
    then have "card {p. queued st2 p} < card {p. queued st p}"
      using D(2) fq by (metis card_Diff1_less card_mono finite_Diff le_less_trans mem_Collect_eq)
    then show ?thesis using sum E by (simp add: work_def so)
  next
    case False
    then obtain v where v: "v < ?n" "vals st2 v \<noteq> vals st v" unfolding view_eq_vals [OF E(1)] by blast
    have "card (vals st2 v) < card (vals st v)" using psubset_card_mono [OF fin [OF v(1)]] E(3) [OF v(1)] v(2) by blast
    then have "(\<Sum>v < ?n. card (vals st2 v)) < (\<Sum>v < ?n. card (vals st v))"
      using le v(1) by (intro sum_strict_mono_ex1) auto
    then have "Suc (\<Sum>v < ?n. card (vals st2 v)) * Suc ?L \<le> (\<Sum>v < ?n. card (vals st v)) * Suc ?L"
      by (intro mult_le_mono1) simp
    then show ?thesis using q2 E by (simp add: work_def so)
  qed
qed

theorem propagate_fixpoint:
  assumes "solver_inv n so" "alive (so_store so)" "settled (\<lambda>_. False) so"
  shows "\<exists>so' r. propagate vt so = Some (so', r) \<and> solver_inv n so' \<and> all_sol so' = all_sol so \<and>
    length (propagators so') = length (propagators so) \<and> (\<forall>p. \<not> queued (so_store so') p) \<and>
    st_saved (so_store so') = st_saved (so_store so) \<and> structs (so_store so') = structs (so_store so) \<and>
    (if is_ok r then alive (so_store so') \<and> (\<forall>i < length (propagators so'). bfix (slot so' i) (dv (so_store so'))) \<and>
        (\<forall>v < n. vals (so_store so') v \<subseteq> vals (so_store so) v) \<and>
        (\<forall>a. within a (so_store so) \<and> all_sol so a \<longrightarrow> within a (so_store so'))
     else \<forall>a. within a (so_store so) \<longrightarrow> \<not> all_sol so a)"
  using assms
proof (induction "work so" arbitrary: so rule: less_induct)
  case less
  note inv = less.prems(1) and al = less.prems(2) and se = less.prems(3)
  have gd: "good (so_store so)" and n: "length (domains (so_store so)) = n" using inv by (simp_all add: solver_ok_def)
  then have s: "sched_ok (so_store so)" by (simp add: good_def)
  obtain m st1 where d: "dequeue (so_store so) = (m, st1)" by fastforce
  show ?case
  proof (cases m)
    case None
    have nq: "\<forall>p. \<not> queued (so_store so) p" using dequeue_none [of "so_store so"] d None by simp
    have st1: "st1 = so_store so" using dequeue_none_same d None by simp
    have "propagate vt so = Some (so, Ok ())" using d None st1 by (subst propagate.simps) simp
    then show ?thesis using inv al se nq by (intro exI [of _ so] exI [of _ "Ok ()"]) (simp add: settled_for_def)
  next
    case (Some me)
    note D = dequeue_ok [OF s d [unfolded Some]]
    note f = rescheduled_doms [OF D(6)]
    have c: "vals st1 = vals (so_store so)" "st_saved st1 = st_saved (so_store so)" "doms_ok st1" "st_view st1 = st_view (so_store so)"
      "structs st1 = structs (so_store so)"
      using doms_ok_cong [of st1 "so_store so"] f gd structs_rescheduled [OF D(6)] by (simp_all add: good_def)
    have rl: "relevant st1 = relevant (so_store so)" "var_weight_cache st1 = var_weight_cache (so_store so)"
      using D(6) by (auto simp: rescheduled_def)
    let ?so1 = "so\<lparr>so_store := st1\<rparr>"
    have gd1: "good st1" using gd D(1,5) c f rl by (simp add: good_def links_ok_def all_roomy_def)
    have inv1: "solver_inv n ?so1" and sl1: "\<And>i. slot ?so1 i = slot so i" and as1: "all_sol ?so1 = all_sol so"
      using inv_cong [of ?so1 so, OF _ _ _ _ _ _ _ _ _ inv] gd1 f D(5) rl inv by (simp_all add: solver_ok_def)
    have al1: "alive st1" using al by (simp add: alive_def c f)
    have dv1: "dv st1 = dv (so_store so)" by (simp add: dv_def fun_eq_iff c f)
    have w1: "within a st1 = within a (so_store so)" for a by (simp add: within_def c f)
    have me: "me < length (propagators ?so1)" using sched_flag [OF s] D(2) inv by (simp add: solver_ok_def)
    have nq: "\<not> queued (so_store ?so1) me" using D(3) by simp
    obtain so' r where run: "run_prop vt me ?so1 = Some (so', r)" and inv': "solver_inv n so'"
      and so': "length (propagators so') = length (propagators ?so1)" "all_sol so' = all_sol ?so1" "st_saved (so_store so') = st_saved (so_store ?so1)"
        "structs (so_store so') = structs (so_store ?so1)"
      and out: "if is_ok r then alive (so_store so') \<and> (\<forall>a. within a (so_store ?so1) \<and> all_sol ?so1 a \<longrightarrow> within a (so_store so')) \<and>
          evolves ((so_store ?so1)\<lparr>current := Some me\<rparr>) ((so_store so')\<lparr>current := Some me\<rparr>) \<and>
          (settled (\<lambda>i. i = me) ?so1 \<longrightarrow> settled (\<lambda>_. False) so')
       else (\<forall>a. within a (so_store ?so1) \<longrightarrow> \<not> all_sol ?so1 a) \<and> (\<forall>p. \<not> queued (so_store so') p)"
      by (rule run_step [OF inv1 _ me nq]) (use al1 in auto)
    show ?thesis
    proof (cases "is_ok r")
      case False
      have "propagate vt so = Some (so', r)" using d Some run False by (subst propagate.simps) simp
      then show ?thesis using False out inv' so' as1 w1 c(2,5) by (intro exI [of _ so'] exI [of _ r]) simp
    next
      case True
      have step: "propagate vt so = propagate vt so'" using d Some run True by (subst propagate.simps) simp
      have ev: "evolves (st1\<lparr>current := Some me\<rparr>) ((so_store so')\<lparr>current := Some me\<rparr>)" using out True by simp
      have "settled (\<lambda>i. i = me) ?so1"
        using se D(3) by (auto simp: settled_for_def sl1 dv1)
      then have se': "settled (\<lambda>_. False) so'" and al': "alive (so_store so')"
        and w': "\<forall>a. within a (so_store so) \<and> all_sol so a \<longrightarrow> within a (so_store so')"
        using out True by (simp_all add: w1 as1)
      have sub: "vals (so_store so') v \<subseteq> vals (so_store so) v" if "v < n" for v
        using ev that n by (simp add: evolves_def current_same c f)
      have wk: "work so' < work so" using work_decreases [OF d [unfolded Some] gd ev refl refl] .
      from less.hyps [OF wk inv' al' se'] obtain so2 r2 where F: "propagate vt so' = Some (so2, r2)" "solver_inv n so2" "all_sol so2 = all_sol so'"
        "length (propagators so2) = length (propagators so')" "\<forall>p. \<not> queued (so_store so2) p" "st_saved (so_store so2) = st_saved (so_store so')"
        "structs (so_store so2) = structs (so_store so')"
        "if is_ok r2 then alive (so_store so2) \<and> (\<forall>i < length (propagators so2). bfix (slot so2 i) (dv (so_store so2))) \<and>
            (\<forall>v < n. vals (so_store so2) v \<subseteq> vals (so_store so') v) \<and> (\<forall>a. within a (so_store so') \<and> all_sol so' a \<longrightarrow> within a (so_store so2))
         else \<forall>a. within a (so_store so') \<longrightarrow> \<not> all_sol so' a"
        by blast
      have "if is_ok r2 then alive (so_store so2) \<and> (\<forall>i < length (propagators so2). bfix (slot so2 i) (dv (so_store so2))) \<and>
            (\<forall>v < n. vals (so_store so2) v \<subseteq> vals (so_store so) v) \<and> (\<forall>a. within a (so_store so) \<and> all_sol so a \<longrightarrow> within a (so_store so2))
         else \<forall>a. within a (so_store so) \<longrightarrow> \<not> all_sol so a"
      proof (cases "is_ok r2")
        case True
        have "vals (so_store so2) v \<subseteq> vals (so_store so) v" if "v < n" for v
          using F(8) True sub [OF that] that by (meson subset_trans)
        then show ?thesis using F(8) True w' so'(2) as1 by simp
      next
        case False
        then show ?thesis using F(8) w' so'(2) as1 by auto
      qed
      then show ?thesis using F step so' as1 c(2,5) by (intro exI [of _ so2] exI [of _ r2]) simp
    qed
  qed
qed

end

end
