(* ===== verification/Posting.thy ===== *)
theory Posting imports Fixpoint begin

text \<open>
  Posting a constraint (\<open>Solver::post\<close>): it keeps the invariant of the solver, conjoins the
  constraint, guarded by the selector of the group being posted, and leaves it queued. The
  checking contract adds that a propagator with nothing to do on fixed variables is satisfied;
  then a propagation that ends with every variable fixed has found a solution.
\<close>

section \<open>Posting\<close>

lemma registered_frame:
  assumes "registered W me st st'" "sched_ok st" "all_roomy st" "doms_ok st"
  shows "good st'"
proof -
  have q: "queued st' = queued st" using assms(1) by (simp add: registered_def queued_def fun_eq_iff)
  have "doms_ok st'" "sched_ok st'" "all_roomy st'"
    using assms q doms_ok_cong [of st' st] by (simp_all add: registered_def sched_ok_def all_roomy_def)
  then show ?thesis using assms(1) by (simp add: good_def registered_def)
qed

lemma degree_snoc:
  assumes "\<forall>(e, p) \<in> set (subs st ! v). p < length ws"
  shows "degree st v (ws @ [w]) = degree st v ws"
proof -
  have "map (\<lambda>(e, p). (ws @ [w]) ! p) (subs st ! v) = map (\<lambda>(e, p). ws ! p) (subs st ! v)"
    using assms by (auto simp: nth_append)
  then show ?thesis unfolding degree_def by (rule arg_cong [where f = sum_list])
qed

context propagator_contract
begin

lemma post_ok:
  assumes inv: "solver_inv n so" and b: "bwf n b" and sel: "\<And>s. current_selector so = Some s \<Longrightarrow> s < n"
  obtains so' me where "post vt b so = Some (so', me)" "me = length (propagators so)" "solver_inv n so'"
    "domains (so_store so') = domains (so_store so)" "s_trail (so_store so') = s_trail (so_store so)"
    "\<And>a. all_sol so' a \<longleftrightarrow> all_sol so a \<and> bsol (guard_with (current_selector so) b) a"
    "\<And>E. settled E so \<Longrightarrow> settled E so'" "current_selector so' = current_selector so"
    "linear_relaxation so' = linear_relaxation so" "length (propagators so') = Suc (length (propagators so))"
proof -
  let ?st = "so_store so" and ?b = "guard_with (current_selector so) b"
  have g: "good ?st" "sched_ok ?st" "links_ok ?st" "doms_ok ?st" "all_roomy ?st" and n: "length (domains ?st) = n"
    and len: "length (propagators so) = length (enqueued ?st)" "length (weights so) = length (enqueued ?st)"
    and cur: "current ?st = None" and ca: "cache_ok ?st (weights so)"
    using inv by (simp_all add: solver_ok_def good_def)
  have wb: "bwf n ?b" using b sel by (auto simp: guard_with_def split: option.splits)
  obtain me st1 where al: "alloc_prop ?st = (me, st1)" by fastforce
  note A = alloc_ok [OF g(2,3) al]
  have sc1: "scopes st1 = scopes ?st @ [[]]" and rm1: "all_roomy st1" and dm1: "doms_ok st1"
    using al g(5,4) doms_ok_cong [OF A(5,6)] by (auto simp: alloc_prop_def all_roomy_def)
  have me: "me = length (propagators so)" using A(3) len by simp
  have "length (scopes st1) = length (enqueued st1)" using A(1) by (simp add: sched_ok_def)
  then have sf: "slot_free me st1" using A(2,4) by (simp add: slot_free_def)
  obtain b' st2 fin stops where r: "box_register_until vt ?b me [] st1 = (b', st2, fin, stops)" by (metis prod_cases4)
  have R: "fin" "stops = []" "registered (bwatch ?b) me st1 st2" "bwf n b'" "bsol b' = bsol ?b" "bwatch b' = bwatch ?b"
    using box_register [OF wb _ sf r] A(5) n by simp_all
  note G2 = registered_frame [OF R(3) A(1) rm1 dm1]
  have f2: "domains st2 = domains ?st" "s_trail st2 = s_trail ?st" "enqueued st2 = enqueued st1" "current st2 = None"
    "length (scopes st2) = length (enqueued st2)" "\<And>q. q \<noteq> me \<Longrightarrow> scopes st2 ! q = scopes st1 ! q" "\<And>q. queued st2 q = queued ?st q"
    using R(3) A(5,6,11,12) cur \<open>length (scopes st1) = length (enqueued st1)\<close> by (simp_all add: registered_def queued_def)
  let ?st3 = "set_priority me (box_priority vt b') st2"
  have s3: "sched_ok ?st3" "links_ok ?st3" "all_roomy ?st3"
    using G2 by (simp_all add: good_def sched_ok_def links_ok_def all_roomy_def set_priority_def queued_def)
  have m3: "me < length (scopes ?st3)" using f2(3,5) A(4) by (simp add: set_priority_def)
  let ?st4 = "finalize_scope me ?st3"
  note F = finalize_ok [OF s3(1,2) m3]
  have m4: "me < length (enqueued ?st4)" using f2(3) A(4) by (simp add: finalize_scope_def set_priority_def)
  let ?st5 = "enqueue me ?st4"
  note Q = enqueue_ok [OF F(1) m4]
  have f5: "domains ?st5 = domains ?st" "s_trail ?st5 = s_trail ?st" "subs ?st5 = subs st2" "scopes ?st5 = scopes ?st4"
    "current ?st5 = None" "relevant ?st5 = relevant st2" "var_weight_cache ?st5 = var_weight_cache st2"
    "length (enqueued ?st5) = Suc me"
    using f2 A(4) by (simp_all add: enqueue_def finalize_scope_def set_priority_def)
  have "links_ok ?st5" using F(2) Q(3) by (simp add: links_ok_def enqueue_def)
  then have g5: "good ?st5"
    using Q(1) doms_ok_cong [OF f5(1,2)] g(4,5) by (simp add: good_def all_roomy_def f5)
  let ?so' = "so\<lparr>so_store := ?st5, propagators := propagators so @ [Some b'], weights := weights so @ [1]\<rparr>"
  have run: "post vt b so = Some (?so', me)"
    using al r R(1,2) by (simp add: post_def post_until_def Let_def)
  have old: "(\<forall>(e, v) \<in> bwatch c. (e, i) \<in> set (subs st2 ! v))" if "bwf n c" "\<forall>(e, v) \<in> bwatch c. (e, i) \<in> set (subs ?st ! v)" for c i
  proof clarify
    fix e v assume w: "(e, v) \<in> bwatch c"
    then have "v < length (domains st1)" using bwatch_var [OF that(1)] A(5) n by simp
    then show "(e, i) \<in> set (subs st2 ! v)" using R(3) that(2) w A(9) by (auto simp: registered_def)
  qed
  have hold: "held n ?so' i (slot so i)" if "i < length (propagators so)" for i
    using inv_held [OF inv that] old [of "slot so i" i] that by (simp add: held_in_def nth_append f5)
  have "(e, me) \<in> set (subs st2 ! v)" if w: "(e, v) \<in> bwatch ?b" for e v
    using R(3) w bwatch_var [OF wb w] A(5) n by (auto simp: registered_def)
  moreover have pme: "propagators ?so' ! me = Some b'" using me by (simp add: nth_append)
  ultimately have hme: "held n ?so' me b'"
    using R(4,6) pme by (auto simp: held_in_def f5)
  have sl: "slot ?so' i = (if i = me then b' else slot so i)" if "i < Suc me" for i
    using that held_slot [OF hme] held_slot [OF hold] me by (auto simp: less_Suc_eq)
  have deg: "\<forall>(e, p) \<in> set (subs ?st ! v). p < length (weights so)" if "v < n" for v
    using g(3) that n len by (auto simp: links_ok_def)
  have "degree st1 v (weights so @ [1]) = degree ?st v (weights so)" if "v < n" for v
    using degree_snoc [of ?st v] deg [OF that] by (simp add: degree_def A)
  then have "cache_ok st1 (weights so @ [1])" using ca n by (simp add: cache_ok_def A)
  moreover have "(weights so @ [1]) ! me = 1" using me len by (simp add: nth_append)
  ultimately have "cache_ok st2 (weights so @ [1])" using R(3) by (simp add: registered_def)
  then have ch: "cache_ok ?st5 (weights so @ [1])" by (simp add: cache_ok_def degree_def f5 f2)
  have inv': "solver_inv n ?so'"
    unfolding solver_ok_def
  proof (intro conjI allI impI)
    fix i assume "i < length (propagators ?so')"
    then consider "i = me" | "i < me" using me by fastforce
    then show "distinct (scopes (so_store ?so') ! i)"
    proof cases
      case 1
      then show ?thesis using F(3) by (simp add: f5)
    next
      case 2
      then have "scopes ?st5 ! i = scopes ?st ! i"
        unfolding f5(4) using f2(6) [of i] sc1 A(3) g(2) m3 by (simp add: finalize_scope_def set_priority_def nth_modify nth_append sched_ok_def)
      then show ?thesis using inv 2 me by (simp add: solver_ok_def)
    qed
    show "\<exists>c. held n ?so' i c" using hme hold me \<open>i < length (propagators ?so')\<close> by (fastforce simp: less_Suc_eq)
  qed (use g5 n ch me len f5 in simp_all)
  have sols: "all_sol ?so' a \<longleftrightarrow> all_sol so a \<and> bsol ?b a" for a
    using sl me R(5) by (auto simp: all_posted_def less_Suc_eq)
  have dv: "dv ?st5 = dv ?st" using doms_ok_cong [OF f5(1,2)] by (simp add: dv_def fun_eq_iff f5)
  have q5: "queued ?st5 i \<longleftrightarrow> i = me \<or> queued ?st i" for i
    using Q(2) f2(7) by (simp add: finalize_scope_def set_priority_def queued_def)
  have st5: "so_store ?so' = ?st5" and lp: "length (propagators ?so') = Suc me" using me by simp_all
  have "settled E ?so'" if "settled E so" for E
    unfolding settled_for_def st5 lp q5 dv
    using that sl me [symmetric] unfolding settled_for_def by simp
  then show thesis using that [OF run me inv' _ _ sols] f5 me by simp
qed

end

section \<open>The checking contract\<close>

text \<open>
  Nothing left to do on fixed variables means: satisfied, provided the values are of the kind
  the constraint is posted over (\<open>scope\<close>: Boolean, or signs, or anything).
\<close>

locale checking_propagator = propagator_contract vt sol fixp watch wf
  for vt :: "'p vtable" and sol fixp watch wf +
  fixes scope :: "'p \<Rightarrow> (var_id \<Rightarrow> int) \<Rightarrow> bool"
  assumes check_law: "\<lbrakk>wf n p; fixp p D; \<forall>v < n. D v = {a v} \<and> in_i32 (a v); scope p a\<rbrakk> \<Longrightarrow> sol p a"
begin

lemma box_check: "\<lbrakk>bwf n b; bfix b D; \<forall>v < n. D v = {a v} \<and> in_i32 (a v); sol_of scope b a\<rbrakk> \<Longrightarrow> bsol b a"
  by (induction b) (auto dest: check_law)

lemma within_fixed:
  assumes "within a st" "ready n st" "\<forall>v < n. card (vals st v) = 1"
  shows "\<forall>v < n. dv st v = {a v} \<and> in_i32 (a v)"
proof (intro allI impI)
  fix v assume v: "v < n"
  have "a v \<in> vals st v" "card (vals st v) = 1" "dv st v = vals st v" using assms v by (simp_all add: within_def dv_def ready_def)
  then have "dv st v = {a v}" by (metis card_1_singletonE singletonD)
  then show "dv st v = {a v} \<and> in_i32 (a v)" using ready_reads(8) [OF assms(2) v, of "a v"] by simp
qed

lemma fixpoint_solution:
  assumes inv: "solver_inv n so" and al: "alive (so_store so)"
    and fx: "\<forall>i < length (propagators so). bfix (slot so i) (dv (so_store so))"
    and fixed: "\<forall>v < n. card (vals (so_store so) v) = 1" and a: "within a (so_store so)" and sc: "all_posted scope so a"
  shows "all_sol so a"
proof -
  have D: "\<forall>v < n. dv (so_store so) v = {a v} \<and> in_i32 (a v)"
    using within_fixed [OF a _ fixed] inv al by (simp add: solver_ok_def ready_def)
  have "bsol (slot so i) a" if "i < length (propagators so)" for i
    using box_check [OF _ _ D, of "slot so i"] inv_held [OF inv that] fx sc that by (simp add: held_in_def all_posted_def)
  then show ?thesis by (simp add: all_posted_def)
qed

end

end
