(* ===== verification/Building.thy ===== *)
theory Building imports Posting begin

text \<open>
  Building a solver: the empty one satisfies its invariant, and a new variable
  (\<open>Solver::new_var_range\<close>) keeps the invariant, the constraints posted so far and the
  fixpoint they are at.
\<close>

section \<open>Running\<close>

lemma u64_succ_code [code]: "u64_succ n = nat (if int n < 18446744073709551615 then int n + 1 else int n)"
  by (simp add: u64_succ_def nat_add_distrib)

text \<open>Single steps, as the interleaved search takes them, compose to the fixpoint loop.\<close>

fun run_steps :: "nat \<Rightarrow> 'p vtable \<Rightarrow> 'p solver \<Rightarrow> ('p solver \<times> (unit, inconsistency) result) option" where
  "run_steps 0 vt so = None"
| "run_steps (Suc k) vt so = (case propagate_step vt so of
     None \<Rightarrow> None
   | Some (so', EmptyStep) \<Rightarrow> Some (so', Ok ())
   | Some (so', Ran me) \<Rightarrow> run_steps k vt so'
   | Some (so', Failed me) \<Rightarrow> Some (so', Err Inconsistency))"

lemma run_steps_propagate: "run_steps k vt so = Some y \<Longrightarrow> propagate vt so = Some y"
proof (induction k arbitrary: so)
  case (Suc k)
  obtain m st where d: "dequeue (so_store so) = (m, st)" by fastforce
  show ?case
  proof (cases m)
    case None
    then show ?thesis using Suc.prems d by (subst propagate.simps) (simp add: propagate_step_def)
  next
    case (Some me)
    have s: "propagate vt so = Option.bind (run_prop vt me (so\<lparr>so_store := st\<rparr>)) (\<lambda>(so', r). if is_ok r then propagate vt so' else Some (so', r))"
      by (subst propagate.simps) (simp add: d Some)
    obtain so1 r where r: "run_prop vt me (so\<lparr>so_store := st\<rparr>) = Some (so1, r)"
      using Suc.prems d Some by (cases "run_prop vt me (so\<lparr>so_store := st\<rparr>)") (auto simp: propagate_step_def)
    show ?thesis
    proof (cases r)
      case (Ok u)
      then show ?thesis using Suc d Some by (simp add: s r propagate_step_def)
    next
      case (Err e)
      then show ?thesis using Suc.prems d Some by (cases e) (auto simp: s r propagate_step_def)
    qed
  qed
qed simp

section \<open>New variables\<close>

definition solver_new_var :: "int \<Rightarrow> int \<Rightarrow> 'p solver \<Rightarrow> ('p solver \<times> var_id) option" where
  "solver_new_var lo hi so = map_option (\<lambda>(st, v). (so\<lparr>so_store := st\<rparr>, v)) (new_var_range lo hi (so_store so))"

definition solver_new_set :: "int list \<Rightarrow> 'p solver \<Rightarrow> ('p solver \<times> var_id) option" where
  "solver_new_set values so = map_option (\<lambda>(st, v). (so\<lparr>so_store := st\<rparr>, v)) (new_var_set values (so_store so))"

lemma good_new: "good store_new" "domains store_new = []"
  by (simp_all add: good_def doms_ok_def sched_ok_def links_ok_def all_roomy_def store_new_def queued_def nbands_def trail_ok_new)

lemma roomy_ints:
  assumes ok: "dom_ok d t"
  shows "roomy d (new_ints t vs) = roomy d t"
proof -
  have tr: "trail_ok t" using ok by (simp add: dom_ok_def)
  have "room_at d (s @ vs) = room_at d s" if "s \<in> set (history t)" for s
    by (rule room_at_cong) (use dom_ok_static [OF ok] history_lengths [OF that] in \<open>auto simp: dom_static_def nth_append\<close>)
  then show ?thesis using new_ints_ok [OF tr, of vs] by (simp add: roomy_def)
qed

text \<open>A fresh domain has the same values at every open level.\<close>

lemma fresh_room:
  assumes tr: "trail_ok t" and vs: "t' = new_ints t vs" and hs: "\<forall>r \<in> set (handle_list d). length (t_values t) \<le> r"
    and now: "hole_count d t' + int (card (dom_set d t')) \<le> i32_max"
  shows "roomy d t'"
proof -
  have N: "t_values t' = t_values t @ vs" "history t' = map (\<lambda>s. s @ vs) (history t)" using new_ints_ok [OF tr, of vs] by (simp_all add: vs)
  have "room_at d (s @ vs) = room_at d (t_values t')" if "s \<in> set (history t)" for s
    by (rule room_at_cong) (use hs history_lengths [OF that] in \<open>auto simp: N nth_append\<close>)
  moreover have "room_at d (t_values t')"
    using now by (simp add: room_at_def holes_at_def hole_count_def dom_set_def trail_get_def split: value_map.splits)
  ultimately show ?thesis by (simp add: roomy_def N(2))
qed

lemma fresh_range_roomy:
  assumes "trail_ok t" "dom_new_range lo hi t = Some (d, t')" "dom_set d t' = {lo..hi}" "hi - lo < i32_max"
  shows "roomy d t'"
proof -
  have "hole_count d t' = 0"
  proof (cases "span_len lo hi \<le> max_dense_range_values")
    case True
    then have "dom_from_dense_range lo hi (span_len lo hi) t = (d, t')" using assms(2) by (simp add: dom_new_range_def split: if_splits)
    then show ?thesis by (auto simp: dom_from_dense_range_def hole_count_def Let_def split: prod.splits)
  next
    case False
    then have "dom_from_bounds_range lo hi t = (d, t')" using assms(2) by (simp add: dom_new_range_def split: if_splits)
    then show ?thesis
      by (auto simp: dom_from_bounds_range_def hole_count_def Let_def trail_new_int_def trail_get_def nth_append split: prod.splits)
  qed
  then have "hole_count d t' + int (card (dom_set d t')) \<le> i32_max" using assms(3,4) by (simp add: i32_max_def)
  then show ?thesis using dom_new_range_fresh [OF assms(2)] fresh_room [OF assms(1)] by blast
qed

lemma good_new_var:
  assumes g: "good st" and i32: "in_i32 lo" "in_i32 hi" and w: "hi - lo < i32_max" and res: "new_var_range lo hi st = Some (st', v)"
  shows "good st'" "v = length (domains st)" "st_view st' = st_view st @ [{lo..hi}]" "length (domains st') = Suc (length (domains st))"
proof -
  have ok: "doms_ok st" "sched_ok st" "links_ok st" "all_roomy st" using g by (simp_all add: good_def)
  obtain d t where d: "dom_new_range lo hi (s_trail st) = Some (d, t)" "push_var d t st = (st', v)"
    using res by (auto simp: new_var_range_def split: option.splits)
  obtain vs where vs: "t = new_ints (s_trail st) vs" using dom_new_range_fresh [OF d(1)] by blast
  have tr: "trail_ok (s_trail st)" using ok(1) by (simp add: doms_ok_def)
  note N = dom_new_range_ok [OF tr i32 d(1)] and V = new_var_range_ok [OF ok(1) i32 res] and L = push_var_links [OF ok(3) d(2)]
  have f: "domains st' = domains st @ [d]" "s_trail st' = t" using d(2) by (auto simp: push_var_def)
  have "roomy (domains st ! w) t" if "w < length (domains st)" for w
    using ok(4) that roomy_ints [OF doms_ok_dom [OF ok(1) that]] by (simp add: all_roomy_def vs)
  moreover have "roomy d t" using fresh_range_roomy [OF tr d(1) _ w] N by simp
  ultimately have "all_roomy st'" by (auto simp: all_roomy_def f nth_append less_Suc_eq)
  then show "good st'" using V(1) L(1,2) ok(2) by (simp add: good_def)
  show "v = length (domains st)" "st_view st' = st_view st @ [{lo..hi}]" by (rule V(3), rule V(2))
  show "length (domains st') = Suc (length (domains st))" by (simp add: f)
qed

section \<open>The invariant while building\<close>

context propagator_contract
begin

lemma new_inv: "solver_inv 0 solver_new" "settled E solver_new" "all_sol solver_new a"
  using good_new by (simp_all add: solver_ok_def settled_for_def all_posted_def solver_new_def store_new_def cache_ok_def)

lemma grow_boxed: "bwf n b \<Longrightarrow> n \<le> m \<Longrightarrow> bwf m b"
  by (induction b) (auto intro: grow_law)

lemma new_var_inv:
  assumes inv: "solver_inv n so" and al: "alive (so_store so)" and i32: "in_i32 lo" "in_i32 hi" "lo \<le> hi" "hi - lo < i32_max"
  obtains so' where "solver_new_var lo hi so = Some (so', n)" "solver_inv (Suc n) so'" "alive (so_store so')"
    "\<And>E. settled E so \<Longrightarrow> settled E so'" "\<And>a. all_sol so' a = all_sol so a" "propagators so' = propagators so"
    "st_view (so_store so') = st_view (so_store so) @ [{lo..hi}]" "current_selector so' = current_selector so"
proof -
  let ?st = "so_store so"
  have g: "good ?st" "sched_ok ?st" "links_ok ?st" and n: "length (domains ?st) = n" using inv by (simp_all add: solver_ok_def good_def)
  have "dom_new_range lo hi (s_trail ?st) \<noteq> None" using i32(3) by (auto simp: dom_new_range_def Let_def)
  then obtain d t where d: "dom_new_range lo hi (s_trail ?st) = Some (d, t)" by fast
  obtain st' v where p: "push_var d t ?st = (st', v)" by fastforce
  have res: "new_var_range lo hi ?st = Some (st', v)" using d p by (simp add: new_var_range_def)
  note G = good_new_var [OF g(1) i32(1,2,4) res]
  note L = push_var_links [OF g(3) p]
  let ?so = "so\<lparr>so_store := st'\<rparr>"
  have f: "current st' = current ?st" "prio st' = prio ?st" "subs st' = subs ?st @ [[]]" "domains st' = domains ?st @ [d]"
    using p by (auto simp: push_var_def)
  have vals': "vals st' w = vals ?st w" if "w < n" for w
  proof -
    have "vals st' w = st_view st' ! w" using that G(4) n by simp
    also have "\<dots> = vals ?st w" using that n by (simp add: G(3) nth_append)
    finally show ?thesis .
  qed
  have valn: "vals st' n = {lo..hi}"
  proof -
    have "vals st' n = st_view st' ! n" using G(4) n by simp
    then show ?thesis using n by (simp add: G(3) nth_append)
  qed
  have al': "alive st'"
    using al vals' valn i32(3) unfolding alive_def G(4) n by (auto simp: less_Suc_eq)
  have held': "held (Suc n) ?so i b" if "held n so i b" for i b
    using that bwatch_var [of n b] grow_boxed [of n b "Suc n"] g(3) n
    by (auto simp: held_in_def f nth_append links_ok_def)
  have "\<exists>b. held (Suc n) ?so i b" if "i < length (propagators so)" for i
    using inv_held [OF inv that] held' by blast
  then have inv': "solver_inv (Suc n) ?so"
    using inv G(1,4) L(4,5,6) f n by (simp add: solver_ok_def)
  have set': "settled E ?so" if s: "settled E so" for E
  proof -
    have "bfix (slot so i) (dv st')" if i: "i < length (propagators so)" and q: "\<not> queued st' i" "\<not> E i" for i
    proof -
      have "bfix (slot so i) (dv ?st)" using s i q L(3) by (simp add: settled_for_def)
      moreover have "bwf n (slot so i)" using inv_held [OF inv i] by (simp add: held_in_def)
      moreover have "dv st' w = dv ?st w" if "w < n" for w using vals' [OF that] that G(4) n by (simp add: dv_def)
      moreover have "dv ?st w \<noteq> {} \<and> finite (dv ?st w)" if "w < n" for w
        using al that n st_reads(1) [of ?st w] g(1) by (simp add: dv_def alive_def good_def)
      moreover have "\<not> occurs e S S" for e S by (cases e) auto
      ultimately show ?thesis using box_wake [of n "slot so i" "dv ?st" "dv st'"] bwatch_var [of n "slot so i"] by fastforce
    qed
    then show ?thesis by (simp add: settled_for_def slot_def)
  qed
  have "solver_new_var lo hi so = Some (?so, n)" using res G(2) n by (simp add: solver_new_var_def)
  then show thesis by (rule that) (use inv' al' set' G(3) in \<open>simp_all add: all_posted_def slot_def\<close>)
qed

end

end
