(* ===== verification/Filtering.thy ===== *)
theory Filtering imports Actions begin

text \<open>
  Derived rules of the propagator logic: the store's mutators by their names, the facts every
  reachable value set has, and the loop that filters the values of one variable.
\<close>

section \<open>Every domain is a finite set of \<open>i32\<close> values\<close>

definition tame :: "nat \<Rightarrow> (var_id \<Rightarrow> int set) \<Rightarrow> bool" where
  "tame n D \<longleftrightarrow> (\<forall>v < n. finite (D v) \<and> D v \<noteq> {} \<and> (\<forall>x \<in> D v. in_i32 x))"

lemma tameD:
  assumes "tame n D" "v < n"
  shows "finite (D v)" "D v \<noteq> {}" "x \<in> D v \<Longrightarrow> in_i32 x" "in_i32 (Min (D v))" "in_i32 (Max (D v))"
  using assms Min_in [of "D v"] Max_in [of "D v"] by (auto simp: tame_def)

lemma ready_tame: "ready n st \<Longrightarrow> tame n (dv st)"
  using ready_reads by (simp add: tame_def)

lemma triple_tame_pre: "triple n sol (\<lambda>D. tame n D \<and> P D) m Q \<Longrightarrow> triple n sol P m Q"
  by (simp add: triple_def ready_tame)

lemma triple_tame_post:
  assumes "triple n sol P m (\<lambda>x D. tame n D \<longrightarrow> Q x D)"
  shows "triple n sol P m Q"
proof (rule tripleI)
  fix st assume st: "ready n st" "P (dv st)"
  have S: "sound sol st (m st)" "\<And>x. snd (m st) = Ok x \<Longrightarrow> tame n (dv (fst (m st))) \<longrightarrow> Q x (dv (fst (m st)))"
    using assms st by (auto simp: triple_def)
  show "sound sol st (m st) \<and> (\<forall>x. snd (m st) = Ok x \<longrightarrow> Q x (dv (fst (m st))))"
    using S sound_ready [OF st(1) S(1)] ready_tame by blast
qed

lemma triple_pre: "triple n sol P m Q \<Longrightarrow> (\<And>D. P' D \<Longrightarrow> P D) \<Longrightarrow> triple n sol P' m Q"
  by (rule triple_weaken)

lemma triple_post: "triple n sol P m R \<Longrightarrow> (\<And>x D. R x D \<Longrightarrow> Q x D) \<Longrightarrow> triple n sol P m Q"
  by (rule triple_weaken)

lemma tripleD:
  assumes "triple n sol P m Q" "ready n st" "P (dv st)" "m st = (st1, r)"
  shows "sound sol st (st1, r)" "r = Ok x \<Longrightarrow> Q x (dv st1)"
  using assms by (auto simp: triple_def)

text \<open>Reading the store fixes its value sets.\<close>

lemma triple_read_at:
  assumes "\<And>st. \<lbrakk>ready n st; dv st = D0; tame n D0\<rbrakk> \<Longrightarrow> triple n sol (\<lambda>D. D = D0) (f st) Q"
  shows "triple n sol (\<lambda>D. D = D0) (a_read f) Q"
  by (rule triple_read) (use assms ready_tame in blast)

lemma triple_at: "(\<And>D0. P D0 \<Longrightarrow> triple n sol (\<lambda>D. D = D0) m Q) \<Longrightarrow> triple n sol P m Q"
  unfolding triple_def by blast

lemma triple_unless: "(\<And>D. \<lbrakk>P D; tame n D\<rbrakk> \<Longrightarrow> Q () D) \<Longrightarrow> triple n sol P (a_ret ()) Q"
  by (rule triple_tame_pre) (auto intro: triple_ret)

section \<open>Mutators by name\<close>

definition allows_all :: "nat \<Rightarrow> ((var_id \<Rightarrow> int) \<Rightarrow> bool) \<Rightarrow> (var_id \<Rightarrow> int set) \<Rightarrow> var_id \<Rightarrow> (int \<Rightarrow> bool) \<Rightarrow> bool" where
  "allows_all n sol D v ok \<longleftrightarrow> (\<forall>a. (\<forall>w < n. a w \<in> D w) \<and> sol a \<longrightarrow> ok (a v))"

lemma allows_allI: "(\<And>a. \<lbrakk>\<And>w. w < n \<Longrightarrow> a w \<in> D w; sol a\<rbrakk> \<Longrightarrow> ok (a v)) \<Longrightarrow> allows_all n sol D v ok"
  by (simp add: allows_all_def)

lemma allows_all_via:
  assumes "y < n" "v < n" "\<And>a. \<lbrakk>a y \<in> D y; a v \<in> D v; sol a\<rbrakk> \<Longrightarrow> ok (a v)"
  shows "allows_all n sol D v ok"
  using assms by (simp add: allows_all_def)

lemma allows_allD: "allows_all n sol D v ok \<Longrightarrow> allowed n sol D v y \<Longrightarrow> ok y"
  by (auto simp: allows_all_def allowed_def)

lemma triple_remove:
  assumes "v < n" "in_i32 x" "\<And>D. P D \<Longrightarrow> allows_all n sol D v (\<lambda>y. y \<noteq> x)"
    and "\<And>D. P D \<Longrightarrow> D v - {x} \<noteq> {} \<Longrightarrow> Q () (D(v := D v - {x}))"
  shows "triple n sol P (st_remove v x) Q"
  using assms triple_apply [of v n "Remove x" P sol Q] by (auto dest: allows_allD)

lemma triple_remove_because:
  assumes "v < n" "in_i32 x" "\<And>D. P D \<Longrightarrow> allows_all n sol D v (\<lambda>y. y \<noteq> x)"
    and "\<And>D. P D \<Longrightarrow> D v - {x} \<noteq> {} \<Longrightarrow> Q () (D(v := D v - {x}))"
  shows "triple n sol P (remove_because v x why) Q"
  using assms triple_because [of v n "Remove x" P sol Q why] by (auto dest: allows_allD)

lemma triple_fix:
  assumes "v < n" "in_i32 x" "\<And>D. P D \<Longrightarrow> allows_all n sol D v (\<lambda>y. y = x)"
    and "\<And>D. P D \<Longrightarrow> x \<in> D v \<Longrightarrow> Q () (D(v := {x}))"
  shows "triple n sol P (st_fix v x) Q"
  using assms triple_apply [of v n "Fix x" P sol Q] by (auto dest: allows_allD)

lemma triple_fix_because:
  assumes "v < n" "in_i32 x" "\<And>D. P D \<Longrightarrow> allows_all n sol D v (\<lambda>y. y = x)"
    and "\<And>D. P D \<Longrightarrow> x \<in> D v \<Longrightarrow> Q () (D(v := {x}))"
  shows "triple n sol P (fix_because v x why) Q"
  using assms triple_because [of v n "Fix x" P sol Q why] by (auto dest: allows_allD)

lemma triple_below:
  assumes "v < n" "in_i32 x" "\<And>D. P D \<Longrightarrow> allows_all n sol D v (\<lambda>y. x \<le> y)"
    and "\<And>D. P D \<Longrightarrow> {y \<in> D v. x \<le> y} \<noteq> {} \<Longrightarrow> Q () (D(v := {y \<in> D v. x \<le> y}))"
  shows "triple n sol P (st_remove_below v x) Q"
  using assms triple_apply [of v n "Below x" P sol Q] by (auto dest: allows_allD)

lemma triple_below_because:
  assumes "v < n" "in_i32 x" "\<And>D. P D \<Longrightarrow> allows_all n sol D v (\<lambda>y. x \<le> y)"
    and "\<And>D. P D \<Longrightarrow> {y \<in> D v. x \<le> y} \<noteq> {} \<Longrightarrow> Q () (D(v := {y \<in> D v. x \<le> y}))"
  shows "triple n sol P (remove_below_because v x why) Q"
  using assms triple_because [of v n "Below x" P sol Q why] by (auto dest: allows_allD)

lemma triple_above:
  assumes "v < n" "in_i32 x" "\<And>D. P D \<Longrightarrow> allows_all n sol D v (\<lambda>y. y \<le> x)"
    and "\<And>D. P D \<Longrightarrow> {y \<in> D v. y \<le> x} \<noteq> {} \<Longrightarrow> Q () (D(v := {y \<in> D v. y \<le> x}))"
  shows "triple n sol P (st_remove_above v x) Q"
  using assms triple_apply [of v n "Above x" P sol Q] by (auto dest: allows_allD)

lemma triple_above_because:
  assumes "v < n" "in_i32 x" "\<And>D. P D \<Longrightarrow> allows_all n sol D v (\<lambda>y. y \<le> x)"
    and "\<And>D. P D \<Longrightarrow> {y \<in> D v. y \<le> x} \<noteq> {} \<Longrightarrow> Q () (D(v := {y \<in> D v. y \<le> x}))"
  shows "triple n sol P (remove_above_because v x why) Q"
  using assms triple_because [of v n "Above x" P sol Q why] by (auto dest: allows_allD)

section \<open>Filtering the values of one variable\<close>

definition a_filter :: "var_id \<Rightarrow> (int \<Rightarrow> store \<Rightarrow> bool) \<Rightarrow> unit action" where
  "a_filter v bad = a_read (\<lambda>st. a_each (\<lambda>x. a_read (\<lambda>st'. a_when (bad x st') (st_remove v x))) (st_values st v))"

lemma triple_filter:
  assumes v: "v < n"
    and bad: "\<And>st S x. \<lbrakk>ready n st; dv st = D0(v := S); {y \<in> D0 v. \<not> bad0 y} \<subseteq> S; S \<subseteq> D0 v; x \<in> D0 v\<rbrakk> \<Longrightarrow> bad x st \<longleftrightarrow> bad0 x"
    and keep: "allows_all n sol D0 v (\<lambda>y. \<not> bad0 y)"
  shows "triple n sol (\<lambda>D. D = D0) (a_filter v bad) (\<lambda>_ D. D = D0(v := {x \<in> D0 v. \<not> bad0 x}))"
  unfolding a_filter_def
proof (rule triple_read_at)
  fix st assume st: "ready n st" "dv st = D0" and tm: "tame n D0"
  let ?I = "\<lambda>pre D. D = D0(v := {x \<in> D0 v. \<not> (x \<in> set pre \<and> bad0 x)})"
  have vs: "set (st_values st v) = D0 v" using ready_reads(7) [OF st(1) v] st(2) by simp
  have "triple n sol (?I []) (a_each (\<lambda>x. a_read (\<lambda>st'. a_when (bad x st') (st_remove v x))) (st_values st v)) (\<lambda>_. ?I (st_values st v))"
  proof (rule triple_each, rule triple_read_at)
    fix pre x post st' assume xs: "st_values st v = pre @ x # post" and st': "ready n st'" "dv st' = D0(v := {x \<in> D0 v. \<not> (x \<in> set pre \<and> bad0 x)})"
    have x: "x \<in> D0 v" using xs vs by (metis in_set_conv_decomp)
    have b: "bad x st' \<longleftrightarrow> bad0 x" by (rule bad [OF st']) (use x in auto)
    have x32: "in_i32 x" using tameD(3) [OF tm v x] .
    show "triple n sol (?I pre) (a_when (bad x st') (st_remove v x)) (\<lambda>_. ?I (pre @ [x]))"
    proof (rule triple_when)
      assume "bad x st'"
      then have bx: "bad0 x" using b by simp
      show "triple n sol (?I pre) (st_remove v x) (\<lambda>_. ?I (pre @ [x]))"
      proof (rule triple_remove [OF v x32])
        fix D assume D: "?I pre D"
        have "a w \<in> D0 w" if "a w \<in> D w" for a :: "var_id \<Rightarrow> int" and w using that D by (auto split: if_splits)
        then show "allows_all n sol D v (\<lambda>y. y \<noteq> x)"
          using keep bx unfolding allows_all_def by blast
        show "?I (pre @ [x]) (D(v := D v - {x}))" using bx by (auto simp: D fun_eq_iff)
      qed
    next
      assume "\<not> bad x st'"
      then have "{y \<in> D0 v. \<not> (y \<in> set (pre @ [x]) \<and> bad0 y)} = {y \<in> D0 v. \<not> (y \<in> set pre \<and> bad0 y)}" using b by auto
      then show "\<forall>D. ?I pre D \<longrightarrow> ?I (pre @ [x]) D" by simp
    qed
  qed
  moreover have "{x \<in> D0 v. \<not> (x \<in> set (st_values st v) \<and> bad0 x)} = {x \<in> D0 v. \<not> bad0 x}" using vs by auto
  ultimately show "triple n sol (\<lambda>D. D = D0) (a_each (\<lambda>x. a_read (\<lambda>st'. a_when (bad x st') (st_remove v x))) (st_values st v))
      (\<lambda>_ D. D = D0(v := {x \<in> D0 v. \<not> bad0 x}))"
    by simp
qed

section \<open>Loops to a local fixpoint\<close>

text \<open>\<open>loop { ... if !changed { return Ok(()) } }\<close>; \<open>None\<close> is a loop that never ends.\<close>

partial_function (option) a_loop :: "bool action \<Rightarrow> store \<Rightarrow> unit outcome option" where
  "a_loop body st = (case body st of
     (st', Err e) \<Rightarrow> Some (st', Err e)
   | (st', Ok changed) \<Rightarrow> if changed then a_loop body st' else Some (st', Ok ()))"

declare a_loop.simps [code]

definition total_size :: "nat \<Rightarrow> (var_id \<Rightarrow> int set) \<Rightarrow> nat" where
  "total_size n D = (\<Sum>v < n. card (D v))"

lemma total_size_less:
  assumes "tame n D0" "\<And>v. v < n \<Longrightarrow> D v \<subseteq> D0 v" "v < n" "D v \<noteq> D0 v"
  shows "total_size n D < total_size n D0"
  unfolding total_size_def
proof (rule sum_strict_mono_ex1)
  show "\<forall>w \<in> {..<n}. card (D w) \<le> card (D0 w)" using assms(2) tameD(1) [OF assms(1)] by (simp add: card_mono)
  have "card (D v) < card (D0 v)" using assms(2) [OF assms(3)] assms(3,4) tameD(1) [OF assms(1)] by (simp add: psubset_card_mono psubset_eq)
  then show "\<exists>w \<in> {..<n}. card (D w) < card (D0 w)" using assms(3) by blast
qed simp

lemma sound_trans:
  assumes "sound sol st (st1, Ok x)" "sound sol st1 out"
  shows "sound sol st out"
proof -
  have "evolves st st1" "\<forall>a. within a st \<and> sol a \<longrightarrow> within a st1" using assms(1) by (simp_all add: sound_def)
  then show ?thesis using assms(2) evolves_trans by (fastforce simp: sound_def split: result.splits)
qed

lemma loop_rule:
  assumes body: "\<And>D0. \<lbrakk>P D0; tame n D0\<rbrakk> \<Longrightarrow> triple n sol (\<lambda>D. D = D0) body
      (\<lambda>changed D. if changed then P D \<and> total_size n D < total_size n D0 else Q D)"
    and st: "ready n st" "P (dv st)"
  shows "\<exists>out. a_loop body st = Some out \<and> sound sol st out \<and> (snd out = Ok () \<longrightarrow> Q (dv (fst out)))"
  using st
proof (induction "total_size n (dv st)" arbitrary: st rule: less_induct)
  case less
  obtain st1 r where run: "body st = (st1, r)" by fastforce
  note T = tripleD [OF body [OF less.prems(2) ready_tame [OF less.prems(1)]] less.prems(1) refl run]
  have B: "sound sol st (st1, r)" "\<And>c. r = Ok c \<Longrightarrow> if c then P (dv st1) \<and> total_size n (dv st1) < total_size n (dv st) else Q (dv st1)"
    using T by blast+
  show ?case
  proof (cases r)
    case (Err e)
    then show ?thesis using B(1) run by (subst a_loop.simps) (simp add: sound_def)
  next
    case (Ok changed)
    note s1 = B(1) [unfolded Ok]
    have rd: "ready n st1" using sound_ready [OF less.prems(1) s1] by simp
    show ?thesis
    proof (cases changed)
      case True
      have step: "a_loop body st = a_loop body st1" using run Ok True by (subst a_loop.simps) simp
      obtain out where o: "a_loop body st1 = Some out" "sound sol st1 out" "snd out = Ok () \<longrightarrow> Q (dv (fst out))"
        using less.hyps [OF _ rd] B(2) [OF Ok] True by auto
      show ?thesis using step o(1,3) sound_trans [OF s1 o(2)] by auto
    next
      case False
      then show ?thesis using run Ok B(2) [OF Ok] s1 by (subst a_loop.simps) (simp add: sound_def)
    qed
  qed
qed

text \<open>One pass of such a loop over a list of items, with the flag \<open>changed\<close>.\<close>

definition shrunk :: "nat \<Rightarrow> (var_id \<Rightarrow> int set) \<Rightarrow> (var_id \<Rightarrow> int set) \<Rightarrow> bool" where
  "shrunk n D0 D \<longleftrightarrow> (\<forall>w < n. D w \<subseteq> D0 w) \<and> (\<exists>w < n. D w \<noteq> D0 w)"

lemma shrunk_size: "tame n D0 \<Longrightarrow> shrunk n D0 D \<Longrightarrow> total_size n D < total_size n D0"
  using total_size_less [of n D0 D] by (auto simp: shrunk_def)

lemma shrunk_trans: "shrunk n D E \<Longrightarrow> shrunk n E F \<Longrightarrow> shrunk n D F"
  unfolding shrunk_def by (metis subset_antisym subset_trans)

lemma triple_pass:
  assumes step: "\<And>x c E. \<lbrakk>x \<in> set xs; \<not> c \<longrightarrow> E = D; \<forall>w < n. E w \<subseteq> D w\<rbrakk> \<Longrightarrow>
    triple n sol (\<lambda>F. F = E) (f x c) (\<lambda>c' F. if c' then (c \<and> F = E) \<or> shrunk n E F else \<not> c \<and> F = E \<and> P x)"
  shows "triple n sol (\<lambda>F. F = D) (a_for f xs False) (\<lambda>c F. if c then shrunk n D F else F = D \<and> (\<forall>x \<in> set xs. P x))"
proof -
  let ?I = "\<lambda>pre c F. if c then shrunk n D F else F = D \<and> (\<forall>x \<in> set pre. P x)"
  have "triple n sol (?I [] False) (a_for f xs False) (?I xs)"
  proof (rule triple_for_set [where I = ?I], rule triple_at)
    fix pre x post c E assume z: "xs = pre @ x # post" and I: "?I pre c E"
    have E: "\<not> c \<longrightarrow> E = D" "\<forall>w < n. E w \<subseteq> D w" using I by (auto simp: shrunk_def split: if_splits)
    have "x \<in> set xs" using z by simp
    from step [OF this E] show "triple n sol (\<lambda>F. F = E) (f x c) (?I (pre @ [x]))"
    proof (rule triple_weaken)
      fix c' F assume Q: "if c' then (c \<and> F = E) \<or> shrunk n E F else \<not> c \<and> F = E \<and> P x"
      show "?I (pre @ [x]) c' F"
        using Q I E(1) shrunk_trans [of n D E F] by (cases c; cases c') auto
    qed
  qed
  then show ?thesis by simp
qed

section \<open>Bounds\<close>

lemma Max_keep_above: "finite S \<Longrightarrow> {y \<in> S. (b :: int) \<le> y} \<noteq> {} \<Longrightarrow> Max {y \<in> S. b \<le> y} = Max S"
proof (rule Max_eqI)
  assume "finite S" "{y \<in> S. b \<le> y} \<noteq> {}"
  then obtain y where "y \<in> S" "b \<le> y" by blast
  then have "b \<le> Max S" "Max S \<in> S" using \<open>finite S\<close> by (auto intro: order_trans Max_ge Max_in)
  then show "Max S \<in> {y \<in> S. b \<le> y}" by simp
qed auto

lemma Min_keep_below: "finite S \<Longrightarrow> {y \<in> S. y \<le> (b :: int)} \<noteq> {} \<Longrightarrow> Min {y \<in> S. y \<le> b} = Min S"
proof (rule Min_eqI)
  assume "finite S" "{y \<in> S. y \<le> b} \<noteq> {}"
  then obtain y where "y \<in> S" "y \<le> b" by blast
  then have "Min S \<le> b" "Min S \<in> S" using \<open>finite S\<close> by (auto intro: order_trans Min_le Min_in)
  then show "Min S \<in> {y \<in> S. y \<le> b}" by simp
qed auto

lemma sat_i32_bounds:
  "in_i32 u \<Longrightarrow> u \<le> t \<Longrightarrow> u \<le> sat_i32 t" "in_i32 u \<Longrightarrow> t \<le> u \<Longrightarrow> sat_i32 t \<le> u"
  by (auto simp: sat_i32_def in_i32_def)

text \<open>Two stores a propagator cannot tell apart by the events it watches.\<close>

lemma calm_bounds: "\<not> occurs BoundChange S S' \<Longrightarrow> Min S' = Min S \<and> Max S' = Max S"
  by auto

lemma calm_fixed: "\<not> occurs FixEvent S S' \<Longrightarrow> S' = {v} \<Longrightarrow> S = {v}"
  by auto

end
