(* ===== verification/Primitives.thy ===== *)
theory Primitives imports Filtering begin

text \<open>
  The propagators of \<open>src/src/constraints/primitives.rs\<close>: disequality, ordering,
  instantiation, allEqual, minimum and maximum, element. Each has its \<open>propagate\<close> as an
  action, the assignments it allows, the domains at which it has nothing left to do, and a
  triple that says a run loses none of the first and ends in one of the second. The scratch
  buffers of the structs are emptied before every use and are not part of the model.
\<close>

section \<open>Disequality\<close>

text \<open>\<open>x != y + c\<close>, with the sum wrapped as the code computes it.\<close>

definition neq_propagate :: "var_id \<Rightarrow> var_id \<Rightarrow> int \<Rightarrow> unit action" where
  "neq_propagate x y c =
     a_then (a_read (\<lambda>st. case st_value st x of None \<Rightarrow> a_ret ()
               | Some v \<Rightarrow> remove_because y (as_i32 (v - c)) [PEq x v]))
            (a_read (\<lambda>st. case st_value st y of None \<Rightarrow> a_ret ()
               | Some w \<Rightarrow> remove_because x (as_i32 (w + c)) [PEq y w]))"

definition neq_sol :: "var_id \<Rightarrow> var_id \<Rightarrow> int \<Rightarrow> (var_id \<Rightarrow> int) \<Rightarrow> bool" where
  "neq_sol x y c a \<longleftrightarrow> a x \<noteq> as_i32 (a y + c)"

definition neq_fix :: "var_id \<Rightarrow> var_id \<Rightarrow> int \<Rightarrow> (var_id \<Rightarrow> int set) \<Rightarrow> bool" where
  "neq_fix x y c D \<longleftrightarrow> (\<forall>v. D x = {v} \<longrightarrow> as_i32 (v - c) \<notin> D y) \<and> (\<forall>w. D y = {w} \<longrightarrow> as_i32 (w + c) \<notin> D x)"

lemma as_i32_add_left: "as_i32 (as_i32 a + b) = as_i32 (a + b)"
  unfolding as_i32_def by (metis min.idem signed_take_bit_add signed_take_bit_signed_take_bit)

lemma as_i32_shift:
  assumes "in_i32 v" "in_i32 w"
  shows "v = as_i32 (w + c) \<longleftrightarrow> as_i32 (v - c) = w"
proof
  assume "v = as_i32 (w + c)"
  then show "as_i32 (v - c) = w" using as_i32_add_left [of "w + c" "- c"] assms(2) by (simp add: as_i32_id)
next
  assume "as_i32 (v - c) = w"
  then show "v = as_i32 (w + c)" using as_i32_add_left [of "v - c" c] assms(1) by (simp add: as_i32_id)
qed

lemma triple_value:
  assumes x: "x < n"
    and "\<And>v. D0 x = {v} \<Longrightarrow> in_i32 v \<Longrightarrow> triple n sol (\<lambda>D. D = D0) (f v) Q"
    and "(\<And>v. D0 x \<noteq> {v}) \<Longrightarrow> triple n sol (\<lambda>D. D = D0) m Q"
  shows "triple n sol (\<lambda>D. D = D0) (a_read (\<lambda>st. case st_value st x of None \<Rightarrow> m | Some v \<Rightarrow> f v)) Q"
proof (rule triple_read_at)
  fix st assume st: "ready n st" "dv st = D0" and tm: "tame n D0"
  show "triple n sol (\<lambda>D. D = D0) (case st_value st x of None \<Rightarrow> m | Some v \<Rightarrow> f v) Q"
  proof (cases "st_value st x")
    case None
    then show ?thesis using assms(3) ready_value [OF st(1) x] st(2) by simp
  next
    case (Some v)
    then have "D0 x = {v}" using ready_value [OF st(1) x] st(2) by simp
    then show ?thesis using assms(2) tameD(3) [OF tm x, of v] Some by simp
  qed
qed

lemma neq_triple:
  assumes x: "x < n" and y: "y < n"
  shows "triple n (neq_sol x y c) (\<lambda>_. True) (neq_propagate x y c) (\<lambda>_. neq_fix x y c)"
proof -
  let ?R = "\<lambda>D. \<forall>v. D x = {v} \<longrightarrow> as_i32 (v - c) \<notin> D y"
  have 1: "triple n (neq_sol x y c) (\<lambda>D. D = D0) (a_read (\<lambda>st. case st_value st x of None \<Rightarrow> a_ret ()
      | Some v \<Rightarrow> remove_because y (as_i32 (v - c)) [PEq x v])) (\<lambda>_. ?R)" if tm: "tame n D0" for D0
  proof (rule triple_value [OF x])
    fix v assume v: "D0 x = {v}" "in_i32 v"
    show "triple n (neq_sol x y c) (\<lambda>D. D = D0) (remove_because y (as_i32 (v - c)) [PEq x v]) (\<lambda>_. ?R)"
    proof (rule triple_remove_because [OF y in_i32_as_i32])
      fix D assume D: "D = D0"
      show "allows_all n (neq_sol x y c) D y (\<lambda>z. z \<noteq> as_i32 (v - c))"
      proof (rule allows_all_via [OF x y])
        fix a :: "var_id \<Rightarrow> int" assume a: "a x \<in> D x" "a y \<in> D y" "neq_sol x y c a"
        have "a x = v" "in_i32 (a y)" using a(1,2) v(1) tameD(3) [OF tm y] by (simp_all add: D)
        then show "a y \<noteq> as_i32 (v - c)" using a(3) as_i32_shift [OF v(2), of "a y" c] by (auto simp: neq_sol_def)
      qed
      show "?R (D(y := D y - {as_i32 (v - c)}))" if "D y - {as_i32 (v - c)} \<noteq> {}" using v that by (auto simp: D)
    qed
  qed (auto intro: triple_ret)
  have 2: "triple n (neq_sol x y c) (\<lambda>D. D = D0) (a_read (\<lambda>st. case st_value st y of None \<Rightarrow> a_ret ()
      | Some w \<Rightarrow> remove_because x (as_i32 (w + c)) [PEq y w])) (\<lambda>_. neq_fix x y c)" if tm: "tame n D0" and R: "?R D0" for D0
  proof (rule triple_value [OF y])
    fix w assume w: "D0 y = {w}" "in_i32 w"
    show "triple n (neq_sol x y c) (\<lambda>D. D = D0) (remove_because x (as_i32 (w + c)) [PEq y w]) (\<lambda>_. neq_fix x y c)"
    proof (rule triple_remove_because [OF x in_i32_as_i32])
      fix D assume D: "D = D0"
      show "allows_all n (neq_sol x y c) D x (\<lambda>z. z \<noteq> as_i32 (w + c))"
        by (rule allows_all_via [OF y x]) (use w(1) in \<open>auto simp: neq_sol_def D\<close>)
      have "as_i32 (v - c) \<noteq> w" if "v \<in> D0 x - {as_i32 (w + c)}" for v
        using that as_i32_shift [OF _ w(2), of v c] tameD(3) [OF tm x, of v] by auto
      then show "neq_fix x y c (D(x := D x - {as_i32 (w + c)}))" if "D x - {as_i32 (w + c)} \<noteq> {}"
        using w R that by (auto simp: neq_fix_def D)
    qed
  qed (use R in \<open>auto simp: neq_fix_def intro!: triple_ret\<close>)
  show ?thesis
    unfolding neq_propagate_def
    by (rule triple_then [where R = ?R]; rule triple_tame_pre; rule triple_at) (use 1 2 in auto)
qed

section \<open>Ordering\<close>

text \<open>\<open>x + k <= y\<close> on the bounds.\<close>

definition leq_propagate :: "var_id \<Rightarrow> var_id \<Rightarrow> int \<Rightarrow> unit action" where
  "leq_propagate x y k =
     a_then (a_read (\<lambda>st. let my = st_max st y in remove_above_because x (sat_i32 (my - k)) [PLe y my]))
            (a_read (\<lambda>st. let mx = st_min st x in remove_below_because y (sat_i32 (mx + k)) [PGe x mx]))"

definition leq_sol :: "var_id \<Rightarrow> var_id \<Rightarrow> int \<Rightarrow> (var_id \<Rightarrow> int) \<Rightarrow> bool" where
  "leq_sol x y k a \<longleftrightarrow> a x + k \<le> a y"

definition leq_fix :: "var_id \<Rightarrow> var_id \<Rightarrow> int \<Rightarrow> (var_id \<Rightarrow> int set) \<Rightarrow> bool" where
  "leq_fix x y k D \<longleftrightarrow> Max (D x) \<le> sat_i32 (Max (D y) - k) \<and> sat_i32 (Min (D x) + k) \<le> Min (D y)"

lemma leq_triple:
  assumes x: "x < n" and y: "y < n" and xy: "x \<noteq> y"
  shows "triple n (leq_sol x y k) (\<lambda>_. True) (leq_propagate x y k) (\<lambda>_. leq_fix x y k)"
proof -
  let ?R = "\<lambda>D. Max (D x) \<le> sat_i32 (Max (D y) - k)"
  have 1: "triple n (leq_sol x y k) (\<lambda>D. D = D0)
      (a_read (\<lambda>st. let my = st_max st y in remove_above_because x (sat_i32 (my - k)) [PLe y my])) (\<lambda>_. ?R)" for D0
  proof (rule triple_read_at)
    fix st assume st: "ready n st" "dv st = D0" and tm: "tame n D0"
    have my: "st_max st y = Max (D0 y)" using ready_reads(4) [OF st(1) y] st(2) by simp
    note fx = tameD [OF tm x] and fy = tameD [OF tm y]
    show "triple n (leq_sol x y k) (\<lambda>D. D = D0) (let my = st_max st y in remove_above_because x (sat_i32 (my - k)) [PLe y my]) (\<lambda>_. ?R)"
      unfolding Let_def my
    proof (rule triple_above_because [OF x in_i32_sat])
      fix D assume D: "D = D0"
      show "allows_all n (leq_sol x y k) D x (\<lambda>z. z \<le> sat_i32 (Max (D0 y) - k))"
      proof (rule allows_all_via [OF y x])
        fix a :: "var_id \<Rightarrow> int" assume a: "a y \<in> D y" "a x \<in> D x" "leq_sol x y k a"
        have "a y \<le> Max (D0 y)" using a(1) fy(1) by (simp add: D)
        then show "a x \<le> sat_i32 (Max (D0 y) - k)" using a(2,3) fx(3) sat_i32_bounds(1) by (simp add: leq_sol_def D)
      qed
      show "?R (D(x := {z \<in> D x. z \<le> sat_i32 (Max (D0 y) - k)}))" if "{z \<in> D x. z \<le> sat_i32 (Max (D0 y) - k)} \<noteq> {}"
        using Max_in [OF _ that] fx(1) xy by (simp add: D)
    qed
  qed
  have 2: "triple n (leq_sol x y k) (\<lambda>D. D = D0)
      (a_read (\<lambda>st. let mx = st_min st x in remove_below_because y (sat_i32 (mx + k)) [PGe x mx])) (\<lambda>_. leq_fix x y k)" if R: "?R D0" for D0
  proof (rule triple_read_at)
    fix st assume st: "ready n st" "dv st = D0" and tm: "tame n D0"
    have mx: "st_min st x = Min (D0 x)" using ready_reads(3) [OF st(1) x] st(2) by simp
    note fx = tameD [OF tm x] and fy = tameD [OF tm y]
    show "triple n (leq_sol x y k) (\<lambda>D. D = D0) (let mx = st_min st x in remove_below_because y (sat_i32 (mx + k)) [PGe x mx]) (\<lambda>_. leq_fix x y k)"
      unfolding Let_def mx
    proof (rule triple_below_because [OF y in_i32_sat])
      fix D assume D: "D = D0"
      show "allows_all n (leq_sol x y k) D y (\<lambda>z. sat_i32 (Min (D0 x) + k) \<le> z)"
      proof (rule allows_all_via [OF x y])
        fix a :: "var_id \<Rightarrow> int" assume a: "a x \<in> D x" "a y \<in> D y" "leq_sol x y k a"
        have "Min (D0 x) \<le> a x" using a(1) fx(1) by (simp add: D)
        then show "sat_i32 (Min (D0 x) + k) \<le> a y" using a(2,3) fy(3) sat_i32_bounds(2) by (simp add: leq_sol_def D)
      qed
      show "leq_fix x y k (D(y := {z \<in> D y. sat_i32 (Min (D0 x) + k) \<le> z}))" if "{z \<in> D y. sat_i32 (Min (D0 x) + k) \<le> z} \<noteq> {}"
        using that R Min_in [OF _ that] Max_keep_above [OF fy(1)] fy(1) xy by (simp add: leq_fix_def D)
    qed
  qed
  show ?thesis
    unfolding leq_propagate_def
    by (rule triple_then [where R = ?R]; rule triple_at) (use 1 2 in auto)
qed

section \<open>Instantiation\<close>

definition inst_propagate :: "var_id list \<Rightarrow> int list \<Rightarrow> unit action" where
  "inst_propagate vs xs = a_each (\<lambda>(v, x). st_fix v x) (zip vs xs)"

definition inst_sol :: "var_id list \<Rightarrow> int list \<Rightarrow> (var_id \<Rightarrow> int) \<Rightarrow> bool" where
  "inst_sol vs xs a \<longleftrightarrow> (\<forall>(v, x) \<in> set (zip vs xs). a v = x)"

definition inst_fix :: "var_id list \<Rightarrow> int list \<Rightarrow> (var_id \<Rightarrow> int set) \<Rightarrow> bool" where
  "inst_fix vs xs D \<longleftrightarrow> (\<forall>(v, x) \<in> set (zip vs xs). D v = {x})"

lemma inst_triple:
  assumes "\<forall>(v, x) \<in> set (zip vs xs). v < n \<and> in_i32 x"
  shows "triple n (inst_sol vs xs) (\<lambda>_. True) (inst_propagate vs xs) (\<lambda>_. inst_fix vs xs)"
proof -
  let ?I = "\<lambda>pre D. \<forall>(v, x) \<in> set pre. D v = {x}"
  have "triple n (inst_sol vs xs) (?I []) (inst_propagate vs xs) (\<lambda>_. ?I (zip vs xs))"
    unfolding inst_propagate_def
  proof (rule triple_each)
    fix pre p post assume z: "zip vs xs = pre @ p # post"
    obtain v x where p: "p = (v, x)" by fastforce
    have vx: "v < n" "in_i32 x" using assms z p by simp_all
    show "triple n (inst_sol vs xs) (?I pre) (case p of (v, x) \<Rightarrow> st_fix v x) (\<lambda>_. ?I (pre @ [p]))"
      unfolding p prod.case
    proof (rule triple_fix [OF vx])
      fix D assume I: "?I pre D"
      show "allows_all n (inst_sol vs xs) D v (\<lambda>y. y = x)" using z p by (auto simp: allows_all_def inst_sol_def)
      assume xv: "x \<in> D v"
      have "(D(v := {x})) w = {b}" if "(w, b) \<in> set (pre @ [(v, x)])" for w b
      proof (cases "(w, b) = (v, x)")
        case False
        then have "D w = {b}" using I that by auto
        then show ?thesis using xv by auto
      qed simp
      then show "?I (pre @ [(v, x)]) (D(v := {x}))" by blast
    qed
  qed
  then show ?thesis unfolding inst_fix_def by simp
qed

section \<open>All equal\<close>

definition alleq_propagate :: "var_id list \<Rightarrow> unit action" where
  "alleq_propagate vs =
     (if length vs < 2 then a_ret () else
      a_read (\<lambda>st. let common = filter (\<lambda>x. \<forall>u \<in> set (tl vs). st_contains st u x) (st_values st (hd vs))
        in a_each (\<lambda>v. a_filter v (\<lambda>x st'. x \<notin> set common)) vs))"

definition alleq_sol :: "var_id list \<Rightarrow> (var_id \<Rightarrow> int) \<Rightarrow> bool" where
  "alleq_sol vs a \<longleftrightarrow> (\<forall>u \<in> set vs. \<forall>v \<in> set vs. a u = a v)"

definition alleq_fix :: "var_id list \<Rightarrow> (var_id \<Rightarrow> int set) \<Rightarrow> bool" where
  "alleq_fix vs D \<longleftrightarrow> (\<forall>u \<in> set vs. \<forall>v \<in> set vs. D u = D v)"

lemma alleq_triple:
  assumes vs: "\<forall>v \<in> set vs. v < n"
  shows "triple n (alleq_sol vs) (\<lambda>_. True) (alleq_propagate vs) (\<lambda>_. alleq_fix vs)"
proof (cases "length vs < 2")
  case True
  then have "alleq_fix vs D" for D by (cases vs) (auto simp: alleq_fix_def)
  then show ?thesis using True by (auto simp: alleq_propagate_def intro: triple_ret)
next
  case False
  then obtain v0 us where v0: "vs = v0 # us" by (cases vs) auto
  show ?thesis
    unfolding alleq_propagate_def if_not_P [OF False]
  proof (rule triple_read)
    fix st assume st: "ready n st"
    let ?D0 = "dv st"
    define C where "C = set (filter (\<lambda>x. \<forall>u \<in> set (tl vs). st_contains st u x) (st_values st (hd vs)))"
    have C: "x \<in> C \<longleftrightarrow> (\<forall>v \<in> set vs. x \<in> ?D0 v)" for x
      using ready_reads(5,7) [OF st] vs v0 by (auto simp: C_def)
    let ?I = "\<lambda>pre D. (\<forall>v \<in> set vs. C \<subseteq> D v) \<and> (\<forall>v \<in> set pre. D v = C) \<and> (\<forall>w < n. D w \<subseteq> ?D0 w)"
    have "triple n (alleq_sol vs) (?I []) (a_each (\<lambda>v. a_filter v (\<lambda>x st'. x \<notin> C)) vs) (\<lambda>_. ?I vs)"
    proof (rule triple_each, rule triple_at)
      fix pre v post D1 assume z: "vs = pre @ v # post" and I: "?I pre D1"
      have v: "v < n" "v \<in> set vs" using vs z by auto
      have "triple n (alleq_sol vs) (\<lambda>D. D = D1) (a_filter v (\<lambda>x st'. x \<notin> C)) (\<lambda>_ D. D = D1(v := {x \<in> D1 v. \<not> x \<notin> C}))"
      proof (rule triple_filter [OF v(1)])
        show "allows_all n (alleq_sol vs) D1 v (\<lambda>y. \<not> y \<notin> C)"
          unfolding allows_all_def C not_not
        proof (intro allI impI ballI)
          fix a :: "var_id \<Rightarrow> int" and w assume a: "(\<forall>w < n. a w \<in> D1 w) \<and> alleq_sol vs a" and w: "w \<in> set vs"
          have "a w \<in> D1 w" "D1 w \<subseteq> ?D0 w" using a I bspec [OF vs w] by simp_all
          moreover have "a v = a w" using a w v(2) unfolding alleq_sol_def by blast
          ultimately show "a v \<in> ?D0 w" by auto
        qed
      qed simp
      moreover have "{x \<in> D1 v. \<not> x \<notin> C} = C" using I v(2) by auto
      moreover have "C \<subseteq> ?D0 v" using C v(2) by blast
      ultimately show "triple n (alleq_sol vs) (\<lambda>D. D = D1) (a_filter v (\<lambda>x st'. x \<notin> C)) (\<lambda>_. ?I (pre @ [v]))"
        using I v by (elim triple_weaken) auto
    qed
    then show "triple n (alleq_sol vs) (\<lambda>D. D = ?D0) (let common = filter (\<lambda>x. \<forall>u \<in> set (tl vs). st_contains st u x) (st_values st (hd vs))
        in a_each (\<lambda>v. a_filter v (\<lambda>x st'. x \<notin> set common)) vs) (\<lambda>_. alleq_fix vs)"
      unfolding Let_def C_def [symmetric]
    proof (rule triple_weaken)
      fix D assume "D = ?D0"
      then show "?I [] D" by (simp add: subset_iff C)
    next
      fix D assume "?I vs D"
      then show "alleq_fix vs D" by (simp add: alleq_fix_def)
    qed
  qed
qed

section \<open>Minimum and maximum\<close>

text \<open>\<open>y = min(xs)\<close> or \<open>y = max(xs)\<close> on the bounds; \<open>ext_fold\<close> is the first loop.\<close>

definition ext_fold :: "bool \<Rightarrow> store \<Rightarrow> var_id list \<Rightarrow> int \<times> int" where
  "ext_fold is_min st xs =
     (let start = (if is_min then i32_max else i32_min)
      in fold (\<lambda>x (lb, ub). if is_min then (min lb (st_min st x), min ub (st_max st x))
                            else (max lb (st_min st x), max ub (st_max st x))) xs (start, start))"

definition ext_propagate :: "var_id \<Rightarrow> var_id list \<Rightarrow> bool \<Rightarrow> unit action" where
  "ext_propagate y xs is_min = a_read (\<lambda>st. case ext_fold is_min st xs of (lb, ub) \<Rightarrow>
     a_then (st_remove_below y lb) (a_then (st_remove_above y ub) (a_read (\<lambda>st'.
       let y_bound = (if is_min then st_min st' y else st_max st' y)
       in a_each (\<lambda>x. if is_min then st_remove_below x y_bound else st_remove_above x y_bound) xs))))"

definition ext_sol :: "var_id \<Rightarrow> var_id list \<Rightarrow> bool \<Rightarrow> (var_id \<Rightarrow> int) \<Rightarrow> bool" where
  "ext_sol y xs is_min a \<longleftrightarrow> a y = (if is_min then Min (a ` set xs) else Max (a ` set xs))"

text \<open>What one run leaves. It says nothing of \<open>y\<close> reaching the smallest of the lower bounds.\<close>

definition ext_fix :: "var_id \<Rightarrow> var_id list \<Rightarrow> bool \<Rightarrow> (var_id \<Rightarrow> int set) \<Rightarrow> bool" where
  "ext_fix y xs is_min D \<longleftrightarrow>
     (if is_min then \<forall>x \<in> set xs. Min (D y) \<le> Min (D x) \<and> Max (D y) \<le> Max (D x)
      else \<forall>x \<in> set xs. Max (D x) \<le> Max (D y) \<and> Min (D x) \<le> Min (D y))"

lemma Min_insert_min: "finite A \<Longrightarrow> Min (insert (min a b) A) = Min (insert (a :: int) (insert b A))"
  by (cases "A = {}") (simp_all add: min.assoc)

lemma Max_insert_max: "finite A \<Longrightarrow> Max (insert (max a b) A) = Max (insert (a :: int) (insert b A))"
  by (cases "A = {}") (simp_all add: max.assoc)

lemma ext_fold_bounds:
  assumes st: "ready n st" and xs: "\<forall>x \<in> set xs. x < n" "xs \<noteq> []"
  shows "ext_fold True st xs = (Min ((\<lambda>x. Min (dv st x)) ` set xs), Min ((\<lambda>x. Max (dv st x)) ` set xs))"
    and "ext_fold False st xs = (Max ((\<lambda>x. Min (dv st x)) ` set xs), Max ((\<lambda>x. Max (dv st x)) ` set xs))"
proof -
  have mn: "st_min st x = Min (dv st x)" "st_max st x = Max (dv st x)" if "x < n" for x using ready_reads(3,4) [OF st that] by auto
  have b: "in_i32 (Min (dv st x))" "in_i32 (Max (dv st x))" if "x < n" for x using tameD(4,5) [OF ready_tame [OF st] that] by auto
  have lo: "fold (\<lambda>x (lb, ub). (min lb (st_min st x), min ub (st_max st x))) ys (l, u) =
      (Min (insert l ((\<lambda>x. Min (dv st x)) ` set ys)), Min (insert u ((\<lambda>x. Max (dv st x)) ` set ys)))" if "\<forall>x \<in> set ys. x < n" for ys l u
    using that
  proof (induction ys arbitrary: l u)
    case (Cons y ys)
    then show ?case by (simp add: mn Min_insert_min del: Min_insert)
  qed simp
  have hi: "fold (\<lambda>x (lb, ub). (max lb (st_min st x), max ub (st_max st x))) ys (l, u) =
      (Max (insert l ((\<lambda>x. Min (dv st x)) ` set ys)), Max (insert u ((\<lambda>x. Max (dv st x)) ` set ys)))" if "\<forall>x \<in> set ys. x < n" for ys l u
    using that
  proof (induction ys arbitrary: l u)
    case (Cons y ys)
    then show ?case by (simp add: mn Max_insert_max del: Max_insert)
  qed simp
  have "Min ((\<lambda>x. Min (dv st x)) ` set xs) \<le> i32_max" "Min ((\<lambda>x. Max (dv st x)) ` set xs) \<le> i32_max"
    "i32_min \<le> Max ((\<lambda>x. Min (dv st x)) ` set xs)" "i32_min \<le> Max ((\<lambda>x. Max (dv st x)) ` set xs)"
    using xs b by (cases xs; auto simp: in_i32_def Min_le_iff Max_ge_iff)+
  then show "ext_fold True st xs = (Min ((\<lambda>x. Min (dv st x)) ` set xs), Min ((\<lambda>x. Max (dv st x)) ` set xs))"
    "ext_fold False st xs = (Max ((\<lambda>x. Min (dv st x)) ` set xs), Max ((\<lambda>x. Max (dv st x)) ` set xs))"
    using xs by (simp_all add: ext_fold_def lo hi min_absorb2 max_absorb2)
qed

lemma ext_triple_min:
  assumes y: "y < n" and xs: "\<forall>x \<in> set xs. x < n" "xs \<noteq> []"
  shows "triple n (ext_sol y xs True) (\<lambda>_. True) (ext_propagate y xs True) (\<lambda>_. ext_fix y xs True)"
  unfolding ext_propagate_def
proof (rule triple_read)
  fix st assume st: "ready n st"
  let ?D0 = "dv st" and ?S = "ext_sol y xs True"
  define lb where "lb = Min ((\<lambda>x. Min (dv st x)) ` set xs)"
  define ub where "ub = Min ((\<lambda>x. Max (dv st x)) ` set xs)"
  note tm = ready_tame [OF st]
  have "lb \<in> (\<lambda>x. Min (dv st x)) ` set xs" "ub \<in> (\<lambda>x. Max (dv st x)) ` set xs"
    unfolding lb_def ub_def using xs(2) by (auto intro!: Min_in simp del: image_iff)
  then have b32: "in_i32 lb" "in_i32 ub" using xs(1) tameD(4,5) [OF tm] by auto
  have yx: "a y \<in> a ` set xs" "x \<in> set xs \<Longrightarrow> a y \<le> a x" if "?S a" for a x
    using that xs(2) Min_in [of "a ` set xs"] by (simp_all add: ext_sol_def)
  have yb: "lb \<le> a y" "a y \<le> ub" if a: "?S a" "\<And>w. w < n \<Longrightarrow> a w \<in> ?D0 w" for a
  proof -
    have m: "Min (?D0 x) \<le> a x" "a x \<le> Max (?D0 x)" if "x \<in> set xs" for x
      using a(2) [of x] tameD(1) [OF tm, of x] xs(1) that by auto
    obtain x where x: "x \<in> set xs" "a y = a x" using yx(1) [OF a(1)] by blast
    show "lb \<le> a y" unfolding x(2) lb_def using m(1) [OF x(1)] x(1) by (meson Min_le finite_imageI finite_set image_eqI order_trans)
    show "a y \<le> ub" unfolding ub_def using xs(2) yx(2) [OF a(1)] m(2) by (fastforce intro!: Min.boundedI)
  qed
  have 1: "triple n ?S (\<lambda>D. D = ?D0) (st_remove_below y lb)
      (\<lambda>_ D. (\<forall>w < n. D w \<subseteq> ?D0 w) \<and> (\<forall>z \<in> D y. lb \<le> z) \<and> (\<forall>w. w \<noteq> y \<longrightarrow> D w = ?D0 w))"
  proof (rule triple_below [OF y b32(1)])
    fix D assume "D = ?D0"
    then show "allows_all n ?S D y (\<lambda>z. lb \<le> z)" using yb(1) by (simp add: allows_all_def)
  qed auto
  let ?R = "\<lambda>D. (\<forall>w < n. D w \<subseteq> ?D0 w) \<and> (\<forall>z \<in> D y. lb \<le> z \<and> z \<le> ub) \<and> (\<forall>w. w \<noteq> y \<longrightarrow> D w = ?D0 w)"
  have 2: "triple n ?S (\<lambda>D. (\<forall>w < n. D w \<subseteq> ?D0 w) \<and> (\<forall>z \<in> D y. lb \<le> z) \<and> (\<forall>w. w \<noteq> y \<longrightarrow> D w = ?D0 w)) (st_remove_above y ub) (\<lambda>_. ?R)"
  proof (rule triple_above [OF y b32(2)])
    fix D assume D: "(\<forall>w < n. D w \<subseteq> ?D0 w) \<and> (\<forall>z \<in> D y. lb \<le> z) \<and> (\<forall>w. w \<noteq> y \<longrightarrow> D w = ?D0 w)"
    show "allows_all n ?S D y (\<lambda>z. z \<le> ub)"
      unfolding allows_all_def
    proof (intro allI impI)
      fix a assume a: "(\<forall>w < n. a w \<in> D w) \<and> ?S a"
      then have "a w \<in> ?D0 w" if "w < n" for w using D that by blast
      then show "a y \<le> ub" using yb(2) a by blast
    qed
  qed auto
  have 3: "triple n ?S (\<lambda>D. D = D1) (a_read (\<lambda>st'. let y_bound = (if True then st_min st' y else st_max st' y)
       in a_each (\<lambda>x. if True then st_remove_below x y_bound else st_remove_above x y_bound) xs)) (\<lambda>_. ext_fix y xs True)"
    if R: "?R D1" for D1
  proof (rule triple_read_at)
    fix st1 assume st1: "ready n st1" "dv st1 = D1" and tm1: "tame n D1"
    let ?b = "Min (D1 y)"
    have b: "st_min st1 y = ?b" "in_i32 ?b" "?b \<in> D1 y"
      using ready_reads(3,4) [OF st1(1) y] st1(2) tameD(4,5) [OF tm1 y] tameD(1,2) [OF tm1 y] by auto
    have far: "Max (D1 y) \<le> Max (D1 x)" if x: "x \<in> set xs" for x
    proof (cases "x = y")
      case False
      have "Max (D1 y) \<in> D1 y" using tameD(1,2) [OF tm1 y] by simp
      then have "Max (D1 y) \<le> ub" using R by blast
      moreover have "ub \<le> Max (?D0 x)" using x by (simp add: ub_def)
      ultimately show ?thesis using R False by simp
    qed simp
    let ?I = "\<lambda>pre D. D y = D1 y \<and> (\<forall>x \<in> set xs. Max (D x) = Max (D1 x)) \<and> (\<forall>x \<in> set pre. Min (D1 y) \<le> Min (D x))"
    have "triple n ?S (?I []) (a_each (\<lambda>x. st_remove_below x ?b) xs) (\<lambda>_. ?I xs)"
    proof (rule triple_each, rule triple_tame_pre)
      fix pre x post assume z: "xs = pre @ x # post"
      have x: "x < n" "x \<in> set xs" using xs z by auto
      show "triple n ?S (\<lambda>D. tame n D \<and> ?I pre D) (st_remove_below x ?b) (\<lambda>_. ?I (pre @ [x]))"
      proof (rule triple_below [OF x(1) b(2)])
        fix D assume I: "tame n D \<and> ?I pre D"
        show "allows_all n ?S D x (\<lambda>z. ?b \<le> z)"
        proof (rule allows_all_via [OF y x(1)])
          fix a assume a: "a y \<in> D y" "?S a"
          have "Min (D1 y) \<le> a y" using a(1) I tameD(1) [OF tm1 y] by simp
          then show "?b \<le> a x" using yx(2) [OF a(2) x(2)] by simp
        qed
        assume ne: "{z \<in> D x. ?b \<le> z} \<noteq> {}"
        have fin: "finite (D x)" using I tameD(1) x(1) by blast
        let ?S' = "{z \<in> D x. ?b \<le> z}"
        have mm: "Min (D1 y) \<le> Min ?S'" "Max ?S' = Max (D x)" using ne fin Min_in [of ?S'] Max_keep_above [OF fin ne] by simp_all
        have yy: "x = y \<Longrightarrow> ?S' = D1 y" using I tameD(1) [OF tm1 y] by auto
        show "?I (pre @ [x]) (D(x := ?S'))" using I mm yy by auto
      qed
    qed
    then show "triple n ?S (\<lambda>D. D = D1) (let y_bound = (if True then st_min st1 y else st_max st1 y)
       in a_each (\<lambda>x. if True then st_remove_below x y_bound else st_remove_above x y_bound) xs) (\<lambda>_. ext_fix y xs True)"
      unfolding Let_def if_True b(1) by (rule triple_weaken) (use far in \<open>auto simp: ext_fix_def\<close>)
  qed
  have "triple n ?S ?R (a_read (\<lambda>st'. let y_bound = (if True then st_min st' y else st_max st' y)
       in a_each (\<lambda>x. if True then st_remove_below x y_bound else st_remove_above x y_bound) xs)) (\<lambda>_. ext_fix y xs True)"
    by (rule triple_at) (rule 3)
  from triple_then [OF 1 triple_then [OF 2 this]]
  show "triple n ?S (\<lambda>D. D = ?D0) (case ext_fold True st xs of (lb, ub) \<Rightarrow>
     a_then (st_remove_below y lb) (a_then (st_remove_above y ub) (a_read (\<lambda>st'.
       let y_bound = (if True then st_min st' y else st_max st' y)
       in a_each (\<lambda>x. if True then st_remove_below x y_bound else st_remove_above x y_bound) xs)))) (\<lambda>_. ext_fix y xs True)"
    unfolding ext_fold_bounds(1) [OF st xs] prod.case lb_def [symmetric] ub_def [symmetric] .
qed


lemma ext_triple_max:
  assumes y: "y < n" and xs: "\<forall>x \<in> set xs. x < n" "xs \<noteq> []"
  shows "triple n (ext_sol y xs False) (\<lambda>_. True) (ext_propagate y xs False) (\<lambda>_. ext_fix y xs False)"
  unfolding ext_propagate_def
proof (rule triple_read)
  fix st assume st: "ready n st"
  let ?D0 = "dv st" and ?S = "ext_sol y xs False"
  define lb where "lb = Max ((\<lambda>x. Min (dv st x)) ` set xs)"
  define ub where "ub = Max ((\<lambda>x. Max (dv st x)) ` set xs)"
  note tm = ready_tame [OF st]
  have "lb \<in> (\<lambda>x. Min (dv st x)) ` set xs" "ub \<in> (\<lambda>x. Max (dv st x)) ` set xs"
    unfolding lb_def ub_def using xs(2) by (auto intro!: Max_in simp del: image_iff)
  then have b32: "in_i32 lb" "in_i32 ub" using xs(1) tameD(4,5) [OF tm] by auto
  have yx: "a y \<in> a ` set xs" "x \<in> set xs \<Longrightarrow> a y \<ge> a x" if "?S a" for a x
    using that xs(2) Max_in [of "a ` set xs"] by (simp_all add: ext_sol_def)
  have yb: "lb \<le> a y" "a y \<le> ub" if a: "?S a" "\<And>w. w < n \<Longrightarrow> a w \<in> ?D0 w" for a
  proof -
    have m: "Min (?D0 x) \<le> a x" "a x \<le> Max (?D0 x)" if "x \<in> set xs" for x
      using a(2) [of x] tameD(1) [OF tm, of x] xs(1) that by auto
    obtain x where x: "x \<in> set xs" "a y = a x" using yx(1) [OF a(1)] by blast
    show "a y \<le> ub" unfolding x(2) ub_def using m(2) [OF x(1)] x(1) by (meson Max_ge finite_imageI finite_set image_eqI order_trans)
    show "lb \<le> a y" unfolding lb_def using xs(2) yx(2) [OF a(1)] m(1) by (fastforce intro!: Max.boundedI)
  qed
  have 1: "triple n ?S (\<lambda>D. D = ?D0) (st_remove_below y lb)
      (\<lambda>_ D. (\<forall>w < n. D w \<subseteq> ?D0 w) \<and> (\<forall>z \<in> D y. lb \<le> z) \<and> (\<forall>w. w \<noteq> y \<longrightarrow> D w = ?D0 w))"
  proof (rule triple_below [OF y b32(1)])
    fix D assume "D = ?D0"
    then show "allows_all n ?S D y (\<lambda>z. lb \<le> z)" using yb(1) by (simp add: allows_all_def)
  qed auto
  let ?R = "\<lambda>D. (\<forall>w < n. D w \<subseteq> ?D0 w) \<and> (\<forall>z \<in> D y. lb \<le> z \<and> z \<le> ub) \<and> (\<forall>w. w \<noteq> y \<longrightarrow> D w = ?D0 w)"
  have 2: "triple n ?S (\<lambda>D. (\<forall>w < n. D w \<subseteq> ?D0 w) \<and> (\<forall>z \<in> D y. lb \<le> z) \<and> (\<forall>w. w \<noteq> y \<longrightarrow> D w = ?D0 w)) (st_remove_above y ub) (\<lambda>_. ?R)"
  proof (rule triple_above [OF y b32(2)])
    fix D assume D: "(\<forall>w < n. D w \<subseteq> ?D0 w) \<and> (\<forall>z \<in> D y. lb \<le> z) \<and> (\<forall>w. w \<noteq> y \<longrightarrow> D w = ?D0 w)"
    show "allows_all n ?S D y (\<lambda>z. z \<le> ub)"
      unfolding allows_all_def
    proof (intro allI impI)
      fix a assume a: "(\<forall>w < n. a w \<in> D w) \<and> ?S a"
      then have "a w \<in> ?D0 w" if "w < n" for w using D that by blast
      then show "a y \<le> ub" using yb(2) a by blast
    qed
  qed auto
  have 3: "triple n ?S (\<lambda>D. D = D1) (a_read (\<lambda>st'. let y_bound = (if False then st_min st' y else st_max st' y)
       in a_each (\<lambda>x. if False then st_remove_below x y_bound else st_remove_above x y_bound) xs)) (\<lambda>_. ext_fix y xs False)"
    if R: "?R D1" for D1
  proof (rule triple_read_at)
    fix st1 assume st1: "ready n st1" "dv st1 = D1" and tm1: "tame n D1"
    let ?b = "Max (D1 y)"
    have b: "st_max st1 y = ?b" "in_i32 ?b" "?b \<in> D1 y"
      using ready_reads(3,4) [OF st1(1) y] st1(2) tameD(4,5) [OF tm1 y] tameD(1,2) [OF tm1 y] by auto
    have far: "Min (D1 y) \<ge> Min (D1 x)" if x: "x \<in> set xs" for x
    proof (cases "x = y")
      case False
      have "Min (D1 y) \<in> D1 y" using tameD(1,2) [OF tm1 y] by simp
      then have "Min (D1 y) \<ge> lb" using R by blast
      moreover have "lb \<ge> Min (?D0 x)" using x by (simp add: lb_def)
      ultimately show ?thesis using R False by simp
    qed simp
    let ?I = "\<lambda>pre D. D y = D1 y \<and> (\<forall>x \<in> set xs. Min (D x) = Min (D1 x)) \<and> (\<forall>x \<in> set pre. Max (D1 y) \<ge> Max (D x))"
    have "triple n ?S (?I []) (a_each (\<lambda>x. st_remove_above x ?b) xs) (\<lambda>_. ?I xs)"
    proof (rule triple_each, rule triple_tame_pre)
      fix pre x post assume z: "xs = pre @ x # post"
      have x: "x < n" "x \<in> set xs" using xs z by auto
      show "triple n ?S (\<lambda>D. tame n D \<and> ?I pre D) (st_remove_above x ?b) (\<lambda>_. ?I (pre @ [x]))"
      proof (rule triple_above [OF x(1) b(2)])
        fix D assume I: "tame n D \<and> ?I pre D"
        show "allows_all n ?S D x (\<lambda>z. z \<le> ?b)"
        proof (rule allows_all_via [OF y x(1)])
          fix a assume a: "a y \<in> D y" "?S a"
          have "Max (D1 y) \<ge> a y" using a(1) I tameD(1) [OF tm1 y] by simp
          then show "a x \<le> ?b" using yx(2) [OF a(2) x(2)] by simp
        qed
        assume ne: "{z \<in> D x. z \<le> ?b} \<noteq> {}"
        have fin: "finite (D x)" using I tameD(1) x(1) by blast
        let ?S' = "{z \<in> D x. z \<le> ?b}"
        have mm: "Max (D1 y) \<ge> Max ?S'" "Min ?S' = Min (D x)" using ne fin Max_in [of ?S'] Min_keep_below [OF fin ne] by simp_all
        have yy: "x = y \<Longrightarrow> ?S' = D1 y" using I tameD(1) [OF tm1 y] by auto
        show "?I (pre @ [x]) (D(x := ?S'))" using I mm yy by auto
      qed
    qed
    then show "triple n ?S (\<lambda>D. D = D1) (let y_bound = (if False then st_min st1 y else st_max st1 y)
       in a_each (\<lambda>x. if False then st_remove_below x y_bound else st_remove_above x y_bound) xs) (\<lambda>_. ext_fix y xs False)"
      unfolding Let_def if_False b(1) by (rule triple_weaken) (use far in \<open>auto simp: ext_fix_def\<close>)
  qed
  have "triple n ?S ?R (a_read (\<lambda>st'. let y_bound = (if False then st_min st' y else st_max st' y)
       in a_each (\<lambda>x. if False then st_remove_below x y_bound else st_remove_above x y_bound) xs)) (\<lambda>_. ext_fix y xs False)"
    by (rule triple_at) (rule 3)
  from triple_then [OF 1 triple_then [OF 2 this]]
  show "triple n ?S (\<lambda>D. D = ?D0) (case ext_fold False st xs of (lb, ub) \<Rightarrow>
     a_then (st_remove_below y lb) (a_then (st_remove_above y ub) (a_read (\<lambda>st'.
       let y_bound = (if False then st_min st' y else st_max st' y)
       in a_each (\<lambda>x. if False then st_remove_below x y_bound else st_remove_above x y_bound) xs)))) (\<lambda>_. ext_fix y xs False)"
    unfolding ext_fold_bounds(2) [OF st xs] prod.case lb_def [symmetric] ub_def [symmetric] .
qed

end
