(* ===== verification/ElementProps.thy ===== *)
theory ElementProps imports Primitives begin

text \<open>
  The element constraints of \<open>src/src/constraints/primitives.rs\<close>, \<open>value = array[idx]\<close> with a
  0-based index, over an array of variables and over an array of constants.
\<close>

section \<open>The index\<close>

definition index_bounds :: "var_id \<Rightarrow> 'x list \<Rightarrow> unit action" where
  "index_bounds idx array =
     (let n = as_i32 (int (length array)) in a_then (st_remove_below idx 0) (st_remove_above idx (as_i32 (n - 1))))"

definition in_array :: "'x list \<Rightarrow> int \<Rightarrow> bool" where
  "in_array array i \<longleftrightarrow> 0 \<le> i \<and> i < int (length array)"

lemma index_triple:
  assumes idx: "idx < n" and len: "int (length array) \<le> i32_max" and sol: "\<And>a. sol a \<Longrightarrow> in_array array (a idx)"
  shows "triple n sol (\<lambda>_. True) (index_bounds idx array) (\<lambda>_ D. \<forall>i \<in> D idx. in_array array i)"
proof -
  have i32: "in_i32 0" "in_i32 (int (length array) - 1)" "in_i32 (int (length array))" using len by (simp_all add: in_i32_def i32_min_def)
  have "triple n sol (\<lambda>_. True) (st_remove_below idx 0) (\<lambda>_ D. \<forall>i \<in> D idx. 0 \<le> i)"
    by (rule triple_below [OF idx i32(1)]) (use sol in \<open>auto simp: allows_all_def in_array_def\<close>)
  moreover have "triple n sol (\<lambda>D. \<forall>i \<in> D idx. 0 \<le> i) (st_remove_above idx (int (length array) - 1)) (\<lambda>_ D. \<forall>i \<in> D idx. in_array array i)"
    by (rule triple_above [OF idx i32(2)]) (use sol in \<open>fastforce simp: allows_all_def in_array_def\<close>)+
  ultimately show ?thesis
    unfolding index_bounds_def Let_def as_i32_id [OF i32(3)] as_i32_id [OF i32(2)] by (rule triple_then)
qed

section \<open>An array of variables\<close>

definition equate :: "var_id \<Rightarrow> var_id \<Rightarrow> unit action" where
  "equate a b = a_then (a_filter a (\<lambda>x st. \<not> st_contains st b x)) (a_filter b (\<lambda>x st. \<not> st_contains st a x))"

definition elem_propagate :: "var_id list \<Rightarrow> var_id \<Rightarrow> var_id \<Rightarrow> unit action" where
  "elem_propagate array idx value =
     a_then (index_bounds idx array)
    (a_then (a_filter idx (\<lambda>i st. \<not> (\<exists>x \<in> set (st_values st (array ! nat i)). st_contains st value x)))
    (a_read (\<lambda>st. case st_value st idx of
        Some i \<Rightarrow> equate value (array ! nat i)
      | None \<Rightarrow> a_filter value (\<lambda>x st. \<not> (\<exists>i \<in> set (st_values st idx). st_contains st (array ! nat i) x)))))"

definition elem_sol :: "var_id list \<Rightarrow> var_id \<Rightarrow> var_id \<Rightarrow> (var_id \<Rightarrow> int) \<Rightarrow> bool" where
  "elem_sol array idx value a \<longleftrightarrow> in_array array (a idx) \<and> a value = a (array ! nat (a idx))"

definition elem_fix :: "var_id list \<Rightarrow> var_id \<Rightarrow> var_id \<Rightarrow> (var_id \<Rightarrow> int set) \<Rightarrow> bool" where
  "elem_fix array idx value D \<longleftrightarrow>
     (\<forall>i \<in> D idx. in_array array i \<and> D (array ! nat i) \<inter> D value \<noteq> {}) \<and>
     (\<forall>x \<in> D value. \<exists>i \<in> D idx. x \<in> D (array ! nat i)) \<and>
     (\<forall>i. D idx = {i} \<longrightarrow> D value = D (array ! nat i))"

definition elem_wf :: "nat \<Rightarrow> var_id list \<Rightarrow> var_id \<Rightarrow> var_id \<Rightarrow> bool" where
  "elem_wf n array idx value \<longleftrightarrow> idx < n \<and> value < n \<and> (\<forall>v \<in> set array. v < n) \<and> idx \<noteq> value \<and> idx \<notin> set array \<and>
     int (length array) \<le> i32_max"

lemma equate_triple:
  assumes a: "a < n" and b: "b < n"
    and sol: "\<And>e. (\<forall>w < n. e w \<in> D w) \<Longrightarrow> sol e \<Longrightarrow> e a = e b"
  shows "triple n sol (\<lambda>E. E = D) (equate a b) (\<lambda>_ E. E = D(a := D a \<inter> D b, b := D a \<inter> D b))"
proof -
  let ?D1 = "D(a := D a \<inter> D b)"
  have 1: "triple n sol (\<lambda>E. E = D) (a_filter a (\<lambda>x st. \<not> st_contains st b x)) (\<lambda>_ E. E = D(a := {x \<in> D a. \<not> x \<notin> D b}))"
  proof (rule triple_filter [OF a])
    fix st S x assume st: "ready n st" "dv st = D(a := S)" and S: "{y \<in> D a. \<not> y \<notin> D b} \<subseteq> S" "S \<subseteq> D a" and x: "x \<in> D a"
    show "(\<not> st_contains st b x) = (x \<notin> D b)" using ready_reads(5) [OF st(1) b, of x] st(2) S x by (cases "a = b") auto
  next
    show "allows_all n sol D a (\<lambda>y. \<not> y \<notin> D b)"
      unfolding allows_all_def
    proof (intro allI impI)
      fix e assume e: "(\<forall>w < n. e w \<in> D w) \<and> sol e"
      then have "e a = e b" using sol by blast
      then show "\<not> e a \<notin> D b" using e b by simp
    qed
  qed
  have e1: "D(a := {x \<in> D a. \<not> x \<notin> D b}) = ?D1" by (auto simp: fun_eq_iff)
  have 2: "triple n sol (\<lambda>E. E = ?D1) (a_filter b (\<lambda>x st. \<not> st_contains st a x)) (\<lambda>_ E. E = ?D1(b := {x \<in> ?D1 b. \<not> x \<notin> ?D1 a}))"
  proof (rule triple_filter [OF b])
    fix st S x assume st: "ready n st" "dv st = ?D1(b := S)" and S: "{y \<in> ?D1 b. \<not> y \<notin> ?D1 a} \<subseteq> S" "S \<subseteq> ?D1 b" and x: "x \<in> ?D1 b"
    show "(\<not> st_contains st a x) = (x \<notin> ?D1 a)" using ready_reads(5) [OF st(1) a, of x] st(2) S x by (cases "a = b") auto
  next
    show "allows_all n sol ?D1 b (\<lambda>y. \<not> y \<notin> ?D1 a)"
      unfolding allows_all_def
    proof (intro allI impI)
      fix e assume e: "(\<forall>w < n. e w \<in> ?D1 w) \<and> sol e"
      then have "e w \<in> D w" if "w < n" for w using that by (metis Int_iff fun_upd_apply)
      then have "e a = e b" using sol e by blast
      then show "\<not> e b \<notin> ?D1 a" using e a by metis
    qed
  qed
  have "?D1(b := {x \<in> ?D1 b. \<not> x \<notin> ?D1 a}) = D(a := D a \<inter> D b, b := D a \<inter> D b)" by (auto simp: fun_eq_iff)
  then show ?thesis unfolding equate_def using triple_then [OF 1 [unfolded e1] 2] by simp
qed

lemma elem_triple:
  assumes w: "elem_wf n array idx value"
  shows "triple n (elem_sol array idx value) (\<lambda>_. True) (elem_propagate array idx value) (\<lambda>_. elem_fix array idx value)"
proof -
  let ?S = "elem_sol array idx value"
  have v: "idx < n" "value < n" "idx \<noteq> value" "idx \<notin> set array" and arr: "\<And>i. in_array array i \<Longrightarrow> array ! nat i < n \<and> array ! nat i \<noteq> idx"
  proof -
    show "idx < n" "value < n" "idx \<noteq> value" "idx \<notin> set array" using w by (simp_all add: elem_wf_def)
    fix i assume "in_array array i"
    then have "array ! nat i \<in> set array" by (simp add: in_array_def nat_less_iff)
    then show "array ! nat i < n \<and> array ! nat i \<noteq> idx" using w by (auto simp: elem_wf_def)
  qed
  let ?R2 = "\<lambda>D. \<forall>i \<in> D idx. in_array array i"
  let ?R3 = "\<lambda>D. \<forall>i \<in> D idx. in_array array i \<and> D (array ! nat i) \<inter> D value \<noteq> {}"
  have 1: "triple n ?S (\<lambda>_. True) (index_bounds idx array) (\<lambda>_. ?R2)"
    by (rule index_triple) (use w in \<open>auto simp: elem_wf_def elem_sol_def\<close>)
  have 2: "triple n ?S (\<lambda>E. E = D) (a_filter idx (\<lambda>i st. \<not> (\<exists>x \<in> set (st_values st (array ! nat i)). st_contains st value x))) (\<lambda>_. ?R3)"
    if R: "?R2 D" for D
  proof (rule triple_post, rule triple_filter [OF v(1)])
    fix st S i assume st: "ready n st" "dv st = D(idx := S)" and i: "i \<in> D idx"
    have "array ! nat i < n" "array ! nat i \<noteq> idx" using arr R i by blast+
    then show "(\<not> (\<exists>x \<in> set (st_values st (array ! nat i)). st_contains st value x)) \<longleftrightarrow> D (array ! nat i) \<inter> D value = {}"
      using ready_reads(7) [OF st(1), of "array ! nat i"] ready_reads(5) [OF st(1) v(2)] v(3) st(2) by auto
  next
    show "allows_all n ?S D idx (\<lambda>i. \<not> D (array ! nat i) \<inter> D value = {})"
      unfolding allows_all_def
    proof (intro allI impI)
      fix a assume a: "(\<forall>w < n. a w \<in> D w) \<and> ?S a"
      then have "a value \<in> D value" "a value \<in> D (array ! nat (a idx))" using arr [of "a idx"] v(2) by (auto simp: elem_sol_def)
      then show "\<not> D (array ! nat (a idx)) \<inter> D value = {}" by blast
    qed
  next
    fix E assume E: "E = D(idx := {i \<in> D idx. \<not> D (array ! nat i) \<inter> D value = {}})"
    show "?R3 E"
    proof
      fix i assume "i \<in> E idx"
      then have i: "i \<in> D idx" "D (array ! nat i) \<inter> D value \<noteq> {}" by (simp_all add: E)
      have "E (array ! nat i) = D (array ! nat i)" "E value = D value" using arr R i(1) v(3) by (auto simp: E)
      then show "in_array array i \<and> E (array ! nat i) \<inter> E value \<noteq> {}" using i R by simp
    qed
  qed
  have 3: "triple n ?S (\<lambda>E. E = D) (a_read (\<lambda>st. case st_value st idx of
        None \<Rightarrow> a_filter value (\<lambda>x st. \<not> (\<exists>i \<in> set (st_values st idx). st_contains st (array ! nat i) x))
      | Some i \<Rightarrow> equate value (array ! nat i))) (\<lambda>_. elem_fix array idx value)" if R: "?R3 D" for D
  proof (rule triple_value [OF v(1)])
    fix i assume i: "D idx = {i}"
    let ?c = "array ! nat i"
    have c: "?c < n" "?c \<noteq> idx" "D ?c \<inter> D value \<noteq> {}" "in_array array i" using R arr i by auto
    have "triple n ?S (\<lambda>E. E = D) (equate value ?c) (\<lambda>_ E. E = D(value := D value \<inter> D ?c, ?c := D value \<inter> D ?c))"
    proof (rule equate_triple [OF v(2) c(1)])
      fix e assume e: "\<forall>w < n. e w \<in> D w" "?S e"
      have "e idx = i" using e(1) v(1) i by blast
      then show "e value = e ?c" using e(2) by (simp add: elem_sol_def)
    qed
    then show "triple n ?S (\<lambda>E. E = D) (equate value ?c) (\<lambda>_. elem_fix array idx value)"
      by (rule triple_post) (use c i v(3) in \<open>auto simp: elem_fix_def\<close>)
  next
    assume free: "\<And>i. D idx \<noteq> {i}"
    show "triple n ?S (\<lambda>E. E = D) (a_filter value (\<lambda>x st. \<not> (\<exists>i \<in> set (st_values st idx). st_contains st (array ! nat i) x))) (\<lambda>_. elem_fix array idx value)"
    proof (rule triple_post, rule triple_filter [OF v(2)])
      fix st S x assume st: "ready n st" "dv st = D(value := S)" and S: "{y \<in> D value. \<not> \<not> (\<exists>i \<in> D idx. y \<in> D (array ! nat i))} \<subseteq> S"
        "S \<subseteq> D value" and x: "x \<in> D value"
      have iv: "set (st_values st idx) = D idx" using ready_reads(7) [OF st(1) v(1)] v(3) st(2) by simp
      have "st_contains st (array ! nat i) x \<longleftrightarrow> x \<in> D (array ! nat i)" if i: "i \<in> D idx" for i
      proof (cases "array ! nat i = value")
        case True
        then have "x \<in> S" using S x i by blast
        then show ?thesis using ready_reads(5) [OF st(1) v(2), of x] True st(2) x by simp
      next
        case False
        have "array ! nat i < n" using arr R i by blast
        then show ?thesis using ready_reads(5) [OF st(1), of "array ! nat i" x] False st(2) by simp
      qed
      then show "(\<not> (\<exists>i \<in> set (st_values st idx). st_contains st (array ! nat i) x)) \<longleftrightarrow> \<not> (\<exists>i \<in> D idx. x \<in> D (array ! nat i))"
        unfolding iv by blast
    next
      show "allows_all n ?S D value (\<lambda>x. \<not> \<not> (\<exists>i \<in> D idx. x \<in> D (array ! nat i)))"
        unfolding allows_all_def not_not
      proof (intro allI impI)
        fix a assume a: "(\<forall>w < n. a w \<in> D w) \<and> ?S a"
        then have "a idx \<in> D idx" "a value \<in> D (array ! nat (a idx))" using arr [of "a idx"] v(1) by (auto simp: elem_sol_def)
        then show "\<exists>i \<in> D idx. a value \<in> D (array ! nat i)" by blast
      qed
    next
      fix E assume E: "E = D(value := {x \<in> D value. \<not> \<not> (\<exists>i \<in> D idx. x \<in> D (array ! nat i))})"
      have sup: "D (array ! nat i) \<inter> D value = E (array ! nat i) \<inter> E value" "x \<in> E value \<Longrightarrow> x \<in> D (array ! nat i) \<Longrightarrow> x \<in> E (array ! nat i)"
        if "i \<in> D idx" for i x using that by (auto simp: E)
      have Ei: "E idx = D idx" using v(3) by (simp add: E)
      show "elem_fix array idx value E"
        unfolding elem_fix_def Ei
      proof (intro conjI ballI allI impI)
        fix x assume x: "x \<in> E value"
        then obtain i where "i \<in> D idx" "x \<in> D (array ! nat i)" by (auto simp: E)
        then show "\<exists>i \<in> D idx. x \<in> E (array ! nat i)" using sup(2) x by blast
      qed (use R sup(1) free in auto)
    qed
  qed
  show ?thesis
    unfolding elem_propagate_def
    by (rule triple_then [OF 1], rule triple_then [where R = ?R3]; rule triple_at) (use 2 3 in auto)
qed

section \<open>An array of constants\<close>

definition elemc_propagate :: "int list \<Rightarrow> var_id \<Rightarrow> var_id \<Rightarrow> unit action" where
  "elemc_propagate array idx value =
     a_then (index_bounds idx array)
    (a_then (a_filter idx (\<lambda>i st. \<not> st_contains st value (array ! nat i)))
    (a_read (\<lambda>st. case st_value st idx of
        Some i \<Rightarrow> st_fix value (array ! nat i)
      | None \<Rightarrow> a_filter value (\<lambda>x st. \<not> (\<exists>i \<in> set (st_values st idx). array ! nat i = x)))))"

definition elemc_sol :: "int list \<Rightarrow> var_id \<Rightarrow> var_id \<Rightarrow> (var_id \<Rightarrow> int) \<Rightarrow> bool" where
  "elemc_sol array idx value a \<longleftrightarrow> in_array array (a idx) \<and> a value = array ! nat (a idx)"

definition elemc_fix :: "int list \<Rightarrow> var_id \<Rightarrow> var_id \<Rightarrow> (var_id \<Rightarrow> int set) \<Rightarrow> bool" where
  "elemc_fix array idx value D \<longleftrightarrow> (\<forall>i \<in> D idx. in_array array i \<and> array ! nat i \<in> D value) \<and>
     (\<forall>x \<in> D value. \<exists>i \<in> D idx. x = array ! nat i)"

definition elemc_wf :: "nat \<Rightarrow> int list \<Rightarrow> var_id \<Rightarrow> var_id \<Rightarrow> bool" where
  "elemc_wf n array idx value \<longleftrightarrow> idx < n \<and> value < n \<and> (\<forall>x \<in> set array. in_i32 x) \<and> idx \<noteq> value \<and>
     int (length array) \<le> i32_max"

lemma elemc_triple:
  assumes w: "elemc_wf n array idx value"
  shows "triple n (elemc_sol array idx value) (\<lambda>_. True) (elemc_propagate array idx value) (\<lambda>_. elemc_fix array idx value)"
proof -
  let ?S = "elemc_sol array idx value"
  have v: "idx < n" "value < n" "idx \<noteq> value" using w by (simp_all add: elemc_wf_def)
  have arr: "in_i32 (array ! nat i)" if "in_array array i" for i
    using w that by (auto simp: elemc_wf_def in_array_def nat_less_iff)
  let ?R2 = "\<lambda>D. \<forall>i \<in> D idx. in_array array i"
  let ?R3 = "\<lambda>D. \<forall>i \<in> D idx. in_array array i \<and> array ! nat i \<in> D value"
  have 1: "triple n ?S (\<lambda>_. True) (index_bounds idx array) (\<lambda>_. ?R2)"
    by (rule index_triple) (use w in \<open>auto simp: elemc_wf_def elemc_sol_def\<close>)
  have 2: "triple n ?S (\<lambda>E. E = D) (a_filter idx (\<lambda>i st. \<not> st_contains st value (array ! nat i))) (\<lambda>_. ?R3)" if R: "?R2 D" for D
  proof (rule triple_post, rule triple_filter [OF v(1)])
    fix st S i assume st: "ready n st" "dv st = D(idx := S)"
    show "(\<not> st_contains st value (array ! nat i)) \<longleftrightarrow> array ! nat i \<notin> D value"
      using ready_reads(5) [OF st(1) v(2)] v(3) st(2) by simp
  next
    show "allows_all n ?S D idx (\<lambda>i. \<not> array ! nat i \<notin> D value)"
      by (rule allows_all_via [OF v(2,1)]) (simp add: elemc_sol_def)
  qed (use R v(3) in auto)
  have 3: "triple n ?S (\<lambda>E. E = D) (a_read (\<lambda>st. case st_value st idx of
        None \<Rightarrow> a_filter value (\<lambda>x st. \<not> (\<exists>i \<in> set (st_values st idx). array ! nat i = x))
      | Some i \<Rightarrow> st_fix value (array ! nat i))) (\<lambda>_. elemc_fix array idx value)" if R: "?R3 D" for D
  proof (rule triple_value [OF v(1)])
    fix i assume i: "D idx = {i}"
    have i32: "in_i32 (array ! nat i)" using arr R i by simp
    show "triple n ?S (\<lambda>E. E = D) (st_fix value (array ! nat i)) (\<lambda>_. elemc_fix array idx value)"
    proof (rule triple_fix [OF v(2) i32])
      fix E assume E: "E = D"
      show "allows_all n ?S E value (\<lambda>y. y = array ! nat i)"
        by (rule allows_all_via [OF v(1,2)]) (use i E in \<open>simp add: elemc_sol_def\<close>)
    qed (use R i v(3) in \<open>auto simp: elemc_fix_def\<close>)
  next
    show "triple n ?S (\<lambda>E. E = D) (a_filter value (\<lambda>x st. \<not> (\<exists>i \<in> set (st_values st idx). array ! nat i = x))) (\<lambda>_. elemc_fix array idx value)"
    proof (rule triple_post, rule triple_filter [OF v(2)])
      fix st S x assume st: "ready n st" "dv st = D(value := S)"
      show "(\<not> (\<exists>i \<in> set (st_values st idx). array ! nat i = x)) \<longleftrightarrow> \<not> (\<exists>i \<in> D idx. x = array ! nat i)"
        using ready_reads(7) [OF st(1) v(1)] v(3) st(2) by auto
    next
      show "allows_all n ?S D value (\<lambda>x. \<not> \<not> (\<exists>i \<in> D idx. x = array ! nat i))"
        by (rule allows_all_via [OF v(1,2)]) (auto simp: elemc_sol_def)
    qed (use R v(3) in \<open>auto simp: elemc_fix_def\<close>)
  qed
  show ?thesis
    unfolding elemc_propagate_def
    by (rule triple_then [OF 1], rule triple_then [where R = ?R3]; rule triple_at) (use 2 3 in auto)
qed

end
