(* ===== verification/Signs.thy ===== *)
theory Signs imports Primitives begin

text \<open>
  The batched sign products of \<open>src/src/constraints/primitives.rs\<close>: equalities \<open>y = x * z\<close>
  over variables with the values -1 and 1, where any two fixed variables fix the third.
\<close>

section \<open>Propagation\<close>

text \<open>The reads of \<open>a\<close> and \<open>b\<close> are \<open>value()\<close>; the callers have checked that both are fixed.\<close>

definition fix_sign_product :: "var_id \<Rightarrow> int \<Rightarrow> var_id \<Rightarrow> var_id \<Rightarrow> bool action" where
  "fix_sign_product target x a b = a_read (\<lambda>st.
     let why = [PEq a (st_min st a), PEq b (st_min st b)]
     in if \<not> st_contains st target x then failing why
        else let changed = \<not> st_is_fixed st target in a_then (fix_because target x why) (a_ret changed))"

fun sign_step :: "var_id \<times> var_id \<times> var_id \<Rightarrow> bool \<Rightarrow> bool action" where
  "sign_step (y, x, z) changed = a_read (\<lambda>st.
     (case (st_value st y, st_value st x, st_value st z) of
        (Some yv, Some xv, Some zv) \<Rightarrow>
          if yv \<noteq> as_i32 (xv * zv) then failing [PEq y yv, PEq x xv, PEq z zv] else a_ret changed
      | (None, Some xv, Some zv) \<Rightarrow> a_bind (fix_sign_product y (as_i32 (xv * zv)) x z) (\<lambda>c. a_ret (changed \<or> c))
      | (Some yv, None, Some zv) \<Rightarrow> a_bind (fix_sign_product x (as_i32 (yv * zv)) y z) (\<lambda>c. a_ret (changed \<or> c))
      | (Some yv, Some xv, None) \<Rightarrow> a_bind (fix_sign_product z (as_i32 (yv * xv)) y x) (\<lambda>c. a_ret (changed \<or> c))
      | _ \<Rightarrow> a_ret changed))"

definition signs_propagate :: "(var_id \<times> var_id \<times> var_id) list \<Rightarrow> store \<Rightarrow> unit outcome option" where
  "signs_propagate terms = a_loop (a_for sign_step terms False)"

section \<open>Correctness\<close>

definition sign :: "int \<Rightarrow> bool" where
  "sign x \<longleftrightarrow> x = 1 \<or> x = - 1"

definition signs_scope :: "(var_id \<times> var_id \<times> var_id) list \<Rightarrow> (var_id \<Rightarrow> int) \<Rightarrow> bool" where
  "signs_scope terms a \<longleftrightarrow> (\<forall>(y, x, z) \<in> set terms. sign (a y) \<and> sign (a x) \<and> sign (a z))"

definition signs_sol :: "(var_id \<times> var_id \<times> var_id) list \<Rightarrow> (var_id \<Rightarrow> int) \<Rightarrow> bool" where
  "signs_sol terms a \<longleftrightarrow> signs_scope terms a \<and> (\<forall>(y, x, z) \<in> set terms. a y = a x * a z)"

definition single :: "(var_id \<Rightarrow> int set) \<Rightarrow> var_id \<Rightarrow> bool" where
  "single D v \<longleftrightarrow> (\<exists>x. D v = {x})"

fun sign_fix :: "(var_id \<Rightarrow> int set) \<Rightarrow> var_id \<times> var_id \<times> var_id \<Rightarrow> bool" where
  "sign_fix D (y, x, z) \<longleftrightarrow>
     (\<forall>yv xv zv. D y = {yv} \<and> D x = {xv} \<and> D z = {zv} \<longrightarrow> yv = as_i32 (xv * zv)) \<and>
     (single D x \<and> single D z \<longrightarrow> single D y) \<and> (single D y \<and> single D z \<longrightarrow> single D x) \<and>
     (single D y \<and> single D x \<longrightarrow> single D z)"

definition signs_fix :: "(var_id \<times> var_id \<times> var_id) list \<Rightarrow> (var_id \<Rightarrow> int set) \<Rightarrow> bool" where
  "signs_fix terms D \<longleftrightarrow> (\<forall>t \<in> set terms. sign_fix D t)"

lemma sign_mult: "sign x \<Longrightarrow> sign z \<Longrightarrow> sign (x * z) \<and> as_i32 (x * z) = x * z"
  by (auto simp: sign_def as_i32_id in_i32_def i32_min_def i32_max_def)

text \<open>Fixing the target to a value every solution gives it.\<close>

lemma fix_sign_triple:
  assumes t: "target < n" and x: "in_i32 x" and free: "\<not> single D target" and sol: "allows_all n sol D target (\<lambda>y. y = x)"
  shows "triple n sol (\<lambda>E. E = D) (fix_sign_product target x a b) (\<lambda>c E. c \<and> E = D(target := {x}) \<and> x \<in> D target)"
  unfolding fix_sign_product_def
proof (rule triple_read_at)
  fix st assume st: "ready n st" "dv st = D"
  have c: "st_contains st target x \<longleftrightarrow> x \<in> D target" "(\<not> st_is_fixed st target) = True"
    using ready_reads(5,6) [OF st(1) t] st(2) free by (auto simp: single_def card_1_singleton_iff)
  let ?why = "[PEq a (st_min st a), PEq b (st_min st b)]"
  show "triple n sol (\<lambda>E. E = D) (let why = ?why in if \<not> st_contains st target x then failing why
      else let changed = \<not> st_is_fixed st target in a_then (fix_because target x why) (a_ret changed))
      (\<lambda>c E. c \<and> E = D(target := {x}) \<and> x \<in> D target)"
    unfolding Let_def c
  proof (rule triple_case)
    assume ne: "x \<notin> D target"
    show "triple n sol (\<lambda>E. E = D) (failing ?why) (\<lambda>c E. c \<and> E = D(target := {x}) \<and> x \<in> D target)"
    proof (rule triple_failing)
      fix E :: "var_id \<Rightarrow> int set" and e assume e: "E = D" "\<forall>v < n. e v \<in> E v"
      have "e target \<in> D target" using e t by blast
      then have "e target \<noteq> x" using ne by auto
      then show "\<not> sol e" using e sol by (auto simp: allows_all_def)
    qed
  next
    have "triple n sol (\<lambda>E. E = D) (fix_because target x ?why) (\<lambda>_ E. E = D(target := {x}) \<and> x \<in> D target)"
      by (rule triple_fix_because [OF t x]) (use sol in auto)
    moreover have "triple n sol (\<lambda>E. E = D(target := {x}) \<and> x \<in> D target) (a_ret True) (\<lambda>c E. c \<and> E = D(target := {x}) \<and> x \<in> D target)"
      by (rule triple_ret) simp
    ultimately show "triple n sol (\<lambda>E. E = D) (a_then (fix_because target x ?why) (a_ret True)) (\<lambda>c E. c \<and> E = D(target := {x}) \<and> x \<in> D target)"
      by (rule triple_then)
  qed
qed

lemma sign_step_triple:
  assumes v: "y < n" "x < n" "z < n" and t: "(y, x, z) \<in> set terms"
  shows "triple n (signs_sol terms) (\<lambda>E. E = D) (sign_step (y, x, z) changed)
    (\<lambda>c E. (\<not> c \<longrightarrow> \<not> changed \<and> E = D \<and> sign_fix D (y, x, z)) \<and> (c \<longrightarrow> (changed \<and> E = D) \<or> shrunk n D E))"
    (is "triple n ?S _ _ ?Q")
  unfolding sign_step.simps
proof (rule triple_read_at)
  fix st assume st: "ready n st" "dv st = D" and tm: "tame n D"
  note val = ready_value [OF st(1), unfolded st(2)]
  have none: "st_value st v = None \<longleftrightarrow> \<not> single D v" if "v < n" for v using val [OF that] unfolding single_def by (metis not_None_eq)
  have nn: "\<not> single D y \<Longrightarrow> st_value st y = None" "\<not> single D x \<Longrightarrow> st_value st x = None" "\<not> single D z \<Longrightarrow> st_value st z = None"
    using none v by simp_all
  have sg: "sign (a y)" "sign (a x)" "sign (a z)" "a y = a x * a z" if "?S a" for a
    using that t by (auto simp: signs_sol_def signs_scope_def)
  have sol: "a y = a x * a z \<and> as_i32 (a x * a z) = a x * a z" "a x = a y * a z \<and> as_i32 (a y * a z) = a y * a z"
    "a z = a y * a x \<and> as_i32 (a y * a x) = a y * a x" if S: "?S a" for a
    using sg [OF S] sign_mult [OF sg(2,3) [OF S]] sign_mult [OF sg(1,3) [OF S]] sign_mult [OF sg(1,2) [OF S]]
    by (auto simp: sign_def)
  have keep: "triple n ?S (\<lambda>E. E = D) (a_ret changed) ?Q" if "sign_fix D (y, x, z)"
    using that by (auto intro: triple_ret simp del: sign_fix.simps)
  have few: "triple n ?S (\<lambda>E. E = D) (a_ret changed) ?Q"
    if "\<not> (single D y \<and> single D x)" "\<not> (single D y \<and> single D z)" "\<not> (single D x \<and> single D z)"
    by (rule keep) (use that in \<open>auto simp: single_def\<close>)
  have one: "triple n ?S (\<lambda>E. E = D) (a_bind (fix_sign_product v (as_i32 (uv * wv)) u w) (\<lambda>c. a_ret (changed \<or> c))) ?Q"
    if g: "v < n" "u < n" "w < n" "\<not> single D v" "D u = {uv}" "D w = {wv}" and e: "\<And>a. ?S a \<Longrightarrow> a v = a u * a w \<and> as_i32 (a u * a w) = a u * a w" for v u w uv wv
  proof (rule triple_bind [OF fix_sign_triple [OF g(1) in_i32_as_i32 g(4)]])
    show "allows_all n ?S D v (\<lambda>y. y = as_i32 (uv * wv))"
      unfolding allows_all_def
    proof (intro allI impI)
      fix a assume a: "(\<forall>w < n. a w \<in> D w) \<and> ?S a"
      have "a u = uv" "a w = wv" using a g(2,3,5,6) by blast+
      then show "a v = as_i32 (uv * wv)" using e [of a] a by simp
    qed
    fix c
    show "triple n ?S (\<lambda>E. c \<and> E = D(v := {as_i32 (uv * wv)}) \<and> as_i32 (uv * wv) \<in> D v) (a_ret (changed \<or> c)) ?Q"
      by (rule triple_ret) (use g(1,4) in \<open>auto simp: shrunk_def single_def\<close>)
  qed
  show "triple n ?S (\<lambda>E. E = D) (case (st_value st y, st_value st x, st_value st z) of
        (Some yv, Some xv, Some zv) \<Rightarrow>
          if yv \<noteq> as_i32 (xv * zv) then failing [PEq y yv, PEq x xv, PEq z zv] else a_ret changed
      | (None, Some xv, Some zv) \<Rightarrow> a_bind (fix_sign_product y (as_i32 (xv * zv)) x z) (\<lambda>c. a_ret (changed \<or> c))
      | (Some yv, None, Some zv) \<Rightarrow> a_bind (fix_sign_product x (as_i32 (yv * zv)) y z) (\<lambda>c. a_ret (changed \<or> c))
      | (Some yv, Some xv, None) \<Rightarrow> a_bind (fix_sign_product z (as_i32 (yv * xv)) y x) (\<lambda>c. a_ret (changed \<or> c))
      | _ \<Rightarrow> a_ret changed) ?Q"
  proof (cases "single D y"; cases "single D x"; cases "single D z")
    assume s: "single D y" "single D x" "single D z"
    then obtain yv xv zv where d: "D y = {yv}" "D x = {xv}" "D z = {zv}" by (auto simp: single_def)
    then have sv: "st_value st y = Some yv" "st_value st x = Some xv" "st_value st z = Some zv" using val v by auto
    have "triple n ?S (\<lambda>E. E = D) (failing [PEq y yv, PEq x xv, PEq z zv]) ?Q" if ne: "yv \<noteq> as_i32 (xv * zv)"
    proof (rule triple_failing)
      fix E :: "var_id \<Rightarrow> int set" and a assume a: "E = D" "\<forall>v < n. a v \<in> E v"
      then have "a y = yv" "a x = xv" "a z = zv" using d v by auto
      then show "\<not> ?S a" using sol(1) [of a] ne by metis
    qed
    moreover have "triple n ?S (\<lambda>E. E = D) (a_ret changed) ?Q" if "yv = as_i32 (xv * zv)"
      by (rule keep) (use that d in \<open>auto simp: single_def\<close>)
    ultimately show ?thesis using sv by simp
  next
    assume s: "\<not> single D y" "single D x" "single D z"
    then obtain xv zv where d: "D x = {xv}" "D z = {zv}" by (auto simp: single_def)
    then have sv: "st_value st y = None" "st_value st x = Some xv" "st_value st z = Some zv" using val none v s by auto
    show ?thesis unfolding sv option.case prod.case by (rule one [OF v s(1) d sol(1)])
  next
    assume s: "single D y" "\<not> single D x" "single D z"
    then obtain yv zv where d: "D y = {yv}" "D z = {zv}" by (auto simp: single_def)
    then have sv: "st_value st y = Some yv" "st_value st x = None" "st_value st z = Some zv" using val none v s by auto
    show ?thesis unfolding sv option.case prod.case by (rule one [OF v(2,1,3) s(2) d sol(2)])
  next
    assume s: "single D y" "single D x" "\<not> single D z"
    then obtain yv xv where d: "D y = {yv}" "D x = {xv}" by (auto simp: single_def)
    then have sv: "st_value st y = Some yv" "st_value st x = Some xv" "st_value st z = None" using val none v s by auto
    show ?thesis unfolding sv option.case prod.case by (rule one [OF v(3,1,2) s(3) d sol(3)])
  next
    assume s: "single D y" "\<not> single D x" "\<not> single D z"
    have few': "triple n ?S (\<lambda>E. E = D) (a_ret changed) ?Q" by (rule few) (use s in auto)
    show ?thesis unfolding nn(2) [OF s(2)] nn(3) [OF s(3)] option.case prod.case by (split option.split | rule conjI impI allI few')+
  next
    assume s: "\<not> single D y" "single D x" "\<not> single D z"
    have few': "triple n ?S (\<lambda>E. E = D) (a_ret changed) ?Q" by (rule few) (use s in auto)
    show ?thesis unfolding nn(1) [OF s(1)] nn(3) [OF s(3)] option.case prod.case by (split option.split | rule conjI impI allI few')+
  next
    assume s: "\<not> single D y" "\<not> single D x" "single D z"
    have few': "triple n ?S (\<lambda>E. E = D) (a_ret changed) ?Q" by (rule few) (use s in auto)
    show ?thesis unfolding nn(1) [OF s(1)] nn(2) [OF s(2)] option.case prod.case by (split option.split | rule conjI impI allI few')+
  next
    assume s: "\<not> single D y" "\<not> single D x" "\<not> single D z"
    have few': "triple n ?S (\<lambda>E. E = D) (a_ret changed) ?Q" by (rule few) (use s in auto)
    show ?thesis unfolding nn(1) [OF s(1)] nn(2) [OF s(2)] nn(3) [OF s(3)] option.case prod.case by (split option.split | rule conjI impI allI few')+
  qed
qed

lemma signs_triple:
  assumes v: "\<forall>(y, x, z) \<in> set terms. y < n \<and> x < n \<and> z < n" and tm: "tame n D"
  shows "triple n (signs_sol terms) (\<lambda>E. E = D) (a_for sign_step terms False)
    (\<lambda>c E. if c then True \<and> total_size n E < total_size n D else signs_fix terms E)"
proof -
  have "triple n (signs_sol terms) (\<lambda>E. E = D) (a_for sign_step terms False)
      (\<lambda>c E. if c then shrunk n D E else E = D \<and> (\<forall>t \<in> set terms. sign_fix D t))"
  proof (rule triple_pass)
    fix t c E assume t: "t \<in> set terms" and e: "\<not> c \<longrightarrow> E = D"
    obtain y x w where yxw: "t = (y, x, w)" by (metis prod_cases3)
    have bnd: "y < n" "x < n" "w < n" and mem: "(y, x, w) \<in> set terms" using v t yxw by auto
    show "triple n (signs_sol terms) (\<lambda>F. F = E) (sign_step t c)
        (\<lambda>c' F. if c' then (c \<and> F = E) \<or> shrunk n E F else \<not> c \<and> F = E \<and> sign_fix D t)"
      unfolding yxw
      by (rule triple_post [OF sign_step_triple [OF bnd mem]]) (use e in \<open>auto simp del: sign_fix.simps\<close>)
  qed
  then show ?thesis
    by (rule triple_post) (use shrunk_size [OF tm] in \<open>simp add: signs_fix_def split: if_splits del: sign_fix.simps\<close>)
qed

lemma signs_run:
  assumes "\<forall>(y, x, z) \<in> set terms. y < n \<and> x < n \<and> z < n" "ready n st"
  shows "\<exists>out. signs_propagate terms st = Some out \<and> sound (signs_sol terms) st out \<and> (snd out = Ok () \<longrightarrow> signs_fix terms (dv (fst out)))"
  unfolding signs_propagate_def
  by (rule loop_rule [where P = "\<lambda>_. True"]) (use assms signs_triple in auto)

end
