(* ===== verification/Rows.thy ===== *)
theory Rows imports Filtering begin

text \<open>
  Integer rows \<open>sum(a * x)\<close> as \<open>src/src/constraints/linear.rs\<close> evaluates them: relations, the
  rounding divisions, and the activity of a row under the current bounds in wrapping \<open>i64\<close>,
  which is the exact activity for rows whose coefficients leave room.
\<close>

section \<open>Relations\<close>

datatype relation = RelEq | RelNe | RelLe | RelLt | RelGe | RelGt

fun rel_holds :: "relation \<Rightarrow> int \<Rightarrow> int \<Rightarrow> bool" where
  "rel_holds RelEq x r = (x = r)"
| "rel_holds RelNe x r = (x \<noteq> r)"
| "rel_holds RelLe x r = (x \<le> r)"
| "rel_holds RelLt x r = (x < r)"
| "rel_holds RelGe x r = (x \<ge> r)"
| "rel_holds RelGt x r = (x > r)"

fun complement :: "relation \<Rightarrow> relation" where
  "complement RelEq = RelNe"
| "complement RelNe = RelEq"
| "complement RelLe = RelGt"
| "complement RelLt = RelGe"
| "complement RelGe = RelLt"
| "complement RelGt = RelLe"

lemma complement_holds: "rel_holds (complement rel) x r \<longleftrightarrow> \<not> rel_holds rel x r"
  by (cases rel) auto

section \<open>Rounding divisions\<close>

definition floor_div :: "int \<Rightarrow> int \<Rightarrow> int" where
  "floor_div a b = (let q = rust_div a b; r = rust_rem a b in if r \<noteq> 0 \<and> (r < 0) \<noteq> (b < 0) then q - 1 else q)"

definition ceil_div :: "int \<Rightarrow> int \<Rightarrow> int" where
  "ceil_div a b = (let q = rust_div a b; r = rust_rem a b in if r \<noteq> 0 \<and> (r < 0) = (b < 0) then q + 1 else q)"

definition clamp_i32 :: "int \<Rightarrow> int" where
  "clamp_i32 x = max i32_min (min i32_max x)"

lemma in_i32_clamp [simp]: "in_i32 (clamp_i32 x)"
  by (auto simp: clamp_i32_def in_i32_def i32_min_def i32_max_def)

lemma div_rounding:
  assumes "b \<noteq> 0"
  shows "b > 0 \<Longrightarrow> b * floor_div a b \<le> a \<and> a < b * (floor_div a b + 1)"
    and "b < 0 \<Longrightarrow> a \<le> b * floor_div a b \<and> b * (floor_div a b + 1) < a"
    and "b > 0 \<Longrightarrow> b * (ceil_div a b - 1) < a \<and> a \<le> b * ceil_div a b"
    and "b < 0 \<Longrightarrow> b * ceil_div a b \<le> a \<and> a < b * (ceil_div a b - 1)"
proof -
  define q where "q = rust_div a b"
  define r where "r = rust_rem a b"
  have a: "a = b * q + r" by (simp add: q_def r_def rust_rem_def)
  have r: "\<bar>r\<bar> < \<bar>b\<bar>" using rust_rem_abs_less [OF assms] by (simp add: r_def)
  have f: "floor_div a b = (if r \<noteq> 0 \<and> (r < 0) \<noteq> (b < 0) then q - 1 else q)"
    and c: "ceil_div a b = (if r \<noteq> 0 \<and> (r < 0) = (b < 0) then q + 1 else q)"
    by (simp_all add: floor_div_def ceil_div_def q_def r_def Let_def)
  show "b > 0 \<Longrightarrow> b * floor_div a b \<le> a \<and> a < b * (floor_div a b + 1)"
    "b < 0 \<Longrightarrow> a \<le> b * floor_div a b \<and> b * (floor_div a b + 1) < a"
    using a r unfolding f by (auto simp: algebra_simps)
  show "b > 0 \<Longrightarrow> b * (ceil_div a b - 1) < a \<and> a \<le> b * ceil_div a b"
    "b < 0 \<Longrightarrow> b * ceil_div a b \<le> a \<and> a < b * (ceil_div a b - 1)"
    using a r unfolding c by (auto simp: algebra_simps)
qed

lemma div_bounds:
  "b > 0 \<Longrightarrow> x \<le> floor_div a b \<longleftrightarrow> b * x \<le> a" "b < 0 \<Longrightarrow> x \<le> floor_div a b \<longleftrightarrow> a \<le> b * x"
  "b > 0 \<Longrightarrow> ceil_div a b \<le> x \<longleftrightarrow> a \<le> b * x" "b < 0 \<Longrightarrow> ceil_div a b \<le> x \<longleftrightarrow> b * x \<le> a"
proof -
  have mono: "b > 0 \<Longrightarrow> b * u \<le> b * v \<longleftrightarrow> u \<le> v" "b < 0 \<Longrightarrow> b * u \<le> b * v \<longleftrightarrow> v \<le> u" for u v :: int by simp_all
  show "b > 0 \<Longrightarrow> x \<le> floor_div a b \<longleftrightarrow> b * x \<le> a"
    using div_rounding(1) [of b a] mono(1) [of x "floor_div a b"] mono(1) [of "floor_div a b + 1" x] by linarith
  show "b < 0 \<Longrightarrow> x \<le> floor_div a b \<longleftrightarrow> a \<le> b * x"
    using div_rounding(2) [of b a] mono(2) [of "floor_div a b" x] mono(2) [of x "floor_div a b + 1"] by linarith
  show "b > 0 \<Longrightarrow> ceil_div a b \<le> x \<longleftrightarrow> a \<le> b * x"
    using div_rounding(3) [of b a] mono(1) [of "ceil_div a b" x] mono(1) [of x "ceil_div a b - 1"] by linarith
  show "b < 0 \<Longrightarrow> ceil_div a b \<le> x \<longleftrightarrow> b * x \<le> a"
    using div_rounding(4) [of b a] mono(2) [of x "ceil_div a b"] mono(2) [of "ceil_div a b - 1" x] by linarith
qed

lemma clamp_bounds:
  "in_i32 x \<Longrightarrow> x \<le> q \<Longrightarrow> x \<le> clamp_i32 q" "in_i32 x \<Longrightarrow> q \<le> x \<Longrightarrow> clamp_i32 q \<le> x"
  "in_i32 x \<Longrightarrow> x \<le> clamp_i32 q \<Longrightarrow> in_i32 y \<Longrightarrow> y \<le> q \<Longrightarrow> x \<le> q"
  "in_i32 x \<Longrightarrow> clamp_i32 q \<le> x \<Longrightarrow> in_i32 y \<Longrightarrow> q \<le> y \<Longrightarrow> q \<le> x"
  by (auto simp: clamp_i32_def in_i32_def)

section \<open>Activity\<close>

text \<open>The terms of a row: coefficient and variable, in the order of the two vectors.\<close>

type_synonym terms = "(int \<times> var_id) list"

definition row :: "terms \<Rightarrow> (var_id \<Rightarrow> int) \<Rightarrow> int" where
  "row ts a = (\<Sum>(c, v)\<leftarrow>ts. c * a v)"

definition term_range :: "store \<Rightarrow> int \<times> var_id \<Rightarrow> int \<times> int" where
  "term_range st t = (case t of (a, v) \<Rightarrow>
     let lo = st_min st v; hi = st_max st v
     in if a \<ge> 0 then (as_i64 (a * lo), as_i64 (a * hi)) else (as_i64 (a * hi), as_i64 (a * lo)))"

definition row_range :: "store \<Rightarrow> terms \<Rightarrow> int \<times> int" where
  "row_range st ts = fold (\<lambda>t (mn, mx). case term_range st t of (tmn, tmx) \<Rightarrow> (as_i64 (mn + tmn), as_i64 (mx + tmx))) ts (0, 0)"

text \<open>The exact activity over value sets.\<close>

definition tlow :: "(var_id \<Rightarrow> int set) \<Rightarrow> int \<times> var_id \<Rightarrow> int" where
  "tlow D t = (case t of (a, v) \<Rightarrow> a * (if a \<ge> 0 then Min (D v) else Max (D v)))"

definition thigh :: "(var_id \<Rightarrow> int set) \<Rightarrow> int \<times> var_id \<Rightarrow> int" where
  "thigh D t = (case t of (a, v) \<Rightarrow> a * (if a \<ge> 0 then Max (D v) else Min (D v)))"

definition low :: "(var_id \<Rightarrow> int set) \<Rightarrow> terms \<Rightarrow> int" where
  "low D ts = sum_list (map (tlow D) ts)"

definition high :: "(var_id \<Rightarrow> int set) \<Rightarrow> terms \<Rightarrow> int" where
  "high D ts = sum_list (map (thigh D) ts)"

text \<open>Coefficients small enough that no sum over \<open>i32\<close> values leaves \<open>i64\<close>.\<close>

definition weight :: "terms \<Rightarrow> int" where
  "weight ts = (\<Sum>(c, v)\<leftarrow>ts. \<bar>c\<bar>)"

definition fits :: "terms \<Rightarrow> int \<Rightarrow> bool" where
  "fits ts c \<longleftrightarrow> weight ts * 2147483648 + \<bar>c\<bar> < 2305843009213693952"

definition terms_in :: "nat \<Rightarrow> terms \<Rightarrow> bool" where
  "terms_in n ts \<longleftrightarrow> (\<forall>(c, v) \<in> set ts. v < n)"

lemma weight_simps [simp]: "weight [] = 0" "weight ((c, v) # ts) = \<bar>c\<bar> + weight ts"
  by (simp_all add: weight_def)

lemma row_simps [simp]: "row [] a = 0" "row ((c, v) # ts) a = c * a v + row ts a" "row (ts @ us) a = row ts a + row us a"
  by (simp_all add: row_def)

lemma low_simps [simp]: "low D [] = 0" "low D (t # ts) = tlow D t + low D ts" "low D (ts @ us) = low D ts + low D us"
  "high D [] = 0" "high D (t # ts) = thigh D t + high D ts" "high D (ts @ us) = high D ts + high D us"
  by (simp_all add: low_def high_def)

lemma weight_nonneg: "weight ts \<ge> 0"
  by (induction ts) auto

lemma weight_append [simp]: "weight (ts @ us) = weight ts + weight us"
  by (simp add: weight_def)

lemma abs_i32: "in_i32 x \<Longrightarrow> \<bar>c * x\<bar> \<le> \<bar>c\<bar> * 2147483648"
  unfolding abs_mult by (rule mult_left_mono) (auto simp: in_i32_def i32_min_def i32_max_def)

lemma term_bound:
  assumes "tame n D" "v < n"
  shows "\<bar>tlow D (c, v)\<bar> \<le> \<bar>c\<bar> * 2147483648" "\<bar>thigh D (c, v)\<bar> \<le> \<bar>c\<bar> * 2147483648"
    "x \<in> D v \<Longrightarrow> tlow D (c, v) \<le> c * x \<and> c * x \<le> thigh D (c, v)" "tlow D (c, v) \<le> thigh D (c, v)"
proof -
  note t = tameD [OF assms]
  show "\<bar>tlow D (c, v)\<bar> \<le> \<bar>c\<bar> * 2147483648" "\<bar>thigh D (c, v)\<bar> \<le> \<bar>c\<bar> * 2147483648"
    using abs_i32 [OF t(4), of c] abs_i32 [OF t(5), of c] by (cases "0 \<le> c"; simp add: tlow_def thigh_def)+
  have mm: "c * (if c \<ge> 0 then Min (D v) else Max (D v)) \<le> c * x" "c * x \<le> c * (if c \<ge> 0 then Max (D v) else Min (D v))"
    if "x \<in> D v" for x
    using that t(1) by (auto intro: mult_left_mono mult_left_mono_neg)
  then show "x \<in> D v \<Longrightarrow> tlow D (c, v) \<le> c * x \<and> c * x \<le> thigh D (c, v)" by (simp add: tlow_def thigh_def)
  show "tlow D (c, v) \<le> thigh D (c, v)" using mm [OF Min_in [OF t(1,2)]] by (simp add: tlow_def thigh_def)
qed

lemma low_bound:
  assumes "tame n D" "terms_in n ts"
  shows "\<bar>low D ts\<bar> \<le> weight ts * 2147483648" "\<bar>high D ts\<bar> \<le> weight ts * 2147483648" "low D ts \<le> high D ts"
    "\<forall>w < n. a w \<in> D w \<Longrightarrow> low D ts \<le> row ts a \<and> row ts a \<le> high D ts"
proof -
  have "\<bar>low D ts\<bar> \<le> weight ts * 2147483648 \<and> \<bar>high D ts\<bar> \<le> weight ts * 2147483648 \<and> low D ts \<le> high D ts \<and>
      ((\<forall>w < n. a w \<in> D w) \<longrightarrow> low D ts \<le> row ts a \<and> row ts a \<le> high D ts)" for a
    using assms(2)
  proof (induction ts)
    case (Cons t ts)
    obtain c v where t: "t = (c, v)" by fastforce
    have v: "v < n" "terms_in n ts" using Cons.prems by (simp_all add: terms_in_def t)
    show ?case using Cons.IH [OF v(2)] term_bound [OF assms(1) v(1), of c] term_bound(3) [OF assms(1) v(1), of "a v" c] v(1)
      by (auto simp: t algebra_simps)
  qed simp
  then show "\<bar>low D ts\<bar> \<le> weight ts * 2147483648" "\<bar>high D ts\<bar> \<le> weight ts * 2147483648" "low D ts \<le> high D ts"
    "\<forall>w < n. a w \<in> D w \<Longrightarrow> low D ts \<le> row ts a \<and> row ts a \<le> high D ts" by blast+
qed

text \<open>Under \<open>fits\<close> the wrapped activity is the exact one.\<close>

lemma small_in_i64: "\<bar>x\<bar> < 4611686018427387904 \<Longrightarrow> in_i64 x"
  unfolding in_i64_def i64_min_def i64_max_def by linarith

lemma fits_weight: "fits ts c \<Longrightarrow> weight ts * 2147483648 < 2305843009213693952"
  by (simp add: fits_def)

lemma term_range_exact:
  assumes st: "ready n st" "v < n" and c: "\<bar>c\<bar> * 2147483648 < 2305843009213693952"
  shows "term_range st (c, v) = (tlow (dv st) (c, v), thigh (dv st) (c, v))"
proof -
  note b = term_bound(1,2) [OF ready_tame [OF st(1)] st(2), of c]
  have "as_i64 (tlow (dv st) (c, v)) = tlow (dv st) (c, v)" "as_i64 (thigh (dv st) (c, v)) = thigh (dv st) (c, v)"
    using b c by (auto intro!: as_i64_id small_in_i64)
  then show ?thesis
    using ready_reads(3,4) [OF st] by (auto simp: term_range_def tlow_def thigh_def Let_def)
qed

lemma row_range_fold:
  assumes st: "ready n st" and ts: "terms_in n ts"
    and fit: "(\<bar>mn\<bar> + weight ts * 2147483648) < 4611686018427387904" "(\<bar>mx\<bar> + weight ts * 2147483648) < 4611686018427387904"
      "weight ts * 2147483648 < 2305843009213693952"
  shows "fold (\<lambda>t (mn, mx). case term_range st t of (tmn, tmx) \<Rightarrow> (as_i64 (mn + tmn), as_i64 (mx + tmx))) ts (mn, mx) =
    (mn + low (dv st) ts, mx + high (dv st) ts)"
  using ts fit
proof (induction ts arbitrary: mn mx)
  case (Cons t ts)
  obtain c v where t: "t = (c, v)" by fastforce
  let ?mn = "mn + tlow (dv st) (c, v)" and ?mx = "mx + thigh (dv st) (c, v)"
  have v: "v < n" "terms_in n ts" using Cons.prems(1) by (simp_all add: t terms_in_def)
  have w: "0 \<le> weight ts" by (rule weight_nonneg)
  note b = term_bound(1,2) [OF ready_tame [OF st] v(1), of c]
  have k: "(\<bar>c\<bar> + weight ts) * 2147483648 = \<bar>c\<bar> * 2147483648 + weight ts * 2147483648" by (simp add: algebra_simps)
  note P = Cons.prems(2-4) [unfolded t weight_simps k]
  have r: "term_range st t = (tlow (dv st) (c, v), thigh (dv st) (c, v))"
    unfolding t by (rule term_range_exact [OF st v(1)]) (use P w in linarith)
  have "\<bar>?mn\<bar> + weight ts * 2147483648 < 4611686018427387904" "\<bar>?mx\<bar> + weight ts * 2147483648 < 4611686018427387904"
    using P b by linarith+
  moreover have "as_i64 ?mn = ?mn" "as_i64 ?mx = ?mx"
    using P b w by (intro as_i64_id small_in_i64; linarith)+
  moreover have "weight ts * 2147483648 < 2305843009213693952" using P w by linarith
  ultimately have "fold (\<lambda>t (mn, mx). case term_range st t of (tmn, tmx) \<Rightarrow> (as_i64 (mn + tmn), as_i64 (mx + tmx))) ts (?mn, ?mx) =
      (?mn + low (dv st) ts, ?mx + high (dv st) ts)" "as_i64 ?mn = ?mn" "as_i64 ?mx = ?mx"
    using Cons.IH [OF v(2), of ?mn ?mx] by blast+
  then show ?case by (simp add: r [unfolded t] t add.assoc)
qed simp

lemma row_range_exact:
  assumes "ready n st" "terms_in n ts" "fits ts c"
  shows "row_range st ts = (low (dv st) ts, high (dv st) ts)"
  using row_range_fold [OF assms(1,2), of 0 0] fits_weight [OF assms(3)] by (simp add: row_range_def)

lemma fits_term: "fits ts c \<Longrightarrow> (k, v) \<in> set ts \<Longrightarrow> \<bar>k\<bar> * 2147483648 < 2305843009213693952"
proof -
  assume f: "fits ts c" and m: "(k, v) \<in> set ts"
  have "\<bar>k\<bar> \<le> weight ts" using m
    by (induction ts) (auto intro: order_trans [OF _ weight_nonneg] add_increasing add_increasing2 weight_nonneg)
  then show ?thesis using fits_weight [OF f] by linarith
qed

lemma term_range_fits:
  assumes "ready n st" "terms_in n ts" "fits ts c" "t \<in> set ts"
  shows "term_range st t = (tlow (dv st) t, thigh (dv st) t)"
proof -
  obtain k v where t: "t = (k, v)" by fastforce
  have "v < n" using assms(2,4) by (auto simp: t terms_in_def)
  then show ?thesis unfolding t using term_range_exact [OF assms(1)] fits_term [OF assms(3)] assms(4) by (simp add: t)
qed

text \<open>What one term leaves for the others: the row without the term at one position.\<close>

lemma split_at: "i < length ts \<Longrightarrow> ts = take i ts @ ts ! i # drop (Suc i) ts"
  by (simp add: id_take_nth_drop)

lemma rest_bound:
  assumes tm: "tame n D" and ts: "terms_in n ts" and i: "i < length ts" and a: "\<forall>w < n. a w \<in> D w"
  shows "low D ts - tlow D (ts ! i) \<le> row ts a - fst (ts ! i) * a (snd (ts ! i))"
    "row ts a - fst (ts ! i) * a (snd (ts ! i)) \<le> high D ts - thigh D (ts ! i)"
proof -
  have s: "ts = take i ts @ ts ! i # drop (Suc i) ts" using split_at [OF i] .
  have in1: "terms_in n (take i ts)" "terms_in n (drop (Suc i) ts)" using ts by (auto simp: terms_in_def dest: in_set_takeD in_set_dropD)
  have e: "low D ts = low D (take i ts) + tlow D (ts ! i) + low D (drop (Suc i) ts)"
    "high D ts = high D (take i ts) + thigh D (ts ! i) + high D (drop (Suc i) ts)"
    "row ts a = row (take i ts) a + fst (ts ! i) * a (snd (ts ! i)) + row (drop (Suc i) ts) a"
    using arg_cong [OF s, of "low D"] arg_cong [OF s, of "high D"] arg_cong [OF s, of "\<lambda>ts. row ts a"]
    by (simp_all add: row_def split_beta)
  show "low D ts - tlow D (ts ! i) \<le> row ts a - fst (ts ! i) * a (snd (ts ! i))"
    "row ts a - fst (ts ! i) * a (snd (ts ! i)) \<le> high D ts - thigh D (ts ! i)"
    using low_bound(4) [OF tm in1(1) a] low_bound(4) [OF tm in1(2) a] e by linarith+
qed

end
