(* ===== verification/BTree.thy ===== *)
theory BTree imports Prelude begin

text \<open>
  \<open>BTreeMap\<close> of the standard library, as far as the solver uses it: a finite map iterated in
  key order. A map is its list of entries, sorted by key with no key twice.
\<close>

section \<open>Operations\<close>

type_synonym ('k, 'v) btree = "('k \<times> 'v) list"

definition bt_get :: "('k, 'v) btree \<Rightarrow> 'k \<Rightarrow> 'v option" where
  "bt_get = map_of"

fun bt_insert :: "'k::linorder \<Rightarrow> 'v \<Rightarrow> ('k, 'v) btree \<Rightarrow> ('k, 'v) btree" where
  "bt_insert k v [] = [(k, v)]"
| "bt_insert k v ((k', v') # m) =
     (if k < k' then (k, v) # (k', v') # m
      else if k = k' then (k, v) # m else (k', v') # bt_insert k v m)"

fun bt_remove :: "'k::linorder \<Rightarrow> ('k, 'v) btree \<Rightarrow> ('k, 'v) btree" where
  "bt_remove k [] = []"
| "bt_remove k ((k', v') # m) = (if k = k' then m else (k', v') # bt_remove k m)"

definition bt_ok :: "('k::linorder, 'v) btree \<Rightarrow> bool" where
  "bt_ok m \<longleftrightarrow> sorted_wrt (<) (map fst m)"

section \<open>The map they implement\<close>

lemma bt_ok_simps [simp]:
  "bt_ok []" "bt_ok ((k, v) # m) \<longleftrightarrow> (\<forall>x \<in> fst ` set m. k < x) \<and> bt_ok m"
  by (auto simp: bt_ok_def)

lemma keys_insert: "fst ` set (bt_insert k v m) = insert k (fst ` set m)"
  by (induction k v m rule: bt_insert.induct) auto

lemma set_remove: "set (bt_remove k m) \<subseteq> set m"
  by (induction k m rule: bt_remove.induct) auto

lemma bt_ok_insert [simp]: "bt_ok m \<Longrightarrow> bt_ok (bt_insert k v m)"
  by (induction k v m rule: bt_insert.induct) (auto simp: keys_insert)

lemma bt_ok_remove [simp]: "bt_ok m \<Longrightarrow> bt_ok (bt_remove k m)"
  by (induction k m rule: bt_remove.induct) (auto dest!: set_remove [THEN subsetD])

lemma bt_get_absent: "bt_ok m \<Longrightarrow> \<forall>x \<in> fst ` set m. k < x \<Longrightarrow> map_of m k = None"
  by (auto simp: map_of_eq_None_iff)

lemma bt_get_insert [simp]: "bt_ok m \<Longrightarrow> bt_get (bt_insert k v m) j = (if j = k then Some v else bt_get m j)"
  by (induction k v m rule: bt_insert.induct) (auto simp: bt_get_def)

lemma bt_get_remove [simp]: "bt_ok m \<Longrightarrow> bt_get (bt_remove k m) j = (if j = k then None else bt_get m j)"
proof (induction k m rule: bt_remove.induct)
  case (2 k k' v m)
  have "bt_get m k' = None" if "bt_ok ((k', v) # m)"
    using that by (auto simp: bt_get_def map_of_eq_None_iff)
  then show ?case using 2 by (auto simp: bt_get_def)
qed (simp add: bt_get_def)

section \<open>Linear forms over a map\<close>

definition lin :: "('k \<Rightarrow> int) \<Rightarrow> ('k \<times> int) list \<Rightarrow> int" where
  "lin val m = sum_list (map (\<lambda>(k, c). c * val k) m)"

definition coeff :: "('k \<times> int) list \<Rightarrow> 'k \<Rightarrow> int" where
  "coeff m k = (case bt_get m k of None \<Rightarrow> 0 | Some c \<Rightarrow> c)"

lemma lin_simps [simp]: "lin val [] = 0" "lin val ((k, c) # m) = c * val k + lin val m"
  by (simp_all add: lin_def)

lemma coeff_Cons: "coeff ((k, c) # m) j = (if j = k then c else coeff m j)"
  by (simp add: coeff_def bt_get_def)

lemma coeff_absent: "\<forall>x \<in> fst ` set m. k < (x :: 'k::linorder) \<Longrightarrow> coeff m k = 0"
proof -
  assume "\<forall>x \<in> fst ` set m. k < x"
  then have "k \<notin> fst ` set m" by blast
  then show ?thesis by (simp add: coeff_def bt_get_def map_of_eq_None_iff [symmetric])
qed

lemma lin_insert: "bt_ok m \<Longrightarrow> lin val (bt_insert k c m) = lin val m + (c - coeff m k) * val k"
proof (induction k c m rule: bt_insert.induct)
  case (1 k v)
  then show ?case by (simp add: coeff_def bt_get_def)
next
  case (2 k v k' v' m)
  have "coeff m k = 0" if "k \<le> k'"
    using that "2.prems" by (intro coeff_absent) (auto intro: order.strict_trans1)
  then show ?case using 2 by (auto simp: coeff_Cons algebra_simps)
qed

lemma lin_remove: "bt_ok m \<Longrightarrow> lin val (bt_remove k m) = lin val m - coeff m k * val k"
proof (induction k m rule: bt_remove.induct)
  case (1 k)
  then show ?case by (simp add: coeff_def bt_get_def)
next
  case (2 k k' v' m)
  then show ?case by (auto simp: coeff_Cons)
qed

text \<open>The map iterated in key order, and the two vectors \<open>unzip\<close> makes of it.\<close>

lemma keys_sorted: "bt_ok m \<Longrightarrow> sorted (map fst m) \<and> distinct (map fst m)"
  by (simp add: bt_ok_def strict_sorted_iff)

lemma values_insert: "snd ` set (bt_insert k v m) \<subseteq> insert v (snd ` set m)"
  by (induction k v m rule: bt_insert.induct) auto

lemma lin_zip: "lin val m = sum_list (map (\<lambda>(c, k). c * val k) (zip (map snd m) (map fst m)))"
  by (induction m) auto

end
