(* ===== verification/Linear.thy ===== *)
theory Linear imports Rows begin

text \<open>
  The row propagators \<open>LinearLeq\<close> and \<open>LinearEq\<close> of \<open>src/src/constraints/linear.rs\<close>: passes
  over the terms until none tightens a bound, each pass with the activity read at its start.
  The scratch vectors \<open>term_min\<close> and \<open>term_max\<close> are the lists \<open>map (term_range st) ts\<close>.
\<close>

section \<open>Reasons\<close>

text \<open>The bounds of all terms but the skipped one (\<open>NO_SKIP\<close> is \<open>None\<close>).\<close>

definition min_side :: "terms \<Rightarrow> nat option \<Rightarrow> store \<Rightarrow> premise list" where
  "min_side ts skip st = map (\<lambda>(j, a, v). if a > 0 then PGe v (st_min st v) else PLe v (st_max st v))
     (filter (\<lambda>(j, a, v). Some j \<noteq> skip \<and> a \<noteq> 0) (enumerate 0 ts))"

definition max_side :: "terms \<Rightarrow> nat option \<Rightarrow> store \<Rightarrow> premise list" where
  "max_side ts skip st = map (\<lambda>(j, a, v). if a > 0 then PLe v (st_max st v) else PGe v (st_min st v))
     (filter (\<lambda>(j, a, v). Some j \<noteq> skip \<and> a \<noteq> 0) (enumerate 0 ts))"

section \<open>Tightening one bound\<close>

text \<open>\<open>if bound < before { remove_above_because(v, bound, why)?; changed = true }\<close> and its mirror.\<close>

definition tighten_above :: "var_id \<Rightarrow> int \<Rightarrow> int \<Rightarrow> (store \<Rightarrow> premise list) \<Rightarrow> bool \<Rightarrow> bool action" where
  "tighten_above v bound before why changed =
     (if bound < before then a_read (\<lambda>st. a_then (remove_above_because v bound (why st)) (a_ret True)) else a_ret changed)"

definition tighten_below :: "var_id \<Rightarrow> int \<Rightarrow> int \<Rightarrow> (store \<Rightarrow> premise list) \<Rightarrow> bool \<Rightarrow> bool action" where
  "tighten_below v bound before why changed =
     (if bound > before then a_read (\<lambda>st. a_then (remove_below_because v bound (why st)) (a_ret True)) else a_ret changed)"

text \<open>What such a step does to the value sets and the flag.\<close>

definition tightened :: "nat \<Rightarrow> (var_id \<Rightarrow> int set) \<Rightarrow> bool \<Rightarrow> bool \<Rightarrow> bool \<Rightarrow> (var_id \<Rightarrow> int set) \<Rightarrow> bool" where
  "tightened n E c done c' F \<longleftrightarrow> (if c' then (c \<and> F = E) \<or> shrunk n E F else \<not> c \<and> F = E \<and> done)"

lemma tighten_above_triple:
  assumes v: "v < n" and b: "in_i32 bound" and before: "before = Max (E v)" and tm: "tame n E"
    and sol: "allows_all n sol E v (\<lambda>y. y \<le> bound)"
  shows "triple n sol (\<lambda>F. F = E) (tighten_above v bound before why c)
    (\<lambda>c' F. tightened n E c (Max (E v) \<le> bound) c' F \<and> F = E(v := {y \<in> E v. y \<le> bound}) \<and> F v \<noteq> {})"
proof (cases "bound < before")
  case False
  have "{y \<in> E v. y \<le> bound} = E v" using False before tameD(1) [OF tm v] by (fastforce dest: Max_ge)
  then show ?thesis using False before tameD(2) [OF tm v] by (auto simp: tighten_above_def tightened_def intro!: triple_ret)
next
  case True
  have "triple n sol (\<lambda>F. F = E) (remove_above_because v bound w) (\<lambda>_ F. F = E(v := {y \<in> E v. y \<le> bound}) \<and> F v \<noteq> {})" for w
    by (rule triple_above_because [OF v b]) (use sol in auto)
  moreover have "Max (E v) \<in> E v" using tameD(1,2) [OF tm v] by simp
  then have "{y \<in> E v. y \<le> bound} \<noteq> E v" using True before by (metis (mono_tags, lifting) linorder_not_le mem_Collect_eq)
  then have "shrunk n E (E(v := {y \<in> E v. y \<le> bound}))" using v by (auto simp: shrunk_def)
  then have "triple n sol (\<lambda>F. F = E(v := {y \<in> E v. y \<le> bound}) \<and> F v \<noteq> {}) (a_ret True)
      (\<lambda>c' F. tightened n E c (Max (E v) \<le> bound) c' F \<and> F = E(v := {y \<in> E v. y \<le> bound}) \<and> F v \<noteq> {})"
    by (auto simp: tightened_def intro!: triple_ret)
  ultimately show ?thesis
    unfolding tighten_above_def if_P [OF True] by (intro triple_read_at triple_then)
qed

lemma tighten_below_triple:
  assumes v: "v < n" and b: "in_i32 bound" and before: "before = Min (E v)" and tm: "tame n E"
    and sol: "allows_all n sol E v (\<lambda>y. bound \<le> y)"
  shows "triple n sol (\<lambda>F. F = E) (tighten_below v bound before why c)
    (\<lambda>c' F. tightened n E c (bound \<le> Min (E v)) c' F \<and> F = E(v := {y \<in> E v. bound \<le> y}) \<and> F v \<noteq> {})"
proof (cases "bound > before")
  case False
  have "{y \<in> E v. bound \<le> y} = E v" using False before tameD(1) [OF tm v] by (fastforce dest: Min_le)
  then show ?thesis using False before tameD(2) [OF tm v] by (auto simp: tighten_below_def tightened_def intro!: triple_ret)
next
  case True
  have "triple n sol (\<lambda>F. F = E) (remove_below_because v bound w) (\<lambda>_ F. F = E(v := {y \<in> E v. bound \<le> y}) \<and> F v \<noteq> {})" for w
    by (rule triple_below_because [OF v b]) (use sol in auto)
  moreover have "Min (E v) \<in> E v" using tameD(1,2) [OF tm v] by simp
  then have "{y \<in> E v. bound \<le> y} \<noteq> E v" using True before by (metis (mono_tags, lifting) linorder_not_le mem_Collect_eq)
  then have "shrunk n E (E(v := {y \<in> E v. bound \<le> y}))" using v by (auto simp: shrunk_def)
  then have "triple n sol (\<lambda>F. F = E(v := {y \<in> E v. bound \<le> y}) \<and> F v \<noteq> {}) (a_ret True)
      (\<lambda>c' F. tightened n E c (bound \<le> Min (E v)) c' F \<and> F = E(v := {y \<in> E v. bound \<le> y}) \<and> F v \<noteq> {})"
    by (auto simp: tightened_def intro!: triple_ret)
  ultimately show ?thesis
    unfolding tighten_below_def if_P [OF True] by (intro triple_read_at triple_then)
qed

section \<open>At most\<close>

text \<open>\<open>sum(a * x) <= c\<close>.\<close>

fun lleq_step :: "terms \<Rightarrow> int \<Rightarrow> int \<Rightarrow> int list \<Rightarrow> nat \<times> int \<times> var_id \<Rightarrow> bool \<Rightarrow> bool action" where
  "lleq_step ts c sum_min term_min (i, a, v) changed =
     (if a = 0 then a_ret changed else
      let allowed = as_i64 (c - as_i64 (sum_min - term_min ! i))
      in a_read (\<lambda>st.
           if a > 0 then tighten_above v (clamp_i32 (floor_div allowed a)) (st_max st v) (min_side ts (Some i)) changed
           else tighten_below v (clamp_i32 (ceil_div allowed a)) (st_min st v) (min_side ts (Some i)) changed))"

definition lleq_body :: "terms \<Rightarrow> int \<Rightarrow> bool action" where
  "lleq_body ts c = a_read (\<lambda>st. case row_range st ts of (sum_min, sum_max) \<Rightarrow>
     if sum_min > c then failing (min_side ts None st)
     else if sum_max \<le> c then a_ret False
     else a_for (lleq_step ts c sum_min (map (\<lambda>t. fst (term_range st t)) ts)) (enumerate 0 ts) False)"

definition lleq_propagate :: "terms \<Rightarrow> int \<Rightarrow> store \<Rightarrow> unit outcome option" where
  "lleq_propagate ts c = a_loop (lleq_body ts c)"

definition lleq_sol :: "terms \<Rightarrow> int \<Rightarrow> (var_id \<Rightarrow> int) \<Rightarrow> bool" where
  "lleq_sol ts c a \<longleftrightarrow> row ts a \<le> c"

text \<open>Bounds consistency: every bound of every term has a partner in the least sum of the others.\<close>

definition lleq_fix :: "terms \<Rightarrow> int \<Rightarrow> (var_id \<Rightarrow> int set) \<Rightarrow> bool" where
  "lleq_fix ts c D \<longleftrightarrow> low D ts \<le> c \<and> (\<forall>t \<in> set ts. low D ts - tlow D t + thigh D t \<le> c)"

definition row_wf :: "nat \<Rightarrow> terms \<Rightarrow> int \<Rightarrow> bool" where
  "row_wf n ts c \<longleftrightarrow> terms_in n ts \<and> fits ts c"

lemma row_wf_term: "row_wf n ts c \<Longrightarrow> (a, v) \<in> set ts \<Longrightarrow> v < n"
  by (auto simp: row_wf_def terms_in_def)

text \<open>The room a term has, computed without wrapping.\<close>

lemma allowed_exact:
  assumes wf: "row_wf n ts c" and tm: "tame n D" and t: "t \<in> set ts"
  shows "as_i64 (c - as_i64 (low D ts - tlow D t)) = c - (low D ts - tlow D t)"
    "as_i64 (c - as_i64 (high D ts - thigh D t)) = c - (high D ts - thigh D t)"
proof -
  obtain a v where av: "t = (a, v)" by fastforce
  have f: "weight ts * 2147483648 + \<bar>c\<bar> < 2305843009213693952" using wf by (simp add: row_wf_def fits_def)
  have w: "0 \<le> weight ts" by (rule weight_nonneg)
  note lb = low_bound(1,2) [OF tm, of ts] and tb = term_bound(1,2) [OF tm row_wf_term [OF wf t [unfolded av]], of a]
  have "terms_in n ts" "\<bar>a\<bar> * 2147483648 < 2305843009213693952" using wf fits_term [of ts c a v] t by (simp_all add: row_wf_def av)
  then have "as_i64 (low D ts - tlow D t) = low D ts - tlow D t" "as_i64 (high D ts - thigh D t) = high D ts - thigh D t"
    "as_i64 (c - (low D ts - tlow D t)) = c - (low D ts - tlow D t)" "as_i64 (c - (high D ts - thigh D t)) = c - (high D ts - thigh D t)"
    using lb tb f w unfolding av by (intro as_i64_id small_in_i64; linarith)+
  then show "as_i64 (c - as_i64 (low D ts - tlow D t)) = c - (low D ts - tlow D t)"
    "as_i64 (c - as_i64 (high D ts - thigh D t)) = c - (high D ts - thigh D t)" by simp_all
qed

text \<open>The bound a term of an at-most row puts on its variable, and what it means to be within it.\<close>

lemma upper_bound_sound:
  assumes wf: "row_wf n ts c" and tm: "tame n D" and i: "i < length ts" "ts ! i = (a, v)" and a0: "a \<noteq> 0"
    and e: "\<forall>w < n. e w \<in> D w" and sol: "row ts e \<le> c"
  shows "a > 0 \<Longrightarrow> e v \<le> clamp_i32 (floor_div (c - (low D ts - tlow D (a, v))) a)"
    "a < 0 \<Longrightarrow> clamp_i32 (ceil_div (c - (low D ts - tlow D (a, v))) a) \<le> e v"
proof -
  have mem: "(a, v) \<in> set ts" using i by (metis nth_mem)
  have v: "v < n" using row_wf_term [OF wf mem] .
  have "low D ts - tlow D (a, v) \<le> row ts e - a * e v"
    using rest_bound(1) [OF tm _ i(1) e] wf i(2) by (simp add: row_wf_def)
  then have k: "a * e v \<le> c - (low D ts - tlow D (a, v))" using sol by linarith
  have e32: "in_i32 (e v)" using tameD(3) [OF tm v] e v by blast
  show "a > 0 \<Longrightarrow> e v \<le> clamp_i32 (floor_div (c - (low D ts - tlow D (a, v))) a)"
    using clamp_bounds(1) [OF e32] div_bounds(1) k by blast
  show "a < 0 \<Longrightarrow> clamp_i32 (ceil_div (c - (low D ts - tlow D (a, v))) a) \<le> e v"
    using clamp_bounds(2) [OF e32] div_bounds(4) k by blast
qed

lemma upper_bound_met:
  assumes tm: "tame n D" and v: "v < n" and low: "low D ts \<le> c"
  shows "a > 0 \<Longrightarrow> Max (D v) \<le> clamp_i32 (floor_div (c - (low D ts - tlow D (a, v))) a) \<Longrightarrow> low D ts - tlow D (a, v) + thigh D (a, v) \<le> c"
    "a < 0 \<Longrightarrow> clamp_i32 (ceil_div (c - (low D ts - tlow D (a, v))) a) \<le> Min (D v) \<Longrightarrow> low D ts - tlow D (a, v) + thigh D (a, v) \<le> c"
proof -
  note t = tameD [OF tm v]
  define r where "r = c - (low D ts - tlow D (a, v))"
  show "low D ts - tlow D (a, v) + thigh D (a, v) \<le> c" if "a > 0" "Max (D v) \<le> clamp_i32 (floor_div (c - (low D ts - tlow D (a, v))) a)"
  proof -
    have "Min (D v) \<le> floor_div r a" unfolding div_bounds(1) [OF that(1)] using low that(1) by (simp add: r_def tlow_def)
    then have "Max (D v) \<le> floor_div r a" using clamp_bounds(3) [OF t(5) _ t(4)] that(2) by (simp add: r_def)
    then show ?thesis unfolding div_bounds(1) [OF that(1)] using that(1) by (simp add: r_def thigh_def)
  qed
  show "low D ts - tlow D (a, v) + thigh D (a, v) \<le> c" if "a < 0" "clamp_i32 (ceil_div (c - (low D ts - tlow D (a, v))) a) \<le> Min (D v)"
  proof -
    have "ceil_div r a \<le> Max (D v)" unfolding div_bounds(4) [OF that(1)] using low that(1) by (simp add: r_def tlow_def)
    then have "ceil_div r a \<le> Min (D v)" using clamp_bounds(4) [OF t(4) _ t(5)] that(2) by (simp add: r_def)
    then show ?thesis unfolding div_bounds(4) [OF that(1)] using that(1) by (simp add: r_def thigh_def)
  qed
qed

lemma subset_in: "\<forall>w < n. E w \<subseteq> D w \<Longrightarrow> \<forall>w < n. a w \<in> E w \<Longrightarrow> \<forall>w < n. a w \<in> (D w :: int set)"
  by blast

lemma lleq_step_triple:
  assumes wf: "row_wf n ts c" and tm: "tame n D" and low: "low D ts \<le> c"
    and i: "i < length ts" and E: "\<not> ch \<longrightarrow> E = D" "\<forall>w < n. E w \<subseteq> D w"
  shows "triple n (lleq_sol ts c) (\<lambda>F. F = E) (lleq_step ts c (low D ts) (map (tlow D) ts) (i, ts ! i) ch)
    (\<lambda>ch' F. tightened n E ch (low D ts - tlow D (ts ! i) + thigh D (ts ! i) \<le> c) ch' F)"
proof -
  obtain a v where t: "ts ! i = (a, v)" by fastforce
  have mem: "(a, v) \<in> set ts" using i t by (metis nth_mem)
  have v: "v < n" using row_wf_term [OF wf mem] .
  have al: "as_i64 (c - as_i64 (low D ts - map (tlow D) ts ! i)) = c - (low D ts - tlow D (a, v))"
    using allowed_exact(1) [OF wf tm mem] i t by simp
  note sound = upper_bound_sound [OF wf tm i t] and met = upper_bound_met [OF tm v low]
  consider "a = 0" | "a > 0" | "a < 0" by linarith
  then show ?thesis
  proof cases
    case 1
    then show ?thesis using low E by (auto simp: t tightened_def tlow_def thigh_def intro!: triple_ret)
  next
    case 2
    show ?thesis
      unfolding t lleq_step.simps al Let_def if_not_P [OF less_imp_neq [OF 2, symmetric]] if_P [OF 2]
    proof (rule triple_read_at)
      fix st assume st: "ready n st" "dv st = E" and tmE: "tame n E"
      have mx: "st_max st v = Max (E v)" using ready_reads(4) [OF st(1) v] st(2) by simp
      have sol: "allows_all n (lleq_sol ts c) E v (\<lambda>y. y \<le> clamp_i32 (floor_div (c - (low D ts - tlow D (a, v))) a))"
        using sound(1) [OF _ subset_in [OF E(2)]] 2 by (simp add: allows_all_def lleq_sol_def)
      show "triple n (lleq_sol ts c) (\<lambda>F. F = E)
          (tighten_above v (clamp_i32 (floor_div (c - (low D ts - tlow D (a, v))) a)) (st_max st v) (min_side ts (Some i)) ch)
          (\<lambda>ch' F. tightened n E ch (low D ts - tlow D (a, v) + thigh D (a, v) \<le> c) ch' F)"
        by (rule triple_post [OF tighten_above_triple [OF v in_i32_clamp mx tmE sol]])
          (use met(1) [OF 2] E(1) in \<open>auto simp: tightened_def split: if_splits\<close>)
    qed
  next
    case 3
    then have np: "\<not> a > 0" and nz: "a \<noteq> 0" by simp_all
    show ?thesis
      unfolding t lleq_step.simps al Let_def if_not_P [OF nz] if_not_P [OF np]
    proof (rule triple_read_at)
      fix st assume st: "ready n st" "dv st = E" and tmE: "tame n E"
      have mn: "st_min st v = Min (E v)" using ready_reads(3) [OF st(1) v] st(2) by simp
      have sol: "allows_all n (lleq_sol ts c) E v (\<lambda>y. clamp_i32 (ceil_div (c - (low D ts - tlow D (a, v))) a) \<le> y)"
        using sound(2) [OF _ subset_in [OF E(2)]] 3 by (simp add: allows_all_def lleq_sol_def)
      show "triple n (lleq_sol ts c) (\<lambda>F. F = E)
          (tighten_below v (clamp_i32 (ceil_div (c - (low D ts - tlow D (a, v))) a)) (st_min st v) (min_side ts (Some i)) ch)
          (\<lambda>ch' F. tightened n E ch (low D ts - tlow D (a, v) + thigh D (a, v) \<le> c) ch' F)"
        by (rule triple_post [OF tighten_below_triple [OF v in_i32_clamp mn tmE sol]])
          (use met(2) [OF 3] E(1) in \<open>auto simp: tightened_def split: if_splits\<close>)
    qed
  qed
qed

lemma entailed_fix: "tame n D \<Longrightarrow> row_wf n ts c \<Longrightarrow> high D ts \<le> c \<Longrightarrow> t \<in> set ts \<Longrightarrow> low D ts - tlow D t + thigh D t \<le> c"
proof -
  assume tm: "tame n D" and wf: "row_wf n ts c" and h: "high D ts \<le> c" and t: "t \<in> set ts"
  obtain us vs where s: "ts = us @ t # vs" using t by (meson split_list)
  have "low D us \<le> high D us" "low D vs \<le> high D vs" using low_bound(3) [OF tm] wf by (auto simp: s row_wf_def terms_in_def)
  then show ?thesis using h by (simp add: s)
qed

lemma ball_enumerate: "(\<forall>x \<in> set (enumerate 0 ts). P (snd x)) \<longleftrightarrow> (\<forall>t \<in> set ts. P t)"
proof -
  have "set ts = snd ` set (enumerate 0 ts)" unfolding set_map [symmetric] by simp
  then show ?thesis by simp
qed

lemma lleq_body_triple:
  assumes wf: "row_wf n ts c" and tm: "tame n D"
  shows "triple n (lleq_sol ts c) (\<lambda>F. F = D) (lleq_body ts c)
    (\<lambda>ch F. if ch then True \<and> total_size n F < total_size n D else lleq_fix ts c F)"
  unfolding lleq_body_def
proof (rule triple_read_at)
  fix st assume st: "ready n st" "dv st = D"
  have w: "terms_in n ts" "fits ts c" using wf by (simp_all add: row_wf_def)
  have rr: "row_range st ts = (low D ts, high D ts)" using row_range_exact [OF st(1) w] st(2) by simp
  have tr: "map (\<lambda>t. fst (term_range st t)) ts = map (tlow D) ts" using term_range_fits [OF st(1) w] st(2) by simp
  let ?Q = "\<lambda>ch F. if ch then True \<and> total_size n F < total_size n D else lleq_fix ts c F"
  show "triple n (lleq_sol ts c) (\<lambda>F. F = D) (case row_range st ts of (sum_min, sum_max) \<Rightarrow>
     if sum_min > c then failing (min_side ts None st) else if sum_max \<le> c then a_ret False
     else a_for (lleq_step ts c sum_min (map (\<lambda>t. fst (term_range st t)) ts)) (enumerate 0 ts) False) ?Q"
    unfolding rr prod.case tr
  proof (intro triple_case)
    assume "low D ts > c"
    then show "triple n (lleq_sol ts c) (\<lambda>F. F = D) (failing (min_side ts None st)) ?Q"
      using low_bound(4) [OF tm w(1)] by (intro triple_failing) (fastforce simp: lleq_sol_def)
  next
    assume "\<not> low D ts > c" "high D ts \<le> c"
    then show "triple n (lleq_sol ts c) (\<lambda>F. F = D) (a_ret False) ?Q"
      using entailed_fix [OF tm wf] by (intro triple_ret) (simp add: lleq_fix_def)
  next
    assume "\<not> low D ts > c"
    then have low: "low D ts \<le> c" by simp
    have "triple n (lleq_sol ts c) (\<lambda>F. F = D) (a_for (lleq_step ts c (low D ts) (map (tlow D) ts)) (enumerate 0 ts) False)
        (\<lambda>ch F. if ch then shrunk n D F else F = D \<and> (\<forall>x \<in> set (enumerate 0 ts). low D ts - tlow D (snd x) + thigh D (snd x) \<le> c))"
    proof (rule triple_pass)
      fix x ch E assume x: "x \<in> set (enumerate 0 ts)" and E: "\<not> ch \<longrightarrow> E = D" "\<forall>w < n. E w \<subseteq> D w"
      obtain i where i: "i < length ts" "x = (i, ts ! i)" using x by (auto simp: in_set_enumerate_eq)
      show "triple n (lleq_sol ts c) (\<lambda>F. F = E) (lleq_step ts c (low D ts) (map (tlow D) ts) x ch)
          (\<lambda>ch' F. if ch' then (ch \<and> F = E) \<or> shrunk n E F else \<not> ch \<and> F = E \<and> low D ts - tlow D (snd x) + thigh D (snd x) \<le> c)"
        using lleq_step_triple [OF wf tm low i(1) E] unfolding i(2) snd_conv tightened_def .
    qed
    then show "triple n (lleq_sol ts c) (\<lambda>F. F = D) (a_for (lleq_step ts c (low D ts) (map (tlow D) ts)) (enumerate 0 ts) False) ?Q"
      by (rule triple_post) (use shrunk_size [OF tm] low in \<open>auto simp: lleq_fix_def ball_enumerate [where P = "\<lambda>t. low D ts - tlow D t + thigh D t \<le> c"] split: if_splits\<close>)
  qed
qed

lemma lleq_run:
  assumes "row_wf n ts c" "ready n st"
  shows "\<exists>out. lleq_propagate ts c st = Some out \<and> sound (lleq_sol ts c) st out \<and> (snd out = Ok () \<longrightarrow> lleq_fix ts c (dv (fst out)))"
  unfolding lleq_propagate_def
  by (rule loop_rule [where P = "\<lambda>_. True"]) (use assms lleq_body_triple in auto)

section \<open>Equality\<close>

text \<open>\<open>sum(a * x) = c\<close>, on both sides.\<close>

fun leq_eq_step :: "terms \<Rightarrow> int \<Rightarrow> int \<Rightarrow> int \<Rightarrow> int list \<Rightarrow> int list \<Rightarrow> nat \<times> int \<times> var_id \<Rightarrow> bool \<Rightarrow> bool action" where
  "leq_eq_step ts c sum_min sum_max term_min term_max (i, a, v) changed =
     (if a = 0 then a_ret changed else
      let tlo = as_i64 (c - as_i64 (sum_max - term_max ! i)); thi = as_i64 (c - as_i64 (sum_min - term_min ! i));
          (lo, hi) = (if a > 0 then (ceil_div tlo a, floor_div thi a) else (ceil_div thi a, floor_div tlo a))
      in a_read (\<lambda>st. let before_min = st_min st v; before_max = st_max st v in
           a_bind (tighten_below v (clamp_i32 lo) before_min (if a > 0 then max_side ts (Some i) else min_side ts (Some i)) changed)
             (tighten_above v (clamp_i32 hi) before_max (if a > 0 then min_side ts (Some i) else max_side ts (Some i)))))"

definition leq_eq_body :: "terms \<Rightarrow> int \<Rightarrow> bool action" where
  "leq_eq_body ts c = a_read (\<lambda>st. case row_range st ts of (sum_min, sum_max) \<Rightarrow>
     if sum_min > c then failing (min_side ts None st)
     else if sum_max < c then failing (max_side ts None st)
     else a_for (leq_eq_step ts c sum_min sum_max (map (\<lambda>t. fst (term_range st t)) ts) (map (\<lambda>t. snd (term_range st t)) ts))
            (enumerate 0 ts) False)"

definition leq_eq_propagate :: "terms \<Rightarrow> int \<Rightarrow> store \<Rightarrow> unit outcome option" where
  "leq_eq_propagate ts c = a_loop (leq_eq_body ts c)"

definition leq_eq_sol :: "terms \<Rightarrow> int \<Rightarrow> (var_id \<Rightarrow> int) \<Rightarrow> bool" where
  "leq_eq_sol ts c a \<longleftrightarrow> row ts a = c"

definition leq_eq_fix :: "terms \<Rightarrow> int \<Rightarrow> (var_id \<Rightarrow> int set) \<Rightarrow> bool" where
  "leq_eq_fix ts c D \<longleftrightarrow> low D ts \<le> c \<and> c \<le> high D ts \<and>
     (\<forall>t \<in> set ts. low D ts - tlow D t + thigh D t \<le> c \<and> c \<le> high D ts - thigh D t + tlow D t)"

lemma lower_bound_sound:
  assumes wf: "row_wf n ts c" and tm: "tame n D" and i: "i < length ts" "ts ! i = (a, v)" and a0: "a \<noteq> 0"
    and e: "\<forall>w < n. e w \<in> D w" and sol: "c \<le> row ts e"
  shows "a > 0 \<Longrightarrow> clamp_i32 (ceil_div (c - (high D ts - thigh D (a, v))) a) \<le> e v"
    "a < 0 \<Longrightarrow> e v \<le> clamp_i32 (floor_div (c - (high D ts - thigh D (a, v))) a)"
proof -
  have mem: "(a, v) \<in> set ts" using i by (metis nth_mem)
  have v: "v < n" using row_wf_term [OF wf mem] .
  have "row ts e - a * e v \<le> high D ts - thigh D (a, v)"
    using rest_bound(2) [OF tm _ i(1) e] wf i(2) by (simp add: row_wf_def)
  then have k: "c - (high D ts - thigh D (a, v)) \<le> a * e v" using sol by linarith
  have e32: "in_i32 (e v)" using tameD(3) [OF tm v] e v by blast
  show "a > 0 \<Longrightarrow> clamp_i32 (ceil_div (c - (high D ts - thigh D (a, v))) a) \<le> e v"
    using clamp_bounds(2) [OF e32] div_bounds(3) k by blast
  show "a < 0 \<Longrightarrow> e v \<le> clamp_i32 (floor_div (c - (high D ts - thigh D (a, v))) a)"
    using clamp_bounds(1) [OF e32] div_bounds(2) k by blast
qed

lemma lower_bound_met:
  assumes tm: "tame n D" and v: "v < n" and high: "c \<le> high D ts"
  shows "a > 0 \<Longrightarrow> clamp_i32 (ceil_div (c - (high D ts - thigh D (a, v))) a) \<le> Min (D v) \<Longrightarrow> c \<le> high D ts - thigh D (a, v) + tlow D (a, v)"
    "a < 0 \<Longrightarrow> Max (D v) \<le> clamp_i32 (floor_div (c - (high D ts - thigh D (a, v))) a) \<Longrightarrow> c \<le> high D ts - thigh D (a, v) + tlow D (a, v)"
proof -
  note t = tameD [OF tm v]
  define r where "r = c - (high D ts - thigh D (a, v))"
  show "c \<le> high D ts - thigh D (a, v) + tlow D (a, v)" if "a > 0" "clamp_i32 (ceil_div (c - (high D ts - thigh D (a, v))) a) \<le> Min (D v)"
  proof -
    have "ceil_div r a \<le> Max (D v)" unfolding div_bounds(3) [OF that(1)] using high that(1) by (simp add: r_def thigh_def)
    then have "ceil_div r a \<le> Min (D v)" using clamp_bounds(4) [OF t(4) _ t(5)] that(2) by (simp add: r_def)
    then show ?thesis unfolding div_bounds(3) [OF that(1)] using that(1) by (simp add: r_def tlow_def)
  qed
  show "c \<le> high D ts - thigh D (a, v) + tlow D (a, v)" if "a < 0" "Max (D v) \<le> clamp_i32 (floor_div (c - (high D ts - thigh D (a, v))) a)"
  proof -
    have "Min (D v) \<le> floor_div r a" unfolding div_bounds(2) [OF that(1)] using high that(1) by (simp add: r_def thigh_def)
    then have "Max (D v) \<le> floor_div r a" using clamp_bounds(3) [OF t(5) _ t(4)] that(2) by (simp add: r_def)
    then show ?thesis unfolding div_bounds(2) [OF that(1)] using that(1) by (simp add: r_def tlow_def)
  qed
qed

text \<open>Both bounds of one variable.\<close>

lemma tighten_both_triple:
  assumes v: "v < n" and tm: "tame n E" and lo: "in_i32 lo" and hi: "in_i32 hi"
    and sol: "\<And>e. (\<forall>w < n. e w \<in> E w) \<Longrightarrow> sol e \<Longrightarrow> lo \<le> e v \<and> e v \<le> hi"
  shows "triple n sol (\<lambda>F. F = E) (a_bind (tighten_below v lo (Min (E v)) why c) (tighten_above v hi (Max (E v)) why'))
    (\<lambda>c' F. tightened n E c (lo \<le> Min (E v) \<and> Max (E v) \<le> hi) c' F)"
proof (rule triple_bind)
  show "triple n sol (\<lambda>F. F = E) (tighten_below v lo (Min (E v)) why c)
      (\<lambda>c' F. tightened n E c (lo \<le> Min (E v)) c' F \<and> F = E(v := {y \<in> E v. lo \<le> y}) \<and> F v \<noteq> {})"
    by (rule tighten_below_triple [OF v lo refl tm]) (use sol in \<open>auto simp: allows_all_def\<close>)
next
  fix c1
  let ?E1 = "E(v := {y \<in> E v. lo \<le> y})"
  show "triple n sol (\<lambda>F. tightened n E c (lo \<le> Min (E v)) c1 F \<and> F = ?E1 \<and> F v \<noteq> {}) (tighten_above v hi (Max (E v)) why' c1)
      (\<lambda>c' F. tightened n E c (lo \<le> Min (E v) \<and> Max (E v) \<le> hi) c' F)"
  proof (rule triple_tame_pre, rule triple_at)
    fix E1 assume E1: "tame n E1 \<and> tightened n E c (lo \<le> Min (E v)) c1 E1 \<and> E1 = ?E1 \<and> E1 v \<noteq> {}"
    then have e1: "E1 v = {y \<in> E v. lo \<le> y}" by (metis fun_upd_same)
    then have mx: "Max (E v) = Max (E1 v)" using Max_keep_above [OF tameD(1) [OF tm v], of lo] E1 by metis
    have T: "tightened n E c (lo \<le> Min (E v)) c1 E1" using E1 by blast
    have sub: "\<forall>w < n. E1 w \<subseteq> E w" using E1 by auto
    have sol1: "allows_all n sol E1 v (\<lambda>y. y \<le> hi)" using sol subset_in [OF sub] by (simp add: allows_all_def)
    show "triple n sol (\<lambda>F. F = E1) (tighten_above v hi (Max (E v)) why' c1)
        (\<lambda>c' F. tightened n E c (lo \<le> Min (E v) \<and> Max (E v) \<le> hi) c' F)"
    proof (rule triple_post [OF tighten_above_triple [OF v hi mx _ sol1]])
      fix c' F assume "tightened n E1 c1 (Max (E1 v) \<le> hi) c' F \<and> F = E1(v := {y \<in> E1 v. y \<le> hi}) \<and> F v \<noteq> {}"
      then have "tightened n E1 c1 (Max (E1 v) \<le> hi) c' F" by blast
      then show "tightened n E c (lo \<le> Min (E v) \<and> Max (E v) \<le> hi) c' F"
        using T mx shrunk_trans [of n E E1 F] unfolding tightened_def by (metis (full_types))
    qed (use E1 in blast)
  qed
qed

lemma leq_eq_step_triple:
  assumes wf: "row_wf n ts c" and tm: "tame n D" and c: "low D ts \<le> c" "c \<le> high D ts"
    and i: "i < length ts" and E: "\<not> ch \<longrightarrow> E = D" "\<forall>w < n. E w \<subseteq> D w"
  shows "triple n (leq_eq_sol ts c) (\<lambda>F. F = E) (leq_eq_step ts c (low D ts) (high D ts) (map (tlow D) ts) (map (thigh D) ts) (i, ts ! i) ch)
    (\<lambda>ch' F. tightened n E ch (low D ts - tlow D (ts ! i) + thigh D (ts ! i) \<le> c \<and> c \<le> high D ts - thigh D (ts ! i) + tlow D (ts ! i)) ch' F)"
proof -
  obtain a v where t: "ts ! i = (a, v)" by fastforce
  have mem: "(a, v) \<in> set ts" using i t by (metis nth_mem)
  have v: "v < n" using row_wf_term [OF wf mem] .
  have al: "as_i64 (c - as_i64 (low D ts - map (tlow D) ts ! i)) = c - (low D ts - tlow D (a, v))"
    "as_i64 (c - as_i64 (high D ts - map (thigh D) ts ! i)) = c - (high D ts - thigh D (a, v))"
    using allowed_exact [OF wf tm mem] i t by simp_all
  note s1 = upper_bound_sound [OF wf tm i t] and s2 = lower_bound_sound [OF wf tm i t]
  note m1 = upper_bound_met [OF tm v c(1)] and m2 = lower_bound_met [OF tm v c(2)]
  let ?thi = "c - (low D ts - tlow D (a, v))" and ?tlo = "c - (high D ts - thigh D (a, v))"
  define lo where "lo = clamp_i32 (if a > 0 then ceil_div ?tlo a else ceil_div ?thi a)"
  define hi where "hi = clamp_i32 (if a > 0 then floor_div ?thi a else floor_div ?tlo a)"
  let ?W = "\<lambda>b. if b then max_side ts (Some i) else min_side ts (Some i)"
  show ?thesis
  proof (cases "a = 0")
    case True
    then show ?thesis using c E by (auto simp: t tightened_def tlow_def thigh_def intro!: triple_ret)
  next
    case False
    have step: "leq_eq_step ts c (low D ts) (high D ts) (map (tlow D) ts) (map (thigh D) ts) (i, a, v) ch = a_read (\<lambda>st.
        a_bind (tighten_below v lo (st_min st v) (?W (a > 0)) ch) (tighten_above v hi (st_max st v) (?W (\<not> a > 0))))"
      using False by (auto simp: al Let_def lo_def hi_def)
    show ?thesis
      unfolding t step
    proof (rule triple_read_at)
      fix st assume st: "ready n st" "dv st = E" and tmE: "tame n E"
      have m: "st_min st v = Min (E v)" "st_max st v = Max (E v)" using ready_reads(3,4) [OF st(1) v] st(2) by simp_all
      have sol: "lo \<le> e v \<and> e v \<le> hi" if "\<forall>w < n. e w \<in> E w" "leq_eq_sol ts c e" for e
        using s1 [OF False subset_in [OF E(2) that(1)]] s2 [OF False subset_in [OF E(2) that(1)]] that(2) False
        by (cases "a > 0") (auto simp: leq_eq_sol_def lo_def hi_def)
      have i32: "in_i32 lo" "in_i32 hi" by (simp_all add: lo_def hi_def)
      have met: "low D ts - tlow D (a, v) + thigh D (a, v) \<le> c \<and> c \<le> high D ts - thigh D (a, v) + tlow D (a, v)"
        if "lo \<le> Min (D v)" "Max (D v) \<le> hi"
        using m1 m2 that False by (cases "a > 0") (auto simp: lo_def hi_def)
      show "triple n (leq_eq_sol ts c) (\<lambda>F. F = E)
          (a_bind (tighten_below v lo (st_min st v) (?W (a > 0)) ch) (tighten_above v hi (st_max st v) (?W (\<not> a > 0))))
          (\<lambda>ch' F. tightened n E ch (low D ts - tlow D (a, v) + thigh D (a, v) \<le> c \<and> c \<le> high D ts - thigh D (a, v) + tlow D (a, v)) ch' F)"
        unfolding m
      proof (rule triple_post)
        show "triple n (leq_eq_sol ts c) (\<lambda>F. F = E)
            (a_bind (tighten_below v lo (Min (E v)) (?W (a > 0)) ch) (tighten_above v hi (Max (E v)) (?W (\<not> a > 0))))
            (\<lambda>ch' F. tightened n E ch (lo \<le> Min (E v) \<and> Max (E v) \<le> hi) ch' F)"
          by (rule tighten_both_triple [OF v tmE i32]) (rule sol)
      qed (use met E(1) in \<open>auto simp: tightened_def split: if_splits\<close>)
    qed
  qed
qed

lemma leq_eq_body_triple:
  assumes wf: "row_wf n ts c" and tm: "tame n D"
  shows "triple n (leq_eq_sol ts c) (\<lambda>F. F = D) (leq_eq_body ts c)
    (\<lambda>ch F. if ch then True \<and> total_size n F < total_size n D else leq_eq_fix ts c F)"
  unfolding leq_eq_body_def
proof (rule triple_read_at)
  fix st assume st: "ready n st" "dv st = D"
  have w: "terms_in n ts" "fits ts c" using wf by (simp_all add: row_wf_def)
  have rr: "row_range st ts = (low D ts, high D ts)" using row_range_exact [OF st(1) w] st(2) by simp
  have tr: "map (\<lambda>t. fst (term_range st t)) ts = map (tlow D) ts" "map (\<lambda>t. snd (term_range st t)) ts = map (thigh D) ts"
    using term_range_fits [OF st(1) w] st(2) by simp_all
  let ?Q = "\<lambda>ch F. if ch then True \<and> total_size n F < total_size n D else leq_eq_fix ts c F"
  let ?P = "\<lambda>t. low D ts - tlow D t + thigh D t \<le> c \<and> c \<le> high D ts - thigh D t + tlow D t"
  show "triple n (leq_eq_sol ts c) (\<lambda>F. F = D) (case row_range st ts of (sum_min, sum_max) \<Rightarrow>
     if sum_min > c then failing (min_side ts None st) else if sum_max < c then failing (max_side ts None st)
     else a_for (leq_eq_step ts c sum_min sum_max (map (\<lambda>t. fst (term_range st t)) ts) (map (\<lambda>t. snd (term_range st t)) ts)) (enumerate 0 ts) False) ?Q"
    unfolding rr prod.case tr
  proof (intro triple_case)
    assume "low D ts > c"
    then show "triple n (leq_eq_sol ts c) (\<lambda>F. F = D) (failing (min_side ts None st)) ?Q"
      using low_bound(4) [OF tm w(1)] by (intro triple_failing) (fastforce simp: leq_eq_sol_def)
  next
    assume "high D ts < c"
    then show "triple n (leq_eq_sol ts c) (\<lambda>F. F = D) (failing (max_side ts None st)) ?Q"
      using low_bound(4) [OF tm w(1)] by (intro triple_failing) (fastforce simp: leq_eq_sol_def)
  next
    assume "\<not> low D ts > c" "\<not> high D ts < c"
    then have c: "low D ts \<le> c" "c \<le> high D ts" by simp_all
    have "triple n (leq_eq_sol ts c) (\<lambda>F. F = D) (a_for (leq_eq_step ts c (low D ts) (high D ts) (map (tlow D) ts) (map (thigh D) ts)) (enumerate 0 ts) False)
        (\<lambda>ch F. if ch then shrunk n D F else F = D \<and> (\<forall>x \<in> set (enumerate 0 ts). ?P (snd x)))"
    proof (rule triple_pass)
      fix x ch E assume x: "x \<in> set (enumerate 0 ts)" and E: "\<not> ch \<longrightarrow> E = D" "\<forall>w < n. E w \<subseteq> D w"
      obtain i where i: "i < length ts" "x = (i, ts ! i)" using x by (auto simp: in_set_enumerate_eq)
      show "triple n (leq_eq_sol ts c) (\<lambda>F. F = E) (leq_eq_step ts c (low D ts) (high D ts) (map (tlow D) ts) (map (thigh D) ts) x ch)
          (\<lambda>ch' F. if ch' then (ch \<and> F = E) \<or> shrunk n E F else \<not> ch \<and> F = E \<and> ?P (snd x))"
        using leq_eq_step_triple [OF wf tm c i(1) E] unfolding i(2) snd_conv tightened_def .
    qed
    then show "triple n (leq_eq_sol ts c) (\<lambda>F. F = D)
        (a_for (leq_eq_step ts c (low D ts) (high D ts) (map (tlow D) ts) (map (thigh D) ts)) (enumerate 0 ts) False) ?Q"
      by (rule triple_post) (use shrunk_size [OF tm] c in \<open>auto simp: leq_eq_fix_def ball_enumerate [where P = ?P] split: if_splits\<close>)
  qed
qed

lemma leq_eq_run:
  assumes "row_wf n ts c" "ready n st"
  shows "\<exists>out. leq_eq_propagate ts c st = Some out \<and> sound (leq_eq_sol ts c) st out \<and> (snd out = Ok () \<longrightarrow> leq_eq_fix ts c (dv (fst out)))"
  unfolding leq_eq_propagate_def
  by (rule loop_rule [where P = "\<lambda>_. True"]) (use assms leq_eq_body_triple in auto)

end
