(* ===== verification/LinearNeq.thy ===== *)
theory LinearNeq imports Linear begin

text \<open>
  The disequality row \<open>LinearNeq\<close> of \<open>src/src/constraints/linear.rs\<close>: it acts once at most
  one term is free.
\<close>

section \<open>Propagation\<close>

definition lneq_scan :: "terms \<Rightarrow> store \<Rightarrow> int \<times> nat option \<times> nat" where
  "lneq_scan ts st = fold (\<lambda>(i, a, v) (fixed_sum, free, free_count). case st_value st v of
       Some x \<Rightarrow> (as_i64 (fixed_sum + as_i64 (a * x)), free, free_count)
     | None \<Rightarrow> (fixed_sum, Some i, Suc free_count)) (enumerate 0 ts) (0, None, 0)"

definition lneq_propagate :: "terms \<Rightarrow> int \<Rightarrow> unit action" where
  "lneq_propagate ts c = a_read (\<lambda>st. case lneq_scan ts st of (fixed_sum, free, free_count) \<Rightarrow>
     if free_count = 0 then (if fixed_sum = c then a_fail else a_ret ())
     else if free_count = 1 then
       (case free of None \<Rightarrow> a_ret () | Some i \<Rightarrow> case ts ! i of (a, v) \<Rightarrow>
          if a \<noteq> 0 then
            let rem = as_i64 (c - fixed_sum)
            in if rust_rem rem a = 0 then
                 let forbidden = rust_div rem a
                 in if i32_min \<le> forbidden \<and> forbidden \<le> i32_max then st_remove v (as_i32 forbidden) else a_ret ()
               else a_ret ()
          else a_ret ())
     else a_ret ())"

definition lneq_sol :: "terms \<Rightarrow> int \<Rightarrow> (var_id \<Rightarrow> int) \<Rightarrow> bool" where
  "lneq_sol ts c a \<longleftrightarrow> row ts a \<noteq> c"

text \<open>The terms still free, and the sum of the fixed ones.\<close>

definition is_fixed_in :: "(var_id \<Rightarrow> int set) \<Rightarrow> var_id \<Rightarrow> bool" where
  "is_fixed_in D v \<longleftrightarrow> D v = {Min (D v)}"

definition free_terms :: "(var_id \<Rightarrow> int set) \<Rightarrow> nat \<Rightarrow> terms \<Rightarrow> (nat \<times> int \<times> var_id) list" where
  "free_terms D k ts = filter (\<lambda>(i, a, v). \<not> is_fixed_in D v) (enumerate k ts)"

definition fixed_part :: "(var_id \<Rightarrow> int set) \<Rightarrow> terms \<Rightarrow> int" where
  "fixed_part D ts = row (filter (\<lambda>(a, v). is_fixed_in D v) ts) (\<lambda>v. Min (D v))"

definition lneq_fix :: "terms \<Rightarrow> int \<Rightarrow> (var_id \<Rightarrow> int set) \<Rightarrow> bool" where
  "lneq_fix ts c D \<longleftrightarrow> (free_terms D 0 ts = [] \<longrightarrow> fixed_part D ts \<noteq> c) \<and>
     (\<forall>i a v. free_terms D 0 ts = [(i, a, v)] \<and> a \<noteq> 0 \<longrightarrow> (\<forall>x \<in> D v. a * x \<noteq> c - fixed_part D ts))"

section \<open>Correctness\<close>

lemma fixed_in_iff: "is_fixed_in D v \<longleftrightarrow> (\<exists>x. D v = {x})"
  unfolding is_fixed_in_def by (metis Min_singleton)

lemma free_simps [simp]:
  "free_terms D k [] = []" "free_terms D k ((a, v) # ts) = (if is_fixed_in D v then free_terms D (Suc k) ts else (k, a, v) # free_terms D (Suc k) ts)"
  "fixed_part D [] = 0" "fixed_part D ((a, v) # ts) = (if is_fixed_in D v then a * Min (D v) + fixed_part D ts else fixed_part D ts)"
  by (simp_all add: free_terms_def fixed_part_def)

text \<open>The row is the fixed sum and what the free terms add.\<close>

lemma row_split:
  "(\<And>a v. (a, v) \<in> set ts \<Longrightarrow> is_fixed_in D v \<Longrightarrow> e v = Min (D v)) \<Longrightarrow>
     row ts e = fixed_part D ts + row (map snd (free_terms D k ts)) e"
proof (induction ts arbitrary: k)
  case (Cons t ts)
  obtain a v where t: "t = (a, v)" by fastforce
  have "row ts e = fixed_part D ts + row (map snd (free_terms D (Suc k) ts)) e" by (rule Cons.IH) (use Cons.prems in auto)
  moreover have "is_fixed_in D v \<Longrightarrow> e v = Min (D v)" using Cons.prems [of a v] by (simp add: t)
  ultimately show ?case by (simp add: t)
qed simp

lemma within_fixes: "\<forall>w < n. e w \<in> D w \<Longrightarrow> v < n \<Longrightarrow> is_fixed_in D v \<Longrightarrow> e v = Min (D v)"
  by (metis is_fixed_in_def singletonD)

lemma row_within: "terms_in n ts \<Longrightarrow> \<forall>w < n. e w \<in> D w \<Longrightarrow> row ts e = fixed_part D ts + row (map snd (free_terms D 0 ts)) e"
  by (rule row_split) (auto simp: terms_in_def intro: within_fixes)

lemma fixed_part_bound: "tame n D \<Longrightarrow> terms_in n ts \<Longrightarrow> \<bar>fixed_part D ts\<bar> \<le> weight ts * 2147483648"
proof (induction ts)
  case (Cons t ts)
  obtain a v where t: "t = (a, v)" by fastforce
  have v: "v < n" "terms_in n ts" using Cons.prems(2) by (auto simp: t terms_in_def)
  show ?case using Cons.IH [OF Cons.prems(1) v(2)] abs_i32 [OF tameD(4) [OF Cons.prems(1) v(1)], of a]
    by (auto simp: t algebra_simps)
qed simp

lemma scan_exact:
  assumes st: "ready n st" and ts: "terms_in n ts" and fit: "\<bar>s\<bar> + weight ts * 2147483648 < 4611686018427387904"
  shows "fold (\<lambda>(i, a, v) (fixed_sum, free, free_count). case st_value st v of
       Some x \<Rightarrow> (as_i64 (fixed_sum + as_i64 (a * x)), free, free_count)
     | None \<Rightarrow> (fixed_sum, Some i, Suc free_count)) (enumerate k ts) (s, f, m) =
    (s + fixed_part (dv st) ts, (if free_terms (dv st) k ts = [] then f else Some (fst (last (free_terms (dv st) k ts)))),
     m + length (free_terms (dv st) k ts))"
  using ts fit
proof (induction ts arbitrary: k s f m)
  case (Cons t ts)
  obtain a v where t: "t = (a, v)" by fastforce
  have v: "v < n" "terms_in n ts" using Cons.prems(1) by (auto simp: t terms_in_def)
  have w: "0 \<le> weight ts" by (rule weight_nonneg)
  have k: "(\<bar>a\<bar> + weight ts) * 2147483648 = \<bar>a\<bar> * 2147483648 + weight ts * 2147483648" by (simp add: algebra_simps)
  note P = Cons.prems(2) [unfolded t weight_simps k]
  show ?case
  proof (cases "is_fixed_in (dv st) v")
    case True
    let ?x = "Min (dv st v)"
    have val: "st_value st v = Some ?x" using ready_value [OF st v(1)] True by (simp add: is_fixed_in_def)
    have b: "\<bar>a * ?x\<bar> \<le> \<bar>a\<bar> * 2147483648" using abs_i32 tameD(4) [OF ready_tame [OF st] v(1)] by blast
    have "as_i64 (a * ?x) = a * ?x" "as_i64 (s + a * ?x) = s + a * ?x"
      using b P w by (intro as_i64_id small_in_i64; linarith)+
    moreover have "\<bar>s + a * ?x\<bar> + weight ts * 2147483648 < 4611686018427387904" using b P by linarith
    ultimately show ?thesis using Cons.IH [OF v(2)] val True by (simp add: t)
  next
    case False
    have "st_value st v = None"
      using ready_value [OF st v(1)] False by (metis fixed_in_iff not_None_eq)
    moreover have "\<bar>s\<bar> + weight ts * 2147483648 < 4611686018427387904" using P w by linarith
    ultimately show ?thesis using Cons.IH [OF v(2)] False by (simp add: t)
  qed
qed simp

lemma free_nth: "free_terms D 0 ts = [(i, a, v)] \<Longrightarrow> ts ! i = (a, v) \<and> (a, v) \<in> set ts \<and> \<not> is_fixed_in D v"
proof -
  assume "free_terms D 0 ts = [(i, a, v)]"
  then have "(i, a, v) \<in> set (free_terms D 0 ts)" by simp
  then show ?thesis by (auto simp: free_terms_def in_set_enumerate_eq) (metis nth_mem)
qed

lemma rust_div_exact: "a \<noteq> 0 \<Longrightarrow> a * x = r \<longleftrightarrow> rust_rem r a = 0 \<and> x = rust_div r a"
  using rust_div_rem [of r a] by (auto simp: rust_rem_def rust_div_def abs_mult sgn_mult mult.commute abs_mult_sgn)

lemma lneq_triple:
  assumes wf: "row_wf n ts c"
  shows "triple n (lneq_sol ts c) (\<lambda>_. True) (lneq_propagate ts c) (\<lambda>_. lneq_fix ts c)"
  unfolding lneq_propagate_def
proof (rule triple_read)
  fix st assume st: "ready n st"
  let ?D = "dv st" and ?S = "lneq_sol ts c"
  let ?fs = "fixed_part ?D ts" and ?fr = "free_terms ?D 0 ts"
  have w: "terms_in n ts" "fits ts c" and wt: "weight ts * 2147483648 + \<bar>c\<bar> < 2305843009213693952" using wf by (simp_all add: row_wf_def fits_def)
  note tm = ready_tame [OF st] and fsb = fixed_part_bound [OF ready_tame [OF st] w(1)]
  have scan: "lneq_scan ts st = (?fs, (if ?fr = [] then None else Some (fst (last ?fr))), length ?fr)"
    using scan_exact [OF st w(1), of 0 0 None 0] wt by (simp add: lneq_scan_def)
  have rem: "as_i64 (c - ?fs) = c - ?fs" using fsb wt by (intro as_i64_id small_in_i64) linarith
  have rw: "row ts e = ?fs + row (map snd ?fr) e" if "\<forall>w < n. e w \<in> ?D w" for e using row_within [OF w(1) that] .
  have idle: "triple n ?S (\<lambda>E. E = ?D) (a_ret ()) (\<lambda>_. lneq_fix ts c)" if "lneq_fix ts c ?D"
    using that by (auto intro: triple_ret)
  consider (none) "?fr = []" | (one) i a v where "?fr = [(i, a, v)]" | (more) "length ?fr > 1"
    by (cases ?fr rule: list.exhaust; cases "tl ?fr") auto
  then show "triple n ?S (\<lambda>E. E = ?D) (case lneq_scan ts st of (fixed_sum, free, free_count) \<Rightarrow>
     if free_count = 0 then (if fixed_sum = c then a_fail else a_ret ())
     else if free_count = 1 then
       (case free of None \<Rightarrow> a_ret () | Some i \<Rightarrow> case ts ! i of (a, v) \<Rightarrow>
          if a \<noteq> 0 then
            let rem = as_i64 (c - fixed_sum)
            in if rust_rem rem a = 0 then
                 let forbidden = rust_div rem a
                 in if i32_min \<le> forbidden \<and> forbidden \<le> i32_max then st_remove v (as_i32 forbidden) else a_ret ()
               else a_ret ()
          else a_ret ())
     else a_ret ()) (\<lambda>_. lneq_fix ts c)"
  proof cases
    case none
    have "triple n ?S (\<lambda>E. E = ?D) a_fail (\<lambda>_. lneq_fix ts c)" if "?fs = c"
      by (rule triple_fail) (use rw none that in \<open>auto simp: lneq_sol_def\<close>)
    moreover have "?fs \<noteq> c \<Longrightarrow> lneq_fix ts c ?D" using none by (simp add: lneq_fix_def)
    ultimately show ?thesis using idle by (cases "?fs = c") (simp_all add: scan none)
  next
    case more
    then have "lneq_fix ts c ?D" by (auto simp: lneq_fix_def)
    moreover have "?fr \<noteq> []" using more by auto
    ultimately show ?thesis using idle more by (simp add: scan)
  next
    case (one i a v)
    note nth = free_nth [OF one]
    have v: "v < n" using nth w(1) by (auto simp: terms_in_def)
    have rem_triple: "triple n ?S (\<lambda>E. E = ?D) (st_remove v x) (\<lambda>_. lneq_fix ts c)"
      if x: "in_i32 x" "a * x = c - ?fs" and a: "a \<noteq> 0" for x
    proof (rule triple_tame_post, rule triple_remove [OF v x(1)])
      fix E assume E: "E = ?D"
      show "allows_all n ?S E v (\<lambda>y. y \<noteq> x)"
        unfolding allows_all_def E using rw one x(2) by (fastforce simp: lneq_sol_def)
      let ?E = "E(v := E v - {x})"
      have only: "a * y \<noteq> c - ?fs" if "y \<noteq> x" for y using x(2) a that by (metis mult_cancel_left)
      have other: "is_fixed_in ?E u = is_fixed_in ?D u" "?E u = ?D u" if "u \<noteq> v" for u using that by (simp_all add: E is_fixed_in_def)
      show "tame n ?E \<longrightarrow> lneq_fix ts c ?E"
      proof
        assume tmE: "tame n ?E"
        show "lneq_fix ts c ?E"
        proof (cases "is_fixed_in ?E v")
          case False
          then have "is_fixed_in ?E u = is_fixed_in ?D u" for u using other nth by (cases "u = v") auto
          then have "free_terms ?E 0 ts = ?fr" by (simp add: free_terms_def)
          moreover have "fixed_part ?E ts = ?fs"
          proof -
            have "is_fixed_in ?E u \<Longrightarrow> Min (?E u) = Min (?D u)" for u using other(2) False by (cases "u = v") auto
            then show ?thesis using \<open>\<And>u. is_fixed_in ?E u = is_fixed_in ?D u\<close>
              by (auto simp: fixed_part_def row_def intro!: arg_cong [where f = sum_list])
          qed
          ultimately show ?thesis using one only by (auto simp: lneq_fix_def E)
        next
          case True
          let ?e = "\<lambda>u. Min (?E u)"
          have all: "is_fixed_in ?E u" if "(k, u) \<in> set ts" for k u
          proof (cases "u = v")
            case False
            have "is_fixed_in ?D u"
            proof (rule ccontr)
              assume nf: "\<not> is_fixed_in ?D u"
              obtain j where j: "j < length ts" "ts ! j = (k, u)" using \<open>(k, u) \<in> set ts\<close> by (metis in_set_conv_nth)
              then have "(j, k, u) \<in> set (enumerate 0 ts)" by (simp add: in_set_enumerate_eq)
              then have "(j, k, u) \<in> set ?fr" using nf by (simp add: free_terms_def)
              then show False using one False by simp
            qed
            then show ?thesis using other False by simp
          qed (simp add: True)
          have fr: "free_terms ?E 0 ts = []"
            unfolding free_terms_def filter_empty_conv
          proof (clarify)
            fix j k u assume "(j, k, u) \<in> set (enumerate 0 ts)" and nf: "\<not> is_fixed_in ?E u"
            then have "(k, u) \<in> set ts" by (auto simp: in_set_enumerate_eq) (metis nth_mem)
            then show False using all nf by blast
          qed
          have "row ts ?e = fixed_part ?E ts" using row_split [of ts ?E ?e 0] fr by simp
          moreover have "row ts ?e = ?fs + a * ?e v"
            using row_split [of ts ?D ?e 0] other(2) nth one by (metis (no_types, lifting) add.right_neutral list.simps(8,9) row_simps(1,2) snd_conv)
          moreover have "?e v \<noteq> x" using True unfolding is_fixed_in_def by (metis DiffD2 fun_upd_same insertI1)
          ultimately show ?thesis using fr only [of "?e v"] by (simp add: lneq_fix_def)
        qed
      qed
    qed
    have none_forbidden: "lneq_fix ts c ?D" if "a = 0 \<or> (\<forall>x \<in> ?D v. a * x \<noteq> c - ?fs)" using that one by (auto simp: lneq_fix_def)
    show ?thesis
    proof (cases "a \<noteq> 0 \<and> rust_rem (c - ?fs) a = 0 \<and> in_i32 (rust_div (c - ?fs) a)")
      case True
      have "a * rust_div (c - ?fs) a = c - ?fs" using rust_div_exact [of a _ "c - ?fs"] True by blast
      then show ?thesis using rem_triple True nth by (simp add: scan one rem Let_def in_i32_def as_i32_id)
    next
      case False
      have "a = 0" if "x \<in> ?D v" "a * x = c - ?fs" for x
        using that False rust_div_exact [of a x "c - ?fs"] tameD(3) [OF tm v, of x] by auto
      then have "lneq_fix ts c ?D" using none_forbidden by blast
      from idle [OF this] show ?thesis using False nth by (auto simp: scan one rem Let_def in_i32_def)
    qed
  qed
qed

end
