(* ===== verification/BoolRows.thy ===== *)
theory BoolRows imports Rows BTree LinearNeq begin

text \<open>
  \<open>BooleanLinearLeq\<close> of \<open>src/src/constraints/linear.rs\<close>: pseudo-Boolean rows
  \<open>sum(weight * literal) <= bound\<close> with positive weights, their propagation with explanations,
  and the normalisation of an integer row over 0/1 variables to this form.
\<close>

section \<open>Propagation\<close>

text \<open>A weighted literal: its variable, the value at which it is active, and its weight.\<close>

record bool_literal =
  bl_var :: var_id
  bl_active :: int
  bl_weight :: int

definition as_i128 :: "int \<Rightarrow> int" where
  "as_i128 x = signed_take_bit 127 x"

fun reason_loop :: "store \<Rightarrow> int \<Rightarrow> nat option \<Rightarrow> (nat \<times> bool_literal) list \<Rightarrow> int \<Rightarrow> premise list" where
  "reason_loop st threshold skip [] acc = []"
| "reason_loop st threshold skip ((i, l) # ls) acc =
     (if Some i = skip \<or> st_value st (bl_var l) \<noteq> Some (bl_active l) then reason_loop st threshold skip ls acc
      else let acc' = as_i128 (acc + bl_weight l)
           in PEq (bl_var l) (bl_active l) # (if acc' > threshold then [] else reason_loop st threshold skip ls acc'))"

definition reason_above :: "bool_literal list \<Rightarrow> store \<Rightarrow> int \<Rightarrow> nat option \<Rightarrow> premise list" where
  "reason_above lits st threshold skip =
     (if \<not> explain st then [] else reason_loop st threshold skip (enumerate 0 lits) 0)"

definition bool_true_sum :: "bool_literal list \<Rightarrow> store \<Rightarrow> int" where
  "bool_true_sum lits st = fold (\<lambda>w s. as_i128 (s + w))
     (map bl_weight (filter (\<lambda>l. st_value st (bl_var l) = Some (bl_active l)) lits)) 0"

definition bool_step :: "bool_literal list \<Rightarrow> int \<Rightarrow> int \<Rightarrow> nat \<times> bool_literal \<Rightarrow> unit action" where
  "bool_step lits bound slack x = (case x of (i, l) \<Rightarrow> a_read (\<lambda>st.
     if st_is_fixed st (bl_var l) \<or> bl_weight l \<le> slack then a_ret ()
     else if explain st then fix_because (bl_var l) (1 - bl_active l) (reason_above lits st (as_i128 (bound - bl_weight l)) (Some i))
     else st_fix (bl_var l) (1 - bl_active l)))"

definition bool_propagate :: "bool_literal list \<Rightarrow> int \<Rightarrow> unit action" where
  "bool_propagate lits bound = a_read (\<lambda>st.
     let true_sum = bool_true_sum lits st
     in if true_sum > bound then (if explain st then failing (reason_above lits st bound None) else a_fail)
        else a_each (bool_step lits bound (as_i128 (bound - true_sum))) (enumerate 0 lits))"

section \<open>Correctness\<close>

definition bool_sum :: "bool_literal list \<Rightarrow> (var_id \<Rightarrow> int) \<Rightarrow> int" where
  "bool_sum lits a = (\<Sum>l\<leftarrow>lits. if a (bl_var l) = bl_active l then bl_weight l else 0)"

definition zero_one :: "int \<Rightarrow> bool" where
  "zero_one x \<longleftrightarrow> x = 0 \<or> x = 1"

definition bool_scope :: "bool_literal list \<Rightarrow> (var_id \<Rightarrow> int) \<Rightarrow> bool" where
  "bool_scope lits a \<longleftrightarrow> (\<forall>l \<in> set lits. zero_one (a (bl_var l)))"

definition bool_sol :: "bool_literal list \<Rightarrow> int \<Rightarrow> (var_id \<Rightarrow> int) \<Rightarrow> bool" where
  "bool_sol lits bound a \<longleftrightarrow> bool_scope lits a \<and> bool_sum lits a \<le> bound"

text \<open>The weight of the literals whose variable is fixed to the active value.\<close>

definition true_weight :: "bool_literal list \<Rightarrow> (var_id \<Rightarrow> int set) \<Rightarrow> int" where
  "true_weight lits D = (\<Sum>l\<leftarrow>lits. if D (bl_var l) = {bl_active l} then bl_weight l else 0)"

definition bool_fix :: "bool_literal list \<Rightarrow> int \<Rightarrow> (var_id \<Rightarrow> int set) \<Rightarrow> bool" where
  "bool_fix lits bound D \<longleftrightarrow> true_weight lits D \<le> bound \<and>
     (\<forall>l \<in> set lits. is_fixed_in D (bl_var l) \<or> bl_weight l \<le> bound - true_weight lits D)"

definition bool_wf :: "nat \<Rightarrow> bool_literal list \<Rightarrow> int \<Rightarrow> bool" where
  "bool_wf n lits bound \<longleftrightarrow> (\<forall>l \<in> set lits. bl_var l < n \<and> zero_one (bl_active l) \<and> 0 < bl_weight l) \<and>
     distinct (map bl_var lits) \<and> sum_list (map bl_weight lits) + \<bar>bound\<bar> < 2 ^ 126"

lemma as_i128_id: "\<bar>x\<bar> < 2 ^ 126 \<Longrightarrow> as_i128 x = x"
  unfolding as_i128_def by (auto simp: signed_take_bit_int_eq_self_iff)

lemma sum_weights_nonneg: "\<forall>l \<in> set lits. 0 < bl_weight l \<Longrightarrow> 0 \<le> sum_list (map bl_weight lits)"
  by (induction lits) auto

lemma bool_sum_simps [simp]:
  "bool_sum [] a = 0" "bool_sum (l # ls) a = (if a (bl_var l) = bl_active l then bl_weight l else 0) + bool_sum ls a"
  "true_weight [] D = 0" "true_weight (l # ls) D = (if D (bl_var l) = {bl_active l} then bl_weight l else 0) + true_weight ls D"
  by (simp_all add: bool_sum_def true_weight_def)

lemma true_weight_bounds:
  assumes "\<forall>l \<in> set lits. 0 < bl_weight l"
  shows "0 \<le> true_weight lits D" "true_weight lits D \<le> sum_list (map bl_weight lits)"
  using assms by (induction lits) auto

lemma true_weight_le:
  assumes "\<forall>l \<in> set lits. 0 < bl_weight l \<and> a (bl_var l) \<in> D (bl_var l)"
  shows "true_weight lits D \<le> bool_sum lits a"
  using assms by (induction lits) auto

lemma true_weight_free:
  assumes "\<forall>l \<in> set lits. 0 < bl_weight l \<and> a (bl_var l) \<in> D (bl_var l)" "l \<in> set lits"
    and "D (bl_var l) \<noteq> {bl_active l}" "a (bl_var l) = bl_active l"
  shows "true_weight lits D + bl_weight l \<le> bool_sum lits a"
  using assms
proof (induction lits)
  case (Cons m ms)
  have "true_weight ms D \<le> bool_sum ms a" using Cons.prems(1) by (intro true_weight_le) auto
  then show ?case using Cons by (cases "l = m") auto
qed simp

lemma fold_i128:
  assumes "\<forall>w \<in> set ws. 0 \<le> w" "0 \<le> s" "s + sum_list ws < 2 ^ 126"
  shows "fold (\<lambda>w s. as_i128 (s + w)) ws s = s + sum_list ws"
  using assms
proof (induction ws arbitrary: s)
  case (Cons w ws)
  have "0 \<le> sum_list ws" using Cons.prems(1) by (induction ws) auto
  then have "as_i128 (s + w) = s + w" using Cons.prems by (intro as_i128_id) auto
  then show ?case using Cons.IH [of "s + w"] Cons.prems by simp
qed simp

lemma true_sum_exact:
  assumes st: "ready n st" and wf: "bool_wf n lits bound"
  shows "bool_true_sum lits st = true_weight lits (dv st)"
proof -
  let ?P = "\<lambda>l. st_value st (bl_var l) = Some (bl_active l)"
  have sub: "sum_list (map bl_weight (filter ?P ls)) \<le> sum_list (map bl_weight ls)" if "\<forall>l \<in> set ls. 0 < bl_weight l" for ls
    using that by (induction ls) auto
  have pos: "\<forall>l \<in> set lits. 0 < bl_weight l" using wf by (simp add: bool_wf_def)
  have "bool_true_sum lits st = 0 + sum_list (map bl_weight (filter ?P lits))"
    unfolding bool_true_sum_def using pos sub [OF pos] wf by (intro fold_i128) (auto simp: bool_wf_def)
  also have "\<dots> = true_weight lits (dv st)"
  proof -
    have "sum_list (map bl_weight (filter ?P ls)) = true_weight ls (dv st)" if "set ls \<subseteq> set lits" for ls
      using that
    proof (induction ls)
      case (Cons l ls)
      have "bl_var l < n" using Cons.prems wf by (auto simp: bool_wf_def)
      then show ?case using Cons ready_value [OF st] by simp
    qed simp
    then show ?thesis by simp
  qed
  finally show ?thesis .
qed

text \<open>Fixing a free literal to its inactive value changes no true weight.\<close>

lemma true_weight_fixed:
  assumes "distinct (map bl_var lits)" "l \<in> set lits" "\<not> is_fixed_in D (bl_var l)" "zero_one (bl_active l)"
  shows "true_weight lits (D(bl_var l := {1 - bl_active l})) = true_weight lits D"
proof -
  have "(if (D(bl_var l := {1 - bl_active l})) (bl_var m) = {bl_active m} then bl_weight m else 0) =
      (if D (bl_var m) = {bl_active m} then bl_weight m else 0)" if "m \<in> set lits" for m
  proof (cases "bl_var m = bl_var l")
    case True
    then have "m = l" using assms(1,2) that by (metis distinct_map inj_onD)
    then show ?thesis using assms(3,4) by (auto simp: zero_one_def fixed_in_iff)
  qed simp
  then show ?thesis unfolding true_weight_def by (intro arg_cong [where f = sum_list] map_cong) auto
qed

lemma bool_triple:
  assumes wf: "bool_wf n lits bound"
  shows "triple n (bool_sol lits bound) (\<lambda>_. True) (bool_propagate lits bound) (\<lambda>_. bool_fix lits bound)"
  unfolding bool_propagate_def
proof (rule triple_read)
  fix st assume st: "ready n st"
  let ?D = "dv st" and ?S = "bool_sol lits bound"
  let ?T = "true_weight lits ?D"
  have lit: "bl_var l < n" "zero_one (bl_active l)" "0 < bl_weight l" if "l \<in> set lits" for l using wf that by (auto simp: bool_wf_def)
  have pos: "\<forall>l \<in> set lits. 0 < bl_weight l" using lit by blast
  have ts: "bool_true_sum lits st = ?T" using true_sum_exact [OF st wf] .
  have sl: "as_i128 (bound - ?T) = bound - ?T"
    using true_weight_bounds [OF pos, of ?D] wf by (intro as_i128_id) (auto simp: bool_wf_def)
  have le: "?T \<le> bool_sum lits a" if "\<forall>w < n. a w \<in> ?D w" for a using true_weight_le [of lits a ?D] lit that by blast
  have free: "a (bl_var l) = 1 - bl_active l" if "\<forall>w < n. a w \<in> ?D w" "?S a" "l \<in> set lits" "?D (bl_var l) \<noteq> {bl_active l}" "\<not> bl_weight l \<le> bound - ?T" for a l
  proof -
    have "a (bl_var l) \<noteq> bl_active l"
    proof
      assume "a (bl_var l) = bl_active l"
      then have "?T + bl_weight l \<le> bool_sum lits a" using true_weight_free [of lits a ?D l] lit that(1,3,4) by blast
      then show False using that(2,5) by (simp add: bool_sol_def)
    qed
    moreover have "zero_one (a (bl_var l))" using that(2,3) by (simp add: bool_sol_def bool_scope_def)
    ultimately show ?thesis using lit(2) [OF that(3)] by (auto simp: zero_one_def)
  qed
  have fail: "triple n ?S (\<lambda>E. E = ?D) (if explain st then failing (reason_above lits st bound None) else a_fail) (\<lambda>_. bool_fix lits bound)"
    if "?T > bound"
    using that le by (intro triple_case triple_failing triple_fail) (fastforce simp: bool_sol_def)+
  let ?I = "\<lambda>(pre :: (nat \<times> bool_literal) list) E. true_weight lits E = ?T \<and> (\<forall>w < n. E w \<subseteq> ?D w) \<and> (\<forall>x \<in> set pre. is_fixed_in E (bl_var (snd x)) \<or> bl_weight (snd x) \<le> bound - ?T)"
  have step: "triple n ?S (?I pre) (bool_step lits bound (bound - ?T) x) (\<lambda>_. ?I (pre @ [x]))" if x: "x \<in> set (enumerate 0 lits)" for pre x
  proof -
    obtain i l where xl: "x = (i, l)" by fastforce
    then have l: "l \<in> set lits" using x by (auto simp: in_set_enumerate_eq)
    note ll = lit [OF l]
    have i32: "in_i32 (1 - bl_active l)" using ll(2) by (auto simp: zero_one_def in_i32_def i32_min_def i32_max_def)
    show ?thesis
      unfolding bool_step_def xl prod.case
    proof (rule triple_at, rule triple_read_at)
      fix E st1 assume I: "?I pre E" and st1: "ready n st1" "dv st1 = E" and tmE: "tame n E"
      have fx: "st_is_fixed st1 (bl_var l) \<longleftrightarrow> is_fixed_in E (bl_var l)"
        using ready_reads(6) [OF st1(1) ll(1)] st1(2) by (simp add: fixed_in_iff card_1_singleton_iff)
      have "triple n ?S (\<lambda>F. F = E) (a_ret ()) (\<lambda>_. ?I (pre @ [(i, l)]))" if "is_fixed_in E (bl_var l) \<or> bl_weight l \<le> bound - ?T"
        using that I by (intro triple_ret) auto
      moreover have P: "triple n ?S (\<lambda>F. F = E) (st_fix (bl_var l) (1 - bl_active l)) (\<lambda>_. ?I (pre @ [(i, l)]))"
        "triple n ?S (\<lambda>F. F = E) (fix_because (bl_var l) (1 - bl_active l) why) (\<lambda>_. ?I (pre @ [(i, l)]))"
        if nf: "\<not> is_fixed_in E (bl_var l)" "\<not> bl_weight l \<le> bound - ?T" for why
      proof -
        have nD: "?D (bl_var l) \<noteq> {bl_active l}"
          using I nf(1) ll(1) tameD(2) [OF tmE ll(1)] by (metis fixed_in_iff subset_singletonD)
        have keep: "allows_all n ?S E (bl_var l) (\<lambda>y. y = 1 - bl_active l)"
          unfolding allows_all_def using free [OF subset_in, of E] I l nD nf(2) by blast
        have new: "?I (pre @ [(i, l)]) (E(bl_var l := {1 - bl_active l}))" if "1 - bl_active l \<in> E (bl_var l)"
          using true_weight_fixed [OF _ l nf(1) ll(2)] wf I that by (auto simp: bool_wf_def is_fixed_in_def)
        show "triple n ?S (\<lambda>F. F = E) (st_fix (bl_var l) (1 - bl_active l)) (\<lambda>_. ?I (pre @ [(i, l)]))"
          by (rule triple_fix [OF ll(1) i32]) (use keep new in blast)+
        show "triple n ?S (\<lambda>F. F = E) (fix_because (bl_var l) (1 - bl_active l) why) (\<lambda>_. ?I (pre @ [(i, l)]))"
          by (rule triple_fix_because [OF ll(1) i32]) (use keep new in blast)+
      qed
      ultimately show "triple n ?S (\<lambda>F. F = E) (if st_is_fixed st1 (bl_var l) \<or> bl_weight l \<le> bound - ?T then a_ret ()
          else if explain st1 then fix_because (bl_var l) (1 - bl_active l) (reason_above lits st1 (as_i128 (bound - bl_weight l)) (Some i))
          else st_fix (bl_var l) (1 - bl_active l)) (\<lambda>_. ?I (pre @ [(i, l)]))"
        unfolding fx by (intro triple_case) blast+
    qed
  qed
  have "triple n ?S (\<lambda>E. E = ?D) (a_each (bool_step lits bound (bound - ?T)) (enumerate 0 lits)) (\<lambda>_. bool_fix lits bound)" if ok: "\<not> ?T > bound"
  proof (rule triple_weaken)
    show "triple n ?S (?I []) (a_each (bool_step lits bound (bound - ?T)) (enumerate 0 lits)) (\<lambda>_. ?I (enumerate 0 lits))"
      by (rule triple_each [where I = ?I]) (rule step, simp)
    fix E assume "?I (enumerate 0 lits) E"
    then show "bool_fix lits bound E"
      using ok ball_enumerate [where ts = lits and P = "\<lambda>l. is_fixed_in E (bl_var l) \<or> bl_weight l \<le> bound - ?T"] by (simp add: bool_fix_def)
  qed simp
  with fail show "triple n ?S (\<lambda>E. E = ?D) (let true_sum = bool_true_sum lits st
     in if true_sum > bound then (if explain st then failing (reason_above lits st bound None) else a_fail)
        else a_each (bool_step lits bound (as_i128 (bound - true_sum))) (enumerate 0 lits)) (\<lambda>_. bool_fix lits bound)"
    unfolding Let_def ts sl by (rule triple_case)
qed

end
