(* ===== verification/Constraints.thy ===== *)
theory Constraints imports Building ElementProps Signs BoolRows begin

text \<open>
  The propagators of the repository that are modelled, as one datatype with the methods of
  the \<open>Propagator\<close> trait, and the interpretation of the contract of the trait on them.
\<close>

section \<open>The propagators\<close>

datatype constraint =
    NotEqualOffset var_id var_id int
  | SignProducts "(var_id \<times> var_id \<times> var_id) list"
  | LessOrEqual var_id var_id int
  | Instantiation "var_id list" "int list"
  | AllEqual "var_id list"
  | Extremum var_id "var_id list" bool
  | Element "var_id list" var_id var_id
  | ElementConst "int list" var_id var_id
  | LinearLeq terms int
  | LinearEq terms int
  | LinearNeq terms int
  | BooleanLinearLeq "bool_literal list" int

text \<open>The subscriptions of \<open>register\<close>, in its order.\<close>

fun watches :: "constraint \<Rightarrow> (event \<times> var_id) list" where
  "watches (NotEqualOffset x y c) = [(FixEvent, x), (FixEvent, y)]"
| "watches (SignProducts terms) = concat (map (\<lambda>(y, x, z). [(FixEvent, y), (FixEvent, x), (FixEvent, z)]) terms)"
| "watches (LessOrEqual x y k) = [(BoundChange, x), (BoundChange, y)]"
| "watches (Instantiation vs xs) = []"
| "watches (AllEqual vs) = map (Pair DomainChange) vs"
| "watches (Extremum y xs is_min) = (BoundChange, y) # map (Pair BoundChange) xs"
| "watches (Element array idx value) = (DomainChange, idx) # (DomainChange, value) # map (Pair DomainChange) array"
| "watches (ElementConst array idx value) = [(DomainChange, idx), (DomainChange, value)]"
| "watches (LinearLeq ts c) = map (\<lambda>(a, v). (BoundChange, v)) ts"
| "watches (LinearEq ts c) = map (\<lambda>(a, v). (BoundChange, v)) ts"
| "watches (LinearNeq ts c) = map (\<lambda>(a, v). (FixEvent, v)) ts"
| "watches (BooleanLinearLeq lits bound) = map (\<lambda>l. (FixEvent, bl_var l)) lits"

definition subscribe_all :: "prop_id \<Rightarrow> (event \<times> var_id) list \<Rightarrow> store \<Rightarrow> store" where
  "subscribe_all me ws st = fold (\<lambda>(e, v). subscribe v me e) ws st"

definition con_register :: "constraint \<Rightarrow> prop_id \<Rightarrow> store \<Rightarrow> constraint \<times> store" where
  "con_register p me st = (p, case p of
      Instantiation vs xs \<Rightarrow> fold mark_relevant vs st
    | _ \<Rightarrow> subscribe_all me (watches p) st)"

text \<open>The rows register with a poll before every subscription.\<close>

fun subscribe_until :: "prop_id \<Rightarrow> (event \<times> var_id) list \<Rightarrow> bool list \<Rightarrow> store \<Rightarrow> store \<times> bool \<times> bool list" where
  "subscribe_until me [] stops st = (let (b, stops1) = poll stops in (st, \<not> b, stops1))"
| "subscribe_until me ((e, v) # ws) stops st =
     (let (b, stops1) = poll stops in if b then (st, False, stops1) else subscribe_until me ws stops1 (subscribe v me e st))"

fun is_row :: "constraint \<Rightarrow> bool" where
  "is_row (LinearLeq _ _) = True"
| "is_row (LinearEq _ _) = True"
| "is_row (LinearNeq _ _) = True"
| "is_row (BooleanLinearLeq _ _) = True"
| "is_row _ = False"

definition con_register_until ::
    "constraint \<Rightarrow> prop_id \<Rightarrow> bool list \<Rightarrow> store \<Rightarrow> constraint \<times> store \<times> bool \<times> bool list" where
  "con_register_until p me stops st =
     (if is_row p then (p, subscribe_until me (watches p) stops st) else default_register_until con_register p me stops st)"

fun con_run :: "constraint \<Rightarrow> store \<Rightarrow> unit outcome option" where
  "con_run (NotEqualOffset x y c) st = Some (neq_propagate x y c st)"
| "con_run (SignProducts terms) st = signs_propagate terms st"
| "con_run (LessOrEqual x y k) st = Some (leq_propagate x y k st)"
| "con_run (Instantiation vs xs) st = Some (inst_propagate vs xs st)"
| "con_run (AllEqual vs) st = Some (alleq_propagate vs st)"
| "con_run (Extremum y xs is_min) st = Some (ext_propagate y xs is_min st)"
| "con_run (Element array idx value) st = Some (elem_propagate array idx value st)"
| "con_run (ElementConst array idx value) st = Some (elemc_propagate array idx value st)"
| "con_run (LinearLeq ts c) st = lleq_propagate ts c st"
| "con_run (LinearEq ts c) st = leq_eq_propagate ts c st"
| "con_run (LinearNeq ts c) st = Some (lneq_propagate ts c st)"
| "con_run (BooleanLinearLeq lits bound) st = Some (bool_propagate lits bound st)"

definition con_propagate :: "constraint \<Rightarrow> store \<Rightarrow> (constraint \<times> unit outcome) option" where
  "con_propagate p st = map_option (Pair p) (con_run p st)"

definition con_vtable :: "constraint vtable" where
  "con_vtable = \<lparr>v_register = con_register, v_register_until = con_register_until, v_propagate = con_propagate,
     v_propagate_until = default_propagate_until con_propagate, v_priority = (\<lambda>_. Linear)\<rparr>"

section \<open>What they mean\<close>

fun con_sol :: "constraint \<Rightarrow> (var_id \<Rightarrow> int) \<Rightarrow> bool" where
  "con_sol (NotEqualOffset x y c) = neq_sol x y c"
| "con_sol (SignProducts terms) = signs_sol terms"
| "con_sol (LessOrEqual x y k) = leq_sol x y k"
| "con_sol (Instantiation vs xs) = inst_sol vs xs"
| "con_sol (AllEqual vs) = alleq_sol vs"
| "con_sol (Extremum y xs is_min) = ext_sol y xs is_min"
| "con_sol (Element array idx value) = elem_sol array idx value"
| "con_sol (ElementConst array idx value) = elemc_sol array idx value"
| "con_sol (LinearLeq ts c) = lleq_sol ts c"
| "con_sol (LinearEq ts c) = leq_eq_sol ts c"
| "con_sol (LinearNeq ts c) = lneq_sol ts c"
| "con_sol (BooleanLinearLeq lits bound) = bool_sol lits bound"

fun con_fix :: "constraint \<Rightarrow> (var_id \<Rightarrow> int set) \<Rightarrow> bool" where
  "con_fix (NotEqualOffset x y c) = neq_fix x y c"
| "con_fix (SignProducts terms) = signs_fix terms"
| "con_fix (LessOrEqual x y k) = leq_fix x y k"
| "con_fix (Instantiation vs xs) = inst_fix vs xs"
| "con_fix (AllEqual vs) = alleq_fix vs"
| "con_fix (Extremum y xs is_min) = ext_fix y xs is_min"
| "con_fix (Element array idx value) = elem_fix array idx value"
| "con_fix (ElementConst array idx value) = elemc_fix array idx value"
| "con_fix (LinearLeq ts c) = lleq_fix ts c"
| "con_fix (LinearEq ts c) = leq_eq_fix ts c"
| "con_fix (LinearNeq ts c) = lneq_fix ts c"
| "con_fix (BooleanLinearLeq lits bound) = bool_fix lits bound"

definition con_watch :: "constraint \<Rightarrow> (event \<times> var_id) set" where
  "con_watch p = set (watches p)"

text \<open>Well-formed over \<open>n\<close> variables: ids in range, constants of their width, no variable in two roles.\<close>

fun con_wf :: "nat \<Rightarrow> constraint \<Rightarrow> bool" where
  "con_wf n (NotEqualOffset x y c) = (x < n \<and> y < n)"
| "con_wf n (SignProducts terms) = (\<forall>(y, x, z) \<in> set terms. y < n \<and> x < n \<and> z < n)"
| "con_wf n (LessOrEqual x y k) = (x < n \<and> y < n \<and> x \<noteq> y \<and> in_i32 k)"
| "con_wf n (Instantiation vs xs) = ((\<forall>(v, x) \<in> set (zip vs xs). v < n \<and> in_i32 x) \<and> (\<forall>v \<in> set vs. v < n))"
| "con_wf n (AllEqual vs) = (\<forall>v \<in> set vs. v < n)"
| "con_wf n (Extremum y xs is_min) = (y < n \<and> (\<forall>x \<in> set xs. x < n) \<and> xs \<noteq> [])"
| "con_wf n (Element array idx value) = elem_wf n array idx value"
| "con_wf n (ElementConst array idx value) = elemc_wf n array idx value"
| "con_wf n (LinearLeq ts c) = row_wf n ts c"
| "con_wf n (LinearEq ts c) = row_wf n ts c"
| "con_wf n (LinearNeq ts c) = row_wf n ts c"
| "con_wf n (BooleanLinearLeq lits bound) = bool_wf n lits bound"

lemma con_wf_mono:
  assumes wf: "con_wf n p" and le: "n \<le> m"
  shows "con_wf m p"
proof -
  have lt: "v < n \<Longrightarrow> v < m" for v using le by simp
  show ?thesis
    using wf lt by (cases p) (fastforce simp: elem_wf_def elemc_wf_def row_wf_def terms_in_def bool_wf_def)+
qed

section \<open>Registration\<close>

lemma subscribe_all_registered:
  assumes "slot_free me st" "\<forall>(e, v) \<in> set ws. v < length (domains st)"
  shows "registered (set ws) me st (subscribe_all me ws st)"
  using assms
proof (induction ws arbitrary: st)
  case Nil
  then show ?case by (simp add: subscribe_all_def registered_none slot_free_def)
next
  case (Cons w ws)
  obtain e v where w: "w = (e, v)" by fastforce
  have v: "v < length (domains st)" using Cons.prems(2) by (simp add: w)
  note r = registered_subscribe [OF Cons.prems(1) v, of e]
  have "registered (set ws) me (subscribe v me e st) (subscribe_all me ws (subscribe v me e st))"
    using Cons.IH [OF registered_slot [OF r Cons.prems(1)]] Cons.prems(2) by simp
  from registered_trans [OF r this] show ?case by (simp add: w subscribe_all_def)
qed

lemma subscribe_until_unstopped: "subscribe_until me ws [] st = (subscribe_all me ws st, True, [])"
  by (induction ws arbitrary: st) (auto simp: subscribe_all_def)

lemma mark_registered: "slot_free me st \<Longrightarrow> registered {} me st (fold mark_relevant vs st)"
proof (induction vs arbitrary: st)
  case Nil
  then show ?case by (simp add: registered_none slot_free_def)
next
  case (Cons v vs)
  have r: "registered {} me st (mark_relevant v st)" using registered_mark Cons.prems by (simp add: slot_free_def)
  from registered_trans [OF r Cons.IH [OF registered_slot [OF r Cons.prems]]] show ?case by simp
qed

lemma watches_var: "con_wf n p \<Longrightarrow> (e, v) \<in> con_watch p \<Longrightarrow> v < n"
  by (cases p) (auto simp: con_watch_def elem_wf_def elemc_wf_def row_wf_def terms_in_def bool_wf_def)

lemma con_register_law:
  assumes wf: "con_wf n p" and n: "length (domains st) = n" and s: "slot_free me st"
  shows "\<exists>st'. con_register_until p me [] st = (p, st', True, []) \<and> registered (con_watch p) me st st'"
proof -
  have all: "registered (con_watch p) me st (subscribe_all me (watches p) st)"
    unfolding con_watch_def by (rule subscribe_all_registered [OF s]) (use watches_var [OF wf] n in \<open>auto simp: con_watch_def\<close>)
  show ?thesis
  proof (cases p)
    case (Instantiation vs xs)
    then show ?thesis using mark_registered [OF s] by (simp add: con_register_until_def default_register_until_def con_register_def con_watch_def)
  qed (use all in \<open>simp_all add: con_register_until_def default_register_until_def con_register_def subscribe_until_unstopped\<close>)
qed

section \<open>Propagation\<close>

lemma triple_run:
  assumes "triple n sol (\<lambda>_. True) m (\<lambda>_. F)" "ready n st"
  shows "sound sol st (m st) \<and> (snd (m st) = Ok () \<longrightarrow> F (dv (fst (m st))))"
  using assms by (simp add: triple_def)

lemma con_run_law:
  assumes wf: "con_wf n p" and st: "ready n st"
  shows "\<exists>out. con_run p st = Some out \<and> sound (con_sol p) st out \<and> (snd out = Ok () \<longrightarrow> con_fix p (dv (fst out)))"
proof (cases p)
  case (NotEqualOffset x y c)
  then show ?thesis using triple_run [OF neq_triple [of x n y c] st] wf by simp
next
  case (SignProducts terms)
  then show ?thesis using signs_run [of terms n st] wf st by simp
next
  case (LessOrEqual x y k)
  then show ?thesis using triple_run [OF leq_triple [of x n y k] st] wf by simp
next
  case (Instantiation vs xs)
  then show ?thesis using triple_run [OF inst_triple [of vs xs n] st] wf by simp
next
  case (AllEqual vs)
  then show ?thesis using triple_run [OF alleq_triple [of vs n] st] wf by simp
next
  case (Extremum y xs is_min)
  then show ?thesis using triple_run [OF ext_triple_min [of y n xs] st] triple_run [OF ext_triple_max [of y n xs] st] wf by (cases is_min) simp_all
next
  case (Element array idx w)
  then show ?thesis using triple_run [OF elem_triple [of n array idx w] st] wf by simp
next
  case (ElementConst array idx w)
  then show ?thesis using triple_run [OF elemc_triple [of n array idx w] st] wf by simp
next
  case (LinearLeq ts c)
  then show ?thesis using lleq_run [of n ts c st] wf st by simp
next
  case (LinearEq ts c)
  then show ?thesis using leq_eq_run [of n ts c st] wf st by simp
next
  case (LinearNeq ts c)
  then show ?thesis using triple_run [OF lneq_triple [of n ts c] st] wf by simp
next
  case (BooleanLinearLeq lits bound)
  then show ?thesis using triple_run [OF bool_triple [of n lits bound] st] wf by simp
qed

section \<open>Waking\<close>

text \<open>A propagator with nothing to do still has nothing to do when no watched event occurred.\<close>

definition calm :: "nat \<Rightarrow> (var_id \<Rightarrow> int set) \<Rightarrow> (var_id \<Rightarrow> int set) \<Rightarrow> bool" where
  "calm n D D' \<longleftrightarrow> (\<forall>v < n. D' v \<noteq> {} \<and> D' v \<subseteq> D v \<and> finite (D v))"

lemma calm_same: "\<not> occurs DomainChange S S' \<Longrightarrow> S' = S"
  by simp

lemma calm_single:
  assumes "calm n D D'" "v < n" "\<not> occurs FixEvent (D v) (D' v)"
  shows "D' v = {x} \<longleftrightarrow> D v = {x}" "is_fixed_in D' v = is_fixed_in D v" "single D' v = single D v"
proof -
  show one: "D' v = {x} \<longleftrightarrow> D v = {x}" for x using assms by (fastforce simp: calm_def)
  show "is_fixed_in D' v = is_fixed_in D v" "single D' v = single D v" by (simp_all add: fixed_in_iff single_def one)
qed

lemma neq_wake:
  assumes "calm n D D'" "x < n" "y < n" "\<not> occurs FixEvent (D x) (D' x)" "\<not> occurs FixEvent (D y) (D' y)" "neq_fix x y c D"
  shows "neq_fix x y c D'"
proof -
  have sub: "D' x \<subseteq> D x" "D' y \<subseteq> D y" using assms(1-3) by (simp_all add: calm_def)
  have one: "D' x = {v} \<longleftrightarrow> D x = {v}" "D' y = {v} \<longleftrightarrow> D y = {v}" for v
    using calm_single(1) [OF assms(1,2,4)] calm_single(1) [OF assms(1,3,5)] by simp_all
  show ?thesis
    unfolding neq_fix_def one using assms(6) sub by (auto simp: neq_fix_def)
qed

lemma signs_wake:
  assumes c: "calm n D D'" and wf: "\<forall>(y, x, z) \<in> set terms. y < n \<and> x < n \<and> z < n"
    and ev: "\<forall>(y, x, z) \<in> set terms. \<forall>v \<in> {y, x, z}. \<not> occurs FixEvent (D v) (D' v)" and fx: "signs_fix terms D"
  shows "signs_fix terms D'"
  unfolding signs_fix_def
proof
  fix t assume t: "t \<in> set terms"
  obtain y x z where e: "t = (y, x, z)" by (metis prod_cases3)
  have w: "y < n" "x < n" "z < n" using wf t e by auto
  have "\<forall>v \<in> {y, x, z}. \<not> occurs FixEvent (D v) (D' v)" using ev t unfolding e by blast
  then have o: "\<not> occurs FixEvent (D y) (D' y)" "\<not> occurs FixEvent (D x) (D' x)" "\<not> occurs FixEvent (D z) (D' z)" by blast+
  note s = calm_single [OF c w(1) o(1)] calm_single [OF c w(2) o(2)] calm_single [OF c w(3) o(3)]
  have "sign_fix D (y, x, z)" using fx t unfolding signs_fix_def e by blast
  then show "sign_fix D' t" unfolding e sign_fix.simps s .
qed

text \<open>A row looks at the bounds only.\<close>

lemma low_cong:
  assumes "\<And>a v. (a, v) \<in> set ts \<Longrightarrow> Min (D' v) = Min (D v) \<and> Max (D' v) = Max (D v)"
  shows "low D' ts = low D ts" "high D' ts = high D ts" "t \<in> set ts \<Longrightarrow> tlow D' t = tlow D t \<and> thigh D' t = thigh D t"
proof -
  have t: "tlow D' t = tlow D t \<and> thigh D' t = thigh D t" if "t \<in> set ts" for t
    using assms [of "fst t" "snd t"] that by (simp add: tlow_def thigh_def split_beta)
  then show "low D' ts = low D ts" "high D' ts = high D ts" "t \<in> set ts \<Longrightarrow> tlow D' t = tlow D t \<and> thigh D' t = thigh D t"
    by (simp_all add: low_def high_def cong: map_cong)
qed

text \<open>A disequality row looks at the fixed variables, and at the values of the last free one.\<close>

lemma lneq_wake:
  assumes c: "calm n D D'" and wf: "terms_in n ts" and ev: "\<forall>(a, v) \<in> set ts. \<not> occurs FixEvent (D v) (D' v)" and fx: "lneq_fix ts c D"
  shows "lneq_fix ts c D'"
proof -
  have s: "is_fixed_in D' v = is_fixed_in D v \<and> (is_fixed_in D v \<longrightarrow> D' v = D v) \<and> D' v \<subseteq> D v" if "(a, v) \<in> set ts" for a v
  proof -
    have v: "v < n" "\<not> occurs FixEvent (D v) (D' v)" using wf ev that by (auto simp: terms_in_def simp del: occurs.simps)
    show ?thesis using calm_single [OF c v] c v(1) by (auto simp: fixed_in_iff calm_def)
  qed
  have fr: "free_terms D' k us = free_terms D k us \<and> fixed_part D' us = fixed_part D us" if "set us \<subseteq> set ts" for us k
    using that
  proof (induction us arbitrary: k)
    case (Cons u us)
    obtain a v where u: "u = (a, v)" by fastforce
    then have "(a, v) \<in> set ts" using Cons.prems by simp
    from s [OF this] Cons.IH [of "Suc k"] Cons.prems show ?case by (auto simp: u)
  qed simp
  have "D' v \<subseteq> D v" if "free_terms D 0 ts = [(i, a, v)]" for i a v using free_nth [OF that] s by blast
  then show ?thesis using fx fr [of ts 0] unfolding lneq_fix_def by (metis (no_types, lifting) subset_iff order_refl)
qed

lemma bool_wake:
  assumes c: "calm n D D'" and wf: "\<forall>l \<in> set lits. bl_var l < n" and ev: "\<forall>l \<in> set lits. \<not> occurs FixEvent (D (bl_var l)) (D' (bl_var l))"
    and fx: "bool_fix lits bound D"
  shows "bool_fix lits bound D'"
proof -
  have s: "is_fixed_in D' (bl_var l) = is_fixed_in D (bl_var l)" "D' (bl_var l) = {x} \<longleftrightarrow> D (bl_var l) = {x}" if "l \<in> set lits" for l x
    using calm_single [OF c, of "bl_var l"] wf ev that by blast+
  have "true_weight lits D' = true_weight lits D"
    unfolding true_weight_def by (rule arg_cong [where f = sum_list], rule map_cong) (simp_all add: s)
  then show ?thesis using fx s(1) by (simp add: bool_fix_def)
qed

lemma elem_wake:
  assumes "elem_fix array idx w D" "D' idx = D idx" "D' w = D w" "\<forall>v \<in> set array. D' v = D v"
  shows "elem_fix array idx w D'"
proof -
  have "D' (array ! nat i) = D (array ! nat i)" if "i \<in> D idx" for i
    using assms(1,4) that by (auto simp: elem_fix_def in_array_def nat_less_iff)
  then show ?thesis using assms(1-3) unfolding elem_fix_def by simp
qed

lemma con_wake_law:
  assumes wf: "con_wf n p" and fx: "con_fix p D" and c: "calm n D D'" and ev: "\<forall>(e, v) \<in> con_watch p. \<not> occurs e (D v) (D' v)"
  shows "con_fix p D'"
proof -
  have bc: "Min (D' v) = Min (D v) \<and> Max (D' v) = Max (D v)" if "(BoundChange, v) \<in> con_watch p" for v
    using calm_bounds ev that by blast
  have fe: "\<not> occurs FixEvent (D v) (D' v)" if "(FixEvent, v) \<in> con_watch p" for v
    using ev that by blast
  have dc: "D' v = D v" if "(DomainChange, v) \<in> con_watch p" for v
    using calm_same ev that by blast
  show ?thesis
  proof (cases p)
    case (NotEqualOffset x y k)
    then show ?thesis using neq_wake [OF c _ _ fe fe] wf fx by (simp add: con_watch_def)
  next
    case (SignProducts terms)
    have "\<forall>(y, x, z) \<in> set terms. \<forall>v \<in> {y, x, z}. \<not> occurs FixEvent (D v) (D' v)"
    proof (clarify)
      fix y x z v assume "(y, x, z) \<in> set terms" "v \<in> {y, x, z}" "occurs FixEvent (D v) (D' v)"
      then show False using fe [of v] by (force simp: SignProducts con_watch_def simp del: occurs.simps)
    qed
    then show ?thesis using signs_wake [OF c] wf fx SignProducts by simp
  next
    case (LessOrEqual x y k)
    then show ?thesis using bc [of x] bc [of y] fx by (simp add: con_watch_def leq_fix_def)
  next
    case (Instantiation vs xs)
    have "D' v = {x}" if "(v, x) \<in> set (zip vs xs)" for v x
    proof -
      have "v < n" "D v = {x}" using wf fx that Instantiation by (auto simp: inst_fix_def)
      then show ?thesis using c by (fastforce simp: calm_def)
    qed
    then show ?thesis by (auto simp: Instantiation inst_fix_def)
  next
    case (AllEqual vs)
    then have e: "D' v = D v" if "v \<in> set vs" for v by (intro dc) (use that in \<open>simp add: con_watch_def\<close>)
    have "D' u = D' v" if "u \<in> set vs" "v \<in> set vs" for u v
      using fx that unfolding AllEqual con_fix.simps alleq_fix_def e [OF that(1)] e [OF that(2)] by blast
    then show ?thesis unfolding AllEqual con_fix.simps alleq_fix_def by blast
  next
    case (Extremum y xs is_min)
    then have "(BoundChange, y) \<in> con_watch p" "\<And>x. x \<in> set xs \<Longrightarrow> (BoundChange, x) \<in> con_watch p" by (auto simp: con_watch_def)
    then have "Min (D' y) = Min (D y) \<and> Max (D' y) = Max (D y)" "\<And>x. x \<in> set xs \<Longrightarrow> Min (D' x) = Min (D x) \<and> Max (D' x) = Max (D x)"
      using bc by blast+
    then show ?thesis using fx by (simp add: Extremum ext_fix_def)
  next
    case (Element array idx w)
    then show ?thesis using elem_wake [of array idx w D D'] fx dc by (simp add: con_watch_def)
  next
    case (ElementConst array idx w)
    then show ?thesis using fx dc by (simp add: con_watch_def elemc_fix_def)
  next
    case (LinearLeq ts k)
    then have m: "Min (D' v) = Min (D v) \<and> Max (D' v) = Max (D v)" if "(a, v) \<in> set ts" for a v
      by (intro bc) (use that in \<open>force simp: con_watch_def\<close>)
    show ?thesis using low_cong [OF m] fx by (simp add: LinearLeq lleq_fix_def)
  next
    case (LinearEq ts k)
    then have m: "Min (D' v) = Min (D v) \<and> Max (D' v) = Max (D v)" if "(a, v) \<in> set ts" for a v
      by (intro bc) (use that in \<open>force simp: con_watch_def\<close>)
    show ?thesis using low_cong [OF m] fx by (simp add: LinearEq leq_eq_fix_def)
  next
    case (LinearNeq ts k)
    have "\<not> occurs FixEvent (D v) (D' v)" if "(a, v) \<in> set ts" for a v
      by (rule fe) (use that LinearNeq in \<open>force simp: con_watch_def\<close>)
    then have "\<forall>(a, v) \<in> set ts. \<not> occurs FixEvent (D v) (D' v)" by blast
    then show ?thesis using lneq_wake [OF c] wf fx by (simp add: LinearNeq row_wf_def)
  next
    case (BooleanLinearLeq lits bound)
    then have "\<forall>l \<in> set lits. \<not> occurs FixEvent (D (bl_var l)) (D' (bl_var l))" using fe by (simp add: con_watch_def)
    then show ?thesis using bool_wake [OF c] wf fx by (simp add: BooleanLinearLeq bool_wf_def)
  qed
qed

section \<open>The contract holds\<close>

interpretation con: propagator_contract con_vtable con_sol con_fix con_watch con_wf
proof
  fix n p st
  assume "con_wf n p" "ready n st"
  from con_run_law [OF this] obtain out where "con_run p st = Some out" "sound (con_sol p) st out" "snd out = Ok () \<longrightarrow> con_fix p (dv (fst out))"
    by blast
  then show "\<exists>p' out. v_propagate con_vtable p st = Some (p', out) \<and> sound (con_sol p) st out \<and> con_wf n p' \<and> con_sol p' = con_sol p \<and>
      con_watch p' = con_watch p \<and> (snd out = Ok () \<longrightarrow> con_fix p' (dv (fst out)))"
    using \<open>con_wf n p\<close> by (simp add: con_vtable_def con_propagate_def)
next
  fix n p D D'
  assume "con_wf n p" "con_fix p D" "\<forall>v < n. D' v \<noteq> {} \<and> D' v \<subseteq> D v \<and> finite (D v)" "\<forall>(e, v) \<in> con_watch p. \<not> occurs e (D v) (D' v)"
  then show "con_fix p D'" using con_wake_law by (simp add: calm_def)
next
  fix n p st me p' st' fin stops
  assume "con_wf n p" "length (domains st) = n" "slot_free me st" "v_register_until con_vtable p me [] st = (p', st', fin, stops)"
  then show "fin \<and> stops = [] \<and> registered (con_watch p) me st st' \<and> con_wf n p' \<and> con_sol p' = con_sol p \<and> con_watch p' = con_watch p"
    using con_register_law [of n p st me] by (auto simp: con_vtable_def)
next
  fix n p e v
  assume "con_wf n p" "(e, v) \<in> con_watch p"
  then show "v < n" by (rule watches_var)
next
  fix n m p
  assume "con_wf n p" "n \<le> m"
  then show "con_wf m p" by (rule con_wf_mono)
qed

text \<open>
  What the constraint is posted over; and the constraints whose propagator, with nothing left
  to do on fixed variables, is satisfied. The propagator of minimum and maximum is not among them.
\<close>

fun con_scope :: "constraint \<Rightarrow> (var_id \<Rightarrow> int) \<Rightarrow> bool" where
  "con_scope (SignProducts terms) a = signs_scope terms a"
| "con_scope (BooleanLinearLeq lits bound) a = bool_scope lits a"
| "con_scope _ a = True"

fun is_extremum :: "constraint \<Rightarrow> bool" where
  "is_extremum (Extremum _ _ _) = True"
| "is_extremum _ = False"

definition con_checked :: "nat \<Rightarrow> constraint \<Rightarrow> bool" where
  "con_checked n p \<longleftrightarrow> con_wf n p \<and> \<not> is_extremum p"

lemma fixed_row: "terms_in n ts \<Longrightarrow> \<forall>v < n. D v = {a v :: int} \<Longrightarrow> low D ts = row ts a \<and> high D ts = row ts a"
  by (induction ts) (auto simp: terms_in_def tlow_def thigh_def)

lemma leq_check:
  assumes "sat_i32 (x + k) \<le> y" "x \<le> sat_i32 (y - k)" "in_i32 x" "in_i32 y" "in_i32 k"
  shows "x + k \<le> y"
  using assms unfolding sat_i32_def in_i32_def i32_min_def i32_max_def by (simp split: if_splits add: min_def max_def)

lemma con_check_law:
  assumes ok: "con_checked n p" and fx: "con_fix p D" and D: "\<forall>v < n. D v = {a v} \<and> in_i32 (a v)" and sc: "con_scope p a"
  shows "con_sol p a"
proof -
  have wf: "con_wf n p" using ok by (simp add: con_checked_def)
  have D1: "D v = {a v}" "in_i32 (a v)" if "v < n" for v using D that by simp_all
  show ?thesis
  proof (cases p)
    case (NotEqualOffset x y k)
    then have b: "x < n" "y < n" using wf by simp_all
    then show ?thesis using fx D1 [OF b(1)] D1 [OF b(2)] by (auto simp: NotEqualOffset neq_fix_def neq_sol_def)
  next
    case (SignProducts terms)
    have "a y = a x * a z" if t: "(y, x, z) \<in> set terms" for y x z
    proof -
      have b: "y < n" "x < n" "z < n" using wf t SignProducts by auto
      have "\<forall>t \<in> set terms. sign_fix D t" using fx SignProducts by (simp add: signs_fix_def del: sign_fix.simps)
      then have "sign_fix D (y, x, z)" using t by blast
      then have "a y = as_i32 (a x * a z)" using D1(1) [OF b(1)] D1(1) [OF b(2)] D1(1) [OF b(3)] by simp
      moreover have "sign (a x)" "sign (a z)" using sc t SignProducts by (auto simp: signs_scope_def)
      ultimately show ?thesis using sign_mult by simp
    qed
    then show ?thesis using sc by (auto simp: SignProducts signs_sol_def)
  next
    case (LessOrEqual x y k)
    then have b: "x < n" "y < n" "in_i32 k" using wf by simp_all
    show ?thesis using leq_check [of "a x" k "a y"] fx D1 [OF b(1)] D1 [OF b(2)] b(3) by (simp add: LessOrEqual leq_fix_def leq_sol_def)
  next
    case (Instantiation vs xs)
    have "a v = x" if "(v, x) \<in> set (zip vs xs)" for v x
    proof -
      have "v < n" "D v = {x}" using wf fx that Instantiation by (auto simp: inst_fix_def)
      then show ?thesis using D1 by auto
    qed
    then show ?thesis by (auto simp: Instantiation inst_sol_def)
  next
    case (AllEqual vs)
    have "a u = a v" if "u \<in> set vs" "v \<in> set vs" for u v
    proof -
      have "D u = D v" using fx that unfolding AllEqual con_fix.simps alleq_fix_def by blast
      moreover have "u < n" "v < n" using wf that AllEqual by simp_all
      ultimately show ?thesis using D1(1) [of u] D1(1) [of v] by simp
    qed
    then show ?thesis unfolding AllEqual con_sol.simps alleq_sol_def by blast
  next
    case (Extremum y xs is_min)
    then show ?thesis using ok by (simp add: con_checked_def)
  next
    case (Element array idx w)
    have b: "D idx = {a idx}" "D w = {a w}" "\<forall>v \<in> set array. D v = {a v}" using wf D1 by (auto simp: Element elem_wf_def)
    have i: "in_array array (a idx)" "D w = D (array ! nat (a idx))" using fx b(1) by (auto simp: Element elem_fix_def)
    then have "array ! nat (a idx) \<in> set array" by (simp add: in_array_def nat_less_iff)
    then show ?thesis using i b by (auto simp: Element elem_sol_def)
  next
    case (ElementConst array idx w)
    have b: "D idx = {a idx}" "D w = {a w}" using wf D1 by (auto simp: ElementConst elemc_wf_def)
    have "elemc_fix array idx w D" using fx by (simp add: ElementConst)
    then have "in_array array (a idx)" "array ! nat (a idx) \<in> D w" unfolding elemc_fix_def b(1) by blast+
    then show ?thesis unfolding b(2) by (simp add: ElementConst elemc_sol_def)
  next
    case (LinearLeq ts k)
    then have "low D ts = row ts a" "high D ts = row ts a" using fixed_row [of n ts D a] wf D by (simp_all add: row_wf_def)
    then show ?thesis using fx by (simp add: LinearLeq lleq_fix_def lleq_sol_def)
  next
    case (LinearEq ts k)
    then have "low D ts = row ts a" "high D ts = row ts a" using fixed_row [of n ts D a] wf D by (simp_all add: row_wf_def)
    then show ?thesis using fx by (simp add: LinearEq leq_eq_fix_def leq_eq_sol_def)
  next
    case (LinearNeq ts k)
    then have t: "terms_in n ts" using wf by (simp add: row_wf_def)
    have "is_fixed_in D v" if "(c, v) \<in> set ts" for c v using D1(1) [of v] t that by (auto simp: terms_in_def fixed_in_iff)
    then have "free_terms D 0 ts = []" by (auto simp: free_terms_def filter_empty_conv in_set_enumerate_eq) (metis nth_mem)
    moreover have "row ts a = fixed_part D ts + row (map snd (free_terms D 0 ts)) a" by (rule row_within [OF t]) (use D1 in auto)
    ultimately show ?thesis using fx by (simp add: LinearNeq lneq_fix_def lneq_sol_def)
  next
    case (BooleanLinearLeq lits bound)
    have v: "\<forall>l \<in> set lits. bl_var l < n" using wf by (simp add: BooleanLinearLeq bool_wf_def)
    have "true_weight lits D = bool_sum lits a"
      unfolding true_weight_def bool_sum_def by (rule arg_cong [where f = sum_list], rule map_cong) (use v D1(1) in auto)
    then show ?thesis using fx sc by (simp add: BooleanLinearLeq bool_fix_def bool_sol_def)
  qed
qed

interpretation chk: checking_propagator con_vtable con_sol con_fix con_watch con_checked con_scope
proof
  fix n p st
  assume ok: "con_checked n p" and st: "ready n st"
  from con.run_law [OF _ st, of p] ok show "\<exists>p' out. v_propagate con_vtable p st = Some (p', out) \<and> sound (con_sol p) st out \<and>
      con_checked n p' \<and> con_sol p' = con_sol p \<and> con_watch p' = con_watch p \<and> (snd out = Ok () \<longrightarrow> con_fix p' (dv (fst out)))"
    by (auto simp: con_checked_def con_vtable_def con_propagate_def)
next
  fix n p D D'
  assume "con_checked n p" "con_fix p D" "\<forall>v < n. D' v \<noteq> {} \<and> D' v \<subseteq> D v \<and> finite (D v)" "\<forall>(e, v) \<in> con_watch p. \<not> occurs e (D v) (D' v)"
  then show "con_fix p D'" using con.wake_law [of n p D D'] by (simp add: con_checked_def)
next
  fix n p st me p' st' fin stops
  assume "con_checked n p" "length (domains st) = n" "slot_free me st" "v_register_until con_vtable p me [] st = (p', st', fin, stops)"
  then show "fin \<and> stops = [] \<and> registered (con_watch p) me st st' \<and> con_checked n p' \<and> con_sol p' = con_sol p \<and> con_watch p' = con_watch p"
    using con_register_law [of n p st me] by (auto simp: con_vtable_def con_checked_def)
next
  fix n p e v
  assume "con_checked n p" "(e, v) \<in> con_watch p"
  then show "v < n" using watches_var [of n p e v] by (simp add: con_checked_def)
next
  fix n m p
  assume "con_checked n p" "n \<le> m"
  then show "con_checked m p" using con_wf_mono [of n p m] by (simp add: con_checked_def)
next
  fix n p D a
  assume "con_checked n p" "con_fix p D" "\<forall>v < n. D v = {a v} \<and> in_i32 (a v)" "con_scope p a"
  then show "con_sol p a" by (rule con_check_law)
qed

text \<open>The modelled propagators keep no state between runs.\<close>

lemma box_unchanged: "box_propagate con_vtable b st = Some (b', out) \<Longrightarrow> b' = b"
  by (induction b arbitrary: st b' out) (auto simp: con_vtable_def con_propagate_def split: if_splits)

lemma run_unchanged:
  assumes "run_prop con_vtable me so = Some (so', r)"
  shows "propagators so' = propagators so"
proof -
  obtain b st so1 where b: "begin_run me so = Some (b, st, so1)" using assms(1) by (auto simp: run_prop_def split: option.splits)
  then have p: "propagators so1 = (propagators so)[me := None]" "propagators so ! me = Some b"
    by (auto simp: begin_run_def Let_def split: option.splits)
  obtain b' out where r: "box_propagate con_vtable b st = Some (b', out)" "end_run me b' out so1 = (so', r)"
    using assms(1) b by (auto simp: run_prop_def)
  have "propagators so' = (propagators so1)[me := Some b]"
    using r box_unchanged [OF r(1)] by (auto simp: end_run_def Let_def split: prod.splits if_splits)
  then show ?thesis using p list_update_id [of "propagators so" me] by simp
qed

lemma propagate_unchanged: "propagate con_vtable so = Some (so', r) \<Longrightarrow> propagators so' = propagators so"
proof -
  have "vt = con_vtable \<longrightarrow> propagators (fst y) = propagators so" if "propagate vt so = Some y" for vt so y
  proof (rule propagate.raw_induct [where P = "\<lambda>vt so y. vt = con_vtable \<longrightarrow> propagators (fst y) = propagators so", OF _ that])
    fix f :: "constraint vtable \<Rightarrow> constraint solver \<Rightarrow> (constraint solver \<times> (unit, inconsistency) result) option"
      and vt :: "constraint vtable" and so y
    assume IH: "\<And>vt so y. f vt so = Some y \<Longrightarrow> vt = con_vtable \<longrightarrow> propagators (fst y) = propagators so"
      and step: "(case dequeue (so_store so) of (None, st) \<Rightarrow> Some (so\<lparr>so_store := st\<rparr>, Ok ())
        | (Some me, st) \<Rightarrow> Option.bind (run_prop vt me (so\<lparr>so_store := st\<rparr>))
            (\<lambda>(so', r). if is_ok r then f vt so' else Some (so', r))) = Some y"
    show "vt = con_vtable \<longrightarrow> propagators (fst y) = propagators so"
    proof
      assume vt: "vt = con_vtable"
      obtain m st where d: "dequeue (so_store so) = (m, st)" by fastforce
      show "propagators (fst y) = propagators so"
      proof (cases m)
        case None
        then show ?thesis using step d by auto
      next
        case (Some me)
        then obtain so1 r1 where run: "run_prop con_vtable me (so\<lparr>so_store := st\<rparr>) = Some (so1, r1)"
          and y: "(if is_ok r1 then f vt so1 else Some (so1, r1)) = Some y"
          using step d vt by (auto simp: bind_eq_Some_conv)
        have p: "propagators so1 = propagators so" using run_unchanged [OF run] by simp
        show ?thesis using y p IH [of vt so1 y] vt by (auto split: if_splits)
      qed
    qed
  qed
  then show "propagate con_vtable so = Some (so', r) \<Longrightarrow> propagators so' = propagators so" by fastforce
qed

end
