(* ===== verification/Idle.thy ===== *)
theory Idle imports Constraints begin

text \<open>
  What the fixpoint conditions are worth: at domains that satisfy the condition of a
  constraint, one more run of its propagator succeeds and changes no domain. The propagator
  of minimum and maximum is the exception; its condition does not promise that.
\<close>

section \<open>Actions that leave every value\<close>

text \<open>
  \<open>idle n D m x\<close>: on domains \<open>D\<close> the action succeeds with \<open>x\<close> and leaves \<open>D\<close>. With every assignment
  counted as a solution a triple excludes failure, because the domains are not empty.
\<close>

definition idle :: "nat \<Rightarrow> (var_id \<Rightarrow> int set) \<Rightarrow> 'a action \<Rightarrow> 'a \<Rightarrow> bool" where
  "idle n D m x \<longleftrightarrow> triple n (\<lambda>_. True) (\<lambda>E. E = D) m (\<lambda>y E. y = x \<and> E = D)"

lemma idleI: "triple n (\<lambda>_. True) (\<lambda>E. E = D) m (\<lambda>_ E. E = D) \<Longrightarrow> idle n D m ()"
  by (simp add: idle_def)

lemma idle_run:
  assumes "idle n D m x" "ready n st" "dv st = D"
  obtains st' where "m st = (st', Ok x)" "ready n st'" "dv st' = D"
proof -
  obtain st' r where run: "m st = (st', r)" by fastforce
  note T = tripleD [OF assms(1) [unfolded idle_def] assms(2,3) run]
  have "within (\<lambda>v. SOME x. x \<in> vals st v) st"
    using assms(2) by (auto simp: ready_def alive_def within_def some_in_eq)
  then obtain a where "within a st" by blast
  then obtain y where "r = Ok y" using T(1) by (cases r) (auto simp: sound_def)
  then show ?thesis using T(2) [of y] run that sound_ready [OF assms(2) T(1)] by simp
qed

lemma idle_ret: "idle n D (a_ret x) x"
  unfolding idle_def by (rule triple_ret) simp

lemma idle_bind: "idle n D m x \<Longrightarrow> idle n D (f x) y \<Longrightarrow> idle n D (a_bind m f) y"
  unfolding idle_def by (rule triple_bind, assumption) (auto simp: triple_def)

lemma idle_then: "idle n D m () \<Longrightarrow> idle n D f y \<Longrightarrow> idle n D (a_then m f) y"
  unfolding a_then_def by (rule idle_bind)

lemma idle_read:
  assumes "\<And>st. \<lbrakk>ready n st; dv st = D; tame n D\<rbrakk> \<Longrightarrow> idle n D (f st) x"
  shows "idle n D (a_read f) x"
  using assms unfolding idle_def by (rule triple_read_at)

lemma idle_for: "(\<And>x. x \<in> set xs \<Longrightarrow> idle n D (f x s) s) \<Longrightarrow> idle n D (a_for f xs s) s"
proof (induction xs)
  case Nil
  show ?case by (simp add: idle_ret)
next
  case (Cons x xs)
  have "idle n D (f x s) s" "idle n D (a_for f xs s) s" using Cons by simp_all
  then show ?case by (simp add: idle_bind)
qed

lemma idle_each: "(\<And>x. x \<in> set xs \<Longrightarrow> idle n D (f x) ()) \<Longrightarrow> idle n D (a_each f xs) ()"
  unfolding a_each_def by (rule idle_for)

lemma idle_value:
  assumes "x < n" "\<And>v. D x = {v} \<Longrightarrow> in_i32 v \<Longrightarrow> idle n D (f v) y" "(\<And>v. D x \<noteq> {v}) \<Longrightarrow> idle n D m y"
  shows "idle n D (a_read (\<lambda>st. case st_value st x of None \<Rightarrow> m | Some v \<Rightarrow> f v)) y"
  using assms unfolding idle_def by (rule triple_value)

lemma idle_remove: "v < n \<Longrightarrow> in_i32 x \<Longrightarrow> x \<notin> D v \<Longrightarrow> idle n D (st_remove v x) ()"
  by (rule idleI, rule triple_remove) (auto simp: allows_all_def)

lemma idle_remove_because: "v < n \<Longrightarrow> in_i32 x \<Longrightarrow> x \<notin> D v \<Longrightarrow> idle n D (remove_because v x why) ()"
  by (rule idleI, rule triple_remove_because) (auto simp: allows_all_def)

lemma idle_fix: "v < n \<Longrightarrow> in_i32 x \<Longrightarrow> D v = {x} \<Longrightarrow> idle n D (st_fix v x) ()"
  by (rule idleI, rule triple_fix) (auto simp: allows_all_def fun_upd_idem)

lemma keep_all: "(\<forall>y \<in> D v. P y) \<Longrightarrow> D(v := {y \<in> D v. P y}) = D"
  by (rule fun_upd_idem) blast

lemma idle_below: "v < n \<Longrightarrow> in_i32 x \<Longrightarrow> \<forall>y \<in> D v. x \<le> y \<Longrightarrow> idle n D (st_remove_below v x) ()"
  by (rule idleI, rule triple_below) (auto simp: allows_all_def intro: keep_all)

lemma idle_above: "v < n \<Longrightarrow> in_i32 x \<Longrightarrow> \<forall>y \<in> D v. y \<le> x \<Longrightarrow> idle n D (st_remove_above v x) ()"
  by (rule idleI, rule triple_above) (auto simp: allows_all_def intro: keep_all)

lemma idle_below_because: "v < n \<Longrightarrow> in_i32 x \<Longrightarrow> \<forall>y \<in> D v. x \<le> y \<Longrightarrow> idle n D (remove_below_because v x why) ()"
  by (rule idleI, rule triple_below_because) (auto simp: allows_all_def intro: keep_all)

lemma idle_above_because: "v < n \<Longrightarrow> in_i32 x \<Longrightarrow> \<forall>y \<in> D v. y \<le> x \<Longrightarrow> idle n D (remove_above_because v x why) ()"
  by (rule idleI, rule triple_above_because) (auto simp: allows_all_def intro: keep_all)

lemma idle_filter:
  assumes v: "v < n" and bad: "\<And>st x. \<lbrakk>ready n st; dv st = D; x \<in> D v\<rbrakk> \<Longrightarrow> \<not> bad x st"
  shows "idle n D (a_filter v bad) ()"
  unfolding a_filter_def
proof (intro idle_read idle_each)
  fix st x st' assume st: "ready n st" "dv st = D" and x: "x \<in> set (st_values st v)" and st': "ready n st'" "dv st' = D"
  have "x \<in> D v" using ready_reads(7) [OF st(1) v] st(2) x by simp
  then show "idle n D (a_when (bad x st') (st_remove v x)) ()" using bad [OF st'] by (simp add: a_when_def idle_ret)
qed

text \<open>A loop whose body reports no change ends after one pass.\<close>

lemma idle_loop:
  assumes "idle n D body False" "ready n st" "dv st = D"
  shows "\<exists>st'. a_loop body st = Some (st', Ok ()) \<and> dv st' = D"
proof -
  obtain st' where "body st = (st', Ok False)" "dv st' = D" using idle_run [OF assms] by metis
  then show ?thesis by (subst a_loop.simps) simp
qed

section \<open>The propagators of \<open>primitives.rs\<close>\<close>

lemma neq_idle: "x < n \<Longrightarrow> y < n \<Longrightarrow> neq_fix x y c D \<Longrightarrow> idle n D (neq_propagate x y c) ()"
  unfolding neq_propagate_def
  by (intro idle_then idle_value idle_remove_because idle_ret) (auto simp: neq_fix_def)

lemma leq_idle:
  assumes v: "x < n" "y < n" and fx: "leq_fix x y k D"
  shows "idle n D (leq_propagate x y k) ()"
  unfolding leq_propagate_def
proof (intro idle_then idle_read)
  fix st assume st: "ready n st" "dv st = D" and tm: "tame n D"
  have "z \<le> sat_i32 (Max (D y) - k)" if "z \<in> D x" for z
    using Max_ge [OF tameD(1) [OF tm v(1)] that] fx by (simp add: leq_fix_def)
  then show "idle n D (let my = st_max st y in remove_above_because x (sat_i32 (my - k)) [PLe y my]) ()"
    using ready_reads(4) [OF st(1) v(2)] st(2) v by (simp add: idle_above_because Let_def)
next
  fix st assume st: "ready n st" "dv st = D" and tm: "tame n D"
  have "sat_i32 (Min (D x) + k) \<le> z" if "z \<in> D y" for z
    using Min_le [OF tameD(1) [OF tm v(2)] that] fx by (simp add: leq_fix_def)
  then show "idle n D (let mx = st_min st x in remove_below_because y (sat_i32 (mx + k)) [PGe x mx]) ()"
    using ready_reads(3) [OF st(1) v(1)] st(2) v by (simp add: idle_below_because Let_def)
qed

lemma inst_idle:
  assumes "\<forall>(v, x) \<in> set (zip vs xs). v < n \<and> in_i32 x" "inst_fix vs xs D"
  shows "idle n D (inst_propagate vs xs) ()"
  unfolding inst_propagate_def
  by (rule idle_each) (use assms in \<open>fastforce simp: inst_fix_def intro: idle_fix\<close>)

lemma alleq_idle:
  assumes vs: "\<forall>v \<in> set vs. v < n" and fx: "alleq_fix vs D"
  shows "idle n D (alleq_propagate vs) ()"
proof (cases "length vs < 2")
  case True
  then show ?thesis by (simp add: alleq_propagate_def idle_ret)
next
  case False
  then obtain v0 us where v0: "vs = v0 # us" by (cases vs) auto
  show ?thesis
    unfolding alleq_propagate_def if_not_P [OF False] Let_def
  proof (intro idle_read idle_each idle_filter)
    fix st v st' x assume st: "ready n st" "dv st = D" and v: "v \<in> set vs" and x: "x \<in> D v"
    have "x \<in> D u" if "u \<in> set vs" for u using fx x v that unfolding alleq_fix_def by blast
    then show "\<not> x \<notin> set (filter (\<lambda>x. \<forall>u \<in> set (tl vs). st_contains st u x) (st_values st (hd vs)))"
      using ready_reads(5,7) [OF st(1)] st(2) vs v0 by auto
  qed (use vs in blast)
qed

lemma index_idle:
  assumes idx: "idx < n" and len: "int (length array) \<le> i32_max" and fx: "\<forall>i \<in> D idx. in_array array i"
  shows "idle n D (index_bounds idx array) ()"
proof -
  have i32: "in_i32 0" "in_i32 (int (length array) - 1)" "in_i32 (int (length array))" using len by (simp_all add: in_i32_def i32_min_def)
  show ?thesis
    unfolding index_bounds_def Let_def as_i32_id [OF i32(3)] as_i32_id [OF i32(2)]
    by (intro idle_then idle_below idle_above idx i32) (use fx in \<open>auto simp: in_array_def\<close>)
qed

lemma equate_idle: "a < n \<Longrightarrow> b < n \<Longrightarrow> D a = D b \<Longrightarrow> idle n D (equate a b) ()"
  unfolding equate_def by (intro idle_then idle_filter) (auto simp: ready_reads(5))

lemma elem_idle:
  assumes w: "elem_wf n array idx value" and fx: "elem_fix array idx value D"
  shows "idle n D (elem_propagate array idx value) ()"
proof -
  have v: "idx < n" "value < n" "int (length array) \<le> i32_max" using w by (simp_all add: elem_wf_def)
  have arr: "in_array array i" "array ! nat i < n" "D (array ! nat i) \<inter> D value \<noteq> {}" if "i \<in> D idx" for i
  proof -
    show "in_array array i" "D (array ! nat i) \<inter> D value \<noteq> {}" using fx that by (auto simp: elem_fix_def)
    then have "array ! nat i \<in> set array" by (simp add: in_array_def nat_less_iff)
    then show "array ! nat i < n" using w by (auto simp: elem_wf_def)
  qed
  show ?thesis
    unfolding elem_propagate_def
  proof (intro idle_then idle_value index_idle v)
    show "idle n D (a_filter idx (\<lambda>i st. \<not> (\<exists>x \<in> set (st_values st (array ! nat i)). st_contains st value x))) ()"
    proof (rule idle_filter [OF v(1)])
      fix st i assume st: "ready n st" "dv st = D" and i: "i \<in> D idx"
      show "\<not> \<not> (\<exists>x \<in> set (st_values st (array ! nat i)). st_contains st value x)"
        unfolding ready_reads(7) [OF st(1) arr(2) [OF i]] ready_reads(5) [OF st(1) v(2)] st(2) not_not using arr(3) [OF i] by blast
    qed
    show "idle n D (equate value (array ! nat i)) ()" if "D idx = {i}" for i
      by (rule equate_idle) (use v arr fx that in \<open>auto simp: elem_fix_def\<close>)
    show "idle n D (a_filter value (\<lambda>x st. \<not> (\<exists>i \<in> set (st_values st idx). st_contains st (array ! nat i) x))) ()"
    proof (rule idle_filter [OF v(2)])
      fix st x assume st: "ready n st" "dv st = D" and x: "x \<in> D value"
      obtain i where "i \<in> D idx" "x \<in> D (array ! nat i)" using fx x unfolding elem_fix_def by blast
      then show "\<not> \<not> (\<exists>i \<in> set (st_values st idx). st_contains st (array ! nat i) x)"
        using ready_reads(7) [OF st(1) v(1)] ready_reads(5) [OF st(1) arr(2)] st(2) by blast
    qed
  qed (use arr in blast)
qed

lemma elemc_idle:
  assumes w: "elemc_wf n array idx value" and fx: "elemc_fix array idx value D"
  shows "idle n D (elemc_propagate array idx value) ()"
proof -
  have v: "idx < n" "value < n" "int (length array) \<le> i32_max" using w by (simp_all add: elemc_wf_def)
  have arr: "in_array array i" "array ! nat i \<in> D value" if "i \<in> D idx" for i using fx that by (auto simp: elemc_fix_def)
  then have i32: "in_i32 (array ! nat i)" if "i \<in> D idx" for i
    using w that by (fastforce simp: elemc_wf_def in_array_def nat_less_iff)
  have all: "\<exists>i \<in> D idx. x = array ! nat i" if "x \<in> D value" for x using fx that by (simp add: elemc_fix_def)
  show ?thesis
    unfolding elemc_propagate_def
  proof (intro idle_then idle_value index_idle v)
    show "idle n D (a_filter idx (\<lambda>i st. \<not> st_contains st value (array ! nat i))) ()"
      by (rule idle_filter [OF v(1)]) (simp add: ready_reads(5) [OF _ v(2)] arr)
    show "idle n D (st_fix value (array ! nat i)) ()" if i: "D idx = {i}" for i
    proof (rule idle_fix [OF v(2)])
      have "i \<in> D idx" using i by simp
      then show "in_i32 (array ! nat i)" by (rule i32)
      have sub: "D value \<subseteq> {array ! nat i}"
      proof
        fix x assume "x \<in> D value"
        from all [OF this] show "x \<in> {array ! nat i}" unfolding i by blast
      qed
      show "D value = {array ! nat i}" using arr(2) [OF \<open>i \<in> D idx\<close>] subset_singletonD [OF sub] by blast
    qed
    show "idle n D (a_filter value (\<lambda>x st. \<not> (\<exists>i \<in> set (st_values st idx). array ! nat i = x))) ()"
    proof (rule idle_filter [OF v(2)])
      fix st x assume st: "ready n st" "dv st = D" and x: "x \<in> D value"
      show "\<not> \<not> (\<exists>i \<in> set (st_values st idx). array ! nat i = x)"
        unfolding ready_reads(7) [OF st(1) v(1)] st(2) not_not using all [OF x] by blast
    qed
  qed (use arr in blast)
qed

section \<open>Sign products\<close>

lemma sign_idle:
  assumes v: "y < n" "x < n" "z < n" and fx: "sign_fix D (y, x, z)"
  shows "idle n D (sign_step (y, x, z) changed) changed"
  unfolding sign_step.simps
proof (rule idle_read)
  fix st assume st: "ready n st" "dv st = D"
  note val = ready_value [OF st(1), unfolded st(2)]
  have single: "single D v \<longleftrightarrow> st_value st v \<noteq> None" if "v < n" for v using val [OF that] by (auto simp: single_def)
  have same: "yv = as_i32 (xv * zv)" if "st_value st y = Some yv" "st_value st x = Some xv" "st_value st z = Some zv" for yv xv zv
    using fx that val v by simp
  show "idle n D (case (st_value st y, st_value st x, st_value st z) of
        (Some yv, Some xv, Some zv) \<Rightarrow>
          if yv \<noteq> as_i32 (xv * zv) then failing [PEq y yv, PEq x xv, PEq z zv] else a_ret changed
      | (None, Some xv, Some zv) \<Rightarrow> a_bind (fix_sign_product y (as_i32 (xv * zv)) x z) (\<lambda>c. a_ret (changed \<or> c))
      | (Some yv, None, Some zv) \<Rightarrow> a_bind (fix_sign_product x (as_i32 (yv * zv)) y z) (\<lambda>c. a_ret (changed \<or> c))
      | (Some yv, Some xv, None) \<Rightarrow> a_bind (fix_sign_product z (as_i32 (yv * xv)) y x) (\<lambda>c. a_ret (changed \<or> c))
      | _ \<Rightarrow> a_ret changed) changed"
    using fx single v same
    by (cases "st_value st y"; cases "st_value st x"; cases "st_value st z") (auto simp: idle_ret)
qed

lemma signs_idle:
  assumes "\<forall>(y, x, z) \<in> set terms. y < n \<and> x < n \<and> z < n" "signs_fix terms D"
  shows "idle n D (a_for sign_step terms False) False"
  by (rule idle_for) (use assms in \<open>auto simp: signs_fix_def simp del: sign_fix.simps sign_step.simps intro!: sign_idle\<close>)

section \<open>Rows\<close>

text \<open>A bound that is met is not tightened.\<close>

lemma upper_bound_kept:
  assumes tm: "tame n D" and v: "v < n" and le: "low D ts - tlow D (a, v) + thigh D (a, v) \<le> c"
  shows "a > 0 \<Longrightarrow> Max (D v) \<le> clamp_i32 (floor_div (c - (low D ts - tlow D (a, v))) a)"
    "a < 0 \<Longrightarrow> clamp_i32 (ceil_div (c - (low D ts - tlow D (a, v))) a) \<le> Min (D v)"
proof -
  note t = tameD [OF tm v]
  show "a > 0 \<Longrightarrow> Max (D v) \<le> clamp_i32 (floor_div (c - (low D ts - tlow D (a, v))) a)"
    by (rule clamp_bounds(1) [OF t(5)]) (use le in \<open>simp add: div_bounds(1) thigh_def\<close>)
  show "a < 0 \<Longrightarrow> clamp_i32 (ceil_div (c - (low D ts - tlow D (a, v))) a) \<le> Min (D v)"
    by (rule clamp_bounds(2) [OF t(4)]) (use le in \<open>simp add: div_bounds(4) thigh_def\<close>)
qed

lemma lower_bound_kept:
  assumes tm: "tame n D" and v: "v < n" and le: "c \<le> high D ts - thigh D (a, v) + tlow D (a, v)"
  shows "a > 0 \<Longrightarrow> clamp_i32 (ceil_div (c - (high D ts - thigh D (a, v))) a) \<le> Min (D v)"
    "a < 0 \<Longrightarrow> Max (D v) \<le> clamp_i32 (floor_div (c - (high D ts - thigh D (a, v))) a)"
proof -
  note t = tameD [OF tm v]
  show "a > 0 \<Longrightarrow> clamp_i32 (ceil_div (c - (high D ts - thigh D (a, v))) a) \<le> Min (D v)"
    by (rule clamp_bounds(2) [OF t(4)]) (use le in \<open>simp add: div_bounds(3) tlow_def\<close>)
  show "a < 0 \<Longrightarrow> Max (D v) \<le> clamp_i32 (floor_div (c - (high D ts - thigh D (a, v))) a)"
    by (rule clamp_bounds(1) [OF t(5)]) (use le in \<open>simp add: div_bounds(2) tlow_def\<close>)
qed

lemma kept_above: "before \<le> bound \<Longrightarrow> idle n D (tighten_above v bound before why ch) ch"
  by (simp add: tighten_above_def idle_ret)

lemma kept_below: "bound \<le> before \<Longrightarrow> idle n D (tighten_below v bound before why ch) ch"
  by (simp add: tighten_below_def idle_ret)

lemma lleq_step_idle:
  assumes wf: "row_wf n ts c" and tm: "tame n D" and i: "i < length ts" and le: "low D ts - tlow D (ts ! i) + thigh D (ts ! i) \<le> c"
  shows "idle n D (lleq_step ts c (low D ts) (map (tlow D) ts) (i, ts ! i) ch) ch"
proof -
  obtain a v where t: "ts ! i = (a, v)" by fastforce
  have mem: "(a, v) \<in> set ts" using i t by (metis nth_mem)
  have v: "v < n" using row_wf_term [OF wf mem] .
  have al: "as_i64 (c - as_i64 (low D ts - map (tlow D) ts ! i)) = c - (low D ts - tlow D (a, v))"
    using allowed_exact(1) [OF wf tm mem] i t by simp
  note kept = upper_bound_kept [OF tm v le [unfolded t]]
  have "idle n D (a_read (\<lambda>st. if a > 0 then tighten_above v (clamp_i32 (floor_div (c - (low D ts - tlow D (a, v))) a)) (st_max st v) (min_side ts (Some i)) ch
      else tighten_below v (clamp_i32 (ceil_div (c - (low D ts - tlow D (a, v))) a)) (st_min st v) (min_side ts (Some i)) ch)) ch" if "a \<noteq> 0"
  proof (rule idle_read)
    fix st assume st: "ready n st" "dv st = D"
    have "st_min st v = Min (D v)" "st_max st v = Max (D v)" using ready_reads(3,4) [OF st(1) v] st(2) by simp_all
    then show "idle n D (if a > 0 then tighten_above v (clamp_i32 (floor_div (c - (low D ts - tlow D (a, v))) a)) (st_max st v) (min_side ts (Some i)) ch
        else tighten_below v (clamp_i32 (ceil_div (c - (low D ts - tlow D (a, v))) a)) (st_min st v) (min_side ts (Some i)) ch) ch"
      using kept that by (cases "a > 0") (auto intro!: kept_above kept_below)
  qed
  then show ?thesis by (simp add: t al Let_def idle_ret)
qed

lemma lleq_idle:
  assumes wf: "row_wf n ts c" and fx: "lleq_fix ts c D"
  shows "idle n D (lleq_body ts c) False"
  unfolding lleq_body_def
proof (rule idle_read)
  fix st assume st: "ready n st" "dv st = D" and tm: "tame n D"
  have w: "terms_in n ts" "fits ts c" using wf by (simp_all add: row_wf_def)
  have rr: "row_range st ts = (low D ts, high D ts)" using row_range_exact [OF st(1) w] st(2) by simp
  have tr: "map (\<lambda>t. fst (term_range st t)) ts = map (tlow D) ts" using term_range_fits [OF st(1) w] st(2) by simp
  have "idle n D (a_for (lleq_step ts c (low D ts) (map (tlow D) ts)) (enumerate 0 ts) False) False"
  proof (rule idle_for)
    fix x assume "x \<in> set (enumerate 0 ts)"
    then obtain i where i: "i < length ts" "x = (i, ts ! i)" by (auto simp: in_set_enumerate_eq)
    show "idle n D (lleq_step ts c (low D ts) (map (tlow D) ts) x False) False"
      unfolding i(2) by (rule lleq_step_idle [OF wf tm i(1)]) (use fx i(1) in \<open>simp_all add: lleq_fix_def\<close>)
  qed
  then show "idle n D (case row_range st ts of (sum_min, sum_max) \<Rightarrow>
     if sum_min > c then failing (min_side ts None st) else if sum_max \<le> c then a_ret False
     else a_for (lleq_step ts c sum_min (map (\<lambda>t. fst (term_range st t)) ts)) (enumerate 0 ts) False) False"
    using fx by (simp add: rr tr lleq_fix_def idle_ret)
qed

lemma leq_eq_step_idle:
  assumes wf: "row_wf n ts c" and tm: "tame n D" and i: "i < length ts"
    and le: "low D ts - tlow D (ts ! i) + thigh D (ts ! i) \<le> c" "c \<le> high D ts - thigh D (ts ! i) + tlow D (ts ! i)"
  shows "idle n D (leq_eq_step ts c (low D ts) (high D ts) (map (tlow D) ts) (map (thigh D) ts) (i, ts ! i) ch) ch"
proof -
  obtain a v where t: "ts ! i = (a, v)" by fastforce
  have mem: "(a, v) \<in> set ts" using i t by (metis nth_mem)
  have v: "v < n" using row_wf_term [OF wf mem] .
  have al: "as_i64 (c - as_i64 (low D ts - map (tlow D) ts ! i)) = c - (low D ts - tlow D (a, v))"
    "as_i64 (c - as_i64 (high D ts - map (thigh D) ts ! i)) = c - (high D ts - thigh D (a, v))"
    using allowed_exact [OF wf tm mem] i t by simp_all
  note k1 = upper_bound_kept [OF tm v le(1) [unfolded t]] and k2 = lower_bound_kept [OF tm v le(2) [unfolded t]]
  let ?thi = "c - (low D ts - tlow D (a, v))" and ?tlo = "c - (high D ts - thigh D (a, v))"
  define lo where "lo = clamp_i32 (if a > 0 then ceil_div ?tlo a else ceil_div ?thi a)"
  define hi where "hi = clamp_i32 (if a > 0 then floor_div ?thi a else floor_div ?tlo a)"
  let ?W = "\<lambda>b. if b then max_side ts (Some i) else min_side ts (Some i)"
  show ?thesis
  proof (cases "a = 0")
    case False
    have step: "leq_eq_step ts c (low D ts) (high D ts) (map (tlow D) ts) (map (thigh D) ts) (i, a, v) ch = a_read (\<lambda>st.
        a_bind (tighten_below v lo (st_min st v) (?W (a > 0)) ch) (tighten_above v hi (st_max st v) (?W (\<not> a > 0))))"
      using False by (auto simp: al Let_def lo_def hi_def)
    have b: "lo \<le> Min (D v)" "Max (D v) \<le> hi" using k1 k2 False by (cases "a > 0"; simp add: lo_def hi_def)+
    show ?thesis
      unfolding t step
    proof (rule idle_read)
      fix st assume st: "ready n st" "dv st = D"
      have "st_min st v = Min (D v)" "st_max st v = Max (D v)" using ready_reads(3,4) [OF st(1) v] st(2) by simp_all
      then show "idle n D (a_bind (tighten_below v lo (st_min st v) (?W (a > 0)) ch) (tighten_above v hi (st_max st v) (?W (\<not> a > 0)))) ch"
        using b by (auto intro!: idle_bind kept_below kept_above)
    qed
  qed (simp add: t idle_ret)
qed

lemma leq_eq_idle:
  assumes wf: "row_wf n ts c" and fx: "leq_eq_fix ts c D"
  shows "idle n D (leq_eq_body ts c) False"
  unfolding leq_eq_body_def
proof (rule idle_read)
  fix st assume st: "ready n st" "dv st = D" and tm: "tame n D"
  have w: "terms_in n ts" "fits ts c" using wf by (simp_all add: row_wf_def)
  have rr: "row_range st ts = (low D ts, high D ts)" using row_range_exact [OF st(1) w] st(2) by simp
  have tr: "map (\<lambda>t. fst (term_range st t)) ts = map (tlow D) ts" "map (\<lambda>t. snd (term_range st t)) ts = map (thigh D) ts"
    using term_range_fits [OF st(1) w] st(2) by simp_all
  have "idle n D (a_for (leq_eq_step ts c (low D ts) (high D ts) (map (tlow D) ts) (map (thigh D) ts)) (enumerate 0 ts) False) False"
  proof (rule idle_for)
    fix x assume "x \<in> set (enumerate 0 ts)"
    then obtain i where i: "i < length ts" "x = (i, ts ! i)" by (auto simp: in_set_enumerate_eq)
    show "idle n D (leq_eq_step ts c (low D ts) (high D ts) (map (tlow D) ts) (map (thigh D) ts) x False) False"
      unfolding i(2) by (rule leq_eq_step_idle [OF wf tm i(1)]) (use fx i(1) in \<open>simp_all add: leq_eq_fix_def\<close>)
  qed
  then show "idle n D (case row_range st ts of (sum_min, sum_max) \<Rightarrow>
     if sum_min > c then failing (min_side ts None st) else if sum_max < c then failing (max_side ts None st)
     else a_for (leq_eq_step ts c sum_min sum_max (map (\<lambda>t. fst (term_range st t)) ts) (map (\<lambda>t. snd (term_range st t)) ts)) (enumerate 0 ts) False) False"
    using fx by (simp add: rr tr leq_eq_fix_def)
qed

lemma lneq_idle:
  assumes wf: "row_wf n ts c" and fx: "lneq_fix ts c D"
  shows "idle n D (lneq_propagate ts c) ()"
  unfolding lneq_propagate_def
proof (rule idle_read)
  fix st assume st: "ready n st" "dv st = D" and tm: "tame n D"
  let ?fs = "fixed_part D ts" and ?fr = "free_terms D 0 ts"
  have w: "terms_in n ts" and wt: "weight ts * 2147483648 + \<bar>c\<bar> < 2305843009213693952" using wf by (simp_all add: row_wf_def fits_def)
  have scan: "lneq_scan ts st = (?fs, (if ?fr = [] then None else Some (fst (last ?fr))), length ?fr)"
    using scan_exact [OF st(1) w, of 0 0 None 0] wt st(2) by (simp add: lneq_scan_def)
  have rem: "as_i64 (c - ?fs) = c - ?fs" using fixed_part_bound [OF tm w] wt by (intro as_i64_id small_in_i64) linarith
  consider (none) "?fr = []" | (one) i a v where "?fr = [(i, a, v)]" | (more) "length ?fr > 1"
    by (cases ?fr rule: list.exhaust; cases "tl ?fr") auto
  then show "idle n D (case lneq_scan ts st of (fixed_sum, free, free_count) \<Rightarrow>
     if free_count = 0 then (if fixed_sum = c then a_fail else a_ret ())
     else if free_count = 1 then
       (case free of None \<Rightarrow> a_ret () | Some i \<Rightarrow> case ts ! i of (a, v) \<Rightarrow>
          if a \<noteq> 0 then
            let rem = as_i64 (c - fixed_sum)
            in if rust_rem rem a = 0 then
                 let forbidden = rust_div rem a
                 in if i32_min \<le> forbidden \<and> forbidden \<le> i32_max then st_remove v (as_i32 forbidden) else a_ret ()
               else a_ret ()
          else a_ret ())
     else a_ret ()) ()"
  proof cases
    case none
    then show ?thesis using fx by (simp add: scan lneq_fix_def idle_ret)
  next
    case more
    then show ?thesis by (auto simp: scan idle_ret)
  next
    case (one i a v)
    note nth = free_nth [OF one]
    have v: "v < n" using nth w by (auto simp: terms_in_def)
    have "rust_div (c - ?fs) a \<notin> D v" if "a \<noteq> 0" "rust_rem (c - ?fs) a = 0"
      using fx one rust_div_exact [OF that(1), of "rust_div (c - ?fs) a" "c - ?fs"] that by (auto simp: lneq_fix_def)
    then show ?thesis
      using nth v by (auto simp: scan one rem Let_def idle_ret in_i32_def as_i32_id intro!: idle_remove)
  qed
qed

lemma bool_idle:
  assumes wf: "bool_wf n lits bound" and fx: "bool_fix lits bound D"
  shows "idle n D (bool_propagate lits bound) ()"
  unfolding bool_propagate_def
proof (rule idle_read)
  fix st assume st: "ready n st" "dv st = D"
  let ?T = "true_weight lits D"
  have pos: "\<forall>l \<in> set lits. 0 < bl_weight l" using wf by (auto simp: bool_wf_def)
  have ts: "bool_true_sum lits st = ?T" using true_sum_exact [OF st(1) wf] st(2) by simp
  have sl: "as_i128 (bound - ?T) = bound - ?T"
    using true_weight_bounds [OF pos, of D] wf by (intro as_i128_id) (auto simp: bool_wf_def)
  have "idle n D (bool_step lits bound (bound - ?T) x) ()" if x: "x \<in> set (enumerate 0 lits)" for x
  proof -
    obtain i l where xl: "x = (i, l)" by fastforce
    then have l: "l \<in> set lits" using x by (auto simp: in_set_enumerate_eq)
    have v: "bl_var l < n" and f: "is_fixed_in D (bl_var l) \<or> bl_weight l \<le> bound - ?T"
      using wf fx l by (auto simp: bool_wf_def bool_fix_def)
    have "st_is_fixed st1 (bl_var l) \<longleftrightarrow> is_fixed_in D (bl_var l)" if "ready n st1" "dv st1 = D" for st1
      using ready_reads(6) [OF that(1) v] that(2) by (simp add: fixed_in_iff card_1_singleton_iff)
    then show ?thesis using f by (auto simp: bool_step_def xl idle_ret intro!: idle_read)
  qed
  then have "idle n D (a_each (bool_step lits bound (bound - ?T)) (enumerate 0 lits)) ()" by (rule idle_each)
  then show "idle n D (let true_sum = bool_true_sum lits st
     in if true_sum > bound then (if explain st then failing (reason_above lits st bound None) else a_fail)
        else a_each (bool_step lits bound (as_i128 (bound - true_sum))) (enumerate 0 lits)) ()"
    using fx by (simp add: ts sl bool_fix_def)
qed

section \<open>All of them\<close>

text \<open>Another run of the propagator succeeds and leaves every domain.\<close>

lemma con_idle:
  assumes wf: "con_checked n p" and fx: "con_fix p (dv st)" and st: "ready n st"
  shows "\<exists>st'. con_run p st = Some (st', Ok ()) \<and> dv st' = dv st"
proof -
  have once: "\<exists>st'. Some (m st) = Some (st', Ok ()) \<and> dv st' = dv st" if "idle n (dv st) m ()" for m
    using idle_run [OF that st refl] by force
  show ?thesis
  proof (cases p)
    case (NotEqualOffset x y c)
    then show ?thesis using wf fx once [OF neq_idle] by (simp add: con_checked_def)
  next
    case (SignProducts terms)
    then show ?thesis using wf fx idle_loop [OF signs_idle st refl] by (simp add: con_checked_def signs_propagate_def)
  next
    case (LessOrEqual x y k)
    then show ?thesis using wf fx once [OF leq_idle] by (simp add: con_checked_def)
  next
    case (Instantiation vs xs)
    then show ?thesis using wf fx once [OF inst_idle] by (simp add: con_checked_def)
  next
    case (AllEqual vs)
    then show ?thesis using wf fx once [OF alleq_idle] by (simp add: con_checked_def)
  next
    case (Extremum y xs is_min)
    then show ?thesis using wf by (simp add: con_checked_def)
  next
    case (Element array idx w)
    then show ?thesis using wf fx once [OF elem_idle] by (simp add: con_checked_def)
  next
    case (ElementConst array idx w)
    then show ?thesis using wf fx once [OF elemc_idle] by (simp add: con_checked_def)
  next
    case (LinearLeq ts c)
    then show ?thesis using wf fx idle_loop [OF lleq_idle st refl] by (simp add: con_checked_def lleq_propagate_def)
  next
    case (LinearEq ts c)
    then show ?thesis using wf fx idle_loop [OF leq_eq_idle st refl] by (simp add: con_checked_def leq_eq_propagate_def)
  next
    case (LinearNeq ts c)
    then show ?thesis using wf fx once [OF lneq_idle] by (simp add: con_checked_def)
  next
    case (BooleanLinearLeq lits bound)
    then show ?thesis using wf fx once [OF bool_idle] by (simp add: con_checked_def)
  qed
qed

text \<open>With its guards: a box whose selector is not yet true does nothing.\<close>

lemma box_idle:
  assumes "wf_of con_checked n b" "fix_of con_fix b (dv st)" "ready n st"
  shows "\<exists>st'. box_propagate con_vtable b st = Some (b, (st', Ok ())) \<and> dv st' = dv st"
  using assms
proof (induction b arbitrary: st)
  case (Boxed p)
  then show ?case using con_idle [of n p st] by (auto simp: con_vtable_def con_propagate_def)
next
  case (Selected s b)
  have s: "s < n" "wf_of con_checked n b" using Selected.prems(1) by simp_all
  note val = ready_value [OF Selected.prems(3) s(1), of 1] and rd = ready_reads [OF Selected.prems(3) s(1)]
  show ?case
  proof (cases "dv st s = {1}")
    case False
    then show ?thesis using val by simp
  next
    case True
    let ?st1 = "set_injected_premise (PEq s 1) st"
    have nt: "noted st ?st1" unfolding set_injected_premise_def by (rule noted_self)
    have "ready n ?st1" "dv ?st1 = dv st" using noted_same(7,9) [OF nt] Selected.prems(3) by simp_all
    then obtain st2 where r: "box_propagate con_vtable b ?st1 = Some (b, (st2, Ok ()))" "dv st2 = dv st"
      using Selected.IH [OF s(2), of ?st1] Selected.prems(2) True by auto
    have "\<exists>st'. close_guard (PEq s 1) (st2, Ok ()) = (st', Ok ()) \<and> dv st' = dv st"
      using con.close_guard_sound(2,3) [of "PEq s 1" "(st2, Ok ())"] r(2)
      by (cases "close_guard (PEq s 1) (st2, Ok ())") auto
    then show ?thesis using val rd(6) True r(1) by (auto simp: card_1_singleton_iff)
  qed
qed

section \<open>Propagators of a solver\<close>

text \<open>The constraint under the guards.\<close>

fun unboxed :: "'p boxed \<Rightarrow> 'p" where
  "unboxed (Boxed p) = p"
| "unboxed (Selected s b) = unboxed b"

lemma wf_of_unboxed: "wf_of con_wf n b \<Longrightarrow> \<not> is_extremum (unboxed b) \<Longrightarrow> wf_of con_checked n b"
  by (induction b) (auto simp: con_checked_def)

lemma run_idle:
  assumes inv: "solver_ok con_watch con_wf n so" "alive (so_store so)" and i: "i < length (propagators so)"
    and fx: "fix_of con_fix (slot so i) (dv (so_store so))" and ne: "\<not> is_extremum (unboxed (slot so i))"
  shows "\<exists>s. run_prop con_vtable i so = Some (s, Ok ()) \<and> (\<forall>v < n. vals (so_store s) v = vals (so_store so) v)"
proof -
  let ?st = "so_store so" and ?b = "slot so i"
  let ?st1 = "(clear_pending ?st)\<lparr>current := Some i\<rparr>"
  have h: "held_in con_watch con_wf n so i ?b" by (rule con.inv_held [OF inv(1) i])
  obtain so1 where so1: "begin_run i so = Some (?b, ?st1, so1)"
    using con.begin_run_held [OF h] by metis
  note nt = noted_same [OF con.clear_pending_noted [of ?st]] and nf = noted_fields [OF con.clear_pending_noted [of ?st]]
  have n: "good ?st" "length (domains ?st) = n" using inv(1) by (simp_all add: solver_ok_def)
  have rdy: "ready n ?st1" and d: "dv ?st1 = dv ?st" using n inv(2) by (simp_all add: ready_def con.current_same nt nf)
  have "wf_of con_checked n ?b" using wf_of_unboxed [OF _ ne] h by (simp add: held_in_def)
  then obtain st' where r: "box_propagate con_vtable ?b ?st1 = Some (?b, (st', Ok ()))" "dv st' = dv ?st"
    using box_idle [of n ?b ?st1] fx rdy d by auto
  have "vals st' v = vals ?st v" if "v < n" for v
  proof -
    have "vals ?st v \<noteq> {}" "dv ?st v = vals ?st v" using that n(2) inv(2) by (simp_all add: alive_def dv_def)
    then show ?thesis using fun_cong [OF r(2), of v] by (auto simp: dv_def split: if_splits)
  qed
  then show ?thesis using so1 r(1) by (auto simp: run_prop_def end_run_def con.current_same)
qed

end
