(* ===== verification/SolverSpec.thy ===== *)
theory SolverSpec imports Idle begin

text \<open>
  The solver with the modelled constraints: posting keeps it well-formed, propagation ends at
  a common fixpoint without losing a solution, a fixpoint with every variable fixed is a
  solution (minimum and maximum excepted), and the cached weights are the weighted degrees.
\<close>

section \<open>A sample solver\<close>

text \<open>\<open>v0\<close> in 0..1 and \<open>v1\<close> in 0..3, then \<open>v1 + 1 <= v0\<close>.\<close>

definition pair_solver :: "constraint solver" where
  "pair_solver = (case solver_new_var 0 1 solver_new of None \<Rightarrow> solver_new
     | Some (so1, _) \<Rightarrow> (case solver_new_var 0 3 so1 of None \<Rightarrow> solver_new | Some (so2, _) \<Rightarrow> so2))"

definition ordered_solver :: "constraint solver" where
  "ordered_solver = (case post con_vtable (Boxed (LessOrEqual 1 0 1)) pair_solver of None \<Rightarrow> solver_new | Some (so, _) \<Rightarrow> so)"

lemma pair_solver_ok:
  "solver_ok con_watch con_wf 2 pair_solver" "alive (so_store pair_solver)" "settled_for con_fix E pair_solver"
  "st_view (so_store pair_solver) = [{0..1}, {0..3}]" "current_selector pair_solver = None" "propagators pair_solver = []"
proof -
  have i: "in_i32 0" "in_i32 1" "in_i32 3" "(0 :: int) \<le> 1" "(0 :: int) \<le> 3" "1 - 0 < i32_max" "3 - 0 < i32_max" by code_simp+
  have al: "alive (so_store (solver_new :: constraint solver))" by (simp add: alive_def solver_new_def good_new)
  obtain so1 where a: "solver_new_var 0 1 (solver_new :: constraint solver) = Some (so1, 0)" "solver_ok con_watch con_wf (Suc 0) so1"
    "alive (so_store so1)" "\<And>E. settled_for con_fix E so1" "st_view (so_store so1) = st_view (so_store (solver_new :: constraint solver)) @ [{0..1}]"
    "current_selector so1 = current_selector (solver_new :: constraint solver)" "propagators so1 = propagators (solver_new :: constraint solver)"
    using con.new_var_inv [OF con.new_inv(1) al i(1,2,4,6)] con.new_inv(2) by metis
  obtain so2 where b: "solver_new_var 0 3 so1 = Some (so2, Suc 0)" "solver_ok con_watch con_wf (Suc (Suc 0)) so2"
    "alive (so_store so2)" "\<And>E. settled_for con_fix E so2" "st_view (so_store so2) = st_view (so_store so1) @ [{0..3}]"
    "current_selector so2 = current_selector so1" "propagators so2 = propagators so1"
    using con.new_var_inv [OF a(2,3) i(1,3,5,7)] a(4) by metis
  have p: "pair_solver = so2" by (simp add: pair_solver_def a b)
  have "st_view (so_store (solver_new :: constraint solver)) = []" by (simp add: solver_new_def st_view_def good_new)
  then show "solver_ok con_watch con_wf 2 pair_solver" "alive (so_store pair_solver)" "settled_for con_fix E pair_solver"
    "st_view (so_store pair_solver) = [{0..1}, {0..3}]" "current_selector pair_solver = None" "propagators pair_solver = []"
    using a b by (simp_all add: p numeral_2_eq_2 solver_new_def)
qed

section \<open>Posting\<close>

text \<open>
  C11. Posting a well-formed constraint never panics, gives it the next id and keeps the
  solver well-formed: domains, queue and subscriptions consistent, every slot filled with a
  well-formed propagator that is subscribed to all it must be woken by. The solutions become
  those that satisfy the constraint as well, or only if the selector of the group is 1 when
  there is one.
\<close>

theorem posting_keeps_solver:
  assumes "solver_ok con_watch con_wf n so" "wf_of con_wf n b" "\<forall>s. current_selector so = Some s \<longrightarrow> s < n"
  shows "\<exists>so'. post con_vtable b so = Some (so', length (propagators so)) \<and> solver_ok con_watch con_wf n so' \<and>
    (\<forall>a. all_posted con_sol so' a \<longleftrightarrow> all_posted con_sol so a \<and>
       (case current_selector so of None \<Rightarrow> sol_of con_sol b a | Some s \<Rightarrow> a s = 1 \<longrightarrow> sol_of con_sol b a))"
proof -
  obtain so' me where "post con_vtable b so = Some (so', me)" "me = length (propagators so)" "solver_ok con_watch con_wf n so'"
    "\<And>a. all_posted con_sol so' a \<longleftrightarrow> all_posted con_sol so a \<and> sol_of con_sol (guard_with (current_selector so) b) a"
    using con.post_ok [OF assms(1,2)] assms(3) by metis
  then show ?thesis by (intro exI [of _ so']) (auto simp: guard_with_def split: option.splits)
qed

theorem posting_keeps_solver_witness:
  "solver_ok con_watch con_wf 2 ordered_solver \<and> (\<forall>a. all_posted con_sol ordered_solver a \<longleftrightarrow> a 1 + 1 \<le> a 0)"
proof -
  have "in_i32 1" by code_simp
  then have "wf_of con_wf 2 (Boxed (LessOrEqual 1 0 1))" by simp
  moreover have "all_posted con_sol pair_solver a" for a by (simp add: all_posted_def pair_solver_ok)
  ultimately show ?thesis
    using posting_keeps_solver [OF pair_solver_ok(1), of "Boxed (LessOrEqual 1 0 1)"] pair_solver_ok(5)
    by (auto simp: ordered_solver_def leq_sol_def)
qed

lemma ordered_solver_ok:
  "solver_ok con_watch con_wf 2 ordered_solver" "\<And>a. all_posted con_sol ordered_solver a \<longleftrightarrow> a 1 + 1 \<le> a 0"
  "alive (so_store ordered_solver)" "settled_for con_fix E ordered_solver"
  "st_view (so_store ordered_solver) = [{0..1}, {0..3}]" "propagators ordered_solver = [Some (Boxed (LessOrEqual 1 0 1))]"
proof -
  have "in_i32 1" by code_simp
  then have w: "wf_of con_wf 2 (Boxed (LessOrEqual 1 0 1))" by simp
  have s: "\<And>s. current_selector pair_solver = Some s \<Longrightarrow> s < 2" by (simp add: pair_solver_ok)
  obtain so' me where p: "post con_vtable (Boxed (LessOrEqual 1 0 1)) pair_solver = Some (so', me)" "solver_ok con_watch con_wf 2 so'"
    "domains (so_store so') = domains (so_store pair_solver)" "s_trail (so_store so') = s_trail (so_store pair_solver)"
    "\<And>a. all_posted con_sol so' a \<longleftrightarrow> all_posted con_sol pair_solver a \<and>
       sol_of con_sol (guard_with (current_selector pair_solver) (Boxed (LessOrEqual 1 0 1))) a"
    "\<And>E. settled_for con_fix E pair_solver \<Longrightarrow> settled_for con_fix E so'"
    using con.post_ok [OF pair_solver_ok(1) w s] by metis
  have o: "ordered_solver = so'" unfolding ordered_solver_def p(1) by simp
  note dc = doms_ok_cong [OF p(3,4)]
  show "solver_ok con_watch con_wf 2 ordered_solver" "settled_for con_fix E ordered_solver" using p(2,6) pair_solver_ok(3) by (simp_all add: o)
  show "all_posted con_sol ordered_solver a \<longleftrightarrow> a 1 + 1 \<le> a 0" for a
    unfolding o p(5) by (simp add: pair_solver_ok guard_with_def all_posted_def leq_sol_def)
  show "alive (so_store ordered_solver)" using pair_solver_ok(2) dc by (simp add: o alive_def p(3))
  show "st_view (so_store ordered_solver) = [{0..1}, {0..3}]" using pair_solver_ok(4) dc by (simp add: o)
  show "propagators ordered_solver = [Some (Boxed (LessOrEqual 1 0 1))]" by code_simp
qed

section \<open>Propagation\<close>

lemma propagate_keeps:
  assumes "solver_ok con_watch con_wf n so" "alive (so_store so)" "settled_for con_fix (\<lambda>_. False) so"
    and "propagate con_vtable so = Some (so', r)"
  shows "solver_ok con_watch con_wf n so'"
proof -
  obtain s r2 where "propagate con_vtable so = Some (s, r2)" "solver_ok con_watch con_wf n s"
    using con.propagate_fixpoint [OF assms(1-3)] by (elim exE conjE) (rule that)
  then show ?thesis using assms(4) by simp
qed

text \<open>
  C2. Take a well-formed solver (\<open>con_wf\<close>: variables exist and have one role in an ordering or
  element, a minimum or maximum has an argument, constants and row weights are in range) with
  no domain empty and every propagator that is not queued at its local fixpoint. Propagation
  returns. If it succeeds, the queue is empty, no domain is empty, no solution of the
  constraints within the domains before has been lost, every propagator is at its local
  fixpoint, and every propagator but those of minimum and maximum has nothing left to do: run
  once more, it succeeds and leaves every domain as it is. For minimum and maximum the local
  fixpoint says only that the bounds of the result and of the arguments are ordered as they
  must be; one more run may still act, as the property on minimum below shows. If propagation
  fails, there was no solution. The solver stays well-formed and the saved levels are as they
  were.
\<close>

theorem propagation_reaches_fixpoint:
  assumes "solver_ok con_watch con_wf n so" "alive (so_store so)" "settled_for con_fix (\<lambda>_. False) so"
  shows "\<exists>so' r. propagate con_vtable so = Some (so', r) \<and> solver_ok con_watch con_wf n so' \<and>
    propagators so' = propagators so \<and> (\<forall>p. \<not> queued (so_store so') p) \<and> st_saved (so_store so') = st_saved (so_store so) \<and>
    (if is_ok r then alive (so_store so') \<and> (\<forall>i < length (propagators so'). fix_of con_fix (slot so' i) (dv (so_store so'))) \<and>
        (\<forall>i < length (propagators so'). \<not> is_extremum (unboxed (slot so' i)) \<longrightarrow>
           (\<exists>s. run_prop con_vtable i so' = Some (s, Ok ()) \<and> (\<forall>v < n. vals (so_store s) v = vals (so_store so') v))) \<and>
        (\<forall>v < n. vals (so_store so') v \<subseteq> vals (so_store so) v) \<and>
        (\<forall>a. within a (so_store so) \<and> all_posted con_sol so a \<longrightarrow> within a (so_store so'))
     else \<forall>a. within a (so_store so) \<longrightarrow> \<not> all_posted con_sol so a)"
proof -
  obtain so' r where P: "propagate con_vtable so = Some (so', r)" and rest: "solver_ok con_watch con_wf n so'"
    "\<forall>p. \<not> queued (so_store so') p" "st_saved (so_store so') = st_saved (so_store so)"
    "if is_ok r then alive (so_store so') \<and> (\<forall>i < length (propagators so'). fix_of con_fix (slot so' i) (dv (so_store so'))) \<and>
        (\<forall>v < n. vals (so_store so') v \<subseteq> vals (so_store so) v) \<and>
        (\<forall>a. within a (so_store so) \<and> all_posted con_sol so a \<longrightarrow> within a (so_store so'))
     else \<forall>a. within a (so_store so) \<longrightarrow> \<not> all_posted con_sol so a"
    using con.propagate_fixpoint [OF assms] by blast
  have "\<exists>s. run_prop con_vtable i so' = Some (s, Ok ()) \<and> (\<forall>v < n. vals (so_store s) v = vals (so_store so') v)"
    if "is_ok r" "i < length (propagators so')" "\<not> is_extremum (unboxed (slot so' i))" for i
    by (rule run_idle [OF rest(1)]) (use rest(4) that in simp_all)
  then show ?thesis using P rest propagate_unchanged [OF P] by (intro exI [of _ so'] exI [of _ r]) simp
qed

theorem propagation_reaches_fixpoint_witness:
  "\<exists>so r. propagate con_vtable ordered_solver = Some (so, r) \<and> r = Ok () \<and> within (\<lambda>v. if v = 0 then 1 else 0) (so_store so)"
proof -
  let ?a = "\<lambda>v. if v = 0 then 1 else 0 :: int"
  obtain so r where P: "propagate con_vtable ordered_solver = Some (so, r)" and
    R: "if is_ok r then \<forall>a. within a (so_store ordered_solver) \<and> all_posted con_sol ordered_solver a \<longrightarrow> within a (so_store so)
     else \<forall>a. within a (so_store ordered_solver) \<longrightarrow> \<not> all_posted con_sol ordered_solver a"
    using propagation_reaches_fixpoint [OF ordered_solver_ok(1,3,4)] by (metis (no_types, lifting))
  have n: "length (domains (so_store ordered_solver)) = 2" using arg_cong [OF ordered_solver_ok(5), of length] by simp
  have "vals (so_store ordered_solver) v = [{0..1}, {0..3}] ! v" if "v < 2" for v
    using that n view_nth [of v "so_store ordered_solver"] by (simp add: ordered_solver_ok(5))
  then have w: "within ?a (so_store ordered_solver)" by (auto simp: within_def n less_2_cases_iff)
  have "all_posted con_sol ordered_solver ?a" by (simp add: ordered_solver_ok(2))
  then have "is_ok r" using R w by (auto split: if_splits)
  moreover from this have "r = Ok ()" by (cases r) simp_all
  ultimately show ?thesis using P R w \<open>all_posted con_sol ordered_solver ?a\<close> by auto
qed

text \<open>
  C6. Take such a solver in which no constraint is a minimum or maximum (for those the following
  is false, see below). A propagation that succeeds with every variable fixed has found a
  solution: the values left satisfy all constraints, provided that the terms of sign products
  took -1 or 1 and the variables of Boolean rows 0 or 1 as values.
\<close>

theorem fixed_fixpoint_is_solution:
  assumes "solver_ok con_watch con_checked n so" "alive (so_store so)" "settled_for con_fix (\<lambda>_. False) so"
    and "propagate con_vtable so = Some (so', Ok ())" "\<forall>v < n. card (vals (so_store so') v) = 1"
    and "within a (so_store so')" "all_posted con_scope so a"
  shows "all_posted con_sol so a"
proof -
  from chk.propagate_fixpoint [OF assms(1-3)] assms(4)
  have F: "solver_ok con_watch con_checked n so'" "all_posted con_sol so' = all_posted con_sol so" "alive (so_store so')"
    "\<forall>i < length (propagators so'). fix_of con_fix (slot so' i) (dv (so_store so'))"
    by simp_all
  have "propagators so' = propagators so" by (rule propagate_unchanged [OF assms(4)])
  then have "all_posted con_scope so' a" using assms(7) by (simp add: all_posted_def slot_def)
  then have "all_posted con_sol so' a" using chk.fixpoint_solution [OF F(1,3,4) assms(5,6)] by blast
  then show ?thesis by (simp add: F(2))
qed

lemma ordered_run: "\<exists>so'. propagate con_vtable ordered_solver = Some (so', Ok ()) \<and> map (st_values (so_store so')) [0, 1] = [[1], [0]]"
proof -
  have "map_option (\<lambda>(so, r). (map (st_values (so_store so)) [0, 1], r)) (run_steps 3 con_vtable ordered_solver) = Some ([[1], [0]], Ok ())"
    by code_simp
  then obtain so' where "run_steps 3 con_vtable ordered_solver = Some (so', Ok ())" "map (st_values (so_store so')) [0, 1] = [[1], [0]]"
    by auto
  then show ?thesis using run_steps_propagate [of 3 con_vtable ordered_solver "(so', Ok ())"] by (intro exI [of _ so'] conjI) simp_all
qed

theorem fixed_fixpoint_is_solution_witness:
  "all_posted con_sol ordered_solver (\<lambda>v. if v = 0 then 1 else 0)"
proof -
  from ordered_run obtain so' where P: "propagate con_vtable ordered_solver = Some (so', Ok ())"
    and vs: "map (st_values (so_store so')) [0, 1] = [[1], [0]]" by (elim exE conjE)
  have c: "solver_ok con_watch con_checked 2 ordered_solver"
  proof -
    have pl: "length (propagators ordered_solver) = 1" by (simp add: ordered_solver_ok(6))
    have h: "\<exists>b. held_in con_watch con_checked 2 ordered_solver i b" if i: "i < 1" for i
    proof -
      from i obtain b where b: "held_in con_watch con_wf 2 ordered_solver i b" using ordered_solver_ok(1,6) by (auto simp: solver_ok_def)
      then have "b = Boxed (LessOrEqual 1 0 1)" using i by (simp add: held_in_def ordered_solver_ok(6))
      then show ?thesis using b by (auto simp: held_in_def con_checked_def)
    qed
    show ?thesis using ordered_solver_ok(1) h unfolding solver_ok_def pl by blast
  qed
  have "solver_ok con_watch con_wf 2 so'" by (rule propagate_keeps [OF ordered_solver_ok(1,3,4) P])
  then have F: "good (so_store so')" "length (domains (so_store so')) = 2" by (simp_all add: solver_ok_def)
  have v: "vals (so_store so') v = set (st_values (so_store so') v)" if "v < 2" for v
    using F that values_ok [OF doms_ok_dom [of "so_store so'" v]] by (simp add: good_def vals_def st_values_def)
  have w: "vals (so_store so') v = (if v = 0 then {1} else {0})" if "v < 2" for v
  proof -
    have "st_values (so_store so') 0 = [1]" "st_values (so_store so') 1 = [0]" using vs by simp_all
    then show ?thesis using v [OF that] that by (cases "v = 0") (simp_all add: less_2_cases_iff)
  qed
  have "\<forall>v < 2. card (vals (so_store so') v) = 1" using w by simp
  moreover have "within (\<lambda>v. if v = 0 then 1 else 0) (so_store so')" using w by (simp add: within_def F(2))
  moreover have "all_posted con_scope ordered_solver (\<lambda>v. if v = 0 then 1 else 0)" by (simp add: all_posted_def slot_def ordered_solver_ok(6))
  ultimately show ?thesis using fixed_fixpoint_is_solution [OF c ordered_solver_ok(3,4) P] by blast
qed

text \<open>
  C23. The weights cached for the search heuristic agree with the weighted degrees computed
  from the weights of the propagators, after any propagation, failures and their bumps
  included.
\<close>

theorem cached_weights_exact:
  assumes "solver_ok con_watch con_wf n so" "alive (so_store so)" "settled_for con_fix (\<lambda>_. False) so"
    and "propagate con_vtable so = Some (so', r)" "v < n"
  shows "var_weight_cached (so_store so') v = var_weight (so_store so') v (weights so')"
proof -
  from propagate_keeps [OF assms(1-4)]
  have "cache_ok (so_store so') (weights so')" "length (domains (so_store so')) = n" by (simp_all add: solver_ok_def)
  then show ?thesis using assms(5) by (simp add: var_weight_cached_def var_weight_degree cache_ok_def)
qed

theorem cached_weights_exact_witness:
  "\<exists>so' r. propagate con_vtable ordered_solver = Some (so', r) \<and> var_weight_cached (so_store so') 1 = var_weight (so_store so') 1 (weights so')"
  using ordered_run cached_weights_exact [OF ordered_solver_ok(1,3,4), of _ "Ok ()" 1] by force

text \<open>A minimum over one variable with a hole, \<open>y = 1\<close> and \<open>x\<close> in \<open>{0, 2}\<close>.\<close>

definition extremum_solver :: "constraint solver" where
  "extremum_solver = (case solver_new_var 1 1 solver_new of None \<Rightarrow> solver_new
     | Some (so1, _) \<Rightarrow> (case solver_new_var 0 2 so1 of None \<Rightarrow> solver_new
     | Some (so2, _) \<Rightarrow> (case post con_vtable (Boxed (Extremum 0 [1] True)) (so2\<lparr>so_store := fst (st_remove 1 1 (so_store so2))\<rparr>) of
         None \<Rightarrow> solver_new | Some (so3, _) \<Rightarrow> so3)))"

text \<open>
  C36. The propagator of minimum and maximum misses a hole: with \<open>y = 1\<close> and \<open>x\<close> in \<open>{0, 2}\<close>
  it removes 0 from \<open>x\<close>, is not woken by its own change, and propagation ends with
  everything fixed to values that violate \<open>y = min(x)\<close>. One more run would fail.
\<close>

theorem extremum_misses_hole:
  "map (st_values (so_store extremum_solver)) [0, 1] = [[1], [0, 2]] \<and>
   (\<exists>so. propagate con_vtable extremum_solver = Some (so, Ok ()) \<and> map (st_value (so_store so)) [0, 1] = [Some 1, Some 2] \<and>
     \<not> is_ok (snd (ext_propagate 0 [1] True (so_store so)))) \<and>
   \<not> con_sol (Extremum 0 [1] True) (\<lambda>v. if v = 0 then 1 else 2)"
proof -
  have "map (st_values (so_store extremum_solver)) [0, 1] = [[1], [0, 2]]" by code_simp
  moreover have "map_option (\<lambda>(so, r). (map (st_value (so_store so)) [0, 1], is_ok (snd (ext_propagate 0 [1] True (so_store so))), r))
      (run_steps 3 con_vtable extremum_solver) = Some ([Some 1, Some 2], False, Ok ())"
    by code_simp
  then obtain so where so: "run_steps 3 con_vtable extremum_solver = Some (so, Ok ())" "map (st_value (so_store so)) [0, 1] = [Some 1, Some 2]"
    "\<not> is_ok (snd (ext_propagate 0 [1] True (so_store so)))" by auto
  moreover have "propagate con_vtable extremum_solver = Some (so, Ok ())" by (rule run_steps_propagate [OF so(1)])
  moreover have "\<not> con_sol (Extremum 0 [1] True) (\<lambda>v. if v = 0 then 1 else 2)" by (simp add: ext_sol_def)
  ultimately show ?thesis by (intro conjI exI [of _ so])
qed

end
