(* ===== verification/BoolNormal.thy ===== *)
theory BoolNormal imports BoolRows BTree "HOL-Library.Product_Lexorder" begin

text \<open>
  Normalisation of a row over 0/1 variables to a Boolean row (\<open>normalized_boolean_leq\<close> of
  \<open>src/src/constraints/linear.rs\<close>): coefficients of the same variable are added, a negative one
  becomes the complemented literal with a shifted bound, and the heaviest literals come first.
  The row and its normal form hold at the same assignments.
\<close>

section \<open>Normalisation\<close>

fun combine_bool :: "int \<Rightarrow> terms \<Rightarrow> (var_id, int) btree \<Rightarrow> (var_id, int) btree option" where
  "combine_bool scale [] m = Some m"
| "combine_bool scale ((c, v) # ts) m = (case checked_i128 (c * scale) of None \<Rightarrow> None
     | Some k \<Rightarrow> (case checked_i128 ((case bt_get m v of None \<Rightarrow> 0 | Some x \<Rightarrow> x) + k) of None \<Rightarrow> None
         | Some next' \<Rightarrow> combine_bool scale ts (if next' = 0 then bt_remove v m else bt_insert v next' m)))"

fun literals_of :: "(var_id \<times> int) list \<Rightarrow> int \<Rightarrow> (bool_literal list \<times> int) option" where
  "literals_of [] bound = Some ([], bound)"
| "literals_of ((v, c) # m) bound =
     (if c > 0 then map_option (\<lambda>(ls, b). (\<lparr>bl_var = v, bl_active = 1, bl_weight = c\<rparr> # ls, b)) (literals_of m bound)
      else case checked_i128 (- c) of None \<Rightarrow> None
        | Some w \<Rightarrow> (case checked_i128 (bound + w) of None \<Rightarrow> None
            | Some b' \<Rightarrow> map_option (\<lambda>(ls, b). (\<lparr>bl_var = v, bl_active = 0, bl_weight = w\<rparr> # ls, b)) (literals_of m b')))"

definition heaviest_first :: "bool_literal list \<Rightarrow> bool_literal list" where
  "heaviest_first = sort_key (\<lambda>l. (- bl_weight l, bl_var l, bl_active l))"

definition normalized_boolean_leq ::
    "store \<Rightarrow> int list \<Rightarrow> var_id list \<Rightarrow> int \<Rightarrow> int \<Rightarrow> (bool_literal list \<times> int) option" where
  "normalized_boolean_leq st coefficients variables scale bound =
     (if length coefficients \<noteq> length variables \<or> (\<exists>v \<in> set variables. st_min st v < 0 \<or> st_max st v > 1) then None
      else Option.bind (combine_bool scale (zip coefficients variables) [])
        (\<lambda>m. map_option (\<lambda>(ls, b). (heaviest_first ls, b)) (literals_of m bound)))"

text \<open>Equalities and disequalities stay integer rows; \<open>i128\<close> cannot overflow here.\<close>

fun boolean_linear_leq :: "store \<Rightarrow> int list \<Rightarrow> var_id list \<Rightarrow> relation \<Rightarrow> int \<Rightarrow> (bool_literal list \<times> int) option" where
  "boolean_linear_leq st cs vs RelLe rhs = normalized_boolean_leq st cs vs 1 rhs"
| "boolean_linear_leq st cs vs RelLt rhs = normalized_boolean_leq st cs vs 1 (rhs - 1)"
| "boolean_linear_leq st cs vs RelGe rhs = normalized_boolean_leq st cs vs (- 1) (- rhs)"
| "boolean_linear_leq st cs vs RelGt rhs = normalized_boolean_leq st cs vs (- 1) (- rhs - 1)"
| "boolean_linear_leq st cs vs RelEq rhs = None"
| "boolean_linear_leq st cs vs RelNe rhs = None"

section \<open>The combined coefficients\<close>

definition abs_sum :: "(var_id \<times> int) list \<Rightarrow> int" where
  "abs_sum m = sum_list (map (\<lambda>(v, c). \<bar>c\<bar>) m)"

lemma abs_sum_simps [simp]: "abs_sum [] = 0" "abs_sum ((v, c) # m) = \<bar>c\<bar> + abs_sum m"
  by (simp_all add: abs_sum_def)

lemma abs_sum_nonneg: "0 \<le> abs_sum m"
  by (induction m) auto

lemma abs_sum_insert: "bt_ok m \<Longrightarrow> abs_sum (bt_insert v c m) = abs_sum m + \<bar>c\<bar> - \<bar>coeff m v\<bar>"
proof (induction v c m rule: bt_insert.induct)
  case (1 k v)
  then show ?case by (simp add: coeff_def bt_get_def)
next
  case (2 k v k' v' m)
  have "coeff m k = 0" if "k \<le> k'"
    using that "2.prems" by (intro coeff_absent) (auto intro: order.strict_trans1)
  then show ?case using 2 by (auto simp: coeff_Cons)
qed

lemma abs_sum_remove: "bt_ok m \<Longrightarrow> abs_sum (bt_remove v m) = abs_sum m - \<bar>coeff m v\<bar>"
proof (induction v m rule: bt_remove.induct)
  case (1 k)
  then show ?case by (simp add: coeff_def bt_get_def)
next
  case (2 k k' v' m)
  then show ?case by (auto simp: coeff_Cons)
qed

lemma combine_bool_ok:
  assumes "combine_bool scale ts m = Some m'" "bt_ok m" "0 \<notin> snd ` set m"
  shows "bt_ok m' \<and> 0 \<notin> snd ` set m' \<and> lin val m' = lin val m + scale * row ts val \<and>
    fst ` set m' \<subseteq> fst ` set m \<union> snd ` set ts \<and> abs_sum m' \<le> abs_sum m + \<bar>scale\<bar> * weight ts"
  using assms
proof (induction scale ts m rule: combine_bool.induct)
  case (1 scale m)
  then show ?case by simp
next
  case (2 scale c v ts m)
  have k: "checked_i128 (c * scale) = Some (c * scale)"
    using "2.prems"(1) by (auto split: option.splits)
  have old: "(case bt_get m v of None \<Rightarrow> 0 | Some x \<Rightarrow> x) = coeff m v" by (simp add: coeff_def)
  let ?next = "coeff m v + c * scale"
  have n: "checked_i128 ?next = Some ?next" using "2.prems"(1) k by (auto simp: old split: option.splits)
  let ?m = "if ?next = 0 then bt_remove v m else bt_insert v ?next m"
  have run: "combine_bool scale ts ?m = Some m'" using "2.prems"(1) by (simp add: k n old)
  have ok: "bt_ok ?m" using "2.prems"(2) by simp
  have nz: "0 \<notin> snd ` set ?m" using "2.prems"(3) set_remove [of v m] values_insert [of v ?next m] by auto
  have l: "lin val ?m = lin val m + c * scale * val v"
  proof (cases "?next = 0")
    case True
    then have "coeff m v = - (c * scale)" by linarith
    then show ?thesis using "2.prems"(2) by (simp add: lin_remove)
  next
    case False
    then show ?thesis using "2.prems"(2) by (simp add: lin_insert algebra_simps)
  qed
  have keys: "fst ` set ?m \<subseteq> insert v (fst ` set m)"
    using set_remove [of v m] by (auto simp: keys_insert)
  have ab: "abs_sum ?m \<le> abs_sum m + \<bar>scale\<bar> * \<bar>c\<bar>"
  proof -
    have "\<bar>?next\<bar> \<le> \<bar>coeff m v\<bar> + \<bar>scale\<bar> * \<bar>c\<bar>" by (metis abs_mult abs_triangle_ineq mult.commute)
    moreover have "0 \<le> \<bar>scale\<bar> * \<bar>c\<bar>" by simp
    moreover have "- \<bar>coeff m v\<bar> \<le> 0" by simp
    ultimately have "\<bar>?next\<bar> \<le> \<bar>coeff m v\<bar> + \<bar>scale\<bar> * \<bar>c\<bar>" "- \<bar>coeff m v\<bar> \<le> \<bar>scale\<bar> * \<bar>c\<bar>" by linarith+
    then show ?thesis using "2.prems"(2) by (simp add: abs_sum_remove abs_sum_insert)
  qed
  have IH: "bt_ok m' \<and> 0 \<notin> snd ` set m' \<and> lin val m' = lin val ?m + scale * row ts val \<and>
    fst ` set m' \<subseteq> fst ` set ?m \<union> snd ` set ts \<and> abs_sum m' \<le> abs_sum ?m + \<bar>scale\<bar> * weight ts"
    by (rule "2.IH" [OF k _ run ok nz]) (simp add: n old)
  have "fst ` set m' \<subseteq> fst ` set m \<union> snd ` set ((c, v) # ts)"
    using order_trans [OF conjunct1 [OF conjunct2 [OF conjunct2 [OF conjunct2 [OF IH]]]] Un_mono [OF keys order_refl]] by auto
  moreover have "lin val m' = lin val m + scale * row ((c, v) # ts) val" using IH l by (simp add: algebra_simps)
  moreover have "abs_sum m' \<le> abs_sum m + \<bar>scale\<bar> * weight ((c, v) # ts)" using IH ab by (simp add: algebra_simps)
  ultimately show ?case using IH by blast
qed

section \<open>The literals\<close>

lemma literals_ok:
  assumes "literals_of m bound = Some (ls, b)" "0 \<notin> snd ` set m"
  shows "map bl_var ls = map fst m \<and> (\<forall>l \<in> set ls. zero_one (bl_active l) \<and> 0 < bl_weight l) \<and>
    sum_list (map bl_weight ls) = abs_sum m \<and> \<bar>b\<bar> \<le> \<bar>bound\<bar> + abs_sum m \<and>
    ((\<forall>v \<in> fst ` set m. zero_one (val v)) \<longrightarrow> bool_sum ls val - b = lin val m - bound)"
  using assms
proof (induction m bound arbitrary: ls b rule: literals_of.induct)
  case (1 bound)
  then show ?case by (simp add: bool_sum_def)
next
  case (2 v c m bound)
  show ?case
  proof (cases "c > 0")
    case True
    then obtain ls' where r: "literals_of m bound = Some (ls', b)" "ls = \<lparr>bl_var = v, bl_active = 1, bl_weight = c\<rparr> # ls'"
      using "2.prems"(1) by auto
    have IH: "map bl_var ls' = map fst m \<and> (\<forall>l \<in> set ls'. zero_one (bl_active l) \<and> 0 < bl_weight l) \<and>
      sum_list (map bl_weight ls') = abs_sum m \<and> \<bar>b\<bar> \<le> \<bar>bound\<bar> + abs_sum m \<and>
      ((\<forall>v \<in> fst ` set m. zero_one (val v)) \<longrightarrow> bool_sum ls' val - b = lin val m - bound)"
      using "2.IH"(1) [OF True r(1)] "2.prems"(2) by simp
    then show ?thesis using True r(2) by (auto simp: zero_one_def bool_sum_def)
  next
    case False
    then have neg: "c < 0" using "2.prems"(2) by (auto simp: order_less_le)
    obtain ls' where r: "checked_i128 (- c) = Some (- c)" "checked_i128 (bound - c) = Some (bound - c)"
        "literals_of m (bound - c) = Some (ls', b)" "ls = \<lparr>bl_var = v, bl_active = 0, bl_weight = - c\<rparr> # ls'"
      using "2.prems"(1) False by (auto split: option.splits)
    have IH: "map bl_var ls' = map fst m \<and> (\<forall>l \<in> set ls'. zero_one (bl_active l) \<and> 0 < bl_weight l) \<and>
      sum_list (map bl_weight ls') = abs_sum m \<and> \<bar>b\<bar> \<le> \<bar>bound - c\<bar> + abs_sum m \<and>
      ((\<forall>v \<in> fst ` set m. zero_one (val v)) \<longrightarrow> bool_sum ls' val - b = lin val m - (bound - c))"
      using "2.IH"(2) [OF False r(1)] r(2,3) "2.prems"(2) by simp
    then show ?thesis using neg r(4) by (auto simp: zero_one_def bool_sum_def)
  qed
qed

lemma heaviest_first_perm: "mset (heaviest_first ls) = mset ls"
  by (simp add: heaviest_first_def)

lemma heaviest_first_same:
  "set (heaviest_first ls) = set ls" "bool_sum (heaviest_first ls) a = bool_sum ls a"
  "distinct (map bl_var (heaviest_first ls)) = distinct (map bl_var ls)"
  "sum_list (map bl_weight (heaviest_first ls)) = sum_list (map bl_weight ls)"
proof -
  note p = heaviest_first_perm [of ls]
  have s: "sum_list (map f (heaviest_first ls)) = sum_list (map f ls)" for f :: "bool_literal \<Rightarrow> int"
    by (simp add: sum_mset_sum_list [symmetric] p)
  show "set (heaviest_first ls) = set ls" using mset_eq_setD [OF p] .
  show "bool_sum (heaviest_first ls) a = bool_sum ls a" "sum_list (map bl_weight (heaviest_first ls)) = sum_list (map bl_weight ls)"
    by (simp_all add: bool_sum_def s)
  show "distinct (map bl_var (heaviest_first ls)) = distinct (map bl_var ls)"
    using mset_eq_imp_distinct_iff [of "map bl_var (heaviest_first ls)" "map bl_var ls"] by (simp add: p)
qed

section \<open>Equivalence\<close>

lemma normalized_ok:
  assumes norm: "normalized_boolean_leq st cs vs scale bound = Some (ls, b)"
  shows "length cs = length vs" "\<forall>v \<in> set vs. 0 \<le> st_min st v \<and> st_max st v \<le> 1"
    and "\<forall>l \<in> set ls. bl_var l \<in> set vs \<and> zero_one (bl_active l) \<and> 0 < bl_weight l" "distinct (map bl_var ls)"
    and "sum_list (map bl_weight ls) \<le> \<bar>scale\<bar> * weight (zip cs vs)" "\<bar>b\<bar> \<le> \<bar>bound\<bar> + \<bar>scale\<bar> * weight (zip cs vs)"
    and "\<forall>v \<in> set vs. zero_one (a v) \<Longrightarrow> bool_scope ls a \<and> (bool_sum ls a \<le> b \<longleftrightarrow> scale * row (zip cs vs) a \<le> bound)"
proof -
  let ?ts = "zip cs vs"
  show len: "length cs = length vs" and bd: "\<forall>v \<in> set vs. 0 \<le> st_min st v \<and> st_max st v \<le> 1"
    using norm by (auto simp: normalized_boolean_leq_def split: if_splits)
  obtain m ls0 where c: "combine_bool scale ?ts [] = Some m" and l: "literals_of m bound = Some (ls0, b)" and ls: "ls = heaviest_first ls0"
    using norm by (auto simp: normalized_boolean_leq_def bind_eq_Some_conv split: if_splits)
  have scope: "snd ` set ?ts \<subseteq> set vs" by (auto dest: set_zip_rightD)
  have C: "bt_ok m \<and> 0 \<notin> snd ` set m \<and> lin val m = scale * row ?ts val \<and> fst ` set m \<subseteq> set vs \<and> abs_sum m \<le> \<bar>scale\<bar> * weight ?ts" for val
    using combine_bool_ok [OF c bt_ok_simps(1), of val] order_trans [OF _ scope, of "fst ` set m"] by simp
  have nz: "0 \<notin> snd ` set m" using C by blast
  note L = literals_ok [OF l nz] and H = heaviest_first_same [of ls0]
  have vars: "map bl_var ls0 = map fst m" using L by blast
  then have sub: "bl_var ` set ls0 \<subseteq> set vs" using C by (metis list.set_map)
  have "distinct (map fst m)" using C keys_sorted by blast
  then show "distinct (map bl_var ls)" using vars by (simp add: ls H)
  show "\<forall>l \<in> set ls. bl_var l \<in> set vs \<and> zero_one (bl_active l) \<and> 0 < bl_weight l" using L sub by (auto simp: ls H)
  have w: "sum_list (map bl_weight ls0) = abs_sum m" "\<bar>b\<bar> \<le> \<bar>bound\<bar> + abs_sum m" "abs_sum m \<le> \<bar>scale\<bar> * weight ?ts"
    using L C by blast+
  show "sum_list (map bl_weight ls) \<le> \<bar>scale\<bar> * weight ?ts" "\<bar>b\<bar> \<le> \<bar>bound\<bar> + \<bar>scale\<bar> * weight ?ts"
    using w by (simp_all add: ls H)
  assume z: "\<forall>v \<in> set vs. zero_one (a v)"
  have "bool_scope ls a" using z sub by (auto simp: bool_scope_def ls H)
  moreover have "bool_sum ls0 a - b = lin a m - bound" using L z C by blast
  ultimately show "bool_scope ls a \<and> (bool_sum ls a \<le> b \<longleftrightarrow> scale * row ?ts a \<le> bound)"
    using C [of a] by (simp add: ls H) linarith
qed

lemma boolean_row_ok:
  assumes norm: "boolean_linear_leq st cs vs rel rhs = Some (ls, b)"
  shows "length cs = length vs" "\<forall>v \<in> set vs. 0 \<le> st_min st v \<and> st_max st v \<le> 1"
    and "\<forall>l \<in> set ls. bl_var l \<in> set vs \<and> zero_one (bl_active l) \<and> 0 < bl_weight l" "distinct (map bl_var ls)"
    and "sum_list (map bl_weight ls) \<le> weight (zip cs vs)" "\<bar>b\<bar> \<le> \<bar>rhs\<bar> + 1 + weight (zip cs vs)"
    and "\<forall>v \<in> set vs. zero_one (a v) \<Longrightarrow> bool_sol ls b a \<longleftrightarrow> rel_holds rel (row (zip cs vs) a) rhs"
proof -
  obtain scale bound where n: "normalized_boolean_leq st cs vs scale bound = Some (ls, b)" "\<bar>scale\<bar> = 1" "\<bar>bound\<bar> \<le> \<bar>rhs\<bar> + 1"
    "\<And>x. scale * x \<le> bound \<longleftrightarrow> rel_holds rel x rhs"
  proof (cases rel)
    case RelLe
    then show ?thesis using norm that [of 1 rhs] by simp
  next
    case RelLt
    then show ?thesis using norm that [of 1 "rhs - 1"] by simp
  next
    case RelGe
    then show ?thesis using norm that [of "- 1" "- rhs"] by simp
  next
    case RelGt
    then show ?thesis using norm that [of "- 1" "- rhs - 1"] by simp
  qed (use norm in simp_all)
  note N = normalized_ok [OF n(1)]
  show "length cs = length vs" "\<forall>v \<in> set vs. 0 \<le> st_min st v \<and> st_max st v \<le> 1" by (rule N(1), rule N(2))
  show "\<forall>l \<in> set ls. bl_var l \<in> set vs \<and> zero_one (bl_active l) \<and> 0 < bl_weight l" "distinct (map bl_var ls)" by (rule N(3), rule N(4))
  show "sum_list (map bl_weight ls) \<le> weight (zip cs vs)" "\<bar>b\<bar> \<le> \<bar>rhs\<bar> + 1 + weight (zip cs vs)" using N(5,6) n(2,3) by simp_all
  assume "\<forall>v \<in> set vs. zero_one (a v)"
  then show "bool_sol ls b a \<longleftrightarrow> rel_holds rel (row (zip cs vs) a) rhs" using N(7) [of a] n(4) by (simp add: bool_sol_def)
qed

end
