(* ===== verification/LinearPost.thy ===== *)
theory LinearPost imports SolverSpec BoolNormal begin

text \<open>
  Posting linear rows (\<open>linear\<close>, \<open>sum\<close> and their interruptible variants in
  \<open>src/src/constraints/linear.rs\<close>): the row is recorded for the relaxation, then becomes a
  Boolean row where its variables are 0/1 and an integer row otherwise. Proved: posting adds
  exactly the relation, whichever propagator is chosen; what is recorded holds at every
  solution; and an uninterrupted run of the interruptible variant is the plain one.
\<close>

section \<open>The propagator of a row\<close>

definition neg :: "int list \<Rightarrow> int list" where
  "neg coeffs = map (\<lambda>a. as_i64 (- a)) coeffs"

fun flips :: "relation \<Rightarrow> bool" where
  "flips RelGe = True" | "flips RelGt = True" | "flips _ = False"

fun row_bound :: "relation \<Rightarrow> int \<Rightarrow> int" where
  "row_bound RelLt rhs = as_i64 (rhs - 1)"
| "row_bound RelGe rhs = as_i64 (- rhs)"
| "row_bound RelGt rhs = as_i64 (- as_i64 (rhs + 1))"
| "row_bound _ rhs = rhs"

fun row_kind :: "relation \<Rightarrow> terms \<Rightarrow> int \<Rightarrow> constraint" where
  "row_kind RelEq ts c = LinearEq ts c"
| "row_kind RelNe ts c = LinearNeq ts c"
| "row_kind _ ts c = LinearLeq ts c"

definition row_constraint :: "int list \<Rightarrow> var_id list \<Rightarrow> relation \<Rightarrow> int \<Rightarrow> constraint" where
  "row_constraint coeffs vars rel rhs =
     row_kind rel (zip (if flips rel then neg coeffs else coeffs) vars) (row_bound rel rhs)"

text \<open>The same with every overflow reported, and the test that the activity of the row fits as well.\<close>

fun checked_bound :: "relation \<Rightarrow> int \<Rightarrow> int option" where
  "checked_bound RelLt rhs = checked_i64 (rhs - 1)"
| "checked_bound RelGe rhs = checked_i64 (- rhs)"
| "checked_bound RelGt rhs = Option.bind (checked_i64 (rhs + 1)) (\<lambda>r. checked_i64 (- r))"
| "checked_bound _ rhs = Some rhs"

fun checked_neg :: "int list \<Rightarrow> int list option" where
  "checked_neg [] = Some []"
| "checked_neg (a # as) = Option.bind (checked_i64 (- a)) (\<lambda>b. map_option ((#) b) (checked_neg as))"

definition boxed_linear_checked :: "int list \<Rightarrow> var_id list \<Rightarrow> relation \<Rightarrow> int \<Rightarrow> constraint option" where
  "boxed_linear_checked coefficients variables rel rhs =
     Option.bind (if flips rel then checked_neg coefficients else Some coefficients)
       (\<lambda>cs. map_option (row_kind rel (zip cs variables)) (checked_bound rel rhs))"

fun checked_activity :: "store \<Rightarrow> terms \<Rightarrow> int \<times> int \<Rightarrow> (int \<times> int) option" where
  "checked_activity st [] acc = Some acc"
| "checked_activity st ((a, v) # ts) (mn, mx) =
     (let lo = st_min st v; hi = st_max st v
      in case (if a \<ge> 0 then (checked_i64 (a * lo), checked_i64 (a * hi)) else (checked_i64 (a * hi), checked_i64 (a * lo))) of
           (Some tmn, Some tmx) \<Rightarrow> (case (checked_i64 (mn + tmn), checked_i64 (mx + tmx)) of
               (Some mn', Some mx') \<Rightarrow> checked_activity st ts (mn', mx')
             | _ \<Rightarrow> None)
         | _ \<Rightarrow> None)"

definition native_supported :: "store \<Rightarrow> int list \<Rightarrow> var_id list \<Rightarrow> relation \<Rightarrow> int \<Rightarrow> bool" where
  "native_supported st coefficients variables rel rhs \<longleftrightarrow> length coefficients = length variables \<and>
     checked_activity st (zip coefficients variables) (0, 0) \<noteq> None \<and>
     boxed_linear_checked coefficients variables rel rhs \<noteq> None"

section \<open>Posting\<close>

fun record_relaxation :: "int list \<Rightarrow> var_id list \<Rightarrow> relation \<Rightarrow> int \<Rightarrow> 'p solver \<Rightarrow> 'p solver" where
  "record_relaxation cs vs RelLe rhs so = record_linear_relaxation cs vs None (Some rhs) so"
| "record_relaxation cs vs RelLt rhs so = (case checked_i64 (rhs - 1) of None \<Rightarrow> so
     | Some upper \<Rightarrow> record_linear_relaxation cs vs None (Some upper) so)"
| "record_relaxation cs vs RelGe rhs so = record_linear_relaxation cs vs (Some rhs) None so"
| "record_relaxation cs vs RelGt rhs so = (case checked_i64 (rhs + 1) of None \<Rightarrow> so
     | Some lower \<Rightarrow> record_linear_relaxation cs vs (Some lower) None so)"
| "record_relaxation cs vs RelEq rhs so = record_linear_relaxation cs vs (Some rhs) (Some rhs) so"
| "record_relaxation cs vs RelNe rhs so = so"

text \<open>A length mismatch panics (\<open>None\<close>).\<close>

definition linear :: "int list \<Rightarrow> var_id list \<Rightarrow> relation \<Rightarrow> int \<Rightarrow> constraint solver \<Rightarrow> constraint solver option" where
  "linear coeffs vars rel rhs so =
     (if length coeffs \<noteq> length vars then None
      else let so1 = record_relaxation coeffs vars rel rhs so
           in map_option fst (case boolean_linear_leq (so_store so1) coeffs vars rel rhs of
                Some (lits, bound) \<Rightarrow> post con_vtable (Boxed (BooleanLinearLeq lits bound)) so1
              | None \<Rightarrow> post con_vtable (Boxed (row_constraint coeffs vars rel rhs)) so1))"

definition linear_sum :: "var_id list \<Rightarrow> relation \<Rightarrow> int \<Rightarrow> constraint solver \<Rightarrow> constraint solver option" where
  "linear_sum vars rel rhs so = linear (replicate (length vars) 1) vars rel rhs so"

fun neg_until :: "int list \<Rightarrow> bool list \<Rightarrow> int list option \<times> bool list" where
  "neg_until [] stops = (Some [], stops)"
| "neg_until (a # as) stops = (let (stop, stops1) = poll stops in if stop then (None, stops1)
     else case neg_until as stops1 of (r, stops2) \<Rightarrow> (map_option ((#) (as_i64 (- a))) r, stops2))"

definition linear_interruptible_with_relaxation ::
    "int list \<Rightarrow> var_id list \<Rightarrow> relation \<Rightarrow> int \<Rightarrow> bool \<Rightarrow> bool list \<Rightarrow> constraint solver \<Rightarrow>
     (constraint solver \<times> bool \<times> bool list) option" where
  "linear_interruptible_with_relaxation coeffs vars rel rhs record stops so =
     (if length coeffs \<noteq> length vars then None
      else let (stop, stops1) = poll stops in if stop then Some (so, False, stops1) else
           let so1 = (if record then record_relaxation coeffs vars rel rhs so else so)
           in case boolean_linear_leq (so_store so1) coeffs vars rel rhs of
                Some (lits, bound) \<Rightarrow>
                  let (stop, stops2) = poll stops1 in if stop then Some (so1, False, stops2) else
                  (case post_until con_vtable (Boxed (BooleanLinearLeq lits bound)) stops2 so1 of
                     (so2, None, stops3) \<Rightarrow> Some (so2, False, stops3)
                   | (so2, Some me, stops3) \<Rightarrow> let (stop, stops4) = poll stops3 in Some (so2, \<not> stop, stops4))
              | None \<Rightarrow>
                  (case (if flips rel then neg_until coeffs stops1 else (Some coeffs, stops1)) of
                     (None, stops2) \<Rightarrow> Some (so1, False, stops2)
                   | (Some cs, stops2) \<Rightarrow>
                       let (stop, stops3) = poll stops2 in if stop then Some (so1, False, stops3) else
                       (case post_until con_vtable (Boxed (row_kind rel (zip cs vars) (row_bound rel rhs))) stops3 so1 of
                          (so2, me, stops4) \<Rightarrow> Some (so2, me \<noteq> None, stops4))))"

definition linear_interruptible where
  "linear_interruptible coeffs vars rel rhs stops so = linear_interruptible_with_relaxation coeffs vars rel rhs True stops so"

definition linear_without_relaxation_interruptible where
  "linear_without_relaxation_interruptible coeffs vars rel rhs stops so =
     linear_interruptible_with_relaxation coeffs vars rel rhs False stops so"

text \<open>\<open>sum_interruptible\<close> polls once per variable while it copies them.\<close>

fun poll_each :: "'a list \<Rightarrow> bool list \<Rightarrow> bool \<times> bool list" where
  "poll_each [] stops = (False, stops)"
| "poll_each (x # xs) stops = (let (stop, stops1) = poll stops in if stop then (True, stops1) else poll_each xs stops1)"

definition sum_interruptible ::
    "var_id list \<Rightarrow> relation \<Rightarrow> int \<Rightarrow> bool list \<Rightarrow> constraint solver \<Rightarrow> (constraint solver \<times> bool \<times> bool list) option" where
  "sum_interruptible vars rel rhs stops so = (case poll_each vars stops of (stop, stops1) \<Rightarrow>
     if stop then Some (so, False, stops1)
     else linear_interruptible (replicate (length vars) 1) vars rel rhs stops1 so)"

section \<open>The propagator means the relation\<close>

definition negated :: "terms \<Rightarrow> terms" where
  "negated ts = map (\<lambda>(c, v). (- c, v)) ts"

lemma negated_simps [simp]: "weight (negated ts) = weight ts" "row (negated ts) a = - row ts a" "terms_in n (negated ts) = terms_in n ts"
  by (induction ts) (auto simp: negated_def terms_in_def)

lemma weight_member: "(c, v) \<in> set ts \<Longrightarrow> \<bar>c\<bar> \<le> weight ts"
  using weight_nonneg by (induction ts) (fastforce simp: algebra_simps)+

lemma small_neg: "\<bar>x\<bar> < 4611686018427387904 \<Longrightarrow> as_i64 (- x) = - x"
  by (rule as_i64_id) (simp add: small_in_i64)

lemma fits_small:
  assumes "fits ts (\<bar>rhs\<bar> + 1)"
  shows "(c, v) \<in> set ts \<Longrightarrow> \<bar>c\<bar> < 4611686018427387904" "\<bar>rhs\<bar> + 1 < 4611686018427387904"
  using assms weight_member [of c v ts] weight_nonneg [of ts] by (auto simp: fits_def)

lemma zip_neg:
  assumes "fits (zip cs vs) (\<bar>rhs\<bar> + 1)"
  shows "zip (neg cs) vs = negated (zip cs vs)"
proof -
  have "zip (neg cs) vs = map (\<lambda>(c, v). (as_i64 (- c), v)) (zip cs vs)" by (simp add: neg_def zip_map1)
  also have "\<dots> = negated (zip cs vs)"
    using fits_small(1) [OF assms] by (auto simp: negated_def small_neg)
  finally show ?thesis .
qed

lemma row_bound_exact:
  assumes "\<bar>rhs\<bar> + 1 < 4611686018427387904"
  shows "row_bound rel rhs = (case rel of RelLt \<Rightarrow> rhs - 1 | RelGe \<Rightarrow> - rhs | RelGt \<Rightarrow> - rhs - 1 | _ \<Rightarrow> rhs)" "\<bar>row_bound rel rhs\<bar> \<le> \<bar>rhs\<bar> + 1"
proof -
  have "as_i64 (rhs - 1) = rhs - 1" "as_i64 (- rhs) = - rhs" "as_i64 (rhs + 1) = rhs + 1" "as_i64 (- (rhs + 1)) = - rhs - 1"
    using assms by (auto intro!: as_i64_id small_in_i64 simp: small_neg)
  then show "row_bound rel rhs = (case rel of RelLt \<Rightarrow> rhs - 1 | RelGe \<Rightarrow> - rhs | RelGt \<Rightarrow> - rhs - 1 | _ \<Rightarrow> rhs)"
    by (cases rel) simp_all
  then show "\<bar>row_bound rel rhs\<bar> \<le> \<bar>rhs\<bar> + 1" by (cases rel) simp_all
qed

lemma row_kind_wf: "con_wf n (row_kind rel ts c) = row_wf n ts c"
  by (cases rel) simp_all

lemma row_constraint_ok:
  assumes "fits (zip cs vs) (\<bar>rhs\<bar> + 1)" "\<forall>v \<in> set vs. v < n"
  shows "con_wf n (row_constraint cs vs rel rhs)" "con_sol (row_constraint cs vs rel rhs) a \<longleftrightarrow> rel_holds rel (row (zip cs vs) a) rhs"
proof -
  note z = zip_neg [OF assms(1)] and b = row_bound_exact [OF fits_small(2) [OF assms(1)], of rel]
  have "terms_in n (zip cs vs)" using assms(2) by (auto simp: terms_in_def dest: set_zip_rightD)
  moreover have "fits (zip cs vs) (row_bound rel rhs)" using assms(1) b(2) by (simp add: fits_def)
  ultimately have "row_wf n (zip (if flips rel then neg cs else cs) vs) (row_bound rel rhs)"
    by (simp add: row_wf_def z fits_def)
  then show "con_wf n (row_constraint cs vs rel rhs)" by (simp add: row_constraint_def row_kind_wf)
  show "con_sol (row_constraint cs vs rel rhs) a \<longleftrightarrow> rel_holds rel (row (zip cs vs) a) rhs"
    unfolding row_constraint_def b(1)
    by (cases rel) (auto simp: z lleq_sol_def leq_eq_sol_def lneq_sol_def)
qed

section \<open>What posting adds\<close>

lemma record_linear_frame:
  "\<exists>rows. record_linear_relaxation cs vs lower upper so = so\<lparr>linear_relaxation := rows\<rparr>"
proof -
  have 1: "\<exists>rows. relax_lower cs vs sel m l s = s\<lparr>linear_relaxation := rows\<rparr>" for sel m l and s :: "'a solver"
    by (auto simp: relax_lower_def push_linear_relaxation_def Let_def split: option.splits intro: exI [of _ "linear_relaxation s"])
  have 2: "\<exists>rows. relax_upper cs vs sel m l s = s\<lparr>linear_relaxation := rows\<rparr>" for sel m l and s :: "'a solver"
    by (auto simp: relax_upper_def push_linear_relaxation_def Let_def split: option.splits intro: exI [of _ "linear_relaxation s"])
  show ?thesis
  proof (cases "current_selector so")
    case None
    then show ?thesis by (auto simp: record_linear_relaxation_def push_linear_relaxation_def)
  next
    case (Some sel)
    obtain r1 where r1: "\<And>m. relax_lower cs vs sel m lower so = so\<lparr>linear_relaxation := r1 m\<rparr>" using 1 [of sel _ lower so] by metis
    have "\<exists>rows. relax_upper cs vs sel mx upper (relax_lower cs vs sel mn lower so) = so\<lparr>linear_relaxation := rows\<rparr>" for mn mx
      using 2 [of sel mx upper "relax_lower cs vs sel mn lower so"] by (auto simp: r1)
    then show ?thesis
      using Some by (auto simp: record_linear_relaxation_def split: option.splits intro: exI [of _ "linear_relaxation so"])
  qed
qed

lemma record_frame: "\<exists>rows. record_relaxation cs vs rel rhs so = so\<lparr>linear_relaxation := rows\<rparr>"
proof -
  have "\<exists>rows. so = so\<lparr>linear_relaxation := rows\<rparr>" by (rule exI [of _ "linear_relaxation so"]) simp
  then show ?thesis using record_linear_frame by (cases rel) (auto split: option.split)
qed

lemma relaxation_inv:
  assumes "solver_ok con_watch con_wf n so"
  shows "solver_ok con_watch con_wf n (so\<lparr>linear_relaxation := rows\<rparr>)" "all_posted con_sol (so\<lparr>linear_relaxation := rows\<rparr>) = all_posted con_sol so"
  by (rule con.inv_cong [OF _ _ _ _ _ _ _ _ _ assms]; use assms in \<open>simp add: solver_ok_def\<close>)+

text \<open>The propagator chosen for a row, whichever of the two forms it takes.\<close>

definition chosen :: "store \<Rightarrow> int list \<Rightarrow> var_id list \<Rightarrow> relation \<Rightarrow> int \<Rightarrow> constraint" where
  "chosen st cs vs rel rhs = (case boolean_linear_leq st cs vs rel rhs of
     Some (lits, bound) \<Rightarrow> BooleanLinearLeq lits bound | None \<Rightarrow> row_constraint cs vs rel rhs)"

lemma linear_chosen:
  "linear cs vs rel rhs so = (if length cs \<noteq> length vs then None else
     map_option fst (post con_vtable (Boxed (chosen (so_store so) cs vs rel rhs)) (record_relaxation cs vs rel rhs so)))"
proof -
  obtain rows where r: "record_relaxation cs vs rel rhs so = so\<lparr>linear_relaxation := rows\<rparr>" using record_frame by metis
  then have "so_store (record_relaxation cs vs rel rhs so) = so_store so" by simp
  then show ?thesis by (auto simp: linear_def chosen_def Let_def split: option.split)
qed

lemma within_zero_one:
  assumes st: "ready n st" and "within a st" "v < n" "0 \<le> st_min st v" "st_max st v \<le> 1"
  shows "zero_one (a v)"
proof -
  have "a v \<in> dv st v" using assms by (simp add: within_def ready_def dv_def)
  then have "st_min st v \<le> a v" "a v \<le> st_max st v" using ready_reads [OF st assms(3)] by simp_all
  then show ?thesis using assms(4,5) by (auto simp: zero_one_def)
qed

lemma chosen_ok:
  assumes st: "ready n st" and fit: "fits (zip cs vs) (\<bar>rhs\<bar> + 1)" and vs: "\<forall>v \<in> set vs. v < n"
  shows "con_wf n (chosen st cs vs rel rhs)" "within a st \<Longrightarrow> con_sol (chosen st cs vs rel rhs) a \<longleftrightarrow> rel_holds rel (row (zip cs vs) a) rhs"
proof -
  have "con_wf n (chosen st cs vs rel rhs) \<and>
      (within a st \<longrightarrow> (con_sol (chosen st cs vs rel rhs) a \<longleftrightarrow> rel_holds rel (row (zip cs vs) a) rhs))"
  proof (cases "boolean_linear_leq st cs vs rel rhs")
    case None
    then show ?thesis using row_constraint_ok [OF fit vs] by (simp add: chosen_def)
  next
    case (Some p)
    then obtain lits bound where b: "boolean_linear_leq st cs vs rel rhs = Some (lits, bound)" by (metis surj_pair)
    note B = boolean_row_ok [OF b]
    have "sum_list (map bl_weight lits) + \<bar>bound\<bar> \<le> 2 * weight (zip cs vs) + \<bar>rhs\<bar> + 1" using B(5,6) by linarith
    also have "\<dots> < 2 ^ 126" using fit weight_nonneg [of "zip cs vs"] by (simp add: fits_def)
    finally have "bool_wf n lits bound" using B(3,4) vs by (auto simp: bool_wf_def)
    moreover have "con_sol (BooleanLinearLeq lits bound) a \<longleftrightarrow> rel_holds rel (row (zip cs vs) a) rhs" if "within a st"
      using B(7) [of a] B(2) within_zero_one [OF st that] vs by simp
    ultimately show ?thesis by (simp add: chosen_def b)
  qed
  then show "con_wf n (chosen st cs vs rel rhs)" "within a st \<Longrightarrow> con_sol (chosen st cs vs rel rhs) a \<longleftrightarrow> rel_holds rel (row (zip cs vs) a) rhs"
    by blast+
qed

text \<open>A posted row holds, under the selector of the group if there is one.\<close>

definition guarded :: "'p solver \<Rightarrow> (var_id \<Rightarrow> int) \<Rightarrow> bool \<Rightarrow> bool" where
  "guarded so a P \<longleftrightarrow> (case current_selector so of None \<Rightarrow> P | Some s \<Rightarrow> a s = 1 \<longrightarrow> P)"

lemma linear_posts:
  assumes inv: "solver_ok con_watch con_wf n so" and al: "alive (so_store so)" and sel: "\<forall>s. current_selector so = Some s \<longrightarrow> s < n"
    and len: "length cs = length vs" and fit: "fits (zip cs vs) (\<bar>rhs\<bar> + 1)" and vs: "\<forall>v \<in> set vs. v < n"
  obtains so' where "linear cs vs rel rhs so = Some so'" "solver_ok con_watch con_wf n so'"
    "\<forall>a. within a (so_store so) \<longrightarrow>
       (all_posted con_sol so' a \<longleftrightarrow> all_posted con_sol so a \<and> guarded so a (rel_holds rel (row (zip cs vs) a) rhs))"
    "domains (so_store so') = domains (so_store so)" "s_trail (so_store so') = s_trail (so_store so)"
    "current_selector so' = current_selector so" "\<forall>E. settled_for con_fix E so \<longrightarrow> settled_for con_fix E so'"
    "linear_relaxation so' = linear_relaxation (record_relaxation cs vs rel rhs so)"
    "post con_vtable (Boxed (chosen (so_store so) cs vs rel rhs)) (record_relaxation cs vs rel rhs so) = Some (so', length (propagators so))"
proof -
  obtain rows where r: "record_relaxation cs vs rel rhs so = so\<lparr>linear_relaxation := rows\<rparr>" using record_frame by metis
  let ?so = "so\<lparr>linear_relaxation := rows\<rparr>"
  let ?p = "chosen (so_store so) cs vs rel rhs"
  have st: "ready n (so_store so)" using inv al by (simp add: ready_def solver_ok_def)
  note R = relaxation_inv [OF inv, of rows] and C = chosen_ok [where rel = rel, OF st fit vs]
  have sel': "\<And>s. current_selector ?so = Some s \<Longrightarrow> s < n" using sel by simp
  have wf: "wf_of con_wf n (Boxed ?p)" using C(1) by simp
  obtain so' me where P: "post con_vtable (Boxed ?p) ?so = Some (so', me)" "me = length (propagators ?so)" "solver_ok con_watch con_wf n so'"
    "domains (so_store so') = domains (so_store ?so)" "s_trail (so_store so') = s_trail (so_store ?so)"
    "\<And>a. all_posted con_sol so' a \<longleftrightarrow> all_posted con_sol ?so a \<and> sol_of con_sol (guard_with (current_selector ?so) (Boxed ?p)) a"
    "\<And>E. settled_for con_fix E ?so \<Longrightarrow> settled_for con_fix E so'" "current_selector so' = current_selector ?so"
    "linear_relaxation so' = linear_relaxation ?so"
    using con.post_ok [OF R(1) wf sel'] by metis
  have se: "settled_for con_fix E ?so = settled_for con_fix E so" for E by (simp add: settled_for_def slot_def)
  have sols: "all_posted con_sol so' a \<longleftrightarrow> all_posted con_sol so a \<and> guarded so a (rel_holds rel (row (zip cs vs) a) rhs)"
    if "within a (so_store so)" for a
    unfolding P(6) R(2) using C(2) [OF that] by (auto simp: guard_with_def guarded_def split: option.split)
  have run: "linear cs vs rel rhs so = Some so'" by (simp add: linear_chosen len r P(1))
  show thesis
    by (rule that [OF run P(3)]) (use P sols se in \<open>simp_all add: r\<close>)
qed

section \<open>What is recorded for the relaxation\<close>

definition relax_holds :: "relaxation_row \<Rightarrow> (var_id \<Rightarrow> int) \<Rightarrow> bool" where
  "relax_holds r a \<longleftrightarrow> (let x = row (zip (rr_coefficients r) (rr_variables r)) a in
     (case rr_lower r of None \<Rightarrow> True | Some l \<Rightarrow> l \<le> x) \<and> (case rr_upper r of None \<Rightarrow> True | Some u \<Rightarrow> x \<le> u))"

definition relaxed :: "'p solver \<Rightarrow> (var_id \<Rightarrow> int) \<Rightarrow> bool" where
  "relaxed so a \<longleftrightarrow> (\<forall>r \<in> set (linear_relaxation so). relax_holds r a)"

lemma term_within:
  assumes st: "ready n st" and "within a st" "v < n"
  shows "(if c \<ge> 0 then c * st_min st v else c * st_max st v) \<le> c * a v \<and> c * a v \<le> (if c \<ge> 0 then c * st_max st v else c * st_min st v)"
proof -
  have "a v \<in> dv st v" using assms by (simp add: within_def ready_def dv_def)
  then have "st_min st v \<le> a v" "a v \<le> st_max st v" using ready_reads [OF st assms(3)] by simp_all
  then show ?thesis by (simp add: mult_left_mono mult_left_mono_neg)
qed

lemma activity_bounds:
  assumes st: "ready n st" "within a st"
  shows "activity_loop st ts acc = Some (lo, hi) \<Longrightarrow> terms_in n ts \<Longrightarrow> fst acc \<le> x \<Longrightarrow> x \<le> snd acc \<Longrightarrow>
    lo \<le> x + row ts a \<and> x + row ts a \<le> hi"
proof (induction ts arbitrary: acc x)
  case Nil
  then show ?case by (cases acc) simp
next
  case (Cons t ts)
  obtain c v where t: "t = (c, v)" by fastforce
  let ?mn = "if c \<ge> 0 then c * st_min st v else c * st_max st v" and ?mx = "if c \<ge> 0 then c * st_max st v else c * st_min st v"
  have run: "activity_loop st ts (fst acc + ?mn, snd acc + ?mx) = Some (lo, hi)"
    using Cons.prems(1) by (auto simp: t Let_def checked_i128_def split: if_splits option.splits)
  have v: "v < n" "terms_in n ts" using Cons.prems(2) by (simp_all add: t terms_in_def)
  have "?mn \<le> c * a v" "c * a v \<le> ?mx" using term_within [OF st v(1), of c] by blast+
  then have "fst acc + ?mn \<le> x + c * a v" "x + c * a v \<le> snd acc + ?mx" using Cons.prems(3,4) by linarith+
  then show ?case using Cons.IH [OF run v(2), of "x + c * a v"] by (simp add: t algebra_simps)
qed

lemma in_i64_i128: "in_i64 x \<Longrightarrow> in_i128 x"
  by (simp add: in_i64_def in_i128_def i64_min_def i64_max_def)

lemma checked_activity_same: "checked_activity st ts acc = Some r \<Longrightarrow> activity_loop st ts acc = Some r"
proof (induction st ts acc rule: checked_activity.induct)
  case (2 st a v ts mn mx)
  show ?case using "2.prems" "2.IH" by (auto simp: Let_def checked_i64_def checked_i128_def in_i64_i128 split: if_splits option.splits)
qed simp

lemma checked_activity_range:
  "checked_activity st ts acc = Some (lo, hi) \<Longrightarrow> in_i64 (fst acc) \<and> in_i64 (snd acc) \<Longrightarrow> in_i64 lo \<and> in_i64 hi"
  by (induction st ts acc rule: checked_activity.induct) (auto simp: Let_def checked_i64_def split: if_splits option.splits)

lemma relax_lower_holds:
  assumes "relaxed so a" "zero_one (a sel)" "m \<le> row (zip cs vs) a" "a sel = 1 \<Longrightarrow> \<forall>l. lower = Some l \<longrightarrow> l \<le> row (zip cs vs) a"
    and "length cs = length vs"
  shows "relaxed (relax_lower cs vs sel m lower so) a"
  using assms
  by (auto simp: relax_lower_def relaxed_def push_linear_relaxation_def relax_holds_def Let_def zero_one_def split: option.splits)

lemma relax_upper_holds:
  assumes "relaxed so a" "zero_one (a sel)" "row (zip cs vs) a \<le> m" "a sel = 1 \<Longrightarrow> \<forall>u. upper = Some u \<longrightarrow> row (zip cs vs) a \<le> u"
    and "length cs = length vs"
  shows "relaxed (relax_upper cs vs sel m upper so) a"
  using assms
  by (auto simp: relax_upper_def relaxed_def push_linear_relaxation_def relax_holds_def Let_def zero_one_def split: option.splits)

lemma record_linear_holds:
  assumes st: "ready n (so_store so)" "within a (so_store so)" and vs: "terms_in n (zip cs vs)" "length cs = length vs"
    and sel: "\<forall>s. current_selector so = Some s \<longrightarrow> zero_one (a s)" and rx: "relaxed so a"
    and lo: "guarded so a (\<forall>l. lower = Some l \<longrightarrow> l \<le> row (zip cs vs) a)"
    and hi: "guarded so a (\<forall>u. upper = Some u \<longrightarrow> row (zip cs vs) a \<le> u)"
  shows "relaxed (record_linear_relaxation cs vs lower upper so) a"
proof (cases "current_selector so")
  case None
  then show ?thesis using rx lo hi
    by (auto simp: record_linear_relaxation_def relaxed_def push_linear_relaxation_def relax_holds_def guarded_def split: option.splits)
next
  case (Some s)
  show ?thesis
  proof (cases "linear_activity_bounds (so_store so) cs vs")
    case None
    then show ?thesis using Some rx by (simp add: record_linear_relaxation_def)
  next
    case (Some b)
    obtain mn mx where b: "linear_activity_bounds (so_store so) cs vs = Some (mn, mx)" using Some by (cases b) simp
    have "mn \<le> row (zip cs vs) a" "row (zip cs vs) a \<le> mx"
      using activity_bounds [OF st, of "zip cs vs" "(0, 0)" mn mx 0] b vs by (simp_all add: linear_activity_bounds_def)
    then show ?thesis
      using \<open>current_selector so = Some s\<close> b vs(2) sel lo hi rx
      by (auto simp: record_linear_relaxation_def guarded_def intro!: relax_upper_holds relax_lower_holds)
  qed
qed

lemma record_holds:
  assumes st: "ready n (so_store so)" "within a (so_store so)" and vs: "terms_in n (zip cs vs)" "length cs = length vs"
    and sel: "\<forall>s. current_selector so = Some s \<longrightarrow> zero_one (a s)" and rx: "relaxed so a"
    and rel: "guarded so a (rel_holds rel (row (zip cs vs) a) rhs)"
  shows "relaxed (record_relaxation cs vs rel rhs so) a"
proof -
  note L = record_linear_holds [OF st vs sel rx]
  have g: "guarded so a P" if "rel_holds rel (row (zip cs vs) a) rhs \<Longrightarrow> P" for P
    using rel that by (auto simp: guarded_def split: option.splits)
  show ?thesis
    by (cases rel; use rx in \<open>auto split: option.splits intro!: L g\<close>)
qed

section \<open>The interruptible variant\<close>

lemma subscribe_finished:
  "subscribe_until me ws stops st = (st', True, rest) \<Longrightarrow> subscribe_until me ws [] st = (st', True, [])"
  by (induction me ws stops st rule: subscribe_until.induct) (auto simp: Let_def split: prod.splits if_splits)

lemma register_finished:
  "con_register_until p me stops st = (p', st', True, rest) \<Longrightarrow> con_register_until p me [] st = (p', st', True, [])"
  by (auto simp: con_register_until_def default_register_until_def Let_def dest: subscribe_finished split: prod.splits if_splits)

lemma box_register_finished:
  "box_register_until con_vtable b me stops st = (b', st', True, rest) \<Longrightarrow> box_register_until con_vtable b me [] st = (b', st', True, [])"
proof (induction b arbitrary: stops st b' st' rest)
  case (Boxed p)
  then show ?case by (auto simp: con_vtable_def dest: register_finished split: prod.splits)
next
  case (Selected sel b)
  then show ?case by (auto simp: Let_def split: prod.splits if_splits dest!: Selected.IH)
qed

lemma box_register_free: "box_register_until con_vtable b me [] st = (b', st', fin, rest) \<Longrightarrow> fin \<and> rest = []"
proof (induction b arbitrary: st b' st' fin rest)
  case (Boxed p)
  then show ?case
    by (auto simp: con_vtable_def con_register_until_def default_register_until_def subscribe_until_unstopped Let_def split: prod.splits if_splits)
next
  case (Selected sel b)
  then show ?case by (auto simp: Let_def split: prod.splits if_splits dest!: Selected.IH)
qed

lemma post_until_finished: "post_until con_vtable b stops so = (so', Some me, rest) \<Longrightarrow> post con_vtable b so = Some (so', me)"
  by (auto simp: post_def post_until_def Let_def dest: box_register_finished split: prod.splits if_splits)

lemma post_until_free: "post con_vtable b so = Some (so', me) \<Longrightarrow> post_until con_vtable b [] so = (so', Some me, [])"
  by (auto simp: post_def post_until_def Let_def dest: box_register_free split: prod.splits if_splits)

lemma neg_until_finished: "neg_until cs stops = (Some cs', rest) \<Longrightarrow> cs' = neg cs"
  by (induction cs stops arbitrary: cs' rest rule: neg_until.induct) (auto simp: neg_def Let_def split: prod.splits if_splits)

lemma neg_until_free: "neg_until cs [] = (Some (neg cs), [])"
  by (induction cs) (simp_all add: neg_def)

lemma interruptible_finished:
  assumes "linear_interruptible cs vs rel rhs stops so = Some (so', True, rest)"
  shows "linear cs vs rel rhs so = Some so'"
  using assms
  by (auto simp: linear_interruptible_def linear_interruptible_with_relaxation_def linear_def row_constraint_def Let_def
      dest!: post_until_finished neg_until_finished split: if_splits prod.splits option.splits)

lemma interruptible_free:
  assumes "linear cs vs rel rhs so = Some so'"
  shows "linear_interruptible cs vs rel rhs [] so = Some (so', True, [])"
  using assms
  by (auto simp: linear_interruptible_def linear_interruptible_with_relaxation_def linear_def row_constraint_def Let_def neg_until_free
      dest!: post_until_free split: if_splits prod.splits option.splits)

section \<open>Rows the native propagators can hold\<close>

lemma checked_bound_same: "checked_bound rel rhs = Some b \<Longrightarrow> row_bound rel rhs = b \<and>
    b = (case rel of RelLt \<Rightarrow> rhs - 1 | RelGe \<Rightarrow> - rhs | RelGt \<Rightarrow> - rhs - 1 | _ \<Rightarrow> rhs)"
  by (cases rel) (auto simp: as_i64_id bind_eq_Some_conv)

lemma checked_neg_same: "checked_neg cs = Some cs' \<Longrightarrow> neg cs = cs' \<and> cs' = map uminus cs"
  by (induction cs arbitrary: cs') (auto simp: neg_def as_i64_id bind_eq_Some_conv)

lemma zip_uminus: "zip (map uminus cs) vs = negated (zip cs vs)"
  by (simp add: negated_def zip_map1)

lemma boxed_same: "boxed_linear_checked cs vs rel rhs = Some p \<Longrightarrow> p = row_constraint cs vs rel rhs"
  by (auto simp: boxed_linear_checked_def row_constraint_def bind_eq_Some_conv dest!: checked_neg_same checked_bound_same split: if_splits)

lemma boxed_sol:
  assumes "boxed_linear_checked cs vs rel rhs = Some p"
  shows "con_sol p a \<longleftrightarrow> rel_holds rel (row (zip cs vs) a) rhs"
  using assms
  by (cases rel) (auto simp: boxed_linear_checked_def bind_eq_Some_conv zip_uminus lleq_sol_def leq_eq_sol_def lneq_sol_def
      dest!: checked_neg_same)

section \<open>Properties\<close>

text \<open>
  C15. Posting a linear row never panics when the lengths agree, keeps the solver well-formed,
  and conjoins exactly the relation, whichever propagator the row becomes: a Boolean row over
  normalised literals when its variables are 0/1, an integer row with negated coefficients for
  \<open>>=\<close> and \<open>>\<close> otherwise. In a guarded group the relation is required when the selector is 1.
\<close>

theorem posted_row_is_relation:
  assumes "solver_ok con_watch con_wf n so" "alive (so_store so)" "\<forall>s. current_selector so = Some s \<longrightarrow> s < n"
    and "length cs = length vs" "fits (zip cs vs) (\<bar>rhs\<bar> + 1)" "\<forall>v \<in> set vs. v < n"
  shows "\<exists>so'. linear cs vs rel rhs so = Some so' \<and> solver_ok con_watch con_wf n so' \<and>
    domains (so_store so') = domains (so_store so) \<and>
    (\<forall>a. within a (so_store so) \<longrightarrow> (all_posted con_sol so' a \<longleftrightarrow> all_posted con_sol so a \<and>
       (case current_selector so of None \<Rightarrow> rel_holds rel (row (zip cs vs) a) rhs
        | Some s \<Rightarrow> a s = 1 \<longrightarrow> rel_holds rel (row (zip cs vs) a) rhs)))"
  by (rule linear_posts [OF assms, where rel = rel]) (auto simp: guarded_def)

lemma pair_selector: "\<forall>s. current_selector pair_solver = Some s \<longrightarrow> s < 2"
  by (simp add: pair_solver_ok)

lemma pair_fits: "fits (zip [2, - 1] [0, 1]) (\<bar>3\<bar> + 1)" "\<forall>v \<in> set [0, 1 :: nat]. v < 2"
  by (simp_all add: fits_def)

theorem posted_row_is_relation_witness:
  "\<exists>so'. linear [2, - 1] [0, 1] RelGe 3 pair_solver = Some so' \<and>
    (\<forall>a. within a (so_store pair_solver) \<longrightarrow> (all_posted con_sol so' a \<longleftrightarrow> 2 * a 0 - a 1 \<ge> 3))"
proof -
  have "all_posted con_sol pair_solver a" for a by (simp add: all_posted_def pair_solver_ok)
  then show ?thesis
    using posted_row_is_relation [OF pair_solver_ok(1,2) pair_selector _ pair_fits, of RelGe] by (auto simp: pair_solver_ok)
qed

text \<open>
  C16. What posting records for the linear relaxation is implied: if every solution within the
  domains satisfies the recorded rows, it still does after posting, also for a guarded row,
  which is recorded with the selector as an extra term that makes it vacuous at 0.
\<close>

theorem relaxation_stays_implied:
  assumes "solver_ok con_watch con_wf n so" "alive (so_store so)"
    and "\<forall>s. current_selector so = Some s \<longrightarrow> s < n \<and> vals (so_store so) s \<subseteq> {0, 1}"
    and "length cs = length vs" "fits (zip cs vs) (\<bar>rhs\<bar> + 1)" "\<forall>v \<in> set vs. v < n"
    and "\<forall>a. within a (so_store so) \<and> all_posted con_sol so a \<longrightarrow> relaxed so a"
    and "linear cs vs rel rhs so = Some so'"
  shows "\<forall>a. within a (so_store so') \<and> all_posted con_sol so' a \<longrightarrow> relaxed so' a"
proof -
  have sel: "\<forall>s. current_selector so = Some s \<longrightarrow> s < n" using assms(3) by blast
  obtain so1 where L: "linear cs vs rel rhs so = Some so1"
    "\<forall>a. within a (so_store so) \<longrightarrow>
       (all_posted con_sol so1 a \<longleftrightarrow> all_posted con_sol so a \<and> guarded so a (rel_holds rel (row (zip cs vs) a) rhs))"
    "domains (so_store so1) = domains (so_store so)" "s_trail (so_store so1) = s_trail (so_store so)"
    "linear_relaxation so1 = linear_relaxation (record_relaxation cs vs rel rhs so)"
    by (rule linear_posts [OF assms(1,2) sel assms(4-6), where rel = rel])
  have so': "so' = so1" using L(1) assms(8) by simp
  have st: "ready n (so_store so)" using assms(1,2) by (simp add: ready_def solver_ok_def)
  have ts: "terms_in n (zip cs vs)" using assms(6) by (auto simp: terms_in_def dest: set_zip_rightD)
  have "relaxed so1 a" if w: "within a (so_store so)" and p: "all_posted con_sol so1 a" for a
  proof -
    have "zero_one (a s)" if "current_selector so = Some s" for s
      using assms(3) that w st by (auto simp: within_def ready_def zero_one_def)
    then have "relaxed (record_relaxation cs vs rel rhs so) a"
      using record_holds [OF st w ts assms(4)] assms(7) L(2) w p by blast
    then show ?thesis by (simp add: relaxed_def L(5))
  qed
  then show ?thesis using doms_ok_cong [OF L(3,4)] by (simp add: so' within_def L(3))
qed

text \<open>A group whose selector is the first variable.\<close>

definition guarded_pair :: "constraint solver" where
  "guarded_pair = set_selector (Some 0) pair_solver"

lemma guarded_pair_ok:
  "solver_ok con_watch con_wf 2 guarded_pair" "alive (so_store guarded_pair)" "linear_relaxation guarded_pair = []"
  "\<forall>s. current_selector guarded_pair = Some s \<longrightarrow> s < 2 \<and> vals (so_store guarded_pair) s \<subseteq> {0, 1}"
proof -
  show "solver_ok con_watch con_wf 2 guarded_pair" unfolding guarded_pair_def set_selector_def
    by (rule con.inv_cong(1) [OF _ _ _ _ _ _ _ _ _ pair_solver_ok(1)]; use pair_solver_ok(1) in \<open>simp add: solver_ok_def\<close>)
  show "alive (so_store guarded_pair)" using pair_solver_ok(2) by (simp add: guarded_pair_def set_selector_def)
  show "linear_relaxation guarded_pair = []" by code_simp
  have n: "0 < length (domains (so_store pair_solver))" using arg_cong [OF pair_solver_ok(4), of length] by simp
  then have "vals (so_store pair_solver) 0 = {0..1}" using view_nth [OF n] by (simp add: pair_solver_ok(4))
  then show "\<forall>s. current_selector guarded_pair = Some s \<longrightarrow> s < 2 \<and> vals (so_store guarded_pair) s \<subseteq> {0, 1}"
    by (auto simp: guarded_pair_def set_selector_def)
qed

theorem relaxation_stays_implied_witness:
  "\<exists>so'. linear [1] [1] RelGe 2 guarded_pair = Some so' \<and>
    linear_relaxation so' = [\<lparr>rr_coefficients = [1, - 2], rr_variables = [1, 0], rr_lower = Some 0, rr_upper = None\<rparr>] \<and>
    (\<forall>a. within a (so_store so') \<and> all_posted con_sol so' a \<longrightarrow> relaxed so' a)"
proof -
  have "map_option linear_relaxation (linear [1] [1] RelGe 2 guarded_pair) =
      Some [\<lparr>rr_coefficients = [1, - 2], rr_variables = [1, 0], rr_lower = Some 0, rr_upper = None\<rparr>]"
    by code_simp
  then obtain so' where so': "linear [1] [1] RelGe 2 guarded_pair = Some so'"
    "linear_relaxation so' = [\<lparr>rr_coefficients = [1, - 2], rr_variables = [1, 0], rr_lower = Some 0, rr_upper = None\<rparr>]"
    by auto
  have f: "length [1 :: int] = length [1 :: nat]" "fits (zip [1] [1]) (\<bar>2\<bar> + 1)" "\<forall>v \<in> set [1 :: nat]. v < 2" by (simp_all add: fits_def)
  have r: "\<forall>a. within a (so_store guarded_pair) \<and> all_posted con_sol guarded_pair a \<longrightarrow> relaxed guarded_pair a"
    by (simp add: relaxed_def guarded_pair_ok)
  show ?thesis using relaxation_stays_implied [OF guarded_pair_ok(1,2,4) f r so'(1)] so' by blast
qed

text \<open>
  C31. The interruptible way to post a row is the plain one: whenever it reports success, under
  any answers of the stop flag, the solver is the one \<open>linear\<close> leaves, and if the flag is never
  raised it reports success whenever \<open>linear\<close> returns.
\<close>

theorem interruptible_posting_agrees:
  "((\<exists>stops rest. linear_interruptible cs vs rel rhs stops so = Some (so', True, rest)) \<longleftrightarrow> linear cs vs rel rhs so = Some so') \<and>
   (linear_interruptible cs vs rel rhs [] so = Some (so', True, []) \<longleftrightarrow> linear cs vs rel rhs so = Some so')"
  using interruptible_finished interruptible_free by blast

text \<open>
  C32. A row that \<open>native_supported\<close> accepts is represented without overflow: building its
  propagator with checked arithmetic succeeds and gives the same propagator as posting does
  with wrapping arithmetic, that propagator means the relation, and the row stays in \<open>i64\<close>
  at every assignment within the domains.
\<close>

theorem native_rows_exact:
  assumes "native_supported st cs vs rel rhs" "ready n st" "\<forall>v \<in> set vs. v < n" "within a st"
  shows "\<exists>p. boxed_linear_checked cs vs rel rhs = Some p \<and> p = row_constraint cs vs rel rhs \<and>
    (con_sol p a \<longleftrightarrow> rel_holds rel (row (zip cs vs) a) rhs) \<and> in_i64 (row (zip cs vs) a)"
proof -
  obtain p lo hi where p: "boxed_linear_checked cs vs rel rhs = Some p" and act: "checked_activity st (zip cs vs) (0, 0) = Some (lo, hi)"
    using assms(1) by (auto simp: native_supported_def)
  have ts: "terms_in n (zip cs vs)" using assms(3) by (auto simp: terms_in_def dest: set_zip_rightD)
  have "lo \<le> row (zip cs vs) a \<and> row (zip cs vs) a \<le> hi"
    using activity_bounds [OF assms(2,4) checked_activity_same [OF act] ts, of 0] by simp
  moreover have "in_i64 lo \<and> in_i64 hi" using checked_activity_range [OF act] by (simp add: in_i64_def i64_min_def i64_max_def)
  ultimately have "in_i64 (row (zip cs vs) a)" by (simp add: in_i64_def)
  then show ?thesis using p boxed_same [OF p] boxed_sol [OF p] by blast
qed

theorem native_rows_exact_witness:
  "\<exists>p. boxed_linear_checked [2, - 1] [0, 1] RelGt 1 = Some p \<and> p = row_constraint [2, - 1] [0, 1] RelGt 1 \<and>
    (con_sol p (\<lambda>v. 1) \<longleftrightarrow> 2 * 1 - 1 > (1 :: int))"
proof -
  have ns: "native_supported (so_store pair_solver) [2, - 1] [0, 1] RelGt 1" by code_simp
  have st: "ready 2 (so_store pair_solver)" using pair_solver_ok(1,2) by (simp add: ready_def solver_ok_def)
  have n: "length (domains (so_store pair_solver)) = 2" using st by (simp add: ready_def)
  have "vals (so_store pair_solver) v = [{0..1}, {0..3}] ! v" if "v < 2" for v
    using that n view_nth [of v "so_store pair_solver"] by (simp add: pair_solver_ok(4))
  then have w: "within (\<lambda>v. 1) (so_store pair_solver)" by (auto simp: within_def n less_2_cases_iff)
  show ?thesis using native_rows_exact [OF ns st pair_fits(2) w] by auto
qed

end
