(* ===== verification/DomainSearch.thy ===== *)
theory DomainSearch imports Solver begin

text \<open>
  The chronological search over list and interval domains (\<open>solve_domains\<close> and below, in
  \<open>src/src/search.rs\<close>): propagate, choose an undecided presence, order, start or membership,
  and try its two sides, each in a level of its own. The callback is an argument with a state
  of its own; \<open>None\<close> is a panic or a run that never ends.
\<close>

section \<open>Solutions, decisions and counters\<close>

record domain_solution =
  ds_lists :: "int list list"
  interval_starts :: "int option list"

datatype domain_decision =
    ListMembership list_id int
  | IntervalPresence interval_id
  | OrderPair nat
  | IntervalStartSplit interval_id int

datatype search_control = SearchContinue | SearchStop

datatype domain_exit = Exhausted | Stopped

text \<open>The counters of \<open>SolveStats\<close> this search touches.\<close>

record solve_stats =
  solutions :: "64 word"
  nodes :: "64 word"
  failures :: "64 word"

definition stats_default :: solve_stats where
  "stats_default = \<lparr>solutions = 0, nodes = 0, failures = 0\<rparr>"

definition count_failure :: "solve_stats \<Rightarrow> solve_stats" where
  "count_failure s = s\<lparr>failures := failures s + 1\<rparr>"

section \<open>Choosing\<close>

definition can_strictly_overlap :: "store \<Rightarrow> interval_id \<Rightarrow> interval_id \<Rightarrow> bool" where
  "can_strictly_overlap st a b \<longleftrightarrow> \<not> (interval_duration st a = 0 \<or> interval_duration st b = 0) \<and>
     max (interval_start_min st a) (interval_start_min st b) < min (interval_end_max st a) (interval_end_max st b)"

definition order_open :: "store \<Rightarrow> nat \<Rightarrow> bool" where
  "order_open st k \<longleftrightarrow> disjunctive_order st k = 0 \<and> (case disjunctive_pair st k of (a, b) \<Rightarrow>
     interval_presence st a = Present \<and> interval_presence st b = Present \<and> can_strictly_overlap st a b)"

definition start_open :: "store \<Rightarrow> interval_id \<Rightarrow> bool" where
  "start_open st i \<longleftrightarrow> interval_presence st i \<noteq> Absent \<and> interval_start_min st i < interval_start_max st i"

text \<open>The midpoint \<open>lo + (hi - lo) / 2\<close>, in wrapping \<open>i32\<close>.\<close>

definition split_point :: "int \<Rightarrow> int \<Rightarrow> int" where
  "split_point lo hi = as_i32 (lo + rust_div (as_i32 (hi - lo)) 2)"

definition member_open :: "store \<Rightarrow> list_id \<times> int \<Rightarrow> bool" where
  "member_open st li \<longleftrightarrow> list_possible st (fst li) (snd li) \<and> \<not> list_required st (fst li) (snd li)"

definition list_items :: "store \<Rightarrow> (list_id \<times> int) list" where
  "list_items st = concat (map (\<lambda>l. map (Pair l) (list_universe st l)) [0..<length (list_domains st)])"

definition choose_domain_decision :: "store \<Rightarrow> domain_decision option" where
  "choose_domain_decision st =
     (case find (\<lambda>i. interval_presence st i = Optional) [0..<length (interval_domains st)] of Some i \<Rightarrow> Some (IntervalPresence i)
      | None \<Rightarrow> (case find (order_open st) [0..<disjunctive_pair_count st] of Some k \<Rightarrow> Some (OrderPair k)
      | None \<Rightarrow> (case find (start_open st) [0..<length (interval_domains st)] of
            Some i \<Rightarrow> Some (IntervalStartSplit i (split_point (interval_start_min st i) (interval_start_max st i)))
      | None \<Rightarrow> map_option (\<lambda>(l, x). ListMembership l x) (find (member_open st) (list_items st)))))"

fun decision_outcome :: "domain_decision \<Rightarrow> bool \<Rightarrow> store \<Rightarrow> bool outcome" where
  "decision_outcome (ListMembership l x) left st = (if left then require_list_item l x st else forbid_list_item l x st)"
| "decision_outcome (IntervalPresence i) left st = (if left then require_interval_presence i st else forbid_interval_presence i st)"
| "decision_outcome (OrderPair k) left st = set_disjunctive_order k (if left then 1 else 2) st"
| "decision_outcome (IntervalStartSplit i mid) left st =
     (if left then set_interval_start_max i mid st else set_interval_start_min i (sat_i32 (mid + 1)) st)"

definition apply_domain_decision :: "domain_decision \<Rightarrow> bool \<Rightarrow> 'p solver \<Rightarrow> 'p solver \<times> bool" where
  "apply_domain_decision d left so = (case decision_outcome d left (so_store so) of (st, r) \<Rightarrow> (so\<lparr>so_store := st\<rparr>, is_ok r))"

section \<open>The solution at a leaf\<close>

definition collect_domain_solution :: "store \<Rightarrow> domain_solution" where
  "collect_domain_solution st =
     \<lparr>ds_lists = map (\<lambda>l. filter (list_required st l) (list_universe st l)) [0..<length (list_domains st)],
      interval_starts = map (\<lambda>i. if interval_presence st i = Absent then None else Some (interval_start_min st i))
        [0..<length (interval_domains st)]\<rparr>"

section \<open>The search\<close>

text \<open>A branch: a new level with the decision applied; and back.\<close>

definition enter_branch :: "domain_decision \<Rightarrow> bool \<Rightarrow> 'p solver \<Rightarrow> 'p solver \<times> bool" where
  "enter_branch d left so = apply_domain_decision d left (so\<lparr>so_store := push_level (so_store so)\<rparr>)"

definition leave_branch :: "'p solver \<Rightarrow> 'p solver option" where
  "leave_branch so = map_option (\<lambda>st. so\<lparr>so_store := st\<rparr>) (pop_level (so_store so))"

type_synonym ('p, 'u) callback = "'p solver \<Rightarrow> domain_solution \<Rightarrow> 'u \<Rightarrow> 'u \<times> search_control"

type_synonym ('p, 'u) search_state = "'p solver \<times> solve_stats \<times> 'u \<times> domain_exit \<times> bool list"

definition visit :: "('p, 'u) callback \<Rightarrow> 'p solver \<Rightarrow> solve_stats \<Rightarrow> 'u \<Rightarrow> bool list \<Rightarrow> ('p, 'u) search_state" where
  "visit cb so stats u stops = (case cb so (collect_domain_solution (so_store so)) u of (u', c) \<Rightarrow>
     (so, stats\<lparr>solutions := solutions stats + 1\<rparr>, u', if c = SearchStop then Stopped else Exhausted, stops))"

partial_function (option) domain_dfs ::
    "'p vtable \<Rightarrow> ('p, 'u) callback \<Rightarrow> 'p solver \<Rightarrow> solve_stats \<Rightarrow> 'u \<Rightarrow> bool list \<Rightarrow> ('p, 'u) search_state option" where
  "domain_dfs vt cb so stats u stops =
     (let (b, stops1) = poll stops in if b then Some (so, stats, u, Stopped, stops1) else
      Option.bind (propagate vt so) (\<lambda>(so1, r).
        if \<not> is_ok r then Some (so1, count_failure stats, u, Exhausted, stops1) else
        (case choose_domain_decision (so_store so1) of
           None \<Rightarrow> Some (visit cb so1 stats u stops1)
         | Some d \<Rightarrow>
             let stats1 = stats\<lparr>nodes := nodes stats + 1\<rparr>; (soL, okL) = enter_branch d True so1 in
             Option.bind (if okL then domain_dfs vt cb soL stats1 u stops1 else Some (soL, count_failure stats1, u, Exhausted, stops1))
               (\<lambda>(so2, stats2, u2, e2, stops2). Option.bind (leave_branch so2) (\<lambda>so3.
                  if e2 = Stopped then Some (so3, stats2, u2, Stopped, stops2) else
                  let (soR, okR) = enter_branch d False so3 in
                  Option.bind (if okR then domain_dfs vt cb soR stats2 u2 stops2 else Some (soR, count_failure stats2, u2, Exhausted, stops2))
                    (\<lambda>(so4, stats4, u4, e4, stops4). map_option (\<lambda>so5. (so5, stats4, u4, e4, stops4)) (leave_branch so4)))))))"

declare domain_dfs.simps [code]

definition solve_domains_interruptible ::
    "'p vtable \<Rightarrow> ('p, 'u) callback \<Rightarrow> 'u \<Rightarrow> bool list \<Rightarrow> 'p solver \<Rightarrow> ('p solver \<times> solve_stats \<times> 'u \<times> bool) option" where
  "solve_domains_interruptible vt cb u stops so =
     map_option (\<lambda>(so', stats, u', e, stops'). (so', stats, u', e = Exhausted \<and> \<not> fst (poll stops')))
       (domain_dfs vt cb (enqueue_all so) stats_default u stops)"

definition solve_domains :: "'p vtable \<Rightarrow> ('p, 'u) callback \<Rightarrow> 'u \<Rightarrow> 'p solver \<Rightarrow> ('p solver \<times> solve_stats \<times> 'u) option" where
  "solve_domains vt cb u so =
     map_option (\<lambda>(so', stats, u', complete). (so', stats, u')) (solve_domains_interruptible vt cb u [] so)"

definition first_domain_solution :: "'p vtable \<Rightarrow> 'p solver \<Rightarrow> domain_solution option option" where
  "first_domain_solution vt so =
     map_option (\<lambda>(so', stats, found). found) (solve_domains vt (\<lambda>so sol u. (Some sol, SearchStop)) None so)"

end
