(* ===== verification/DomainDecisions.thy ===== *)
theory DomainDecisions imports DomainSearch Building begin

text \<open>
  The decisions of the domain search: on consistent handles every decision cuts the values of
  one variable in two non-empty parts, one for each side, and both sides apply.
\<close>

section \<open>Consistent handles\<close>

definition narrow :: "int set \<Rightarrow> bool" where
  "narrow S \<longleftrightarrow> (\<forall>x \<in> S. \<forall>y \<in> S. y - x \<le> i32_max)"

definition interval_ok :: "store \<Rightarrow> interval_id \<Rightarrow> bool" where
  "interval_ok st i \<longleftrightarrow> interval_start_var st i < length (domains st) \<and> narrow (vals st (interval_start_var st i)) \<and>
     (\<forall>v. interval_presence_var st i = Some v \<longrightarrow> bool_var st v)"

definition pair_ok :: "store \<Rightarrow> nat \<Rightarrow> bool" where
  "pair_ok st k \<longleftrightarrow> bool_var st (disjunctive_order_var st k) \<and>
     (case disjunctive_pair st k of (a, b) \<Rightarrow> a < length (interval_domains st) \<and> b < length (interval_domains st))"

definition structs_ok :: "store \<Rightarrow> bool" where
  "structs_ok st \<longleftrightarrow> (\<forall>l < length (list_domains st). list_ok st l) \<and> (\<forall>i < length (interval_domains st). interval_ok st i) \<and>
     (\<forall>k < length (disjunctive_pairs st). pair_ok st k)"

lemma structs_reads:
  assumes "structs st' = structs st"
  shows "list_domains st' = list_domains st" "interval_domains st' = interval_domains st"
    "disjunctive_pairs st' = disjunctive_pairs st" "disjunctive_order_vars st' = disjunctive_order_vars st"
    "list_member_var st' = list_member_var st" "interval_presence_var st' = interval_presence_var st"
    "interval_start_var st' = interval_start_var st" "list_universe st' = list_universe st"
    "disjunctive_order_var st' = disjunctive_order_var st" "disjunctive_pair st' = disjunctive_pair st"
proof -
  show f: "list_domains st' = list_domains st" "interval_domains st' = interval_domains st"
    "disjunctive_pairs st' = disjunctive_pairs st" "disjunctive_order_vars st' = disjunctive_order_vars st"
    using assms by (simp_all add: structs_def)
  show "list_member_var st' = list_member_var st" "interval_presence_var st' = interval_presence_var st"
    "interval_start_var st' = interval_start_var st" "list_universe st' = list_universe st"
    "disjunctive_order_var st' = disjunctive_order_var st" "disjunctive_pair st' = disjunctive_pair st"
    by (simp_all add: fun_eq_iff disjunctive_pair_def list_member_var_def interval_presence_var_def interval_start_var_def list_universe_def
        disjunctive_order_var_def f)
qed

lemma bool_var_shrink: "bool_var st v \<Longrightarrow> vals st' v \<subseteq> vals st v \<Longrightarrow> vals st' v \<noteq> {} \<Longrightarrow>
    length (domains st') = length (domains st) \<Longrightarrow> bool_var st' v"
  by (auto simp: bool_var_def)

lemma structs_ok_shrink:
  assumes ok: "structs_ok st" and s: "structs st' = structs st" and len: "length (domains st') = length (domains st)"
    and sub: "\<forall>v < length (domains st). vals st' v \<subseteq> vals st v" and al: "alive st'"
  shows "structs_ok st'"
proof -
  note r = structs_reads [OF s]
  have b: "bool_var st v \<Longrightarrow> bool_var st' v" for v
    using bool_var_shrink [of st v st'] sub al len by (auto simp: alive_def bool_var_def)
  have "list_ok st' l" if "list_ok st l" for l using that b by (simp add: list_ok_def Let_def r)
  moreover have "interval_ok st' i" if "interval_ok st i" for i
  proof -
    have v: "interval_start_var st i < length (domains st)" using that by (simp add: interval_ok_def)
    then have "narrow (vals st' (interval_start_var st i))" using that sub unfolding interval_ok_def narrow_def by blast
    then show ?thesis using that b v by (simp add: interval_ok_def r len)
  qed
  moreover have "pair_ok st' k" if "pair_ok st k" for k using that b by (simp add: pair_ok_def r)
  ultimately show ?thesis using ok by (simp add: structs_ok_def r)
qed

section \<open>What a decision does\<close>

fun decision_var :: "store \<Rightarrow> domain_decision \<Rightarrow> var_id" where
  "decision_var st (ListMembership l x) = the (list_member_var st l x)"
| "decision_var st (IntervalPresence i) = the (interval_presence_var st i)"
| "decision_var st (OrderPair k) = disjunctive_order_var st k"
| "decision_var st (IntervalStartSplit i mid) = interval_start_var st i"

fun decision_op :: "domain_decision \<Rightarrow> bool \<Rightarrow> dom_op" where
  "decision_op (IntervalStartSplit i mid) left = (if left then Above mid else Below (sat_i32 (mid + 1)))"
| "decision_op d left = Fix (if left then 1 else 0)"

text \<open>A cut: both sides keep something, and together everything, once.\<close>

definition cuts :: "store \<Rightarrow> domain_decision \<Rightarrow> bool" where
  "cuts st d \<longleftrightarrow> decision_var st d < length (domains st) \<and>
     (\<forall>left. in_i32 (op_arg (decision_op d left)) \<and> \<not> fails (decision_op d left) (vals st (decision_var st d)) \<and>
        is_ok (snd (decision_outcome d left st)) = is_ok (snd (st_apply (decision_var st d) (decision_op d left) st)) \<and>
        fst (decision_outcome d left st) = fst (st_apply (decision_var st d) (decision_op d left) st)) \<and>
     (\<forall>x \<in> vals st (decision_var st d). keeps (decision_op d True) x \<noteq> keeps (decision_op d False) x) \<and>
     (\<forall>left. \<exists>x \<in> vals st (decision_var st d). keeps (decision_op d left) x)"

lemma then_ok_reads: "fst (then_ok r f) = fst r" "is_ok (snd (then_ok r f)) = is_ok (snd r)"
  by (auto simp: then_ok_def split: prod.splits result.splits)

lemma open_flag:
  assumes "good st" "bool_var st v" "\<not> st_is_fixed st v"
  shows "vals st v = {0, 1}"
proof -
  have "v < length (domains st)" using assms(2) by (simp add: bool_var_def)
  then have "card (vals st v) \<noteq> 1" using st_reads(4) [of st v] assms(1,3) by (simp add: good_def)
  then have "vals st v \<noteq> {0}" "vals st v \<noteq> {1}" by auto
  then show ?thesis using bool_var_cases [OF assms(2)] by blast
qed

lemma decide_open:
  assumes "\<not> st_is_fixed st v"
  shows "fst (decide v x st) = fst (st_apply v (Fix x) st)" "is_ok (snd (decide v x st)) = is_ok (snd (st_apply v (Fix x) st))"
  using assms by (simp_all add: decide_def then_ok_reads)

lemma open_cut:
  assumes g: "good st" and b: "bool_var st v" and o: "\<not> st_is_fixed st v" and v: "decision_var st d = v"
    and d: "\<And>left. decision_op d left = Fix (if left then 1 else 0)"
    and run: "\<And>left. decision_outcome d left st = decide v (if left then 1 else 0) st"
  shows "cuts st d"
proof -
  have "vals st v = {0, 1}" using open_flag [OF g b o] .
  then show ?thesis using b small_i32 decide_open [OF o] by (auto simp: cuts_def v d run bool_var_def)
qed

lemma split_point_ok:
  assumes "in_i32 lo" "in_i32 hi" "lo < hi" "hi - lo \<le> i32_max"
  shows "split_point lo hi = lo + (hi - lo) div 2" "lo \<le> split_point lo hi" "split_point lo hi < hi" "in_i32 (split_point lo hi)"
    "sat_i32 (split_point lo hi + 1) = split_point lo hi + 1" "in_i32 (split_point lo hi + 1)"
proof -
  have d: "as_i32 (hi - lo) = hi - lo" using assms by (intro as_i32_id) (simp add: in_i32_def i32_min_def i32_max_def)
  have q: "rust_div (hi - lo) 2 = (hi - lo) div 2" using assms(3) by (simp add: rust_div_def)
  have b: "0 \<le> (hi - lo) div 2" "(hi - lo) div 2 < hi - lo" using assms(3) by simp_all
  have i: "in_i32 (lo + (hi - lo) div 2)" using assms(1,2) b unfolding in_i32_def by linarith
  show s: "split_point lo hi = lo + (hi - lo) div 2" unfolding split_point_def d q by (rule as_i32_id [OF i])
  show r: "lo \<le> split_point lo hi" "split_point lo hi < hi" using b by (simp_all add: s)
  show "in_i32 (split_point lo hi)" using i by (simp add: s)
  show j: "in_i32 (split_point lo hi + 1)" using r assms(1,2) unfolding in_i32_def by linarith
  then show "sat_i32 (split_point lo hi + 1) = split_point lo hi + 1" by (simp add: sat_i32_def in_i32_def)
qed

lemma find_some: "find P xs = Some x \<Longrightarrow> P x \<and> x \<in> set xs"
  by (auto simp: find_Some_iff)

lemma list_items_set: "(l, x) \<in> set (list_items st) \<longleftrightarrow> l < length (list_domains st) \<and> x \<in> set (list_universe st l)"
  by (auto simp: list_items_def)

lemma choose_cases:
  assumes "choose_domain_decision st = Some d"
  obtains i where "d = IntervalPresence i" "i < length (interval_domains st)" "interval_presence st i = Optional"
  | k where "d = OrderPair k" "k < length (disjunctive_pairs st)" "disjunctive_order st k = 0"
  | i where "d = IntervalStartSplit i (split_point (interval_start_min st i) (interval_start_max st i))"
      "i < length (interval_domains st)" "interval_presence st i = Present" "interval_start_min st i < interval_start_max st i"
  | l x where "d = ListMembership l x" "l < length (list_domains st)" "x \<in> set (list_universe st l)"
      "list_possible st l x" "\<not> list_required st l x"
proof (cases "find (\<lambda>i. interval_presence st i = Optional) [0..<length (interval_domains st)]")
  case (Some i)
  then show thesis using assms find_some [OF Some] that(1) [of i] by (simp add: choose_domain_decision_def)
next
  case p: None
  show thesis
  proof (cases "find (order_open st) [0..<disjunctive_pair_count st]")
    case (Some k)
    then show thesis using assms p find_some [OF Some] that(2) [of k]
      by (simp add: choose_domain_decision_def order_open_def disjunctive_pair_count_def)
  next
    case o: None
    show thesis
    proof (cases "find (start_open st) [0..<length (interval_domains st)]")
      case (Some i)
      have "start_open st i" "i < length (interval_domains st)" using find_some [OF Some] by simp_all
      moreover from this(2) have "interval_presence st i \<noteq> Optional" using p by (auto simp: find_None_iff)
      ultimately show thesis using assms p o Some that(3) [of i]
        by (cases "interval_presence st i") (simp_all add: choose_domain_decision_def start_open_def)
    next
      case None
      then obtain l x where "d = ListMembership l x" "find (member_open st) (list_items st) = Some (l, x)"
        using assms p o by (auto simp: choose_domain_decision_def)
      then show thesis using find_some [of "member_open st" "list_items st" "(l, x)"] that(4) by (auto simp: member_open_def list_items_set)
    qed
  qed
qed

theorem choose_cuts:
  assumes r: "ready n st" and s: "structs_ok st" and c: "choose_domain_decision st = Some d"
  shows "cuts st d"
proof -
  have g: "good st" and ok: "doms_ok st" using r by (simp_all add: ready_def good_def)
  show ?thesis
    using c
  proof (cases rule: choose_cases)
    case (1 i)
    obtain v where v: "interval_presence_var st i = Some v" "\<not> st_is_fixed st v"
      using 1(3) by (auto simp: interval_presence_def split: option.splits if_splits)
    have "bool_var st v" using s 1(2) v(1) by (simp add: structs_ok_def interval_ok_def)
    then show ?thesis
      by (rule open_cut [OF g _ v(2)])
        (simp_all add: 1(1) v(1) require_interval_presence_def forbid_interval_presence_def fix_interval_presence_def)
  next
    case (2 k)
    have "\<not> st_is_fixed st (disjunctive_order_var st k)" using 2(3) by (auto simp: disjunctive_order_def Let_def split: if_splits)
    moreover have "bool_var st (disjunctive_order_var st k)" using s 2(2) by (simp add: structs_ok_def pair_ok_def)
    ultimately have "bool_var st (disjunctive_order_var st k)" "\<not> st_is_fixed st (disjunctive_order_var st k)" by blast+
    then show ?thesis
      by (rule open_cut [OF g]) (simp_all add: 2(1) set_disjunctive_order_def order_target_def)
  next
    case (3 i)
    let ?v = "interval_start_var st i" and ?lo = "interval_start_min st i" and ?hi = "interval_start_max st i"
    let ?m = "split_point ?lo ?hi"
    have v: "?v < length (domains st)" and nr: "narrow (vals st ?v)" using s 3(2) by (simp_all add: structs_ok_def interval_ok_def)
    have vn: "?v < n" using v r by (simp add: ready_def)
    note rd = ready_reads [OF r vn]
    have dv: "dv st ?v = vals st ?v" using v by (simp add: dv_def)
    have m: "?lo = Min (vals st ?v)" "?hi = Max (vals st ?v)" using rd(3,4) by (simp_all add: interval_start_min_def interval_start_max_def dv)
    have e: "?lo \<in> vals st ?v" "?hi \<in> vals st ?v" using rd(1,2) unfolding m dv by simp_all
    have w: "?hi - ?lo \<le> i32_max" using nr e by (simp add: narrow_def)
    note sp = split_point_ok [OF rd(8) rd(8) 3(4) w, unfolded dv, OF e]
    have "keeps (decision_op d True) ?lo" "keeps (decision_op d False) ?hi" using sp by (simp_all add: 3(1))
    then have "\<exists>x \<in> vals st ?v. keeps (decision_op d left) x" for left using e by (cases left) (simp_all, blast+)
    moreover have "\<not> fails (decision_op d left) (vals st ?v)" for left using sp e by (auto simp: 3(1))
    moreover have "keeps (decision_op d True) x \<noteq> keeps (decision_op d False) x" for x using sp(5) by (auto simp: 3(1))
    ultimately show ?thesis
      using v sp by (simp add: cuts_def 3(1) set_interval_start_max_def set_interval_start_min_def Let_def then_ok_reads)
  next
    case (4 l x)
    have l: "list_ok st l" using s 4(2) by (simp add: structs_ok_def)
    obtain m where m: "list_member_var st l x = Some m" using 4(4) by (auto simp: list_possible_def split: option.splits)
    have b: "bool_var st m" using member_var [OF l m] .
    have p: "1 \<in> vals st m" "vals st m \<noteq> {1}" using list_reads [OF ok l, of x] 4(4,5) m by (auto simp: possible_def required_def)
    then have "vals st m = {0, 1}" using bool_var_cases [OF b] by blast
    then have "\<not> st_is_fixed st m" using st_reads(4) [OF ok, of m] b by (simp add: bool_var_def)
    then show ?thesis
      by (intro open_cut [OF g b]) (simp_all add: 4(1) m require_list_item_def forbid_list_item_def)
  qed
qed

end
