(* ===== verification/DomainReads.thy ===== *)
theory DomainReads imports DomainDecisions begin

text \<open>
  What the leaves of the domain search are: a leaf reads as the solution of any assignment
  within it, and the two sides of a decision lead to different solutions.
\<close>

section \<open>The solution an assignment stands for\<close>

definition solution_of :: "store \<Rightarrow> (var_id \<Rightarrow> int) \<Rightarrow> domain_solution" where
  "solution_of st a =
     \<lparr>ds_lists = map (\<lambda>l. filter (\<lambda>x. case list_member_var st l x of None \<Rightarrow> False | Some m \<Rightarrow> a m = 1) (list_universe st l))
        [0..<length (list_domains st)],
      interval_starts = map (\<lambda>i. case interval_presence_var st i of
            None \<Rightarrow> Some (a (interval_start_var st i))
          | Some v \<Rightarrow> if a v = 1 then Some (a (interval_start_var st i)) else None)
        [0..<length (interval_domains st)]\<rparr>"

lemma solution_of_structs: "structs st' = structs st \<Longrightarrow> solution_of st' = solution_of st"
  by (rule ext) (simp only: solution_of_def structs_reads [of st' st])

section \<open>Reading flags and starts\<close>

lemma flag_value:
  assumes "ready n st" "bool_var st v" "st_is_fixed st v"
  shows "st_value st v = Some x \<longleftrightarrow> vals st v = {x}"
proof -
  have v: "v < n" using assms(1,2) by (simp add: ready_def bool_var_def)
  then have "dv st v = vals st v" using assms(1) by (simp add: ready_def dv_def)
  then show ?thesis using ready_value [OF assms(1) v] by simp
qed

lemma presence_reads:
  assumes "ready n st" "interval_ok st i"
  shows "interval_presence st i = (case interval_presence_var st i of None \<Rightarrow> Present
    | Some v \<Rightarrow> if vals st v = {1} then Present else if vals st v = {0} then Absent else Optional)"
proof (cases "interval_presence_var st i")
  case None
  then show ?thesis by (simp add: interval_presence_def)
next
  case (Some v)
  then have b: "bool_var st v" using assms(2) by (simp add: interval_ok_def)
  then have f: "st_is_fixed st v \<longleftrightarrow> card (vals st v) = 1"
    using assms(1) st_reads(4) [of st v] by (simp add: ready_def good_def bool_var_def)
  have val: "st_is_fixed st v \<Longrightarrow> st_value st v = Some 1 \<longleftrightarrow> vals st v = {1}" using flag_value [OF assms(1) b] .
  from b show ?thesis
    by (cases rule: bool_var_cases) (use f val in \<open>simp_all add: interval_presence_def Some\<close>)
qed

lemma start_reads:
  assumes "ready n st" "interval_ok st i"
  shows "interval_start_min st i \<in> vals st (interval_start_var st i)" "interval_start_max st i \<in> vals st (interval_start_var st i)"
    "x \<in> vals st (interval_start_var st i) \<Longrightarrow> interval_start_min st i \<le> x \<and> x \<le> interval_start_max st i"
proof -
  have v: "interval_start_var st i < length (domains st)" "interval_start_var st i < n" using assms by (simp_all add: interval_ok_def ready_def)
  note rd = ready_reads [OF assms(1) v(2)]
  have d: "dv st (interval_start_var st i) = vals st (interval_start_var st i)" using v(1) by (simp add: dv_def)
  show "interval_start_min st i \<in> vals st (interval_start_var st i)" "interval_start_max st i \<in> vals st (interval_start_var st i)"
    "x \<in> vals st (interval_start_var st i) \<Longrightarrow> interval_start_min st i \<le> x \<and> x \<le> interval_start_max st i"
    using rd(1-4) unfolding d by (simp_all add: interval_start_min_def interval_start_max_def)
qed

section \<open>Leaves\<close>

lemma choose_none:
  assumes "choose_domain_decision st = None"
  shows "i < length (interval_domains st) \<Longrightarrow> interval_presence st i \<noteq> Optional"
    "i < length (interval_domains st) \<Longrightarrow> \<not> start_open st i"
    "l < length (list_domains st) \<Longrightarrow> x \<in> set (list_universe st l) \<Longrightarrow> \<not> member_open st (l, x)"
proof -
  have f: "find (\<lambda>i. interval_presence st i = Optional) [0..<length (interval_domains st)] = None"
    "find (start_open st) [0..<length (interval_domains st)] = None" "find (member_open st) (list_items st) = None"
    using assms by (auto simp: choose_domain_decision_def split: option.splits)
  show "i < length (interval_domains st) \<Longrightarrow> interval_presence st i \<noteq> Optional"
    "i < length (interval_domains st) \<Longrightarrow> \<not> start_open st i" using f(1,2) by (auto simp: find_None_iff)
  show "l < length (list_domains st) \<Longrightarrow> x \<in> set (list_universe st l) \<Longrightarrow> \<not> member_open st (l, x)"
    using f(3) by (auto simp: find_None_iff list_items_set)
qed

lemma leaf_members:
  assumes r: "ready n st" and s: "structs_ok st" and c: "choose_domain_decision st = None" and a: "within a st"
    and l: "l < length (list_domains st)" "x \<in> set (list_universe st l)"
  shows "list_required st l x \<longleftrightarrow> (case list_member_var st l x of None \<Rightarrow> False | Some m \<Rightarrow> a m = 1)"
proof (cases "list_member_var st l x")
  case None
  then show ?thesis by (simp add: list_required_def)
next
  case (Some m)
  have ok: "doms_ok st" using r by (simp add: ready_def good_def)
  have lo: "list_ok st l" using s l(1) by (simp add: structs_ok_def)
  have am: "a m \<in> vals st m" using member_var [OF lo Some] a by (simp add: within_def bool_var_def)
  note rd = list_reads [OF ok lo, of x]
  have "\<not> member_open st (l, x)" using choose_none(3) [OF c l] .
  then show ?thesis using rd am Some by (auto simp: member_open_def required_def possible_def)
qed

lemma leaf_start:
  assumes r: "ready n st" and s: "structs_ok st" and c: "choose_domain_decision st = None" and a: "within a st"
    and i: "i < length (interval_domains st)"
  shows "(if interval_presence st i = Absent then None else Some (interval_start_min st i)) =
    (case interval_presence_var st i of None \<Rightarrow> Some (a (interval_start_var st i))
     | Some v \<Rightarrow> if a v = 1 then Some (a (interval_start_var st i)) else None)"
proof -
  have io: "interval_ok st i" using s i by (simp add: structs_ok_def)
  note pr = presence_reads [OF r io] and sr = start_reads [OF r io]
  have "a (interval_start_var st i) \<in> vals st (interval_start_var st i)" using a io by (simp add: within_def interval_ok_def)
  then have st: "interval_presence st i \<noteq> Absent \<Longrightarrow> interval_start_min st i = a (interval_start_var st i)"
    using choose_none(2) [OF c i] sr(3) [of "a (interval_start_var st i)"] by (simp add: start_open_def)
  show ?thesis
  proof (cases "interval_presence_var st i")
    case None
    then show ?thesis using st pr by simp
  next
    case (Some v)
    then have "a v \<in> vals st v" using a io by (simp add: within_def interval_ok_def bool_var_def)
    moreover have "vals st v = {1} \<or> vals st v = {0}" using choose_none(1) [OF c i] pr Some by (auto split: if_splits)
    ultimately show ?thesis using st pr Some by auto
  qed
qed

theorem leaf_solution:
  assumes r: "ready n st" and s: "structs_ok st" and c: "choose_domain_decision st = None" and a: "within a st"
  shows "collect_domain_solution st = solution_of st a"
proof -
  have "filter (list_required st l) (list_universe st l) =
      filter (\<lambda>x. case list_member_var st l x of None \<Rightarrow> False | Some m \<Rightarrow> a m = 1) (list_universe st l)"
    if "l < length (list_domains st)" for l
    using leaf_members [OF r s c a that] by (intro filter_cong) auto
  then show ?thesis using leaf_start [OF r s c a] by (simp add: collect_domain_solution_def solution_of_def)
qed

section \<open>The sides of a decision\<close>

definition side :: "store \<Rightarrow> domain_decision \<Rightarrow> bool \<Rightarrow> store \<Rightarrow> bool" where
  "side st d left st' \<longleftrightarrow> ready (length (domains st)) st' \<and> structs st' = structs st \<and> structs_ok st' \<and>
     (\<forall>v < length (domains st). vals st' v \<subseteq> vals st v) \<and>
     (\<forall>x \<in> vals st' (decision_var st d). keeps (decision_op d left) x)"

lemma side_vals:
  assumes "side st d left st'" "v < length (domains st)"
  shows "vals st' v \<noteq> {}" "vals st' v \<subseteq> vals st v"
  using assms by (simp_all add: side_def ready_def alive_def)

lemma side_flag:
  assumes "side st d left st'" "decision_var st d < length (domains st)" "decision_op d left = Fix (if left then 1 else 0)"
  shows "vals st' (decision_var st d) = {if left then 1 else 0}"
  using assms(1,3) side_vals(1) [OF assms(1,2)] by (auto simp: side_def)

lemma nth_interval_starts:
  "i < length (interval_domains st) \<Longrightarrow>
   interval_starts (collect_domain_solution st) ! i = (if interval_presence st i = Absent then None else Some (interval_start_min st i))"
  by (simp add: collect_domain_solution_def)

lemma nth_lists:
  "l < length (list_domains st) \<Longrightarrow> ds_lists (collect_domain_solution st) ! l = filter (list_required st l) (list_universe st l)"
  by (simp add: collect_domain_solution_def)

theorem sides_differ:
  assumes r: "ready n st" and s: "structs_ok st" and c: "choose_domain_decision st = Some d" and d: "\<And>k. d \<noteq> OrderPair k"
    and L: "side st d True sL" and R: "side st d False sR"
  shows "collect_domain_solution sL \<noteq> collect_domain_solution sR"
proof -
  have b: "decision_var st d < length (domains st)" using choose_cuts [OF r s c] by (simp add: cuts_def)
  have rL: "ready n sL" "structs_ok sL" "structs sL = structs st" and rR: "ready n sR" "structs_ok sR" "structs sR = structs st"
    using L R r by (simp_all add: side_def ready_def)
  note fL = structs_reads [OF rL(3)] and fR = structs_reads [OF rR(3)]
  show ?thesis
    using c
  proof (cases rule: choose_cases)
    case (1 i)
    obtain v where v: "interval_presence_var st i = Some v" using 1(3) by (auto simp: interval_presence_def split: option.splits)
    have "vals sL v = {1}" "vals sR v = {0}" using side_flag [OF L b] side_flag [OF R b] 1(1) v by simp_all
    moreover have "interval_ok sL i" "interval_ok sR i" using rL(2) rR(2) 1(2) fL(2) fR(2) by (simp_all add: structs_ok_def)
    ultimately have "interval_presence sL i = Present" "interval_presence sR i = Absent"
      using presence_reads [OF rL(1)] presence_reads [OF rR(1)] v fL(6) fR(6) by simp_all
    then show ?thesis using nth_interval_starts [of i sL] nth_interval_starts [of i sR] 1(2) fL(2) fR(2) by auto
  next
    case (2 k)
    then show ?thesis using d by simp
  next
    case (3 i)
    have oL: "interval_ok sL i" and oR: "interval_ok sR i" and oS: "interval_ok st i"
      using rL(2) rR(2) s 3(2) fL(2) fR(2) by (simp_all add: structs_ok_def)
    have p: "interval_presence sL i = Present" "interval_presence sR i = Present"
    proof -
      have one: "vals sL v = {1} \<and> vals sR v = {1}" if "interval_presence_var st i = Some v" for v
      proof -
        have "vals st v = {1}" using 3(3) presence_reads [OF r oS] that by (simp split: if_splits)
        moreover have "v < length (domains st)" using oS that by (simp add: interval_ok_def bool_var_def)
        ultimately show ?thesis using side_vals [OF L] side_vals [OF R] by fastforce
      qed
      show "interval_presence sL i = Present" "interval_presence sR i = Present"
        using presence_reads [OF rL(1) oL] presence_reads [OF rR(1) oR] one fL(6) fR(6) by (auto split: option.splits)
    qed
    have "interval_start_min sL i \<in> vals sL (interval_start_var st i)" "interval_start_min sR i \<in> vals sR (interval_start_var st i)"
      using start_reads(1) [OF rL(1) oL] start_reads(1) [OF rR(1) oR] fL(7) fR(7) by simp_all
    then have "keeps (decision_op d True) (interval_start_min sL i)" "keeps (decision_op d False) (interval_start_min sR i)"
      and m: "interval_start_min sL i \<in> vals st (interval_start_var st i)"
      using L R side_vals(2) [OF L b] by (auto simp: side_def 3(1))
    moreover have "\<not> (keeps (decision_op d True) x \<and> keeps (decision_op d False) x)" if "x \<in> vals st (interval_start_var st i)" for x
      using choose_cuts [OF r s c] that by (auto simp: cuts_def 3(1))
    ultimately have "interval_start_min sL i \<noteq> interval_start_min sR i" by metis
    then show ?thesis using nth_interval_starts [of i sL] nth_interval_starts [of i sR] 3(2) fL(2) fR(2) p by auto
  next
    case (4 l x)
    obtain m where m: "list_member_var st l x = Some m" using 4(4) by (auto simp: list_possible_def split: option.splits)
    have v: "vals sL m = {1}" "vals sR m = {0}" using side_flag [OF L b] side_flag [OF R b] 4(1) m by simp_all
    have o: "list_ok sL l" "list_ok sR l" using rL(2) rR(2) 4(2) fL(1) fR(1) by (simp_all add: structs_ok_def)
    have "doms_ok sL" "doms_ok sR" using rL(1) rR(1) by (simp_all add: ready_def good_def)
    then have "list_required sL l x" "\<not> list_required sR l x"
      using list_reads(2) [OF _ o(1)] list_reads(2) [OF _ o(2)] v m fL(5) fR(5) by (auto simp: required_def)
    then have "x \<in> set (ds_lists (collect_domain_solution sL) ! l)" "x \<notin> set (ds_lists (collect_domain_solution sR) ! l)"
      using 4(2,3) nth_lists [of l sL] nth_lists [of l sR] fL(1,8) fR(1,8) by simp_all
    then show ?thesis by metis
  qed
qed

end
