(* ===== verification/DomainExplore.thy ===== *)
theory DomainExplore imports DomainReads begin

text \<open>
  The domain search explores everything: it always ends, restores the levels it opened, and
  unless it was stopped every assignment that satisfies the constraints is within a leaf that
  was handed to the callback. Proved for any propagators that keep the contract of the trait
  and no state of their own.
\<close>

section \<open>Levels\<close>

lemma good_push:
  assumes "good st"
  shows "good (push_level st)" "vals (push_level st) = vals st" "structs (push_level st) = structs st" "st_view (push_level st) = st_view st"
    "st_saved (push_level st) = st_view st # st_saved st" "queued (push_level st) = queued st" "alive (push_level st) = alive st"
    "length (domains (push_level st)) = length (domains st)"
proof -
  have ok: "doms_ok st" using assms by (simp add: good_def)
  note p = push_level_ok [OF ok]
  show len: "length (domains (push_level st)) = length (domains st)" by (simp add: push_level_def)
  show q: "queued (push_level st) = queued st" by (simp add: push_level_def queued_def fun_eq_iff)
  show v: "vals (push_level st) = vals st" by (simp add: push_level_def vals_def dom_set_def trail_simps fun_eq_iff)
  show "structs (push_level st) = structs st" by (simp add: push_level_def structs_def)
  show "st_view (push_level st) = st_view st" "st_saved (push_level st) = st_view st # st_saved st" by (rule p(2), rule p(3))
  show "alive (push_level st) = alive st" by (simp add: alive_def v len)
  have "all_roomy (push_level st)" using assms by (simp add: good_def all_roomy_def push_level_def roomy_push)
  then show "good (push_level st)" using assms p(1) by (simp add: good_def sched_ok_def links_ok_def q) (simp add: push_level_def)
qed

lemma good_pop:
  assumes g: "good st" and s: "st_saved st = V # S"
  obtains st' where "pop_level st = Some st'" "st' = st\<lparr>s_trail := s_trail st'\<rparr>" "good st'" "st_view st' = V" "st_saved st' = S"
    "structs st' = structs st" "queued st' = queued st"
proof -
  have ok: "doms_ok st" and tr: "trail_ok (s_trail st)" using g by (simp_all add: good_def doms_ok_def)
  obtain st' where p: "pop_level st = Some st'" "doms_ok st'" "st_saved st = st_view st' # st_saved st'"
    using pop_level_cases [OF ok] s by (auto split: option.splits)
  then obtain t where t: "trail_pop_level (s_trail st) = Some t" "st' = st\<lparr>s_trail := t\<rparr>" by (auto simp: pop_level_def)
  have q: "queued st' = queued st" by (simp add: t(2) queued_def fun_eq_iff)
  have "all_roomy st'" using g roomy_pop [OF tr t(1)] by (simp add: good_def all_roomy_def t(2))
  then have "good st'" using g p(2) by (simp add: good_def sched_ok_def links_ok_def q) (simp add: t(2))
  then show thesis using that [OF p(1)] p(3) s q by (simp add: t(2) structs_def)
qed

lemma view_same:
  assumes "st_view st' = st_view st"
  shows "length (domains st') = length (domains st)" "v < length (domains st) \<Longrightarrow> vals st' v = vals st v" "dv st' = dv st"
    "alive st' = alive st" "within a st' = within a st"
proof -
  show len: "length (domains st') = length (domains st)" using assms by (metis length_view)
  show v: "v < length (domains st) \<Longrightarrow> vals st' v = vals st v" for v using assms len by (metis view_nth)
  show "dv st' = dv st" "alive st' = alive st" "within a st' = within a st"
    using v by (auto simp: dv_def alive_def within_def len fun_eq_iff)
qed

lemma set_apply_keeps: "\<not> fails c S \<Longrightarrow> set_apply c S = {x \<in> S. keeps c x}"
  by (cases c) auto

text \<open>A new level changes nothing that is read.\<close>

lemma push_same_reads:
  "trail_get (trail_push_level t) r = trail_get t r" "dom_min d (trail_push_level t) = dom_min d t" "dom_max d (trail_push_level t) = dom_max d t"
  "dom_active_prefix d (trail_push_level t) = dom_active_prefix d t" "dom_size d (trail_push_level t) = dom_size d t"
proof -
  show g: "trail_get (trail_push_level t) r = trail_get t r" for r by (simp add: trail_get_def trail_simps)
  show m: "dom_min d (trail_push_level t) = dom_min d t" "dom_max d (trail_push_level t) = dom_max d t"
    by (simp_all add: dom_min_def dom_max_def g)
  show "dom_active_prefix d (trail_push_level t) = dom_active_prefix d t" "dom_size d (trail_push_level t) = dom_size d t"
    by (simp_all add: dom_active_prefix_def dom_size_def g m split: value_map.splits)
qed

lemma push_reads:
  "st_min (push_level st) = st_min st" "st_max (push_level st) = st_max st" "st_is_fixed (push_level st) = st_is_fixed st"
  "st_value (push_level st) = st_value st" "st_contains (push_level st) = st_contains st"
proof -
  have d: "domains (push_level st) = domains st" "s_trail (push_level st) = trail_push_level (s_trail st)" by (simp_all add: push_level_def)
  show m: "st_min (push_level st) = st_min st" "st_max (push_level st) = st_max st" "st_is_fixed (push_level st) = st_is_fixed st"
    by (simp_all add: fun_eq_iff st_min_def st_max_def st_is_fixed_def dom_is_fixed_def d push_same_reads)
  show "st_value (push_level st) = st_value st" by (simp add: fun_eq_iff st_value_def m)
  show "st_contains (push_level st) = st_contains st"
    by (simp add: fun_eq_iff st_contains_def dom_contains_def d push_same_reads split: value_map.splits option.splits)
qed

lemma push_structs: "structs (push_level st) = structs st"
  by (simp add: structs_def push_level_def)

lemma choose_push: "choose_domain_decision (push_level st) = choose_domain_decision st"
proof -
  note r = structs_reads [OF push_structs [of st]]
  have d: "interval_duration (push_level st) = interval_duration st" by (simp add: fun_eq_iff interval_duration_def r)
  have s: "interval_start_min (push_level st) = interval_start_min st" "interval_start_max (push_level st) = interval_start_max st"
    by (simp_all add: fun_eq_iff interval_start_min_def interval_start_max_def r push_reads)
  have p: "interval_presence (push_level st) = interval_presence st"
    by (simp add: fun_eq_iff interval_presence_def r push_reads split: option.splits)
  have o: "order_open (push_level st) = order_open st"
    by (simp add: fun_eq_iff order_open_def can_strictly_overlap_def interval_end_max_def disjunctive_order_def disjunctive_pair_def Let_def d s p r push_reads)
  have m: "member_open (push_level st) = member_open st"
    by (simp add: fun_eq_iff member_open_def list_possible_def list_required_def fixed_to_def r push_reads split: option.splits)
  have so: "start_open (push_level st) = start_open st" by (simp add: fun_eq_iff start_open_def s p)
  show ?thesis
    unfolding choose_domain_decision_def list_items_def disjunctive_pair_count_def s p o m so r ..
qed

text \<open>Nor does a level that was opened and closed again.\<close>

lemma find_same: "(\<And>x. x \<in> set xs \<Longrightarrow> P x = Q x) \<Longrightarrow> find P xs = find Q xs"
  by (induction xs) auto

lemma choose_same:
  assumes r: "ready n st" "ready n st'" and ok: "structs_ok st" "structs_ok st'"
    and s: "structs st' = structs st" and v: "st_view st' = st_view st"
  shows "choose_domain_decision st' = choose_domain_decision st"
proof -
  note f = structs_reads [OF s] and w = view_same [OF v]
  have n: "length (domains st) = n" using r(1) by (simp add: ready_def)
  have rd: "st_min st' v = st_min st v" "st_max st' v = st_max st v" "st_is_fixed st' v = st_is_fixed st v" "st_value st' v = st_value st v"
    if "v < n" for v
    using ready_reads [OF r(1) that] ready_reads [OF r(2) that] w(3) by (simp_all add: st_value_def)
  have pres: "interval_presence st' i = interval_presence st i" and start: "interval_start_min st' i = interval_start_min st i"
      "interval_start_max st' i = interval_start_max st i" if i: "i < length (interval_domains st)" for i
  proof -
    have io: "interval_ok st i" using ok(1) i by (simp add: structs_ok_def)
    then show "interval_start_min st' i = interval_start_min st i" "interval_start_max st' i = interval_start_max st i"
      using rd [of "interval_start_var st i"] n by (simp_all add: interval_ok_def interval_start_min_def interval_start_max_def f)
    have "\<And>u. interval_presence_var st i = Some u \<Longrightarrow> u < n" using io n by (simp add: interval_ok_def bool_var_def)
    then show "interval_presence st' i = interval_presence st i"
      using rd by (simp add: interval_presence_def f split: option.splits)
  qed
  have ord: "order_open st' k = order_open st k" if k: "k < length (disjunctive_pairs st)" for k
  proof -
    obtain a b where ab: "disjunctive_pair st k = (a, b)" by fastforce
    then have p: "bool_var st (disjunctive_order_var st k)" "a < length (interval_domains st)" "b < length (interval_domains st)"
      using ok(1) k by (auto simp: structs_ok_def pair_ok_def)
    have "disjunctive_order st' k = disjunctive_order st k"
      using rd [of "disjunctive_order_var st k"] p(1) n by (simp add: disjunctive_order_def Let_def f bool_var_def)
    moreover have "can_strictly_overlap st' a b = can_strictly_overlap st a b"
      using start [OF p(2)] start [OF p(3)] by (simp add: can_strictly_overlap_def interval_end_max_def interval_duration_def f)
    ultimately show ?thesis using pres [OF p(2)] pres [OF p(3)] by (simp add: order_open_def ab f)
  qed
  have mem: "member_open st' lx = member_open st lx" if l: "lx \<in> set (list_items st)" for lx
  proof -
    obtain l x where lx: "lx = (l, x)" by fastforce
    then have b: "list_ok st l" "list_ok st' l" using ok l by (simp_all add: list_items_set structs_ok_def f)
    have g: "doms_ok st" "doms_ok st'" using r by (simp_all add: ready_def good_def)
    have "vals st' m = vals st m" if "list_member_var st l x = Some m" for m
      using member_var [OF b(1) that] w(2) by (simp add: bool_var_def)
    then have "x \<in> possible st' l \<longleftrightarrow> x \<in> possible st l" "x \<in> required st' l \<longleftrightarrow> x \<in> required st l"
      by (auto simp: possible_def required_def f)
    then show ?thesis using list_reads [OF g(1) b(1)] list_reads [OF g(2) b(2)] by (simp add: member_open_def lx)
  qed
  have c: "find (\<lambda>i. interval_presence st' i = Optional) [0..<length (interval_domains st)] =
      find (\<lambda>i. interval_presence st i = Optional) [0..<length (interval_domains st)]"
    "find (order_open st') [0..<length (disjunctive_pairs st)] = find (order_open st) [0..<length (disjunctive_pairs st)]"
    "find (start_open st') [0..<length (interval_domains st)] = find (start_open st) [0..<length (interval_domains st)]"
    "find (member_open st') (list_items st) = find (member_open st) (list_items st)"
    by (rule find_same; use pres ord start mem in \<open>simp add: start_open_def\<close>)+
  have li: "list_items st' = list_items st" by (simp add: list_items_def f)
  show ?thesis
  proof (cases "find (start_open st) [0..<length (interval_domains st)]")
    case None
    show ?thesis unfolding choose_domain_decision_def disjunctive_pair_count_def f c li None by (simp split: option.split)
  next
    case (Some i)
    then have "i < length (interval_domains st)" using find_some [OF Some] by simp
    then show ?thesis unfolding choose_domain_decision_def disjunctive_pair_count_def f c li Some by (simp add: start split: option.split)
  qed
qed

section \<open>Callbacks\<close>

text \<open>A callback run on the leaves in the order they were found, until it stops.\<close>

fun run_cb :: "('p, 'u) callback \<Rightarrow> 'p solver list \<Rightarrow> 'u \<Rightarrow> 'u \<times> search_control" where
  "run_cb cb [] u = (u, SearchContinue)"
| "run_cb cb (s # ss) u = (case cb s (collect_domain_solution (so_store s)) u of
     (u', SearchContinue) \<Rightarrow> run_cb cb ss u' | (u', SearchStop) \<Rightarrow> (u', SearchStop))"

lemma run_cb_append:
  "run_cb cb (xs @ ys) u = (case run_cb cb xs u of (u', SearchContinue) \<Rightarrow> run_cb cb ys u' | (u', SearchStop) \<Rightarrow> (u', SearchStop))"
  by (induction xs arbitrary: u) (auto split: prod.splits search_control.splits)

section \<open>The contract\<close>

text \<open>Where a branch comes back to: everything but weights, queue and counters is restored.\<close>

definition kept :: "'p solver \<Rightarrow> 'p solver \<Rightarrow> bool" where
  "kept so so' \<longleftrightarrow> propagators so' = propagators so \<and> st_saved (so_store so') = st_saved (so_store so) \<and>
     structs (so_store so') = structs (so_store so)"

definition total :: "nat \<Rightarrow> 'p solver \<Rightarrow> nat" where
  "total n so = (\<Sum>v < n. card (vals (so_store so) v))"

locale steady_engine = propagator_contract vt sol fixp watch wf
  for vt :: "'p vtable" and sol fixp watch wf +
  assumes steady_law: "propagate vt so = Some (so', r) \<Longrightarrow> propagators so' = propagators so"
begin

abbreviation at_fixpoint :: "'p solver \<Rightarrow> bool" where
  "at_fixpoint so \<equiv> \<forall>i < length (propagators so). bfix (slot so i) (dv (so_store so))"

definition place :: "nat \<Rightarrow> 'p solver \<Rightarrow> bool" where
  "place n so \<longleftrightarrow> solver_inv n so \<and> alive (so_store so) \<and> settled (\<lambda>_. False) so \<and> structs_ok (so_store so)"

definition leaf :: "nat \<Rightarrow> 'p solver \<Rightarrow> 'p solver \<Rightarrow> bool" where
  "leaf n so s \<longleftrightarrow> place n s \<and> at_fixpoint s \<and> choose_domain_decision (so_store s) = None \<and>
     propagators s = propagators so \<and> structs (so_store s) = structs (so_store so) \<and>
     (\<forall>v < n. vals (so_store s) v \<subseteq> vals (so_store so) v)"

definition explored :: "nat \<Rightarrow> 'p solver \<Rightarrow> 'p solver list \<Rightarrow> domain_exit \<Rightarrow> bool" where
  "explored n so trace e \<longleftrightarrow> (\<forall>s \<in> set trace. leaf n so s) \<and>
     (e = Exhausted \<longrightarrow> (\<forall>a. within a (so_store so) \<and> all_sol so a \<longrightarrow> (\<exists>s \<in> set trace. within a (so_store s)))) \<and>
     (disjunctive_pairs (so_store so) = [] \<longrightarrow> distinct (map (\<lambda>s. collect_domain_solution (so_store s)) trace))"

lemma place_ready: "place n so \<Longrightarrow> ready n (so_store so)"
  by (simp add: place_def ready_def solver_ok_def)

lemma all_sol_cong: "propagators so' = propagators so \<Longrightarrow> all_sol so' a = all_sol so a"
  by (simp add: all_posted_def slot_def)

lemma store_inv:
  assumes "solver_inv n so" "good st'" "length (domains st') = length (domains (so_store so))" "current st' = current (so_store so)"
    "length (enqueued st') = length (enqueued (so_store so))" "subs st' = subs (so_store so)" "scopes st' = scopes (so_store so)"
    "var_weight_cache st' = var_weight_cache (so_store so)"
  shows "solver_inv n (so\<lparr>so_store := st'\<rparr>)"
  by (rule inv_cong(1) [OF _ _ _ _ _ _ _ _ _ assms(1)]) (use assms in \<open>simp_all add: solver_ok_def\<close>)

text \<open>Whatever a decision wakes is queued; the rest still has nothing to do.\<close>

lemma evolve_settled:
  assumes inv: "solver_inv n so" and al: "alive (so_store so)" "alive st'" and se: "settled E so" and ev: "evolves (so_store so) st'"
  shows "settled E (so\<lparr>so_store := st'\<rparr>)"
  unfolding settled_for_def
proof (intro allI impI)
  let ?st = "so_store so"
  fix i assume i: "i < length (propagators (so\<lparr>so_store := st'\<rparr>))" and nq: "\<not> queued (so_store (so\<lparr>so_store := st'\<rparr>)) i \<and> \<not> E i"
  have n: "length (domains ?st) = n" and cur: "current ?st = None" and g: "doms_ok ?st" using inv by (simp_all add: solver_ok_def good_def)
  have "\<not> queued ?st i" using ev nq by (auto simp: evolves_def)
  then have fx: "bfix (slot so i) (dv ?st)" using se i nq by (simp add: settled_for_def)
  have hi: "bwf n (slot so i)" "\<forall>(e, v) \<in> bwatch (slot so i). (e, i) \<in> set (subs ?st ! v)"
    using inv_held [OF inv, of i] i by (simp_all add: held_in_def)
  have len: "length (domains st') = n" using ev n by (simp add: evolves_def)
  have "\<not> occurs e (dv ?st v) (dv st' v)" if w: "(e, v) \<in> bwatch (slot so i)" for e v
  proof -
    have "v < n" using bwatch_var [OF hi(1) w] .
    moreover have "(e, i) \<in> set (subs ?st ! v)" using hi(2) w by blast
    moreover have "woken ?st st'" using ev al by (simp add: evolves_def)
    ultimately show ?thesis using nq n cur len unfolding woken_def by (fastforce simp: dv_def)
  qed
  moreover have "dv st' v \<noteq> {} \<and> dv st' v \<subseteq> dv ?st v \<and> finite (dv ?st v)" if "v < n" for v
    using that ev al(2) n len st_reads(1) [OF g, of v] by (auto simp: evolves_def alive_def dv_def)
  ultimately have "bfix (slot so i) (dv st')" using box_wake [OF hi(1) fx, of "dv st'"] by auto
  then show "bfix (slot (so\<lparr>so_store := st'\<rparr>) i) (dv (so_store (so\<lparr>so_store := st'\<rparr>)))" by (simp add: slot_def)
qed

section \<open>Into a branch and back\<close>

definition branch_of :: "nat \<Rightarrow> 'p solver \<Rightarrow> domain_decision \<Rightarrow> bool \<Rightarrow> 'p solver \<Rightarrow> bool" where
  "branch_of n so d left soB \<longleftrightarrow> place n soB \<and> propagators soB = propagators so \<and> structs (so_store soB) = structs (so_store so) \<and>
     (\<forall>v < n. vals (so_store soB) v =
       (if v = decision_var (so_store so) d then {x \<in> vals (so_store so) v. keeps (decision_op d left) x} else vals (so_store so) v))"

lemma enter_ok:
  assumes pl: "place n so" and c: "choose_domain_decision (so_store so) = Some d"
  obtains so' where "enter_branch d left so = (so', True)" "branch_of n so d left so'"
    "st_saved (so_store so') = st_view (so_store so) # st_saved (so_store so)"
proof -
  let ?st = "so_store so"
  let ?p = "push_level ?st" and ?v = "decision_var ?st d" and ?c = "decision_op d left"
  let ?so1 = "so\<lparr>so_store := ?p\<rparr>"
  have inv: "solver_inv n so" and al: "alive ?st" and se: "settled (\<lambda>_. False) so" and so: "structs_ok ?st" using pl by (simp_all add: place_def)
  have g: "good ?st" and n: "length (domains ?st) = n" using inv by (simp_all add: solver_ok_def)
  note P = good_push [OF g]
  note pr = structs_reads [OF P(3)]
  have v0: "decision_var ?p d = ?v" by (cases d) (simp_all add: pr)
  have al': "alive ?p" using al P(7) by simp
  have rd: "ready n ?p" using P(1,8) al' n by (simp add: ready_def)
  have so': "structs_ok ?p" by (rule structs_ok_shrink [OF so P(3,8)]) (use al' P(2) in simp_all)
  have cut: "cuts ?p d" using choose_cuts [OF rd so'] c by (simp add: choose_push)
  then have v: "?v < n" and i: "in_i32 (op_arg ?c)" and nf: "\<not> fails ?c (vals ?st ?v)"
    and oc: "is_ok (snd (decision_outcome d left ?p)) = is_ok (snd (st_apply ?v ?c ?p))"
      "fst (decision_outcome d left ?p) = fst (st_apply ?v ?c ?p)"
    and ex: "\<exists>x \<in> vals ?st ?v. keeps ?c x"
    by (simp_all add: cuts_def v0 P(2,8) n)
  obtain st' r where run: "st_apply ?v ?c ?p = (st', r)" by fastforce
  have vb: "?v < length (domains ?p)" "vals ?p ?v \<noteq> {}" using v n al' P(8) by (simp_all add: alive_def)
  note E = st_apply_evolves [OF P(1) vb i run]
  have rok: "is_ok r" using E(3) nf P(2) by simp
  have len: "length (domains st') = n" using E(1) P(8) n by (simp add: evolves_def)
  have vs: "vals st' w = (if w = ?v then {x \<in> vals ?st w. keeps ?c x} else vals ?st w)" if "w < n" for w
    using view_vals [OF E(2), of w] that n P(2,8) set_apply_keeps [OF nf] by simp
  have al1: "alive st'" using vs al ex len n by (auto simp: alive_def)
  let ?so' = "so\<lparr>so_store := st'\<rparr>"
  have inv1: "solver_inv n ?so1" by (rule store_inv [OF inv P(1)]) (simp_all add: push_level_def)
  have se1: "settled (\<lambda>_. False) ?so1"
    using se view_same(3) [OF P(4)] P(6) by (simp add: settled_for_def slot_def)
  have "settled (\<lambda>_. False) (?so1\<lparr>so_store := st'\<rparr>)"
    by (rule evolve_settled [OF inv1]) (use al' al1 se1 E(1) in simp_all)
  moreover have "solver_inv n (?so1\<lparr>so_store := st'\<rparr>)"
    by (rule store_inv [OF inv1]) (use E(1) in \<open>simp_all add: evolves_def\<close>)
  moreover have "structs_ok st'"
    by (rule structs_ok_shrink [OF so']) (use E(1) al1 in \<open>simp_all add: evolves_def\<close>)
  ultimately have "place n ?so'" using al1 by (simp add: place_def)
  moreover have "enter_branch d left so = (?so', True)"
    using oc run rok by (cases "decision_outcome d left ?p") (simp add: enter_branch_def apply_domain_decision_def)
  moreover have "st_saved st' = st_view ?st # st_saved ?st" "structs st' = structs ?st"
    using E(1) P(3,5) by (simp_all add: evolves_def)
  ultimately show thesis using that [of ?so'] vs by (simp add: branch_of_def)
qed

lemma leave_ok:
  assumes inv: "solver_inv n so2" and k: "propagators so2 = propagators so" "structs (so_store so2) = structs (so_store so)"
    and sv: "st_saved (so_store so2) = st_view (so_store so) # st_saved (so_store so)"
    and pl: "place n so" and fx: "at_fixpoint so"
  obtains so' where "leave_branch so2 = Some so'" "place n so'" "kept so so'" "st_view (so_store so') = st_view (so_store so)"
proof -
  have g: "good (so_store so2)" using inv by (simp add: solver_ok_def)
  obtain st' where p: "pop_level (so_store so2) = Some st'" "st' = (so_store so2)\<lparr>s_trail := s_trail st'\<rparr>" "good st'"
    "st_view st' = st_view (so_store so)" "st_saved st' = st_saved (so_store so)" "structs st' = structs (so_store so2)"
    by (rule good_pop [OF g sv])
  let ?so' = "so2\<lparr>so_store := st'\<rparr>"
  note v = view_same [OF p(4)]
  have f: "domains st' = domains (so_store so2)" "current st' = current (so_store so2)" "enqueued st' = enqueued (so_store so2)"
    "subs st' = subs (so_store so2)" "scopes st' = scopes (so_store so2)" "var_weight_cache st' = var_weight_cache (so_store so2)"
    by (subst p(2), simp)+
  have i: "solver_inv n ?so'" by (rule store_inv [OF inv p(3)]) (simp_all add: f)
  have "settled (\<lambda>_. False) ?so'" using fx by (simp add: settled_for_def slot_def k v(3))
  moreover have al: "alive st'" using pl v(4) by (simp add: place_def)
  moreover have "structs_ok st'"
    by (rule structs_ok_shrink [of "so_store so"]) (use pl p(6) k v al in \<open>simp_all add: place_def\<close>)
  ultimately have "place n ?so'" using i by (simp add: place_def)
  moreover have "leave_branch so2 = Some ?so'" by (simp add: leave_branch_def p(1))
  ultimately show thesis using that [of ?so'] p k by (simp add: kept_def)
qed

section \<open>The search\<close>

lemma leaf_mono:
  assumes l: "leaf n so1 s" and p: "propagators so1 = propagators so" "structs (so_store so1) = structs (so_store so)"
    and sub: "\<forall>v < n. vals (so_store so1) v \<subseteq> vals (so_store so) v"
  shows "leaf n so s"
proof -
  have "vals (so_store s) v \<subseteq> vals (so_store so) v" if "v < n" for v
  proof -
    have "vals (so_store s) v \<subseteq> vals (so_store so1) v" using l that by (simp add: leaf_def)
    then show ?thesis using sub that by (meson subset_trans)
  qed
  then show ?thesis using l p by (simp add: leaf_def)
qed

lemma leaf_side:
  assumes l: "leaf n soB s" and b: "branch_of n so d left soB" and n: "length (domains (so_store so)) = n"
    and d: "decision_var (so_store so) d < n"
  shows "side (so_store so) d left (so_store s)"
proof -
  have p: "place n s" and sub: "\<forall>v < n. vals (so_store s) v \<subseteq> vals (so_store soB) v" and st: "structs (so_store s) = structs (so_store so)"
    using l b by (simp_all add: leaf_def branch_of_def)
  have vs: "vals (so_store soB) v =
       (if v = decision_var (so_store so) d then {x \<in> vals (so_store so) v. keeps (decision_op d left) x} else vals (so_store so) v)" if "v < n" for v
    using b that by (simp add: branch_of_def)
  have "vals (so_store s) v \<subseteq> vals (so_store so) v" if "v < n" for v using sub vs [OF that] that by (auto split: if_splits)
  moreover have "keeps (decision_op d left) x" if "x \<in> vals (so_store s) (decision_var (so_store so) d)" for x
    using sub vs [OF d] d that by auto
  ultimately show ?thesis using place_ready [OF p] p st n by (simp add: side_def place_def)
qed

definition searched :: "('p, 'u) callback \<Rightarrow> nat \<Rightarrow> 'p solver \<Rightarrow> solve_stats \<Rightarrow> 'u \<Rightarrow> bool list \<Rightarrow> ('p, 'u) search_state option \<Rightarrow> bool" where
  "searched cb n so stats u stops res \<longleftrightarrow> (\<exists>trace so' stats' e stops'. res = Some (so', stats', fst (run_cb cb trace u), e, stops') \<and>
     solver_inv n so' \<and> kept so so' \<and> explored n so trace e \<and> solutions stats' = solutions stats + of_nat (length trace) \<and>
     (e = Exhausted \<longrightarrow> snd (run_cb cb trace u) = SearchContinue) \<and>
     (stops = [] \<longrightarrow> stops' = [] \<and> (e = Stopped \<longrightarrow> snd (run_cb cb trace u) = SearchStop)))"

lemma total_less:
  assumes "v < n" "vals (so_store so') v \<subset> vals (so_store so) v" "\<forall>w < n. vals (so_store so') w \<subseteq> vals (so_store so) w"
    and "doms_ok (so_store so)" "length (domains (so_store so)) = n"
  shows "total n so' < total n so"
proof -
  have fin: "finite (vals (so_store so) w)" if "w < n" for w using st_reads(1) [OF assms(4)] that assms(5) by simp
  show ?thesis
    unfolding total_def
  proof (rule sum_strict_mono_ex1)
    show "\<forall>w \<in> {..<n}. card (vals (so_store so') w) \<le> card (vals (so_store so) w)"
      using assms(3) fin by (auto intro: card_mono)
    show "\<exists>w \<in> {..<n}. card (vals (so_store so') w) < card (vals (so_store so) w)"
      using assms(1,2) psubset_card_mono [OF fin [OF assms(1)]] by blast
  qed simp
qed

lemma explored_none:
  "(\<And>a. e = Exhausted \<Longrightarrow> within a (so_store so) \<Longrightarrow> \<not> all_sol so a) \<Longrightarrow> explored n so [] e"
  by (auto simp: explored_def)

text \<open>The root of a subtree, once propagation has succeeded on it.\<close>

definition settled_root :: "nat \<Rightarrow> 'p solver \<Rightarrow> 'p solver \<Rightarrow> bool" where
  "settled_root n so so1 \<longleftrightarrow> place n so \<and> place n so1 \<and> at_fixpoint so1 \<and> kept so so1 \<and>
     (\<forall>v < n. vals (so_store so1) v \<subseteq> vals (so_store so) v) \<and>
     (\<forall>a. within a (so_store so) \<and> all_sol so a \<longrightarrow> within a (so_store so1))"

lemma root_cases:
  assumes pl: "place n so"
  obtains so1 where "propagate vt so = Some (so1, Ok ())" "settled_root n so so1"
    | so1 e where "propagate vt so = Some (so1, Err e)" "solver_inv n so1" "kept so so1" "\<And>a. within a (so_store so) \<Longrightarrow> \<not> all_sol so a"
proof -
  have inv: "solver_inv n so" and al: "alive (so_store so)" and se: "settled (\<lambda>_. False) so" and st: "structs_ok (so_store so)"
    using pl by (simp_all add: place_def)
  obtain so1 r where P: "propagate vt so = Some (so1, r)" and F: "solver_inv n so1" "st_saved (so_store so1) = st_saved (so_store so)"
    "structs (so_store so1) = structs (so_store so)"
    "if is_ok r then alive (so_store so1) \<and> at_fixpoint so1 \<and>
        (\<forall>v < n. vals (so_store so1) v \<subseteq> vals (so_store so) v) \<and>
        (\<forall>a. within a (so_store so) \<and> all_sol so a \<longrightarrow> within a (so_store so1))
     else \<forall>a. within a (so_store so) \<longrightarrow> \<not> all_sol so a"
    using propagate_fixpoint [OF inv al se] by (elim exE conjE) (rule that)
  have k: "kept so so1" using steady_law [OF P] F(2,3) by (simp add: kept_def)
  show thesis
  proof (cases r)
    case (Ok x)
    have n: "length (domains (so_store so)) = n" "length (domains (so_store so1)) = n" using inv F(1) by (simp_all add: solver_ok_def)
    have "settled (\<lambda>_. False) so1" using F(4) Ok by (simp add: settled_for_def)
    moreover have "structs_ok (so_store so1)" by (rule structs_ok_shrink [OF st F(3)]) (use F(4) Ok n in simp_all)
    ultimately have "settled_root n so so1" using F(1,4) Ok k pl by (simp add: settled_root_def place_def)
    then show thesis using that(1) P Ok by simp
  next
    case (Err e)
    then show thesis using that(2) P F(1,4) k by simp
  qed
qed

lemma explored_leaf:
  assumes "settled_root n so so1" "choose_domain_decision (so_store so1) = None"
  shows "explored n so [so1] e"
  using assms by (auto simp: explored_def leaf_def settled_root_def kept_def)

lemma explored_sides:
  assumes root: "settled_root n so so1" and c: "choose_domain_decision (so_store so1) = Some d"
    and L: "explored n soL trL eL" and bL: "branch_of n so1 d True soL"
    and R: "explored n soR trR eR" and bR: "branch_of n so1 d False soR"
    and e: "eL = Exhausted"
  shows "explored n so (trL @ trR) eR"
proof -
  have pl: "place n so1" and p1: "propagators so1 = propagators so" and s1: "structs (so_store so1) = structs (so_store so)"
    and sub1: "\<forall>v < n. vals (so_store so1) v \<subseteq> vals (so_store so) v"
    and w1: "\<And>a. within a (so_store so) \<Longrightarrow> all_sol so a \<Longrightarrow> within a (so_store so1)"
    using root by (simp_all add: settled_root_def kept_def)
  have L5: "\<And>v. v < n \<Longrightarrow> vals (so_store soL) v = (if v = decision_var (so_store so1) d then {x \<in> vals (so_store so1) v. keeps (decision_op d True) x} else vals (so_store so1) v)"
    and R5: "\<And>v. v < n \<Longrightarrow> vals (so_store soR) v = (if v = decision_var (so_store so1) d then {x \<in> vals (so_store so1) v. keeps (decision_op d False) x} else vals (so_store so1) v)"
    using bL bR by (simp_all add: branch_of_def)
  have n: "length (domains (so_store so1)) = n" "length (domains (so_store soL)) = n" "length (domains (so_store soR)) = n"
    using pl bL bR by (simp_all add: branch_of_def place_def solver_ok_def)
  have rd: "ready n (so_store so1)" and ok: "structs_ok (so_store so1)" using place_ready [OF pl] pl by (simp_all add: place_def)
  have cut: "cuts (so_store so1) d" using choose_cuts [OF rd ok c] .
  then have v: "decision_var (so_store so1) d < n" by (simp add: cuts_def n)
  have subL: "\<forall>v < n. vals (so_store soL) v \<subseteq> vals (so_store so) v" and subR: "\<forall>v < n. vals (so_store soR) v \<subseteq> vals (so_store so) v"
    using L5 R5 sub1 by auto
  have pL: "propagators soL = propagators so" "structs (so_store soL) = structs (so_store so)" using bL p1 s1 by (simp_all add: branch_of_def)
  have pR: "propagators soR = propagators so" "structs (so_store soR) = structs (so_store so)" using bR p1 s1 by (simp_all add: branch_of_def)
  have lL: "leaf n soL s" if "s \<in> set trL" for s using L that by (simp add: explored_def)
  have lR: "leaf n soR s" if "s \<in> set trR" for s using R that by (simp add: explored_def)
  have "leaf n so s" if "s \<in> set (trL @ trR)" for s
    using that leaf_mono [OF lL pL subL] leaf_mono [OF lR pR subR] by auto
  moreover have "\<exists>s \<in> set (trL @ trR). within a (so_store s)" if a: "within a (so_store so)" "all_sol so a" and "eR = Exhausted" for a
  proof -
    have w: "within a (so_store so1)" using w1 a by blast
    then have "a (decision_var (so_store so1) d) \<in> vals (so_store so1) (decision_var (so_store so1) d)" using v n by (simp add: within_def)
    then have "keeps (decision_op d True) (a (decision_var (so_store so1) d)) \<or> keeps (decision_op d False) (a (decision_var (so_store so1) d))"
      using cut by (auto simp: cuts_def)
    then have "within a (so_store soL) \<or> within a (so_store soR)"
      using w L5 R5 v by (auto simp: within_def n)
    moreover have "all_sol soL a" "all_sol soR a" using a(2) all_sol_cong [OF pL(1)] all_sol_cong [OF pR(1)] by simp_all
    ultimately show ?thesis using L R e that(3) by (auto simp: explored_def)
  qed
  moreover have "distinct (map (\<lambda>s. collect_domain_solution (so_store s)) (trL @ trR))" if np: "disjunctive_pairs (so_store so) = []"
  proof -
    have f: "disjunctive_pairs (so_store so1) = []" "disjunctive_pairs (so_store soL) = []" "disjunctive_pairs (so_store soR) = []"
      using structs_reads(3) [OF s1] structs_reads(3) [OF pL(2)] structs_reads(3) [OF pR(2)] np by simp_all
    have nd: "d \<noteq> OrderPair k" for k
      using c f(1) by (cases rule: choose_cases) auto
    have "collect_domain_solution (so_store x) \<noteq> collect_domain_solution (so_store y)" if "x \<in> set trL" "y \<in> set trR" for x y
      by (rule sides_differ [OF rd ok c nd leaf_side [OF lL [OF that(1)] bL n(1) v] leaf_side [OF lR [OF that(2)] bR n(1) v]])
    then show ?thesis using L R f(2,3) by (auto simp: explored_def)
  qed
  ultimately show ?thesis by (simp add: explored_def)
qed

lemma explored_stopped:
  assumes root: "settled_root n so so1" and c: "choose_domain_decision (so_store so1) = Some d"
    and L: "explored n soL tr e" and bL: "branch_of n so1 d left soL"
  shows "explored n so tr Stopped"
proof -
  have p: "propagators soL = propagators so" "structs (so_store soL) = structs (so_store so)"
    using root bL by (simp_all add: settled_root_def branch_of_def kept_def)
  have "vals (so_store soL) v \<subseteq> vals (so_store so1) v" "vals (so_store so1) v \<subseteq> vals (so_store so) v" if "v < n" for v
    using root bL that by (auto simp: settled_root_def branch_of_def)
  then have "\<forall>v < n. vals (so_store soL) v \<subseteq> vals (so_store so) v" by (meson subset_trans)
  then have "leaf n so s" if "s \<in> set tr" for s using leaf_mono [OF _ p] L that by (simp add: explored_def)
  then show ?thesis using L structs_reads(3) [OF p(2)] by (simp add: explored_def)
qed

lemma run_cb_continue:
  "snd (run_cb cb xs u) = SearchContinue \<Longrightarrow> run_cb cb (xs @ ys) u = run_cb cb ys (fst (run_cb cb xs u))"
  by (cases "run_cb cb xs u") (simp add: run_cb_append)

text \<open>One node: the left side, then unless it was stopped the right side, each in its level.\<close>

lemma side_ok:
  assumes root: "settled_root n so so1" and pl: "place n so3" and k: "kept so1 so3" and v3: "st_view (so_store so3) = st_view (so_store so1)"
    and c: "choose_domain_decision (so_store so1) = Some d"
    and IH: "\<forall>x stats u stops. total n x < total n so \<longrightarrow> place n x \<longrightarrow> searched cb n x stats u stops (domain_dfs vt cb x stats u stops)"
  obtains soB tr soC stats' e stops' so' where "enter_branch d left so3 = (soB, True)" "branch_of n so1 d left soB"
    "domain_dfs vt cb soB stats u stops = Some (soC, stats', fst (run_cb cb tr u), e, stops')" "explored n soB tr e"
    "solutions stats' = solutions stats + of_nat (length tr)" "e = Exhausted \<longrightarrow> snd (run_cb cb tr u) = SearchContinue"
    "stops = [] \<longrightarrow> stops' = [] \<and> (e = Stopped \<longrightarrow> snd (run_cb cb tr u) = SearchStop)"
    "leave_branch soC = Some so'" "place n so'" "kept so1 so'" "st_view (so_store so') = st_view (so_store so1)"
proof -
  have pl1: "place n so1" and fx1: "at_fixpoint so1" and sub1: "\<forall>v < n. vals (so_store so1) v \<subseteq> vals (so_store so) v"
    using root by (simp_all add: settled_root_def)
  have k3: "propagators so3 = propagators so1" "structs (so_store so3) = structs (so_store so1)" "st_saved (so_store so3) = st_saved (so_store so1)"
    using k by (simp_all add: kept_def)
  note f = structs_reads [OF k3(2)] and w = view_same [OF v3]
  have n: "length (domains (so_store so1)) = n" "length (domains (so_store so3)) = n" using pl1 pl by (simp_all add: place_def solver_ok_def)
  have rd: "ready n (so_store so1)" and ok: "structs_ok (so_store so1)" and ok3: "structs_ok (so_store so3)"
    using place_ready [OF pl1] pl1 pl by (simp_all add: place_def)
  have c3: "choose_domain_decision (so_store so3) = Some d"
    using choose_same [OF rd place_ready [OF pl] ok ok3 k3(2) v3] c by simp
  have dv: "decision_var (so_store so3) d = decision_var (so_store so1) d" by (cases d) (simp_all add: f)
  have cut: "cuts (so_store so1) d" using choose_cuts [OF rd ok c] .
  then have v: "decision_var (so_store so1) d < n" by (simp add: cuts_def n)
  obtain soB where B: "enter_branch d left so3 = (soB, True)" "branch_of n so3 d left soB"
    "st_saved (so_store soB) = st_view (so_store so3) # st_saved (so_store so3)"
    using enter_ok [OF pl c3, of left] by blast
  have B2: "place n soB" "propagators soB = propagators so3" "structs (so_store soB) = structs (so_store so3)"
    and Bv: "\<And>v. v < n \<Longrightarrow> vals (so_store soB) v =
       (if v = decision_var (so_store so3) d then {x \<in> vals (so_store so3) v. keeps (decision_op d left) x} else vals (so_store so3) v)"
    using B(2) by (simp_all add: branch_of_def)
  have vB: "vals (so_store soB) v = (if v = decision_var (so_store so1) d then {x \<in> vals (so_store so1) v. keeps (decision_op d left) x}
      else vals (so_store so1) v)" if "v < n" for v
    using Bv [OF that] w(2) [of v] that n by (auto simp: dv)
  have "\<exists>x \<in> vals (so_store so1) (decision_var (so_store so1) d). \<not> keeps (decision_op d left) x"
  proof -
    have "\<exists>x \<in> vals (so_store so1) (decision_var (so_store so1) d). keeps (decision_op d (\<not> left)) x"
      using cut unfolding cuts_def by blast
    then show ?thesis using cut by (cases left) (auto simp: cuts_def)
  qed
  then have less1: "vals (so_store soB) (decision_var (so_store so1) d) \<subset> vals (so_store so1) (decision_var (so_store so1) d)"
    using vB [OF v] by auto
  have "total n soB < total n so1"
    by (rule total_less [OF v less1]) (use vB rd n in \<open>auto simp: ready_def good_def\<close>)
  moreover have "total n so1 \<le> total n so"
  proof -
    have "ready n (so_store so)" using root place_ready by (simp add: settled_root_def)
    then have "finite (vals (so_store so) v)" if "v < n" for v using that st_reads(1) [of "so_store so" v] by (simp add: ready_def good_def)
    then show ?thesis unfolding total_def using sub1 by (intro sum_mono) (auto intro: card_mono)
  qed
  ultimately have "total n soB < total n so" by simp
  then have "searched cb n soB stats u stops (domain_dfs vt cb soB stats u stops)" using IH B2(1) by blast
  then obtain tr soC stats' e stops'
    where S: "domain_dfs vt cb soB stats u stops = Some (soC, stats', fst (run_cb cb tr u), e, stops')" "solver_inv n soC" "kept soB soC"
      "explored n soB tr e" "solutions stats' = solutions stats + of_nat (length tr)" "e = Exhausted \<longrightarrow> snd (run_cb cb tr u) = SearchContinue"
      "stops = [] \<longrightarrow> stops' = [] \<and> (e = Stopped \<longrightarrow> snd (run_cb cb tr u) = SearchStop)"
    unfolding searched_def by (elim exE conjE) (rule that)
  have "st_saved (so_store soC) = st_view (so_store so1) # st_saved (so_store so1)" "propagators soC = propagators so1"
    "structs (so_store soC) = structs (so_store so1)"
    using S(3) B(3) B2 k3 v3 by (simp_all add: kept_def)
  from leave_ok [OF S(2) this(2,3,1) pl1 fx1] obtain so'
    where "leave_branch soC = Some so'" "place n so'" "kept so1 so'" "st_view (so_store so') = st_view (so_store so1)" .
  moreover have "branch_of n so1 d left soB" using B2 k3 vB by (simp add: branch_of_def)
  ultimately show thesis using that [OF B(1) _ S(1,4-7)] by blast
qed

theorem dfs_explores:
  assumes "place n so"
  shows "searched cb n so stats u stops (domain_dfs vt cb so stats u stops)"
  using assms
proof (induction "total n so" arbitrary: so stats u stops rule: less_induct)
  case less
  note pl = less.prems
  have inv: "solver_inv n so" using pl by (simp add: place_def)
  obtain b stops1 where pb: "poll stops = (b, stops1)" by fastforce
  have p0: "stops = [] \<Longrightarrow> \<not> b \<and> stops1 = []" using pb by simp
  have IH: "\<forall>x stats u stops. total n x < total n so \<longrightarrow> place n x \<longrightarrow> searched cb n x stats u stops (domain_dfs vt cb x stats u stops)"
    using less.hyps by blast
  show ?case
  proof (cases b)
    case True
    have "domain_dfs vt cb so stats u stops = Some (so, stats, u, Stopped, stops1)" by (subst domain_dfs.simps) (simp add: pb True)
    then show ?thesis
      unfolding searched_def using inv p0 True explored_none [of Stopped so n] by (intro exI [of _ "[]"]) (auto simp: kept_def)
  next
    case nb: False
    from pl show ?thesis
    proof (cases rule: root_cases)
      case (2 so1 e)
      have "domain_dfs vt cb so stats u stops = Some (so1, count_failure stats, u, Exhausted, stops1)"
        by (subst domain_dfs.simps) (simp add: pb nb 2(1))
      moreover have "explored n so [] Exhausted" using 2(4) by (intro explored_none)
      ultimately show ?thesis
        unfolding searched_def using 2(2,3) p0 by (intro exI [of _ "[]"]) (auto simp: count_failure_def)
    next
      case (1 so1)
      note root = 1(2)
      have pl1: "place n so1" and k1: "kept so so1" using root by (simp_all add: settled_root_def)
      have inv1: "solver_inv n so1" using pl1 by (simp add: place_def)
      show ?thesis
      proof (cases "choose_domain_decision (so_store so1)")
        case None
        obtain u' c where cb: "cb so1 (collect_domain_solution (so_store so1)) u = (u', c)" by fastforce
        have "domain_dfs vt cb so stats u stops =
            Some (so1, stats\<lparr>solutions := solutions stats + 1\<rparr>, u', if c = SearchStop then Stopped else Exhausted, stops1)"
          by (subst domain_dfs.simps) (simp add: pb nb 1(1) None visit_def cb)
        then have run: "domain_dfs vt cb so stats u stops = Some (so1, stats\<lparr>solutions := solutions stats + 1\<rparr>, fst (run_cb cb [so1] u),
            if c = SearchStop then Stopped else Exhausted, stops1)"
          by (cases c) (simp_all add: cb)
        have c: "snd (run_cb cb [so1] u) = c" by (cases c) (simp_all add: cb)
        have fin: "stops = [] \<longrightarrow> stops1 = [] \<and> ((if c = SearchStop then Stopped else Exhausted) = Stopped \<longrightarrow> snd (run_cb cb [so1] u) = SearchStop)"
          using p0 unfolding c by simp
        have co: "(if c = SearchStop then Stopped else Exhausted) = Exhausted \<longrightarrow> snd (run_cb cb [so1] u) = SearchContinue"
          unfolding c by (cases c) simp_all
        show ?thesis
          unfolding searched_def run
          by (intro exI conjI) (rule refl, rule inv1, rule k1, rule explored_leaf [OF root None], simp, rule co, rule fin)
      next
        case (Some d)
        let ?stats1 = "stats\<lparr>nodes := nodes stats + 1\<rparr>"
        have k11: "kept so1 so1" by (simp add: kept_def)
        obtain soL trL so2 stats2 eL stops2 so3 where L: "enter_branch d True so1 = (soL, True)" "branch_of n so1 d True soL"
          "domain_dfs vt cb soL ?stats1 u stops1 = Some (so2, stats2, fst (run_cb cb trL u), eL, stops2)" "explored n soL trL eL"
          "solutions stats2 = solutions ?stats1 + of_nat (length trL)" "eL = Exhausted \<longrightarrow> snd (run_cb cb trL u) = SearchContinue"
          "stops1 = [] \<longrightarrow> stops2 = [] \<and> (eL = Stopped \<longrightarrow> snd (run_cb cb trL u) = SearchStop)"
          "leave_branch so2 = Some so3" "place n so3" "kept so1 so3" "st_view (so_store so3) = st_view (so_store so1)"
          by (rule side_ok [OF root pl1 k11 refl Some IH, of True ?stats1 u stops1]) (rule that)
        have k3: "kept so so3" using k1 L(10) by (simp add: kept_def)
        have inv3: "solver_inv n so3" using L(9) by (simp add: place_def)
        show ?thesis
        proof (cases "eL = Stopped")
          case True
          have run: "domain_dfs vt cb so stats u stops = Some (so3, stats2, fst (run_cb cb trL u), Stopped, stops2)"
            by (subst domain_dfs.simps) (simp add: pb nb 1(1) Some L(1,3,8) True)
          have ex: "explored n so trL Stopped" by (rule explored_stopped [OF root Some L(4,2)])
          have fin: "stops = [] \<longrightarrow> stops2 = [] \<and> (Stopped = Stopped \<longrightarrow> snd (run_cb cb trL u) = SearchStop)"
            using L(7) p0 True by simp
          have cnt: "solutions stats2 = solutions stats + of_nat (length trL)" using L(5) by simp
          show ?thesis
            unfolding searched_def run
            by (intro exI conjI) (rule refl, rule inv3, rule k3, rule ex, rule cnt, simp, rule fin)
        next
          case False
          then have eL: "eL = Exhausted" by (cases eL) simp_all
          obtain soR trR so4 stats4 eR stops4 so5 where R: "enter_branch d False so3 = (soR, True)" "branch_of n so1 d False soR"
            "domain_dfs vt cb soR stats2 (fst (run_cb cb trL u)) stops2 =
               Some (so4, stats4, fst (run_cb cb trR (fst (run_cb cb trL u))), eR, stops4)" "explored n soR trR eR"
            "solutions stats4 = solutions stats2 + of_nat (length trR)"
            "eR = Exhausted \<longrightarrow> snd (run_cb cb trR (fst (run_cb cb trL u))) = SearchContinue"
            "stops2 = [] \<longrightarrow> stops4 = [] \<and> (eR = Stopped \<longrightarrow> snd (run_cb cb trR (fst (run_cb cb trL u))) = SearchStop)"
            "leave_branch so4 = Some so5" "place n so5" "kept so1 so5" "st_view (so_store so5) = st_view (so_store so1)"
            by (rule side_ok [OF root L(9,10,11) Some IH, of False stats2 "fst (run_cb cb trL u)" stops2]) (rule that)
          have run: "domain_dfs vt cb so stats u stops = Some (so5, stats4, fst (run_cb cb trR (fst (run_cb cb trL u))), eR, stops4)"
            by (subst domain_dfs.simps) (simp add: pb nb 1(1) Some L(1,3,8) R(1,3,8) eL)
          have cat: "run_cb cb (trL @ trR) u = run_cb cb trR (fst (run_cb cb trL u))" using L(6) eL by (intro run_cb_continue) simp
          have ex: "explored n so (trL @ trR) eR" by (rule explored_sides [OF root Some L(4,2) R(4,2) eL])
          have k5: "kept so so5" using k1 R(10) by (simp add: kept_def)
          have inv5: "solver_inv n so5" using R(9) by (simp add: place_def)
          have cnt: "solutions stats4 = solutions stats + of_nat (length (trL @ trR))" using L(5) R(5) by simp
          have fin: "stops = [] \<longrightarrow> stops4 = [] \<and> (eR = Stopped \<longrightarrow> snd (run_cb cb (trL @ trR) u) = SearchStop)"
            using L(7) R(7) p0 unfolding cat by blast
          have co: "eR = Exhausted \<longrightarrow> snd (run_cb cb (trL @ trR) u) = SearchContinue" using R(6) unfolding cat .
          show ?thesis
            unfolding searched_def run cat [symmetric]
            by (intro exI conjI) (rule refl, rule inv5, rule k5, rule ex, rule cnt, rule co, rule fin)
        qed
      qed
    qed
  qed
qed

text \<open>The entry point queues every propagator first.\<close>

lemma enqueue_place:
  assumes pl: "place n so" and m: "m \<le> length (propagators so)"
  defines "so' \<equiv> so\<lparr>so_store := fold enqueue [0..<m] (so_store so)\<rparr>"
  shows "place n so'" "kept so so'" "st_view (so_store so') = st_view (so_store so)"
proof -
  have "place n (so\<lparr>so_store := fold enqueue [0..<m] (so_store so)\<rparr>) \<and> kept so (so\<lparr>so_store := fold enqueue [0..<m] (so_store so)\<rparr>) \<and>
      st_view (fold enqueue [0..<m] (so_store so)) = st_view (so_store so)"
    using m
  proof (induction m)
    case 0
    then show ?case using pl by (simp add: kept_def)
  next
    case (Suc m)
    let ?st = "fold enqueue [0..<m] (so_store so)"
    let ?so1 = "so\<lparr>so_store := ?st\<rparr>" and ?so2 = "so\<lparr>so_store := enqueue m ?st\<rparr>"
    have IH: "place n ?so1" "kept so ?so1" "st_view ?st = st_view (so_store so)" using Suc by simp_all
    have inv: "solver_inv n ?so1" and al: "alive ?st" and se: "settled (\<lambda>_. False) ?so1" and st: "structs_ok ?st" using IH(1) by (simp_all add: place_def)
    have g: "good ?st" "sched_ok ?st" and len: "length (propagators so) = length (enqueued ?st)" using inv by (simp_all add: solver_ok_def good_def)
    have lt: "m < length (enqueued ?st)" using len Suc.prems by simp
    note Q = enqueue_ok [OF g(2) lt]
    have f: "domains (enqueue m ?st) = domains ?st" "s_trail (enqueue m ?st) = s_trail ?st" "current (enqueue m ?st) = current ?st"
      "subs (enqueue m ?st) = subs ?st" "scopes (enqueue m ?st) = scopes ?st" "var_weight_cache (enqueue m ?st) = var_weight_cache ?st"
      "relevant (enqueue m ?st) = relevant ?st" "structs (enqueue m ?st) = structs ?st"
      by (simp_all add: enqueue_def structs_def)
    note dc = doms_ok_cong [OF f(1,2)]
    have "good (enqueue m ?st)" using g Q(1,3) dc f by (simp add: good_def links_ok_def all_roomy_def)
    then have inv2: "solver_inv n (?so1\<lparr>so_store := enqueue m ?st\<rparr>)" by (rule store_inv [OF inv]) (simp_all add: f Q(3))
    have v: "st_view (enqueue m ?st) = st_view ?st" using dc by simp
    note w = view_same [OF v]
    have "settled (\<lambda>_. False) ?so2" using se Q(2) w(3) by (simp add: settled_for_def slot_def)
    moreover have "structs_ok (enqueue m ?st)" by (rule structs_ok_shrink [OF st f(8)]) (use w al in simp_all)
    ultimately have "place n ?so2" using inv2 al w(4) by (simp add: place_def)
    moreover have "kept so ?so2" using IH(2) dc f(8) by (simp add: kept_def)
    ultimately show ?case using v IH(3) by simp
  qed
  then show "place n so'" "kept so so'" "st_view (so_store so') = st_view (so_store so)" by (simp_all add: so'_def)
qed

text \<open>What the callback gets to see, from the entry point.\<close>

theorem solve_domains_explores:
  assumes pl: "place n so"
  obtains leaves so' stats complete where
    "solve_domains_interruptible vt cb u stops so = Some (so', stats, fst (run_cb cb leaves u), complete)"
    "solver_inv n so'" "kept so so'" "solutions stats = of_nat (length leaves)"
    "explored n so leaves (if complete then Exhausted else Stopped)"
    "stops = [] \<Longrightarrow> complete \<longleftrightarrow> snd (run_cb cb leaves u) = SearchContinue"
proof -
  let ?so1 = "enqueue_all so"
  note E = enqueue_place [OF pl order_refl, folded enqueue_all_def]
  from dfs_explores [OF E(1), of cb stats_default u stops] obtain leaves so' stats e stops'
    where D: "domain_dfs vt cb ?so1 stats_default u stops = Some (so', stats, fst (run_cb cb leaves u), e, stops')"
      "solver_inv n so'" "kept ?so1 so'" "explored n ?so1 leaves e" "solutions stats = solutions stats_default + of_nat (length leaves)"
      "e = Exhausted \<longrightarrow> snd (run_cb cb leaves u) = SearchContinue"
      "stops = [] \<longrightarrow> stops' = [] \<and> (e = Stopped \<longrightarrow> snd (run_cb cb leaves u) = SearchStop)"
    unfolding searched_def by (elim exE conjE) (rule that)
  let ?c = "e = Exhausted \<and> \<not> fst (poll stops')"
  have n: "length (domains (so_store so)) = n" using pl by (simp add: place_def solver_ok_def)
  note w = view_same [OF E(3)]
  have k: "propagators ?so1 = propagators so" "structs (so_store ?so1) = structs (so_store so)" using E(2) by (simp_all add: kept_def)
  have sub: "\<forall>v < n. vals (so_store ?so1) v \<subseteq> vals (so_store so) v" using w(2) n by simp
  have "explored n so leaves (if ?c then Exhausted else Stopped)"
    using D(4) leaf_mono [OF _ k sub] structs_reads(3) [OF k(2)] all_sol_cong [OF k(1)] w(5) by (auto simp: explored_def)
  moreover have "solve_domains_interruptible vt cb u stops so = Some (so', stats, fst (run_cb cb leaves u), ?c)"
    by (simp add: solve_domains_interruptible_def D(1))
  moreover have "kept so so'" using D(3) E(2) by (simp add: kept_def)
  moreover have "?c \<longleftrightarrow> snd (run_cb cb leaves u) = SearchContinue" if "stops = []"
    using D(6,7) that by (cases e) simp_all
  ultimately show thesis using that [of so' stats leaves ?c] D(2,5) by (simp add: stats_default_def)
qed

end

end
