(* ===== verification/DomainSpec.thy ===== *)
theory DomainSpec imports SolverSpec DomainExplore begin

text \<open>
  What the search over list and interval domains promises for the constraints of the
  repository.
\<close>

interpretation eng: steady_engine con_vtable con_sol con_fix con_watch con_wf
proof (unfold_locales)
  fix so so' r assume "propagate con_vtable so = Some (so', r)"
  then show "propagators so' = propagators so" by (rule propagate_unchanged)
qed

lemma eng_place:
  "solver_ok con_watch con_wf n so \<Longrightarrow> alive (so_store so) \<Longrightarrow> settled_for con_fix (\<lambda>_. False) so \<Longrightarrow> structs_ok (so_store so) \<Longrightarrow> eng.place n so"
  by (simp add: eng.place_def)

lemma leaf_stands_for:
  assumes "eng.leaf n so s" "length (domains (so_store so)) = n"
  shows "within a (so_store s) \<Longrightarrow> within a (so_store so) \<and> collect_domain_solution (so_store s) = solution_of (so_store so) a"
    and "\<exists>a. within a (so_store s)"
proof -
  have p: "eng.place n s" and c: "choose_domain_decision (so_store s) = None" and st: "structs (so_store s) = structs (so_store so)"
    and sub: "\<forall>v < n. vals (so_store s) v \<subseteq> vals (so_store so) v"
    using assms(1) by (simp_all add: eng.leaf_def)
  have r: "ready n (so_store s)" "structs_ok (so_store s)" using eng.place_ready [OF p] p by (simp_all add: eng.place_def)
  then have n: "length (domains (so_store s)) = n" by (simp add: ready_def)
  show "within a (so_store so) \<and> collect_domain_solution (so_store s) = solution_of (so_store so) a" if w: "within a (so_store s)"
    using leaf_solution [OF r c w] sub w assms(2) n solution_of_structs [OF st] by (auto simp: within_def)
  have "\<forall>v < n. \<exists>x. x \<in> vals (so_store s) v" using r(1) by (auto simp: ready_def alive_def)
  then obtain a where "\<forall>v < n. a v \<in> vals (so_store s) v" by metis
  then show "\<exists>a. within a (so_store s)" using n by (auto simp: within_def)
qed

lemma covered_solutions:
  assumes e: "eng.explored n so leaves Exhausted" and n: "length (domains (so_store so)) = n"
    and a: "within a (so_store so)" "all_posted con_sol so a"
  shows "solution_of (so_store so) a \<in> (\<lambda>s. collect_domain_solution (so_store s)) ` set leaves"
proof -
  obtain s where s: "s \<in> set leaves" "within a (so_store s)" using e a by (auto simp: eng.explored_def)
  have "eng.leaf n so s" using e s(1) by (simp add: eng.explored_def)
  from leaf_stands_for(1) [OF this n s(2)] s(1) show ?thesis by (metis image_eqI)
qed

text \<open>
  A solver to try the theorems on: two intervals over the ordered pair of variables, one of
  them optional.
\<close>

definition scheduled_solver :: "constraint solver" where
  "scheduled_solver = (case register_interval 1 2 None (so_store ordered_solver) of None \<Rightarrow> solver_new
     | Some (st1, _) \<Rightarrow> (case register_interval 1 4 (Some 0) st1 of None \<Rightarrow> solver_new
         | Some (st2, _) \<Rightarrow> ordered_solver\<lparr>so_store := st2\<rparr>))"

lemma good_intervals: "good (st\<lparr>interval_domains := x\<rparr>) = good st" "vals (st\<lparr>interval_domains := x\<rparr>) = vals st"
    "st_view (st\<lparr>interval_domains := x\<rparr>) = st_view st" "queued (st\<lparr>interval_domains := x\<rparr>) = queued st"
    "dv (st\<lparr>interval_domains := x\<rparr>) = dv st"
proof -
  note d = doms_ok_cong [of "st\<lparr>interval_domains := x\<rparr>" st, simplified]
  show q: "queued (st\<lparr>interval_domains := x\<rparr>) = queued st" by (simp add: queued_def fun_eq_iff)
  show "good (st\<lparr>interval_domains := x\<rparr>) = good st" using d by (simp add: good_def sched_ok_def links_ok_def all_roomy_def q)
  show "vals (st\<lparr>interval_domains := x\<rparr>) = vals st" "st_view (st\<lparr>interval_domains := x\<rparr>) = st_view st" using d by simp_all
  then show "dv (st\<lparr>interval_domains := x\<rparr>) = dv st" by (auto simp: dv_def fun_eq_iff)
qed

lemma ordered_size: "length (domains (so_store ordered_solver)) = 2"
  using arg_cong [OF ordered_solver_ok(5), of length] by simp

lemma ordered_vals: "vals (so_store ordered_solver) 0 = {0..1}" "vals (so_store ordered_solver) 1 = {0..3}"
  using view_nth [of 0 "so_store ordered_solver"] view_nth [of 1 "so_store ordered_solver"] by (simp_all add: ordered_size ordered_solver_ok(5))

lemma ordered_structs: "list_domains (so_store ordered_solver) = []" "interval_domains (so_store ordered_solver) = []"
    "disjunctive_pairs (so_store ordered_solver) = []"
  by code_simp+

lemma scheduled_store:
  "scheduled_solver = ordered_solver\<lparr>so_store := (so_store ordered_solver)\<lparr>interval_domains :=
     [\<lparr>iv_start = 1, iv_duration = 2, iv_presence = None\<rparr>, \<lparr>iv_start = 1, iv_duration = 4, iv_presence = Some 0\<rparr>]\<rparr>\<rparr>"
proof -
  have "domains (so_store ordered_solver) \<noteq> []" using ordered_size by auto
  then show ?thesis by (simp add: scheduled_solver_def register_interval_def push_interval_def ordered_size ordered_structs)
qed

lemma checked_solver:
  assumes ok: "solver_ok con_watch con_wf n so" and c: "\<And>i. i < length (propagators so) \<Longrightarrow> wf_of con_checked n (slot so i)"
  shows "solver_ok con_watch con_checked n so"
proof -
  have "held_in con_watch con_checked n so i (slot so i)" if i: "i < length (propagators so)" for i
    using con.inv_held [OF ok i] c [OF i] by (simp add: held_in_def)
  then show ?thesis using ok unfolding solver_ok_def by blast
qed

lemma scheduled_solver_ok:
  "solver_ok con_watch con_checked 2 scheduled_solver" "solver_ok con_watch con_wf 2 scheduled_solver" "alive (so_store scheduled_solver)"
  "settled_for con_fix E scheduled_solver" "structs_ok (so_store scheduled_solver)"
  "all_posted con_sol scheduled_solver a \<longleftrightarrow> a 1 + 1 \<le> a 0" "all_posted con_scope scheduled_solver a"
  "within a (so_store scheduled_solver) \<longleftrightarrow> a 0 \<in> {0..1} \<and> a 1 \<in> {0..3}"
  "solution_of (so_store scheduled_solver) a = \<lparr>ds_lists = [], interval_starts = [Some (a 1), if a 0 = 1 then Some (a 1) else None]\<rparr>"
proof -
  let ?st = "so_store scheduled_solver"
  have w: "\<forall>b. slot ordered_solver 0 = b \<longrightarrow> wf_of con_checked 2 b" using small_i32 by (simp add: slot_def ordered_solver_ok(6) con_checked_def)
  show ok: "solver_ok con_watch con_wf 2 scheduled_solver" unfolding scheduled_store
    by (rule eng.store_inv [OF ordered_solver_ok(1)]) (use ordered_solver_ok(1) in \<open>simp_all add: good_intervals solver_ok_def\<close>)
  show "solver_ok con_watch con_checked 2 scheduled_solver"
    by (rule checked_solver [OF ok]) (use w in \<open>simp add: scheduled_store ordered_solver_ok(6) slot_def\<close>)
  show "alive ?st" using ordered_solver_ok(3) by (simp add: scheduled_store alive_def good_intervals)
  show "settled_for con_fix E scheduled_solver"
    using ordered_solver_ok(4) by (simp add: scheduled_store settled_for_def slot_def good_intervals)
  have b: "bool_var ?st 0" "narrow (vals ?st 1)"
    by (auto simp: bool_var_def scheduled_store good_intervals ordered_size ordered_vals ordered_vals [simplified] narrow_def i32_max_def)
  then show "structs_ok ?st"
    by (auto simp: structs_ok_def interval_ok_def interval_start_var_def interval_presence_var_def scheduled_store ordered_structs
        ordered_size less_Suc_eq good_intervals)
  show "all_posted con_sol scheduled_solver a \<longleftrightarrow> a 1 + 1 \<le> a 0"
    using ordered_solver_ok(2) by (simp add: scheduled_store all_posted_def slot_def)
  show "all_posted con_scope scheduled_solver a" by (simp add: scheduled_store all_posted_def slot_def ordered_solver_ok(6))
  show "within a ?st \<longleftrightarrow> a 0 \<in> {0..1} \<and> a 1 \<in> {0..3}"
    by (auto simp: within_def scheduled_store ordered_size good_intervals ordered_vals ordered_vals [simplified] less_2_cases_iff)
  show "solution_of ?st a = \<lparr>ds_lists = [], interval_starts = [Some (a 1), if a 0 = 1 then Some (a 1) else None]\<rparr>"
    by (simp add: solution_of_def scheduled_store ordered_structs interval_presence_var_def interval_start_var_def numeral_2_eq_2)
qed

text \<open>
  C1. The search over lists and intervals always returns, at the level it started from and
  with the solver intact. The callback has been given solutions one after the other, each the
  reading of an assignment within the domains; when the search reports that it is complete,
  every assignment that satisfies the constraints reads as one of them. Without an
  interruption it is complete unless the callback asked it to stop.
\<close>

theorem domain_search_complete:
  assumes "solver_ok con_watch con_wf n so" "alive (so_store so)" "settled_for con_fix (\<lambda>_. False) so" "structs_ok (so_store so)"
  shows "\<exists>leaves so' stats complete.
    solve_domains_interruptible con_vtable cb u stops so = Some (so', stats, fst (run_cb cb leaves u), complete) \<and>
    solver_ok con_watch con_wf n so' \<and> kept so so' \<and> solutions stats = of_nat (length leaves) \<and>
    (\<forall>s \<in> set leaves. \<exists>a. within a (so_store so) \<and> collect_domain_solution (so_store s) = solution_of (so_store so) a) \<and>
    (complete \<longrightarrow> (\<forall>a. within a (so_store so) \<and> all_posted con_sol so a \<longrightarrow>
       solution_of (so_store so) a \<in> (\<lambda>s. collect_domain_solution (so_store s)) ` set leaves)) \<and>
    (stops = [] \<longrightarrow> complete = (snd (run_cb cb leaves u) = SearchContinue))"
proof -
  have n: "length (domains (so_store so)) = n" using assms(1) by (simp add: solver_ok_def)
  obtain leaves so' stats complete where
    S: "solve_domains_interruptible con_vtable cb u stops so = Some (so', stats, fst (run_cb cb leaves u), complete)"
    "solver_ok con_watch con_wf n so'" "kept so so'" "solutions stats = of_nat (length leaves)"
    and ex: "eng.explored n so leaves (if complete then Exhausted else Stopped)"
    and st: "stops = [] \<Longrightarrow> complete \<longleftrightarrow> snd (run_cb cb leaves u) = SearchContinue"
    using eng.solve_domains_explores [OF eng_place [OF assms], of cb u stops] by metis
  have lf: "\<exists>a. within a (so_store so) \<and> collect_domain_solution (so_store s) = solution_of (so_store so) a" if s: "s \<in> set leaves" for s
  proof -
    have "eng.leaf n so s" using ex s by (simp add: eng.explored_def)
    from leaf_stands_for [OF this n] show ?thesis by blast
  qed
  have cov: "solution_of (so_store so) a \<in> (\<lambda>s. collect_domain_solution (so_store s)) ` set leaves"
    if "complete" "within a (so_store so)" "all_posted con_sol so a" for a
    by (rule covered_solutions [OF _ n that(2,3)]) (use ex that(1) in simp)
  have A: "\<forall>s \<in> set leaves. \<exists>a. within a (so_store so) \<and> collect_domain_solution (so_store s) = solution_of (so_store so) a"
    using lf by blast
  have B: "complete \<longrightarrow> (\<forall>a. within a (so_store so) \<and> all_posted con_sol so a \<longrightarrow>
       solution_of (so_store so) a \<in> (\<lambda>s. collect_domain_solution (so_store s)) ` set leaves)"
    using cov by blast
  have C: "stops = [] \<longrightarrow> complete = (snd (run_cb cb leaves u) = SearchContinue)" using st by blast
  show ?thesis by (intro exI conjI) (rule S(1), rule S(2), rule S(3), rule S(4), rule A, rule B, rule C)
qed

theorem domain_search_complete_witness:
  "\<exists>so' stats sols. solve_domains_interruptible con_vtable (\<lambda>so sol acc. (acc @ [sol], SearchContinue)) [] [] scheduled_solver =
     Some (so', stats, sols, True) \<and> solver_ok con_watch con_wf 2 so'"
proof -
  let ?cb = "\<lambda>(so :: constraint solver) sol acc. (acc @ [sol :: domain_solution], SearchContinue)"
  have go: "snd (run_cb ?cb leaves u) = SearchContinue" for leaves u by (induction leaves arbitrary: u) simp_all
  from domain_search_complete [OF scheduled_solver_ok(2-5), of ?cb "[]" "[]"] show ?thesis by (auto simp: go)
qed

section \<open>Enumerating\<close>

text \<open>The handles the search decides, and whether they are all the variables.\<close>

definition searched_vars :: "store \<Rightarrow> var_id set" where
  "searched_vars st = {v. card (vals st v) = 1} \<union> {m. \<exists>l < length (list_domains st). \<exists>x \<in> set (list_universe st l). list_member_var st l x = Some m} \<union>
     {v. \<exists>i < length (interval_domains st). interval_presence_var st i = Some v} \<union>
     {v. \<exists>i < length (interval_domains st). interval_presence_var st i = None \<and> interval_start_var st i = v}"

lemma leaf_fixed:
  assumes lf: "eng.leaf n so s" and n: "length (domains (so_store so)) = n" and v: "v \<in> searched_vars (so_store so)" "v < n"
  shows "card (vals (so_store s) v) = 1"
proof -
  let ?st = "so_store s"
  have p: "eng.place n s" and c: "choose_domain_decision ?st = None" and st: "structs ?st = structs (so_store so)"
    and sub: "vals ?st v \<subseteq> vals (so_store so) v"
    using lf v(2) by (simp_all add: eng.leaf_def)
  have r: "ready n ?st" and ok: "structs_ok ?st" using eng.place_ready [OF p] p by (simp_all add: eng.place_def)
  note f = structs_reads [OF st]
  have ne: "vals ?st v \<noteq> {}" and g: "doms_ok ?st" using r v(2) by (auto simp: ready_def alive_def good_def)
  from v(1) consider (fixed) "card (vals (so_store so) v) = 1"
    | (mem) l x where "l < length (list_domains ?st)" "x \<in> set (list_universe ?st l)" "list_member_var ?st l x = Some v"
    | (pres) i where "i < length (interval_domains ?st)" "interval_presence_var ?st i = Some v"
    | (start) i where "i < length (interval_domains ?st)" "interval_presence_var ?st i = None" "interval_start_var ?st i = v"
    unfolding searched_vars_def f [symmetric] by blast
  then show ?thesis
  proof cases
    case fixed
    then obtain x where "vals (so_store so) v = {x}" by (auto simp: card_1_singleton_iff)
    then have "vals ?st v = {x}" using sub ne by (simp add: subset_singleton_iff)
    then show ?thesis by simp
  next
    case mem
    have l: "list_ok ?st l" using ok mem(1) by (simp add: structs_ok_def)
    have "\<not> member_open ?st (l, x)" using choose_none(3) [OF c mem(1,2)] .
    then have "1 \<notin> vals ?st v \<or> vals ?st v = {1}" using list_reads [OF g l, of x] mem(3) by (auto simp: member_open_def possible_def required_def)
    then have "vals ?st v \<noteq> {0, 1}" by auto
    then have "vals ?st v = {0} \<or> vals ?st v = {1}" using bool_var_cases [OF member_var [OF l mem(3)]] by blast
    then show ?thesis by auto
  next
    case pres
    have i: "interval_ok ?st i" using ok pres(1) by (simp add: structs_ok_def)
    have "interval_presence ?st i \<noteq> Optional" using choose_none(1) [OF c pres(1)] .
    then have "vals ?st v = {1} \<or> vals ?st v = {0}" using presence_reads [OF r i] pres(2) by (auto split: if_splits)
    then show ?thesis by auto
  next
    case start
    have i: "interval_ok ?st i" using ok start(1) by (simp add: structs_ok_def)
    have "interval_presence ?st i = Present" using start(2) by (simp add: interval_presence_def)
    then have e: "interval_start_min ?st i = interval_start_max ?st i"
      using choose_none(2) [OF c start(1)] start_reads(1,3) [OF r i] by (fastforce simp: start_open_def)
    then have "x = interval_start_min ?st i" if "x \<in> vals ?st v" for x
      using start_reads(3) [OF r i, of x] that start(3) by simp
    then have "vals ?st v = {interval_start_min ?st i}" using ne by blast
    then show ?thesis by simp
  qed
qed

text \<open>The callback that collects everything.\<close>

definition collect_all :: "(constraint, domain_solution list) callback" where
  "collect_all so sol acc = (acc @ [sol], SearchContinue)"

lemma run_collect_all:
  "run_cb collect_all leaves acc = (acc @ map (\<lambda>s. collect_domain_solution (so_store s)) leaves, SearchContinue)"
  by (induction leaves arbitrary: acc) (simp_all add: collect_all_def)

lemma checked_leaf:
  assumes "eng.leaf n so s" "solver_ok con_watch con_checked n so" shows "solver_ok con_watch con_checked n s"
proof (rule checked_solver)
  show "solver_ok con_watch con_wf n s" using assms(1) by (simp add: eng.leaf_def eng.place_def)
  fix i assume i: "i < length (propagators s)"
  have s: "propagators s = propagators so" using assms(1) by (simp add: eng.leaf_def)
  show "wf_of con_checked n (slot s i)" using chk.inv_held [OF assms(2), of i] i s by (simp add: held_in_def slot_def)
qed

lemma wf_of_checked: "wf_of con_checked n b \<Longrightarrow> wf_of con_wf n b"
  by (induction b) (auto simp: con_checked_def)

text \<open>
  C5. Enumeration is exact under these assumptions: the solver is well-formed, with no domain
  empty and every propagator that is not queued at its local fixpoint; no constraint is a
  minimum or maximum; there is no disjunctive pair; every variable is fixed or among those the
  search decides; all values of the terms of sign products are -1 or 1 and all values of the
  variables of Boolean rows are 0 or 1; handles refer to variables and windows of starts span
  less than \<open>2^31\<close>. Then the solutions collected are the readings of the assignments that
  satisfy all constraints, and none is collected twice.
\<close>

theorem enumeration_exact:
  assumes "solver_ok con_watch con_checked n so" "alive (so_store so)" "settled_for con_fix (\<lambda>_. False) so" "structs_ok (so_store so)"
    and "disjunctive_pairs (so_store so) = []" "{..<n} \<subseteq> searched_vars (so_store so)"
    and "\<forall>a. within a (so_store so) \<longrightarrow> all_posted con_scope so a"
  shows "\<exists>so' stats sols. solve_domains con_vtable collect_all [] so = Some (so', stats, sols) \<and> distinct sols \<and>
    set sols = solution_of (so_store so) ` {a. within a (so_store so) \<and> all_posted con_sol so a}"
proof -
  have w: "solver_ok con_watch con_wf n so"
    using assms(1) wf_of_checked unfolding solver_ok_def held_in_def by blast
  have n: "length (domains (so_store so)) = n" using w by (simp add: solver_ok_def)
  obtain leaves so' stats complete where
    S: "solve_domains_interruptible con_vtable collect_all [] [] so = Some (so', stats, fst (run_cb collect_all leaves []), complete)"
    and ex: "eng.explored n so leaves (if complete then Exhausted else Stopped)"
    and co: "[] = [] \<Longrightarrow> complete \<longleftrightarrow> snd (run_cb collect_all leaves []) = SearchContinue"
    using eng.solve_domains_explores [OF eng_place [OF w assms(2-4)], of collect_all "[]" "[]"] by metis
  let ?sols = "map (\<lambda>s. collect_domain_solution (so_store s)) leaves"
  have c: "complete" using co by (simp add: run_collect_all)
  have run: "solve_domains con_vtable collect_all [] so = Some (so', stats, ?sols)"
    using S by (simp add: solve_domains_def run_collect_all)
  have d: "distinct ?sols" using ex assms(5) by (simp add: eng.explored_def)
  have "solution_of (so_store so) a \<in> set ?sols" if "within a (so_store so)" "all_posted con_sol so a" for a
    using covered_solutions [OF _ n that] ex c by simp
  moreover have "collect_domain_solution (so_store s) \<in> solution_of (so_store so) ` {a. within a (so_store so) \<and> all_posted con_sol so a}"
    if s: "s \<in> set leaves" for s
  proof -
    have lf: "eng.leaf n so s" using ex s by (simp add: eng.explored_def)
    obtain a where a: "within a (so_store s)" using leaf_stands_for(2) [OF lf n] by blast
    have ws: "within a (so_store so)" "collect_domain_solution (so_store s) = solution_of (so_store so) a"
      using leaf_stands_for(1) [OF lf n a] by simp_all
    have al: "alive (so_store s)" and fx: "\<forall>i < length (propagators s). fix_of con_fix (slot s i) (dv (so_store s))"
      and p: "propagators s = propagators so" using lf by (simp_all add: eng.leaf_def eng.place_def)
    have one: "\<forall>v < n. card (vals (so_store s) v) = 1" using leaf_fixed [OF lf n] assms(6) by blast
    have sc: "all_posted con_scope s a" using assms(7) ws(1) p by (simp add: all_posted_def slot_def)
    have "all_posted con_sol s a" by (rule chk.fixpoint_solution [OF checked_leaf [OF lf assms(1)] al fx one a sc])
    then have "all_posted con_sol so a" using p by (simp add: all_posted_def slot_def)
    then show ?thesis using ws by blast
  qed
  ultimately have "set ?sols = solution_of (so_store so) ` {a. within a (so_store so) \<and> all_posted con_sol so a}" by auto
  then show ?thesis using run d by blast
qed

lemma scheduled_solutions:
  "solution_of (so_store scheduled_solver) ` {a. within a (so_store scheduled_solver) \<and> all_posted con_sol scheduled_solver a} =
     {\<lparr>ds_lists = [], interval_starts = [Some 0, Some 0]\<rparr>}"
proof -
  have "a 0 = 1 \<and> a 1 = 0" if "within a (so_store scheduled_solver)" "all_posted con_sol scheduled_solver a" for a
    using that scheduled_solver_ok(6,8) by auto
  moreover have "within (\<lambda>v. if v = 0 then 1 else 0) (so_store scheduled_solver)" "all_posted con_sol scheduled_solver (\<lambda>v. if v = 0 then 1 else 0)"
    using scheduled_solver_ok(6,8) by simp_all
  ultimately show ?thesis using scheduled_solver_ok(9) by (auto simp: image_iff)
qed

lemma scheduled_searched: "{..<2} \<subseteq> searched_vars (so_store scheduled_solver)"
proof -
  have "interval_presence_var (so_store scheduled_solver) 1 = Some 0" "interval_presence_var (so_store scheduled_solver) 0 = None"
    "interval_start_var (so_store scheduled_solver) 0 = 1" "length (interval_domains (so_store scheduled_solver)) = 2"
    by (simp_all add: scheduled_store interval_presence_var_def interval_start_var_def)
  then have "0 \<in> searched_vars (so_store scheduled_solver)" "1 \<in> searched_vars (so_store scheduled_solver)"
    unfolding searched_vars_def by (auto intro: exI [of _ 0] exI [of _ 1])
  then show ?thesis by (auto simp: less_2_cases_iff)
qed

theorem enumeration_exact_witness:
  "\<exists>so' stats. solve_domains con_vtable collect_all [] scheduled_solver =
     Some (so', stats, [\<lparr>ds_lists = [], interval_starts = [Some 0, Some 0]\<rparr>])"
proof -
  have "disjunctive_pairs (so_store scheduled_solver) = []" by (simp add: scheduled_store ordered_structs)
  from enumeration_exact [OF scheduled_solver_ok(1,3-5) this scheduled_searched] scheduled_solver_ok(7)
  obtain so' stats sols where S: "solve_domains con_vtable collect_all [] scheduled_solver = Some (so', stats, sols)" "distinct sols"
    "set sols = {\<lparr>ds_lists = [], interval_starts = [Some 0, Some 0]\<rparr>}"
    unfolding scheduled_solutions by blast
  then have "sols = [\<lparr>ds_lists = [], interval_starts = [Some 0, Some 0]\<rparr>]"
    by (cases sols) (auto simp: subset_singleton_iff)
  then show ?thesis using S(1) by blast
qed

section \<open>The first solution\<close>

definition keep_first :: "('p, domain_solution option) callback" where
  "keep_first so sol u = (Some sol, SearchStop)"

lemma run_keep_first:
  "run_cb keep_first leaves None = (case leaves of [] \<Rightarrow> (None, SearchContinue) | s # _ \<Rightarrow> (Some (collect_domain_solution (so_store s)), SearchStop))"
  by (cases leaves) (simp_all add: keep_first_def)

text \<open>
  C14. \<open>first_domain_solution\<close> decides: it always returns; nothing means that no assignment
  satisfies the constraints, and a solution is the reading of an assignment within the domains.
\<close>

theorem first_domain_solution_decides:
  assumes "solver_ok con_watch con_wf n so" "alive (so_store so)" "settled_for con_fix (\<lambda>_. False) so" "structs_ok (so_store so)"
  shows "\<exists>found. first_domain_solution con_vtable so = Some found \<and> (case found of
      None \<Rightarrow> \<forall>a. within a (so_store so) \<longrightarrow> \<not> all_posted con_sol so a
    | Some sol \<Rightarrow> \<exists>a. within a (so_store so) \<and> sol = solution_of (so_store so) a)"
proof -
  have n: "length (domains (so_store so)) = n" using assms(1) by (simp add: solver_ok_def)
  obtain leaves so' stats complete where
    S: "solve_domains_interruptible con_vtable keep_first None [] so = Some (so', stats, fst (run_cb keep_first leaves None), complete)"
    and ex: "eng.explored n so leaves (if complete then Exhausted else Stopped)"
    and co: "[] = [] \<Longrightarrow> complete \<longleftrightarrow> snd (run_cb keep_first leaves None) = SearchContinue"
    using eng.solve_domains_explores [OF eng_place [OF assms], of keep_first None "[]"] by metis
  have k: "keep_first = (\<lambda>so sol u. (Some sol, SearchStop))" by (simp add: fun_eq_iff keep_first_def)
  have run: "first_domain_solution con_vtable so = Some (fst (run_cb keep_first leaves None))"
    using S by (simp add: first_domain_solution_def solve_domains_def k)
  show ?thesis
  proof (cases leaves)
    case Nil
    then have "complete" using co by (simp add: run_keep_first)
    then have "\<not> all_posted con_sol so a" if "within a (so_store so)" for a
      using covered_solutions [of n so "[]" a, OF _ n that] ex Nil by auto
    then show ?thesis using run Nil by (simp add: run_keep_first)
  next
    case (Cons s ss)
    have lf: "eng.leaf n so s" using ex Cons by (simp add: eng.explored_def)
    obtain a where "within a (so_store s)" using leaf_stands_for(2) [OF lf n] by blast
    from leaf_stands_for(1) [OF lf n this] show ?thesis using run Cons by (auto simp: keep_first_def)
  qed
qed

theorem first_domain_solution_decides_witness:
  "\<exists>sol. first_domain_solution con_vtable scheduled_solver = Some (Some sol) \<and> ds_lists sol = []"
proof -
  obtain found where F: "first_domain_solution con_vtable scheduled_solver = Some found" "case found of
      None \<Rightarrow> \<forall>a. within a (so_store scheduled_solver) \<longrightarrow> \<not> all_posted con_sol scheduled_solver a
    | Some sol \<Rightarrow> \<exists>a. within a (so_store scheduled_solver) \<and> sol = solution_of (so_store scheduled_solver) a"
    using first_domain_solution_decides [OF scheduled_solver_ok(2-5)] by blast
  have "within (\<lambda>v. if v = 0 then 1 else 0) (so_store scheduled_solver)" "all_posted con_sol scheduled_solver (\<lambda>v. if v = 0 then 1 else 0)"
    using scheduled_solver_ok(6,8) by simp_all
  then show ?thesis using F scheduled_solver_ok(9) by (cases found) auto
qed

end
