(* ===== verification/DomainWide.thy ===== *)
theory DomainWide imports DomainSpec begin

text \<open>
  A start window of more than \<open>2^31\<close> values makes the midpoint of its split wrap: the decision
  no longer cuts, one side fails, the other changes nothing, and the search never ends. (The
  subtraction that wraps panics in a build with overflow checks.)
\<close>

definition wide_solver :: "constraint solver" where
  "wide_solver = (case new_interval (- 1073741824) 1073741824 1 store_new of None \<Rightarrow> solver_new
     | Some (st, _) \<Rightarrow> solver_new\<lparr>so_store := st\<rparr>)"

lemma wide_split: "split_point (- 1073741824) 1073741824 = - 2147483648" "sat_i32 (- 2147483648 + 1) = - 2147483647"
  by code_simp+

definition window :: "int set" where
  "window = {- 1073741824..1073741824}"

definition wide :: "store \<Rightarrow> bool" where
  "wide st \<longleftrightarrow> doms_ok st \<and> sched_ok st \<and> links_ok st \<and> (\<forall>p. \<not> queued st p) \<and> st_view st = [window] \<and>
     (\<exists>dur. structs st = ([], [\<lparr>iv_start = 0, iv_duration = dur, iv_presence = None\<rparr>], [], []))"

lemma wide_fields:
  assumes "wide st"
  shows "length (domains st) = 1" "vals st 0 = window" "list_domains st = []" "interval_start_var st 0 = 0"
    "interval_presence st 0 = Present" "length (interval_domains st) = 1" "disjunctive_pairs st = []"
proof -
  have "length (st_view st) = 1" using assms by (simp add: wide_def)
  then show len: "length (domains st) = 1" by simp
  show "vals st 0 = window" using assms len view_nth [of 0 st] by (simp add: wide_def)
  show "list_domains st = []" "interval_start_var st 0 = 0" "interval_presence st 0 = Present" "length (interval_domains st) = 1"
    "disjunctive_pairs st = []"
    using assms by (auto simp: wide_def structs_def interval_start_var_def interval_presence_def interval_presence_var_def)
qed

lemma window_ends: "Min window = - 1073741824" "Max window = 1073741824" "finite window" "window \<noteq> {}"
  unfolding window_def by (auto intro: Min_eqI Max_eqI)

lemma wide_choice:
  assumes "wide st"
  shows "choose_domain_decision st = Some (IntervalStartSplit 0 (- 2147483648))"
proof -
  note f = wide_fields [OF assms]
  have ok: "doms_ok st" using assms by (simp add: wide_def)
  have "st_min st 0 = - 1073741824" "st_max st 0 = 1073741824" using st_reads(5) [OF ok, of 0] by (simp_all add: f window_ends)
  then have "interval_start_min st 0 = - 1073741824" "interval_start_max st 0 = 1073741824"
    by (simp_all add: interval_start_min_def interval_start_max_def f)
  then show ?thesis
    using f wide_split(1) by (simp add: choose_domain_decision_def disjunctive_pair_count_def start_open_def list_items_def)
qed

lemma wide_push:
  assumes "wide st" shows "wide (push_level st)" "st_saved (push_level st) = [window] # st_saved st"
proof -
  have ok: "doms_ok st" "st_view st = [window]" using assms by (simp_all add: wide_def)
  note p = push_level_ok [OF ok(1)]
  have q: "queued (push_level st) = queued st" by (simp add: push_level_def queued_def fun_eq_iff)
  have "sched_ok (push_level st)" using assms by (simp add: wide_def sched_ok_def q) (simp add: push_level_def)
  moreover have "links_ok (push_level st)" using assms by (simp add: wide_def links_ok_def) (simp add: push_level_def)
  ultimately show "wide (push_level st)" using assms p push_structs [of st] q by (simp add: wide_def)
  show "st_saved (push_level st) = [window] # st_saved st" using p ok by simp
qed

lemma wide_pop:
  assumes "doms_ok st" "sched_ok st" "links_ok st" "\<And>p. \<not> queued st p" "st_saved st = [window] # S"
    and "structs st = ([], [\<lparr>iv_start = 0, iv_duration = dur, iv_presence = None\<rparr>], [], [])"
  obtains st' where "pop_level st = Some st'" "wide st'" "st_saved st' = S"
proof -
  obtain st' where p: "pop_level st = Some st'" "doms_ok st'" "st_saved st = st_view st' # st_saved st'"
    using pop_level_cases [OF assms(1)] assms(5) by (auto split: option.splits)
  then obtain t where t: "st' = st\<lparr>s_trail := t\<rparr>" by (auto simp: pop_level_def)
  have q: "queued st' = queued st" by (simp add: t queued_def fun_eq_iff)
  have "sched_ok st'" using assms(2) by (simp add: sched_ok_def q) (simp add: t)
  moreover have "links_ok st'" using assms(3) by (simp add: links_ok_def) (simp add: t)
  moreover have "structs st' = structs st" by (simp add: t structs_def)
  ultimately have "wide st'" using assms(4-6) p(2,3) q by (simp add: wide_def)
  then show thesis using that [OF p(1)] p(3) assms(5) by simp
qed

text \<open>Neither side shrinks the window.\<close>

lemma wide_op:
  assumes w: "wide st" and run: "st_apply 0 c st = (st', r)"
    and c: "c = Above (- 2147483648) \<or> c = Below (- 2147483647)"
  shows "r = (if c = Above (- 2147483648) then Err Inconsistency else Ok ())"
    "doms_ok st'" "sched_ok st'" "links_ok st'" "\<not> queued st' p" "st_saved st' = st_saved st" "structs st' = structs st"
    "c = Below (- 2147483647) \<Longrightarrow> wide st'"
proof -
  note f = wide_fields [OF w]
  have ok: "doms_ok st" "sched_ok st" "links_ok st" "\<And>p. \<not> queued st p" "st_view st = [window]" using w by (simp_all add: wide_def)
  have v: "0 < length (domains st)" "vals st 0 \<noteq> {}" by (simp_all add: f window_def)
  have can: "dom_can c (domains st ! 0, s_trail st)" using c by (auto simp: in_i32_def i32_min_def i32_max_def)
  note A = st_apply_ok [OF ok(1) v can run] and B = st_apply_sched [OF ok(1-3) v can run] and S = st_apply_structs [OF ok(1) v can run]
  have e: "set_apply (Above (- 2147483648)) (vals st 0) = {}" "set_apply (Below (- 2147483647)) (vals st 0) = window"
    by (auto simp: f window_def)
  show r: "r = (if c = Above (- 2147483648) then Err Inconsistency else Ok ())"
    using A(4) c e by (auto simp: window_def f)
  have no: "\<not> occurs ev X X" for ev X by (cases ev) auto
  show q: "\<not> queued st' p" for p using B(6) [of p] ok(4) r c e no [of _ window] by (auto simp: f)
  show "doms_ok st'" "sched_ok st'" "links_ok st'" "st_saved st' = st_saved st" "structs st' = structs st" by (rule A(1), rule B(1), rule B(2), rule A(3), rule S)
  show "wide st'" if "c = Below (- 2147483647)"
    using w A B(1,2) S q e that by (simp add: wide_def ok(5))
qed

lemma wide_sides:
  fixes so :: "constraint solver"
  assumes w: "wide (so_store so)" and p: "propagators so = []"
  obtains soL soR so3 where
    "enter_branch (IntervalStartSplit 0 (- 2147483648)) True so = (soL, False)" "leave_branch soL = Some so3"
    "enter_branch (IntervalStartSplit 0 (- 2147483648)) False so3 = (soR, True)" "wide (so_store soR)" "propagators soR = []"
proof -
  let ?st = "so_store so"
  note P = wide_push [OF w]
  have out: "fst (decision_outcome (IntervalStartSplit 0 (- 2147483648)) left st) =
      fst (st_apply 0 (if left then Above (- 2147483648) else Below (- 2147483647)) st)"
    "is_ok (snd (decision_outcome (IntervalStartSplit 0 (- 2147483648)) left st)) =
      is_ok (snd (st_apply 0 (if left then Above (- 2147483648) else Below (- 2147483647)) st))" if "wide st" for st left
    using wide_fields(4) [OF that] wide_split(2)
    by (simp_all add: set_interval_start_max_def set_interval_start_min_def Let_def then_ok_reads)
  have enter: "enter_branch (IntervalStartSplit 0 (- 2147483648)) left s =
      (s\<lparr>so_store := fst (decision_outcome (IntervalStartSplit 0 (- 2147483648)) left (push_level (so_store s)))\<rparr>,
       is_ok (snd (decision_outcome (IntervalStartSplit 0 (- 2147483648)) left (push_level (so_store s)))))" for s :: "constraint solver" and left
    by (cases "decision_outcome (IntervalStartSplit 0 (- 2147483648)) left (push_level (so_store s))")
      (simp add: enter_branch_def apply_domain_decision_def)
  obtain stL rL where L: "st_apply 0 (Above (- 2147483648)) (push_level ?st) = (stL, rL)" by fastforce
  note WL = wide_op [OF P(1) L]
  obtain dur where "structs stL = ([], [\<lparr>iv_start = 0, iv_duration = dur, iv_presence = None\<rparr>], [], [])"
    using WL(7) P(1) by (auto simp: wide_def)
  then obtain st3 where st3: "pop_level stL = Some st3" "wide st3"
    using wide_pop [OF WL(2-5)] WL(6) P(2) by metis
  obtain stR rR where R: "st_apply 0 (Below (- 2147483647)) (push_level st3) = (stR, rR)" by fastforce
  note P3 = wide_push [OF st3(2)]
  note WR = wide_op [OF P3(1) R]
  let ?soL = "so\<lparr>so_store := stL\<rparr>" and ?so3 = "so\<lparr>so_store := st3\<rparr>" and ?soR = "so\<lparr>so_store := stR\<rparr>"
  have "enter_branch (IntervalStartSplit 0 (- 2147483648)) True so = (?soL, False)"
    using enter [of True so] out [OF P(1), of True] L WL(1) by simp
  moreover have "leave_branch ?soL = Some ?so3" by (simp add: leave_branch_def st3)
  moreover have "enter_branch (IntervalStartSplit 0 (- 2147483648)) False ?so3 = (?soR, True)"
    using enter [of False ?so3] out [OF P3(1), of False] R WR(1) by simp
  moreover have "wide (so_store ?soR)" using WR(8) by simp
  ultimately show thesis using that [of ?soL ?so3 ?soR] p by simp
qed

lemma wide_dfs:
  fixes cb :: "(constraint, 'u) callback"
  assumes "domain_dfs con_vtable cb so stats u [] = Some y" "wide (so_store so)" "propagators so = []"
  shows False
proof -
  have "vt = con_vtable \<longrightarrow> stops = [] \<longrightarrow> wide (so_store so) \<longrightarrow> propagators so = [] \<longrightarrow> False"
    if "domain_dfs vt cb so stats u stops = Some y" for vt and cb :: "(constraint, 'u) callback" and so stats u stops y
  proof (rule domain_dfs.raw_induct [where P = "\<lambda>vt cb so stats u stops y. vt = con_vtable \<longrightarrow> stops = [] \<longrightarrow> wide (so_store so) \<longrightarrow>
      propagators so = [] \<longrightarrow> False", OF _ that], intro impI)
    fix f :: "constraint vtable \<Rightarrow> (constraint, 'u) callback \<Rightarrow> constraint solver \<Rightarrow> solve_stats \<Rightarrow> 'u \<Rightarrow> bool list \<Rightarrow> (constraint, 'u) search_state option"
      and vt cb so stats u stops y
    assume IH: "\<And>vt cb so stats u stops y. f vt cb so stats u stops = Some y \<Longrightarrow>
        vt = con_vtable \<longrightarrow> stops = [] \<longrightarrow> wide (so_store so) \<longrightarrow> propagators so = [] \<longrightarrow> False"
      and step: "(let (b, stops1) = poll stops in if b then Some (so, stats, u, Stopped, stops1) else
        Option.bind (propagate vt so) (\<lambda>(so1, r).
        if \<not> is_ok r then Some (so1, count_failure stats, u, Exhausted, stops1) else
        (case choose_domain_decision (so_store so1) of
           None \<Rightarrow> Some (visit cb so1 stats u stops1)
         | Some d \<Rightarrow>
             let stats1 = stats\<lparr>nodes := nodes stats + 1\<rparr>; (soL, okL) = enter_branch d True so1 in
             Option.bind (if okL then f vt cb soL stats1 u stops1 else Some (soL, count_failure stats1, u, Exhausted, stops1))
               (\<lambda>(so2, stats2, u2, e2, stops2). Option.bind (leave_branch so2) (\<lambda>so3.
                  if e2 = Stopped then Some (so3, stats2, u2, Stopped, stops2) else
                  let (soR, okR) = enter_branch d False so3 in
                  Option.bind (if okR then f vt cb soR stats2 u2 stops2 else Some (soR, count_failure stats2, u2, Exhausted, stops2))
                    (\<lambda>(so4, stats4, u4, e4, stops4). map_option (\<lambda>so5. (so5, stats4, u4, e4, stops4)) (leave_branch so4))))))) = Some y"
      and a: "vt = con_vtable" "stops = []" "wide (so_store so)" "propagators so = []"
    have "\<forall>p. \<not> queued (so_store so) p" using a(3) by (simp add: wide_def)
    then obtain st where d: "dequeue (so_store so) = (None, st)" using dequeue_none [of "so_store so"] by (metis prod.collapse)
    have pr: "propagate con_vtable so = Some (so, Ok ())" using d dequeue_none_same [OF d] by (subst propagate.simps) simp
    obtain soL soR so3 where S: "enter_branch (IntervalStartSplit 0 (- 2147483648)) True so = (soL, False)" "leave_branch soL = Some so3"
      "enter_branch (IntervalStartSplit 0 (- 2147483648)) False so3 = (soR, True)" "wide (so_store soR)" "propagators soR = []"
      by (rule wide_sides [OF a(3,4)])
    obtain z where "f con_vtable cb soR (count_failure (stats\<lparr>nodes := nodes stats + 1\<rparr>)) u [] = Some z"
      using step by (auto simp: a pr wide_choice [OF a(3)] S(1-3) bind_eq_Some_conv)
    then show False using IH S(4,5) by blast
  qed
  then show False using assms by blast
qed

lemma wide_solver_ok: "wide (so_store wide_solver)" "propagators wide_solver = []"
proof -
  have i: "in_i32 (- 1073741824)" "in_i32 1073741824" by code_simp+
  have "dom_new_range (- 1073741824) 1073741824 (s_trail store_new) \<noteq> None" by (auto simp: dom_new_range_def Let_def)
  then obtain d t where d: "dom_new_range (- 1073741824) 1073741824 (s_trail store_new) = Some (d, t)" by fast
  obtain st v where p: "push_var d t store_new = (st, v)" by fastforce
  have n: "new_var_range (- 1073741824) 1073741824 store_new = Some (st, v)" using d p by (simp add: new_var_range_def)
  have g: "doms_ok store_new" "links_ok store_new" "sched_ok store_new" using good_new(1) by (simp_all add: good_def)
  note V = new_var_range_ok [OF g(1) i n] and L = push_var_links [OF g(2) p]
  have v: "v = 0" "st_view st = [window]" using V(2,3) good_new(2) by (simp_all add: st_view_def window_def)
  have "\<not> queued store_new q" for q by (simp add: store_new_def queued_def nbands_def)
  then have q: "\<not> queued st q" for q using L(3) by simp
  have e: "list_domains st = []" "interval_domains st = []" "disjunctive_pairs st = []" "disjunctive_order_vars st = []"
    using p by (auto simp: push_var_def store_new_def)
  let ?st = "st\<lparr>interval_domains := [\<lparr>iv_start = 0, iv_duration = 1, iv_presence = None\<rparr>]\<rparr>"
  have w: "wide_solver = solver_new\<lparr>so_store := ?st\<rparr>"
    by (simp add: wide_solver_def new_interval_def new_interval_with_presence_def n push_interval_def e v)
  have c: "doms_ok ?st" "st_view ?st = [window]" using doms_ok_cong [of ?st st] V(1) v by simp_all
  have qq: "queued ?st = queued st" by (simp add: good_intervals)
  have "sched_ok ?st" using L(2) g(3) by (simp add: sched_ok_def qq)
  moreover have "links_ok ?st" using L(1) by (simp add: links_ok_def)
  ultimately show "wide (so_store wide_solver)" unfolding w wide_def using c q qq e by (simp add: structs_def)
  show "propagators wide_solver = []" by (simp add: w solver_new_def)
qed

text \<open>
  C37. With one mandatory interval whose start ranges over \<open>-2^30 .. 2^30\<close>, without any
  constraint, the midpoint wraps to \<open>-2^31\<close> and the search for a first solution never ends,
  although every start is a solution.
\<close>

theorem wide_start_diverges:
  "first_domain_solution con_vtable wide_solver = None \<and> choose_domain_decision (so_store wide_solver) = Some (IntervalStartSplit 0 (- 2147483648))"
proof -
  have "enqueue_all wide_solver = wide_solver" by (simp add: enqueue_all_def wide_solver_ok(2))
  moreover have "domain_dfs con_vtable cb wide_solver stats u [] = None" for cb :: "(constraint, domain_solution option) callback" and stats u
    using wide_dfs [OF _ wide_solver_ok] by (cases "domain_dfs con_vtable cb wide_solver stats u []") auto
  ultimately show ?thesis
    using wide_choice [OF wide_solver_ok(1)] by (simp add: first_domain_solution_def solve_domains_def solve_domains_interruptible_def)
qed

end
