(* ===== verification/Lits.thy ===== *)
theory Lits imports Store "HOL-Library.Word" begin

text \<open>
  Atoms and literals of the clause-learning layer (\<open>src/src/lcg/lit.rs\<close>): a literal packs an
  atom and a sign in a \<open>u32\<close>; the table numbers the atoms \<open>[x >= k]\<close> and \<open>[x = v]\<close> of every
  variable, compact domains at once and wide ones on demand through a registry that tables
  share. The registry is a lock around a value, so its operations take and return the value.
  A panic is \<open>None\<close>. Variables are indices, as in the store.
\<close>

unbundle bit_operations_syntax

section \<open>Literals\<close>

type_synonym atom = "32 word"

datatype lit = Lit (lit_code: atom)

definition lit_new :: "atom \<Rightarrow> bool \<Rightarrow> lit" where
  "lit_new atom positive = Lit (push_bit 1 atom OR (if positive then 0 else 1))"

definition lit_positive :: "atom \<Rightarrow> lit" where
  "lit_positive atom = lit_new atom True"

definition lit_negative :: "atom \<Rightarrow> lit" where
  "lit_negative atom = lit_new atom False"

definition lit_atom :: "lit \<Rightarrow> atom" where
  "lit_atom l = drop_bit 1 (lit_code l)"

definition is_positive :: "lit \<Rightarrow> bool" where
  "is_positive l \<longleftrightarrow> lit_code l AND 1 = 0"

definition lit_negate :: "lit \<Rightarrow> lit" where
  "lit_negate l = Lit (lit_code l XOR 1)"

definition from_code :: "atom \<Rightarrow> lit" where
  "from_code code = Lit code"

section \<open>The table\<close>

datatype atom_kind = AGe (kind_var: var_id) int | AEq (kind_var: var_id) int

datatype lit_or_const = ALit lit | LTrue | LFalse

datatype var_layout = SpanLayout | SparseLayout | SignLayout | LazyLayout | LazySparseLayout

record var_atoms =
  va_lo :: int
  va_hi :: int
  va_active :: bool
  va_layout :: var_layout
  ge_base :: atom
  eq_base :: atom
  va_end :: atom
  sparse_values :: "int list option"

record atom_table =
  at_vars :: "var_atoms list"
  at_decode :: "atom_kind list"

record lazy_atoms =
  la_base :: "atom option"
  la_ids :: "atom_kind \<Rightarrow> atom option"
  la_decode :: "atom_kind list"
  la_by_var :: "var_id \<Rightarrow> atom list option"

definition registry_new :: lazy_atoms where
  "registry_new = \<lparr>la_base = None, la_ids = (\<lambda>_. None), la_decode = [], la_by_var = (\<lambda>_. None)\<rparr>"

definition set_base :: "atom \<Rightarrow> lazy_atoms \<Rightarrow> lazy_atoms option" where
  "set_base base R = (case la_base R of
     Some old \<Rightarrow> if old = base then Some R else None
   | None \<Rightarrow> Some (R\<lparr>la_base := Some base\<rparr>))"

text \<open>A new atom gets the next number; too many of them, or no base, panic.\<close>

definition intern :: "atom_kind \<Rightarrow> lazy_atoms \<Rightarrow> (atom \<times> lazy_atoms) option" where
  "intern kind R = (case la_ids R kind of
     Some a \<Rightarrow> Some (a, R)
   | None \<Rightarrow> (case la_base R of None \<Rightarrow> None
     | Some base \<Rightarrow>
         let n = length (la_decode R); a = unat base + n
         in if n \<ge> 2 ^ 32 \<or> a \<ge> 2 ^ 32 \<or> a > 2 ^ 31 - 1 then None
            else Some (word_of_nat a,
              R\<lparr>la_ids := (la_ids R)(kind \<mapsto> word_of_nat a), la_decode := la_decode R @ [kind],
                la_by_var := (la_by_var R)(kind_var kind \<mapsto>
                  (case la_by_var R (kind_var kind) of None \<Rightarrow> [] | Some as \<Rightarrow> as) @ [word_of_nat a])\<rparr>)))"

definition lazy_decode :: "lazy_atoms \<Rightarrow> atom \<Rightarrow> atom_kind option" where
  "lazy_decode R a = (case la_base R of None \<Rightarrow> None
     | Some base \<Rightarrow> let i = unat (a - base) in if i < length (la_decode R) then Some (la_decode R ! i) else None)"

definition max_eager_atoms :: nat where "max_eager_atoms = 20000000"
definition max_eager_domain_atoms :: nat where "max_eager_domain_atoms = 255"
definition max_total_eager_domain_atoms :: nat where "max_total_eager_domain_atoms = 500000"

text \<open>The number of values of a range; the cast to \<open>usize\<close> wraps for a reversed one.\<close>

definition range_len :: "int \<Rightarrow> int \<Rightarrow> nat" where
  "range_len lo hi = nat ((hi - lo + 1) mod 2 ^ 64)"

definition twice_less_one :: "nat \<Rightarrow> nat option" where
  "twice_less_one n = (if 2 * n \<ge> 2 ^ 64 \<or> n = 0 then None else Some (2 * n - 1))"

fun atom_count :: "var_layout \<Rightarrow> int \<Rightarrow> int \<Rightarrow> int list option \<Rightarrow> nat option" where
  "atom_count SpanLayout lo hi values = twice_less_one (range_len lo hi)"
| "atom_count SparseLayout lo hi values = Option.bind values (\<lambda>vs. twice_less_one (length vs))"
| "atom_count SignLayout lo hi values = Some 1"
| "atom_count _ lo hi values = Some 0"

text \<open>Whether a domain with this many atoms is left to the registry.\<close>

definition too_many :: "nat \<Rightarrow> nat \<Rightarrow> bool" where
  "too_many eager n \<longleftrightarrow> n > max_eager_domain_atoms \<or> eager + n \<ge> 2 ^ 64 \<or> eager + n > max_total_eager_domain_atoms"

definition choose_layout :: "bool \<Rightarrow> bool \<Rightarrow> int list option \<Rightarrow> nat \<Rightarrow> int \<Rightarrow> int \<Rightarrow> var_layout option" where
  "choose_layout sign active values eager lo hi =
     (if sign then Some SignLayout
      else if values \<noteq> None \<and> active then map_option (\<lambda>n. if too_many eager n then LazySparseLayout else SparseLayout) (atom_count SparseLayout lo hi values)
      else if values \<noteq> None then Some SparseLayout
      else if active then map_option (\<lambda>n. if too_many eager n then LazyLayout else SpanLayout) (atom_count SpanLayout lo hi None)
      else Some SpanLayout)"

fun order_kinds :: "var_id \<Rightarrow> var_layout \<Rightarrow> int \<Rightarrow> int \<Rightarrow> int list option \<Rightarrow> atom_kind list option" where
  "order_kinds x SpanLayout lo hi values = Some (map (AGe x) [lo + 1..hi])"
| "order_kinds x SparseLayout lo hi values = map_option (\<lambda>vs. map (AGe x) (drop 1 vs)) values"
| "order_kinds x SignLayout lo hi values = Some [AGe x 1]"
| "order_kinds x _ lo hi values = Some []"

fun equal_kinds :: "var_id \<Rightarrow> var_layout \<Rightarrow> int \<Rightarrow> int \<Rightarrow> int list option \<Rightarrow> atom_kind list option" where
  "equal_kinds x SpanLayout lo hi values = Some (map (AEq x) [lo..hi])"
| "equal_kinds x SparseLayout lo hi values = map_option (map (AEq x)) values"
| "equal_kinds x _ lo hi values = Some []"

text \<open>What the caller knows of the variables: active ones, signs, root supports and bounds.\<close>

record var_facts =
  vf_active :: "var_id \<Rightarrow> bool"
  vf_sign :: "var_id \<Rightarrow> bool"
  vf_support :: "var_id \<Rightarrow> int list option"
  vf_bounds :: "var_id \<Rightarrow> int \<times> int"

definition counts_eager :: "var_layout \<Rightarrow> bool" where
  "counts_eager layout \<longleftrightarrow> layout = SpanLayout \<or> layout = SparseLayout"

definition alloc_var :: "var_facts \<Rightarrow> var_id \<Rightarrow> atom_table \<times> nat \<Rightarrow> (atom_table \<times> nat) option" where
  "alloc_var F x = (\<lambda>(T, eager).
     let (lo, hi) = vf_bounds F x; base = word_of_nat (length (at_decode T)); active = vf_active F x; values = vf_support F x
     in Option.bind (choose_layout (vf_sign F x) active values eager lo hi) (\<lambda>layout.
        let entry = (\<lambda>eqb fin. \<lparr>va_lo = lo, va_hi = hi, va_active = active, va_layout = layout, ge_base = base,
              eq_base = eqb, va_end = fin, sparse_values = values\<rparr>)
        in if \<not> active then Some (\<lparr>at_vars = at_vars T @ [entry base base], at_decode = at_decode T\<rparr>, eager)
        else Option.bind (atom_count layout lo hi values) (\<lambda>n.
          if length (at_decode T) + n > max_eager_atoms then None
          else Option.bind (order_kinds x layout lo hi values) (\<lambda>ge. Option.bind (equal_kinds x layout lo hi values) (\<lambda>eq.
            Some (\<lparr>at_vars = at_vars T @ [entry (word_of_nat (length (at_decode T @ ge))) (word_of_nat (length (at_decode T @ ge @ eq)))],
                   at_decode = at_decode T @ ge @ eq\<rparr>, if counts_eager layout then eager + n else eager))))))"

fun alloc_vars :: "var_facts \<Rightarrow> var_id list \<Rightarrow> atom_table \<times> nat \<Rightarrow> (atom_table \<times> nat) option" where
  "alloc_vars F [] acc = Some acc"
| "alloc_vars F (x # xs) acc = Option.bind (alloc_var F x acc) (alloc_vars F xs)"

definition build_with_registry :: "nat \<Rightarrow> var_facts \<Rightarrow> lazy_atoms \<Rightarrow> (atom_table \<times> lazy_atoms) option" where
  "build_with_registry count F R =
     Option.bind (alloc_vars F [0..<count] (\<lparr>at_vars = [], at_decode = []\<rparr>, 0)) (\<lambda>(T, eager).
       map_option (Pair T) (set_base (word_of_nat (length (at_decode T))) R))"

definition build_active_sparse :: "nat \<Rightarrow> var_facts \<Rightarrow> (atom_table \<times> lazy_atoms) option" where
  "build_active_sparse count F = build_with_registry count F registry_new"

definition build_active :: "nat \<Rightarrow> var_facts \<Rightarrow> (atom_table \<times> lazy_atoms) option" where
  "build_active count F = build_active_sparse count (F\<lparr>vf_support := \<lambda>_. None\<rparr>)"

definition build :: "nat \<Rightarrow> (var_id \<Rightarrow> int \<times> int) \<Rightarrow> (atom_table \<times> lazy_atoms) option" where
  "build count bounds = build_active count \<lparr>vf_active = \<lambda>_. True, vf_sign = \<lambda>_. False, vf_support = \<lambda>_. None, vf_bounds = bounds\<rparr>"

section \<open>Reading the table\<close>

definition num_atoms :: "atom_table \<Rightarrow> lazy_atoms \<Rightarrow> nat" where
  "num_atoms T R = length (at_decode T) + length (la_decode R)"

definition atom_decode :: "atom_table \<Rightarrow> lazy_atoms \<Rightarrow> atom \<Rightarrow> atom_kind option" where
  "atom_decode T R a = (if unat a < length (at_decode T) then Some (at_decode T ! unat a) else lazy_decode R a)"

definition var_entry :: "atom_table \<Rightarrow> var_id \<Rightarrow> var_atoms option" where
  "var_entry T x = (if x < length (at_vars T) then Some (at_vars T ! x) else None)"

definition var_span :: "atom_table \<Rightarrow> var_id \<Rightarrow> (int \<times> int) option" where
  "var_span T x = map_option (\<lambda>a. (va_lo a, va_hi a)) (var_entry T x)"

definition lazy_layout :: "var_layout \<Rightarrow> bool" where
  "lazy_layout l \<longleftrightarrow> l = LazyLayout \<or> l = LazySparseLayout"

definition append_atoms :: "atom_table \<Rightarrow> lazy_atoms \<Rightarrow> var_id \<Rightarrow> atom list \<Rightarrow> atom list option" where
  "append_atoms T R x out = map_option (\<lambda>a. out @
     (if lazy_layout (va_layout a) then (case la_by_var R x of None \<Rightarrow> [] | Some as \<Rightarrow> as)
      else map word_of_nat [unat (ge_base a)..<unat (va_end a)])) (var_entry T x)"

definition is_sign :: "atom_table \<Rightarrow> var_id \<Rightarrow> bool option" where
  "is_sign T x = map_option (\<lambda>a. va_layout a = SignLayout) (var_entry T x)"

definition is_lazy :: "atom_table \<Rightarrow> var_id \<Rightarrow> bool option" where
  "is_lazy T x = map_option (\<lambda>a. lazy_layout (va_layout a)) (var_entry T x)"

definition var_of :: "atom_table \<Rightarrow> lazy_atoms \<Rightarrow> atom \<Rightarrow> var_id option" where
  "var_of T R a = map_option kind_var (atom_decode T R a)"

text \<open>The first supported value at or above a threshold, by its position in the sorted support.\<close>

definition partition_point :: "int list \<Rightarrow> int \<Rightarrow> nat" where
  "partition_point values k = length (takeWhile (\<lambda>v. v < k) values)"

definition binary_search :: "int list \<Rightarrow> int \<Rightarrow> nat option" where
  "binary_search values v = (let i = partition_point values v in if i < length values \<and> values ! i = v then Some i else None)"

definition interned :: "atom_kind \<Rightarrow> lazy_atoms \<Rightarrow> (lit_or_const \<times> lazy_atoms) option" where
  "interned kind R = map_option (\<lambda>(a, R'). (ALit (lit_positive a), R')) (intern kind R)"

definition ge_lit :: "var_id \<Rightarrow> int \<Rightarrow> var_atoms \<Rightarrow> lazy_atoms \<Rightarrow> (lit_or_const \<times> lazy_atoms) option" where
  "ge_lit x k a R = (case va_layout a of
     SignLayout \<Rightarrow> Some (if k \<le> - 1 then LTrue else if k > 1 then LFalse else ALit (lit_positive (ge_base a)), R)
   | SpanLayout \<Rightarrow> Some (if k \<le> va_lo a then LTrue else if k > va_hi a then LFalse
         else ALit (lit_positive (ge_base a + word_of_int (k - (va_lo a + 1)))), R)
   | SparseLayout \<Rightarrow> map_option (\<lambda>values.
         let i = partition_point values k
         in (if i = 0 then LTrue else if i = length values then LFalse else ALit (lit_positive (ge_base a + word_of_nat (i - 1))), R))
       (sparse_values a)
   | LazyLayout \<Rightarrow> if k \<le> va_lo a then Some (LTrue, R) else if k > va_hi a then Some (LFalse, R) else interned (AGe x (as_i32 k)) R
   | LazySparseLayout \<Rightarrow> if k \<le> va_lo a then Some (LTrue, R) else if k > va_hi a then Some (LFalse, R)
         else Option.bind (sparse_values a) (\<lambda>values.
           let i = partition_point values k
           in if i = 0 then Some (LTrue, R) else if i = length values then Some (LFalse, R) else interned (AGe x (values ! i)) R))"

definition ge_i64 :: "atom_table \<Rightarrow> var_id \<Rightarrow> int \<Rightarrow> lazy_atoms \<Rightarrow> (lit_or_const \<times> lazy_atoms) option" where
  "ge_i64 T x k R = Option.bind (var_entry T x) (\<lambda>a. if va_active a then ge_lit x k a R else None)"

definition lit_ge :: "atom_table \<Rightarrow> var_id \<Rightarrow> int \<Rightarrow> lazy_atoms \<Rightarrow> (lit_or_const \<times> lazy_atoms) option" where
  "lit_ge T x k R = ge_i64 T x k R"

definition eq_lit :: "var_id \<Rightarrow> int \<Rightarrow> var_atoms \<Rightarrow> lazy_atoms \<Rightarrow> (lit_or_const \<times> lazy_atoms) option" where
  "eq_lit x v a R = (case va_layout a of
     SignLayout \<Rightarrow> Some (if v = - 1 then ALit (lit_negative (ge_base a)) else if v = 1 then ALit (lit_positive (ge_base a)) else LFalse, R)
   | SpanLayout \<Rightarrow> Some (if v < va_lo a \<or> v > va_hi a then LFalse else ALit (lit_positive (eq_base a + word_of_int (v - va_lo a))), R)
   | SparseLayout \<Rightarrow> map_option (\<lambda>values. (case binary_search values v of
         Some i \<Rightarrow> ALit (lit_positive (eq_base a + word_of_nat i)) | None \<Rightarrow> LFalse, R)) (sparse_values a)
   | LazyLayout \<Rightarrow> if v < va_lo a \<or> v > va_hi a then Some (LFalse, R) else interned (AEq x v) R
   | LazySparseLayout \<Rightarrow> if v < va_lo a \<or> v > va_hi a then Some (LFalse, R)
         else Option.bind (sparse_values a) (\<lambda>values. if binary_search values v = None then Some (LFalse, R) else interned (AEq x v) R))"

definition lit_eq :: "atom_table \<Rightarrow> var_id \<Rightarrow> int \<Rightarrow> lazy_atoms \<Rightarrow> (lit_or_const \<times> lazy_atoms) option" where
  "lit_eq T x v R = Option.bind (var_entry T x) (\<lambda>a. if va_active a then eq_lit x v a R else None)"

text \<open>
  Lookups that never allocate: the inner \<open>None\<close> is a literal not numbered yet. An eager
  variable goes through the allocating lookup, which leaves the registry alone there.
\<close>

definition known :: "atom_kind \<Rightarrow> lazy_atoms \<Rightarrow> lit_or_const option" where
  "known kind R = map_option (\<lambda>a. ALit (lit_positive a)) (la_ids R kind)"

definition ge_i64_existing :: "atom_table \<Rightarrow> var_id \<Rightarrow> int \<Rightarrow> lazy_atoms \<Rightarrow> lit_or_const option option" where
  "ge_i64_existing T x k R = Option.bind (var_entry T x) (\<lambda>a.
     if \<not> lazy_layout (va_layout a) then map_option (\<lambda>(l, _). Some l) (ge_i64 T x k R)
     else if k \<le> va_lo a then Some (Some LTrue) else if k > va_hi a then Some (Some LFalse)
     else if va_layout a = LazySparseLayout
       then Option.bind (sparse_values a) (\<lambda>values. let i = partition_point values k
         in if i < length values then Some (known (AGe x (values ! i)) R) else None)
     else Some (known (AGe x (as_i32 k)) R))"

definition eq_existing :: "atom_table \<Rightarrow> var_id \<Rightarrow> int \<Rightarrow> lazy_atoms \<Rightarrow> lit_or_const option option" where
  "eq_existing T x v R = Option.bind (var_entry T x) (\<lambda>a.
     if \<not> lazy_layout (va_layout a) then map_option (\<lambda>(l, _). Some l) (lit_eq T x v R)
     else if v < va_lo a \<or> v > va_hi a then Some (Some LFalse)
     else if va_layout a = LazySparseLayout
       then Option.bind (sparse_values a) (\<lambda>values. if binary_search values v = None then Some (Some LFalse) else Some (known (AEq x v) R))
     else Some (known (AEq x v) R))"

end
