(* ===== verification/LitProps.thy ===== *)
theory LitProps imports Lits begin

text \<open>
  Lemmas on literals and their table: packing loses nothing, a numbered atom keeps its meaning
  while others are interned, and a literal asked for means the comparison on the root support.
\<close>

section \<open>Packing\<close>

lemma lit_pack:
  "is_positive (lit_new a p) = p" "lit_negate (lit_new a p) = lit_new a (\<not> p)" "lit_negate (lit_negate l) = l"
  "unat a < 2 ^ 31 \<Longrightarrow> lit_atom (lit_new a p) = a" "lit_new (lit_atom l) (is_positive l) = l"
  "lit_atom (lit_negate l) = lit_atom l" "is_positive (lit_negate l) \<longleftrightarrow> \<not> is_positive l"
proof -
  have one: "(c AND 1 = 0) = (\<not> bit c 0)" for c :: atom by (simp add: and_one_eq flip: even_iff_mod_2_eq_zero) (simp add: bit_0)
  have low: "bit (1 :: atom) n \<longleftrightarrow> n = 0" for n by (simp add: bit_1_iff)
  have bits: "bit (lit_code (lit_new a p)) n \<longleftrightarrow> n < 32 \<and> (if n = 0 then \<not> p else bit a (n - 1))" for a p n
    unfolding lit_new_def lit.sel bit_or_iff bit_push_bit_iff possible_bit_word
    by (cases n) (auto simp: low)
  have nbits: "bit (lit_code (lit_negate l)) n \<longleftrightarrow> n < 32 \<and> (bit (lit_code l) n \<noteq> (n = 0))" for l n
    unfolding lit_negate_def lit.sel by (auto simp: bit_xor_iff low dest: bit_imp_le_length)
  have ext: "l = l'" if "\<And>n. n < 32 \<Longrightarrow> bit (lit_code l) n \<longleftrightarrow> bit (lit_code l') n" for l l'
    using that by (cases l; cases l') (auto intro: bit_word_eqI)
  have atom: "bit (lit_atom l) n \<longleftrightarrow> bit (lit_code l) (Suc n)" for l n
    by (simp add: lit_atom_def bit_drop_bit_eq)
  have pos: "is_positive l \<longleftrightarrow> \<not> bit (lit_code l) 0" for l by (simp add: is_positive_def one)
  show "is_positive (lit_new a p) = p" by (simp add: pos bits)
  show "lit_negate (lit_new a p) = lit_new a (\<not> p)" by (rule ext) (simp add: nbits bits)
  show "lit_negate (lit_negate l) = l" by (rule ext) (auto simp: nbits)
  show "lit_atom (lit_new a p) = a" if "unat a < 2 ^ 31"
  proof (rule bit_word_eqI)
    fix n assume n: "n < LENGTH(32)"
    have "nat (uint a) < nat (2 ^ 31)" using that by simp
    then have "uint a < 2 ^ 31" by (rule nat_less_eq_zless [OF uint_ge_0, THEN iffD1])
    then have "\<not> bit (uint a) 31" by (simp add: bit_iff_odd)
    then have "\<not> bit a 31" by (simp add: bit_uint_iff)
    then show "bit (lit_atom (lit_new a p)) n \<longleftrightarrow> bit a n" using n by (cases "n = 31") (auto simp: atom bits)
  qed
  show "lit_new (lit_atom l) (is_positive l) = l" by (rule ext) (auto simp: bits atom pos)
  show "lit_atom (lit_negate l) = lit_atom l" by (rule bit_word_eqI) (simp add: atom nbits; auto dest: bit_imp_le_length)
  show "is_positive (lit_negate l) \<longleftrightarrow> \<not> is_positive l" by (simp add: pos nbits)
qed

section \<open>The registry\<close>

fun kind_holds :: "atom_kind \<Rightarrow> (var_id \<Rightarrow> int) \<Rightarrow> bool" where
  "kind_holds (AGe x k) a \<longleftrightarrow> k \<le> a x"
| "kind_holds (AEq x v) a \<longleftrightarrow> a x = v"

definition by_var :: "lazy_atoms \<Rightarrow> var_id \<Rightarrow> atom list" where
  "by_var R x = (case la_by_var R x of None \<Rightarrow> [] | Some as \<Rightarrow> as)"

definition registry_ok :: "nat \<Rightarrow> lazy_atoms \<Rightarrow> bool" where
  "registry_ok b R \<longleftrightarrow> la_base R = Some (word_of_nat b) \<and> b + length (la_decode R) \<le> 2 ^ 31 \<and> distinct (la_decode R) \<and>
     (\<forall>kind a. la_ids R kind = Some a \<longleftrightarrow> (\<exists>i < length (la_decode R). la_decode R ! i = kind \<and> a = word_of_nat (b + i))) \<and>
     (\<forall>x. by_var R x = map (\<lambda>i. word_of_nat (b + i)) (filter (\<lambda>i. kind_var (la_decode R ! i) = x) [0..<length (la_decode R)]))"

definition extends :: "lazy_atoms \<Rightarrow> lazy_atoms \<Rightarrow> bool" where
  "extends R R' \<longleftrightarrow> la_base R' = la_base R \<and> (\<exists>ks. la_decode R' = la_decode R @ ks) \<and> la_ids R \<subseteq>\<^sub>m la_ids R'"

lemma extends_refl [simp]: "extends R R"
  by (simp add: extends_def)

lemma unat_small: "n < 2 ^ 32 \<Longrightarrow> unat (word_of_nat n :: 32 word) = n"
  by (simp add: unat_of_nat take_bit_eq_mod)

lemma intern_ok:
  assumes R: "registry_ok b R" and i: "intern kind R = Some (a, R')"
  shows "registry_ok b R'" "extends R R'" "la_ids R' kind = Some a" "la_decode R' = la_decode R \<or> la_decode R' = la_decode R @ [kind]"
proof -
  have "registry_ok b R' \<and> extends R R' \<and> la_ids R' kind = Some a \<and> (la_decode R' = la_decode R \<or> la_decode R' = la_decode R @ [kind])"
  proof (cases "la_ids R kind")
    case (Some a')
    then show ?thesis using i R by (simp add: intern_def)
  next
    case None
    let ?n = "length (la_decode R)"
    have base: "la_base R = Some (word_of_nat b)" and lim: "b + ?n \<le> 2 ^ 31" using R by (simp_all add: registry_ok_def)
    have ub: "unat (word_of_nat b :: atom) = b" using lim by (intro unat_small) simp
    have small: "b + ?n < 2 ^ 31" and a: "a = word_of_nat (b + ?n)" and
      R': "R' = R\<lparr>la_ids := (la_ids R)(kind \<mapsto> a), la_decode := la_decode R @ [kind], la_by_var := (la_by_var R)(kind_var kind \<mapsto> by_var R (kind_var kind) @ [a])\<rparr>"
      using i None base by (auto simp: intern_def ub Let_def by_var_def split: if_splits)
    have iff: "la_ids R kd = Some c \<longleftrightarrow> (\<exists>j < ?n. la_decode R ! j = kd \<and> c = word_of_nat (b + j))" for kd c
      using R by (simp add: registry_ok_def)
    have new: "kind \<notin> set (la_decode R)" using None iff [of kind] by (auto simp: in_set_conv_nth)
    have ids: "la_ids R' kd = Some c \<longleftrightarrow> (\<exists>j < length (la_decode R'). la_decode R' ! j = kd \<and> c = word_of_nat (b + j))" for kd c
    proof (cases "kd = kind")
      case True
      have "la_decode R' ! j = kind \<longleftrightarrow> j = ?n" if "j < Suc ?n" for j
        using that new by (auto simp: R' nth_append less_Suc_eq)
      then show ?thesis using True by (auto simp: R' a)
    next
      case False
      have "la_ids R' kd = la_ids R kd" using False by (simp add: R')
      then show ?thesis using False iff [of kd c] by (auto simp: R' nth_append less_Suc_eq)
    qed
    have bv: "by_var R' x = map (\<lambda>j. word_of_nat (b + j)) (filter (\<lambda>j. kind_var (la_decode R' ! j) = x) [0..<length (la_decode R')])" for x
    proof -
      have "filter (\<lambda>j. kind_var (la_decode R' ! j) = x) [0..<?n] = filter (\<lambda>j. kind_var (la_decode R ! j) = x) [0..<?n]"
        by (rule filter_cong) (simp_all add: R' nth_append)
      moreover have "by_var R x = map (\<lambda>j. word_of_nat (b + j)) (filter (\<lambda>j. kind_var (la_decode R ! j) = x) [0..<?n])"
        using R by (simp add: registry_ok_def)
      moreover have "by_var R' x = by_var R x @ (if kind_var kind = x then [a] else [])" by (auto simp: R' by_var_def)
      ultimately show ?thesis by (auto simp: R' a nth_append)
    qed
    have "registry_ok b R'"
      unfolding registry_ok_def using ids bv small base R new by (simp add: R' registry_ok_def)
    moreover have "extends R R'" using None by (auto simp: extends_def R' map_le_def)
    ultimately show ?thesis by (simp add: R')
  qed
  then show "registry_ok b R'" "extends R R'" "la_ids R' kind = Some a" "la_decode R' = la_decode R \<or> la_decode R' = la_decode R @ [kind]"
    by blast+
qed

lemma intern_returns:
  assumes "registry_ok b R" "b + length (la_decode R) < 2 ^ 31"
  shows "intern kind R \<noteq> None"
proof -
  have "unat (word_of_nat b :: atom) = b" using assms(2) by (intro unat_small) simp
  then show ?thesis using assms by (auto simp: intern_def registry_ok_def Let_def split: option.split)
qed

section \<open>Decoding\<close>

lemma lazy_decoded:
  assumes "registry_ok (length (at_decode T)) R" "la_ids R kind = Some a"
  shows "atom_decode T R a = Some kind" "unat a < 2 ^ 31"
proof -
  let ?b = "length (at_decode T)"
  obtain i where i: "i < length (la_decode R)" "la_decode R ! i = kind" "a = word_of_nat (?b + i)" and lim: "?b + length (la_decode R) \<le> 2 ^ 31"
    using assms by (auto simp: registry_ok_def)
  have "unat a = ?b + i" unfolding i(3) using i(1) lim by (intro unat_small) simp
  moreover have "unat (a - word_of_nat ?b) = i"
    using i(1) lim by (simp add: i(3) unat_small)
  ultimately show "atom_decode T R a = Some kind" "unat a < 2 ^ 31"
    using i lim assms(1) by (simp_all add: atom_decode_def lazy_decode_def registry_ok_def)
qed

lemma decode_extends: "extends R R' \<Longrightarrow> atom_decode T R a = Some kind \<Longrightarrow> atom_decode T R' a = Some kind"
  by (auto simp: atom_decode_def lazy_decode_def extends_def Let_def nth_append split: if_splits option.splits)

section \<open>The table\<close>

definition sparse_layout :: "var_layout \<Rightarrow> bool" where
  "sparse_layout l \<longleftrightarrow> l = SparseLayout \<or> l = LazySparseLayout"

lemma sparse_layout_simps [simp]: "sparse_layout SparseLayout" "sparse_layout LazySparseLayout" "\<not> sparse_layout SpanLayout"
  "\<not> sparse_layout SignLayout" "\<not> sparse_layout LazyLayout"
  by (simp_all add: sparse_layout_def)

definition support_ok :: "int list \<Rightarrow> int \<Rightarrow> int \<Rightarrow> bool" where
  "support_ok vs lo hi \<longleftrightarrow> sorted_wrt (<) vs \<and> vs \<noteq> [] \<and> hd vs = lo \<and> last vs = hi"

definition entry_shape :: "var_atoms \<Rightarrow> bool" where
  "entry_shape a \<longleftrightarrow> in_i32 (va_lo a) \<and> in_i32 (va_hi a) \<and> va_lo a \<le> va_hi a \<and>
     (sparse_layout (va_layout a) \<longrightarrow> (\<exists>vs. sparse_values a = Some vs \<and> support_ok vs (va_lo a) (va_hi a)))"

definition va_order :: "var_id \<Rightarrow> var_atoms \<Rightarrow> atom_kind list" where
  "va_order x a = the (order_kinds x (va_layout a) (va_lo a) (va_hi a) (sparse_values a))"

definition va_equal :: "var_id \<Rightarrow> var_atoms \<Rightarrow> atom_kind list" where
  "va_equal x a = the (equal_kinds x (va_layout a) (va_lo a) (va_hi a) (sparse_values a))"

definition placed :: "atom_kind list \<Rightarrow> var_id \<Rightarrow> var_atoms \<Rightarrow> bool" where
  "placed D x a \<longleftrightarrow> (if va_active a
     then (\<exists>before after. D = before @ va_order x a @ va_equal x a @ after \<and> unat (ge_base a) = length before \<and>
        unat (eq_base a) = length before + length (va_order x a) \<and> unat (va_end a) = length before + length (va_order x a @ va_equal x a))
     else va_end a = ge_base a)"

definition table_ok :: "atom_table \<Rightarrow> bool" where
  "table_ok T \<longleftrightarrow> length (at_decode T) \<le> max_eager_atoms \<and>
     (\<forall>x < length (at_vars T). entry_shape (at_vars T ! x) \<and> placed (at_decode T) x (at_vars T ! x) \<and>
        unat (va_end (at_vars T ! x)) \<le> length (at_decode T)) \<and>
     (\<forall>i < length (at_decode T). \<forall>x. kind_var (at_decode T ! i) = x \<longleftrightarrow>
        x < length (at_vars T) \<and> unat (ge_base (at_vars T ! x)) \<le> i \<and> i < unat (va_end (at_vars T ! x)))"

definition facts_ok :: "var_facts \<Rightarrow> var_id \<Rightarrow> bool" where
  "facts_ok F x \<longleftrightarrow> (case vf_bounds F x of (lo, hi) \<Rightarrow> in_i32 lo \<and> in_i32 hi \<and> lo \<le> hi \<and>
     (case vf_support F x of None \<Rightarrow> True | Some vs \<Rightarrow> support_ok vs lo hi))"

definition described :: "var_facts \<Rightarrow> var_id \<Rightarrow> var_atoms \<Rightarrow> bool" where
  "described F x a \<longleftrightarrow> (va_lo a, va_hi a) = vf_bounds F x \<and> va_active a = vf_active F x \<and> sparse_values a = vf_support F x \<and>
     (va_layout a = SignLayout \<longleftrightarrow> vf_sign F x) \<and> (sparse_layout (va_layout a) \<longleftrightarrow> \<not> vf_sign F x \<and> vf_support F x \<noteq> None)"

lemma kinds_var:
  "order_kinds x l lo hi vs = Some ks \<Longrightarrow> k \<in> set ks \<Longrightarrow> kind_var k = x" "equal_kinds x l lo hi vs = Some ks \<Longrightarrow> k \<in> set ks \<Longrightarrow> kind_var k = x"
  by (cases l; auto)+

lemma placed_append:
  assumes "placed D x a"
  shows "placed (D @ ks) x a"
proof (cases "va_active a")
  case True
  then obtain before after where p: "D = before @ va_order x a @ va_equal x a @ after" "unat (ge_base a) = length before"
    "unat (eq_base a) = length before + length (va_order x a)" "unat (va_end a) = length before + length (va_order x a @ va_equal x a)"
    using assms by (auto simp: placed_def)
  then have "D @ ks = before @ va_order x a @ va_equal x a @ (after @ ks)" by simp
  then show ?thesis unfolding placed_def using True p by auto
qed (use assms in \<open>simp add: placed_def\<close>)

lemma atom_count_ok:
  assumes "atom_count l lo hi vs = Some n" "order_kinds x l lo hi vs = Some ge" "equal_kinds x l lo hi vs = Some eq"
    "in_i32 lo" "in_i32 hi" "lo \<le> hi"
  shows "length ge + length eq = n"
proof -
  have r: "range_len lo hi = nat (hi - lo + 1)"
    using assms(4-6) by (simp add: range_len_def in_i32_def i32_min_def i32_max_def)
  show ?thesis
    using assms by (cases l) (auto simp: r twice_less_one_def split: if_splits)
qed

lemma choose_layout_ok:
  assumes "choose_layout sign active vs eager lo hi = Some l"
  shows "l = SignLayout \<longleftrightarrow> sign" "sparse_layout l \<longleftrightarrow> \<not> sign \<and> vs \<noteq> None" "vs = None \<Longrightarrow> \<not> sparse_layout l"
    "active \<Longrightarrow> counts_eager l \<Longrightarrow> atom_count l lo hi vs = Some n \<Longrightarrow> \<not> too_many eager n"
  using assms by (auto simp: choose_layout_def sparse_layout_def counts_eager_def split: if_splits)

lemma alloc_var_ok:
  assumes T: "table_ok T" "length (at_vars T) = x" and F: "facts_ok F x" and run: "alloc_var F x (T, eager) = Some (T', eager')"
  shows "table_ok T' \<and> (\<exists>a. at_vars T' = at_vars T @ [a] \<and> described F x a)"
proof -
  obtain lo hi where b: "vf_bounds F x = (lo, hi)" by fastforce
  have f: "in_i32 lo" "in_i32 hi" "lo \<le> hi" "\<And>vs. vf_support F x = Some vs \<Longrightarrow> support_ok vs lo hi"
    using F by (auto simp: facts_ok_def b)
  obtain l where l: "choose_layout (vf_sign F x) (vf_active F x) (vf_support F x) eager lo hi = Some l"
    using run by (auto simp: alloc_var_def b bind_eq_Some_conv Let_def)
  note L = choose_layout_ok [OF l]
  let ?D = "at_decode T"
  have D: "length ?D \<le> max_eager_atoms" using T by (simp add: table_ok_def)
  have small: "unat (word_of_nat m :: atom) = m" if "m \<le> max_eager_atoms" for m
    using that by (intro unat_small) (simp add: max_eager_atoms_def)
  define ks where "ks = (if vf_active F x then the (order_kinds x l lo hi (vf_support F x)) @ the (equal_kinds x l lo hi (vf_support F x)) else [])"
  obtain a where T': "T' = \<lparr>at_vars = at_vars T @ [a], at_decode = ?D @ ks\<rparr>" and len: "length (?D @ ks) \<le> max_eager_atoms"
    and ds: "described F x a" and sh: "entry_shape a" and pl: "placed (?D @ ks) x a" and ge: "unat (ge_base a) = length ?D" and fin: "unat (va_end a) = length (?D @ ks)"
  proof (cases "vf_active F x")
    case False
    let ?a = "\<lparr>va_lo = lo, va_hi = hi, va_active = False, va_layout = l, ge_base = word_of_nat (length ?D), eq_base = word_of_nat (length ?D),
      va_end = word_of_nat (length ?D), sparse_values = vf_support F x\<rparr>"
    have ks: "ks = []" by (simp add: ks_def False)
    have run': "T' = \<lparr>at_vars = at_vars T @ [?a], at_decode = ?D @ ks\<rparr>"
      using run l b False ks by (auto simp: alloc_var_def Let_def)
    show thesis
      by (rule that [OF run']) (use b L f False D in \<open>auto simp: ks described_def entry_shape_def placed_def small\<close>)
  next
    case True
    obtain n g e where n: "atom_count l lo hi (vf_support F x) = Some n" "length ?D + n \<le> max_eager_atoms"
      "order_kinds x l lo hi (vf_support F x) = Some g" "equal_kinds x l lo hi (vf_support F x) = Some e"
      using run l b True by (auto simp: alloc_var_def Let_def bind_eq_Some_conv split: if_splits)
    have ge: "length g + length e = n" by (rule atom_count_ok [OF n(1,3,4) f(1-3)])
    have ks: "ks = g @ e" by (simp add: ks_def True n)
    let ?a = "\<lparr>va_lo = lo, va_hi = hi, va_active = True, va_layout = l, ge_base = word_of_nat (length ?D), eq_base = word_of_nat (length (?D @ g)),
      va_end = word_of_nat (length (?D @ ks)), sparse_values = vf_support F x\<rparr>"
    have run': "T' = \<lparr>at_vars = at_vars T @ [?a], at_decode = ?D @ ks\<rparr>"
      using run l b True n ks by (auto simp: alloc_var_def Let_def)
    have le: "length ?D \<le> max_eager_atoms" "length (?D @ g) \<le> max_eager_atoms" "length (?D @ ks) \<le> max_eager_atoms"
      using n(2) ge by (simp_all add: ks)
    have u: "unat (ge_base ?a) = length ?D" "unat (eq_base ?a) = length (?D @ g)" "unat (va_end ?a) = length (?D @ ks)"
      using small [OF le(1)] small [OF le(2)] small [OF le(3)] by simp_all
    have pl: "placed (?D @ ks) x ?a"
    proof -
      have k: "va_order x ?a = g" "va_equal x ?a = e" using n(3,4) by (simp_all add: va_order_def va_equal_def)
      have "?D @ ks = ?D @ g @ e @ []" by (simp add: ks)
      then show ?thesis unfolding placed_def u k
        by (simp only: var_atoms.simps if_True) (intro exI conjI; simp add: ks)
    qed
    show thesis
      by (rule that [OF run' le(3) _ _ pl u(1,3)]) (use b L f True in \<open>auto simp: described_def entry_shape_def\<close>)
  qed
  have own: "kind_var k = x" if "k \<in> set ks" for k
  proof -
    have "order_kinds x l lo hi (vf_support F x) \<noteq> None" "equal_kinds x l lo hi (vf_support F x) \<noteq> None"
      using L by (cases l; auto simp: sparse_layout_def)+
    then show ?thesis using that kinds_var by (fastforce simp: ks_def split: if_splits)
  qed
  have old: "entry_shape (at_vars T ! y) \<and> placed (?D @ ks) y (at_vars T ! y) \<and> unat (va_end (at_vars T ! y)) \<le> length ?D" if "y < x" for y
    using that T by (auto simp: table_ok_def intro: placed_append)
  have who: "kind_var ((?D @ ks) ! i) = y \<longleftrightarrow>
      y < Suc x \<and> unat (ge_base ((at_vars T @ [a]) ! y)) \<le> i \<and> i < unat (va_end ((at_vars T @ [a]) ! y))" if i: "i < length (?D @ ks)" for i y
  proof (cases "i < length ?D")
    case True
    then have "kind_var (?D ! i) = y \<longleftrightarrow> y < x \<and> unat (ge_base (at_vars T ! y)) \<le> i \<and> i < unat (va_end (at_vars T ! y))"
      using T by (simp add: table_ok_def)
    then show ?thesis using True T(2) ge by (auto simp: nth_append less_Suc_eq)
  next
    case False
    then have "kind_var ((?D @ ks) ! i) = x" using i own [of "ks ! (i - length ?D)"] by (simp add: nth_append)
    moreover have "\<not> i < unat (va_end (at_vars T ! y))" if "y < x" using old [OF that] False by simp
    ultimately show ?thesis using False T(2) ge fin i by (auto simp: nth_append less_Suc_eq)
  qed
  have "table_ok T'"
    unfolding table_ok_def T' atom_table.simps
  proof (intro conjI allI impI)
    fix y assume y: "y < length (at_vars T @ [a])"
    have "y < x \<or> y = x" using y T(2) by auto
    then show "entry_shape ((at_vars T @ [a]) ! y)" "placed (?D @ ks) y ((at_vars T @ [a]) ! y)"
      "unat (va_end ((at_vars T @ [a]) ! y)) \<le> length (?D @ ks)"
      using old [of y] sh pl fin T(2) by (auto simp: nth_append)
  next
    fix i y assume "i < length (?D @ ks)"
    from who [OF this, of y] show "kind_var ((?D @ ks) ! i) = y \<longleftrightarrow> y < length (at_vars T @ [a]) \<and>
        unat (ge_base ((at_vars T @ [a]) ! y)) \<le> i \<and> i < unat (va_end ((at_vars T @ [a]) ! y))" using T(2) by simp
  qed (rule len)
  then show ?thesis using ds T' by simp
qed

lemma alloc_vars_ok:
  assumes "alloc_vars F xs (T, eager) = Some (T', eager')" "xs = [length (at_vars T)..<n]" "length (at_vars T) \<le> n"
    and "table_ok T" "\<forall>x < n. facts_ok F x" "\<forall>x < length (at_vars T). described F x (at_vars T ! x)"
  shows "table_ok T' \<and> length (at_vars T') = n \<and> (\<forall>x < n. described F x (at_vars T' ! x))"
  using assms
proof (induction xs arbitrary: T eager)
  case Nil
  then have "length (at_vars T) = n" by (metis le_antisym le_0_eq upt_eq_Nil_conv)
  then show ?case using Nil by simp
next
  case (Cons x xs)
  let ?x = "length (at_vars T)"
  have lt: "?x < n" using Cons.prems(2) by (cases "?x < n") simp_all
  then have xs: "x = ?x" "xs = [Suc ?x..<n]" using Cons.prems(2) by (simp_all add: upt_rec)
  obtain T1 e1 where a: "alloc_var F ?x (T, eager) = Some (T1, e1)" and r: "alloc_vars F xs (T1, e1) = Some (T', eager')"
    using Cons.prems(1) xs(1) by (auto simp: bind_eq_Some_conv)
  obtain a where A: "table_ok T1" "at_vars T1 = at_vars T @ [a]" "described F ?x a"
    using alloc_var_ok [OF Cons.prems(4) refl _ a] Cons.prems(5) lt by blast
  have "\<forall>y < length (at_vars T1). described F y (at_vars T1 ! y)"
    using A Cons.prems(6) by (auto simp: nth_append less_Suc_eq)
  then show ?case using Cons.IH [OF r] xs A lt Cons.prems(5) by simp
qed

end
