(* ===== verification/LitMeaning.thy ===== *)
theory LitMeaning imports LitProps begin

text \<open>
  What the literals of the table mean: at every value of the root support of a variable, the
  literal asked for a comparison is true exactly where the comparison holds, whatever the
  layout; and asking for more literals never changes the meaning of one.
\<close>

section \<open>Truth\<close>

definition lit_true :: "atom_table \<Rightarrow> lazy_atoms \<Rightarrow> lit \<Rightarrow> (var_id \<Rightarrow> int) \<Rightarrow> bool" where
  "lit_true T R l a \<longleftrightarrow> (\<exists>kind. atom_decode T R (lit_atom l) = Some kind \<and> (kind_holds kind a \<longleftrightarrow> is_positive l))"

fun loc_true :: "atom_table \<Rightarrow> lazy_atoms \<Rightarrow> lit_or_const \<Rightarrow> (var_id \<Rightarrow> int) \<Rightarrow> bool" where
  "loc_true T R (ALit l) a = lit_true T R l a"
| "loc_true T R LTrue a = True"
| "loc_true T R LFalse a = False"

definition in_root :: "var_atoms \<Rightarrow> int \<Rightarrow> bool" where
  "in_root a y \<longleftrightarrow> (if va_layout a = SignLayout then y = - 1 \<or> y = 1
     else if sparse_layout (va_layout a) then y \<in> set (the (sparse_values a)) else va_lo a \<le> y \<and> y \<le> va_hi a)"

lemma lit_true_pack:
  "unat b < 2 ^ 31 \<Longrightarrow> atom_decode T R b = Some kind \<Longrightarrow> lit_true T R (lit_new b p) a \<longleftrightarrow> (kind_holds kind a \<longleftrightarrow> p)"
  by (simp add: lit_true_def lit_pack)

section \<open>Positions\<close>

lemma in_table:
  assumes T: "table_ok T" and x: "var_entry T x = Some a" and act: "va_active a"
  shows "i < length (va_order x a) \<Longrightarrow> unat (ge_base a + word_of_nat i) < 2 ^ 31 \<and> atom_decode T R (ge_base a + word_of_nat i) = Some (va_order x a ! i)"
    and "i < length (va_equal x a) \<Longrightarrow> unat (eq_base a + word_of_nat i) < 2 ^ 31 \<and> atom_decode T R (eq_base a + word_of_nat i) = Some (va_equal x a ! i)"
proof -
  have a: "x < length (at_vars T)" "a = at_vars T ! x" using x by (simp_all add: var_entry_def split: if_splits)
  have "placed (at_decode T) x a" using T a by (simp add: table_ok_def)
  then obtain before after where D: "at_decode T = before @ va_order x a @ va_equal x a @ after" "unat (ge_base a) = length before"
    "unat (eq_base a) = length before + length (va_order x a)"
    using act by (auto simp: placed_def)
  have lim: "length (at_decode T) < 2 ^ 31" using T by (simp add: table_ok_def max_eager_atoms_def)
  have u: "unat (b + word_of_nat j) = unat b + j" if "unat b + j < 2 ^ 31" for b :: atom and j
  proof -
    have "unat (word_of_nat j :: atom) = j" using that by (intro unat_small) simp
    moreover have "b + word_of_nat j = word_of_nat (unat b + j)" by simp
    ultimately show ?thesis using unat_small [of "unat b + j"] that by simp
  qed
  have at: "atom_decode T R (b + word_of_nat j) = Some (at_decode T ! (unat b + j)) \<and> unat (b + word_of_nat j) < 2 ^ 31"
    if "unat b + j < length (at_decode T)" for b j
    using that lim u [of b j] by (simp add: atom_decode_def)
  show "i < length (va_order x a) \<Longrightarrow> unat (ge_base a + word_of_nat i) < 2 ^ 31 \<and> atom_decode T R (ge_base a + word_of_nat i) = Some (va_order x a ! i)"
    using at [of "ge_base a" i] D by (simp add: nth_append)
  show "i < length (va_equal x a) \<Longrightarrow> unat (eq_base a + word_of_nat i) < 2 ^ 31 \<and> atom_decode T R (eq_base a + word_of_nat i) = Some (va_equal x a ! i)"
    using at [of "eq_base a" i] D by (simp add: nth_append)
qed

section \<open>The support\<close>

lemma partition_sorted:
  assumes "sorted_wrt (<) vs" "y \<in> set vs"
  shows "k \<le> y \<longleftrightarrow> partition_point vs k < length vs \<and> vs ! partition_point vs k \<le> y"
  using assms
proof (induction vs)
  case (Cons v vs)
  show ?case
  proof (cases "v < k")
    case True
    then have pp: "partition_point (v # vs) k = Suc (partition_point vs k)" by (simp add: partition_point_def)
    show ?thesis
    proof (cases "y = v")
      case True
      have "v < vs ! partition_point vs k" if "partition_point vs k < length vs" using Cons.prems(1) that by simp
      then show ?thesis using True \<open>v < k\<close> by (auto simp: pp)
    next
      case False
      then show ?thesis using Cons by (simp add: pp)
    qed
  next
    case False
    then have "partition_point (v # vs) k = 0" by (simp add: partition_point_def)
    then show ?thesis using False Cons.prems by auto
  qed
qed simp

lemma partition_cases:
  assumes "sorted_wrt (<) vs" "y \<in> set vs"
  shows "partition_point vs k = 0 \<Longrightarrow> k \<le> y" "partition_point vs k = length vs \<Longrightarrow> \<not> k \<le> y"
    "partition_point vs k \<noteq> length vs \<Longrightarrow> vs ! partition_point vs k \<le> y \<longleftrightarrow> k \<le> y"
proof -
  note P = partition_sorted [OF assms, of k]
  have l: "partition_point vs k < length vs \<longleftrightarrow> partition_point vs k \<noteq> length vs" using length_takeWhile_le [of "\<lambda>v. v < k" vs] by (auto simp: partition_point_def)
  show "partition_point vs k = 0 \<Longrightarrow> k \<le> y" using P assms by (cases vs) (auto simp: less_imp_le)
  show "partition_point vs k = length vs \<Longrightarrow> \<not> k \<le> y" "partition_point vs k \<noteq> length vs \<Longrightarrow> vs ! partition_point vs k \<le> y \<longleftrightarrow> k \<le> y"
    using P l by auto
qed

lemma support_bounds:
  assumes "support_ok vs lo hi" "y \<in> set vs"
  shows "lo \<le> y \<and> y \<le> hi"
proof
  have s: "sorted_wrt (<) vs" "hd vs = lo" "last vs = hi" using assms(1) by (simp_all add: support_ok_def)
  show "lo \<le> y" using s(1,2) assms(2) by (cases vs) auto
  show "y \<le> hi" using s(1,3) assms(2) by (cases vs rule: rev_cases) (auto simp: sorted_wrt_append)
qed

lemma partition_le: "partition_point vs k \<le> length vs"
  by (simp add: partition_point_def length_takeWhile_le)

lemma binary_search_ok:
  assumes "sorted_wrt (<) vs"
  shows "binary_search vs v = None \<longleftrightarrow> v \<notin> set vs" "binary_search vs v = Some i \<Longrightarrow> i < length vs \<and> vs ! i = v"
proof -
  have "v \<in> set vs \<Longrightarrow> partition_point vs v < length vs \<and> vs ! partition_point vs v = v"
  proof -
    assume v: "v \<in> set vs"
    have le: "partition_point vs v < length vs" "vs ! partition_point vs v \<le> v" using partition_sorted [OF assms v, of v] by simp_all
    moreover have "\<not> vs ! partition_point vs v < v" using nth_length_takeWhile [of "\<lambda>u. u < v" vs] le(1) by (simp add: partition_point_def)
    ultimately show ?thesis by simp
  qed
  moreover have "binary_search vs v = None \<longleftrightarrow> \<not> (partition_point vs v < length vs \<and> vs ! partition_point vs v = v)"
    by (simp add: binary_search_def Let_def)
  ultimately show "binary_search vs v = None \<longleftrightarrow> v \<notin> set vs" by (metis nth_mem)
  show "binary_search vs v = Some i \<Longrightarrow> i < length vs \<and> vs ! i = v" by (auto simp: binary_search_def Let_def split: if_splits)
qed

section \<open>Literals asked for\<close>

lemma interned_ok:
  assumes R: "registry_ok (length (at_decode T)) R" and i: "interned kind R = Some (r, R')"
  shows "registry_ok (length (at_decode T)) R'" "extends R R'" "loc_true T R' r a \<longleftrightarrow> kind_holds kind a"
    "\<exists>b. r = ALit (lit_positive b) \<and> la_ids R' kind = Some b"
proof -
  obtain b where b: "intern kind R = Some (b, R')" "r = ALit (lit_positive b)" using i by (auto simp: interned_def)
  note I = intern_ok [OF R b(1)]
  show "registry_ok (length (at_decode T)) R'" "extends R R'" by (rule I)+
  show "loc_true T R' r a \<longleftrightarrow> kind_holds kind a"
    using lit_true_pack [OF lazy_decoded(2,1) [OF I(1,3)], of True a] by (simp add: b lit_positive_def)
  show "\<exists>b. r = ALit (lit_positive b) \<and> la_ids R' kind = Some b" using b I(3) by blast
qed

definition active_entry :: "atom_table \<Rightarrow> lazy_atoms \<Rightarrow> var_id \<Rightarrow> var_atoms \<Rightarrow> bool" where
  "active_entry T R x a \<longleftrightarrow> table_ok T \<and> var_entry T x = Some a \<and> va_active a \<and> registry_ok (length (at_decode T)) R"

lemma table_at:
  assumes "active_entry T R x a"
  shows "i < length (va_order x a) \<Longrightarrow> lit_true T R (lit_new (ge_base a + word_of_nat i) p) f \<longleftrightarrow> (kind_holds (va_order x a ! i) f \<longleftrightarrow> p)"
    and "i < length (va_equal x a) \<Longrightarrow> lit_true T R (lit_new (eq_base a + word_of_nat i) p) f \<longleftrightarrow> (kind_holds (va_equal x a ! i) f \<longleftrightarrow> p)"
    and "entry_shape a"
proof -
  have A: "table_ok T" "var_entry T x = Some a" "va_active a" using assms by (simp_all add: active_entry_def)
  show "i < length (va_order x a) \<Longrightarrow> lit_true T R (lit_new (ge_base a + word_of_nat i) p) f \<longleftrightarrow> (kind_holds (va_order x a ! i) f \<longleftrightarrow> p)"
    using in_table(1) [OF A, of i R] lit_true_pack by blast
  show "i < length (va_equal x a) \<Longrightarrow> lit_true T R (lit_new (eq_base a + word_of_nat i) p) f \<longleftrightarrow> (kind_holds (va_equal x a ! i) f \<longleftrightarrow> p)"
    using in_table(2) [OF A, of i R] lit_true_pack by blast
  show "entry_shape a" using A(1,2) by (auto simp: table_ok_def var_entry_def split: if_splits)
qed

text \<open>What a lookup gives: a well-formed registry that extends the old one, and the meaning.\<close>

definition gives :: "atom_table \<Rightarrow> lazy_atoms \<Rightarrow> var_atoms \<Rightarrow> var_id \<Rightarrow> (int \<Rightarrow> bool) \<Rightarrow> lit_or_const \<times> lazy_atoms \<Rightarrow> bool" where
  "gives T R a x P = (\<lambda>(r, R'). registry_ok (length (at_decode T)) R' \<and> extends R R' \<and>
     (\<forall>f. in_root a (f x) \<longrightarrow> (loc_true T R' r f \<longleftrightarrow> P (f x))))"

lemma givesI:
  "active_entry T R x a \<Longrightarrow> (\<And>f. in_root a (f x) \<Longrightarrow> loc_true T R r f \<longleftrightarrow> P (f x)) \<Longrightarrow> gives T R a x P (r, R)"
  "active_entry T R x a \<Longrightarrow> interned kind R = Some (r, R') \<Longrightarrow> (\<And>f. in_root a (f x) \<Longrightarrow> kind_holds kind f \<longleftrightarrow> P (f x)) \<Longrightarrow> gives T R a x P (r, R')"
  using interned_ok [of T R kind r R'] by (auto simp: gives_def active_entry_def)

lemma ge_lit_ok:
  assumes A: "active_entry T R x a" and g: "ge_lit x k a R = Some res"
  shows "gives T R a x (\<lambda>y. k \<le> y) res"
proof -
  note at = table_at(1) [OF A, where p = True, folded lit_positive_def]
  have sh: "entry_shape a" by (rule table_at(3) [OF A])
  show ?thesis
  proof (cases "va_layout a")
    case SignLayout
    have o: "va_order x a = [AGe x 1]" by (simp add: va_order_def SignLayout)
    have "res = (if k \<le> - 1 then LTrue else if k > 1 then LFalse else ALit (lit_positive (ge_base a)), R)" using g SignLayout by (simp add: ge_lit_def)
    then show ?thesis
      using at [of 0] by (auto simp: o in_root_def SignLayout intro!: givesI(1) [OF A])
  next
    case SpanLayout
    have o: "va_order x a = map (AGe x) [va_lo a + 1..va_hi a]" by (simp add: va_order_def SpanLayout)
    have r: "res = (if k \<le> va_lo a then LTrue else if k > va_hi a then LFalse else ALit (lit_positive (ge_base a + word_of_int (k - (va_lo a + 1)))), R)"
      using g SpanLayout by (simp add: ge_lit_def)
    have "loc_true T R (ALit (lit_positive (ge_base a + word_of_int (k - (va_lo a + 1))))) f \<longleftrightarrow> k \<le> f x" if "va_lo a < k" "k \<le> va_hi a" for f
    proof -
      have i: "word_of_int (k - (va_lo a + 1)) = (word_of_nat (nat (k - (va_lo a + 1))) :: atom)" using that by simp
      have "nat (k - (va_lo a + 1)) < length (va_order x a)" using that by (simp add: o)
      from at [OF this, of f] show ?thesis using that unfolding i by (simp add: o)
    qed
    then show ?thesis unfolding r by (intro givesI(1) [OF A]) (auto simp: in_root_def SpanLayout)
  next
    case SparseLayout
    obtain vs where vs: "sparse_values a = Some vs" "sorted_wrt (<) vs" using sh by (auto simp: entry_shape_def support_ok_def SparseLayout)
    have o: "va_order x a = map (AGe x) (drop 1 vs)" by (simp add: va_order_def SparseLayout vs)
    let ?i = "partition_point vs k"
    have r: "res = (if ?i = 0 then LTrue else if ?i = length vs then LFalse else ALit (lit_positive (ge_base a + word_of_nat (?i - 1))), R)"
      using g by (simp add: ge_lit_def SparseLayout vs Let_def)
    note P = partition_cases [OF vs(2), where k = k]
    have "loc_true T R (ALit (lit_positive (ge_base a + word_of_nat (?i - 1)))) f \<longleftrightarrow> k \<le> f x"
      if "?i \<noteq> 0" "?i \<noteq> length vs" "f x \<in> set vs" for f
    proof -
      have l: "?i < length vs" using that(2) partition_le [of vs k] by simp
      then have "?i - 1 < length (va_order x a)" using that(1) by (simp add: o)
      from at [OF this, of f] show ?thesis using that P(3) [OF that(3,2)] l by (simp add: o)
    qed
    then show ?thesis unfolding r by (intro givesI(1) [OF A]) (use P in \<open>auto simp: in_root_def SparseLayout vs\<close>)
  next
    case LazyLayout
    have g': "(if k \<le> va_lo a then Some (LTrue, R) else if k > va_hi a then Some (LFalse, R) else interned (AGe x (as_i32 k)) R) = Some res"
      using g by (simp add: ge_lit_def LazyLayout)
    show ?thesis
    proof (cases "va_lo a < k \<and> k \<le> va_hi a")
      case True
      then have "in_i32 k" using sh by (auto simp: entry_shape_def in_i32_def)
      then show ?thesis using True g' by (cases res) (auto simp: as_i32_id intro!: givesI(2) [OF A])
    next
      case False
      have "res = (if k \<le> va_lo a then LTrue else LFalse, R)" using False g' by (auto split: if_splits)
      then show ?thesis using False by (auto simp: in_root_def LazyLayout intro!: givesI(1) [OF A])
    qed
  next
    case LazySparseLayout
    obtain vs where vs: "sparse_values a = Some vs" "sorted_wrt (<) vs" "support_ok vs (va_lo a) (va_hi a)"
      using sh by (auto simp: entry_shape_def support_ok_def LazySparseLayout)
    let ?i = "partition_point vs k"
    note P = partition_cases [OF vs(2), where k = k] and B = support_bounds [OF vs(3)]
    have g': "(if k \<le> va_lo a then Some (LTrue, R) else if k > va_hi a then Some (LFalse, R)
        else if ?i = 0 then Some (LTrue, R) else if ?i = length vs then Some (LFalse, R) else interned (AGe x (vs ! ?i)) R) = Some res"
      using g unfolding ge_lit_def LazySparseLayout vs(1) Let_def Option.bind.simps by (simp only: var_layout.case)
    show ?thesis
    proof (cases "va_lo a < k \<and> k \<le> va_hi a \<and> ?i \<noteq> 0 \<and> ?i \<noteq> length vs")
      case True
      then show ?thesis using g' P(3) by (cases res) (auto simp: in_root_def LazySparseLayout vs intro!: givesI(2) [OF A])
    next
      case False
      have r: "res = (if k \<le> va_lo a then LTrue else if k > va_hi a then LFalse else if ?i = 0 then LTrue else LFalse, R)"
        using False g' by (auto split: if_splits)
      have "k \<le> y \<longleftrightarrow> k \<le> va_lo a \<or> (k \<le> va_hi a \<and> ?i = 0)" if "y \<in> set vs" for y
        using B [OF that] P(1,2) [OF that] False by auto
      then show ?thesis unfolding r by (intro givesI(1) [OF A]) (auto simp: in_root_def LazySparseLayout vs)
    qed
  qed
qed

lemma eq_lit_ok:
  assumes A: "active_entry T R x a" and g: "eq_lit x v a R = Some res"
  shows "gives T R a x (\<lambda>y. y = v) res"
proof -
  note at = table_at(2) [OF A, where p = True, folded lit_positive_def]
  have sh: "entry_shape a" by (rule table_at(3) [OF A])
  show ?thesis
  proof (cases "va_layout a")
    case SignLayout
    have o: "va_order x a = [AGe x 1]" by (simp add: va_order_def SignLayout)
    have "res = (if v = - 1 then ALit (lit_negative (ge_base a)) else if v = 1 then ALit (lit_positive (ge_base a)) else LFalse, R)"
      using g by (simp add: eq_lit_def SignLayout)
    then show ?thesis
      using table_at(1) [OF A, of 0] by (auto simp: o in_root_def SignLayout lit_positive_def lit_negative_def intro!: givesI(1) [OF A])
  next
    case SpanLayout
    have o: "va_equal x a = map (AEq x) [va_lo a..va_hi a]" by (simp add: va_equal_def SpanLayout)
    have r: "res = (if v < va_lo a \<or> v > va_hi a then LFalse else ALit (lit_positive (eq_base a + word_of_int (v - va_lo a))), R)"
      using g by (simp add: eq_lit_def SpanLayout)
    have "loc_true T R (ALit (lit_positive (eq_base a + word_of_int (v - va_lo a)))) f \<longleftrightarrow> f x = v" if "va_lo a \<le> v" "v \<le> va_hi a" for f
    proof -
      have i: "word_of_int (v - va_lo a) = (word_of_nat (nat (v - va_lo a)) :: atom)" using that by simp
      have "nat (v - va_lo a) < length (va_equal x a)" using that by (simp add: o)
      from at [OF this, of f] show ?thesis using that unfolding i by (simp add: o)
    qed
    then show ?thesis unfolding r by (intro givesI(1) [OF A]) (auto simp: in_root_def SpanLayout)
  next
    case SparseLayout
    obtain vs where vs: "sparse_values a = Some vs" "sorted_wrt (<) vs" using sh by (auto simp: entry_shape_def support_ok_def SparseLayout)
    have o: "va_equal x a = map (AEq x) vs" by (simp add: va_equal_def SparseLayout vs)
    have r: "res = (case binary_search vs v of Some i \<Rightarrow> ALit (lit_positive (eq_base a + word_of_nat i)) | None \<Rightarrow> LFalse, R)"
      using g by (simp add: eq_lit_def SparseLayout vs)
    note B = binary_search_ok [OF vs(2), where v = v]
    show ?thesis
    proof (cases "binary_search vs v")
      case None
      then show ?thesis unfolding r by (intro givesI(1) [OF A]) (use B(1) in \<open>auto simp: in_root_def SparseLayout vs\<close>)
    next
      case (Some i)
      then have i: "i < length (va_equal x a)" "vs ! i = v" using B(2) by (simp_all add: o)
      have "loc_true T R (ALit (lit_positive (eq_base a + word_of_nat i))) f \<longleftrightarrow> f x = v" for f using at [OF i(1), of f] i by (simp add: o)
      then show ?thesis using Some unfolding r by (intro givesI(1) [OF A]) simp
    qed
  next
    case LazyLayout
    have g': "(if v < va_lo a \<or> v > va_hi a then Some (LFalse, R) else interned (AEq x v) R) = Some res"
      using g by (simp add: eq_lit_def LazyLayout)
    show ?thesis
    proof (cases "v < va_lo a \<or> v > va_hi a")
      case True
      then have "res = (LFalse, R)" using g' by auto
      then show ?thesis using True by (auto simp: in_root_def LazyLayout intro!: givesI(1) [OF A])
    next
      case False
      then show ?thesis using g' by (cases res) (auto intro!: givesI(2) [OF A])
    qed
  next
    case LazySparseLayout
    obtain vs where vs: "sparse_values a = Some vs" "sorted_wrt (<) vs" "support_ok vs (va_lo a) (va_hi a)"
      using sh by (auto simp: entry_shape_def support_ok_def LazySparseLayout)
    note B = binary_search_ok(1) [OF vs(2), where v = v] and S = support_bounds [OF vs(3)]
    have g': "(if v < va_lo a \<or> v > va_hi a then Some (LFalse, R)
        else if binary_search vs v = None then Some (LFalse, R) else interned (AEq x v) R) = Some res"
      using g unfolding eq_lit_def LazySparseLayout vs(1) Let_def Option.bind.simps by (simp only: var_layout.case)
    show ?thesis
    proof (cases "v \<in> set vs")
      case True
      then have "interned (AEq x v) R = Some res" using g' B S [of v] by (auto split: if_splits)
      then show ?thesis by (cases res) (auto intro!: givesI(2) [OF A])
    next
      case False
      then have "res = (LFalse, R)" using g' B by (auto split: if_splits)
      then show ?thesis using False by (auto simp: in_root_def LazySparseLayout vs intro!: givesI(1) [OF A])
    qed
  qed
qed

section \<open>Lookups that do not allocate\<close>

lemma known_interned: "known kind R = Some r \<longleftrightarrow> interned kind R = Some (r, R)"
proof (cases "la_ids R kind")
  case None
  have "R' \<noteq> R" if "intern kind R = Some (b, R')" for b R'
    using that None by (auto simp: intern_def Let_def dest: arg_cong [where f = la_decode] split: option.splits if_splits)
  then show ?thesis using None by (auto simp: known_def interned_def)
qed (auto simp: known_def interned_def intern_def)

lemma sparse_shape:
  assumes "active_entry T R x a" "sparse_layout (va_layout a)"
  obtains vs where "sparse_values a = Some vs" "sorted_wrt (<) vs" "support_ok vs (va_lo a) (va_hi a)"
  using table_at(3) [OF assms(1)] assms(2) by (auto simp: entry_shape_def support_ok_def)

lemma partition_inside:
  assumes "support_ok vs lo hi" "lo < k" "k \<le> hi"
  shows "0 < partition_point vs k" "partition_point vs k < length vs"
proof -
  have s: "sorted_wrt (<) vs" "lo \<in> set vs" "hi \<in> set vs" using assms(1) by (auto simp: support_ok_def)
  show "0 < partition_point vs k" using partition_cases(1) [OF s(1,2), of k] assms(2) by fastforce
  show "partition_point vs k < length vs" using partition_sorted [OF s(1,3), of k] assms(3) by simp
qed

lemma eager_unchanged:
  assumes "va_layout a \<noteq> LazyLayout" "va_layout a \<noteq> LazySparseLayout"
  shows "(\<exists>R'. ge_lit x k a R = Some (r, R')) \<longleftrightarrow> ge_lit x k a R = Some (r, R)"
    and "(\<exists>R'. eq_lit x v a R = Some (r, R')) \<longleftrightarrow> eq_lit x v a R = Some (r, R)"
  using assms by (auto simp: ge_lit_def eq_lit_def Let_def split: var_layout.splits option.splits)

text \<open>A lookup that does not allocate finds a literal exactly when the allocating one would not allocate.\<close>

lemma ge_existing_iff:
  assumes A: "active_entry T R x a"
  shows "ge_i64_existing T x k R = Some (Some r) \<longleftrightarrow> ge_i64 T x k R = Some (r, R)"
proof -
  have e: "var_entry T x = Some a" "va_active a" using A by (simp_all add: active_entry_def)
  have ge: "ge_i64 T x k R = ge_lit x k a R" by (simp add: ge_i64_def e)
  show ?thesis
  proof (cases "va_layout a")
    case LazyLayout
    then have "ge_i64_existing T x k R = (if k \<le> va_lo a then Some (Some LTrue) else if k > va_hi a then Some (Some LFalse) else Some (known (AGe x (as_i32 k)) R))"
      by (auto simp: ge_i64_existing_def e lazy_layout_def)
    then show ?thesis unfolding ge by (simp add: ge_lit_def LazyLayout known_interned)
  next
    case LazySparseLayout
    then obtain vs where vs: "sparse_values a = Some vs" "sorted_wrt (<) vs" "support_ok vs (va_lo a) (va_hi a)"
      using sparse_shape [OF A] by auto
    have "ge_i64_existing T x k R = (if k \<le> va_lo a then Some (Some LTrue) else if k > va_hi a then Some (Some LFalse)
        else Some (known (AGe x (vs ! partition_point vs k)) R))"
      using partition_inside [OF vs(3), of k] by (auto simp: ge_i64_existing_def e lazy_layout_def LazySparseLayout vs(1))
    moreover have "ge_lit x k a R = (if k \<le> va_lo a then Some (LTrue, R) else if k > va_hi a then Some (LFalse, R)
        else interned (AGe x (vs ! partition_point vs k)) R)"
      using partition_inside [OF vs(3), of k] by (auto simp: ge_lit_def LazySparseLayout vs(1))
    ultimately show ?thesis unfolding ge by (simp add: known_interned)
  qed (auto simp: ge_i64_existing_def e lazy_layout_def ge eager_unchanged)
qed

lemma eq_existing_iff:
  assumes A: "active_entry T R x a"
  shows "eq_existing T x v R = Some (Some r) \<longleftrightarrow> lit_eq T x v R = Some (r, R)"
proof -
  have e: "var_entry T x = Some a" "va_active a" using A by (simp_all add: active_entry_def)
  have eq: "lit_eq T x v R = eq_lit x v a R" by (simp add: lit_eq_def e)
  show ?thesis
  proof (cases "va_layout a")
    case LazyLayout
    then have "eq_existing T x v R = (if v < va_lo a \<or> v > va_hi a then Some (Some LFalse) else Some (known (AEq x v) R))"
      by (auto simp: eq_existing_def e lazy_layout_def)
    then show ?thesis unfolding eq by (simp add: eq_lit_def LazyLayout known_interned)
  next
    case LazySparseLayout
    then obtain vs where vs: "sparse_values a = Some vs" using sparse_shape [OF A] by auto
    have "eq_existing T x v R = (if v < va_lo a \<or> v > va_hi a \<or> binary_search vs v = None then Some (Some LFalse) else Some (known (AEq x v) R))"
      by (auto simp: eq_existing_def e lazy_layout_def LazySparseLayout vs)
    moreover have "eq_lit x v a R = (if v < va_lo a \<or> v > va_hi a \<or> binary_search vs v = None then Some (LFalse, R) else interned (AEq x v) R)"
      by (auto simp: eq_lit_def LazySparseLayout vs)
    ultimately show ?thesis unfolding eq by (simp add: known_interned)
  qed (auto simp: eq_existing_def e lazy_layout_def eq eager_unchanged)
qed

end
