(* ===== verification/StoreSpec.thy ===== *)
theory StoreSpec imports Building begin

text \<open>
  What the store promises: it refines a vector of sets with saved vectors, a mutator removes
  exactly what it says, wakes exactly who subscribed to what happened and logs what it did,
  the queue serves the cheapest band first, and lists are sets of items between a required
  and a possible one.
\<close>

section \<open>Sample stores of the witnesses\<close>

text \<open>Two variables with the values 0 to 3 and 2 to 5, and a propagator subscribed to the first.\<close>

definition pair_store :: store where
  "pair_store = (case new_var_range 0 3 store_new of None \<Rightarrow> store_new
     | Some (st, _) \<Rightarrow> (case new_var_range 2 5 st of None \<Rightarrow> store_new | Some (st', _) \<Rightarrow> st'))"

definition watched_store :: store where
  "watched_store = set_explain True (subscribe 0 0 FixEvent (snd (alloc_prop pair_store)))"

lemma pair_store_ok: "good pair_store" "st_view pair_store = [{0..3}, {2..5}]" "length (domains pair_store) = 2" "alive pair_store"
proof -
  have i: "in_i32 0" "in_i32 3" "in_i32 2" "in_i32 5" "3 - 0 < i32_max" "5 - 2 < i32_max" by code_simp+
  have "new_var_range 0 3 store_new \<noteq> None" by code_simp
  then obtain st v where a: "new_var_range 0 3 store_new = Some (st, v)" by fast
  note A = good_new_var [OF good_new(1) i(1,2,5) a]
  have "new_var_range 2 5 (fst (the (new_var_range 0 3 store_new))) \<noteq> None" by code_simp
  then obtain st' w where b: "new_var_range 2 5 st = Some (st', w)" using a by fastforce
  note B = good_new_var [OF A(1) i(3,4,6) b]
  have p: "pair_store = st'" by (simp add: pair_store_def a b)
  have "st_view store_new = []" by (simp add: st_view_def store_new_def)
  then show "good pair_store" and v: "st_view pair_store = [{0..3}, {2..5}]" and n: "length (domains pair_store) = 2"
    using A B good_new(2) by (simp_all add: p)
  have "vals pair_store 0 = {0..3}" "vals pair_store 1 = {2..5}"
    using v n view_nth [of 0 pair_store] view_nth [of 1 pair_store] by simp_all
  then show "alive pair_store" using n by (simp add: alive_def less_2_cases_iff)
qed

lemma pair_store_vals: "vals pair_store 0 = {0..3}" "vals pair_store 1 = {2..5}"
  using pair_store_ok(2,3) view_nth [of 0 pair_store] view_nth [of 1 pair_store] by simp_all

lemma watched_store_ok:
  "good watched_store" "st_view watched_store = [{0..3}, {2..5}]" "length (domains watched_store) = 2"
  "subs watched_store = [[(FixEvent, 0)], []]" "explain watched_store" "current watched_store = None" "events watched_store = []"
proof -
  obtain me st1 where al: "alloc_prop pair_store = (me, st1)" by fastforce
  have g: "sched_ok pair_store" "links_ok pair_store" "doms_ok pair_store" "all_roomy pair_store" using pair_store_ok(1) by (simp_all add: good_def)
  note A = alloc_ok [OF g(1,2) al]
  have "length (enqueued pair_store) = 0" by code_simp
  then have me: "me = 0" using A(3) by simp
  have len: "length (domains st1) = 2" "0 < length (enqueued st1)" "0 < length (scopes st1)"
    using A pair_store_ok(3) al by (simp_all add: sched_ok_def alloc_prop_def)
  have w: "watched_store = (subscribe 0 0 FixEvent st1)\<lparr>explain := True\<rparr>" by (simp add: watched_store_def al set_explain_def)
  have l: "links_ok (subscribe 0 0 FixEvent st1)" using subscribe_ok [OF A(2), of 0 0 FixEvent] len by simp
  have d: "domains watched_store = domains pair_store" "s_trail watched_store = s_trail pair_store" by (simp_all add: w A)
  note dc = doms_ok_cong [OF d]
  have s: "sched_ok watched_store" using A(1) by (simp add: w sched_ok_def queued_def)
  have "links_ok watched_store" using l by (simp add: w links_ok_def)
  then show "good watched_store" using g s dc by (simp add: good_def all_roomy_def d)
  show "st_view watched_store = [{0..3}, {2..5}]" "length (domains watched_store) = 2" using dc pair_store_ok by (simp_all add: d)
  show "subs watched_store = [[(FixEvent, 0)], []]" "explain watched_store" "current watched_store = None" "events watched_store = []"
    by code_simp+
qed

lemma watched_store_vals: "vals watched_store 0 = {0..3}" "vals watched_store 1 = {2..5}" "alive watched_store"
proof -
  show v: "vals watched_store 0 = {0..3}" "vals watched_store 1 = {2..5}"
    using watched_store_ok(2,3) view_nth [of 0 watched_store] view_nth [of 1 watched_store] by simp_all
  then show "alive watched_store" using watched_store_ok(3) by (simp add: alive_def less_2_cases_iff)
qed

section \<open>Domains\<close>

text \<open>
  C7. The store refines a vector of sets with a stack of saved vectors: any sequence of
  mutations of its variables, level pushes and pops acts on all variables and on the saved
  levels as the set operations do, so that a pop restores every domain.
\<close>

theorem store_refines_sets:
  assumes "doms_ok st" "run_cmds store_can store_op push_level pop_level cs st = Some st'"
  shows "doms_ok st' \<and> spec_cmds sets_op cs (st_view st, st_saved st) = Some (st_view st', st_saved st')"
  using store.run_refines [OF assms] .

definition store_cmds :: "(var_id \<times> dom_op) cmd list" where
  "store_cmds = [Op (0, Remove 1), Push, Op (0, Fix 3), Op (1, Below 4), Pop, Op (1, Fix 2)]"

theorem store_refines_sets_witness:
  "\<exists>st'. run_cmds store_can store_op push_level pop_level store_cmds pair_store = Some st' \<and> st_view st' = [{0, 2, 3}, {2}]"
proof -
  have "run_cmds store_can store_op push_level pop_level store_cmds pair_store \<noteq> None" by code_simp
  then obtain st' where run: "run_cmds store_can store_op push_level pop_level store_cmds pair_store = Some st'" by blast
  have ok: "doms_ok pair_store" using pair_store_ok(1) by (simp add: good_def)
  have "spec_cmds sets_op store_cmds (st_view pair_store, st_saved pair_store) = Some (st_view st', st_saved st')"
    using store_refines_sets [OF ok run] by simp
  moreover have "{0..3} - {1} = {0, 2, 3 :: int}" by auto
  ultimately have "st_view st' = [{0, 2, 3}, {2}]"
    unfolding pair_store_ok(2) store_cmds_def by (simp add: sets_op_def)
  with run show ?thesis by blast
qed

text \<open>
  A mutator of the store keeps its invariant, changes one domain exactly as the set
  operation does, leaves the saved levels alone and fails exactly when the domain would
  become empty.
\<close>

theorem mutation_exact:
  assumes "good st" "v < length (domains st)" "vals st v \<noteq> {}" "in_i32 (op_arg c)"
  shows "case st_apply v c st of (st', r) \<Rightarrow> good st' \<and> st_view st' = (st_view st)[v := set_apply c (vals st v)] \<and>
    st_saved st' = st_saved st \<and> r = (if fails c (vals st v) then Err Inconsistency else Ok ())"
  using st_apply_evolves [OF assms] by (cases "st_apply v c st") (simp add: evolves_def)

theorem mutation_exact_witness: "snd (st_apply 1 (Above 1) pair_store) = Err Inconsistency"
proof -
  have "in_i32 (op_arg (Above 1))" by code_simp
  moreover have "{x \<in> {2..5}. x \<le> 1} = ({} :: int set)" by auto
  ultimately show ?thesis
    using mutation_exact [OF pair_store_ok(1), of 1 "Above 1"] pair_store_ok(3) pair_store_vals by (auto split: prod.splits)
qed

section \<open>Scheduling\<close>

text \<open>
  C22. A mutator queues exactly the propagators that subscribed to an event that happened to
  the variable, the running one excepted, and unqueues none: a \<open>Fix\<close> subscriber when one
  value is left, a \<open>BoundChange\<close> subscriber when a bound moved, a \<open>DomainChange\<close> subscriber on
  any change.
\<close>

theorem mutation_wakes:
  assumes "good st" "v < length (domains st)" "vals st v \<noteq> {}" "in_i32 (op_arg c)"
  shows "case st_apply v c st of (st', r) \<Rightarrow> queued st' q \<longleftrightarrow> queued st q \<or> (r = Ok () \<and> current st \<noteq> Some q \<and>
    (\<exists>e. (e, q) \<in> set (subs st ! v) \<and> occurs e (vals st v) (set_apply c (vals st v))))"
proof -
  have "doms_ok st" "sched_ok st" "links_ok st" using assms(1) by (simp_all add: good_def)
  from st_apply_sched(6) [OF this assms(2,3) good_can [OF assms], of "fst (st_apply v c st)" "snd (st_apply v c st)" q]
  show ?thesis by (simp add: split_beta)
qed

theorem mutation_wakes_witness:
  "queued (fst (st_apply 0 (Fix 2) watched_store)) 0 \<and> \<not> queued (fst (st_apply 0 (Below 2) watched_store)) 0"
proof -
  have i: "in_i32 (op_arg (Fix 2))" "in_i32 (op_arg (Below 2))" by code_simp+
  have n: "0 < length (domains watched_store)" "vals watched_store 0 \<noteq> {}" by (simp_all add: watched_store_ok watched_store_vals)
  note W = mutation_wakes [OF watched_store_ok(1) n]
  have q: "\<not> queued watched_store 0" by code_simp
  have r: "snd (st_apply 0 (Fix 2) watched_store) = Ok ()" by code_simp
  have b: "{x \<in> {0..3}. 2 \<le> x} = {2, 3 :: int}" by auto
  have "card {0..3 :: int} \<noteq> card {2 :: int}" by simp
  then have ne: "{2} \<noteq> {0..3 :: int}" by metis
  have "queued (fst (st_apply 0 (Fix 2) watched_store)) 0"
    using W [OF i(1), of 0] r ne by (auto simp: watched_store_ok watched_store_vals split: prod.splits)
  moreover have "\<not> queued (fst (st_apply 0 (Below 2) watched_store)) 0"
    using W [OF i(2), of 0] q unfolding watched_store_vals set_apply.simps b
    by (auto simp: watched_store_ok split: prod.splits)
  ultimately show ?thesis ..
qed

text \<open>
  C33. The queue serves the cheapest band that has anyone, first in first out, returns only
  queued propagators and nothing only when nobody is queued; what it will return is what
  \<open>peek\<close> shows.
\<close>

theorem dequeue_by_band:
  assumes "sched_ok st"
  shows "case dequeue st of
      (None, st') \<Rightarrow> st' = st \<and> (\<forall>p. \<not> queued st p)
    | (Some p, st') \<Rightarrow> sched_ok st' \<and> peek_queue st = Some p \<and> (\<forall>q. queued st' q \<longleftrightarrow> queued st q \<and> q \<noteq> p) \<and>
        (\<exists>k < nbands. (\<forall>j < k. queues st ! j = []) \<and> queues st ! k = p # queues st' ! k \<and>
          queues st' = (queues st)[k := tl (queues st ! k)])"
proof (cases "fst (dequeue st)")
  case None
  then show ?thesis using dequeue_none [of st] dequeue_none_same [of st] by (cases "dequeue st") auto
next
  case (Some p)
  then obtain st' where d: "dequeue st = (Some p, st')" by (cases "dequeue st") auto
  show ?thesis using dequeue_ok [OF assms d] peek_is_next [of st] by (auto simp: d)
qed

definition busy_store :: store where
  "busy_store = enqueue 0 (enqueue 1 (set_priority 1 Cheap (snd (alloc_prop (snd (alloc_prop store_new))))))"

theorem dequeue_by_band_witness: "fst (dequeue busy_store) = Some 1 \<and> \<not> queued (snd (dequeue busy_store)) 1"
proof -
  have l: "length (queues busy_store) = nbands" "length (prio busy_store) = 2" "length (enqueued busy_store) = 2"
    "length (scopes busy_store) = 2" "distinct (concat (queues busy_store))" "concat (queues busy_store) = [1, 0]"
    "enqueued busy_store = [True, True]"
    by code_simp+
  have "queued busy_store p \<longleftrightarrow> p < 2 \<and> [True, True] ! p" for p by (auto simp: queued_def l(6) less_2_cases_iff)
  then have "sched_ok busy_store" using l by (simp add: sched_ok_def numeral_2_eq_2)
  note D = dequeue_by_band [OF this]
  have "fst (dequeue busy_store) = Some 1" by code_simp
  then show ?thesis using D by (cases "dequeue busy_store") auto
qed

section \<open>Reasons\<close>

text \<open>A sequence of mutations, each plain or with an explicit reason, up to the first failure.\<close>

type_synonym mutation = "var_id \<times> dom_op \<times> premise list option"

fun mutate_all :: "mutation list \<Rightarrow> store \<Rightarrow> unit outcome" where
  "mutate_all [] st = (st, Ok ())"
| "mutate_all ((v, c, why) # ms) st =
     (case (case why of None \<Rightarrow> st_apply v c st | Some w \<Rightarrow> apply_because v c w st) of
        (st', Err e) \<Rightarrow> (st', Err e)
      | (st', Ok _) \<Rightarrow> mutate_all ms st')"

fun expected_log :: "premise list \<Rightarrow> mutation list \<Rightarrow> int set list \<Rightarrow> engine_event list" where
  "expected_log injected [] D = []"
| "expected_log injected ((v, c, why) # ms) D =
     (if set_apply c (D ! v) = D ! v then expected_log injected ms D
      else \<lparr>ee_primary = op_event v c,
            ee_cause = (case why of None \<Rightarrow> ScopeCause | Some w \<Rightarrow> Premises (w @ injected))\<rparr>
           # expected_log injected ms (D[v := set_apply c (D ! v)]))"

lemma stage_evolves:
  assumes "good st" "v < length (domains st)" "vals st v \<noteq> {}" "in_i32 (op_arg c)" "apply_because v c why st = (st', r)"
  shows "good st'" "st_view st' = (st_view st)[v := set_apply c (vals st v)]"
    "r = (if fails c (vals st v) then Err Inconsistency else Ok ())"
proof -
  have "good (stage why st)" using assms(1) by (simp add: good_def all_roomy_def)
  from st_apply_evolves [OF this _ _ assms(4), of v st' r] assms(2,3,5)
  show "good st'" "st_view st' = (st_view st)[v := set_apply c (vals st v)]"
    "r = (if fails c (vals st v) then Err Inconsistency else Ok ())"
    by (simp_all add: apply_because_staged evolves_def)
qed

lemma view_alive: "alive st \<longleftrightarrow> {} \<notin> set (st_view st)"
  by (auto simp: alive_def in_set_conv_nth)

lemma apply_force: "st_apply v c st = (st', r) \<Longrightarrow> force_scope_reasons st' = force_scope_reasons st"
proof -
  have [simp]: "force_scope_reasons (notify v b b' s) = force_scope_reasons s" for b b' s
    using rescheduled_notify [of s v b b'] by (auto simp: rescheduled_def)
  have [simp]: "force_scope_reasons (emit e x s) = force_scope_reasons s" for e x s by (simp add: emit_def)
  have [simp]: "force_scope_reasons (set_domain v d t s) = force_scope_reasons s" for d t s by (simp add: set_domain_def)
  have ch: "force_scope_reasons (fst (changed_by v a b e x s)) = force_scope_reasons s" for a b e x s
    by (simp add: changed_by_def after_change_def Let_def)
  obtain cause st1 where cf: "cause_for (will_change c st v) st = (cause, st1)" by fastforce
  obtain d t r0 where d: "dom_run c (domains st1 ! v) (s_trail st1) = (d, t, r0)" by (metis prod_cases3)
  have "force_scope_reasons st1 = force_scope_reasons st" using unstaged_cause [OF cf] by (auto simp: unstaged_def)
  moreover assume "st_apply v c st = (st', r)"
  then have "st' = set_domain v d t st1 \<or> (\<exists>a b e x. st' = fst (changed_by v a b e x (set_domain v d t st1)))"
    by (cases r0) (auto simp: st_apply_mutate cf d Let_def split: if_splits, metis fst_conv)
  ultimately show ?thesis by (auto simp: ch)
qed

lemma mutate_step:
  assumes g: "good st" and al: "alive st" and ex: "explain st" and p: "pending_premises st = None" "\<not> force_scope_reasons st"
    and v: "v < length (domains st)" and i: "in_i32 (op_arg c)"
    and run: "(case why of None \<Rightarrow> st_apply v c st | Some w \<Rightarrow> apply_because v c w st) = (st', Ok u)"
  shows "good st' \<and> alive st' \<and> explain st' \<and> pending_premises st' = None \<and> \<not> force_scope_reasons st' \<and>
    length (domains st') = length (domains st) \<and> injected_premises st' = injected_premises st \<and> \<not> fails c (vals st v) \<and>
    st_view st' = (st_view st)[v := set_apply c (vals st v)] \<and>
    events st' = events st @ logged st (case why of None \<Rightarrow> ScopeCause | Some w \<Rightarrow> Premises (w @ injected_premises st)) v c"
proof -
  let ?st = "case why of None \<Rightarrow> st | Some w \<Rightarrow> stage w st"
  have run': "st_apply v c ?st = (st', Ok u)" using run by (cases why) (simp_all add: apply_because_staged)
  have g': "good ?st" using g by (cases why) (simp_all add: good_def all_roomy_def)
  have f: "vals ?st = vals st" "domains ?st = domains st" "st_view ?st = st_view st" "injected_premises ?st = injected_premises st"
    "events ?st = events st" "force_scope_reasons ?st = force_scope_reasons st" "explain ?st = explain st"
    by (cases why; simp)+
  have ne: "vals ?st v \<noteq> {}" using al v by (simp add: alive_def f)
  have v': "v < length (domains ?st)" using v by (simp add: f)
  note E = st_apply_evolves [OF g' v' ne i run'] and ok = g' [unfolded good_def]
  note C = good_can [OF g' v' ne i]
  note L = st_apply_logs [OF _ v' ne C run'] and S = st_apply_sched [OF _ _ _ v' ne C run'] and M = st_apply_ok [OF _ v' ne C run']
  have nf: "\<not> fails c (vals st v)" using E(3) by (auto simp: f split: if_splits)
  then have ne2: "set_apply c (vals st v) \<noteq> {}" by (cases c) auto
  have len: "length (domains st') = length (domains st)" using E(1) by (simp add: evolves_def f)
  have al': "alive st'" using al v ne2 E(2) unfolding view_alive by (auto simp: f dest: set_update_subset_insert [THEN subsetD])
  have fo: "\<not> force_scope_reasons st'" using apply_force [OF run'] p(2) by (simp add: f)
  have "events st' = events st @ logged st (case why of None \<Rightarrow> ScopeCause | Some w \<Rightarrow> Premises (w @ injected_premises st)) v c"
    using L(1) ok p by (cases why) (simp_all add: logged_def)
  then show ?thesis
    using E(1,2) al' L(2,3) S(10) ok ex len nf fo by (simp add: evolves_def f)
qed

lemma mutate_all_logs:
  assumes "good st" "alive st" "explain st" "pending_premises st = None" "\<not> force_scope_reasons st"
    and "\<forall>(v, c, why) \<in> set ms. v < length (domains st) \<and> in_i32 (op_arg c)" "mutate_all ms st = (st', Ok ())"
  shows "events st' = events st @ expected_log (injected_premises st) ms (st_view st) \<and>
    replay (expected_log (injected_premises st) ms (st_view st)) (st_view st) = st_view st'"
  using assms
proof (induction ms arbitrary: st)
  case Nil
  then show ?case by (simp add: replay_def)
next
  case (Cons m ms)
  obtain v c why where m: "m = (v, c, why)" by (metis prod_cases3)
  let ?run = "case why of None \<Rightarrow> st_apply v c st | Some w \<Rightarrow> apply_because v c w st"
  let ?cause = "case why of None \<Rightarrow> ScopeCause | Some w \<Rightarrow> Premises (w @ injected_premises st)"
  obtain st1 r where run: "?run = (st1, r)" by fastforce
  then obtain u where r: "r = Ok u" using Cons.prems(7) by (cases r) (auto simp: m)
  have v: "v < length (domains st)" "in_i32 (op_arg c)" using Cons.prems(6) by (simp_all add: m)
  note S = mutate_step [OF Cons.prems(1-5) v run [unfolded r]]
  have rest: "mutate_all ms st1 = (st', Ok ())" using Cons.prems(7) run by (simp add: m r)
  have dom: "\<forall>(v, c, why) \<in> set ms. v < length (domains st1) \<and> in_i32 (op_arg c)" using Cons.prems(6) S by simp
  have IH: "events st' = events st1 @ expected_log (injected_premises st1) ms (st_view st1) \<and>
    replay (expected_log (injected_premises st1) ms (st_view st1)) (st_view st1) = st_view st'"
    by (rule Cons.IH [OF _ _ _ _ _ dom rest]) (use S in blast)+
  have e: "expected_log (injected_premises st) (m # ms) (st_view st) =
      logged st ?cause v c @ expected_log (injected_premises st1) ms (st_view st1)"
  proof (cases "set_apply c (vals st v) = vals st v")
    case True
    then have "st_view st1 = st_view st" using S v(1) list_update_id [of "st_view st" v] by simp
    then show ?thesis using S v(1) True by (simp add: m logged_def)
  next
    case False
    have vw: "st_view st1 = (st_view st)[v := set_apply c (vals st v)]" "injected_premises st1 = injected_premises st" "\<not> fails c (vals st v)"
      using S by simp_all
    show ?thesis using v(1) False Cons.prems(3) vw(3) unfolding vw(1,2) by (simp add: m logged_def split: option.splits)
  qed
  have "replay (logged st ?cause v c) (st_view st) = st_view st1"
    using replay_logged [OF Cons.prems(3) v(1)] S by simp
  then show ?case using IH S unfolding e by (simp add: replay_def)
qed

text \<open>
  C34. While explanations are on, the log records every change, in order and with its
  reason: the premises given, followed by the injected selector premises, or the scope of the
  propagator. Replaying the log on the domains before gives the domains after.
\<close>

theorem log_replays:
  assumes "good st" "alive st" "explain st" "pending_premises st = None" "\<not> force_scope_reasons st"
    and "\<forall>(v, c, why) \<in> set ms. v < length (domains st) \<and> in_i32 (op_arg c)" "mutate_all ms st = (st', Ok ())"
  shows "\<exists>log. events st' = events st @ log \<and> log = expected_log (injected_premises st) ms (st_view st) \<and>
    replay log (st_view st) = st_view st'"
  using mutate_all_logs [OF assms] by blast

definition sample_mutations :: "mutation list" where
  "sample_mutations = [(0, Below 2, Some [PLe 1 4]), (1, Above 9, None), (1, Fix 5, None)]"

theorem log_replays_witness:
  "events (fst (mutate_all sample_mutations watched_store)) =
     [\<lparr>ee_primary = GeTrue 0 2, ee_cause = Premises [PLe 1 4]\<rparr>, \<lparr>ee_primary = EqTrue 1 5, ee_cause = ScopeCause\<rparr>] \<and>
   st_view (fst (mutate_all sample_mutations watched_store)) = [{2, 3}, {5}]"
proof -
  have r: "snd (mutate_all sample_mutations watched_store) = Ok ()" by code_simp
  obtain st' where run: "mutate_all sample_mutations watched_store = (st', Ok ())" using r by (metis prod.collapse)
  have p: "pending_premises watched_store = None" "\<not> force_scope_reasons watched_store" "injected_premises watched_store = []"
    by code_simp+
  have i: "in_i32 2" "in_i32 9" "in_i32 5" by code_simp+
  have dom: "\<forall>(v, c, why) \<in> set sample_mutations. v < length (domains watched_store) \<and> in_i32 (op_arg c)"
    by (simp add: sample_mutations_def watched_store_ok i)
  have b: "{x \<in> {0..3}. 2 \<le> x} = {2, 3 :: int}" "{x \<in> {2..5}. x \<le> 9} = {2..5 :: int}" by auto
  have "0 \<in> {0..3 :: int}" "0 \<notin> {2, 3 :: int}" "2 \<in> {2..5 :: int}" "2 \<notin> {5 :: int}" by simp_all
  then have ne: "{2, 3} \<noteq> {0..3 :: int}" "{5} \<noteq> {2..5 :: int}" by metis+
  have "events st' = expected_log [] sample_mutations [{0..3}, {2..5}]"
    "replay (expected_log [] sample_mutations [{0..3}, {2..5}]) [{0..3}, {2..5}] = st_view st'"
    using log_replays [OF watched_store_ok(1) watched_store_vals(3) watched_store_ok(5) p(1,2) dom run]
    unfolding p watched_store_ok by auto
  moreover have s: "set_apply (Below 2) {0..3} = {2, 3}" "set_apply (Above 9) {2..5} = {2..5}" "set_apply (Fix 5) {2..5} = {5}"
    using b by simp_all
  moreover have "expected_log [] sample_mutations [{0..3}, {2..5}] =
      [\<lparr>ee_primary = GeTrue 0 2, ee_cause = Premises [PLe 1 4]\<rparr>, \<lparr>ee_primary = EqTrue 1 5, ee_cause = ScopeCause\<rparr>]"
    by (simp add: sample_mutations_def s ne del: set_apply.simps)
  moreover have "event_sem (GeTrue 0 2) [{0..3}, {2..5}] = [{2, 3}, {2..5}]" "event_sem (EqTrue 1 5) [{2, 3}, {2..5}] = [{2, 3}, {5}]"
    using b by simp_all
  ultimately show ?thesis by (simp add: run replay_def del: event_sem.simps)
qed

text \<open>
  C35. The premises of a domain hold, and among the values the variable was created with they
  admit exactly its current values, so that they explain anything that follows from the
  domain. The interruptible variant appends the same premises or nothing.
\<close>

theorem premises_pin_domain:
  assumes "doms_ok st" "v < length (domains st)" "vals st v \<noteq> {}"
  shows "\<exists>ps. domain_premises st v out = out @ ps \<and>
    (\<forall>p \<in> set ps. premise_var p = v \<and> premise_holds st p) \<and>
    (\<forall>x \<in> dom_root (domains st ! v). (\<forall>p \<in> set ps. allows p x) \<longleftrightarrow> x \<in> vals st v) \<and>
    (case domain_premises_until st v out stops of (out', fin, _) \<Rightarrow> out' = (if fin then out @ ps else out))"
proof -
  obtain ps where "domain_premises st v out = out @ ps" "\<forall>p \<in> set ps. premise_var p = v \<and> premise_holds st p"
    "\<forall>x \<in> dom_root (domains st ! v). (\<forall>p \<in> set ps. allows p x) \<longleftrightarrow> x \<in> vals st v"
    using domain_premises_pin [OF assms, of out] by blast
  then show ?thesis using premises_until_ok [of st v out stops] by (intro exI [of _ ps]) (auto split: prod.splits)
qed

definition holed_store :: store where
  "holed_store = fst (st_remove 0 1 pair_store)"

theorem premises_pin_domain_witness:
  "domain_premises holed_store 0 [] = [PGe 0 0, PLe 0 3, PNe 0 1] \<and> premise_holds holed_store (PNe 0 1)"
proof -
  have i: "in_i32 (op_arg (Remove 1))" by code_simp
  have s: "holed_store = fst (st_apply 0 (Remove 1) pair_store)" by (simp add: holed_store_def)
  have M: "good holed_store" "st_view holed_store = [{0..3} - {1}, {2..5}]"
    using mutation_exact [OF pair_store_ok(1) _ _ i, of 0] pair_store_vals pair_store_ok(2,3)
    unfolding s by (auto split: prod.splits)
  have n: "length (domains holed_store) = 2" using M(2) length_view [of holed_store] by simp
  have v: "vals holed_store 0 = {0..3} - {1}" using M(2) n view_nth [of 0 holed_store] by simp
  have "0 \<in> vals holed_store 0" by (simp add: v)
  then have "vals holed_store 0 \<noteq> {}" by blast
  moreover have "doms_ok holed_store" "0 < length (domains holed_store)" using M(1) n by (simp_all add: good_def)
  ultimately have "doms_ok holed_store" "0 < length (domains holed_store)" "vals holed_store 0 \<noteq> {}" by blast+
  from premises_pin_domain [OF this, of "[]" "[]"]
  obtain ps where ps: "domain_premises holed_store 0 [] = ps" "\<forall>p \<in> set ps. premise_var p = 0 \<and> premise_holds holed_store p" by auto
  have "domain_premises holed_store 0 [] = [PGe 0 0, PLe 0 3, PNe 0 1]" by code_simp
  with ps show ?thesis by auto
qed

section \<open>Lists\<close>

lemma new_members_ok:
  assumes "doms_ok st" "new_members k st = (st', ms)"
  shows "doms_ok st' \<and> st_view st' = st_view st @ replicate k {0, 1} \<and> ms = [length (domains st)..<length (domains st) + k] \<and>
    list_domains st' = list_domains st"
  using assms
proof (induction k arbitrary: st st' ms)
  case (Suc k)
  obtain st1 m where a: "new_bool st = (st1, m)" by fastforce
  obtain ms2 where b: "new_members k st1 = (st', ms2)" "ms = m # ms2" using Suc.prems(2) a by (auto split: prod.splits)
  note A = new_bool_ok [OF Suc.prems(1) a] and B = Suc.IH [OF new_bool_ok(1) [OF Suc.prems(1) a] b(1)]
  have n: "length (domains st1) = Suc (length (domains st))" using arg_cong [OF A(2), of length] by simp
  have "list_domains st1 = list_domains st" using a by (auto simp: new_bool_def push_var_def split: option.splits)
  then show ?case using A B n by (auto simp: b(2) upt_rec)
qed simp

text \<open>A new list requires nothing and may take any item of its universe.\<close>

lemma new_list_ok:
  assumes ok: "doms_ok st" and new: "new_list universe st = Some (st', l)"
  shows "doms_ok st'" "list_ok st' l" "required st' l = {}" "possible st' l = set universe"
proof -
  let ?k = "length universe" and ?n = "length (domains st)"
  have u: "distinct universe" "int ?k \<le> i32_max" using new by (simp_all add: new_list_def split: if_splits)
  obtain st1 ms where a: "new_members ?k st = (st1, ms)" by fastforce
  note A = new_members_ok [OF ok a]
  obtain st2 len where b: "new_var_range 0 (int ?k) st1 = Some (st2, len)" "push_list universe ms len st2 = (st', l)"
    using new u a by (auto simp: new_list_def)
  have i: "in_i32 0" "in_i32 (int ?k)" using u(2) by (simp_all add: in_i32_def i32_min_def i32_max_def)
  have ok1: "doms_ok st1" using A by simp
  note B = new_var_range_ok [OF ok1 i b(1)]
  have lst: "list_domains st2 = list_domains st1" using b(1) by (auto simp: new_var_range_def push_var_def split: option.splits)
  have l: "list_domains st' ! l = \<lparr>ld_universe = universe, ld_members = ms, ld_length = len\<rparr>"
    and d: "domains st' = domains st2" "s_trail st' = s_trail st2" using b(2) by (auto simp: push_list_def)
  note dc = doms_ok_cong [OF d]
  show "doms_ok st'" using B(1) dc by simp
  have v: "st_view st' = st_view st @ replicate ?k {0, 1} @ [{0..int ?k}]" using A B(2) dc by simp
  have len: "length (domains st') = ?n + ?k + 1" using arg_cong [OF v, of length] by simp
  have m: "vals st' m = {0, 1}" "m < length (domains st')" if "m \<in> set ms" for m
  proof -
    have r: "?n \<le> m" "m < ?n + ?k" using that A by auto
    then show "m < length (domains st')" using len by simp
    then have "vals st' m = st_view st' ! m" by simp
    also have "\<dots> = {0, 1}" using r by (simp add: v nth_append)
    finally show "vals st' m = {0, 1}" .
  qed
  have lm: "length ms = ?k" "distinct ms" using A by auto
  show lok: "list_ok st' l" using m lm u(1) by (simp add: list_ok_def l bool_var_def Let_def)
  have mem: "\<exists>m \<in> set ms. list_member_var st' l x = Some m" if x: "x \<in> set universe" for x
  proof -
    have "position x universe \<noteq> None" using x position_None [of x universe] by simp
    then obtain i where "position x universe = Some i" by blast
    moreover from this have "i < ?k" using position_Some [of x universe i] by blast
    ultimately show ?thesis using lm(1) by (auto simp: list_member_var_def list_index_of_def l)
  qed
  have sub: "x \<in> set universe \<and> m \<in> set ms" if "list_member_var st' l x = Some m" for x m
    using that position_Some [of x universe] position_None [of x universe] lm(1)
    by (auto simp: list_member_var_def list_index_of_def l)
  have "{0, 1} \<noteq> {1 :: int}" by auto
  then show "required st' l = {}" using sub m(1) unfolding required_def by auto
  have "1 \<in> vals st' m" if "m \<in> set ms" for m using m(1) [OF that] by simp
  then show "possible st' l = set universe" using sub mem unfolding possible_def by blast
qed

text \<open>
  A list keeps a set of required items within a set of possible ones. Requiring an item
  adds it to the former and forbidding one removes it from the latter, in each case nothing
  else; the Boolean tells whether anything changed, and an item that is already decided
  against is an inconsistency that changes nothing. Items outside the universe are
  impossible.
\<close>

theorem list_items_exact:
  assumes "doms_ok st" "list_ok st l"
  shows "(case require_list_item l item st of (st', r) \<Rightarrow>
      if item \<notin> possible st l then st' = st \<and> r = Err Inconsistency
      else if item \<in> required st l then st' = st \<and> r = Ok False
      else doms_ok st' \<and> list_ok st' l \<and> r = Ok True \<and>
        required st' l = insert item (required st l) \<and> possible st' l = possible st l) \<and>
    (case forbid_list_item l item st of (st', r) \<Rightarrow>
      if item \<in> required st l then st' = st \<and> r = Err Inconsistency
      else if item \<notin> possible st l then st' = st \<and> r = Ok False
      else doms_ok st' \<and> list_ok st' l \<and> r = Ok True \<and>
        required st' l = required st l \<and> possible st' l = possible st l - {item}) \<and>
    (list_possible st l item \<longleftrightarrow> item \<in> possible st l) \<and> (list_required st l item \<longleftrightarrow> item \<in> required st l)"
proof -
  obtain st1 r1 where a: "require_list_item l item st = (st1, r1)" by fastforce
  obtain st2 r2 where b: "forbid_list_item l item st = (st2, r2)" by fastforce
  show ?thesis
    using require_item_ok [OF assms a] forbid_item_ok [OF assms b] list_reads [OF assms, of item] unfolding a b prod.case by blast
qed

theorem list_items_exact_witness:
  "\<exists>st l. new_list [7, 4, 9] store_new = Some (st, l) \<and>
     required (fst (require_list_item l 4 st)) l = {4} \<and> possible (fst (forbid_list_item l 9 st)) l = {4, 7} \<and>
     snd (require_list_item l 5 st) = Err Inconsistency"
proof -
  have "new_list [7, 4, 9] store_new \<noteq> None" by code_simp
  then obtain st l where n: "new_list [7, 4, 9] store_new = Some (st, l)" by fast
  have "doms_ok store_new" using good_new(1) by (simp add: good_def)
  note N = new_list_ok [OF this n]
  have p: "possible st l = {4, 7, 9}" using N(4) by auto
  note I = list_items_exact [OF N(1,2)]
  have "required (fst (require_list_item l 4 st)) l = {4}" using I [of 4] N(3) p by (auto split: prod.splits)
  moreover have "possible (fst (forbid_list_item l 9 st)) l = {4, 7, 9} - {9}" using I [of 9] N(3) p by (auto split: prod.splits)
  moreover have "snd (require_list_item l 5 st) = Err Inconsistency" using I [of 5] p by (auto split: prod.splits)
  moreover have "{4, 7, 9} - {9} = {4, 7 :: int}" by auto
  ultimately show ?thesis using n by auto
qed

end
