(* ===== verification/LitView.thy ===== *)
theory LitView imports LitMeaning StoreSpec begin

text \<open>
  The bridge between atoms and domains (\<open>src/src/lcg/view.rs\<close>): the truth of a literal is read
  from the domain of its variable, and enforcing a literal is a mutation of that domain.
\<close>

section \<open>Reading\<close>

datatype tri = TriTrue | TriFalse | TriUnknown

fun tri_negate :: "tri \<Rightarrow> tri" where
  "tri_negate TriTrue = TriFalse"
| "tri_negate TriFalse = TriTrue"
| "tri_negate TriUnknown = TriUnknown"

fun atom_value :: "store \<Rightarrow> atom_kind \<Rightarrow> tri" where
  "atom_value st (AGe x k) = (if st_min st x \<ge> k then TriTrue else if st_max st x < k then TriFalse else TriUnknown)"
| "atom_value st (AEq x v) = (if \<not> st_contains st x v then TriFalse else if st_is_fixed st x then TriTrue else TriUnknown)"

definition lit_value :: "store \<Rightarrow> atom_table \<Rightarrow> lazy_atoms \<Rightarrow> lit \<Rightarrow> tri option" where
  "lit_value st T R l = map_option (\<lambda>kind. if is_positive l then atom_value st kind else tri_negate (atom_value st kind))
     (atom_decode T R (lit_atom l))"

section \<open>Enforcing\<close>

fun enforce :: "atom_kind \<Rightarrow> bool \<Rightarrow> store \<Rightarrow> unit outcome" where
  "enforce (AGe x k) positive st = (if positive then st_remove_below x k st else st_remove_above x (as_i32 (k - 1)) st)"
| "enforce (AEq x v) positive st = (if positive then st_fix x v st else st_remove x v st)"

definition lit_apply :: "atom_table \<Rightarrow> lazy_atoms \<Rightarrow> lit \<Rightarrow> store \<Rightarrow> unit outcome option" where
  "lit_apply T R l st = map_option (\<lambda>kind. enforce kind (is_positive l) st) (atom_decode T R (lit_atom l))"

section \<open>Correctness\<close>

definition kind_fits :: "atom_kind \<Rightarrow> bool" where
  "kind_fits kind \<longleftrightarrow> (case kind of AGe x k \<Rightarrow> in_i32 k \<and> in_i32 (k - 1) | AEq x v \<Rightarrow> in_i32 v)"

text \<open>The set of values a literal permits.\<close>

fun permits :: "atom_kind \<Rightarrow> bool \<Rightarrow> int \<Rightarrow> bool" where
  "permits (AGe x k) positive y \<longleftrightarrow> (k \<le> y) = positive"
| "permits (AEq x v) positive y \<longleftrightarrow> (y = v) = positive"

lemma permits_holds: "permits kind p (f (kind_var kind)) \<longleftrightarrow> (kind_holds kind f \<longleftrightarrow> p)"
  by (cases kind) auto

lemma atom_value_ok:
  assumes st: "doms_ok st" "kind_var kind < length (domains st)" "vals st (kind_var kind) \<noteq> {}"
  shows "atom_value st kind = TriTrue \<longleftrightarrow> (\<forall>y \<in> vals st (kind_var kind). permits kind True y)"
    and "atom_value st kind = TriFalse \<longleftrightarrow> (\<forall>y \<in> vals st (kind_var kind). permits kind False y)"
proof -
  let ?S = "vals st (kind_var kind)"
  note rd = st_reads [OF st(1,2)]
  have fin: "finite ?S" "Min ?S \<in> ?S" "Max ?S \<in> ?S" "\<forall>y \<in> ?S. Min ?S \<le> y" "\<forall>y \<in> ?S. y \<le> Max ?S" using rd(1) st(3) by simp_all
  have mm: "st_min st (kind_var kind) = Min ?S" "st_max st (kind_var kind) = Max ?S" using rd(5) st(3) by simp_all
  have one: "card ?S = 1 \<longleftrightarrow> ?S = {y}" if "y \<in> ?S" for y using that by (auto simp: card_1_singleton_iff)
  show "atom_value st kind = TriTrue \<longleftrightarrow> (\<forall>y \<in> ?S. permits kind True y)"
  proof (cases kind)
    case (AGe x k)
    then show ?thesis using mm fin(2,4) by (auto intro: order_trans)
  next
    case (AEq x v)
    then show ?thesis using rd(3,4) one [of v] st(3) by (cases "v \<in> ?S") auto
  qed
  show "atom_value st kind = TriFalse \<longleftrightarrow> (\<forall>y \<in> ?S. permits kind False y)"
  proof (cases kind)
    case (AGe x k)
    have "\<not> (Min ?S \<ge> k \<and> Max ?S < k)" using fin(2,5) by fastforce
    then show ?thesis using AGe mm fin(3,5) by (auto simp: not_le intro: le_less_trans)
  next
    case (AEq x v)
    then show ?thesis using rd(3,4) by auto
  qed
qed

fun enforce_op :: "atom_kind \<Rightarrow> bool \<Rightarrow> dom_op" where
  "enforce_op (AGe x k) p = (if p then Below k else Above (k - 1))"
| "enforce_op (AEq x v) p = (if p then Fix v else Remove v)"

lemma enforce_apply: "kind_fits kind \<Longrightarrow> enforce kind p st = st_apply (kind_var kind) (enforce_op kind p) st"
  by (cases kind) (auto simp: kind_fits_def as_i32_id)

lemma enforce_ok:
  assumes st: "good st" "kind_var kind < length (domains st)" "vals st (kind_var kind) \<noteq> {}" and k: "kind_fits kind"
    and run: "enforce kind p st = (st', r)"
  shows "good st'" "st_saved st' = st_saved st" "is_ok r \<longleftrightarrow> (\<exists>y \<in> vals st (kind_var kind). permits kind p y)"
    "is_ok r \<Longrightarrow> st_view st' = (st_view st)[kind_var kind := {y \<in> vals st (kind_var kind). permits kind p y}]"
proof -
  let ?x = "kind_var kind" and ?c = "enforce_op kind p"
  have arg: "in_i32 (op_arg ?c)" using k by (cases kind) (auto simp: kind_fits_def)
  have M: "good st'" "st_view st' = (st_view st)[?x := set_apply ?c (vals st ?x)]" "st_saved st' = st_saved st"
    "r = (if fails ?c (vals st ?x) then Err Inconsistency else Ok ())"
    using mutation_exact [OF st arg] run by (simp_all add: enforce_apply [OF k])
  show "good st'" "st_saved st' = st_saved st" using M by simp_all
  show ok: "is_ok r \<longleftrightarrow> (\<exists>y \<in> vals st ?x. permits kind p y)"
  proof (cases kind)
    case (AGe x k)
    have "k \<le> y \<longleftrightarrow> \<not> y \<le> k - 1" for y by linarith
    then show ?thesis by (cases p) (auto simp: M(4) AGe)
  qed (auto simp: M(4))
  have "set_apply ?c (vals st ?x) = {y \<in> vals st ?x. permits kind p y}" if "is_ok r"
    using that unfolding ok by (cases kind) auto
  then show "is_ok r \<Longrightarrow> st_view st' = (st_view st)[?x := {y \<in> vals st ?x. permits kind p y}]" by (simp add: M(2))
qed

end
