(* ===== verification/LitSession.thy ===== *)
theory LitSession imports LitView begin

text \<open>
  A table and its registry over a run: whatever is asked for, every atom handed out stays
  decodable and keeps its meaning, its arguments fit the domains, and building and asking do
  not panic while the numbers last.
\<close>

section \<open>The invariant\<close>

definition session_ok :: "atom_table \<Rightarrow> lazy_atoms \<Rightarrow> bool" where
  "session_ok T R \<longleftrightarrow> table_ok T \<and> registry_ok (length (at_decode T)) R \<and>
     (\<forall>kind \<in> set (la_decode R). kind_fits kind \<and> kind_var kind < length (at_vars T) \<and> lazy_layout (va_layout (at_vars T ! kind_var kind)))"

definition numbered :: "atom_table \<Rightarrow> lazy_atoms \<Rightarrow> lit_or_const \<Rightarrow> bool" where
  "numbered T R r \<longleftrightarrow> (case r of ALit l \<Rightarrow> atom_decode T R (lit_atom l) \<noteq> None | _ \<Rightarrow> True)"

lemma loc_true_extends: "extends R R' \<Longrightarrow> numbered T R r \<Longrightarrow> loc_true T R' r f \<longleftrightarrow> loc_true T R r f"
  by (cases r) (auto simp: numbered_def lit_true_def dest: decode_extends)

lemma numbered_extends: "extends R R' \<Longrightarrow> numbered T R r \<Longrightarrow> numbered T R' r"
  by (cases r) (auto simp: numbered_def dest: decode_extends)

lemma extends_trans: "extends R R' \<Longrightarrow> extends R' R'' \<Longrightarrow> extends R R''"
  by (auto simp: extends_def intro: map_le_trans)

text \<open>What a lookup does to the registry, beside its meaning.\<close>

definition tidy :: "atom_table \<Rightarrow> lazy_atoms \<Rightarrow> var_id \<Rightarrow> var_atoms \<Rightarrow> lit_or_const \<times> lazy_atoms \<Rightarrow> bool" where
  "tidy T R x a = (\<lambda>(r, R'). numbered T R' r \<and> (la_decode R' = la_decode R \<or>
     lazy_layout (va_layout a) \<and> (\<exists>kind. la_decode R' = la_decode R @ [kind] \<and> kind_var kind = x \<and> kind_fits kind)))"

lemma tidy_interned:
  assumes "active_entry T R x a" "interned kind R = Some res" "lazy_layout (va_layout a)" "kind_var kind = x" "kind_fits kind"
  shows "tidy T R x a res"
proof -
  have R: "registry_ok (length (at_decode T)) R" using assms(1) by (simp add: active_entry_def)
  obtain b R' where b: "intern kind R = Some (b, R')" "res = (ALit (lit_positive b), R')" using assms(2) by (auto simp: interned_def)
  note I = intern_ok [OF R b(1)] and D = lazy_decoded [OF intern_ok(1,3) [OF R b(1)]]
  have "numbered T R' (ALit (lit_positive b))" using D by (simp add: numbered_def lit_positive_def lit_pack)
  then show ?thesis using I(4) assms(3-5) by (auto simp: tidy_def b(2))
qed

lemma tidy_table:
  assumes A: "active_entry T R x a"
  shows "i < length (va_order x a) \<Longrightarrow> tidy T R x a (ALit (lit_new (ge_base a + word_of_nat i) p), R)"
    and "i < length (va_equal x a) \<Longrightarrow> tidy T R x a (ALit (lit_new (eq_base a + word_of_nat i) p), R)"
    and "tidy T R x a (LTrue, R)" "tidy T R x a (LFalse, R)"
proof -
  have t: "table_ok T" "var_entry T x = Some a" "va_active a" using A by (simp_all add: active_entry_def)
  show "i < length (va_order x a) \<Longrightarrow> tidy T R x a (ALit (lit_new (ge_base a + word_of_nat i) p), R)"
    using in_table(1) [OF t, of i R] by (simp add: tidy_def numbered_def lit_pack)
  show "i < length (va_equal x a) \<Longrightarrow> tidy T R x a (ALit (lit_new (eq_base a + word_of_nat i) p), R)"
    using in_table(2) [OF t, of i R] by (simp add: tidy_def numbered_def lit_pack)
qed (simp_all add: tidy_def numbered_def)

lemma between_fits: "in_i32 lo \<Longrightarrow> in_i32 hi \<Longrightarrow> lo < k \<Longrightarrow> k \<le> hi \<Longrightarrow> kind_fits (AGe x k)" "in_i32 lo \<Longrightarrow> in_i32 hi \<Longrightarrow> lo \<le> v \<Longrightarrow> v \<le> hi \<Longrightarrow> kind_fits (AEq x v)"
  by (auto simp: kind_fits_def in_i32_def)

lemma above_first: "support_ok vs lo hi \<Longrightarrow> 0 < i \<Longrightarrow> i < length vs \<Longrightarrow> lo < vs ! i \<and> vs ! i \<le> hi"
  using support_bounds [of vs lo hi "vs ! i"] by (cases vs) (auto simp: support_ok_def nth_Cons')

lemma ge_lit_tidy:
  assumes A: "active_entry T R x a" and g: "ge_lit x k a R = Some res"
  shows "tidy T R x a res"
proof -
  note tt = tidy_table [OF A] and at = tidy_table(1) [OF A, where p = True, folded lit_positive_def]
  have sh: "entry_shape a" "in_i32 (va_lo a)" "in_i32 (va_hi a)" using table_at(3) [OF A] by (simp_all add: entry_shape_def)
  show ?thesis
  proof (cases "va_layout a")
    case SignLayout
    have "0 < length (va_order x a)" by (simp add: va_order_def SignLayout)
    from at [OF this] show ?thesis using g tt(3,4) by (auto simp: ge_lit_def SignLayout split: if_splits)
  next
    case SpanLayout
    have "tidy T R x a (ALit (lit_positive (ge_base a + word_of_int (k - (va_lo a + 1)))), R)" if "va_lo a < k" "k \<le> va_hi a"
    proof -
      have i: "word_of_int (k - (va_lo a + 1)) = (word_of_nat (nat (k - (va_lo a + 1))) :: atom)" using that by simp
      show ?thesis unfolding i by (rule at) (use that in \<open>simp add: va_order_def SpanLayout\<close>)
    qed
    then show ?thesis using g tt(3,4) by (auto simp: ge_lit_def SpanLayout split: if_splits)
  next
    case SparseLayout
    then obtain vs where vs: "sparse_values a = Some vs" using sparse_shape [OF A] by auto
    let ?i = "partition_point vs k"
    have "tidy T R x a (ALit (lit_positive (ge_base a + word_of_nat (?i - 1))), R)" if "?i \<noteq> 0" "?i \<noteq> length vs"
      by (rule at) (use that partition_le [of vs k] in \<open>simp add: va_order_def SparseLayout vs\<close>)
    then show ?thesis using g tt(3,4) by (auto simp: ge_lit_def SparseLayout vs Let_def split: if_splits)
  next
    case LazyLayout
    have "interned (AGe x (as_i32 k)) R = Some res \<Longrightarrow> va_lo a < k \<Longrightarrow> k \<le> va_hi a \<Longrightarrow> tidy T R x a res"
      using sh between_fits(1) [OF sh(2,3), of k x]
      by (intro tidy_interned [OF A]) (auto simp: LazyLayout lazy_layout_def as_i32_id kind_fits_def)
    then show ?thesis using g tt(3,4) by (cases res) (auto simp: ge_lit_def LazyLayout split: if_splits)
  next
    case LazySparseLayout
    then obtain vs where vs: "sparse_values a = Some vs" "support_ok vs (va_lo a) (va_hi a)" using sparse_shape [OF A] by auto
    let ?i = "partition_point vs k"
    have "interned (AGe x (vs ! ?i)) R = Some res \<Longrightarrow> ?i \<noteq> 0 \<Longrightarrow> ?i \<noteq> length vs \<Longrightarrow> tidy T R x a res"
      using above_first [OF vs(2), of ?i] partition_le [of vs k] between_fits(1) [OF sh(2,3)]
      by (intro tidy_interned [OF A]) (auto simp: LazySparseLayout lazy_layout_def)
    then show ?thesis using g tt(3,4) by (cases res) (auto simp: ge_lit_def LazySparseLayout vs(1) Let_def split: if_splits)
  qed
qed

lemma eq_lit_tidy:
  assumes A: "active_entry T R x a" and g: "eq_lit x v a R = Some res"
  shows "tidy T R x a res"
proof -
  note tt = tidy_table [OF A] and at = tidy_table(2) [OF A, where p = True, folded lit_positive_def]
  have sh: "entry_shape a" "in_i32 (va_lo a)" "in_i32 (va_hi a)" using table_at(3) [OF A] by (simp_all add: entry_shape_def)
  have int: "interned (AEq x v) R = Some res \<Longrightarrow> va_lo a \<le> v \<Longrightarrow> v \<le> va_hi a \<Longrightarrow> lazy_layout (va_layout a) \<Longrightarrow> tidy T R x a res"
    using between_fits(2) [OF sh(2,3), of v x] by (intro tidy_interned [OF A]) auto
  show ?thesis
  proof (cases "va_layout a")
    case SignLayout
    have "0 < length (va_order x a)" by (simp add: va_order_def SignLayout)
    from tt(1) [OF this] show ?thesis
      using g tt(4) by (auto simp: eq_lit_def SignLayout lit_positive_def lit_negative_def split: if_splits)
  next
    case SpanLayout
    have "tidy T R x a (ALit (lit_positive (eq_base a + word_of_int (v - va_lo a))), R)" if "va_lo a \<le> v" "v \<le> va_hi a"
    proof -
      have i: "word_of_int (v - va_lo a) = (word_of_nat (nat (v - va_lo a)) :: atom)" using that by simp
      show ?thesis unfolding i by (rule at) (use that in \<open>simp add: va_equal_def SpanLayout\<close>)
    qed
    then show ?thesis using g tt(4) by (auto simp: eq_lit_def SpanLayout split: if_splits)
  next
    case SparseLayout
    then obtain vs where vs: "sparse_values a = Some vs" "sorted_wrt (<) vs" using sparse_shape [OF A] by auto
    have "tidy T R x a (ALit (lit_positive (eq_base a + word_of_nat i)), R)" if "binary_search vs v = Some i" for i
      by (rule at) (use binary_search_ok(2) [OF vs(2) that] in \<open>simp add: va_equal_def SparseLayout vs\<close>)
    then show ?thesis using g tt(4) by (auto simp: eq_lit_def SparseLayout vs split: option.splits)
  next
    case LazyLayout
    then show ?thesis using g tt(4) int by (cases res) (auto simp: eq_lit_def LazyLayout lazy_layout_def split: if_splits)
  next
    case LazySparseLayout
    then obtain vs where vs: "sparse_values a = Some vs" using sparse_shape [OF A] by auto
    show ?thesis using g tt(4) int by (cases res) (auto simp: eq_lit_def LazySparseLayout lazy_layout_def vs split: if_splits)
  qed
qed

section \<open>Runs of requests\<close>

datatype request = AskGe (asked: var_id) int | AskEq (asked: var_id) int

fun ask :: "atom_table \<Rightarrow> request \<Rightarrow> lazy_atoms \<Rightarrow> (lit_or_const \<times> lazy_atoms) option" where
  "ask T (AskGe x k) R = ge_i64 T x k R"
| "ask T (AskEq x v) R = lit_eq T x v R"

fun request_holds :: "request \<Rightarrow> (var_id \<Rightarrow> int) \<Rightarrow> bool" where
  "request_holds (AskGe x k) f \<longleftrightarrow> k \<le> f x"
| "request_holds (AskEq x v) f \<longleftrightarrow> f x = v"

fun ask_all :: "atom_table \<Rightarrow> request list \<Rightarrow> lazy_atoms \<Rightarrow> (lit_or_const list \<times> lazy_atoms) option" where
  "ask_all T [] R = Some ([], R)"
| "ask_all T (q # qs) R = Option.bind (ask T q R) (\<lambda>(l, R1). map_option (\<lambda>(ls, R2). (l # ls, R2)) (ask_all T qs R1))"

definition rooted :: "atom_table \<Rightarrow> (var_id \<Rightarrow> int) \<Rightarrow> bool" where
  "rooted T f \<longleftrightarrow> (\<forall>x < length (at_vars T). in_root (at_vars T ! x) (f x))"

lemma ask_ok:
  assumes S: "session_ok T R" and run: "ask T q R = Some (r, R')"
  shows "session_ok T R' \<and> extends R R' \<and> numbered T R' r \<and> (\<forall>f. rooted T f \<longrightarrow> (loc_true T R' r f \<longleftrightarrow> request_holds q f))"
proof -
  let ?x = "asked q"
  obtain a where a: "var_entry T ?x = Some a" "va_active a"
    using run by (cases q) (auto simp: ge_i64_def lit_eq_def bind_eq_Some_conv split: if_splits)
  have A: "active_entry T R ?x a" using S a by (simp add: active_entry_def session_ok_def)
  have x: "?x < length (at_vars T)" "a = at_vars T ! ?x" using a(1) by (simp_all add: var_entry_def split: if_splits)
  have "gives T R a ?x (\<lambda>y. request_holds q (\<lambda>_. y)) (r, R') \<and> tidy T R ?x a (r, R')"
  proof (cases q)
    case (AskGe y k)
    then have g: "ge_lit y k a R = Some (r, R')" using run a by (simp add: ge_i64_def)
    show ?thesis using ge_lit_ok [OF _ g] ge_lit_tidy [OF _ g] A by (simp add: AskGe)
  next
    case (AskEq y v)
    then have g: "eq_lit y v a R = Some (r, R')" using run a by (simp add: lit_eq_def)
    show ?thesis using eq_lit_ok [OF _ g] eq_lit_tidy [OF _ g] A by (simp add: AskEq)
  qed
  moreover have "request_holds q (\<lambda>_. f ?x) \<longleftrightarrow> request_holds q f" for f by (cases q) simp_all
  ultimately show ?thesis
    using S x by (auto simp: gives_def tidy_def session_ok_def rooted_def)
qed

lemma ask_all_ok:
  assumes "session_ok T R" "ask_all T qs R = Some (ls, R')"
  shows "session_ok T R' \<and> extends R R' \<and> length ls = length qs \<and>
    (\<forall>i < length qs. numbered T R' (ls ! i) \<and> (\<forall>f. rooted T f \<longrightarrow> (loc_true T R' (ls ! i) f \<longleftrightarrow> request_holds (qs ! i) f)))"
  using assms
proof (induction qs arbitrary: R ls)
  case Nil
  then show ?case by simp
next
  case (Cons q qs)
  obtain r R1 rs where q: "ask T q R = Some (r, R1)" and qs: "ask_all T qs R1 = Some (rs, R')" and ls: "ls = r # rs"
    using Cons.prems(2) by (auto simp: bind_eq_Some_conv)
  have Q: "session_ok T R1" "extends R R1" "numbered T R1 r" "\<forall>f. rooted T f \<longrightarrow> (loc_true T R1 r f \<longleftrightarrow> request_holds q f)"
    using ask_ok [OF Cons.prems(1) q] by simp_all
  have IH: "session_ok T R'" "extends R1 R'" "length rs = length qs"
    "\<forall>i < length qs. numbered T R' (rs ! i) \<and> (\<forall>f. rooted T f \<longrightarrow> (loc_true T R' (rs ! i) f \<longleftrightarrow> request_holds (qs ! i) f))"
    using Cons.IH [OF Q(1) qs] by simp_all
  have r: "numbered T R' r" "\<forall>f. rooted T f \<longrightarrow> (loc_true T R' r f \<longleftrightarrow> request_holds q f)"
    using numbered_extends [OF IH(2) Q(3)] loc_true_extends [OF IH(2) Q(3)] Q(4) by simp_all
  show ?case using IH r extends_trans [OF Q(2) IH(2)] by (auto simp: ls nth_Cons split: nat.split)
qed

section \<open>Building\<close>

definition in_facts :: "var_facts \<Rightarrow> var_id \<Rightarrow> int \<Rightarrow> bool" where
  "in_facts F x y \<longleftrightarrow> (if vf_sign F x then y = - 1 \<or> y = 1
     else case vf_support F x of Some vs \<Rightarrow> y \<in> set vs | None \<Rightarrow> fst (vf_bounds F x) \<le> y \<and> y \<le> snd (vf_bounds F x))"

lemma described_root: "described F x a \<Longrightarrow> in_root a y \<longleftrightarrow> in_facts F x y"
  by (cases "vf_support F x") (auto simp: described_def in_root_def in_facts_def prod_eq_iff)

lemma build_ok:
  assumes b: "build_with_registry n F R = Some (T, R')" and F: "\<forall>x < n. facts_ok F x" and R: "la_decode R = []" "la_ids R = (\<lambda>_. None)" "la_by_var R = (\<lambda>_. None)"
  shows "session_ok T R' \<and> length (at_vars T) = n \<and> (\<forall>x < n. described F x (at_vars T ! x))"
proof -
  obtain e where a: "alloc_vars F [0..<n] (\<lparr>at_vars = [], at_decode = []\<rparr>, 0) = Some (T, e)"
    and s: "set_base (word_of_nat (length (at_decode T))) R = Some R'"
    using b by (auto simp: build_with_registry_def bind_eq_Some_conv)
  have T: "table_ok T" "length (at_vars T) = n" "\<forall>x < n. described F x (at_vars T ! x)"
    using alloc_vars_ok [OF a _ _ _ F] by (simp_all add: table_ok_def)
  have "length (at_decode T) \<le> 2 ^ 31" using T(1) by (simp add: table_ok_def max_eager_atoms_def)
  moreover have "la_base R' = Some (word_of_nat (length (at_decode T)))" "la_decode R' = []" "la_ids R' = (\<lambda>_. None)" "la_by_var R' = (\<lambda>_. None)"
    using s R by (auto simp: set_base_def split: option.splits if_splits)
  ultimately show ?thesis using T by (simp add: session_ok_def registry_ok_def by_var_def)
qed

text \<open>Eager atoms are at most half a million, and one for each sign variable.\<close>

lemma support_length:
  assumes "support_ok vs lo hi" "in_i32 lo" "in_i32 hi"
  shows "0 < length vs" "2 * length vs < 2 ^ 64"
proof -
  have s: "sorted_wrt (<) vs" "vs \<noteq> []" using assms(1) by (simp_all add: support_ok_def)
  then show "0 < length vs" by simp
  have "distinct vs" using s(1) by (simp add: strict_sorted_iff)
  then have "length vs = card (set vs)" by (simp add: distinct_card)
  also have "\<dots> \<le> card {i32_min..i32_max}"
    proof (rule card_mono)
    show "set vs \<subseteq> {i32_min..i32_max}"
      using support_bounds [OF assms(1)] assms(2,3) unfolding in_i32_def by (meson atLeastAtMost_iff order_trans subsetI)
  qed simp
  finally show "2 * length vs < 2 ^ 64" by (simp add: i32_min_def i32_max_def)
qed

lemma alloc_var_returns:
  assumes F: "facts_ok F x" and e: "eager \<le> max_total_eager_domain_atoms" "length (at_decode T) \<le> eager + x" "x + max_total_eager_domain_atoms < max_eager_atoms"
  obtains T' eager' where "alloc_var F x (T, eager) = Some (T', eager')" "eager' \<le> max_total_eager_domain_atoms"
    "length (at_decode T') \<le> eager' + Suc x" "length (at_vars T') = Suc (length (at_vars T))"
proof -
  obtain lo hi where b: "vf_bounds F x = (lo, hi)" by fastforce
  have f: "in_i32 lo" "in_i32 hi" "lo \<le> hi" "\<And>vs. vf_support F x = Some vs \<Longrightarrow> support_ok vs lo hi"
    using F by (auto simp: facts_ok_def b)
  have r: "range_len lo hi = nat (hi - lo + 1)" "0 < range_len lo hi" "2 * range_len lo hi < 2 ^ 64"
    using f(1-3) by (simp_all add: range_len_def in_i32_def i32_min_def i32_max_def)
  have sp: "atom_count SpanLayout lo hi vs \<noteq> None" for vs using r(2,3) by (simp add: twice_less_one_def)
  have su: "atom_count SparseLayout lo hi (vf_support F x) \<noteq> None" if "vf_support F x \<noteq> None"
    using that support_length [OF f(4) f(1,2)] by (auto simp: twice_less_one_def)
  obtain l where l: "choose_layout (vf_sign F x) (vf_active F x) (vf_support F x) eager lo hi = Some l"
  proof -
    have "choose_layout (vf_sign F x) (vf_active F x) (vf_support F x) eager lo hi \<noteq> None"
      using sp [of None] su unfolding choose_layout_def
      by (cases "vf_sign F x"; cases "vf_support F x = None"; cases "vf_active F x") (simp_all del: atom_count.simps)
    then show thesis using that by auto
  qed
  note L = choose_layout_ok [OF l]
  show thesis
  proof (cases "vf_active F x")
    case False
    then have "\<exists>a. alloc_var F x (T, eager) = Some (\<lparr>at_vars = at_vars T @ [a], at_decode = at_decode T\<rparr>, eager)"
      using l b by (auto simp: alloc_var_def Let_def)
    then show thesis using that e by auto
  next
    case True
    obtain n where n: "atom_count l lo hi (vf_support F x) = Some n"
      using sp su L by (cases l) (auto simp: sparse_layout_def)
    obtain g q where gq: "order_kinds x l lo hi (vf_support F x) = Some g" "equal_kinds x l lo hi (vf_support F x) = Some q"
      using L by (cases l) (auto simp: sparse_layout_def)
    have len: "length g + length q = n" by (rule atom_count_ok [OF n gq f(1-3)])
    have small: "if counts_eager l then eager + n \<le> max_total_eager_domain_atoms else n \<le> 1"
      using L(4) [OF True _ n] n by (cases l) (auto simp: counts_eager_def too_many_def)
    then have ok: "length (at_decode T) + n \<le> max_eager_atoms" using e by (auto split: if_splits)
    have "\<exists>a. alloc_var F x (T, eager) = Some (\<lparr>at_vars = at_vars T @ [a], at_decode = at_decode T @ g @ q\<rparr>, if counts_eager l then eager + n else eager)"
      using l b True n gq ok by (auto simp: alloc_var_def Let_def)
    then show thesis using that small e len by (auto split: if_splits)
  qed
qed

lemma alloc_vars_return:
  assumes "\<forall>x < n. facts_ok F x" "n + max_total_eager_domain_atoms \<le> max_eager_atoms"
  shows "length (at_vars T) \<le> n \<Longrightarrow> eager \<le> max_total_eager_domain_atoms \<Longrightarrow> length (at_decode T) \<le> eager + length (at_vars T) \<Longrightarrow>
    alloc_vars F [length (at_vars T)..<n] (T, eager) \<noteq> None"
proof (induction "n - length (at_vars T)" arbitrary: T eager)
  case 0
  then show ?case by simp
next
  case (Suc m)
  let ?x = "length (at_vars T)"
  have x: "?x < n" using Suc.hyps(2) by simp
  have fx: "facts_ok F ?x" "?x + max_total_eager_domain_atoms < max_eager_atoms" using assms x by simp_all
  obtain T1 e1 where a: "alloc_var F ?x (T, eager) = Some (T1, e1)" "e1 \<le> max_total_eager_domain_atoms"
    "length (at_decode T1) \<le> e1 + Suc ?x" "length (at_vars T1) = Suc ?x"
    by (rule alloc_var_returns [OF fx(1) Suc.prems(2,3) fx(2)])
  have "alloc_vars F [length (at_vars T1)..<n] (T1, e1) \<noteq> None"
    by (rule Suc.hyps(1)) (use a x Suc.hyps(2) in simp_all)
  then show ?case using a x by (simp add: upt_rec)
qed

lemma build_returns:
  assumes "\<forall>x < n. facts_ok F x" "n + max_total_eager_domain_atoms \<le> max_eager_atoms"
  shows "build_active_sparse n F \<noteq> None"
proof -
  have "alloc_vars F [0..<n] (\<lparr>at_vars = [], at_decode = []\<rparr>, 0) \<noteq> None"
    using alloc_vars_return [OF assms, of "\<lparr>at_vars = [], at_decode = []\<rparr>" 0] by simp
  then show ?thesis by (auto simp: build_active_sparse_def build_with_registry_def set_base_def registry_new_def)
qed

lemma interned_returns: "registry_ok b R \<Longrightarrow> b + length (la_decode R) < 2 ^ 31 \<Longrightarrow> interned kind R \<noteq> None"
  using intern_returns [of b R kind] by (simp add: interned_def)

lemma ask_returns:
  assumes S: "session_ok T R" and x: "asked q < length (at_vars T)" "va_active (at_vars T ! asked q)"
    and room: "length (at_decode T) + length (la_decode R) < 2 ^ 31"
  obtains r R' where "ask T q R = Some (r, R')" "length (la_decode R') \<le> Suc (length (la_decode R))"
proof -
  let ?a = "at_vars T ! asked q"
  have v: "var_entry T (asked q) = Some ?a" using x by (simp add: var_entry_def)
  have A: "active_entry T R (asked q) ?a" using S x v by (simp add: active_entry_def session_ok_def)
  have R: "registry_ok (length (at_decode T)) R" using S by (simp add: session_ok_def)
  note I = interned_returns [OF R room]
  have sv: "\<exists>vs. sparse_values ?a = Some vs" if "sparse_layout (va_layout ?a)" by (rule sparse_shape [OF A that]) auto
  have "ask T q R \<noteq> None"
  proof (cases q)
    case (AskGe y k)
    then have "ask T q R = ge_lit y k ?a R" using v x by (simp add: ge_i64_def)
    then show ?thesis
      using I sv by (cases "va_layout ?a") (auto simp: AskGe ge_lit_def Let_def)
  next
    case (AskEq y k)
    then have "ask T q R = eq_lit y k ?a R" using v x by (simp add: lit_eq_def)
    then show ?thesis
      using I sv by (cases "va_layout ?a") (auto simp: AskEq eq_lit_def Let_def)
  qed
  then obtain r R' where run: "ask T q R = Some (r, R')" by auto
  have "tidy T R (asked q) ?a (r, R')"
  proof (cases q)
    case (AskGe y k)
    then have "ge_lit y k ?a R = Some (r, R')" using run v x by (simp add: ge_i64_def)
    then show ?thesis using ge_lit_tidy A by (simp add: AskGe)
  next
    case (AskEq y k)
    then have "eq_lit y k ?a R = Some (r, R')" using run v x by (simp add: lit_eq_def)
    then show ?thesis using eq_lit_tidy A by (simp add: AskEq)
  qed
  then have "length (la_decode R') \<le> Suc (length (la_decode R))" by (auto simp: tidy_def)
  then show thesis using that run by blast
qed

lemma ask_all_returns:
  "\<lbrakk>session_ok T R; \<forall>q \<in> set qs. asked q < length (at_vars T) \<and> va_active (at_vars T ! asked q);
    length (at_decode T) + length (la_decode R) + length qs \<le> 2 ^ 31\<rbrakk> \<Longrightarrow> ask_all T qs R \<noteq> None"
proof (induction qs arbitrary: R)
  case (Cons q qs)
  obtain r R1 where q: "ask T q R = Some (r, R1)" "length (la_decode R1) \<le> Suc (length (la_decode R))"
    by (rule ask_returns [OF Cons.prems(1), of q]) (use Cons.prems in auto)
  have "ask_all T qs R1 \<noteq> None"
    by (rule Cons.IH) (use Cons.prems ask_ok [OF Cons.prems(1) q(1)] q(2) in auto)
  then show ?case using q(1) by auto
qed simp

end
