(* ===== verification/LitSpec.thy ===== *)
theory LitSpec imports LitSession begin

text \<open>
  The properties of the atoms and literals of the clause-learning layer, on tables as they are
  built and registries as any run of lookups leaves them.
\<close>

section \<open>Meaning\<close>

lemma run_returns:
  assumes "\<forall>x < n. facts_ok F x" "n \<le> 19500000" "\<forall>q \<in> set qs. asked q < n \<and> vf_active F (asked q)" "length qs \<le> 1000000000"
  shows "\<exists>T R ls R'. build_active_sparse n F = Some (T, R) \<and> ask_all T qs R = Some (ls, R') \<and> length ls = length qs"
proof -
  have "build_active_sparse n F \<noteq> None"
    using build_returns [OF assms(1)] assms(2) by (simp add: max_eager_atoms_def max_total_eager_domain_atoms_def)
  then obtain T R where b: "build_active_sparse n F = Some (T, R)" by auto
  have B: "session_ok T R" "length (at_vars T) = n" "\<forall>x < n. described F x (at_vars T ! x)"
    using build_ok [OF b [unfolded build_active_sparse_def] assms(1)] by (simp_all add: registry_new_def)
  have len: "la_decode R = []"
    using b by (auto simp: build_active_sparse_def build_with_registry_def bind_eq_Some_conv set_base_def registry_new_def)
  have "length (at_decode T) \<le> 20000000" using B(1) by (simp add: session_ok_def table_ok_def max_eager_atoms_def)
  then have "ask_all T qs R \<noteq> None"
    by (intro ask_all_returns [OF B(1)]) (use B(2,3) assms(3,4) len in \<open>auto simp: described_def\<close>)
  then obtain ls R' where "ask_all T qs R = Some (ls, R')" by auto
  then show ?thesis using b ask_all_ok [OF B(1)] by blast
qed

text \<open>
  C17. Build a table from the root domains of \<open>n\<close> variables and ask it for any literals, in any
  order: each literal, read through the registry at the end of the run, is true at exactly the
  assignments within the root domains that satisfy the comparison it was asked for. Ranges,
  sparse supports, signs and the lazily numbered layouts all agree, constants included.
\<close>

theorem literals_mean_comparisons:
  assumes "\<forall>x < n. facts_ok F x" "build_active_sparse n F = Some (T, R)" "ask_all T qs R = Some (ls, R')"
    and "i < length qs" "\<forall>x < n. in_facts F x (f x)"
  shows "loc_true T R' (ls ! i) f \<longleftrightarrow> request_holds (qs ! i) f"
proof -
  have B: "session_ok T R" "length (at_vars T) = n" "\<forall>x < n. described F x (at_vars T ! x)"
    using build_ok [OF assms(2) [unfolded build_active_sparse_def] assms(1)] by (simp_all add: registry_new_def)
  have "rooted T f" using B(2,3) assms(5) described_root by (auto simp: rooted_def)
  then show ?thesis using ask_all_ok [OF B(1) assms(3)] assms(4) by blast
qed

text \<open>A range, a sparse support, a sign and a wide range.\<close>

definition four_facts :: var_facts where
  "four_facts = \<lparr>vf_active = \<lambda>_. True, vf_sign = (\<lambda>x. x = 2), vf_support = (\<lambda>x. if x = 1 then Some [1, 4, 9] else None),
     vf_bounds = (\<lambda>x. [(0, 3), (1, 9), (- 1, 1), (0, 1000)] ! x)\<rparr>"

lemma four_facts_ok: "\<forall>x < 4. facts_ok four_facts x"
proof (intro allI impI)
  fix x :: nat assume "x < 4"
  then have "x \<in> {0, 1, 2, 3}" by auto
  moreover have "\<forall>x \<in> {0, 1, 2, 3}. facts_ok four_facts x"
    by (simp add: facts_ok_def four_facts_def support_ok_def in_i32_def i32_min_def i32_max_def numeral_eq_Suc)
  ultimately show "facts_ok four_facts x" by blast
qed

lemma four_facts_in: "\<forall>x < 4. in_facts four_facts x ([2, 4, - 1, 500] ! x)"
proof (intro allI impI)
  fix x :: nat assume "x < 4"
  then have "x \<in> {0, 1, 2, 3}" by auto
  moreover have "\<forall>x \<in> {0, 1, 2, 3}. in_facts four_facts x ([2, 4, - 1, 500] ! x)"
    by (simp add: in_facts_def four_facts_def numeral_eq_Suc)
  ultimately show "in_facts four_facts x ([2, 4, - 1, 500] ! x)" by blast
qed

definition four_requests :: "request list" where
  "four_requests = [AskGe 0 2, AskGe 1 2, AskEq 2 1, AskGe 3 500, AskEq 3 7]"

lemma four_requests_ok: "\<forall>q \<in> set four_requests. asked q < 4 \<and> vf_active four_facts (asked q)" "length four_requests = 5"
  by (simp_all add: four_requests_def four_facts_def)

lemma four_run: "\<exists>T R ls R'. build_active_sparse 4 four_facts = Some (T, R) \<and> ask_all T four_requests R = Some (ls, R') \<and> length ls = 5"
  using run_returns [OF four_facts_ok _ four_requests_ok(1)] by (simp add: four_requests_ok(2))

theorem literals_mean_comparisons_witness:
  "\<exists>T R ls R'. build_active_sparse 4 four_facts = Some (T, R) \<and> ask_all T four_requests R = Some (ls, R') \<and>
    map (\<lambda>l. loc_true T R' l (\<lambda>x. [2, 4, - 1, 500] ! x)) ls = [True, True, False, True, False]"
proof -
  obtain T R ls R' where r: "build_active_sparse 4 four_facts = Some (T, R)" "ask_all T four_requests R = Some (ls, R')" and l: "length ls = 5"
    using four_run by blast
  note M = literals_mean_comparisons [OF four_facts_ok r _ four_facts_in]
  have "map (\<lambda>l. loc_true T R' l (\<lambda>x. [2, 4, - 1, 500] ! x)) ls = map (\<lambda>i. loc_true T R' (ls ! i) (\<lambda>x. [2, 4, - 1, 500] ! x)) [0..<5]"
    by (rule nth_equalityI) (simp_all add: l)
  also have "\<dots> = map (\<lambda>i. request_holds (four_requests ! i) (\<lambda>x. [2, 4, - 1, 500] ! x)) [0..<5]"
    by (rule map_cong [OF refl], rule M) (simp add: four_requests_def)
  also have "\<dots> = [True, True, False, True, False]" by code_simp
  finally show ?thesis using r by (intro exI conjI)
qed

text \<open>
  C38. Nothing panics while the numbers last: for fewer than nineteen and a half million
  variables the table is built, whatever their domains, and a billion lookups on active
  variables succeed.
\<close>

theorem numbering_returns:
  assumes "\<forall>x < n. facts_ok F x" "n \<le> 19500000" "\<forall>q \<in> set qs. asked q < n \<and> vf_active F (asked q)" "length qs \<le> 1000000000"
  shows "\<exists>T R ls R'. build_active_sparse n F = Some (T, R) \<and> ask_all T qs R = Some (ls, R') \<and> length ls = length qs"
  by (rule run_returns [OF assms])

theorem numbering_returns_witness:
  "\<exists>T R ls R'. build_active_sparse 4 four_facts = Some (T, R) \<and> ask_all T four_requests R = Some (ls, R') \<and> length ls = 5"
  using numbering_returns [OF four_facts_ok _ four_requests_ok(1)] by (simp add: four_requests_ok(2))

text \<open>
  A literal is packed without loss: from a literal its atom and sign come back, from an
  atom below \<open>2^31\<close> and a sign the literal gives both, and negation flips the sign only.
\<close>

theorem literal_packing:
  assumes "unat a < 2 ^ 31"
  shows "lit_atom (lit_new a p) = a \<and> is_positive (lit_new a p) = p \<and> lit_negate (lit_new a p) = lit_new a (\<not> p) \<and>
    lit_new (lit_atom l) (is_positive l) = l \<and> lit_negate (lit_negate l) = l \<and> lit_atom (lit_negate l) = lit_atom l"
  using assms by (simp add: lit_pack)

theorem literal_packing_witness: "lit_atom (lit_new 5 False) = 5 \<and> lit_negate (lit_new 5 False) = lit_new 5 True"
  using literal_packing [of 5 False] by simp

text \<open>
  C39. The lookups that do not allocate answer exactly when the allocating ones would leave the
  registry alone, and with the same literal; for any other comparison they say that there is
  no literal yet.
\<close>

theorem existing_literals_exact:
  assumes "session_ok T R" "x < length (at_vars T)" "va_active (at_vars T ! x)"
  shows "(ge_i64_existing T x k R = Some (Some r) \<longleftrightarrow> ge_i64 T x k R = Some (r, R)) \<and>
    (eq_existing T x v R = Some (Some r) \<longleftrightarrow> lit_eq T x v R = Some (r, R))"
proof -
  have "active_entry T R x (at_vars T ! x)" using assms by (simp add: active_entry_def session_ok_def var_entry_def)
  then show ?thesis using ge_existing_iff eq_existing_iff by blast
qed

lemma four_session:
  obtains T R where "build_active_sparse 4 four_facts = Some (T, R)" "session_ok T R" "length (at_vars T) = 4" "\<forall>x < 4. va_active (at_vars T ! x)"
    "la_decode R = []" "va_layout (at_vars T ! 2) = SignLayout"
proof -
  obtain T R where b: "build_active_sparse 4 four_facts = Some (T, R)" using four_run by blast
  have "session_ok T R \<and> length (at_vars T) = 4 \<and> (\<forall>x < 4. described four_facts x (at_vars T ! x))"
    using build_ok [OF b [unfolded build_active_sparse_def] four_facts_ok] by (simp add: registry_new_def)
  moreover have "la_decode R = []"
    using b by (auto simp: build_active_sparse_def build_with_registry_def bind_eq_Some_conv set_base_def registry_new_def)
  ultimately show thesis using that b by (auto simp: described_def four_facts_def)
qed

theorem existing_literals_exact_witness:
  "\<exists>T R l. build_active_sparse 4 four_facts = Some (T, R) \<and> eq_existing T 2 1 R = Some (Some (ALit l)) \<and> lit_eq T 2 1 R = Some (ALit l, R)"
proof -
  obtain T R where T: "build_active_sparse 4 four_facts = Some (T, R)" "session_ok T R" "length (at_vars T) = 4" "\<forall>x < 4. va_active (at_vars T ! x)"
    "va_layout (at_vars T ! 2) = SignLayout"
    by (rule four_session)
  have x: "2 < length (at_vars T)" "va_active (at_vars T ! 2)" using T by simp_all
  have "lit_eq T 2 1 R = Some (ALit (lit_positive (ge_base (at_vars T ! 2))), R)" using x T(5) by (simp add: lit_eq_def var_entry_def eq_lit_def)
  with existing_literals_exact [OF T(2) x] T(1) show ?thesis by blast
qed

section \<open>The atoms of a variable\<close>

lemma decoded_at:
  assumes S: "session_ok T R"
  shows "var_of T R a = Some x \<longleftrightarrow>
    (if unat a < length (at_decode T) then kind_var (at_decode T ! unat a) = x
     else \<exists>i < length (la_decode R). a = word_of_nat (length (at_decode T) + i) \<and> kind_var (la_decode R ! i) = x)"
proof (cases "unat a < length (at_decode T)")
  case True
  then show ?thesis by (simp add: var_of_def atom_decode_def)
next
  case False
  let ?b = "length (at_decode T)"
  have R: "la_base R = Some (word_of_nat ?b)" "?b + length (la_decode R) \<le> 2 ^ 31" using S by (simp_all add: session_ok_def registry_ok_def)
  have ub: "unat (word_of_nat ?b :: atom) = ?b" using R(2) by (intro unat_small) simp
  have le: "word_of_nat ?b \<le> a" using False by (simp add: word_le_nat_alt ub)
  have d: "unat (a - word_of_nat ?b) = unat a - ?b" using unat_sub [OF le] by (simp add: ub)
  have a: "a = word_of_nat (?b + i) \<longleftrightarrow> unat a - ?b = i" if "i < length (la_decode R)" for i
  proof -
    have "unat (word_of_nat (?b + i) :: atom) = ?b + i" using that R(2) by (intro unat_small) simp
    then show ?thesis using False by (metis add_diff_cancel_left' le_add_diff_inverse not_less word_eq_iff_unsigned)
  qed
  have "var_of T R a = Some x \<longleftrightarrow> unat a - ?b < length (la_decode R) \<and> kind_var (la_decode R ! (unat a - ?b)) = x"
    using False R(1) by (auto simp: var_of_def atom_decode_def lazy_decode_def d Let_def)
  also have "\<dots> \<longleftrightarrow> (\<exists>i < length (la_decode R). a = word_of_nat (?b + i) \<and> kind_var (la_decode R ! i) = x)"
  proof -
    have "(\<exists>i < length (la_decode R). a = word_of_nat (?b + i) \<and> kind_var (la_decode R ! i) = x) \<longleftrightarrow>
        (\<exists>i < length (la_decode R). unat a - ?b = i \<and> kind_var (la_decode R ! i) = x)"
      by (intro ex_cong1 conj_cong refl) (rule a)
    then show ?thesis by simp
  qed
  finally show ?thesis using False by simp
qed

text \<open>
  C40. \<open>append_atoms\<close> lists exactly the atoms numbered for a variable, each once, whether they
  were numbered with the table or on demand; they go behind what the buffer held.
\<close>

theorem atoms_of_variable:
  assumes "session_ok T R" "x < length (at_vars T)"
  shows "\<exists>as. append_atoms T R x out = Some (out @ as) \<and> distinct as \<and> (\<forall>a. a \<in> set as \<longleftrightarrow> var_of T R a = Some x)"
proof -
  let ?a = "at_vars T ! x" and ?b = "length (at_decode T)"
  have T: "table_ok T" and R: "registry_ok ?b R" using assms(1) by (simp_all add: session_ok_def)
  have own: "kind_var (at_decode T ! i) = x \<longleftrightarrow> unat (ge_base ?a) \<le> i \<and> i < unat (va_end ?a)" if "i < ?b" for i
    using T assms(2) that by (simp add: table_ok_def)
  have e: "unat (va_end ?a) \<le> ?b" "placed (at_decode T) x ?a" using T assms(2) by (simp_all add: table_ok_def)
  have lim: "?b + length (la_decode R) \<le> 2 ^ 31" using R by (simp add: registry_ok_def)
  have u: "unat (word_of_nat m :: atom) = m" if "m < 2 ^ 31" for m using that by (intro unat_small) simp
  show ?thesis
  proof (cases "lazy_layout (va_layout ?a)")
    case True
    then have "unat (va_end ?a) = unat (ge_base ?a)"
      using e(2) by (auto simp: placed_def lazy_layout_def va_order_def va_equal_def split: if_splits)
    then have none: "kind_var (at_decode T ! i) \<noteq> x" if "i < ?b" for i using own [OF that] by simp
    let ?is = "filter (\<lambda>i. kind_var (la_decode R ! i) = x) [0..<length (la_decode R)]"
    have bv: "by_var R x = map (\<lambda>i. word_of_nat (?b + i)) ?is" using R by (simp add: registry_ok_def)
    have inj: "inj_on (\<lambda>i. word_of_nat (?b + i) :: atom) (set ?is)"
    proof (rule inj_onI)
      fix i j assume ij: "i \<in> set ?is" "j \<in> set ?is" and w: "(word_of_nat (?b + i) :: atom) = word_of_nat (?b + j)"
      have "?b + i < 2 ^ 31" "?b + j < 2 ^ 31" using ij lim by auto
      from u [OF this(1)] u [OF this(2)] have "?b + i = ?b + j" unfolding w by (rule trans [OF sym])
      then show "i = j" by simp
    qed
    have "a \<in> set (by_var R x) \<longleftrightarrow> var_of T R a = Some x" for a
    proof -
      have "\<not> unat a < ?b" if "a = word_of_nat (?b + i)" "i < length (la_decode R)" for i
      proof -
        have "unat a = ?b + i" unfolding that(1) by (rule u) (use that(2) lim in simp)
        then show ?thesis by simp
      qed
      then show ?thesis unfolding decoded_at [OF assms(1)] bv using none [of "unat a"] by auto
    qed
    moreover have "distinct (by_var R x)" using inj by (simp add: bv distinct_map)
    ultimately show ?thesis using True assms(2) by (intro exI [of _ "by_var R x"]) (simp add: append_atoms_def var_entry_def by_var_def)
  next
    case False
    let ?as = "map word_of_nat [unat (ge_base ?a)..<unat (va_end ?a)] :: atom list"
    have lz: "(\<exists>i < length (la_decode R). a = word_of_nat (?b + i) \<and> kind_var (la_decode R ! i) = x) = False" for a
    proof -
      have "kind_var k \<noteq> x" if "k \<in> set (la_decode R)" for k using assms(1) that False by (auto simp: session_ok_def)
      then show ?thesis using nth_mem [of _ "la_decode R"] by blast
    qed
    have "a \<in> set ?as \<longleftrightarrow> var_of T R a = Some x" for a
    proof -
      have m: "a \<in> set ?as \<longleftrightarrow> unat (ge_base ?a) \<le> unat a \<and> unat a < unat (va_end ?a)"
      proof
        assume "a \<in> set ?as"
        then obtain i where i: "a = word_of_nat i" "unat (ge_base ?a) \<le> i" "i < unat (va_end ?a)" by auto
        moreover have "unat (word_of_nat i :: atom) = i" using i(3) e(1) lim by (intro u) simp
        ultimately show "unat (ge_base ?a) \<le> unat a \<and> unat a < unat (va_end ?a)" by simp
      next
        assume "unat (ge_base ?a) \<le> unat a \<and> unat a < unat (va_end ?a)"
        then show "a \<in> set ?as" by (auto intro!: image_eqI [of _ _ "unat a"])
      qed
      show ?thesis unfolding m decoded_at [OF assms(1)] lz using own [of "unat a"] e(1) by (cases "unat a < ?b") simp_all
    qed
    moreover have "distinct ?as"
    proof -
      have "inj_on (word_of_nat :: nat \<Rightarrow> atom) (set [unat (ge_base ?a)..<unat (va_end ?a)])"
      proof (rule inj_onI)
        fix i j assume ij: "i \<in> set [unat (ge_base ?a)..<unat (va_end ?a)]" "j \<in> set [unat (ge_base ?a)..<unat (va_end ?a)]"
          and w: "(word_of_nat i :: atom) = word_of_nat j"
        have "i < 2 ^ 31" "j < 2 ^ 31" using ij e(1) lim by auto
        then show "i = j" using arg_cong [OF w, of unat] by (simp add: u)
      qed
      then show ?thesis by (simp add: distinct_map)
    qed
    ultimately show ?thesis using False assms(2) by (intro exI [of _ ?as]) (simp add: append_atoms_def var_entry_def)
  qed
qed

theorem atoms_of_variable_witness:
  "\<exists>T R as. build_active_sparse 4 four_facts = Some (T, R) \<and> append_atoms T R 1 [] = Some as \<and> distinct as"
proof -
  obtain T R where T: "build_active_sparse 4 four_facts = Some (T, R)" "session_ok T R" "length (at_vars T) = 4" by (rule four_session)
  then show ?thesis using atoms_of_variable [OF T(2), of 1 "[]"] by auto
qed

section \<open>Literals and domains\<close>

lemma decoded_fits:
  assumes S: "session_ok T R" and d: "atom_decode T R a = Some kind"
  shows "kind_fits kind" "kind_var kind < length (at_vars T)"
proof -
  have "kind_fits kind \<and> kind_var kind < length (at_vars T)"
  proof (cases "unat a < length (at_decode T)")
    case False
    then have "kind \<in> set (la_decode R)" using d by (auto simp: atom_decode_def lazy_decode_def Let_def split: option.splits if_splits)
    then show ?thesis using S by (simp add: session_ok_def)
  next
    case True
    let ?x = "kind_var kind" and ?D = "at_decode T"
    have T: "table_ok T" using S by (simp add: session_ok_def)
    have k: "?D ! unat a = kind" using d True by (simp add: atom_decode_def)
    then have x: "?x < length (at_vars T)" "unat (ge_base (at_vars T ! ?x)) \<le> unat a" "unat a < unat (va_end (at_vars T ! ?x))"
      using T True by (auto simp: table_ok_def)
    let ?a = "at_vars T ! ?x"
    have sh: "entry_shape ?a" "placed ?D ?x ?a" using T x(1) by (simp_all add: table_ok_def)
    have act: "va_active ?a" using sh(2) x(2,3) by (cases "va_active ?a") (simp_all add: placed_def)
    then obtain before after where p: "?D = before @ va_order ?x ?a @ va_equal ?x ?a @ after" "unat (ge_base ?a) = length before"
      "unat (va_end ?a) = length before + length (va_order ?x ?a @ va_equal ?x ?a)"
      using sh(2) by (auto simp: placed_def)
    have "?D ! unat a \<in> set (va_order ?x ?a @ va_equal ?x ?a)"
      unfolding p(1) using x(2,3) p(2,3) by (auto simp: nth_append)
    then have mem: "kind \<in> set (va_order ?x ?a @ va_equal ?x ?a)" by (simp add: k)
    have b: "in_i32 (va_lo ?a)" "in_i32 (va_hi ?a)" using sh(1) by (simp_all add: entry_shape_def)
    have sp: "sparse_layout (va_layout ?a) \<Longrightarrow> \<exists>vs. sparse_values ?a = Some vs \<and> support_ok vs (va_lo ?a) (va_hi ?a)"
      using sh(1) by (simp add: entry_shape_def)
    have "kind_fits kind"
    proof (cases "va_layout ?a")
      case SpanLayout
      then show ?thesis using mem b by (cases kind) (auto simp: va_order_def va_equal_def kind_fits_def in_i32_def)
    next
      case SparseLayout
      then obtain vs where vs: "sparse_values ?a = Some vs" "support_ok vs (va_lo ?a) (va_hi ?a)" using sp by auto
      have "\<exists>i. 0 < i \<and> i < length vs \<and> k = vs ! i" if "k \<in> set (drop 1 vs)" for k
      proof -
        obtain i where "i < length vs - 1" "k = vs ! Suc i" using \<open>k \<in> set (drop 1 vs)\<close> by (auto simp: in_set_conv_nth)
        then show ?thesis by (intro exI [of _ "Suc i"]) simp
      qed
      then have "kind_fits (AGe y k)" if "k \<in> set (drop 1 vs)" for y k using that above_first [OF vs(2)] between_fits(1) [OF b] by blast
      moreover have "kind_fits (AEq y k)" if "k \<in> set vs" for y k using support_bounds [OF vs(2) that] between_fits(2) [OF b] by blast
      moreover have "kind \<in> AGe ?x ` set (drop 1 vs) \<union> AEq ?x ` set vs" using mem by (simp add: va_order_def va_equal_def SparseLayout vs(1))
      ultimately show ?thesis by (metis UnE imageE)
    next
      case SignLayout
      then have "kind = AGe ?x 1" using mem by (auto simp: va_order_def va_equal_def)
      moreover have "in_i32 1" "in_i32 0" by code_simp+
      ultimately show ?thesis by (cases kind) (auto simp: kind_fits_def)
    qed (use mem in \<open>auto simp: va_order_def va_equal_def\<close>)
    then show ?thesis using x(1) by simp
  qed
  then show "kind_fits kind" "kind_var kind < length (at_vars T)" by blast+
qed

lemma within_lit:
  assumes n: "kind_var kind < length (domains st)" and al: "alive st"
  shows "(\<forall>a. within a st \<longrightarrow> (kind_holds kind a \<longleftrightarrow> p)) \<longleftrightarrow> (\<forall>y \<in> vals st (kind_var kind). permits kind p y)"
proof
  assume A: "\<forall>a. within a st \<longrightarrow> (kind_holds kind a \<longleftrightarrow> p)"
  show "\<forall>y \<in> vals st (kind_var kind). permits kind p y"
  proof
    fix y assume y: "y \<in> vals st (kind_var kind)"
    define a where "a v = (if v = kind_var kind then y else (SOME z. z \<in> vals st v))" for v
    have "within a st" using y al some_in_eq by (auto simp: within_def a_def alive_def)
    then show "permits kind p y" using A permits_holds [of kind p a] by (simp add: a_def)
  qed
next
  assume "\<forall>y \<in> vals st (kind_var kind). permits kind p y"
  then have "permits kind p (a (kind_var kind))" if "within a st" for a using that n by (auto simp: within_def)
  then show "\<forall>a. within a st \<longrightarrow> (kind_holds kind a \<longleftrightarrow> p)" unfolding permits_holds by blast
qed

lemma within_some:
  assumes n: "kind_var kind < length (domains st)" and al: "alive st"
  shows "(\<exists>a. within a st \<and> permits kind p (a (kind_var kind))) \<longleftrightarrow> (\<exists>y \<in> vals st (kind_var kind). permits kind p y)"
proof -
  have nt: "permits kind (\<not> p) y \<longleftrightarrow> \<not> permits kind p y" for y by (cases kind) auto
  show ?thesis using within_lit [OF assms, of "\<not> p"] unfolding permits_holds nt by blast
qed

text \<open>
  C21. The truth of a literal read from the domains is three-valued logic made exact: true when
  the literal holds at every assignment within the domains, false when it holds at none.
\<close>

theorem literal_value_exact:
  assumes "session_ok T R" "atom_decode T R (lit_atom l) \<noteq> None" "good st" "alive st" "length (at_vars T) \<le> length (domains st)"
  shows "(lit_value st T R l = Some TriTrue \<longleftrightarrow> (\<forall>a. within a st \<longrightarrow> lit_true T R l a)) \<and>
    (lit_value st T R l = Some TriFalse \<longleftrightarrow> (\<forall>a. within a st \<longrightarrow> \<not> lit_true T R l a))"
proof -
  obtain kind where k: "atom_decode T R (lit_atom l) = Some kind" using assms(2) by auto
  have n: "kind_var kind < length (domains st)" using decoded_fits(2) [OF assms(1) k] assms(5) by simp
  have st: "doms_ok st" "vals st (kind_var kind) \<noteq> {}" using assms(3,4) n by (auto simp: good_def alive_def)
  note V = atom_value_ok [OF st(1) n st(2)] and W = within_lit [OF n assms(4)]
  have t: "lit_true T R l a \<longleftrightarrow> (kind_holds kind a \<longleftrightarrow> is_positive l)" for a by (simp add: lit_true_def k)
  have ng: "tri_negate t = TriTrue \<longleftrightarrow> t = TriFalse" "tri_negate t = TriFalse \<longleftrightarrow> t = TriTrue" for t by (cases t; simp)+
  have W': "(\<forall>a. within a st \<longrightarrow> \<not> (kind_holds kind a \<longleftrightarrow> p)) \<longleftrightarrow> (\<forall>y \<in> vals st (kind_var kind). permits kind (\<not> p) y)" for p
    using W [of "\<not> p"] by simp
  show ?thesis by (cases "is_positive l") (simp_all only: t W W' lit_value_def k option.map option.inject V ng if_True if_False not_True_eq_False not_False_eq_True)
qed

text \<open>The literal for \<open>v0 >= 2\<close> over the store of \<open>v0\<close> in 0..3 and \<open>v1\<close> in 2..5.\<close>

definition pair_facts :: var_facts where
  "pair_facts = \<lparr>vf_active = \<lambda>_. True, vf_sign = \<lambda>_. False, vf_support = \<lambda>_. None, vf_bounds = (\<lambda>x. [(0, 3), (2, 5)] ! x)\<rparr>"

lemma pair_literal:
  obtains T R l where "session_ok T R" "length (at_vars T) = 2" "atom_decode T R (lit_atom l) \<noteq> None"
    "ask_all T [AskGe 0 2] (snd (the (build_active_sparse 2 pair_facts))) = Some ([ALit l], R)" "fst (the (build_active_sparse 2 pair_facts)) = T"
    "\<forall>f. f 0 \<in> {0..3} \<and> f 1 \<in> {2..5} \<longrightarrow> (lit_true T R l f \<longleftrightarrow> 2 \<le> f 0)"
proof -
  have F: "\<forall>x < 2. facts_ok pair_facts x"
    by (simp add: pair_facts_def facts_ok_def less_2_cases_iff in_i32_def i32_min_def i32_max_def all_conj_distrib)
  have q: "\<forall>q \<in> set [AskGe 0 2]. asked q < 2 \<and> vf_active pair_facts (asked q)" by (simp add: pair_facts_def)
  obtain T R ls R' where r: "build_active_sparse 2 pair_facts = Some (T, R)" "ask_all T [AskGe 0 2] R = Some (ls, R')" "length ls = 1"
    using run_returns [OF F _ q] by auto
  have B: "session_ok T R" "length (at_vars T) = 2" "\<forall>x < 2. described pair_facts x (at_vars T ! x)"
    using build_ok [OF r(1) [unfolded build_active_sparse_def] F] by (simp_all add: registry_new_def)
  obtain c where c: "ls = [c]" using r(3) by (cases ls) auto
  have A: "session_ok T R'" "numbered T R' c" "\<And>f. rooted T f \<Longrightarrow> loc_true T R' c f \<longleftrightarrow> 2 \<le> f 0"
    using ask_all_ok [OF B(1) r(2)] by (simp_all add: c)
  have root: "rooted T f" if "f 0 \<in> {0..3}" "f 1 \<in> {2..5}" for f
    using that B(2,3) described_root [of pair_facts] by (auto simp: rooted_def in_facts_def pair_facts_def less_2_cases_iff)
  have "loc_true T R' c (\<lambda>x. 3)" "\<not> loc_true T R' c (\<lambda>x. if x = 0 then 0 else 2)" using A(3) root by simp_all
  then obtain l where l: "c = ALit l" by (cases c) auto
  show thesis
    by (rule that [of T R' l]) (use A B r root c l in \<open>simp_all add: numbered_def\<close>)
qed

theorem literal_value_exact_witness:
  "\<exists>T R l. ask_all T [AskGe 0 2] (snd (the (build_active_sparse 2 pair_facts))) = Some ([ALit l], R) \<and> fst (the (build_active_sparse 2 pair_facts)) = T \<and>
    lit_value pair_store T R l \<noteq> Some TriTrue \<and> lit_value pair_store T R l \<noteq> Some TriFalse"
proof -
  obtain T R l where L: "session_ok T R" "length (at_vars T) = 2" "atom_decode T R (lit_atom l) \<noteq> None"
    "ask_all T [AskGe 0 2] (snd (the (build_active_sparse 2 pair_facts))) = Some ([ALit l], R)" "fst (the (build_active_sparse 2 pair_facts)) = T"
    "\<forall>f. f 0 \<in> {0..3} \<and> f 1 \<in> {2..5} \<longrightarrow> (lit_true T R l f \<longleftrightarrow> 2 \<le> f 0)"
    by (rule pair_literal)
  have "length (at_vars T) \<le> length (domains pair_store)" by (simp add: L(2) pair_store_ok)
  note V = literal_value_exact [OF L(1,3) pair_store_ok(1,4) this]
  have w: "within f pair_store" if "f 0 \<in> {0..3}" "f 1 \<in> {2..5}" for f
    using that pair_store_vals by (auto simp: within_def pair_store_ok(3) less_2_cases_iff)
  have "within (\<lambda>x. 3) pair_store" "lit_true T R l (\<lambda>x. 3)" using w L(6) by simp_all
  moreover have "within (\<lambda>x. if x = 0 then 0 else 2) pair_store" "\<not> lit_true T R l (\<lambda>x. if x = 0 then 0 else 2)" using w L(6) by simp_all
  ultimately show ?thesis using V L(4,5) by blast
qed

text \<open>
  C18. Enforcing a literal keeps exactly the values of its variable that satisfy it, leaves the
  other domains and the saved levels alone, and fails exactly when no value satisfies it.
\<close>

theorem literal_enforced_exactly:
  assumes "session_ok T R" "atom_decode T R (lit_atom l) = Some kind" "good st" "alive st" "length (at_vars T) \<le> length (domains st)"
  shows "\<exists>st' r. lit_apply T R l st = Some (st', r) \<and> good st' \<and> st_saved st' = st_saved st \<and>
    (is_ok r \<longleftrightarrow> (\<exists>a. within a st \<and> lit_true T R l a)) \<and>
    (is_ok r \<longrightarrow> st_view st' = (st_view st)[kind_var kind := {y \<in> vals st (kind_var kind). permits kind (is_positive l) y}] \<and>
       (\<forall>a. within a st' \<longleftrightarrow> within a st \<and> lit_true T R l a))"
proof -
  let ?p = "is_positive l" and ?x = "kind_var kind"
  have n: "?x < length (domains st)" using decoded_fits(2) [OF assms(1,2)] assms(5) by simp
  have st: "vals st ?x \<noteq> {}" using assms(4) n by (auto simp: alive_def)
  obtain st' r where run: "enforce kind ?p st = (st', r)" by fastforce
  note E = enforce_ok [OF assms(3) n st decoded_fits(1) [OF assms(1,2)] run]
  have t: "lit_true T R l a \<longleftrightarrow> permits kind ?p (a ?x)" for a by (simp add: lit_true_def assms(2) permits_holds)
  have ok: "is_ok r \<longleftrightarrow> (\<exists>a. within a st \<and> lit_true T R l a)"
    unfolding E(3) t within_some [OF n assms(4)] by (rule refl)
  have "within a st' \<longleftrightarrow> within a st \<and> lit_true T R l a" if "is_ok r" for a
  proof -
    have len: "length (domains st') = length (domains st)" using arg_cong [OF E(4) [OF that], of length] by simp
    have "vals st' v = (if v = ?x then {y \<in> vals st ?x. permits kind ?p y} else vals st v)" if v: "v < length (domains st)" for v
    proof -
      have "vals st' v = st_view st' ! v" using v len by simp
      also have "\<dots> = (st_view st)[?x := {y \<in> vals st ?x. permits kind ?p y}] ! v" by (simp only: E(4) [OF \<open>is_ok r\<close>])
      also have "\<dots> = (if v = ?x then {y \<in> vals st ?x. permits kind ?p y} else vals st v)" using v n by (simp add: nth_list_update)
      finally show ?thesis .
    qed
    then show ?thesis unfolding within_def len t using n by auto
  qed
  then show ?thesis using run E ok by (intro exI [of _ st'] exI [of _ r]) (simp add: lit_apply_def assms(2))
qed

theorem literal_enforced_exactly_witness:
  "\<exists>T R l st'. ask_all T [AskGe 0 2] (snd (the (build_active_sparse 2 pair_facts))) = Some ([ALit l], R) \<and> fst (the (build_active_sparse 2 pair_facts)) = T \<and>
    lit_apply T R l pair_store = Some (st', Ok ()) \<and> (\<forall>a. within a st' \<longleftrightarrow> within a pair_store \<and> lit_true T R l a)"
proof -
  obtain T R l where L: "session_ok T R" "length (at_vars T) = 2" "atom_decode T R (lit_atom l) \<noteq> None"
    "ask_all T [AskGe 0 2] (snd (the (build_active_sparse 2 pair_facts))) = Some ([ALit l], R)" "fst (the (build_active_sparse 2 pair_facts)) = T"
    "\<forall>f. f 0 \<in> {0..3} \<and> f 1 \<in> {2..5} \<longrightarrow> (lit_true T R l f \<longleftrightarrow> 2 \<le> f 0)"
    by (rule pair_literal)
  obtain kind where k: "atom_decode T R (lit_atom l) = Some kind" using L(3) by auto
  have "length (at_vars T) \<le> length (domains pair_store)" by (simp add: L(2) pair_store_ok)
  from literal_enforced_exactly [OF L(1) k pair_store_ok(1,4) this]
  obtain st' r where R: "lit_apply T R l pair_store = Some (st', r)" "is_ok r \<longleftrightarrow> (\<exists>a. within a pair_store \<and> lit_true T R l a)"
    "is_ok r \<Longrightarrow> \<forall>a. within a st' \<longleftrightarrow> within a pair_store \<and> lit_true T R l a" by blast
  have "within (\<lambda>x. 3) pair_store" using pair_store_vals by (auto simp: within_def pair_store_ok(3) less_2_cases_iff)
  moreover have "lit_true T R l (\<lambda>x. 3)" using L(6) by simp
  ultimately have "is_ok r" using R(2) by blast
  moreover from this have "r = Ok ()" by (cases r) simp_all
  ultimately show ?thesis using R L(4,5) by blast
qed

end
