(* ===== verification/ClausePool.thy ===== *)
theory ClausePool imports ClauseDb begin

text \<open>
  The shared clause pool of \<open>src/src/lcg/clause.rs\<close>: a ring of fixed capacity behind a lock,
  with a counter of everything ever written. A worker publishes short clauses of low LBD and
  reads what is new with a cursor of its own.
\<close>

section \<open>The pool\<close>

definition max_shared_len :: nat where "max_shared_len = 8"
definition max_shared_lbd :: nat where "max_shared_lbd = 4"
definition shared_pool_cap :: nat where "shared_pool_cap = 2 ^ 14"

record shared_clause =
  sc_lits :: "lit list"
  sc_lbd :: nat
  sc_source :: nat

record shared_ring =
  rg_slots :: "shared_clause option list"
  rg_mask :: nat
  rg_write :: nat

record clause_pool =
  cp_ring :: shared_ring
  cp_imported :: "64 word"
  cp_lazy :: lazy_atoms

text \<open>The position of the highest set bit, as \<open>BITS - 1 - leading_zeros\<close> gives it.\<close>

fun highest_bit :: "nat \<Rightarrow> nat" where
  "highest_bit n = (if n < 2 then 0 else Suc (highest_bit (n div 2)))"

declare highest_bit.simps [simp del]

definition with_capacity :: "nat \<Rightarrow> clause_pool" where
  "with_capacity requested =
     (let cap = push_bit (highest_bit (max requested 1)) 1
      in \<lparr>cp_ring = \<lparr>rg_slots = replicate cap None, rg_mask = cap - 1, rg_write = 0\<rparr>, cp_imported = 0, cp_lazy = registry_new\<rparr>)"

definition pool_default :: clause_pool where
  "pool_default = with_capacity shared_pool_cap"

definition pool_len :: "clause_pool \<Rightarrow> nat" where
  "pool_len p = rg_write (cp_ring p)"

definition ring_slot :: "shared_ring \<Rightarrow> nat \<Rightarrow> shared_clause option" where
  "ring_slot rg i = rg_slots rg ! (i AND rg_mask rg)"

text \<open>The clauses of a window of write positions; a slot never written is skipped.\<close>

definition ring_window :: "shared_ring \<Rightarrow> nat \<Rightarrow> shared_clause list" where
  "ring_window rg start = List.map_filter (ring_slot rg) [start..<rg_write rg]"

definition snapshot :: "nat \<Rightarrow> clause_pool \<Rightarrow> (nat \<times> lit list) list" where
  "snapshot limit p =
     (let rg = cp_ring p; write = rg_write rg; cap = rg_mask rg + 1; start = write - cap;
          start = (if limit > 0 then max start (write - limit) else start)
      in map (\<lambda>c. (sc_lbd c, sc_lits c)) (ring_window rg start))"

record clause_sharing =
  cs_worker :: nat
  cs_cursor :: nat

definition sharing_new :: "nat \<Rightarrow> clause_sharing" where
  "sharing_new worker = \<lparr>cs_worker = worker, cs_cursor = 0\<rparr>"

definition shareable :: "lit list \<Rightarrow> nat \<Rightarrow> bool" where
  "shareable lits lbd \<longleftrightarrow> \<not> (lits = [] \<or> length lits > max_shared_len \<or> lbd > max_shared_lbd)"

definition publish :: "clause_sharing \<Rightarrow> lit list \<Rightarrow> nat \<Rightarrow> clause_pool \<Rightarrow> clause_pool" where
  "publish s lits lbd p =
     (if \<not> shareable lits lbd then p
      else let rg = cp_ring p; idx = rg_write rg AND rg_mask rg
           in p\<lparr>cp_ring := rg\<lparr>rg_slots := (rg_slots rg)[idx := Some \<lparr>sc_lits = lits, sc_lbd = lbd, sc_source = cs_worker s\<rparr>],
                rg_write := (rg_write rg + 1) mod 2 ^ 64\<rparr>\<rparr>)"

definition copy_new_into :: "clause_sharing \<Rightarrow> clause_pool \<Rightarrow> shared_clause list \<times> clause_sharing" where
  "copy_new_into s p =
     (let rg = cp_ring p; write = rg_write rg; cap = rg_mask rg + 1; start = max (cs_cursor s) (write - cap)
      in (ring_window rg start, s\<lparr>cs_cursor := write\<rparr>))"

definition is_own :: "clause_sharing \<Rightarrow> shared_clause \<Rightarrow> bool" where
  "is_own s c \<longleftrightarrow> sc_source c = cs_worker s"

definition record_import :: "clause_pool \<Rightarrow> clause_pool" where
  "record_import p = p\<lparr>cp_imported := cp_imported p + 1\<rparr>"

lemma highest_bit_ok: "0 < n \<Longrightarrow> 2 ^ highest_bit n \<le> n \<and> n < 2 * 2 ^ highest_bit n"
proof (induction n rule: highest_bit.induct)
  case (1 n)
  show ?case
  proof (cases "n < 2")
    case True
    then show ?thesis using 1 by (simp add: highest_bit.simps [of n])
  next
    case False
    then have "2 ^ highest_bit (n div 2) \<le> n div 2 \<and> n div 2 < 2 * 2 ^ highest_bit (n div 2)" using 1 by simp
    moreover have "highest_bit n = Suc (highest_bit (n div 2))" using False by (simp add: highest_bit.simps [of n])
    ultimately show ?thesis by (simp add: le_div_geq) linarith
  qed
qed

section \<open>The ring as the end of a log\<close>

text \<open>What was published, oldest first, and the ring that stands for it.\<close>

definition ring_ok :: "shared_clause list \<Rightarrow> shared_ring \<Rightarrow> bool" where
  "ring_ok log rg \<longleftrightarrow> (\<exists>k. length (rg_slots rg) = 2 ^ k \<and> rg_mask rg = 2 ^ k - 1) \<and> rg_write rg = length log \<and> length log < 2 ^ 64 \<and>
     (\<forall>i < length log. length log \<le> i + length (rg_slots rg) \<longrightarrow> rg_slots rg ! (i mod length (rg_slots rg)) = Some (log ! i))"

lemma and_mask_mod: "(n :: nat) AND (2 ^ k - Suc 0) = n mod 2 ^ k"
proof -
  have "n AND (2 ^ k - 1) = take_bit k n" by (simp only: take_bit_eq_mask mask_eq_exp_minus_1)
  then show ?thesis by (simp add: take_bit_eq_mod)
qed

lemma ring_slot_mod: "ring_ok log rg \<Longrightarrow> ring_slot rg i = rg_slots rg ! (i mod length (rg_slots rg))"
  by (auto simp: ring_ok_def ring_slot_def and_mask_mod)

lemma ring_cap: "ring_ok log rg \<Longrightarrow> rg_mask rg + 1 = length (rg_slots rg) \<and> 0 < length (rg_slots rg)"
  by (auto simp: ring_ok_def)

lemma ring_ok_new: "ring_ok [] (cp_ring (with_capacity n))"
  by (auto simp: ring_ok_def with_capacity_def Let_def push_bit_eq_mult)

lemma ring_ok_publish:
  assumes ok: "ring_ok log (cp_ring p)" and room: "shareable lits lbd \<Longrightarrow> Suc (length log) < 2 ^ 64"
  shows "ring_ok (if shareable lits lbd then log @ [\<lparr>sc_lits = lits, sc_lbd = lbd, sc_source = cs_worker s\<rparr>] else log)
    (cp_ring (publish s lits lbd p))"
proof (cases "shareable lits lbd")
  case True
  note n = room [OF True]
  let ?rg = "cp_ring p" and ?c = "\<lparr>sc_lits = lits, sc_lbd = lbd, sc_source = cs_worker s\<rparr>"
  let ?m = "length (rg_slots ?rg)"
  obtain k where k: "?m = 2 ^ k" "rg_mask ?rg = 2 ^ k - 1" using ok by (auto simp: ring_ok_def)
  have w: "rg_write ?rg = length log" using ok by (simp add: ring_ok_def)
  have idx: "rg_write ?rg AND rg_mask ?rg = length log mod ?m" by (simp add: w k and_mask_mod)
  have old: "i mod ?m \<noteq> length log mod ?m" if "i < length log" "Suc (length log) \<le> i + ?m" for i
  proof
    assume e: "i mod ?m = length log mod ?m"
    then have "?m dvd length log - i" using that(1) by (metis less_imp_le mod_eq_dvd_iff_nat)
    then have "?m \<le> length log - i" using that(1) by (intro dvd_imp_le) simp_all
    then show False using that by simp
  qed
  have "ring_ok (log @ [?c]) (?rg\<lparr>rg_slots := (rg_slots ?rg)[length log mod ?m := Some ?c], rg_write := (length log + 1) mod 2 ^ 64\<rparr>)"
    unfolding ring_ok_def
  proof (intro conjI allI impI)
    fix i assume i: "i < length (log @ [?c])" and r: "length (log @ [?c]) \<le> i + length (rg_slots (?rg\<lparr>rg_slots := (rg_slots ?rg)[length log mod ?m := Some ?c], rg_write := (length log + 1) mod 2 ^ 64\<rparr>))"
    show "rg_slots (?rg\<lparr>rg_slots := (rg_slots ?rg)[length log mod ?m := Some ?c], rg_write := (length log + 1) mod 2 ^ 64\<rparr>) !
        (i mod length (rg_slots (?rg\<lparr>rg_slots := (rg_slots ?rg)[length log mod ?m := Some ?c], rg_write := (length log + 1) mod 2 ^ 64\<rparr>))) = Some ((log @ [?c]) ! i)"
    proof (cases "i = length log")
      case True
      then show ?thesis using k by simp
    next
      case False
      then have "i < length log" "Suc (length log) \<le> i + ?m" using i r by simp_all
      from old [OF this] this show ?thesis using ok by (auto simp: ring_ok_def nth_append)
    qed
  qed (use ok n k in \<open>auto simp: ring_ok_def\<close>)
  then show ?thesis using True idx by (simp add: publish_def Let_def w)
next
  case False
  then show ?thesis using ok by (simp add: publish_def)
qed

lemma map_filter_all: "(\<And>x. x \<in> set xs \<Longrightarrow> f x = Some (g x)) \<Longrightarrow> List.map_filter f xs = map g xs"
  by (induction xs) (simp_all add: List.map_filter_simps)

lemma window_ok:
  assumes ok: "ring_ok log rg" and start: "length log \<le> start + length (rg_slots rg)"
  shows "ring_window rg start = drop start log"
proof -
  have w: "rg_write rg = length log" using ok by (simp add: ring_ok_def)
  have "ring_slot rg i = Some (log ! i)" if "i \<in> set [start..<length log]" for i
    using ok that start ring_slot_mod [OF ok] by (auto simp: ring_ok_def)
  then have "ring_window rg start = map (\<lambda>i. log ! i) [start..<length log]"
    unfolding ring_window_def w by (rule map_filter_all)
  also have "\<dots> = drop start log" by (rule nth_equalityI) simp_all
  finally show ?thesis .
qed

lemma copy_new_ok:
  assumes "ring_ok log (cp_ring p)"
  shows "copy_new_into s p = (drop (max (cs_cursor s) (length log - length (rg_slots (cp_ring p)))) log, s\<lparr>cs_cursor := length log\<rparr>)"
proof -
  have w: "rg_write (cp_ring p) = length log" using assms by (simp add: ring_ok_def)
  show ?thesis using ring_cap [OF assms] window_ok [OF assms] by (simp add: copy_new_into_def Let_def w)
qed

lemma snapshot_ok:
  assumes "ring_ok log (cp_ring p)"
  shows "snapshot limit p = map (\<lambda>c. (sc_lbd c, sc_lits c))
    (drop (length log - (if limit > 0 then min limit (length (rg_slots (cp_ring p))) else length (rg_slots (cp_ring p)))) log)"
proof -
  have w: "rg_write (cp_ring p) = length log" using assms by (simp add: ring_ok_def)
  have "max (length log - length (rg_slots (cp_ring p))) (length log - limit) = length log - min limit (length (rg_slots (cp_ring p)))" by simp
  then show ?thesis using ring_cap [OF assms] window_ok [OF assms] by (simp add: snapshot_def Let_def w)
qed

end
