(* ===== verification/ClauseSpec.thy ===== *)
theory ClauseSpec imports ClausePool "HOL-Library.Sublist" begin

text \<open>The properties of the clause arena and of the shared clause pool.\<close>

section \<open>The arena\<close>

text \<open>
  A run of the arena beside the finite map it stands for and the most clauses that were live
  at once. Only live clauses are removed or get new watches.
\<close>

inductive arena :: "clause_db \<Rightarrow> (clause_ref \<Rightarrow> db_clause option) \<Rightarrow> nat \<Rightarrow> bool" where
  arena_new: "arena db_new Map.empty 0"
| arena_add: "\<lbrakk>arena db M k; card (dom M) < 2 ^ 32; db_add lits watch del lbd db = Some (c, db')\<rbrakk> \<Longrightarrow>
    arena db' (M(c \<mapsto> \<lparr>dc_lits = lits, dc_watch = watch, dc_deletable = del, dc_lbd = lbd\<rparr>)) (max k (Suc (card (dom M))))"
| arena_remove: "\<lbrakk>arena db M k; c \<in> dom M; db_remove c db = Some db'\<rbrakk> \<Longrightarrow> arena db' (M(c := None)) k"
| arena_watch: "\<lbrakk>arena db M k; M c = Some cl; db_set_watch c w db = Some db'\<rbrakk> \<Longrightarrow> arena db' (M(c \<mapsto> cl\<lparr>dc_watch := w\<rparr>)) k"

lemma set_watch_ok:
  assumes ok: "db_ok db" and c: "live db c = Some cl" and run: "db_set_watch c w db = Some db'"
  shows "db_ok db' \<and> live db' = (live db)(c \<mapsto> cl\<lparr>dc_watch := w\<rparr>) \<and> db_len db' = db_len db \<and> live_len db' = live_len db"
proof -
  have i: "unat c < length (db_clauses db)" "c \<notin> set (db_free db)" "db_clauses db ! unat c = cl"
    using c by (auto simp: live_def db_get_def split: if_splits)
  have db': "db' = db\<lparr>db_clauses := (db_clauses db)[unat c := cl\<lparr>dc_watch := w\<rparr>]\<rparr>" using run i by (simp add: db_set_watch_def db_get_def)
  have "live db' d = ((live db)(c \<mapsto> cl\<lparr>dc_watch := w\<rparr>)) d" for d
    using i slot_unique [of d c] by (auto simp: db' live_def db_get_def nth_list_update)
  then have "live db' = (live db)(c \<mapsto> cl\<lparr>dc_watch := w\<rparr>)" by (rule ext)
  then show ?thesis using ok by (simp add: db' db_ok_def db_len_def live_len_def)
qed

lemma arena_ok:
  assumes "arena db M k"
  shows "db_ok db \<and> live db = M \<and> db_len db = k"
  using assms
proof induction
  case arena_new
  then show ?case by (simp add: db_ok_def db_new_def live_def db_get_def db_len_def fun_eq_iff)
next
  case (arena_add db M k lits watch del lbd c db')
  then have ok: "db_ok db" and M: "live db = M" by simp_all
  have "length (db_clauses db) < 2 ^ 32" if "db_free db = []"
    using live_count(1) [OF ok] arena_add.hyps(2) that by (simp add: M live_len_def)
  then obtain c' db'' where A: "db_add lits watch del lbd db = Some (c', db'')" "db_ok db''" "live db c' = None"
      "live db'' = (live db)(c' \<mapsto> \<lparr>dc_lits = lits, dc_watch = watch, dc_deletable = del, dc_lbd = lbd\<rparr>)"
      "live_len db'' = Suc (live_len db)" "db_len db'' = max (db_len db) (live_len db'')"
    by (rule add_ok [OF ok])
  then show ?case using arena_add live_count(1) [OF ok] by simp
next
  case (arena_remove db M k c db')
  then have ok: "db_ok db" and c: "c \<in> dom (live db)" by simp_all
  obtain db'' where "db_remove c db = Some db''" "db_ok db''" "live db'' = (live db)(c := None)" "db_len db'' = db_len db"
    by (rule remove_ok [OF ok c])
  then show ?case using arena_remove by simp
next
  case (arena_watch db M k c cl w db')
  then show ?case using set_watch_ok [of db c cl w db'] by (elim conjE) (simp del: fun_upd_apply)
qed

text \<open>
  C19. The arena is a finite map from handles to clauses: every live clause is read back as it
  was added, with its current watches, however slots were reused; a new clause gets a handle
  that no live clause has; removing a live clause always works and leaves an empty tombstone;
  the live clauses are counted exactly, and the arena has never more slots than the most
  clauses that were live at once.
\<close>

theorem arena_refines_map:
  assumes "arena db M k"
  shows "(\<forall>c \<in> dom M. db_get db c = M c) \<and> live_len db = card (dom M) \<and> db_len db = k \<and>
    (card (dom M) < 2 ^ 32 \<longrightarrow> (\<exists>c db'. db_add lits watch del lbd db = Some (c, db') \<and> c \<notin> dom M)) \<and>
    (\<forall>c \<in> dom M. \<exists>db' cl. db_remove c db = Some db' \<and> db_get db' c = Some cl \<and> dc_lits cl = [])"
proof -
  have A: "db_ok db" "live db = M" "db_len db = k" using arena_ok [OF assms] by simp_all
  have get: "db_get db c = M c" if "c \<in> dom M" for c
    using that unfolding A(2) [symmetric] by (auto simp: live_def split: if_splits)
  have "\<exists>c db'. db_add lits watch del lbd db = Some (c, db') \<and> c \<notin> dom M" if n: "card (dom M) < 2 ^ 32"
  proof -
    have "length (db_clauses db) < 2 ^ 32" if "db_free db = []"
      using live_count(1) [OF A(1)] that n by (simp add: A(2) live_len_def)
    then obtain c db' where "db_add lits watch del lbd db = Some (c, db')" "live db c = None" by (rule add_ok [OF A(1)])
    then show ?thesis using A(2) by auto
  qed
  moreover have "\<exists>db' cl. db_remove c db = Some db' \<and> db_get db' c = Some cl \<and> dc_lits cl = []" if "c \<in> dom M" for c
  proof -
    have "c \<in> dom (live db)" using that A(2) by simp
    then obtain db' where "db_remove c db = Some db'" "db_get db' c = map_option (\<lambda>cl. cl\<lparr>dc_lits := []\<rparr>) (live db c)"
      by (rule remove_ok [OF A(1)])
    then show ?thesis using that A(2) by auto
  qed
  ultimately show ?thesis using get live_count(1) [OF A(1)] A(2,3) by simp
qed

text \<open>Two clauses, the first deleted and its slot reused.\<close>

theorem arena_refines_map_witness:
  "\<exists>db M. arena db M 2 \<and> dom M = {0, 1} \<and> map_option dc_lbd (db_get db 0) = Some 3 \<and> live_len db = 2"
proof -
  let ?c = "\<lambda>n. \<lparr>dc_lits = [lit_new n True], dc_watch = (0, 0), dc_deletable = True, dc_lbd = unat n\<rparr>"
  let ?d1 = "\<lparr>db_clauses = [?c 1], db_free = []\<rparr>" and ?d2 = "\<lparr>db_clauses = [?c 1, ?c 2], db_free = []\<rparr>"
  let ?d3 = "\<lparr>db_clauses = [(?c 1)\<lparr>dc_lits := []\<rparr>, ?c 2], db_free = [0]\<rparr>" and ?d4 = "\<lparr>db_clauses = [?c 3, ?c 2], db_free = []\<rparr>"
  have "arena ?d1 (Map.empty(0 \<mapsto> ?c 1)) (max 0 (Suc (card (dom (Map.empty :: clause_ref \<Rightarrow> db_clause option)))))"
    by (rule arena_add [OF arena_new]) (simp_all add: db_add_def db_new_def)
  then have 1: "arena ?d1 [0 \<mapsto> ?c 1] 1" by simp
  have "arena ?d2 ([0 \<mapsto> ?c 1](1 \<mapsto> ?c 2)) (max 1 (Suc (card (dom [0 :: clause_ref \<mapsto> ?c 1]))))"
    by (rule arena_add [OF 1]) (simp_all add: db_add_def)
  then have 2: "arena ?d2 [0 \<mapsto> ?c 1, 1 \<mapsto> ?c 2] 2" by (simp add: eval_nat_numeral)
  have "arena ?d3 ([0 \<mapsto> ?c 1, 1 \<mapsto> ?c 2](0 := None)) 2"
    by (rule arena_remove [OF 2]) (simp_all add: db_remove_def db_get_def)
  then have 3: "arena ?d3 [1 \<mapsto> ?c 2] 2" by (simp add: fun_upd_twist)
  have "arena ?d4 ([1 \<mapsto> ?c 2](0 \<mapsto> ?c 3)) (max 2 (Suc (card (dom [1 :: clause_ref \<mapsto> ?c 2]))))"
    by (rule arena_add [OF 3]) (simp_all add: db_add_def)
  then have 4: "arena ?d4 [1 \<mapsto> ?c 2, 0 \<mapsto> ?c 3] 2" by (simp add: eval_nat_numeral)
  have d: "dom [1 \<mapsto> ?c 2, 0 \<mapsto> ?c 3] = {0, 1 :: clause_ref}" by auto
  from arena_refines_map [OF 4] have "live_len ?d4 = 2" "db_get ?d4 0 = Some (?c 3)" unfolding d by auto
  then have "map_option dc_lbd (db_get ?d4 0) = Some 3" by simp
  then show ?thesis using 4 d \<open>live_len ?d4 = 2\<close> by blast
qed

section \<open>The pool\<close>

datatype pool_event = Publish nat "lit list" nat | Read

text \<open>One reader beside any number of publishing workers; the batches the reader got.\<close>

fun pool_run :: "pool_event list \<Rightarrow> clause_pool \<Rightarrow> clause_sharing \<Rightarrow> clause_pool \<times> clause_sharing \<times> shared_clause list list" where
  "pool_run [] p s = (p, s, [])"
| "pool_run (Publish w lits lbd # evs) p s = pool_run evs (publish (sharing_new w) lits lbd p) s"
| "pool_run (Read # evs) p s = (case copy_new_into s p of (batch, s1) \<Rightarrow> case pool_run evs p s1 of (p2, s2, batches) \<Rightarrow> (p2, s2, batch # batches))"

text \<open>What was accepted, and whether no more than the capacity was accepted between two reads.\<close>

fun published :: "pool_event list \<Rightarrow> shared_clause list" where
  "published [] = []"
| "published (Publish w lits lbd # evs) = (if shareable lits lbd then [\<lparr>sc_lits = lits, sc_lbd = lbd, sc_source = w\<rparr>] else []) @ published evs"
| "published (Read # evs) = published evs"

fun keeps_up :: "nat \<Rightarrow> nat \<Rightarrow> pool_event list \<Rightarrow> bool" where
  "keeps_up cap pending [] \<longleftrightarrow> pending \<le> cap"
| "keeps_up cap pending (Publish w lits lbd # evs) \<longleftrightarrow> keeps_up cap (if shareable lits lbd then Suc pending else pending) evs"
| "keeps_up cap pending (Read # evs) \<longleftrightarrow> pending \<le> cap \<and> keeps_up cap 0 evs"

definition pool_cap :: "clause_pool \<Rightarrow> nat" where
  "pool_cap p = length (rg_slots (cp_ring p))"

lemma pool_cap_publish [simp]: "pool_cap (publish s lits lbd p) = pool_cap p"
  by (simp add: pool_cap_def publish_def Let_def)

lemma late_part: "subseq (drop (max c d) xs) (drop c xs)"
proof -
  have "drop (max c d) xs = drop (max c d - c) (drop c xs)" by (simp add: max_def)
  then show ?thesis using suffix_drop suffix_imp_subseq by metis
qed

lemma pool_run_ok:
  assumes "ring_ok log (cp_ring p)" "cs_cursor s \<le> length log" "length log + length (published evs) < 2 ^ 64"
    and "pool_run (evs @ [Read]) p s = (p', s', batches)"
  shows "subseq (concat batches) (drop (cs_cursor s) log @ published evs) \<and> ring_ok (log @ published evs) (cp_ring p') \<and>
    (keeps_up (pool_cap p) (length log - cs_cursor s) evs \<longrightarrow> concat batches = drop (cs_cursor s) log @ published evs)"
  using assms
proof (induction evs arbitrary: log p s batches)
  case Nil
  have b: "batches = [drop (max (cs_cursor s) (length log - pool_cap p)) log]" "p' = p"
    using Nil.prems copy_new_ok [OF Nil.prems(1), of s] by (auto simp: pool_cap_def)
  have "subseq (concat batches) (drop (cs_cursor s) log)" using late_part by (simp add: b)
  moreover have "concat batches = drop (cs_cursor s) log" if "length log - cs_cursor s \<le> pool_cap p"
  proof -
    have "max (cs_cursor s) (length log - pool_cap p) = cs_cursor s" using that Nil.prems(2) by simp
    then show ?thesis by (simp add: b)
  qed
  ultimately show ?case using Nil.prems(1) b(2) by simp
next
  case (Cons ev evs)
  show ?case
  proof (cases ev)
    case (Publish w lits lbd)
    let ?log = "if shareable lits lbd then log @ [\<lparr>sc_lits = lits, sc_lbd = lbd, sc_source = w\<rparr>] else log"
    have ok: "ring_ok ?log (cp_ring (publish (sharing_new w) lits lbd p))"
      using ring_ok_publish [OF Cons.prems(1), of lits lbd "sharing_new w"] Cons.prems(3)
      by (auto simp: Publish sharing_new_def publish_def split: if_splits)
    have "cs_cursor s \<le> length ?log" "length ?log + length (published evs) < 2 ^ 64" using Cons.prems(2,3) by (auto simp: Publish split: if_splits)
    note IH = Cons.IH [OF ok this]
    have run: "pool_run (evs @ [Read]) (publish (sharing_new w) lits lbd p) s = (p', s', batches)" using Cons.prems(4) by (simp add: Publish)
    show ?thesis
    proof (cases "shareable lits lbd")
      case True
      then show ?thesis using IH [OF run] Cons.prems(2) by (simp add: Publish Suc_diff_le)
    next
      case False
      then show ?thesis using IH [OF run] by (simp add: Publish)
    qed
  next
    case Read
    obtain batch s1 rest where r: "copy_new_into s p = (batch, s1)" "pool_run (evs @ [Read]) p s1 = (p', s', rest)" "batches = batch # rest"
      using Cons.prems(4) by (auto simp: Read split: prod.splits)
    have b: "batch = drop (max (cs_cursor s) (length log - pool_cap p)) log" "s1 = s\<lparr>cs_cursor := length log\<rparr>"
      using r(1) copy_new_ok [OF Cons.prems(1), of s] by (simp_all add: pool_cap_def)
    have IH: "subseq (concat rest) (published evs)" "ring_ok (log @ published evs) (cp_ring p')"
      "keeps_up (pool_cap p) 0 evs \<longrightarrow> concat rest = published evs"
      using Cons.IH [OF Cons.prems(1) _ _ r(2)] Cons.prems(3) by (simp_all add: b(2) Read)
    have "subseq batch (drop (cs_cursor s) log)" using late_part by (simp add: b(1))
    then have "subseq (concat batches) (drop (cs_cursor s) log @ published (ev # evs))" using IH(1) by (simp add: r(3) Read list_emb_append_mono)
    moreover have "concat batches = drop (cs_cursor s) log @ published (ev # evs)"
      if "length log - cs_cursor s \<le> pool_cap p" "keeps_up (pool_cap p) 0 evs"
    proof -
      have "max (cs_cursor s) (length log - pool_cap p) = cs_cursor s" using that(1) Cons.prems(2) by simp
      then show ?thesis using IH(3) that(2) by (simp add: Read r(3) b(1))
    qed
    ultimately show ?thesis using IH(2) by (simp add: Read)
  qed
qed

text \<open>
  C20. A reader of the pool gets published clauses in the order they were published, each at
  most once, whatever the interleaving; and if it never lags by more than the capacity, it gets
  every one. The capacity is the largest power of two that was asked for.
\<close>

theorem pool_reads_in_order:
  assumes "length (published evs) < 2 ^ 64" "pool_run (evs @ [Read]) (with_capacity n) (sharing_new w) = (p, s, batches)"
  shows "subseq (concat batches) (published evs) \<and>
    (keeps_up (pool_cap (with_capacity n)) 0 evs \<longrightarrow> concat batches = published evs) \<and>
    pool_cap (with_capacity n) \<le> max n 1 \<and> max n 1 < 2 * pool_cap (with_capacity n)"
proof -
  have "pool_cap (with_capacity n) = 2 ^ highest_bit (max n 1)"
    by (simp add: pool_cap_def with_capacity_def Let_def push_bit_eq_mult)
  then show ?thesis
    using pool_run_ok [OF ring_ok_new _ _ assms(2)] assms(1) highest_bit_ok [of "max n 1"] by (simp add: sharing_new_def)
qed

definition four_events :: "pool_event list" where
  "four_events = [Publish 1 [Lit 4] 2, Read, Publish 2 [Lit 6] 9, Publish 2 [Lit 8] 1]"

lemma four_events_published:
  "published four_events = [\<lparr>sc_lits = [Lit 4], sc_lbd = 2, sc_source = 1\<rparr>, \<lparr>sc_lits = [Lit 8], sc_lbd = 1, sc_source = 2\<rparr>]"
  by (simp add: four_events_def shareable_def max_shared_len_def max_shared_lbd_def)

theorem pool_reads_in_order_witness:
  "\<exists>p s batches. pool_run (four_events @ [Read]) (with_capacity 3) (sharing_new 7) = (p, s, batches) \<and>
    concat batches = [\<lparr>sc_lits = [Lit 4], sc_lbd = 2, sc_source = 1\<rparr>, \<lparr>sc_lits = [Lit 8], sc_lbd = 1, sc_source = 2\<rparr>]"
proof -
  obtain p s batches where r: "pool_run (four_events @ [Read]) (with_capacity 3) (sharing_new 7) = (p, s, batches)" by (metis prod_cases3)
  have P: "keeps_up (pool_cap (with_capacity 3)) 0 four_events \<longrightarrow> concat batches = published four_events"
    "max 3 1 < 2 * pool_cap (with_capacity 3)"
    using pool_reads_in_order [OF _ r] by (simp_all add: four_events_published)
  then have "keeps_up (pool_cap (with_capacity 3)) 0 four_events"
    by (simp add: four_events_def shareable_def max_shared_len_def max_shared_lbd_def)
  then show ?thesis using P r by (auto simp: four_events_published)
qed

text \<open>
  A snapshot of the pool is the most recent published clauses in the order they were
  published: the newest \<open>limit\<close> of them, or all, as far as the ring still holds them.
\<close>

theorem snapshot_is_recent:
  assumes "length (published evs) < 2 ^ 64" "pool_run (evs @ [Read]) (with_capacity n) (sharing_new w) = (p, s, batches)"
  shows "snapshot limit p = map (\<lambda>c. (sc_lbd c, sc_lits c))
    (drop (length (published evs) - (if limit > 0 then min limit (pool_cap p) else pool_cap p)) (published evs))"
proof -
  have "ring_ok (published evs) (cp_ring p)"
    using pool_run_ok [OF ring_ok_new _ _ assms(2)] assms(1) by (simp add: sharing_new_def)
  then show ?thesis by (simp only: snapshot_ok pool_cap_def)
qed

theorem snapshot_is_recent_witness:
  "\<exists>p s batches. pool_run (four_events @ [Read]) (with_capacity 3) (sharing_new 7) = (p, s, batches) \<and> snapshot 1 p = [(1, [Lit 8])]"
proof -
  obtain p s batches where r: "pool_run (four_events @ [Read]) (with_capacity 3) (sharing_new 7) = (p, s, batches)" by (metis prod_cases3)
  have c: "0 < pool_cap p"
  proof -
    have "ring_ok (published four_events) (cp_ring p)"
      using pool_run_ok [OF ring_ok_new _ _ r] by (simp add: sharing_new_def four_events_published)
    then show ?thesis using ring_cap by (simp add: pool_cap_def)
  qed
  have "snapshot 1 p = [(1, [Lit 8])]"
    using snapshot_is_recent [OF _ r, of 1] c by (cases "pool_cap p") (simp_all add: four_events_published)
  then show ?thesis using r by blast
qed

end
