(* ===== verification/Polled.thy ===== *)
theory Polled imports Prelude begin

text \<open>
  The control structure of the CNF preprocessor (\<open>src/src/engines/sat/mod.rs\<close>): routines
  that poll a stop flag, count, append to a proof log, and leave early.

  A program maps an environment to a result and a new environment. \<open>Err Interrupted\<close> is
  every \<open>return None\<close> or \<open>return Interrupted\<close> taken on a raised stop flag, \<open>Err Unsat\<close>
  every \<open>return Unsatisfiable\<close>, \<open>Err Panicked\<close> a panic. The stop flag is an atomic another thread may set at any
  time, so each load has its own answer: \<open>e_loads\<close> is the list of answers still to come,
  and an exhausted list means the flag stays down.
\<close>

section \<open>Environment and programs\<close>

record pp_stats =
  ps_rounds :: nat
  ps_duplicate_literals :: nat
  ps_tautological_clauses :: nat
  ps_unit_assignments :: nat
  ps_pure_assignments :: nat
  ps_subsumed_clauses :: nat
  ps_self_subsumed_literals :: nat
  ps_bve_variables :: nat
  ps_bve_resolvents :: nat
  ps_blocked_clauses :: nat
  ps_input_clauses :: nat
  ps_output_clauses :: nat

datatype proof_step = AddStep "int list" | DeleteStep "int list"

datatype exit_kind = Interrupted | Unsat | Panicked

record env =
  e_work :: nat
  e_loads :: "bool list"
  e_log :: "proof_step list option"
  e_stats :: pp_stats

type_synonym 'a prog = "env \<Rightarrow> ('a, exit_kind) result \<times> env"

definition ret :: "'a \<Rightarrow> 'a prog" where
  "ret x = (\<lambda>e. (Ok x, e))"

definition leave :: "exit_kind \<Rightarrow> 'a prog" where
  "leave k = (\<lambda>e. (Err k, e))"

definition bnd :: "'a prog \<Rightarrow> ('a \<Rightarrow> 'b prog) \<Rightarrow> 'b prog" where
  "bnd m f = (\<lambda>e. case m e of (Ok x, e') \<Rightarrow> f x e' | (Err k, e') \<Rightarrow> (Err k, e'))"

text \<open>One load of the stop flag.\<close>

definition load_stop :: "unit prog" where
  "load_stop = (\<lambda>e. case e_loads e of
      [] \<Rightarrow> (Ok (), e)
    | b # bs \<Rightarrow> ((if b then Err Interrupted else Ok ()), e\<lparr>e_loads := bs\<rparr>))"

text \<open>\<open>if preprocessing_stopped(stop, work) { return None }\<close>\<close>

definition tick :: "unit prog" where
  "tick = (\<lambda>e. let w = e_work e + 1
     in if w < 1024 then (Ok (), e\<lparr>e_work := w\<rparr>) else load_stop (e\<lparr>e_work := 0\<rparr>))"

text \<open>A routine with its own work counter.\<close>

definition own_work :: "'a prog \<Rightarrow> 'a prog" where
  "own_work m = (\<lambda>e. case m (e\<lparr>e_work := 0\<rparr>) of (r, e') \<Rightarrow> (r, e'\<lparr>e_work := e_work e\<rparr>))"

definition count :: "(pp_stats \<Rightarrow> pp_stats) \<Rightarrow> unit prog" where
  "count f = (\<lambda>e. (Ok (), e\<lparr>e_stats := f (e_stats e)\<rparr>))"

text \<open>\<open>for\<close> loops: without an exit, and with \<open>break\<close> or \<open>return\<close> (\<open>Stop\<close>).\<close>

datatype ('s, 'r) loop = Go 's | Stop 'r

fun for_each :: "('x \<Rightarrow> 's \<Rightarrow> 's prog) \<Rightarrow> 'x list \<Rightarrow> 's \<Rightarrow> 's prog" where
  "for_each f [] s = ret s"
| "for_each f (x # xs) s = bnd (f x s) (for_each f xs)"

fun for_until :: "('x \<Rightarrow> 's \<Rightarrow> ('s, 'r) loop prog) \<Rightarrow> 'x list \<Rightarrow> 's \<Rightarrow> ('s, 'r) loop prog" where
  "for_until f [] s = ret (Go s)"
| "for_until f (x # xs) s =
     bnd (f x s) (\<lambda>r. case r of Go s' \<Rightarrow> for_until f xs s' | Stop y \<Rightarrow> ret (Stop y))"

section \<open>Partial correctness\<close>

text \<open>
  \<open>spec m Q U\<close>: \<open>m\<close> does not panic, a normal result of \<open>m\<close> satisfies \<open>Q\<close>, and \<open>m\<close> reports
  unsatisfiability only if \<open>U\<close>. Nothing more is claimed of an interrupted run.
\<close>

definition spec :: "'a prog \<Rightarrow> ('a \<Rightarrow> bool) \<Rightarrow> bool \<Rightarrow> bool" where
  "spec m Q U \<longleftrightarrow> (\<forall>e. case fst (m e) of Ok x \<Rightarrow> Q x | Err k \<Rightarrow> k \<noteq> Panicked \<and> (k = Unsat \<longrightarrow> U))"

named_theorems spec_rules \<open>introduction rules for \<open>spec\<close>\<close>

lemma spec_ret [spec_rules]: "Q x \<Longrightarrow> spec (ret x) Q U"
  by (simp add: spec_def ret_def)

lemma spec_leave_interrupted [spec_rules]: "spec (leave Interrupted) Q U"
  by (simp add: spec_def leave_def)

lemma spec_leave_unsat [spec_rules]: "U \<Longrightarrow> spec (leave Unsat) Q U"
  by (simp add: spec_def leave_def)

lemma spec_bnd:
  assumes m: "spec m R U" and f: "\<And>x. R x \<Longrightarrow> spec (f x) Q U"
  shows "spec (bnd m f) Q U"
  unfolding spec_def
proof
  fix e
  obtain r e' where r: "m e = (r, e')" by fastforce
  show "case fst (bnd m f e) of Ok x \<Rightarrow> Q x | Err k \<Rightarrow> k \<noteq> Panicked \<and> (k = Unsat \<longrightarrow> U)"
    using m f r by (cases r) (auto simp: spec_def bnd_def dest: spec [of _ e])
qed

lemma spec_mono: "spec m Q U \<Longrightarrow> (\<And>x. Q x \<Longrightarrow> Q' x) \<Longrightarrow> spec m Q' U"
  by (fastforce simp: spec_def split: result.splits)

lemma spec_load_stop: "spec load_stop (\<lambda>_. True) U"
  by (auto simp: spec_def load_stop_def split: list.splits)

lemma spec_tick: "spec tick (\<lambda>_. True) U"
  using spec_load_stop by (auto simp: spec_def tick_def Let_def)

lemma spec_count: "spec (count f) (\<lambda>_. True) U"
  by (simp add: spec_def count_def)

lemma spec_own_work [spec_rules]: "spec m Q U \<Longrightarrow> spec (own_work m) Q U"
  by (simp add: spec_def own_work_def case_prod_unfold)

lemma spec_after_tick [spec_rules]: "spec m Q U \<Longrightarrow> spec (bnd tick (\<lambda>_. m)) Q U"
  by (rule spec_bnd [OF spec_tick])

lemma spec_after_load [spec_rules]: "spec m Q U \<Longrightarrow> spec (bnd load_stop (\<lambda>_. m)) Q U"
  by (rule spec_bnd [OF spec_load_stop])

lemma spec_after_count [spec_rules]: "spec m Q U \<Longrightarrow> spec (bnd (count f) (\<lambda>_. m)) Q U"
  by (rule spec_bnd [OF spec_count])

text \<open>The loop rules. The invariant speaks of the elements already visited.\<close>

lemma spec_for_each:
  assumes step: "\<And>x pre s. x \<in> set xs \<Longrightarrow> I pre s \<Longrightarrow> spec (f x s) (I (pre @ [x])) U"
    and "I pre s"
  shows "spec (for_each f xs s) (I (pre @ xs)) U"
  using assms
proof (induction xs arbitrary: pre s)
  case Nil
  then show ?case by (simp add: spec_ret)
next
  case (Cons x xs)
  have "spec (for_each f xs s') (I ((pre @ [x]) @ xs)) U" if "I (pre @ [x]) s'" for s'
    using Cons.prems(1) that by (intro Cons.IH) auto
  then show ?case
    using Cons.prems by (auto intro!: spec_bnd [of _ "I (pre @ [x])"])
qed

lemma spec_for_until:
  assumes step: "\<And>x pre s. x \<in> set xs \<Longrightarrow> I pre s \<Longrightarrow>
      spec (f x s) (\<lambda>r. case r of Go s' \<Rightarrow> I (pre @ [x]) s' | Stop y \<Rightarrow> Q y) U"
    and "I pre s"
  shows "spec (for_until f xs s) (\<lambda>r. case r of Go s' \<Rightarrow> I (pre @ xs) s' | Stop y \<Rightarrow> Q y) U"
  using assms
proof (induction xs arbitrary: pre s)
  case Nil
  then show ?case by (simp add: spec_ret)
next
  case (Cons x xs)
  have "spec (for_until f xs s') (\<lambda>r. case r of Go s' \<Rightarrow> I ((pre @ [x]) @ xs) s' | Stop y \<Rightarrow> Q y) U"
    if "I (pre @ [x]) s'" for s'
    using Cons.prems(1) that by (intro Cons.IH) auto
  note go = this [unfolded append_assoc append_Cons append_Nil]
  show ?case
    unfolding for_until.simps
  proof (rule spec_bnd)
    show "spec (f x s) (\<lambda>r. case r of Go s' \<Rightarrow> I (pre @ [x]) s' | Stop y \<Rightarrow> Q y) U"
      using Cons.prems by simp
    fix r :: "('b, 'c) loop"
    assume "case r of Go s' \<Rightarrow> I (pre @ [x]) s' | Stop y \<Rightarrow> Q y"
    then show "spec (case r of Go s' \<Rightarrow> for_until f xs s' | Stop y \<Rightarrow> ret (Stop y))
        (\<lambda>r. case r of Go s' \<Rightarrow> I (pre @ x # xs) s' | Stop y \<Rightarrow> Q y) U"
      using go by (cases r) (simp_all add: spec_ret)
  qed
qed

lemma spec_result: "spec m Q U \<Longrightarrow> m e = (Ok x, e') \<Longrightarrow> Q x"
  by (auto simp: spec_def dest: spec [of _ e])

lemma spec_unsat: "spec m Q U \<Longrightarrow> m e = (Err Unsat, e') \<Longrightarrow> U"
  by (auto simp: spec_def dest: spec [of _ e])

lemma spec_no_panic: "spec m Q U \<Longrightarrow> m e \<noteq> (Err Panicked, e')"
  by (auto simp: spec_def dest: spec [of _ e])

section \<open>Running without interruption\<close>

text \<open>\<open>quiet m\<close>: if the stop flag stays down, \<open>m\<close> is not interrupted.\<close>

definition quiet :: "'a prog \<Rightarrow> bool" where
  "quiet m \<longleftrightarrow> (\<forall>e. e_loads e = [] \<longrightarrow> fst (m e) \<noteq> Err Interrupted \<and> e_loads (snd (m e)) = [])"

named_theorems quiet_rules \<open>introduction rules for \<open>quiet\<close>\<close>

lemma quiet_ret [quiet_rules]: "quiet (ret x)"
  by (simp add: quiet_def ret_def)

lemma quiet_unsat [quiet_rules]: "quiet (leave Unsat)"
  by (simp add: quiet_def leave_def)

lemma quiet_panic [quiet_rules]: "quiet (leave Panicked)"
  by (simp add: quiet_def leave_def)

lemma quiet_load_stop [quiet_rules]: "quiet load_stop"
  by (simp add: quiet_def load_stop_def)

lemma quiet_tick [quiet_rules]: "quiet tick"
  by (simp add: quiet_def tick_def load_stop_def Let_def)

lemma quiet_count [quiet_rules]: "quiet (count f)"
  by (simp add: quiet_def count_def)

lemma quiet_bnd [quiet_rules]: "quiet m \<Longrightarrow> (\<And>x. quiet (f x)) \<Longrightarrow> quiet (bnd m f)"
  by (auto simp: quiet_def bnd_def split: prod.splits result.splits)

lemma quiet_own_work [quiet_rules]: "quiet m \<Longrightarrow> quiet (own_work m)"
  by (simp add: quiet_def own_work_def case_prod_unfold)

lemma quiet_for_each [quiet_rules]: "(\<And>x s. quiet (f x s)) \<Longrightarrow> quiet (for_each f xs s)"
  by (induction xs arbitrary: s) (auto intro: quiet_rules)

lemma quiet_for_until [quiet_rules]: "(\<And>x s. quiet (f x s)) \<Longrightarrow> quiet (for_until f xs s)"
  by (induction xs arbitrary: s) (auto intro!: quiet_rules split: loop.splits)

end
