(* ===== verification/SatCnf.thy ===== *)
theory SatCnf imports Polled begin

text \<open>
  CNF formulas in DIMACS literals, their satisfaction, the options of the preprocessor and
  the reconstruction of eliminated variables (\<open>src/src/engines/sat/mod.rs\<close>), and the DRAT
  text of a proof step (\<open>src/src/engines/sat/proof.rs\<close>).

  A literal is a non-zero \<open>i32\<close>; variable \<open>v\<close> is cell \<open>v - 1\<close> of an assignment. Negation wraps at
  \<open>i32::MIN\<close>, as it does in the release profile (\<open>overflow-checks = false\<close>).
\<close>

section \<open>Formulas and options\<close>

type_synonym clause = "int list"

record cnf =
  c_vars :: nat
  c_clauses :: "clause list"

record pp_options =
  basic_simplification :: bool
  unit_propagation :: bool
  pure_literals :: bool
  subsumption :: bool
  self_subsuming_resolution :: bool
  bounded_variable_elimination :: bool
  blocked_clause_elimination :: bool

definition options_off :: pp_options where
  "options_off = \<lparr>basic_simplification = False, unit_propagation = False, pure_literals = False,
     subsumption = False, self_subsuming_resolution = False,
     bounded_variable_elimination = False, blocked_clause_elimination = False\<rparr>"

definition options_basic :: pp_options where
  "options_basic = \<lparr>basic_simplification = True, unit_propagation = True, pure_literals = True,
     subsumption = False, self_subsuming_resolution = False,
     bounded_variable_elimination = False, blocked_clause_elimination = False\<rparr>"

definition options_full :: pp_options where
  "options_full = \<lparr>basic_simplification = True, unit_propagation = True, pure_literals = True,
     subsumption = True, self_subsuming_resolution = True,
     bounded_variable_elimination = True, blocked_clause_elimination = True\<rparr>"

definition pp_stats_default :: pp_stats where
  "pp_stats_default = \<lparr>ps_rounds = 0, ps_duplicate_literals = 0, ps_tautological_clauses = 0,
     ps_unit_assignments = 0, ps_pure_assignments = 0, ps_subsumed_clauses = 0,
     ps_self_subsumed_literals = 0, ps_bve_variables = 0, ps_bve_resolvents = 0,
     ps_blocked_clauses = 0, ps_input_clauses = 0, ps_output_clauses = 0\<rparr>"

section \<open>Satisfaction\<close>

definition neg_lit :: "int \<Rightarrow> int" where
  "neg_lit lit = as_i32 (- lit)"

definition lit_var :: "int \<Rightarrow> nat" where
  "lit_var lit = nat \<bar>lit\<bar>"

definition lit_satisfied :: "int \<Rightarrow> bool list \<Rightarrow> bool" where
  "lit_satisfied lit a = (let v = a ! (lit_var lit - 1) in if lit > 0 then v else \<not> v)"

definition clause_satisfied :: "clause \<Rightarrow> bool list \<Rightarrow> bool" where
  "clause_satisfied c a = list_ex (\<lambda>lit. lit_satisfied lit a) c"

definition clause_satisfied_without_var :: "clause \<Rightarrow> int \<Rightarrow> bool list \<Rightarrow> bool" where
  "clause_satisfied_without_var c var a =
     list_ex (\<lambda>lit. as_i32 (int (lit_var lit)) \<noteq> var \<and> lit_satisfied lit a) c"

definition assignment_satisfies :: "cnf \<Rightarrow> bool list \<Rightarrow> bool" where
  "assignment_satisfies F a \<longleftrightarrow>
     length a = c_vars F \<and> list_all (\<lambda>c. clause_satisfied c a) (c_clauses F)"

section \<open>Reconstruction\<close>

datatype recon_step =
    EliminatedVariable int "clause list" "clause list"
  | BlockedClause clause int

fun undo_step :: "recon_step \<Rightarrow> bool list \<Rightarrow> bool list" where
  "undo_step (EliminatedVariable var positive negative) a =
     (let need_true = list_ex (\<lambda>c. \<not> clause_satisfied_without_var c var a) positive;
          need_false = list_ex (\<lambda>c. \<not> clause_satisfied_without_var c var a) negative
      in if need_true then a[nat var - 1 := True]
         else if need_false then a[nat var - 1 := False] else a)"
| "undo_step (BlockedClause c blocking) a =
     (if clause_satisfied c a then a else a[lit_var blocking - 1 := blocking > 0])"

definition reconstruct_assignment :: "bool list \<Rightarrow> recon_step list \<Rightarrow> bool list" where
  "reconstruct_assignment a steps = fold undo_step (rev steps) a"

section \<open>Clauses\<close>

definition canonical_clause :: "clause \<Rightarrow> clause" where
  "canonical_clause c = sort_dedup c"

definition contains_lit :: "clause \<Rightarrow> int \<Rightarrow> bool" where
  "contains_lit c lit \<longleftrightarrow> binary_search c lit \<noteq> None"

text \<open>The clause and the flag \<open>push_resolvent_lit\<close> returns.\<close>

definition push_resolvent_lit :: "clause \<Rightarrow> int \<Rightarrow> clause \<times> bool" where
  "push_resolvent_lit out lit =
     (if neg_lit lit \<in> set out then (out, False)
      else if lit \<notin> set out then (out @ [lit], True) else (out, True))"

section \<open>DRAT text\<close>

fun digits :: "nat \<Rightarrow> string" where
  "digits n = (if n < 10 then [char_of (48 + n)] else digits (n div 10) @ [char_of (48 + n mod 10)])"

declare digits.simps [simp del]

definition show_i32 :: "int \<Rightarrow> string" where
  "show_i32 l = (if l < 0 then ''-'' @ digits (nat (- l)) else digits (nat l))"

definition write_clause :: "string \<Rightarrow> clause \<Rightarrow> string" where
  "write_clause pre c = pre @ concat (map (\<lambda>lit. show_i32 lit @ '' '') c) @ ''0'' @ [char_of (10 :: nat)]"

fun write_drat_step :: "proof_step \<Rightarrow> string" where
  "write_drat_step (AddStep c) = write_clause '''' c"
| "write_drat_step (DeleteStep c) = write_clause ''d '' c"

section \<open>Facts of satisfaction\<close>

lemma clause_satisfied_iff: "clause_satisfied c a \<longleftrightarrow> (\<exists>l \<in> set c. lit_satisfied l a)"
  by (simp add: clause_satisfied_def list_ex_iff)

lemma assignment_satisfies_iff:
  "assignment_satisfies F a \<longleftrightarrow>
     length a = c_vars F \<and> (\<forall>c \<in> set (c_clauses F). clause_satisfied c a)"
  by (simp add: assignment_satisfies_def list_all_iff)

text \<open>A literal of a formula over \<open>n\<close> variables.\<close>

definition lit_ok :: "nat \<Rightarrow> int \<Rightarrow> bool" where
  "lit_ok n l \<longleftrightarrow> l \<noteq> 0 \<and> in_i32 l \<and> lit_var l \<le> n"

text \<open>Every variable is an \<open>i32\<close>, so that the literals of all variables can be negated.\<close>

definition vars_fit :: "nat \<Rightarrow> bool" where
  "vars_fit n \<longleftrightarrow> int n \<le> i32_max"

definition clause_ok :: "nat \<Rightarrow> clause \<Rightarrow> bool" where
  "clause_ok n c \<longleftrightarrow> (\<forall>l \<in> set c. lit_ok n l)"

definition cnf_ok :: "cnf \<Rightarrow> bool" where
  "cnf_ok F \<longleftrightarrow> list_all (\<lambda>c. list_all (lit_ok (c_vars F)) c) (c_clauses F)"

lemma cnf_ok_iff: "cnf_ok F \<longleftrightarrow> (\<forall>c \<in> set (c_clauses F). clause_ok (c_vars F) c)"
  by (simp add: cnf_ok_def clause_ok_def list_all_iff)

lemma vars_fit_min: "vars_fit n \<Longrightarrow> lit_ok n l \<Longrightarrow> l \<noteq> i32_min"
  by (auto simp: vars_fit_def lit_ok_def lit_var_def i32_min_def i32_max_def)

lemma neg_lit_id: "in_i32 l \<Longrightarrow> l \<noteq> i32_min \<Longrightarrow> neg_lit l = - l"
  unfolding neg_lit_def by (rule as_i32_id) (auto simp: in_i32_def i32_min_def i32_max_def)

lemma neg_lit_min [simp]: "neg_lit i32_min = i32_min"
  by (simp add: neg_lit_def as_i32_def i32_min_def)

lemma neg_lit_mem:
  assumes "in_i32 l" "l \<notin> S" "\<forall>x \<in> S. in_i32 x"
  shows "neg_lit l \<in> S \<longleftrightarrow> - l \<in> S"
proof (cases "l = i32_min")
  case True
  then have "- l \<notin> S" using assms(3) by (auto simp: in_i32_def i32_min_def i32_max_def)
  then show ?thesis using True assms(2) by simp
qed (use assms(1) in \<open>simp add: neg_lit_id\<close>)

lemma neg_lit_ok: "vars_fit n \<Longrightarrow> lit_ok n l \<Longrightarrow> neg_lit l = - l"
  using vars_fit_min [of n l] by (intro neg_lit_id) (auto simp: lit_ok_def)

lemma neg_lit_pos: "0 < v \<Longrightarrow> in_i32 v \<Longrightarrow> neg_lit v = - v"
  by (rule neg_lit_id) (auto simp: i32_min_def)

text \<open>The cast of the code compares the variable with an \<open>i32\<close>.\<close>

lemma cast_var: "in_i32 l \<Longrightarrow> 0 < v \<Longrightarrow> as_i32 (int (lit_var l)) = v \<longleftrightarrow> \<bar>l\<bar> = v \<and> in_i32 v"
proof -
  assume l: "in_i32 l" and v: "0 < v"
  show ?thesis
  proof (cases "l = i32_min")
    case True
    then show ?thesis using v by (auto simp: as_i32_def lit_var_def i32_min_def in_i32_def i32_max_def)
  next
    case False
    then have i: "in_i32 \<bar>l\<bar>" using l by (auto simp: in_i32_def i32_min_def i32_max_def)
    then have "as_i32 (int (lit_var l)) = \<bar>l\<bar>" by (simp add: lit_var_def as_i32_id)
    then show ?thesis using i by auto
  qed
qed

lemma without_var_iff:
  assumes "clause_ok n c" "0 < v" "in_i32 v"
  shows "clause_satisfied_without_var c v a \<longleftrightarrow> (\<exists>l \<in> set c. \<bar>l\<bar> \<noteq> v \<and> lit_satisfied l a)"
proof -
  have "as_i32 (int (lit_var l)) = v \<longleftrightarrow> \<bar>l\<bar> = v" if "l \<in> set c" for l
    using assms that by (simp add: cast_var clause_ok_def lit_ok_def)
  then show ?thesis by (auto simp: clause_satisfied_without_var_def list_ex_iff)
qed

lemma lit_satisfied_uminus: "l \<noteq> 0 \<Longrightarrow> lit_satisfied (- l) a = (\<not> lit_satisfied l a)"
  by (auto simp: lit_satisfied_def lit_var_def Let_def)

lemma lit_satisfied_update:
  assumes "l \<noteq> 0" "k \<noteq> 0" "lit_var k \<le> length a"
  shows "lit_satisfied l (a[lit_var k - 1 := b]) =
    (if l = k then b = (k > 0) else if l = - k then b = (k < 0) else lit_satisfied l a)"
proof -
  have in_range: "lit_var k - 1 < length a" using assms(2,3) by (simp add: lit_var_def)
  have same: "lit_var l - 1 = lit_var k - 1 \<longleftrightarrow> l = k \<or> l = - k"
    using assms(1,2) by (simp add: lit_var_def) linarith
  show ?thesis
  proof (cases "l = k \<or> l = - k")
    case True
    then have "a[lit_var k - 1 := b] ! (lit_var l - 1) = b" using same in_range by simp
    then show ?thesis using True assms(1,2) unfolding lit_satisfied_def Let_def by (elim disjE) simp_all
  next
    case False
    then have "a[lit_var k - 1 := b] ! (lit_var l - 1) = a ! (lit_var l - 1)" using same by simp
    then show ?thesis using False unfolding lit_satisfied_def Let_def by simp
  qed
qed

lemma contains_lit_sound: "contains_lit c l \<Longrightarrow> l \<in> set c"
  by (auto simp: contains_lit_def dest: binary_search_Some)

lemma contains_lit_iff: "sorted c \<Longrightarrow> contains_lit c l \<longleftrightarrow> l \<in> set c"
  unfolding contains_lit_def by (rule binary_search_found)

lemma set_canonical [simp]: "set (canonical_clause c) = set c"
  by (simp add: canonical_clause_def)

lemma reconstruct_snoc:
  "reconstruct_assignment a (steps @ [s]) = reconstruct_assignment (undo_step s a) steps"
  by (simp add: reconstruct_assignment_def)

lemma length_undo_step [simp]: "length (undo_step s a) = length a"
  by (cases s) (simp_all add: Let_def)

lemma length_fold_undo [simp]: "length (fold undo_step steps a) = length a"
  by (induction steps arbitrary: a) simp_all

lemma length_reconstruct [simp]: "length (reconstruct_assignment a steps) = length a"
  by (simp add: reconstruct_assignment_def)

end
