(* ===== verification/SatPreprocess.thy ===== *)
theory SatPreprocess imports SatCnf begin

text \<open>
  The CNF preprocessor of \<open>src/src/engines/sat/mod.rs\<close>: \<open>preprocess_cnf_inner\<close> and every
  routine it calls, as programs over the environment of \<open>Polled\<close>. \<open>SatSimplify\<close>, \<open>SatSubsume\<close>
  and \<open>SatResolution\<close> prove it correct.
\<close>

section \<open>Proof log\<close>

definition log_add :: "clause \<Rightarrow> unit prog" where
  "log_add c = (\<lambda>e. (Ok (), e\<lparr>e_log := map_option (\<lambda>l. l @ [AddStep (canonical_clause c)]) (e_log e)\<rparr>))"

definition log_delete :: "clause \<Rightarrow> unit prog" where
  "log_delete c = (\<lambda>e. (Ok (), e\<lparr>e_log := map_option (\<lambda>l. l @ [DeleteStep (canonical_clause c)]) (e_log e)\<rparr>))"

definition when_logging :: "unit prog \<Rightarrow> unit prog" where
  "when_logging m = (\<lambda>e. if e_log e \<noteq> None then m e else (Ok (), e))"

section \<open>Simplifying one clause\<close>

text \<open>
  The state of the literal loop is the kept literals and the flag \<open>changed\<close>; \<open>Stop\<close> is a
  satisfied or tautological clause.
\<close>

definition simplify_lit ::
    "pp_options \<Rightarrow> nat \<Rightarrow> bool option list \<Rightarrow> clause \<Rightarrow> int \<Rightarrow> clause \<times> bool \<Rightarrow> (clause \<times> bool, unit) loop prog" where
  "simplify_lit opts vars assigned original lit s = (case s of (out, changed) \<Rightarrow>
     bnd tick (\<lambda>_.
       let var = lit_var lit; value = lit > 0
       in if var = 0 \<or> var > vars then leave Unsat
          else case assigned ! (var - 1) of
            Some fixed \<Rightarrow>
              if fixed = value then bnd (log_delete original) (\<lambda>_. ret (Stop ()))
              else ret (Go (out, True))
          | None \<Rightarrow>
              if basic_simplification opts \<and> lit \<in> set out then
                bnd (count (\<lambda>st. st\<lparr>ps_duplicate_literals := ps_duplicate_literals st + 1\<rparr>))
                  (\<lambda>_. ret (Go (out, True)))
              else if basic_simplification opts \<and> neg_lit lit \<in> set out then
                bnd (count (\<lambda>st. st\<lparr>ps_tautological_clauses := ps_tautological_clauses st + 1\<rparr>))
                  (\<lambda>_. bnd (log_delete original) (\<lambda>_. ret (Stop ())))
              else ret (Go (out @ [lit], changed))))"

text \<open>The state of the clause loop: the kept clauses, the units, the polarities and \<open>changed\<close>.\<close>

record pass =
  pa_simplified :: "clause list"
  pa_units :: "int list"
  pa_polarity :: "(bool \<times> bool) list"
  pa_changed :: bool

definition mark_polarity :: "clause \<Rightarrow> (bool \<times> bool) list \<Rightarrow> (bool \<times> bool) list" where
  "mark_polarity out pol =
     fold (\<lambda>lit p. let i = lit_var lit - 1; (a, b) = p ! i
                   in p[i := (if lit > 0 then (True, b) else (a, True))]) out pol"

definition simplify_clause ::
    "pp_options \<Rightarrow> nat \<Rightarrow> bool option list \<Rightarrow> clause \<Rightarrow> pass \<Rightarrow> pass prog" where
  "simplify_clause opts vars assigned c p =
     bnd tick (\<lambda>_. let original = canonical_clause c in
     bnd (for_until (simplify_lit opts vars assigned original) c ([], pa_changed p)) (\<lambda>r.
       case r of
         Stop _ \<Rightarrow> ret (p\<lparr>pa_changed := True\<rparr>)
       | Go (kept, changed) \<Rightarrow>
           let out = sort kept
           in if out = [] then bnd (log_add []) (\<lambda>_. leave Unsat)
              else bnd (when_logging (if canonical_clause out \<noteq> original
                                      then bnd (log_add out) (\<lambda>_. log_delete original) else ret ()))
                (\<lambda>_. ret \<lparr>pa_simplified = pa_simplified p @ [out],
                       pa_units = (if unit_propagation opts \<and> length out = 1
                                   then pa_units p @ [out ! 0] else pa_units p),
                       pa_polarity = mark_polarity out (pa_polarity p),
                       pa_changed = changed\<rparr>)))"

section \<open>Units and pure literals\<close>

definition assign_unit :: "int \<Rightarrow> bool option list \<times> bool \<Rightarrow> (bool option list \<times> bool) prog" where
  "assign_unit lit s = (case s of (assigned, changed) \<Rightarrow>
     bnd tick (\<lambda>_.
       let i = lit_var lit - 1; value = lit > 0
       in case assigned ! i of
            Some fixed \<Rightarrow>
              if fixed \<noteq> value then bnd (log_add []) (\<lambda>_. leave Unsat) else ret (assigned, changed)
          | None \<Rightarrow>
              bnd (log_add [lit]) (\<lambda>_.
              bnd (count (\<lambda>st. st\<lparr>ps_unit_assignments := ps_unit_assignments st + 1\<rparr>)) (\<lambda>_.
              ret (assigned[i := Some value], True)))))"

text \<open>The literal of the cell at an index: \<open>idx as i32 + 1\<close>, negated for false.\<close>

definition index_lit :: "nat \<Rightarrow> bool \<Rightarrow> int" where
  "index_lit i value = (let lit = as_i32 (as_i32 (int i) + 1) in if value then lit else neg_lit lit)"

definition assign_pure ::
    "nat \<times> bool \<times> bool \<Rightarrow> bool option list \<times> bool \<Rightarrow> (bool option list \<times> bool) prog" where
  "assign_pure ip s = (case (ip, s) of ((i, pos, neg), assigned, changed) \<Rightarrow>
     bnd tick (\<lambda>_.
       if assigned ! i = None \<and> pos \<noteq> neg then
         let lit = index_lit i pos
         in bnd (log_add [lit]) (\<lambda>_.
            bnd (count (\<lambda>st. st\<lparr>ps_pure_assignments := ps_pure_assignments st + 1\<rparr>)) (\<lambda>_.
            ret (assigned[i := Some pos], True)))
       else ret (assigned, changed)))"

section \<open>Subsumption\<close>

text \<open>The two indices of \<open>sorted_subset\<close> are the suffixes still to compare.\<close>

fun sorted_subset :: "clause \<Rightarrow> clause \<Rightarrow> bool prog" where
  "sorted_subset [] b = ret True"
| "sorted_subset (x # a) [] = ret False"
| "sorted_subset (x # a) (y # b) =
     bnd tick (\<lambda>_. if x = y then sorted_subset a b
                   else if x > y then sorted_subset (x # a) b else ret False)"

definition subsume_pair ::
    "clause list \<Rightarrow> nat \<Rightarrow> nat \<Rightarrow> bool list \<times> bool \<Rightarrow> (bool list \<times> bool) prog" where
  "subsume_pair cs i j s = (case s of (removed, changed) \<Rightarrow>
     bnd tick (\<lambda>_.
       if i = j \<or> removed ! j then ret (removed, changed)
       else if length (cs ! i) > length (cs ! j) then ret (removed, changed)
       else if length (cs ! i) = length (cs ! j) \<and> i > j then ret (removed, changed)
       else bnd (sorted_subset (cs ! i) (cs ! j)) (\<lambda>sub.
         if sub then
           bnd (log_delete (cs ! j)) (\<lambda>_.
           bnd (count (\<lambda>st. st\<lparr>ps_subsumed_clauses := ps_subsumed_clauses st + 1\<rparr>)) (\<lambda>_.
           ret (removed[j := True], True)))
         else ret (removed, changed))))"

definition keep_unremoved :: "bool list \<Rightarrow> clause list \<Rightarrow> clause list" where
  "keep_unremoved removed cs = map snd (filter (\<lambda>(i, c). \<not> removed ! i) (enumerate 0 cs))"

definition remove_subsumed_clauses :: "clause list \<Rightarrow> (clause list \<times> bool) prog" where
  "remove_subsumed_clauses cs =
     own_work (bnd (for_each (\<lambda>i s.
         if fst s ! i then ret s else for_each (subsume_pair cs i) [0..<length cs] s)
       [0..<length cs] (replicate (length cs) False, False)) (\<lambda>(removed, changed).
     ret (if changed then keep_unremoved removed cs else cs, changed)))"

section \<open>Self-subsuming resolution\<close>

text \<open>
  One scan: \<open>Stop (j, lit)\<close> is the first clause that can be strengthened by removing
  \<open>-lit\<close> (wrapped). The code borrows \<open>clauses[j]\<close> from the same vector, so source and target are
  read from the clauses as they stand.
\<close>

definition subsumes_without :: "clause \<Rightarrow> int \<Rightarrow> clause \<Rightarrow> bool prog" where
  "subsumes_without source lit target =
     bnd (for_until (\<lambda>other s. bnd tick (\<lambda>_.
           if other \<noteq> lit \<and> \<not> contains_lit target other then ret (Stop ()) else ret (Go s)))
         source ()) (\<lambda>r. ret (case r of Go _ \<Rightarrow> True | Stop _ \<Rightarrow> False))"

definition strengthen_scan :: "clause list \<Rightarrow> (unit, nat \<times> int) loop prog" where
  "strengthen_scan cs =
     for_until (\<lambda>i s. for_until (\<lambda>j s. bnd tick (\<lambda>_.
         if i = j then ret (Go s) else
         for_until (\<lambda>lit s. bnd tick (\<lambda>_.
             if \<not> contains_lit (cs ! j) (neg_lit lit) then ret (Go s)
             else bnd (subsumes_without (cs ! i) lit (cs ! j)) (\<lambda>sub.
               if sub then ret (Stop (j, lit)) else ret (Go s))))
           (cs ! i) s))
       [0..<length cs] s) [0..<length cs] ()"

definition strengthen :: "clause list \<Rightarrow> nat \<times> int \<Rightarrow> clause list prog" where
  "strengthen cs jl = (case jl of (j, lit) \<Rightarrow>
     let new = filter (\<lambda>other. other \<noteq> neg_lit lit) (cs ! j)
     in bnd (log_add new) (\<lambda>_. bnd (log_delete (cs ! j)) (\<lambda>_.
        bnd (count (\<lambda>st. st\<lparr>ps_self_subsumed_literals := ps_self_subsumed_literals st + 1\<rparr>)) (\<lambda>_.
        ret (cs[j := new])))))"

text \<open>
  The outer \<open>loop\<close> runs until a scan strengthens nothing. Every strengthening removes a
  literal, so \<open>1 + \<close> the number of literals bounds the number of scans; the bound is the
  recursion's first argument.
\<close>

definition literal_count :: "clause list \<Rightarrow> nat" where
  "literal_count cs = sum_list (map length cs)"

fun self_subsume_loop :: "nat \<Rightarrow> clause list \<Rightarrow> bool \<Rightarrow> (clause list \<times> bool) prog" where
  "self_subsume_loop 0 cs changed = ret (cs, changed)"
| "self_subsume_loop (Suc n) cs changed =
     bnd (strengthen_scan cs) (\<lambda>r. case r of
         Go _ \<Rightarrow> ret (cs, changed)
       | Stop jl \<Rightarrow> bnd (strengthen cs jl) (\<lambda>cs'. self_subsume_loop n cs' True))"

definition self_subsume_clauses :: "clause list \<Rightarrow> (clause list \<times> bool) prog" where
  "self_subsume_clauses cs = own_work (self_subsume_loop (Suc (literal_count cs)) cs False)"

section \<open>Bounded variable elimination\<close>

definition bve_pair_limit :: nat where "bve_pair_limit = 4096"

text \<open>One side of a resolvent; \<open>Stop\<close> is a tautology.\<close>

definition resolve_side :: "int \<Rightarrow> clause \<Rightarrow> clause \<Rightarrow> (clause, unit) loop prog" where
  "resolve_side skip side out =
     for_until (\<lambda>lit out. bnd tick (\<lambda>_.
         if lit = skip then ret (Go out)
         else case push_resolvent_lit out lit of (out', ok) \<Rightarrow>
           if ok then ret (Go out') else ret (Stop ()))) side out"

definition resolve_on_var :: "clause \<Rightarrow> int \<Rightarrow> clause \<Rightarrow> clause option prog" where
  "resolve_on_var positive pos_lit negative =
     bnd (resolve_side pos_lit positive []) (\<lambda>r. case r of
         Stop _ \<Rightarrow> ret None
       | Go out \<Rightarrow> bnd (resolve_side (neg_lit pos_lit) negative out) (\<lambda>r. case r of
           Stop _ \<Rightarrow> ret None
         | Go out' \<Rightarrow> ret (Some (sort out'))))"

definition occurrences :: "int \<Rightarrow> clause list \<Rightarrow> (nat list \<times> nat list) prog" where
  "occurrences var cs =
     for_each (\<lambda>(i, c) (pos, neg). bnd tick (\<lambda>_. ret
         (if contains_lit c var then pos @ [i] else pos,
          if contains_lit c (neg_lit var) then neg @ [i] else neg)))
       (enumerate 0 cs) ([], [])"

text \<open>The resolvents of a variable; both loops break once there are more than \<open>old_count\<close>.\<close>

definition resolve_pair ::
    "clause list \<Rightarrow> int \<Rightarrow> nat \<Rightarrow> nat \<Rightarrow> nat \<Rightarrow> clause list \<Rightarrow> (clause list, clause list) loop prog" where
  "resolve_pair cs var old_count p n rs =
     bnd tick (\<lambda>_. bnd (resolve_on_var (cs ! p) var (cs ! n)) (\<lambda>r. case r of
         None \<Rightarrow> ret (Go rs)
       | Some resolvent \<Rightarrow>
           if resolvent = [] then bnd (log_add []) (\<lambda>_. leave Unsat)
           else if resolvent \<notin> set rs then
             (if length (rs @ [resolvent]) > old_count then ret (Stop (rs @ [resolvent]))
              else ret (Go (rs @ [resolvent])))
           else ret (Go rs)))"

definition resolve_all :: "clause list \<Rightarrow> int \<Rightarrow> nat \<Rightarrow> nat list \<Rightarrow> nat list \<Rightarrow> clause list prog" where
  "resolve_all cs var old_count pos neg =
     bnd (for_until (\<lambda>p rs. for_until (resolve_pair cs var old_count p) neg rs) pos [])
       (\<lambda>r. ret (case r of Go rs \<Rightarrow> rs | Stop rs \<Rightarrow> rs))"

definition drop_indices :: "nat list \<Rightarrow> clause list \<Rightarrow> clause list prog" where
  "drop_indices idxs cs =
     for_each (\<lambda>(i, c) next. bnd tick (\<lambda>_. ret (if i \<in> set idxs then next else next @ [c])))
       (enumerate 0 cs) []"

definition log_all :: "(clause \<Rightarrow> unit prog) \<Rightarrow> clause list \<Rightarrow> unit prog" where
  "log_all step cs = for_each (\<lambda>c _. bnd tick (\<lambda>_. step c)) cs ()"

text \<open>
  \<open>Stop\<close> is a variable eliminated: the new clauses and the step that undoes it. The capacity
  \<open>clauses.len() - old_count + resolvents.len()\<close> of the new vector wraps to more than a vector can
  hold when it is negative, which panics.
\<close>

definition eliminate_var ::
    "bool option list \<Rightarrow> clause list \<Rightarrow> int \<Rightarrow> unit \<Rightarrow> (unit, clause list \<times> recon_step) loop prog" where
  "eliminate_var assigned cs var s =
     bnd tick (\<lambda>_. if assigned ! (nat var - 1) \<noteq> None then ret (Go s) else
     bnd (occurrences var cs) (\<lambda>(pos, neg).
       if pos = [] \<or> neg = [] then ret (Go s)
       else if length pos * length neg > bve_pair_limit then ret (Go s)
       else let old_count = length pos + length neg in
         bnd (resolve_all cs var old_count pos neg) (\<lambda>rs.
           if length rs > old_count then ret (Go s)
           else let positive = map (\<lambda>i. cs ! i) pos; negative = map (\<lambda>i. cs ! i) neg in
             bnd (log_all log_add rs) (\<lambda>_.
             bnd (log_all log_delete (positive @ negative)) (\<lambda>_.
             if length cs + length rs < old_count then leave Panicked else
             bnd (drop_indices (pos @ neg) cs) (\<lambda>next.
             bnd (count (\<lambda>st. st\<lparr>ps_bve_variables := ps_bve_variables st + 1,
                               ps_bve_resolvents := ps_bve_resolvents st + length rs\<rparr>)) (\<lambda>_.
             ret (Stop (next @ rs, EliminatedVariable var positive negative)))))))))"

definition eliminate_bounded_variable ::
    "clause list \<Rightarrow> nat \<Rightarrow> bool option list \<Rightarrow> (unit, clause list \<times> recon_step) loop prog" where
  "eliminate_bounded_variable cs vars assigned =
     own_work (for_until (eliminate_var assigned cs) (map int [1..<Suc (nat (as_i32 (int vars)))]) ())"

section \<open>Blocked clause elimination\<close>

definition resolvent_is_tautological :: "clause \<Rightarrow> int \<Rightarrow> clause \<Rightarrow> bool prog" where
  "resolvent_is_tautological c blocking other =
     bnd (for_until (\<lambda>lit s. bnd tick (\<lambda>_.
           if lit \<noteq> blocking \<and> contains_lit other (neg_lit lit) then ret (Stop ()) else ret (Go s))) c ())
       (\<lambda>r. ret (case r of Go _ \<Rightarrow> False | Stop _ \<Rightarrow> True))"

definition clause_is_blocked :: "clause list \<Rightarrow> nat \<Rightarrow> int \<Rightarrow> bool prog" where
  "clause_is_blocked cs k blocking =
     bnd (for_until (\<lambda>(i, other) s. bnd tick (\<lambda>_.
           if i \<noteq> k \<and> contains_lit other (neg_lit blocking)
           then bnd (resolvent_is_tautological (cs ! k) blocking other)
                  (\<lambda>taut. if \<not> taut then ret (Stop ()) else ret (Go s))
           else ret (Go s))) (enumerate 0 cs) ())
       (\<lambda>r. ret (case r of Go _ \<Rightarrow> True | Stop _ \<Rightarrow> False))"

definition remove_blocked_clause :: "clause list \<Rightarrow> (unit, clause list \<times> recon_step) loop prog" where
  "remove_blocked_clause cs =
     own_work (for_until (\<lambda>k s. bnd tick (\<lambda>_.
         for_until (\<lambda>lit s. bnd tick (\<lambda>_.
             bnd (clause_is_blocked cs k lit) (\<lambda>blocked.
               if blocked then
                 bnd (log_delete (cs ! k)) (\<lambda>_.
                 bnd (count (\<lambda>st. st\<lparr>ps_blocked_clauses := ps_blocked_clauses st + 1\<rparr>)) (\<lambda>_.
                 ret (Stop (take k cs @ drop (Suc k) cs, BlockedClause (cs ! k) lit))))
               else ret (Go s)))) (cs ! k) s))
       [0..<length cs] ())"

section \<open>The main loop\<close>

record pp_state =
  pp_clauses :: "clause list"
  pp_assigned :: "bool option list"
  pp_recon :: "recon_step list"

text \<open>The part of a round before the \<open>!changed\<close> stages: simplify, units, pure literals.\<close>

definition simplify_pass :: "pp_options \<Rightarrow> nat \<Rightarrow> pp_state \<Rightarrow> pass prog" where
  "simplify_pass opts vars st =
     for_each (simplify_clause opts vars (pp_assigned st)) (pp_clauses st)
       \<lparr>pa_simplified = [], pa_units = [], pa_polarity = replicate vars (False, False), pa_changed = False\<rparr>"

definition assign_pass :: "pp_options \<Rightarrow> bool option list \<Rightarrow> pass \<Rightarrow> (bool option list \<times> bool) prog" where
  "assign_pass opts assigned p =
     bnd (for_each assign_unit (pa_units p) (assigned, pa_changed p)) (\<lambda>(assigned, changed).
       if pure_literals opts \<and> \<not> changed
       then for_each assign_pure (enumerate 0 (pa_polarity p)) (assigned, changed)
       else ret (assigned, changed))"

text \<open>One stage that runs only when nothing has changed yet.\<close>

definition run_stage :: "bool \<Rightarrow> (pp_state \<Rightarrow> (pp_state \<times> bool) prog) \<Rightarrow> pp_state \<times> bool \<Rightarrow> (pp_state \<times> bool) prog" where
  "run_stage enabled f s = (if \<not> snd s \<and> enabled then f (fst s) else ret s)"

definition on_clauses :: "(clause list \<Rightarrow> (clause list \<times> bool) prog) \<Rightarrow> pp_state \<Rightarrow> (pp_state \<times> bool) prog" where
  "on_clauses f st = bnd (f (pp_clauses st)) (\<lambda>(cs, changed). ret (st\<lparr>pp_clauses := cs\<rparr>, changed))"

definition on_recon ::
    "(unit, clause list \<times> recon_step) loop prog \<Rightarrow> pp_state \<Rightarrow> (pp_state \<times> bool) prog" where
  "on_recon m st = bnd m (\<lambda>r. case r of
       Go _ \<Rightarrow> ret (st, False)
     | Stop (cs, step) \<Rightarrow> ret (st\<lparr>pp_clauses := cs, pp_recon := pp_recon st @ [step]\<rparr>, True))"

definition stages :: "pp_options \<Rightarrow> nat \<Rightarrow> pp_state \<times> bool \<Rightarrow> (pp_state \<times> bool) prog" where
  "stages opts vars s =
     bnd (run_stage (subsumption opts) (on_clauses remove_subsumed_clauses) s) (\<lambda>s.
     bnd (run_stage (self_subsuming_resolution opts) (on_clauses self_subsume_clauses) s) (\<lambda>s.
     bnd (run_stage (bounded_variable_elimination opts)
            (\<lambda>st. on_recon (eliminate_bounded_variable (pp_clauses st) vars (pp_assigned st)) st) s) (\<lambda>s.
     run_stage (blocked_clause_elimination opts)
            (\<lambda>st. on_recon (remove_blocked_clause (pp_clauses st)) st) s)))"

definition round_step :: "pp_options \<Rightarrow> nat \<Rightarrow> pp_state \<Rightarrow> (pp_state \<times> bool) prog" where
  "round_step opts vars st =
     bnd load_stop (\<lambda>_.
     bnd (count (\<lambda>s. s\<lparr>ps_rounds := ps_rounds s + 1\<rparr>)) (\<lambda>_.
     bnd (simplify_pass opts vars st) (\<lambda>p.
     bnd (assign_pass opts (pp_assigned st) p) (\<lambda>(assigned, changed).
     stages opts vars (st\<lparr>pp_clauses := pa_simplified p, pp_assigned := assigned\<rparr>, changed)))))"

definition assigned_units :: "bool option list \<Rightarrow> clause list prog" where
  "assigned_units assigned =
     for_each (\<lambda>(i, value) out. bnd tick (\<lambda>_. ret (case value of
         Some b \<Rightarrow> out @ [[index_lit i b]]
       | None \<Rightarrow> out))) (enumerate 0 assigned) []"

definition finish :: "nat \<Rightarrow> pp_state \<Rightarrow> (cnf \<times> recon_step list) prog" where
  "finish vars st =
     bnd (assigned_units (pp_assigned st)) (\<lambda>units. let final = units @ pp_clauses st in
     bnd (count (\<lambda>s. s\<lparr>ps_output_clauses := length final\<rparr>)) (\<lambda>_.
     ret (\<lparr>c_vars = vars, c_clauses = final\<rparr>, pp_recon st)))"

text \<open>
  The outer \<open>loop\<close>. Whether it ends depends on the options, so it is an option-valued
  partial function; \<open>None\<close> is a loop that never ends.
\<close>

partial_function (option) main_loop ::
    "pp_options \<Rightarrow> nat \<Rightarrow> pp_state \<Rightarrow> env \<Rightarrow> ((cnf \<times> recon_step list, exit_kind) result \<times> env) option" where
  "main_loop opts vars st e =
     (case round_step opts vars st e of
        (Err k, e') \<Rightarrow> Some (Err k, e')
      | (Ok (st', changed), e') \<Rightarrow>
          if changed then main_loop opts vars st' e' else Some (finish vars st' e'))"

declare main_loop.simps [code]

datatype pp_outcome =
    Simplified cnf pp_stats "recon_step list"
  | Unsatisfiable pp_stats
  | InterruptedWith pp_stats

definition copy_clauses :: "clause list \<Rightarrow> clause list prog" where
  "copy_clauses cs = bnd load_stop (\<lambda>_. for_each (\<lambda>c out. bnd tick (\<lambda>_. ret (out @ [c]))) cs [])"

text \<open>\<open>None\<close> is a panic.\<close>

fun outcome_of :: "(cnf \<times> recon_step list, exit_kind) result \<times> env \<Rightarrow> pp_outcome option" where
  "outcome_of (Ok (F, rs), e) = Some (Simplified F (e_stats e) rs)"
| "outcome_of (Err Unsat, e) = Some (Unsatisfiable (e_stats e))"
| "outcome_of (Err Interrupted, e) = Some (InterruptedWith (e_stats e))"
| "outcome_of (Err Panicked, e) = None"

definition preprocess_cnf_inner ::
    "cnf \<Rightarrow> pp_options \<Rightarrow> env \<Rightarrow> ((cnf \<times> recon_step list, exit_kind) result \<times> env) option" where
  "preprocess_cnf_inner F opts e =
     (case copy_clauses (c_clauses F) e of
        (Err k, e') \<Rightarrow> Some (Err k, e')
      | (Ok cs, e') \<Rightarrow> main_loop opts (c_vars F)
          \<lparr>pp_clauses = cs, pp_assigned = replicate (c_vars F) None, pp_recon = []\<rparr> e')"

definition pp_env :: "cnf \<Rightarrow> bool list \<Rightarrow> proof_step list option \<Rightarrow> env" where
  "pp_env F loads log = \<lparr>e_work = 0, e_loads = loads, e_log = log,
     e_stats = pp_stats_default\<lparr>ps_input_clauses := length (c_clauses F)\<rparr>\<rparr>"

text \<open>
  Without a proof, and with one (the log that was written); \<open>loads\<close> are the answers of the
  stop flag. \<open>None\<close> is a run that never returns or panics.
\<close>

definition preprocess_cnf :: "cnf \<Rightarrow> pp_options \<Rightarrow> bool list \<Rightarrow> pp_outcome option" where
  "preprocess_cnf F opts loads = Option.bind (preprocess_cnf_inner F opts (pp_env F loads None)) outcome_of"

definition preprocess_cnf_with_proof ::
    "cnf \<Rightarrow> pp_options \<Rightarrow> bool list \<Rightarrow> (pp_outcome \<times> proof_step list) option" where
  "preprocess_cnf_with_proof F opts loads =
     Option.bind (preprocess_cnf_inner F opts (pp_env F loads (Some [])))
       (\<lambda>r. map_option (\<lambda>out. (out, the (e_log (snd r)))) (outcome_of r))"

text \<open>One iteration of the loop, as an induction rule for the runs that end.\<close>

lemma main_loop_induct [consumes 1, case_names stop last_round again]:
  assumes run: "main_loop opts n st e = Some re"
    and stop: "\<And>st e k e'. round_step opts n st e = (Err k, e') \<Longrightarrow> P st e (Err k, e')"
    and last_round: "\<And>st e st' e'. round_step opts n st e = (Ok (st', False), e') \<Longrightarrow> P st e (finish n st' e')"
    and again: "\<And>st e st' e' re. round_step opts n st e = (Ok (st', True), e') \<Longrightarrow>
        main_loop opts n st' e' = Some re \<Longrightarrow> P st' e' re \<Longrightarrow> P st e re"
  shows "P st e re"
proof -
  let ?P = "\<lambda>opts' n' st e re. opts' = opts \<longrightarrow> n' = n \<longrightarrow> main_loop opts n st e = Some re \<and> P st e re"
  have "?P opts n st e re"
  proof (rule main_loop.raw_induct [of ?P, OF _ run], intro impI)
    fix loop opts' n' st e re
    assume IH: "\<And>opts' n' st e re. loop opts' n' st e = Some re \<Longrightarrow> ?P opts' n' st e re"
      and body: "(case round_step opts' n' st e of (Ok (st', changed), e') \<Rightarrow>
            if changed then loop opts' n' st' e' else Some (finish n' st' e')
          | (Err k, e') \<Rightarrow> Some (Err k, e')) = Some re"
      and same: "opts' = opts" "n' = n"
    obtain r e' where rs: "round_step opts n st e = (r, e')" by fastforce
    show "main_loop opts n st e = Some re \<and> P st e re"
    proof (cases r)
      case (Err k)
      then have "re = (Err k, e')" using body rs same by simp
      then show ?thesis using stop rs Err by (simp add: main_loop.simps [of opts n st e])
    next
      case (Ok sc)
      obtain st' ch where sc: "sc = (st', ch)" by (cases sc)
      show ?thesis
      proof (cases ch)
        case True
        then have "loop opts n st' e' = Some re" using body rs Ok sc same by simp
        then have "main_loop opts n st' e' = Some re" "P st' e' re" using IH by blast+
        then show ?thesis using again rs Ok sc True by (simp add: main_loop.simps [of opts n st e])
      next
        case False
        then have "re = finish n st' e'" using body rs Ok sc same by simp
        then show ?thesis using last_round rs Ok sc False by (simp add: main_loop.simps [of opts n st e])
      qed
    qed
  qed
  then show ?thesis by blast
qed

end
