(* ===== verification/SatSimplify.thy ===== *)
theory SatSimplify imports SatPreprocess begin

text \<open>
  Correctness of the first half of a preprocessing round: simplification of the clauses
  under the assigned variables, unit propagation and pure literals.
\<close>

section \<open>Models of a preprocessing state\<close>

definition holds :: "clause list \<Rightarrow> bool list \<Rightarrow> bool" where
  "holds cs a \<longleftrightarrow> (\<forall>c \<in> set cs. clause_satisfied c a)"

definition agrees :: "bool option list \<Rightarrow> bool list \<Rightarrow> bool" where
  "agrees assigned a \<longleftrightarrow> (\<forall>i < length assigned. \<forall>b. assigned ! i = Some b \<longrightarrow> a ! i = b)"

definition models :: "nat \<Rightarrow> clause list \<Rightarrow> bool option list \<Rightarrow> bool list \<Rightarrow> bool" where
  "models n cs assigned a \<longleftrightarrow> length a = n \<and> holds cs a \<and> agrees assigned a"

definition nontaut :: "clause \<Rightarrow> bool" where
  "nontaut c \<longleftrightarrow> (\<forall>l \<in> set c. - l \<notin> set c)"

text \<open>What every clause of a simplified formula satisfies; \<open>strict\<close> is basic simplification.\<close>

definition tidy :: "nat \<Rightarrow> bool \<Rightarrow> clause list \<Rightarrow> bool" where
  "tidy n strict cs \<longleftrightarrow> (\<forall>c \<in> set cs. clause_ok n c \<and> sorted c \<and> (strict \<longrightarrow> nontaut c))"

definition clean :: "bool option list \<Rightarrow> clause list \<Rightarrow> bool" where
  "clean assigned cs \<longleftrightarrow> (\<forall>c \<in> set cs. \<forall>l \<in> set c. assigned ! (lit_var l - 1) = None)"

lemma holds_append [simp]: "holds (cs @ ds) a \<longleftrightarrow> holds cs a \<and> holds ds a"
  by (auto simp: holds_def)

lemma holds_Nil [simp]: "holds [] a"
  by (simp add: holds_def)

lemma holds_single [simp]: "holds [c] a = clause_satisfied c a"
  by (simp add: holds_def)

lemma tidy_append [simp]: "tidy n b (cs @ ds) \<longleftrightarrow> tidy n b cs \<and> tidy n b ds"
  by (auto simp: tidy_def)

lemma clean_append [simp]: "clean A (cs @ ds) \<longleftrightarrow> clean A cs \<and> clean A ds"
  by (auto simp: clean_def)

lemma lit_ok_index: "lit_ok n l \<Longrightarrow> lit_var l - 1 < n \<and> 0 < lit_var l"
  by (auto simp: lit_ok_def lit_var_def)

lemma agrees_lit:
  assumes "agrees A a" "length A = n" "lit_ok n l" "A ! (lit_var l - 1) = Some b"
  shows "lit_satisfied l a \<longleftrightarrow> b = (l > 0)"
  using assms lit_ok_index [OF assms(3)] by (simp add: agrees_def lit_satisfied_def Let_def)

section \<open>One literal, one clause\<close>

lemma spec_log_add [spec_rules]: "spec m Q U \<Longrightarrow> spec (bnd (log_add c) (\<lambda>_. m)) Q U"
  by (simp add: spec_def bnd_def log_add_def)

lemma spec_log_delete [spec_rules]: "spec m Q U \<Longrightarrow> spec (bnd (log_delete c) (\<lambda>_. m)) Q U"
  by (simp add: spec_def bnd_def log_delete_def)

lemma spec_log_only: "spec (log_delete c) (\<lambda>_. True) U"
  by (simp add: spec_def log_delete_def)

lemma spec_when_logging [spec_rules]:
  assumes "spec (bnd m (\<lambda>_. k)) Q U" "spec k Q U"
  shows "spec (bnd (when_logging m) (\<lambda>_. k)) Q U"
  unfolding spec_def
proof
  fix e
  show "case fst (bnd (when_logging m) (\<lambda>_. k) e) of Ok x \<Rightarrow> Q x | Err kd \<Rightarrow> kd \<noteq> Panicked \<and> (kd = Unsat \<longrightarrow> U)"
    using assms by (cases "e_log e = None") (auto simp: spec_def bnd_def when_logging_def)
qed

lemma spec_log_replace:
  assumes "Q x"
  shows "spec (bnd (when_logging (if b then bnd (log_add c) (\<lambda>_. log_delete d) else ret ())) (\<lambda>_. ret x)) Q U"
  unfolding spec_def using assms
  by (simp add: bnd_def when_logging_def log_add_def log_delete_def ret_def)

text \<open>The invariant of the literal loop.\<close>

definition kept_ok :: "bool \<Rightarrow> bool option list \<Rightarrow> clause \<Rightarrow> clause \<Rightarrow> bool" where
  "kept_ok strict A pre out \<longleftrightarrow>
     set out \<subseteq> set pre \<and> (\<forall>l \<in> set out. A ! (lit_var l - 1) = None) \<and> (strict \<longrightarrow> nontaut out) \<and>
     (\<forall>a. agrees A a \<longrightarrow> clause_satisfied pre a \<longrightarrow> clause_satisfied out a)"

lemma kept_ok_snoc:
  assumes "kept_ok strict A pre out"
  shows "\<lbrakk>A ! (lit_var l - 1) = None; strict \<longrightarrow> - l \<notin> set out; l \<noteq> 0\<rbrakk> \<Longrightarrow> kept_ok strict A (pre @ [l]) (out @ [l])"
    and "l \<in> set out \<Longrightarrow> kept_ok strict A (pre @ [l]) out"
    and "\<lbrakk>\<And>a. agrees A a \<Longrightarrow> \<not> lit_satisfied l a\<rbrakk> \<Longrightarrow> kept_ok strict A (pre @ [l]) out"
proof -
  have sat: "clause_satisfied (c @ [l]) a \<longleftrightarrow> clause_satisfied c a \<or> lit_satisfied l a" for c a
    by (simp add: clause_satisfied_def)
  show "\<lbrakk>A ! (lit_var l - 1) = None; strict \<longrightarrow> - l \<notin> set out; l \<noteq> 0\<rbrakk> \<Longrightarrow> kept_ok strict A (pre @ [l]) (out @ [l])"
  proof -
    assume h: "A ! (lit_var l - 1) = None" "strict \<longrightarrow> - l \<notin> set out" "l \<noteq> 0"
    have "nontaut (out @ [l])" if "nontaut out" "- l \<notin> set out"
      using that h(3) unfolding nontaut_def by (auto simp: minus_equation_iff [of l])
    with h assms show ?thesis by (auto simp: kept_ok_def sat)
  qed
  show "l \<in> set out \<Longrightarrow> kept_ok strict A (pre @ [l]) out"
    using assms by (auto simp: kept_ok_def sat clause_satisfied_iff)
  show "\<lbrakk>\<And>a. agrees A a \<Longrightarrow> \<not> lit_satisfied l a\<rbrakk> \<Longrightarrow> kept_ok strict A (pre @ [l]) out"
    using assms by (auto simp: kept_ok_def sat)
qed

lemma simplify_lit_spec:
  assumes A: "length A = n" and l: "lit_ok n l" "l \<in> set c" and cok: "clause_ok n c"
    and pre: "set (pre @ [l]) \<subseteq> set c"
    and inv: "kept_ok (basic_simplification opts) A pre (fst s)"
  shows "spec (simplify_lit opts n A original l s)
    (\<lambda>r. case r of Go s' \<Rightarrow> kept_ok (basic_simplification opts) A (pre @ [l]) (fst s')
      | Stop _ \<Rightarrow> \<forall>a. agrees A a \<longrightarrow> clause_satisfied c a) U"
proof -
  obtain out ch where s: "s = (out, ch)" by (cases s)
  note i = lit_ok_index [OF l(1)]
  have l0: "l \<noteq> 0" using l(1) by (simp add: lit_ok_def)
  have in_taut: "\<forall>a. agrees A a \<longrightarrow> clause_satisfied c a" if "- l \<in> set out"
  proof -
    have "- l \<in> set c" using that inv s pre by (auto simp: kept_ok_def)
    then show ?thesis using l(2) lit_satisfied_uminus [OF l0] by (auto simp: clause_satisfied_iff)
  qed
  have i32: "in_i32 l" "\<forall>x \<in> set out. in_i32 x" using l(1) cok inv s pre by (auto simp: kept_ok_def clause_ok_def lit_ok_def)
  have neg: "neg_lit l \<in> set out \<longleftrightarrow> - l \<in> set out" if "l \<notin> set out" by (rule neg_lit_mem [OF i32(1) that i32(2)])
  have prog: "simplify_lit opts n A original l s = bnd tick (\<lambda>_. case A ! (lit_var l - 1) of
      Some fixed \<Rightarrow>
        if fixed = (l > 0) then bnd (log_delete original) (\<lambda>_. ret (Stop ())) else ret (Go (out, True))
    | None \<Rightarrow>
        if basic_simplification opts \<and> l \<in> set out then
          bnd (count (\<lambda>st. st\<lparr>ps_duplicate_literals := ps_duplicate_literals st + 1\<rparr>)) (\<lambda>_. ret (Go (out, True)))
        else if basic_simplification opts \<and> - l \<in> set out then
          bnd (count (\<lambda>st. st\<lparr>ps_tautological_clauses := ps_tautological_clauses st + 1\<rparr>))
            (\<lambda>_. bnd (log_delete original) (\<lambda>_. ret (Stop ())))
        else ret (Go (out @ [l], ch)))"
    using i l(1) neg by (cases "basic_simplification opts"; cases "l \<in> set out") (simp_all add: simplify_lit_def s Let_def lit_ok_def)
  note k = kept_ok_snoc [OF inv [unfolded s fst_conv]]
  show ?thesis
  proof (cases "A ! (lit_var l - 1)")
    case None
    let ?b = "basic_simplification opts"
    consider (dup) "?b \<and> l \<in> set out" | (taut) "?b \<and> l \<notin> set out \<and> - l \<in> set out"
      | (push) "\<not> (?b \<and> l \<in> set out)" "\<not> (?b \<and> - l \<in> set out)" by blast
    then show ?thesis
    proof cases
      case dup
      then show ?thesis unfolding prog None option.case if_P [OF dup]
        using k(2) by (intro spec_rules) simp
    next
      case taut
      then have n: "\<not> (?b \<and> l \<in> set out)" "?b \<and> - l \<in> set out" by blast+
      show ?thesis unfolding prog None option.case if_not_P [OF n(1)] if_P [OF n(2)]
        using taut in_taut by (intro spec_rules) simp
    next
      case push
      then show ?thesis unfolding prog None option.case if_not_P [OF push(1)] if_not_P [OF push(2)]
        using k(1)[OF None _ l0] by (intro spec_rules) simp
    qed
  next
    case (Some b)
    have sat: "lit_satisfied l a \<longleftrightarrow> b = (l > 0)" if "agrees A a" for a
      using agrees_lit [OF that A l(1) Some] .
    then have "\<forall>a. agrees A a \<longrightarrow> clause_satisfied c a" if "b = (l > 0)"
      using that l(2) by (auto simp: clause_satisfied_iff)
    then show ?thesis
      unfolding prog Some option.case using sat
      by (intro spec_after_tick) (auto intro!: spec_rules k(3))
  qed
qed

text \<open>The invariant of the clause loop.\<close>

definition pass_ok :: "nat \<Rightarrow> bool \<Rightarrow> bool option list \<Rightarrow> clause list \<Rightarrow> pass \<Rightarrow> bool" where
  "pass_ok n strict A pre p \<longleftrightarrow>
     (\<forall>a. length a = n \<and> agrees A a \<longrightarrow> holds (pa_simplified p) a = holds pre a) \<and>
     tidy n strict (pa_simplified p) \<and> clean A (pa_simplified p) \<and>
     (\<forall>u \<in> set (pa_units p). [u] \<in> set (pa_simplified p)) \<and>
     length (pa_polarity p) = n \<and>
     (\<forall>c \<in> set (pa_simplified p). \<forall>l \<in> set c.
        (l > 0 \<longrightarrow> fst (pa_polarity p ! (lit_var l - 1))) \<and> (l < 0 \<longrightarrow> snd (pa_polarity p ! (lit_var l - 1))))"

lemma length_mark_polarity [simp]: "length (mark_polarity out pol) = length pol"
  unfolding mark_polarity_def by (induction out arbitrary: pol) (simp_all add: Let_def case_prod_unfold)

lemma mark_polarity_Cons:
  "mark_polarity (l # out) pol = mark_polarity out (pol[lit_var l - 1 :=
     (if l > 0 then (True, snd (pol ! (lit_var l - 1))) else (fst (pol ! (lit_var l - 1)), True))])"
  by (simp add: mark_polarity_def Let_def case_prod_unfold)

lemma mark_polarity_mono:
  "(fst (pol ! i) \<longrightarrow> fst (mark_polarity out pol ! i)) \<and> (snd (pol ! i) \<longrightarrow> snd (mark_polarity out pol ! i))"
proof (induction out arbitrary: pol)
  case Nil
  then show ?case by (simp add: mark_polarity_def)
next
  case (Cons l out)
  let ?p = "pol[lit_var l - 1 := (if l > 0 then (True, snd (pol ! (lit_var l - 1)))
      else (fst (pol ! (lit_var l - 1)), True))]"
  have "(fst (pol ! i) \<longrightarrow> fst (?p ! i)) \<and> (snd (pol ! i) \<longrightarrow> snd (?p ! i))"
    by (cases "i < length pol"; cases "lit_var l - 1 < length pol")
      (auto simp: nth_list_update list_update_beyond not_less)
  with Cons [of ?p] show ?case unfolding mark_polarity_Cons by blast
qed

lemma mark_polarity_set:
  "\<lbrakk>l \<in> set out; lit_var l - 1 < length pol\<rbrakk> \<Longrightarrow>
    (l > 0 \<longrightarrow> fst (mark_polarity out pol ! (lit_var l - 1))) \<and>
    (l < 0 \<longrightarrow> snd (mark_polarity out pol ! (lit_var l - 1)))"
proof (induction out arbitrary: pol)
  case (Cons k out)
  show ?case
  proof (cases "l \<in> set out")
    case True
    then show ?thesis using Cons unfolding mark_polarity_Cons by simp
  next
    case False
    with Cons.prems have "k = l" by simp
    let ?p = "pol[lit_var l - 1 := (if l > 0 then (True, snd (pol ! (lit_var l - 1)))
        else (fst (pol ! (lit_var l - 1)), True))]"
    have "(l > 0 \<longrightarrow> fst (?p ! (lit_var l - 1))) \<and> (l < 0 \<longrightarrow> snd (?p ! (lit_var l - 1)))"
      using Cons.prems by auto
    then show ?thesis
      unfolding mark_polarity_Cons \<open>k = l\<close> using mark_polarity_mono [of ?p _ out] by blast
  qed
qed simp

text \<open>The kept literals of a clause that is neither satisfied nor empty.\<close>

definition pass_add :: "bool \<Rightarrow> pass \<Rightarrow> clause \<Rightarrow> bool \<Rightarrow> pass" where
  "pass_add units p out changed =
     \<lparr>pa_simplified = pa_simplified p @ [out],
      pa_units = (if units \<and> length out = 1 then pa_units p @ [out ! 0] else pa_units p),
      pa_polarity = mark_polarity out (pa_polarity p), pa_changed = changed\<rparr>"

lemma kept_equiv:
  assumes "kept_ok strict A c kept" "agrees A a"
  shows "clause_satisfied (sort kept) a = clause_satisfied c a"
  using assms by (auto simp: kept_ok_def clause_satisfied_iff)

lemma pass_ok_add:
  assumes inv: "pass_ok n strict A pre p" and k: "kept_ok strict A c kept" and cok: "clause_ok n c"
  shows "pass_ok n strict A (pre @ [c]) (pass_add units p (sort kept) ch)"
proof -
  let ?out = "sort kept" and ?p' = "pass_add units p (sort kept) ch"
  have sub: "set ?out \<subseteq> set c" using k by (simp add: kept_ok_def)
  have "\<forall>a. length a = n \<and> agrees A a \<longrightarrow> holds (pa_simplified ?p') a = holds (pre @ [c]) a"
    using inv kept_equiv [OF k] by (simp add: pass_ok_def pass_add_def)
  moreover have "tidy n strict (pa_simplified ?p')"
    using inv k cok sub by (auto simp: pass_ok_def pass_add_def tidy_def clause_ok_def kept_ok_def nontaut_def)
  moreover have "clean A (pa_simplified ?p')"
    using inv k by (auto simp: pass_ok_def pass_add_def clean_def kept_ok_def)
  moreover have "\<forall>u \<in> set (pa_units ?p'). [u] \<in> set (pa_simplified ?p')"
  proof -
    have "u \<in> set (pa_units p) \<or> [u] = ?out" if u: "u \<in> set (pa_units ?p')" for u
    proof (cases "units \<and> length ?out = 1")
      case True
      then obtain v where "?out = [v]" by (cases ?out) auto
      then show ?thesis using u True by (auto simp: pass_add_def)
    next
      case False
      then show ?thesis using u by (auto simp: pass_add_def)
    qed
    then show ?thesis using inv by (fastforce simp: pass_ok_def pass_add_def)
  qed
  moreover have "length (pa_polarity ?p') = n" using inv by (simp add: pass_ok_def pass_add_def)
  moreover have "\<forall>d \<in> set (pa_simplified ?p'). \<forall>l \<in> set d.
      (l > 0 \<longrightarrow> fst (pa_polarity ?p' ! (lit_var l - 1))) \<and> (l < 0 \<longrightarrow> snd (pa_polarity ?p' ! (lit_var l - 1)))"
  proof (intro ballI)
    fix d l assume d: "d \<in> set (pa_simplified ?p')" and l: "l \<in> set d"
    show "(l > 0 \<longrightarrow> fst (pa_polarity ?p' ! (lit_var l - 1))) \<and> (l < 0 \<longrightarrow> snd (pa_polarity ?p' ! (lit_var l - 1)))"
    proof (cases "d \<in> set (pa_simplified p)")
      case True
      then show ?thesis
        using inv l mark_polarity_mono [of "pa_polarity p" "lit_var l - 1" ?out]
        by (auto simp: pass_ok_def pass_add_def)
    next
      case False
      then have d: "d = ?out" using d by (simp add: pass_add_def)
      then have "lit_ok n l" using l sub cok by (auto simp: clause_ok_def)
      then have "lit_var l - 1 < length (pa_polarity p)"
        using lit_ok_index inv by (auto simp: pass_ok_def)
      then show ?thesis
        using mark_polarity_set [of l ?out "pa_polarity p"] l d by (simp add: pass_add_def)
    qed
  qed
  ultimately show ?thesis by (simp add: pass_ok_def)
qed

lemma simplify_clause_spec:
  assumes A: "length A = n" and cok: "clause_ok n c"
    and inv: "pass_ok n (basic_simplification opts) A pre p"
    and U: "\<not> U \<Longrightarrow> \<exists>a. agrees A a \<and> clause_satisfied c a"
  shows "spec (simplify_clause opts n A c p) (pass_ok n (basic_simplification opts) A (pre @ [c])) U"
proof -
  let ?b = "basic_simplification opts" and ?orig = "canonical_clause c"
  let ?loop = "for_until (simplify_lit opts n A ?orig) c ([], pa_changed p)"
  have loop: "spec ?loop (\<lambda>r. case r of Go s' \<Rightarrow> set ([] @ c) \<subseteq> set c \<and> kept_ok ?b A ([] @ c) (fst s')
      | Stop _ \<Rightarrow> \<forall>a. agrees A a \<longrightarrow> clause_satisfied c a) U"
  proof (rule spec_for_until [where I = "\<lambda>pre s. set pre \<subseteq> set c \<and> kept_ok ?b A pre (fst s)"])
    fix x pre and s :: "clause \<times> bool"
    assume "x \<in> set c" "set pre \<subseteq> set c \<and> kept_ok ?b A pre (fst s)"
    then have x: "x \<in> set c" "lit_ok n x" "set (pre @ [x]) \<subseteq> set c" "kept_ok ?b A pre (fst s)"
      using cok by (auto simp: clause_ok_def)
    show "spec (simplify_lit opts n A ?orig x s)
        (\<lambda>r. case r of Go s' \<Rightarrow> set (pre @ [x]) \<subseteq> set c \<and> kept_ok ?b A (pre @ [x]) (fst s')
          | Stop _ \<Rightarrow> \<forall>a. agrees A a \<longrightarrow> clause_satisfied c a) U"
      by (rule spec_mono [OF simplify_lit_spec [OF A x(2,1) cok x(3,4)]])
        (use x(3) in \<open>auto split: loop.splits\<close>)
  qed (simp add: kept_ok_def nontaut_def)
  have stop: "pass_ok n ?b A (pre @ [c]) (p\<lparr>pa_changed := True\<rparr>)"
    if "\<forall>a. agrees A a \<longrightarrow> clause_satisfied c a"
    using inv that by (simp add: pass_ok_def)
  have empty: U if "kept_ok ?b A c kept" "sort kept = []" for kept
  proof -
    have "kept = []" using that(2) by (metis set_empty set_sort)
    then show ?thesis using that(1) U by (auto simp: kept_ok_def clause_satisfied_def)
  qed
  show ?thesis
    unfolding simplify_clause_def Let_def
  proof (intro spec_after_tick spec_bnd [OF loop])
    fix r :: "(clause \<times> bool, unit) loop"
    assume r: "case r of Go s' \<Rightarrow> set ([] @ c) \<subseteq> set c \<and> kept_ok ?b A ([] @ c) (fst s')
        | Stop _ \<Rightarrow> \<forall>a. agrees A a \<longrightarrow> clause_satisfied c a"
    show "spec (case r of
        Stop _ \<Rightarrow> ret (p\<lparr>pa_changed := True\<rparr>)
      | Go (kept, changed) \<Rightarrow>
          if sort kept = [] then bnd (log_add []) (\<lambda>_. leave Unsat)
          else bnd (when_logging (if canonical_clause (sort kept) \<noteq> ?orig
                                  then bnd (log_add (sort kept)) (\<lambda>_. log_delete ?orig) else ret ()))
            (\<lambda>_. ret \<lparr>pa_simplified = pa_simplified p @ [sort kept],
                   pa_units = (if unit_propagation opts \<and> length (sort kept) = 1
                               then pa_units p @ [sort kept ! 0] else pa_units p),
                   pa_polarity = mark_polarity (sort kept) (pa_polarity p),
                   pa_changed = changed\<rparr>)) (pass_ok n ?b A (pre @ [c])) U"
    proof (cases r)
      case (Stop u)
      then show ?thesis using r stop by (simp add: spec_ret)
    next
      case (Go s)
      obtain kept ch where s: "s = (kept, ch)" by (cases s)
      have k: "kept_ok ?b A c kept" using r Go s by simp
      show ?thesis
      proof (cases "sort kept = []")
        case True
        then show ?thesis unfolding Go s using empty [OF k] by (simp add: spec_leave_unsat spec_log_add)
      next
        case False
        have "pass_ok n ?b A (pre @ [c]) (pass_add (unit_propagation opts) p (sort kept) ch)"
          by (rule pass_ok_add [OF inv k cok])
        with False show ?thesis
          unfolding Go s loop.case prod.case pass_add_def by (simp add: spec_log_replace)
      qed
    qed
  qed
qed

text \<open>The whole pass.\<close>

lemma simplify_pass_spec:
  assumes A: "length (pp_assigned st) = n" and cok: "\<forall>c \<in> set (pp_clauses st). clause_ok n c"
    and U: "\<not> U \<Longrightarrow> \<exists>a. models n (pp_clauses st) (pp_assigned st) a"
  shows "spec (simplify_pass opts n st)
    (pass_ok n (basic_simplification opts) (pp_assigned st) (pp_clauses st)) U"
proof -
  let ?A = "pp_assigned st" and ?cs = "pp_clauses st" and ?b = "basic_simplification opts"
  have "spec (for_each (simplify_clause opts n ?A) ?cs \<lparr>pa_simplified = [], pa_units = [],
      pa_polarity = replicate n (False, False), pa_changed = False\<rparr>) (pass_ok n ?b ?A ([] @ ?cs)) U"
  proof (rule spec_for_each)
    fix c pre p
    assume c: "c \<in> set ?cs" and inv: "pass_ok n ?b ?A pre p"
    have "\<exists>a. agrees ?A a \<and> clause_satisfied c a" if "\<not> U"
      using U [OF that] c by (auto simp: models_def holds_def)
    then show "spec (simplify_clause opts n ?A c p) (pass_ok n ?b ?A (pre @ [c])) U"
      using simplify_clause_spec [OF A _ inv] c cok by blast
  qed (simp add: pass_ok_def tidy_def clean_def)
  then show ?thesis by (simp add: simplify_pass_def)
qed

section \<open>Units and pure literals\<close>

lemma agrees_update:
  assumes "A ! i = None" "i < length A"
  shows "agrees (A[i := Some b]) a \<longleftrightarrow> agrees A a \<and> a ! i = b"
  using assms by (auto simp: agrees_def nth_list_update split: if_splits)

lemma assign_unit_spec:
  assumes A: "length A = n" "length (fst s) = n" and u: "[u] \<in> set cs" "lit_ok n u"
    and same: "\<And>a. length a = n \<Longrightarrow> holds cs a \<Longrightarrow> agrees A a = agrees (fst s) a"
    and U: "\<not> U \<Longrightarrow> \<exists>a. models n cs A a"
  shows "spec (assign_unit u s) (\<lambda>s'. length (fst s') = n \<and>
      (\<forall>a. length a = n \<and> holds cs a \<longrightarrow> agrees A a = agrees (fst s') a) \<and>
      (\<not> snd s' \<longrightarrow> \<not> snd s \<and> fst s' = fst s)) U"
proof -
  obtain A' ch where s: "s = (A', ch)" by (cases s)
  note i = lit_ok_index [OF u(2)]
  have sat: "lit_satisfied u a" if "holds cs a" for a
    using that u(1) by (auto simp: holds_def clause_satisfied_def)
  have val: "a ! (lit_var u - 1) = (u > 0)" if "holds cs a" for a
    using sat [OF that] by (auto simp: lit_satisfied_def Let_def split: if_splits)
  show ?thesis
  proof (cases "A' ! (lit_var u - 1)")
    case None
    have "agrees A a = agrees (A'[lit_var u - 1 := Some (u > 0)]) a" if "length a = n" "holds cs a" for a
      using same [OF that] val [OF that(2)] agrees_update [OF None] i A(2) by (simp add: s)
    then show ?thesis
      unfolding assign_unit_def s Let_def prod.case None option.case
      using A by (intro spec_rules) (simp add: s)
  next
    case (Some b)
    have U': U if "b \<noteq> (u > 0)"
    proof (rule ccontr)
      assume "\<not> U"
      then obtain a where a: "length a = n" "holds cs a" "agrees A a" using U by (auto simp: models_def)
      then have "agrees A' a" using same by (simp add: s)
      then have "a ! (lit_var u - 1) = b" using Some i A(2) by (auto simp: agrees_def s)
      with val [OF a(2)] that show False by simp
    qed
    show ?thesis
    proof (cases "b = (u > 0)")
      case True
      then show ?thesis
        unfolding assign_unit_def s Let_def prod.case Some option.case
        using A same by (simp add: s spec_after_tick spec_ret)
    next
      case False
      then show ?thesis
        unfolding assign_unit_def s Let_def prod.case Some option.case
        using U' by (simp add: spec_after_tick spec_log_add spec_leave_unsat)
    qed
  qed
qed

text \<open>
  Pure literals: every model of the new assignment is one of the old, and a model of the
  old becomes one of the new by setting the variable to its only polarity.
\<close>

definition polarity_ok :: "(bool \<times> bool) list \<Rightarrow> clause list \<Rightarrow> bool" where
  "polarity_ok pol cs \<longleftrightarrow> (\<forall>c \<in> set cs. \<forall>l \<in> set c.
     (l > 0 \<longrightarrow> fst (pol ! (lit_var l - 1))) \<and> (l < 0 \<longrightarrow> snd (pol ! (lit_var l - 1))))"

lemma pure_update:
  assumes pol: "polarity_ok pol cs" "pol ! i = (p, q)" "p \<noteq> q"
    and cok: "\<forall>c \<in> set cs. clause_ok n c" and i: "i < n" and m: "models n cs A a" "A ! i = None"
    and A: "length A = n"
  shows "models n cs (A[i := Some p]) (a[i := p])"
proof -
  have "clause_satisfied c (a[i := p])" if c: "c \<in> set cs" for c
  proof -
    obtain l where l: "l \<in> set c" "lit_satisfied l a"
      using m(1) c by (auto simp: models_def holds_def clause_satisfied_iff)
    have lo: "lit_ok n l" using cok c l by (auto simp: clause_ok_def)
    have pl: "(l > 0 \<longrightarrow> fst (pol ! (lit_var l - 1))) \<and> (l < 0 \<longrightarrow> snd (pol ! (lit_var l - 1)))"
      using pol(1) c l(1) by (auto simp: polarity_ok_def)
    have "lit_satisfied l (a[i := p])"
    proof (cases "lit_var l - 1 = i")
      case True
      then have "p = (l > 0)" using pl pol(2,3) lo by (auto simp: lit_ok_def)
      moreover have "a[i := p] ! i = p" using i m(1) by (simp add: models_def)
      ultimately show ?thesis using True by (simp add: lit_satisfied_def Let_def)
    next
      case False
      then show ?thesis using l(2) by (simp add: lit_satisfied_def Let_def)
    qed
    with l(1) show ?thesis by (auto simp: clause_satisfied_iff)
  qed
  moreover have "agrees (A[i := Some p]) (a[i := p])"
    using m A i by (auto simp: agrees_def models_def nth_list_update split: if_splits)
  ultimately show ?thesis using m(1) by (auto simp: models_def holds_def)
qed

text \<open>What one pure step promises relative to where the stage began.\<close>

definition shrinks :: "nat \<Rightarrow> clause list \<Rightarrow> bool option list \<Rightarrow> bool option list \<Rightarrow> bool" where
  "shrinks n cs A A' \<longleftrightarrow> length A' = n \<and> (\<forall>a. models n cs A' a \<longrightarrow> models n cs A a) \<and>
     ((\<exists>a. models n cs A a) \<longrightarrow> (\<exists>a. models n cs A' a))"

lemma assign_pure_spec:
  assumes pol: "polarity_ok pol cs" and ip: "i < n" "pol ! i = (p, q)"
    and cok: "\<forall>c \<in> set cs. clause_ok n c" and s: "shrinks n cs A (fst s)"
  shows "spec (assign_pure (i, p, q) s) (\<lambda>s'. shrinks n cs A (fst s') \<and> (\<not> snd s' \<longrightarrow> \<not> snd s \<and> fst s' = fst s)) U"
proof -
  obtain A' ch where s': "s = (A', ch)" by (cases s)
  have len: "length A' = n" using s by (simp add: s' shrinks_def)
  show ?thesis
  proof (cases "A' ! i = None \<and> p \<noteq> q")
    case False
    then show ?thesis
      unfolding assign_pure_def s' prod.case if_not_P [OF False] Let_def
      using s by (simp add: s' spec_after_tick spec_ret)
  next
    case True
    have "models n cs A' a" if "models n cs (A'[i := Some p]) a" for a
      using that True ip(1) len agrees_update [of A' i p a] by (simp add: models_def)
    moreover have "\<exists>a. models n cs (A'[i := Some p]) a" if "models n cs A' a" for a
      using pure_update [OF pol ip(2) _ cok ip(1) that _ len] True by (intro exI [of _ "a[i := p]"]) simp
    ultimately have "shrinks n cs A (A'[i := Some p])"
      using s len by (auto simp: s' shrinks_def)
    then show ?thesis
      unfolding assign_pure_def s' prod.case if_P [OF True] Let_def
      by (simp add: spec_after_tick spec_log_add spec_after_count spec_ret)
  qed
qed

lemma shrinks_refl: "length A = n \<Longrightarrow> shrinks n cs A A"
  by (auto simp: shrinks_def)

lemma shrinks_same:
  assumes "length A' = n" "\<And>a. length a = n \<Longrightarrow> holds cs a \<Longrightarrow> agrees A a = agrees A' a"
  shows "shrinks n cs A A'"
  using assms by (auto simp: shrinks_def models_def)

lemma shrinks_trans: "shrinks n cs A B \<Longrightarrow> shrinks n cs B C \<Longrightarrow> shrinks n cs A C"
  by (auto simp: shrinks_def)

lemma assign_units_spec:
  assumes A: "length A = n" and cok: "\<forall>c \<in> set cs. clause_ok n c" and us: "\<forall>u \<in> set us. [u] \<in> set cs"
    and U: "\<not> U \<Longrightarrow> \<exists>a. models n cs A a"
  shows "spec (for_each assign_unit us (A, ch)) (\<lambda>s'. shrinks n cs A (fst s') \<and> (\<not> snd s' \<longrightarrow> \<not> ch \<and> fst s' = A)) U"
proof -
  let ?I = "\<lambda>pre s'. length (fst s') = n \<and> (\<forall>a. length a = n \<and> holds cs a \<longrightarrow> agrees A a = agrees (fst s') a) \<and>
      (\<not> snd s' \<longrightarrow> \<not> ch \<and> fst s' = A)"
  have "spec (for_each assign_unit us (A, ch)) (?I ([] @ us)) U"
  proof (rule spec_for_each)
    fix u pre s
    assume u: "u \<in> set us" and inv: "?I pre s"
    have "lit_ok n u" using u us cok by (fastforce simp: clause_ok_def)
    then have "spec (assign_unit u s) (\<lambda>s'. length (fst s') = n \<and>
        (\<forall>a. length a = n \<and> holds cs a \<longrightarrow> agrees A a = agrees (fst s') a) \<and>
        (\<not> snd s' \<longrightarrow> \<not> snd s \<and> fst s' = fst s)) U"
      using assign_unit_spec [OF A, of s u cs U] u us inv U by blast
    then show "spec (assign_unit u s) (?I (pre @ [u])) U"
      by (rule spec_mono) (use inv in auto)
  qed (simp add: A)
  then show ?thesis
    by (rule spec_mono) (auto intro: shrinks_same)
qed

lemma assign_pass_spec:
  assumes A: "length A = n" and p: "pass_ok n strict A cs0 p" and U: "\<not> U \<Longrightarrow> \<exists>a. models n (pa_simplified p) A a"
  shows "spec (assign_pass opts A p) (\<lambda>(A', ch). shrinks n (pa_simplified p) A A' \<and>
    (\<not> ch \<longrightarrow> \<not> pa_changed p \<and> A' = A)) U"
proof -
  let ?cs = "pa_simplified p" and ?pol = "pa_polarity p"
  have cok: "\<forall>c \<in> set ?cs. clause_ok n c" using p by (simp add: pass_ok_def tidy_def)
  have pol: "polarity_ok ?pol ?cs" "length ?pol = n" using p by (simp_all add: pass_ok_def polarity_ok_def)
  have us: "\<forall>u \<in> set (pa_units p). [u] \<in> set ?cs" using p by (simp add: pass_ok_def)
  have pure: "spec (for_each assign_pure (enumerate 0 ?pol) (A', ch))
      (\<lambda>s'. shrinks n ?cs A (fst s') \<and> (\<not> snd s' \<longrightarrow> \<not> ch \<and> fst s' = A')) U"
    if sh: "shrinks n ?cs A A'" for A' ch
  proof -
    let ?I = "\<lambda>(pre :: (nat \<times> bool \<times> bool) list) s'. shrinks n ?cs A (fst s') \<and> (\<not> snd s' \<longrightarrow> \<not> ch \<and> fst s' = A')"
    have "spec (for_each assign_pure (enumerate 0 ?pol) (A', ch)) (?I ([] @ enumerate 0 ?pol)) U"
    proof (rule spec_for_each)
      fix x pre s
      assume x: "x \<in> set (enumerate 0 ?pol)" and inv: "?I pre s"
      obtain i pq where ipq: "x = (i, pq)" by (cases x)
      obtain q r where pq: "pq = (q, r)" by (cases pq)
      have "i < n" "?pol ! i = (q, r)" using x pol(2) by (auto simp: ipq pq in_set_enumerate_eq)
      then have "spec (assign_pure x s)
          (\<lambda>s'. shrinks n ?cs A (fst s') \<and> (\<not> snd s' \<longrightarrow> \<not> snd s \<and> fst s' = fst s)) U"
        using assign_pure_spec [OF pol(1) _ _ cok, of i q r A s] inv by (simp add: ipq pq)
      then show "spec (assign_pure x s) (?I (pre @ [x])) U"
        by (rule spec_mono) (use inv in auto)
    qed (simp add: sh)
    then show ?thesis by simp
  qed
  show ?thesis
    unfolding assign_pass_def
  proof (rule spec_bnd [OF assign_units_spec [OF A cok us U]])
    fix s' assume s': "shrinks n ?cs A (fst s') \<and> (\<not> snd s' \<longrightarrow> \<not> pa_changed p \<and> fst s' = A)"
    obtain A' ch where "s' = (A', ch)" by (cases s')
    with s' pure [of A' ch]
    show "spec (case s' of (assigned, changed) \<Rightarrow> if pure_literals opts \<and> \<not> changed
        then for_each assign_pure (enumerate 0 ?pol) (assigned, changed) else ret (assigned, changed))
      (\<lambda>(A', ch). shrinks n ?cs A A' \<and> (\<not> ch \<longrightarrow> \<not> pa_changed p \<and> A' = A)) U"
      by (auto elim!: spec_mono intro: spec_ret)
  qed simp
qed

end
