(* ===== verification/SatSubsume.thy ===== *)
theory SatSubsume imports SatSimplify begin

text \<open>
  Correctness of the two stages of a preprocessing round that keep the set of models:
  subsumption and self-subsuming resolution.
\<close>

section \<open>Subsumption\<close>

lemma sorted_subset_spec: "spec (sorted_subset a b) (\<lambda>r. r \<longrightarrow> set a \<subseteq> set b) U"
proof (induction a b rule: sorted_subset.induct)
  case (3 x a y b)
  show ?case
    unfolding sorted_subset.simps
  proof (rule spec_after_tick, cases "x = y")
    case True
    with "3.IH"(1) show "spec (if x = y then sorted_subset a b
        else if y < x then sorted_subset (x # a) b else ret False) (\<lambda>r. r \<longrightarrow> set (x # a) \<subseteq> set (y # b)) U"
      by (auto elim!: spec_mono)
  next
    case False
    have "spec (sorted_subset (x # a) b) (\<lambda>r. r \<longrightarrow> set (x # a) \<subseteq> set (y # b)) U" if "y < x"
      by (rule spec_mono [OF "3.IH"(2)[OF False that]]) auto
    with False show "spec (if x = y then sorted_subset a b
        else if y < x then sorted_subset (x # a) b else ret False) (\<lambda>r. r \<longrightarrow> set (x # a) \<subseteq> set (y # b)) U"
      by (simp add: spec_ret)
  qed
qed (simp_all add: spec_ret)

text \<open>Every removed clause is subsumed by a clause that stays.\<close>

definition subsumed_ok :: "clause list \<Rightarrow> bool list \<Rightarrow> bool" where
  "subsumed_ok cs removed \<longleftrightarrow> length removed = length cs \<and>
     (\<forall>j < length cs. removed ! j \<longrightarrow> (\<exists>i < length cs. \<not> removed ! i \<and> set (cs ! i) \<subseteq> set (cs ! j)))"

lemma subsumed_ok_remove:
  assumes ok: "subsumed_ok cs removed" and i: "i < length cs" "\<not> removed ! i"
    and j: "i \<noteq> j" "set (cs ! i) \<subseteq> set (cs ! j)"
  shows "subsumed_ok cs (removed[j := True])"
  unfolding subsumed_ok_def
proof (intro conjI allI impI)
  show "length (removed[j := True]) = length cs" using ok by (simp add: subsumed_ok_def)
  fix k assume k: "k < length cs" "removed[j := True] ! k"
  have i': "\<not> removed[j := True] ! i" using i j(1) by simp
  show "\<exists>i < length cs. \<not> removed[j := True] ! i \<and> set (cs ! i) \<subseteq> set (cs ! k)"
  proof (cases "k = j")
    case True
    then show ?thesis using i i' j(2) by blast
  next
    case False
    with ok k obtain m where m: "m < length cs" "\<not> removed ! m" "set (cs ! m) \<subseteq> set (cs ! k)"
      by (auto simp: subsumed_ok_def)
    show ?thesis
    proof (cases "m = j")
      case True
      then show ?thesis using m i i' j(2) by blast
    next
      case False
      then show ?thesis using m by auto
    qed
  qed
qed

lemma subsume_pair_spec:
  assumes ok: "subsumed_ok cs (fst s)" and i: "i < length cs" "\<not> fst s ! i"
  shows "spec (subsume_pair cs i j s) (\<lambda>s'. subsumed_ok cs (fst s') \<and> \<not> fst s' ! i) U"
proof -
  obtain removed ch where s: "s = (removed, ch)" by (cases s)
  show ?thesis
  proof (cases "i = j \<or> removed ! j \<or> length (cs ! i) > length (cs ! j) \<or>
      length (cs ! i) = length (cs ! j) \<and> i > j")
    case True
    then show ?thesis using ok i by (auto simp: subsume_pair_def s intro!: spec_rules)
  next
    case False
    then have "\<not> (i = j \<or> removed ! j)" "\<not> length (cs ! i) > length (cs ! j)"
      "\<not> (length (cs ! i) = length (cs ! j) \<and> i > j)" by blast+
    note n = this [THEN if_not_P]
    have prog: "subsume_pair cs i j s = bnd tick (\<lambda>_. bnd (sorted_subset (cs ! i) (cs ! j)) (\<lambda>sub.
         if sub then
           bnd (log_delete (cs ! j)) (\<lambda>_.
           bnd (count (\<lambda>st. st\<lparr>ps_subsumed_clauses := ps_subsumed_clauses st + 1\<rparr>)) (\<lambda>_.
           ret (removed[j := True], True)))
         else ret (removed, ch)))"
      unfolding subsume_pair_def s prod.case n ..
    show ?thesis
      unfolding prog
    proof (rule spec_after_tick, rule spec_bnd [OF sorted_subset_spec])
      fix sub assume sub: "sub \<longrightarrow> set (cs ! i) \<subseteq> set (cs ! j)"
      show "spec (if sub then
           bnd (log_delete (cs ! j)) (\<lambda>_.
           bnd (count (\<lambda>st. st\<lparr>ps_subsumed_clauses := ps_subsumed_clauses st + 1\<rparr>)) (\<lambda>_.
           ret (removed[j := True], True)))
         else ret (removed, ch)) (\<lambda>s'. subsumed_ok cs (fst s') \<and> \<not> fst s' ! i) U"
        using sub ok i False subsumed_ok_remove [of cs removed i j]
        by (auto simp: s intro!: spec_rules)
    qed
  qed
qed

lemma keep_unremoved_set:
  "length removed = length cs \<Longrightarrow> set (keep_unremoved removed cs) = {cs ! i | i. i < length cs \<and> \<not> removed ! i}"
  by (auto simp: keep_unremoved_def in_set_enumerate_eq image_iff)

definition same_models :: "nat \<Rightarrow> clause list \<Rightarrow> clause list \<Rightarrow> bool" where
  "same_models n cs ds \<longleftrightarrow> (\<forall>a. length a = n \<longrightarrow> holds cs a = holds ds a)"

lemma same_models_refl [simp]: "same_models n cs cs"
  by (simp add: same_models_def)

lemma same_models_trans: "same_models n cs ds \<Longrightarrow> same_models n ds es \<Longrightarrow> same_models n cs es"
  by (simp add: same_models_def)

text \<open>The contract of a stage that keeps the models, provided literals can be negated.\<close>

definition equiv_stage :: "nat \<Rightarrow> bool \<Rightarrow> clause list \<Rightarrow> clause list \<times> bool \<Rightarrow> bool" where
  "equiv_stage n strict cs r \<longleftrightarrow> (vars_fit n \<longrightarrow> same_models n cs (fst r)) \<and> tidy n strict (fst r) \<and> (\<not> snd r \<longrightarrow> fst r = cs)"

lemma remove_subsumed_spec:
  assumes tidy: "tidy n strict cs"
  shows "spec (remove_subsumed_clauses cs) (equiv_stage n strict cs) U"
proof -
  let ?n = "length cs"
  let ?outer = "\<lambda>i s. if fst s ! i then ret s else for_each (subsume_pair cs i) [0..<?n] s"
  have outer: "spec (?outer i s) (\<lambda>s'. subsumed_ok cs (fst s')) U"
    if i: "i < ?n" and ok: "subsumed_ok cs (fst s)" for i and s :: "bool list \<times> bool"
  proof (cases "fst s ! i")
    case True
    then show ?thesis using ok by (simp add: spec_ret)
  next
    case False
    let ?I = "\<lambda>(pre :: nat list) s. subsumed_ok cs (fst s) \<and> \<not> fst s ! i"
    have "spec (for_each (subsume_pair cs i) [0..<?n] s) (?I ([] @ [0..<?n])) U"
      by (rule spec_for_each) (use i False ok subsume_pair_spec in auto)
    then show ?thesis using False by (auto elim: spec_mono)
  qed
  let ?J = "\<lambda>(pre :: nat list) s. subsumed_ok cs (fst s)"
  have loop: "spec (for_each ?outer [0..<?n] (replicate ?n False, False)) (?J ([] @ [0..<?n])) U"
    by (rule spec_for_each) (use outer in \<open>auto simp: subsumed_ok_def\<close>)
  show ?thesis
    unfolding remove_subsumed_clauses_def
  proof (rule spec_own_work, rule spec_bnd [OF loop])
    fix s :: "bool list \<times> bool" assume s: "subsumed_ok cs (fst s)"
    obtain removed ch where sr: "s = (removed, ch)" by (cases s)
    let ?ks = "keep_unremoved removed cs"
    have ks: "set ?ks = {cs ! i | i. i < ?n \<and> \<not> removed ! i}"
      using s by (intro keep_unremoved_set) (simp add: sr subsumed_ok_def)
    have sub: "set ?ks \<subseteq> set cs" by (auto simp: ks)
    have "\<exists>d \<in> set ?ks. set d \<subseteq> set c" if "c \<in> set cs" for c
    proof -
      obtain j where j: "j < ?n" "cs ! j = c" using \<open>c \<in> set cs\<close> by (auto simp: in_set_conv_nth)
      show ?thesis
      proof (cases "removed ! j")
        case True
        then obtain i where "i < ?n" "\<not> removed ! i" "set (cs ! i) \<subseteq> set c"
          using s j by (auto simp: sr subsumed_ok_def)
        then show ?thesis unfolding ks by blast
      next
        case False
        then show ?thesis unfolding ks using j by blast
      qed
    qed
    then have "holds ?ks a = holds cs a" for a
      using sub unfolding holds_def clause_satisfied_iff by (metis subsetD)
    moreover have "tidy n strict ?ks" using tidy sub by (auto simp: tidy_def)
    ultimately show "spec (case s of (removed, changed) \<Rightarrow>
        ret (if changed then keep_unremoved removed cs else cs, changed)) (equiv_stage n strict cs) U"
      using tidy by (auto simp: sr equiv_stage_def same_models_def intro!: spec_ret)
  qed
qed

section \<open>Self-subsuming resolution\<close>

lemma subsumes_without_spec:
  "spec (subsumes_without source lit target)
     (\<lambda>r. r \<longrightarrow> (\<forall>l \<in> set source. l \<noteq> lit \<longrightarrow> l \<in> set target)) U"
proof -
  let ?f = "\<lambda>other s. bnd tick (\<lambda>_.
      if other \<noteq> lit \<and> \<not> contains_lit target other then ret (Stop ()) else ret (Go s))"
  let ?I = "\<lambda>pre (_ :: unit). \<forall>l \<in> set pre. l \<noteq> lit \<longrightarrow> l \<in> set target"
  have "spec (for_until ?f source ()) (\<lambda>r. case r of Go s \<Rightarrow> ?I ([] @ source) s | Stop _ \<Rightarrow> True) U"
  proof (rule spec_for_until)
    fix x pre and s :: unit
    assume inv: "?I pre s"
    show "spec (?f x s) (\<lambda>r. case r of Go s \<Rightarrow> ?I (pre @ [x]) s | Stop _ \<Rightarrow> True) U"
    proof (rule spec_after_tick, cases "x \<noteq> lit \<and> \<not> contains_lit target x")
      case True
      show "spec (if x \<noteq> lit \<and> \<not> contains_lit target x then ret (Stop ()) else ret (Go s))
          (\<lambda>r. case r of Go s \<Rightarrow> ?I (pre @ [x]) s | Stop _ \<Rightarrow> True) U"
        unfolding if_P [OF True] by (rule spec_ret) simp
    next
      case False
      then have "?I (pre @ [x]) s" using inv contains_lit_sound [of target x] by auto
      then show "spec (if x \<noteq> lit \<and> \<not> contains_lit target x then ret (Stop ()) else ret (Go s))
          (\<lambda>r. case r of Go s \<Rightarrow> ?I (pre @ [x]) s | Stop _ \<Rightarrow> True) U"
        unfolding if_not_P [OF False] by (intro spec_ret) (simp only: loop.case)
    qed
  qed simp
  then show ?thesis
    unfolding subsumes_without_def
  proof (rule spec_bnd)
    fix r :: "(unit, unit) loop"
    assume "case r of Go s \<Rightarrow> ?I ([] @ source) s | Stop _ \<Rightarrow> True"
    then show "spec (ret (case r of Go _ \<Rightarrow> True | Stop _ \<Rightarrow> False))
        (\<lambda>r. r \<longrightarrow> (\<forall>l \<in> set source. l \<noteq> lit \<longrightarrow> l \<in> set target)) U"
      by (cases r) (simp_all add: spec_ret)
  qed
qed

definition strengthens :: "clause list \<Rightarrow> nat \<times> int \<Rightarrow> bool" where
  "strengthens cs jl \<longleftrightarrow> (case jl of (j, lit) \<Rightarrow> j < length cs \<and> neg_lit lit \<in> set (cs ! j) \<and>
     (\<exists>i < length cs. i \<noteq> j \<and> lit \<in> set (cs ! i) \<and> (\<forall>l \<in> set (cs ! i). l \<noteq> lit \<longrightarrow> l \<in> set (cs ! j))))"

lemma strengthen_scan_spec:
  "spec (strengthen_scan cs) (\<lambda>r. case r of Go _ \<Rightarrow> True | Stop jl \<Rightarrow> strengthens cs jl) U"
proof -
  let ?Q = "\<lambda>r. case r of Go (_ :: unit) \<Rightarrow> True | Stop jl \<Rightarrow> strengthens cs jl"
  let ?lit = "\<lambda>i j lit s. bnd tick (\<lambda>_. if \<not> contains_lit (cs ! j) (neg_lit lit) then ret (Go s)
      else bnd (subsumes_without (cs ! i) lit (cs ! j)) (\<lambda>sub. if sub then ret (Stop (j, lit)) else ret (Go s)))"
  let ?j = "\<lambda>i j s. bnd tick (\<lambda>_. if i = j then ret (Go s) else for_until (?lit i j) (cs ! i) s)"
  have lit: "spec (?lit i j lit s) ?Q U"
    if "i < length cs" "j < length cs" "i \<noteq> j" "lit \<in> set (cs ! i)" for i j lit and s :: unit
  proof (rule spec_after_tick, cases "contains_lit (cs ! j) (neg_lit lit)")
    case True
    have "spec (bnd (subsumes_without (cs ! i) lit (cs ! j))
        (\<lambda>sub. if sub then ret (Stop (j, lit)) else ret (Go s))) ?Q U"
      by (rule spec_bnd [OF subsumes_without_spec])
        (use that contains_lit_sound [OF True] in \<open>auto simp: strengthens_def intro!: spec_ret\<close>)
    with True show "spec (if \<not> contains_lit (cs ! j) (neg_lit lit) then ret (Go s)
        else bnd (subsumes_without (cs ! i) lit (cs ! j))
          (\<lambda>sub. if sub then ret (Stop (j, lit)) else ret (Go s))) ?Q U" by simp
  qed (simp add: spec_ret)
  have j: "spec (?j i j s) ?Q U" if "i < length cs" "j < length cs" for i j and s :: unit
  proof (rule spec_after_tick, cases "i = j")
    case False
    have "spec (for_until (?lit i j) (cs ! i) s)
        (\<lambda>r. case r of Go s \<Rightarrow> (\<lambda>_ _. True) ([] @ cs ! i) s | Stop jl \<Rightarrow> strengthens cs jl) U"
      by (rule spec_for_until) (use lit that False in simp_all)
    with False show "spec (if i = j then ret (Go s) else for_until (?lit i j) (cs ! i) s) ?Q U" by simp
  qed (simp add: spec_ret)
  have i: "spec (for_until (?j i) [0..<length cs] s) ?Q U" if "i < length cs" for i and s :: unit
    using spec_for_until [of "[0..<length cs]" "\<lambda>_ _. True" "?j i" "strengthens cs" U "[]" s] j that by simp
  show ?thesis
    unfolding strengthen_scan_def
    using spec_for_until [of "[0..<length cs]" "\<lambda>_ _. True" "\<lambda>i. for_until (?j i) [0..<length cs]"
        "strengthens cs" U "[]" "()"] i by simp
qed

text \<open>One strengthening keeps the models, because the source is not a tautology.\<close>

lemma strengthen_models:
  assumes st: "strengthens cs (j, lit)" and tidy: "tidy n True cs"
  shows "vars_fit n \<Longrightarrow> same_models n cs (cs[j := filter (\<lambda>l. l \<noteq> neg_lit lit) (cs ! j)])"
    and "tidy n True (cs[j := filter (\<lambda>l. l \<noteq> neg_lit lit) (cs ! j)])"
proof -
  let ?ds = "cs[j := filter (\<lambda>l. l \<noteq> neg_lit lit) (cs ! j)]"
  let ?new = "filter (\<lambda>l. l \<noteq> neg_lit lit) (cs ! j)"
  obtain i where i: "i < length cs" "i \<noteq> j" "lit \<in> set (cs ! i)"
      "\<forall>l \<in> set (cs ! i). l \<noteq> lit \<longrightarrow> l \<in> set (cs ! j)" and j: "j < length cs"
    using st by (auto simp: strengthens_def)
  have ci: "nontaut (cs ! i)" "clause_ok n (cs ! i)" using tidy i(1) by (simp_all add: tidy_def)
  have l0: "lit \<noteq> 0" using ci(2) i(3) by (auto simp: clause_ok_def lit_ok_def)
  have ci_in: "cs ! i \<in> set ?ds" using i by (metis length_list_update nth_list_update_neq nth_mem)
  have bwd: "clause_satisfied (cs ! j) a" if "clause_satisfied ?new a" for a
    using that by (auto simp: clause_satisfied_iff)
  have neg: "neg_lit lit = - lit" if "vars_fit n" using ci(2) i(3) neg_lit_ok [OF that] by (auto simp: clause_ok_def)
  have fwd: "clause_satisfied ?new a" if "clause_satisfied (cs ! j) a" "clause_satisfied (cs ! i) a" "vars_fit n" for a
  proof (cases "lit_satisfied lit a")
    case True
    then have "\<not> lit_satisfied (- lit) a" by (simp add: lit_satisfied_uminus [OF l0])
    with that(1) show ?thesis by (force simp: clause_satisfied_iff neg [OF that(3)])
  next
    case False
    with that(2) obtain l where "l \<in> set (cs ! i)" "l \<noteq> lit" "lit_satisfied l a"
      by (auto simp: clause_satisfied_iff)
    moreover have "l \<noteq> - lit" using ci(1) i(3) \<open>l \<in> set (cs ! i)\<close> by (auto simp: nontaut_def)
    ultimately show ?thesis using i(4) by (auto simp: clause_satisfied_iff neg [OF that(3)])
  qed
  have mem: "c \<in> set ?ds \<Longrightarrow> c = ?new \<or> c \<in> set cs" for c
    using set_update_subset_insert [of cs j ?new] by auto
  have mem': "c \<in> set cs \<Longrightarrow> c = cs ! j \<or> c \<in> set ?ds" for c
    by (metis in_set_conv_nth length_list_update nth_list_update_neq)
  have new_in: "?new \<in> set ?ds" using j by (rule set_update_memI)
  have "holds cs a = holds ?ds a" if fit: "vars_fit n" for a
  proof
    assume "holds cs a"
    then show "holds ?ds a" using mem fwd fit i(1) j unfolding holds_def by (metis nth_mem)
  next
    assume "holds ?ds a"
    then show "holds cs a" using mem' bwd new_in unfolding holds_def by metis
  qed
  then show "vars_fit n \<Longrightarrow> same_models n cs ?ds" by (simp add: same_models_def)
  have "clause_ok n ?new \<and> sorted ?new \<and> nontaut ?new"
    using tidy nth_mem [OF j] by (auto simp: tidy_def clause_ok_def nontaut_def sorted_wrt_filter)
  then show "tidy n True ?ds" using tidy mem unfolding tidy_def by blast
qed

lemma self_subsume_loop_spec:
  "\<lbrakk>tidy n True cs; vars_fit n \<longrightarrow> same_models n cs0 cs; \<not> changed \<longrightarrow> cs = cs0\<rbrakk> \<Longrightarrow>
     spec (self_subsume_loop k cs changed) (equiv_stage n True cs0) U"
proof (induction k arbitrary: cs changed)
  case 0
  then show ?case by (simp add: spec_ret equiv_stage_def)
next
  case (Suc k)
  show ?case
    unfolding self_subsume_loop.simps
  proof (rule spec_bnd [OF strengthen_scan_spec])
    fix r :: "(unit, nat \<times> int) loop"
    assume r: "case r of Go _ \<Rightarrow> True | Stop jl \<Rightarrow> strengthens cs jl"
    show "spec (case r of Go _ \<Rightarrow> ret (cs, changed)
        | Stop jl \<Rightarrow> bnd (strengthen cs jl) (\<lambda>cs'. self_subsume_loop k cs' True)) (equiv_stage n True cs0) U"
    proof (cases r)
      case (Go u)
      then show ?thesis using Suc.prems by (simp add: spec_ret equiv_stage_def)
    next
      case (Stop jl)
      obtain j lit where jl: "jl = (j, lit)" by (cases jl)
      note sm = strengthen_models [OF r [unfolded Stop jl loop.case] Suc.prems(1)]
      let ?ds = "cs[j := filter (\<lambda>l. l \<noteq> neg_lit lit) (cs ! j)]"
      have "spec (strengthen cs jl) (\<lambda>cs'. cs' = ?ds) U"
        unfolding strengthen_def jl prod.case Let_def by (intro spec_rules) simp
      moreover have "vars_fit n \<longrightarrow> same_models n cs0 ?ds" using same_models_trans [OF _ sm(1)] Suc.prems(2) by blast
      then have "spec (self_subsume_loop k ?ds True) (equiv_stage n True cs0) U" using Suc.IH [OF sm(2)] by simp
      ultimately show ?thesis unfolding Stop loop.case by (auto intro: spec_bnd)
    qed
  qed
qed

lemma self_subsume_spec:
  assumes "tidy n True cs"
  shows "spec (self_subsume_clauses cs) (equiv_stage n True cs) U"
  unfolding self_subsume_clauses_def
  by (rule spec_own_work, rule self_subsume_loop_spec) (use assms in simp_all)

end
