(* ===== verification/SatResolution.thy ===== *)
theory SatResolution imports SatSubsume begin

text \<open>
  Correctness of the two stages of a preprocessing round that only keep satisfiability,
  bounded variable elimination and blocked clause elimination: the models of the old
  clauses are models of the new ones, and the reconstruction step turns a model of the new
  clauses into one of the old.
\<close>

text \<open>The contract of such a stage.\<close>

definition undo_stage :: "nat \<Rightarrow> clause list \<Rightarrow> bool option list \<Rightarrow> clause list \<Rightarrow> recon_step \<Rightarrow> bool" where
  "undo_stage n cs A cs' step \<longleftrightarrow>
     (\<forall>a. models n cs A a \<longrightarrow> models n cs' A a) \<and>
     (\<forall>a. models n cs' A a \<longrightarrow> models n cs A (undo_step step a))"

section \<open>Resolvents\<close>

lemma nontaut_push: "nontaut out \<Longrightarrow> - l \<notin> set out \<Longrightarrow> l \<noteq> 0 \<Longrightarrow> nontaut (out @ [l])"
  by (auto simp: nontaut_def minus_equation_iff [of l])

lemma resolve_side_spec:
  assumes l0: "\<forall>l \<in> set side. l \<noteq> 0 \<and> in_i32 l" and out: "nontaut out" "\<forall>l \<in> set out. in_i32 l"
  shows "spec (resolve_side skip side out) (\<lambda>r. case r of
      Go out' \<Rightarrow> set out' = set out \<union> (set side - {skip}) \<and> nontaut out'
    | Stop _ \<Rightarrow> \<exists>l. l \<in> set side - {skip} \<and> neg_lit l \<in> set out \<union> (set side - {skip})) U"
proof -
  let ?f = "\<lambda>lit out. bnd tick (\<lambda>_. if lit = skip then ret (Go out)
      else case push_resolvent_lit out lit of (out', ok) \<Rightarrow> if ok then ret (Go out') else ret (Stop ()))"
  let ?I = "\<lambda>pre out'. set pre \<subseteq> set side \<and> set out' = set out \<union> (set pre - {skip}) \<and> nontaut out'"
  let ?S = "\<lambda>_ :: unit. \<exists>l. l \<in> set side - {skip} \<and> neg_lit l \<in> set out \<union> (set side - {skip})"
  have "spec (for_until ?f side out) (\<lambda>r. case r of Go o' \<Rightarrow> ?I ([] @ side) o' | Stop u \<Rightarrow> ?S u) U"
  proof (rule spec_for_until)
    fix x pre out'
    assume x: "x \<in> set side" and inv: "?I pre out'"
    show "spec (?f x out') (\<lambda>r. case r of Go o' \<Rightarrow> ?I (pre @ [x]) o' | Stop u \<Rightarrow> ?S u) U"
    proof (rule spec_after_tick, cases "x = skip")
      case True
      then show "spec (if x = skip then ret (Go out')
          else case push_resolvent_lit out' x of (out', ok) \<Rightarrow> if ok then ret (Go out') else ret (Stop ()))
          (\<lambda>r. case r of Go o' \<Rightarrow> ?I (pre @ [x]) o' | Stop u \<Rightarrow> ?S u) U"
        using inv x by (auto intro!: spec_ret)
    next
      case False
      show "spec (if x = skip then ret (Go out')
          else case push_resolvent_lit out' x of (out', ok) \<Rightarrow> if ok then ret (Go out') else ret (Stop ()))
          (\<lambda>r. case r of Go o' \<Rightarrow> ?I (pre @ [x]) o' | Stop u \<Rightarrow> ?S u) U"
      proof (cases "neg_lit x \<in> set out'")
        case True
        then have "?S ()" using False x inv by blast
        then show ?thesis using True False by (simp add: push_resolvent_lit_def spec_ret)
      next
        case no: False
        have "x \<noteq> 0" "in_i32 x" "\<forall>l \<in> set out'. in_i32 l" using x l0 inv out(2) by blast+
        moreover from neg_lit_mem [OF this(2) _ this(3)] have "- x \<notin> set out'" if "x \<notin> set out'" using no that by blast
        ultimately show ?thesis
          using no False inv x nontaut_push [of out' x]
          by (auto simp: push_resolvent_lit_def intro!: spec_ret)
      qed
    qed
  qed (simp add: out)
  then show ?thesis
    unfolding resolve_side_def by (rule spec_mono) (auto split: loop.splits)
qed

text \<open>The literals of a resolvent.\<close>

definition resolvent :: "clause \<Rightarrow> int \<Rightarrow> clause \<Rightarrow> int set" where
  "resolvent p v q = (set p - {v}) \<union> (set q - {- v})"

definition taut_set :: "int set \<Rightarrow> bool" where
  "taut_set R \<longleftrightarrow> (\<exists>l \<in> R. neg_lit l \<in> R)"

definition resolves_to :: "clause \<Rightarrow> int \<Rightarrow> clause \<Rightarrow> clause \<Rightarrow> bool" where
  "resolves_to p v q r \<longleftrightarrow> set r = resolvent p v q \<and> sorted r \<and> nontaut r"

lemma resolve_on_var_spec:
  assumes l0: "\<forall>l \<in> set p \<union> set q. l \<noteq> 0 \<and> in_i32 l" and v: "neg_lit v = - v"
  shows "spec (resolve_on_var p v q) (\<lambda>r. case r of
      None \<Rightarrow> taut_set (resolvent p v q) | Some r \<Rightarrow> resolves_to p v q r) U"
  unfolding resolve_on_var_def v
proof (rule spec_bnd [OF resolve_side_spec])
  show "\<forall>l \<in> set p. l \<noteq> 0 \<and> in_i32 l" using l0 by blast
  show "nontaut []" "\<forall>l \<in> set []. in_i32 l" by (simp_all add: nontaut_def)
  fix r :: "(clause, unit) loop"
  assume r: "case r of Go out' \<Rightarrow> set out' = set [] \<union> (set p - {v}) \<and> nontaut out'
      | Stop _ \<Rightarrow> \<exists>l. l \<in> set p - {v} \<and> neg_lit l \<in> set [] \<union> (set p - {v})"
  let ?Q = "\<lambda>r. case r of None \<Rightarrow> taut_set (resolvent p v q) | Some r \<Rightarrow> resolves_to p v q r"
  show "spec (case r of Stop _ \<Rightarrow> ret None | Go out \<Rightarrow> bnd (resolve_side (- v) q out) (\<lambda>r. case r of
      Stop _ \<Rightarrow> ret None | Go out' \<Rightarrow> ret (Some (sort out')))) ?Q U"
  proof (cases r)
    case (Stop u)
    then have "taut_set (resolvent p v q)" using r by (auto simp: taut_set_def resolvent_def)
    then show ?thesis using Stop by (simp add: spec_ret)
  next
    case (Go out)
    then have out: "set out = set p - {v}" "nontaut out" using r by simp_all
    have "spec (bnd (resolve_side (- v) q out) (\<lambda>r. case r of
        Stop _ \<Rightarrow> ret None | Go out' \<Rightarrow> ret (Some (sort out')))) ?Q U"
    proof (rule spec_bnd [OF resolve_side_spec [OF _ out(2)]])
      show "\<forall>l \<in> set q. l \<noteq> 0 \<and> in_i32 l" "\<forall>l \<in> set out. in_i32 l" using l0 out(1) by blast+
      fix r :: "(clause, unit) loop"
      assume r: "case r of Go out' \<Rightarrow> set out' = set out \<union> (set q - {- v}) \<and> nontaut out'
          | Stop _ \<Rightarrow> \<exists>l. l \<in> set q - {- v} \<and> neg_lit l \<in> set out \<union> (set q - {- v})"
      show "spec (case r of Stop _ \<Rightarrow> ret None | Go out' \<Rightarrow> ret (Some (sort out'))) ?Q U"
      proof (cases r)
        case (Stop u)
        then have "taut_set (resolvent p v q)" using r out by (auto simp: taut_set_def resolvent_def)
        then show ?thesis using Stop by (simp add: spec_ret)
      next
        case (Go out')
        then have "nontaut out'" "set out' = set out \<union> (set q - {- v})" using r by simp_all
        then have "resolves_to p v q (sort out')"
          by (simp add: resolves_to_def resolvent_def nontaut_def [of "sort out'"] out(1))
            (simp add: nontaut_def out(1))
        then show ?thesis using Go by (simp add: spec_ret)
      qed
    qed
    then show ?thesis using Go by simp
  qed
qed

section \<open>All resolvents of a variable\<close>

lemma filter_enumerate_snoc:
  "filter P (xs @ [x]) = (if P x then filter P xs @ [x] else filter P xs)"
  by simp

lemma occurrences_spec:
  assumes srt: "\<forall>c \<in> set cs. sorted c" and v: "neg_lit v = - v"
  shows "spec (occurrences v cs) (\<lambda>r. r =
     (map fst (filter (\<lambda>(i, c). v \<in> set c) (enumerate 0 cs)),
      map fst (filter (\<lambda>(i, c). - v \<in> set c) (enumerate 0 cs)))) U"
proof -
  let ?I = "\<lambda>pre r. r = (map fst (filter (\<lambda>(i :: nat, c). v \<in> set c) pre), map fst (filter (\<lambda>(i, c). - v \<in> set c) pre))"
  let ?f = "\<lambda>(i, c) (pos, neg). bnd tick (\<lambda>_. ret
      (if contains_lit c v then pos @ [i] else pos, if contains_lit c (neg_lit v) then neg @ [i] else neg))"
  have "spec (for_each ?f (enumerate 0 cs) ([], [])) (?I ([] @ enumerate 0 cs)) U"
  proof (rule spec_for_each)
    fix x pre s
    assume x: "x \<in> set (enumerate 0 cs)" and inv: "?I pre s"
    obtain i c where xi: "x = (i, c)" by (cases x)
    then have "c \<in> set cs" using x by (metis in_set_zip enumerate_eq_zip snd_conv nth_mem)
    then have "contains_lit c l \<longleftrightarrow> l \<in> set c" for l using srt contains_lit_iff by blast
    then show "spec (?f x s) (?I (pre @ [x])) U" using inv by (simp add: xi v spec_after_tick spec_ret)
  qed simp
  then show ?thesis by (simp add: occurrences_def)
qed

lemma set_index_filter:
  "set (map fst (filter (\<lambda>(i, c). P c) (enumerate 0 cs))) = {i. i < length cs \<and> P (cs ! i)}"
  by (force simp: in_set_enumerate_eq)

text \<open>The resolvents found so far: each is one, and every pair visited is covered.\<close>

definition covered :: "clause list \<Rightarrow> int \<Rightarrow> clause list \<Rightarrow> nat \<Rightarrow> nat \<Rightarrow> bool" where
  "covered cs v rs p q \<longleftrightarrow>
     taut_set (resolvent (cs ! p) v (cs ! q)) \<or> (\<exists>r \<in> set rs. set r = resolvent (cs ! p) v (cs ! q))"

definition sound_resolvents :: "clause list \<Rightarrow> int \<Rightarrow> nat list \<Rightarrow> nat list \<Rightarrow> clause list \<Rightarrow> bool" where
  "sound_resolvents cs v pos neg rs \<longleftrightarrow>
     (\<forall>r \<in> set rs. \<exists>p \<in> set pos. \<exists>q \<in> set neg. resolves_to (cs ! p) v (cs ! q) r)"

lemma covered_mono: "covered cs v rs p q \<Longrightarrow> set rs \<subseteq> set rs' \<Longrightarrow> covered cs v rs' p q"
  by (auto simp: covered_def)

lemma resolve_pair_spec:
  assumes pq: "p \<in> set pos" "q \<in> set neg" "\<forall>l \<in> set (cs ! p) \<union> set (cs ! q). l \<noteq> 0 \<and> in_i32 l" "neg_lit v = - v"
    and rs: "sound_resolvents cs v pos neg rs" "length rs \<le> old"
    and U: "resolvent (cs ! p) v (cs ! q) = {} \<Longrightarrow> U"
  shows "spec (resolve_pair cs v old p q rs) (\<lambda>r. case r of
      Go rs' \<Rightarrow> sound_resolvents cs v pos neg rs' \<and> set rs \<subseteq> set rs' \<and> length rs' \<le> old \<and> covered cs v rs' p q
    | Stop rs' \<Rightarrow> length rs' > old) U"
  unfolding resolve_pair_def
proof (rule spec_after_tick, rule spec_bnd [OF resolve_on_var_spec [OF pq(3,4)]])
  fix r assume r: "case r of None \<Rightarrow> taut_set (resolvent (cs ! p) v (cs ! q)) | Some r \<Rightarrow> resolves_to (cs ! p) v (cs ! q) r"
  let ?Q = "\<lambda>r. case r of
      Go rs' \<Rightarrow> sound_resolvents cs v pos neg rs' \<and> set rs \<subseteq> set rs' \<and> length rs' \<le> old \<and> covered cs v rs' p q
    | Stop rs' \<Rightarrow> length rs' > old"
  show "spec (case r of None \<Rightarrow> ret (Go rs)
      | Some rv \<Rightarrow>
          if rv = [] then bnd (log_add []) (\<lambda>_. leave Unsat)
          else if rv \<notin> set rs then
            (if length (rs @ [rv]) > old then ret (Stop (rs @ [rv])) else ret (Go (rs @ [rv])))
          else ret (Go rs)) ?Q U"
  proof (cases r)
    case None
    then show ?thesis using r rs by (simp add: spec_ret covered_def)
  next
    case (Some c)
    then have c: "resolves_to (cs ! p) v (cs ! q) c" using r by simp
    then have sc: "set c = resolvent (cs ! p) v (cs ! q)" by (simp add: resolves_to_def)
    show ?thesis
    proof (cases "c = []")
      case True
      then have U using U sc by simp
      with True Some show ?thesis by (simp add: spec_log_add spec_leave_unsat)
    next
      case False
      have "sound_resolvents cs v pos neg (rs @ [c])"
        using rs(1) c pq(1,2) by (auto simp: sound_resolvents_def)
      with False Some rs sc show ?thesis
        by (auto simp: covered_def intro!: spec_ret)
    qed
  qed
qed

lemma resolve_all_spec:
  assumes l0: "\<forall>p \<in> set pos \<union> set neg. \<forall>l \<in> set (cs ! p). l \<noteq> 0 \<and> in_i32 l" and v: "neg_lit v = - v"
    and U: "\<And>p q. \<lbrakk>p \<in> set pos; q \<in> set neg; resolvent (cs ! p) v (cs ! q) = {}\<rbrakk> \<Longrightarrow> U"
  shows "spec (resolve_all cs v old pos neg) (\<lambda>rs. length rs \<le> old \<longrightarrow>
      sound_resolvents cs v pos neg rs \<and> (\<forall>p \<in> set pos. \<forall>q \<in> set neg. covered cs v rs p q)) U"
proof -
  let ?base = "\<lambda>rs. sound_resolvents cs v pos neg rs \<and> length rs \<le> old"
  let ?J = "\<lambda>ps rs. ?base rs \<and> (\<forall>p \<in> set ps. \<forall>q \<in> set neg. covered cs v rs p q)"
  let ?S = "\<lambda>rs. length rs > old"
  have inner: "spec (for_until (resolve_pair cs v old p) neg rs)
      (\<lambda>r. case r of Go rs' \<Rightarrow> ?J (ps @ [p]) rs' | Stop rs' \<Rightarrow> ?S rs') U"
    if p: "p \<in> set pos" and J: "?J ps rs" for p ps rs
  proof -
    let ?I = "\<lambda>qs rs'. ?J ps rs' \<and> (\<forall>q \<in> set qs. covered cs v rs' p q)"
    have "spec (for_until (resolve_pair cs v old p) neg rs)
        (\<lambda>r. case r of Go rs' \<Rightarrow> ?I ([] @ neg) rs' | Stop rs' \<Rightarrow> ?S rs') U"
    proof (rule spec_for_until)
      fix q qs rs1 assume q: "q \<in> set neg" and inv: "?I qs rs1"
      have "spec (resolve_pair cs v old p q rs1) (\<lambda>r. case r of
          Go rs' \<Rightarrow> sound_resolvents cs v pos neg rs' \<and> set rs1 \<subseteq> set rs' \<and> length rs' \<le> old \<and> covered cs v rs' p q
        | Stop rs' \<Rightarrow> length rs' > old) U"
        using p q l0 v inv U by (intro resolve_pair_spec) auto
      then show "spec (resolve_pair cs v old p q rs1)
          (\<lambda>r. case r of Go rs' \<Rightarrow> ?I (qs @ [q]) rs' | Stop rs' \<Rightarrow> ?S rs') U"
        by (rule spec_mono) (use inv in \<open>auto split: loop.splits intro: covered_mono\<close>)
    qed (use J in auto)
    then show ?thesis by (rule spec_mono) (auto split: loop.splits)
  qed
  have "spec (for_until (\<lambda>p. for_until (resolve_pair cs v old p) neg) pos [])
      (\<lambda>r. case r of Go rs' \<Rightarrow> ?J ([] @ pos) rs' | Stop rs' \<Rightarrow> ?S rs') U"
    by (rule spec_for_until) (use inner in \<open>auto simp: sound_resolvents_def\<close>)
  then show ?thesis
    unfolding resolve_all_def
    by (rule spec_bnd) (auto intro!: spec_ret split: loop.splits)
qed

section \<open>Eliminating a variable\<close>

lemma resolvent_sat:
  assumes "clause_satisfied p a" "clause_satisfied q a" "v \<noteq> 0"
  shows "\<exists>l \<in> resolvent p v q. lit_satisfied l a"
proof (cases "lit_satisfied v a")
  case True
  then have "\<not> lit_satisfied (- v) a" by (simp add: lit_satisfied_uminus assms(3))
  then show ?thesis using assms(2) by (auto simp: clause_satisfied_iff resolvent_def)
next
  case False
  then show ?thesis using assms(1) by (auto simp: clause_satisfied_iff resolvent_def)
qed

text \<open>
  The clauses over a variable split into those with the positive literal, those with the
  negative one, and the rest.
\<close>

lemma eliminate_backward:
  assumes fit: "vars_fit n" and v: "v > 0" "nat v \<le> n" and a: "length a = n"
    and pos: "\<forall>c \<in> set P. v \<in> set c \<and> nontaut c \<and> clause_ok n c"
    and neg: "\<forall>c \<in> set N. - v \<in> set c \<and> nontaut c \<and> clause_ok n c"
    and res: "\<forall>p \<in> set P. \<forall>q \<in> set N. taut_set (resolvent p v q) \<or> (\<exists>l \<in> resolvent p v q. lit_satisfied l a)"
  shows "(\<forall>c \<in> set P \<union> set N. clause_satisfied c (undo_step (EliminatedVariable v P N) a)) \<and>
    (\<exists>b. undo_step (EliminatedVariable v P N) a = a[nat v - 1 := b] \<or> undo_step (EliminatedVariable v P N) a = a)"
proof -
  let ?w = "\<lambda>c. clause_satisfied_without_var c v a"
  have v32: "in_i32 v" using fit v by (simp add: vars_fit_def in_i32_def i32_min_def)
  have w: "?w c \<longleftrightarrow> (\<exists>l \<in> set c. \<bar>l\<bar> \<noteq> v \<and> lit_satisfied l a)" if "clause_ok n c" for c
    by (rule without_var_iff [OF that v(1) v32])
  have upd: "lit_satisfied l (a[nat v - 1 := b]) =
      (if l = v then b else if l = - v then \<not> b else lit_satisfied l a)" if "l \<noteq> 0" for l b
    using lit_satisfied_update [OF that, of v a b] v a by (auto simp: lit_var_def)
  have keep: "clause_satisfied c (a[nat v - 1 := b])" if "?w c" "clause_ok n c" for c b
  proof -
    obtain l where l: "l \<in> set c" "\<bar>l\<bar> \<noteq> v" "lit_satisfied l a" using \<open>?w c\<close> w [OF \<open>clause_ok n c\<close>] by auto
    then have "l \<noteq> 0" using that(2) by (auto simp: clause_ok_def lit_ok_def)
    moreover have "l \<noteq> v" "l \<noteq> - v" using l(2) v(1) by auto
    ultimately have "lit_satisfied l (a[nat v - 1 := b])" using l(3) upd [of l b] by simp
    then show ?thesis using l(1) by (auto simp: clause_satisfied_iff)
  qed
  have whole: "clause_satisfied c a" if "?w c" "clause_ok n c" for c
    using that(1) w [OF that(2)] by (auto simp: clause_satisfied_iff)
  have setP: "clause_satisfied c (a[nat v - 1 := True])" if "c \<in> set P" for c
    using that pos upd [of v True] v(1) by (auto simp: clause_satisfied_iff intro!: bexI [of _ v])
  have setN: "clause_satisfied c (a[nat v - 1 := False])" if "c \<in> set N" for c
    using that neg upd [of "- v" False] v(1) by (auto simp: clause_satisfied_iff intro!: bexI [of _ "- v"])
  have cross: "?w q" if p: "p \<in> set P" "\<not> ?w p" and q: "q \<in> set N" for p q
  proof -
    have vp: "v \<in> set p" "nontaut p" and vq: "- v \<in> set q" "nontaut q" using p q pos neg by auto
    have ok: "clause_ok n p" "clause_ok n q" using p q pos neg by auto
    have l_sat: "\<exists>l \<in> resolvent p v q. lit_satisfied l a"
    proof (cases "taut_set (resolvent p v q)")
      case True
      then obtain l where l: "l \<in> resolvent p v q" "neg_lit l \<in> resolvent p v q" by (auto simp: taut_set_def)
      then have "lit_ok n l" using ok by (auto simp: resolvent_def clause_ok_def)
      then have "l \<noteq> 0" "neg_lit l = - l" using neg_lit_ok [OF fit] by (simp_all add: lit_ok_def)
      then show ?thesis using l lit_satisfied_uminus [of l a] by (metis (no_types))
    qed (use res p q in blast)
    then obtain l where l: "l \<in> resolvent p v q" "lit_satisfied l a" by blast
    have "v \<notin> set q" "- v \<notin> set p" using vp vq by (auto simp: nontaut_def)
    then have "\<bar>l\<bar> \<noteq> v" using l(1) v(1) by (auto simp: resolvent_def abs_if split: if_splits)
    moreover have "l \<notin> set p" using p(2) l(2) \<open>\<bar>l\<bar> \<noteq> v\<close> w [OF ok(1)] by auto
    ultimately show ?thesis using l w [OF ok(2)] by (auto simp: resolvent_def)
  qed
  show ?thesis
  proof (cases "\<exists>p \<in> set P. \<not> ?w p")
    case True
    then have "undo_step (EliminatedVariable v P N) a = a[nat v - 1 := True]"
      by (simp add: list_ex_iff)
    moreover have "clause_satisfied c (a[nat v - 1 := True])" if "c \<in> set N" for c
      using True cross that keep neg by blast
    ultimately show ?thesis using setP by auto
  next
    case noP: False
    show ?thesis
    proof (cases "\<exists>q \<in> set N. \<not> ?w q")
      case True
      then have "undo_step (EliminatedVariable v P N) a = a[nat v - 1 := False]"
        using noP by (simp add: list_ex_iff)
      moreover have "clause_satisfied c (a[nat v - 1 := False])" if "c \<in> set P" for c
        using noP that keep pos by blast
      ultimately show ?thesis using setN by auto
    next
      case False
      then have "undo_step (EliminatedVariable v P N) a = a" using noP by (simp add: list_ex_iff)
      then show ?thesis using noP False whole pos neg by auto
    qed
  qed
qed

lemma satisfied_elsewhere:
  assumes "clause_satisfied c a" "clause_ok n c" "v > 0" "nat v \<le> n" "length a = n" "v \<notin> set c" "- v \<notin> set c"
  shows "clause_satisfied c (a[nat v - 1 := b])"
proof -
  obtain l where l: "l \<in> set c" "lit_satisfied l a" using assms(1) by (auto simp: clause_satisfied_iff)
  have "l \<noteq> 0" "l \<noteq> v" "l \<noteq> - v" using l assms by (auto simp: clause_ok_def lit_ok_def)
  then have "lit_satisfied l (a[nat v - 1 := b])"
    using lit_satisfied_update [of l v a b] assms l by (auto simp: lit_var_def)
  with l(1) show ?thesis by (auto simp: clause_satisfied_iff)
qed

lemma agrees_free_update: "agrees A a \<Longrightarrow> A ! i = None \<Longrightarrow> agrees A (a[i := b])"
  unfolding agrees_def by (metis nth_list_update_neq option.distinct(1))

text \<open>Some variable of the old clauses is gone, and no new one has come.\<close>

definition drops_var :: "clause list \<Rightarrow> clause list \<Rightarrow> bool" where
  "drops_var cs ds \<longleftrightarrow> (\<exists>v. (\<exists>c \<in> set cs. v \<in> set c) \<and>
     (\<forall>c \<in> set ds. \<forall>l \<in> set c. \<bar>l\<bar> \<noteq> \<bar>v\<bar> \<and> (\<exists>d \<in> set cs. l \<in> set d)))"

lemma eliminate_drops_var:
  assumes nt: "\<forall>c \<in> set cs. nontaut c" and v: "v > 0" and P: "set P = {c \<in> set cs. v \<in> set c}"
    and N: "set N = {c \<in> set cs. - v \<in> set c}" and X: "set xs = {c \<in> set cs. v \<notin> set c \<and> - v \<notin> set c}"
    and sound: "\<forall>r \<in> set rs. \<exists>p \<in> set P. \<exists>q \<in> set N. resolves_to p v q r" and ne: "P \<noteq> []"
  shows "drops_var cs (xs @ rs)"
proof -
  have new: "l \<noteq> v \<and> l \<noteq> - v \<and> (\<exists>d \<in> set cs. l \<in> set d)" if c: "c \<in> set rs" and l: "l \<in> set c" for c l
  proof -
    obtain p q where pq: "p \<in> set P" "q \<in> set N" "resolves_to p v q c" using sound c by blast
    have mem: "v \<in> set p" "- v \<in> set q" "p \<in> set cs" "q \<in> set cs"
      using pq(1,2) unfolding P N by blast+
    then have no: "- v \<notin> set p" "v \<notin> set q" using nt unfolding nontaut_def by fastforce+
    have "l \<in> resolvent p v q" using pq(3) l unfolding resolves_to_def by blast
    then consider "l \<in> set p" "l \<noteq> v" | "l \<in> set q" "l \<noteq> - v" unfolding resolvent_def by blast
    then show ?thesis
    proof cases
      case 1
      then show ?thesis using no(1) mem(3) by blast
    next
      case 2
      then show ?thesis using no(2) mem(4) by blast
    qed
  qed
  have old: "l \<noteq> v \<and> l \<noteq> - v \<and> (\<exists>d \<in> set cs. l \<in> set d)" if "c \<in> set xs" "l \<in> set c" for c l
    using that unfolding X by blast
  have all: "\<bar>l\<bar> \<noteq> \<bar>v\<bar> \<and> (\<exists>d \<in> set cs. l \<in> set d)" if "c \<in> set (xs @ rs)" "l \<in> set c" for c l
  proof -
    have "c \<in> set xs \<or> c \<in> set rs" using that(1) by simp
    then show ?thesis using new old that(2) unfolding abs_eq_iff by blast
  qed
  have "hd P \<in> set P" using ne by simp
  then have "hd P \<in> set cs" "v \<in> set (hd P)" unfolding P by blast+
  then show ?thesis using all unfolding drops_var_def by blast
qed

text \<open>The stage, from what the programs compute.\<close>

lemma eliminate_stage:
  assumes tidy: "tidy n True cs" and v: "v > 0" "nat v \<le> n" and A: "A ! (nat v - 1) = None"
    and P: "set P = {c \<in> set cs. v \<in> set c}" and N: "set N = {c \<in> set cs. - v \<in> set c}"
    and X: "set next = {c \<in> set cs. v \<notin> set c \<and> - v \<notin> set c}"
    and sound: "\<forall>r \<in> set rs. \<exists>p \<in> set P. \<exists>q \<in> set N. resolves_to p v q r"
    and cov: "\<forall>p \<in> set P. \<forall>q \<in> set N. taut_set (resolvent p v q) \<or> (\<exists>r \<in> set rs. set r = resolvent p v q)"
  shows "vars_fit n \<Longrightarrow> undo_stage n cs A (next @ rs) (EliminatedVariable v P N)" and "tidy n True (next @ rs)"
proof -
  let ?s = "EliminatedVariable v P N"
  have "models n (next @ rs) A a" if m: "models n cs A a" for a
  proof -
    have "clause_satisfied r a" if r: "r \<in> set rs" for r
    proof -
      obtain p q where "p \<in> set P" "q \<in> set N" "set r = resolvent p v q"
        using sound r by (auto simp: resolves_to_def)
      then show ?thesis
        using m P N resolvent_sat [of p a q v] v(1) by (auto simp: models_def holds_def clause_satisfied_iff [of r])
    qed
    then show ?thesis using m X by (auto simp: models_def holds_def)
  qed
  moreover have "models n cs A (undo_step ?s a)" if m: "models n (next @ rs) A a" and fit: "vars_fit n" for a
  proof -
    have len: "length a = n" using m by (simp add: models_def)
    have clauses: "\<forall>c \<in> set cs. nontaut c \<and> clause_ok n c" using tidy by (simp add: tidy_def)
    have res: "\<forall>p \<in> set P. \<forall>q \<in> set N.
        taut_set (resolvent p v q) \<or> (\<exists>l \<in> resolvent p v q. lit_satisfied l a)"
    proof (intro ballI)
      fix p q assume pq: "p \<in> set P" "q \<in> set N"
      show "taut_set (resolvent p v q) \<or> (\<exists>l \<in> resolvent p v q. lit_satisfied l a)"
      proof (cases "taut_set (resolvent p v q)")
        case False
        then obtain r where r: "r \<in> set rs" "set r = resolvent p v q" using cov pq by blast
        then have "clause_satisfied r a" using m by (simp add: models_def holds_def)
        then show ?thesis using r(2) by (auto simp: clause_satisfied_iff)
      qed simp
    qed
    have PN: "\<forall>c \<in> set P. v \<in> set c \<and> nontaut c \<and> clause_ok n c" "\<forall>c \<in> set N. - v \<in> set c \<and> nontaut c \<and> clause_ok n c"
      using P N clauses by auto
    note b = eliminate_backward [OF fit v len PN res]
    then obtain b where b': "undo_step ?s a = a[nat v - 1 := b] \<or> undo_step ?s a = a" by blast
    have "clause_satisfied c (undo_step ?s a)" if c: "c \<in> set cs" for c
    proof (cases "v \<in> set c \<or> - v \<in> set c")
      case True
      then show ?thesis using b c P N by blast
    next
      case False
      then have "clause_satisfied c a" using m c X by (auto simp: models_def holds_def)
      then show ?thesis using b' satisfied_elsewhere [OF _ _ v len, of c b] False clauses c by auto
    qed
    moreover have "agrees A (undo_step ?s a)"
      using b' m A agrees_free_update [of A a "nat v - 1" b] by (auto simp: models_def)
    ultimately show ?thesis using len by (simp add: models_def holds_def)
  qed
  ultimately show "vars_fit n \<Longrightarrow> undo_stage n cs A (next @ rs) ?s" by (simp add: undo_stage_def)
  have "clause_ok n r \<and> sorted r \<and> nontaut r" if "r \<in> set rs" for r
  proof -
    obtain p q where pq: "p \<in> set P" "q \<in> set N" "resolves_to p v q r" using sound \<open>r \<in> set rs\<close> by blast
    then have "clause_ok n p" "clause_ok n q" using P N tidy by (auto simp: tidy_def)
    then show ?thesis using pq(3) by (auto simp: resolves_to_def resolvent_def clause_ok_def)
  qed
  then show "tidy n True (next @ rs)" using tidy X by (auto simp: tidy_def)
qed

lemma drop_indices_spec:
  "spec (drop_indices idxs cs) (\<lambda>r. r = map snd (filter (\<lambda>(i, c). i \<notin> set idxs) (enumerate 0 cs))) U"
proof -
  let ?f = "\<lambda>(i, c) next. bnd tick (\<lambda>_. ret (if i \<in> set idxs then next else next @ [c]))"
  let ?I = "\<lambda>pre r. r = map snd (filter (\<lambda>(i :: nat, c). i \<notin> set idxs) pre)"
  have "spec (for_each ?f (enumerate 0 cs) []) (?I ([] @ enumerate 0 cs)) U"
    by (rule spec_for_each) (auto intro!: spec_rules)
  then show ?thesis by (simp add: drop_indices_def)
qed

lemma log_all_spec:
  assumes "\<And>c. spec (f c) (\<lambda>_. True) U"
  shows "spec (log_all f cs) (\<lambda>_. True) U"
  unfolding log_all_def
  using spec_for_each [of cs "\<lambda>_ _. True" "\<lambda>c _. bnd tick (\<lambda>_. f c)" U "[]" "()"]
  by (simp add: assms spec_after_tick)

lemma mem_enumerate: "(i, c) \<in> set (enumerate 0 cs) \<longleftrightarrow> i < length cs \<and> c = cs ! i"
  by (auto simp: in_set_enumerate_eq)

lemma indexed_clauses:
  "set (map (\<lambda>i. cs ! i) (map fst (filter (\<lambda>(i, c). P c) (enumerate 0 cs)))) = {c \<in> set cs. P c}"
  unfolding set_map [of "\<lambda>i. cs ! i"] set_index_filter by (auto simp: in_set_conv_nth)

lemma set_dropped:
  "set (map snd (filter (\<lambda>(i, c). i \<notin> S) (enumerate 0 cs))) = (\<lambda>i. cs ! i) ` {i. i < length cs \<and> i \<notin> S}"
  by (auto simp: mem_enumerate image_iff)

text \<open>No clause counts on both sides, so the capacity of the new vector does not wrap.\<close>

lemma occurrences_few:
  fixes cs :: "clause list"
  assumes "\<forall>c \<in> set cs. \<not> (v \<in> set c \<and> - v \<in> set c)"
  shows "length (map fst (filter (\<lambda>(i, c). v \<in> set c) (enumerate 0 cs))) +
    length (map fst (filter (\<lambda>(i, c). - v \<in> set c) (enumerate 0 cs))) \<le> length cs"
proof -
  have "length (filter P xs) + length (filter Q xs) \<le> length xs" if "\<forall>x \<in> set xs. \<not> (P x \<and> Q x)" for P Q and xs :: "(nat \<times> clause) list"
    using that by (induction xs) auto
  from this [of "enumerate 0 cs" "\<lambda>(i, c). v \<in> set c" "\<lambda>(i, c). - v \<in> set c"] assms show ?thesis
    by (fastforce simp: mem_enumerate)
qed

lemma as_i32_le: "as_i32 (int n) \<le> int n"
proof (cases "int n \<le> i32_max")
  case True
  then show ?thesis by (simp add: as_i32_id in_i32_def i32_min_def)
next
  case False
  then show ?thesis using in_i32_as_i32 [of "int n"] by (simp add: in_i32_def)
qed

lemma eliminate_var_spec:
  assumes tidy: "tidy n True cs" and v: "v > 0" "nat v \<le> n" "in_i32 v"
    and U: "\<not> U \<Longrightarrow> \<exists>a. models n cs A a"
  shows "spec (eliminate_var A cs v s) (\<lambda>r. case r of
      Go _ \<Rightarrow> True | Stop (cs', step) \<Rightarrow> (vars_fit n \<longrightarrow> undo_stage n cs A cs' step) \<and> tidy n True cs' \<and> drops_var cs cs') U"
proof -
  let ?Q = "\<lambda>r :: (unit, clause list \<times> recon_step) loop. case r of
      Go _ \<Rightarrow> True | Stop (cs', step) \<Rightarrow> (vars_fit n \<longrightarrow> undo_stage n cs A cs' step) \<and> tidy n True cs' \<and> drops_var cs cs'"
  have srt: "\<forall>c \<in> set cs. sorted c" and lits: "\<forall>c \<in> set cs. \<forall>l \<in> set c. l \<noteq> 0 \<and> in_i32 l"
    using tidy by (auto simp: tidy_def clause_ok_def lit_ok_def)
  let ?pos = "map fst (filter (\<lambda>(i, c). v \<in> set c) (enumerate 0 cs))"
  let ?neg = "map fst (filter (\<lambda>(i, c). - v \<in> set c) (enumerate 0 cs))"
  let ?P = "map (\<lambda>i. cs ! i) ?pos" and ?N = "map (\<lambda>i. cs ! i) ?neg"
  have P: "set ?P = {c \<in> set cs. v \<in> set c}" and N: "set ?N = {c \<in> set cs. - v \<in> set c}"
    by (rule indexed_clauses)+
  have l0: "\<forall>p \<in> set ?pos \<union> set ?neg. \<forall>l \<in> set (cs ! p). l \<noteq> 0 \<and> in_i32 l"
    using lits by (auto simp: mem_enumerate)
  have nv: "neg_lit v = - v" by (rule neg_lit_pos [OF v(1,3)])
  have few: "length ?pos + length ?neg \<le> length cs"
    using tidy by (intro occurrences_few) (auto simp: tidy_def nontaut_def)
  have UR: U if "p \<in> set ?pos" "q \<in> set ?neg" "resolvent (cs ! p) v (cs ! q) = {}" for p q
  proof (rule ccontr)
    assume "\<not> U"
    then obtain a where "models n cs A a" using U by blast
    then show False
      using that resolvent_sat [of "cs ! p" a "cs ! q" v] v(1)
      by (auto simp: mem_enumerate models_def holds_def)
  qed
  show ?thesis
  proof (cases "A ! (nat v - 1)")
    case (Some b)
    then show ?thesis by (simp add: eliminate_var_def spec_after_tick spec_ret)
  next
    case None
    have finish: "spec (bnd (log_all log_add rs) (\<lambda>_.
        bnd (log_all log_delete (?P @ ?N)) (\<lambda>_.
        if length cs + length rs < length ?pos + length ?neg then leave Panicked else
        bnd (drop_indices (?pos @ ?neg) cs) (\<lambda>next.
        bnd (count f) (\<lambda>_. ret (Stop (next @ rs, EliminatedVariable v ?P ?N))))))) ?Q U"
      if rs: "sound_resolvents cs v ?pos ?neg rs" "\<forall>p \<in> set ?pos. \<forall>q \<in> set ?neg. covered cs v rs p q" and ne: "?pos \<noteq> []" for rs f
    proof (rule spec_bnd [OF log_all_spec], simp add: spec_def log_add_def,
        rule spec_bnd [OF log_all_spec], rule spec_log_only, subst if_not_P, use few in simp, rule spec_bnd [OF drop_indices_spec])
      fix nxt
      assume nxt: "nxt = map snd (filter (\<lambda>(i, c). i \<notin> set (?pos @ ?neg)) (enumerate 0 cs))"
      have X: "set nxt = {c \<in> set cs. v \<notin> set c \<and> - v \<notin> set c}"
        unfolding nxt set_dropped set_append set_index_filter by (auto simp: in_set_conv_nth)
      have sound: "\<forall>r \<in> set rs. \<exists>p \<in> set ?P. \<exists>q \<in> set ?N. resolves_to p v q r"
        using rs(1) by (force simp: sound_resolvents_def)
      moreover have "\<forall>p \<in> set ?P. \<forall>q \<in> set ?N. taut_set (resolvent p v q) \<or> (\<exists>r \<in> set rs. set r = resolvent p v q)"
        using rs(2) by (force simp: covered_def)
      moreover have "drops_var cs (nxt @ rs)"
        using tidy ne by (intro eliminate_drops_var [OF _ v(1) P N X sound]) (auto simp: tidy_def)
      moreover note sound
      ultimately show "spec (bnd (count f) (\<lambda>_. ret (Stop (nxt @ rs, EliminatedVariable v ?P ?N)))) ?Q U"
        using eliminate_stage [OF tidy v(1,2) None P N X] by (simp add: spec_after_count spec_ret)
    qed
    show ?thesis
      unfolding eliminate_var_def None
    proof (simp only: not_True_eq_False simp_thms if_False, rule spec_after_tick, rule spec_bnd [OF occurrences_spec [OF srt nv]])
      fix r assume r: "r = (?pos, ?neg)"
      let ?old = "length ?pos + length ?neg"
      have "spec (bnd (resolve_all cs v ?old ?pos ?neg) (\<lambda>rs.
           if length rs > ?old then ret (Go s)
           else bnd (log_all log_add rs) (\<lambda>_.
             bnd (log_all log_delete (?P @ ?N)) (\<lambda>_.
             if length cs + length rs < ?old then leave Panicked else
             bnd (drop_indices (?pos @ ?neg) cs) (\<lambda>next.
             bnd (count (\<lambda>st. st\<lparr>ps_bve_variables := ps_bve_variables st + 1,
                               ps_bve_resolvents := ps_bve_resolvents st + length rs\<rparr>)) (\<lambda>_.
             ret (Stop (next @ rs, EliminatedVariable v ?P ?N)))))))) ?Q U" if "?pos \<noteq> []"
        by (rule spec_bnd [OF resolve_all_spec [OF l0 nv UR]]) (use finish that in \<open>auto simp: spec_ret\<close>)
      then show "spec (case r of (pos, neg) \<Rightarrow>
         if pos = [] \<or> neg = [] then ret (Go s)
         else if length pos * length neg > bve_pair_limit then ret (Go s)
         else let old_count = length pos + length neg in
           bnd (resolve_all cs v old_count pos neg) (\<lambda>rs.
             if length rs > old_count then ret (Go s)
             else let positive = map (\<lambda>i. cs ! i) pos; negative = map (\<lambda>i. cs ! i) neg in
               bnd (log_all log_add rs) (\<lambda>_.
               bnd (log_all log_delete (positive @ negative)) (\<lambda>_.
               if length cs + length rs < old_count then leave Panicked else
               bnd (drop_indices (pos @ neg) cs) (\<lambda>next.
               bnd (count (\<lambda>st. st\<lparr>ps_bve_variables := ps_bve_variables st + 1,
                                 ps_bve_resolvents := ps_bve_resolvents st + length rs\<rparr>)) (\<lambda>_.
               ret (Stop (next @ rs, EliminatedVariable v positive negative)))))))) ?Q U"
        unfolding r prod.case Let_def by (simp add: spec_ret)
    qed
  qed
qed

lemma eliminate_bounded_spec:
  assumes tidy: "tidy n True cs" and U: "\<not> U \<Longrightarrow> \<exists>a. models n cs A a"
  shows "spec (eliminate_bounded_variable cs n A) (\<lambda>r. case r of
      Go _ \<Rightarrow> True | Stop (cs', step) \<Rightarrow> (vars_fit n \<longrightarrow> undo_stage n cs A cs' step) \<and> tidy n True cs' \<and> drops_var cs cs') U"
proof -
  let ?Q = "\<lambda>(cs', step). (vars_fit n \<longrightarrow> undo_stage n cs A cs' step) \<and> tidy n True cs' \<and> drops_var cs cs'"
  let ?vs = "map int [1..<Suc (nat (as_i32 (int n)))]"
  have "spec (for_until (eliminate_var A cs) ?vs ())
      (\<lambda>r. case r of Go s \<Rightarrow> (\<lambda>_ _. True) ([] @ ?vs) s | Stop y \<Rightarrow> ?Q y) U"
  proof (rule spec_for_until)
    fix v pre and s :: unit assume "v \<in> set ?vs"
    then have v: "v > 0" "v \<le> as_i32 (int n)" by auto
    then have "nat v \<le> n" "in_i32 v" using as_i32_le [of n] in_i32_as_i32 [of "int n"] by (auto simp: in_i32_def i32_min_def)
    with v(1) show "spec (eliminate_var A cs v s) (\<lambda>r. case r of Go s' \<Rightarrow> True | Stop y \<Rightarrow> ?Q y) U"
      by (rule eliminate_var_spec [OF tidy _ _ _ U])
  qed simp
  then show ?thesis unfolding eliminate_bounded_variable_def by (intro spec_own_work)
qed

section \<open>Blocked clauses\<close>

definition taut_on :: "clause \<Rightarrow> int \<Rightarrow> clause \<Rightarrow> bool" where
  "taut_on c b d \<longleftrightarrow> (\<exists>l \<in> set c. l \<noteq> b \<and> neg_lit l \<in> set d)"

lemma resolvent_is_tautological_spec:
  "spec (resolvent_is_tautological c b d) (\<lambda>r. r \<longrightarrow> taut_on c b d) U"
proof -
  let ?f = "\<lambda>lit s. bnd tick (\<lambda>_. if lit \<noteq> b \<and> contains_lit d (neg_lit lit) then ret (Stop ()) else ret (Go s))"
  have "spec (for_until ?f c ()) (\<lambda>r. case r of Go s \<Rightarrow> (\<lambda>_ _. True) ([] @ c) s | Stop _ \<Rightarrow> taut_on c b d) U"
  proof (rule spec_for_until)
    fix x pre and s :: unit assume x: "x \<in> set c"
    show "spec (?f x s) (\<lambda>r. case r of Go _ \<Rightarrow> True | Stop _ \<Rightarrow> taut_on c b d) U"
    proof (rule spec_after_tick, cases "x \<noteq> b \<and> contains_lit d (neg_lit x)")
      case True
      then have "taut_on c b d" using x by (auto simp: taut_on_def dest: contains_lit_sound)
      then show "spec (if x \<noteq> b \<and> contains_lit d (neg_lit x) then ret (Stop ()) else ret (Go s))
          (\<lambda>r. case r of Go _ \<Rightarrow> True | Stop _ \<Rightarrow> taut_on c b d) U"
        unfolding if_P [OF True] by (simp add: spec_ret)
    next
      case False
      show "spec (if x \<noteq> b \<and> contains_lit d (neg_lit x) then ret (Stop ()) else ret (Go s))
          (\<lambda>r. case r of Go _ \<Rightarrow> True | Stop _ \<Rightarrow> taut_on c b d) U"
        unfolding if_not_P [OF False] by (simp add: spec_ret)
    qed
  qed simp
  then show ?thesis
    unfolding resolvent_is_tautological_def
  proof (rule spec_bnd)
    fix r :: "(unit, unit) loop"
    assume "case r of Go s \<Rightarrow> True | Stop _ \<Rightarrow> taut_on c b d"
    then show "spec (ret (case r of Go _ \<Rightarrow> False | Stop _ \<Rightarrow> True)) (\<lambda>r. r \<longrightarrow> taut_on c b d) U"
      by (cases r) (simp_all add: spec_ret)
  qed
qed

definition blocked_in :: "clause list \<Rightarrow> nat \<Rightarrow> int \<Rightarrow> bool" where
  "blocked_in cs k b \<longleftrightarrow> (\<forall>i < length cs. i \<noteq> k \<and> neg_lit b \<in> set (cs ! i) \<longrightarrow> taut_on (cs ! k) b (cs ! i))"

lemma clause_is_blocked_spec:
  assumes srt: "\<forall>c \<in> set cs. sorted c"
  shows "spec (clause_is_blocked cs k b) (\<lambda>r. r \<longrightarrow> blocked_in cs k b) U"
proof -
  let ?f = "\<lambda>(i, other) s. bnd tick (\<lambda>_. if i \<noteq> k \<and> contains_lit other (neg_lit b)
      then bnd (resolvent_is_tautological (cs ! k) b other) (\<lambda>taut. if \<not> taut then ret (Stop ()) else ret (Go s))
      else ret (Go s))"
  let ?I = "\<lambda>pre (_ :: unit). \<forall>(i, c) \<in> set pre. i \<noteq> k \<and> neg_lit b \<in> set c \<longrightarrow> taut_on (cs ! k) b c"
  have "spec (for_until ?f (enumerate 0 cs) ())
      (\<lambda>r. case r of Go s \<Rightarrow> ?I ([] @ enumerate 0 cs) s | Stop _ \<Rightarrow> True) U"
  proof (rule spec_for_until)
    fix x pre and s :: unit assume x: "x \<in> set (enumerate 0 cs)" and inv: "?I pre s"
    obtain i c where xi: "x = (i, c)" by (cases x)
    have "sorted c" using x srt by (auto simp: xi mem_enumerate)
    then have con: "contains_lit c l \<longleftrightarrow> l \<in> set c" for l by (rule contains_lit_iff)
    show "spec (?f x s) (\<lambda>r. case r of Go s \<Rightarrow> ?I (pre @ [x]) s | Stop _ \<Rightarrow> True) U"
      unfolding xi prod.case
    proof (rule spec_after_tick, cases "i \<noteq> k \<and> contains_lit c (neg_lit b)")
      case True
      have "spec (bnd (resolvent_is_tautological (cs ! k) b c) (\<lambda>taut. if \<not> taut then ret (Stop ()) else ret (Go s)))
          (\<lambda>r. case r of Go s \<Rightarrow> ?I (pre @ [(i, c)]) s | Stop _ \<Rightarrow> True) U"
        by (rule spec_bnd [OF resolvent_is_tautological_spec]) (use inv in \<open>auto simp: spec_ret intro!: spec_ret\<close>)
      then show "spec (if i \<noteq> k \<and> contains_lit c (neg_lit b)
          then bnd (resolvent_is_tautological (cs ! k) b c) (\<lambda>taut. if \<not> taut then ret (Stop ()) else ret (Go s))
          else ret (Go s)) (\<lambda>r. case r of Go s \<Rightarrow> ?I (pre @ [(i, c)]) s | Stop _ \<Rightarrow> True) U"
        unfolding if_P [OF True] .
    next
      case False
      then show "spec (if i \<noteq> k \<and> contains_lit c (neg_lit b)
          then bnd (resolvent_is_tautological (cs ! k) b c) (\<lambda>taut. if \<not> taut then ret (Stop ()) else ret (Go s))
          else ret (Go s)) (\<lambda>r. case r of Go s \<Rightarrow> ?I (pre @ [(i, c)]) s | Stop _ \<Rightarrow> True) U"
        unfolding if_not_P [OF False] using inv con by (intro spec_ret) auto
    qed
  qed simp
  then show ?thesis
    unfolding clause_is_blocked_def
  proof (rule spec_bnd)
    fix r :: "(unit, unit) loop"
    assume "case r of Go s \<Rightarrow> ?I ([] @ enumerate 0 cs) s | Stop _ \<Rightarrow> True"
    then show "spec (ret (case r of Go _ \<Rightarrow> True | Stop _ \<Rightarrow> False)) (\<lambda>r. r \<longrightarrow> blocked_in cs k b) U"
      by (cases r) (auto simp: blocked_in_def mem_enumerate intro!: spec_ret)
  qed
qed

lemma blocked_undo:
  assumes fit: "vars_fit n" and k: "k < length cs" "b \<in> set (cs ! k)" and bl: "blocked_in cs k b"
    and ok: "\<forall>c \<in> set cs. clause_ok n c" and len: "length a = n"
    and rest: "\<forall>i < length cs. i \<noteq> k \<longrightarrow> clause_satisfied (cs ! i) a"
  shows "\<forall>i < length cs. clause_satisfied (cs ! i) (undo_step (BlockedClause (cs ! k) b) a)"
proof (cases "clause_satisfied (cs ! k) a")
  case True
  with rest show ?thesis by auto
next
  case False
  let ?a = "a[lit_var b - 1 := b > 0]"
  have bok: "lit_ok n b" using ok k by (auto simp: clause_ok_def)
  have upd: "lit_satisfied l ?a = (if l = b then True else if l = - b then False else lit_satisfied l a)"
    if "l \<noteq> 0" for l
    using lit_satisfied_update [OF that, of b a "b > 0"] bok len by (auto simp: lit_ok_def)
  have unsat: "\<not> lit_satisfied l a" if "l \<in> set (cs ! k)" for l
    using False that by (auto simp: clause_satisfied_iff)
  have l0: "l \<noteq> 0" if "l \<in> set (cs ! i)" "i < length cs" for l i
    using ok that by (auto simp: clause_ok_def lit_ok_def)
  have negs: "neg_lit l = - l" if "l \<in> set (cs ! i)" "i < length cs" for l i
    using ok that by (intro neg_lit_ok [OF fit]) (auto simp: clause_ok_def)
  have "clause_satisfied (cs ! i) ?a" if i: "i < length cs" for i
  proof (cases "i = k")
    case True
    then show ?thesis using k(2) upd [of b] bok by (auto simp: clause_satisfied_iff lit_ok_def)
  next
    case ik: False
    show ?thesis
    proof (cases "- b \<in> set (cs ! i)")
      case True
      then obtain l where l: "l \<in> set (cs ! k)" "l \<noteq> b" "- l \<in> set (cs ! i)"
        using bl i ik negs k(1,2) by (auto simp: blocked_in_def taut_on_def)
      have "lit_satisfied (- l) a" using unsat [OF l(1)] lit_satisfied_uminus l0 [OF l(1) k(1)] by blast
      moreover have "- l \<noteq> b"
      proof
        assume "- l = b"
        then have "\<not> lit_satisfied (- l) a" using unsat k(2) by simp
        with \<open>lit_satisfied (- l) a\<close> show False by simp
      qed
      moreover have "- l \<noteq> - b" using l(2) by simp
      ultimately have "lit_satisfied (- l) ?a" using upd l0 [OF l(3) i] by simp
      then show ?thesis using l(3) by (auto simp: clause_satisfied_iff)
    next
      case False
      obtain l where l: "l \<in> set (cs ! i)" "lit_satisfied l a"
        using rest i ik by (auto simp: clause_satisfied_iff)
      then have "lit_satisfied l ?a" using upd l0 [OF l(1) i] False by auto
      then show ?thesis using l(1) by (auto simp: clause_satisfied_iff)
    qed
  qed
  with False show ?thesis by simp
qed

lemma blocked_stage:
  assumes tidy: "tidy n strict cs" and clean: "clean A cs"
    and k: "k < length cs" "b \<in> set (cs ! k)" and bl: "blocked_in cs k b"
  shows "vars_fit n \<Longrightarrow> undo_stage n cs A (take k cs @ drop (Suc k) cs) (BlockedClause (cs ! k) b)"
    and "tidy n strict (take k cs @ drop (Suc k) cs)"
proof -
  let ?ds = "take k cs @ drop (Suc k) cs"
  have cs: "cs = take k cs @ [cs ! k] @ drop (Suc k) cs" using k(1) by (simp add: id_take_nth_drop)
  have tidy': "tidy n strict (take k cs @ [cs ! k] @ drop (Suc k) cs)" using tidy cs by simp
  then show "tidy n strict ?ds" by (auto simp: tidy_def)
  have ok: "\<forall>c \<in> set cs. clause_ok n c" using tidy by (simp add: tidy_def)
  have fwd: "models n ?ds A a" if "models n cs A a" for a
  proof -
    have "models n (take k cs @ [cs ! k] @ drop (Suc k) cs) A a" using that cs by simp
    then show ?thesis by (auto simp: models_def holds_def)
  qed
  have "models n cs A (undo_step (BlockedClause (cs ! k) b) a)" if m: "models n ?ds A a" and fit: "vars_fit n" for a
  proof -
    have mem: "cs ! i \<in> set ?ds" if "i < length cs" "i \<noteq> k" for i
    proof (cases "i < k")
      case True
      then show ?thesis using that(1) by (auto simp: in_set_conv_nth intro!: exI [of _ i])
    next
      case False
      then have "cs ! i = drop (Suc k) cs ! (i - Suc k)" "i - Suc k < length (drop (Suc k) cs)"
        using that by auto
      then show ?thesis by (metis UnCI nth_mem set_append)
    qed
    have "A ! (lit_var b - 1) = None" using clean k by (auto simp: clean_def)
    then have "agrees A (undo_step (BlockedClause (cs ! k) b) a)"
      using m agrees_free_update by (simp add: models_def)
    moreover have "\<forall>i < length cs. clause_satisfied (cs ! i) (undo_step (BlockedClause (cs ! k) b) a)"
      using m mem by (intro blocked_undo [OF fit k bl ok]) (auto simp: models_def holds_def)
    ultimately show ?thesis using m by (auto simp: models_def holds_def in_set_conv_nth)
  qed
  with fwd show "vars_fit n \<Longrightarrow> undo_stage n cs A ?ds (BlockedClause (cs ! k) b)" by (simp add: undo_stage_def)
qed

lemma remove_blocked_spec:
  assumes tidy: "tidy n strict cs" and clean: "clean A cs"
  shows "spec (remove_blocked_clause cs) (\<lambda>r. case r of
      Go _ \<Rightarrow> True | Stop (cs', step) \<Rightarrow> (vars_fit n \<longrightarrow> undo_stage n cs A cs' step) \<and> tidy n strict cs') U"
proof -
  let ?Q = "\<lambda>(cs', step). (vars_fit n \<longrightarrow> undo_stage n cs A cs' step) \<and> tidy n strict cs'"
  let ?R = "\<lambda>r :: (unit, clause list \<times> recon_step) loop. case r of Go _ \<Rightarrow> True | Stop y \<Rightarrow> ?Q y"
  let ?lit = "\<lambda>k lit s. bnd tick (\<lambda>_. bnd (clause_is_blocked cs k lit) (\<lambda>blocked.
      if blocked then bnd (log_delete (cs ! k)) (\<lambda>_.
        bnd (count (\<lambda>st. st\<lparr>ps_blocked_clauses := ps_blocked_clauses st + 1\<rparr>)) (\<lambda>_.
        ret (Stop (take k cs @ drop (Suc k) cs, BlockedClause (cs ! k) lit))))
      else ret (Go s)))"
  have srt: "\<forall>c \<in> set cs. sorted c" using tidy by (simp add: tidy_def)
  have lit: "spec (?lit k b s) ?R U" if "k < length cs" "b \<in> set (cs ! k)" for k b and s :: unit
  proof (rule spec_after_tick, rule spec_bnd [OF clause_is_blocked_spec [OF srt]])
    fix blocked assume bl: "blocked \<longrightarrow> blocked_in cs k b"
    show "spec (if blocked then bnd (log_delete (cs ! k)) (\<lambda>_.
        bnd (count (\<lambda>st. st\<lparr>ps_blocked_clauses := ps_blocked_clauses st + 1\<rparr>)) (\<lambda>_.
        ret (Stop (take k cs @ drop (Suc k) cs, BlockedClause (cs ! k) b))))
      else ret (Go s)) ?R U"
      using bl blocked_stage [OF tidy clean that] by (cases blocked) (auto intro!: spec_rules)
  qed
  have body: "spec (bnd tick (\<lambda>_. for_until (?lit k) (cs ! k) s)) ?R U" if "k < length cs" for k and s :: unit
  proof (rule spec_after_tick)
    show "spec (for_until (?lit k) (cs ! k) s) ?R U"
      using spec_for_until [of "cs ! k" "\<lambda>_ _. True" "?lit k" ?Q U "[]" s] lit that by simp
  qed
  show ?thesis
    unfolding remove_blocked_clause_def
    using spec_for_until [of "[0..<length cs]" "\<lambda>_ _. True" "\<lambda>k s. bnd tick (\<lambda>_. for_until (?lit k) (cs ! k) s)"
        ?Q U "[]" "()"] body
    by (intro spec_own_work) simp
qed

end
