(* ===== verification/SatSound.thy ===== *)
theory SatSound imports SatResolution begin

text \<open>
  Soundness of a whole preprocessing run: the stages of a round composed, the invariant of
  the main loop, and the meaning of the three outcomes.
\<close>

section \<open>The state against the original formula\<close>

text \<open>
  \<open>good F st\<close>: a model of the state reconstructs to a model of the formula, and the state
  has a model if the formula has one. Both need every variable to be an \<open>i32\<close>; what else holds
  of a run does not.
\<close>

definition state_models :: "nat \<Rightarrow> pp_state \<Rightarrow> bool list \<Rightarrow> bool" where
  "state_models n st a \<longleftrightarrow> models n (pp_clauses st) (pp_assigned st) a"

definition good :: "cnf \<Rightarrow> pp_state \<Rightarrow> bool" where
  "good F st \<longleftrightarrow> (vars_fit (c_vars F) \<longrightarrow>
     (\<forall>a. state_models (c_vars F) st a \<longrightarrow> assignment_satisfies F (reconstruct_assignment a (pp_recon st))) \<and>
     ((\<exists>a. assignment_satisfies F a) \<longrightarrow> (\<exists>a. state_models (c_vars F) st a)))"

definition shape :: "cnf \<Rightarrow> pp_state \<Rightarrow> bool" where
  "shape F st \<longleftrightarrow> length (pp_assigned st) = c_vars F \<and>
     (\<forall>c \<in> set (pp_clauses st). clause_ok (c_vars F) c)"

lemma good_shrink:
  assumes "good F st" "pp_recon st' = pp_recon st"
    "\<And>a. vars_fit (c_vars F) \<Longrightarrow> state_models (c_vars F) st' a \<Longrightarrow> state_models (c_vars F) st a"
    "\<And>a. vars_fit (c_vars F) \<Longrightarrow> state_models (c_vars F) st a \<Longrightarrow> \<exists>a. state_models (c_vars F) st' a"
  shows "good F st'"
  using assms unfolding good_def by metis

lemma good_undo:
  assumes g: "good F st"
    and u: "vars_fit (c_vars F) \<longrightarrow> undo_stage (c_vars F) (pp_clauses st) (pp_assigned st) cs' step"
  shows "good F (st\<lparr>pp_clauses := cs', pp_recon := pp_recon st @ [step]\<rparr>)"
  using g u by (auto simp: good_def undo_stage_def state_models_def reconstruct_snoc)

text \<open>The options for which every stage that runs is sound.\<close>

definition safe_options :: "pp_options \<Rightarrow> bool" where
  "safe_options opts \<longleftrightarrow> basic_simplification opts \<or>
     \<not> self_subsuming_resolution opts \<and> \<not> bounded_variable_elimination opts"

text \<open>The invariant between the stages of a round.\<close>

definition mid_ok :: "cnf \<Rightarrow> bool \<Rightarrow> pp_state \<times> bool \<Rightarrow> bool" where
  "mid_ok F strict s \<longleftrightarrow> good F (fst s) \<and> length (pp_assigned (fst s)) = c_vars F \<and>
     tidy (c_vars F) strict (pp_clauses (fst s)) \<and>
     (\<not> snd s \<longrightarrow> clean (pp_assigned (fst s)) (pp_clauses (fst s)))"

definition satisfiable :: "cnf \<Rightarrow> bool" where
  "satisfiable F \<longleftrightarrow> (\<exists>a. assignment_satisfies F a)"

text \<open>When a refutation is allowed: variables that do not fit are not spoken of.\<close>

definition refutable :: "cnf \<Rightarrow> bool" where
  "refutable F \<longleftrightarrow> (vars_fit (c_vars F) \<longrightarrow> \<not> satisfiable F)"

lemma stage_spec:
  assumes s: "mid_ok F strict s"
    and f: "\<lbrakk>enabled; mid_ok F strict (fst s, False)\<rbrakk> \<Longrightarrow> spec (f (fst s)) (mid_ok F strict) U"
  shows "spec (run_stage enabled f s) (mid_ok F strict) U"
proof (cases "\<not> snd s \<and> enabled")
  case True
  then have "mid_ok F strict (fst s, False)" using s by (cases s) simp
  then show ?thesis unfolding run_stage_def if_P [OF True] using f True by blast
next
  case False
  then show ?thesis unfolding run_stage_def if_not_P [OF False] using s by (intro spec_ret)
qed

lemma equiv_stage_mid:
  assumes s: "mid_ok F strict (st, False)" and f: "spec (f (pp_clauses st)) (equiv_stage (c_vars F) strict (pp_clauses st)) U"
  shows "spec (on_clauses f st) (mid_ok F strict) U"
  unfolding on_clauses_def
proof (rule spec_bnd [OF f])
  fix r assume r: "equiv_stage (c_vars F) strict (pp_clauses st) r"
  obtain cs ch where rr: "r = (cs, ch)" by (cases r)
  have same: "state_models (c_vars F) (st\<lparr>pp_clauses := cs\<rparr>) a = state_models (c_vars F) st a" if "vars_fit (c_vars F)" for a
    using r that by (auto simp: rr equiv_stage_def same_models_def state_models_def models_def)
  have "good F st" using s by (simp add: mid_ok_def)
  then have "good F (st\<lparr>pp_clauses := cs\<rparr>)"
    by (rule good_shrink) (use same in auto)
  then have "mid_ok F strict (st\<lparr>pp_clauses := cs\<rparr>, ch)"
    using r s by (auto simp: rr mid_ok_def equiv_stage_def)
  then show "spec (case r of (cs, changed) \<Rightarrow> ret (st\<lparr>pp_clauses := cs\<rparr>, changed)) (mid_ok F strict) U"
    by (simp add: rr spec_ret)
qed

lemma undo_stage_mid:
  assumes s: "mid_ok F strict (st, False)"
    and m: "spec m (\<lambda>r. case r of Go _ \<Rightarrow> True
      | Stop (cs', step) \<Rightarrow> (vars_fit (c_vars F) \<longrightarrow> undo_stage (c_vars F) (pp_clauses st) (pp_assigned st) cs' step) \<and> tidy (c_vars F) strict cs') U"
  shows "spec (on_recon m st) (mid_ok F strict) U"
  unfolding on_recon_def
proof (rule spec_bnd [OF m])
  fix r :: "(unit, clause list \<times> recon_step) loop"
  assume r: "case r of Go _ \<Rightarrow> True
      | Stop (cs', step) \<Rightarrow> (vars_fit (c_vars F) \<longrightarrow> undo_stage (c_vars F) (pp_clauses st) (pp_assigned st) cs' step) \<and> tidy (c_vars F) strict cs'"
  show "spec (case r of Go _ \<Rightarrow> ret (st, False)
      | Stop (cs, step) \<Rightarrow> ret (st\<lparr>pp_clauses := cs, pp_recon := pp_recon st @ [step]\<rparr>, True)) (mid_ok F strict) U"
  proof (cases r)
    case (Go u)
    then show ?thesis using s by (simp add: spec_ret)
  next
    case (Stop y)
    obtain cs step where y: "y = (cs, step)" by (cases y)
    then have "good F (st\<lparr>pp_clauses := cs, pp_recon := pp_recon st @ [step]\<rparr>)" "tidy (c_vars F) strict cs"
      using r s Stop by (auto simp: mid_ok_def intro: good_undo)
    then have "mid_ok F strict (st\<lparr>pp_clauses := cs, pp_recon := pp_recon st @ [step]\<rparr>, True)"
      using s by (simp add: mid_ok_def)
    then show ?thesis by (simp add: Stop y spec_ret)
  qed
qed

lemma mid_models: "mid_ok F strict s \<Longrightarrow> \<not> refutable F \<Longrightarrow> \<exists>a. models (c_vars F) (pp_clauses (fst s)) (pp_assigned (fst s)) a"
  by (auto simp: mid_ok_def good_def refutable_def satisfiable_def state_models_def)

text \<open>The four stages, each from a state on which nothing has changed yet.\<close>

definition eliminate_on :: "nat \<Rightarrow> pp_state \<Rightarrow> (pp_state \<times> bool) prog" where
  "eliminate_on n st = on_recon (eliminate_bounded_variable (pp_clauses st) n (pp_assigned st)) st"

definition block_on :: "pp_state \<Rightarrow> (pp_state \<times> bool) prog" where
  "block_on st = on_recon (remove_blocked_clause (pp_clauses st)) st"

lemma stages_alt:
  "stages opts n s =
     bnd (run_stage (subsumption opts) (on_clauses remove_subsumed_clauses) s) (\<lambda>s.
     bnd (run_stage (self_subsuming_resolution opts) (on_clauses self_subsume_clauses) s) (\<lambda>s.
     bnd (run_stage (bounded_variable_elimination opts) (eliminate_on n) s) (\<lambda>s.
     run_stage (blocked_clause_elimination opts) block_on s)))"
  by (simp add: stages_def eliminate_on_def [abs_def] block_on_def [abs_def])

lemma subsume_mid:
  "mid_ok F b (st, False) \<Longrightarrow> spec (on_clauses remove_subsumed_clauses st) (mid_ok F b) U"
  by (intro equiv_stage_mid remove_subsumed_spec) (simp_all add: mid_ok_def)

lemma self_subsume_mid:
  "mid_ok F True (st, False) \<Longrightarrow> spec (on_clauses self_subsume_clauses st) (mid_ok F True) (refutable F)"
  using mid_models [of F True "(st, False)"]
  by (intro equiv_stage_mid self_subsume_spec) (auto simp: mid_ok_def)

lemma eliminate_mid:
  assumes m: "mid_ok F True (st, False)"
  shows "spec (eliminate_on (c_vars F) st) (mid_ok F True) (refutable F)"
proof -
  have "tidy (c_vars F) True (pp_clauses st)" using m by (simp add: mid_ok_def)
  then show ?thesis
    unfolding eliminate_on_def using m mid_models [OF m]
    by (intro undo_stage_mid spec_mono [OF eliminate_bounded_spec]) (auto split: loop.splits)
qed

lemma block_mid: "mid_ok F b (st, False) \<Longrightarrow> spec (block_on st) (mid_ok F b) U"
  unfolding block_on_def
  by (rule undo_stage_mid, assumption, rule remove_blocked_spec) (simp_all add: mid_ok_def)

lemma stages_spec:
  assumes s: "mid_ok F (basic_simplification opts) s" and safe: "safe_options opts"
  shows "spec (stages opts (c_vars F) s) (mid_ok F (basic_simplification opts)) (refutable F)"
proof -
  let ?b = "basic_simplification opts" and ?U = "refutable F"
  have sub: "spec (run_stage (subsumption opts) (on_clauses remove_subsumed_clauses) s) (mid_ok F ?b) ?U"
    by (rule stage_spec [OF s]) (rule subsume_mid)
  have self: "spec (run_stage (self_subsuming_resolution opts) (on_clauses self_subsume_clauses) s) (mid_ok F ?b) ?U"
    if "mid_ok F ?b s" for s
    using safe self_subsume_mid by (intro stage_spec [OF that]) (simp add: safe_options_def)
  have elim: "spec (run_stage (bounded_variable_elimination opts) (eliminate_on (c_vars F)) s) (mid_ok F ?b) ?U"
    if "mid_ok F ?b s" for s
    using safe eliminate_mid by (intro stage_spec [OF that]) (simp add: safe_options_def)
  have block: "spec (run_stage (blocked_clause_elimination opts) block_on s) (mid_ok F ?b) ?U" if "mid_ok F ?b s" for s
    by (rule stage_spec [OF that]) (rule block_mid)
  show ?thesis
    unfolding stages_alt by (intro spec_bnd [OF sub] spec_bnd [OF self] spec_bnd [OF elim] block)
qed

text \<open>What the assignments of a round leave, from what the two passes promise.\<close>

definition assigned_ok :: "nat \<Rightarrow> bool option list \<Rightarrow> pass \<Rightarrow> bool option list \<times> bool \<Rightarrow> bool" where
  "assigned_ok n A p r \<longleftrightarrow> (case r of (A', ch) \<Rightarrow>
     shrinks n (pa_simplified p) A A' \<and> (\<not> ch \<longrightarrow> \<not> pa_changed p \<and> A' = A))"

lemma assigned_mid:
  assumes g: "good F st" and p: "pass_ok (c_vars F) b (pp_assigned st) (pp_clauses st) p"
    and r: "assigned_ok (c_vars F) (pp_assigned st) p (A', ch)"
  shows "mid_ok F b (st\<lparr>pp_clauses := pa_simplified p, pp_assigned := A'\<rparr>, ch)"
proof -
  let ?st = "st\<lparr>pp_clauses := pa_simplified p, pp_assigned := A'\<rparr>" and ?n = "c_vars F" and ?A = "pp_assigned st"
  have same: "models ?n (pa_simplified p) ?A a = models ?n (pp_clauses st) ?A a" for a
    using p by (auto simp: pass_ok_def models_def)
  have sh: "shrinks ?n (pa_simplified p) ?A A'" using r by (simp add: assigned_ok_def)
  have "good F ?st"
  proof (rule good_shrink [OF g])
    show "pp_recon ?st = pp_recon st" by simp
    show "state_models ?n st a" if "state_models ?n ?st a" for a
      using that sh same [of a] by (simp add: shrinks_def state_models_def)
    show "\<exists>a. state_models ?n ?st a" if "state_models ?n st a" for a
      using that sh same [of a] by (auto simp: shrinks_def state_models_def)
  qed
  then show ?thesis using p r by (auto simp: assigned_ok_def mid_ok_def pass_ok_def shrinks_def)
qed

lemma round_passes:
  assumes g: "good F st" and sh: "shape F st"
  shows "spec (simplify_pass opts (c_vars F) st)
      (pass_ok (c_vars F) (basic_simplification opts) (pp_assigned st) (pp_clauses st)) (refutable F)"
    and "pass_ok (c_vars F) b (pp_assigned st) (pp_clauses st) p \<Longrightarrow>
      spec (assign_pass opts (pp_assigned st) p) (assigned_ok (c_vars F) (pp_assigned st) p) (refutable F)"
proof -
  have A: "length (pp_assigned st) = c_vars F" and cok: "\<forall>c \<in> set (pp_clauses st). clause_ok (c_vars F) c"
    using sh by (simp_all add: shape_def)
  have U: "\<exists>a. models (c_vars F) (pp_clauses st) (pp_assigned st) a" if "\<not> refutable F"
    using g that by (auto simp: good_def refutable_def satisfiable_def state_models_def)
  show "spec (simplify_pass opts (c_vars F) st)
      (pass_ok (c_vars F) (basic_simplification opts) (pp_assigned st) (pp_clauses st)) (refutable F)"
    by (rule simplify_pass_spec [OF A cok U])
  assume p: "pass_ok (c_vars F) b (pp_assigned st) (pp_clauses st) p"
  then have "models (c_vars F) (pa_simplified p) (pp_assigned st) a = models (c_vars F) (pp_clauses st) (pp_assigned st) a" for a
    by (auto simp: pass_ok_def models_def)
  then have "\<exists>a. models (c_vars F) (pa_simplified p) (pp_assigned st) a" if "\<not> refutable F" using U [OF that] by simp
  then show "spec (assign_pass opts (pp_assigned st) p) (assigned_ok (c_vars F) (pp_assigned st) p) (refutable F)"
    unfolding assigned_ok_def [abs_def] by (rule assign_pass_spec [OF A p])
qed

lemma round_step_spec:
  assumes g: "good F st" and sh: "shape F st" and safe: "safe_options opts"
  shows "spec (round_step opts (c_vars F) st) (mid_ok F (basic_simplification opts)) (refutable F)"
  unfolding round_step_def
proof (intro spec_after_load spec_after_count, rule spec_bnd [OF round_passes(1) [OF g sh]])
  fix p assume p: "pass_ok (c_vars F) (basic_simplification opts) (pp_assigned st) (pp_clauses st) p"
  show "spec (bnd (assign_pass opts (pp_assigned st) p) (\<lambda>(assigned, changed).
      stages opts (c_vars F) (st\<lparr>pp_clauses := pa_simplified p, pp_assigned := assigned\<rparr>, changed)))
      (mid_ok F (basic_simplification opts)) (refutable F)"
    by (rule spec_bnd [OF round_passes(2) [OF g sh p]])
      (use stages_spec [OF assigned_mid [OF g p] safe] in auto)
qed

section \<open>The result of a run\<close>

definition result_ok :: "cnf \<Rightarrow> (cnf \<times> recon_step list, exit_kind) result \<Rightarrow> bool" where
  "result_ok F r \<longleftrightarrow> (case r of
      Ok (G, steps) \<Rightarrow> c_vars G = c_vars F \<and> (vars_fit (c_vars F) \<longrightarrow>
        (\<forall>a. assignment_satisfies G a \<longrightarrow> assignment_satisfies F (reconstruct_assignment a steps)) \<and>
        (satisfiable F \<longrightarrow> satisfiable G))
    | Err Unsat \<Rightarrow> refutable F
    | Err Interrupted \<Rightarrow> True
    | Err Panicked \<Rightarrow> False)"

definition unit_clauses :: "(nat \<times> bool option) list \<Rightarrow> clause list" where
  "unit_clauses ivs = concat (map (\<lambda>(i, value). case value of
     Some b \<Rightarrow> [[index_lit i b]] | None \<Rightarrow> []) ivs)"

lemma assigned_units_spec: "spec (assigned_units A) (\<lambda>r. r = unit_clauses (enumerate 0 A)) U"
proof -
  let ?f = "\<lambda>(i, value) out. bnd tick (\<lambda>_. ret (case value of
      Some b \<Rightarrow> out @ [[index_lit i b]] | None \<Rightarrow> out))"
  let ?I = "\<lambda>pre r. r = unit_clauses pre"
  have "spec (for_each ?f (enumerate 0 A) []) (?I ([] @ enumerate 0 A)) U"
  proof (rule spec_for_each)
    fix x pre and s :: "clause list" assume "?I pre s"
    then show "spec (?f x s) (?I (pre @ [x])) U"
      by (cases x, cases "snd x") (auto simp: unit_clauses_def intro!: spec_rules)
  qed (simp add: unit_clauses_def)
  then show ?thesis by (simp add: assigned_units_def)
qed

lemma index_lit_exact: "i < n \<Longrightarrow> vars_fit n \<Longrightarrow> index_lit i b = (if b then int i + 1 else - (int i + 1))"
proof -
  assume i: "i < n" "vars_fit n"
  then have "in_i32 (int i)" "in_i32 (int i + 1)" by (auto simp: vars_fit_def in_i32_def i32_min_def)
  then show ?thesis by (simp add: index_lit_def as_i32_id neg_lit_pos)
qed

lemma unit_clauses_holds:
  assumes "vars_fit (length A)"
  shows "holds (unit_clauses (enumerate 0 A)) a \<longleftrightarrow> agrees A a"
proof -
  have sat: "lit_satisfied (index_lit i b) a \<longleftrightarrow> a ! i = b" if "i < length A" for i b
    unfolding index_lit_exact [OF that assms] by (auto simp: lit_satisfied_def lit_var_def Let_def nat_add_distrib)
  have mem: "c \<in> set (unit_clauses (enumerate 0 A)) \<longleftrightarrow>
      (\<exists>i b. i < length A \<and> A ! i = Some b \<and> c = [index_lit i b])" for c
    by (force simp: unit_clauses_def mem_enumerate split: option.splits)
  show ?thesis
    unfolding holds_def agrees_def
  proof
    assume all: "\<forall>c \<in> set (unit_clauses (enumerate 0 A)). clause_satisfied c a"
    have "a ! i = b" if "i < length A" "A ! i = Some b" for i b
    proof -
      have "clause_satisfied [index_lit i b] a" using that mem all by blast
      then show ?thesis unfolding clause_satisfied_iff using sat [of i b] that by simp
    qed
    then show "\<forall>i < length A. \<forall>b. A ! i = Some b \<longrightarrow> a ! i = b" by blast
  next
    assume agr: "\<forall>i < length A. \<forall>b. A ! i = Some b \<longrightarrow> a ! i = b"
    have "clause_satisfied c a" if c: "c \<in> set (unit_clauses (enumerate 0 A))" for c
    proof -
      obtain i b where "i < length A" "A ! i = Some b" "c = [index_lit i b]"
        using c mem by blast
      then show ?thesis unfolding clause_satisfied_iff using agr sat [of i b] by simp
    qed
    then show "\<forall>c \<in> set (unit_clauses (enumerate 0 A)). clause_satisfied c a" by blast
  qed
qed

lemma finish_spec:
  assumes g: "good F st" and A: "length (pp_assigned st) = c_vars F"
  shows "spec (finish (c_vars F) st) (\<lambda>r. result_ok F (Ok r)) U"
  unfolding finish_def Let_def
proof (rule spec_bnd [OF assigned_units_spec], rule spec_after_count, rule spec_ret)
  fix units assume u: "units = unit_clauses (enumerate 0 (pp_assigned st))"
  let ?G = "\<lparr>c_vars = c_vars F, c_clauses = units @ pp_clauses st\<rparr>"
  have "assignment_satisfies ?G a \<longleftrightarrow> state_models (c_vars F) st a" if "vars_fit (c_vars F)" for a
    using unit_clauses_holds [of "pp_assigned st" a] that A
    by (auto simp: assignment_satisfies_iff state_models_def models_def u holds_def)
  then show "result_ok F (Ok (?G, pp_recon st))"
    using g by (auto simp: result_ok_def good_def satisfiable_def)
qed

lemma mid_shape: "mid_ok F strict s \<Longrightarrow> shape F (fst s) \<and> good F (fst s)"
  by (simp add: mid_ok_def shape_def tidy_def)

lemma finish_ok:
  assumes "mid_ok F strict (st, ch)"
  shows "result_ok F (fst (finish (c_vars F) st e))"
proof -
  have fin: "spec (finish (c_vars F) st) (\<lambda>r. result_ok F (Ok r)) False"
    using assms by (intro finish_spec) (simp_all add: mid_ok_def)
  obtain x e2 where x: "finish (c_vars F) st e = (x, e2)" by fastforce
  show ?thesis
  proof (cases x)
    case (Ok y)
    then show ?thesis using spec_result [OF fin] x by auto
  next
    case (Err k)
    then show ?thesis using spec_unsat [OF fin] spec_no_panic [OF fin] x by (cases k) (auto simp: result_ok_def)
  qed
qed

lemma main_loop_sound:
  assumes run: "main_loop opts (c_vars F) st e = Some re" and safe: "safe_options opts"
    and g: "good F st" and sh: "shape F st"
  shows "result_ok F (fst re)"
  using run g sh
proof (induction rule: main_loop_induct)
  case (stop st e k e')
  note sp = round_step_spec [OF stop(2,3) safe]
  show ?case using spec_unsat [OF sp] spec_no_panic [OF sp] stop(1) by (cases k) (auto simp: result_ok_def)
next
  case (last_round st e st' e')
  note sp = round_step_spec [OF last_round(2,3) safe]
  show ?case using finish_ok [OF spec_result [OF sp last_round(1)]] .
next
  case (again st e st' e' re)
  note sp = round_step_spec [OF again(4,5) safe]
  show ?case using mid_shape [OF spec_result [OF sp again(1)]] by (intro again(3)) simp_all
qed

lemma copy_clauses_spec: "spec (copy_clauses cs) (\<lambda>r. r = cs) U"
proof -
  let ?I = "\<lambda>pre r. r = (pre :: clause list)"
  have "spec (for_each (\<lambda>c out. bnd tick (\<lambda>_. ret (out @ [c]))) cs []) (?I ([] @ cs)) U"
    by (rule spec_for_each) (auto intro!: spec_rules)
  then show ?thesis unfolding copy_clauses_def by (intro spec_after_load) simp
qed

lemma initial_good:
  assumes "cnf_ok F"
  shows "good F \<lparr>pp_clauses = c_clauses F, pp_assigned = replicate (c_vars F) None, pp_recon = []\<rparr>"
    and "shape F \<lparr>pp_clauses = c_clauses F, pp_assigned = replicate (c_vars F) None, pp_recon = []\<rparr>"
  using assms
  by (auto simp: good_def shape_def state_models_def models_def agrees_def holds_def cnf_ok_iff
      assignment_satisfies_iff reconstruct_assignment_def)

lemma preprocess_inner_sound:
  assumes ok: "cnf_ok F" and safe: "safe_options opts" and run: "preprocess_cnf_inner F opts e = Some re"
  shows "result_ok F (fst re)"
proof -
  obtain r e' where c: "copy_clauses (c_clauses F) e = (r, e')" by fastforce
  show ?thesis
  proof (cases r)
    case (Err k)
    have "k \<noteq> Unsat" "k \<noteq> Panicked" using spec_unsat [OF copy_clauses_spec [of _ False]] spec_no_panic [OF copy_clauses_spec] c Err by auto
    then show ?thesis using run c Err by (cases k) (auto simp: preprocess_cnf_inner_def result_ok_def)
  next
    case (Ok cs)
    then have "cs = c_clauses F" using spec_result [OF copy_clauses_spec] c by blast
    then show ?thesis
      using run c Ok main_loop_sound [OF _ safe initial_good [OF ok]]
      by (simp add: preprocess_cnf_inner_def)
  qed
qed

end
