(* ===== verification/SatTerminate.thy ===== *)
theory SatTerminate imports SatSound begin

text \<open>
  Termination of the preprocessor. With basic simplification on, every round that changes
  something makes the state smaller: it assigns or eliminates a variable, or it removes
  literals and clauses. Without interruption the run then ends in one of the two real
  outcomes.
\<close>

section \<open>The measure\<close>

definition vars_of :: "clause list \<Rightarrow> nat set" where
  "vars_of cs = lit_var ` (\<Union>c \<in> set cs. set c)"

definition free_vars :: "bool option list \<Rightarrow> nat" where
  "free_vars A = card {i. i < length A \<and> A ! i = None}"

definition cells :: "clause list \<Rightarrow> nat" where
  "cells cs = sum_list (map (\<lambda>c. Suc (length c)) cs)"

definition weight :: "bool option list \<Rightarrow> clause list \<Rightarrow> nat \<times> nat" where
  "weight A cs = (free_vars A + card (vars_of cs), cells cs)"

definition lighter :: "bool option list \<Rightarrow> clause list \<Rightarrow> bool option list \<Rightarrow> clause list \<Rightarrow> bool" where
  "lighter A' cs' A cs \<longleftrightarrow> (weight A' cs', weight A cs) \<in> less_than <*lex*> less_than"

lemma finite_vars_of [simp]: "finite (vars_of cs)"
  by (simp add: vars_of_def)

lemma vars_of_mono: "set ds \<subseteq> set cs \<Longrightarrow> vars_of ds \<subseteq> vars_of cs"
  by (auto simp: vars_of_def)

lemma cells_append [simp]: "cells (cs @ ds) = cells cs + cells ds"
  by (simp add: cells_def)

lemma cells_Cons [simp]: "cells (c # cs) = Suc (length c) + cells cs"
  by (simp add: cells_def)

lemma cells_Nil [simp]: "cells [] = 0"
  by (simp add: cells_def)

lemma lighter_cells:
  "vars_of ds \<subseteq> vars_of cs \<Longrightarrow> cells ds < cells cs \<Longrightarrow> lighter A ds A cs"
  using card_mono [of "vars_of cs" "vars_of ds"] by (auto simp: lighter_def weight_def)

lemma lighter_vars:
  "vars_of ds \<subset> vars_of cs \<Longrightarrow> lighter A ds A cs"
  using psubset_card_mono [of "vars_of cs" "vars_of ds"] by (auto simp: lighter_def weight_def)

lemma lighter_free:
  "free_vars B < free_vars A \<Longrightarrow> vars_of ds \<subseteq> vars_of cs \<Longrightarrow> lighter B ds A cs"
  using card_mono [of "vars_of cs" "vars_of ds"] by (auto simp: lighter_def weight_def)

lemma lighter_after:
  "\<lbrakk>lighter B ds A es; vars_of es \<subseteq> vars_of cs; cells es \<le> cells cs\<rbrakk> \<Longrightarrow> lighter B ds A cs"
  using card_mono [of "vars_of cs" "vars_of es"] by (auto simp: lighter_def weight_def)

lemma free_vars_assign:
  assumes "i < length A" "A ! i = None"
  shows "free_vars (A[i := Some b]) < free_vars A"
proof -
  have "{j. j < length (A[i := Some b]) \<and> A[i := Some b] ! j = None} \<subset> {j. j < length A \<and> A ! j = None}"
    using assms by (auto simp: nth_list_update)
  then show ?thesis unfolding free_vars_def by (intro psubset_card_mono) simp_all
qed

lemma spec_conj:
  "spec m Q U \<Longrightarrow> spec m R V \<Longrightarrow> spec m (\<lambda>x. Q x \<and> R x) (U \<and> V)"
  by (auto simp: spec_def split: result.splits)

lemma spec_conj_true:
  "spec m Q U \<Longrightarrow> spec m R True \<Longrightarrow> spec m (\<lambda>x. Q x \<and> R x) U"
  using spec_conj [of m Q U R True] by simp

section \<open>The clause pass\<close>

definition lit_size :: "clause \<Rightarrow> bool \<Rightarrow> clause \<Rightarrow> clause \<times> bool \<Rightarrow> bool" where
  "lit_size c ch0 pre s \<longleftrightarrow> length (fst s) \<le> length pre \<and> set (fst s) \<subseteq> set pre \<and>
     (snd s \<longrightarrow> ch0 \<or> length (fst s) < length pre)"

lemma simplify_lit_size:
  assumes "lit_size c ch0 pre s"
  shows "spec (simplify_lit opts n A original l s) (\<lambda>r. case r of
    Go s' \<Rightarrow> lit_size c ch0 (pre @ [l]) s' | Stop _ \<Rightarrow> True) True"
proof -
  obtain out ch where s: "s = (out, ch)" by (cases s)
  have k: "lit_size c ch0 (pre @ [l]) (out, True)" "lit_size c ch0 (pre @ [l]) (out @ [l], ch)"
    using assms by (auto simp: s lit_size_def)
  show ?thesis
    unfolding simplify_lit_def s prod.case Let_def
    by (rule spec_after_tick)
      (auto simp: k spec_leave_unsat intro!: spec_rules split: option.splits)
qed

definition pass_size :: "clause list \<Rightarrow> pass \<Rightarrow> bool" where
  "pass_size pre p \<longleftrightarrow> vars_of (pa_simplified p) \<subseteq> vars_of pre \<and>
     cells (pa_simplified p) \<le> cells pre \<and> (pa_changed p \<longrightarrow> cells (pa_simplified p) < cells pre)"

lemma simplify_clause_size:
  assumes inv: "pass_size pre p"
  shows "spec (simplify_clause opts n A c p) (pass_size (pre @ [c])) True"
proof -
  let ?loop = "for_until (simplify_lit opts n A (canonical_clause c)) c ([], pa_changed p)"
  have loop: "spec ?loop (\<lambda>r. case r of Go s' \<Rightarrow> lit_size c (pa_changed p) ([] @ c) s' | Stop _ \<Rightarrow> True) True"
    by (rule spec_for_until) (use simplify_lit_size in \<open>auto simp: lit_size_def\<close>)
  have V: "vars_of (pre @ [c]) = vars_of pre \<union> lit_var ` set c" by (auto simp: vars_of_def)
  show ?thesis
    unfolding simplify_clause_def Let_def
  proof (intro spec_after_tick spec_bnd [OF loop])
    fix r :: "(clause \<times> bool, unit) loop"
    assume r: "case r of Go s' \<Rightarrow> lit_size c (pa_changed p) ([] @ c) s' | Stop _ \<Rightarrow> True"
    show "spec (case r of
        Stop _ \<Rightarrow> ret (p\<lparr>pa_changed := True\<rparr>)
      | Go (kept, changed) \<Rightarrow>
          if sort kept = [] then bnd (log_add []) (\<lambda>_. leave Unsat)
          else bnd (when_logging (if canonical_clause (sort kept) \<noteq> canonical_clause c
                                  then bnd (log_add (sort kept)) (\<lambda>_. log_delete (canonical_clause c)) else ret ()))
            (\<lambda>_. ret \<lparr>pa_simplified = pa_simplified p @ [sort kept],
                   pa_units = (if unit_propagation opts \<and> length (sort kept) = 1
                               then pa_units p @ [sort kept ! 0] else pa_units p),
                   pa_polarity = mark_polarity (sort kept) (pa_polarity p),
                   pa_changed = changed\<rparr>)) (pass_size (pre @ [c])) True"
    proof (cases r)
      case (Stop u)
      then show ?thesis using inv by (auto simp: pass_size_def V intro!: spec_ret)
    next
      case (Go s)
      obtain kept ch where s: "s = (kept, ch)" by (cases s)
      have k: "lit_size c (pa_changed p) c (kept, ch)" using r Go s by simp
      have "vars_of (pa_simplified p @ [sort kept]) \<subseteq> vars_of (pre @ [c])"
      proof -
        have "set kept \<subseteq> set c" "vars_of (pa_simplified p) \<subseteq> vars_of pre"
          using inv k by (simp_all add: pass_size_def lit_size_def)
        moreover have "vars_of (pa_simplified p @ [sort kept]) = vars_of (pa_simplified p) \<union> lit_var ` set kept"
          by (auto simp: vars_of_def)
        ultimately show ?thesis unfolding V by blast
      qed
      then have Q: "pass_size (pre @ [c]) (pass_add u p (sort kept) ch)" for u
        using inv k by (auto simp: pass_size_def pass_add_def lit_size_def)
      show ?thesis
        unfolding Go s loop.case prod.case using Q [of "unit_propagation opts", unfolded pass_add_def]
        by (cases "sort kept = []") (simp_all add: spec_log_replace spec_log_add spec_leave_unsat)
    qed
  qed
qed

lemma simplify_pass_size:
  "spec (simplify_pass opts n st) (pass_size (pp_clauses st)) True"
proof -
  have "spec (for_each (simplify_clause opts n (pp_assigned st)) (pp_clauses st) \<lparr>pa_simplified = [], pa_units = [],
      pa_polarity = replicate n (False, False), pa_changed = False\<rparr>) (pass_size ([] @ pp_clauses st)) True"
  proof (rule spec_for_each)
    show "pass_size [] \<lparr>pa_simplified = [], pa_units = [], pa_polarity = replicate n (False, False), pa_changed = False\<rparr>"
      by (simp add: pass_size_def)
  qed (rule simplify_clause_size)
  then show ?thesis by (simp add: simplify_pass_def)
qed

section \<open>Assignments\<close>

definition free_size :: "bool option list \<Rightarrow> bool \<Rightarrow> bool option list \<times> bool \<Rightarrow> bool" where
  "free_size A ch s \<longleftrightarrow> length (fst s) = length A \<and>
     (if snd s then ch \<or> free_vars (fst s) < free_vars A else fst s = A) \<and> free_vars (fst s) \<le> free_vars A"

lemma free_size_assign:
  "\<lbrakk>free_size A ch s; i < length A; fst s ! i = None\<rbrakk> \<Longrightarrow> free_size A ch ((fst s)[i := Some b], True)"
  using free_vars_assign [of i "fst s" b] by (auto simp: free_size_def)

lemma assign_unit_size:
  assumes "free_size A ch s" "lit_var u - 1 < length A"
  shows "spec (assign_unit u s) (free_size A ch) True"
proof -
  obtain A' c where s: "s = (A', c)" by (cases s)
  show ?thesis
    unfolding assign_unit_def s prod.case Let_def
    using assms free_size_assign [OF assms(1,2)]
    by (auto simp: s intro!: spec_rules split: option.splits)
qed

lemma assign_pure_size:
  assumes "free_size A ch s" "i < length A"
  shows "spec (assign_pure (i, p, q) s) (free_size A ch) True"
proof -
  obtain A' c where s: "s = (A', c)" by (cases s)
  show ?thesis
    unfolding assign_pure_def s prod.case Let_def
    using assms free_size_assign [OF assms]
    by (auto simp: s intro!: spec_rules)
qed

lemma assign_pass_size:
  assumes p: "pass_ok n strict A cs0 p" and A: "length A = n"
  shows "spec (assign_pass opts A p) (free_size A (pa_changed p)) True"
proof -
  let ?c = "pa_changed p"
  have units: "lit_var u - 1 < length A" if "u \<in> set (pa_units p)" for u
    using p that A lit_ok_index by (fastforce simp: pass_ok_def tidy_def clause_ok_def)
  have len: "length (pa_polarity p) = n" using p by (simp add: pass_ok_def)
  have "spec (for_each assign_unit (pa_units p) (A, ?c)) ((\<lambda>_. free_size A ?c) ([] @ pa_units p)) True"
  proof (rule spec_for_each)
    show "free_size A ?c (A, ?c)" by (simp add: free_size_def)
  qed (use units assign_unit_size in blast)
  moreover have "spec (for_each assign_pure (enumerate 0 (pa_polarity p)) s)
      ((\<lambda>_. free_size A ?c) ([] @ enumerate 0 (pa_polarity p))) True" if "free_size A ?c s" for s
  proof (rule spec_for_each)
    fix x pre s assume x: "x \<in> set (enumerate 0 (pa_polarity p))" and inv: "free_size A ?c s"
    obtain i q r where "x = (i, q, r)" by (cases x) auto
    then show "spec (assign_pure x s) (free_size A ?c) True"
      using assign_pure_size [OF inv, of i q r] x len A by (simp add: mem_enumerate)
  qed (rule that)
  ultimately show ?thesis
    unfolding assign_pass_def
    by (auto intro!: spec_bnd [of _ "free_size A ?c"] intro: spec_ret)
qed

section \<open>The stages\<close>

text \<open>A stage that reports a change has removed cells and added no variable.\<close>

definition cut_stage :: "clause list \<Rightarrow> clause list \<times> bool \<Rightarrow> bool" where
  "cut_stage cs r \<longleftrightarrow> (if snd r then vars_of (fst r) \<subseteq> vars_of cs \<and> cells (fst r) < cells cs else fst r = cs)"

lemma cells_filter_le: "cells (map snd (filter P xs)) \<le> cells (map snd xs)"
  by (induction xs) auto

lemma cells_filter_less: "x \<in> set xs \<Longrightarrow> \<not> P x \<Longrightarrow> cells (map snd (filter P xs)) < cells (map snd xs)"
proof (induction xs)
  case (Cons y xs)
  then show ?case using cells_filter_le [of P xs] by (cases "x = y") (auto simp: less_Suc_eq_le)
qed simp

lemma keep_unremoved_cells:
  assumes "j < length cs" "removed ! j"
  shows "cells (keep_unremoved removed cs) < cells cs"
proof -
  have "(j, cs ! j) \<in> set (enumerate 0 cs)" using assms(1) by (simp add: mem_enumerate)
  then have "cells (map snd (filter (\<lambda>(i, c). \<not> removed ! i) (enumerate 0 cs))) < cells (map snd (enumerate 0 cs))"
    by (rule cells_filter_less) (simp add: assms(2))
  then show ?thesis by (simp add: keep_unremoved_def)
qed

definition removed_some :: "clause list \<Rightarrow> bool list \<times> bool \<Rightarrow> bool" where
  "removed_some cs s \<longleftrightarrow> length (fst s) = length cs \<and> (snd s \<longrightarrow> (\<exists>j < length cs. fst s ! j))"

lemma subsume_pair_some:
  assumes "removed_some cs s" "j < length cs"
  shows "spec (subsume_pair cs i j s) (removed_some cs) U"
proof -
  obtain removed ch where s: "s = (removed, ch)" by (cases s)
  have "removed_some cs (removed[j := True], True)"
    using assms by (auto simp: s removed_some_def intro!: exI [of _ j])
  then have "spec (bnd (sorted_subset (cs ! i) (cs ! j)) (\<lambda>sub.
         if sub then
           bnd (log_delete (cs ! j)) (\<lambda>_.
           bnd (count (\<lambda>st. st\<lparr>ps_subsumed_clauses := ps_subsumed_clauses st + 1\<rparr>)) (\<lambda>_.
           ret (removed[j := True], True)))
         else ret (removed, ch))) (removed_some cs) U"
    using assms(1) by (intro spec_bnd [OF sorted_subset_spec]) (simp add: s spec_log_delete spec_after_count spec_ret)
  then show ?thesis
    using assms(1) unfolding subsume_pair_def s prod.case by (simp add: spec_after_tick spec_ret)
qed

lemma remove_subsumed_cut: "spec (remove_subsumed_clauses cs) (cut_stage cs) U"
proof -
  let ?n = "length cs"
  let ?outer = "\<lambda>i s. if fst s ! i then ret s else for_each (subsume_pair cs i) [0..<?n] s"
  have outer: "spec (?outer i s) (removed_some cs) U" if "removed_some cs s" for i s
  proof -
    have "spec (for_each (subsume_pair cs i) [0..<?n] s) ((\<lambda>_. removed_some cs) ([] @ [0..<?n])) U"
      by (rule spec_for_each) (use that subsume_pair_some in auto)
    then show ?thesis using that by (simp add: spec_ret)
  qed
  have loop: "spec (for_each ?outer [0..<?n] (replicate ?n False, False)) ((\<lambda>_. removed_some cs) ([] @ [0..<?n])) U"
  proof (rule spec_for_each)
    show "removed_some cs (replicate ?n False, False)" by (simp add: removed_some_def)
  qed (rule outer)
  show ?thesis
    unfolding remove_subsumed_clauses_def
  proof (rule spec_own_work, rule spec_bnd [OF loop])
    fix s assume s: "removed_some cs s"
    obtain removed ch where sr: "s = (removed, ch)" by (cases s)
    have "set (keep_unremoved removed cs) \<subseteq> set cs"
      using s keep_unremoved_set [of removed cs] by (auto simp: sr removed_some_def)
    then have "cut_stage cs (if ch then keep_unremoved removed cs else cs, ch)"
      using s keep_unremoved_cells [of _ cs removed] vars_of_mono by (auto simp: cut_stage_def sr removed_some_def)
    then show "spec (case s of (removed, changed) \<Rightarrow>
        ret (if changed then keep_unremoved removed cs else cs, changed)) (cut_stage cs) U"
      by (simp add: sr spec_ret)
  qed
qed

lemma cells_update: "j < length cs \<Longrightarrow> length d < length (cs ! j) \<Longrightarrow> cells (cs[j := d]) < cells cs"
  by (induction cs arbitrary: j) (auto split: nat.splits)

lemma strengthen_cut:
  assumes "strengthens cs (j, lit)"
  shows "vars_of (cs[j := filter (\<lambda>l. l \<noteq> neg_lit lit) (cs ! j)]) \<subseteq> vars_of cs"
    and "cells (cs[j := filter (\<lambda>l. l \<noteq> neg_lit lit) (cs ! j)]) < cells cs"
    and "literal_count (cs[j := filter (\<lambda>l. l \<noteq> neg_lit lit) (cs ! j)]) < literal_count cs"
proof -
  let ?new = "filter (\<lambda>l. l \<noteq> neg_lit lit) (cs ! j)"
  have j: "j < length cs" and lit: "neg_lit lit \<in> set (cs ! j)" using assms by (auto simp: strengthens_def)
  have shorter: "length ?new < length (cs ! j)" using lit by (intro length_filter_less) auto
  have sub: "set c \<subseteq> (\<Union>d \<in> set cs. set d)" if "c \<in> set (cs[j := ?new])" for c
  proof -
    have "c = ?new \<or> c \<in> set cs" using that set_update_subset_insert [of cs j ?new] by auto
    moreover have "set ?new \<subseteq> set (cs ! j)" by auto
    ultimately show ?thesis using nth_mem [OF j] by blast
  qed
  then show "vars_of (cs[j := ?new]) \<subseteq> vars_of cs" unfolding vars_of_def by blast
  show "cells (cs[j := ?new]) < cells cs" using cells_update [OF j shorter] .
  have "cells ds = literal_count ds + length ds" for ds by (induction ds) (auto simp: literal_count_def)
  then show "literal_count (cs[j := ?new]) < literal_count cs"
    using cells_update [OF j shorter] by simp
qed

lemma self_subsume_loop_cut:
  "(if changed then vars_of cs \<subseteq> vars_of cs0 \<and> cells cs < cells cs0 else cs = cs0) \<Longrightarrow>
     spec (self_subsume_loop k cs changed) (cut_stage cs0) U"
proof (induction k arbitrary: cs changed)
  case 0
  then show ?case by (simp add: spec_ret cut_stage_def)
next
  case (Suc k)
  show ?case
    unfolding self_subsume_loop.simps
  proof (rule spec_bnd [OF strengthen_scan_spec])
    fix r :: "(unit, nat \<times> int) loop"
    assume r: "case r of Go _ \<Rightarrow> True | Stop jl \<Rightarrow> strengthens cs jl"
    show "spec (case r of Go _ \<Rightarrow> ret (cs, changed)
        | Stop jl \<Rightarrow> bnd (strengthen cs jl) (\<lambda>cs'. self_subsume_loop k cs' True)) (cut_stage cs0) U"
    proof (cases r)
      case (Go u)
      then show ?thesis using Suc.prems by (simp add: spec_ret cut_stage_def)
    next
      case (Stop jl)
      obtain j lit where jl: "jl = (j, lit)" by (cases jl)
      note sc = strengthen_cut [OF r [unfolded Stop jl loop.case]]
      let ?ds = "cs[j := filter (\<lambda>l. l \<noteq> neg_lit lit) (cs ! j)]"
      have "spec (strengthen cs jl) (\<lambda>cs'. cs' = ?ds) U"
        unfolding strengthen_def jl prod.case Let_def by (intro spec_rules) simp
      moreover have "spec (self_subsume_loop k ?ds True) (cut_stage cs0) U"
        using Suc.prems sc(1,2) by (intro Suc.IH) (auto split: if_splits)
      ultimately show ?thesis unfolding Stop loop.case by (auto intro: spec_bnd)
    qed
  qed
qed

lemma self_subsume_cut: "spec (self_subsume_clauses cs) (cut_stage cs) U"
  unfolding self_subsume_clauses_def by (rule spec_own_work, rule self_subsume_loop_cut) simp

text \<open>Any fuel above the number of literals gives the same scans.\<close>

lemma bnd_cong_spec: "spec m Q True \<Longrightarrow> (\<And>x. Q x \<Longrightarrow> f x = g x) \<Longrightarrow> bnd m f = bnd m g"
  by (rule ext) (auto simp: bnd_def dest: spec_result split: prod.splits result.splits)

lemma self_subsume_fuel:
  "\<lbrakk>literal_count cs < k; literal_count cs < k'\<rbrakk> \<Longrightarrow> self_subsume_loop k cs ch = self_subsume_loop k' cs ch"
proof (induction k arbitrary: k' cs ch)
  case (Suc k)
  then obtain m where k': "k' = Suc m" by (cases k') auto
  show ?case
    unfolding k' self_subsume_loop.simps
  proof (rule bnd_cong_spec [OF strengthen_scan_spec])
    fix r :: "(unit, nat \<times> int) loop"
    assume r: "case r of Go _ \<Rightarrow> True | Stop jl \<Rightarrow> strengthens cs jl"
    show "(case r of Go _ \<Rightarrow> ret (cs, ch) | Stop jl \<Rightarrow> bnd (strengthen cs jl) (\<lambda>cs'. self_subsume_loop k cs' True)) =
        (case r of Go _ \<Rightarrow> ret (cs, ch) | Stop jl \<Rightarrow> bnd (strengthen cs jl) (\<lambda>cs'. self_subsume_loop m cs' True))"
    proof (cases r)
      case (Stop jl)
      obtain j lit where jl: "jl = (j, lit)" by (cases jl)
      let ?ds = "cs[j := filter (\<lambda>l. l \<noteq> neg_lit lit) (cs ! j)]"
      have "literal_count ?ds < literal_count cs" using strengthen_cut(3) r unfolding Stop jl loop.case by blast
      then have "self_subsume_loop k ?ds True = self_subsume_loop m ?ds True"
        using Suc.prems k' by (intro Suc.IH) simp_all
      moreover have "spec (strengthen cs jl) (\<lambda>cs'. cs' = ?ds) True"
        unfolding strengthen_def jl prod.case Let_def by (intro spec_rules) simp
      ultimately show ?thesis unfolding Stop loop.case by (auto intro: bnd_cong_spec)
    qed simp
  qed
qed simp

text \<open>Elimination takes the variable out of every clause.\<close>

lemma drops_var_vars:
  assumes "drops_var cs ds"
  shows "vars_of ds \<subset> vars_of cs"
proof -
  obtain v where v: "\<exists>c \<in> set cs. v \<in> set c"
    and lits: "\<forall>c \<in> set ds. \<forall>l \<in> set c. \<bar>l\<bar> \<noteq> \<bar>v\<bar> \<and> (\<exists>d \<in> set cs. l \<in> set d)"
    using assms by (auto simp: drops_var_def)
  have "lit_var v \<in> vars_of cs" using v by (auto simp: vars_of_def)
  moreover have "lit_var v \<notin> vars_of ds" using lits by (fastforce simp: vars_of_def lit_var_def)
  moreover have "vars_of ds \<subseteq> vars_of cs" using lits unfolding vars_of_def by blast
  ultimately show ?thesis by blast
qed

lemma resolvent_is_tautological_total: "spec (resolvent_is_tautological c b d) (\<lambda>_. True) U"
  by (rule spec_mono [OF resolvent_is_tautological_spec]) simp

lemma clause_is_blocked_total: "spec (clause_is_blocked cs k b) (\<lambda>_. True) U"
  unfolding clause_is_blocked_def
proof (rule spec_bnd [where R = "\<lambda>_. True"])
  let ?f = "\<lambda>(i, other) s. bnd tick (\<lambda>_. if i \<noteq> k \<and> contains_lit other (neg_lit b)
      then bnd (resolvent_is_tautological (cs ! k) b other) (\<lambda>taut. if \<not> taut then ret (Stop ()) else ret (Go s))
      else ret (Go s))"
  have "spec (?f x s) (\<lambda>r. case r of Go _ \<Rightarrow> True | Stop _ \<Rightarrow> True) U" for x and s :: unit
  proof (cases x)
    case (Pair i other)
    have "spec (bnd (resolvent_is_tautological (cs ! k) b other)
        (\<lambda>taut. if \<not> taut then ret (Stop ()) else ret (Go s))) (\<lambda>r. case r of Go _ \<Rightarrow> True | Stop _ \<Rightarrow> True) U"
      by (rule spec_bnd [OF resolvent_is_tautological_total]) (auto intro: spec_ret)
    then show ?thesis unfolding Pair prod.case by (auto intro!: spec_after_tick intro: spec_ret)
  qed
  then have "spec (for_until ?f (enumerate 0 cs) ())
      (\<lambda>r. case r of Go s \<Rightarrow> (\<lambda>_ _. True) ([] @ enumerate 0 cs) s | Stop _ \<Rightarrow> True) U"
    by (intro spec_for_until) auto
  then show "spec (for_until ?f (enumerate 0 cs) ()) (\<lambda>_. True) U" by (rule spec_mono) simp
qed (rule spec_ret, simp)

lemma remove_blocked_cut:
  "spec (remove_blocked_clause cs) (\<lambda>r. case r of Go _ \<Rightarrow> True
     | Stop (cs', _) \<Rightarrow> vars_of cs' \<subseteq> vars_of cs \<and> cells cs' < cells cs) U"
proof -
  let ?Q = "\<lambda>(cs', _ :: recon_step). vars_of cs' \<subseteq> vars_of cs \<and> cells cs' < cells cs"
  let ?R = "\<lambda>r :: (unit, clause list \<times> recon_step) loop. case r of Go _ \<Rightarrow> True | Stop y \<Rightarrow> ?Q y"
  let ?lit = "\<lambda>k lit s. bnd tick (\<lambda>_. bnd (clause_is_blocked cs k lit) (\<lambda>blocked.
      if blocked then bnd (log_delete (cs ! k)) (\<lambda>_.
        bnd (count (\<lambda>st. st\<lparr>ps_blocked_clauses := ps_blocked_clauses st + 1\<rparr>)) (\<lambda>_.
        ret (Stop (take k cs @ drop (Suc k) cs, BlockedClause (cs ! k) lit))))
      else ret (Go s)))"
  have cut: "?Q (take k cs @ drop (Suc k) cs, b)" if "k < length cs" for k b
  proof -
    have "cells cs = cells (take k cs) + cells (cs ! k # drop (Suc k) cs)"
      using that by (metis cells_append id_take_nth_drop)
    moreover have "set (take k cs @ drop (Suc k) cs) \<subseteq> set cs"
      by (auto dest: in_set_takeD in_set_dropD)
    ultimately show ?thesis using vars_of_mono by auto
  qed
  have lit: "spec (?lit k b s) ?R U" if "k < length cs" for k b and s :: unit
  proof (rule spec_after_tick, rule spec_bnd [OF clause_is_blocked_total])
    fix blocked
    show "spec (if blocked then bnd (log_delete (cs ! k)) (\<lambda>_.
        bnd (count (\<lambda>st. st\<lparr>ps_blocked_clauses := ps_blocked_clauses st + 1\<rparr>)) (\<lambda>_.
        ret (Stop (take k cs @ drop (Suc k) cs, BlockedClause (cs ! k) b))))
      else ret (Go s)) ?R U"
      using cut [OF that] by (cases blocked) (auto intro!: spec_rules)
  qed
  have body: "spec (bnd tick (\<lambda>_. for_until (?lit k) (cs ! k) s)) ?R U" if "k < length cs" for k and s :: unit
  proof (rule spec_after_tick)
    show "spec (for_until (?lit k) (cs ! k) s) ?R U"
      using spec_for_until [of "cs ! k" "\<lambda>_ _. True" "?lit k" ?Q U "[]" s] lit that by simp
  qed
  show ?thesis
    unfolding remove_blocked_clause_def
    using spec_for_until [of "[0..<length cs]" "\<lambda>_ _. True" "\<lambda>k s. bnd tick (\<lambda>_. for_until (?lit k) (cs ! k) s)"
        ?Q U "[]" "()"] body
    by (intro spec_own_work) simp
qed

section \<open>A round that changes something\<close>

definition lightens :: "bool option list \<Rightarrow> clause list \<Rightarrow> pp_state \<times> bool \<Rightarrow> bool" where
  "lightens A cs s \<longleftrightarrow>
     (if snd s then lighter (pp_assigned (fst s)) (pp_clauses (fst s)) A cs
      else pp_assigned (fst s) = A \<and> vars_of (pp_clauses (fst s)) \<subseteq> vars_of cs \<and> cells (pp_clauses (fst s)) \<le> cells cs)"

abbreviation lightens_from :: "pp_state \<Rightarrow> pp_state \<times> bool \<Rightarrow> bool" where
  "lightens_from st \<equiv> lightens (pp_assigned st) (pp_clauses st)"

lemma lightens_trans:
  assumes "lightens A cs (st, False)" "lightens_from st s"
  shows "lightens A cs s"
  using assms lighter_after [of _ _ A "pp_clauses st" cs] by (auto simp: lightens_def split: if_splits)

lemma on_clauses_lightens:
  "spec (f (pp_clauses st)) (cut_stage (pp_clauses st)) U \<Longrightarrow> spec (on_clauses f st) (lightens_from st) U"
  unfolding on_clauses_def
  by (erule spec_bnd) (auto simp: lightens_def cut_stage_def lighter_cells split: if_splits intro!: spec_ret)

lemma on_recon_lightens:
  "spec m (\<lambda>r. case r of Go _ \<Rightarrow> True
     | Stop (cs', _) \<Rightarrow> lighter (pp_assigned st) cs' (pp_assigned st) (pp_clauses st)) U \<Longrightarrow>
   spec (on_recon m st) (lightens_from st) U"
  unfolding on_recon_def
  by (erule spec_bnd) (auto simp: lightens_def split: loop.splits intro!: spec_ret)

lemma eliminate_lightens:
  assumes m: "mid_ok F True (st, False)"
  shows "spec (eliminate_on (c_vars F) st) (lightens_from st) (refutable F)"
proof -
  have "tidy (c_vars F) True (pp_clauses st)" using m by (simp add: mid_ok_def)
  then show ?thesis
    unfolding eliminate_on_def using mid_models [OF m]
    by (intro on_recon_lightens spec_mono [OF eliminate_bounded_spec])
      (auto split: loop.splits simp: lighter_vars drops_var_vars)
qed

lemma block_lightens: "spec (block_on st) (lightens_from st) U"
  unfolding block_on_def
  by (intro on_recon_lightens spec_mono [OF remove_blocked_cut]) (auto split: loop.splits intro: lighter_cells)

definition round_ok :: "cnf \<Rightarrow> bool option list \<Rightarrow> clause list \<Rightarrow> pp_state \<times> bool \<Rightarrow> bool" where
  "round_ok F A cs s \<longleftrightarrow> mid_ok F True s \<and> lightens A cs s"

lemma stage_round_ok:
  assumes s: "round_ok F A cs s"
    and mid: "\<And>st. mid_ok F True (st, False) \<Longrightarrow> spec (f st) (mid_ok F True) U"
    and cut: "\<And>st. mid_ok F True (st, False) \<Longrightarrow> spec (f st) (lightens_from st) U"
  shows "spec (run_stage enabled f s) (round_ok F A cs) U"
proof (cases "\<not> snd s \<and> enabled")
  case True
  obtain st where st: "s = (st, False)" using True by (cases s) auto
  have m: "mid_ok F True (st, False)" and l: "lightens A cs (st, False)" using s by (simp_all add: st round_ok_def)
  have "spec (f st) (\<lambda>x. mid_ok F True x \<and> lightens_from st x) U"
    using spec_conj [OF mid [OF m] cut [OF m]] by simp
  then have "spec (f st) (round_ok F A cs) U"
    by (rule spec_mono) (use lightens_trans [OF l] in \<open>simp add: round_ok_def\<close>)
  then show ?thesis using True by (simp add: run_stage_def st)
next
  case False
  then show ?thesis unfolding run_stage_def if_not_P [OF False] using s by (intro spec_ret)
qed

lemma stages_round_ok:
  assumes s: "round_ok F A cs s"
  shows "spec (stages opts (c_vars F) s) (round_ok F A cs) (refutable F)"
proof -
  let ?U = "refutable F" and ?M = "round_ok F A cs"
  have sub: "spec (run_stage (subsumption opts) (on_clauses remove_subsumed_clauses) s) ?M ?U"
    by (rule stage_round_ok [OF s]) (blast intro: subsume_mid on_clauses_lightens remove_subsumed_cut)+
  have self: "spec (run_stage (self_subsuming_resolution opts) (on_clauses self_subsume_clauses) s) ?M ?U" if "?M s" for s
    by (rule stage_round_ok [OF that]) (blast intro: self_subsume_mid on_clauses_lightens self_subsume_cut)+
  have elim: "spec (run_stage (bounded_variable_elimination opts) (eliminate_on (c_vars F)) s) ?M ?U" if "?M s" for s
    by (rule stage_round_ok [OF that]) (blast intro: eliminate_mid eliminate_lightens)+
  have block: "spec (run_stage (blocked_clause_elimination opts) block_on s) ?M ?U" if "?M s" for s
    by (rule stage_round_ok [OF that]) (blast intro: block_mid block_lightens)+
  show ?thesis
    unfolding stages_alt by (intro spec_bnd [OF sub] spec_bnd [OF self] spec_bnd [OF elim] block)
qed

lemma lightens_assign:
  assumes p: "pass_size cs p" and f: "free_size A (pa_changed p) (A', ch)"
    and r: "assigned_ok n A p (A', ch)"
  shows "lightens A cs (st\<lparr>pp_clauses := pa_simplified p, pp_assigned := A'\<rparr>, ch)"
proof (cases "ch \<and> \<not> free_vars A' < free_vars A")
  case True
  then have "pa_changed p" "free_vars A' = free_vars A" using f by (auto simp: free_size_def)
  moreover have "vars_of (pa_simplified p) \<subseteq> vars_of cs" "cells (pa_simplified p) < cells cs"
    using p \<open>pa_changed p\<close> by (auto simp: pass_size_def)
  ultimately have "lighter A' (pa_simplified p) A cs"
    using card_mono [of "vars_of cs" "vars_of (pa_simplified p)"] by (auto simp: lighter_def weight_def)
  then show ?thesis using True by (simp add: lightens_def)
next
  case False
  then show ?thesis
    using p r lighter_free [of A' A "pa_simplified p" cs]
    by (auto simp: lightens_def pass_size_def assigned_ok_def)
qed

lemma round_step_round_ok:
  assumes g: "good F st" and sh: "shape F st" and b: "basic_simplification opts"
  shows "spec (round_step opts (c_vars F) st) (round_ok F (pp_assigned st) (pp_clauses st)) (refutable F)"
  unfolding round_step_def
proof (intro spec_after_load spec_after_count,
    rule spec_bnd [OF spec_conj_true [OF round_passes(1) [OF g sh] simplify_pass_size]])
  let ?n = "c_vars F" and ?A = "pp_assigned st" and ?cs = "pp_clauses st"
  fix p assume p: "pass_ok ?n (basic_simplification opts) ?A ?cs p \<and> pass_size ?cs p"
  then have ok: "pass_ok ?n True ?A ?cs p" and sz: "pass_size ?cs p" using b by simp_all
  have A: "length ?A = ?n" using sh by (simp add: shape_def)
  show "spec (bnd (assign_pass opts ?A p) (\<lambda>(assigned, changed).
      stages opts ?n (st\<lparr>pp_clauses := pa_simplified p, pp_assigned := assigned\<rparr>, changed)))
      (round_ok F ?A ?cs) (refutable F)"
  proof (rule spec_bnd [OF spec_conj_true [OF round_passes(2) [OF g sh ok] assign_pass_size [OF ok A]]])
    fix r assume r: "assigned_ok ?n ?A p r \<and> free_size ?A (pa_changed p) r"
    obtain A' ch where rr: "r = (A', ch)" by (cases r)
    have "round_ok F ?A ?cs (st\<lparr>pp_clauses := pa_simplified p, pp_assigned := A'\<rparr>, ch)"
      using assigned_mid [OF g ok] lightens_assign [OF sz] r unfolding rr round_ok_def by blast
    then show "spec (case r of (assigned, changed) \<Rightarrow>
        stages opts ?n (st\<lparr>pp_clauses := pa_simplified p, pp_assigned := assigned\<rparr>, changed))
        (round_ok F ?A ?cs) (refutable F)"
      using stages_round_ok by (simp add: rr)
  qed
qed

section \<open>The loop\<close>

lemma main_loop_total:
  assumes "good F st" "shape F st" "basic_simplification opts"
  shows "\<exists>r. main_loop opts (c_vars F) st e = Some r"
  using assms
proof (induction "weight (pp_assigned st) (pp_clauses st)" arbitrary: st e
    rule: wf_induct_rule [OF wf_lex_prod [OF wf_less_than wf_less_than]])
  case 1
  note sp = round_step_round_ok [OF 1(2,3,4)]
  obtain x e' where rs: "round_step opts (c_vars F) st e = (x, e')" by fastforce
  show ?case
  proof (cases x)
    case (Err k)
    then show ?thesis using rs by (simp add: main_loop.simps [of opts _ st])
  next
    case (Ok sc)
    obtain st' ch where sc: "sc = (st', ch)" by (cases sc)
    have ok: "round_ok F (pp_assigned st) (pp_clauses st) (st', ch)" using spec_result [OF sp] rs Ok sc by blast
    show ?thesis
    proof (cases ch)
      case False
      then show ?thesis using rs Ok sc by (simp add: main_loop.simps [of opts _ st])
    next
      case True
      have mid: "mid_ok F True (st', ch)" using ok by (simp add: round_ok_def)
      have "(weight (pp_assigned st') (pp_clauses st'), weight (pp_assigned st) (pp_clauses st))
          \<in> less_than <*lex*> less_than"
        using ok True by (simp add: round_ok_def lightens_def lighter_def)
      from 1(1) [OF this, of e'] have "\<exists>r. main_loop opts (c_vars F) st' e' = Some r"
        using mid_shape [OF mid] 1(4) by simp
      then show ?thesis using rs Ok sc True by (simp add: main_loop.simps [of opts _ st])
    qed
  qed
qed

lemma preprocess_inner_total:
  assumes ok: "cnf_ok F" and b: "basic_simplification opts"
  shows "\<exists>r. preprocess_cnf_inner F opts e = Some r"
proof -
  obtain r e' where c: "copy_clauses (c_clauses F) e = (r, e')" by fastforce
  show ?thesis
  proof (cases r)
    case (Ok cs)
    then have "cs = c_clauses F" using spec_result [OF copy_clauses_spec] c by blast
    then show ?thesis
      using c Ok main_loop_total [OF initial_good [OF ok] b] by (simp add: preprocess_cnf_inner_def)
  qed (simp add: preprocess_cnf_inner_def c)
qed

end
