(* ===== verification/SatSteady.thy ===== *)
theory SatSteady imports SatPreprocess begin

text \<open>
  What does not depend on the environment of a preprocessing run: as long as the stop flag
  stays down it is not interrupted, and writing a proof log changes neither the result nor
  the statistics. Both are properties of the control structure, so both are carried through
  the routines together.
\<close>

section \<open>The two properties\<close>

text \<open>\<open>steady m\<close>: never interrupted by a flag that stays down, and blind to the proof log.\<close>

definition no_log :: "env \<Rightarrow> env" where
  "no_log e = e\<lparr>e_log := None\<rparr>"

definition unlogged :: "'a prog \<Rightarrow> bool" where
  "unlogged m \<longleftrightarrow> (\<forall>e. m (no_log e) = map_prod id no_log (m e))"

definition steady :: "'a prog \<Rightarrow> bool" where
  "steady m \<longleftrightarrow> quiet m \<and> unlogged m"

named_theorems steady_rules \<open>introduction rules for \<open>steady\<close>\<close>

lemma no_log_simps [simp]:
  "e_work (no_log e) = e_work e" "e_loads (no_log e) = e_loads e" "e_stats (no_log e) = e_stats e"
  "e_log (no_log e) = None" "no_log (no_log e) = no_log e"
  by (simp_all add: no_log_def)

lemma no_log_update [simp]:
  "(no_log e)\<lparr>e_work := w\<rparr> = no_log (e\<lparr>e_work := w\<rparr>)"
  "(no_log e)\<lparr>e_loads := bs\<rparr> = no_log (e\<lparr>e_loads := bs\<rparr>)"
  "(no_log e)\<lparr>e_stats := st\<rparr> = no_log (e\<lparr>e_stats := st\<rparr>)"
  "no_log (e\<lparr>e_log := l\<rparr>) = no_log e" "(no_log e)\<lparr>e_log := None\<rparr> = no_log e"
  by (simp_all add: no_log_def)

lemma unlogged_load_stop: "unlogged load_stop"
  by (simp add: unlogged_def load_stop_def split: list.splits)

lemma unlogged_tick: "unlogged tick"
  using unlogged_load_stop by (simp add: unlogged_def tick_def Let_def)

lemma unlogged_bnd:
  assumes m: "unlogged m" and f: "\<And>x. unlogged (f x)"
  shows "unlogged (bnd m f)"
  unfolding unlogged_def
proof
  fix e
  obtain r e' where r: "m e = (r, e')" by fastforce
  then have "m (no_log e) = (r, no_log e')" using m by (simp add: unlogged_def)
  then show "bnd m f (no_log e) = map_prod id no_log (bnd m f e)"
    using r f by (cases r) (simp_all add: bnd_def unlogged_def)
qed

lemma steady_ret [steady_rules]: "steady (ret x)"
  using quiet_ret [of x] by (simp add: steady_def unlogged_def ret_def)

lemma steady_unsat [steady_rules]: "steady (leave Unsat)"
  using quiet_unsat by (simp add: steady_def unlogged_def leave_def)

lemma steady_panic [steady_rules]: "steady (leave Panicked)"
  using quiet_panic by (simp add: steady_def unlogged_def leave_def)

lemma steady_load_stop [steady_rules]: "steady load_stop"
  by (simp add: steady_def quiet_rules unlogged_load_stop)

lemma steady_tick [steady_rules]: "steady tick"
  by (simp add: steady_def quiet_rules unlogged_tick)

lemma steady_count [steady_rules]: "steady (count f)"
  by (simp add: steady_def quiet_rules) (simp add: unlogged_def count_def)

lemma steady_bnd [steady_rules]: "steady m \<Longrightarrow> (\<And>x. steady (f x)) \<Longrightarrow> steady (bnd m f)"
  by (simp add: steady_def quiet_bnd unlogged_bnd)

lemma steady_own_work [steady_rules]: "steady m \<Longrightarrow> steady (own_work m)"
  by (simp add: steady_def quiet_own_work) (simp add: unlogged_def own_work_def case_prod_unfold)

lemma steady_for_each [steady_rules]: "(\<And>x s. steady (f x s)) \<Longrightarrow> steady (for_each f xs s)"
  by (induction xs arbitrary: s) (auto intro: steady_rules)

lemma steady_for_until [steady_rules]: "(\<And>x s. steady (f x s)) \<Longrightarrow> steady (for_until f xs s)"
  by (induction xs arbitrary: s) (auto intro!: steady_rules split: loop.splits)

lemma steady_log_add [steady_rules]: "steady (log_add c)"
  by (simp add: steady_def quiet_def unlogged_def log_add_def)

lemma steady_log_delete [steady_rules]: "steady (log_delete c)"
  by (simp add: steady_def quiet_def unlogged_def log_delete_def)

text \<open>Logging that runs only when there is a log must do nothing else.\<close>

definition log_only :: "unit prog \<Rightarrow> bool" where
  "log_only m \<longleftrightarrow> (\<forall>e. \<exists>l. m e = (Ok (), e\<lparr>e_log := l\<rparr>))"

lemma log_onlyI: "(\<And>e. m e = (Ok (), e\<lparr>e_log := f e\<rparr>)) \<Longrightarrow> log_only m"
  by (auto simp: log_only_def)

lemma log_only_ret [steady_rules]: "log_only (ret ())"
  by (rule log_onlyI [where f = e_log]) (simp add: ret_def)

lemma log_only_replace [steady_rules]: "log_only (bnd (log_add c) (\<lambda>_. log_delete d))"
  by (rule log_onlyI [where f = "\<lambda>e. map_option (\<lambda>l. l @ [AddStep (canonical_clause c), DeleteStep (canonical_clause d)]) (e_log e)"])
    (simp add: bnd_def log_add_def log_delete_def option.map_comp comp_def)

lemma steady_when_logging [steady_rules]:
  assumes "log_only m"
  shows "steady (when_logging m)"
proof -
  obtain f where f: "\<And>e. m e = (Ok (), e\<lparr>e_log := f e\<rparr>)" using assms unfolding log_only_def by metis
  have w: "when_logging m e = (Ok (), if e_log e \<noteq> None then e\<lparr>e_log := f e\<rparr> else e)" for e
    by (simp add: when_logging_def f)
  show ?thesis unfolding steady_def quiet_def unlogged_def w by simp
qed

section \<open>The routines\<close>

lemma steady_simplify_lit [steady_rules]: "steady (simplify_lit opts n A c l s)"
  unfolding simplify_lit_def Let_def
  by (auto intro!: steady_rules split: prod.splits option.splits)

lemma steady_simplify_clause [steady_rules]: "steady (simplify_clause opts n A c p)"
  unfolding simplify_clause_def Let_def
  by (auto intro!: steady_rules split: loop.splits)

lemma steady_simplify_pass [steady_rules]: "steady (simplify_pass opts n st)"
  unfolding simplify_pass_def by (intro steady_rules)

lemma steady_assign_unit [steady_rules]: "steady (assign_unit u s)"
  unfolding assign_unit_def Let_def by (auto intro!: steady_rules split: prod.splits option.splits)

lemma steady_assign_pure [steady_rules]: "steady (assign_pure ip s)"
  unfolding assign_pure_def Let_def by (auto intro!: steady_rules split: prod.splits)

lemma steady_assign_pass [steady_rules]: "steady (assign_pass opts A p)"
  unfolding assign_pass_def by (auto intro!: steady_rules split: prod.splits)

lemma steady_sorted_subset [steady_rules]: "steady (sorted_subset a b)"
  by (induction a b rule: sorted_subset.induct) (auto intro!: steady_rules)

lemma steady_remove_subsumed [steady_rules]: "steady (remove_subsumed_clauses cs)"
  unfolding remove_subsumed_clauses_def subsume_pair_def by (auto intro!: steady_rules split: prod.splits)

lemma steady_subsumes_without [steady_rules]: "steady (subsumes_without c l d)"
  unfolding subsumes_without_def by (auto intro!: steady_rules)

lemma steady_strengthen_scan [steady_rules]: "steady (strengthen_scan cs)"
  unfolding strengthen_scan_def by (auto intro!: steady_rules)

lemma steady_strengthen [steady_rules]: "steady (strengthen cs jl)"
  unfolding strengthen_def Let_def by (auto intro!: steady_rules split: prod.splits)

lemma steady_self_subsume_loop [steady_rules]: "steady (self_subsume_loop k cs ch)"
  by (induction k arbitrary: cs ch) (auto intro!: steady_rules split: loop.splits)

lemma steady_self_subsume [steady_rules]: "steady (self_subsume_clauses cs)"
  unfolding self_subsume_clauses_def by (intro steady_rules)

lemma steady_resolve_on_var [steady_rules]: "steady (resolve_on_var c v d)"
  unfolding resolve_on_var_def resolve_side_def
  by (auto intro!: steady_rules split: loop.splits prod.splits)

lemma steady_occurrences [steady_rules]: "steady (occurrences v cs)"
  unfolding occurrences_def by (auto intro!: steady_rules split: prod.splits)

lemma steady_resolve_pair [steady_rules]: "steady (resolve_pair cs v k p q rs)"
  unfolding resolve_pair_def by (auto intro!: steady_rules split: option.splits)

lemma steady_resolve_all [steady_rules]: "steady (resolve_all cs v k ps qs)"
  unfolding resolve_all_def by (intro steady_rules)

lemma steady_drop_indices [steady_rules]: "steady (drop_indices is cs)"
  unfolding drop_indices_def by (auto intro!: steady_rules split: prod.splits)

lemma steady_log_all [steady_rules]: "(\<And>c. steady (f c)) \<Longrightarrow> steady (log_all f cs)"
  unfolding log_all_def by (auto intro!: steady_rules)

lemma steady_eliminate_var [steady_rules]: "steady (eliminate_var A cs v s)"
  unfolding eliminate_var_def Let_def by (auto intro!: steady_rules split: prod.splits)

lemma steady_eliminate [steady_rules]: "steady (eliminate_bounded_variable cs n A)"
  unfolding eliminate_bounded_variable_def by (intro steady_rules)

lemma steady_clause_is_blocked [steady_rules]: "steady (clause_is_blocked cs k l)"
  unfolding clause_is_blocked_def resolvent_is_tautological_def
  by (auto intro!: steady_rules split: prod.splits)

lemma steady_remove_blocked [steady_rules]: "steady (remove_blocked_clause cs)"
  unfolding remove_blocked_clause_def by (auto intro!: steady_rules)

lemma steady_stage: "(\<And>st. steady (f st)) \<Longrightarrow> steady (run_stage enabled f s)"
  by (simp add: run_stage_def steady_ret)

lemma steady_on_clauses [steady_rules]: "(\<And>cs. steady (f cs)) \<Longrightarrow> steady (on_clauses f st)"
  unfolding on_clauses_def by (auto intro!: steady_rules split: prod.splits)

lemma steady_on_recon [steady_rules]: "steady m \<Longrightarrow> steady (on_recon m st)"
  unfolding on_recon_def by (auto intro!: steady_rules split: loop.splits)

lemma steady_stages [steady_rules]: "steady (stages opts n s)"
  unfolding stages_def by (intro steady_rules steady_stage)

lemma steady_round_step [steady_rules]: "steady (round_step opts n st)"
  unfolding round_step_def by (auto intro!: steady_rules split: prod.splits)

lemma steady_finish [steady_rules]: "steady (finish n st)"
  unfolding finish_def assigned_units_def Let_def by (auto intro!: steady_rules split: prod.splits)

lemma steady_copy [steady_rules]: "steady (copy_clauses cs)"
  unfolding copy_clauses_def by (intro steady_rules)

section \<open>The loop\<close>

lemma steady_no_log: "steady m \<Longrightarrow> m e = (r, e') \<Longrightarrow> m (no_log e) = (r, no_log e')"
  by (simp add: steady_def unlogged_def)

lemma steady_no_log_rev:
  "steady m \<Longrightarrow> m (no_log e) = (r, e') \<Longrightarrow> \<exists>e''. m e = (r, e'') \<and> e' = no_log e''"
  unfolding steady_def unlogged_def
  by (cases "m e") (elim conjE allE [of _ e], simp only: map_prod_simp id_apply prod.inject, blast)

lemma steady_quiet: "steady m \<Longrightarrow> m e = (r, e') \<Longrightarrow> e_loads e = [] \<Longrightarrow> r \<noteq> Err Interrupted \<and> e_loads e' = []"
  unfolding steady_def quiet_def by (elim conjE allE [of _ e]) simp

lemma main_loop_quiet:
  "main_loop opts n st e = Some re \<Longrightarrow> e_loads e = [] \<Longrightarrow> fst re \<noteq> Err Interrupted"
proof (induction rule: main_loop_induct)
  case (stop st e k e')
  show ?case using steady_quiet [OF steady_round_step stop] by simp
next
  case (last_round st e st' e')
  obtain r e2 where fin: "finish n st' e' = (r, e2)" by (rule prod.exhaust)
  have "e_loads e' = []" using steady_quiet [OF steady_round_step last_round] by (rule conjunct2)
  from steady_quiet [OF steady_finish fin this] show ?case unfolding fin fst_conv by (rule conjunct1)
next
  case (again st e st' e' re)
  have "e_loads e' = []" using steady_quiet [OF steady_round_step again(1,4)] by (rule conjunct2)
  then show ?case by (rule again(3))
qed

lemma main_loop_no_log:
  "main_loop opts n st e = Some re \<Longrightarrow> main_loop opts n st (no_log e) = Some (fst re, no_log (snd re))"
proof (induction rule: main_loop_induct)
  case (stop st e k e')
  then show ?case
    using steady_no_log [OF steady_round_step stop(1)] by (simp add: main_loop.simps [of opts n st "no_log e"])
next
  case (last_round st e st' e')
  obtain r e2 where fin: "finish n st' e' = (r, e2)" by fastforce
  then have "finish n st' (no_log e') = (r, no_log e2)" by (rule steady_no_log [OF steady_finish])
  then show ?case
    using steady_no_log [OF steady_round_step last_round(1)] fin by (simp add: main_loop.simps [of opts n st "no_log e"])
next
  case (again st e st' e' re)
  then show ?case
    using steady_no_log [OF steady_round_step again(1)] by (simp add: main_loop.simps [of opts n st "no_log e"])
qed

lemma main_loop_no_log_ends:
  "main_loop opts n st d = Some re \<Longrightarrow> d = no_log e \<Longrightarrow> \<exists>re. main_loop opts n st e = Some re"
proof (induction arbitrary: e rule: main_loop_induct)
  case (stop st d k d')
  then obtain e' where "round_step opts n st e = (Err k, e')" using steady_no_log_rev [OF steady_round_step] by blast
  then show ?case by (simp add: main_loop.simps [of opts n st e])
next
  case (last_round st d st' d')
  then obtain e' where "round_step opts n st e = (Ok (st', False), e')" using steady_no_log_rev [OF steady_round_step] by blast
  then show ?case by (simp add: main_loop.simps [of opts n st e])
next
  case (again st d st' d' re)
  then obtain e' where "round_step opts n st e = (Ok (st', True), e')" "d' = no_log e'"
    using steady_no_log_rev [OF steady_round_step] by blast
  then show ?case using again.IH by (simp add: main_loop.simps [of opts n st e])
qed

lemma main_loop_unlogged:
  "main_loop opts n st (no_log e) = map_option (map_prod id no_log) (main_loop opts n st e)"
proof (cases "main_loop opts n st e")
  case None
  then show ?thesis using main_loop_no_log_ends [OF _ refl, of opts n st e] by (cases "main_loop opts n st (no_log e)") auto
next
  case (Some re)
  then show ?thesis using main_loop_no_log [OF Some] by (cases re) simp
qed

section \<open>A whole run\<close>

lemma inner_unlogged:
  "preprocess_cnf_inner F opts (no_log e) = map_option (map_prod id no_log) (preprocess_cnf_inner F opts e)"
proof -
  obtain r e' where c: "copy_clauses (c_clauses F) e = (r, e')" by fastforce
  then have "copy_clauses (c_clauses F) (no_log e) = (r, no_log e')" by (rule steady_no_log [OF steady_copy])
  then show ?thesis by (cases r) (simp_all add: preprocess_cnf_inner_def c main_loop_unlogged)
qed

lemma inner_quiet:
  assumes "preprocess_cnf_inner F opts e = Some re" "e_loads e = []"
  shows "fst re \<noteq> Err Interrupted"
proof -
  obtain r e' where c: "copy_clauses (c_clauses F) e = (r, e')" by fastforce
  note q = steady_quiet [OF steady_copy c assms(2)]
  show ?thesis
    using assms(1) q main_loop_quiet by (cases r) (auto simp: preprocess_cnf_inner_def c)
qed

lemma outcome_no_log: "outcome_of (map_prod id no_log re) = outcome_of re"
  by (cases re rule: outcome_of.cases) simp_all

lemma no_log_pp_env: "no_log (pp_env F loads (Some [])) = pp_env F loads None"
  by (simp add: pp_env_def no_log_def)

lemma outcome_with_proof:
  "map_option fst (preprocess_cnf_with_proof F opts loads) = preprocess_cnf F opts loads"
  unfolding preprocess_cnf_with_proof_def preprocess_cnf_def
  using inner_unlogged [of F opts "pp_env F loads (Some [])"]
  by (cases "preprocess_cnf_inner F opts (pp_env F loads (Some []))")
    (auto simp: no_log_pp_env outcome_no_log option.map_comp comp_def option.map_ident)

end
