(* ===== verification/SatWrap.thy ===== *)
theory SatWrap imports SatSound begin

text \<open>
  The negation of \<open>i32::MIN\<close> wraps to itself. With \<open>2^31\<close> variables a formula may hold that
  literal, and self-subsuming resolution then takes two equal literals for opposite ones: a
  satisfiable formula is refuted under options that are otherwise safe.
\<close>

definition min_options :: pp_options where
  "min_options = options_off\<lparr>basic_simplification := True, self_subsuming_resolution := True\<rparr>"

definition min_cnf :: "nat \<Rightarrow> cnf" where
  "min_cnf n = \<lparr>c_vars = n, c_clauses = [[i32_min], [i32_min, 1], [-1]]\<rparr>"

definition min_env :: "nat \<Rightarrow> nat \<Rightarrow> nat \<Rightarrow> env" where
  "min_env w r s = \<lparr>e_work = w, e_loads = [], e_log = None,
     e_stats = pp_stats_default\<lparr>ps_rounds := r, ps_self_subsumed_literals := s, ps_input_clauses := 3\<rparr>\<rparr>"

lemma min_options_simps [simp]: "basic_simplification min_options" "\<not> unit_propagation min_options" "\<not> pure_literals min_options"
  "\<not> subsumption min_options" "self_subsuming_resolution min_options"
  by (simp_all add: min_options_def options_off_def)

lemma min_tick: "w < 1023 \<Longrightarrow> tick (min_env w r s) = (Ok (), min_env (Suc w) r s)"
  by (simp add: tick_def min_env_def)

lemma min_load: "load_stop (min_env w r s) = (Ok (), min_env w r s)"
  by (simp add: load_stop_def min_env_def)

lemma min_lit:
  assumes "w < 1023" "l \<noteq> 0" "lit_var l \<le> n" "l \<notin> set out" "neg_lit l \<notin> set out"
  shows "simplify_lit min_options n (replicate n None) original l (out, ch) (min_env w r s) = (Ok (Go (out @ [l], ch)), min_env (Suc w) r s)"
proof -
  have "0 < lit_var l" using assms(2) by (simp add: lit_var_def)
  then have "replicate n None ! (lit_var l - 1) = (None :: bool option)" using assms(3) by (intro nth_replicate) simp
  then show ?thesis using assms \<open>0 < lit_var l\<close> by (simp add: simplify_lit_def bnd_def min_tick ret_def Let_def)
qed

lemma min_lits: "neg_lit i32_min = i32_min" "neg_lit 1 = - 1" "neg_lit (- 1) = 1" "lit_var i32_min = 2147483648" "lit_var 1 = 1" "lit_var (- 1) = 1"
  "i32_min \<noteq> 0" "i32_min \<noteq> 1" "i32_min \<noteq> - 1" "1 \<noteq> i32_min" "- 1 \<noteq> i32_min" "i32_min \<le> 1" "sort [] = ([] :: int list)"
  by (simp_all add: neg_lit_def as_i32_def lit_var_def i32_min_def)

lemma min_log: "log_add c (min_env w r s) = (Ok (), min_env w r s)" "when_logging m (min_env w r s) = (Ok (), min_env w r s)"
  by (simp_all add: log_add_def when_logging_def min_env_def)

lemmas min_run = bnd_def ret_def leave_def Let_def min_tick min_lit min_lits min_log min_load

lemma min_clause:
  assumes "w < 1000" "2147483648 \<le> n"
  shows "c \<in> {[i32_min], [1], [- 1]} \<Longrightarrow> simplify_clause min_options n (replicate n None) c p (min_env w r s) =
      (Ok (p\<lparr>pa_simplified := pa_simplified p @ [c], pa_polarity := mark_polarity c (pa_polarity p)\<rparr>), min_env (w + 2) r s)"
    and "simplify_clause min_options n (replicate n None) [i32_min, 1] p (min_env w r s) =
      (Ok (p\<lparr>pa_simplified := pa_simplified p @ [[i32_min, 1]], pa_polarity := mark_polarity [i32_min, 1] (pa_polarity p)\<rparr>), min_env (w + 3) r s)"
    and "simplify_clause min_options n (replicate n None) [] p (min_env w r s) = (Err Unsat, min_env (w + 1) r s)"
  using assms by (auto simp: simplify_clause_def min_run numeral_3_eq_3)

lemma min_self_subsume:
  "self_subsume_clauses [[i32_min], [i32_min, 1], [- 1]] (min_env 10 1 0) = (Ok ([[i32_min], [1], []], True), min_env 10 1 2)"
  by code_simp

lemma min_count: "count (\<lambda>x. x\<lparr>ps_rounds := Suc (ps_rounds x)\<rparr>) (min_env w r s) = (Ok (), min_env w (Suc r) s)"
  by (simp add: count_def min_env_def)

lemma min_pass:
  assumes "2147483648 \<le> n"
  shows "round_step min_options n \<lparr>pp_clauses = [[i32_min], [i32_min, 1], [- 1]], pp_assigned = replicate n None, pp_recon = []\<rparr> (min_env 3 0 0) =
     (Ok (\<lparr>pp_clauses = [[i32_min], [1], []], pp_assigned = replicate n None, pp_recon = []\<rparr>, True), min_env 10 1 2)"
    and "round_step min_options n \<lparr>pp_clauses = [[i32_min], [1], []], pp_assigned = replicate n None, pp_recon = []\<rparr> (min_env 10 1 2) =
     (Err Unsat, min_env 15 2 2)"
  using assms by (simp_all add: round_step_def simplify_pass_def assign_pass_def stages_def run_stage_def on_clauses_def min_run min_count min_clause min_self_subsume [unfolded One_nat_def] numeral_2_eq_2)

theorem negation_wraps:
  assumes "2147483648 \<le> n"
  shows "preprocess_cnf (min_cnf n) min_options [] = Some (Unsatisfiable (pp_stats_default\<lparr>ps_rounds := 2, ps_self_subsumed_literals := 2, ps_input_clauses := 3\<rparr>)) \<and>
    assignment_satisfies (min_cnf n) (replicate n False) \<and> cnf_ok (min_cnf n) \<and> safe_options min_options"
proof -
  have "copy_clauses (c_clauses (min_cnf n)) (min_env 0 0 0) = (Ok (c_clauses (min_cnf n)), min_env 3 0 0)"
    by (simp add: copy_clauses_def min_cnf_def min_run numeral_3_eq_3)
  moreover have "pp_env (min_cnf n) [] None = min_env 0 0 0" by (simp add: pp_env_def min_env_def min_cnf_def pp_stats_default_def)
  ultimately have "preprocess_cnf_inner (min_cnf n) min_options (pp_env (min_cnf n) [] None) = Some (Err Unsat, min_env 15 2 2)"
    using min_pass [OF assms] by (simp add: preprocess_cnf_inner_def min_cnf_def main_loop.simps)
  moreover have "assignment_satisfies (min_cnf n) (replicate n False)"
    using assms by (auto simp: min_cnf_def assignment_satisfies_iff clause_satisfied_iff lit_satisfied_def min_lits i32_min_def lit_var_def)
  moreover have "cnf_ok (min_cnf n)" using assms by (simp add: cnf_ok_def min_cnf_def lit_ok_def min_lits in_i32_def i32_max_def i32_min_def lit_var_def)
  ultimately show ?thesis by (simp add: preprocess_cnf_def min_env_def safe_options_def)
qed

theorem negation_wraps_witness: "cnf_ok (min_cnf 2147483648) \<and> (\<exists>a. assignment_satisfies (min_cnf 2147483648) a)"
  using negation_wraps [of 2147483648] by blast

end
