(* ===== verification/Expr.thy ===== *)
theory Expr imports BTree begin

text \<open>
  The expression trees of \<open>src/src/expr.rs\<close>: exact evaluation, interval bounds, collected
  variables, affine normal forms and the linear rows made of them. The release profile the
  repository builds has \<open>overflow-checks = false\<close>, so \<open>i64\<close> arithmetic wraps; only the
  division of \<open>i64::MIN\<close> by \<open>-1\<close> still panics.
\<close>

section \<open>Trees\<close>

datatype expr =
    EConst int | EVar var_id
  | ENeg expr | EAbs expr | EAdd "expr list" | ESub expr expr | EMul "expr list"
  | EDiv expr expr | EMod expr expr | EMin "expr list" | EMax "expr list"
  | EEq expr expr | ENe expr expr | ELt expr expr | ELe expr expr | EGt expr expr | EGe expr expr
  | ENot expr | EAnd "expr list" | EOr "expr list" | EImp expr expr | EIff expr expr
  | EIte expr expr expr

fun collect_vars :: "expr \<Rightarrow> var_id list \<Rightarrow> var_id list" where
  "collect_vars (EConst c) out = out"
| "collect_vars (EVar v) out = out @ [v]"
| "collect_vars (ENeg a) out = collect_vars a out"
| "collect_vars (EAbs a) out = collect_vars a out"
| "collect_vars (ENot a) out = collect_vars a out"
| "collect_vars (ESub a b) out = collect_vars b (collect_vars a out)"
| "collect_vars (EDiv a b) out = collect_vars b (collect_vars a out)"
| "collect_vars (EMod a b) out = collect_vars b (collect_vars a out)"
| "collect_vars (EEq a b) out = collect_vars b (collect_vars a out)"
| "collect_vars (ENe a b) out = collect_vars b (collect_vars a out)"
| "collect_vars (ELt a b) out = collect_vars b (collect_vars a out)"
| "collect_vars (ELe a b) out = collect_vars b (collect_vars a out)"
| "collect_vars (EGt a b) out = collect_vars b (collect_vars a out)"
| "collect_vars (EGe a b) out = collect_vars b (collect_vars a out)"
| "collect_vars (EImp a b) out = collect_vars b (collect_vars a out)"
| "collect_vars (EIff a b) out = collect_vars b (collect_vars a out)"
| "collect_vars (EAdd es) out = fold collect_vars es out"
| "collect_vars (EMul es) out = fold collect_vars es out"
| "collect_vars (EMin es) out = fold collect_vars es out"
| "collect_vars (EMax es) out = fold collect_vars es out"
| "collect_vars (EAnd es) out = fold collect_vars es out"
| "collect_vars (EOr es) out = fold collect_vars es out"
| "collect_vars (EIte c t e) out = collect_vars e (collect_vars t (collect_vars c out))"

section \<open>Evaluation\<close>

text \<open>
  \<open>Undefined\<close> is \<open>None\<close>, a division by zero; \<open>DivOverflow\<close> is the panic of
  \<open>i64::MIN / -1\<close> and \<open>i64::MIN % -1\<close>.
\<close>

datatype eval_stop = Undefined | DivOverflow

type_synonym value_result = "(int, eval_stop) result"

fun rbind :: "('a, 'e) result \<Rightarrow> ('a \<Rightarrow> ('b, 'e) result) \<Rightarrow> ('b, 'e) result" where
  "rbind (Ok x) f = f x"
| "rbind (Err e) f = Err e"

text \<open>A loop over operands that leaves at the first one without a value.\<close>

fun loop_values :: "(int \<Rightarrow> int \<Rightarrow> int) \<Rightarrow> value_result list \<Rightarrow> int \<Rightarrow> value_result" where
  "loop_values f [] s = Ok s"
| "loop_values f (r # rs) s = rbind r (\<lambda>x. loop_values f rs (f s x))"

definition lift2 :: "(int \<Rightarrow> int \<Rightarrow> int) \<Rightarrow> value_result \<Rightarrow> value_result \<Rightarrow> value_result" where
  "lift2 f r s = rbind r (\<lambda>x. rbind s (\<lambda>y. Ok (f x y)))"

definition to_bool :: "int \<Rightarrow> int" where
  "to_bool x = (if x \<noteq> 0 then 1 else 0)"

definition truth :: "bool \<Rightarrow> int" where
  "truth b = (if b then 1 else 0)"

definition div_values :: "(int \<Rightarrow> int \<Rightarrow> int) \<Rightarrow> value_result \<Rightarrow> value_result \<Rightarrow> value_result" where
  "div_values f r s = rbind s (\<lambda>d. if d = 0 then Err Undefined else
     rbind r (\<lambda>x. if x = i64_min \<and> d = -1 then Err DivOverflow else Ok (f x d)))"

fun expr_eval :: "(var_id \<Rightarrow> int) \<Rightarrow> expr \<Rightarrow> value_result" where
  "expr_eval val (EConst c) = Ok c"
| "expr_eval val (EVar v) = Ok (val v)"
| "expr_eval val (ENeg a) = rbind (expr_eval val a) (\<lambda>x. Ok (as_i64 (- x)))"
| "expr_eval val (EAbs a) = rbind (expr_eval val a) (\<lambda>x. Ok (as_i64 \<bar>x\<bar>))"
| "expr_eval val (EAdd es) = loop_values (\<lambda>s x. as_i64 (s + x)) (map (expr_eval val) es) 0"
| "expr_eval val (ESub a b) = lift2 (\<lambda>x y. as_i64 (x - y)) (expr_eval val a) (expr_eval val b)"
| "expr_eval val (EMul es) = loop_values (\<lambda>p x. as_i64 (p * x)) (map (expr_eval val) es) 1"
| "expr_eval val (EDiv a b) = div_values rust_div (expr_eval val a) (expr_eval val b)"
| "expr_eval val (EMod a b) = div_values rust_rem (expr_eval val a) (expr_eval val b)"
| "expr_eval val (EMin es) = loop_values min (map (expr_eval val) es) i64_max"
| "expr_eval val (EMax es) = loop_values max (map (expr_eval val) es) i64_min"
| "expr_eval val (EEq a b) = lift2 (\<lambda>x y. truth (x = y)) (expr_eval val a) (expr_eval val b)"
| "expr_eval val (ENe a b) = lift2 (\<lambda>x y. truth (x \<noteq> y)) (expr_eval val a) (expr_eval val b)"
| "expr_eval val (ELt a b) = lift2 (\<lambda>x y. truth (x < y)) (expr_eval val a) (expr_eval val b)"
| "expr_eval val (ELe a b) = lift2 (\<lambda>x y. truth (x \<le> y)) (expr_eval val a) (expr_eval val b)"
| "expr_eval val (EGt a b) = lift2 (\<lambda>x y. truth (x > y)) (expr_eval val a) (expr_eval val b)"
| "expr_eval val (EGe a b) = lift2 (\<lambda>x y. truth (x \<ge> y)) (expr_eval val a) (expr_eval val b)"
| "expr_eval val (ENot a) = rbind (expr_eval val a) (\<lambda>x. Ok (1 - to_bool x))"
| "expr_eval val (EAnd es) = loop_values (\<lambda>r x. if to_bool x = 0 then 0 else r) (map (expr_eval val) es) 1"
| "expr_eval val (EOr es) = loop_values (\<lambda>r x. if to_bool x = 1 then 1 else r) (map (expr_eval val) es) 0"
| "expr_eval val (EImp a b) = rbind (expr_eval val a) (\<lambda>x.
     if to_bool x = 0 then Ok 1 else rbind (expr_eval val b) (\<lambda>y. Ok (to_bool y)))"
| "expr_eval val (EIff a b) = lift2 (\<lambda>x y. truth (to_bool x = to_bool y)) (expr_eval val a) (expr_eval val b)"
| "expr_eval val (EIte c t e) = rbind (expr_eval val c) (\<lambda>x.
     if to_bool x = 1 then expr_eval val t else expr_eval val e)"

section \<open>Bounds\<close>

type_synonym interval = "int \<times> int"

definition b_false :: interval where "b_false = (0, 0)"
definition b_true :: interval where "b_true = (1, 1)"
definition b_maybe :: interval where "b_maybe = (0, 1)"

definition clamp_i64 :: "int \<Rightarrow> int" where
  "clamp_i64 x = max i64_min (min i64_max x)"

text \<open>\<open>i128\<close> wraps as well; the other uses of it cannot overflow.\<close>

definition as_i128 :: "int \<Rightarrow> int" where
  "as_i128 x = signed_take_bit 127 x"

definition corners :: "(int \<Rightarrow> int \<Rightarrow> int) \<Rightarrow> interval \<Rightarrow> interval \<Rightarrow> int list" where
  "corners f a b = [f (fst a) (fst b), f (fst a) (snd b), f (snd a) (fst b), f (snd a) (snd b)]"

definition imul :: "interval \<Rightarrow> interval \<Rightarrow> interval" where
  "imul a b = (let p = corners (\<lambda>x y. as_i128 (x * y)) a b in (Min (set p), Max (set p)))"

text \<open>\<open>None\<close> is the panic of a division of two bounds, by zero or overflowing.\<close>

definition div_bounds :: "interval \<Rightarrow> interval \<Rightarrow> interval option" where
  "div_bounds a b =
     (if fst b \<le> 0 \<and> snd b \<ge> 0 then
        let m = max (as_i64 \<bar>fst a\<bar>) (as_i64 \<bar>snd a\<bar>) in Some (as_i64 (- m), m)
      else if 0 \<in> {fst b, snd b} \<or> i64_min \<in> {fst a, snd a} \<and> -1 \<in> {fst b, snd b} then None
      else let p = corners rust_div a b in Some (Min (set p), Max (set p)))"

definition mod_bounds :: "interval \<Rightarrow> interval" where
  "mod_bounds b =
     (let m = max (as_i64 \<bar>fst b\<bar>) (as_i64 \<bar>snd b\<bar>)
      in if m = 0 then (0, 0) else (as_i64 (- (as_i64 (m - 1))), as_i64 (m - 1)))"

definition abs_bounds :: "interval \<Rightarrow> interval" where
  "abs_bounds a =
     (if fst a \<ge> 0 then a
      else if snd a \<le> 0 then (as_i64 (- snd a), as_i64 (- fst a))
      else (0, max (as_i64 (- fst a)) (snd a)))"

definition eq_bounds :: "interval \<Rightarrow> interval \<Rightarrow> interval" where
  "eq_bounds a b =
     (if snd a < fst b \<or> snd b < fst a then b_false
      else if fst a = snd a \<and> fst b = snd b \<and> fst a = fst b then b_true else b_maybe)"

definition ne_bounds :: "interval \<Rightarrow> interval \<Rightarrow> interval" where
  "ne_bounds a b =
     (if snd a < fst b \<or> snd b < fst a then b_true
      else if fst a = snd a \<and> fst b = snd b \<and> fst a = fst b then b_false else b_maybe)"

datatype cmp = CmpLt | CmpLe

fun cmp_bounds :: "cmp \<Rightarrow> interval \<Rightarrow> interval \<Rightarrow> interval" where
  "cmp_bounds CmpLt a b =
     (if snd a < fst b then b_true else if fst a \<ge> snd b then b_false else b_maybe)"
| "cmp_bounds CmpLe a b =
     (if snd a \<le> fst b then b_true else if fst a > snd b then b_false else b_maybe)"

definition iff_bounds :: "interval \<Rightarrow> interval \<Rightarrow> interval" where
  "iff_bounds a b =
     (if (a = b_true \<or> a = b_false) \<and> (b = b_true \<or> b = b_false)
      then (if a = b then b_true else b_false) else b_maybe)"

text \<open>Loops over the bounds of the operands; the last two return early.\<close>

fun loop_bounds :: "(interval \<Rightarrow> interval \<Rightarrow> interval) \<Rightarrow> interval option list \<Rightarrow> interval \<Rightarrow> interval option" where
  "loop_bounds f [] s = Some s"
| "loop_bounds f (r # rs) s = (case r of None \<Rightarrow> None | Some b \<Rightarrow> loop_bounds f rs (f s b))"

fun and_bounds :: "interval option list \<Rightarrow> bool \<Rightarrow> interval option" where
  "and_bounds [] all_true = Some (if all_true then b_true else b_maybe)"
| "and_bounds (r # rs) all_true = (case r of None \<Rightarrow> None
     | Some b \<Rightarrow> if b = b_false then Some b_false else and_bounds rs (all_true \<and> b = b_true))"

fun or_bounds :: "interval option list \<Rightarrow> bool \<Rightarrow> interval option" where
  "or_bounds [] all_false = Some (if all_false then b_false else b_maybe)"
| "or_bounds (r # rs) all_false = (case r of None \<Rightarrow> None
     | Some b \<Rightarrow> if b = b_true then Some b_true else or_bounds rs (all_false \<and> b = b_false))"

definition both :: "(interval \<Rightarrow> interval \<Rightarrow> interval option) \<Rightarrow> interval option \<Rightarrow> interval option \<Rightarrow> interval option" where
  "both f r s = (case r of None \<Rightarrow> None | Some a \<Rightarrow> (case s of None \<Rightarrow> None | Some b \<Rightarrow> f a b))"

fun expr_bounds :: "(var_id \<Rightarrow> interval) \<Rightarrow> expr \<Rightarrow> interval option" where
  "expr_bounds bnds (EConst c) = Some (c, c)"
| "expr_bounds bnds (EVar v) = Some (bnds v)"
| "expr_bounds bnds (ENeg a) = map_option (\<lambda>(l, h). (as_i64 (- h), as_i64 (- l))) (expr_bounds bnds a)"
| "expr_bounds bnds (EAbs a) = map_option abs_bounds (expr_bounds bnds a)"
| "expr_bounds bnds (EAdd es) = map_option (\<lambda>(l, h). (clamp_i64 l, clamp_i64 h))
     (loop_bounds (\<lambda>s b. (fst s + fst b, snd s + snd b)) (map (expr_bounds bnds) es) (0, 0))"
| "expr_bounds bnds (ESub a b) = both (\<lambda>a b. Some (clamp_i64 (fst a - snd b), clamp_i64 (snd a - fst b)))
     (expr_bounds bnds a) (expr_bounds bnds b)"
| "expr_bounds bnds (EMul es) = map_option (\<lambda>(l, h). (clamp_i64 l, clamp_i64 h))
     (loop_bounds imul (map (expr_bounds bnds) es) (1, 1))"
| "expr_bounds bnds (EDiv a b) = both div_bounds (expr_bounds bnds a) (expr_bounds bnds b)"
| "expr_bounds bnds (EMod a b) = map_option mod_bounds (expr_bounds bnds b)"
| "expr_bounds bnds (EMin es) = loop_bounds (\<lambda>s b. (min (fst s) (fst b), min (snd s) (snd b)))
     (map (expr_bounds bnds) es) (i64_max, i64_max)"
| "expr_bounds bnds (EMax es) = loop_bounds (\<lambda>s b. (max (fst s) (fst b), max (snd s) (snd b)))
     (map (expr_bounds bnds) es) (i64_min, i64_min)"
| "expr_bounds bnds (EEq a b) = both (\<lambda>a b. Some (eq_bounds a b)) (expr_bounds bnds a) (expr_bounds bnds b)"
| "expr_bounds bnds (ENe a b) = both (\<lambda>a b. Some (ne_bounds a b)) (expr_bounds bnds a) (expr_bounds bnds b)"
| "expr_bounds bnds (ELt a b) = both (\<lambda>a b. Some (cmp_bounds CmpLt a b)) (expr_bounds bnds a) (expr_bounds bnds b)"
| "expr_bounds bnds (ELe a b) = both (\<lambda>a b. Some (cmp_bounds CmpLe a b)) (expr_bounds bnds a) (expr_bounds bnds b)"
| "expr_bounds bnds (EGt a b) = both (\<lambda>b a. Some (cmp_bounds CmpLt b a)) (expr_bounds bnds b) (expr_bounds bnds a)"
| "expr_bounds bnds (EGe a b) = both (\<lambda>b a. Some (cmp_bounds CmpLe b a)) (expr_bounds bnds b) (expr_bounds bnds a)"
| "expr_bounds bnds (ENot a) = map_option (\<lambda>b. if b = b_true then b_false else if b = b_false then b_true else b_maybe)
     (expr_bounds bnds a)"
| "expr_bounds bnds (EAnd es) = and_bounds (map (expr_bounds bnds) es) True"
| "expr_bounds bnds (EOr es) = or_bounds (map (expr_bounds bnds) es) True"
| "expr_bounds bnds (EImp a b) = (case expr_bounds bnds a of None \<Rightarrow> None
     | Some ab \<Rightarrow> if ab = b_false then Some b_true
                  else if ab = b_true then expr_bounds bnds b else Some b_maybe)"
| "expr_bounds bnds (EIff a b) = both (\<lambda>a b. Some (iff_bounds a b)) (expr_bounds bnds a) (expr_bounds bnds b)"
| "expr_bounds bnds (EIte c t e) = (case expr_bounds bnds c of None \<Rightarrow> None
     | Some cb \<Rightarrow> if cb = b_true then expr_bounds bnds t
                  else if cb = b_false then expr_bounds bnds e
                  else both (\<lambda>t e. Some (min (fst t) (fst e), max (snd t) (snd e)))
                         (expr_bounds bnds t) (expr_bounds bnds e))"

section \<open>Programs that poll a stop flag\<close>

text \<open>
  \<open>stop.load(Acquire)\<close> may answer differently at every load: the answers still to come are
  a list, an exhausted list means the flag stays down. \<open>None\<close> is every early return.
\<close>

type_synonym 'a stopping = "bool list \<Rightarrow> 'a option \<times> bool list"

definition st_ret :: "'a \<Rightarrow> 'a stopping" where
  "st_ret x = (\<lambda>l. (Some x, l))"

definition st_opt :: "'a option \<Rightarrow> 'a stopping" where
  "st_opt r = (\<lambda>l. (r, l))"

definition st_bind :: "'a stopping \<Rightarrow> ('a \<Rightarrow> 'b stopping) \<Rightarrow> 'b stopping" where
  "st_bind m f = (\<lambda>l. case m l of (None, l') \<Rightarrow> (None, l') | (Some x, l') \<Rightarrow> f x l')"

definition st_check :: "unit stopping" where
  "st_check = (\<lambda>l. case l of [] \<Rightarrow> (Some (), []) | b # bs \<Rightarrow> (if b then None else Some (), bs))"

text \<open>A loop that polls before every element and may fail.\<close>

fun st_loop :: "('x \<Rightarrow> 's \<Rightarrow> 's option) \<Rightarrow> 'x stopping list \<Rightarrow> 's \<Rightarrow> 's stopping" where
  "st_loop g [] s = st_ret s"
| "st_loop g (m # ms) s =
     st_bind st_check (\<lambda>_. st_bind m (\<lambda>x. st_bind (st_opt (g x s)) (st_loop g ms)))"

section \<open>Affine forms\<close>

record affine_form =
  af_constant :: int
  af_terms :: "(var_id, int) btree"

fun add_terms :: "(var_id \<times> int) list \<Rightarrow> int \<Rightarrow> (var_id, int) btree \<Rightarrow> (var_id, int) btree option" where
  "add_terms [] scale m = Some m"
| "add_terms ((v, c) # ts) scale m =
     (case checked_i128 (c * scale) of None \<Rightarrow> None
      | Some scaled \<Rightarrow> (case checked_i128 (coeff m v + scaled) of None \<Rightarrow> None
        | Some combined \<Rightarrow> add_terms ts scale (if combined = 0 then bt_remove v m else bt_insert v combined m)))"

definition checked_add_scaled :: "int \<Rightarrow> affine_form \<Rightarrow> affine_form \<Rightarrow> affine_form option" where
  "checked_add_scaled scale other self =
     (case checked_i128 (af_constant other * scale) of None \<Rightarrow> None
      | Some oc \<Rightarrow> (case checked_i128 (af_constant self + oc) of None \<Rightarrow> None
        | Some c \<Rightarrow> map_option (\<lambda>m. \<lparr>af_constant = c, af_terms = m\<rparr>)
            (add_terms (af_terms other) scale (af_terms self))))"

definition checked_scale :: "int \<Rightarrow> affine_form \<Rightarrow> affine_form option" where
  "checked_scale scale self =
     (case checked_i128 (af_constant self * scale) of None \<Rightarrow> None
      | Some c \<Rightarrow>
          if scale = 0 then Some \<lparr>af_constant = c, af_terms = []\<rparr>
          else map_option (\<lambda>cs. \<lparr>af_constant = c, af_terms = zip (map fst (af_terms self)) cs\<rparr>)
                 (those (map (\<lambda>(v, k). checked_i128 (k * scale)) (af_terms self))))"

definition checked_mul :: "affine_form \<Rightarrow> affine_form \<Rightarrow> affine_form option" where
  "checked_mul self other =
     (if af_terms other = [] then checked_scale (af_constant other) self
      else if af_terms self = [] then checked_scale (af_constant self) other
      else None)"

fun affine_from_expr :: "expr \<Rightarrow> affine_form stopping" where
  "affine_from_expr (EConst c) = st_bind st_check (\<lambda>_. st_ret \<lparr>af_constant = c, af_terms = []\<rparr>)"
| "affine_from_expr (EVar v) = st_bind st_check (\<lambda>_. st_ret \<lparr>af_constant = 0, af_terms = [(v, 1)]\<rparr>)"
| "affine_from_expr (ENeg a) = st_bind st_check (\<lambda>_.
     st_bind (affine_from_expr a) (\<lambda>f. st_opt (checked_scale (-1) f)))"
| "affine_from_expr (EAdd es) = st_bind st_check (\<lambda>_.
     st_loop (checked_add_scaled 1) (map affine_from_expr es) \<lparr>af_constant = 0, af_terms = []\<rparr>)"
| "affine_from_expr (ESub a b) = st_bind st_check (\<lambda>_.
     st_bind (affine_from_expr a) (\<lambda>f. st_bind (affine_from_expr b) (\<lambda>g. st_opt (checked_add_scaled (-1) g f))))"
| "affine_from_expr (EMul es) = st_bind st_check (\<lambda>_.
     st_loop (\<lambda>f p. checked_mul p f) (map affine_from_expr es) \<lparr>af_constant = 1, af_terms = []\<rparr>)"
| "affine_from_expr e = st_bind st_check (\<lambda>_. st_opt None)"

text \<open>The vectors of coefficients and of variables, with the narrowing to \<open>i64\<close>.\<close>

fun narrow_terms :: "(var_id \<times> int) list \<Rightarrow> int list \<times> var_id list \<Rightarrow> (int list \<times> var_id list) stopping" where
  "narrow_terms [] out = st_ret out"
| "narrow_terms ((v, c) # ts) out = st_bind st_check (\<lambda>_.
     st_bind (st_opt (checked_i64 c)) (\<lambda>k. narrow_terms ts (fst out @ [k], snd out @ [v])))"

definition affine_form_interruptible :: "expr \<Rightarrow> (int \<times> int list \<times> var_id list) stopping" where
  "affine_form_interruptible e =
     st_bind (affine_from_expr e) (\<lambda>f. st_bind st_check (\<lambda>_.
     st_bind (st_opt (checked_i64 (af_constant f))) (\<lambda>constant.
     st_bind (narrow_terms (af_terms f) ([], [])) (\<lambda>out. st_ret (constant, out)))))"

section \<open>Linear rows\<close>

record linear_relation =
  lr_coefficients :: "int list"
  lr_variables :: "var_id list"
  lr_lower :: "int option"
  lr_upper :: "int option"

fun combine_terms :: "(int \<Rightarrow> int \<Rightarrow> int) \<Rightarrow> (int \<times> var_id) list \<Rightarrow> (var_id, int) btree \<Rightarrow> (var_id, int) btree option" where
  "combine_terms f [] m = Some m"
| "combine_terms f ((c, v) # ts) m =
     (case checked_i64 (f (coeff m v) c) of None \<Rightarrow> None
      | Some updated \<Rightarrow> combine_terms f ts (if updated = 0 then bt_remove v m else bt_insert v updated m))"

datatype relation = RelLe | RelLt | RelGe | RelGt | RelEq

fun relation_of :: "expr \<Rightarrow> (expr \<times> expr \<times> relation) option" where
  "relation_of (ELe a b) = Some (a, b, RelLe)"
| "relation_of (ELt a b) = Some (a, b, RelLt)"
| "relation_of (EGe a b) = Some (a, b, RelGe)"
| "relation_of (EGt a b) = Some (a, b, RelGt)"
| "relation_of (EEq a b) = Some (a, b, RelEq)"
| "relation_of _ = None"

fun relation_sides :: "relation \<Rightarrow> int \<Rightarrow> (int option \<times> int option) option" where
  "relation_sides RelLe rhs = Some (None, Some rhs)"
| "relation_sides RelLt rhs = map_option (\<lambda>r. (None, Some r)) (checked_i64 (rhs - 1))"
| "relation_sides RelGe rhs = Some (Some rhs, None)"
| "relation_sides RelGt rhs = map_option (\<lambda>r. (Some r, None)) (checked_i64 (rhs + 1))"
| "relation_sides RelEq rhs = Some (Some rhs, Some rhs)"

definition linear_relation_interruptible :: "expr \<Rightarrow> linear_relation stopping" where
  "linear_relation_interruptible e =
     st_bind (st_opt (relation_of e)) (\<lambda>(left, right, relation).
     st_bind (affine_form_interruptible left) (\<lambda>(lc, lcs, lvs).
     st_bind (affine_form_interruptible right) (\<lambda>(rc, rcs, rvs).
     st_bind (st_opt (checked_i64 (rc - lc))) (\<lambda>rhs.
     st_bind (st_opt (combine_terms (+) (zip lcs lvs) [])) (\<lambda>m1.
     st_bind (st_opt (combine_terms (-) (zip rcs rvs) m1)) (\<lambda>m2.
     st_bind st_check (\<lambda>_.
     st_bind (st_opt (relation_sides relation rhs)) (\<lambda>(lower, upper).
     st_ret \<lparr>lr_coefficients = map snd m2, lr_variables = map fst m2, lr_lower = lower, lr_upper = upper\<rparr>))))))))"

end
