(* ===== verification/ExprProps.thy ===== *)
theory ExprProps imports Expr begin

text \<open>
  What the expression routines compute: evaluation is the mathematical value as long as no
  operand leaves \<open>i64\<close>, bounds enclose that value, and an affine form is the expression.
\<close>

section \<open>The mathematical value\<close>

definition opt2 :: "('a \<Rightarrow> 'b \<Rightarrow> 'c option) \<Rightarrow> 'a option \<Rightarrow> 'b option \<Rightarrow> 'c option" where
  "opt2 f a b = (case a of None \<Rightarrow> None | Some x \<Rightarrow> (case b of None \<Rightarrow> None | Some y \<Rightarrow> f x y))"

definition nonzero :: "(int \<Rightarrow> int \<Rightarrow> int) \<Rightarrow> int \<Rightarrow> int \<Rightarrow> int option" where
  "nonzero f x d = (if d = 0 then None else Some (f x d))"

text \<open>\<open>None\<close> is a value that does not exist: a division by zero in an operand that counts.\<close>

fun exact :: "(var_id \<Rightarrow> int) \<Rightarrow> expr \<Rightarrow> int option" where
  "exact val (EConst c) = Some c"
| "exact val (EVar v) = Some (val v)"
| "exact val (ENeg a) = map_option uminus (exact val a)"
| "exact val (EAbs a) = map_option abs (exact val a)"
| "exact val (EAdd es) = map_option sum_list (those (map (exact val) es))"
| "exact val (ESub a b) = opt2 (\<lambda>x y. Some (x - y)) (exact val a) (exact val b)"
| "exact val (EMul es) = map_option prod_list (those (map (exact val) es))"
| "exact val (EDiv a b) = opt2 (nonzero rust_div) (exact val a) (exact val b)"
| "exact val (EMod a b) = opt2 (nonzero rust_rem) (exact val a) (exact val b)"
| "exact val (EMin es) = map_option (foldl min i64_max) (those (map (exact val) es))"
| "exact val (EMax es) = map_option (foldl max i64_min) (those (map (exact val) es))"
| "exact val (EEq a b) = opt2 (\<lambda>x y. Some (truth (x = y))) (exact val a) (exact val b)"
| "exact val (ENe a b) = opt2 (\<lambda>x y. Some (truth (x \<noteq> y))) (exact val a) (exact val b)"
| "exact val (ELt a b) = opt2 (\<lambda>x y. Some (truth (x < y))) (exact val a) (exact val b)"
| "exact val (ELe a b) = opt2 (\<lambda>x y. Some (truth (x \<le> y))) (exact val a) (exact val b)"
| "exact val (EGt a b) = opt2 (\<lambda>x y. Some (truth (x > y))) (exact val a) (exact val b)"
| "exact val (EGe a b) = opt2 (\<lambda>x y. Some (truth (x \<ge> y))) (exact val a) (exact val b)"
| "exact val (ENot a) = map_option (\<lambda>x. truth (x = 0)) (exact val a)"
| "exact val (EAnd es) = map_option (\<lambda>xs. truth (0 \<notin> set xs)) (those (map (exact val) es))"
| "exact val (EOr es) = map_option (\<lambda>xs. truth (\<exists>x \<in> set xs. x \<noteq> 0)) (those (map (exact val) es))"
| "exact val (EImp a b) = (case exact val a of None \<Rightarrow> None
     | Some x \<Rightarrow> if x = 0 then Some 1 else map_option (\<lambda>y. truth (y \<noteq> 0)) (exact val b))"
| "exact val (EIff a b) = opt2 (\<lambda>x y. Some (truth ((x = 0) = (y = 0)))) (exact val a) (exact val b)"
| "exact val (EIte c t e) = (case exact val c of None \<Rightarrow> None
     | Some x \<Rightarrow> if x \<noteq> 0 then exact val t else exact val e)"

fun parts :: "expr \<Rightarrow> expr list" where
  "parts (EConst c) = [EConst c]"
| "parts (EVar v) = [EVar v]"
| "parts (ENeg a) = ENeg a # parts a"
| "parts (EAbs a) = EAbs a # parts a"
| "parts (EAdd es) = EAdd es # concat (map parts es)"
| "parts (ESub a b) = ESub a b # parts a @ parts b"
| "parts (EMul es) = EMul es # concat (map parts es)"
| "parts (EDiv a b) = EDiv a b # parts a @ parts b"
| "parts (EMod a b) = EMod a b # parts a @ parts b"
| "parts (EMin es) = EMin es # concat (map parts es)"
| "parts (EMax es) = EMax es # concat (map parts es)"
| "parts (EEq a b) = EEq a b # parts a @ parts b"
| "parts (ENe a b) = ENe a b # parts a @ parts b"
| "parts (ELt a b) = ELt a b # parts a @ parts b"
| "parts (ELe a b) = ELe a b # parts a @ parts b"
| "parts (EGt a b) = EGt a b # parts a @ parts b"
| "parts (EGe a b) = EGe a b # parts a @ parts b"
| "parts (ENot a) = ENot a # parts a"
| "parts (EAnd es) = EAnd es # concat (map parts es)"
| "parts (EOr es) = EOr es # concat (map parts es)"
| "parts (EImp a b) = EImp a b # parts a @ parts b"
| "parts (EIff a b) = EIff a b # parts a @ parts b"
| "parts (EIte c t e) = EIte c t e # parts c @ parts t @ parts e"

text \<open>No operand leaves \<open>i64\<close>, and no remainder is \<open>i64::MIN % -1\<close>.\<close>

definition fits_node :: "(var_id \<Rightarrow> int) \<Rightarrow> expr \<Rightarrow> bool" where
  "fits_node val s \<longleftrightarrow>
     (case exact val s of None \<Rightarrow> True | Some x \<Rightarrow> in_i64 x) \<and>
     (case s of EMod a b \<Rightarrow> \<not> (exact val a = Some i64_min \<and> exact val b = Some (-1)) | _ \<Rightarrow> True)"

definition fits :: "(var_id \<Rightarrow> int) \<Rightarrow> expr \<Rightarrow> bool" where
  "fits val e \<longleftrightarrow> list_all (fits_node val) (parts e)"

section \<open>Evaluation\<close>

lemma as_i64_add: "as_i64 (as_i64 x + y) = as_i64 (x + y)"
  using signed_take_bit_add [of 63 "as_i64 x" y] signed_take_bit_add [of 63 x y] by (simp add: as_i64_def)

lemma as_i64_mult: "as_i64 (as_i64 x * y) = as_i64 (x * y)"
  using signed_take_bit_mult [of 63 "as_i64 x" y] signed_take_bit_mult [of 63 x y] by (simp add: as_i64_def)

lemma foldl_add: "as_i64 s = s \<Longrightarrow> foldl (\<lambda>s x. as_i64 (s + x)) s xs = as_i64 (s + sum_list xs)"
proof (induction xs arbitrary: s)
  case (Cons x xs)
  have "foldl (\<lambda>s x. as_i64 (s + x)) (as_i64 (s + x)) xs = as_i64 (as_i64 (s + x) + sum_list xs)"
    by (rule Cons.IH) (simp add: as_i64_id)
  then show ?case by (simp add: as_i64_add add.assoc)
qed simp

lemma foldl_mult: "as_i64 s = s \<Longrightarrow> foldl (\<lambda>s x. as_i64 (s * x)) s xs = as_i64 (s * prod_list xs)"
proof (induction xs arbitrary: s)
  case (Cons x xs)
  have "foldl (\<lambda>s x. as_i64 (s * x)) (as_i64 (s * x)) xs = as_i64 (as_i64 (s * x) * prod_list xs)"
    by (rule Cons.IH) (simp add: as_i64_id)
  then show ?case by (simp add: as_i64_mult mult.assoc)
qed simp

lemma foldl_and: "foldl (\<lambda>r x. if x = 0 then 0 else r) 1 = (\<lambda>xs :: int list. truth (0 \<notin> set xs))"
proof
  have "foldl (\<lambda>r x. if x = 0 then 0 else r) r xs = (if 0 \<in> set xs then 0 else r)" for r :: int and xs :: "int list"
    by (induction xs arbitrary: r) auto
  then show "foldl (\<lambda>r x. if x = 0 then 0 else r) 1 xs = truth (0 \<notin> set xs)" for xs :: "int list"
    by (simp add: truth_def)
qed

lemma foldl_or: "foldl (\<lambda>r x. if x \<noteq> 0 then 1 else r) 0 = (\<lambda>xs :: int list. truth (\<exists>x \<in> set xs. x \<noteq> 0))"
proof
  have "foldl (\<lambda>r x. if x \<noteq> 0 then 1 else r) r xs = (if \<exists>x \<in> set xs. x \<noteq> 0 then 1 else r)" for r :: int and xs :: "int list"
    by (induction xs arbitrary: r) auto
  then show "foldl (\<lambda>r x. if x \<noteq> 0 then 1 else r) 0 xs = truth (\<exists>x \<in> set xs. x \<noteq> 0)" for xs :: "int list"
    by (simp add: truth_def)
qed

text \<open>The result of an evaluation that cannot overflow.\<close>

definition of_exact :: "int option \<Rightarrow> value_result" where
  "of_exact r = (case r of None \<Rightarrow> Err Undefined | Some x \<Rightarrow> Ok x)"

lemma of_exact_simps [simp]: "of_exact None = Err Undefined" "of_exact (Some x) = Ok x"
  by (simp_all add: of_exact_def)

lemma loop_values_exact:
  "loop_values f (map of_exact rs) s = (case those rs of None \<Rightarrow> Err Undefined | Some xs \<Rightarrow> Ok (foldl f s xs))"
  by (induction rs arbitrary: s) (auto split: option.splits)

lemma lift2_exact: "lift2 f (of_exact a) (of_exact b) = of_exact (opt2 (\<lambda>x y. Some (f x y)) a b)"
  by (cases a; cases b) (simp_all add: lift2_def opt2_def)

lemma to_bool_simps [simp]: "to_bool x = 0 \<longleftrightarrow> x = 0" "to_bool x = 1 \<longleftrightarrow> x \<noteq> 0"
  by (simp_all add: to_bool_def)

lemma rust_div_min: "rust_div i64_min (-1) = - i64_min"
  by (simp add: rust_div_def i64_min_def)

lemma those_map_Some: "those (map f xs) = Some ys \<longleftrightarrow> list_all2 (\<lambda>x y. f x = Some y) xs ys"
  by (induction xs arbitrary: ys) (auto simp: list_all2_Cons1 split: option.splits)

lemma loop_values_map:
  assumes "\<And>e. e \<in> set es \<Longrightarrow> ev e = of_exact (ex e)"
  shows "loop_values f (map ev es) s = of_exact (map_option (foldl f s) (those (map ex es)))"
proof -
  have "map ev es = map of_exact (map ex es)" using assms by simp
  then show ?thesis unfolding \<open>map ev es = _\<close> loop_values_exact by (simp add: of_exact_def split: option.splits)
qed

lemma fits_operands:
  "fits val (ENeg a) \<Longrightarrow> fits val a" "fits val (EAbs a) \<Longrightarrow> fits val a" "fits val (ENot a) \<Longrightarrow> fits val a"
  "fits val (EAdd es) \<Longrightarrow> \<forall>e \<in> set es. fits val e" "fits val (EMul es) \<Longrightarrow> \<forall>e \<in> set es. fits val e"
  "fits val (EMin es) \<Longrightarrow> \<forall>e \<in> set es. fits val e" "fits val (EMax es) \<Longrightarrow> \<forall>e \<in> set es. fits val e"
  "fits val (EAnd es) \<Longrightarrow> \<forall>e \<in> set es. fits val e" "fits val (EOr es) \<Longrightarrow> \<forall>e \<in> set es. fits val e"
  "fits val (ESub a b) \<Longrightarrow> fits val a \<and> fits val b" "fits val (EDiv a b) \<Longrightarrow> fits val a \<and> fits val b"
  "fits val (EMod a b) \<Longrightarrow> fits val a \<and> fits val b" "fits val (EEq a b) \<Longrightarrow> fits val a \<and> fits val b"
  "fits val (ENe a b) \<Longrightarrow> fits val a \<and> fits val b" "fits val (ELt a b) \<Longrightarrow> fits val a \<and> fits val b"
  "fits val (ELe a b) \<Longrightarrow> fits val a \<and> fits val b" "fits val (EGt a b) \<Longrightarrow> fits val a \<and> fits val b"
  "fits val (EGe a b) \<Longrightarrow> fits val a \<and> fits val b" "fits val (EImp a b) \<Longrightarrow> fits val a \<and> fits val b"
  "fits val (EIff a b) \<Longrightarrow> fits val a \<and> fits val b"
  "fits val (EIte c t e) \<Longrightarrow> fits val c \<and> fits val t \<and> fits val e"
  by (auto simp: fits_def list_all_iff)

lemma fits_self: "fits val e \<Longrightarrow> exact val e = Some x \<Longrightarrow> in_i64 x"
  by (cases e) (auto simp: fits_def fits_node_def)

lemma fits_wraps: "fits val e \<Longrightarrow> map_option as_i64 (exact val e) = exact val e"
  by (cases "exact val e") (auto dest: fits_self simp: as_i64_id)

lemma eval_exact: "fits val e \<Longrightarrow> expr_eval val e = of_exact (exact val e)"
proof (induction val e rule: expr_eval.induct)
  case (3 val a)
  then show ?case using fits_self [OF "3.prems"] fits_operands(1) [OF "3.prems"]
    by (cases "exact val a") (auto simp: as_i64_id)
next
  case (4 val a)
  then show ?case using fits_self [OF "4.prems"] fits_operands(2) [OF "4.prems"]
    by (cases "exact val a") (auto simp: as_i64_id)
next
  case (5 val es)
  have "expr_eval val e = of_exact (exact val e)" if "e \<in> set es" for e
    using "5.IH" that fits_operands(4) [OF "5.prems"] by blast
  note lv = loop_values_map [OF this]
  have "foldl (\<lambda>s x. as_i64 (s + x)) 0 = (\<lambda>xs. as_i64 (sum_list xs))"
    by (rule ext, subst foldl_add) (simp_all add: as_i64_def)
  then show ?case using fits_wraps [OF "5.prems"] by (simp add: lv option.map_comp comp_def)
next
  case (6 val a b)
  then show ?case using fits_self [OF "6.prems"] fits_operands(10) [OF "6.prems"]
    by (cases "exact val a"; cases "exact val b") (auto simp: lift2_def opt2_def as_i64_id)
next
  case (7 val es)
  have "expr_eval val e = of_exact (exact val e)" if "e \<in> set es" for e
    using "7.IH" that fits_operands(5) [OF "7.prems"] by blast
  note lv = loop_values_map [OF this]
  have "foldl (\<lambda>s x. as_i64 (s * x)) 1 = (\<lambda>xs. as_i64 (prod_list xs))"
    by (rule ext, subst foldl_mult) (simp_all add: as_i64_def)
  then show ?case using fits_wraps [OF "7.prems"] by (simp add: lv option.map_comp comp_def)
next
  case (8 val a b)
  have "\<not> (exact val a = Some i64_min \<and> exact val b = Some (-1))"
    using fits_self [OF "8.prems"] by (auto simp: opt2_def nonzero_def rust_div_min) (simp add: in_i64_def i64_min_def i64_max_def)
  then show ?case using 8 fits_operands(11) [OF "8.prems"]
    by (cases "exact val a"; cases "exact val b") (auto simp: div_values_def opt2_def nonzero_def)
next
  case (9 val a b)
  have "\<not> (exact val a = Some i64_min \<and> exact val b = Some (-1))"
    using "9.prems" by (auto simp: fits_def fits_node_def)
  then show ?case using 9 fits_operands(12) [OF "9.prems"]
    by (cases "exact val a"; cases "exact val b") (auto simp: div_values_def opt2_def nonzero_def)
next
  case (10 val es)
  then show ?case using fits_operands(6) [OF "10.prems"] by (simp add: loop_values_map [where ex = "exact val"])
next
  case (11 val es)
  then show ?case using fits_operands(7) [OF "11.prems"] by (simp add: loop_values_map [where ex = "exact val"])
next
  case (12 val a b)
  then show ?case using fits_operands(13) [OF "12.prems"] by (simp add: lift2_exact)
next
  case (13 val a b)
  then show ?case using fits_operands(14) [OF "13.prems"] by (simp add: lift2_exact)
next
  case (14 val a b)
  then show ?case using fits_operands(15) [OF "14.prems"] by (simp add: lift2_exact)
next
  case (15 val a b)
  then show ?case using fits_operands(16) [OF "15.prems"] by (simp add: lift2_exact)
next
  case (16 val a b)
  then show ?case using fits_operands(17) [OF "16.prems"] by (simp add: lift2_exact)
next
  case (17 val a b)
  then show ?case using fits_operands(18) [OF "17.prems"] by (simp add: lift2_exact)
next
  case (18 val a)
  then show ?case using fits_operands(3) [OF "18.prems"]
    by (cases "exact val a") (simp_all add: truth_def to_bool_def)
next
  case (19 val es)
  then show ?case using fits_operands(8) [OF "19.prems"]
    by (simp add: loop_values_map [where ex = "exact val"] foldl_and)
next
  case (20 val es)
  then show ?case using fits_operands(9) [OF "20.prems"]
    by (simp add: loop_values_map [where ex = "exact val"] foldl_or)
next
  case (21 val a b)
  then show ?case using fits_operands(19) [OF "21.prems"]
    by (cases "exact val a"; cases "exact val b") (auto simp: truth_def to_bool_def)
next
  case (22 val a b)
  then show ?case using fits_operands(20) [OF "22.prems"]
    by (cases "exact val a"; cases "exact val b") (auto simp: lift2_def opt2_def truth_def to_bool_def)
next
  case (23 val c t e)
  then show ?case using fits_operands(21) [OF "23.prems"] by (cases "exact val c") auto
qed simp_all

end
