(* ===== verification/ExprBounds.thy ===== *)
theory ExprBounds imports ExprProps begin

text \<open>
  Soundness of \<open>Expr::bounds\<close>: the interval is well formed, lies inside \<open>i64\<close> and encloses
  the value of the expression. Three places of the code need a side condition, and each has
  a counterexample without it: negations of \<open>i64::MIN\<close> and products beyond \<open>i128\<close> wrap, and
  an implication whose antecedent is certain returns the bounds of its consequent although
  it evaluates to 0 or 1.
\<close>

section \<open>The side conditions\<close>

definition low_ok :: "interval option \<Rightarrow> bool" where
  "low_ok r = (case r of None \<Rightarrow> True | Some b \<Rightarrow> fst b \<noteq> i64_min)"

fun mul_fits :: "interval list \<Rightarrow> interval \<Rightarrow> bool" where
  "mul_fits [] acc = True"
| "mul_fits (b # bs) acc = (list_all in_i128 (corners (*) acc b) \<and> mul_fits bs (imul acc b))"

definition tame_node :: "(var_id \<Rightarrow> interval) \<Rightarrow> expr \<Rightarrow> bool" where
  "tame_node bd s = (case s of
     ENeg a \<Rightarrow> low_ok (expr_bounds bd a)
   | EAbs a \<Rightarrow> low_ok (expr_bounds bd a)
   | EDiv a b \<Rightarrow> low_ok (expr_bounds bd a)
   | EMod a b \<Rightarrow> low_ok (expr_bounds bd b)
   | EMul es \<Rightarrow> (case those (map (expr_bounds bd) es) of None \<Rightarrow> True | Some bs \<Rightarrow> mul_fits bs (1, 1))
   | EImp a b \<Rightarrow> expr_bounds bd a = Some b_true \<longrightarrow>
       (case expr_bounds bd b of None \<Rightarrow> True | Some c \<Rightarrow> 0 \<le> fst c \<and> snd c \<le> 1)
   | _ \<Rightarrow> True)"

definition tame :: "(var_id \<Rightarrow> interval) \<Rightarrow> expr \<Rightarrow> bool" where
  "tame bd e \<longleftrightarrow> list_all (tame_node bd) (parts e)"

section \<open>Enclosures\<close>

text \<open>\<open>encl r x\<close>: \<open>r\<close> is an interval inside \<open>i64\<close>, and it holds the value if there is one.\<close>

definition encl :: "interval option \<Rightarrow> int option \<Rightarrow> bool" where
  "encl r v \<longleftrightarrow> (\<exists>l h. r = Some (l, h) \<and> in_i64 l \<and> in_i64 h \<and> l \<le> h \<and> (\<forall>x. v = Some x \<longrightarrow> l \<le> x \<and> x \<le> h))"

lemma enclI: "\<lbrakk>in_i64 l; in_i64 h; l \<le> h; \<And>x. v = Some x \<Longrightarrow> l \<le> x \<and> x \<le> h\<rbrakk> \<Longrightarrow> encl (Some (l, h)) v"
  by (auto simp: encl_def)

lemma enclE:
  assumes "encl r v"
  obtains l h where "r = Some (l, h)" "in_i64 l" "in_i64 h" "l \<le> h" "\<And>x. v = Some x \<Longrightarrow> l \<le> x \<and> x \<le> h"
  using assms by (auto simp: encl_def)

lemma in_i64_abs: "in_i64 x \<Longrightarrow> x \<noteq> i64_min \<Longrightarrow> in_i64 (- x) \<and> in_i64 \<bar>x\<bar>"
  by (auto simp: in_i64_def i64_min_def i64_max_def)

lemma in_i64_mid: "in_i64 l \<Longrightarrow> in_i64 h \<Longrightarrow> l \<le> x \<Longrightarrow> x \<le> h \<Longrightarrow> in_i64 x"
  by (auto simp: in_i64_def)

lemma in_i64_small [simp]: "in_i64 0" "in_i64 1" "in_i64 i64_min" "in_i64 i64_max"
  by (simp_all add: in_i64_def i64_min_def i64_max_def)

lemma in_i64_clamp [simp]: "in_i64 (clamp_i64 x)"
  by (auto simp: clamp_i64_def in_i64_def i64_min_def i64_max_def)

lemma clamp_mono: "x \<le> y \<Longrightarrow> clamp_i64 x \<le> clamp_i64 y"
  by (auto simp: clamp_i64_def)

lemma clamp_id: "in_i64 x \<Longrightarrow> clamp_i64 x = x"
  by (auto simp: clamp_i64_def in_i64_def)

lemma clamp_encl:
  assumes "l \<le> h" "\<And>x. v = Some x \<Longrightarrow> l \<le> x \<and> x \<le> h \<and> in_i64 x"
  shows "encl (Some (clamp_i64 l, clamp_i64 h)) v"
  using assms clamp_mono clamp_id by (intro enclI) (auto, metis+)

lemma neg_encl:
  assumes e: "encl r v" and low: "low_ok r"
  shows "encl (map_option (\<lambda>(l, h). (as_i64 (- h), as_i64 (- l))) r) (map_option uminus v)"
  using e
proof (rule enclE)
  fix l h assume r: "r = Some (l, h)" and b: "in_i64 l" "in_i64 h" "l \<le> h" and v: "\<And>x. v = Some x \<Longrightarrow> l \<le> x \<and> x \<le> h"
  have ne: "l \<noteq> i64_min" "h \<noteq> i64_min" using low r b by (auto simp: low_ok_def in_i64_def)
  then have "in_i64 (- l)" "in_i64 (- h)" using b in_i64_abs by blast+
  then show ?thesis using b v by (auto simp: r as_i64_id intro!: enclI)
qed

lemma abs_encl:
  assumes e: "encl r v" and low: "low_ok r"
  shows "encl (map_option abs_bounds r) (map_option abs v)"
  using e
proof (rule enclE)
  fix l h assume r: "r = Some (l, h)" and b: "in_i64 l" "in_i64 h" "l \<le> h" and v: "\<And>x. v = Some x \<Longrightarrow> l \<le> x \<and> x \<le> h"
  have ne: "l \<noteq> i64_min" "h \<noteq> i64_min" using low r b by (auto simp: low_ok_def in_i64_def)
  then have "in_i64 (- l)" "in_i64 (- h)" using b in_i64_abs by blast+
  then show ?thesis
    using b v by (cases v) (auto simp: r abs_bounds_def as_i64_id max_def intro!: enclI)
qed

lemma sub_encl:
  assumes "encl r v" "encl s w" "\<And>x. opt2 (\<lambda>x y. Some (x - y)) v w = Some x \<Longrightarrow> in_i64 x"
  shows "encl (both (\<lambda>a b. Some (clamp_i64 (fst a - snd b), clamp_i64 (snd a - fst b))) r s)
    (opt2 (\<lambda>x y. Some (x - y)) v w)"
proof -
  obtain l h where r: "r = Some (l, h)" "l \<le> h" "\<forall>x. v = Some x \<longrightarrow> l \<le> x \<and> x \<le> h"
    using assms(1) unfolding encl_def by blast
  obtain l' h' where s: "s = Some (l', h')" "l' \<le> h'" "\<forall>x. w = Some x \<longrightarrow> l' \<le> x \<and> x \<le> h'"
    using assms(2) unfolding encl_def by blast
  have "encl (Some (clamp_i64 (l - h'), clamp_i64 (h - l'))) (opt2 (\<lambda>x y. Some (x - y)) v w)"
  proof (rule clamp_encl)
    show "l - h' \<le> h - l'" using r(2) s(2) by simp
    fix x assume x: "opt2 (\<lambda>x y. Some (x - y)) v w = Some x"
    then obtain y z where "v = Some y" "w = Some z" "x = y - z" by (auto simp: opt2_def split: option.splits)
    then show "l - h' \<le> x \<and> x \<le> h - l' \<and> in_i64 x" using r(3) s(3) assms(3) [OF x] by fastforce
  qed
  then show ?thesis by (simp add: both_def r s)
qed

section \<open>Corners\<close>

definition between :: "int \<Rightarrow> int \<Rightarrow> int \<Rightarrow> bool" where
  "between a b c \<longleftrightarrow> min a b \<le> c \<and> c \<le> max a b"

lemma corners_enclose:
  assumes x: "\<And>y. y \<in> {c..d} \<Longrightarrow> between (f a y) (f b y) (f x y)"
    and y: "between (f a c) (f a d) (f a y)" "between (f b c) (f b d) (f b y)" and yr: "y \<in> {c..d}"
  shows "Min (set (corners f (a, b) (c, d))) \<le> f x y \<and> f x y \<le> Max (set (corners f (a, b) (c, d)))"
proof -
  have "min (min (f a c) (f a d)) (min (f b c) (f b d)) \<le> f x y"
    "f x y \<le> max (max (f a c) (f a d)) (max (f b c) (f b d))"
    using x [OF yr] y by (auto simp: between_def)
  then show ?thesis by (auto simp: corners_def min_le_iff_disj le_max_iff_disj)
qed

lemma corners_min_max: "Min (set (corners f a b)) \<le> Max (set (corners f a b))"
  by (auto simp: corners_def min_le_iff_disj le_max_iff_disj)

lemma corners_in: "Min (set (corners f a b)) \<in> set (corners f a b)" "Max (set (corners f a b)) \<in> set (corners f a b)"
proof -
  have "set (corners f a b) \<noteq> {}" by (simp add: corners_def)
  then show "Min (set (corners f a b)) \<in> set (corners f a b)" "Max (set (corners f a b)) \<in> set (corners f a b)"
    by (auto intro: Min_in Max_in)
qed

lemma between_mult: "a \<le> x \<Longrightarrow> x \<le> b \<Longrightarrow> between (a * y) (b * y) (x * y)"
  by (cases "0 \<le> y") (auto simp: between_def min_le_iff_disj le_max_iff_disj mult_right_mono mult_right_mono_neg)

lemma between_mult_right: "c \<le> y \<Longrightarrow> y \<le> d \<Longrightarrow> between (a * c) (a * d) (a * (y :: int))"
  using between_mult [of c y d a] by (simp add: mult.commute)

lemma mult_corners:
  "\<lbrakk>a \<le> x; x \<le> b; c \<le> y; y \<le> d\<rbrakk> \<Longrightarrow>
     Min (set (corners (*) (a, b) (c, d))) \<le> x * y \<and> x * y \<le> Max (set (corners (*) (a, b) (c, d)))"
  by (intro corners_enclose between_mult between_mult_right) auto

text \<open>The truncated quotient is monotone in the dividend, and in the divisor on one side of zero.\<close>

lemma rust_div_pos: "0 < d \<Longrightarrow> rust_div x d = (if 0 \<le> x then x div d else - ((- x) div d))"
  by (auto simp: rust_div_def sgn_if)

lemma rust_div_neg: "rust_div x (- d) = - rust_div x d"
  by (auto simp: rust_div_def sgn_if)

lemma rust_div_mono: "0 < d \<Longrightarrow> x \<le> y \<Longrightarrow> rust_div x d \<le> rust_div y d"
proof -
  assume d: "0 < d" and xy: "x \<le> y"
  consider "0 \<le> x" | "y < 0" | "x < 0" "0 \<le> y" by linarith
  then show ?thesis
  proof cases
    case 1
    then show ?thesis using d xy zdiv_mono1 [of x y d] by (simp add: rust_div_pos)
  next
    case 2
    then show ?thesis using d xy zdiv_mono1 [of "- y" "- x" d] by (simp add: rust_div_pos)
  next
    case 3
    then have "0 \<le> (- x) div d" "0 \<le> y div d" using d by (simp_all add: pos_imp_zdiv_nonneg_iff)
    then show ?thesis using d 3 by (simp add: rust_div_pos)
  qed
qed

lemma rust_div_antimono: "0 < c \<Longrightarrow> c \<le> d \<Longrightarrow> if 0 \<le> x then rust_div x d \<le> rust_div x c else rust_div x c \<le> rust_div x d"
  using zdiv_mono2 [of x c d] zdiv_mono2 [of "- x" c d] by (auto simp: rust_div_pos)

lemma between_div: "y \<noteq> 0 \<Longrightarrow> a \<le> x \<Longrightarrow> x \<le> b \<Longrightarrow> between (rust_div a y) (rust_div b y) (rust_div x y)"
proof (cases "0 < y")
  case False
  assume y: "y \<noteq> 0" and x: "a \<le> x" "x \<le> b"
  have "between (- rust_div a (- y)) (- rust_div b (- y)) (- rust_div x (- y))"
    using False y x rust_div_mono [of "- y" a x] rust_div_mono [of "- y" x b] by (auto simp: between_def)
  then show ?thesis by (simp add: rust_div_neg)
qed (auto simp: between_def intro!: min.coboundedI1 max.coboundedI2 rust_div_mono)

lemma between_div_right:
  assumes y: "c \<le> y" "y \<le> d" and side: "0 < c \<or> d < 0"
  shows "between (rust_div a c) (rust_div a d) (rust_div a y)"
proof (cases "0 < c")
  case True
  then show ?thesis
    using y rust_div_antimono [of c y a] rust_div_antimono [of y d a] by (auto simp: between_def split: if_splits)
next
  case False
  then have "d < 0" using side by simp
  then have "between (- rust_div a (- c)) (- rust_div a (- d)) (- rust_div a (- y))"
    using y rust_div_antimono [of "- d" "- y" a] rust_div_antimono [of "- y" "- c" a]
    by (auto simp: between_def split: if_splits)
  then show ?thesis by (simp add: rust_div_neg)
qed

lemma div_corners:
  "\<lbrakk>a \<le> x; x \<le> b; c \<le> y; y \<le> d; 0 < c \<or> d < 0\<rbrakk> \<Longrightarrow>
     Min (set (corners rust_div (a, b) (c, d))) \<le> rust_div x y \<and> rust_div x y \<le> Max (set (corners rust_div (a, b) (c, d)))"
  by (intro corners_enclose between_div between_div_right) auto

lemma rust_div_shrinks: "\<bar>rust_div x y\<bar> \<le> \<bar>x\<bar>"
proof (cases "y = 0")
  case False
  have "\<bar>x\<bar> div \<bar>y\<bar> \<le> \<bar>x\<bar> div 1" using False by (intro zdiv_mono2) auto
  then show ?thesis by (simp add: rust_div_abs)
qed (simp add: rust_div_def)

lemma in_i64_div:
  assumes "in_i64 x" "y \<noteq> 0" "\<not> (x = i64_min \<and> y = -1)"
  shows "in_i64 (rust_div x y)"
proof (cases "x = i64_min")
  case False
  then have "\<bar>x\<bar> \<le> i64_max" using assms(1) by (auto simp: in_i64_def i64_min_def i64_max_def)
  then show ?thesis using rust_div_shrinks [of x y] by (auto simp: in_i64_def i64_min_def i64_max_def)
next
  case True
  show ?thesis
  proof (cases "y = 1")
    case False
    then have "2 \<le> \<bar>y\<bar>" using assms True by auto
    then have "\<bar>x\<bar> div \<bar>y\<bar> \<le> \<bar>x\<bar> div 2" by (intro zdiv_mono2) auto
    then have "\<bar>rust_div x y\<bar> \<le> \<bar>x\<bar> div 2" using assms(2) by (simp add: rust_div_abs)
    then show ?thesis unfolding True by (auto simp: in_i64_def i64_min_def i64_max_def)
  qed (simp add: True rust_div_def i64_min_def in_i64_def i64_max_def)
qed

lemma div_encl:
  assumes e: "encl r v" "encl s w" and low: "low_ok r"
  shows "encl (both div_bounds r s) (opt2 (nonzero rust_div) v w)"
proof -
  obtain l h where r: "r = Some (l, h)" "in_i64 l" "in_i64 h" "l \<le> h" "\<forall>x. v = Some x \<longrightarrow> l \<le> x \<and> x \<le> h"
    using e(1) unfolding encl_def by blast
  obtain c d where s: "s = Some (c, d)" "in_i64 c" "in_i64 d" "c \<le> d" "\<forall>x. w = Some x \<longrightarrow> c \<le> x \<and> x \<le> d"
    using e(2) unfolding encl_def by blast
  have ne: "l \<noteq> i64_min" "h \<noteq> i64_min" using low r by (auto simp: low_ok_def in_i64_def)
  have ops: "\<exists>x y. v = Some x \<and> w = Some y \<and> y \<noteq> 0 \<and> q = rust_div x y"
    if "opt2 (nonzero rust_div) v w = Some q" for q
    using that by (auto simp: opt2_def nonzero_def split: option.splits if_splits)
  note r5 = r(5) and s5 = s(5)
  show ?thesis
  proof (cases "c \<le> 0 \<and> d \<ge> 0")
    case True
    let ?m = "max \<bar>l\<bar> \<bar>h\<bar>"
    have m: "in_i64 \<bar>l\<bar>" "in_i64 \<bar>h\<bar>" using ne r(2,3) in_i64_abs by blast+
    then have "in_i64 ?m" "in_i64 (- ?m)" by (auto simp: max_def in_i64_def i64_min_def i64_max_def)
    moreover have "- ?m \<le> q \<and> q \<le> ?m" if q: "opt2 (nonzero rust_div) v w = Some q" for q
    proof -
      obtain x y where "v = Some x" "q = rust_div x y" using ops [OF q] by blast
      then have "\<bar>q\<bar> \<le> \<bar>x\<bar>" "\<bar>x\<bar> \<le> ?m" using rust_div_shrinks r(5) by (auto simp: max_def)
      then show ?thesis by linarith
    qed
    moreover have "- ?m \<le> ?m" by (simp add: max_def)
    ultimately have "encl (Some (- ?m, ?m)) (opt2 (nonzero rust_div) v w)" by (intro enclI)
    moreover have "as_i64 \<bar>l\<bar> = \<bar>l\<bar>" "as_i64 \<bar>h\<bar> = \<bar>h\<bar>" "as_i64 (- ?m) = - ?m"
      using m \<open>in_i64 (- ?m)\<close> by (simp_all only: as_i64_id)
    ultimately show ?thesis using True by (simp add: both_def r(1) s(1) div_bounds_def Let_def)
  next
    case False
    let ?p = "corners rust_div (l, h) (c, d)"
    have side: "0 < c \<or> d < 0" using False by auto
    then have nz: "c \<noteq> 0" "d \<noteq> 0" using s(4) by auto
    have "\<forall>q \<in> set ?p. in_i64 q" using r(2,3) ne nz by (auto simp: corners_def intro: in_i64_div)
    then have "in_i64 (Min (set ?p))" "in_i64 (Max (set ?p))" using corners_in by blast+
    moreover have "Min (set ?p) \<le> q \<and> q \<le> Max (set ?p)" if "opt2 (nonzero rust_div) v w = Some q" for q
      using ops [OF that] r(5) s(5) div_corners side by blast
    ultimately have "encl (Some (Min (set ?p), Max (set ?p))) (opt2 (nonzero rust_div) v w)"
      by (intro enclI corners_min_max)
    moreover have "div_bounds (l, h) (c, d) = Some (Min (set ?p), Max (set ?p))"
      using False ne nz by (auto simp: div_bounds_def Let_def)
    ultimately show ?thesis by (simp add: both_def r(1) s(1))
  qed
qed

lemma mod_encl:
  assumes e: "encl s w" and low: "low_ok s"
  shows "encl (map_option mod_bounds s) (opt2 (nonzero rust_rem) v w)"
proof -
  obtain c d where s: "s = Some (c, d)" "in_i64 c" "in_i64 d" "c \<le> d" "\<forall>x. w = Some x \<longrightarrow> c \<le> x \<and> x \<le> d"
    using e unfolding encl_def by blast
  have ne: "c \<noteq> i64_min" "d \<noteq> i64_min" using low s by (auto simp: low_ok_def in_i64_def)
  let ?m = "max \<bar>c\<bar> \<bar>d\<bar>"
  have m: "in_i64 \<bar>c\<bar>" "in_i64 \<bar>d\<bar>" using ne s(2,3) in_i64_abs by blast+
  have abs: "as_i64 \<bar>c\<bar> = \<bar>c\<bar>" "as_i64 \<bar>d\<bar> = \<bar>d\<bar>" using m by (simp_all add: as_i64_id)
  have q: "\<bar>q\<bar> < ?m" if op: "opt2 (nonzero rust_rem) v w = Some q" for q
  proof -
    obtain x y where "w = Some y" "y \<noteq> 0" "q = rust_rem x y"
      using op by (auto simp: opt2_def nonzero_def split: option.splits if_splits)
    then have "\<bar>q\<bar> < \<bar>y\<bar>" "\<bar>y\<bar> \<le> ?m" using rust_rem_abs_less s(5) by (auto simp: max_def)
    then show ?thesis by linarith
  qed
  show ?thesis
  proof (cases "?m = 0")
    case True
    then have "encl (Some (0, 0)) (opt2 (nonzero rust_rem) v w)" using q by (intro enclI) fastforce+
    moreover have "c = 0" "d = 0" using True by (simp_all add: max_def split: if_splits)
    ultimately show ?thesis using abs by (simp add: s(1) mod_bounds_def Let_def)
  next
    case False
    moreover have "0 \<le> ?m" by (simp add: le_max_iff_disj)
    ultimately have pos: "0 < ?m" by linarith
    have "in_i64 ?m" using m by (auto simp: max_def)
    then have fit: "in_i64 (?m - 1)" "in_i64 (- (?m - 1))" using pos by (auto simp: in_i64_def i64_min_def i64_max_def)
    have "encl (Some (- (?m - 1), ?m - 1)) (opt2 (nonzero rust_rem) v w)"
    proof (rule enclI [OF fit(2) fit(1)])
      show "- (?m - 1) \<le> ?m - 1" using pos by linarith
      show "- (?m - 1) \<le> x \<and> x \<le> ?m - 1" if "opt2 (nonzero rust_rem) v w = Some x" for x
        using q [OF that] by linarith
    qed
    then show ?thesis using False fit by (simp add: s(1) mod_bounds_def abs Let_def as_i64_id)
  qed
qed

section \<open>Truth values\<close>

lemma b_simps [simp]:
  "b_true \<noteq> b_false" "b_false \<noteq> b_true" "b_maybe \<noteq> b_true" "b_maybe \<noteq> b_false" "b_true \<noteq> b_maybe" "b_false \<noteq> b_maybe"
  by (simp_all add: b_true_def b_false_def b_maybe_def)

lemma truth_encl:
  "r = b_true \<and> (\<forall>x. v = Some x \<longrightarrow> x = 1) \<or> r = b_false \<and> (\<forall>x. v = Some x \<longrightarrow> x = 0) \<or>
   r = b_maybe \<and> (\<forall>x. v = Some x \<longrightarrow> x = 0 \<or> x = 1) \<Longrightarrow> encl (Some r) v"
  unfolding b_true_def b_false_def b_maybe_def by (elim disjE conjE; cases v) (auto simp: encl_def)

lemma encl_true: "encl (Some b_true) v \<Longrightarrow> v = Some x \<Longrightarrow> x = 1"
  by (auto simp: encl_def b_true_def)

lemma encl_false: "encl (Some b_false) v \<Longrightarrow> v = Some x \<Longrightarrow> x = 0"
  by (auto simp: encl_def b_false_def)

text \<open>A comparison of two enclosed values, from what its bounds decide.\<close>

lemma compare_encl:
  assumes e: "encl r v" "encl s w"
    and dec: "\<And>a b x y. \<lbrakk>fst a \<le> x; x \<le> snd a; fst b \<le> y; y \<le> snd b\<rbrakk> \<Longrightarrow>
      f a b = b_true \<and> P x y \<or> f a b = b_false \<and> \<not> P x y \<or> f a b = b_maybe"
  shows "encl (both (\<lambda>a b. Some (f a b)) r s) (opt2 (\<lambda>x y. Some (truth (P x y))) v w)"
proof -
  obtain l h where r: "r = Some (l, h)" "l \<le> h" "\<forall>x. v = Some x \<longrightarrow> l \<le> x \<and> x \<le> h"
    using e(1) unfolding encl_def by blast
  obtain c d where s: "s = Some (c, d)" "c \<le> d" "\<forall>x. w = Some x \<longrightarrow> c \<le> x \<and> x \<le> d"
    using e(2) unfolding encl_def by blast
  let ?b = "f (l, h) (c, d)"
  have dec': "?b = b_true \<and> P x y \<or> ?b = b_false \<and> \<not> P x y \<or> ?b = b_maybe" if "l \<le> x" "x \<le> h" "c \<le> y" "y \<le> d" for x y
    using dec [of "(l, h)" x "(c, d)" y] that by simp
  have "?b = b_true \<or> ?b = b_false \<or> ?b = b_maybe" using dec' [of l c] r(2) s(2) by blast
  moreover have "t = (if ?b = b_true then 1 else if ?b = b_false then 0 else t) \<and> (t = 0 \<or> t = 1)"
    if t: "opt2 (\<lambda>x y. Some (truth (P x y))) v w = Some t" for t
  proof -
    obtain x y where xy: "v = Some x" "w = Some y" "t = truth (P x y)" using t by (auto simp: opt2_def split: option.splits)
    then have "?b = b_true \<and> P x y \<or> ?b = b_false \<and> \<not> P x y \<or> ?b = b_maybe" using dec' r(3) s(3) by blast
    then show ?thesis unfolding xy(3) truth_def by auto
  qed
  ultimately have "encl (Some ?b) (opt2 (\<lambda>x y. Some (truth (P x y))) v w)"
    by (intro truth_encl) (elim disjE, auto)
  then show ?thesis by (simp add: both_def r(1) s(1))
qed

lemma iff_encl:
  assumes e: "encl r v" "encl s w"
  shows "encl (both (\<lambda>a b. Some (iff_bounds a b)) r s) (opt2 (\<lambda>x y. Some (truth ((x = 0) = (y = 0)))) v w)"
proof (rule compare_encl [OF e])
  fix a b :: interval and x y :: int
  assume xy: "fst a \<le> x" "x \<le> snd a" "fst b \<le> y" "y \<le> snd b"
  show "iff_bounds a b = b_true \<and> (x = 0) = (y = 0) \<or> iff_bounds a b = b_false \<and> \<not> (x = 0) = (y = 0) \<or> iff_bounds a b = b_maybe"
  proof (cases "(a = b_true \<or> a = b_false) \<and> (b = b_true \<or> b = b_false)")
    case True
    then have "a = b_true \<and> x = 1 \<or> a = b_false \<and> x = 0" "b = b_true \<and> y = 1 \<or> b = b_false \<and> y = 0"
      using xy by (auto simp: b_true_def b_false_def)
    then show ?thesis by (elim disjE conjE) (simp_all add: iff_bounds_def)
  next
    case False
    then show ?thesis unfolding iff_bounds_def if_not_P [OF False] by simp
  qed
qed

lemma not_encl:
  assumes e: "encl r v"
  shows "encl (map_option (\<lambda>b. if b = b_true then b_false else if b = b_false then b_true else b_maybe) r)
    (map_option (\<lambda>x. truth (x = 0)) v)"
proof -
  obtain b where r: "r = Some b" using e by (auto simp: encl_def)
  consider "b = b_true" | "b = b_false" | "b \<noteq> b_true" "b \<noteq> b_false" by blast
  then show ?thesis
  proof cases
    case 1
    then have "v = Some x \<Longrightarrow> x = 1" for x using e encl_true unfolding r by blast
    then show ?thesis unfolding r using 1 by (cases v) (simp_all add: truth_def truth_encl)
  next
    case 2
    then have "v = Some x \<Longrightarrow> x = 0" for x using e encl_false unfolding r by blast
    then show ?thesis unfolding r using 2 by (cases v) (simp_all add: truth_def truth_encl)
  next
    case 3
    then show ?thesis unfolding r by (cases v) (simp_all add: truth_def truth_encl)
  qed
qed

section \<open>Loops over operands\<close>

lemma add_loop:
  "list_all2 encl rs vs \<Longrightarrow> \<exists>l h. loop_bounds (\<lambda>s b. (fst s + fst b, snd s + snd b)) rs (a, b) = Some (a + l, b + h) \<and>
     l \<le> h \<and> (\<forall>xs. those vs = Some xs \<longrightarrow> l \<le> sum_list xs \<and> sum_list xs \<le> h)"
proof (induction arbitrary: a b rule: list_all2_induct)
  case Nil
  then show ?case by (auto intro!: exI [of _ 0])
next
  case (Cons r rs v vs)
  obtain l h where r: "r = Some (l, h)" "l \<le> h" "\<forall>x. v = Some x \<longrightarrow> l \<le> x \<and> x \<le> h"
    using Cons(1) unfolding encl_def by blast
  obtain l' h' where IH: "loop_bounds (\<lambda>s b. (fst s + fst b, snd s + snd b)) rs (a + l, b + h) = Some (a + l + l', b + h + h')"
    "l' \<le> h'" "\<forall>xs. those vs = Some xs \<longrightarrow> l' \<le> sum_list xs \<and> sum_list xs \<le> h'"
    using Cons.IH by blast
  have "l + l' \<le> sum_list xs \<and> sum_list xs \<le> h + h'" if "those (v # vs) = Some xs" for xs
    using that r(3) IH(3) by (fastforce split: option.splits)
  then show ?case
    using IH r(2) by (intro exI [of _ "l + l'"] exI [of _ "h + h'"]) (simp add: r(1) add.assoc)
qed

lemma in_i128_as: "in_i128 x \<Longrightarrow> as_i128 x = x"
  by (simp add: as_i128_def in_i128_def signed_take_bit_int_eq_self_iff)

lemma imul_exact:
  assumes "list_all in_i128 (corners (*) a b)"
  shows "imul a b = (Min (set (corners (*) a b)), Max (set (corners (*) a b)))"
  using assms by (simp add: imul_def corners_def in_i128_as)

lemma encl_those: "list_all2 encl rs vs \<Longrightarrow> \<exists>bs. those rs = Some bs"
  by (induction rule: list_all2_induct) (auto simp: encl_def)

lemma mul_loop:
  "\<lbrakk>list_all2 encl rs vs; those rs = Some bs; mul_fits bs (a, b); a \<le> b\<rbrakk> \<Longrightarrow>
     \<exists>l h. loop_bounds imul rs (a, b) = Some (l, h) \<and> l \<le> h \<and>
       (\<forall>xs y. those vs = Some xs \<longrightarrow> a \<le> y \<longrightarrow> y \<le> b \<longrightarrow> l \<le> y * prod_list xs \<and> y * prod_list xs \<le> h)"
proof (induction arbitrary: a b bs rule: list_all2_induct)
  case Nil
  then show ?case by simp
next
  case (Cons r rs v vs)
  obtain l h where r: "r = Some (l, h)" "l \<le> h" "\<forall>x. v = Some x \<longrightarrow> l \<le> x \<and> x \<le> h"
    using Cons(1) unfolding encl_def by blast
  obtain bs' where bs': "those rs = Some bs'" "bs = (l, h) # bs'"
    using Cons.prems(1) by (auto simp: r(1) split: option.splits)
  have im: "imul (a, b) (l, h) = (Min (set (corners (*) (a, b) (l, h))), Max (set (corners (*) (a, b) (l, h))))"
    using Cons.prems(2) by (intro imul_exact) (simp add: bs'(2))
  obtain a' b' where ab: "imul (a, b) (l, h) = (a', b')" "a' \<le> b'"
    using im corners_min_max by simp
  have step: "a' \<le> y * x \<and> y * x \<le> b'" if "a \<le> y" "y \<le> b" "v = Some x" for x y
    using mult_corners [of a y b l x h] that r(3) ab(1) im by simp
  have "mul_fits bs' (a', b')" using Cons.prems(2) by (simp add: bs'(2) ab(1))
  then obtain l' h' where IH: "loop_bounds imul rs (a', b') = Some (l', h')" "l' \<le> h'"
    "\<forall>xs y. those vs = Some xs \<longrightarrow> a' \<le> y \<longrightarrow> y \<le> b' \<longrightarrow> l' \<le> y * prod_list xs \<and> y * prod_list xs \<le> h'"
    using Cons.IH [OF bs'(1) _ ab(2)] by blast
  have "l' \<le> y * prod_list xs \<and> y * prod_list xs \<le> h'"
    if ys: "those (v # vs) = Some xs" "a \<le> y" "y \<le> b" for xs y
  proof -
    obtain x xs' where "v = Some x" "those vs = Some xs'" "xs = x # xs'" using ys(1) by (auto split: option.splits)
    then show ?thesis using IH(3) step [OF ys(2,3)] by (simp add: mult.assoc [symmetric])
  qed
  then show ?case using IH(1,2) by (simp add: r(1) ab(1))
qed

lemma mono_loop:
  assumes f: "\<And>x y. f x y = x \<or> f x y = (y :: int)" and mono: "\<And>x x' y y'. x \<le> x' \<Longrightarrow> y \<le> y' \<Longrightarrow> f x y \<le> f x' y'"
  shows "\<lbrakk>list_all2 encl rs vs; in_i64 a; in_i64 b; a \<le> b\<rbrakk> \<Longrightarrow>
     \<exists>l h. loop_bounds (\<lambda>s b. (f (fst s) (fst b), f (snd s) (snd b))) rs (a, b) = Some (l, h) \<and> in_i64 l \<and> in_i64 h \<and> l \<le> h \<and>
       (\<forall>xs y. those vs = Some xs \<longrightarrow> a \<le> y \<longrightarrow> y \<le> b \<longrightarrow> l \<le> foldl f y xs \<and> foldl f y xs \<le> h)"
proof (induction arbitrary: a b rule: list_all2_induct)
  case Nil
  then show ?case by simp
next
  case (Cons r rs v vs)
  obtain l h where r: "r = Some (l, h)" "in_i64 l" "in_i64 h" "l \<le> h" "\<forall>x. v = Some x \<longrightarrow> l \<le> x \<and> x \<le> h"
    using Cons(1) unfolding encl_def by blast
  have "in_i64 (f a l)" "in_i64 (f b h)" using f [of a l] f [of b h] Cons.prems r by auto
  then obtain l' h' where IH: "loop_bounds (\<lambda>s b. (f (fst s) (fst b), f (snd s) (snd b))) rs (f a l, f b h) = Some (l', h')"
    "in_i64 l'" "in_i64 h'" "l' \<le> h'"
    "\<forall>xs y. those vs = Some xs \<longrightarrow> f a l \<le> y \<longrightarrow> y \<le> f b h \<longrightarrow> l' \<le> foldl f y xs \<and> foldl f y xs \<le> h'"
    using Cons.IH [OF _ _ mono [OF Cons.prems(3) r(4)]] by blast
  have "l' \<le> foldl f y xs \<and> foldl f y xs \<le> h'"
    if ys: "those (v # vs) = Some xs" "a \<le> y" "y \<le> b" for xs y
  proof -
    obtain x xs' where x: "v = Some x" "those vs = Some xs'" "xs = x # xs'" using ys(1) by (auto split: option.splits)
    then have "f a l \<le> f y x" "f y x \<le> f b h" using r(5) ys(2,3) by (auto intro: mono)
    then show ?thesis using IH(5) x by simp
  qed
  then show ?case using IH(1-4) by (simp add: r(1))
qed

lemma min_choice: "min x y = x \<or> min x y = (y :: int)" and max_choice: "max x y = x \<or> max x y = (y :: int)"
  by (simp_all add: min_def max_def)

lemmas min_loop = mono_loop [of min, OF min_choice min.mono]
lemmas max_loop = mono_loop [of max, OF max_choice max.mono]

lemma and_loop:
  "list_all2 encl rs vs \<Longrightarrow> \<exists>b. and_bounds rs t = Some b \<and>
     (b = b_true \<and> t \<and> (\<forall>xs. those vs = Some xs \<longrightarrow> 0 \<notin> set xs) \<or>
      b = b_false \<and> (\<forall>xs. those vs = Some xs \<longrightarrow> 0 \<in> set xs) \<or> b = b_maybe)"
proof (induction arbitrary: t rule: list_all2_induct)
  case Nil
  then show ?case by simp
next
  case (Cons r rs v vs)
  obtain c where c: "r = Some c" using Cons(1) by (auto simp: encl_def)
  show ?case
  proof (cases "c = b_false")
    case True
    have "0 \<in> set xs" if "those (v # vs) = Some xs" for xs
      using that encl_false [of v] Cons(1) c True by (fastforce split: option.splits)
    then show ?thesis using c True by simp
  next
    case False
    have one: "x \<noteq> 0" if "c = b_true" "v = Some x" for x
      using encl_true [of v x] Cons(1) c that by simp
    obtain b where b: "and_bounds rs (t \<and> c = b_true) = Some b"
      "b = b_true \<and> (t \<and> c = b_true) \<and> (\<forall>xs. those vs = Some xs \<longrightarrow> 0 \<notin> set xs) \<or>
       b = b_false \<and> (\<forall>xs. those vs = Some xs \<longrightarrow> 0 \<in> set xs) \<or> b = b_maybe"
      using Cons.IH by blast
    have "and_bounds (r # rs) t = Some b" using b(1) False by (simp add: c)
    moreover have "b = b_true \<and> t \<and> (\<forall>xs. those (v # vs) = Some xs \<longrightarrow> 0 \<notin> set xs) \<or>
      b = b_false \<and> (\<forall>xs. those (v # vs) = Some xs \<longrightarrow> 0 \<in> set xs) \<or> b = b_maybe"
      using b(2) one by (cases v) auto
    ultimately show ?thesis by blast
  qed
qed

lemma or_loop:
  "list_all2 encl rs vs \<Longrightarrow> \<exists>b. or_bounds rs t = Some b \<and>
     (b = b_false \<and> t \<and> (\<forall>xs. those vs = Some xs \<longrightarrow> (\<forall>x \<in> set xs. x = 0)) \<or>
      b = b_true \<and> (\<forall>xs. those vs = Some xs \<longrightarrow> (\<exists>x \<in> set xs. x \<noteq> 0)) \<or> b = b_maybe)"
proof (induction arbitrary: t rule: list_all2_induct)
  case Nil
  then show ?case by simp
next
  case (Cons r rs v vs)
  obtain c where c: "r = Some c" using Cons(1) by (auto simp: encl_def)
  show ?case
  proof (cases "c = b_true")
    case True
    have "\<exists>x \<in> set xs. x \<noteq> 0" if "those (v # vs) = Some xs" for xs
      using that encl_true [of v] Cons(1) c True by (fastforce split: option.splits)
    then show ?thesis using c True by simp
  next
    case False
    have zero: "x = 0" if "c = b_false" "v = Some x" for x
      using encl_false [of v x] Cons(1) c that by simp
    obtain b where b: "or_bounds rs (t \<and> c = b_false) = Some b"
      "b = b_false \<and> (t \<and> c = b_false) \<and> (\<forall>xs. those vs = Some xs \<longrightarrow> (\<forall>x \<in> set xs. x = 0)) \<or>
       b = b_true \<and> (\<forall>xs. those vs = Some xs \<longrightarrow> (\<exists>x \<in> set xs. x \<noteq> 0)) \<or> b = b_maybe"
      using Cons.IH by blast
    have "or_bounds (r # rs) t = Some b" using b(1) False by (simp add: c)
    moreover have "b = b_false \<and> t \<and> (\<forall>xs. those (v # vs) = Some xs \<longrightarrow> (\<forall>x \<in> set xs. x = 0)) \<or>
      b = b_true \<and> (\<forall>xs. those (v # vs) = Some xs \<longrightarrow> (\<exists>x \<in> set xs. x \<noteq> 0)) \<or> b = b_maybe"
      using b(2) zero by (cases v) auto
    ultimately show ?thesis by blast
  qed
qed

section \<open>Soundness\<close>

definition in_bounds :: "(var_id \<Rightarrow> interval) \<Rightarrow> (var_id \<Rightarrow> int) \<Rightarrow> bool" where
  "in_bounds bd val \<longleftrightarrow> (\<forall>v. in_i64 (fst (bd v)) \<and> in_i64 (snd (bd v)) \<and> fst (bd v) \<le> val v \<and> val v \<le> snd (bd v))"

lemma tame_operands:
  "tame bd (ENeg a) \<Longrightarrow> tame bd a \<and> low_ok (expr_bounds bd a)"
  "tame bd (EAbs a) \<Longrightarrow> tame bd a \<and> low_ok (expr_bounds bd a)"
  "tame bd (ENot a) \<Longrightarrow> tame bd a"
  "tame bd (EAdd es) \<Longrightarrow> \<forall>e \<in> set es. tame bd e" "tame bd (EMul es) \<Longrightarrow> \<forall>e \<in> set es. tame bd e"
  "tame bd (EMin es) \<Longrightarrow> \<forall>e \<in> set es. tame bd e" "tame bd (EMax es) \<Longrightarrow> \<forall>e \<in> set es. tame bd e"
  "tame bd (EAnd es) \<Longrightarrow> \<forall>e \<in> set es. tame bd e" "tame bd (EOr es) \<Longrightarrow> \<forall>e \<in> set es. tame bd e"
  "tame bd (ESub a b) \<Longrightarrow> tame bd a \<and> tame bd b"
  "tame bd (EDiv a b) \<Longrightarrow> tame bd a \<and> tame bd b \<and> low_ok (expr_bounds bd a)"
  "tame bd (EMod a b) \<Longrightarrow> tame bd a \<and> tame bd b \<and> low_ok (expr_bounds bd b)"
  "tame bd (EEq a b) \<Longrightarrow> tame bd a \<and> tame bd b" "tame bd (ENe a b) \<Longrightarrow> tame bd a \<and> tame bd b"
  "tame bd (ELt a b) \<Longrightarrow> tame bd a \<and> tame bd b" "tame bd (ELe a b) \<Longrightarrow> tame bd a \<and> tame bd b"
  "tame bd (EGt a b) \<Longrightarrow> tame bd a \<and> tame bd b" "tame bd (EGe a b) \<Longrightarrow> tame bd a \<and> tame bd b"
  "tame bd (EIff a b) \<Longrightarrow> tame bd a \<and> tame bd b"
  "tame bd (EImp a b) \<Longrightarrow> tame bd a \<and> tame bd b"
  "tame bd (EIte c t e) \<Longrightarrow> tame bd c \<and> tame bd t \<and> tame bd e"
  by (simp_all add: tame_def list_all_iff tame_node_def)

lemma tame_mul: "tame bd (EMul es) \<Longrightarrow> those (map (expr_bounds bd) es) = Some bs \<Longrightarrow> mul_fits bs (1, 1)"
  by (simp add: tame_def tame_node_def)

lemma tame_imp: "tame bd (EImp a b) \<Longrightarrow> expr_bounds bd a = Some b_true \<Longrightarrow> expr_bounds bd b = Some c \<Longrightarrow> 0 \<le> fst c \<and> snd c \<le> 1"
  by (simp add: tame_def tame_node_def)

lemma operands_encl:
  "(\<And>e. e \<in> set es \<Longrightarrow> encl (expr_bounds bd e) (exact val e)) \<Longrightarrow>
     list_all2 encl (map (expr_bounds bd) es) (map (exact val) es)"
  by (simp add: list_all2_conv_all_nth)

lemma opt2_flip: "opt2 (\<lambda>x y. Some (f x y)) a b = opt2 (\<lambda>y x. Some (f x y)) b a"
  by (simp add: opt2_def split: option.splits)

lemma hull_encl:
  assumes e: "encl r v" "encl s w" and u: "\<And>x. u = Some x \<Longrightarrow> v = Some x \<or> w = Some x"
  shows "encl (both (\<lambda>t e. Some (min (fst t) (fst e), max (snd t) (snd e))) r s) u"
proof -
  obtain l h where r: "r = Some (l, h)" "in_i64 l" "in_i64 h" "l \<le> h" "\<forall>x. v = Some x \<longrightarrow> l \<le> x \<and> x \<le> h"
    using e(1) unfolding encl_def by blast
  obtain c d where s: "s = Some (c, d)" "in_i64 c" "in_i64 d" "c \<le> d" "\<forall>x. w = Some x \<longrightarrow> c \<le> x \<and> x \<le> d"
    using e(2) unfolding encl_def by blast
  have "encl (Some (min l c, max h d)) u"
  proof (rule enclI)
    show "in_i64 (min l c)" "in_i64 (max h d)" using r(2,3) s(2,3) by (simp_all add: min_def max_def)
    show "min l c \<le> max h d" using r(4) s(4) by (simp add: min_le_iff_disj le_max_iff_disj)
    show "min l c \<le> x \<and> x \<le> max h d" if "u = Some x" for x
      using u [OF that] r(5) s(5) by (auto simp: min_le_iff_disj le_max_iff_disj)
  qed
  then show ?thesis by (simp add: both_def r(1) s(1))
qed

lemma bounds_encl:
  "\<lbrakk>tame bd e; fits val e; in_bounds bd val\<rbrakk> \<Longrightarrow> encl (expr_bounds bd e) (exact val e)"
proof (induction bd e rule: expr_bounds.induct)
  case (1 bd c)
  then have "in_i64 c" using fits_self [of val "EConst c"] by simp
  then show ?case by (simp add: encl_def)
next
  case (2 bd v)
  then have "in_i64 (fst (bd v))" "in_i64 (snd (bd v))" "fst (bd v) \<le> val v" "val v \<le> snd (bd v)"
    by (simp_all add: in_bounds_def)
  then show ?case by (cases "bd v") (auto simp: encl_def)
next
  case (3 bd a)
  then show ?case using neg_encl tame_operands(1) fits_operands(1) by simp
next
  case (4 bd a)
  then show ?case using abs_encl tame_operands(2) fits_operands(2) by simp
next
  case (5 bd es)
  then have "list_all2 encl (map (expr_bounds bd) es) (map (exact val) es)"
    using tame_operands(4) fits_operands(4) by (intro operands_encl) blast
  from add_loop [OF this, of 0 0] obtain l h where
    "loop_bounds (\<lambda>s b. (fst s + fst b, snd s + snd b)) (map (expr_bounds bd) es) (0, 0) = Some (l, h)" "l \<le> h"
    "\<forall>xs. those (map (exact val) es) = Some xs \<longrightarrow> l \<le> sum_list xs \<and> sum_list xs \<le> h" by auto
  moreover have "in_i64 x" if "exact val (EAdd es) = Some x" for x using fits_self "5.prems"(2) that by blast
  ultimately have "encl (Some (clamp_i64 l, clamp_i64 h)) (exact val (EAdd es))"
    by (intro clamp_encl) auto
  then show ?case using \<open>loop_bounds _ _ _ = _\<close> by simp
next
  case (6 bd a b)
  then have "encl (expr_bounds bd a) (exact val a)" "encl (expr_bounds bd b) (exact val b)"
    using tame_operands(10) fits_operands(10) by blast+
  from sub_encl [OF this] show ?case using fits_self [OF "6.prems"(2)] by simp
next
  case (7 bd es)
  then have l2: "list_all2 encl (map (expr_bounds bd) es) (map (exact val) es)"
    using tame_operands(5) fits_operands(5) by (intro operands_encl) blast
  then obtain bs where bs: "those (map (expr_bounds bd) es) = Some bs" using encl_those by blast
  from mul_loop [OF l2 bs tame_mul [OF "7.prems"(1) bs]] obtain l h where
    lp: "loop_bounds imul (map (expr_bounds bd) es) (1, 1) = Some (l, h)" "l \<le> h" and
    pr: "\<forall>xs y. those (map (exact val) es) = Some xs \<longrightarrow> 1 \<le> y \<longrightarrow> y \<le> 1 \<longrightarrow> l \<le> y * prod_list xs \<and> y * prod_list xs \<le> h"
    by auto
  have "in_i64 x" if "exact val (EMul es) = Some x" for x using fits_self "7.prems"(2) that by blast
  then have "encl (Some (clamp_i64 l, clamp_i64 h)) (exact val (EMul es))"
    using lp(2) pr [rule_format, where y = 1] by (intro clamp_encl) auto
  then show ?case using lp(1) by simp
next
  case (8 bd a b)
  then have "encl (expr_bounds bd a) (exact val a)" "encl (expr_bounds bd b) (exact val b)"
    using tame_operands(11) fits_operands(11) by blast+
  from div_encl [OF this] show ?case using tame_operands(11) [OF "8.prems"(1)] by simp
next
  case (9 bd a b)
  then have "encl (expr_bounds bd b) (exact val b)" using tame_operands(12) fits_operands(12) by blast
  from mod_encl [OF this] show ?case using tame_operands(12) [OF "9.prems"(1)] by simp
next
  case (10 bd es)
  then have "list_all2 encl (map (expr_bounds bd) es) (map (exact val) es)"
    using tame_operands(6) fits_operands(6) by (intro operands_encl) blast
  then obtain l h where
    lh: "loop_bounds (\<lambda>s b. (min (fst s) (fst b), min (snd s) (snd b))) (map (expr_bounds bd) es) (i64_max, i64_max) = Some (l, h)"
      "in_i64 l" "in_i64 h" "l \<le> h" and
    m: "\<forall>xs y. those (map (exact val) es) = Some xs \<longrightarrow> i64_max \<le> y \<longrightarrow> y \<le> i64_max \<longrightarrow> l \<le> foldl min y xs \<and> foldl min y xs \<le> h"
    using min_loop [of "map (expr_bounds bd) es" "map (exact val) es" i64_max i64_max] by auto
  have "encl (Some (l, h)) (exact val (EMin es))"
    using m [rule_format, where y = i64_max] by (intro enclI lh(2-4)) auto
  then show ?case using lh(1) by simp
next
  case (11 bd es)
  then have "list_all2 encl (map (expr_bounds bd) es) (map (exact val) es)"
    using tame_operands(7) fits_operands(7) by (intro operands_encl) blast
  then obtain l h where
    lh: "loop_bounds (\<lambda>s b. (max (fst s) (fst b), max (snd s) (snd b))) (map (expr_bounds bd) es) (i64_min, i64_min) = Some (l, h)"
      "in_i64 l" "in_i64 h" "l \<le> h" and
    m: "\<forall>xs y. those (map (exact val) es) = Some xs \<longrightarrow> i64_min \<le> y \<longrightarrow> y \<le> i64_min \<longrightarrow> l \<le> foldl max y xs \<and> foldl max y xs \<le> h"
    using max_loop [of "map (expr_bounds bd) es" "map (exact val) es" i64_min i64_min] by auto
  have "encl (Some (l, h)) (exact val (EMax es))"
    using m [rule_format, where y = i64_min] by (intro enclI lh(2-4)) auto
  then show ?case using lh(1) by simp
next
  case (12 bd a b)
  then have "encl (expr_bounds bd a) (exact val a)" "encl (expr_bounds bd b) (exact val b)"
    using tame_operands(13) fits_operands(13) by blast+
  from compare_encl [OF this, of eq_bounds "(=)"] show ?case by (simp add: eq_bounds_def)
next
  case (13 bd a b)
  then have "encl (expr_bounds bd a) (exact val a)" "encl (expr_bounds bd b) (exact val b)"
    using tame_operands(14) fits_operands(14) by blast+
  from compare_encl [OF this, of ne_bounds "(\<noteq>)"] show ?case by (simp add: ne_bounds_def)
next
  case (14 bd a b)
  then have "encl (expr_bounds bd a) (exact val a)" "encl (expr_bounds bd b) (exact val b)"
    using tame_operands(15) fits_operands(15) by blast+
  from compare_encl [OF this, of "cmp_bounds CmpLt" "(<)"] show ?case by simp
next
  case (15 bd a b)
  then have "encl (expr_bounds bd a) (exact val a)" "encl (expr_bounds bd b) (exact val b)"
    using tame_operands(16) fits_operands(16) by blast+
  from compare_encl [OF this, of "cmp_bounds CmpLe" "(\<le>)"] show ?case by simp
next
  case (16 bd a b)
  then have "encl (expr_bounds bd b) (exact val b)" "encl (expr_bounds bd a) (exact val a)"
    using tame_operands(17) fits_operands(17) by blast+
  from compare_encl [OF this, of "cmp_bounds CmpLt" "(<)"] show ?case
    using opt2_flip [of "\<lambda>x y. truth (y < x)" "exact val a" "exact val b"] by simp
next
  case (17 bd a b)
  then have "encl (expr_bounds bd b) (exact val b)" "encl (expr_bounds bd a) (exact val a)"
    using tame_operands(18) fits_operands(18) by blast+
  from compare_encl [OF this, of "cmp_bounds CmpLe" "(\<le>)"] show ?case
    using opt2_flip [of "\<lambda>x y. truth (y \<le> x)" "exact val a" "exact val b"] by simp
next
  case (18 bd a)
  then show ?case using not_encl tame_operands(3) fits_operands(3) by simp
next
  case (19 bd es)
  then have "list_all2 encl (map (expr_bounds bd) es) (map (exact val) es)"
    using tame_operands(8) fits_operands(8) by (intro operands_encl) blast
  from and_loop [OF this, of True] obtain b where
    b: "and_bounds (map (expr_bounds bd) es) True = Some b" and
    d: "b = b_true \<and> (\<forall>xs. those (map (exact val) es) = Some xs \<longrightarrow> 0 \<notin> set xs) \<or>
      b = b_false \<and> (\<forall>xs. those (map (exact val) es) = Some xs \<longrightarrow> 0 \<in> set xs) \<or> b = b_maybe" by blast
  have "encl (Some b) (exact val (EAnd es))"
    using d by (intro truth_encl) (elim disjE conjE; cases "those (map (exact val) es)"; simp add: truth_def)
  then show ?case using b by simp
next
  case (20 bd es)
  then have "list_all2 encl (map (expr_bounds bd) es) (map (exact val) es)"
    using tame_operands(9) fits_operands(9) by (intro operands_encl) blast
  from or_loop [OF this, of True] obtain b where
    b: "or_bounds (map (expr_bounds bd) es) True = Some b" and
    d: "b = b_false \<and> (\<forall>xs. those (map (exact val) es) = Some xs \<longrightarrow> (\<forall>x \<in> set xs. x = 0)) \<or>
      b = b_true \<and> (\<forall>xs. those (map (exact val) es) = Some xs \<longrightarrow> (\<exists>x \<in> set xs. x \<noteq> 0)) \<or> b = b_maybe" by blast
  have "encl (Some b) (exact val (EOr es))"
    using d by (intro truth_encl) (elim disjE conjE; cases "those (map (exact val) es)"; simp add: truth_def)
  then show ?case using b by simp
next
  case (21 bd a b)
  then have ea: "encl (expr_bounds bd a) (exact val a)" using tame_operands(20) fits_operands(19) by blast
  then obtain c where c: "expr_bounds bd a = Some c" by (auto simp: encl_def)
  consider "c = b_false" | "c = b_true" | "c \<noteq> b_false" "c \<noteq> b_true" by blast
  then show ?case
  proof cases
    case 1
    then have "exact val a = Some x \<Longrightarrow> x = 0" for x using ea encl_false unfolding c by blast
    then show ?thesis using c 1 by (cases "exact val a") (simp_all add: truth_encl)
  next
    case 2
    then have one: "exact val a = Some x \<Longrightarrow> x = 1" for x using ea encl_true unfolding c by blast
    have eb: "encl (expr_bounds bd b) (exact val b)" 
      by (rule "21.IH"(2) [OF c])
        (use 2 "21.prems"(3) tame_operands(20) [OF "21.prems"(1)] fits_operands(19) [OF "21.prems"(2)] in simp_all)
    then obtain l h where lh: "expr_bounds bd b = Some (l, h)" "in_i64 l" "in_i64 h" "l \<le> h"
      "\<forall>x. exact val b = Some x \<longrightarrow> l \<le> x \<and> x \<le> h" unfolding encl_def by blast
    have r: "0 \<le> l" "h \<le> 1" using tame_imp [OF "21.prems"(1) _ lh(1)] c 2 by simp_all
    have "l \<le> truth (y \<noteq> 0) \<and> truth (y \<noteq> 0) \<le> h" if "exact val b = Some y" for y
      using lh(5) r that by (fastforce simp: truth_def)
    then show ?thesis
      using one c 2 lh by (cases "exact val a"; cases "exact val b") (auto intro!: enclI)
  next
    case 3
    have "encl (Some b_maybe) (exact val (EImp a b))" by (rule truth_encl) (auto simp: truth_def split: option.splits)
    then show ?thesis using c 3 by simp
  qed
next
  case (22 bd a b)
  then have "encl (expr_bounds bd a) (exact val a)" "encl (expr_bounds bd b) (exact val b)"
    using tame_operands(19) fits_operands(20) by blast+
  from iff_encl [OF this] show ?case by simp
next
  case (23 bd c t e)
  note op = tame_operands(21) [OF "23.prems"(1)] fits_operands(21) [OF "23.prems"(2)]
  have ec: "encl (expr_bounds bd c) (exact val c)" using 23 op by blast
  then obtain b where b: "expr_bounds bd c = Some b" by (auto simp: encl_def)
  consider "b = b_true" | "b = b_false" | "b \<noteq> b_true" "b \<noteq> b_false" by blast
  then show ?case
  proof cases
    case 1
    have "encl (expr_bounds bd t) (exact val t)" by (rule "23.IH"(2) [OF b 1]) (use op "23.prems" in simp_all)
    moreover have "exact val c = Some x \<Longrightarrow> x = 1" for x using ec encl_true 1 unfolding b by blast
    ultimately show ?thesis using b 1 by (cases "exact val c") (auto simp: encl_def)
  next
    case 2
    have "encl (expr_bounds bd e) (exact val e)" by (rule "23.IH"(3) [OF b]) (use 2 op "23.prems" in simp_all)
    moreover have "exact val c = Some x \<Longrightarrow> x = 0" for x using ec encl_false 2 unfolding b by blast
    ultimately show ?thesis using b 2 by (cases "exact val c") (auto simp: encl_def)
  next
    case 3
    have t: "encl (expr_bounds bd t) (exact val t)" by (rule "23.IH"(4) [OF b 3]) (use op "23.prems" in simp_all)
    have e: "encl (expr_bounds bd e) (exact val e)" by (rule "23.IH"(5) [OF b 3]) (use op "23.prems" in simp_all)
    have "exact val (EIte c t e) = Some x \<Longrightarrow> exact val t = Some x \<or> exact val e = Some x" for x
      by (auto split: option.splits if_splits)
    then show ?thesis using b 3 hull_encl [OF t e] by simp
  qed
qed

end
