(* ===== verification/ExprAffine.thy ===== *)
theory ExprAffine imports ExprProps begin

text \<open>
  Affine forms and linear rows stand for their expressions: whatever the checked arithmetic
  lets through is exact, and a stop can only suppress a result, never change it.
\<close>

section \<open>Programs that poll\<close>

text \<open>A normal result satisfies \<open>Q\<close>, and without a stop the result is the same.\<close>

definition st_spec :: "'a stopping \<Rightarrow> ('a \<Rightarrow> bool) \<Rightarrow> bool" where
  "st_spec m Q \<longleftrightarrow> (\<forall>l x l'. m l = (Some x, l') \<longrightarrow> Q x \<and> m [] = (Some x, []))"

named_theorems st_rules \<open>introduction rules for \<open>st_spec\<close>\<close>

lemma st_spec_ret [st_rules]: "Q x \<Longrightarrow> st_spec (st_ret x) Q"
  by (simp add: st_spec_def st_ret_def)

lemma st_spec_opt [st_rules]: "(\<And>x. r = Some x \<Longrightarrow> Q x) \<Longrightarrow> st_spec (st_opt r) Q"
  by (simp add: st_spec_def st_opt_def)

lemma st_spec_bind:
  assumes m: "st_spec m R" and f: "\<And>x. R x \<Longrightarrow> st_spec (f x) Q"
  shows "st_spec (st_bind m f) Q"
  unfolding st_spec_def
proof (intro allI impI)
  fix l y l' assume run: "st_bind m f l = (Some y, l')"
  then obtain x l1 where 1: "m l = (Some x, l1)" "f x l1 = (Some y, l')"
    by (auto simp: st_bind_def split: prod.splits option.splits)
  then have "R x" "m [] = (Some x, [])" using m by (auto simp: st_spec_def)
  then show "Q y \<and> st_bind m f [] = (Some y, [])" using f 1(2) by (auto simp: st_spec_def st_bind_def)
qed

lemma st_spec_check: "st_spec st_check (\<lambda>_. True)"
  by (auto simp: st_spec_def st_check_def split: list.splits if_splits)

lemma st_spec_checked [st_rules]: "st_spec m Q \<Longrightarrow> st_spec (st_bind st_check (\<lambda>_. m)) Q"
  by (rule st_spec_bind [OF st_spec_check])

lemma st_spec_bind_opt [st_rules]: "(\<And>x. r = Some x \<Longrightarrow> st_spec (f x) Q) \<Longrightarrow> st_spec (st_bind (st_opt r) f) Q"
  by (rule st_spec_bind [where R = "\<lambda>x. r = Some x"]) (simp_all add: st_spec_opt)

lemma st_spec_mono: "st_spec m Q \<Longrightarrow> (\<And>x. Q x \<Longrightarrow> R x) \<Longrightarrow> st_spec m R"
  by (auto simp: st_spec_def)

lemma st_spec_loop:
  assumes m: "\<And>e. e \<in> set es \<Longrightarrow> st_spec (m e) (R e)" and init: "I [] s"
    and step: "\<And>pre e x s s'. I pre s \<Longrightarrow> R e x \<Longrightarrow> g x s = Some s' \<Longrightarrow> I (pre @ [e]) s'"
  shows "st_spec (st_loop g (map m es) s) (I es)"
proof -
  have "st_spec (st_loop g (map m es) s) (I (pre @ es))" if "I pre s" "\<And>e. e \<in> set es \<Longrightarrow> st_spec (m e) (R e)" for pre
    using that
  proof (induction es arbitrary: pre s)
    case (Cons e es)
    have rest: "st_spec (st_loop g (map m es) s') (I (pre @ e # es))" if x: "R e x" and s': "g x s = Some s'" for x s'
      using Cons.IH [OF step [OF Cons.prems(1) x s']] Cons.prems(2) by simp
    have "st_spec (st_bind (st_opt (g x s)) (st_loop g (map m es))) (I (pre @ e # es))" if x: "R e x" for x
      by (rule st_spec_bind [where R = "\<lambda>s'. g x s = Some s'"]) (simp_all add: st_spec_opt rest [OF x])
    then show ?case
      using Cons.prems(2) by (auto intro!: st_spec_checked st_spec_bind [where R = "R e"])
  qed (simp add: st_spec_ret)
  from this [OF init m] show ?thesis by simp
qed

section \<open>Affine forms\<close>

definition aff_ok :: "affine_form \<Rightarrow> bool" where
  "aff_ok f \<longleftrightarrow> bt_ok (af_terms f) \<and> 0 \<notin> snd ` set (af_terms f)"

definition aff_value :: "(var_id \<Rightarrow> int) \<Rightarrow> affine_form \<Rightarrow> int" where
  "aff_value val f = af_constant f + lin val (af_terms f)"

lemma snd_remove: "snd ` set (bt_remove k m) \<subseteq> snd ` set m"
  using set_remove by fastforce

lemma nonzero_update:
  "0 \<notin> snd ` set m \<Longrightarrow> 0 \<notin> snd ` set (if c = 0 then bt_remove v m else bt_insert v c (m :: (var_id, int) btree))"
  using snd_remove [of v m] values_insert [of v c m] by auto

lemma lin_update:
  "bt_ok m \<Longrightarrow> lin val (if c = 0 then bt_remove v m else bt_insert v c m) = lin val m + (c - coeff m v) * val v"
  by (simp add: lin_insert lin_remove algebra_simps)

lemma add_terms_ok:
  "\<lbrakk>add_terms ts s m = Some m'; bt_ok m; 0 \<notin> snd ` set m\<rbrakk> \<Longrightarrow>
     bt_ok m' \<and> 0 \<notin> snd ` set m' \<and> (\<forall>val. lin val m' = lin val m + s * lin val ts)"
proof (induction ts s m rule: add_terms.induct)
  case (2 v c ts s m)
  let ?u = "coeff m v + c * s"
  let ?m = "if ?u = 0 then bt_remove v m else bt_insert v ?u m"
  have "add_terms ts s ?m = Some m'" "in_i128 (c * s)" "in_i128 ?u"
    using "2.prems"(1) by (auto simp: checked_i128_def split: if_splits)
  moreover have "bt_ok ?m" using "2.prems"(2) by simp
  moreover note nonzero_update [OF "2.prems"(3), of ?u v]
  ultimately have "bt_ok m' \<and> 0 \<notin> snd ` set m' \<and> (\<forall>val. lin val m' = lin val ?m + s * lin val ts)"
    using "2.IH" [of "c * s" ?u] by (simp add: checked_i128_def)
  then show ?case using lin_update [OF "2.prems"(2), of _ ?u v] by (simp add: algebra_simps)
qed simp

lemma add_scaled_ok:
  assumes "checked_add_scaled s g f = Some h" "aff_ok f"
  shows "aff_ok h \<and> aff_value val h = aff_value val f + s * aff_value val g"
proof -
  obtain m where m: "add_terms (af_terms g) s (af_terms f) = Some m"
    and h: "h = \<lparr>af_constant = af_constant f + af_constant g * s, af_terms = m\<rparr>"
    using assms(1) by (auto simp: checked_add_scaled_def checked_i128_def split: if_splits option.splits)
  then show ?thesis using add_terms_ok [OF m] assms(2) by (simp add: aff_ok_def aff_value_def algebra_simps)
qed

lemma scaled_terms:
  "those (map (\<lambda>(v, k). checked_i128 (k * s)) ts) = Some cs \<Longrightarrow>
     zip (map fst ts) cs = map (\<lambda>(v, k). (v, k * s)) ts"
  by (induction ts arbitrary: cs) (auto simp: checked_i128_def split: option.splits if_splits)

lemma scale_ok:
  assumes "checked_scale s f = Some h" "aff_ok f"
  shows "aff_ok h \<and> aff_value val h = s * aff_value val f"
proof (cases "s = 0")
  case True
  then have "h = \<lparr>af_constant = 0, af_terms = []\<rparr>"
    using assms(1) by (auto simp: checked_scale_def checked_i128_def split: if_splits)
  then show ?thesis using True by (simp add: aff_ok_def aff_value_def)
next
  case False
  then obtain cs where cs: "those (map (\<lambda>(v, k). checked_i128 (k * s)) (af_terms f)) = Some cs"
    and h: "h = \<lparr>af_constant = af_constant f * s, af_terms = zip (map fst (af_terms f)) cs\<rparr>"
    using assms(1) by (auto simp: checked_scale_def checked_i128_def split: if_splits)
  have t: "af_terms h = map (\<lambda>(v, k). (v, k * s)) (af_terms f)" by (simp add: h scaled_terms [OF cs])
  have "map fst (map (\<lambda>(v, k). (v, k * s)) ts) = map fst ts" for ts :: "(var_id \<times> int) list"
    by (induction ts) auto
  then have "map fst (af_terms h) = map fst (af_terms f)" by (simp only: t)
  then have "bt_ok (af_terms h)" using assms(2) by (simp only: aff_ok_def bt_ok_def)
  moreover have "lin val (map (\<lambda>(v, k). (v, k * s)) ts) = s * lin val ts" for ts
    by (induction ts) (auto simp: algebra_simps)
  moreover have "af_constant h = af_constant f * s" by (simp add: h)
  ultimately show ?thesis
    using assms(2) False by (auto simp: aff_ok_def aff_value_def t algebra_simps)
qed

lemma mul_ok:
  assumes "checked_mul f g = Some h" "aff_ok f" "aff_ok g"
  shows "aff_ok h \<and> aff_value val h = aff_value val f * aff_value val g"
  using assms scale_ok [of "af_constant g" f h val] scale_ok [of "af_constant f" g h val]
  by (auto simp: checked_mul_def aff_value_def split: if_splits)

definition stands_for :: "expr \<Rightarrow> affine_form \<Rightarrow> bool" where
  "stands_for e f \<longleftrightarrow> aff_ok f \<and> (\<forall>val. exact val e = Some (aff_value val f))"

lemma those_snoc: "those (xs @ [x]) = opt2 (\<lambda>ys y. Some (ys @ [y])) (those xs) x"
  by (induction xs) (auto simp: opt2_def split: option.splits)

lemma exact_add_snoc: "exact val (EAdd (es @ [e])) = opt2 (\<lambda>x y. Some (x + y)) (exact val (EAdd es)) (exact val e)"
  by (auto simp: those_snoc opt2_def split: option.splits)

lemma exact_mul_snoc: "exact val (EMul (es @ [e])) = opt2 (\<lambda>x y. Some (x * y)) (exact val (EMul es)) (exact val e)"
  by (auto simp: those_snoc opt2_def split: option.splits)

lemma affine_ok: "st_spec (affine_from_expr e) (stands_for e)"
proof (induction e rule: affine_from_expr.induct)
  case (1 c)
  then show ?case by (auto intro!: st_rules simp: stands_for_def aff_ok_def aff_value_def)
next
  case (2 v)
  then show ?case by (auto intro!: st_rules simp: stands_for_def aff_ok_def aff_value_def)
next
  case (3 a)
  have "st_spec (st_opt (checked_scale (-1) f)) (stands_for (ENeg a))" if "stands_for a f" for f
    using that scale_ok [of "-1" f] by (auto intro!: st_spec_opt simp: stands_for_def)
  then show ?case by (auto intro!: st_spec_checked st_spec_bind [OF 3])
next
  case (4 es)
  have step: "stands_for (EAdd (pre @ [e])) h"
    if "stands_for (EAdd pre) f" "stands_for e g" "checked_add_scaled 1 g f = Some h" for pre e f g h
    using that add_scaled_ok [OF that(3)] unfolding stands_for_def exact_add_snoc by (simp add: opt2_def del: exact.simps)
  have "st_spec (st_loop (checked_add_scaled 1) (map affine_from_expr es) \<lparr>af_constant = 0, af_terms = []\<rparr>) (stands_for (EAdd es))"
    by (intro st_spec_loop [where m = affine_from_expr and R = stands_for and I = "\<lambda>es. stands_for (EAdd es)"])
      (auto intro: 4 step, simp add: stands_for_def aff_ok_def aff_value_def)
  then show ?case by (auto intro!: st_spec_checked)
next
  case (5 a b)
  have "st_spec (st_opt (checked_add_scaled (-1) g f)) (stands_for (ESub a b))" if "stands_for a f" "stands_for b g" for f g
    using that add_scaled_ok [of "-1" g f] by (auto intro!: st_spec_opt simp: stands_for_def opt2_def)
  then show ?case by (auto intro!: st_spec_checked st_spec_bind [OF 5(1)] st_spec_bind [OF 5(2)])
next
  case (6 es)
  have step: "stands_for (EMul (pre @ [e])) h"
    if "stands_for (EMul pre) f" "stands_for e g" "checked_mul f g = Some h" for pre e f g h
    using that mul_ok [OF that(3)] unfolding stands_for_def exact_mul_snoc by (simp add: opt2_def del: exact.simps)
  have "st_spec (st_loop (\<lambda>f p. checked_mul p f) (map affine_from_expr es) \<lparr>af_constant = 1, af_terms = []\<rparr>) (stands_for (EMul es))"
    by (intro st_spec_loop [where m = affine_from_expr and R = stands_for and I = "\<lambda>es. stands_for (EMul es)"])
      (auto intro: 6 step, simp add: stands_for_def aff_ok_def aff_value_def)
  then show ?case by (auto intro!: st_spec_checked)
qed (auto intro!: st_rules)

section \<open>The narrowed form\<close>

definition linear_sum :: "(var_id \<Rightarrow> int) \<Rightarrow> int list \<Rightarrow> var_id list \<Rightarrow> int" where
  "linear_sum val cs vs = sum_list (map (\<lambda>(c, v). c * val v) (zip cs vs))"

definition form_for :: "expr \<Rightarrow> int \<times> int list \<times> var_id list \<Rightarrow> bool" where
  "form_for e r \<longleftrightarrow> (case r of (c, cs, vs) \<Rightarrow>
     in_i64 c \<and> list_all in_i64 cs \<and> 0 \<notin> set cs \<and> length cs = length vs \<and> sorted_wrt (<) vs \<and>
     (\<forall>val. exact val e = Some (c + linear_sum val cs vs)))"

lemma narrow_ok:
  "st_spec (narrow_terms ts (cs, vs)) (\<lambda>out. out = (cs @ map snd ts, vs @ map fst ts) \<and> (\<forall>c \<in> snd ` set ts. in_i64 c))"
proof (induction ts "(cs, vs)" arbitrary: cs vs rule: narrow_terms.induct)
  case (2 v c ts)
  have "st_spec (narrow_terms ts (cs @ [k], vs @ [v]))
      (\<lambda>out. out = (cs @ map snd ((v, c) # ts), vs @ map fst ((v, c) # ts)) \<and> (\<forall>c \<in> snd ` set ((v, c) # ts). in_i64 c))"
    if "k = c \<and> in_i64 c" for k
    using 2 [of k] that by (auto intro: st_spec_mono)
  then show ?case
    by (auto intro!: st_spec_checked st_spec_bind [OF st_spec_opt, of _ "\<lambda>k. k = c \<and> in_i64 c"] simp: checked_i64_def split: if_splits)
qed (auto intro: st_rules)

lemma affine_form_ok: "st_spec (affine_form_interruptible e) (form_for e)"
  unfolding affine_form_interruptible_def
proof (rule st_spec_bind [OF affine_ok], rule st_spec_checked)
  fix f assume f: "stands_for e f"
  show "st_spec (st_bind (st_opt (checked_i64 (af_constant f))) (\<lambda>constant.
      st_bind (narrow_terms (af_terms f) ([], [])) (\<lambda>out. st_ret (constant, out)))) (form_for e)"
  proof (rule st_spec_bind [where R = "\<lambda>c. c = af_constant f \<and> in_i64 c"])
    show "st_spec (st_opt (checked_i64 (af_constant f))) (\<lambda>c. c = af_constant f \<and> in_i64 c)"
      by (rule st_spec_opt) simp
    fix c assume c: "c = af_constant f \<and> in_i64 c"
    show "st_spec (st_bind (narrow_terms (af_terms f) ([], [])) (\<lambda>out. st_ret (c, out))) (form_for e)"
      by (rule st_spec_bind [OF narrow_ok], rule st_spec_ret)
        (use f c in \<open>auto simp: form_for_def stands_for_def aff_ok_def bt_ok_def aff_value_def linear_sum_def lin_zip list_all_iff\<close>)
  qed
qed

section \<open>Linear rows\<close>

lemma combine_ok:
  assumes f: "f = (\<lambda>x y. x + s * y)"
  shows "\<lbrakk>combine_terms f ts m = Some m'; bt_ok m; 0 \<notin> snd ` set m\<rbrakk> \<Longrightarrow>
     bt_ok m' \<and> 0 \<notin> snd ` set m' \<and> (\<forall>val. lin val m' = lin val m + s * sum_list (map (\<lambda>(c, v). c * val v) ts))"
proof (induction ts arbitrary: m)
  case (Cons t ts)
  obtain c v where t: "t = (c, v)" by (cases t)
  let ?u = "coeff m v + s * c"
  let ?m = "if ?u = 0 then bt_remove v m else bt_insert v ?u m"
  have "combine_terms f ts ?m = Some m'"
    using Cons.prems(1) by (auto simp: t f checked_i64_def split: if_splits)
  from Cons.IH [OF this] have "bt_ok m' \<and> 0 \<notin> snd ` set m' \<and>
      (\<forall>val. lin val m' = lin val ?m + s * sum_list (map (\<lambda>(c, v). c * val v) ts))"
    using Cons.prems(2) nonzero_update [OF Cons.prems(3), of ?u v] by simp
  then show ?case using lin_update [OF Cons.prems(2), of _ ?u v] by (simp add: t algebra_simps)
qed simp

definition within :: "int option \<Rightarrow> int \<Rightarrow> int option \<Rightarrow> bool" where
  "within lo x hi \<longleftrightarrow> (case lo of None \<Rightarrow> True | Some l \<Rightarrow> l \<le> x) \<and> (case hi of None \<Rightarrow> True | Some h \<Rightarrow> x \<le> h)"

fun rel_holds :: "relation \<Rightarrow> int \<Rightarrow> int \<Rightarrow> bool" where
  "rel_holds RelLe x y = (x \<le> y)"
| "rel_holds RelLt x y = (x < y)"
| "rel_holds RelGe x y = (x \<ge> y)"
| "rel_holds RelGt x y = (x > y)"
| "rel_holds RelEq x y = (x = y)"

lemma sides_ok: "relation_sides rel rhs = Some (lo, hi) \<Longrightarrow> within lo x hi \<longleftrightarrow> rel_holds rel x rhs"
  by (cases rel) (auto simp: within_def)

lemma rel_shift: "rel_holds rel x (y - z) = rel_holds rel (x + z) y"
  by (cases rel) auto

lemma relation_exact:
  "relation_of e = Some (a, b, rel) \<Longrightarrow> exact val e = opt2 (\<lambda>x y. Some (truth (rel_holds rel x y))) (exact val a) (exact val b)"
  by (cases e) auto

definition row_for :: "expr \<Rightarrow> linear_relation \<Rightarrow> bool" where
  "row_for e r \<longleftrightarrow> 0 \<notin> set (lr_coefficients r) \<and> sorted_wrt (<) (lr_variables r) \<and>
     length (lr_coefficients r) = length (lr_variables r) \<and>
     (\<forall>val. exact val e = Some (truth (within (lr_lower r) (linear_sum val (lr_coefficients r) (lr_variables r)) (lr_upper r))))"

lemma row_made:
  assumes e: "relation_of e = Some (a, b, rel)" and fa: "form_for a (lc, lcs, lvs)" and fb: "form_for b (rc, rcs, rvs)"
    and m1: "combine_terms (+) (zip lcs lvs) [] = Some m1" and m2: "combine_terms (-) (zip rcs rvs) m1 = Some m2"
    and sides: "relation_sides rel (rc - lc) = Some (lo, hi)"
  shows "row_for e \<lparr>lr_coefficients = map snd m2, lr_variables = map fst m2, lr_lower = lo, lr_upper = hi\<rparr>"
proof -
  have l1: "bt_ok m1 \<and> 0 \<notin> snd ` set m1 \<and> (\<forall>val. lin val m1 = linear_sum val lcs lvs)"
    using combine_ok [of "(+)" 1, OF _ m1] by (simp add: linear_sum_def)
  then have l2: "bt_ok m2 \<and> 0 \<notin> snd ` set m2 \<and> (\<forall>val. lin val m2 = linear_sum val lcs lvs - linear_sum val rcs rvs)"
    using combine_ok [of "(-)" "-1", OF _ m2] by (simp add: linear_sum_def)
  have "exact val e = Some (truth (within lo (lin val m2) hi))" for val
  proof -
    have "within lo (lin val m2) hi \<longleftrightarrow> rel_holds rel (lc + linear_sum val lcs lvs) (rc + linear_sum val rcs rvs)"
      unfolding sides_ok [OF sides] using l2 by (cases rel) auto
    then show ?thesis
      using relation_exact [OF e, of val] fa fb by (simp add: form_for_def opt2_def)
  qed
  then show ?thesis using l2 by (auto simp: row_for_def bt_ok_def linear_sum_def lin_zip)
qed

lemma linear_relation_ok: "st_spec (linear_relation_interruptible e) (row_for e)"
  unfolding linear_relation_interruptible_def
proof (rule st_spec_bind_opt)
  fix r assume r: "relation_of e = Some r"
  obtain a b rel where abr: "r = (a, b, rel)" by (cases r)
  have rows: "st_spec (st_bind (st_opt (checked_i64 (rc - lc))) (\<lambda>rhs.
     st_bind (st_opt (combine_terms (+) (zip lcs lvs) [])) (\<lambda>m1.
     st_bind (st_opt (combine_terms (-) (zip rcs rvs) m1)) (\<lambda>m2.
     st_bind st_check (\<lambda>_.
     st_bind (st_opt (relation_sides rel rhs)) (\<lambda>(lower, upper).
     st_ret \<lparr>lr_coefficients = map snd m2, lr_variables = map fst m2, lr_lower = lower, lr_upper = upper\<rparr>)))))) (row_for e)"
    if "form_for a (lc, lcs, lvs)" "form_for b (rc, rcs, rvs)" for lc lcs lvs rc rcs rvs
    using row_made [OF r [unfolded abr] that]
    by (intro st_spec_bind_opt st_spec_checked) (auto intro!: st_spec_ret split: prod.splits)
  show "st_spec (case r of (left, right, relation) \<Rightarrow>
     st_bind (affine_form_interruptible left) (\<lambda>(lc, lcs, lvs).
     st_bind (affine_form_interruptible right) (\<lambda>(rc, rcs, rvs).
     st_bind (st_opt (checked_i64 (rc - lc))) (\<lambda>rhs.
     st_bind (st_opt (combine_terms (+) (zip lcs lvs) [])) (\<lambda>m1.
     st_bind (st_opt (combine_terms (-) (zip rcs rvs) m1)) (\<lambda>m2.
     st_bind st_check (\<lambda>_.
     st_bind (st_opt (relation_sides relation rhs)) (\<lambda>(lower, upper).
     st_ret \<lparr>lr_coefficients = map snd m2, lr_variables = map fst m2, lr_lower = lower, lr_upper = upper\<rparr>)))))))) (row_for e)"
    unfolding abr prod.case
  proof (rule st_spec_bind [OF affine_form_ok])
    fix f assume fa: "form_for a f"
    obtain lc lcs lvs where f: "f = (lc, lcs, lvs)" by (cases f)
    show "st_spec (case f of (lc, lcs, lvs) \<Rightarrow>
     st_bind (affine_form_interruptible b) (\<lambda>(rc, rcs, rvs).
     st_bind (st_opt (checked_i64 (rc - lc))) (\<lambda>rhs.
     st_bind (st_opt (combine_terms (+) (zip lcs lvs) [])) (\<lambda>m1.
     st_bind (st_opt (combine_terms (-) (zip rcs rvs) m1)) (\<lambda>m2.
     st_bind st_check (\<lambda>_.
     st_bind (st_opt (relation_sides rel rhs)) (\<lambda>(lower, upper).
     st_ret \<lparr>lr_coefficients = map snd m2, lr_variables = map fst m2, lr_lower = lower, lr_upper = upper\<rparr>))))))) (row_for e)"
      unfolding f prod.case
      by (rule st_spec_bind [OF affine_form_ok]) (use rows fa [unfolded f] in \<open>auto split: prod.splits\<close>)
  qed
qed

end
