(* ===== verification/ExprSpec.thy ===== *)
theory ExprSpec imports ExprBounds ExprAffine begin

text \<open>
  What callers of \<open>src/src/expr.rs\<close> rely on: evaluation is the mathematical value, the
  collected variables determine it, bounds enclose it, affine forms and linear rows are
  exact. The last section shows where the bounds of the code do not enclose the value.
\<close>

section \<open>Evaluation\<close>

text \<open>
  C28. As long as no operand leaves \<open>i64\<close>, evaluation returns the mathematical value of the
  expression, and it is undefined exactly where that value is.
\<close>

theorem eval_is_exact:
  assumes "fits val e"
  shows "expr_eval val e = (case exact val e of None \<Rightarrow> Err Undefined | Some x \<Rightarrow> Ok x)"
  using eval_exact [OF assms] by (simp add: of_exact_def)

theorem eval_is_exact_witness:
  "expr_eval (\<lambda>_. -7) (EDiv (EVar 0) (EConst 2)) = Ok (-3) \<and> expr_eval (\<lambda>_. 0) (EMod (EConst 5) (EVar 0)) = Err Undefined"
proof -
  have "fits (\<lambda>_. -7) (EDiv (EVar 0) (EConst 2))" by code_simp
  moreover have "fits (\<lambda>_. 0) (EMod (EConst 5) (EVar 0))" by code_simp
  moreover have "exact (\<lambda>_. -7) (EDiv (EVar 0) (EConst 2)) = Some (-3)" by code_simp
  moreover have "exact (\<lambda>_. 0) (EMod (EConst 5) (EVar 0)) = None" by code_simp
  ultimately show ?thesis using eval_is_exact by (metis option.simps(4,5))
qed

lemma fold_appends:
  "(\<And>e. e \<in> set es \<Longrightarrow> \<exists>vs. \<forall>out. collect_vars e out = out @ vs) \<Longrightarrow> \<exists>vs. \<forall>out. fold collect_vars es out = out @ vs"
proof (induction es)
  case (Cons e es)
  from Cons.IH Cons.prems obtain vs where "\<forall>out. fold collect_vars es out = out @ vs" by (meson list.set_intros(2))
  moreover from Cons.prems [of e] obtain ws where "\<forall>out. collect_vars e out = out @ ws" by auto
  ultimately have "\<forall>out. fold collect_vars (e # es) out = out @ ws @ vs" by simp
  then show ?case by blast
qed simp

lemma collects: "\<exists>vs. \<forall>out. collect_vars e out = out @ vs"
  by (induction e; (elim exE)?; simp add: fold_appends)

lemma collect_appends: "collect_vars e out = out @ collect_vars e []"
  using collects [of e] by fastforce

lemma fold_collect: "set (fold collect_vars es out) = set out \<union> (\<Union>e \<in> set es. set (collect_vars e []))"
proof (induction es arbitrary: out)
  case (Cons e es)
  show ?case using collect_appends [of e out] by (simp add: Cons.IH Un_assoc)
qed simp

lemma collect_pair: "set (collect_vars b (collect_vars a out)) = set (collect_vars a out) \<union> set (collect_vars b [])"
  by (simp add: collect_appends [of b "collect_vars a out"])

lemma operands_agree:
  assumes "\<And>e. e \<in> set es \<Longrightarrow> \<forall>v \<in> set (collect_vars e []). val v = val' v \<Longrightarrow> expr_eval val e = expr_eval val' e"
    and "\<forall>v \<in> set (fold collect_vars es []). val v = val' v"
  shows "map (expr_eval val) es = map (expr_eval val') es"
  using assms by (auto simp: fold_collect)

lemma eval_agrees: "(\<forall>v \<in> set (collect_vars e []). val v = val' v) \<Longrightarrow> expr_eval val e = expr_eval val' e"
proof (induction e)
  case (EAdd es)
  then show ?case using operands_agree [of es val val'] by (simp del: map_eq_conv)
next
  case (EMul es)
  then show ?case using operands_agree [of es val val'] by (simp del: map_eq_conv)
next
  case (EMin es)
  then show ?case using operands_agree [of es val val'] by (simp del: map_eq_conv)
next
  case (EMax es)
  then show ?case using operands_agree [of es val val'] by (simp del: map_eq_conv)
next
  case (EAnd es)
  then show ?case using operands_agree [of es val val'] by (simp del: map_eq_conv)
next
  case (EOr es)
  then show ?case using operands_agree [of es val val'] by (simp del: map_eq_conv)
qed (simp_all add: collect_pair cong: if_cong)

text \<open>
  The collected variables determine the value: valuations that agree on them evaluate
  the expression to the same result.
\<close>

theorem eval_of_collected:
  assumes "\<forall>v \<in> set (collect_vars e []). val v = val' v"
  shows "expr_eval val e = expr_eval val' e"
  using eval_agrees [OF assms] .

theorem eval_of_collected_witness:
  "expr_eval (\<lambda>v. if v = 3 then 1 else 0) (EAdd [EVar 3, EConst 4]) = expr_eval (\<lambda>v. if v = 3 then 1 else 9) (EAdd [EVar 3, EConst 4])"
  by (rule eval_of_collected) simp

section \<open>Bounds\<close>

text \<open>
  C12. For a tame expression whose operands stay in \<open>i64\<close> at the valuation (\<open>fits\<close>), and a
  valuation inside the bounds of the variables, the bounds are a proper \<open>i64\<close> interval, computed
  without a panic, that encloses the value. Tame means, node by node: what is negated, put into
  an absolute value, divided or divided by in a remainder has a lower bound above \<open>i64::MIN\<close>; the
  products of the bounds of factors stay in range; an implication whose antecedent is certain
  has a consequent with bounds in \<open>0..=1\<close>. Without these the bounds can miss the value, as
  shown below.
\<close>

theorem bounds_sound:
  assumes "tame bd e" "fits val e" "in_bounds bd val"
  shows "\<exists>l h. expr_bounds bd e = Some (l, h) \<and> in_i64 l \<and> in_i64 h \<and> l \<le> h \<and>
    (\<forall>x. expr_eval val e = Ok x \<longrightarrow> l \<le> x \<and> x \<le> h)"
  using bounds_encl [OF assms] eval_exact [OF assms(2)]
  by (cases "exact val e") (auto simp: encl_def)

theorem bounds_sound_witness:
  "\<exists>l h. expr_bounds (\<lambda>_. (-5, 9)) (EDiv (EMul [EVar 0, EVar 1]) (EConst 2)) = Some (l, h) \<and> in_i64 l \<and> in_i64 h \<and> l \<le> h \<and>
    (\<forall>x. expr_eval (\<lambda>_. -5) (EDiv (EMul [EVar 0, EVar 1]) (EConst 2)) = Ok x \<longrightarrow> l \<le> x \<and> x \<le> h)"
proof (rule bounds_sound)
  show "tame (\<lambda>_. (-5, 9)) (EDiv (EMul [EVar 0, EVar 1]) (EConst 2))" by code_simp
  show "fits (\<lambda>_. -5) (EDiv (EMul [EVar 0, EVar 1]) (EConst 2))" by code_simp
  show "in_bounds (\<lambda>_. (-5, 9)) (\<lambda>_. -5)"
    by (simp add: in_bounds_def in_i64_def i64_min_def i64_max_def)
qed

text \<open>
  C29. The bounds of the code can miss the value. An implication whose antecedent is certain
  takes the bounds of its consequent, although it evaluates to 0 or 1; and the negation of a
  product whose lower bound was clamped to \<open>i64::MIN\<close> wraps, so that the comparison of
  \<open>- (x * x * x)\<close> with 1 is bounded by 0 although it holds at \<open>x = -1\<close>.
\<close>

theorem bounds_can_miss:
  "expr_bounds (\<lambda>_. (i32_min, i32_max)) (EImp (EConst 1) (EConst (-3))) = Some (-3, -3) \<and>
   expr_eval (\<lambda>_. 0) (EImp (EConst 1) (EConst (-3))) = Ok 1 \<and>
   expr_bounds (\<lambda>_. (i32_min, i32_max)) (EGe (ENeg (EMul [EVar 0, EVar 0, EVar 0])) (EConst 1)) = Some (0, 0) \<and>
   expr_eval (\<lambda>_. -1) (EGe (ENeg (EMul [EVar 0, EVar 0, EVar 0])) (EConst 1)) = Ok 1"
proof (intro conjI)
  show "expr_bounds (\<lambda>_. (i32_min, i32_max)) (EImp (EConst 1) (EConst (-3))) = Some (-3, -3)" by code_simp
  show "expr_eval (\<lambda>_. 0) (EImp (EConst 1) (EConst (-3))) = Ok 1" by code_simp
  show "expr_bounds (\<lambda>_. (i32_min, i32_max)) (EGe (ENeg (EMul [EVar 0, EVar 0, EVar 0])) (EConst 1)) = Some (0, 0)" by code_simp
  show "expr_eval (\<lambda>_. -1) (EGe (ENeg (EMul [EVar 0, EVar 0, EVar 0])) (EConst 1)) = Ok 1" by code_simp
qed

section \<open>Affine forms and linear rows\<close>

text \<open>
  C30. An affine form that is returned, whatever the stop flag did, is the one an
  uninterrupted run returns; its coefficients are nonzero \<open>i64\<close> values of distinct variables
  in ascending order, and it has the exact value of the expression at every valuation.
\<close>

theorem affine_form_exact:
  assumes "affine_form_interruptible e loads = (Some (c, cs, vs), rest)"
  shows "affine_form_interruptible e [] = (Some (c, cs, vs), []) \<and>
    in_i64 c \<and> list_all in_i64 cs \<and> 0 \<notin> set cs \<and> length cs = length vs \<and> sorted_wrt (<) vs \<and>
    (\<forall>val. exact val e = Some (c + linear_sum val cs vs))"
  using affine_form_ok [of e, unfolded st_spec_def form_for_def, rule_format, OF assms] by simp

theorem affine_form_exact_witness:
  "in_i64 (-4) \<and> exact (\<lambda>v. int v) (ESub (EMul [EConst 2, EAdd [EVar 3, EVar 1, EConst (-2)]]) (EVar 3)) =
     Some (-4 + linear_sum (\<lambda>v. int v) [2, 1] [1, 3])"
proof -
  have "affine_form_interruptible (ESub (EMul [EConst 2, EAdd [EVar 3, EVar 1, EConst (-2)]]) (EVar 3)) [False, False] =
      (Some (-4, [2, 1], [1, 3]), [])"
    by code_simp
  from affine_form_exact [OF this] show ?thesis by blast
qed

text \<open>
  C13. A linear row that is returned is exact: the comparison holds at a valuation precisely
  if the weighted sum of the row lies within its sides, and a stop cannot change the row.
\<close>

theorem linear_row_exact:
  assumes "linear_relation_interruptible e loads = (Some r, rest)"
  shows "linear_relation_interruptible e [] = (Some r, []) \<and>
    0 \<notin> set (lr_coefficients r) \<and> sorted_wrt (<) (lr_variables r) \<and> length (lr_coefficients r) = length (lr_variables r) \<and>
    (\<forall>val. exact val e = Some (truth (within (lr_lower r) (linear_sum val (lr_coefficients r) (lr_variables r)) (lr_upper r))))"
  using linear_relation_ok [of e, unfolded st_spec_def row_for_def, rule_format, OF assms] by simp

theorem linear_row_exact_witness:
  "exact (\<lambda>v. int v) (ELt (EAdd [EVar 2, EVar 1]) (EAdd [EVar 1, EConst 5])) =
     Some (truth (within None (linear_sum (\<lambda>v. int v) [1] [2]) (Some 4)))"
proof -
  have "linear_relation_interruptible (ELt (EAdd [EVar 2, EVar 1]) (EAdd [EVar 1, EConst 5])) [False] =
      (Some \<lparr>lr_coefficients = [1], lr_variables = [2], lr_lower = None, lr_upper = Some 4\<rparr>, [])"
    by code_simp
  from linear_row_exact [OF this, unfolded linear_relation.simps] show ?thesis by blast
qed

end
