(* ===== verification/Spec2Isabelle.thy ===== *)
theory Spec2Isabelle
  imports LinearPost DomainWide LitSpec ClauseSpec SatTerminate SatSteady SatWrap IntDomainReads IntDomainNew ExprSpec StoreSpec
begin

text \<open>
  Qayd is a constraint solver in Rust. This development verifies its lower half: the state
  that search works on, the propagation engine over that state, the constraints that filter
  it, the complete depth-first search over it, the expression language models are written in,
  and the preprocessor of the SAT engine. Paths are relative to \<open>src/src\<close>.

  Parts and theories, in the order they build on each other:

  \<^item> Prelude holds machine integers (\<open>i32\<close>, \<open>i64\<close>, \<open>i128\<close> as mathematical integers with
    explicit wrapping, saturating and checked operations) and results. Backtrack states the
    contract of a reversible component as a locale with its client lemmas; Polled the one of
    code that asks a stop flag. A flag is the list of its answers; past the end it says no.
  \<^item> Trail models \<open>trail.rs\<close>: reversible integers with epochs that leave most writes unlogged.
  \<^item> IntDomain models \<open>domains/int.rs\<close> in its four storage forms; IntDomainProps, IntDomainHoles,
    IntDomainOps, IntDomainReads, IntDomainNew and IntDomainContract prove each operation equal
    to its set operation and the whole an instance of the reversible contract.
  \<^item> Store, StoreStructs and Solver model \<open>store.rs\<close>, \<open>propagator.rs\<close> and the list and interval
    handles of \<open>domains\<close>: variables, subscriptions, the banded queue, reasons and the log,
    weighted degrees, levels; posting, selector guards, the propagation loops. StoreProps,
    StoreSched, StoreReasons, StoreLinks, StoreContract, Evolve and Building are their lemmas.
  \<^item> Actions and Filtering are the logic of propagators: a propagator is a composition of
    store actions, and a triple says that it removes no value of a solution, what it leaves
    in the domains, and that it subscribes what it must. Fixpoint and Posting state the
    contract of the trait \<open>Propagator\<close> as a locale (a run is sound and leaves a local fixpoint,
    which only a watched event can disturb; registration subscribes to what is watched) and
    prove from it that propagation ends, at a common fixpoint, without losing a solution.
  \<^item> Primitives, ElementProps, Signs model the propagators of \<open>constraints/primitives.rs\<close>; Rows,
    Linear, LinearNeq, BoolRows those of \<open>constraints/linear.rs\<close>. Constraints collects them in
    one datatype and interprets the contract of the trait on it; Idle shows that a propagator
    at its local fixpoint, run again, changes nothing, minimum and maximum excepted. BoolNormal models how a
    row over 0/1 variables is normalised to a Boolean row, LinearPost how rows are posted and
    recorded for the linear relaxation.
  \<^item> DomainSearch models \<open>solve_domains_interruptible\<close> of \<open>search.rs\<close>: the decision rule over
    variables, list and interval handles, the two branches of a decision, and the search
    itself. DomainDecisions shows that the two sides of a decision split the space,
    DomainReads that an open leaf is a solution. DomainExplore states the contract of a
    propagation engine as a locale that extends the one of the trait, and proves in it that
    the search explores everything; DomainSpec interprets it and holds the properties;
    DomainWide shows an input on which the search does not end.
  \<^item> BTree, Expr, ExprAffine, ExprBounds, ExprProps model \<open>expr.rs\<close>: evaluation, bounds, affine
    forms and linear rows.
  \<^item> SatCnf, SatSimplify, SatSubsume, SatResolution, SatPreprocess model the preprocessor of
    \<open>engines/sat/mod.rs\<close> and the proof writer of \<open>engines/sat/proof.rs\<close>; SatSound, SatTerminate and
    SatSteady prove it sound, terminating and independent of logging. Literals are \<open>i32\<close> whose
    negation wraps (\<open>neg_lit\<close>); soundness is for at most \<open>i32::MAX\<close> variables (\<open>vars_fit\<close>), and
    SatWrap shows the refutation of a satisfiable formula that \<open>2^31\<close> variables allow.
  \<^item> Lits models \<open>lcg/lit.rs\<close>: packed literals, the table that numbers the atoms \<open>[x >= k]\<close> and
    \<open>[x = v]\<close>, the registry of atoms numbered on demand. LitProps and LitMeaning show what a
    literal means in each layout, LitView models \<open>lcg/view.rs\<close>, which reads and enforces literals
    on the store; LitSession has the invariant of a run of lookups and LitSpec the properties.
  \<^item> ClauseDb and ClausePool model \<open>lcg/clause.rs\<close>: the clause arena, which refines a finite map,
    and the ring of shared clauses, which is the end of a log; ClauseSpec holds the properties.
  \<^item> StoreSpec, SolverSpec, ExprSpec and this theory hold the properties.

  Correspondence. A struct is a record, an enum a datatype; a method that mutates returns the
  new state with its result; a \<open>Result\<close> is \<open>result\<close>, a panic or a run that does not return is the
  outer \<open>None\<close>. Arithmetic is that of the release profile, which turns overflow checks off:
  it wraps. Ids are indices into vectors. A trait object is a value with a table of its
  methods (\<open>vtable\<close>); the scratch buffers that propagators keep between runs are left out,
  because every run empties them before it reads them. The callback of the search is an
  argument with a state of its own, and of the statistics the search fills the three counters
  it advances itself are kept. A set of values is a list only where
  its order is observable. Weights and call counters are 64-bit words.

  Assumptions. Soundness of the preprocessor also needs options that are safe
  (\<open>safe_options\<close>); exact enumeration, and that a fixed fixpoint is a solution, need a solver
  without minimum and maximum, whose propagator can miss a hole, and values in scope
  (\<open>con_scope\<close>); bounds of expressions need tame expressions. Each is stated with its property;
  runs that go wrong without them are properties or theorems of their own.

  Bounds and fuel. The loops of propagators and of propagation are partial functions proved
  total under the invariant; the measure is the number of values left, then the length of
  the queue. Linear rows are exact while the coefficients times \<open>2^31\<close> stay below \<open>2^61\<close>
  (\<open>fits\<close>), Boolean rows while the weights sum to less than \<open>2^126\<close>; outside these bounds the
  code wraps and so does the model, but the theorems do not speak. A bounds domain counts
  its holes in an \<open>i32\<close>, so a variable may span at most \<open>2^31 - 1\<close> values at every saved
  level (\<open>roomy\<close>). The search is a partial function; it is proved to return for handles that
  refer to existing variables and windows of starts that span less than \<open>2^31\<close> (\<open>structs_ok\<close>). The
  preprocessor's inner loops carry a bound that is proved sufficient.

  Not modelled: the other constraints (tables, counting, scheduling, intervals, lists,
  graphs, AllDifferent and the expression propagator), the search entry points over the
  clause-learning engine, the engine itself (conflict analysis, watches, restarts), the local
  search, routing and scheduling engines, the model layer, the orchestrator and the
  frontends. They sit on the parts above; PROJECT.json lists each with its reason. The
  feature \<open>lp-relaxation\<close> is modelled as if on: it only records rows.
\<close>

section \<open>Sample inputs of the witnesses\<close>

text \<open>An exclusive or, which bounded variable elimination removes whole.\<close>

definition xor_cnf :: cnf where
  "xor_cnf = \<lparr>c_vars = 2, c_clauses = [[1, 2], [-1, -2]]\<rparr>"

text \<open>A formula that unit propagation refutes, and one that is satisfiable through a tautology.\<close>

definition chain_cnf :: cnf where
  "chain_cnf = \<lparr>c_vars = 2, c_clauses = [[1, 2], [-1, 2], [-2]]\<rparr>"

definition taut_cnf :: cnf where
  "taut_cnf = \<lparr>c_vars = 3, c_clauses = [[-1, 1], [-1, 2], [-2, 3], [-2, -3]]\<rparr>"

text \<open>The set \<open>{1, 3, 9}\<close> as it is built on a fresh trail, and a wide range.\<close>

definition set_dom :: domain where
  "set_dom = \<lparr>d_map = Dense 1 (Some [1, 3, 9]), d_dense = [0, 2, 8, 1, 3, 4, 5, 6, 7],
     d_sparse = [0, 3, 1, 4, 5, 6, 7, 8, 2], d_size = 0, d_min = 1, d_max = 2\<rparr>"

definition set_trail :: trail where
  "set_trail = trail_new\<lparr>t_values := [3, 1, 9], t_epochs := [0, 0, 0]\<rparr>"

definition wide_dom :: domain where
  "wide_dom = \<lparr>d_map = Bounds [] 0 1 2, d_dense = [], d_sparse = [], d_size = 3, d_min = 4, d_max = 5\<rparr>"

definition wide_trail :: trail where
  "wide_trail = trail_new\<lparr>t_values := [0, 0, 0, 0, 0, 9999], t_epochs := [0, 0, 0, 0, 0, 0]\<rparr>"

lemma set_dom_ok: "dom_ok set_dom set_trail" "dom_set set_dom set_trail = {1, 3, 9}"
proof -
  have "dom_from_dense_set [1, 3, 9] 1 9 9 trail_new = (set_dom, set_trail)" by code_simp
  moreover have "sort_dedup [9, 1, 3] = [1, 3, 9 :: int]" by code_simp
  ultimately have "dom_new_set [9, 1, 3] trail_new = Some (set_dom, set_trail)"
    by (simp add: dom_new_set_def span_len_def max_dense_set_span_def dense_set_factor_def)
  from dom_new_set_ok [OF trail_ok_new _ this]
  show "dom_ok set_dom set_trail" "dom_set set_dom set_trail = {1, 3, 9}"
    by (simp_all add: in_i32_def i32_min_def i32_max_def insert_commute)
qed

lemma wide_dom_ok: "dom_ok wide_dom wide_trail" "dom_set wide_dom wide_trail = {0..9999}"
proof -
  have "dom_from_bounds_range 0 9999 trail_new = (wide_dom, wide_trail)" by code_simp
  then have "dom_new_range 0 9999 trail_new = Some (wide_dom, wide_trail)"
    by (simp add: dom_new_range_def span_len_def max_dense_range_values_def)
  from dom_new_range_ok [OF trail_ok_new _ _ this]
  show "dom_ok wide_dom wide_trail" "dom_set wide_dom wide_trail = {0..9999}"
    by (simp_all add: in_i32_def i32_min_def i32_max_def)
qed

section \<open>The preprocessor\<close>

text \<open>
  C3. A simplified formula stands for the original one: it has the same variables, every
  model of it becomes a model of the original through \<open>reconstruct_assignment\<close>, and it is
  satisfiable if the original is. Assumed are a formula of non-zero \<open>i32\<close> literals over at most
  \<open>i32::MAX\<close> variables, and options that are safe: basic simplification is on, or neither
  self-subsuming resolution nor variable elimination is.
\<close>

theorem simplified_sound:
  assumes "cnf_ok F" "vars_fit (c_vars F)" "safe_options opts"
    and "preprocess_cnf F opts loads = Some (Simplified G stats steps)"
  shows "c_vars G = c_vars F \<and>
    (\<forall>a. assignment_satisfies G a \<longrightarrow> assignment_satisfies F (reconstruct_assignment a steps)) \<and>
    ((\<exists>a. assignment_satisfies F a) \<longrightarrow> (\<exists>a. assignment_satisfies G a))"
proof -
  obtain re where "preprocess_cnf_inner F opts (pp_env F loads None) = Some re" "outcome_of re = Some (Simplified G stats steps)"
    using assms(4) by (auto simp: preprocess_cnf_def bind_eq_Some_conv)
  then show ?thesis
    using preprocess_inner_sound [OF assms(1,3)] assms(2)
    by (cases re rule: outcome_of.cases) (fastforce simp: result_ok_def satisfiable_def)+
qed

theorem simplified_sound_witness:
  "assignment_satisfies xor_cnf (reconstruct_assignment [False, False] [EliminatedVariable 1 [[1, 2]] [[-2, -1]]])"
proof -
  have "preprocess_cnf xor_cnf options_full [] = Some (Simplified \<lparr>c_vars = 2, c_clauses = []\<rparr>
      (pp_stats_default\<lparr>ps_rounds := 2, ps_bve_variables := 1, ps_input_clauses := 2\<rparr>)
      [EliminatedVariable 1 [[1, 2]] [[-2, -1]]])"
    by code_simp
  moreover have "cnf_ok xor_cnf" "vars_fit (c_vars xor_cnf)" "safe_options options_full" by code_simp+
  moreover have "assignment_satisfies \<lparr>c_vars = 2, c_clauses = []\<rparr> [False, False]" by code_simp
  ultimately show ?thesis using simplified_sound [of xor_cnf options_full] by blast
qed

text \<open>
  C4. A formula reported unsatisfiable has no model, under the same assumptions: non-zero
  \<open>i32\<close> literals, at most \<open>i32::MAX\<close> variables, safe options. Both are needed: below is a
  refuted formula with a model under options that are not safe, in SatWrap one with \<open>2^31\<close> variables.
\<close>

theorem unsatisfiable_sound:
  assumes "cnf_ok F" "vars_fit (c_vars F)" "safe_options opts" "preprocess_cnf F opts loads = Some (Unsatisfiable stats)"
  shows "\<not> (\<exists>a. assignment_satisfies F a)"
proof -
  obtain re where "preprocess_cnf_inner F opts (pp_env F loads None) = Some re" "outcome_of re = Some (Unsatisfiable stats)"
    using assms(4) by (auto simp: preprocess_cnf_def bind_eq_Some_conv)
  then show ?thesis
    using preprocess_inner_sound [OF assms(1,3)] assms(2)
    by (cases re rule: outcome_of.cases) (fastforce simp: result_ok_def refutable_def satisfiable_def)+
qed

theorem unsatisfiable_sound_witness: "\<not> (\<exists>a. assignment_satisfies chain_cnf a)"
proof -
  have "preprocess_cnf chain_cnf options_basic [] = Some (Unsatisfiable
      (pp_stats_default\<lparr>ps_rounds := 2, ps_unit_assignments := 2, ps_input_clauses := 3\<rparr>))"
    by code_simp
  moreover have "cnf_ok chain_cnf" "vars_fit (c_vars chain_cnf)" "safe_options options_basic" by code_simp+
  ultimately show ?thesis using unsatisfiable_sound by blast
qed

text \<open>
  C10. With basic simplification on, preprocessing of a well-formed formula (non-zero \<open>i32\<close>
  literals of its variables, of which there may be any number) ends, however the stop flag
  behaves, and it ends without a panic.
\<close>

theorem preprocessing_terminates:
  "cnf_ok F \<Longrightarrow> basic_simplification opts \<Longrightarrow> \<exists>out. preprocess_cnf F opts loads = Some out"
proof -
  assume F: "cnf_ok F" "basic_simplification opts"
  obtain re where re: "preprocess_cnf_inner F opts (pp_env F loads None) = Some re" using preprocess_inner_total [OF F] by blast
  have "result_ok F (fst re)" by (rule preprocess_inner_sound [OF F(1) _ re]) (simp add: safe_options_def F(2))
  then show ?thesis using re by (cases re rule: outcome_of.cases) (auto simp: preprocess_cnf_def result_ok_def)
qed

theorem preprocessing_terminates_witness: "\<exists>out. preprocess_cnf taut_cnf options_full [False, True] = Some out"
  by (rule preprocessing_terminates) code_simp+

text \<open>
  C24. With basic simplification on, at most \<open>i32::MAX\<close> variables and the stop flag down, a run
  decides: it is not interrupted and does not panic, it returns a simplified formula that is
  satisfiable exactly when the original is, or a refutation of a formula without a model.
\<close>

theorem uninterrupted_run_decides:
  assumes "cnf_ok F" "basic_simplification opts" "vars_fit (c_vars F)"
  shows "case preprocess_cnf F opts [] of
      Some (Simplified G _ steps) \<Rightarrow>
        (\<exists>a. assignment_satisfies F a) = (\<exists>a. assignment_satisfies G a)
    | Some (Unsatisfiable _) \<Rightarrow> \<not> (\<exists>a. assignment_satisfies F a)
    | Some (InterruptedWith _) \<Rightarrow> False
    | None \<Rightarrow> False"
proof -
  obtain re where re: "preprocess_cnf_inner F opts (pp_env F [] None) = Some re"
    using preprocess_inner_total [OF assms(1,2)] by blast
  have safe: "safe_options opts" using assms(2) by (simp add: safe_options_def)
  have "result_ok F (fst re)" by (rule preprocess_inner_sound [OF assms(1) safe re])
  moreover have "fst re \<noteq> Err Interrupted" by (rule inner_quiet [OF re]) (simp add: pp_env_def)
  ultimately show ?thesis
    using re assms(3) by (cases re rule: outcome_of.cases) (auto simp: preprocess_cnf_def result_ok_def refutable_def satisfiable_def)
qed

theorem uninterrupted_run_decides_witness:
  "case preprocess_cnf chain_cnf options_full [] of Some (Unsatisfiable _) \<Rightarrow> True | _ \<Rightarrow> False"
proof -
  have "cnf_ok chain_cnf" "basic_simplification options_full" "vars_fit (c_vars chain_cnf)" by code_simp+
  note run = uninterrupted_run_decides [OF this]
  have "preprocess_cnf chain_cnf options_full [] = Some (Unsatisfiable
      (pp_stats_default\<lparr>ps_rounds := 2, ps_unit_assignments := 2, ps_input_clauses := 3\<rparr>))"
    by code_simp
  then show ?thesis using run by simp
qed

text \<open>
  Writing a proof log does not change the outcome.
\<close>

theorem proof_log_is_neutral:
  "map_option fst (preprocess_cnf_with_proof F opts loads) = preprocess_cnf F opts loads"
  by (rule outcome_with_proof)

text \<open>
  C27. Without basic simplification, self-subsuming resolution is unsound: it strengthens
  clauses with a tautology and refutes a formula that has a model.
\<close>

theorem self_subsumption_needs_basic:
  "(\<exists>a. assignment_satisfies taut_cnf a) \<and>
   preprocess_cnf taut_cnf (options_off\<lparr>self_subsuming_resolution := True\<rparr>) [] =
     Some (Unsatisfiable (pp_stats_default\<lparr>ps_rounds := 2, ps_self_subsumed_literals := 4, ps_input_clauses := 4\<rparr>))"
proof
  have "assignment_satisfies taut_cnf [False, False, False]" by code_simp
  then show "\<exists>a. assignment_satisfies taut_cnf a" by blast
  show "preprocess_cnf taut_cnf (options_off\<lparr>self_subsuming_resolution := True\<rparr>) [] =
     Some (Unsatisfiable (pp_stats_default\<lparr>ps_rounds := 2, ps_self_subsumed_literals := 4, ps_input_clauses := 4\<rparr>))"
    by code_simp
qed

text \<open>
  The scans of self-subsuming resolution end: any bound above the number of literals
  gives the same run as the bound the model uses, on every environment.
\<close>

theorem self_subsumption_terminates:
  "literal_count cs < k \<Longrightarrow> own_work (self_subsume_loop k cs False) = self_subsume_clauses cs"
  using self_subsume_fuel [of cs k "Suc (literal_count cs)" False] by (simp add: self_subsume_clauses_def)

theorem self_subsumption_terminates_witness:
  "own_work (self_subsume_loop 100 [[1, 2], [-1, 2]] False) = self_subsume_clauses [[1, 2], [-1, 2]]"
  by (rule self_subsumption_terminates) code_simp

section \<open>The integer domain\<close>

text \<open>
  C8. A domain over a trail refines a set of integers with a stack of saved sets: any
  sequence of removals, fixings, bound changes, level pushes and pops acts on the set of
  values, and on the sets saved by the open levels, as the set operations do.
\<close>

theorem domain_refines_set:
  assumes "dom_ok d t" "run_cmds dom_can dom_apply dom_push dom_pop cs (d, t) = Some (d', t')"
  shows "dom_ok d' t' \<and>
    spec_cmds set_apply cs (dom_set d t, dom_saved (d, t)) = Some (dom_set d' t', dom_saved (d', t'))"
  using idom.run_refines [of "(d, t)" cs "(d', t')"] assms by (simp add: dom_inv_def dom_view_def)

definition sample_cmds :: "dom_op cmd list" where
  "sample_cmds = [Push, Op (Remove 3), Push, Op (Fix 9), Pop, Op (Above 8)]"

theorem domain_refines_set_witness:
  "\<exists>d' t'. run_cmds dom_can dom_apply dom_push dom_pop sample_cmds (set_dom, set_trail) = Some (d', t') \<and> dom_set d' t' = {1}"
proof -
  have "run_cmds dom_can dom_apply dom_push dom_pop sample_cmds (set_dom, set_trail) \<noteq> None" by code_simp
  then obtain d' t' where run: "run_cmds dom_can dom_apply dom_push dom_pop sample_cmds (set_dom, set_trail) = Some (d', t')"
    by (metis option.exhaust surj_pair)
  have "spec_cmds set_apply sample_cmds (dom_set set_dom set_trail, dom_saved (set_dom, set_trail)) =
      Some (dom_set d' t', dom_saved (d', t'))"
    using domain_refines_set [OF set_dom_ok(1) run] by blast
  moreover have "{x \<in> {1, 3, 9} - {3}. x \<le> 8} = {1 :: int}" by auto
  ultimately have "dom_set d' t' = {1}" unfolding set_dom_ok(2) sample_cmds_def by simp
  with run show ?thesis by simp
qed

text \<open>
  Whatever happens between a push and the matching pop, nested levels included, leaves
  the values of the domain and the saved levels as they were.
\<close>

theorem domain_backtracks:
  assumes "dom_ok d t" "depth_ok 0 cs"
    and "run_cmds dom_can dom_apply dom_push dom_pop (Push # cs @ [Pop]) (d, t) = Some (d', t')"
  shows "dom_set d' t' = dom_set d t \<and> dom_saved (d', t') = dom_saved (d, t)"
  using idom.push_pop_restores [of "(d, t)" cs "(d', t')"] assms by (simp add: dom_inv_def dom_view_def)

theorem domain_backtracks_witness:
  "\<exists>d' t'. run_cmds dom_can dom_apply dom_push dom_pop [Push, Op (Remove 3), Op (Below 2), Pop] (set_dom, set_trail) = Some (d', t') \<and>
     dom_set d' t' = {1, 3, 9}"
proof -
  let ?cs = "[Op (Remove 3), Op (Below 2)]"
  have "run_cmds dom_can dom_apply dom_push dom_pop (Push # ?cs @ [Pop]) (set_dom, set_trail) \<noteq> None" by code_simp
  then obtain d' t' where run: "run_cmds dom_can dom_apply dom_push dom_pop (Push # ?cs @ [Pop]) (set_dom, set_trail) = Some (d', t')"
    by (metis option.exhaust surj_pair)
  have "depth_ok 0 ?cs" by simp
  then have "dom_set d' t' = {1, 3, 9}"
    using domain_backtracks [OF set_dom_ok(1) _ run] set_dom_ok(2) by simp
  with run show ?thesis by simp
qed

text \<open>
  C25. \<open>remove\<close> removes exactly its argument, keeps the invariant and the saved levels,
  writes to the domain's own handles only, and reports a change exactly when there was one.
\<close>

theorem remove_exact:
  "\<lbrakk>dom_ok d t; hole_room d t\<rbrakk> \<Longrightarrow> case dom_remove d val t of (d', t', ch) \<Rightarrow>
     dom_step d t d' t' (dom_set d t - {val}) \<and> (ch \<longleftrightarrow> val \<in> dom_set d t)"
  by (cases "dom_remove d val t") (simp add: dom_remove_step)

theorem remove_exact_witness:
  "case dom_remove wide_dom 7 wide_trail of (d', t', ch) \<Rightarrow> dom_set d' t' = {0..9999} - {7} \<and> ch"
proof -
  have "hole_room wide_dom wide_trail" by code_simp
  then show ?thesis
    using remove_exact [OF wide_dom_ok(1), of 7] wide_dom_ok(2) by (auto simp: dom_step_def split: prod.splits)
qed

text \<open>
  C26. \<open>fix\<close> leaves exactly its argument, or reports an inconsistency and changes nothing.
\<close>

theorem fix_exact:
  "dom_ok d t \<Longrightarrow> case dom_fix d val t of (d', t', r) \<Rightarrow>
     if val \<in> dom_set d t then dom_step d t d' t' {val} \<and> r = Ok (card (dom_set d t) > 1)
     else d' = d \<and> t' = t \<and> r = Err Inconsistency"
  using dom_fix_step [of d t val] size_ok [of d t] by (cases "dom_fix d val t") auto

theorem fix_exact_witness:
  "snd (snd (dom_fix set_dom 2 set_trail)) = Err Inconsistency"
  using fix_exact [OF set_dom_ok(1), of 2] set_dom_ok(2) by (auto split: prod.splits)

text \<open>
  \<open>remove_below\<close> keeps exactly the values at or above the bound.
\<close>

theorem remove_below_exact:
  "\<lbrakk>dom_ok d t; in_i32 bound\<rbrakk> \<Longrightarrow> case dom_remove_below d bound t of (d', t', ch) \<Rightarrow>
     dom_step d t d' t' {x \<in> dom_set d t. bound \<le> x} \<and> (ch \<longleftrightarrow> (\<exists>x \<in> dom_set d t. x < bound))"
  by (cases "dom_remove_below d bound t") (simp add: dom_remove_below_step)

theorem remove_below_exact_witness:
  "case dom_remove_below set_dom 4 set_trail of (d', t', ch) \<Rightarrow> dom_set d' t' = {9} \<and> ch"
proof -
  have "in_i32 4" by code_simp
  moreover have "{x \<in> {1, 3, 9}. 4 \<le> x} = {9 :: int}" by auto
  ultimately show ?thesis
    using remove_below_exact [OF set_dom_ok(1), of 4] set_dom_ok(2) by (auto simp: dom_step_def split: prod.splits)
qed

text \<open>
  \<open>remove_above\<close> keeps exactly the values at or below the bound.
\<close>

theorem remove_above_exact:
  "\<lbrakk>dom_ok d t; in_i32 bound\<rbrakk> \<Longrightarrow> case dom_remove_above d bound t of (d', t', ch) \<Rightarrow>
     dom_step d t d' t' {x \<in> dom_set d t. x \<le> bound} \<and> (ch \<longleftrightarrow> (\<exists>x \<in> dom_set d t. bound < x))"
  by (cases "dom_remove_above d bound t") (simp add: dom_remove_above_step)

theorem remove_above_exact_witness:
  "case dom_remove_above wide_dom 4 wide_trail of (d', t', ch) \<Rightarrow> dom_set d' t' = {0..4} \<and> ch"
proof -
  have "in_i32 4" by code_simp
  moreover have "{x \<in> {0..9999}. x \<le> 4} = {0..4 :: int}" by auto
  moreover have "\<exists>x \<in> {0..9999 :: int}. 4 < x" by (rule bexI [of _ 9999]) simp_all
  ultimately show ?thesis
    using remove_above_exact [OF wide_dom_ok(1), of 4] unfolding wide_dom_ok(2)
    by (cases "dom_remove_above wide_dom 4 wide_trail") (simp add: dom_step_def)
qed

text \<open>
  The reads agree with the set: size, bounds, membership and the iterated values, the
  iterator yielding every value once.
\<close>

theorem reads_agree:
  assumes "dom_ok d t"
  shows "dom_size d t = card (dom_set d t) \<and>
    (\<forall>v. dom_contains d v t \<longleftrightarrow> v \<in> dom_set d t) \<and>
    set (dom_values d t) = dom_set d t \<and> distinct (dom_values d t) \<and>
    (dom_set d t \<noteq> {} \<longrightarrow> dom_min d t = Min (dom_set d t) \<and> dom_max d t = Max (dom_set d t))"
  using assms by (simp add: size_ok contains_ok values_ok min_max_ok)

theorem reads_agree_witness: "dom_size wide_dom wide_trail = 10000 \<and> dom_max wide_dom wide_trail = 9999"
  using reads_agree [OF wide_dom_ok(1)] wide_dom_ok(2) by (auto simp: Max_eq_iff)

text \<open>
  A range is built whatever storage its width selects, and a reversed range panics.
\<close>

theorem new_range_exact:
  assumes "trail_ok t" "in_i32 lo" "in_i32 hi"
  shows "case dom_new_range lo hi t of None \<Rightarrow> hi < lo | Some (d, t') \<Rightarrow> dom_ok d t' \<and> dom_set d t' = {lo..hi}"
  using dom_new_range_ok [OF assms] by (auto simp: dom_new_range_def Let_def split: option.splits if_splits)

theorem new_range_exact_witness: "case dom_new_range 3 90000 trail_new of None \<Rightarrow> False | Some (d, t') \<Rightarrow> dom_set d t' = {3..90000}"
proof -
  have "in_i32 3" "in_i32 90000" by code_simp+
  from new_range_exact [OF trail_ok_new this] show ?thesis by (auto split: option.splits)
qed

text \<open>
  An explicit set is built whatever storage it selects, duplicates and order of the
  argument notwithstanding.
\<close>

theorem new_set_exact:
  assumes "trail_ok t" "\<forall>v \<in> set values. in_i32 v" "dom_new_set values t = Some (d, t')"
  shows "dom_ok d t' \<and> dom_set d t' = set values"
  using dom_new_set_ok [OF assms] .

theorem new_set_exact_witness: "\<exists>d t'. dom_new_set [5, 2, 5, 3] trail_new = Some (d, t') \<and> dom_set d t' = {2, 3, 5}"
proof -
  have "sort_dedup [5, 2, 5, 3] = [2, 3, 5 :: int]" by code_simp
  then have "dom_new_set [5, 2, 5, 3] trail_new \<noteq> None"
    by (simp add: dom_new_set_def span_len_def max_dense_set_span_def dense_set_factor_def)
  then obtain d t' where new: "dom_new_set [5, 2, 5, 3] trail_new = Some (d, t')" by (metis option.exhaust surj_pair)
  have "\<forall>v \<in> set [5, 2, 5, 3]. in_i32 v" by code_simp
  from new_set_exact [OF trail_ok_new this new] have "dom_set d t' = {2, 3, 5}" by auto
  with new show ?thesis by blast
qed

text \<open>
  \<open>ceiling\<close> is the least value at or above its target, \<open>None\<close> if there is none.
\<close>

theorem ceiling_exact:
  assumes "dom_ok d t" "in_i32 target"
  shows "dom_ceiling d target t =
    (if {v \<in> dom_set d t. target \<le> v} = {} then None else Some (Min {v \<in> dom_set d t. target \<le> v}))"
  using ceiling_ok [OF assms] .

theorem ceiling_exact_witness: "dom_ceiling set_dom 4 set_trail = Some 9"
proof -
  have i: "in_i32 4" by code_simp
  have one: "{v \<in> {1, 3, 9}. 4 \<le> v} = {9 :: int}" by auto
  show ?thesis using ceiling_exact [OF set_dom_ok(1) i] unfolding set_dom_ok(2) one by simp
qed

text \<open>
  \<open>append_removed_values\<close> appends to its output exactly the values of the root support
  strictly inside the bounds that are gone.
\<close>

theorem removed_values_exact:
  assumes "dom_ok d t" "dom_set d t \<noteq> {}"
  shows "\<exists>vs. dom_append_removed_values d t out = out @ vs \<and>
    set vs = {v \<in> dom_root d. dom_min d t < v \<and> v < dom_max d t \<and> v \<notin> dom_set d t}"
  using append_removed_eq set_removed [OF assms] by blast

theorem removed_values_exact_witness: "\<exists>vs. dom_append_removed_values set_dom set_trail [8] = 8 # vs \<and> set vs = {}"
proof -
  have root: "dom_root set_dom = {1, 3, 9}" by code_simp
  have "dom_set set_dom set_trail \<noteq> {}" by (simp add: set_dom_ok(2))
  from removed_values_exact [OF set_dom_ok(1) this, of "[8]"]
  obtain vs where "dom_append_removed_values set_dom set_trail [8] = [8] @ vs" "set vs \<subseteq> {1, 3, 9} - {1, 3, 9}"
    unfolding root set_dom_ok(2) by blast
  then show ?thesis by auto
qed

text \<open>
  The interruptible variant returns what the plain one returns, or leaves the output
  as it was; with no stop it always completes.
\<close>

theorem removed_values_until_atomic:
  "(case dom_append_removed_values_until d t out stops of (out', fin, _) \<Rightarrow>
      out' = (if fin then dom_append_removed_values d t out else out)) \<and>
   dom_append_removed_values_until d t out [] = (dom_append_removed_values d t out, True, [])"
  using append_until_ok append_until_no_stop by (auto split: prod.splits)

text \<open>
  Writes to other handles of the same trail, and registering new ones, do not disturb
  a domain.
\<close>

theorem domain_framed:
  assumes "dom_ok d t"
  shows "(\<forall>H t'. trail_writes H t t' \<and> H \<inter> set (handle_list d) = {} \<longrightarrow> dom_ok d t' \<and> dom_set d t' = dom_set d t) \<and>
    dom_ok d (fst (trail_new_int t v)) \<and> dom_set d (fst (trail_new_int t v)) = dom_set d t"
  using dom_frame [OF assms] dom_ok_new_int [OF assms] by blast

theorem domain_framed_witness: "dom_set set_dom (fst (trail_new_int set_trail 77)) = {1, 3, 9}"
  using domain_framed [OF set_dom_ok(1), of 77] set_dom_ok(2) by simp

section \<open>The trail\<close>

text \<open>
  C9. The trail refines a vector with a stack of saved vectors: epochs leave most writes
  unlogged, and every command sequence still acts on the current and on all saved vectors
  as plain assignment, push and pop would.
\<close>

theorem trail_refines_vectors:
  assumes "trail_ok t" "run_cmds trail_can trail_write trail_push_level trail_pop_level cs t = Some t'"
  shows "trail_ok t' \<and> spec_cmds vec_write cs (t_values t, snapshots t) = Some (t_values t', snapshots t')"
  using tr.run_refines [OF assms] .

definition two_ints :: trail where
  "two_ints = fst (trail_new_int (fst (trail_new_int trail_new 5)) 6)"

definition trail_cmds :: "(nat \<times> int) cmd list" where
  "trail_cmds = [Push, Op (0, 1), Op (0, 2), Push, Op (1, 9), Op (0, 3), Pop, Pop, Op (1, 8)]"

theorem trail_refines_vectors_witness:
  "\<exists>t'. run_cmds trail_can trail_write trail_push_level trail_pop_level trail_cmds two_ints = Some t' \<and> t_values t' = [5, 8]"
proof -
  have "run_cmds trail_can trail_write trail_push_level trail_pop_level trail_cmds two_ints \<noteq> None" by code_simp
  then obtain t' where run: "run_cmds trail_can trail_write trail_push_level trail_pop_level trail_cmds two_ints = Some t'" by blast
  have ok: "trail_ok two_ints" unfolding two_ints_def by (intro trail_ok_new_int trail_ok_new)
  have "spec_cmds vec_write trail_cmds ([5, 6], []) = Some ([5, 8], [])" by code_simp
  moreover have "t_values two_ints = [5, 6]" "snapshots two_ints = []" by code_simp+
  ultimately have "t_values t' = [5, 8]" using trail_refines_vectors [OF ok run] by simp
  with run show ?thesis by blast
qed

text \<open>
  Popping a level restores every reversible integer, after any nested commands.
\<close>

theorem trail_backtracks:
  assumes "trail_ok t" "depth_ok 0 cs"
    and "run_cmds trail_can trail_write trail_push_level trail_pop_level (Push # cs @ [Pop]) t = Some t'"
  shows "t_values t' = t_values t \<and> snapshots t' = snapshots t"
  using tr.push_pop_restores [OF assms] .

theorem trail_backtracks_witness:
  "\<exists>t'. run_cmds trail_can trail_write trail_push_level trail_pop_level [Push, Op (0, 1), Op (0, 2), Pop] two_ints = Some t' \<and>
     t_values t' = t_values two_ints"
proof -
  let ?cs = "[Op (0, 1), Op (0, 2)] :: (nat \<times> int) cmd list"
  have "run_cmds trail_can trail_write trail_push_level trail_pop_level (Push # ?cs @ [Pop]) two_ints \<noteq> None" by code_simp
  then obtain t' where run: "run_cmds trail_can trail_write trail_push_level trail_pop_level (Push # ?cs @ [Pop]) two_ints = Some t'" by blast
  have ok: "trail_ok two_ints" unfolding two_ints_def by (intro trail_ok_new_int trail_ok_new)
  have "depth_ok 0 ?cs" by simp
  from trail_backtracks [OF ok this run] run show ?thesis by auto
qed

end
